(* ===== verification/Rust_Prelude.thy ===== *)
theory Rust_Prelude
  imports Main "HOL-Library.Char_ord" "HOL-Library.Code_Target_Nat"
begin

text \<open>
  What the model uses of Rust's core language and standard library.

  A Rust \<open>str\<close> is a sequence of UTF-8 bytes, and every index and length of the code is a
  byte index. The model keeps that view: a \<open>string\<close> is a list of 8-bit characters, one per
  byte, so a literal of the code is the same literal here, and \<open>length\<close> is \<open>str::len\<close>.
  \<open>chunks\<close> splits a text into its UTF-8 sequences, so it is \<open>str::chars\<close> with each
  \<open>char\<close> still in its encoded form; \<open>code_point\<close> reads one of them.

  The Unicode tables of the standard library are used through \<open>char::is_alphabetic\<close> and
  \<open>char::is_numeric\<close> only. Above ASCII they are a parameter (the record \<open>unicode\<close>), about
  which nothing is assumed, so every theorem holds for the tables of any Unicode version.

  \<open>usize\<close> and \<open>u64\<close> are natural numbers with \<open>usize_max\<close> as the bound, where the code
  uses checked or saturating operations; the checks are written out.
\<close>

section \<open>Collections of facts\<close>

named_theorems scan_simps \<open>lengths and bounds of scanned prefixes\<close>
named_theorems ascii_simps \<open>definitions of the ASCII classes\<close>

section \<open>Result types\<close>

text \<open>A fallible function returns \<open>Inl error\<close> or \<open>Inr value\<close>, as \<open>Err\<close> and \<open>Ok\<close>.\<close>

type_synonym ('e, 'a) result = "'e + 'a"

definition ok_or :: "'e \<Rightarrow> 'a option \<Rightarrow> ('e, 'a) result" where
  "ok_or e x = (case x of None \<Rightarrow> Inl e | Some a \<Rightarrow> Inr a)"

definition and_then :: "('e, 'a) result \<Rightarrow> ('a \<Rightarrow> ('e, 'b) result) \<Rightarrow> ('e, 'b) result" where
  "and_then r f = (case r of Inl e \<Rightarrow> Inl e | Inr a \<Rightarrow> f a)"

lemma and_then_simps [simp]:
  "and_then (Inl e) f = Inl e"
  "and_then (Inr a) f = f a"
  by (simp_all add: and_then_def)

lemma ok_or_simps [simp]:
  "ok_or e None = Inl e"
  "ok_or e (Some a) = Inr a"
  by (simp_all add: ok_or_def)

lemma and_then_Inr_iff: "and_then r f = Inr b \<longleftrightarrow> (\<exists>a. r = Inr a \<and> f a = Inr b)"
  by (cases r) simp_all

lemma ok_or_Inr_iff: "ok_or e x = Inr a \<longleftrightarrow> x = Some a"
  by (cases x) simp_all

text \<open>\<open>anyhow::ensure!\<close>.\<close>

definition ensure :: "bool \<Rightarrow> 'e \<Rightarrow> ('e, unit) result" where
  "ensure b e = (if b then Inr () else Inl e)"

lemma ensure_Inr [simp]: "ensure b e = Inr x \<longleftrightarrow> b"
  by (simp add: ensure_def)

text \<open>A check of each element, in order, that stops at the first error.\<close>

fun check_all :: "('a \<Rightarrow> ('e, unit) result) \<Rightarrow> 'a list \<Rightarrow> ('e, unit) result" where
  "check_all f [] = Inr ()"
| "check_all f (x # xs) = and_then (f x) (\<lambda>_. check_all f xs)"

lemma check_all_Inr_iff: "check_all f xs = Inr () \<longleftrightarrow> (\<forall>x \<in> set xs. f x = Inr ())"
  by (induction xs) (auto simp: and_then_Inr_iff)

definition is_ok :: "('e, 'a) result \<Rightarrow> bool" where
  "is_ok r = (case r of Inl _ \<Rightarrow> False | Inr _ \<Rightarrow> True)"

lemma is_ok_simps [simp]: "\<not> is_ok (Inl e)" "is_ok (Inr a)"
  by (simp_all add: is_ok_def)

section \<open>Machine integers of the code\<close>

text \<open>\<open>usize\<close> on the supported 64-bit targets, and \<open>u64\<close>.\<close>

definition usize_max :: nat where
  "usize_max = 18446744073709551615"

definition checked_add :: "nat \<Rightarrow> nat \<Rightarrow> nat option" where
  "checked_add a b = (if a + b \<le> usize_max then Some (a + b) else None)"

definition checked_mul :: "nat \<Rightarrow> nat \<Rightarrow> nat option" where
  "checked_mul a b = (if a * b \<le> usize_max then Some (a * b) else None)"

definition checked_sub :: "nat \<Rightarrow> nat \<Rightarrow> nat option" where
  "checked_sub a b = (if b \<le> a then Some (a - b) else None)"

lemma checked_add_Some_iff: "checked_add a b = Some c \<longleftrightarrow> c = a + b \<and> a + b \<le> usize_max"
  by (auto simp: checked_add_def)

lemma checked_mul_Some_iff: "checked_mul a b = Some c \<longleftrightarrow> c = a * b \<and> a * b \<le> usize_max"
  by (auto simp: checked_mul_def)

lemma checked_sub_Some_iff: "checked_sub a b = Some c \<longleftrightarrow> b \<le> a \<and> c = a - b"
  by (auto simp: checked_sub_def)

text \<open>\<open>saturating_sub\<close> on unsigned integers is the subtraction of \<open>nat\<close>.\<close>

definition saturating_add :: "nat \<Rightarrow> nat \<Rightarrow> nat" where
  "saturating_add a b = min usize_max (a + b)"

section \<open>Bytes: the ASCII classes of \<open>u8\<close>\<close>

definition byte :: "char \<Rightarrow> nat" where
  "byte c = of_char c"

definition is_ascii :: "char \<Rightarrow> bool" where
  [ascii_simps]: "is_ascii c \<longleftrightarrow> byte c < 128"

definition is_ascii_digit :: "char \<Rightarrow> bool" where
  [ascii_simps]: "is_ascii_digit c \<longleftrightarrow> 48 \<le> byte c \<and> byte c \<le> 57"

definition is_ascii_upper :: "char \<Rightarrow> bool" where
  [ascii_simps]: "is_ascii_upper c \<longleftrightarrow> 65 \<le> byte c \<and> byte c \<le> 90"

definition is_ascii_lower :: "char \<Rightarrow> bool" where
  [ascii_simps]: "is_ascii_lower c \<longleftrightarrow> 97 \<le> byte c \<and> byte c \<le> 122"

definition is_ascii_alphabetic :: "char \<Rightarrow> bool" where
  [ascii_simps]: "is_ascii_alphabetic c \<longleftrightarrow> is_ascii_upper c \<or> is_ascii_lower c"

definition is_ascii_alphanumeric :: "char \<Rightarrow> bool" where
  [ascii_simps]: "is_ascii_alphanumeric c \<longleftrightarrow> is_ascii_alphabetic c \<or> is_ascii_digit c"

text \<open>\<open>u8::is_ascii_whitespace\<close>: space, tab, line feed, form feed, carriage return.\<close>

definition is_ascii_whitespace :: "char \<Rightarrow> bool" where
  [ascii_simps]: "is_ascii_whitespace c \<longleftrightarrow>
     byte c = 32 \<or> byte c = 9 \<or> byte c = 10 \<or> byte c = 12 \<or> byte c = 13"

definition to_ascii_lower :: "char \<Rightarrow> char" where
  [ascii_simps]: "to_ascii_lower c = (if is_ascii_upper c then char_of (byte c + 32) else c)"

definition to_ascii_upper :: "char \<Rightarrow> char" where
  [ascii_simps]: "to_ascii_upper c = (if is_ascii_lower c then char_of (byte c - 32) else c)"

abbreviation to_ascii_lowercase :: "string \<Rightarrow> string" where
  "to_ascii_lowercase s \<equiv> map to_ascii_lower s"

abbreviation to_ascii_uppercase :: "string \<Rightarrow> string" where
  "to_ascii_uppercase s \<equiv> map to_ascii_upper s"

text \<open>\<open>str::eq_ignore_ascii_case\<close>.\<close>

definition eq_ignore_ascii_case :: "string \<Rightarrow> string \<Rightarrow> bool" where
  "eq_ignore_ascii_case a b \<longleftrightarrow> to_ascii_lowercase a = to_ascii_lowercase b"

lemma eq_ignore_ascii_case_refl [simp]: "eq_ignore_ascii_case a a"
  by (simp add: eq_ignore_ascii_case_def)

lemma eq_ignore_ascii_case_length: "eq_ignore_ascii_case a b \<Longrightarrow> length a = length b"
  unfolding eq_ignore_ascii_case_def by (drule arg_cong [where f = length]) simp

lemma byte_less_256 [simp]: "byte c < 256"
  by (simp add: byte_def)

lemma byte_eq_iff [simp]: "byte c = byte d \<longleftrightarrow> c = d"
  unfolding byte_def by (simp add: of_char_eq_iff)

lemma byte_char_of [simp]: "n < 256 \<Longrightarrow> byte (char_of n) = n"
  unfolding byte_def by simp

lemma char_of_byte [simp]: "char_of (byte c) = c"
  unfolding byte_def by simp

section \<open>Slices\<close>

text \<open>\<open>&s[a..b]\<close> for \<open>a \<le> b \<le> s.len()\<close>.\<close>

definition slice :: "'a list \<Rightarrow> nat \<times> nat \<Rightarrow> 'a list" where
  "slice s r = take (snd r - fst r) (drop (fst r) s)"

lemma slice_empty [simp]: "slice s (i, i) = []"
  by (simp add: slice_def)

lemma slice_full [simp]: "slice s (0, length s) = s"
  by (simp add: slice_def)

lemma length_slice [simp]: "b \<le> length s \<Longrightarrow> length (slice s (a, b)) = b - a"
  by (simp add: slice_def)

lemma slice_append: "a \<le> b \<Longrightarrow> b \<le> c \<Longrightarrow> slice s (a, b) @ slice s (b, c) = slice s (a, c)"
proof -
  assume ab: "a \<le> b" and bc: "b \<le> c"
  have "take (c - a) (drop a s) = take ((b - a) + (c - b)) (drop a s)"
    using ab bc by simp
  also have "\<dots> = take (b - a) (drop a s) @ take (c - b) (drop (b - a) (drop a s))"
    by (rule take_add)
  also have "drop (b - a) (drop a s) = drop b s"
    using ab by simp
  finally show ?thesis by (simp add: slice_def)
qed

lemma slice_split:
  assumes "a \<le> b"
  shows "take a s @ slice s (a, b) @ drop b s = s"
proof -
  have "slice s (a, b) @ drop b s = take (b - a) (drop a s) @ drop (b - a) (drop a s)"
    using assms by (simp add: slice_def)
  also have "\<dots> = drop a s" by (rule append_take_drop_id)
  finally show ?thesis by (simp only: append_take_drop_id)
qed

text \<open>A sequence of ranges that tile the interval from \<open>a\<close> to \<open>b\<close>, each not empty.\<close>

fun tiles :: "nat \<Rightarrow> (nat \<times> nat) list \<Rightarrow> nat \<Rightarrow> bool" where
  "tiles a [] b \<longleftrightarrow> a = b"
| "tiles a (r # rs) b \<longleftrightarrow> fst r = a \<and> a < snd r \<and> tiles (snd r) rs b"

lemma tiles_le: "tiles a rs b \<Longrightarrow> a \<le> b"
  by (induction rs arbitrary: a) force+

lemma tiles_concat: "tiles a rs b \<Longrightarrow> concat (map (slice s) rs) = slice s (a, b)"
proof (induction rs arbitrary: a)
  case Nil
  then show ?case by simp
next
  case (Cons r rs)
  then have r: "fst r = a" "a < snd r" "tiles (snd r) rs b" by simp_all
  then have "slice s r = slice s (a, snd r)" by (metis prod.collapse)
  moreover have "slice s (a, snd r) @ slice s (snd r, b) = slice s (a, b)"
    using r tiles_le by (intro slice_append) auto
  ultimately show ?case using Cons.IH r(3) by simp
qed

lemma tiles_bounds:
  "tiles a rs b \<Longrightarrow> r \<in> set rs \<Longrightarrow> a \<le> fst r \<and> fst r < snd r \<and> snd r \<le> b"
proof (induction rs arbitrary: a)
  case Nil
  then show ?case by simp
next
  case (Cons q rs)
  then show ?case using tiles_le by fastforce
qed

section \<open>Searching\<close>

text \<open>\<open>str::starts_with\<close> and \<open>str::find\<close> with a string pattern.\<close>

fun starts_with :: "'a list \<Rightarrow> 'a list \<Rightarrow> bool" where
  "starts_with _ [] = True"
| "starts_with [] (_ # _) = False"
| "starts_with (x # xs) (p # ps) \<longleftrightarrow> x = p \<and> starts_with xs ps"

lemma starts_with_iff: "starts_with xs ps \<longleftrightarrow> (\<exists>ys. xs = ps @ ys)"
  by (induction xs ps rule: starts_with.induct) auto

lemma starts_with_append [simp]: "starts_with (ps @ ys) ps"
  by (auto simp: starts_with_iff)

lemma starts_with_length: "starts_with xs ps \<Longrightarrow> length ps \<le> length xs"
  by (auto simp: starts_with_iff)

fun find_str :: "'a list \<Rightarrow> 'a list \<Rightarrow> nat option" where
  "find_str [] p = (if p = [] then Some 0 else None)"
| "find_str (x # xs) p =
     (if starts_with (x # xs) p then Some 0 else map_option Suc (find_str xs p))"

lemma find_str_Some:
  "find_str xs p = Some i \<Longrightarrow> i + length p \<le> length xs \<and> starts_with (drop i xs) p"
proof (induction xs arbitrary: i)
  case Nil
  then show ?case by (auto split: if_splits)
next
  case (Cons x xs)
  show ?case
  proof (cases "starts_with (x # xs) p")
    case True
    then have "length p \<le> length (x # xs)" by (rule starts_with_length)
    with True Cons.prems show ?thesis by auto
  next
    case False
    with Cons.prems obtain j where j: "find_str xs p = Some j" "i = Suc j" by auto
    with Cons.IH [OF j(1)] show ?thesis by simp
  qed
qed

definition strip_prefix :: "'a list \<Rightarrow> 'a list \<Rightarrow> 'a list option" where
  "strip_prefix xs p = (if starts_with xs p then Some (drop (length p) xs) else None)"

lemma strip_prefix_append [simp]: "strip_prefix (p @ xs) p = Some xs"
  by (simp add: strip_prefix_def)

lemma strip_prefix_Some_iff: "strip_prefix xs p = Some ys \<longleftrightarrow> xs = p @ ys"
  by (auto simp: strip_prefix_def starts_with_iff)

definition contains_str :: "'a list \<Rightarrow> 'a list \<Rightarrow> bool" where
  "contains_str xs p \<longleftrightarrow> find_str xs p \<noteq> None"

text \<open>\<open>position\<close> of the first element with a property.\<close>

definition position :: "('a \<Rightarrow> bool) \<Rightarrow> 'a list \<Rightarrow> nat option" where
  "position p xs =
     (let n = length (takeWhile (\<lambda>x. \<not> p x) xs) in if n < length xs then Some n else None)"

lemma takeWhile_shorter: "length (takeWhile p xs) \<le> length xs"
  by (rule length_takeWhile_le)

lemma position_Some:
  assumes "position p xs = Some n"
  shows "n < length xs \<and> p (xs ! n) \<and> (\<forall>k < n. \<not> p (xs ! k))"
proof -
  from assms have n: "n = length (takeWhile (\<lambda>x. \<not> p x) xs)" "n < length xs"
    by (auto simp: position_def Let_def split: if_splits)
  moreover have "p (xs ! n)"
    using nth_length_takeWhile [of "\<lambda>x. \<not> p x" xs] n by simp
  moreover have "\<not> p (xs ! k)" if "k < n" for k
    using that n takeWhile_nth [of k "\<lambda>x. \<not> p x" xs] set_takeWhileD nth_mem by metis
  ultimately show ?thesis by blast
qed

lemma position_None: "position p xs = None \<longleftrightarrow> (\<forall>x \<in> set xs. \<not> p x)"
proof -
  have "position p xs = None \<longleftrightarrow> length (takeWhile (\<lambda>x. \<not> p x) xs) = length xs"
    using takeWhile_shorter [of "\<lambda>x. \<not> p x" xs] by (auto simp: position_def Let_def)
  also have "\<dots> \<longleftrightarrow> takeWhile (\<lambda>x. \<not> p x) xs = xs"
    by (metis takeWhile_eq_take take_all_iff order_refl)
  finally show ?thesis by (simp add: takeWhile_eq_all_conv)
qed

text \<open>\<open>Iterator::rposition\<close>, and \<open>str::rfind\<close> of an ASCII character: the last position.\<close>

definition rposition :: "('a \<Rightarrow> bool) \<Rightarrow> 'a list \<Rightarrow> nat option" where
  "rposition p s = map_option (\<lambda>i. length s - 1 - i) (position p (rev s))"

lemma rposition_Some:
  assumes "rposition p s = Some i"
  shows "i < length s \<and> p (s ! i) \<and> (\<forall>k. i < k \<and> k < length s \<longrightarrow> \<not> p (s ! k))"
proof -
  from assms obtain j where j: "position p (rev s) = Some j" "i = length s - 1 - j"
    by (auto simp: rposition_def)
  from position_Some [OF j(1)] have pj: "j < length s" "p (rev s ! j)" "\<forall>k < j. \<not> p (rev s ! k)"
    by auto
  have nth: "rev s ! (length s - 1 - k) = s ! k" if "k < length s" for k
    using that by (simp add: rev_nth)
  have "p (s ! i)" using pj nth [of i] j(2) by simp
  moreover have "\<not> p (s ! k)" if "i < k" "k < length s" for k
  proof -
    have "length s - 1 - k < j" using that j(2) pj(1) by simp
    then have "\<not> p (rev s ! (length s - 1 - k))" using pj(3) by blast
    then show ?thesis using nth [OF that(2)] by simp
  qed
  ultimately show ?thesis using pj(1) j(2) by auto
qed

lemma rposition_None: "rposition p s = None \<longleftrightarrow> (\<forall>x \<in> set s. \<not> p x)"
  by (simp add: rposition_def position_None)

section \<open>Sums over parts of a list\<close>

definition key_sum :: "('a \<Rightarrow> 'k) \<Rightarrow> ('a \<Rightarrow> nat) \<Rightarrow> 'k \<Rightarrow> 'a list \<Rightarrow> nat" where
  "key_sum key f k xs = sum_list (map f (filter (\<lambda>x. key x = k) xs))"

lemma key_sum_simps [simp]:
  "key_sum key f k [] = 0"
  "key_sum key f k (x # xs) = (if key x = k then f x else 0) + key_sum key f k xs"
  "key_sum key f k (xs @ ys) = key_sum key f k xs + key_sum key f k ys"
  by (simp_all add: key_sum_def)

lemma sum_list_filter_split:
  "sum_list (map f xs) = sum_list (map f (filter p xs)) + sum_list (map f (filter (\<lambda>x. \<not> p x) xs))"
  for f :: "'a \<Rightarrow> nat"
  by (induction xs) simp_all

lemma sum_list_filter_keys:
  "distinct ks \<Longrightarrow>
     sum_list (map f (filter (\<lambda>x. key x \<in> set ks) xs)) = sum_list (map (\<lambda>k. key_sum key f k xs) ks)"
proof (induction ks)
  case (Cons k ks)
  have "sum_list (map f (filter (\<lambda>x. key x \<in> set (k # ks)) xs))
      = key_sum key f k xs + sum_list (map f (filter (\<lambda>x. key x \<in> set ks) xs))"
    using Cons.prems by (induction xs) auto
  then show ?case using Cons by simp
qed simp

lemma key_sum_filter:
  "key_sum key f k (filter (\<lambda>x. key x \<notin> R) xs) = (if k \<in> R then 0 else key_sum key f k xs)"
  by (induction xs) auto

lemma key_sum_fresh: "\<forall>x \<in> set xs. key x \<noteq> k \<Longrightarrow> key_sum key f k xs = 0"
  by (induction xs) auto

section \<open>State machines with an invariant\<close>

definition run_from :: "('op \<Rightarrow> 's \<Rightarrow> 's) \<Rightarrow> 's \<Rightarrow> 'op list \<Rightarrow> 's" where
  "run_from step init ops = foldl (\<lambda>s op. step op s) init ops"

lemma run_from_Nil [simp]: "run_from step init [] = init"
  by (simp add: run_from_def)

lemma run_from_snoc [simp]: "run_from step init (ops @ [op]) = step op (run_from step init ops)"
  by (simp add: run_from_def)

text \<open>
  The contract of a component whose operations all keep an invariant: it holds after any sequence
  of operations from the initial state.
\<close>

locale kept_invariant =
  fixes init :: 's
    and step :: "'op \<Rightarrow> 's \<Rightarrow> 's"
    and inv :: "'s \<Rightarrow> bool"
  assumes inv_init: "inv init"
    and inv_step: "inv s \<Longrightarrow> inv (step op s)"
begin

lemma inv_run: "inv (run_from step init ops)"
  by (induction ops rule: rev_induct) (simp_all add: inv_init inv_step)

end

end
