(* ===== verification/Rust_Str.thy ===== *)
theory Rust_Str
  imports Rust_Prelude
begin

text \<open>
  The characters of a Rust \<open>str\<close>: its UTF-8 sequences, their code points, the Unicode classes
  the code asks for, and the operations of \<open>str\<close> that go by characters: \<open>chars\<close>, \<open>trim\<close>,
  \<open>chars().take(n)\<close>, \<open>is_char_boundary\<close>, \<open>split_once\<close>, \<open>lines\<close>.
\<close>

section \<open>UTF-8 sequences\<close>

text \<open>The length that the first byte of a sequence announces.\<close>

definition utf8_len :: "char \<Rightarrow> nat" where
  "utf8_len c =
     (if byte c < 192 then 1 else if byte c < 224 then 2 else if byte c < 240 then 3 else 4)"

lemma utf8_len_pos [simp]: "0 < utf8_len c"
  by (simp add: utf8_len_def)

lemma utf8_len_ascii [simp]: "byte c < 128 \<Longrightarrow> utf8_len c = 1"
  by (simp add: utf8_len_def)

fun chunks :: "string \<Rightarrow> string list" where
  "chunks [] = []"
| "chunks (c # cs) = (c # take (utf8_len c - 1) cs) # chunks (drop (utf8_len c - 1) cs)"

lemma concat_chunks [simp]: "concat (chunks s) = s"
  by (induction s rule: chunks.induct) simp_all

lemma chunks_nonempty: "c \<in> set (chunks s) \<Longrightarrow> c \<noteq> []"
  by (induction s rule: chunks.induct) auto

lemma chunks_eq_Nil [simp]: "chunks s = [] \<longleftrightarrow> s = []"
  by (cases s) simp_all

lemma chunks_ascii: "\<forall>c \<in> set s. byte c < 128 \<Longrightarrow> chunks s = map (\<lambda>c. [c]) s"
  by (induction s) simp_all

lemma chunks_ascii_Cons [simp]: "byte c < 128 \<Longrightarrow> chunks (c # s) = [c] # chunks s"
  by simp

lemma length_chunks_le: "length (chunks s) \<le> length s"
  by (induction s rule: chunks.induct) auto

fun code_point :: "string \<Rightarrow> nat" where
  "code_point [a] = byte a"
| "code_point [a, b] = (byte a mod 32) * 64 + byte b mod 64"
| "code_point [a, b, c] = (byte a mod 16) * 4096 + (byte b mod 64) * 64 + byte c mod 64"
| "code_point [a, b, c, d] =
     (byte a mod 8) * 262144 + (byte b mod 64) * 4096 + (byte c mod 64) * 64 + byte d mod 64"
| "code_point _ = 0"

definition chars_of :: "string \<Rightarrow> nat list" where
  "chars_of s = map code_point (chunks s)"

text \<open>\<open>s.chars().count()\<close> and \<open>s.chars().take(n).collect()\<close>.\<close>

definition char_count :: "string \<Rightarrow> nat" where
  "char_count s = length (chunks s)"

definition take_chars :: "nat \<Rightarrow> string \<Rightarrow> string" where
  "take_chars n s = concat (take n (chunks s))"

lemma chunks_concat_take: "chunks (concat (take n (chunks s))) = take n (chunks s)"
proof (induction s arbitrary: n rule: chunks.induct)
  case (2 c cs)
  show ?case
  proof (cases n)
    case (Suc m)
    let ?k = "utf8_len c - 1"
    let ?rest = "concat (take m (chunks (drop ?k cs)))"
    have "take ?k (take ?k cs @ ?rest) = take ?k cs \<and> drop ?k (take ?k cs @ ?rest) = ?rest"
    proof (cases "?k \<le> length cs")
      case True
      then show ?thesis by simp
    next
      case False
      then have "?rest = []" by simp
      with False show ?thesis by simp
    qed
    with 2 Suc show ?thesis by simp
  qed simp
qed simp

lemma char_count_take_chars: "char_count (take_chars n s) \<le> n"
  by (simp add: char_count_def take_chars_def chunks_concat_take)

lemma char_count_append_le: "char_count (s @ t) \<le> char_count s + length t"
proof (induction s arbitrary: t rule: chunks.induct)
  case 1
  then show ?case by (simp add: char_count_def length_chunks_le)
next
  case (2 c cs)
  let ?k = "utf8_len c - 1"
  have "char_count (drop ?k cs @ drop (?k - length cs) t)
      \<le> char_count (drop ?k cs) + length (drop (?k - length cs) t)"
    by (rule 2)
  then show ?case by (simp add: char_count_def)
qed

text \<open>A valid sequence of UTF-8: each sequence is complete and its other bytes continue it.\<close>

definition utf8_chunk :: "string \<Rightarrow> bool" where
  "utf8_chunk c \<longleftrightarrow>
     length c = utf8_len (hd c) \<and> (byte (hd c) < 128 \<or> 192 \<le> byte (hd c))
     \<and> list_all (\<lambda>b. 128 \<le> byte b \<and> byte b < 192) (tl c)"

definition utf8 :: "string \<Rightarrow> bool" where
  "utf8 s \<longleftrightarrow> list_all utf8_chunk (chunks s)"

lemma utf8_Nil [simp]: "utf8 []"
  by (simp add: utf8_def)

lemma chunks_append: "utf8 s \<Longrightarrow> chunks (s @ t) = chunks s @ chunks t"
proof (induction s arbitrary: t rule: chunks.induct)
  case (2 c cs)
  let ?k = "utf8_len c - 1"
  from 2(2) have "length (c # take ?k cs) = utf8_len c" by (simp add: utf8_def utf8_chunk_def)
  then have "length (take ?k cs) = ?k" by (simp only: length_Cons)
  moreover have "utf8 (drop ?k cs)" using 2(2) by (simp add: utf8_def)
  ultimately have k: "length (take ?k cs) = ?k" "utf8 (drop ?k cs)" by blast+
  then have "?k \<le> length cs" by simp
  then have "take ?k (cs @ t) = take ?k cs" "drop ?k (cs @ t) = drop ?k cs @ t" by simp_all
  with 2(1) [OF k(2)] show ?case by simp
qed simp

lemma utf8_append: "utf8 s \<Longrightarrow> utf8 t \<Longrightarrow> utf8 (s @ t)"
  by (simp add: utf8_def chunks_append)

lemma utf8_ascii: "\<forall>c \<in> set s. byte c < 128 \<Longrightarrow> utf8 s"
  by (simp add: utf8_def chunks_ascii list_all_iff utf8_chunk_def)

section \<open>Classes of characters\<close>

text \<open>Above ASCII the tables for letters and numbers are a parameter.\<close>

record unicode =
  uni_alphabetic :: "nat \<Rightarrow> bool"
  uni_numeric :: "nat \<Rightarrow> bool"

definition ascii_tables :: unicode where
  "ascii_tables = \<lparr>uni_alphabetic = (\<lambda>_. False), uni_numeric = (\<lambda>_. False)\<rparr>"

definition is_alphabetic :: "unicode \<Rightarrow> nat \<Rightarrow> bool" where
  "is_alphabetic u n =
     (if n < 128 then 65 \<le> n \<and> n \<le> 90 \<or> 97 \<le> n \<and> n \<le> 122 else uni_alphabetic u n)"

definition is_numeric :: "unicode \<Rightarrow> nat \<Rightarrow> bool" where
  "is_numeric u n = (if n < 128 then 48 \<le> n \<and> n \<le> 57 else uni_numeric u n)"

definition is_alphanumeric :: "unicode \<Rightarrow> nat \<Rightarrow> bool" where
  "is_alphanumeric u n \<longleftrightarrow> is_alphabetic u n \<or> is_numeric u n"

text \<open>\<open>char::is_whitespace\<close>: the Unicode property \<open>White_Space\<close>, which is fixed.\<close>

definition is_whitespace :: "nat \<Rightarrow> bool" where
  "is_whitespace n \<longleftrightarrow>
     9 \<le> n \<and> n \<le> 13 \<or> n = 32 \<or> n = 133 \<or> n = 160 \<or> n = 5760
     \<or> 8192 \<le> n \<and> n \<le> 8202
     \<or> n = 8232 \<or> n = 8233 \<or> n = 8239 \<or> n = 8287 \<or> n = 12288"

text \<open>\<open>char::is_control\<close>: the general category \<open>Cc\<close>, which is fixed.\<close>

definition is_control :: "nat \<Rightarrow> bool" where
  "is_control n \<longleftrightarrow> n < 32 \<or> 127 \<le> n \<and> n < 160"

section \<open>Trimming\<close>

abbreviation white :: "string \<Rightarrow> bool" where
  "white c \<equiv> is_whitespace (code_point c)"

definition trim_start :: "string \<Rightarrow> string" where
  "trim_start s = concat (dropWhile white (chunks s))"

definition trim_end :: "string \<Rightarrow> string" where
  "trim_end s = concat (rev (dropWhile white (rev (chunks s))))"

definition trim :: "string \<Rightarrow> string" where
  "trim s = concat (rev (dropWhile white (rev (dropWhile white (chunks s)))))"

text \<open>\<open>text.trim().is_empty()\<close>.\<close>

definition blank :: "string \<Rightarrow> bool" where
  "blank s \<longleftrightarrow> trim s = []"

lemma concat_eq_Nil_chunks:
  "set cs \<subseteq> set (chunks s) \<Longrightarrow> concat cs = [] \<longleftrightarrow> cs = []"
  using chunks_nonempty by (cases cs) (auto simp: subset_iff)

lemma blank_iff: "blank s \<longleftrightarrow> (\<forall>c \<in> set (chunks s). white c)"
proof -
  let ?d = "dropWhile white (chunks s)"
  have "blank s \<longleftrightarrow> rev (dropWhile white (rev ?d)) = []"
    unfolding blank_def trim_def
    by (rule concat_eq_Nil_chunks [of _ s]) (auto dest!: set_dropWhileD)
  also have "\<dots> \<longleftrightarrow> (\<forall>c \<in> set ?d. white c)"
    by simp
  also have "\<dots> \<longleftrightarrow> ?d = []"
    using dropWhile_eq_Cons_conv [of white "chunks s"]
    by (metis dropWhile_eq_Nil_conv empty_iff hd_dropWhile list.set(1) list.set_sel(1))
  finally show ?thesis by simp
qed

lemma blank_Nil [simp]: "blank []"
  by (simp add: blank_iff)

lemma blank_ascii_Cons [simp]:
  "byte c < 128 \<Longrightarrow> blank (c # s) \<longleftrightarrow> is_whitespace (byte c) \<and> blank s"
  by (simp add: blank_iff)

section \<open>Boundaries and other searches\<close>

definition is_char_boundary :: "string \<Rightarrow> nat \<Rightarrow> bool" where
  "is_char_boundary s i \<longleftrightarrow>
     i = 0 \<or> i = length s \<or> i < length s \<and> (byte (s ! i) < 128 \<or> 192 \<le> byte (s ! i))"

lemma is_char_boundary_le: "is_char_boundary s i \<Longrightarrow> i \<le> length s"
  by (auto simp: is_char_boundary_def)

text \<open>\<open>str::split_once\<close> with a predicate on ASCII characters.\<close>

definition split_once :: "(char \<Rightarrow> bool) \<Rightarrow> string \<Rightarrow> (string \<times> string) option" where
  "split_once p s = map_option (\<lambda>i. (take i s, drop (Suc i) s)) (position p s)"

lemma split_once_Some: "split_once p s = Some (a, b) \<Longrightarrow> \<exists>c. p c \<and> s = a @ c # b"
  by (auto simp: split_once_def dest!: position_Some intro!: exI [of _ "s ! length a"])
     (metis id_take_nth_drop)

text \<open>\<open>str::replace\<close> of one ASCII character.\<close>

definition replace_char :: "char \<Rightarrow> string \<Rightarrow> string \<Rightarrow> string" where
  "replace_char c t s = concat (map (\<lambda>x. if x = c then t else [x]) s)"

lemma replace_char_simps [simp]:
  "replace_char c t [] = []"
  "replace_char c t (x # xs) = (if x = c then t else [x]) @ replace_char c t xs"
  "replace_char c t (xs @ ys) = replace_char c t xs @ replace_char c t ys"
  by (simp_all add: replace_char_def)

text \<open>\<open>slice::join\<close>.\<close>

fun join :: "'a list \<Rightarrow> 'a list list \<Rightarrow> 'a list" where
  "join sep [] = []"
| "join sep [x] = x"
| "join sep (x # y # zs) = x @ sep @ join sep (y # zs)"

text \<open>Decimal digits of a natural number, as \<open>to_string\<close> writes them.\<close>

definition digit_char :: "nat \<Rightarrow> char" where
  "digit_char d = char_of (48 + d)"

fun show_nat :: "nat \<Rightarrow> string" where
  "show_nat n = (if n < 10 then [digit_char n] else show_nat (n div 10) @ [digit_char (n mod 10)])"

declare show_nat.simps [simp del]

lemma byte_digit_char [simp]: "d < 10 \<Longrightarrow> byte (digit_char d) = 48 + d"
  by (simp add: digit_char_def)

fun digits_value :: "nat \<Rightarrow> string \<Rightarrow> nat" where
  "digits_value acc [] = acc"
| "digits_value acc (c # cs) = digits_value (10 * acc + (byte c - 48)) cs"

lemma digits_value_append:
  "digits_value acc (xs @ ys) = digits_value (digits_value acc xs) ys"
  by (induction xs arbitrary: acc) simp_all

lemma show_nat_value: "digits_value 0 (show_nat n) = n"
proof (induction n rule: show_nat.induct)
  case (1 n)
  then show ?case by (subst show_nat.simps) (auto simp: digits_value_append)
qed

lemma show_nat_inject: "show_nat m = show_nat n \<Longrightarrow> m = n"
  by (metis show_nat_value)

lemma show_nat_digits: "c \<in> set (show_nat n) \<Longrightarrow> is_ascii_digit c"
proof (induction n rule: show_nat.induct)
  case (1 n)
  then show ?case
    by (subst (asm) (2) show_nat.simps) (auto simp: is_ascii_digit_def split: if_splits)
qed

lemma show_nat_nonempty [simp]: "show_nat n \<noteq> []"
  by (subst show_nat.simps) simp

section \<open>Splitting at a character\<close>

text \<open>\<open>str::split\<close> at one ASCII character.\<close>

fun split_char :: "char \<Rightarrow> string \<Rightarrow> string list" where
  "split_char d [] = [[]]"
| "split_char d (c # cs) =
     (if c = d then [] # split_char d cs
      else (c # hd (split_char d cs)) # tl (split_char d cs))"

lemma split_char_nonempty [simp]: "split_char d s \<noteq> []"
  by (cases s) simp_all

lemma join_Cons: "xs \<noteq> [] \<Longrightarrow> join sep (x # xs) = x @ sep @ join sep xs"
  by (cases xs) simp_all

lemma join_hd_tl: "xs \<noteq> [] \<Longrightarrow> join sep ((c # hd xs) # tl xs) = c # join sep xs"
  by (cases xs; cases "tl xs") simp_all

lemma join_split_char: "join [d] (split_char d s) = s"
  by (induction s) (simp_all add: join_Cons join_hd_tl)

lemma split_char_parts: "p \<in> set (split_char d s) \<Longrightarrow> d \<notin> set p"
proof (induction s arbitrary: p)
  case (Cons c s)
  have "set (split_char d s) = insert (hd (split_char d s)) (set (tl (split_char d s)))"
    by (metis list.set(2) list.collapse split_char_nonempty)
  with Cons show ?case by (auto split: if_splits)
qed simp

lemma split_char_append:
  "d \<notin> set a \<Longrightarrow> split_char d (a @ d # s) = a # split_char d s"
  by (induction a) auto

lemma split_char_none: "d \<notin> set a \<Longrightarrow> split_char d a = [a]"
  by (induction a) auto

text \<open>\<open>floor_char_boundary\<close>.\<close>

fun floor_char_boundary :: "string \<Rightarrow> nat \<Rightarrow> nat" where
  "floor_char_boundary s 0 = 0"
| "floor_char_boundary s (Suc n) =
     (if length s \<le> Suc n then length s
      else if is_char_boundary s (Suc n) then Suc n else floor_char_boundary s n)"

text \<open>\<open>ceil_char_boundary\<close>, from an index in the text.\<close>

function ceil_char_boundary :: "string \<Rightarrow> nat \<Rightarrow> nat" where
  "ceil_char_boundary s i =
     (if length s \<le> i then length s else if is_char_boundary s i then i else ceil_char_boundary s (i + 1))"
  by pat_completeness auto
termination by (relation "measure (\<lambda>(s, i). length s - i)") auto

declare ceil_char_boundary.simps [simp del]

lemma floor_char_boundary_le: "floor_char_boundary s n \<le> n"
  by (induction n) auto

lemma floor_char_boundary_boundary: "is_char_boundary s (floor_char_boundary s n)"
  by (induction n) (auto simp: is_char_boundary_def)

lemma ceil_char_boundary_bounds: "i \<le> length s \<Longrightarrow> i \<le> ceil_char_boundary s i \<and> ceil_char_boundary s i \<le> length s"
proof (induction s i rule: ceil_char_boundary.induct)
  case (1 s i)
  show ?case
  proof (cases "length s \<le> i \<or> is_char_boundary s i")
    case True
    then show ?thesis using "1.prems" by (subst (1 2) ceil_char_boundary.simps) auto
  next
    case False
    with "1.IH" show ?thesis by (subst (1 2) ceil_char_boundary.simps) auto
  qed
qed

lemma ceil_char_boundary_boundary: "is_char_boundary s (ceil_char_boundary s i)"
proof (induction s i rule: ceil_char_boundary.induct)
  case (1 s i)
  then show ?case by (subst ceil_char_boundary.simps) (auto simp: is_char_boundary_def)
qed

end
