(* ===== verification/Database_Type.thy ===== *)
theory Database_Type
  imports Rust_Str
begin

text \<open>
  The database type of a connection (\<open>src/src/model.rs\<close>, \<open>DatabaseType\<close>): it selects the
  connector, the default port, the lexical rules of the SQL modules and the quoting of names.
\<close>

datatype database_type = Kyuubi | Postgres | Trino

definition label :: "database_type \<Rightarrow> string" where
  "label d = (case d of
     Kyuubi \<Rightarrow> ''Spark (HiveServer2)'' | Postgres \<Rightarrow> ''Postgres'' | Trino \<Rightarrow> ''Trino'')"

definition connector_name :: "database_type \<Rightarrow> string" where
  "connector_name d = (case d of
     Kyuubi \<Rightarrow> ''spark_kyuubi'' | Postgres \<Rightarrow> ''postgres'' | Trino \<Rightarrow> ''trino'')"

definition default_port :: "database_type \<Rightarrow> nat" where
  "default_port d = (case d of Kyuubi \<Rightarrow> 10009 | Postgres \<Rightarrow> 5432 | Trino \<Rightarrow> 8080)"

abbreviation backtick :: char where "backtick \<equiv> CHR 0x60"
abbreviation double_quote :: char where "double_quote \<equiv> CHR 0x22"
abbreviation single_quote :: char where "single_quote \<equiv> CHR 0x27"
abbreviation backslash :: char where "backslash \<equiv> CHR 0x5C"
abbreviation newline :: char where "newline \<equiv> CHR 0x0A"
abbreviation carriage_return :: char where "carriage_return \<equiv> CHR 0x0D"
abbreviation tab_char :: char where "tab_char \<equiv> CHR 0x09"

text \<open>The quote of a name, and a quoted name: the quote is doubled inside.\<close>

definition identifier_quote :: "database_type \<Rightarrow> char" where
  "identifier_quote d = (case d of Kyuubi \<Rightarrow> backtick | _ \<Rightarrow> double_quote)"

definition quote_identifier :: "database_type \<Rightarrow> string \<Rightarrow> string" where
  "quote_identifier d name =
     (let q = identifier_quote d in [q] @ replace_char q [q, q] name @ [q])"

end
