(* ===== verification/Sql_Lexer.thy ===== *)
theory Sql_Lexer
  imports Database_Type
begin

text \<open>
  The SQL lexer of \<open>src/src/sql.rs\<close>: \<open>tokens_for\<close> splits a text into tokens that cover all of
  it. The model keeps the byte index of the code's loop (\<open>tokens_loop\<close>); \<open>token_at\<close> is the
  body of the loop, and each inner loop of the body is a function from the rest of the text to
  the number of bytes it consumes. Its first theorem is the one the code's doc comment claims:
  the tokens tile the text, for every text, database type and Unicode table.
\<close>

section \<open>Styles and token kinds\<close>

datatype keyword_case = Uppercase | Lowercase

record sql_style =
  style_keyword_case :: keyword_case
  indent_spaces :: nat

definition default_style :: sql_style where
  "default_style = \<lparr>style_keyword_case = Uppercase, indent_spaces = 2\<rparr>"

datatype kind = Plain | StringLiteral | Comment | Number | Identifier | Separator

type_synonym range = "nat \<times> nat"
type_synonym token = "range \<times> kind"

section \<open>The inner loops\<close>

text \<open>The bytes up to the end of the line.\<close>

definition line_comment_len :: "string \<Rightarrow> nat" where
  "line_comment_len rest = length (takeWhile (\<lambda>b. b \<noteq> newline) rest)"

text \<open>The bytes of a block comment after its opening; comments nest.\<close>

fun block_comment_len :: "nat \<Rightarrow> string \<Rightarrow> nat" where
  "block_comment_len depth rest =
     (if depth = 0 \<or> rest = [] then 0
      else if starts_with rest ''/*'' then 2 + block_comment_len (depth + 1) (drop 2 rest)
      else if starts_with rest ''*/'' then 2 + block_comment_len (depth - 1) (drop 2 rest)
      else 1 + block_comment_len depth (drop 1 rest))"

declare block_comment_len.simps [simp del]

text \<open>
  The bytes of a quoted token after its opening quote: a doubled quote stays inside, and a
  backslash takes the next byte with it where the dialect has escapes.
\<close>

fun quoted_len :: "bool \<Rightarrow> char \<Rightarrow> string \<Rightarrow> nat" where
  "quoted_len escapes quote [] = 0"
| "quoted_len escapes quote (b # rest) =
     (if b = backslash \<and> escapes then min 2 (1 + length rest) + quoted_len escapes quote (drop 1 rest)
      else if b = quote then
        (if rest \<noteq> [] \<and> hd rest = quote then 2 + quoted_len escapes quote (drop 1 rest) else 1)
      else 1 + quoted_len escapes quote rest)"

text \<open>The bytes of the rest of a word: letters, digits of any script, and underscores.\<close>

definition first_char_len :: "string \<Rightarrow> nat" where
  "first_char_len rest = length (hd (chunks rest))"

fun word_chunks_len :: "unicode \<Rightarrow> string list \<Rightarrow> nat" where
  "word_chunks_len u [] = 0"
| "word_chunks_len u (c # cs) =
     (if \<not> is_alphanumeric u (code_point c) \<and> c \<noteq> ''_'' then 0
      else length c + word_chunks_len u cs)"

definition word_len :: "unicode \<Rightarrow> string \<Rightarrow> nat" where
  "word_len u rest = word_chunks_len u (chunks rest)"

definition number_len :: "string \<Rightarrow> nat" where
  "number_len rest =
     length (takeWhile (\<lambda>b. is_ascii_alphanumeric b \<or> b = CHR ''.'' \<or> b = CHR ''_'') rest)"

definition space_len :: "string \<Rightarrow> nat" where
  "space_len rest = length (takeWhile is_ascii_whitespace rest)"

text \<open>
  \<open>dollar_quote_end\<close>: the end of the opening delimiter of a Postgres dollar quote at \<open>start\<close>
  and the end of the string, if it ends.
\<close>

definition dollar_tag_ok :: "unicode \<Rightarrow> string \<Rightarrow> bool" where
  "dollar_tag_ok u tag \<longleftrightarrow>
     tag = []
     \<or> (is_alphabetic u (hd (chars_of tag)) \<or> hd (chars_of tag) = byte CHR ''_'')
       \<and> (\<forall>c \<in> set (chars_of tag). is_alphanumeric u c \<or> c = byte CHR ''_'')"

definition dollar_quote_end ::
  "unicode \<Rightarrow> string \<Rightarrow> nat \<Rightarrow> (nat \<times> nat option) option" where
  "dollar_quote_end u sql start =
     (let suffix = drop (start + 1) sql in
      case position (\<lambda>b. b = CHR ''$'') suffix of
        None \<Rightarrow> None
      | Some len \<Rightarrow>
          (if \<not> dollar_tag_ok u (take len suffix) then None
           else
             (let delimiter_end = start + len + 2;
                  delimiter = slice sql (start, delimiter_end)
              in Some (delimiter_end,
                   map_option (\<lambda>offset. delimiter_end + offset + length delimiter)
                     (find_str (drop delimiter_end sql) delimiter)))))"

section \<open>One token\<close>

text \<open>Whether a quoted token starts here: a quote, or \<open>U&\<close> before one outside Spark.\<close>

definition unicode_quote :: "database_type \<Rightarrow> string \<Rightarrow> bool" where
  "unicode_quote d rest \<longleftrightarrow>
     d \<noteq> Kyuubi \<and> 3 \<le> length rest \<and> (rest ! 0 = CHR ''U'' \<or> rest ! 0 = CHR ''u'') \<and> rest ! 1 = CHR ''&''
     \<and> (rest ! 2 = single_quote \<or> rest ! 2 = double_quote)"

definition quote_starts :: "database_type \<Rightarrow> string \<Rightarrow> bool" where
  "quote_starts d rest \<longleftrightarrow>
     rest \<noteq> [] \<and> (hd rest = single_quote \<or> hd rest = double_quote \<or> hd rest = backtick)
     \<or> unicode_quote d rest"

text \<open>Whether a backslash escapes the next byte of the quoted token that starts at \<open>start\<close>.\<close>

definition escapes_in :: "database_type \<Rightarrow> string \<Rightarrow> nat \<Rightarrow> char \<Rightarrow> bool" where
  "escapes_in d sql start quote \<longleftrightarrow>
     quote \<noteq> backtick
     \<and> (d = Kyuubi
        \<or> d = Postgres \<and> quote = single_quote \<and> 0 < start
          \<and> (sql ! (start - 1) = CHR ''E'' \<or> sql ! (start - 1) = CHR ''e''))"

definition quoted_kind :: "database_type \<Rightarrow> char \<Rightarrow> kind" where
  "quoted_kind d quote =
     (if quote = backtick \<or> quote = double_quote \<and> d \<noteq> Kyuubi then Identifier else StringLiteral)"

definition quoted_token :: "database_type \<Rightarrow> string \<Rightarrow> nat \<Rightarrow> nat \<times> kind" where
  "quoted_token d sql start =
     (let i = (if sql ! start = CHR ''U'' \<or> sql ! start = CHR ''u'' then start + 2 else start);
          quote = sql ! i
      in (i + 1 + quoted_len (escapes_in d sql start quote) quote (drop (i + 1) sql),
          quoted_kind d quote))"

text \<open>The last branches of the loop body: numbers, words, spaces and single symbols.\<close>

definition plain_token :: "unicode \<Rightarrow> string \<Rightarrow> nat \<Rightarrow> nat \<times> kind" where
  "plain_token u sql start =
     (let rest = drop start sql; b = hd rest in
      if is_ascii_digit b then (start + 1 + number_len (drop 1 rest), Number)
      else if is_ascii_alphabetic b \<or> b = CHR ''_'' \<or> 128 \<le> byte b then
        (let n = first_char_len rest in (start + n + word_len u (drop n rest), Plain))
      else if is_ascii_whitespace b then (start + space_len rest, Plain)
      else (start + 1, if b = CHR '';'' then Separator else Plain))"

text \<open>The end and the kind of the token at \<open>start\<close>, for \<open>start < sql.len()\<close>.\<close>

definition token_at :: "unicode \<Rightarrow> database_type \<Rightarrow> string \<Rightarrow> nat \<Rightarrow> nat \<times> kind" where
  "token_at u d sql start =
     (let rest = drop start sql; b = hd rest in
      if starts_with rest ''--'' then (start + line_comment_len rest, Comment)
      else if starts_with rest ''/*'' then (start + 2 + block_comment_len 1 (drop 2 rest), Comment)
      else
        (case (if d \<noteq> Trino \<and> b = CHR ''$'' then dollar_quote_end u sql start else None) of
          Some (delimiter_end, string_end) \<Rightarrow>
            (max (case string_end of None \<Rightarrow> length sql | Some e \<Rightarrow> e) delimiter_end, StringLiteral)
        | None \<Rightarrow>
            if quote_starts d rest then quoted_token d sql start
            else plain_token u sql start))"

section \<open>Bounds of the inner loops\<close>

lemma line_comment_len_le [scan_simps]: "line_comment_len rest \<le> length rest"
  by (simp add: line_comment_len_def length_takeWhile_le)

lemma line_comment_len_pos: "starts_with rest ''--'' \<Longrightarrow> 0 < line_comment_len rest"
  by (auto simp: starts_with_iff line_comment_len_def)

lemma block_comment_len_le [scan_simps]: "block_comment_len depth rest \<le> length rest"
proof (induction depth rest rule: block_comment_len.induct)
  case (1 depth rest)
  let ?open = "starts_with rest ''/*''" and ?close = "starts_with rest ''*/''"
  consider "depth = 0 \<or> rest = []" | "depth \<noteq> 0" "rest \<noteq> []" "?open"
    | "depth \<noteq> 0" "rest \<noteq> []" "\<not> ?open" "?close"
    | "depth \<noteq> 0" "rest \<noteq> []" "\<not> ?open" "\<not> ?close" by blast
  then show ?case
  proof cases
    case 1
    then show ?thesis by (subst block_comment_len.simps) simp
  next
    case 2
    then show ?thesis using "1.IH"(1) starts_with_length [of rest "''/*''"]
      by (subst block_comment_len.simps) simp
  next
    case 3
    then show ?thesis using "1.IH"(2) starts_with_length [of rest "''*/''"]
      by (subst block_comment_len.simps) simp
  next
    case 4
    have "block_comment_len depth (drop 1 rest) \<le> length rest - 1"
      using 4 "1.IH"(3) by simp
    with \<open>rest \<noteq> []\<close> have "1 + block_comment_len depth (drop 1 rest) \<le> length rest"
      by (cases rest) simp_all
    then show ?thesis using 4 by (subst block_comment_len.simps) simp
  qed
qed

lemma quoted_len_le [scan_simps]: "quoted_len escapes quote rest \<le> length rest"
proof (induction escapes quote rest rule: quoted_len.induct)
  case (2 escapes quote b rest)
  then show ?case by (cases rest) (auto simp: min_def)
qed simp

lemma word_chunks_len_le: "word_chunks_len u cs \<le> length (concat cs)"
  by (induction cs) auto

lemma word_len_le [scan_simps]: "word_len u rest \<le> length rest"
  unfolding word_len_def by (metis concat_chunks word_chunks_len_le)

lemma first_char_len_bounds:
  "rest \<noteq> [] \<Longrightarrow> 0 < first_char_len rest \<and> first_char_len rest \<le> length rest"
  by (cases rest) (auto simp: first_char_len_def)

lemma number_len_le [scan_simps]: "number_len rest \<le> length rest"
  by (simp add: number_len_def length_takeWhile_le)

lemma space_len_le [scan_simps]: "space_len rest \<le> length rest"
  by (simp add: space_len_def length_takeWhile_le)

lemma space_len_pos: "rest \<noteq> [] \<Longrightarrow> is_ascii_whitespace (hd rest) \<Longrightarrow> 0 < space_len rest"
  by (cases rest) (simp_all add: space_len_def)

lemma dollar_quote_end_bounds:
  assumes "dollar_quote_end u sql start = Some (de, se)"
  shows "start + 2 \<le> de \<and> de \<le> length sql \<and> (\<forall>e. se = Some e \<longrightarrow> de \<le> e \<and> e \<le> length sql)"
proof -
  from assms obtain len where
    len: "position (\<lambda>b. b = CHR ''$'') (drop (start + 1) sql) = Some len"
    and de: "de = start + len + 2"
    and se: "se = map_option (\<lambda>offset. de + offset + length (slice sql (start, de)))
               (find_str (drop de sql) (slice sql (start, de)))"
    by (auto simp: dollar_quote_end_def Let_def split: option.splits if_splits)
  from position_Some [OF len] have "len < length (drop (start + 1) sql)" by blast
  then have "de \<le> length sql" by (simp add: de)
  moreover have "de \<le> e \<and> e \<le> length sql" if "se = Some e" for e
  proof -
    from that se obtain j where j: "find_str (drop de sql) (slice sql (start, de)) = Some j"
      and e: "e = de + j + length (slice sql (start, de))"
      by (cases "find_str (drop de sql) (slice sql (start, de))") simp_all
    from find_str_Some [OF j] have "j + length (slice sql (start, de)) \<le> length (drop de sql)"
      by blast
    with e \<open>de \<le> length sql\<close> show ?thesis by (simp only: length_drop) linarith
  qed
  ultimately show ?thesis using de by simp
qed

lemma quoted_token_bounds:
  assumes "quote_starts d (drop start sql)" "start < length sql"
  shows "start < fst (quoted_token d sql start) \<and> fst (quoted_token d sql start) \<le> length sql"
proof -
  define i where
    "i = (if sql ! start = CHR ''U'' \<or> sql ! start = CHR ''u'' then start + 2 else start)"
  have hd: "hd (drop start sql) = sql ! start"
    using assms(2) by (simp add: hd_drop_conv_nth)
  have three: "3 \<le> length (drop start sql)" if "sql ! start = CHR ''U'' \<or> sql ! start = CHR ''u''"
  proof -
    have "sql ! start \<noteq> single_quote" "sql ! start \<noteq> double_quote" "sql ! start \<noteq> backtick"
      using that by auto
    with assms(1) hd have "unicode_quote d (drop start sql)" by (simp add: quote_starts_def)
    then show ?thesis by (simp only: unicode_quote_def)
  qed
  have i: "start \<le> i" "i < length sql"
    using three assms(2) unfolding i_def length_drop by (simp_all split: if_splits) linarith+
  have "fst (quoted_token d sql start) =
      i + 1 + quoted_len (escapes_in d sql start (sql ! i)) (sql ! i) (drop (i + 1) sql)"
    by (simp add: quoted_token_def Let_def i_def)
  moreover have "quoted_len (escapes_in d sql start (sql ! i)) (sql ! i) (drop (i + 1) sql)
      \<le> length sql - (i + 1)"
    using quoted_len_le [of _ _ "drop (i + 1) sql"] by simp
  ultimately show ?thesis using i by linarith
qed

lemma plain_token_bounds:
  assumes "start < length sql"
  shows "start < fst (plain_token u sql start) \<and> fst (plain_token u sql start) \<le> length sql"
proof -
  let ?rest = "drop start sql" and ?n = "first_char_len (drop start sql)"
  have ne: "?rest \<noteq> []" and len: "length ?rest = length sql - start"
    using assms by simp_all
  have "start + 1 + number_len (drop 1 ?rest) \<le> length sql"
    using number_len_le [of "drop 1 ?rest"] assms by simp
  moreover have "start < start + ?n + m \<and> start + ?n + m \<le> length sql"
    if "m = word_len u (drop ?n ?rest)" for m
    using that word_len_le [of u "drop ?n ?rest"] first_char_len_bounds [OF ne] assms
    unfolding length_drop by linarith
  moreover have "start + space_len ?rest \<le> length sql"
    using space_len_le [of ?rest] assms by simp
  ultimately show ?thesis
    using space_len_pos [OF ne] assms by (simp add: plain_token_def Let_def)
qed

lemma comment_bounds:
  assumes "start < length sql"
  shows "starts_with (drop start sql) ''--'' \<Longrightarrow>
           start < start + line_comment_len (drop start sql)
           \<and> start + line_comment_len (drop start sql) \<le> length sql"
    and "starts_with (drop start sql) ''/*'' \<Longrightarrow>
           start + 2 + block_comment_len 1 (drop 2 (drop start sql)) \<le> length sql"
  using assms line_comment_len_pos [of "drop start sql"] line_comment_len_le [of "drop start sql"]
    block_comment_len_le [of 1 "drop 2 (drop start sql)"]
    starts_with_length [of "drop start sql" "''/*''"]
  by simp_all

lemma token_at_bounds:
  assumes "start < length sql"
  shows "start < fst (token_at u d sql start) \<and> fst (token_at u d sql start) \<le> length sql"
proof -
  let ?rest = "drop start sql"
  let ?dollar = "if d \<noteq> Trino \<and> hd ?rest = CHR ''$'' then dollar_quote_end u sql start else None"
  consider (line) "starts_with ?rest ''--''"
    | (block) "\<not> starts_with ?rest ''--''" "starts_with ?rest ''/*''"
    | (dollar) de se where "\<not> starts_with ?rest ''--''" "\<not> starts_with ?rest ''/*''"
        "?dollar = Some (de, se)"
    | (other) "\<not> starts_with ?rest ''--''" "\<not> starts_with ?rest ''/*''" "?dollar = None"
    by (cases ?dollar) auto
  then show ?thesis
  proof cases
    case line
    then show ?thesis using comment_bounds(1) [OF assms] by (simp add: token_at_def Let_def)
  next
    case block
    then show ?thesis using comment_bounds(2) [OF assms] by (simp add: token_at_def Let_def)
  next
    case dollar
    from dollar(3) have "dollar_quote_end u sql start = Some (de, se)"
      by (simp split: if_splits)
    from dollar_quote_end_bounds [OF this] show ?thesis
      using dollar by (cases se) (auto simp: token_at_def Let_def)
  next
    case other
    then show ?thesis using quoted_token_bounds [OF _ assms] plain_token_bounds [OF assms]
      by (simp add: token_at_def Let_def)
  qed
qed

section \<open>All tokens\<close>

function tokens_loop :: "unicode \<Rightarrow> database_type \<Rightarrow> string \<Rightarrow> nat \<Rightarrow> token list" where
  "tokens_loop u d sql i =
     (if i < length sql then
        (let (e, k) = token_at u d sql i in ((i, e), k) # tokens_loop u d sql e)
      else [])"
  by pat_completeness auto
termination
proof (relation "measure (\<lambda>(u, d, sql, i). length sql - i)")
  fix u d sql i x e k
  assume "i < length sql" "x = token_at u d sql i" "(e, k) = x"
  then have "i < e" "e \<le> length sql"
    using token_at_bounds [of i sql u d] by (metis fst_conv)+
  then show "((u, d, sql, e), (u, d, sql, i)) \<in> measure (\<lambda>(u, d, sql, i). length sql - i)"
    by simp
qed simp

declare tokens_loop.simps [simp del]

definition tokens_for :: "unicode \<Rightarrow> database_type \<Rightarrow> string \<Rightarrow> token list" where
  "tokens_for u d sql = tokens_loop u d sql 0"

text \<open>\<open>tokens\<close> uses the rules of Spark.\<close>

definition tokens :: "unicode \<Rightarrow> string \<Rightarrow> token list" where
  "tokens u sql = tokens_for u Kyuubi sql"

lemma tokens_loop_tiles:
  "i \<le> length sql \<Longrightarrow> tiles i (map fst (tokens_loop u d sql i)) (length sql)"
proof (induction u d sql i rule: tokens_loop.induct)
  case (1 u d sql i)
  show ?case
  proof (cases "i < length sql")
    case True
    obtain e k where e: "token_at u d sql i = (e, k)" by fastforce
    with token_at_bounds [OF True, of u d] have "i < e" "e \<le> length sql" by simp_all
    with 1 True e show ?thesis by (subst tokens_loop.simps) simp
  next
    case False
    with "1.prems" show ?thesis by (subst tokens_loop.simps) simp
  qed
qed

lemma tokens_for_tiles: "tiles 0 (map fst (tokens_for u d sql)) (length sql)"
  by (simp add: tokens_for_def tokens_loop_tiles)

section \<open>The lexer covers the text\<close>

text \<open>
  C1: the tokens of a text cover all of it, in order: they tile the interval from 0 to its
  length, so no byte is skipped or taken twice, no token is empty, and the texts of the tokens
  concatenate to the text itself. It holds for every byte sequence and every database type.
\<close>

theorem tokens_cover_text:
  "tiles 0 (map fst (tokens_for u d sql)) (length sql)
   \<and> concat (map (\<lambda>t. slice sql (fst t)) (tokens_for u d sql)) = sql"
proof
  show t: "tiles 0 (map fst (tokens_for u d sql)) (length sql)"
    by (rule tokens_for_tiles)
  have "map (\<lambda>t. slice sql (fst t)) (tokens_for u d sql) = map (slice sql) (map fst (tokens_for u d sql))"
    by simp
  then show "concat (map (\<lambda>t. slice sql (fst t)) (tokens_for u d sql)) = sql"
    using tiles_concat [OF t, of sql] by (simp add: comp_def)
qed

section \<open>Quoted names\<close>

lemma quoted_len_doubled:
  assumes "post = [] \<or> hd post \<noteq> q"
  shows "quoted_len False q (replace_char q [q, q] name @ q # post)
       = length (replace_char q [q, q] name) + 1"
proof (induction name)
  case Nil
  then show ?case using assms by simp
next
  case (Cons x name)
  have "replace_char q [q, q] name @ q # post \<noteq> []" by simp
  with Cons show ?case by (cases "x = q") simp_all
qed

text \<open>
  C2: a quoted name is one token. Wherever the code puts \<open>quote_identifier\<close> of a name, the
  lexer of the same database type reads exactly that text as one identifier, whatever bytes the
  name has, as long as no further quote follows directly. So a name can neither end its
  quotation early nor run into the SQL after it.
\<close>

theorem quote_identifier_is_one_token:
  assumes "post = [] \<or> hd post \<noteq> identifier_quote d"
  shows "token_at u d (pre @ quote_identifier d name @ post) (length pre)
       = (length pre + length (quote_identifier d name), Identifier)"
proof -
  define q where "q = identifier_quote d"
  have q: "q = backtick \<and> d = Kyuubi \<or> q = double_quote \<and> d \<noteq> Kyuubi"
    by (cases d) (simp_all add: q_def identifier_quote_def)
  let ?body = "replace_char q [q, q] name @ q # post"
  have rest: "quote_identifier d name @ post = q # ?body"
    by (simp add: quote_identifier_def q_def [symmetric] Let_def)
  have "length ?body - length post = length (quote_identifier d name) - 1"
    by (simp add: quote_identifier_def q_def [symmetric] Let_def)
  have len: "quoted_len False q ?body = length (quote_identifier d name) - 1"
    using quoted_len_doubled [of post q name] assms
    by (simp add: quote_identifier_def q_def [symmetric] Let_def)
  have esc: "\<not> escapes_in d sql start q" for sql start
    using q by (auto simp: escapes_in_def)
  have "quoted_token d (pre @ q # ?body) (length pre)
      = (length pre + 1 + quoted_len False q ?body, Identifier)"
    using q esc by (auto simp: quoted_token_def quoted_kind_def Let_def)
  moreover have "token_at u d (pre @ q # ?body) (length pre)
      = quoted_token d (pre @ q # ?body) (length pre)"
    using q by (auto simp: token_at_def quote_starts_def Let_def)
  moreover have "length (quote_identifier d name) \<noteq> 0"
    by (simp add: quote_identifier_def Let_def)
  ultimately show ?thesis by (simp add: rest len)
qed

theorem quote_identifier_is_one_token_witness:
  "token_at ascii_tables Postgres (''a.'' @ quote_identifier Postgres [CHR ''x'', double_quote] @ '';'') 2
   = (7, Identifier)"
  using quote_identifier_is_one_token
    [of "'';''" Postgres ascii_tables "''a.''" "[CHR ''x'', double_quote]"]
  by (simp add: identifier_quote_def quote_identifier_def Let_def eval_nat_numeral)

end
