(* ===== verification/Sql_Statements.thy ===== *)
theory Sql_Statements
  imports Sql_Lexer
begin

text \<open>
  Statements of a SQL text (\<open>src/src/sql.rs\<close>): their byte ranges (\<open>statement_ranges_for\<close>), the
  check that a text has exactly one (\<open>validate_single_for\<close>), and the index the editor keeps to
  find the statement at the cursor (\<open>StatementIndex\<close>, \<open>range_at\<close>, \<open>run_highlight\<close>).
\<close>

section \<open>Ranges\<close>

text \<open>
  The loop of \<open>statement_ranges_in\<close>. Its variables are \<open>start\<close> (the open statement) and
  \<open>end\<close> (here \<open>stop\<close>); the ranges it pushes are the list it returns.
\<close>

fun statement_ranges_loop :: "string \<Rightarrow> nat option \<Rightarrow> nat \<Rightarrow> token list \<Rightarrow> range list" where
  "statement_ranges_loop sql start stop [] =
     (case start of None \<Rightarrow> [] | Some s \<Rightarrow> [(s, stop)])"
| "statement_ranges_loop sql start stop ((r, k) # ts) =
     (if k = Comment \<or> blank (slice sql r) then statement_ranges_loop sql start stop ts
      else if k = Separator then
        (case start of
           Some s \<Rightarrow> (s, snd r) # statement_ranges_loop sql None stop ts
         | None \<Rightarrow> statement_ranges_loop sql None stop ts)
      else
        statement_ranges_loop sql (Some (case start of Some s \<Rightarrow> s | None \<Rightarrow> fst r)) (snd r) ts)"

definition statement_ranges_in :: "string \<Rightarrow> token list \<Rightarrow> range list" where
  "statement_ranges_in sql ts = statement_ranges_loop sql None 0 ts"

definition statement_ranges_for :: "unicode \<Rightarrow> database_type \<Rightarrow> string \<Rightarrow> range list" where
  "statement_ranges_for u d sql = statement_ranges_in sql (tokens_for u d sql)"

definition statement_ranges :: "unicode \<Rightarrow> string \<Rightarrow> range list" where
  "statement_ranges u sql = statement_ranges_for u Kyuubi sql"

text \<open>\<open>Vec::pop\<close> of the ranges.\<close>

definition last_statement_range :: "unicode \<Rightarrow> string \<Rightarrow> range option" where
  "last_statement_range u sql =
     (case statement_ranges u sql of [] \<Rightarrow> None | r # rs \<Rightarrow> Some (last (r # rs)))"

section \<open>Exactly one statement\<close>

datatype statement_error = NoStatement | SeveralStatements

text \<open>The loop of \<open>validate_single_for\<close>, over its variables \<open>statements\<close> and \<open>content\<close>.\<close>

fun count_statements :: "string \<Rightarrow> nat \<Rightarrow> bool \<Rightarrow> token list \<Rightarrow> nat" where
  "count_statements sql statements content [] = statements + of_bool content"
| "count_statements sql statements content ((r, k) # ts) =
     (if k = Separator then
        (if content then count_statements sql (statements + 1) False ts
         else count_statements sql statements content ts)
      else if k \<noteq> Comment \<and> \<not> blank (slice sql r) then count_statements sql statements True ts
      else count_statements sql statements content ts)"

definition validate_single_for ::
  "unicode \<Rightarrow> database_type \<Rightarrow> string \<Rightarrow> (statement_error, unit) result" where
  "validate_single_for u d sql =
     (let statements = count_statements sql 0 False (tokens_for u d sql) in
      if statements = 0 then Inl NoStatement
      else if statements \<noteq> 1 then Inl SeveralStatements
      else Inr ())"

definition validate_single :: "unicode \<Rightarrow> string \<Rightarrow> (statement_error, unit) result" where
  "validate_single u sql = validate_single_for u Kyuubi sql"

section \<open>The statement index of the editor\<close>

record statement_index =
  statements :: "range list"
  comments :: "range list"

definition statement_index_new_for ::
  "unicode \<Rightarrow> database_type \<Rightarrow> string \<Rightarrow> statement_index" where
  "statement_index_new_for u d sql =
     (let ts = tokens_for u d sql in
      \<lparr>statements = statement_ranges_in sql ts,
       comments = map fst (filter (\<lambda>t. snd t = Comment) ts)\<rparr>)"

definition range_contains :: "range \<Rightarrow> nat \<Rightarrow> bool" where
  "range_contains r i \<longleftrightarrow> fst r \<le> i \<and> i < snd r"

definition same_line_space :: "string \<Rightarrow> bool" where
  "same_line_space t \<longleftrightarrow>
     (\<forall>c \<in> set (chunks t). white c \<and> c \<noteq> [newline] \<and> c \<noteq> [carriage_return])"

text \<open>The text between an offset and a statement, on either side of it.\<close>

definition gap :: "range \<Rightarrow> nat \<Rightarrow> range" where
  "gap r offset = (if offset < fst r then (offset, fst r) else (snd r, offset))"

definition range_at :: "statement_index \<Rightarrow> string \<Rightarrow> nat \<Rightarrow> range option" where
  "range_at ix sql offset =
     (if \<not> is_char_boundary sql offset then None
      else
        (case List.find (\<lambda>r. range_contains r offset) (statements ix) of
          Some r \<Rightarrow> Some r
        | None \<Rightarrow>
            if \<exists>r \<in> set (comments ix). range_contains r offset then None
            else List.find (\<lambda>r. same_line_space (slice sql (gap r offset))) (statements ix)))"

definition statement_range_at_for ::
  "unicode \<Rightarrow> database_type \<Rightarrow> string \<Rightarrow> nat \<Rightarrow> range option" where
  "statement_range_at_for u d sql offset = range_at (statement_index_new_for u d sql) sql offset"

definition statement_range_at :: "unicode \<Rightarrow> string \<Rightarrow> nat \<Rightarrow> range option" where
  "statement_range_at u sql offset = statement_range_at_for u Kyuubi sql offset"

definition run_highlight :: "statement_index \<Rightarrow> string \<Rightarrow> nat \<Rightarrow> range option" where
  "run_highlight ix sql offset =
     (case range_at ix sql offset of
        None \<Rightarrow> None
      | Some r \<Rightarrow>
          (let line_start = (case rposition (\<lambda>b. b = newline) (take (fst r) sql) of
                               None \<Rightarrow> 0 | Some i \<Rightarrow> i + 1);
               line_end = (case position (\<lambda>b. b = carriage_return \<or> b = newline) (drop (snd r) sql) of
                             None \<Rightarrow> length sql | Some i \<Rightarrow> snd r + i);
               start = (if same_line_space (slice sql (line_start, fst r)) then line_start else fst r);
               stop = (if same_line_space (slice sql (snd r, line_end)) then line_end else snd r)
           in Some (start, stop)))"

section \<open>Ordered ranges\<close>

text \<open>Ranges in order, without overlap, none empty, within \<open>a\<close> and \<open>b\<close>.\<close>

fun ordered :: "nat \<Rightarrow> range list \<Rightarrow> nat \<Rightarrow> bool" where
  "ordered a [] b \<longleftrightarrow> a \<le> b"
| "ordered a (r # rs) b \<longleftrightarrow> a \<le> fst r \<and> fst r < snd r \<and> ordered (snd r) rs b"

lemma ordered_mono: "ordered a rs b \<Longrightarrow> a' \<le> a \<Longrightarrow> ordered a' rs b"
  by (cases rs) auto

lemma ordered_bounds:
  "ordered a rs b \<Longrightarrow> a \<le> b \<and> (\<forall>r \<in> set rs. a \<le> fst r \<and> fst r < snd r \<and> snd r \<le> b)"
proof (induction rs arbitrary: a)
  case (Cons q rs)
  from Cons.prems Cons.IH [of "snd q"] show ?case by (auto simp: ball_Un; fastforce)
qed simp

lemma ordered_unique:
  assumes "ordered a rs b" "r \<in> set rs" "r' \<in> set rs" "range_contains r i" "range_contains r' i"
  shows "r = r'"
  using assms
proof (induction rs arbitrary: a)
  case (Cons q rs)
  have "\<forall>r \<in> set rs. snd q \<le> fst r"
    using Cons.prems(1) ordered_bounds [of "snd q" rs b] by auto
  with Cons show ?case unfolding range_contains_def by fastforce
qed simp

text \<open>
  The loop invariant: with the token ranges still to come tiling the rest of the text, the
  ranges found from here on are ordered, from the start of the open statement if there is one.
\<close>

lemma statement_ranges_loop_ordered:
  fixes start :: "nat option" and stop :: nat
  assumes "tiles i (map fst ts) n"
    and "case start of None \<Rightarrow> True | Some s \<Rightarrow> s < stop \<and> stop \<le> i"
  shows "ordered (case start of None \<Rightarrow> i | Some s \<Rightarrow> s) (statement_ranges_loop sql start stop ts) n"
  using assms
proof (induction ts arbitrary: i start stop)
  case Nil
  then show ?case by (auto split: option.splits)
next
  case (Cons t ts)
  obtain r k where t: "t = (r, k)" by fastforce
  from Cons.prems(1) have r: "fst r = i" "i < snd r" "tiles (snd r) (map fst ts) n"
    by (simp_all add: t)
  note IH = Cons.IH [OF r(3)]
  consider "k = Comment \<or> blank (slice sql r)"
    | "\<not> (k = Comment \<or> blank (slice sql r))" "k = Separator"
    | "\<not> (k = Comment \<or> blank (slice sql r))" "k \<noteq> Separator" by blast
  then show ?case
  proof cases
    case 1
    then show ?thesis using IH [of stop start] Cons.prems(2) r
      by (auto simp: t split: option.splits elim: ordered_mono)
  next
    case 2
    then show ?thesis using IH [of stop None] Cons.prems(2) r
      by (auto simp: t split: option.splits elim: ordered_mono)
  next
    case 3
    then show ?thesis
      using IH [of "snd r" "Some (case start of Some s \<Rightarrow> s | None \<Rightarrow> fst r)"] Cons.prems(2) r
      by (auto simp: t split: option.splits)
  qed
qed

section \<open>Separators\<close>

lemma token_at_Separator:
  assumes "start < length sql" "token_at u d sql start = (e, Separator)"
  shows "e = start + 1 \<and> sql ! start = CHR '';''"
proof -
  have hd: "hd (drop start sql) = sql ! start"
    using assms(1) by (simp add: hd_drop_conv_nth)
  have "snd (quoted_token d sql start) \<noteq> Separator"
    by (simp add: quoted_token_def quoted_kind_def Let_def)
  with assms(2) have "plain_token u sql start = (e, Separator)"
    by (auto simp: token_at_def Let_def split: if_splits option.splits)
  then show ?thesis
    by (auto simp: plain_token_def Let_def hd split: if_splits)
qed

lemma tokens_loop_Separator:
  "((a, e), Separator) \<in> set (tokens_loop u d sql i) \<Longrightarrow> slice sql (a, e) = '';''"
proof (induction u d sql i rule: tokens_loop.induct)
  case (1 u d sql i)
  show ?case
  proof (cases "i < length sql")
    case True
    obtain e' k where tok: "token_at u d sql i = (e', k)" by fastforce
    from "1.prems" True tok consider "a = i" "e = e'" "k = Separator"
      | "((a, e), Separator) \<in> set (tokens_loop u d sql e')"
      by (subst (asm) tokens_loop.simps) auto
    then show ?thesis
    proof cases
      case 1
      then have "e = i + 1 \<and> sql ! i = CHR '';''"
        using token_at_Separator [OF True] tok by simp
      then show ?thesis using True 1 by (simp add: slice_def take_Suc hd_drop_conv_nth)
    next
      case 2
      then show ?thesis using "1.IH" [OF True] tok by simp
    qed
  next
    case False
    with "1.prems" show ?thesis by (subst (asm) tokens_loop.simps) simp
  qed
qed

lemma separator_not_blank:
  "(r, Separator) \<in> set (tokens_for u d sql) \<Longrightarrow> \<not> blank (slice sql r)"
  using tokens_loop_Separator [of "fst r" "snd r"]
  by (simp add: tokens_for_def is_whitespace_def byte_def)

lemma statement_ranges_loop_covers:
  fixes start :: "nat option" and stop :: nat
  assumes "tiles i (map fst ts) n"
    and "case start of None \<Rightarrow> True | Some s \<Rightarrow> s < stop \<and> stop \<le> i"
  shows "(\<forall>(r, k) \<in> set ts. k \<notin> {Comment, Separator} \<and> \<not> blank (slice sql r) \<longrightarrow>
           (\<exists>q \<in> set (statement_ranges_loop sql start stop ts). fst q \<le> fst r \<and> snd r \<le> snd q))
         \<and> (case start of None \<Rightarrow> True
             | Some s \<Rightarrow> (\<exists>e \<ge> stop. (s, e) \<in> set (statement_ranges_loop sql start stop ts)))"
  using assms
proof (induction ts arbitrary: i start stop)
  case Nil
  then show ?case by (auto split: option.splits)
next
  case (Cons t ts)
  obtain r k where t: "t = (r, k)" by fastforce
  from Cons.prems(1) have r: "fst r = i" "i < snd r" "tiles (snd r) (map fst ts) n"
    by (simp_all add: t)
  note IH = Cons.IH [OF r(3)]
  consider "k = Comment \<or> blank (slice sql r)"
    | "\<not> (k = Comment \<or> blank (slice sql r))" "k = Separator"
    | "\<not> (k = Comment \<or> blank (slice sql r))" "k \<noteq> Separator" by blast
  then show ?case
  proof cases
    case 1
    then show ?thesis using IH [of stop start] Cons.prems(2) r
      by (auto simp: t split: option.splits)
  next
    case 2
    note IH' = IH [of stop None, simplified]
    show ?thesis
    proof (cases start)
      case None
      then show ?thesis using IH' 2 by (simp add: t)
    next
      case (Some s)
      then have "stop \<le> snd r" using Cons.prems(2) r by simp
      then show ?thesis using IH' 2 Some by (auto simp: t)
    qed
  next
    case 3
    define s where "s = (case start of Some s \<Rightarrow> s | None \<Rightarrow> fst r)"
    have s: "s < snd r" "s \<le> fst r" using Cons.prems(2) r by (auto simp: s_def split: option.splits)
    have loop: "statement_ranges_loop sql start stop (t # ts)
        = statement_ranges_loop sql (Some s) (snd r) ts"
      using 3 by (simp add: t s_def)
    from IH [of "snd r" "Some s"] s obtain e where
      e: "e \<ge> snd r" "(s, e) \<in> set (statement_ranges_loop sql (Some s) (snd r) ts)" by auto
    then have "\<exists>q \<in> set (statement_ranges_loop sql (Some s) (snd r) ts). fst q \<le> fst r \<and> snd r \<le> snd q"
      using s by (intro bexI [of _ "(s, e)"]) auto
    moreover have "\<exists>e \<ge> stop. (s', e) \<in> set (statement_ranges_loop sql (Some s) (snd r) ts)"
      if "start = Some s'" for s'
      using that e Cons.prems(2) r by (intro exI [of _ e]) (auto simp: s_def)
    ultimately show ?thesis using IH [of "snd r" "Some s"] s
      unfolding loop by (auto simp: t split: option.splits)
  qed
qed

lemma count_statements_eq:
  assumes "\<forall>(r, k) \<in> set ts. k = Separator \<longrightarrow> \<not> blank (slice sql r)"
  shows "count_statements sql m (start \<noteq> None) ts
       = m + length (statement_ranges_loop sql start stop ts)"
  using assms
proof (induction ts arbitrary: m start stop)
  case Nil
  then show ?case by (auto split: option.splits)
next
  case (Cons t ts)
  obtain r k where t: "t = (r, k)" by fastforce
  note IH = Cons.IH [of _ None] Cons.IH [of _ "Some s" for s]
  have ts: "\<forall>(r, k) \<in> set ts. k = Separator \<longrightarrow> \<not> blank (slice sql r)"
    and sep: "k = Separator \<Longrightarrow> \<not> blank (slice sql r)"
    using Cons.prems by (simp_all add: t)
  have none: "count_statements sql m False ts = m + length (statement_ranges_loop sql None stop ts)"
    and some: "count_statements sql m True ts = m + length (statement_ranges_loop sql (Some s) stop ts)"
    for m s stop
    using IH ts by simp_all
  have "length (statement_ranges_loop sql None stop ts) = count_statements sql 0 False ts"
    and "length (statement_ranges_loop sql (Some s) stop ts) = count_statements sql 0 True ts"
    and "count_statements sql (Suc m) c ts = Suc (m + count_statements sql 0 c ts)"
    and "count_statements sql m c ts = m + count_statements sql 0 c ts" for s stop c
    using none [of 0 stop] some [of 0 s stop] none [of _ stop] some [of _ s stop] by (cases c; simp)+
  then show ?case
    using sep by (cases start) (simp_all add: t)
qed

section \<open>What the statement code needs of a lexer\<close>

text \<open>
  The statement code relies on two laws of the lexer only: its tokens tile the text, and a
  separator is never white space. Everything about statement ranges follows from them.
\<close>

locale lexer =
  fixes lex :: "string \<Rightarrow> token list"
  assumes lex_tiles: "tiles 0 (map fst (lex sql)) (length sql)"
    and lex_separator: "(r, Separator) \<in> set (lex sql) \<Longrightarrow> \<not> blank (slice sql r)"
begin

lemma ranges_ordered: "ordered 0 (statement_ranges_in sql (lex sql)) (length sql)"
  using statement_ranges_loop_ordered
    [OF lex_tiles [of sql], where start = None and stop = 0 and sql = sql]
  by (simp add: statement_ranges_in_def)

lemma ranges_cover:
  assumes "(r, k) \<in> set (lex sql)" "k \<noteq> Comment" "k \<noteq> Separator" "\<not> blank (slice sql r)"
  shows "\<exists>!q. q \<in> set (statement_ranges_in sql (lex sql)) \<and> fst q \<le> fst r \<and> snd r \<le> snd q"
proof -
  let ?qs = "statement_ranges_in sql (lex sql)"
  have "\<exists>q \<in> set ?qs. fst q \<le> fst r \<and> snd r \<le> snd q"
    using statement_ranges_loop_covers
      [OF lex_tiles [of sql], where start = None and stop = 0 and sql = sql] assms
    by (fastforce simp: statement_ranges_in_def)
  moreover have "fst r < snd r"
    using tiles_bounds [OF lex_tiles [of sql], of r] assms(1) by force
  moreover have "q = q'"
    if "q \<in> set ?qs" "fst q \<le> fst r" "snd r \<le> snd q"
      "q' \<in> set ?qs" "fst q' \<le> fst r" "snd r \<le> snd q'" for q q'
    using ordered_unique [OF ranges_ordered that(1) that(4), of "fst r"]
      that \<open>fst r < snd r\<close> by (simp add: range_contains_def)
  ultimately show ?thesis by blast
qed

lemma count_is_length:
  "count_statements sql 0 False (lex sql) = length (statement_ranges_in sql (lex sql))"
proof -
  have "\<forall>(r, k) \<in> set (lex sql). k = Separator \<longrightarrow> \<not> blank (slice sql r)"
    using lex_separator by blast
  from count_statements_eq [OF this, of 0 None 0] show ?thesis
    by (simp add: statement_ranges_in_def)
qed

lemma range_unique:
  assumes "q \<in> set (statement_ranges_in sql (lex sql))" "range_contains q i"
    and "q' \<in> set (statement_ranges_in sql (lex sql))" "range_contains q' i"
  shows "q = q'"
  using ordered_unique [OF ranges_ordered assms(1,3)] assms(2,4) by blast

end

interpretation tokenizer: lexer "tokens_for u d" for u d
  by unfold_locales (auto simp: tokens_for_tiles dest: separator_not_blank)

section \<open>Properties\<close>

text \<open>
  C3: the statement ranges of a text are in order, none is empty, no two overlap, and all lie
  inside the text, for every text and database type.
\<close>

theorem statement_ranges_are_ordered:
  "ordered 0 (statement_ranges_for u d sql) (length sql)"
  unfolding statement_ranges_for_def by (rule tokenizer.ranges_ordered)

text \<open>
  C4: nothing that runs is lost or shared: every token that is not a comment, a separator or
  white space lies inside exactly one statement range.
\<close>

theorem significant_token_in_one_statement:
  assumes "(r, k) \<in> set (tokens_for u d sql)"
    and "k \<noteq> Comment" "k \<noteq> Separator" "\<not> blank (slice sql r)"
  shows "\<exists>!q. q \<in> set (statement_ranges_for u d sql) \<and> fst q \<le> fst r \<and> snd r \<le> snd q"
  unfolding statement_ranges_for_def by (rule tokenizer.ranges_cover [OF assms])

theorem significant_token_in_one_statement_witness:
  "\<exists>!q. q \<in> set (statement_ranges_for ascii_tables Kyuubi ''a;b'') \<and> fst q \<le> 2 \<and> 3 \<le> snd q"
proof -
  have "tokens_for ascii_tables Kyuubi ''a;b'' = [((0, 1), Plain), ((1, 2), Separator), ((2, 3), Plain)]"
    by code_simp
  then have "((2, 3), Plain) \<in> set (tokens_for ascii_tables Kyuubi ''a;b'')"
    by simp
  moreover have "\<not> blank (slice ''a;b'' (2, 3))"
    by code_simp
  ultimately show ?thesis
    using significant_token_in_one_statement [of "(2, 3)" Plain ascii_tables Kyuubi "''a;b''"]
    by simp
qed

lemma validate_count:
  "count_statements sql 0 False (tokens_for u d sql) = length (statement_ranges_for u d sql)"
  unfolding statement_ranges_for_def by (rule tokenizer.count_is_length)

text \<open>
  C5: the check before a run and the statement ranges agree, although they are separate loops:
  a text is accepted exactly when it has one statement range, it is rejected as empty exactly
  when it has none, and as several statements exactly when it has more.
\<close>

theorem validate_single_iff_one_range:
  "(validate_single_for u d sql = Inr () \<longleftrightarrow> length (statement_ranges_for u d sql) = 1)
   \<and> (validate_single_for u d sql = Inl NoStatement \<longleftrightarrow> statement_ranges_for u d sql = [])
   \<and> (validate_single_for u d sql = Inl SeveralStatements
        \<longleftrightarrow> 1 < length (statement_ranges_for u d sql))"
  by (cases "statement_ranges_for u d sql")
    (simp_all add: validate_single_for_def Let_def validate_count)

section \<open>The statement at the cursor\<close>

lemma find_SomeD: "List.find p xs = Some x \<Longrightarrow> x \<in> set xs \<and> p x"
  by (induction xs) (auto split: if_splits)

lemma statements_index [simp]:
  "statements (statement_index_new_for u d sql) = statement_ranges_for u d sql"
  by (simp add: statement_index_new_for_def Let_def statement_ranges_for_def)

lemma range_at_finds_statement_part:
  assumes "statement_range_at_for u d sql i = Some r"
  shows "r \<in> set (statement_ranges_for u d sql) \<and> is_char_boundary sql i
         \<and> (range_contains r i \<or> same_line_space (slice sql (gap r i)))"
  using assms
  by (auto simp: statement_range_at_for_def range_at_def dest!: find_SomeD
      split: if_splits option.splits)

text \<open>
  The statement at the cursor. A cursor inside a statement finds that statement. A result is
  always one of the statements, and either has the cursor inside or is separated from it by
  white space without a line break. A cursor inside a character finds nothing.
\<close>

theorem range_at_finds_statement:
  "(\<forall>r \<in> set (statement_ranges_for u d sql). range_contains r i \<and> is_char_boundary sql i \<longrightarrow>
      statement_range_at_for u d sql i = Some r)
   \<and> (\<forall>r. statement_range_at_for u d sql i = Some r \<longrightarrow>
        r \<in> set (statement_ranges_for u d sql)
        \<and> is_char_boundary sql i
        \<and> (range_contains r i \<or> same_line_space (slice sql (gap r i))))"
proof (intro conjI ballI allI impI)
  fix r assume r: "r \<in> set (statement_ranges_for u d sql)"
    "range_contains r i \<and> is_char_boundary sql i"
  then obtain q where q: "List.find (\<lambda>r. range_contains r i) (statement_ranges_for u d sql) = Some q"
    using find_None_iff [of "\<lambda>r. range_contains r i" "statement_ranges_for u d sql"]
    by fastforce
  from find_SomeD [OF q] have "q = r"
    using tokenizer.range_unique r unfolding statement_ranges_for_def by blast
  with q r show "statement_range_at_for u d sql i = Some r"
    by (simp add: statement_range_at_for_def range_at_def)
next
  fix r assume "statement_range_at_for u d sql i = Some r"
  from range_at_finds_statement_part [OF this]
  show "is_char_boundary sql i"
    and "r \<in> set (statement_ranges_for u d sql)"
    and "range_contains r i \<or> same_line_space (slice sql (gap r i))"
    by blast+
qed

theorem range_at_finds_statement_witness:
  "statement_range_at_for ascii_tables Kyuubi ''a; b'' 3 = Some (3, 4)"
proof -
  have "statement_ranges_for ascii_tables Kyuubi ''a; b'' = [(0, 2), (3, 4)]" by code_simp
  then have "(3, 4) \<in> set (statement_ranges_for ascii_tables Kyuubi ''a; b'')" by simp
  moreover have "range_contains (3, 4) 3 \<and> is_char_boundary ''a; b'' 3" by code_simp
  ultimately show ?thesis
    using range_at_finds_statement [of ascii_tables Kyuubi "''a; b''" 3] by blast
qed

section \<open>The highlight of a run\<close>

lemma same_line_space_Nil [simp]: "same_line_space []"
  by (simp add: same_line_space_def)

lemma line_end_bounds:
  fixes a :: nat
  assumes "a \<le> length s"
    and "e = (case position p (drop a s) of None \<Rightarrow> length s | Some i \<Rightarrow> a + i)"
  shows "a \<le> e \<and> e \<le> length s"
  using assms by (auto split: option.splits dest!: position_Some)

lemma line_start_bounds:
  assumes "b = (case rposition p (take a s) of None \<Rightarrow> 0 | Some i \<Rightarrow> i + 1)"
  shows "b \<le> (a::nat)"
  using assms by (auto split: option.splits dest!: rposition_Some)

text \<open>
  the highlight of a run always holds the whole statement that runs, lies inside the text,
  and adds nothing but white space of the statement's own lines on either side.
\<close>

theorem run_highlight_extends_statement:
  assumes "run_highlight (statement_index_new_for u d sql) sql i = Some h"
  shows "\<exists>r. statement_range_at_for u d sql i = Some r
           \<and> fst h \<le> fst r \<and> fst r < snd r \<and> snd r \<le> snd h \<and> snd h \<le> length sql
           \<and> same_line_space (slice sql (fst h, fst r)) \<and> same_line_space (slice sql (snd r, snd h))"
proof -
  let ?ix = "statement_index_new_for u d sql"
  from assms obtain r where r: "range_at ?ix sql i = Some r"
    by (auto simp: run_highlight_def split: option.splits)
  then have "statement_range_at_for u d sql i = Some r"
    by (simp add: statement_range_at_for_def)
  moreover from this have "r \<in> set (statement_ranges_for u d sql)"
    using range_at_finds_statement_part by blast
  then have "fst r < snd r" "snd r \<le> length sql"
    using ordered_bounds [OF tokenizer.ranges_ordered [of sql u d]]
    by (auto simp: statement_ranges_for_def)
  moreover define a where
    "a = (case rposition (\<lambda>b. b = newline) (take (fst r) sql) of None \<Rightarrow> 0 | Some i \<Rightarrow> i + 1)"
  moreover define e where
    "e = (case position (\<lambda>b. b = carriage_return \<or> b = newline) (drop (snd r) sql) of
            None \<Rightarrow> length sql | Some i \<Rightarrow> snd r + i)"
  moreover have "h = (if same_line_space (slice sql (a, fst r)) then a else fst r,
                      if same_line_space (slice sql (snd r, e)) then e else snd r)"
    using assms unfolding run_highlight_def r Let_def a_def e_def by (simp split del: if_split)
  ultimately show ?thesis
    using line_end_bounds [OF _ e_def] line_start_bounds [OF a_def] by auto
qed

theorem run_highlight_extends_statement_witness:
  "\<exists>r. statement_range_at_for ascii_tables Kyuubi '' a '' 1 = Some r \<and> snd r \<le> 3"
proof -
  have "run_highlight (statement_index_new_for ascii_tables Kyuubi '' a '') '' a '' 1 = Some (0, 3)"
    by code_simp
  from run_highlight_extends_statement [OF this] show ?thesis by auto
qed

end
