(* ===== verification/Sql_Format.thy ===== *)
theory Sql_Format
  imports Sql_Statements
begin

text \<open>
  The checked SQL formatter of \<open>src/src/sql.rs\<close>. The layout itself is the third-party crate
  \<open>sqlformat\<close>, which is a parameter here (\<open>sqlformat :: sql_style \<Rightarrow> string \<Rightarrow> string\<close>, the
  options it gets depend on the style only). The code does not trust it: it hides quoted tokens
  from it, restores them, and compares the significant tokens of the result with those of the
  input (\<open>same_tokens_for\<close>). So the safety theorem below holds for every such function.
\<close>

section \<open>Word lists\<close>

definition FORMATTABLE :: "string list" where
  "FORMATTABLE =
    [''SELECT'', ''WITH'', ''FROM'', ''VALUES'', ''INSERT'', ''CREATE'', ''EXPLAIN'', ''MERGE'',
     ''UPDATE'', ''DELETE'']"

definition FUNCTIONS :: "string list" where
  "FUNCTIONS =
    [''abs'', ''acos'', ''add_months'', ''aggregate'', ''any'', ''any_value'',
     ''approx_count_distinct'', ''approx_percentile'', ''array'', ''array_contains'',
     ''array_distinct'', ''array_except'', ''array_join'', ''array_max'', ''array_min'',
     ''array_position'', ''array_remove'', ''array_sort'', ''array_union'', ''arrays_zip'',
     ''ascii'', ''asin'', ''atan'', ''avg'', ''base64'', ''bit_and'', ''bit_or'', ''bool_and'',
     ''bool_or'', ''bround'', ''cardinality'', ''cast'', ''cbrt'', ''ceil'', ''ceiling'',
     ''char_length'', ''coalesce'', ''collect_list'', ''collect_set'', ''concat'', ''concat_ws'',
     ''contains'', ''corr'', ''cos'', ''count'', ''count_if'', ''covar_pop'', ''covar_samp'',
     ''cume_dist'', ''current_date'', ''current_timestamp'', ''date'', ''date_add'',
     ''date_diff'', ''date_format'', ''date_part'', ''date_sub'', ''date_trunc'', ''dateadd'',
     ''datediff'', ''day'', ''dayofmonth'', ''dayofweek'', ''dayofyear'', ''decode'',
     ''degrees'', ''dense_rank'', ''element_at'', ''endswith'', ''every'', ''exists'', ''exp'',
     ''explode'', ''explode_outer'', ''extract'', ''filter'', ''first'', ''first_value'',
     ''flatten'', ''floor'', ''forall'', ''format_number'', ''format_string'', ''from_json'',
     ''from_unixtime'', ''from_utc_timestamp'', ''get_json_object'', ''greatest'', ''hash'',
     ''hex'', ''hour'', ''if'', ''ifnull'', ''initcap'', ''inline'', ''instr'', ''isnan'',
     ''isnotnull'', ''isnull'', ''json_tuple'', ''lag'', ''last'', ''last_day'', ''last_value'',
     ''lead'', ''least'', ''left'', ''len'', ''length'', ''ln'', ''locate'', ''log'', ''log10'',
     ''log2'', ''lower'', ''lpad'', ''ltrim'', ''make_date'', ''make_timestamp'', ''map'',
     ''map_from_arrays'', ''map_keys'', ''map_values'', ''max'', ''max_by'', ''md5'', ''mean'',
     ''median'', ''min'', ''min_by'', ''minute'', ''mod'', ''month'', ''months_between'',
     ''named_struct'', ''next_day'', ''now'', ''nth_value'', ''ntile'', ''nullif'', ''nvl'',
     ''nvl2'', ''over'', ''percent_rank'', ''percentile'', ''percentile_approx'', ''posexplode'',
     ''position'', ''pow'', ''power'', ''quarter'', ''radians'', ''rand'', ''rank'',
     ''regexp_extract'', ''regexp_extract_all'', ''regexp_like'', ''regexp_replace'', ''repeat'',
     ''replace'', ''reverse'', ''right'', ''round'', ''row_number'', ''rpad'', ''rtrim'',
     ''second'', ''sequence'', ''sha1'', ''sha2'', ''shuffle'', ''sign'', ''sin'', ''size'',
     ''slice'', ''sort_array'', ''split'', ''split_part'', ''sqrt'', ''stack'', ''startswith'',
     ''std'', ''stddev'', ''stddev_pop'', ''stddev_samp'', ''struct'', ''substr'', ''substring'',
     ''substring_index'', ''sum'', ''tan'', ''timestamp'', ''to_date'', ''to_json'',
     ''to_timestamp'', ''to_unix_timestamp'', ''to_utc_timestamp'', ''transform'', ''translate'',
     ''trim'', ''trunc'', ''try_add'', ''try_avg'', ''try_cast'', ''try_divide'',
     ''try_element_at'', ''try_sum'', ''try_to_number'', ''ucase'', ''unbase64'', ''unhex'',
     ''unix_timestamp'', ''upper'', ''uuid'', ''var_pop'', ''var_samp'', ''variance'',
     ''weekday'', ''weekofyear'', ''xxhash64'', ''year'', ''zip_with'']"

definition TYPES :: "string list" where
  "TYPES =
    [''array'', ''bigint'', ''binary'', ''boolean'', ''byte'', ''char'', ''date'', ''dec'',
     ''decimal'', ''double'', ''float'', ''int'', ''integer'', ''interval'', ''long'', ''map'',
     ''numeric'', ''real'', ''short'', ''smallint'', ''string'', ''struct'', ''timestamp'',
     ''timestamp_ltz'', ''timestamp_ntz'', ''tinyint'', ''varchar'']"

definition LITERAL_PREFIXES :: "string list" where
  "LITERAL_PREFIXES =
    [''date'', ''time'', ''interval'', ''timestamp'', ''timestamp_ltz'', ''timestamp_ntz'']"

section \<open>Significant tokens\<close>

record significant_token =
  sig_kind :: kind
  sig_text :: string
  space_before :: bool
  line_break_before :: bool

definition has_line_break :: "string \<Rightarrow> bool" where
  "has_line_break t \<longleftrightarrow> list_ex (\<lambda>b. b = newline \<or> b = carriage_return) t"

text \<open>The loop of \<open>significant\<close>, over its variables \<open>space_before\<close> and \<open>line_break_before\<close>.\<close>

fun significant_loop :: "string \<Rightarrow> bool \<Rightarrow> bool \<Rightarrow> token list \<Rightarrow> significant_token list" where
  "significant_loop sql space brk [] = []"
| "significant_loop sql space brk ((r, k) # ts) =
     (let text = slice sql r in
      if blank text then significant_loop sql True (brk \<or> has_line_break text) ts
      else
        \<lparr>sig_kind = k, sig_text = text, space_before = space, line_break_before = brk\<rparr>
        # significant_loop sql False (if k = Comment then brk \<or> has_line_break text else False) ts)"

definition significant :: "unicode \<Rightarrow> database_type \<Rightarrow> string \<Rightarrow> significant_token list" where
  "significant u d sql = significant_loop sql False False (tokens_for u d sql)"

section \<open>The token check\<close>

definition first_char_is :: "(nat \<Rightarrow> bool) \<Rightarrow> string \<Rightarrow> bool" where
  "first_char_is p t \<longleftrightarrow> t \<noteq> [] \<and> p (hd (chars_of t))"

definition starts_word :: "unicode \<Rightarrow> significant_token \<Rightarrow> bool" where
  "starts_word u t \<longleftrightarrow>
     first_char_is (\<lambda>c. is_alphanumeric u c \<or> c = byte CHR ''_'') (sig_text t)"

definition is_symbol :: "unicode \<Rightarrow> significant_token \<Rightarrow> bool" where
  "is_symbol u t \<longleftrightarrow>
     sig_kind t = Plain \<and> \<not> starts_word u t
     \<and> \<not> first_char_is (\<lambda>c. list_ex (\<lambda>b. byte b = c) '',()[]'') (sig_text t)"

definition is_word :: "unicode \<Rightarrow> significant_token \<Rightarrow> bool" where
  "is_word u t \<longleftrightarrow> sig_kind t = Plain \<and> starts_word u t"

definition text_at :: "significant_token list \<Rightarrow> nat \<Rightarrow> string" where
  "text_at ts i = (if i < length ts then sig_text (ts ! i) else [])"

text \<open>Whether token \<open>i\<close> is next to a \<open>.\<close>, so it names a field, a column or a table.\<close>

definition is_qualified :: "significant_token list \<Rightarrow> nat \<Rightarrow> bool" where
  "is_qualified ts i \<longleftrightarrow> 0 < i \<and> text_at ts (i - 1) = ''.'' \<or> text_at ts (i + 1) = ''.''"

text \<open>Postgres joins string literals that only a line break separates.\<close>

definition continued_string :: "database_type \<Rightarrow> significant_token list \<Rightarrow> nat \<Rightarrow> bool" where
  "continued_string d ts i \<longleftrightarrow>
     d = Postgres \<and> sig_kind (ts ! i) = StringLiteral
     \<and> (case List.find (\<lambda>t. sig_kind t \<noteq> Comment) (rev (take i ts)) of
          None \<Rightarrow> False | Some t \<Rightarrow> sig_kind t = StringLiteral)"

definition same_token_at ::
  "unicode \<Rightarrow> database_type \<Rightarrow> significant_token list \<Rightarrow> significant_token list \<Rightarrow> nat \<Rightarrow> bool" where
  "same_token_at u d orig form i \<longleftrightarrow>
     (let a = orig ! i; b = form ! i in
      sig_kind a = sig_kind b
      \<and> (continued_string d orig i \<longrightarrow> line_break_before a = line_break_before b)
      \<and> (sig_text a = sig_text b
         \<or> is_word u a \<and> \<not> is_qualified orig i \<and> eq_ignore_ascii_case (sig_text a) (sig_text b))
      \<and> (i = 0
         \<or> space_before a = space_before b
         \<or> \<not> (is_symbol u (orig ! (i - 1)) \<and> is_symbol u a
               \<or> is_word u (orig ! (i - 1)) \<and> sig_kind a = StringLiteral)))"

definition same_tokens_for :: "unicode \<Rightarrow> database_type \<Rightarrow> string \<Rightarrow> string \<Rightarrow> bool" where
  "same_tokens_for u d original formatted \<longleftrightarrow>
     (let orig = significant u d original; form = significant u d formatted in
      length orig = length form \<and> list_all (same_token_at u d orig form) [0..<length orig])"

section \<open>Layout with hidden tokens\<close>

text \<open>\<open>normalize_layout_whitespace\<close>: runs of white space become one space or line break.\<close>

fun normalize_loop :: "string \<Rightarrow> bool \<Rightarrow> token list \<Rightarrow> string" where
  "normalize_loop sql after_line_comment [] = []"
| "normalize_loop sql after_line_comment ((r, k) # ts) =
     (let text = slice sql r in
      if blank text then
        (if after_line_comment \<and> has_line_break text then newline else CHR '' '')
        # normalize_loop sql after_line_comment ts
      else text @ normalize_loop sql (k = Comment \<and> starts_with text ''--'') ts)"

definition normalize_layout_whitespace :: "unicode \<Rightarrow> database_type \<Rightarrow> string \<Rightarrow> string" where
  "normalize_layout_whitespace u d sql = normalize_loop sql False (tokens_for u d sql)"

text \<open>The marker prefix grows until the text does not contain it.\<close>

function fresh_prefix :: "string \<Rightarrow> string \<Rightarrow> string" where
  "fresh_prefix sql prefix =
     (if contains_str sql prefix then fresh_prefix sql (prefix @ ''_'') else prefix)"
  by pat_completeness auto
termination
  by (relation "measure (\<lambda>(sql, prefix). Suc (length sql) - length prefix)")
    (auto simp: contains_str_def dest!: find_str_Some)

declare fresh_prefix.simps [simp del]

text \<open>\<open>str::replace\<close> with a pattern that is not empty: all occurrences, from the left.\<close>

function replace_str :: "string \<Rightarrow> string \<Rightarrow> string \<Rightarrow> string" where
  "replace_str pat rep s =
     (if s = [] then []
      else if pat \<noteq> [] \<and> starts_with s pat then rep @ replace_str pat rep (drop (length pat) s)
      else hd s # replace_str pat rep (tl s))"
  by pat_completeness auto
termination
  by (relation "measure (\<lambda>(pat, rep, s). length s)") auto

declare replace_str.simps [simp del]

text \<open>Whether the string literal \<open>r\<close> follows directly on a literal prefix, such as \<open>DATE\<close>.\<close>

definition adjacent_prefix :: "string \<Rightarrow> token option \<Rightarrow> range \<Rightarrow> kind \<Rightarrow> bool" where
  "adjacent_prefix sql prev r k \<longleftrightarrow>
     k = StringLiteral \<and> starts_with (slice sql r) [single_quote]
     \<and> (case prev of
          None \<Rightarrow> False
        | Some (pr, pk) \<Rightarrow>
            (let prefix = to_ascii_lowercase (slice sql pr) in
             pk = Plain \<and> snd pr = fst r
             \<and> (list_ex ((=) prefix) LITERAL_PREFIXES
                \<or> prefix = ''e'' \<or> prefix = ''x'' \<or> prefix = ''b'' \<or> prefix = ''n'')))"

text \<open>
  The loop of \<open>format_layout\<close> that hides tokens: \<open>stop\<close> is its \<open>end\<close>, the first byte that is
  not yet copied, and \<open>protected\<close> the markers with the texts they stand for.
\<close>

fun mask_loop ::
  "database_type \<Rightarrow> string \<Rightarrow> string \<Rightarrow> token option \<Rightarrow> string \<Rightarrow> (string \<times> string) list
   \<Rightarrow> nat \<Rightarrow> token list \<Rightarrow> string \<times> (string \<times> string) list" where
  "mask_loop d sql prefix prev masked protected stop [] = (masked @ drop stop sql, protected)"
| "mask_loop d sql prefix prev masked protected stop ((r, k) # ts) =
     (let adjacent = adjacent_prefix sql prev r k;
          start = (case prev of Some (pr, _) \<Rightarrow> (if adjacent then fst pr else fst r) | None \<Rightarrow> fst r)
      in
      if k \<noteq> StringLiteral \<and> k \<noteq> Identifier \<or> d = Kyuubi \<and> \<not> adjacent then
        mask_loop d sql prefix (Some (r, k)) masked protected stop ts
      else
        (let marker = [single_quote] @ prefix @ show_nat (length protected) @ [single_quote]
         in mask_loop d sql prefix (Some (r, k))
              (masked @ slice sql (stop, start) @ marker)
              (protected @ [(marker, slice sql (start, snd r))])
              (snd r) ts))"

definition restore_tokens :: "(string \<times> string) list \<Rightarrow> string \<Rightarrow> string" where
  "restore_tokens protected formatted =
     foldl (\<lambda>t (marker, original). replace_str marker original t) formatted protected"

definition format_layout ::
  "unicode \<Rightarrow> (sql_style \<Rightarrow> string \<Rightarrow> string) \<Rightarrow> sql_style \<Rightarrow> database_type \<Rightarrow> string \<Rightarrow> string" where
  "format_layout u sqlformat style d text =
     (let sql = normalize_layout_whitespace u d text;
          prefix = fresh_prefix sql ''__qrow_format_token_'';
          (masked, protected) = mask_loop d sql prefix None [] [] 0 (tokens_for u d sql);
          canonical = normalize_layout_whitespace u d (sqlformat style masked)
      in restore_tokens protected (sqlformat style canonical))"

section \<open>Keyword case\<close>

text \<open>The tokens that are not white space, and the text of one of them, or nothing.\<close>

definition words_of :: "unicode \<Rightarrow> database_type \<Rightarrow> string \<Rightarrow> token list" where
  "words_of u d sql = filter (\<lambda>t. \<not> blank (slice sql (fst t))) (tokens_for u d sql)"

definition word_text :: "string \<Rightarrow> token list \<Rightarrow> nat \<Rightarrow> string" where
  "word_text sql ws i = (if i < length ws then slice sql (fst (ws ! i)) else [])"

definition word_is_word :: "string \<Rightarrow> token list \<Rightarrow> nat \<Rightarrow> bool" where
  "word_is_word sql ws i \<longleftrightarrow>
     i < length ws \<and> snd (ws ! i) = Plain
     \<and> word_text sql ws i \<noteq> []
     \<and> (is_ascii_alphabetic (hd (word_text sql ws i)) \<or> hd (word_text sql ws i) = CHR ''_'')"

definition previous_text :: "string \<Rightarrow> token list \<Rightarrow> nat \<Rightarrow> string" where
  "previous_text sql ws i = (if i = 0 then [] else word_text sql ws (i - 1))"

text \<open>Whether the word \<open>i\<close>, in lower case \<open>word\<close>, is written in the keyword case.\<close>

definition is_keyword :: "string \<Rightarrow> token list \<Rightarrow> bool \<Rightarrow> nat \<Rightarrow> string \<Rightarrow> bool" where
  "is_keyword sql ws in_cast_type i word \<longleftrightarrow>
     word_text sql ws (i + 1) = ''('' \<and> list_ex ((=) word) FUNCTIONS
     \<or> (i + 1 < length ws \<and> snd (ws ! (i + 1)) = StringLiteral) \<and> list_ex ((=) word) LITERAL_PREFIXES
     \<or> in_cast_type \<and> list_ex ((=) word) TYPES
     \<or> word = ''nulls''
       \<and> (to_ascii_lowercase (word_text sql ws (i + 1)) = ''first''
          \<or> to_ascii_lowercase (word_text sql ws (i + 1)) = ''last'')
     \<or> (word = ''first'' \<or> word = ''last'')
       \<and> eq_ignore_ascii_case (previous_text sql ws i) ''nulls''"

definition apply_case :: "keyword_case \<Rightarrow> string \<Rightarrow> string" where
  "apply_case c word =
     (case c of Uppercase \<Rightarrow> to_ascii_uppercase word | Lowercase \<Rightarrow> word)"

text \<open>\<open>String::replace_range\<close>.\<close>

definition replace_range :: "string \<Rightarrow> range \<Rightarrow> string \<Rightarrow> string" where
  "replace_range s r t = take (fst r) s @ t @ drop (snd r) s"

text \<open>
  One round of the loop of \<open>case_other_keywords\<close>. The open parentheses are a list with the
  innermost first: whether it belongs to a cast, and whether the cast has reached its type.
\<close>

definition case_step ::
  "keyword_case \<Rightarrow> string \<Rightarrow> token list \<Rightarrow> nat \<Rightarrow> string \<times> (bool \<times> bool) list
   \<Rightarrow> string \<times> (bool \<times> bool) list" where
  "case_step c sql ws i st =
     (let (res, parens) = st;
          word = to_ascii_lowercase (word_text sql ws i) in
      if word = ''('' then
        (let before = to_ascii_lowercase (previous_text sql ws i) in
         (res, (before = ''cast'' \<or> before = ''try_cast'', False) # parens))
      else if word = '')'' then (res, drop 1 parens)
      else if \<not> word_is_word sql ws i \<or> word_text sql ws (i + 1) = ''.''
              \<or> previous_text sql ws i = ''.'' then st
      else
        (let in_cast_type = (case parens of (cast, typed) # _ \<Rightarrow> cast \<and> typed | [] \<Rightarrow> False);
             parens' = (case parens of
                          (True, typed) # ps \<Rightarrow> if word = ''as'' then (True, True) # ps else parens
                        | _ \<Rightarrow> parens)
         in (if is_keyword sql ws in_cast_type i word
             then replace_range res (fst (ws ! i)) (apply_case c word) else res,
             parens')))"

definition case_other_keywords ::
  "unicode \<Rightarrow> keyword_case \<Rightarrow> database_type \<Rightarrow> string \<Rightarrow> string" where
  "case_other_keywords u c d sql =
     (let ws = words_of u d sql
      in fst (foldl (\<lambda>st i. case_step c sql ws i st) (sql, []) [0..<length ws]))"

section \<open>Formatting\<close>

datatype format_mode = Assistant | Manual

datatype format_outcome = Formatted string | TooShort | Unsupported | Unchanged | Rejected

definition format_statement_for ::
  "unicode \<Rightarrow> (sql_style \<Rightarrow> string \<Rightarrow> string) \<Rightarrow> sql_style \<Rightarrow> format_mode \<Rightarrow> database_type
   \<Rightarrow> string \<Rightarrow> format_outcome" where
  "format_statement_for u sqlformat style mode d sql =
     (let ts = significant u d sql;
          chars = sum_list (map (\<lambda>t. char_count (sig_text t) + of_bool (space_before t)) ts)
      in
      if mode = Assistant \<and> chars \<le> 80 then TooShort
      else
        (case List.find (\<lambda>t. sig_kind t \<noteq> Comment) ts of
           None \<Rightarrow> Unsupported
         | Some first \<Rightarrow>
             if \<not> list_ex ((=) (to_ascii_uppercase (sig_text first))) FORMATTABLE then Unsupported
             else
               (let formatted =
                  case_other_keywords u (style_keyword_case style) d
                    (trim (format_layout u sqlformat style d sql))
                in
                if \<not> same_tokens_for u d sql formatted then Rejected
                else if formatted = sql then Unchanged
                else Formatted formatted)))"

definition format_statement_with_mode ::
  "unicode \<Rightarrow> (sql_style \<Rightarrow> string \<Rightarrow> string) \<Rightarrow> sql_style \<Rightarrow> format_mode \<Rightarrow> string
   \<Rightarrow> format_outcome" where
  "format_statement_with_mode u sqlformat style mode sql =
     format_statement_for u sqlformat style mode Kyuubi sql"

definition format_statement ::
  "unicode \<Rightarrow> (sql_style \<Rightarrow> string \<Rightarrow> string) \<Rightarrow> sql_style \<Rightarrow> string \<Rightarrow> string option" where
  "format_statement u sqlformat style sql =
     (case format_statement_with_mode u sqlformat style Assistant sql of
        Formatted text \<Rightarrow> Some text | _ \<Rightarrow> None)"

section \<open>What a formatted result preserves\<close>

lemma same_tokens_for_nth:
  assumes "same_tokens_for u d sql f" "i < length (significant u d sql)"
  shows "length (significant u d f) = length (significant u d sql)
         \<and> same_token_at u d (significant u d sql) (significant u d f) i"
  using assms by (auto simp: same_tokens_for_def Let_def list_all_iff)

lemma same_token_at_parts:
  assumes "same_token_at u d orig form i"
  shows "sig_kind (form ! i) = sig_kind (orig ! i)
         \<and> eq_ignore_ascii_case (sig_text (orig ! i)) (sig_text (form ! i))
         \<and> (sig_kind (orig ! i) \<noteq> Plain \<or> is_qualified orig i \<longrightarrow>
              sig_text (form ! i) = sig_text (orig ! i))"
  using assms by (auto simp: same_token_at_def Let_def is_word_def)

lemma same_tokens_for_maps:
  assumes "same_tokens_for u d sql f"
  shows "map sig_kind (significant u d f) = map sig_kind (significant u d sql)"
    and "map (to_ascii_lowercase \<circ> sig_text) (significant u d f)
       = map (to_ascii_lowercase \<circ> sig_text) (significant u d sql)"
proof -
  have len: "length (significant u d f) = length (significant u d sql)"
    using assms by (simp add: same_tokens_for_def Let_def)
  note parts = same_tokens_for_nth [OF assms, THEN conjunct2, THEN same_token_at_parts]
  show "map sig_kind (significant u d f) = map sig_kind (significant u d sql)"
    by (rule nth_equalityI) (use len parts in simp_all)
  show "map (to_ascii_lowercase \<circ> sig_text) (significant u d f)
      = map (to_ascii_lowercase \<circ> sig_text) (significant u d sql)"
    by (rule nth_equalityI) (use len parts in \<open>simp_all add: eq_ignore_ascii_case_def\<close>)
qed

lemma format_statement_for_Formatted:
  assumes "format_statement_for u sqlformat style mode d sql = Formatted f"
  shows "same_tokens_for u d sql f \<and> f \<noteq> sql"
  using assms by (auto simp: format_statement_for_def Let_def split: if_splits option.splits)

text \<open>
  C7: the formatter is safe whatever the layout crate does. A formatted text has the same
  significant tokens as the input: the same kinds in the same order, the same texts up to ASCII
  letter case, and exactly the same text for every string, quoted name, number, comment and
  separator and for every word next to a \<open>.\<close>.
\<close>

theorem formatted_preserves_tokens:
  assumes "format_statement_for u sqlformat style mode d sql = Formatted f"
  shows "map sig_kind (significant u d f) = map sig_kind (significant u d sql)
         \<and> map (to_ascii_lowercase \<circ> sig_text) (significant u d f)
           = map (to_ascii_lowercase \<circ> sig_text) (significant u d sql)
         \<and> (\<forall>i < length (significant u d sql).
              sig_kind (significant u d sql ! i) \<noteq> Plain \<or> is_qualified (significant u d sql) i \<longrightarrow>
              sig_text (significant u d f ! i) = sig_text (significant u d sql ! i))"
proof -
  from format_statement_for_Formatted [OF assms] have same: "same_tokens_for u d sql f" by blast
  with same_tokens_for_maps [OF same] show ?thesis
    using same_tokens_for_nth [OF same, THEN conjunct2, THEN same_token_at_parts] by blast
qed

definition two_line_layout :: "sql_style \<Rightarrow> string \<Rightarrow> string" where
  "two_line_layout style text = map (\<lambda>b. if b = CHR '' '' then newline else b) text"

lemma two_line_example:
  "format_statement_for ascii_tables two_line_layout default_style Manual Kyuubi ''select 1''
   = Formatted (''select'' @ [newline] @ ''1'')"
  by code_simp

theorem formatted_preserves_tokens_witness:
  "map sig_kind (significant ascii_tables Kyuubi (''select'' @ [newline] @ ''1''))
   = map sig_kind (significant ascii_tables Kyuubi ''select 1'')"
  using formatted_preserves_tokens [OF two_line_example] by blast

section \<open>Formatting keeps the number of statements\<close>

fun count_kinds :: "nat \<Rightarrow> bool \<Rightarrow> kind list \<Rightarrow> nat" where
  "count_kinds m content [] = m + of_bool content"
| "count_kinds m content (k # ks) =
     (if k = Separator then (if content then count_kinds (m + 1) False ks else count_kinds m content ks)
      else if k \<noteq> Comment then count_kinds m True ks
      else count_kinds m content ks)"

lemma count_statements_kinds:
  assumes "\<forall>(r, k) \<in> set ts. k = Separator \<longrightarrow> \<not> blank (slice sql r)"
  shows "count_statements sql m content ts
       = count_kinds m content (map sig_kind (significant_loop sql space brk ts))"
  using assms
proof (induction ts arbitrary: m content space brk)
  case (Cons t ts)
  obtain r k where t: "t = (r, k)" by fastforce
  have sep: "k = Separator \<Longrightarrow> \<not> blank (slice sql r)"
    and ts: "\<forall>(r, k) \<in> set ts. k = Separator \<longrightarrow> \<not> blank (slice sql r)"
    using Cons.prems by (simp_all add: t)
  show ?case using sep Cons.IH [OF ts] by (auto simp: t Let_def)
qed simp

lemma statement_count_kinds:
  "length (statement_ranges_for u d sql) = count_kinds 0 False (map sig_kind (significant u d sql))"
proof -
  have "\<forall>(r, k) \<in> set (tokens_for u d sql). k = Separator \<longrightarrow> \<not> blank (slice sql r)"
    using separator_not_blank by blast
  from count_statements_kinds [OF this] show ?thesis
    by (simp add: validate_count [symmetric] significant_def)
qed

text \<open>
  formatting never merges or splits statements: a formatted text has as many statements as
  the input, so a text that passes the check before a run still passes it.
\<close>

theorem formatted_keeps_statement_count:
  assumes "format_statement_for u sqlformat style mode d sql = Formatted f"
  shows "length (statement_ranges_for u d f) = length (statement_ranges_for u d sql)
         \<and> validate_single_for u d f = validate_single_for u d sql"
proof -
  from format_statement_for_Formatted [OF assms] have "same_tokens_for u d sql f" by blast
  then have "length (statement_ranges_for u d f) = length (statement_ranges_for u d sql)"
    by (simp add: statement_count_kinds same_tokens_for_maps)
  then show ?thesis by (simp add: validate_single_for_def validate_count)
qed

theorem formatted_keeps_statement_count_witness:
  "validate_single_for ascii_tables Kyuubi (''select'' @ [newline] @ ''1'') = Inr ()"
proof -
  have "validate_single_for ascii_tables Kyuubi ''select 1'' = Inr ()" by code_simp
  with formatted_keeps_statement_count [OF two_line_example] show ?thesis by simp
qed

section \<open>Keyword case changes letter case only\<close>

lemma to_ascii_lower_idem [simp]: "to_ascii_lower (to_ascii_lower c) = to_ascii_lower c"
  by (simp add: ascii_simps)

lemma to_ascii_lower_upper [simp]: "to_ascii_lower (to_ascii_upper c) = to_ascii_lower c"
  by (auto simp: ascii_simps)

lemma lower_apply_case: "to_ascii_lowercase (apply_case c word) = to_ascii_lowercase word"
  by (cases c) (simp_all add: apply_case_def)

lemma length_apply_case [simp]: "length (apply_case c word) = length word"
  by (cases c) (simp_all add: apply_case_def)

lemma lower_replace_range:
  assumes "to_ascii_lowercase res = to_ascii_lowercase sql"
    and "fst r \<le> snd r"
    and "to_ascii_lowercase t = to_ascii_lowercase (slice sql r)"
  shows "to_ascii_lowercase (replace_range res r t) = to_ascii_lowercase sql"
proof -
  have "to_ascii_lowercase (take (fst r) res) = to_ascii_lowercase (take (fst r) sql)"
    and "to_ascii_lowercase (drop (snd r) res) = to_ascii_lowercase (drop (snd r) sql)"
    using assms(1) by (metis take_map, metis drop_map)
  then have "to_ascii_lowercase (replace_range res r t)
      = to_ascii_lowercase (take (fst r) sql @ slice sql r @ drop (snd r) sql)"
    using assms(3) by (simp add: replace_range_def)
  also have "take (fst r) sql @ slice sql r @ drop (snd r) sql = sql"
    using slice_split [OF assms(2), of sql] by simp
  finally show ?thesis .
qed

lemma case_step_lower:
  assumes "to_ascii_lowercase (fst st) = to_ascii_lowercase sql"
    and "i < length ws" "\<forall>t \<in> set ws. fst (fst t) \<le> snd (fst t)"
  shows "to_ascii_lowercase (fst (case_step c sql ws i st)) = to_ascii_lowercase sql"
proof -
  obtain res parens where st: "st = (res, parens)" by fastforce
  define w where "w = to_ascii_lowercase (word_text sql ws i)"
  have "to_ascii_lowercase (apply_case c w) = to_ascii_lowercase (slice sql (fst (ws ! i)))"
    using assms(2) by (simp add: lower_apply_case w_def word_text_def)
  then have "to_ascii_lowercase (replace_range res (fst (ws ! i)) (apply_case c w))
      = to_ascii_lowercase sql"
    using assms st nth_mem [OF assms(2)] by (intro lower_replace_range) auto
  then show ?thesis
    using assms(1) by (simp add: case_step_def st Let_def w_def split: list.splits prod.splits)
qed

text \<open>
  writing the keywords in the chosen case changes nothing but the case of ASCII letters:
  the result has the same length, and the same bytes up to ASCII case.
\<close>

theorem case_other_keywords_same_letters:
  "eq_ignore_ascii_case (case_other_keywords u c d sql) sql"
proof -
  let ?ws = "words_of u d sql"
  have bounds: "\<forall>t \<in> set ?ws. fst (fst t) \<le> snd (fst t)"
    using tiles_bounds [OF tokens_for_tiles [of u d sql]]
    by (force simp: words_of_def)
  have "to_ascii_lowercase (fst (foldl (\<lambda>st i. case_step c sql ?ws i st) (sql, []) is))
      = to_ascii_lowercase sql" if "\<forall>i \<in> set is. i < length ?ws" for "is"
    using that
  proof (induction "is" rule: rev_induct)
    case (snoc i "is")
    then show ?case using case_step_lower [OF _ _ bounds] by simp
  qed simp
  then show ?thesis
    by (simp add: case_other_keywords_def Let_def eq_ignore_ascii_case_def)
qed

end
