(* ===== verification/Logs.thy ===== *)
theory Logs
  imports Rust_Str
begin

text \<open>
  The Logs model of a query tab (\<open>src/src/logs.rs\<close>): events, entries and groups, the history with
  its retention (\<open>LogHistory\<close>), the panel transitions (\<open>PanelState\<close>) and the number and time
  labels. A time is an integer number of nanoseconds from the Unix epoch; \<open>SystemTime::now()\<close> is
  an argument of the operation that asks for it.
\<close>

section \<open>Limits\<close>

definition MAX_EXECUTION_GROUPS :: nat where "MAX_EXECUTION_GROUPS = 100"
definition MAX_NON_EXECUTION_GROUPS :: nat where "MAX_NON_EXECUTION_GROUPS = 50"
definition MAX_TEXT_BYTES :: nat where "MAX_TEXT_BYTES = 8 * 1024 * 1024"

text \<open>The group of the retention line, \<open>u64::MAX\<close>.\<close>

definition NO_GROUP :: nat where "NO_GROUP = 18446744073709551615"

section \<open>Labels\<close>

text \<open>The loop of \<open>group_digits\<close>: \<open>index\<close> counts the digits, \<open>n\<close> is their number.\<close>

fun group_digits_loop :: "nat \<Rightarrow> nat \<Rightarrow> string \<Rightarrow> string" where
  "group_digits_loop n index [] = []"
| "group_digits_loop n index (d # ds) =
     (if 0 < index \<and> (n - index) mod 3 = 0 then [CHR '','', d] else [d])
     @ group_digits_loop n (index + 1) ds"

definition group_digits :: "nat \<Rightarrow> string" where
  "group_digits v = (let digits = show_nat v in group_digits_loop (length digits) 0 digits)"

text \<open>\<open>{:02}\<close> and \<open>{:04}\<close> of a number that is not negative.\<close>

definition pad :: "nat \<Rightarrow> nat \<Rightarrow> string" where
  "pad width v = replicate (width - length (show_nat v)) CHR ''0'' @ show_nat v"

record civil =
  civil_year :: int
  civil_month :: int
  civil_day :: int

text \<open>The Gregorian date of a day number, counted from 1970-01-01.\<close>

definition civil_from_days :: "int \<Rightarrow> civil" where
  "civil_from_days days =
     (let z = days + 719468;
          era = (if 0 \<le> z then z else z - 146096) div 146097;
          day_of_era = z - era * 146097;
          year_part = (day_of_era - day_of_era div 1460 + day_of_era div 36524
                       - day_of_era div 146096) div 365;
          year = year_part + era * 400;
          day_of_year = day_of_era - (365 * year_part + year_part div 4 - year_part div 100);
          month_part = (5 * day_of_year + 2) div 153;
          day = day_of_year - (153 * month_part + 2) div 5 + 1;
          month = month_part + (if month_part < 10 then 3 else -9)
      in \<lparr>civil_year = year + (if month \<le> 2 then 1 else 0),
          civil_month = month, civil_day = day\<rparr>)"

definition as_secs :: "int \<Rightarrow> int" where
  "as_secs t = max 0 t div 1000000000"

definition timestamp_label :: "int \<Rightarrow> string" where
  "timestamp_label t =
     (let seconds = as_secs t;
          c = civil_from_days (seconds div 86400);
          day_seconds = seconds mod 86400;
          hour = day_seconds div 3600;
          minute = day_seconds mod 3600 div 60;
          second = day_seconds mod 60
      in pad 4 (nat (civil_year c)) @ ''-'' @ pad 2 (nat (civil_month c)) @ ''-''
         @ pad 2 (nat (civil_day c)) @ '' '' @ pad 2 (nat hour) @ '':'' @ pad 2 (nat minute) @ '':''
         @ pad 2 (nat second))"

section \<open>Events, entries and groups\<close>

datatype severity = Info | Error

datatype log_kind =
    Connected | Submitted | ExecutionStarted | ExecutionCompleted | FetchStarted | FetchCompleted
  | KeepAliveCompleted | KeepAliveFailed | SchemaRefresh | SchemaRefreshFinished
  | CancelRequested | Cancelled | ErrorEvent | Disconnected | SignIn | HistoryTrimmed

record log_event =
  ev_timestamp :: int
  ev_execution_id :: "nat option"
  ev_severity :: severity
  ev_kind :: log_kind
  ev_text :: string
  ev_connection :: "string option"
  ev_sql :: "string option"
  ev_duration :: "nat option"

text \<open>A log entry has the fields of its event and two identifiers.\<close>

record log_entry = log_event +
  entry_id :: nat
  group_id :: nat

definition log_event_new :: "int \<Rightarrow> nat option \<Rightarrow> severity \<Rightarrow> log_kind \<Rightarrow> string \<Rightarrow> log_event" where
  "log_event_new now execution_id sev k text =
     \<lparr>ev_timestamp = now, ev_execution_id = execution_id, ev_severity = sev, ev_kind = k,
      ev_text = text, ev_connection = None, ev_sql = None, ev_duration = None\<rparr>"

definition log_event_at ::
  "int \<Rightarrow> int \<Rightarrow> nat option \<Rightarrow> severity \<Rightarrow> log_kind \<Rightarrow> string \<Rightarrow> log_event" where
  "log_event_at now timestamp execution_id sev k text =
     (log_event_new now execution_id sev k text)\<lparr>ev_timestamp := timestamp\<rparr>"

definition with_connection :: "log_event \<Rightarrow> string \<Rightarrow> log_event" where
  "with_connection e c = e\<lparr>ev_connection := Some c\<rparr>"

definition with_sql :: "log_event \<Rightarrow> string \<Rightarrow> log_event" where
  "with_sql e q = e\<lparr>ev_sql := Some q\<rparr>"

definition log_entry_from :: "log_event \<Rightarrow> log_entry" where
  "log_entry_from e = log_event.extend e \<lparr>entry_id = 0, group_id = 0\<rparr>"

definition opt_len :: "string option \<Rightarrow> nat" where
  "opt_len x = (case x of None \<Rightarrow> 0 | Some t \<Rightarrow> length t)"

definition entry_text_bytes :: "log_entry \<Rightarrow> nat" where
  "entry_text_bytes e = length (ev_text e) + opt_len (ev_connection e) + opt_len (ev_sql e)"

definition copy_text :: "log_entry \<Rightarrow> string" where
  "copy_text e =
     (if ev_kind e = HistoryTrimmed then ev_text e
      else ''['' @ timestamp_label (ev_timestamp e) @ ''] '' @ ev_text e)"

record log_group =
  lg_id :: nat
  lg_execution_id :: "nat option"
  lg_text_bytes :: nat

section \<open>The history\<close>

record log_history =
  h_groups :: "log_group list"
  h_entries :: "log_entry list"
  h_execution_groups :: nat
  h_latest_error :: "nat option"
  h_next_group_id :: nat
  h_next_entry_id :: nat
  h_text_bytes :: nat
  h_trimmed :: bool

definition log_history_default :: log_history where
  "log_history_default =
     \<lparr>h_groups = [], h_entries = [], h_execution_groups = 0, h_latest_error = None,
      h_next_group_id = 0, h_next_entry_id = 0, h_text_bytes = 0, h_trimmed = False\<rparr>"

definition is_execution :: "log_group \<Rightarrow> bool" where
  "is_execution g \<longleftrightarrow> lg_execution_id g \<noteq> None"

definition latest_error :: "log_history \<Rightarrow> log_entry option" where
  "latest_error h = map_option (\<lambda>i. h_entries h ! i) (h_latest_error h)"

definition has_error :: "log_history \<Rightarrow> bool" where
  "has_error h \<longleftrightarrow> h_latest_error h \<noteq> None"

definition group_entries :: "log_history \<Rightarrow> nat \<Rightarrow> log_entry list" where
  "group_entries h i = filter (\<lambda>e. group_id e = i) (h_entries h)"

definition history_is_empty :: "log_history \<Rightarrow> bool" where
  "history_is_empty h \<longleftrightarrow> h_entries h = []"

definition copy_all :: "log_history \<Rightarrow> string" where
  "copy_all h = join [CHR 0x0A] (map copy_text (h_entries h))"

text \<open>\<open>over_limit\<close>, over the counters that the retention loop changes.\<close>

definition over_limit :: "nat \<Rightarrow> nat \<Rightarrow> nat \<Rightarrow> bool" where
  "over_limit execution_groups groups text_bytes \<longleftrightarrow>
     MAX_EXECUTION_GROUPS < execution_groups
     \<or> MAX_NON_EXECUTION_GROUPS < groups - execution_groups
     \<or> MAX_TEXT_BYTES < text_bytes"

text \<open>\<open>max_by_key\<close> of the execution groups by execution id: the last of the largest.\<close>

fun latest_group :: "log_group list \<Rightarrow> log_group option" where
  "latest_group [] = None"
| "latest_group (g # gs) =
     (case latest_group gs of
        None \<Rightarrow> Some g
      | Some b \<Rightarrow> if the (lg_execution_id g) \<le> the (lg_execution_id b) then Some b else Some g)"

definition latest_execution_group :: "log_history \<Rightarrow> nat option" where
  "latest_execution_group h = map_option lg_id (latest_group (filter is_execution (h_groups h)))"

definition protected_groups :: "log_history \<Rightarrow> nat option list" where
  "protected_groups h =
     (let e = latest_execution_group h; r = map_option group_id (latest_error h) in
      [e, r,
       if e = None \<and> r = None
       then (case h_groups h of [] \<Rightarrow> None | g # gs \<Rightarrow> Some (lg_id (last (g # gs)))) else None])"

text \<open>
  The loop of \<open>retain\<close> over the groups in creation order. \<open>n\<close>, \<open>eg\<close> and \<open>tb\<close> are its
  counters of groups, execution groups and text bytes; it returns them with the removed ids.
\<close>

fun retain_loop ::
  "nat option list \<Rightarrow> log_group list \<Rightarrow> nat \<Rightarrow> nat \<Rightarrow> nat \<Rightarrow> nat list \<Rightarrow> nat \<times> nat \<times> nat \<times> nat list" where
  "retain_loop prot [] n eg tb removed = (n, eg, tb, removed)"
| "retain_loop prot (g # gs) n eg tb removed =
     (if n \<le> 1 \<or> \<not> over_limit eg n tb then (n, eg, tb, removed)
      else
        (let over_cap = (if is_execution g then MAX_EXECUTION_GROUPS < eg
                         else MAX_NON_EXECUTION_GROUPS < n - eg)
         in
         if \<not> (over_cap \<or> MAX_TEXT_BYTES < tb) \<or> Some (lg_id g) \<in> set prot
         then retain_loop prot gs n eg tb removed
         else
           retain_loop prot gs (n - 1) (eg - of_bool (is_execution g)) (tb - lg_text_bytes g)
             (removed @ [lg_id g])))"

definition trimmed_text :: string where
  "trimmed_text = ''Older log entries were removed''"

definition trimmed_entry :: "int \<Rightarrow> nat \<Rightarrow> log_entry" where
  "trimmed_entry now i =
     (log_entry_from (log_event_new now None Info HistoryTrimmed trimmed_text))
       \<lparr>entry_id := i, group_id := NO_GROUP\<rparr>"

definition retain :: "int \<Rightarrow> log_history \<Rightarrow> log_history" where
  "retain now h =
     (if \<not> over_limit (h_execution_groups h) (length (h_groups h)) (h_text_bytes h) then h
      else
        (let (n, eg, tb, removed) =
           retain_loop (protected_groups h) (h_groups h) (length (h_groups h))
             (h_execution_groups h) (h_text_bytes h) []
         in
         if removed = [] then h\<lparr>h_execution_groups := eg, h_text_bytes := tb\<rparr>
         else
           (let h1 = h\<lparr>h_execution_groups := eg,
                       h_text_bytes := tb,
                       h_groups := filter (\<lambda>g. lg_id g \<notin> set removed) (h_groups h),
                       h_entries := filter (\<lambda>e. group_id e \<notin> set removed) (h_entries h)\<rparr>;
                h2 = (if h_trimmed h1 then h1
                      else
                        (let line = trimmed_entry now (h_next_entry_id h1) in
                         h1\<lparr>h_trimmed := True,
                            h_next_entry_id := h_next_entry_id h1 + 1,
                            h_text_bytes := h_text_bytes h1 + entry_text_bytes line,
                            h_entries := line # h_entries h1\<rparr>))
            in h2\<lparr>h_latest_error := rposition (\<lambda>e. ev_severity e = Error) (h_entries h2)\<rparr>)))"

text \<open>
  \<open>record\<close>, in three steps: \<open>open_group\<close> finds the group of the execution or adds a new one,
  \<open>add_entry\<close> puts the entry in it and counts it, and \<open>retain\<close> cuts the history to its limits.
\<close>

definition open_group :: "nat option \<Rightarrow> log_history \<Rightarrow> log_history \<times> nat" where
  "open_group x h =
     (case (case x of
              None \<Rightarrow> None
            | Some i \<Rightarrow> rposition (\<lambda>g. lg_execution_id g = Some i) (h_groups h)) of
        Some index \<Rightarrow> (h, index)
      | None \<Rightarrow>
          (h\<lparr>h_next_group_id := h_next_group_id h + 1,
             h_execution_groups := h_execution_groups h + of_bool (x \<noteq> None),
             h_groups := h_groups h @
               [\<lparr>lg_id = h_next_group_id h, lg_execution_id = x, lg_text_bytes = 0\<rparr>]\<rparr>,
           length (h_groups h)))"

definition add_entry :: "nat \<Rightarrow> log_entry \<Rightarrow> log_history \<Rightarrow> log_history" where
  "add_entry index entry h =
     (let group = h_groups h ! index; bytes = entry_text_bytes entry in
      h\<lparr>h_groups := (h_groups h)[index := group\<lparr>lg_text_bytes := lg_text_bytes group + bytes\<rparr>],
        h_text_bytes := h_text_bytes h + bytes,
        h_latest_error :=
          (if ev_severity entry = Error then Some (length (h_entries h)) else h_latest_error h),
        h_entries := h_entries h @ [entry\<lparr>group_id := lg_id group\<rparr>]\<rparr>)"

definition insert_event :: "log_event \<Rightarrow> log_history \<Rightarrow> log_history" where
  "insert_event event h =
     (let entry = (log_entry_from event)\<lparr>entry_id := h_next_entry_id h\<rparr>;
          (h2, index) =
            open_group (ev_execution_id entry) (h\<lparr>h_next_entry_id := h_next_entry_id h + 1\<rparr>)
      in add_entry index entry h2)"

definition record_event :: "int \<Rightarrow> log_event \<Rightarrow> log_history \<Rightarrow> log_history" where
  "record_event now event h = retain now (insert_event event h)"

definition clear_history :: "log_history \<Rightarrow> log_history" where
  "clear_history h =
     h\<lparr>h_groups := [], h_entries := [], h_execution_groups := 0, h_latest_error := None,
       h_text_bytes := 0, h_trimmed := False\<rparr>"

definition copy_error :: "log_history \<Rightarrow> string option" where
  "copy_error h = map_option copy_text (latest_error h)"

section \<open>The panel\<close>

datatype panel = Results | Output

record panel_state =
  selected :: panel
  unread_error :: bool
  unread_success :: bool

definition panel_default :: panel_state where
  "panel_default = \<lparr>selected = Results, unread_error = False, unread_success = False\<rparr>"

definition content_visible :: "panel_state \<Rightarrow> panel_state" where
  "content_visible p =
     (case selected p of
        Output \<Rightarrow> p\<lparr>unread_error := False\<rparr>
      | Results \<Rightarrow> p\<lparr>unread_success := False\<rparr>)"

definition execution_started :: "panel_state \<Rightarrow> panel_state" where
  "execution_started p = p\<lparr>unread_error := False, unread_success := False\<rparr>"

definition user_select :: "panel \<Rightarrow> panel_state \<Rightarrow> panel_state" where
  "user_select x p = content_visible (p\<lparr>selected := x\<rparr>)"

definition panel_failure :: "bool \<Rightarrow> panel_state \<Rightarrow> panel_state" where
  "panel_failure active p =
     p\<lparr>unread_error := \<not> active, unread_success := False, selected := Output\<rparr>"

definition panel_success :: "bool \<Rightarrow> panel_state \<Rightarrow> panel_state" where
  "panel_success active p =
     p\<lparr>selected := Results, unread_error := False, unread_success := \<not> active\<rparr>"

end
