(* ===== verification/Logs_Props.thy ===== *)
theory Logs_Props
  imports Logs
begin

text \<open>
  Correctness of the Logs history: the invariant that ties its counters, its index of the latest
  error and its groups to its entries, that every operation keeps it, the limits that hold after
  each event, and what the retention never removes.
\<close>

section \<open>The invariant\<close>

definition group_of :: "log_history \<Rightarrow> log_entry \<Rightarrow> log_group \<Rightarrow> bool" where
  "group_of h e g \<longleftrightarrow> g \<in> set (h_groups h) \<and> lg_id g = group_id e"

definition groups_ok :: "log_history \<Rightarrow> bool" where
  "groups_ok h \<longleftrightarrow>
     distinct (map lg_id (h_groups h))
     \<and> (\<forall>g \<in> set (h_groups h). lg_id g < h_next_group_id h)
     \<and> h_next_group_id h \<le> NO_GROUP
     \<and> distinct (map lg_execution_id (filter is_execution (h_groups h)))"

definition entries_ok :: "log_history \<Rightarrow> bool" where
  "entries_ok h \<longleftrightarrow>
     distinct (map entry_id (h_entries h))
     \<and> (\<forall>e \<in> set (h_entries h).
          entry_id e < h_next_entry_id h
          \<and> (group_id e = NO_GROUP \<or> (\<exists>g. group_of h e g \<and> lg_execution_id g = ev_execution_id e)))"

definition counters_ok :: "log_history \<Rightarrow> bool" where
  "counters_ok h \<longleftrightarrow>
     (\<forall>g \<in> set (h_groups h).
        lg_text_bytes g = key_sum group_id entry_text_bytes (lg_id g) (h_entries h))
     \<and> h_text_bytes h = sum_list (map entry_text_bytes (h_entries h))
     \<and> h_execution_groups h = length (filter is_execution (h_groups h))
     \<and> h_latest_error h = rposition (\<lambda>e. ev_severity e = Error) (h_entries h)"

definition history_inv :: "log_history \<Rightarrow> bool" where
  "history_inv h \<longleftrightarrow> groups_ok h \<and> entries_ok h \<and> counters_ok h"

lemma history_inv_default: "history_inv log_history_default"
  by (simp add: history_inv_def groups_ok_def entries_ok_def counters_ok_def
      log_history_default_def NO_GROUP_def rposition_def position_def)

lemma history_inv_clear: "history_inv h \<Longrightarrow> history_inv (clear_history h)"
  by (simp add: history_inv_def groups_ok_def entries_ok_def counters_ok_def clear_history_def
      rposition_def position_def)

section \<open>Recording an event\<close>

lemma rposition_snoc: "rposition p (xs @ [x]) = (if p x then Some (length xs) else rposition p xs)"
proof -
  have "position p (x # ys) = (if p x then Some 0 else map_option Suc (position p ys))" for ys
    by (simp add: position_def Let_def)
  then show ?thesis by (cases "position p (rev xs)") (simp_all add: rposition_def)
qed

lemma rposition_append_None:
  "rposition p (x # xs) = (case rposition p xs of Some i \<Rightarrow> Some (Suc i) | None \<Rightarrow> if p x then Some 0 else None)"
proof (induction xs rule: rev_induct)
  case (snoc y ys)
  then show ?case using rposition_snoc [of p "x # ys" y] rposition_snoc [of p ys y] by simp
qed (simp add: rposition_def position_def)

lemma open_group_inv:
  assumes inv: "history_inv h" and bound: "h_next_group_id h < NO_GROUP"
    and opened: "open_group x h = (h', index)"
  shows "history_inv h' \<and> index < length (h_groups h')
         \<and> lg_execution_id (h_groups h' ! index) = x
         \<and> h_next_entry_id h' = h_next_entry_id h \<and> h_entries h' = h_entries h
         \<and> h_trimmed h' = h_trimmed h"
proof (cases "case x of None \<Rightarrow> None | Some i \<Rightarrow> rposition (\<lambda>g. lg_execution_id g = Some i) (h_groups h)")
  case (Some j)
  then have "open_group x h = (h, j)" by (simp add: open_group_def)
  with opened have "h' = h" "index = j" by simp_all
  moreover from Some have "j < length (h_groups h) \<and> lg_execution_id (h_groups h ! j) = x"
    by (cases x) (auto dest!: rposition_Some)
  ultimately show ?thesis using inv by simp
next
  case None
  let ?g = "\<lparr>lg_id = h_next_group_id h, lg_execution_id = x, lg_text_bytes = 0\<rparr>"
  from None opened have h': "h' = h\<lparr>h_next_group_id := h_next_group_id h + 1,
      h_execution_groups := h_execution_groups h + of_bool (x \<noteq> None),
      h_groups := h_groups h @ [?g]\<rparr>" and index: "index = length (h_groups h)"
    by (simp_all add: open_group_def)
  have fresh: "\<forall>g \<in> set (h_groups h). x = None \<or> lg_execution_id g \<noteq> x"
    using None by (cases x) (auto simp: rposition_None)
  have ids: "h_next_group_id h \<notin> lg_id ` set (h_groups h)"
    using inv by (auto simp: history_inv_def groups_ok_def)
  have "groups_ok h'"
    using inv bound fresh ids
    by (auto simp: history_inv_def groups_ok_def h' is_execution_def less_Suc_eq)
  moreover have "entries_ok h'"
    using inv unfolding history_inv_def entries_ok_def h' group_of_def by fastforce
  moreover have "\<forall>e \<in> set (h_entries h). group_id e \<noteq> h_next_group_id h"
    using inv bound unfolding history_inv_def groups_ok_def entries_ok_def group_of_def
    by (metis less_irrefl)
  then have "counters_ok h'"
    using inv by (auto simp: history_inv_def counters_ok_def h' is_execution_def key_sum_fresh)
  ultimately show ?thesis by (simp add: history_inv_def h' index)
qed

lemma add_entry_inv:
  assumes inv: "history_inv h" and i: "index < length (h_groups h)"
    and x: "lg_execution_id (h_groups h ! index) = ev_execution_id entry"
    and id: "entry_id entry < h_next_entry_id h" "\<forall>e \<in> set (h_entries h). entry_id e \<noteq> entry_id entry"
  shows "history_inv (add_entry index entry h)"
proof -
  let ?g = "h_groups h ! index" and ?b = "entry_text_bytes entry"
  let ?G = "(h_groups h)[index := ?g\<lparr>lg_text_bytes := lg_text_bytes ?g + ?b\<rparr>]"
  let ?e = "entry\<lparr>group_id := lg_id ?g\<rparr>"
  have h': "add_entry index entry h = h\<lparr>h_groups := ?G, h_text_bytes := h_text_bytes h + ?b,
      h_latest_error := (if ev_severity entry = Error then Some (length (h_entries h)) else h_latest_error h),
      h_entries := h_entries h @ [?e]\<rparr>"
    by (simp add: add_entry_def Let_def)
  have maps: "map lg_id ?G = map lg_id (h_groups h)"
    "map lg_execution_id ?G = map lg_execution_id (h_groups h)"
    by (simp_all add: map_update list_update_same_conv i)
  have mem: "?g \<in> set (h_groups h)" using i by simp
  have bytes: "entry_text_bytes ?e = ?b" by (simp add: entry_text_bytes_def)
  have execs: "map lg_execution_id (filter is_execution gs) = filter (\<lambda>x. x \<noteq> None) (map lg_execution_id gs)" for gs
    by (induction gs) (simp_all add: is_execution_def)
  have "groups_ok (add_entry index entry h)"
    using inv mem maps unfolding history_inv_def groups_ok_def h'
    by (auto simp: execs maps dest!: set_update_subset_insert [THEN subsetD])
  moreover have "entries_ok (add_entry index entry h)"
  proof -
    have "\<exists>g'. g' \<in> set ?G \<and> lg_id g' = lg_id g \<and> lg_execution_id g' = lg_execution_id g"
      if "g \<in> set (h_groups h)" for g
    proof -
      from that obtain j where j: "j < length (h_groups h)" "h_groups h ! j = g"
        by (auto simp: in_set_conv_nth)
      then have "?G ! j \<in> set ?G" by (intro nth_mem) simp
      moreover have "lg_id (?G ! j) = lg_id g" "lg_execution_id (?G ! j) = lg_execution_id g"
        using i j by (auto simp: nth_list_update)
      ultimately show ?thesis by blast
    qed
    note moved = this
    have "group_id e = NO_GROUP
        \<or> (\<exists>g'. g' \<in> set ?G \<and> lg_id g' = group_id e \<and> lg_execution_id g' = ev_execution_id e)"
      if "e \<in> set (h_entries h @ [?e])" for e
    proof (cases "e = ?e")
      case True
      then show ?thesis using moved [OF mem] x by auto
    next
      case False
      then have "e \<in> set (h_entries h)" using that by simp
      then consider "group_id e = NO_GROUP"
        | g where "g \<in> set (h_groups h)" "lg_id g = group_id e" "lg_execution_id g = ev_execution_id e"
        using inv unfolding history_inv_def entries_ok_def group_of_def by blast
      then show ?thesis using moved by cases (simp, metis)
    qed
    moreover have "entry_id e < h_next_entry_id h" if "e \<in> set (h_entries h @ [?e])" for e
      using that inv id by (auto simp: history_inv_def entries_ok_def)
    moreover have "distinct (map entry_id (h_entries h @ [?e]))"
      using inv id by (auto simp: history_inv_def entries_ok_def)
    ultimately show ?thesis
      unfolding entries_ok_def h' group_of_def by simp
  qed
  moreover have "counters_ok (add_entry index entry h)"
  proof -
    have "lg_text_bytes g' = key_sum group_id entry_text_bytes (lg_id g') (h_entries h @ [?e])"
      if "g' \<in> set ?G" for g'
    proof -
      from that obtain j where j: "j < length (h_groups h)" "g' = ?G ! j"
        by (auto simp: in_set_conv_nth)
      have "j \<noteq> index \<Longrightarrow> lg_id (h_groups h ! j) \<noteq> lg_id ?g"
        using inv i j by (auto simp: history_inv_def groups_ok_def distinct_conv_nth)
      moreover have "lg_text_bytes (h_groups h ! j)
          = key_sum group_id entry_text_bytes (lg_id (h_groups h ! j)) (h_entries h)"
        using inv j by (auto simp: history_inv_def counters_ok_def)
      ultimately show ?thesis using j i bytes by (cases "j = index") (auto simp: nth_list_update)
    qed
    moreover have "length (filter is_execution ?G) = length (filter is_execution (h_groups h))"
      using maps(2) execs by (metis length_map)
    ultimately show ?thesis
      using inv bytes unfolding history_inv_def counters_ok_def h'
      by (simp add: rposition_snoc)
  qed
  ultimately show ?thesis by (simp add: history_inv_def)
qed

lemma insert_event_inv:
  assumes "history_inv h" "h_next_group_id h < NO_GROUP"
  shows "history_inv (insert_event event h)"
proof -
  define entry where "entry = (log_entry_from event)\<lparr>entry_id := h_next_entry_id h\<rparr>"
  define h1 where "h1 = h\<lparr>h_next_entry_id := h_next_entry_id h + 1\<rparr>"
  obtain h2 index where o: "open_group (ev_execution_id entry) h1 = (h2, index)" by fastforce
  have inv1: "history_inv h1"
    using assms(1) by (auto simp: history_inv_def groups_ok_def entries_ok_def counters_ok_def
        group_of_def less_Suc_eq h1_def)
  note h2 = open_group_inv [OF inv1 _ o]
  have "history_inv (add_entry index entry h2)"
  proof (rule add_entry_inv)
    show "\<forall>e \<in> set (h_entries h2). entry_id e \<noteq> entry_id entry"
      using h2 assms by (auto simp: history_inv_def entries_ok_def entry_def h1_def)
  qed (use h2 assms in \<open>simp_all add: entry_def h1_def\<close>)
  moreover have "insert_event event h = add_entry index entry h2"
    unfolding insert_event_def Let_def entry_def [symmetric] h1_def [symmetric] o by simp
  ultimately show ?thesis by simp
qed

section \<open>The retention loop\<close>

abbreviation executions :: "log_group list \<Rightarrow> nat" where
  "executions gs \<equiv> length (filter is_execution gs)"

abbreviation others :: "log_group list \<Rightarrow> nat" where
  "others gs \<equiv> length (filter (\<lambda>g. \<not> is_execution g) gs)"

abbreviation group_bytes :: "log_group list \<Rightarrow> nat" where
  "group_bytes gs \<equiv> sum_list (map lg_text_bytes gs)"

lemma retain_loop_cases:
  assumes "retain_loop prot (g # gs) n eg tb removed = r"
  obtains (stop) "n \<le> 1 \<or> \<not> over_limit eg n tb" "r = (n, eg, tb, removed)"
    | (skip) "1 < n" "over_limit eg n tb"
        "\<not> ((if is_execution g then MAX_EXECUTION_GROUPS < eg else MAX_NON_EXECUTION_GROUPS < n - eg)
           \<or> MAX_TEXT_BYTES < tb) \<or> Some (lg_id g) \<in> set prot"
        "retain_loop prot gs n eg tb removed = r"
    | (remove) "1 < n" "over_limit eg n tb" "Some (lg_id g) \<notin> set prot"
        "retain_loop prot gs (n - 1) (eg - of_bool (is_execution g)) (tb - lg_text_bytes g)
           (removed @ [lg_id g]) = r"
  using assms by (auto simp: Let_def not_le split: if_splits)

text \<open>What the loop does to its counters: they lose exactly what the removed groups had.\<close>

lemma retain_loop_spec:
  assumes "retain_loop prot gs n eg tb removed = (n', eg', tb', removed')"
    and "eg \<le> n" "executions gs \<le> eg" "others gs \<le> n - eg" "group_bytes gs \<le> tb"
  shows "\<exists>R. removed' = removed @ map lg_id R \<and> set R \<subseteq> set gs
           \<and> (\<forall>g \<in> set R. Some (lg_id g) \<notin> set prot)
           \<and> (distinct (map lg_id gs) \<longrightarrow> distinct (map lg_id R))
           \<and> eg = eg' + executions R \<and> n - eg = (n' - eg') + others R \<and> eg' \<le> n'
           \<and> tb = tb' + group_bytes R"
  using assms
proof (induction gs arbitrary: n eg tb removed)
  case Nil
  then show ?case by simp
next
  case (Cons g gs)
  from Cons.prems(1) show ?case
  proof (cases rule: retain_loop_cases)
    case stop
    with Cons.prems show ?thesis by (intro exI [of _ "[]"]) simp
  next
    case skip
    from Cons.IH [OF skip(4)] Cons.prems(2-) obtain R where
      R: "removed' = removed @ map lg_id R" "set R \<subseteq> set gs"
      "\<forall>g \<in> set R. Some (lg_id g) \<notin> set prot"
      "distinct (map lg_id gs) \<longrightarrow> distinct (map lg_id R)"
      "eg = eg' + executions R" "n - eg = (n' - eg') + others R" "eg' \<le> n'"
      "tb = tb' + group_bytes R"
      by (auto split: if_splits)
    then show ?thesis by (intro exI [of _ R]) auto
  next
    case remove
    let ?d = "of_bool (is_execution g) :: nat"
    have pre: "eg - ?d \<le> n - 1" "executions gs \<le> eg - ?d" "others gs \<le> n - 1 - (eg - ?d)"
      "group_bytes gs \<le> tb - lg_text_bytes g"
      using Cons.prems(2-) by (auto split: if_splits)
    from Cons.IH [OF remove(4) pre] obtain R where
      R: "removed' = (removed @ [lg_id g]) @ map lg_id R" "set R \<subseteq> set gs"
      "\<forall>g \<in> set R. Some (lg_id g) \<notin> set prot"
      "distinct (map lg_id gs) \<longrightarrow> distinct (map lg_id R)"
      "eg - ?d = eg' + executions R" "(n - 1) - (eg - ?d) = (n' - eg') + others R" "eg' \<le> n'"
      "tb - lg_text_bytes g = tb' + group_bytes R"
      by blast
    moreover have "lg_id g \<in> lg_id ` set R \<Longrightarrow> \<not> distinct (map lg_id (g # gs))"
      using R(2) by auto
    ultimately show ?thesis
      using remove Cons.prems(2-) by (intro exI [of _ "g # R"]) (auto split: if_splits)
  qed
qed

text \<open>
  When a counter is still over its cap after the loop, every group of that kind was removed or
  is protected.
\<close>

lemma retain_loop_limits:
  assumes "retain_loop prot gs n eg tb removed = (n', eg', tb', removed')"
    and "eg \<le> n" "executions gs \<le> eg" "others gs \<le> n - eg" "group_bytes gs \<le> tb"
  shows "(MAX_EXECUTION_GROUPS < eg' \<longrightarrow>
            (\<forall>g \<in> set gs. is_execution g \<longrightarrow> lg_id g \<in> set removed' \<or> Some (lg_id g) \<in> set prot))
         \<and> (MAX_NON_EXECUTION_GROUPS < n' - eg' \<longrightarrow>
            (\<forall>g \<in> set gs. \<not> is_execution g \<longrightarrow> lg_id g \<in> set removed' \<or> Some (lg_id g) \<in> set prot))
         \<and> (MAX_TEXT_BYTES < tb' \<and> 1 < n' \<longrightarrow>
            (\<forall>g \<in> set gs. lg_id g \<in> set removed' \<or> Some (lg_id g) \<in> set prot))"
  using assms
proof (induction gs arbitrary: n eg tb removed)
  case (Cons g gs)
  from retain_loop_spec [OF Cons.prems] obtain R where
    R: "removed' = removed @ map lg_id R" "eg = eg' + executions R"
      "n - eg = (n' - eg') + others R" "tb = tb' + group_bytes R"
    by blast
  then have mono: "eg' \<le> eg" "n' - eg' \<le> n - eg" "tb' \<le> tb" "set removed \<subseteq> set removed'"
    by simp_all
  show ?case
  proof (rule retain_loop_cases [OF Cons.prems(1)])
    assume "n \<le> 1 \<or> \<not> over_limit eg n tb" "(n', eg', tb', removed') = (n, eg, tb, removed)"
    then show ?case using Cons.prems(2)
      by (auto simp: over_limit_def MAX_EXECUTION_GROUPS_def MAX_NON_EXECUTION_GROUPS_def)
  next
    assume skip: "\<not> ((if is_execution g then MAX_EXECUTION_GROUPS < eg
             else MAX_NON_EXECUTION_GROUPS < n - eg) \<or> MAX_TEXT_BYTES < tb)
           \<or> Some (lg_id g) \<in> set prot"
      and loop: "retain_loop prot gs n eg tb removed = (n', eg', tb', removed')"
    from Cons.IH [OF loop] Cons.prems(2-) skip mono show ?case
      by (auto split: if_splits)
  next
    assume loop: "retain_loop prot gs (n - 1) (eg - of_bool (is_execution g))
        (tb - lg_text_bytes g) (removed @ [lg_id g]) = (n', eg', tb', removed')"
      and "1 < n"
    have pre: "eg - of_bool (is_execution g) \<le> n - 1"
      "executions gs \<le> eg - of_bool (is_execution g)"
      "others gs \<le> n - 1 - (eg - of_bool (is_execution g))"
      "group_bytes gs \<le> tb - lg_text_bytes g"
      using Cons.prems(2-) by (auto split: if_splits)
    from retain_loop_spec [OF loop pre] have "lg_id g \<in> set removed'" by auto
    with Cons.IH [OF loop pre] show ?case by auto
  qed
qed simp

section \<open>Retention keeps the invariant and reaches the limits\<close>

lemma filter_ids_count:
  assumes "distinct (map lg_id gs)" "distinct (map lg_id R)" "set R \<subseteq> set gs"
  shows "length (filter P gs)
       = length (filter P (filter (\<lambda>g. lg_id g \<notin> lg_id ` set R) gs)) + length (filter P R)"
proof -
  have inj: "inj_on lg_id (set gs)" and d: "distinct gs" "distinct R"
    using assms(1,2) by (simp_all add: distinct_map)
  have "set (filter P (filter (\<lambda>g. lg_id g \<in> lg_id ` set R) gs)) = set (filter P R)"
    using assms(3) inj by (auto simp: inj_on_def)
  then have "length (filter P (filter (\<lambda>g. lg_id g \<in> lg_id ` set R) gs)) = length (filter P R)"
    using d by (metis distinct_filter distinct_card)
  moreover have "length (filter P gs)
      = length (filter (\<lambda>g. lg_id g \<notin> lg_id ` set R) (filter P gs))
      + length (filter (\<lambda>g. lg_id g \<in> lg_id ` set R) (filter P gs))"
    using sum_length_filter_compl [of "\<lambda>g. lg_id g \<notin> lg_id ` set R" "filter P gs"] by simp
  ultimately show ?thesis by (simp add: conj_commute)
qed

text \<open>The parts of the state that the removal of whole groups leaves.\<close>

definition drop_groups :: "nat list \<Rightarrow> log_history \<Rightarrow> log_history" where
  "drop_groups removed h =
     h\<lparr>h_groups := filter (\<lambda>g. lg_id g \<notin> set removed) (h_groups h),
       h_entries := filter (\<lambda>e. group_id e \<notin> set removed) (h_entries h)\<rparr>"

definition trim_line :: "int \<Rightarrow> log_history \<Rightarrow> log_history" where
  "trim_line now h =
     (if h_trimmed h then h
      else
        (let line = trimmed_entry now (h_next_entry_id h) in
         h\<lparr>h_trimmed := True,
           h_next_entry_id := h_next_entry_id h + 1,
           h_text_bytes := h_text_bytes h + entry_text_bytes line,
           h_entries := line # h_entries h\<rparr>))"

definition reindex :: "log_history \<Rightarrow> log_history" where
  "reindex h = h\<lparr>h_latest_error := rposition (\<lambda>e. ev_severity e = Error) (h_entries h)\<rparr>"

lemma retain_parts:
  assumes "over_limit (h_execution_groups h) (length (h_groups h)) (h_text_bytes h)"
    and "retain_loop (protected_groups h) (h_groups h) (length (h_groups h))
           (h_execution_groups h) (h_text_bytes h) [] = (n, eg, tb, removed)"
    and "removed \<noteq> []"
  shows "retain now h = reindex (trim_line now
           (drop_groups removed (h\<lparr>h_execution_groups := eg, h_text_bytes := tb\<rparr>)))"
  using assms unfolding retain_def
  by (simp add: reindex_def trim_line_def drop_groups_def Let_def)

lemma drop_groups_inv:
  assumes inv: "history_inv h" and R: "set R \<subseteq> set (h_groups h)" "distinct (map lg_id R)"
    and eg: "h_execution_groups h = eg + executions R"
    and tb: "h_text_bytes h = tb + group_bytes R"
  shows "history_inv (reindex
           (drop_groups (map lg_id R) (h\<lparr>h_execution_groups := eg, h_text_bytes := tb\<rparr>)))"
proof -
  let ?K = "filter (\<lambda>g. lg_id g \<notin> set (map lg_id R)) (h_groups h)"
  let ?E = "filter (\<lambda>e. group_id e \<notin> set (map lg_id R)) (h_entries h)"
  have ids: "distinct (map lg_id (h_groups h))" "NO_GROUP \<notin> lg_id ` set R"
    using inv R(1) unfolding history_inv_def groups_ok_def by (auto dest!: subsetD)
  have "groups_ok (reindex (drop_groups (map lg_id R)
      (h\<lparr>h_execution_groups := eg, h_text_bytes := tb\<rparr>)))"
    using inv unfolding history_inv_def groups_ok_def reindex_def drop_groups_def
    by (auto simp: distinct_map inj_on_def filter_filter)
  moreover have "entries_ok (reindex (drop_groups (map lg_id R)
      (h\<lparr>h_execution_groups := eg, h_text_bytes := tb\<rparr>)))"
    using inv unfolding history_inv_def entries_ok_def reindex_def drop_groups_def group_of_def
    by (auto simp: distinct_map inj_on_def)
  moreover have "group_bytes R = sum_list (map entry_text_bytes
      (filter (\<lambda>e. group_id e \<in> set (map lg_id R)) (h_entries h)))"
  proof -
    have "map lg_text_bytes R = map (\<lambda>k. key_sum group_id entry_text_bytes k (h_entries h)) (map lg_id R)"
      using inv R(1) unfolding history_inv_def counters_ok_def by auto
    then show ?thesis by (simp only: sum_list_filter_keys [OF R(2)])
  qed
  then have "tb = sum_list (map entry_text_bytes ?E)"
    using inv tb sum_list_filter_split [of entry_text_bytes "h_entries h"
        "\<lambda>e. group_id e \<in> set (map lg_id R)"]
    unfolding history_inv_def counters_ok_def by simp
  moreover have "eg = executions ?K"
    using filter_ids_count [OF ids(1) R(2,1), of is_execution] inv eg
    unfolding history_inv_def counters_ok_def by simp
  ultimately show ?thesis
    using inv unfolding history_inv_def counters_ok_def reindex_def drop_groups_def
    by (auto simp: key_sum_filter)
qed

lemma trim_line_inv:
  assumes inv: "history_inv (reindex h)"
  shows "history_inv (reindex (trim_line now h))"
proof (cases "h_trimmed h")
  case True
  with inv show ?thesis by (simp add: trim_line_def)
next
  case False
  let ?e = "trimmed_entry now (h_next_entry_id h)"
  have e: "entry_id ?e = h_next_entry_id h" "group_id ?e = NO_GROUP"
    by (simp_all add: trimmed_entry_def)
  from inv have "\<forall>g \<in> set (h_groups h). lg_id g \<noteq> NO_GROUP"
    unfolding history_inv_def groups_ok_def reindex_def by auto
  moreover have "reindex (trim_line now h) = h\<lparr>h_trimmed := True,
      h_next_entry_id := h_next_entry_id h + 1, h_text_bytes := h_text_bytes h + entry_text_bytes ?e,
      h_entries := ?e # h_entries h,
      h_latest_error := rposition (\<lambda>e. ev_severity e = Error) (?e # h_entries h)\<rparr>"
    using False by (simp add: reindex_def trim_line_def Let_def)
  ultimately show ?thesis
    using inv e unfolding history_inv_def groups_ok_def entries_ok_def counters_ok_def reindex_def
      group_of_def by (auto simp: less_Suc_eq)
qed

lemma reindex_same: "history_inv h \<Longrightarrow> reindex h = h"
  by (simp add: history_inv_def counters_ok_def reindex_def)

lemma history_inv_counts:
  assumes inv: "history_inv h"
  shows "h_execution_groups h \<le> length (h_groups h)"
    "executions (h_groups h) \<le> h_execution_groups h"
    "others (h_groups h) \<le> length (h_groups h) - h_execution_groups h"
    "group_bytes (h_groups h) \<le> h_text_bytes h"
proof -
  from inv have eg0: "h_execution_groups h = executions (h_groups h)"
    and ids: "distinct (map lg_id (h_groups h))"
    by (simp_all add: history_inv_def counters_ok_def groups_ok_def)
  have split: "executions (h_groups h) + others (h_groups h) = length (h_groups h)"
    by (rule sum_length_filter_compl)
  from eg0 split show "h_execution_groups h \<le> length (h_groups h)"
    "executions (h_groups h) \<le> h_execution_groups h"
    "others (h_groups h) \<le> length (h_groups h) - h_execution_groups h"
    by simp_all
  have "group_bytes (h_groups h)
      = sum_list (map (\<lambda>k. key_sum group_id entry_text_bytes k (h_entries h)) (map lg_id (h_groups h)))"
    using inv by (auto simp: history_inv_def counters_ok_def o_def intro!: arg_cong [where f = sum_list])
  also have "\<dots> \<le> sum_list (map entry_text_bytes (h_entries h))"
    using sum_list_filter_keys [OF ids, of entry_text_bytes group_id "h_entries h"]
      sum_list_filter_split [of entry_text_bytes "h_entries h" "\<lambda>e. group_id e \<in> set (map lg_id (h_groups h))"]
    by simp
  finally show "group_bytes (h_groups h) \<le> h_text_bytes h"
    using inv by (simp add: history_inv_def counters_ok_def)
qed

lemma retain_cases:
  assumes inv: "history_inv h"
  obtains (within) "retain now h = h"
      "\<not> over_limit (h_execution_groups h) (length (h_groups h)) (h_text_bytes h)"
    | (trimmed) R n eg tb where
        "retain_loop (protected_groups h) (h_groups h) (length (h_groups h))
           (h_execution_groups h) (h_text_bytes h) [] = (n, eg, tb, map lg_id R)"
        "set R \<subseteq> set (h_groups h)" "distinct (map lg_id R)"
        "\<forall>g \<in> set R. Some (lg_id g) \<notin> set (protected_groups h)"
        "h_execution_groups h = eg + executions R" "h_text_bytes h = tb + group_bytes R"
        "eg \<le> n" "length (h_groups h) - h_execution_groups h = (n - eg) + others R"
        "retain now h = (if R = [] then h else reindex (trim_line now
           (drop_groups (map lg_id R) (h\<lparr>h_execution_groups := eg, h_text_bytes := tb\<rparr>))))"
proof (cases "over_limit (h_execution_groups h) (length (h_groups h)) (h_text_bytes h)")
  case False
  then show ?thesis using within by (simp add: retain_def)
next
  case True
  let ?loop = "retain_loop (protected_groups h) (h_groups h) (length (h_groups h))
           (h_execution_groups h) (h_text_bytes h) []"
  obtain n eg tb removed where loop: "?loop = (n, eg, tb, removed)" by (cases ?loop)
  from inv have ids: "distinct (map lg_id (h_groups h))"
    by (simp add: history_inv_def groups_ok_def)
  from retain_loop_spec [OF loop history_inv_counts [OF inv]] ids obtain R where
    R: "removed = map lg_id R" "set R \<subseteq> set (h_groups h)" "distinct (map lg_id R)"
      "\<forall>g \<in> set R. Some (lg_id g) \<notin> set (protected_groups h)"
      "h_execution_groups h = eg + executions R" "h_text_bytes h = tb + group_bytes R" "eg \<le> n"
      "length (h_groups h) - h_execution_groups h = (n - eg) + others R"
    by auto
  show ?thesis
  proof (rule trimmed [OF loop [unfolded R(1)] R(2-8)])
    show "retain now h = (if R = [] then h else reindex (trim_line now
           (drop_groups (map lg_id R) (h\<lparr>h_execution_groups := eg, h_text_bytes := tb\<rparr>))))"
    proof (cases "R = []")
      case True
      with R have "h\<lparr>h_execution_groups := eg, h_text_bytes := tb\<rparr> = h" by simp
      with True loop R(1) show ?thesis by (simp add: retain_def)
    next
      case False
      with retain_parts [OF True loop] R(1) show ?thesis by simp
    qed
  qed
qed

lemma retain_inv:
  assumes "history_inv h"
  shows "history_inv (retain now h)"
  using assms
proof (cases rule: retain_cases [of h now])
  case (trimmed R n eg tb)
  then show ?thesis using assms drop_groups_inv trim_line_inv by simp
qed (use assms in simp)

lemma kept_all_protected:
  assumes "distinct (map lg_id gs)" "\<forall>g \<in> set gs. Some (lg_id g) \<in> set ps"
  shows "length gs \<le> length (filter (\<lambda>p. p \<noteq> None) ps)"
proof -
  have "Some ` set (map lg_id gs) \<subseteq> set (filter (\<lambda>p. p \<noteq> None) ps)"
    using assms(2) by auto
  then have "card (Some ` set (map lg_id gs)) \<le> length (filter (\<lambda>p. p \<noteq> None) ps)"
    by (meson List.finite_set card_length card_mono le_trans)
  moreover have "card (Some ` set (map lg_id gs)) = length gs"
    by (metis assms(1) card_image distinct_card inj_Some length_map)
  ultimately show ?thesis by simp
qed

lemma protected_groups_le: "length (filter (\<lambda>p. p \<noteq> None) (protected_groups h)) \<le> 2"
  by (simp add: protected_groups_def Let_def split: list.splits)

definition within_limits :: "log_history \<Rightarrow> bool" where
  "within_limits h \<longleftrightarrow>
     h_execution_groups h \<le> MAX_EXECUTION_GROUPS
     \<and> length (h_groups h) - h_execution_groups h \<le> MAX_NON_EXECUTION_GROUPS
     \<and> (h_text_bytes h \<le> MAX_TEXT_BYTES + length trimmed_text \<or> length (h_groups h) \<le> 2)"

lemma entry_text_bytes_trimmed: "entry_text_bytes (trimmed_entry now i) = length trimmed_text"
  by (simp add: entry_text_bytes_def trimmed_entry_def log_entry_from_def log_event_new_def
      opt_len_def log_event.extend_def)

lemma reindex_trim_drop [simp]:
  "h_groups (reindex (trim_line now (drop_groups ids h))) = filter (\<lambda>g. lg_id g \<notin> set ids) (h_groups h)"
  "h_execution_groups (reindex (trim_line now (drop_groups ids h))) = h_execution_groups h"
  "h_text_bytes (reindex (trim_line now (drop_groups ids h)))
     \<le> h_text_bytes h + length trimmed_text"
  by (simp_all add: reindex_def trim_line_def drop_groups_def Let_def entry_text_bytes_trimmed)

lemma retain_limits:
  assumes inv: "history_inv h"
  shows "within_limits (retain now h)"
  using assms
proof (cases rule: retain_cases [of h now])
  case within
  then show ?thesis by (auto simp: within_limits_def over_limit_def)
next
  case (trimmed R n eg tb)
  let ?prot = "protected_groups h" and ?ids = "map lg_id R"
  let ?K = "filter (\<lambda>g. lg_id g \<notin> set ?ids) (h_groups h)"
  from inv have ids: "distinct (map lg_id (h_groups h))" by (simp add: history_inv_def groups_ok_def)
  have few: "length gs \<le> 2" if "distinct (map lg_id gs)" "\<forall>g \<in> set gs. Some (lg_id g) \<in> set ?prot" for gs
    using kept_all_protected [OF that] protected_groups_le [of h] by simp
  have dist: "distinct (map lg_id (filter P (h_groups h)))" for P
    using ids by (rule distinct_map_filter)
  have counts: "eg = executions ?K" "n - eg = others ?K"
  proof -
    have e: "h_execution_groups h = executions (h_groups h)"
      using inv by (simp add: history_inv_def counters_ok_def)
    have o: "length (h_groups h) = executions (h_groups h) + others (h_groups h)"
      by (rule sum_length_filter_compl [symmetric])
    show "eg = executions ?K"
      using filter_ids_count [OF ids trimmed(3,2), of is_execution] trimmed(5) e by simp
    show "n - eg = others ?K"
      using filter_ids_count [OF ids trimmed(3,2), of "\<lambda>g. \<not> is_execution g"] trimmed(8) e o by simp
  qed
  then have n: "n = length ?K"
    using trimmed(7) sum_length_filter_compl [of is_execution ?K] by simp
  note limits = retain_loop_limits [OF trimmed(1) history_inv_counts [OF inv]]
  have "eg \<le> MAX_EXECUTION_GROUPS"
  proof (rule ccontr)
    assume over: "\<not> eg \<le> MAX_EXECUTION_GROUPS"
    with limits have "\<forall>g \<in> set (filter is_execution ?K). Some (lg_id g) \<in> set ?prot" by auto
    with few [OF _ this] dist counts(1) have "eg \<le> 2" by (simp add: filter_filter)
    with over show False by (simp add: MAX_EXECUTION_GROUPS_def)
  qed
  moreover have "n - eg \<le> MAX_NON_EXECUTION_GROUPS"
  proof (rule ccontr)
    assume over: "\<not> n - eg \<le> MAX_NON_EXECUTION_GROUPS"
    with limits have "\<forall>g \<in> set (filter (\<lambda>g. \<not> is_execution g) ?K). Some (lg_id g) \<in> set ?prot"
      by auto
    with few [OF _ this] dist counts(2) have "n - eg \<le> 2" by (simp add: filter_filter)
    with over show False by (simp add: MAX_NON_EXECUTION_GROUPS_def)
  qed
  moreover have "tb \<le> MAX_TEXT_BYTES \<or> n \<le> 2"
  proof (cases "tb \<le> MAX_TEXT_BYTES \<or> n \<le> 1")
    case False
    with limits have "\<forall>g \<in> set ?K. Some (lg_id g) \<in> set ?prot" by auto
    with few [OF dist this] n show ?thesis by simp
  qed auto
  moreover have "within_limits h" if "R = []"
    using calculation n trimmed(5,6) that unfolding within_limits_def by auto
  ultimately show ?thesis
    using n reindex_trim_drop(3) [of now ?ids "h\<lparr>h_execution_groups := eg, h_text_bytes := tb\<rparr>"]
    unfolding within_limits_def trimmed(9) by auto
qed

section \<open>Runs of the history\<close>

datatype history_op = Record_op int log_event | Clear_op

fun history_step :: "history_op \<Rightarrow> log_history \<Rightarrow> log_history" where
  "history_step (Record_op now event) h = record_event now event h"
| "history_step Clear_op h = clear_history h"

definition history_run :: "history_op list \<Rightarrow> log_history" where
  "history_run ops = foldl (\<lambda>h op. history_step op h) log_history_default ops"

lemma next_group_id_step: "h_next_group_id (history_step op h) \<le> h_next_group_id h + 1"
proof (cases op)
  case (Record_op now event)
  have "h_next_group_id (retain now h') = h_next_group_id h'" for h'
    by (simp add: retain_def Let_def split: prod.split)
  moreover have "h_next_group_id (insert_event event h) \<le> h_next_group_id h + 1"
    by (simp add: insert_event_def open_group_def add_entry_def Let_def split: option.split)
  ultimately show ?thesis by (simp add: Record_op record_event_def)
qed (simp add: clear_history_def)

lemma record_event_sound:
  assumes "history_inv h" "h_next_group_id h < NO_GROUP"
  shows "history_inv (record_event now event h)" "within_limits (record_event now event h)"
  using insert_event_inv [OF assms] by (simp_all add: record_event_def retain_inv retain_limits)

text \<open>
  C11. After any sequence of at most \<open>u64::MAX\<close> recorded events and clears, the counters of the
  history agree with its entries (bytes per group and in total, execution groups, the index of the
  latest error), identifiers are unique, each execution has one group, and the limits of 100
  execution groups, 50 other groups and 8 MiB of text hold. Only the two groups the retention
  protects can hold more text, and the line that says that entries were removed is not counted.
\<close>

theorem recorded_history_is_sound:
  assumes "length ops \<le> NO_GROUP"
  shows "history_inv (history_run ops) \<and> within_limits (history_run ops)"
proof -
  have "history_inv (history_run ops) \<and> within_limits (history_run ops)
      \<and> h_next_group_id (history_run ops) \<le> length ops"
    using assms
  proof (induction ops rule: rev_induct)
    case Nil
    then show ?case
      using history_inv_default by (simp add: history_run_def within_limits_def log_history_default_def)
  next
    case (snoc op ops)
    let ?h = "history_run ops"
    from snoc have h: "history_inv ?h" "h_next_group_id ?h \<le> length ops" "length ops < NO_GROUP"
      by simp_all
    then have "history_inv (history_step op ?h) \<and> within_limits (history_step op ?h)"
      using record_event_sound [of ?h] history_inv_clear [of ?h]
      by (cases op) (auto simp: within_limits_def clear_history_def)
    moreover have "h_next_group_id (history_step op ?h) \<le> length (ops @ [op])"
      using next_group_id_step [of op ?h] h(2) by simp
    ultimately show ?case by (simp add: history_run_def)
  qed
  then show ?thesis by blast
qed

theorem recorded_history_is_sound_witness:
  "within_limits (history_run [Record_op 5 (log_event_new 5 (Some 1) Error Submitted ''select''), Record_op 6 (log_event_new 6 None Info Connected ''up'')])"
  using recorded_history_is_sound
    [of "[Record_op 5 (log_event_new 5 (Some 1) Error Submitted ''select''), Record_op 6 (log_event_new 6 None Info Connected ''up'')]"]
  by (simp add: NO_GROUP_def)

section \<open>What the retention keeps\<close>

lemma find_snoc: "List.find p (xs @ [x]) = (case List.find p xs of Some y \<Rightarrow> Some y | None \<Rightarrow> if p x then Some x else None)"
  by (induction xs) simp_all

lemma find_filter:
  "(case List.find p xs of None \<Rightarrow> True | Some y \<Rightarrow> q y) \<Longrightarrow> List.find p (filter q xs) = List.find p xs"
  by (induction xs) auto

lemma rposition_find: "map_option ((!) xs) (rposition p xs) = List.find p (rev xs)"
proof (induction xs rule: rev_induct)
  case (snoc x xs)
  show ?case
  proof (cases "rposition p xs")
    case None
    with snoc show ?thesis by (simp add: rposition_snoc)
  next
    case (Some i)
    with snoc rposition_Some [OF Some] show ?thesis by (simp add: rposition_snoc nth_append)
  qed
qed (simp add: rposition_def position_def)

lemma latest_error_find:
  "history_inv h \<Longrightarrow> latest_error h = List.find (\<lambda>e. ev_severity e = Error) (rev (h_entries h))"
  by (simp add: history_inv_def counters_ok_def latest_error_def rposition_find)

text \<open>Retention removes whole groups, and puts at most the one line in front.\<close>

lemma retain_entries:
  assumes inv: "history_inv h"
  obtains (kept) ids line where "h_entries (retain now h) = line @ filter (\<lambda>e. group_id e \<notin> set ids) (h_entries h)"
    "\<forall>e \<in> set line. ev_severity e = Info \<and> group_id e = NO_GROUP"
    "\<forall>i \<in> set ids. Some i \<notin> set (protected_groups h)"
  using inv
proof (cases rule: retain_cases [of h now])
  case within
  then show ?thesis using kept [of "[]" "[]"] by simp
next
  case (trimmed R n eg tb)
  have fields: "ev_severity (trimmed_entry now i) = Info" "group_id (trimmed_entry now i) = NO_GROUP" for i
    by (simp_all add: trimmed_entry_def log_entry_from_def log_event_new_def log_event.extend_def)
  define line where "line = (if R = [] \<or> h_trimmed h then [] else [trimmed_entry now (h_next_entry_id h)])"
  show ?thesis
  proof (rule kept [of line "map lg_id R"])
    show "h_entries (retain now h) = line @ filter (\<lambda>e. group_id e \<notin> set (map lg_id R)) (h_entries h)"
      using trimmed(9)
      by (simp add: reindex_def trim_line_def drop_groups_def line_def Let_def)
    show "\<forall>e \<in> set line. ev_severity e = Info \<and> group_id e = NO_GROUP"
      by (simp add: line_def fields)
    show "\<forall>i \<in> set (map lg_id R). Some i \<notin> set (protected_groups h)"
      using trimmed(4) by auto
  qed
qed

lemma retain_latest_error:
  assumes "history_inv h"
  shows "latest_error (retain now h) = latest_error h"
  using assms
proof (cases rule: retain_entries [of h now])
  case (kept ids line)
  let ?p = "\<lambda>e. ev_severity e = Error" and ?q = "\<lambda>e. group_id e \<notin> set ids"
  have line: "List.find ?p (rev line) = None"
    using kept(2) by (auto simp: find_None_iff)
  have append: "List.find ?p (xs @ ys) = (case List.find ?p xs of Some y \<Rightarrow> Some y | None \<Rightarrow> List.find ?p ys)" for xs ys
    by (induction xs) simp_all
  have "case List.find ?p (rev (h_entries h)) of None \<Rightarrow> True | Some y \<Rightarrow> ?q y"
  proof (cases "latest_error h")
    case (Some e)
    then have "Some (group_id e) \<in> set (protected_groups h)" by (simp add: protected_groups_def Let_def)
    then show ?thesis using kept(3) Some latest_error_find [OF assms] by auto
  qed (use latest_error_find [OF assms] in simp)
  then have "List.find ?p (rev (h_entries (retain now h))) = List.find ?p (rev (h_entries h))"
    using kept(1) line by (auto simp: append rev_filter find_filter split: option.split)
  then show ?thesis using latest_error_find [OF assms] latest_error_find [OF retain_inv [OF assms]] by simp
qed

lemma retain_group_entries:
  assumes "history_inv h" "Some i \<in> set (protected_groups h)" "i \<noteq> NO_GROUP"
  shows "group_entries (retain now h) i = group_entries h i"
  using assms(1)
proof (cases rule: retain_entries [of h now])
  case (kept ids line)
  then have "filter (\<lambda>e. group_id e = i) line = []" using assms(3) by (auto simp: filter_empty_conv)
  moreover have "i \<notin> set ids" using kept(3) assms(2) by blast
  ultimately show ?thesis
    using kept(1) by (auto simp: group_entries_def intro: filter_cong)
qed

text \<open>
  Whatever an event makes the history remove, the latest error stays the latest error, and
  the groups of the latest execution and of the latest error keep every entry in order.
\<close>

theorem retention_keeps_latest:
  assumes "history_inv h" "h_next_group_id h < NO_GROUP"
  shows "latest_error (record_event now event h) = latest_error (insert_event event h)
       \<and> (\<forall>i. i \<noteq> NO_GROUP \<longrightarrow>
            latest_execution_group (insert_event event h) = Some i
            \<or> map_option group_id (latest_error (insert_event event h)) = Some i \<longrightarrow>
            group_entries (record_event now event h) i = group_entries (insert_event event h) i)"
  using retain_latest_error [OF insert_event_inv [OF assms]]
    retain_group_entries [OF insert_event_inv [OF assms]]
  by (auto simp: record_event_def protected_groups_def Let_def)

theorem retention_keeps_latest_witness:
  "latest_error (record_event 6 (log_event_new 6 None Info Connected ''up'') log_history_default)
     = latest_error (insert_event (log_event_new 6 None Info Connected ''up'') log_history_default)"
  using retention_keeps_latest [of log_history_default 6 "log_event_new 6 None Info Connected ''up''"]
    history_inv_default by (simp add: log_history_default_def NO_GROUP_def)

section \<open>The panel\<close>

inductive panel_step :: "panel_state \<Rightarrow> panel_state \<Rightarrow> bool" where
  started: "panel_step p (execution_started p)"
| select: "panel_step p (user_select x p)"
| failed: "panel_step p (panel_failure active p)"
| succeeded: "panel_step p (panel_success active p)"
| shown: "panel_step p (content_visible p)"

inductive panel_reachable :: "panel_state \<Rightarrow> bool" where
  start: "panel_reachable panel_default"
| step: "panel_reachable p \<Longrightarrow> panel_step p q \<Longrightarrow> panel_reachable q"

inductive_cases panel_stepE: "panel_step p q"

text \<open>
  In every state the panel can reach, at most one of the two badges is shown, and a badge is
  only shown for a panel whose content the user has not seen since: choosing a panel or showing
  its content removes its badge.
\<close>

theorem panel_shows_one_badge:
  assumes "panel_reachable p"
  shows "\<not> (unread_error p \<and> unread_success p)
       \<and> \<not> unread_error (user_select Output p) \<and> \<not> unread_success (user_select Results p)
       \<and> unread_error (user_select Results p) = unread_error p
       \<and> unread_success (user_select Output p) = unread_success p"
  using assms
proof (induction rule: panel_reachable.induct)
  case (step p q)
  from step(2) show ?case
    using step.IH
    by (cases rule: panel_stepE)
      (auto simp: execution_started_def user_select_def panel_failure_def panel_success_def
        content_visible_def split: panel.splits)
qed (simp add: panel_default_def user_select_def content_visible_def)

theorem panel_shows_one_badge_witness:
  "\<not> (unread_error (panel_failure False panel_default) \<and> unread_success (panel_failure False panel_default))"
  using panel_shows_one_badge [OF panel_reachable.step
      [OF panel_reachable.start panel_step.failed [where active = False]]] by blast

end
