(* ===== verification/Activity.thy ===== *)
theory Activity
  imports Logs Database_Type "HOL-Library.AList"
begin

text \<open>
  The Activity of each connection (\<open>src/activity.rs\<close>): a flat log with limits, its count of
  unseen errors, and the map from connections to logs. A \<open>Uuid\<close> is a number. The map is an
  association list; what the code reads from it does not depend on the order. The clock is an
  argument.
\<close>

definition ACTIVITY_MAX_TEXT_BYTES :: nat where "ACTIVITY_MAX_TEXT_BYTES = 8 * 1024 * 1024"
definition MAX_ENTRIES :: nat where "MAX_ENTRIES = 50000"

text \<open>
  \<open>(limit as f64 * TRIM_TO) as usize\<close> with \<open>TRIM_TO = 0.9\<close>, for the two limits of the code:
  the product in binary floating point has the integer part of nine tenths of the limit.
\<close>

definition trim_to :: "nat \<Rightarrow> nat" where
  "trim_to limit = limit * 9 div 10"

section \<open>Entries\<close>

record activity_entry =
  ae_timestamp :: int
  ae_severity :: severity
  ae_text :: string
  ae_tab :: "nat option"
  ae_title :: "string option"
  ae_counts :: bool
  ae_id :: nat

definition activity_entry_new :: "int \<Rightarrow> severity \<Rightarrow> string \<Rightarrow> activity_entry" where
  "activity_entry_new now severity text =
     \<lparr>ae_timestamp = now, ae_severity = severity, ae_text = text, ae_tab = None, ae_title = None,
      ae_counts = (severity = Error), ae_id = 0\<rparr>"

definition with_source :: "activity_entry \<Rightarrow> string \<Rightarrow> activity_entry" where
  "with_source e source = e\<lparr>ae_title := Some source\<rparr>"

definition message :: "activity_entry \<Rightarrow> string" where
  "message e =
     (case ae_title e of
        None \<Rightarrow> ae_text e
      | Some title \<Rightarrow>
          (case strip_prefix (ae_text e) title of
             None \<Rightarrow> ae_text e
           | Some text \<Rightarrow>
               (case strip_prefix text '': '' of None \<Rightarrow> ae_text e | Some rest \<Rightarrow> rest)))"

definition activity_is_error :: "activity_entry \<Rightarrow> bool" where
  "activity_is_error e \<longleftrightarrow> ae_severity e = Error"

definition from_refresh :: "log_event \<Rightarrow> activity_entry" where
  "from_refresh event =
     \<lparr>ae_timestamp = ev_timestamp event, ae_severity = ev_severity event, ae_text = ev_text event,
      ae_tab = None, ae_title = Some ''Schemas'',
      ae_counts = (ev_severity event = Error \<and> ev_kind event = SchemaRefreshFinished),
      ae_id = 0\<rparr>"

definition tab_text :: "log_event \<Rightarrow> string option" where
  "tab_text event =
     (case ev_kind event of
        Connected \<Rightarrow> Some (ev_text event)
      | Disconnected \<Rightarrow> Some (ev_text event)
      | KeepAliveCompleted \<Rightarrow> Some (ev_text event)
      | KeepAliveFailed \<Rightarrow> Some (ev_text event)
      | ExecutionCompleted \<Rightarrow> Some (ev_text event)
      | SignIn \<Rightarrow> Some (ev_text event)
      | Cancelled \<Rightarrow> Some (ev_text event)
      | Submitted \<Rightarrow> Some ''Submitted a query''
      | ErrorEvent \<Rightarrow>
          (if ev_execution_id event \<noteq> None then Some ''Query failed'' else Some (ev_text event))
      | ExecutionStarted \<Rightarrow> None
      | FetchStarted \<Rightarrow> None
      | FetchCompleted \<Rightarrow> None
      | CancelRequested \<Rightarrow> None
      | SchemaRefresh \<Rightarrow> None
      | SchemaRefreshFinished \<Rightarrow> None
      | HistoryTrimmed \<Rightarrow> None)"

definition from_tab :: "log_event \<Rightarrow> nat \<Rightarrow> string \<Rightarrow> activity_entry option" where
  "from_tab event tab title =
     (case tab_text event of
        None \<Rightarrow> None
      | Some text \<Rightarrow>
          Some \<lparr>ae_timestamp = ev_timestamp event, ae_severity = ev_severity event,
                ae_text = title @ '': '' @ text, ae_tab = Some tab, ae_title = Some title,
                ae_counts = False, ae_id = 0\<rparr>)"

definition tab_event :: "log_event \<Rightarrow> log_event option" where
  "tab_event event =
     (case ev_kind event of
        KeepAliveCompleted \<Rightarrow> None
      | KeepAliveFailed \<Rightarrow>
          Some (case ev_sql event of
                  None \<Rightarrow> event
                | Some sql \<Rightarrow>
                    event\<lparr>ev_text := ev_text event @ [newline] @ ''Keep-alive query:'' @ [newline] @ sql\<rparr>)
      | _ \<Rightarrow> Some event)"

section \<open>The log of one connection\<close>

record activity_log =
  al_entries :: "activity_entry list"
  al_text_bytes :: nat
  al_trimmed :: bool
  al_unseen_errors :: nat
  al_newest_unseen :: "nat option"

definition activity_log_default :: activity_log where
  "activity_log_default =
     \<lparr>al_entries = [], al_text_bytes = 0, al_trimmed = False, al_unseen_errors = 0,
      al_newest_unseen = None\<rparr>"

text \<open>The loop that removes the oldest entries, but never the newest.\<close>

fun trim_loop :: "activity_entry list \<Rightarrow> nat \<Rightarrow> nat \<Rightarrow> activity_entry list \<times> nat \<times> nat" where
  "trim_loop [] bytes removed = ([], bytes, removed)"
| "trim_loop (e # es) bytes removed =
     (if 1 < length (e # es)
         \<and> (trim_to MAX_ENTRIES < length (e # es) \<or> trim_to ACTIVITY_MAX_TEXT_BYTES < bytes)
      then trim_loop es (bytes - length (ae_text e)) (removed + 1)
      else (e # es, bytes, removed))"

definition add_activity :: "activity_entry \<Rightarrow> nat \<Rightarrow> activity_log \<Rightarrow> activity_log" where
  "add_activity entry sequence l =
     (let l1 = (if ae_counts entry
                then l\<lparr>al_unseen_errors := al_unseen_errors l + 1, al_newest_unseen := Some sequence\<rparr>
                else l)
      in l1\<lparr>al_text_bytes := al_text_bytes l1 + length (ae_text entry),
            al_entries := al_entries l1 @ [entry\<lparr>ae_id := sequence\<rparr>]\<rparr>)"

definition record_activity :: "activity_entry \<Rightarrow> nat \<Rightarrow> activity_log \<Rightarrow> activity_log \<times> nat" where
  "record_activity entry sequence l =
     (let l1 = add_activity entry sequence l in
      if length (al_entries l1) \<le> MAX_ENTRIES \<and> al_text_bytes l1 \<le> ACTIVITY_MAX_TEXT_BYTES
      then (l1, 0)
      else
        (let (es, bytes, removed) = trim_loop (al_entries l1) (al_text_bytes l1) 0 in
         (l1\<lparr>al_entries := es, al_text_bytes := bytes, al_trimmed := True\<rparr>, removed)))"

definition log_mark_seen :: "activity_log \<Rightarrow> activity_log" where
  "log_mark_seen l = l\<lparr>al_unseen_errors := 0, al_newest_unseen := None\<rparr>"

section \<open>The Activity of all connections\<close>

record activity =
  act_logs :: "(nat \<times> activity_log) list"
  act_sequence :: nat

definition activity_default :: activity where
  "activity_default = \<lparr>act_logs = [], act_sequence = 0\<rparr>"

definition activity_log_of :: "activity \<Rightarrow> nat \<Rightarrow> activity_log option" where
  "activity_log_of a c = map_of (act_logs a) c"

definition activity_record :: "nat \<Rightarrow> activity_entry \<Rightarrow> activity \<Rightarrow> activity \<times> nat" where
  "activity_record c entry a =
     (let sequence = act_sequence a + 1;
          l = (case map_of (act_logs a) c of None \<Rightarrow> activity_log_default | Some l \<Rightarrow> l);
          (l', removed) = record_activity entry sequence l
      in (a\<lparr>act_sequence := sequence, act_logs := AList.update c l' (act_logs a)\<rparr>, removed))"

definition activity_clear :: "nat \<Rightarrow> activity \<Rightarrow> activity" where
  "activity_clear c a =
     (case map_of (act_logs a) c of
        None \<Rightarrow> a
      | Some l \<Rightarrow> a\<lparr>act_logs := AList.update c activity_log_default (act_logs a)\<rparr>)"

definition activity_remove :: "nat \<Rightarrow> activity \<Rightarrow> activity" where
  "activity_remove c a = a\<lparr>act_logs := AList.delete c (act_logs a)\<rparr>"

definition activity_mark_seen :: "nat \<Rightarrow> activity \<Rightarrow> activity" where
  "activity_mark_seen c a =
     (case map_of (act_logs a) c of
        None \<Rightarrow> a
      | Some l \<Rightarrow> a\<lparr>act_logs := AList.update c (log_mark_seen l) (act_logs a)\<rparr>)"

definition activity_unseen_errors :: "activity \<Rightarrow> nat" where
  "activity_unseen_errors a = sum_list (map (\<lambda>(c, l). al_unseen_errors l) (act_logs a))"

definition unseen_errors_of :: "activity \<Rightarrow> nat \<Rightarrow> nat" where
  "unseen_errors_of a c =
     (case map_of (act_logs a) c of None \<Rightarrow> 0 | Some l \<Rightarrow> al_unseen_errors l)"

text \<open>\<open>max\<close> of pairs of a sequence number and a connection, first by the number.\<close>

fun max_unseen :: "(nat \<times> nat) list \<Rightarrow> (nat \<times> nat) option" where
  "max_unseen [] = None"
| "max_unseen ((s, c) # rest) =
     (case max_unseen rest of
        None \<Rightarrow> Some (s, c)
      | Some (t, d) \<Rightarrow> if t < s \<or> (t = s \<and> d < c) then Some (s, c) else Some (t, d))"

definition unseen_pairs :: "activity \<Rightarrow> (nat \<times> nat) list" where
  "unseen_pairs a =
     List.map_filter (\<lambda>(c, l). map_option (\<lambda>s. (s, c)) (al_newest_unseen l)) (act_logs a)"

definition newest_unseen :: "activity \<Rightarrow> nat option" where
  "newest_unseen a = map_option snd (max_unseen (unseen_pairs a))"

section \<open>The invariant of a log\<close>

definition log_ok :: "nat \<Rightarrow> activity_log \<Rightarrow> bool" where
  "log_ok sequence l \<longleftrightarrow>
     al_text_bytes l = sum_list (map (length \<circ> ae_text) (al_entries l))
     \<and> length (al_entries l) \<le> MAX_ENTRIES
     \<and> (al_text_bytes l \<le> ACTIVITY_MAX_TEXT_BYTES \<or> length (al_entries l) = 1)
     \<and> sorted_wrt (<) (map ae_id (al_entries l))
     \<and> (\<forall>e \<in> set (al_entries l). ae_id e \<le> sequence)
     \<and> (al_newest_unseen l = None \<longleftrightarrow> al_unseen_errors l = 0)
     \<and> (\<forall>s. al_newest_unseen l = Some s \<longrightarrow> s \<le> sequence)"

lemma log_ok_default: "log_ok n activity_log_default"
  by (simp add: log_ok_def activity_log_default_def)

lemma log_ok_mark_seen: "log_ok n l \<Longrightarrow> log_ok n (log_mark_seen l)"
  unfolding log_ok_def log_mark_seen_def by auto

lemma log_ok_mono: "log_ok n l \<Longrightarrow> n \<le> m \<Longrightarrow> log_ok m l"
  unfolding log_ok_def by (meson le_trans)

text \<open>The trimming drops a prefix, keeps the newest entry and reaches the lower marks.\<close>

lemma trim_loop_spec:
  assumes "trim_loop es bytes removed = (es', bytes', removed')"
    and "bytes = sum_list (map (length \<circ> ae_text) es)"
  shows "es' = drop (removed' - removed) es \<and> removed \<le> removed' \<and> (es = [] \<longleftrightarrow> es' = [])
       \<and> bytes' = sum_list (map (length \<circ> ae_text) es')
       \<and> (length es' \<le> trim_to MAX_ENTRIES \<and> bytes' \<le> trim_to ACTIVITY_MAX_TEXT_BYTES
          \<or> length es' \<le> 1)"
  using assms
proof (induction es bytes removed rule: trim_loop.induct)
  case (2 e es bytes removed)
  show ?case
  proof (cases "1 < length (e # es)
      \<and> (trim_to MAX_ENTRIES < length (e # es) \<or> trim_to ACTIVITY_MAX_TEXT_BYTES < bytes)")
    case True
    with 2(2) have "trim_loop es (bytes - length (ae_text e)) (removed + 1) = (es', bytes', removed')"
      by (simp del: length_Cons)
    from 2(1) [OF True this] 2(3) True show ?thesis
      by (auto simp: Suc_diff_le numeral_2_eq_2 drop_Cons')
  next
    case False
    with 2(2) have "es' = e # es" "bytes' = bytes" "removed' = removed"
      by (auto simp del: length_Cons split: if_splits)
    then show ?thesis using False 2(3) by auto
  qed
qed auto

lemma record_activity_ok:
  assumes ok: "log_ok n l" and n: "n < sequence"
    and r: "record_activity entry sequence l = (l', removed)"
  shows "log_ok sequence l'
       \<and> al_newest_unseen l' = (if ae_counts entry then Some sequence else al_newest_unseen l)
       \<and> al_unseen_errors l' = al_unseen_errors l + of_bool (ae_counts entry)
       \<and> al_entries l' = drop removed (al_entries l @ [entry\<lparr>ae_id := sequence\<rparr>])
       \<and> al_entries l' \<noteq> []"
proof -
  define l1 where "l1 = add_activity entry sequence l"
  have l1: "al_entries l1 = al_entries l @ [entry\<lparr>ae_id := sequence\<rparr>]"
    "al_text_bytes l1 = sum_list (map (length \<circ> ae_text) (al_entries l1))"
    "al_newest_unseen l1 = (if ae_counts entry then Some sequence else al_newest_unseen l)"
    "al_unseen_errors l1 = al_unseen_errors l + of_bool (ae_counts entry)"
    using ok by (auto simp: l1_def add_activity_def Let_def log_ok_def)
  have ids: "\<forall>e \<in> set (al_entries l). ae_id e < sequence"
    using ok n unfolding log_ok_def by fastforce
  have sorted: "sorted_wrt (<) (map ae_id (al_entries l1))"
    "\<forall>e \<in> set (al_entries l1). ae_id e \<le> sequence"
    "al_newest_unseen l1 = None \<longleftrightarrow> al_unseen_errors l1 = 0"
    "\<forall>s. al_newest_unseen l1 = Some s \<longrightarrow> s \<le> sequence"
    using ok n l1 ids by (auto simp: log_ok_def sorted_wrt_append)
  show ?thesis
  proof (cases "length (al_entries l1) \<le> MAX_ENTRIES \<and> al_text_bytes l1 \<le> ACTIVITY_MAX_TEXT_BYTES")
    case True
    with r have "l' = l1" "removed = 0" by (simp_all add: record_activity_def l1_def [symmetric])
    then show ?thesis
      using True l1 sorted unfolding log_ok_def by auto
  next
    case False
    obtain es bytes n' where t: "trim_loop (al_entries l1) (al_text_bytes l1) 0 = (es, bytes, n')"
      by (metis prod_cases3)
    with False r have l': "l' = l1\<lparr>al_entries := es, al_text_bytes := bytes, al_trimmed := True\<rparr>"
      "removed = n'"
      by (auto simp: record_activity_def l1_def [symmetric] Let_def)
    note spec = trim_loop_spec [OF t l1(2)]
    then have es: "es = drop removed (al_entries l1)" "es \<noteq> []"
      using l'(2) l1(1) by auto
    have "sorted_wrt (<) (map ae_id es)" "\<forall>e \<in> set es. ae_id e \<le> sequence"
      using sorted es(1) by (auto simp: drop_map [symmetric] sorted_wrt_drop dest: in_set_dropD)
    moreover have "length es \<le> trim_to MAX_ENTRIES \<and> bytes \<le> trim_to ACTIVITY_MAX_TEXT_BYTES
        \<or> length es \<le> 1"
      using spec by blast
    moreover have "0 < length es" using es(2) by simp
    moreover from calculation(3,4)
    have "length es \<le> MAX_ENTRIES \<and> (bytes \<le> ACTIVITY_MAX_TEXT_BYTES \<or> length es = 1)"
      unfolding trim_to_def MAX_ENTRIES_def ACTIVITY_MAX_TEXT_BYTES_def by linarith
    ultimately show ?thesis
      using l' l1 sorted spec es unfolding log_ok_def by simp
  qed
qed

section \<open>The invariant of the Activity\<close>

definition activity_ok :: "activity \<Rightarrow> bool" where
  "activity_ok a \<longleftrightarrow>
     distinct (map fst (act_logs a))
     \<and> (\<forall>c l. map_of (act_logs a) c = Some l \<longrightarrow> log_ok (act_sequence a) l)
     \<and> (\<forall>c l d m s. map_of (act_logs a) c = Some l \<and> map_of (act_logs a) d = Some m
          \<and> al_newest_unseen l = Some s \<and> al_newest_unseen m = Some s \<longrightarrow> c = d)"

datatype activity_op =
    Record_activity nat activity_entry
  | Clear_activity nat
  | Remove_activity nat
  | Mark_seen nat

fun activity_step :: "activity_op \<Rightarrow> activity \<Rightarrow> activity" where
  "activity_step (Record_activity c e) a = fst (activity_record c e a)"
| "activity_step (Clear_activity c) a = activity_clear c a"
| "activity_step (Remove_activity c) a = activity_remove c a"
| "activity_step (Mark_seen c) a = activity_mark_seen c a"

text \<open>Replacing the log of one connection keeps the invariant when the new log fits.\<close>

lemma activity_ok_update:
  assumes ok: "activity_ok a" and n: "act_sequence a \<le> n"
    and l: "log_ok n l"
    and fresh: "\<forall>d m s. d \<noteq> c \<and> map_of (act_logs a) d = Some m \<and> al_newest_unseen m = Some s
                  \<longrightarrow> al_newest_unseen l \<noteq> Some s"
  shows "activity_ok (a\<lparr>act_sequence := n, act_logs := AList.update c l (act_logs a)\<rparr>)"
proof -
  have "distinct (map fst (AList.update c l (act_logs a)))"
    using ok by (simp add: activity_ok_def distinct_update)
  moreover have "log_ok n m" if "map_of (AList.update c l (act_logs a)) d = Some m" for d m
    using that l log_ok_mono [OF _ n, of m] ok
    unfolding activity_ok_def update_conv' fun_upd_apply
    by (cases "d = c") simp_all
  moreover have "d = e" if "map_of (AList.update c l (act_logs a)) d = Some m"
      "map_of (AList.update c l (act_logs a)) e = Some k"
      "al_newest_unseen m = Some s" "al_newest_unseen k = Some s" for d e m k s
  proof (cases "d = c"; cases "e = c")
    assume "d \<noteq> c" "e \<noteq> c"
    with that ok show ?thesis unfolding activity_ok_def update_conv' fun_upd_apply by simp
  qed (use that fresh in \<open>auto simp: update_conv'\<close>)
  ultimately show ?thesis unfolding activity_ok_def by auto
qed

lemma activity_ok_step: "activity_ok a \<Longrightarrow> activity_ok (activity_step op a)"
proof (cases op)
  case (Record_activity c e)
  assume ok: "activity_ok a"
  define l where "l = (case map_of (act_logs a) c of None \<Rightarrow> activity_log_default | Some l \<Rightarrow> l)"
  obtain l' r where rec: "record_activity e (act_sequence a + 1) l = (l', r)" by fastforce
  have l: "log_ok (act_sequence a) l"
    using ok log_ok_default unfolding l_def activity_ok_def by (auto split: option.split)
  note spec = record_activity_ok [OF l _ rec]
  have "al_newest_unseen l' \<noteq> Some s"
    if "d \<noteq> c" "map_of (act_logs a) d = Some m" "al_newest_unseen m = Some s" for d m s
  proof -
    from that ok have s: "s \<le> act_sequence a" unfolding activity_ok_def log_ok_def by blast
    have "al_newest_unseen l \<noteq> Some s"
    proof (cases "map_of (act_logs a) c")
      case None
      then show ?thesis by (simp add: l_def activity_log_default_def)
    next
      case (Some k)
      then show ?thesis using that ok unfolding activity_ok_def l_def by auto
    qed
    with spec s show ?thesis by auto
  qed
  then have fresh: "\<forall>d m s. d \<noteq> c \<and> map_of (act_logs a) d = Some m \<and> al_newest_unseen m = Some s
      \<longrightarrow> al_newest_unseen l' \<noteq> Some s" by blast
  have "log_ok (act_sequence a + 1) l'" using spec by simp
  from activity_ok_update [OF ok _ this fresh]
  have "activity_ok (a\<lparr>act_sequence := act_sequence a + 1, act_logs := AList.update c l' (act_logs a)\<rparr>)"
    by simp
  moreover have "activity_step op a = a\<lparr>act_sequence := act_sequence a + 1, act_logs := AList.update c l' (act_logs a)\<rparr>"
    using rec unfolding Record_activity activity_step.simps activity_record_def Let_def l_def [symmetric]
    by simp
  ultimately show ?thesis by simp
next
  case (Clear_activity c)
  assume ok: "activity_ok a"
  show ?thesis
  proof (cases "map_of (act_logs a) c")
    case (Some l)
    then show ?thesis
      using activity_ok_update [OF ok order_refl log_ok_default, of c]
      by (simp add: Clear_activity activity_clear_def activity_log_default_def)
  qed (use ok in \<open>simp add: Clear_activity activity_clear_def\<close>)
next
  case (Remove_activity c)
  assume ok: "activity_ok a"
  have "map_of (AList.delete c (act_logs a)) d = (if d = c then None else map_of (act_logs a) d)" for d
    by (simp add: delete_conv' fun_upd_def)
  then show ?thesis
    using ok unfolding activity_ok_def Remove_activity activity_step.simps activity_remove_def
    by (auto simp: distinct_delete split: if_splits)
next
  case (Mark_seen c)
  assume ok: "activity_ok a"
  show ?thesis
  proof (cases "map_of (act_logs a) c")
    case (Some l)
    with ok have "log_ok (act_sequence a) (log_mark_seen l)"
      by (simp add: activity_ok_def log_ok_mark_seen)
    from activity_ok_update [OF ok order_refl this, of c] Some show ?thesis
      by (simp add: Mark_seen activity_mark_seen_def log_mark_seen_def)
  qed (use ok in \<open>simp add: Mark_seen activity_mark_seen_def\<close>)
qed

definition activity_run :: "activity_op list \<Rightarrow> activity" where
  "activity_run ops = run_from activity_step activity_default ops"

interpretation activity_machine: kept_invariant activity_default activity_step activity_ok
  by unfold_locales (simp add: activity_ok_def activity_default_def, rule activity_ok_step)

section \<open>Properties\<close>

lemma activity_run_ok: "activity_ok (activity_run ops)"
  unfolding activity_run_def by (rule activity_machine.inv_run)

text \<open>
  C14. After any sequence of events, clears, removals and views, every connection's log has its
  exact number of text bytes, at most 50,000 entries, and at most 8 MiB of text unless one entry
  alone is larger; its entries are in the order of arrival; and it has a newest unseen error
  exactly when it counts unseen errors.
\<close>

theorem activity_logs_are_sound:
  assumes "activity_log_of (activity_run ops) c = Some l"
  shows "al_text_bytes l = sum_list (map (length \<circ> ae_text) (al_entries l))
       \<and> length (al_entries l) \<le> 50000
       \<and> (al_text_bytes l \<le> 8388608 \<or> length (al_entries l) = 1)
       \<and> sorted_wrt (<) (map ae_id (al_entries l))
       \<and> (al_newest_unseen l = None \<longleftrightarrow> al_unseen_errors l = 0)"
proof -
  have "log_ok (act_sequence (activity_run ops)) l"
    using activity_run_ok [of ops] assms by (simp add: activity_ok_def activity_log_of_def)
  then show ?thesis unfolding log_ok_def MAX_ENTRIES_def ACTIVITY_MAX_TEXT_BYTES_def by auto
qed

text \<open>A run with two errors on one connection, which the other looks at.\<close>

definition sample_activity :: "activity_op list" where
  "sample_activity =
     [Record_activity 1 (activity_entry_new 5 Error ''refused''),
      Record_activity 2 (activity_entry_new 6 Error ''lost''),
      Mark_seen 2]"

lemma sample_activity_run:
  "activity_log_of (activity_run sample_activity) 1 =
     Some \<lparr>al_entries = [(activity_entry_new 5 Error ''refused'')\<lparr>ae_id := 1\<rparr>], al_text_bytes = 7,
          al_trimmed = False, al_unseen_errors = 1, al_newest_unseen = Some 1\<rparr>"
  "newest_unseen (activity_run sample_activity) = Some 1"
  by code_simp+

theorem activity_logs_are_sound_witness:
  "\<exists>l. activity_log_of (activity_run sample_activity) 1 = Some l \<and> al_text_bytes l = 7
     \<and> length (al_entries l) \<le> 50000"
  using activity_logs_are_sound [OF sample_activity_run(1)] sample_activity_run(1) by simp

lemma max_unseen_Some:
  "max_unseen ps = Some (s, c) \<Longrightarrow>
     (s, c) \<in> set ps \<and> (\<forall>(t, d) \<in> set ps. t < s \<or> (t = s \<and> d \<le> c))"
proof (induction ps arbitrary: s c rule: max_unseen.induct)
  case (2 s0 c0 rest)
  show ?case
  proof (cases "max_unseen rest")
    case None
    then have "rest = []" by (cases rest rule: max_unseen.cases) (auto split: option.splits if_splits)
    with 2 show ?thesis by simp
  next
    case (Some q)
    obtain t d where q: "q = (t, d)" by fastforce
    from 2(1) [OF Some [unfolded q]] 2(2) Some q show ?thesis
      by (fastforce split: if_splits)
  qed
qed simp

lemma max_unseen_None: "max_unseen ps = None \<longleftrightarrow> ps = []"
  by (cases ps rule: max_unseen.cases) (auto split: option.splits)

lemma unseen_pairs_iff:
  assumes "distinct (map fst (act_logs a))"
  shows "(s, c) \<in> set (unseen_pairs a) \<longleftrightarrow>
    (\<exists>l. map_of (act_logs a) c = Some l \<and> al_newest_unseen l = Some s)"
proof -
  have "(s, c) \<in> set (unseen_pairs a) \<longleftrightarrow> (\<exists>l. (c, l) \<in> set (act_logs a) \<and> al_newest_unseen l = Some s)"
    unfolding unseen_pairs_def by (induction "act_logs a" arbitrary: a) (force simp: map_filter_def)+
  then show ?thesis using assms by simp
qed

text \<open>
  The connection that Activity opens is the one whose newest unseen error arrived last of
  all connections; there is none exactly when no connection has an unseen error.
\<close>

theorem newest_unseen_is_newest:
  defines "a ops \<equiv> activity_run ops"
  shows "case newest_unseen (a ops) of
           None \<Rightarrow> activity_unseen_errors (a ops) = 0
         | Some c \<Rightarrow> 0 < unseen_errors_of (a ops) c
             \<and> (\<exists>l s. activity_log_of (a ops) c = Some l \<and> al_newest_unseen l = Some s
                 \<and> (\<forall>d m t. d \<noteq> c \<longrightarrow> activity_log_of (a ops) d = Some m \<longrightarrow>
                      al_newest_unseen m = Some t \<longrightarrow> t < s))"
proof -
  let ?a = "a ops"
  have ok: "activity_ok ?a" unfolding a_def by (rule activity_run_ok)
  then have dist: "distinct (map fst (act_logs ?a))" by (simp add: activity_ok_def)
  note pairs = unseen_pairs_iff [OF dist]
  show ?thesis
  proof (cases "max_unseen (unseen_pairs ?a)")
    case None
    then have "unseen_pairs ?a = []" by (simp add: max_unseen_None)
    then have none: "map_of (act_logs ?a) c = Some l \<Longrightarrow> al_newest_unseen l = None" for c l
      using pairs by (cases "al_newest_unseen l") auto
    have "al_unseen_errors l = 0" if "(c, l) \<in> set (act_logs ?a)" for c l
    proof -
      from that dist have "map_of (act_logs ?a) c = Some l" by simp
      with none ok show ?thesis unfolding activity_ok_def log_ok_def by blast
    qed
    then have "activity_unseen_errors ?a = 0"
      unfolding activity_unseen_errors_def by (auto simp: sum_list_eq_0_iff)
    with None show ?thesis by (simp add: newest_unseen_def)
  next
    case (Some q)
    obtain s c where q: "q = (s, c)" by fastforce
    note best = max_unseen_Some [OF Some [unfolded q]]
    then obtain l where l: "map_of (act_logs ?a) c = Some l" "al_newest_unseen l = Some s"
      using pairs by blast
    have less: "t < s" if "d \<noteq> c" "map_of (act_logs ?a) d = Some m" "al_newest_unseen m = Some t" for d m t
    proof -
      have "(t, d) \<in> set (unseen_pairs ?a)" using that pairs by blast
      with best have "t < s \<or> t = s" by auto
      moreover have "t \<noteq> s" using that l ok unfolding activity_ok_def by blast
      ultimately show ?thesis by simp
    qed
    have "al_unseen_errors l \<noteq> 0" using l ok unfolding activity_ok_def log_ok_def by (metis option.distinct(1))
    then show ?thesis
      using Some q l less by (auto simp: newest_unseen_def unseen_errors_of_def activity_log_of_def)
  qed
qed

theorem newest_unseen_is_newest_witness:
  "newest_unseen (activity_run sample_activity) = Some 1
   \<and> 0 < unseen_errors_of (activity_run sample_activity) 1"
  using newest_unseen_is_newest [of sample_activity] sample_activity_run(2) by simp

text \<open>
  Activity has no SQL of a query: the entry of a submitted or failed query of a tab does not
  depend on the text or the SQL of its event, its message is the short text, and it never counts as
  an unseen error.
\<close>

theorem activity_hides_queries:
  assumes "ev_kind event = Submitted \<or> (ev_kind event = ErrorEvent \<and> ev_execution_id event \<noteq> None)"
  shows "from_tab (event\<lparr>ev_text := t, ev_sql := q\<rparr>) tab title = from_tab event tab title
       \<and> (\<exists>e. from_tab event tab title = Some e \<and> \<not> ae_counts e \<and> ae_tab e = Some tab
            \<and> message e \<in> {''Submitted a query'', ''Query failed''})"
  using assms by (auto simp: from_tab_def tab_text_def message_def strip_prefix_def)

theorem activity_hides_queries_witness:
  "from_tab (log_event_new 5 (Some 1) Info Submitted ''select secret'') 7 ''Tab''
     = from_tab (log_event_new 5 (Some 1) Info Submitted ''x'') 7 ''Tab''"
  using activity_hides_queries 
      [where event = "log_event_new 5 (Some 1) Info Submitted ''x''" and t = "''select secret''"
        and q = None and tab = 7 and title = "''Tab''"]
  by (simp add: log_event_new_def)

end
