(* ===== verification/Assoc_Sums.thy ===== *)
theory Assoc_Sums
  imports Rust_Prelude "HOL-Library.AList"
begin

text \<open>
  Association lists as maps with a sum over their values. They model the maps of the code whose
  contents are counted: the sum does not depend on the order.
\<close>

definition asum :: "('v \<Rightarrow> nat) \<Rightarrow> ('k \<times> 'v) list \<Rightarrow> nat" where
  "asum f xs = sum_list (map (f \<circ> snd) xs)"

lemma asum_simps [simp]:
  "asum f [] = 0"
  "asum f ((k, v) # xs) = f v + asum f xs"
  by (simp_all add: asum_def)

lemma asum_delete:
  "distinct (map fst xs) \<Longrightarrow> map_of xs k = Some v \<Longrightarrow> asum f xs = f v + asum f (AList.delete k xs)"
proof (induction xs)
  case (Cons x xs)
  obtain j w where x: "x = (j, w)" by fastforce
  show ?case
  proof (cases "j = k")
    case True
    with Cons.prems x have "k \<notin> fst ` set xs" by simp
    then have "AList.delete k xs = xs" by (rule delete_id)
    with True Cons.prems x show ?thesis by simp
  next
    case False
    with Cons x show ?thesis by simp
  qed
qed simp

lemma asum_delete_None: "map_of xs k = None \<Longrightarrow> asum f (AList.delete k xs) = asum f xs"
  by (simp add: delete_id map_of_eq_None_iff)

lemma asum_update_new: "map_of xs k = None \<Longrightarrow> asum f (AList.update k v xs) = asum f xs + f v"
  by (induction xs) (auto split: if_splits)

lemma asum_update:
  "map_of xs k = Some v \<Longrightarrow> asum f (AList.update k w xs) + f v = asum f xs + f w"
  by (induction xs) (auto split: if_splits)

lemma asum_member: "map_of xs k = Some v \<Longrightarrow> f v \<le> asum f xs"
  by (induction xs) (auto split: if_splits)

lemma asum_zero: "asum f xs = 0 \<longleftrightarrow> (\<forall>v \<in> snd ` set xs. f v = 0)"
  by (induction xs) auto

lemma asum_cong: "(\<And>v. v \<in> snd ` set xs \<Longrightarrow> f v = g v) \<Longrightarrow> asum f xs = asum g xs"
  by (induction xs) auto

lemma keys_update [simp]: "fst ` set (AList.update k v xs) = insert k (fst ` set xs)"
  by (simp add: dom_map_of_conv_image_fst [symmetric] update_conv')

lemma keys_delete [simp]: "fst ` set (AList.delete k xs) = fst ` set xs - {k}"
  by (auto simp add: dom_map_of_conv_image_fst [symmetric] delete_conv')

lemma set_delete: "set (AList.delete k xs) = {x \<in> set xs. fst x \<noteq> k}"
  by (induction xs) auto

end
