(* ===== verification/Rows.thy ===== *)
theory Rows
  imports Rust_Prelude
begin

text \<open>
  The store of preview rows (\<open>src/export/rows.rs\<close>) and the pages over it
  (\<open>src/pagination.rs\<close>). A batch is an \<open>Arc\<close>: it has an identity, and stores that share it
  hold the same identity. The capacity of a vector or a text is the allocator's choice, so the
  three capacities the code reads are a parameter. The context of a result is opaque here.
\<close>

type_synonym cell = "string option"
type_synonym row = "cell list"

section \<open>Pages\<close>

definition PREVIEW_ROWS :: nat where "PREVIEW_ROWS = 1000"

record pagination =
  pg_page :: nat

definition pagination_default :: pagination where
  "pagination_default = \<lparr>pg_page = 0\<rparr>"

definition div_ceil :: "nat \<Rightarrow> nat \<Rightarrow> nat" where
  "div_ceil a b = a div b + of_bool (a mod b \<noteq> 0)"

definition pages :: "nat \<Rightarrow> nat" where
  "pages rows = max (div_ceil rows PREVIEW_ROWS) 1"

definition page_range :: "pagination \<Rightarrow> nat \<Rightarrow> nat \<times> nat" where
  "page_range p rows =
     (let start = min (pg_page p * PREVIEW_ROWS) rows
      in (start, min (saturating_add start PREVIEW_ROWS) rows))"

definition page_select :: "nat \<Rightarrow> nat \<Rightarrow> pagination \<Rightarrow> pagination \<times> bool" where
  "page_select page rows p =
     (if pages rows \<le> page \<or> page = pg_page p then (p, False)
      else (p\<lparr>pg_page := page\<rparr>, True))"

section \<open>The store\<close>

record batch =
  b_id :: nat
  b_rows :: "row list"
  b_bytes :: nat
  b_allocation :: "nat option"

record chunk =
  c_start :: nat
  c_batch :: batch

record 'c rows =
  r_batches :: "chunk list"
  r_len :: nat
  r_context :: 'c

record capacities =
  cap_rows :: "row list \<Rightarrow> nat"
  cap_cells :: "row \<Rightarrow> nat"
  cap_text :: "string \<Rightarrow> nat"

text \<open>\<open>size_of\<close> of a \<open>Vec\<close>, of an \<open>Option<String>\<close> and of a pair of \<open>usize\<close>.\<close>

definition size_of_row :: nat where "size_of_row = 24"
definition size_of_cell :: nat where "size_of_cell = 24"
definition size_of_pair :: nat where "size_of_pair = 16"
definition size_of_chunk :: nat where "size_of_chunk = 16"

definition texts :: "row \<Rightarrow> string list" where
  "texts r = List.map_filter id r"

lemma texts_simps [simp]:
  "texts [] = []"
  "texts (None # r) = texts r"
  "texts (Some t # r) = t # texts r"
  by (simp_all add: texts_def map_filter_simps)

definition batch_bytes :: "capacities \<Rightarrow> row list \<Rightarrow> nat" where
  "batch_bytes cap rs =
     cap_rows cap rs * size_of_row
     + sum_list (map (\<lambda>r. cap_cells cap r * size_of_cell + sum_list (map (cap_text cap) (texts r))) rs)"

definition rows_default :: "'c \<Rightarrow> 'c rows" where
  "rows_default c = \<lparr>r_batches = [], r_len = 0, r_context = c\<rparr>"

text \<open>\<open>extend\<close>; \<open>i\<close> is the identity of the new \<open>Arc\<close>.\<close>

definition rows_extend :: "capacities \<Rightarrow> nat \<Rightarrow> row list \<Rightarrow> 'c rows \<Rightarrow> 'c rows" where
  "rows_extend cap i rs store =
     (if rs = [] then store
      else
        store\<lparr>r_len := r_len store + length rs,
              r_batches := r_batches store @
                [\<lparr>c_start = r_len store,
                  c_batch = \<lparr>b_id = i, b_rows = rs, b_bytes = batch_bytes cap rs, b_allocation = None\<rparr>\<rparr>]\<rparr>)"

definition rows_from :: "capacities \<Rightarrow> nat \<Rightarrow> 'c \<Rightarrow> row list \<Rightarrow> 'c rows" where
  "rows_from cap i ctx rs = rows_extend cap i rs (rows_default ctx)"

text \<open>\<open>accounted\<close>: the first batch carries the allocation of its rows.\<close>

definition rows_accounted :: "capacities \<Rightarrow> nat \<Rightarrow> row list \<Rightarrow> nat \<Rightarrow> 'c \<Rightarrow> 'c rows" where
  "rows_accounted cap i rs allocation context =
     (let store = rows_from cap i context rs in
      store\<lparr>r_batches :=
              (case r_batches store of
                 [] \<Rightarrow> []
               | c # cs \<Rightarrow> c\<lparr>c_batch := (c_batch c)\<lparr>b_allocation := Some allocation\<rparr>\<rparr> # cs),
            r_context := context\<rparr>)"

definition append_shared :: "'c rows \<Rightarrow> 'c rows \<Rightarrow> 'c rows" where
  "append_shared store other =
     (let store1 = (if r_len store = 0 then store\<lparr>r_context := r_context other\<rparr> else store) in
      store1\<lparr>r_batches := r_batches store1 @
               map (\<lambda>c. \<lparr>c_start = r_len store1 + c_start c, c_batch = c_batch c\<rparr>) (r_batches other),
             r_len := r_len store1 + r_len other\<rparr>)"

definition retained_bytes :: "'c rows \<Rightarrow> nat" where
  "retained_bytes store = sum_list (map (b_bytes \<circ> c_batch) (r_batches store))"

definition accounted_bytes :: "'c rows \<Rightarrow> nat" where
  "accounted_bytes store =
     sum_list (map (\<lambda>c. case b_allocation (c_batch c) of None \<Rightarrow> 0 | Some n \<Rightarrow> n) (r_batches store))"

text \<open>
  \<open>partition_point\<close> of a predicate that holds on a prefix only: the length of the prefix. The
  starts of the batches are in order (\<open>store_ok\<close> below), so the predicate of \<open>get\<close> is one.
\<close>

definition partition_point :: "('a \<Rightarrow> bool) \<Rightarrow> 'a list \<Rightarrow> nat" where
  "partition_point p xs = length (takeWhile p xs)"

definition nth_opt :: "'a list \<Rightarrow> nat \<Rightarrow> 'a option" where
  "nth_opt xs i = (if i < length xs then Some (xs ! i) else None)"

definition rows_get :: "'c rows \<Rightarrow> nat \<Rightarrow> row option" where
  "rows_get store i =
     (case checked_sub (partition_point (\<lambda>c. c_start c \<le> i) (r_batches store)) 1 of
        None \<Rightarrow> None
      | Some k \<Rightarrow> (let c = r_batches store ! k in nth_opt (b_rows (c_batch c)) (i - c_start c)))"

definition metadata_bytes :: "'c rows \<Rightarrow> nat" where
  "metadata_bytes store = length (r_batches store) * size_of_chunk"

text \<open>The batches of a lease: those without an allocation of their own, by identity.\<close>

definition lease_batches :: "'c rows \<Rightarrow> (nat \<times> nat) list" where
  "lease_batches store =
     map (\<lambda>c. (b_id (c_batch c), b_bytes (c_batch c)))
       (filter (\<lambda>c. b_allocation (c_batch c) = None) (r_batches store))"

section \<open>The store is the list of its rows\<close>

definition rows_list :: "'c rows \<Rightarrow> row list" where
  "rows_list store = concat (map (b_rows \<circ> c_batch) (r_batches store))"

text \<open>Each batch starts where the one before it ends, and none is empty.\<close>

fun chunks_ok :: "nat \<Rightarrow> chunk list \<Rightarrow> nat \<Rightarrow> bool" where
  "chunks_ok a [] b \<longleftrightarrow> a = b"
| "chunks_ok a (c # cs) b \<longleftrightarrow>
     c_start c = a \<and> b_rows (c_batch c) \<noteq> [] \<and> chunks_ok (a + length (b_rows (c_batch c))) cs b"

definition store_ok :: "'c rows \<Rightarrow> bool" where
  "store_ok store \<longleftrightarrow> chunks_ok 0 (r_batches store) (r_len store)"

lemma chunks_ok_append:
  "chunks_ok a (cs @ ds) b \<longleftrightarrow> (\<exists>m. chunks_ok a cs m \<and> chunks_ok m ds b)"
  by (induction cs arbitrary: a) auto

lemma chunks_ok_length:
  "chunks_ok a cs b \<Longrightarrow> b = a + length (concat (map (b_rows \<circ> c_batch) cs))"
proof (induction cs arbitrary: a)
  case (Cons c cs)
  from Cons.prems have "chunks_ok (a + length (b_rows (c_batch c))) cs b" by simp
  from Cons.IH [OF this] show ?case by simp
qed simp

lemma chunks_ok_shift:
  "chunks_ok a cs b \<Longrightarrow>
     chunks_ok (n + a) (map (\<lambda>c. \<lparr>c_start = n + c_start c, c_batch = c_batch c\<rparr>) cs) (n + b)"
  by (induction cs arbitrary: a) (auto simp: add.assoc)

lemma chunks_ok_starts: "chunks_ok a cs b \<Longrightarrow> c \<in> set cs \<Longrightarrow> a \<le> c_start c"
  by (induction cs arbitrary: a) fastforce+

text \<open>The batch that \<open>partition_point\<close> finds, and the row in it.\<close>

definition chunk_get :: "chunk list \<Rightarrow> nat \<Rightarrow> row option" where
  "chunk_get cs i =
     (case checked_sub (partition_point (\<lambda>c. c_start c \<le> i) cs) 1 of
        None \<Rightarrow> None
      | Some k \<Rightarrow> (let c = cs ! k in nth_opt (b_rows (c_batch c)) (i - c_start c)))"

lemma rows_get_chunk: "rows_get store i = chunk_get (r_batches store) i"
  by (simp add: rows_get_def chunk_get_def)

lemma chunk_get_Nil [simp]: "chunk_get [] i = None"
  by (simp add: chunk_get_def partition_point_def checked_sub_def)

lemma chunk_get_Cons:
  assumes "chunks_ok a (c # cs) b" "a \<le> i"
  shows "chunk_get (c # cs) i =
    (if i < a + length (b_rows (c_batch c)) then Some (b_rows (c_batch c) ! (i - a))
     else chunk_get cs i)"
proof -
  let ?n = "length (b_rows (c_batch c))"
  let ?k = "partition_point (\<lambda>c. c_start c \<le> i) cs"
  from assms have c: "c_start c = a" "chunks_ok (a + ?n) cs b" "0 < ?n" by auto
  have k: "partition_point (\<lambda>c. c_start c \<le> i) (c # cs) = Suc ?k"
    using c assms(2) by (simp add: partition_point_def)
  show ?thesis
  proof (cases "i < a + ?n")
    case True
    have "\<not> c_start d \<le> i" if "d \<in> set cs" for d
      using chunks_ok_starts [OF c(2) that] True by simp
    then have "takeWhile (\<lambda>c. c_start c \<le> i) cs = []"
      by (cases cs) auto
    then have "?k = 0" by (simp add: partition_point_def)
    with k True c assms(2) show ?thesis
      by (simp add: chunk_get_def checked_sub_def nth_opt_def)
  next
    case False
    show ?thesis
    proof (cases cs)
      case Nil
      with k False c assms(2) show ?thesis
        by (simp add: chunk_get_def checked_sub_def nth_opt_def partition_point_def)
    next
      case (Cons d ds)
      with c(2) False have "0 < ?k" by (simp add: partition_point_def)
      then obtain k' where "?k = Suc k'" by (cases ?k) auto
      with k False show ?thesis by (simp add: chunk_get_def checked_sub_def)
    qed
  qed
qed

lemma chunk_get_nth:
  "chunks_ok a cs b \<Longrightarrow> a \<le> i \<Longrightarrow>
     chunk_get cs i = nth_opt (concat (map (b_rows \<circ> c_batch) cs)) (i - a)"
proof (induction cs arbitrary: a)
  case Nil
  then show ?case by (simp add: nth_opt_def)
next
  case (Cons c cs)
  let ?n = "length (b_rows (c_batch c))"
  from Cons.prems have ok: "chunks_ok (a + ?n) cs b" by simp
  show ?case
  proof (cases "i < a + ?n")
    case True
    with chunk_get_Cons [OF Cons.prems] Cons.prems(2) show ?thesis
      by (simp add: nth_opt_def nth_append) arith
  next
    case False
    with chunk_get_Cons [OF Cons.prems] Cons.IH [OF ok] show ?thesis
      by (auto simp: nth_opt_def nth_append)
  qed
qed

section \<open>Properties\<close>

lemma store_ok_length: "store_ok store \<Longrightarrow> r_len store = length (rows_list store)"
  unfolding store_ok_def rows_list_def by (drule chunks_ok_length) simp

lemma store_ok_get: "store_ok store \<Longrightarrow> rows_get store i = nth_opt (rows_list store) i"
  unfolding store_ok_def rows_list_def rows_get_chunk by (drule chunk_get_nth [where i = i]) simp_all

lemma store_ok_default: "store_ok (rows_default c)"
  by (simp add: store_ok_def rows_default_def)

lemma store_ok_extend:
  "store_ok store \<Longrightarrow> store_ok (rows_extend cap i rs store)
     \<and> rows_list (rows_extend cap i rs store) = rows_list store @ rs"
  by (auto simp: store_ok_def rows_extend_def rows_list_def chunks_ok_append)

lemma store_ok_append_shared:
  assumes "store_ok store" "store_ok other"
  shows "store_ok (append_shared store other)
     \<and> rows_list (append_shared store other) = rows_list store @ rows_list other"
proof -
  have "chunks_ok (r_len store) (map (\<lambda>c. \<lparr>c_start = r_len store + c_start c, c_batch = c_batch c\<rparr>) (r_batches other))
      (r_len store + r_len other)"
    using chunks_ok_shift [of 0 "r_batches other" "r_len other" "r_len store"] assms(2)
    by (simp add: store_ok_def)
  with assms show ?thesis
    by (auto simp: store_ok_def append_shared_def Let_def rows_list_def chunks_ok_append o_def)
qed

text \<open>
  C17. The store of preview rows is the list of its rows. After an extension or after sharing the
  batches of another store, its length is the number of rows, and \<open>get\<close> finds every row by its
  index, in the order of arrival, and nothing past the end; the batches of the other store are
  the same batches.
\<close>

theorem row_store_is_a_list:
  assumes "store_ok store" "store_ok other"
  shows "r_len (rows_extend cap i rs store) = length (rows_list store) + length rs
       \<and> rows_get (rows_extend cap i rs store) k = nth_opt (rows_list store @ rs) k
       \<and> r_len (append_shared store other) = length (rows_list store) + length (rows_list other)
       \<and> rows_get (append_shared store other) k = nth_opt (rows_list store @ rows_list other) k
       \<and> map c_batch (r_batches (append_shared store other))
           = map c_batch (r_batches store) @ map c_batch (r_batches other)
       \<and> store_ok (rows_extend cap i rs store) \<and> store_ok (append_shared store other)"
proof -
  note e = store_ok_extend [OF assms(1), of cap i rs]
  note a = store_ok_append_shared [OF assms]
  have "map c_batch (r_batches (append_shared store other))
      = map c_batch (r_batches store) @ map c_batch (r_batches other)"
    by (simp add: append_shared_def Let_def o_def)
  with e a store_ok_length store_ok_get show ?thesis by (metis length_append)
qed

definition sample_caps :: capacities where
  "sample_caps = \<lparr>cap_rows = length, cap_cells = length, cap_text = length\<rparr>"

theorem row_store_is_a_list_witness:
  "rows_get (append_shared (rows_from sample_caps 1 () [[Some ''a''], [None]])
      (rows_from sample_caps 2 () [[Some ''b'']])) 2 = Some [Some ''b'']"
proof -
  have ok: "store_ok (rows_from sample_caps n () rs)" for n rs
    unfolding rows_from_def by (rule store_ok_extend [OF store_ok_default, THEN conjunct1])
  have list: "rows_list (rows_from sample_caps n () rs) = rs" for n rs
    unfolding rows_from_def using store_ok_extend [OF store_ok_default [of "()"], of sample_caps n rs]
    by (simp add: rows_list_def rows_default_def)
  show ?thesis
    using row_store_is_a_list
      [OF ok [of 1 "[[Some ''a''], [None]]"] ok [of 2 "[[Some ''b'']]"], where k = 2]
    by (simp add: list nth_opt_def)
qed

lemma page_range_bounds:
  assumes "rows \<le> usize_max"
  shows "page_range p rows
       = (min (pg_page p * 1000) rows, min ((pg_page p + 1) * 1000) rows)"
  using assms by (auto simp: page_range_def Let_def saturating_add_def PREVIEW_ROWS_def min_def)

lemma pages_spec: "rows \<le> pages rows * 1000" "(pages rows - 1) * 1000 < max rows 1"
proof -
  define q r where "q = rows div 1000" and "r = rows mod 1000"
  have rows: "rows = 1000 * q + r" "r < 1000" by (simp_all add: q_def r_def)
  have p: "pages rows = max (q + of_bool (r \<noteq> 0)) 1"
    by (simp add: pages_def div_ceil_def PREVIEW_ROWS_def q_def r_def)
  show "rows \<le> pages rows * 1000"
    using rows(2) unfolding p unfolding rows(1) by (cases "r = 0") (auto simp: max_def)
  show "(pages rows - 1) * 1000 < max rows 1"
    using rows(2) unfolding p unfolding rows(1) by (cases "r = 0"; cases q) (auto simp: max_def)
qed

lemma slices_concat:
  "concat (map (\<lambda>p. slice xs (min (p * 1000) (length xs), min ((p + 1) * 1000) (length xs))) [0..<n])
     = slice xs (0, min (n * 1000) (length xs))" for xs :: "'a list"
proof (induction n)
  case (Suc n)
  have "slice xs (0, min (n * 1000) (length xs))
      @ slice xs (min (n * 1000) (length xs), min (Suc n * 1000) (length xs))
      = slice xs (0, min (Suc n * 1000) (length xs))"
    by (rule slice_append) auto
  with Suc show ?case by simp
qed simp

text \<open>
  The pages of a result partition its rows: shown one after another they are exactly the rows
  in order, each page has at most 1,000 rows and is empty only for a result without rows, and
  choosing a page keeps the page in range.
\<close>

theorem pages_partition_rows:
  assumes "length xs \<le> usize_max" "pg_page p < pages (length xs)"
  shows "concat (map (\<lambda>k. slice xs (page_range \<lparr>pg_page = k\<rparr> (length xs))) [0..<pages (length xs)]) = xs
       \<and> length (slice xs (page_range p (length xs))) \<le> 1000
       \<and> (slice xs (page_range p (length xs)) = [] \<longleftrightarrow> xs = [])
       \<and> pg_page (fst (page_select k (length xs) p)) < pages (length xs)"
proof (intro conjI)
  note bounds = page_range_bounds [OF assms(1)]
  have "concat (map (\<lambda>k. slice xs (page_range \<lparr>pg_page = k\<rparr> (length xs))) [0..<pages (length xs)])
      = slice xs (0, min (pages (length xs) * 1000) (length xs))"
    unfolding bounds pagination.simps by (rule slices_concat)
  also have "min (pages (length xs) * 1000) (length xs) = length xs"
    using pages_spec(1) by simp
  finally show "concat (map (\<lambda>k. slice xs (page_range \<lparr>pg_page = k\<rparr> (length xs))) [0..<pages (length xs)]) = xs"
    by simp
  have len: "length (slice xs (page_range p (length xs)))
      = min ((pg_page p + 1) * 1000) (length xs) - min (pg_page p * 1000) (length xs)"
    unfolding bounds by (rule length_slice) simp
  then show "length (slice xs (page_range p (length xs))) \<le> 1000" by simp
  have "pg_page p * 1000 \<le> (pages (length xs) - 1) * 1000" using assms(2) by simp
  also have "\<dots> < max (length xs) 1" by (rule pages_spec)
  finally have "xs \<noteq> [] \<longrightarrow> pg_page p * 1000 < length xs" by (cases xs) simp_all
  then have "length (slice xs (page_range p (length xs))) = 0 \<longleftrightarrow> xs = []"
    unfolding len by (auto simp: min_def)
  then show "slice xs (page_range p (length xs)) = [] \<longleftrightarrow> xs = []" by simp
  show "pg_page (fst (page_select k (length xs) p)) < pages (length xs)"
    using assms(2) by (simp add: page_select_def)
qed

theorem pages_partition_rows_witness:
  "length (slice (replicate 1250 (0 :: nat)) (page_range \<lparr>pg_page = 1\<rparr> 1250)) \<le> 1000"
  using pages_partition_rows [of "replicate 1250 (0 :: nat)" "\<lparr>pg_page = 1\<rparr>"]
  by (simp add: usize_max_def pages_def div_ceil_def PREVIEW_ROWS_def)

end
