(* ===== verification/Budget.thy ===== *)
theory Budget
  imports Assoc_Sums Rows
begin

text \<open>
  The memory budget of exports (\<open>src/export/budget.rs\<close>): one counter with a limit, the
  allowances reserved from it, plain allocations, and the ledger of batches that several exports
  share. A drop of a guard is an operation. An operation that the code would panic in
  (\<open>unwrap\<close> of a missing entry, a subtraction below zero) returns \<open>None\<close>.
\<close>

definition MIB :: nat where "MIB = 1024 * 1024"
definition MAX_CELL_BYTES :: nat where "MAX_CELL_BYTES = 8 * MIB"
definition MAX_ROW_BYTES :: nat where "MAX_ROW_BYTES = 16 * MIB"
definition MAX_RECORD_BYTES :: nat where "MAX_RECORD_BYTES = 32 * MIB"

datatype budget_error = Full | Changed_size | Over_allowance | Cell_limit | Row_limit

section \<open>The counter and the ledger\<close>

text \<open>The ledger maps the identity of a batch to its bytes and the number of guards that hold it.\<close>

record budget =
  bu_limit :: nat
  bu_used :: nat
  bu_shared :: "(nat \<times> nat \<times> nat) list"

record allowance =
  aw_limit :: nat
  aw_used :: nat

record shared =
  sh_batches :: "(nat \<times> nat) list"
  sh_overhead :: nat

definition budget_new :: "nat \<Rightarrow> budget" where
  "budget_new limit = \<lparr>bu_limit = limit, bu_used = 0, bu_shared = []\<rparr>"

definition budget_allowance :: "nat \<Rightarrow> budget \<Rightarrow> (budget_error, budget \<times> allowance) result" where
  "budget_allowance limit b =
     (if bu_limit b - bu_used b < limit then Inl Full
      else Inr (b\<lparr>bu_used := bu_used b + limit\<rparr>, \<lparr>aw_limit = limit, aw_used = 0\<rparr>))"

text \<open>\<open>acquire\<close> returns the bytes of the new allocation.\<close>

definition budget_acquire :: "nat \<Rightarrow> budget \<Rightarrow> (budget_error, budget \<times> nat) result" where
  "budget_acquire bytes b =
     (if bu_limit b - bu_used b < bytes then Inl Full
      else Inr (b\<lparr>bu_used := bu_used b + bytes\<rparr>, bytes))"

definition share_overhead :: "(nat \<times> nat) list \<Rightarrow> nat option" where
  "share_overhead batches =
     (case checked_mul (length batches) size_of_pair of
        None \<Rightarrow> None
      | Some bytes \<Rightarrow> checked_add bytes 64)"

definition changed_size :: "(nat \<times> nat) list \<Rightarrow> bool" where
  "changed_size batches \<longleftrightarrow>
     list_ex (\<lambda>(p, q). fst p = fst q \<and> snd p \<noteq> snd q) (zip batches (tl batches))"

fun dedup_ids :: "(nat \<times> nat) list \<Rightarrow> (nat \<times> nat) list" where
  "dedup_ids [] = []"
| "dedup_ids [p] = [p]"
| "dedup_ids (p # q # rest) =
     (if fst p = fst q then dedup_ids (p # rest) else p # dedup_ids (q # rest))"

fun share_additional ::
  "(nat \<times> nat \<times> nat) list \<Rightarrow> nat \<Rightarrow> (nat \<times> nat) list \<Rightarrow> (budget_error, nat) result" where
  "share_additional ledger acc [] = Inr acc"
| "share_additional ledger acc ((i, bytes) # rest) =
     (case map_of ledger i of
        Some (previous, _) \<Rightarrow>
          (if previous \<noteq> bytes then Inl Changed_size else share_additional ledger acc rest)
      | None \<Rightarrow>
          (case checked_add acc bytes of
             None \<Rightarrow> Inl Full
           | Some subtotal \<Rightarrow>
               (case checked_add subtotal 1024 of
                  None \<Rightarrow> Inl Full
                | Some acc' \<Rightarrow> share_additional ledger acc' rest)))"

definition ledger_add :: "nat \<times> nat \<Rightarrow> (nat \<times> nat \<times> nat) list \<Rightarrow> (nat \<times> nat \<times> nat) list" where
  "ledger_add p ledger =
     (case map_of ledger (fst p) of
        None \<Rightarrow> AList.update (fst p) (snd p, 1) ledger
      | Some (bytes, count) \<Rightarrow> AList.update (fst p) (bytes, count + 1) ledger)"

definition budget_share ::
  "(nat \<times> nat) list \<Rightarrow> budget \<Rightarrow> (budget_error, budget \<times> shared) result" where
  "budget_share batches b =
     (case share_overhead batches of
        None \<Rightarrow> Inl Full
      | Some overhead \<Rightarrow>
          if bu_limit b - bu_used b < overhead then Inl Full
          else
            (let sorted = sort_key fst batches in
             if changed_size sorted then Inl Changed_size
             else
               (let unique = dedup_ids sorted in
                case share_additional (bu_shared b) overhead unique of
                  Inl e \<Rightarrow> Inl e
                | Inr additional \<Rightarrow>
                    if bu_limit b - bu_used b < additional then Inl Full
                    else
                      Inr (b\<lparr>bu_shared := fold ledger_add unique (bu_shared b),
                             bu_used := bu_used b + additional\<rparr>,
                           \<lparr>sh_batches = unique, sh_overhead = overhead\<rparr>))))"

definition allowance_acquire :: "nat \<Rightarrow> allowance \<Rightarrow> (budget_error, allowance \<times> nat) result" where
  "allowance_acquire bytes a =
     (if aw_limit a - aw_used a < bytes then Inl Over_allowance
      else Inr (a\<lparr>aw_used := aw_used a + bytes\<rparr>, bytes))"

section \<open>Drops\<close>

definition release :: "nat \<Rightarrow> budget \<Rightarrow> budget option" where
  "release bytes b = map_option (\<lambda>n. b\<lparr>bu_used := n\<rparr>) (checked_sub (bu_used b) bytes)"

text \<open>Dropping an allocation, from its allowance or from the counter.\<close>

definition drop_from_allowance :: "nat \<Rightarrow> allowance \<Rightarrow> allowance option" where
  "drop_from_allowance bytes a = map_option (\<lambda>n. a\<lparr>aw_used := n\<rparr>) (checked_sub (aw_used a) bytes)"

definition drop_allowance :: "allowance \<Rightarrow> budget \<Rightarrow> budget option" where
  "drop_allowance a b = release (aw_limit a) b"

definition ledger_remove :: "nat \<Rightarrow> budget \<Rightarrow> budget option" where
  "ledger_remove i b =
     (case map_of (bu_shared b) i of
        None \<Rightarrow> None
      | Some (bytes, count) \<Rightarrow>
          (case checked_sub count 1 of
             None \<Rightarrow> None
           | Some n \<Rightarrow>
               if n = 0
               then release (bytes + 1024) (b\<lparr>bu_shared := AList.delete i (bu_shared b)\<rparr>)
               else Some (b\<lparr>bu_shared := AList.update i (bytes, n) (bu_shared b)\<rparr>)))"

fun ledger_remove_all :: "(nat \<times> nat) list \<Rightarrow> budget \<Rightarrow> budget option" where
  "ledger_remove_all [] b = Some b"
| "ledger_remove_all (p # rest) b =
     (case ledger_remove (fst p) b of None \<Rightarrow> None | Some b' \<Rightarrow> ledger_remove_all rest b')"

definition drop_shared :: "shared \<Rightarrow> budget \<Rightarrow> budget option" where
  "drop_shared s b =
     (case ledger_remove_all (sh_batches s) b of
        None \<Rightarrow> None
      | Some b' \<Rightarrow> release (sh_overhead s) b')"

section \<open>Sizes of rows\<close>

fun add_texts :: "(string \<Rightarrow> nat) \<Rightarrow> nat \<Rightarrow> string list \<Rightarrow> (budget_error, nat) result" where
  "add_texts cap bytes [] = Inr bytes"
| "add_texts cap bytes (t # ts) =
     (if MAX_CELL_BYTES < length t then Inl Cell_limit
      else
        (case checked_add bytes (cap t) of
           None \<Rightarrow> Inl Full
         | Some n \<Rightarrow> add_texts cap n ts))"

definition row_limit :: "nat \<Rightarrow> (budget_error, nat) result" where
  "row_limit bytes = (if MAX_ROW_BYTES < bytes then Inl Row_limit else Inr bytes)"

definition row_bytes :: "capacities \<Rightarrow> row \<Rightarrow> (budget_error, nat) result" where
  "row_bytes cap r =
     (case checked_mul (cap_cells cap r) size_of_cell of
        None \<Rightarrow> Inl Full
      | Some bytes \<Rightarrow> and_then (add_texts (cap_text cap) bytes (texts r)) row_limit)"

fun add_selected :: "nat \<Rightarrow> row \<Rightarrow> (budget_error, nat) result" where
  "add_selected bytes [] = Inr bytes"
| "add_selected bytes (v # vs) =
     (if (case v of None \<Rightarrow> False | Some t \<Rightarrow> MAX_CELL_BYTES < length t) then Inl Cell_limit
      else
        (case checked_add bytes (size_of_cell + (case v of None \<Rightarrow> 0 | Some t \<Rightarrow> length t)) of
           None \<Rightarrow> Inl Full
         | Some n \<Rightarrow> add_selected n vs))"

definition selected_row_bytes :: "row \<Rightarrow> (budget_error, nat) result" where
  "selected_row_bytes values = and_then (add_selected 0 values) row_limit"

text \<open>\<open>Lease::acquire\<close>: the metadata, the scratch list while the batches are shared, the guard.\<close>

definition lease_acquire ::
  "'c rows \<Rightarrow> budget \<Rightarrow> (budget_error, budget \<times> shared \<times> nat) result option" where
  "lease_acquire store b =
     (case budget_acquire (metadata_bytes store) b of
        Inl e \<Rightarrow> Some (Inl e)
      | Inr (b1, metadata) \<Rightarrow>
          (case budget_acquire (length (r_batches store) * size_of_pair) b1 of
             Inl e \<Rightarrow> Some (Inl e)
           | Inr (b2, scratch) \<Rightarrow>
               (case budget_share (lease_batches store) b2 of
                  Inl e \<Rightarrow> Some (Inl e)
                | Inr (b3, guard) \<Rightarrow>
                    map_option (\<lambda>b4. Inr (b4, guard, metadata)) (release scratch b3))))"

section \<open>The live objects\<close>

text \<open>
  The guards that the program holds, by identity: each allowance with its counter, each allocation
  with its owner and bytes, each guard of shared batches. An allowance is dropped when its last
  \<open>Arc\<close> is, so no allocation of it is left.
\<close>

record world =
  w_budget :: budget
  w_next :: nat
  w_allowances :: "(nat \<times> allowance) list"
  w_allocations :: "(nat \<times> nat option \<times> nat) list"
  w_guards :: "(nat \<times> shared) list"

datatype world_op =
    New_allowance nat
  | Acquire nat
  | Share "(nat \<times> nat) list"
  | Allowance_acquire nat nat
  | Drop_allocation nat
  | Drop_allowance nat
  | Drop_shared nat

definition new_world :: "nat \<Rightarrow> world" where
  "new_world limit =
     \<lparr>w_budget = budget_new limit, w_next = 0, w_allowances = [], w_allocations = [], w_guards = []\<rparr>"

fun world_step :: "world_op \<Rightarrow> world \<Rightarrow> world option" where
  "world_step (New_allowance limit) w =
     (case budget_allowance limit (w_budget w) of
        Inl _ \<Rightarrow> Some w
      | Inr (b, a) \<Rightarrow>
          Some (w\<lparr>w_budget := b, w_next := w_next w + 1,
                  w_allowances := (w_next w, a) # w_allowances w\<rparr>))"
| "world_step (Acquire bytes) w =
     (case budget_acquire bytes (w_budget w) of
        Inl _ \<Rightarrow> Some w
      | Inr (b, n) \<Rightarrow>
          Some (w\<lparr>w_budget := b, w_next := w_next w + 1,
                  w_allocations := (w_next w, None, n) # w_allocations w\<rparr>))"
| "world_step (Share batches) w =
     (case budget_share batches (w_budget w) of
        Inl _ \<Rightarrow> Some w
      | Inr (b, s) \<Rightarrow>
          Some (w\<lparr>w_budget := b, w_next := w_next w + 1,
                  w_guards := (w_next w, s) # w_guards w\<rparr>))"
| "world_step (Allowance_acquire k bytes) w =
     (case map_of (w_allowances w) k of
        None \<Rightarrow> Some w
      | Some a \<Rightarrow>
          (case allowance_acquire bytes a of
             Inl _ \<Rightarrow> Some w
           | Inr (a', n) \<Rightarrow>
               Some (w\<lparr>w_next := w_next w + 1,
                       w_allowances := AList.update k a' (w_allowances w),
                       w_allocations := (w_next w, Some k, n) # w_allocations w\<rparr>)))"
| "world_step (Drop_allocation k) w =
     (case map_of (w_allocations w) k of
        None \<Rightarrow> Some w
      | Some (None, bytes) \<Rightarrow>
          map_option (\<lambda>b. w\<lparr>w_budget := b, w_allocations := AList.delete k (w_allocations w)\<rparr>)
            (release bytes (w_budget w))
      | Some (Some j, bytes) \<Rightarrow>
          (case map_of (w_allowances w) j of
             None \<Rightarrow> None
           | Some a \<Rightarrow>
               map_option
                 (\<lambda>a'. w\<lparr>w_allowances := AList.update j a' (w_allowances w),
                         w_allocations := AList.delete k (w_allocations w)\<rparr>)
                 (drop_from_allowance bytes a)))"
| "world_step (Drop_allowance k) w =
     (case map_of (w_allowances w) k of
        None \<Rightarrow> Some w
      | Some a \<Rightarrow>
          if list_ex (\<lambda>(_, owner, _). owner = Some k) (w_allocations w) then Some w
          else
            map_option (\<lambda>b. w\<lparr>w_budget := b, w_allowances := AList.delete k (w_allowances w)\<rparr>)
              (drop_allowance a (w_budget w)))"
| "world_step (Drop_shared k) w =
     (case map_of (w_guards w) k of
        None \<Rightarrow> Some w
      | Some s \<Rightarrow>
          map_option (\<lambda>b. w\<lparr>w_budget := b, w_guards := AList.delete k (w_guards w)\<rparr>)
            (drop_shared s (w_budget w)))"

definition world_run :: "nat \<Rightarrow> world_op list \<Rightarrow> world option" where
  "world_run limit ops =
     run_from (\<lambda>op w. case w of None \<Rightarrow> None | Some v \<Rightarrow> world_step op v) (Some (new_world limit)) ops"

end
