(* ===== verification/Budget_Props.thy ===== *)
theory Budget_Props
  imports Budget
begin

text \<open>
  Conservation in the memory budget: whatever exports reserve, share and drop, in any order, the
  counter is the sum of what is alive, it stays in the limit, each shared batch is counted once,
  and no drop panics.
\<close>

abbreviation ledger_bytes :: "nat \<times> nat \<Rightarrow> nat" where
  "ledger_bytes \<equiv> \<lambda>(bytes, count). bytes + 1024"

definition guard_ids :: "shared \<Rightarrow> nat set" where
  "guard_ids s = fst ` set (sh_batches s)"

text \<open>The number of guards that hold the batch \<open>i\<close>.\<close>

definition holders :: "nat \<Rightarrow> (nat \<times> shared) list \<Rightarrow> nat" where
  "holders i guards = asum (\<lambda>s. of_bool (i \<in> guard_ids s)) guards"

definition owner_sum :: "nat option \<Rightarrow> (nat \<times> nat option \<times> nat) list \<Rightarrow> nat" where
  "owner_sum k allocations = asum (\<lambda>(owner, bytes). if owner = k then bytes else 0) allocations"

definition guards_ok :: "(nat \<times> nat \<times> nat) list \<Rightarrow> (nat \<times> shared) list \<Rightarrow> bool" where
  "guards_ok ledger guards \<longleftrightarrow>
     distinct (map fst ledger) \<and> distinct (map fst guards)
     \<and> (\<forall>k s. map_of guards k = Some s \<longrightarrow>
          distinct (map fst (sh_batches s))
          \<and> (\<forall>(i, bytes) \<in> set (sh_batches s). \<exists>count. map_of ledger i = Some (bytes, count)))
     \<and> (\<forall>i bytes count. map_of ledger i = Some (bytes, count) \<longrightarrow>
          count = holders i guards \<and> 0 < count)"

definition owned :: "(nat \<times> nat option \<times> nat) list \<Rightarrow> nat set" where
  "owned allocations = {j. \<exists>k bytes. (k, Some j, bytes) \<in> set allocations}"

definition allowances_ok :: "(nat \<times> allowance) list \<Rightarrow> (nat \<times> nat option \<times> nat) list \<Rightarrow> bool" where
  "allowances_ok allowances allocations \<longleftrightarrow>
     distinct (map fst allowances) \<and> distinct (map fst allocations)
     \<and> (\<forall>k a. map_of allowances k = Some a \<longrightarrow>
          aw_used a = owner_sum (Some k) allocations
          \<and> owner_sum (Some k) allocations \<le> aw_limit a)
     \<and> owned allocations \<subseteq> fst ` set allowances"

definition ids_ok :: "world \<Rightarrow> bool" where
  "ids_ok w \<longleftrightarrow>
     (\<forall>k. k \<in> fst ` set (w_allowances w) \<or> k \<in> fst ` set (w_allocations w)
        \<or> k \<in> fst ` set (w_guards w) \<longrightarrow> k < w_next w)"

definition live_bytes :: "world \<Rightarrow> nat" where
  "live_bytes w =
     asum aw_limit (w_allowances w) + owner_sum None (w_allocations w)
     + asum sh_overhead (w_guards w) + asum ledger_bytes (bu_shared (w_budget w))"

definition conserved :: "world \<Rightarrow> bool" where
  "conserved w \<longleftrightarrow>
     bu_used (w_budget w) = live_bytes w \<and> live_bytes w \<le> bu_limit (w_budget w)"

definition world_ok :: "world \<Rightarrow> bool" where
  "world_ok w \<longleftrightarrow>
     ids_ok w \<and> conserved w \<and> allowances_ok (w_allowances w) (w_allocations w)
     \<and> guards_ok (bu_shared (w_budget w)) (w_guards w)"

section \<open>Sharing batches\<close>

lemma dedup_ids_spec:
  assumes "sorted (map fst ps)"
  shows "distinct (map fst (dedup_ids ps)) \<and> set (dedup_ids ps) \<subseteq> set ps
       \<and> fst ` set (dedup_ids ps) = fst ` set ps \<and> sorted (map fst (dedup_ids ps))"
  using assms
proof (induction ps rule: dedup_ids.induct)
  case (3 p q rest)
  show ?case
  proof (cases "fst p = fst q")
    case True
    with 3 show ?thesis by auto
  next
    case False
    with 3(2,3) have IH: "distinct (map fst (dedup_ids (q # rest)))"
      "set (dedup_ids (q # rest)) \<subseteq> set (q # rest)"
      "fst ` set (dedup_ids (q # rest)) = fst ` set (q # rest)"
      "sorted (map fst (dedup_ids (q # rest)))" by simp_all
    have "\<forall>r \<in> set (q # rest). fst p < fst r"
      using 3(3) False by (auto simp: order.strict_iff_order)
    with False IH show ?thesis by (auto simp: less_imp_le)
  qed
qed simp_all

lemma share_additional_cong:
  "(\<And>p. p \<in> set ps \<Longrightarrow> map_of L (fst p) = map_of M (fst p)) \<Longrightarrow>
     share_additional L acc ps = share_additional M acc ps"
proof (induction ps arbitrary: acc)
  case (Cons p ps)
  obtain i b where p: "p = (i, b)" by fastforce
  have "map_of L i = map_of M i" using Cons.prems [of p] p by simp
  moreover have "share_additional L acc' ps = share_additional M acc' ps" for acc'
    using Cons by simp
  ultimately show ?case by (simp add: p split: option.split)
qed simp

lemma map_of_ledger_add:
  "map_of (ledger_add p L) i =
     (if i = fst p then
        Some (case map_of L i of None \<Rightarrow> (snd p, 1) | Some (bytes, count) \<Rightarrow> (bytes, count + 1))
      else map_of L i)"
  by (auto simp: ledger_add_def update_conv' split: option.split)

lemma distinct_ledger_add: "distinct (map fst L) \<Longrightarrow> distinct (map fst (ledger_add p L))"
  by (auto simp: ledger_add_def distinct_update split: option.split)

lemma ledger_add_bytes:
  "asum ledger_bytes (ledger_add p L) =
     asum ledger_bytes L + (if map_of L (fst p) = None then snd p + 1024 else 0)"
proof (cases "map_of L (fst p)")
  case None
  then show ?thesis by (simp add: ledger_add_def asum_update_new)
next
  case (Some v)
  obtain b c where v: "v = (b, c)" by fastforce
  with Some asum_update [OF Some, of ledger_bytes "(b, c + 1)"] show ?thesis
    by (simp add: ledger_add_def)
qed

lemma ledger_add_all:
  assumes "share_additional L acc ps = Inr additional" "distinct (map fst ps)" "distinct (map fst L)"
  shows "distinct (map fst (fold ledger_add ps L))
       \<and> asum ledger_bytes (fold ledger_add ps L) + acc = asum ledger_bytes L + additional
       \<and> (\<forall>i. i \<notin> fst ` set ps \<longrightarrow> map_of (fold ledger_add ps L) i = map_of L i)
       \<and> (\<forall>(i, bytes) \<in> set ps. map_of (fold ledger_add ps L) i =
            Some (bytes, (case map_of L i of None \<Rightarrow> 0 | Some (_, count) \<Rightarrow> count) + 1))"
  using assms
proof (induction ps arbitrary: L acc)
  case (Cons p ps)
  obtain i b where p: "p = (i, b)" by fastforce
  let ?L = "ledger_add p L"
  from Cons.prems(2) p have i: "i \<notin> fst ` set ps" by auto
  have same: "share_additional ?L acc' ps = share_additional L acc' ps" for acc'
    using i p by (intro share_additional_cong) (auto simp: map_of_ledger_add image_iff)
  obtain acc' where rest: "share_additional L acc' ps = Inr additional"
    and acc: "acc' = acc + (if map_of L i = None then b + 1024 else 0)"
    and b: "\<And>b' c. map_of L i = Some (b', c) \<Longrightarrow> b' = b"
    using Cons.prems(1) p
    by (auto simp: checked_add_Some_iff add.assoc split: option.splits if_splits prod.splits)
  have psd: "distinct (map fst ps)" using Cons.prems(2) by simp
  from Cons.IH [OF rest [folded same] psd distinct_ledger_add [OF Cons.prems(3)]]
  have IH: "distinct (map fst (fold ledger_add ps ?L))"
    "asum ledger_bytes (fold ledger_add ps ?L) + acc' = asum ledger_bytes ?L + additional"
    "\<forall>i. i \<notin> fst ` set ps \<longrightarrow> map_of (fold ledger_add ps ?L) i = map_of ?L i"
    "\<forall>(i, bytes) \<in> set ps. map_of (fold ledger_add ps ?L) i =
        Some (bytes, (case map_of ?L i of None \<Rightarrow> 0 | Some (_, count) \<Rightarrow> count) + 1)"
    by blast+
  have "asum ledger_bytes (fold ledger_add ps ?L) + acc = asum ledger_bytes L + additional"
    using IH(2) ledger_add_bytes [of p L] acc p by (auto split: if_splits)
  moreover have "map_of (fold ledger_add ps ?L) j = map_of L j" if "j \<notin> fst ` set (p # ps)" for j
    using IH(3) that p by (simp add: map_of_ledger_add)
  moreover have "map_of (fold ledger_add ps ?L) i =
      Some (b, (case map_of L i of None \<Rightarrow> 0 | Some (_, count) \<Rightarrow> count) + 1)"
    using IH(3) i b p by (auto simp: map_of_ledger_add split: option.split)
  moreover have "map_of (fold ledger_add ps ?L) j =
      Some (bytes, (case map_of L j of None \<Rightarrow> 0 | Some (_, count) \<Rightarrow> count) + 1)"
    if "(j, bytes) \<in> set ps" for j bytes
  proof -
    from that i have "j \<noteq> i" by force
    with IH(4) that p show ?thesis by (fastforce simp: map_of_ledger_add)
  qed
  ultimately show ?case using IH(1) p by auto
qed simp

lemma guards_ok_share:
  assumes ok: "guards_ok L G" and k: "k \<notin> fst ` set G"
    and add: "share_additional L acc ps = Inr additional" and ps: "distinct (map fst ps)"
    and s: "sh_batches s = ps"
  shows "guards_ok (fold ledger_add ps L) ((k, s) # G)"
proof -
  let ?L = "fold ledger_add ps L"
  from ok have L: "distinct (map fst L)" "distinct (map fst G)" by (simp_all add: guards_ok_def)
  from ledger_add_all [OF add ps L(1)] have L': "distinct (map fst ?L)"
    "\<And>i. i \<notin> fst ` set ps \<Longrightarrow> map_of ?L i = map_of L i"
    "\<And>i bytes. (i, bytes) \<in> set ps \<Longrightarrow> map_of ?L i =
            Some (bytes, (case map_of L i of None \<Rightarrow> 0 | Some (_, count) \<Rightarrow> count) + 1)"
    by auto
  have keep: "\<exists>count. map_of ?L i = Some (bytes, count)" if "map_of L i = Some (bytes, c)" for i bytes c
  proof (cases "i \<in> fst ` set ps")
    case True
    then obtain b where b: "(i, b) \<in> set ps" by auto
    have "share_additional L acc ps = Inr additional \<Longrightarrow> (i, b) \<in> set ps \<Longrightarrow> bytes = b" for acc
      using that by (induction ps arbitrary: acc) (auto split: option.splits if_splits)
    with add b have "bytes = b" by blast
    with L'(3) [OF b] show ?thesis by simp
  qed (use that L'(2) in auto)
  have "count = holders i ((k, s) # G) \<and> 0 < count" if "map_of ?L i = Some (bytes, count)" for i bytes count
  proof (cases "i \<in> fst ` set ps")
    case True
    then obtain b where b: "(i, b) \<in> set ps" by auto
    have "(case map_of L i of None \<Rightarrow> 0 | Some (_, count) \<Rightarrow> count) = holders i G"
    proof (cases "map_of L i")
      case None
      then have "i \<notin> guard_ids t" if "(j, t) \<in> set G" for j t
      proof -
        from that L have "map_of G j = Some t" by simp
        with ok None show ?thesis unfolding guards_ok_def guard_ids_def by fastforce
      qed
      then have "holders i G = 0" unfolding holders_def asum_zero by auto
      with None show ?thesis by simp
    next
      case (Some v)
      with ok show ?thesis by (cases v) (auto simp: guards_ok_def)
    qed
    with L'(3) [OF b] that True s show ?thesis by (auto simp: holders_def guard_ids_def)
  next
    case False
    with that L'(2) ok s show ?thesis by (auto simp: guards_ok_def holders_def guard_ids_def)
  qed
  moreover have "distinct (map fst (sh_batches t))
      \<and> (\<forall>(i, bytes) \<in> set (sh_batches t). \<exists>count. map_of ?L i = Some (bytes, count))"
    if "map_of ((k, s) # G) j = Some t" for j t
  proof (cases "j = k")
    case True
    with that s ps L'(3) show ?thesis by auto
  next
    case False
    with that have "map_of G j = Some t" by simp
    with ok keep show ?thesis unfolding guards_ok_def by fastforce
  qed
  ultimately show ?thesis using L'(1) L(2) k unfolding guards_ok_def by auto
qed

section \<open>Dropping a guard\<close>

lemma ledger_remove_spec:
  assumes L: "distinct (map fst (bu_shared b))" and i: "map_of (bu_shared b) i = Some (bytes, count)"
    and c: "0 < count" and used: "asum ledger_bytes (bu_shared b) \<le> bu_used b"
  shows "\<exists>b'. ledger_remove i b = Some b' \<and> bu_limit b' = bu_limit b
       \<and> distinct (map fst (bu_shared b'))
       \<and> bu_used b' + asum ledger_bytes (bu_shared b) = bu_used b + asum ledger_bytes (bu_shared b')
       \<and> asum ledger_bytes (bu_shared b') \<le> bu_used b' \<and> bu_used b' \<le> bu_used b
       \<and> map_of (bu_shared b') = (map_of (bu_shared b))
            (i := (if count = 1 then None else Some (bytes, count - 1)))"
proof (cases "count = 1")
  case True
  have "asum ledger_bytes (bu_shared b) = bytes + 1024 + asum ledger_bytes (AList.delete i (bu_shared b))"
    using asum_delete [OF L i, of ledger_bytes] by simp
  with True used i L show ?thesis
    by (simp add: ledger_remove_def release_def checked_sub_def distinct_delete delete_conv')
next
  case False
  have "asum ledger_bytes (AList.update i (bytes, count - 1) (bu_shared b)) = asum ledger_bytes (bu_shared b)"
    using asum_update [OF i, of ledger_bytes "(bytes, count - 1)"] by simp
  with False used i L c show ?thesis
    by (simp add: ledger_remove_def checked_sub_def distinct_update update_conv')
qed

lemma ledger_remove_all_spec:
  assumes "distinct (map fst ps)" "distinct (map fst (bu_shared b))"
    and "\<forall>(i, bytes) \<in> set ps. \<exists>count. map_of (bu_shared b) i = Some (bytes, count) \<and> 0 < count"
    and "asum ledger_bytes (bu_shared b) \<le> bu_used b"
  shows "\<exists>b'. ledger_remove_all ps b = Some b' \<and> bu_limit b' = bu_limit b
       \<and> distinct (map fst (bu_shared b'))
       \<and> bu_used b' + asum ledger_bytes (bu_shared b) = bu_used b + asum ledger_bytes (bu_shared b')
       \<and> asum ledger_bytes (bu_shared b') \<le> bu_used b' \<and> bu_used b' \<le> bu_used b
       \<and> (\<forall>i. map_of (bu_shared b') i =
            (if i \<in> fst ` set ps then
               (case map_of (bu_shared b) i of None \<Rightarrow> None
                | Some (bytes, count) \<Rightarrow> if count = 1 then None else Some (bytes, count - 1))
             else map_of (bu_shared b) i))"
  using assms
proof (induction ps arbitrary: b)
  case Nil
  then show ?case by simp
next
  case (Cons p ps)
  obtain i bytes where p: "p = (i, bytes)" by fastforce
  from Cons.prems(3) p obtain count where i: "map_of (bu_shared b) i = Some (bytes, count)" "0 < count"
    by auto
  from ledger_remove_spec [OF Cons.prems(2) i Cons.prems(4)] obtain b1 where
    b1: "ledger_remove i b = Some b1" "bu_limit b1 = bu_limit b" "distinct (map fst (bu_shared b1))"
      "bu_used b1 + asum ledger_bytes (bu_shared b) = bu_used b + asum ledger_bytes (bu_shared b1)"
      "asum ledger_bytes (bu_shared b1) \<le> bu_used b1 \<and> bu_used b1 \<le> bu_used b"
      "map_of (bu_shared b1) = (map_of (bu_shared b))
            (i := (if count = 1 then None else Some (bytes, count - 1)))" by blast
  have other: "i \<notin> fst ` set ps" "distinct (map fst ps)" using Cons.prems(1) p by auto
  have pre: "\<forall>(j, b) \<in> set ps. \<exists>count. map_of (bu_shared b1) j = Some (b, count) \<and> 0 < count"
  proof clarify
    fix j c assume j: "(j, c) \<in> set ps"
    with other(1) have "j \<noteq> i" by force
    with j Cons.prems(3) show "\<exists>count. map_of (bu_shared b1) j = Some (c, count) \<and> 0 < count"
      unfolding b1(6) by auto
  qed
  from Cons.IH [OF other(2) b1(3) pre b1(5) [THEN conjunct1]] obtain b' where
    b': "ledger_remove_all ps b1 = Some b'" "bu_limit b' = bu_limit b1" "distinct (map fst (bu_shared b'))"
      "bu_used b' + asum ledger_bytes (bu_shared b1) = bu_used b1 + asum ledger_bytes (bu_shared b')"
      "asum ledger_bytes (bu_shared b') \<le> bu_used b' \<and> bu_used b' \<le> bu_used b1"
      "\<forall>i. map_of (bu_shared b') i =
            (if i \<in> fst ` set ps then
               (case map_of (bu_shared b1) i of None \<Rightarrow> None
                | Some (bytes, count) \<Rightarrow> if count = 1 then None else Some (bytes, count - 1))
             else map_of (bu_shared b1) i)" by blast
  have "map_of (bu_shared b') j =
      (if j \<in> fst ` set (p # ps) then
         (case map_of (bu_shared b) j of None \<Rightarrow> None
          | Some (bytes, count) \<Rightarrow> if count = 1 then None else Some (bytes, count - 1))
       else map_of (bu_shared b) j)" for j
  proof (cases "j = i")
    case True
    then have "map_of (bu_shared b') j = map_of (bu_shared b1) i" using b'(6) other(1) by metis
    with True i p show ?thesis unfolding b1(6) by simp
  next
    case False
    then have "map_of (bu_shared b1) j = map_of (bu_shared b) j" unfolding b1(6) by simp
    with False b'(6) p show ?thesis by simp
  qed
  moreover have "ledger_remove_all (p # ps) b = Some b'" using b1(1) b'(1) p by simp
  moreover have "bu_limit b' = bu_limit b" using b1(2) b'(2) by simp
  moreover have "bu_used b' + asum ledger_bytes (bu_shared b)
      = bu_used b + asum ledger_bytes (bu_shared b')"
    using b1(4) b'(4) by linarith
  moreover have "bu_used b' \<le> bu_used b" using b1(5) b'(5) by linarith
  ultimately show ?case using b'(3,5) by blast
qed

lemma guards_ok_drop:
  assumes ok: "guards_ok (bu_shared b) G" and k: "map_of G k = Some s"
    and used: "asum ledger_bytes (bu_shared b) + sh_overhead s \<le> bu_used b"
  shows "\<exists>b'. drop_shared s b = Some b' \<and> guards_ok (bu_shared b') (AList.delete k G)
       \<and> bu_limit b' = bu_limit b
       \<and> bu_used b' + sh_overhead s + asum ledger_bytes (bu_shared b) = bu_used b + asum ledger_bytes (bu_shared b')
       \<and> bu_used b' \<le> bu_used b"
proof -
  let ?ps = "sh_batches s" and ?G = "AList.delete k G"
  from ok k have s: "distinct (map fst ?ps)" "distinct (map fst (bu_shared b))" "distinct (map fst G)"
    "\<forall>(i, bytes) \<in> set ?ps. \<exists>count. map_of (bu_shared b) i = Some (bytes, count) \<and> 0 < count"
    unfolding guards_ok_def by (blast, blast, blast, fastforce)
  have "asum ledger_bytes (bu_shared b) \<le> bu_used b" using used by simp
  from ledger_remove_all_spec [OF s(1,2,4) this] obtain b1 where
    b1: "ledger_remove_all ?ps b = Some b1" "bu_limit b1 = bu_limit b" "distinct (map fst (bu_shared b1))"
      "bu_used b1 + asum ledger_bytes (bu_shared b) = bu_used b + asum ledger_bytes (bu_shared b1)"
      "asum ledger_bytes (bu_shared b1) \<le> bu_used b1 \<and> bu_used b1 \<le> bu_used b"
      "\<And>i. map_of (bu_shared b1) i =
            (if i \<in> fst ` set ?ps then
               (case map_of (bu_shared b) i of None \<Rightarrow> None
                | Some (bytes, count) \<Rightarrow> if count = 1 then None else Some (bytes, count - 1))
             else map_of (bu_shared b) i)" by blast
  have over: "sh_overhead s \<le> bu_used b1" using b1(4) used by linarith
  define b' where "b' = b1\<lparr>bu_used := bu_used b1 - sh_overhead s\<rparr>"
  have drop: "drop_shared s b = Some b'"
    using b1(1) over by (simp add: drop_shared_def release_def checked_sub_def b'_def)
  have holders: "holders i G = of_bool (i \<in> guard_ids s) + holders i ?G" for i
    unfolding holders_def using asum_delete [OF s(3) k] by blast
  have "count = holders i ?G \<and> 0 < count" if m: "map_of (bu_shared b1) i = Some (bytes, count)" for i bytes count
  proof (cases "i \<in> fst ` set ?ps")
    case True
    obtain n where n: "map_of (bu_shared b) i = Some (bytes, n)" "count = n - 1" "n \<noteq> 1"
    proof -
      have "Some (bytes, count) = (case map_of (bu_shared b) i of None \<Rightarrow> None
          | Some (bytes, count) \<Rightarrow> if count = 1 then None else Some (bytes, count - 1))"
        using m b1(6) [of i] True by simp
      then show thesis using that by (auto split: option.splits if_splits)
    qed
    with ok have "n = holders i G \<and> 0 < n" by (auto simp: guards_ok_def)
    with n True holders [of i] show ?thesis by (simp add: guard_ids_def)
  next
    case False
    with m b1(6) have "map_of (bu_shared b) i = Some (bytes, count)" by simp
    with ok have "count = holders i G \<and> 0 < count" by (auto simp: guards_ok_def)
    with False holders [of i] show ?thesis by (simp add: guard_ids_def)
  qed
  moreover have "distinct (map fst (sh_batches t))
      \<and> (\<forall>(i, bytes) \<in> set (sh_batches t). \<exists>count. map_of (bu_shared b1) i = Some (bytes, count))"
    if t: "map_of ?G j = Some t" for j t
  proof -
    from t have j: "j \<noteq> k" "map_of G j = Some t" by (auto simp: delete_conv' split: if_splits)
    with ok have td: "distinct (map fst (sh_batches t))"
      "\<forall>(i, bytes) \<in> set (sh_batches t). \<exists>count. map_of (bu_shared b) i = Some (bytes, count)"
      unfolding guards_ok_def by blast+
    have "\<exists>count. map_of (bu_shared b1) i = Some (bytes, count)" if i: "(i, bytes) \<in> set (sh_batches t)" for i bytes
    proof -
      from i td obtain n where n: "map_of (bu_shared b) i = Some (bytes, n)" by blast
      show ?thesis
      proof (cases "i \<in> fst ` set ?ps")
        case True
        from i have "i \<in> guard_ids t" by (force simp: guard_ids_def)
        then have "1 \<le> holders i ?G"
          unfolding holders_def using asum_member [OF t, of "\<lambda>s. of_bool (i \<in> guard_ids s)"] by simp
        moreover have "n = holders i G" using ok n by (auto simp: guards_ok_def)
        ultimately have "n \<noteq> 1" using holders [of i] True by (simp add: guard_ids_def)
        with True n b1(6) show ?thesis by simp
      qed (use n b1(6) in simp)
    qed
    with td(1) show ?thesis by blast
  qed
  ultimately have "guards_ok (bu_shared b') ?G"
    using b1(3) s(3) unfolding guards_ok_def b'_def by (simp add: distinct_delete)
  moreover have "bu_used b' \<le> bu_used b" using b1(5) unfolding b'_def by auto
  ultimately show ?thesis using drop b1(2,4) over by (simp add: b'_def)
qed

section \<open>Allowances\<close>

lemma owner_sum_Cons [simp]:
  "owner_sum k ((i, owner, bytes) # xs) = (if owner = k then bytes else 0) + owner_sum k xs"
  by (simp add: owner_sum_def)

lemma owner_sum_delete:
  assumes "distinct (map fst xs)" "map_of xs i = Some (owner, bytes)"
  shows "owner_sum k xs = (if owner = k then bytes else 0) + owner_sum k (AList.delete i xs)"
  unfolding owner_sum_def using asum_delete [OF assms] by simp

lemma owned_simps [simp]:
  "owned ((k, None, bytes) # X) = owned X"
  "owned ((k, Some j, bytes) # X) = insert j (owned X)"
  by (auto simp: owned_def)

lemma owned_delete: "owned (AList.delete k X) \<subseteq> owned X"
  by (auto simp: owned_def set_delete)

lemma allowances_ok_new:
  assumes ok: "allowances_ok A X" and k: "k \<notin> fst ` set A"
  shows "allowances_ok ((k, \<lparr>aw_limit = limit, aw_used = 0\<rparr>) # A) X"
proof -
  from ok k have "k \<notin> owned X" unfolding allowances_ok_def by blast
  then have "owner_sum (Some k) X = 0" unfolding owner_sum_def asum_zero owned_def by auto
  with ok k show ?thesis unfolding allowances_ok_def by auto
qed

lemma allowances_ok_global:
  "allowances_ok A X \<Longrightarrow> k \<notin> fst ` set X \<Longrightarrow> allowances_ok A ((k, None, bytes) # X)"
  unfolding allowances_ok_def by simp

lemma allowances_ok_acquire:
  assumes ok: "allowances_ok A X" and k: "k \<notin> fst ` set X" and a: "map_of A j = Some a"
    and fits: "aw_used a + bytes \<le> aw_limit a"
  shows "allowances_ok (AList.update j (a\<lparr>aw_used := aw_used a + bytes\<rparr>) A) ((k, Some j, bytes) # X)"
  using assms unfolding allowances_ok_def by (auto simp: update_conv' distinct_update)

lemma allowances_ok_delete_global:
  assumes ok: "allowances_ok A X" and k: "map_of X k = Some (None, bytes)"
  shows "allowances_ok A (AList.delete k X)"
proof -
  from ok have X: "distinct (map fst X)" by (simp add: allowances_ok_def)
  have "owner_sum (Some j) (AList.delete k X) = owner_sum (Some j) X" for j
    using owner_sum_delete [OF X k, of "Some j"] by simp
  moreover have "owned (AList.delete k X) \<subseteq> fst ` set A"
    using ok owned_delete [of k X] unfolding allowances_ok_def by blast
  ultimately show ?thesis
    using ok unfolding allowances_ok_def by (simp add: distinct_delete)
qed

lemma allowances_ok_delete:
  assumes ok: "allowances_ok A X" and k: "map_of X k = Some (Some j, bytes)" and a: "map_of A j = Some a"
  shows "bytes \<le> aw_used a
    \<and> allowances_ok (AList.update j (a\<lparr>aw_used := aw_used a - bytes\<rparr>) A) (AList.delete k X)"
proof -
  from ok have X: "distinct (map fst X)" and A: "distinct (map fst A)"
    by (simp_all add: allowances_ok_def)
  have sum: "owner_sum (Some i) X = (if i = j then bytes else 0) + owner_sum (Some i) (AList.delete k X)" for i
    using owner_sum_delete [OF X k, of "Some i"] by auto
  from ok a have used: "aw_used a = owner_sum (Some j) X" "owner_sum (Some j) X \<le> aw_limit a"
    by (auto simp: allowances_ok_def)
  have sums: "aw_used c = owner_sum (Some i) (AList.delete k X) \<and> owner_sum (Some i) (AList.delete k X) \<le> aw_limit c"
    if c: "map_of (AList.update j (a\<lparr>aw_used := aw_used a - bytes\<rparr>) A) i = Some c" for i c
  proof (cases "i = j")
    case True
    with c have "c = a\<lparr>aw_used := aw_used a - bytes\<rparr>" by (simp add: update_conv')
    with True used sum [of j] show ?thesis by simp
  next
    case False
    with c have "map_of A i = Some c" by (simp add: update_conv')
    with ok have "aw_used c = owner_sum (Some i) X \<and> owner_sum (Some i) X \<le> aw_limit c"
      unfolding allowances_ok_def by blast
    with False sum [of i] show ?thesis by simp
  qed
  have "owned (AList.delete k X) \<subseteq> fst ` set A"
    using ok owned_delete [of k X] unfolding allowances_ok_def by blast
  then have "owned (AList.delete k X) \<subseteq> fst ` set (AList.update j (a\<lparr>aw_used := aw_used a - bytes\<rparr>) A)"
    by auto
  with sums distinct_update [OF A] distinct_delete [OF X]
  have "allowances_ok (AList.update j (a\<lparr>aw_used := aw_used a - bytes\<rparr>) A) (AList.delete k X)"
    unfolding allowances_ok_def by blast
  moreover have "bytes \<le> aw_used a" using used(1) sum [of j] by simp
  ultimately show ?thesis by blast
qed

lemma allowances_ok_drop:
  assumes ok: "allowances_ok A X" and free: "k \<notin> owned X"
  shows "allowances_ok (AList.delete k A) X"
  using assms unfolding allowances_ok_def
  by (auto simp: distinct_delete delete_conv' split: if_splits)

section \<open>Every operation keeps the invariant\<close>

lemma budget_share_Inr:
  assumes "budget_share batches b = Inr (b', s)"
  obtains additional where
    "share_additional (bu_shared b) (sh_overhead s) (sh_batches s) = Inr additional"
    "distinct (map fst (sh_batches s))" "additional \<le> bu_limit b - bu_used b"
    "b' = b\<lparr>bu_shared := fold ledger_add (sh_batches s) (bu_shared b), bu_used := bu_used b + additional\<rparr>"
proof -
  have "distinct (map fst (dedup_ids (sort_key fst batches)))"
    using dedup_ids_spec [of "sort_key fst batches"] by simp
  then show thesis
    using assms that unfolding budget_share_def Let_def
    by (auto split: option.splits if_splits sum.splits)
qed

lemma world_ok_new: "world_ok (new_world limit)"
  by (simp add: world_ok_def new_world_def ids_ok_def conserved_def live_bytes_def allowances_ok_def
      guards_ok_def owner_sum_def budget_new_def owned_def)

lemma fresh_id:
  "ids_ok w \<Longrightarrow> w_next w \<notin> fst ` set (w_allowances w) \<and> w_next w \<notin> fst ` set (w_allocations w)
     \<and> w_next w \<notin> fst ` set (w_guards w)"
  unfolding ids_ok_def by blast

lemma world_okD:
  assumes "world_ok w"
  shows "ids_ok w" "bu_used (w_budget w) = live_bytes w" "live_bytes w \<le> bu_limit (w_budget w)"
    "allowances_ok (w_allowances w) (w_allocations w)"
    "guards_ok (bu_shared (w_budget w)) (w_guards w)"
    "distinct (map fst (w_allowances w))" "distinct (map fst (w_allocations w))"
    "distinct (map fst (w_guards w))" "distinct (map fst (bu_shared (w_budget w)))"
  using assms unfolding world_ok_def conserved_def allowances_ok_def guards_ok_def by blast+

lemma step_new_allowance:
  assumes ok: "world_ok w"
  shows "\<exists>w'. world_step (New_allowance limit) w = Some w' \<and> world_ok w'"
proof (cases "bu_limit (w_budget w) - bu_used (w_budget w) < limit")
  case True
  with ok show ?thesis by (simp add: budget_allowance_def)
next
  case False
  note fresh = fresh_id [OF world_okD(1) [OF ok]]
  let ?w = "w\<lparr>w_budget := (w_budget w)\<lparr>bu_used := bu_used (w_budget w) + limit\<rparr>, w_next := w_next w + 1,
      w_allowances := (w_next w, \<lparr>aw_limit = limit, aw_used = 0\<rparr>) # w_allowances w\<rparr>"
  have "conserved ?w"
    using world_okD(2,3) [OF ok] False by (simp add: conserved_def live_bytes_def)
  moreover have "ids_ok ?w" using world_okD(1) [OF ok] by (auto simp: ids_ok_def less_Suc_eq)
  ultimately have "world_ok ?w"
    using world_okD(5) [OF ok] allowances_ok_new [OF world_okD(4) [OF ok]] fresh
    by (simp add: world_ok_def)
  with False show ?thesis by (simp add: budget_allowance_def)
qed

lemma step_acquire:
  assumes ok: "world_ok w"
  shows "\<exists>w'. world_step (Acquire bytes) w = Some w' \<and> world_ok w'"
proof (cases "bu_limit (w_budget w) - bu_used (w_budget w) < bytes")
  case True
  with ok show ?thesis by (simp add: budget_acquire_def)
next
  case False
  note fresh = fresh_id [OF world_okD(1) [OF ok]]
  let ?w = "w\<lparr>w_budget := (w_budget w)\<lparr>bu_used := bu_used (w_budget w) + bytes\<rparr>, w_next := w_next w + 1,
      w_allocations := (w_next w, None, bytes) # w_allocations w\<rparr>"
  have "conserved ?w"
    using world_okD(2,3) [OF ok] False by (simp add: conserved_def live_bytes_def)
  moreover have "ids_ok ?w" using world_okD(1) [OF ok] by (auto simp: ids_ok_def less_Suc_eq)
  ultimately have "world_ok ?w"
    using world_okD(5) [OF ok] allowances_ok_global [OF world_okD(4) [OF ok]] fresh
    by (simp add: world_ok_def)
  with False show ?thesis by (simp add: budget_acquire_def)
qed

lemma step_share:
  assumes ok: "world_ok w"
  shows "\<exists>w'. world_step (Share batches) w = Some w' \<and> world_ok w'"
proof (cases "budget_share batches (w_budget w)")
  case (Inl e)
  with ok show ?thesis by simp
next
  case (Inr r)
  obtain b s where r: "r = (b, s)" by fastforce
  let ?w = "w\<lparr>w_budget := b, w_next := w_next w + 1, w_guards := (w_next w, s) # w_guards w\<rparr>"
  note fresh = fresh_id [OF world_okD(1) [OF ok]]
  from Inr r obtain additional where
    add: "share_additional (bu_shared (w_budget w)) (sh_overhead s) (sh_batches s) = Inr additional"
    and s: "distinct (map fst (sh_batches s))"
    and fits: "additional \<le> bu_limit (w_budget w) - bu_used (w_budget w)"
    and b: "b = (w_budget w)\<lparr>bu_shared := fold ledger_add (sh_batches s) (bu_shared (w_budget w)),
                             bu_used := bu_used (w_budget w) + additional\<rparr>"
    by (auto elim: budget_share_Inr)
  from ledger_add_all [OF add s world_okD(9) [OF ok]]
  have ledger: "asum ledger_bytes (bu_shared b) + sh_overhead s
      = asum ledger_bytes (bu_shared (w_budget w)) + additional"
    using b by simp
  have "bu_used b = bu_used (w_budget w) + additional" "bu_limit b = bu_limit (w_budget w)"
    by (simp_all add: b)
  moreover have "live_bytes ?w = live_bytes w + additional"
    using ledger by (simp add: live_bytes_def)
  ultimately have "conserved ?w"
    using world_okD(2,3) [OF ok] fits by (simp add: conserved_def)
  moreover have "guards_ok (bu_shared b) ((w_next w, s) # w_guards w)"
    using guards_ok_share [OF world_okD(5) [OF ok] _ add s refl] fresh b by simp
  moreover have "ids_ok ?w" using world_okD(1) [OF ok] by (auto simp: ids_ok_def less_Suc_eq)
  ultimately have "world_ok ?w" using world_okD(4) [OF ok] by (simp add: world_ok_def)
  with Inr r show ?thesis by simp
qed

lemma step_allowance_acquire:
  assumes ok: "world_ok w"
  shows "\<exists>w'. world_step (Allowance_acquire k bytes) w = Some w' \<and> world_ok w'"
proof (cases "map_of (w_allowances w) k")
  case None
  with ok show ?thesis by simp
next
  case (Some a)
  note fresh = fresh_id [OF world_okD(1) [OF ok]]
  show ?thesis
  proof (cases "aw_limit a - aw_used a < bytes")
    case True
    with ok Some show ?thesis by (simp add: allowance_acquire_def)
  next
    case False
    let ?a = "a\<lparr>aw_used := aw_used a + bytes\<rparr>"
    let ?w = "w\<lparr>w_next := w_next w + 1, w_allowances := AList.update k ?a (w_allowances w),
        w_allocations := (w_next w, Some k, bytes) # w_allocations w\<rparr>"
    from world_okD(4) [OF ok] Some have "aw_used a \<le> aw_limit a" by (auto simp: allowances_ok_def)
    with False have fits: "aw_used a + bytes \<le> aw_limit a" by simp
    have "live_bytes ?w = live_bytes w"
      using asum_update [OF Some, of aw_limit ?a] by (simp add: live_bytes_def)
    then have "conserved ?w" using world_okD(2,3) [OF ok] by (simp add: conserved_def)
    moreover have "k < w_next w"
      using world_okD(1) [OF ok] map_of_SomeD [OF Some] by (force simp: ids_ok_def)
    then have "ids_ok ?w" using world_okD(1) [OF ok] by (auto simp: ids_ok_def less_Suc_eq)
    ultimately have "world_ok ?w"
      using world_okD(5) [OF ok] allowances_ok_acquire [OF world_okD(4) [OF ok] _ Some fits] fresh
      by (simp add: world_ok_def)
    with Some False show ?thesis by (simp add: allowance_acquire_def)
  qed
qed

lemma step_drop_allocation:
  assumes ok: "world_ok w"
  shows "\<exists>w'. world_step (Drop_allocation k) w = Some w' \<and> world_ok w'"
proof (cases "map_of (w_allocations w) k")
  case None
  with ok show ?thesis by simp
next
  case (Some v)
  obtain owner bytes where v: "v = (owner, bytes)" by fastforce
  note sum = owner_sum_delete [OF world_okD(7) [OF ok] Some [unfolded v], of None]
  have ids: "ids_ok (w\<lparr>w_allocations := AList.delete k (w_allocations w)\<rparr>)"
    using world_okD(1) [OF ok] by (simp add: ids_ok_def)
  show ?thesis
  proof (cases owner)
    case None
    let ?w = "w\<lparr>w_budget := (w_budget w)\<lparr>bu_used := bu_used (w_budget w) - bytes\<rparr>,
        w_allocations := AList.delete k (w_allocations w)\<rparr>"
    have live: "live_bytes w = live_bytes ?w + bytes"
      using sum None by (simp add: live_bytes_def)
    then have fits: "bytes \<le> bu_used (w_budget w)" using world_okD(2) [OF ok] by simp
    have "conserved ?w"
      using live world_okD(2,3) [OF ok] by (simp add: conserved_def)
    moreover have "allowances_ok (w_allowances w) (AList.delete k (w_allocations w))"
      using allowances_ok_delete_global [OF world_okD(4) [OF ok]] Some v None by simp
    ultimately have "world_ok ?w"
      using world_okD(5) [OF ok] ids by (simp add: world_ok_def ids_ok_def)
    with Some v None fits show ?thesis by (simp add: release_def checked_sub_def)
  next
    case (Some j)
    from \<open>map_of (w_allocations w) k = Some v\<close> v Some have "(k, Some j, bytes) \<in> set (w_allocations w)" by (simp add: map_of_SomeD)
    then have "j \<in> owned (w_allocations w)" by (auto simp: owned_def)
    then have "j \<in> fst ` set (w_allowances w)"
      using world_okD(4) [OF ok] unfolding allowances_ok_def by blast
    then obtain a where a: "map_of (w_allowances w) j = Some a"
      by (metis domD dom_map_of_conv_image_fst)
    let ?a = "a\<lparr>aw_used := aw_used a - bytes\<rparr>"
    let ?w = "w\<lparr>w_allowances := AList.update j ?a (w_allowances w),
        w_allocations := AList.delete k (w_allocations w)\<rparr>"
    from allowances_ok_delete [OF world_okD(4) [OF ok] _ a] \<open>map_of (w_allocations w) k = Some v\<close> v Some
    have "bytes \<le> aw_used a" "allowances_ok (w_allowances ?w) (w_allocations ?w)" by simp_all
    moreover have "live_bytes ?w = live_bytes w"
      using asum_update [OF a, of aw_limit ?a] sum Some by (simp add: live_bytes_def)
    then have "conserved ?w" using world_okD(2,3) [OF ok] by (simp add: conserved_def)
    moreover have "ids_ok ?w"
      using world_okD(1) [OF ok] \<open>j \<in> fst ` set (w_allowances w)\<close> by (auto simp: ids_ok_def)
    ultimately have "bytes \<le> aw_used a" "world_ok ?w"
      using world_okD(5) [OF ok] by (simp_all add: world_ok_def)
    with \<open>map_of (w_allocations w) k = Some v\<close> v Some a show ?thesis
      by (simp add: drop_from_allowance_def checked_sub_def)
  qed
qed

lemma step_drop_allowance:
  assumes ok: "world_ok w"
  shows "\<exists>w'. world_step (Drop_allowance k) w = Some w' \<and> world_ok w'"
proof (cases "map_of (w_allowances w) k = None \<or> list_ex (\<lambda>(_, owner, _). owner = Some k) (w_allocations w)")
  case True
  with ok show ?thesis by (auto split: option.split)
next
  case False
  then obtain a where a: "map_of (w_allowances w) k = Some a" by auto
  from False have free: "k \<notin> owned (w_allocations w)"
    by (force simp: owned_def list_ex_iff)
  let ?w = "w\<lparr>w_budget := (w_budget w)\<lparr>bu_used := bu_used (w_budget w) - aw_limit a\<rparr>,
      w_allowances := AList.delete k (w_allowances w)\<rparr>"
  have live: "live_bytes w = live_bytes ?w + aw_limit a"
    using asum_delete [OF world_okD(6) [OF ok] a, of aw_limit] by (simp add: live_bytes_def)
  then have fits: "aw_limit a \<le> bu_used (w_budget w)" using world_okD(2) [OF ok] by simp
  have "conserved ?w"
    using live world_okD(2,3) [OF ok] by (simp add: conserved_def)
  moreover have "ids_ok ?w" using world_okD(1) [OF ok] by (simp add: ids_ok_def)
  ultimately have "world_ok ?w"
    using world_okD(5) [OF ok] allowances_ok_drop [OF world_okD(4) [OF ok] free] by (simp add: world_ok_def)
  with False a fits show ?thesis by (simp add: drop_allowance_def release_def checked_sub_def)
qed

lemma step_drop_shared:
  assumes ok: "world_ok w"
  shows "\<exists>w'. world_step (Drop_shared k) w = Some w' \<and> world_ok w'"
proof (cases "map_of (w_guards w) k")
  case None
  with ok show ?thesis by simp
next
  case (Some s)
  note sum = asum_delete [OF world_okD(8) [OF ok] Some, of sh_overhead]
  then have "asum ledger_bytes (bu_shared (w_budget w)) + sh_overhead s \<le> bu_used (w_budget w)"
    using world_okD(2) [OF ok] by (simp add: live_bytes_def)
  from guards_ok_drop [OF world_okD(5) [OF ok] Some this] obtain b where
    b: "drop_shared s (w_budget w) = Some b" "guards_ok (bu_shared b) (AList.delete k (w_guards w))"
      "bu_limit b = bu_limit (w_budget w)"
      "bu_used b + sh_overhead s + asum ledger_bytes (bu_shared (w_budget w))
        = bu_used (w_budget w) + asum ledger_bytes (bu_shared b)"
      "bu_used b \<le> bu_used (w_budget w)" by blast
  let ?w = "w\<lparr>w_budget := b, w_guards := AList.delete k (w_guards w)\<rparr>"
  have "live_bytes ?w + sh_overhead s + asum ledger_bytes (bu_shared (w_budget w))
      = live_bytes w + asum ledger_bytes (bu_shared b)"
    using sum by (simp add: live_bytes_def)
  with b(4) world_okD(2) [OF ok] have "bu_used b = live_bytes ?w" by simp
  then have "conserved ?w"
    using b(3,5) world_okD(2,3) [OF ok] by (simp add: conserved_def)
  moreover have "ids_ok ?w" using world_okD(1) [OF ok] by (simp add: ids_ok_def)
  ultimately have "world_ok ?w"
    using world_okD(4) [OF ok] b(2) by (simp add: world_ok_def)
  with Some b(1) show ?thesis by simp
qed

lemma world_step_ok: "world_ok w \<Longrightarrow> \<exists>w'. world_step op w = Some w' \<and> world_ok w'"
  using step_new_allowance step_acquire step_share step_allowance_acquire step_drop_allocation
    step_drop_allowance step_drop_shared by (cases op) auto

definition live_ok :: "nat \<Rightarrow> world option \<Rightarrow> bool" where
  "live_ok limit x \<longleftrightarrow> (case x of None \<Rightarrow> False | Some w \<Rightarrow> world_ok w \<and> bu_limit (w_budget w) = limit)"

lemma world_step_limit:
  assumes "world_ok w" "world_step op w = Some w'"
  shows "bu_limit (w_budget w') = bu_limit (w_budget w)"
proof (cases op)
  case (Drop_shared k)
  have rel: "release n b = Some b' \<Longrightarrow> bu_limit b' = bu_limit b" for n b b'
    by (auto simp: release_def)
  have rem: "ledger_remove i b = Some b' \<Longrightarrow> bu_limit b' = bu_limit b" for i b b'
    by (auto simp: ledger_remove_def dest!: rel split: option.splits if_splits)
  have all: "ledger_remove_all ps b = Some b' \<Longrightarrow> bu_limit b' = bu_limit b" for ps b b'
    by (induction ps arbitrary: b) (auto dest!: rem split: option.splits)
  from assms Drop_shared show ?thesis
    by (auto simp: drop_shared_def dest!: rel all split: option.splits)
qed (use assms in \<open>auto simp: budget_allowance_def budget_acquire_def allowance_acquire_def
        release_def drop_allowance_def drop_from_allowance_def
      elim!: budget_share_Inr split: option.splits if_splits sum.splits\<close>)

interpretation budget_machine: kept_invariant "Some (new_world limit)"
    "\<lambda>op w. case w of None \<Rightarrow> None | Some v \<Rightarrow> world_step op v" "live_ok limit" for limit
proof unfold_locales
  show "live_ok limit (Some (new_world limit))"
    using world_ok_new by (simp add: live_ok_def new_world_def budget_new_def)
  fix x op assume "live_ok limit x"
  then obtain w where w: "x = Some w" "world_ok w" "bu_limit (w_budget w) = limit"
    by (cases x) (auto simp: live_ok_def)
  with world_step_ok [OF w(2), of op] world_step_limit [OF w(2), of op]
  show "live_ok limit (case x of None \<Rightarrow> None | Some v \<Rightarrow> world_step op v)"
    by (auto simp: live_ok_def)
qed

text \<open>
  C19. Whatever exports reserve, allocate, share and drop, in any order, no drop panics, and the
  counter of the budget is exactly the sum of the live allowances, allocations, guards and shared
  batches, each batch counted once however many guards hold it. It never exceeds the limit, an
  allowance never exceeds its own, and when everything is dropped the counter is zero.
\<close>

theorem budget_is_conserved:
  "\<exists>w. world_run limit ops = Some w
     \<and> bu_used (w_budget w) =
         asum aw_limit (w_allowances w) + owner_sum None (w_allocations w)
         + asum sh_overhead (w_guards w)
         + asum (\<lambda>(bytes, count). bytes + 1024) (bu_shared (w_budget w))
     \<and> bu_used (w_budget w) \<le> limit
     \<and> distinct (map fst (bu_shared (w_budget w)))
     \<and> list_all (\<lambda>(k, a). aw_used a = owner_sum (Some k) (w_allocations w)
          \<and> aw_used a \<le> aw_limit a) (w_allowances w)
     \<and> (if w_allowances w = [] \<and> w_allocations w = [] \<and> w_guards w = []
        then bu_used (w_budget w) = 0 \<and> bu_shared (w_budget w) = [] else True)"
proof -
  from budget_machine.inv_run [of limit ops] obtain w where
    w: "world_run limit ops = Some w" "world_ok w" "bu_limit (w_budget w) = limit"
    unfolding world_run_def live_ok_def by (auto split: option.splits)
  note ok = world_okD [OF w(2)]
  have "bu_shared (w_budget w) = []" if "w_guards w = []"
  proof (cases "bu_shared (w_budget w)")
    case (Cons e L)
    obtain i bytes count where e: "e = (i, bytes, count)" by (metis prod_cases3)
    with Cons have "map_of (bu_shared (w_budget w)) i = Some (bytes, count)" by simp
    with ok(5) have "count = holders i (w_guards w) \<and> 0 < count" unfolding guards_ok_def by blast
    with that have False by (auto simp: holders_def)
    then show ?thesis ..
  qed simp
  moreover have "list_all (\<lambda>(k, a). aw_used a = owner_sum (Some k) (w_allocations w)
          \<and> aw_used a \<le> aw_limit a) (w_allowances w)"
    using ok(4,6) by (auto simp: list_all_iff allowances_ok_def)
  ultimately show ?thesis
    using w ok(2,3,9) unfolding live_bytes_def by (auto simp: owner_sum_def)
qed

section \<open>Sizes\<close>

lemma add_texts_complete:
  "bytes + sum_list (map cap ts) \<le> usize_max \<Longrightarrow> list_all (\<lambda>t. length t \<le> MAX_CELL_BYTES) ts \<Longrightarrow>
     add_texts cap bytes ts = Inr (bytes + sum_list (map cap ts))"
  by (induction ts arbitrary: bytes) (simp_all add: checked_add_def not_less add.assoc)

lemma add_texts_sound:
  "add_texts cap bytes ts = Inr n \<Longrightarrow>
     list_all (\<lambda>t. length t \<le> MAX_CELL_BYTES) ts \<and> n = bytes + sum_list (map cap ts)"
proof (induction ts arbitrary: bytes)
  case (Cons t ts)
  from Cons.prems have "length t \<le> MAX_CELL_BYTES" "add_texts cap (bytes + cap t) ts = Inr n"
    by (auto simp: checked_add_Some_iff split: option.splits if_splits)
  with Cons.IH [of "bytes + cap t"] show ?case by simp
qed simp

lemma add_texts_Inr:
  "n \<le> usize_max \<Longrightarrow> add_texts cap bytes ts = Inr n \<longleftrightarrow>
     list_all (\<lambda>t. length t \<le> MAX_CELL_BYTES) ts \<and> n = bytes + sum_list (map cap ts)"
  using add_texts_sound add_texts_complete by metis

lemma add_selected_complete:
  "bytes + length vs * size_of_cell + sum_list (map length (texts vs)) \<le> usize_max \<Longrightarrow>
     list_all (\<lambda>t. length t \<le> MAX_CELL_BYTES) (texts vs) \<Longrightarrow>
     add_selected bytes vs = Inr (bytes + length vs * size_of_cell + sum_list (map length (texts vs)))"
proof (induction vs arbitrary: bytes)
  case (Cons v vs)
  then show ?case by (cases v) (simp_all add: checked_add_def not_less add.assoc)
qed simp

lemma add_selected_sound:
  "add_selected bytes vs = Inr n \<Longrightarrow>
     list_all (\<lambda>t. length t \<le> MAX_CELL_BYTES) (texts vs)
     \<and> n = bytes + length vs * size_of_cell + sum_list (map length (texts vs))"
proof (induction vs arbitrary: bytes)
  case (Cons v vs)
  let ?n = "case v of None \<Rightarrow> 0 | Some t \<Rightarrow> length t"
  from Cons.prems have "case v of None \<Rightarrow> True | Some t \<Rightarrow> length t \<le> MAX_CELL_BYTES"
    and "add_selected (bytes + (size_of_cell + ?n)) vs = Inr n"
    by (auto simp: checked_add_Some_iff split: option.splits if_splits)
  with Cons.IH [of "bytes + (size_of_cell + ?n)"] show ?case by (cases v) simp_all
qed simp

lemma add_selected_Inr:
  "n \<le> usize_max \<Longrightarrow> add_selected bytes vs = Inr n \<longleftrightarrow>
     list_all (\<lambda>t. length t \<le> MAX_CELL_BYTES) (texts vs)
     \<and> n = bytes + length vs * size_of_cell + sum_list (map length (texts vs))"
  using add_selected_sound add_selected_complete by metis

text \<open>
  The size check of a row accepts exactly the rows whose cells are at most 8 MiB and whose
  total is at most 16 MiB, and returns that total: the cells' slots and the capacity of their
  texts. The check of a selection does the same with the lengths of the texts.
\<close>

theorem row_sizes_are_exact:
  "(row_bytes cap r = Inr n \<longleftrightarrow>
      list_all (\<lambda>t. length t \<le> 8388608) (texts r)
      \<and> n = cap_cells cap r * 24 + sum_list (map (cap_text cap) (texts r)) \<and> n \<le> 16777216)
   \<and> (selected_row_bytes r = Inr n \<longleftrightarrow>
      list_all (\<lambda>t. length t \<le> 8388608) (texts r)
      \<and> n = length r * 24 + sum_list (map length (texts r)) \<and> n \<le> 16777216)"
proof -
  have limits: "MAX_CELL_BYTES = 8388608" "MAX_ROW_BYTES = 16777216"
    by (simp_all add: MAX_CELL_BYTES_def MAX_ROW_BYTES_def MIB_def)
  have limit: "and_then x row_limit = Inr n \<longleftrightarrow> x = Inr n \<and> n \<le> 16777216" for x
    by (cases x) (auto simp: row_limit_def limits)
  have fits: "n \<le> 16777216 \<Longrightarrow> n \<le> usize_max" by (simp add: usize_max_def)
  have "row_bytes cap r = Inr n \<longleftrightarrow>
      list_all (\<lambda>t. length t \<le> 8388608) (texts r)
      \<and> n = cap_cells cap r * 24 + sum_list (map (cap_text cap) (texts r)) \<and> n \<le> 16777216"
  proof (cases "cap_cells cap r * 24 \<le> usize_max")
    case True
    then show ?thesis
      using add_texts_Inr [OF fits, of "cap_text cap" "cap_cells cap r * 24" "texts r"]
      by (auto simp: row_bytes_def checked_mul_def size_of_cell_def limit limits)
  next
    case False
    then have "\<not> cap_cells cap r * 24 + k \<le> 16777216" for k by (simp add: usize_max_def)
    with False show ?thesis by (auto simp: row_bytes_def checked_mul_def size_of_cell_def)
  qed
  moreover have "selected_row_bytes r = Inr n \<longleftrightarrow>
      list_all (\<lambda>t. length t \<le> 8388608) (texts r)
      \<and> n = length r * 24 + sum_list (map length (texts r)) \<and> n \<le> 16777216"
    using add_selected_Inr [OF fits, of 0 r]
    by (auto simp: selected_row_bytes_def size_of_cell_def limit limits)
  ultimately show ?thesis by blast
qed

end
