(* ===== verification/Jobs.thy ===== *)
theory Jobs
  imports Rust_Prelude
begin

text \<open>
  The registry of active exports (\<open>src/export/jobs.rs\<close>). A job is shared by the writers of its
  stages; a cancellation flag is an \<open>Arc<AtomicBool>\<close>, so it has an identity and jobs refer to
  it. The model keeps the flags, the callbacks that were called, and the live writers. Each
  operation runs under the lock of the registry; waiting for the writers is not modelled.
\<close>

datatype jobs_error = Connection_changed | Already_owns_download | Stopping | Too_many nat

record job =
  j_cancel :: nat
  j_profile :: "nat option"
  j_on_cancel :: "nat option"
  j_remaining :: nat

record jobs =
  js_stopping :: bool
  js_jobs :: "(nat \<times> job) list"
  js_next :: nat
  js_flags :: "nat \<Rightarrow> bool"
  js_calls :: "nat list"
  js_writers :: "nat list"

definition jobs_default :: jobs where
  "jobs_default =
     \<lparr>js_stopping = False, js_jobs = [], js_next = 0, js_flags = (\<lambda>_. False), js_calls = [],
      js_writers = []\<rparr>"

definition retain_active :: "jobs \<Rightarrow> jobs" where
  "retain_active s = s\<lparr>js_jobs := filter (\<lambda>(i, j). 0 < j_remaining j) (js_jobs s)\<rparr>"

text \<open>The loop over the jobs for one with the same flag: an error, or the job to join.\<close>

fun find_stage ::
  "nat \<Rightarrow> nat option \<Rightarrow> (nat \<times> nat) option \<Rightarrow> (nat \<times> job) list \<Rightarrow> (jobs_error, nat) result option" where
  "find_stage cancel on_cancel profile [] = None"
| "find_stage cancel on_cancel profile ((i, j) # rest) =
     (if j_cancel j = cancel then
        (if (case profile of None \<Rightarrow> False | Some (p, _) \<Rightarrow> j_profile j \<noteq> Some p)
         then Some (Inl Connection_changed)
         else if 0 < j_remaining j then
           (if on_cancel \<noteq> None \<and> j_on_cancel j \<noteq> None then Some (Inl Already_owns_download)
            else Some (Inr i))
         else find_stage cancel on_cancel profile rest)
      else find_stage cancel on_cancel profile rest)"

definition update_job :: "nat \<Rightarrow> (job \<Rightarrow> job) \<Rightarrow> jobs \<Rightarrow> jobs" where
  "update_job i f s = s\<lparr>js_jobs := map (\<lambda>(k, j). (k, if k = i then f j else j)) (js_jobs s)\<rparr>"

definition call_back :: "nat option \<Rightarrow> jobs \<Rightarrow> jobs" where
  "call_back on_cancel s =
     (case on_cancel of None \<Rightarrow> s | Some c \<Rightarrow> s\<lparr>js_calls := js_calls s @ [c]\<rparr>)"

definition request_cancel :: "job \<Rightarrow> jobs \<Rightarrow> jobs" where
  "request_cancel j s =
     call_back (j_on_cancel j) (s\<lparr>js_flags := (js_flags s)(j_cancel j := True)\<rparr>)"

definition join_stage :: "nat \<Rightarrow> nat \<Rightarrow> nat option \<Rightarrow> jobs \<Rightarrow> jobs" where
  "join_stage i cancel on_cancel s =
     (let s1 = update_job i
           (\<lambda>j. j\<lparr>j_on_cancel := (if on_cancel = None then j_on_cancel j else on_cancel),
                  j_remaining := j_remaining j + 1\<rparr>) s;
          s2 = s1\<lparr>js_writers := i # js_writers s1\<rparr>
      in if js_stopping s \<or> js_flags s cancel then call_back on_cancel s2 else s2)"

definition new_job :: "nat \<Rightarrow> nat option \<Rightarrow> nat option \<Rightarrow> jobs \<Rightarrow> jobs" where
  "new_job cancel on_cancel profile s =
     (let j = \<lparr>j_cancel = cancel, j_profile = profile, j_on_cancel = on_cancel, j_remaining = 1\<rparr>;
          s1 = s\<lparr>js_jobs := js_jobs s @ [(js_next s, j)], js_next := js_next s + 1,
                 js_writers := js_next s # js_writers s\<rparr>
      in if js_stopping s then request_cancel j s1 else s1)"

definition profile_count :: "nat \<Rightarrow> jobs \<Rightarrow> nat" where
  "profile_count p s = length (filter (\<lambda>(i, j). j_profile j = Some p) (js_jobs s))"

text \<open>
  \<open>register_inner\<close>: the state after it, which changes also when it fails (the finished jobs are
  gone), and the identity of the writer's job.
\<close>

definition register_inner ::
  "nat \<Rightarrow> nat option \<Rightarrow> (nat \<times> nat) option \<Rightarrow> jobs \<Rightarrow> jobs \<times> (jobs_error, nat) result" where
  "register_inner cancel on_cancel profile s0 =
     (let s = retain_active s0 in
      case (if on_cancel = None \<or> profile \<noteq> None
            then find_stage cancel on_cancel profile (js_jobs s) else None) of
        Some (Inl e) \<Rightarrow> (s, Inl e)
      | Some (Inr i) \<Rightarrow> (join_stage i cancel on_cancel s, Inr i)
      | None \<Rightarrow>
          (case profile of
             None \<Rightarrow> (new_job cancel on_cancel None s, Inr (js_next s))
           | Some (p, limit) \<Rightarrow>
               if js_stopping s then (s, Inl Stopping)
               else if limit \<noteq> 0 \<and> limit \<le> profile_count p s then (s, Inl (Too_many limit))
               else (new_job cancel on_cancel (Some p) s, Inr (js_next s))))"

definition register :: "nat \<Rightarrow> jobs \<Rightarrow> jobs \<times> (jobs_error, nat) result" where
  "register cancel s = register_inner cancel None None s"

definition register_with_cancel ::
  "nat \<Rightarrow> nat option \<Rightarrow> jobs \<Rightarrow> jobs \<times> (jobs_error, nat) result" where
  "register_with_cancel cancel on_cancel s = register_inner cancel on_cancel None s"

definition register_for_profile ::
  "nat \<Rightarrow> nat option \<Rightarrow> nat \<Rightarrow> nat \<Rightarrow> jobs \<Rightarrow> jobs \<times> (jobs_error, nat) result" where
  "register_for_profile cancel on_cancel p limit s = register_inner cancel on_cancel (Some (p, limit)) s"

definition active_count :: "jobs \<Rightarrow> jobs \<times> nat" where
  "active_count s = (retain_active s, length (js_jobs (retain_active s)))"

definition cancel_jobs :: "jobs \<Rightarrow> jobs" where
  "cancel_jobs s = fold (\<lambda>(i, j). request_cancel j) (js_jobs s) s"

text \<open>\<open>cancel_and_wait\<close> up to its wait.\<close>

definition cancel_and_stop :: "jobs \<Rightarrow> jobs" where
  "cancel_and_stop s =
     (let s1 = s\<lparr>js_stopping := True,
                 js_flags := fold (\<lambda>(i, j) f. f(j_cancel j := True)) (js_jobs s) (js_flags s)\<rparr>
      in cancel_jobs s1)"

text \<open>What the wait needs: no writer of the jobs that were alive is left.\<close>

definition all_finished :: "jobs \<Rightarrow> bool" where
  "all_finished s \<longleftrightarrow> list_all (\<lambda>(i, j). j_remaining j = 0) (js_jobs s)"

definition fork_writer :: "nat \<Rightarrow> jobs \<Rightarrow> jobs" where
  "fork_writer i s =
     (let s1 = update_job i (\<lambda>j. j\<lparr>j_remaining := j_remaining j + 1\<rparr>) s
      in s1\<lparr>js_writers := i # js_writers s1\<rparr>)"

definition drop_writer :: "nat \<Rightarrow> jobs \<Rightarrow> jobs" where
  "drop_writer i s =
     (let s1 = update_job i (\<lambda>j. j\<lparr>j_remaining := j_remaining j - 1\<rparr>) s
      in s1\<lparr>js_writers := remove1 i (js_writers s1)\<rparr>)"

section \<open>Runs\<close>

text \<open>
  The operations of the application. \<open>limit\<close> is the setting of each connection; a writer is
  forked or dropped by its owner only.
\<close>

datatype jobs_op =
    Register nat "nat option"
  | Register_for_profile nat "nat option" nat
  | Active_count
  | Cancel
  | Cancel_and_stop
  | Fork nat
  | Drop_writer nat

fun jobs_step :: "(nat \<Rightarrow> nat) \<Rightarrow> jobs_op \<Rightarrow> jobs \<Rightarrow> jobs" where
  "jobs_step limit (Register cancel on_cancel) s = fst (register_with_cancel cancel on_cancel s)"
| "jobs_step limit (Register_for_profile cancel on_cancel p) s =
     fst (register_for_profile cancel on_cancel p (limit p) s)"
| "jobs_step limit Active_count s = fst (active_count s)"
| "jobs_step limit Cancel s = cancel_jobs s"
| "jobs_step limit Cancel_and_stop s = cancel_and_stop s"
| "jobs_step limit (Fork i) s = (if i \<in> set (js_writers s) then fork_writer i s else s)"
| "jobs_step limit (Drop_writer i) s = (if i \<in> set (js_writers s) then drop_writer i s else s)"

definition jobs_run :: "(nat \<Rightarrow> nat) \<Rightarrow> jobs_op list \<Rightarrow> jobs" where
  "jobs_run limit ops = run_from (jobs_step limit) jobs_default ops"

section \<open>The invariant\<close>

definition writers_ok :: "(nat \<times> job) list \<Rightarrow> nat list \<Rightarrow> nat \<Rightarrow> bool" where
  "writers_ok js writers n \<longleftrightarrow>
     distinct (map fst js) \<and> (\<forall>(i, j) \<in> set js. i < n \<and> j_remaining j = count_list writers i)
     \<and> set writers \<subseteq> fst ` set js"

text \<open>After shutdown, every job is cancelled and its callback was called.\<close>

definition stopped_ok :: "jobs \<Rightarrow> bool" where
  "stopped_ok s \<longleftrightarrow>
     (js_stopping s \<longrightarrow>
        (\<forall>(i, j) \<in> set (js_jobs s). js_flags s (j_cancel j) \<and> set_option (j_on_cancel j) \<subseteq> set (js_calls s)))"

definition limits_ok :: "(nat \<Rightarrow> nat) \<Rightarrow> jobs \<Rightarrow> bool" where
  "limits_ok limit s \<longleftrightarrow> (\<forall>p. limit p \<noteq> 0 \<longrightarrow> profile_count p s \<le> limit p)"

definition jobs_ok :: "(nat \<Rightarrow> nat) \<Rightarrow> jobs \<Rightarrow> bool" where
  "jobs_ok limit s \<longleftrightarrow>
     writers_ok (js_jobs s) (js_writers s) (js_next s) \<and> stopped_ok s \<and> limits_ok limit s"

lemma length_filter_filter_le: "length (filter P (filter Q xs)) \<le> length (filter P xs)"
  by (induction xs) auto

lemma retain_active_ok:
  assumes "jobs_ok limit s"
  shows "jobs_ok limit (retain_active s)"
proof -
  let ?keep = "\<lambda>(i, j). 0 < j_remaining j"
  from assms have w: "distinct (map fst (js_jobs s))"
    "\<forall>(i, j) \<in> set (js_jobs s). i < js_next s \<and> j_remaining j = count_list (js_writers s) i"
    "set (js_writers s) \<subseteq> fst ` set (js_jobs s)" by (auto simp: jobs_ok_def writers_ok_def)
  have "i \<in> fst ` set (filter ?keep (js_jobs s))" if "i \<in> set (js_writers s)" for i
  proof -
    from that w(3) obtain j where "(i, j) \<in> set (js_jobs s)" by auto
    moreover have "count_list (js_writers s) i \<noteq> 0" using that by (simp add: count_list_0_iff)
    with calculation w(2) have "0 < j_remaining j" by auto
    ultimately show ?thesis by force
  qed
  then have "writers_ok (filter ?keep (js_jobs s)) (js_writers s) (js_next s)"
    using w by (auto simp: writers_ok_def distinct_map_filter)
  moreover have "stopped_ok (retain_active s)"
    using assms by (auto simp: jobs_ok_def stopped_ok_def retain_active_def)
  moreover have "profile_count p (retain_active s) \<le> profile_count p s" for p
    unfolding profile_count_def retain_active_def by (simp add: length_filter_filter_le del: filter_filter)
  then have "limits_ok limit (retain_active s)"
    using assms unfolding jobs_ok_def limits_ok_def by (meson le_trans)
  ultimately show ?thesis by (simp add: jobs_ok_def retain_active_def)
qed

lemma set_update_job:
  "set (js_jobs (update_job i f s)) = (\<lambda>(k, j). (k, if k = i then f j else j)) ` set (js_jobs s)"
  by (auto simp: update_job_def)

lemma keys_update_job [simp]:
  "map fst (map (\<lambda>(k, j). (k, if k = i then f j else j)) js) = map fst js"
  by (induction js) auto

lemma writers_ok_add:
  assumes ok: "writers_ok js ws n" and i: "i \<in> fst ` set js"
    and f: "\<And>j. j_remaining (f j) = j_remaining j + 1"
  shows "writers_ok (map (\<lambda>(k, j). (k, if k = i then f j else j)) js) (i # ws) n"
proof -
  have keys: "fst ` set (map (\<lambda>(k, j). (k, if k = i then f j else j)) js) = fst ` set js"
    by (metis keys_update_job list.set_map)
  show ?thesis
    using ok i f unfolding writers_ok_def keys keys_update_job by auto
qed

lemma writers_ok_remove:
  assumes ok: "writers_ok js ws n" and i: "i \<in> set ws"
    and f: "\<And>j. j_remaining (f j) = j_remaining j - 1"
  shows "writers_ok (map (\<lambda>(k, j). (k, if k = i then f j else j)) js) (remove1 i ws) n"
proof -
  have keys: "fst ` set (map (\<lambda>(k, j). (k, if k = i then f j else j)) js) = fst ` set js"
    by (metis keys_update_job list.set_map)
  have count: "count_list (remove1 i ws) k = (if k = i then count_list ws k - 1 else count_list ws k)" for k
    using i
  proof (induction ws)
    case (Cons a ws)
    then have "a \<noteq> i \<Longrightarrow> count_list ws i \<noteq> 0" by (simp add: count_list_0_iff)
    with Cons show ?case by auto
  qed simp
  show ?thesis
    using ok f set_remove1_subset [of i ws] unfolding writers_ok_def keys keys_update_job
    by (auto simp: count)
qed

lemma find_stage_join:
  "find_stage cancel on_cancel profile js = Some (Inr i) \<Longrightarrow>
     \<exists>j. (i, j) \<in> set js \<and> j_cancel j = cancel \<and> 0 < j_remaining j
       \<and> (on_cancel = None \<or> j_on_cancel j = None)
       \<and> (\<forall>p l. profile = Some (p, l) \<longrightarrow> j_profile j = Some p)"
  by (induction cancel on_cancel profile js rule: find_stage.induct)
    (auto split: if_splits option.splits)

lemma profile_count_update:
  assumes "\<And>j. j_profile (f j) = j_profile j"
  shows "profile_count p (update_job i f s) = profile_count p s"
proof -
  have "length (filter (\<lambda>(k, j). j_profile j = Some p) (map (\<lambda>(k, j). (k, if k = i then f j else j)) js))
      = length (filter (\<lambda>(k, j). j_profile j = Some p) js)" for js
  proof (induction js)
    case (Cons x js)
    obtain k j where x: "x = (k, j)" by fastforce
    have "j_profile (if k = i then f j else j) = j_profile j" using assms by simp
    with Cons x show ?case by simp
  qed simp
  then show ?thesis by (simp add: profile_count_def update_job_def)
qed

lemma join_stage_ok:
  assumes ok: "jobs_ok limit s" and i: "(i, j) \<in> set (js_jobs s)" "j_cancel j = cancel"
    "on_cancel = None \<or> j_on_cancel j = None"
  shows "jobs_ok limit (join_stage i cancel on_cancel s)"
proof -
  let ?f = "\<lambda>j. j\<lparr>j_on_cancel := (if on_cancel = None then j_on_cancel j else on_cancel),
                  j_remaining := j_remaining j + 1\<rparr>"
  let ?s = "(update_job i ?f s)\<lparr>js_writers := i # js_writers s\<rparr>"
  let ?t = "join_stage i cancel on_cancel s"
  have t: "?t = (if js_stopping s \<or> js_flags s cancel then call_back on_cancel ?s else ?s)"
    by (simp add: join_stage_def Let_def update_job_def)
  have fields: "js_jobs ?t = js_jobs (update_job i ?f s)" "js_writers ?t = i # js_writers s"
    "js_next ?t = js_next s" "js_stopping ?t = js_stopping s" "js_flags ?t = js_flags s"
    "set (js_calls s) \<subseteq> set (js_calls ?t)" "js_stopping s \<Longrightarrow> set_option on_cancel \<subseteq> set (js_calls ?t)"
    unfolding t by (auto simp: call_back_def update_job_def split: option.splits)
  have "writers_ok (js_jobs ?t) (js_writers ?t) (js_next ?t)"
  proof -
    have "i \<in> fst ` set (js_jobs s)" using i(1) by force
    with ok show ?thesis
      unfolding fields unfolding update_job_def jobs_ok_def by (simp add: writers_ok_add)
  qed
  moreover have "stopped_ok ?t"
    unfolding stopped_ok_def fields
  proof (intro impI, clarify)
    fix k j' assume stop: "js_stopping s" and m: "(k, j') \<in> set (js_jobs (update_job i ?f s))"
    from m obtain j0 where j0: "(k, j0) \<in> set (js_jobs s)" "j' = (if k = i then ?f j0 else j0)"
      unfolding set_update_job by auto
    with ok stop have "js_flags s (j_cancel j0)" "set_option (j_on_cancel j0) \<subseteq> set (js_calls s)"
      unfolding jobs_ok_def stopped_ok_def by blast+
    with j0(2) fields(6) fields(7) [OF stop]
    show "js_flags s (j_cancel j') \<and> set_option (j_on_cancel j') \<subseteq> set (js_calls ?t)"
      by (auto split: if_splits)
  qed
  moreover have "profile_count p ?t = profile_count p s" for p
    using profile_count_update [of ?f p i s] fields(1) by (simp add: profile_count_def)
  then have "limits_ok limit ?t" using ok by (simp add: jobs_ok_def limits_ok_def)
  ultimately show ?thesis by (simp add: jobs_ok_def)
qed

lemma new_job_ok:
  assumes ok: "jobs_ok limit s"
    and room: "\<And>p. profile = Some p \<Longrightarrow> limit p \<noteq> 0 \<Longrightarrow> profile_count p s < limit p"
  shows "jobs_ok limit (new_job cancel on_cancel profile s)"
proof -
  let ?j = "\<lparr>j_cancel = cancel, j_profile = profile, j_on_cancel = on_cancel, j_remaining = 1\<rparr>"
  let ?s = "s\<lparr>js_jobs := js_jobs s @ [(js_next s, ?j)], js_next := js_next s + 1,
                 js_writers := js_next s # js_writers s\<rparr>"
  let ?t = "new_job cancel on_cancel profile s"
  have t: "?t = (if js_stopping s then request_cancel ?j ?s else ?s)"
    by (simp add: new_job_def Let_def)
  have fields: "js_jobs ?t = js_jobs s @ [(js_next s, ?j)]" "js_writers ?t = js_next s # js_writers s"
    "js_next ?t = js_next s + 1" "js_stopping ?t = js_stopping s"
    "\<And>f. js_flags s f \<Longrightarrow> js_flags ?t f" "js_stopping s \<Longrightarrow> js_flags ?t cancel"
    "set (js_calls s) \<subseteq> set (js_calls ?t)" "js_stopping s \<Longrightarrow> set_option on_cancel \<subseteq> set (js_calls ?t)"
    unfolding t by (auto simp: request_cancel_def call_back_def split: option.splits)
  from ok have w: "distinct (map fst (js_jobs s))"
    "\<forall>(i, j) \<in> set (js_jobs s). i < js_next s \<and> j_remaining j = count_list (js_writers s) i"
    "set (js_writers s) \<subseteq> fst ` set (js_jobs s)" by (auto simp: jobs_ok_def writers_ok_def)
  have "js_next s \<notin> fst ` set (js_jobs s)" using w(2) by auto
  moreover from this w(3) have "count_list (js_writers s) (js_next s) = 0"
    by (auto simp: count_list_0_iff)
  ultimately have "writers_ok (js_jobs ?t) (js_writers ?t) (js_next ?t)"
    using w unfolding fields writers_ok_def by auto
  moreover have "stopped_ok ?t"
    using ok fields(5-8) unfolding jobs_ok_def stopped_ok_def fields(1,4) by fastforce
  moreover have "limits_ok limit ?t"
    using ok room unfolding jobs_ok_def limits_ok_def
    by (auto simp: profile_count_def fields(1) Suc_le_eq)
  ultimately show ?thesis by (simp add: jobs_ok_def)
qed

lemma register_inner_ok:
  assumes "jobs_ok limit s" and "\<And>p l. profile = Some (p, l) \<Longrightarrow> l = limit p"
  shows "jobs_ok limit (fst (register_inner cancel on_cancel profile s))"
proof -
  note ok = retain_active_ok [OF assms(1)]
  let ?s = "retain_active s"
  show ?thesis
  proof (cases "if on_cancel = None \<or> profile \<noteq> None
      then find_stage cancel on_cancel profile (js_jobs ?s) else None")
    case None
    show ?thesis
    proof (cases profile)
      case None
      with \<open>(if on_cancel = None \<or> profile \<noteq> None then find_stage cancel on_cancel profile (js_jobs ?s) else None) = None\<close>
      have "fst (register_inner cancel on_cancel profile s) = new_job cancel on_cancel None ?s"
        unfolding register_inner_def Let_def by simp
      then show ?thesis using new_job_ok [OF ok, of None] by simp
    next
      case (Some q)
      obtain p l where "q = (p, l)" by fastforce
      with assms(2) Some have q: "q = (p, limit p)" by simp
      have "fst (register_inner cancel on_cancel profile s) =
          (if js_stopping ?s \<or> limit p \<noteq> 0 \<and> limit p \<le> profile_count p ?s then ?s
           else new_job cancel on_cancel (Some p) ?s)"
        using \<open>(if on_cancel = None \<or> profile \<noteq> None then find_stage cancel on_cancel profile (js_jobs ?s) else None) = None\<close>
        unfolding register_inner_def Let_def Some q by simp
      then show ?thesis using ok new_job_ok [OF ok, of "Some p"] by auto
    qed
  next
    case (Some r)
    show ?thesis
    proof (cases r)
      case (Inl e)
      with Some ok show ?thesis by (simp add: register_inner_def)
    next
      case (Inr i)
      with Some have "find_stage cancel on_cancel profile (js_jobs ?s) = Some (Inr i)"
        by (simp split: if_splits)
      from find_stage_join [OF this] obtain j where
        j: "(i, j) \<in> set (js_jobs ?s)" "j_cancel j = cancel" "on_cancel = None \<or> j_on_cancel j = None"
        by blast
      have "fst (register_inner cancel on_cancel profile s) = join_stage i cancel on_cancel ?s"
        using Some Inr unfolding register_inner_def Let_def by simp
      with join_stage_ok [OF ok j] show ?thesis by simp
    qed
  qed
qed

lemma request_cancel_fields [simp]:
  "js_jobs (request_cancel j s) = js_jobs s" "js_writers (request_cancel j s) = js_writers s"
  "js_next (request_cancel j s) = js_next s" "js_stopping (request_cancel j s) = js_stopping s"
  "js_flags (request_cancel j s) = (js_flags s)(j_cancel j := True)"
  "set (js_calls (request_cancel j s)) = set (js_calls s) \<union> set_option (j_on_cancel j)"
  by (auto simp: request_cancel_def call_back_def split: option.split)

lemma fold_request_cancel:
  defines "go js s \<equiv> fold (\<lambda>(i, j). request_cancel j) js s"
  shows "js_jobs (go js s) = js_jobs s \<and> js_writers (go js s) = js_writers s
       \<and> js_next (go js s) = js_next s \<and> js_stopping (go js s) = js_stopping s
       \<and> (\<forall>f. js_flags (go js s) f \<longleftrightarrow> js_flags s f \<or> f \<in> (\<lambda>(i, j). j_cancel j) ` set js)
       \<and> set (js_calls (go js s)) = set (js_calls s) \<union> (\<Union>(i, j) \<in> set js. set_option (j_on_cancel j))"
  unfolding go_def
proof (induction js arbitrary: s)
  case (Cons x js)
  obtain i j where x: "x = (i, j)" by fastforce
  show ?case using Cons [of "request_cancel j s"] by (auto simp: x)
qed simp

lemma jobs_ok_frame:
  assumes "jobs_ok limit s" "js_jobs t = js_jobs s" "js_writers t = js_writers s" "js_next t = js_next s"
    and "stopped_ok t"
  shows "jobs_ok limit t"
  using assms by (simp add: jobs_ok_def limits_ok_def profile_count_def)

lemma cancel_jobs_ok:
  assumes ok: "jobs_ok limit s"
  shows "jobs_ok limit (cancel_jobs s)"
proof -
  note c = fold_request_cancel [of "js_jobs s" s, folded cancel_jobs_def]
  have "stopped_ok (cancel_jobs s)"
    unfolding stopped_ok_def using c by fastforce
  with c show ?thesis by (intro jobs_ok_frame [OF ok]) blast+
qed

lemma cancel_and_stop_ok:
  assumes ok: "jobs_ok limit s"
  shows "jobs_ok limit (cancel_and_stop s)"
proof -
  let ?s = "s\<lparr>js_stopping := True,
      js_flags := fold (\<lambda>(i, j) f. f(j_cancel j := True)) (js_jobs s) (js_flags s)\<rparr>"
  note c = fold_request_cancel [of "js_jobs s" ?s]
  have t: "cancel_and_stop s = fold (\<lambda>(i, j). request_cancel j) (js_jobs s) ?s"
    by (simp add: cancel_and_stop_def cancel_jobs_def Let_def)
  have "stopped_ok (cancel_and_stop s)"
    unfolding stopped_ok_def t using c by fastforce
  with c show ?thesis by (intro jobs_ok_frame [OF ok]) (simp_all add: t)
qed

lemma update_job_ok:
  assumes ok: "jobs_ok limit s" and w: "writers_ok (js_jobs (update_job i f s)) ws (js_next s)"
    and f: "\<And>j. j_profile (f j) = j_profile j" "\<And>j. j_cancel (f j) = j_cancel j"
      "\<And>j. j_on_cancel (f j) = j_on_cancel j"
  shows "jobs_ok limit ((update_job i f s)\<lparr>js_writers := ws\<rparr>)"
proof -
  have "stopped_ok ((update_job i f s)\<lparr>js_writers := ws\<rparr>)"
    unfolding stopped_ok_def
  proof (intro impI, clarify)
    fix k j' assume "js_stopping ((update_job i f s)\<lparr>js_writers := ws\<rparr>)"
      and "(k, j') \<in> set (js_jobs ((update_job i f s)\<lparr>js_writers := ws\<rparr>))"
    then obtain j where stop: "js_stopping s" and j: "(k, j) \<in> set (js_jobs s)"
      "j' = (if k = i then f j else j)" by (auto simp: update_job_def)
    with ok have "js_flags s (j_cancel j)" "set_option (j_on_cancel j) \<subseteq> set (js_calls s)"
      unfolding jobs_ok_def stopped_ok_def by blast+
    then show "js_flags ((update_job i f s)\<lparr>js_writers := ws\<rparr>) (j_cancel j')
        \<and> set_option (j_on_cancel j') \<subseteq> set (js_calls ((update_job i f s)\<lparr>js_writers := ws\<rparr>))"
      using f(2,3) j(2) by (simp add: update_job_def)
  qed
  moreover have "profile_count p ((update_job i f s)\<lparr>js_writers := ws\<rparr>) = profile_count p s" for p
    using profile_count_update [of f p i s, OF f(1)] by (simp add: profile_count_def)
  ultimately show ?thesis
    using ok w by (simp add: jobs_ok_def limits_ok_def update_job_def)
qed

lemma fork_writer_ok:
  assumes ok: "jobs_ok limit s" and i: "i \<in> set (js_writers s)"
  shows "jobs_ok limit (fork_writer i s)"
proof -
  let ?f = "\<lambda>j. j\<lparr>j_remaining := j_remaining j + 1\<rparr>"
  from ok i have "i \<in> fst ` set (js_jobs s)" "writers_ok (js_jobs s) (js_writers s) (js_next s)"
    by (auto simp: jobs_ok_def writers_ok_def)
  then have "writers_ok (js_jobs (update_job i ?f s)) (i # js_writers s) (js_next s)"
    unfolding update_job_def by (simp add: writers_ok_add)
  from update_job_ok [OF ok this] have
    "jobs_ok limit ((update_job i ?f s)\<lparr>js_writers := i # js_writers s\<rparr>)" by simp
  moreover have "fork_writer i s = (update_job i ?f s)\<lparr>js_writers := i # js_writers s\<rparr>"
    by (simp add: fork_writer_def update_job_def)
  ultimately show ?thesis by simp
qed

lemma drop_writer_ok:
  assumes ok: "jobs_ok limit s" and i: "i \<in> set (js_writers s)"
  shows "jobs_ok limit (drop_writer i s)"
proof -
  let ?f = "\<lambda>j. j\<lparr>j_remaining := j_remaining j - 1\<rparr>"
  from ok have "writers_ok (js_jobs s) (js_writers s) (js_next s)" by (simp add: jobs_ok_def)
  then have "writers_ok (js_jobs (update_job i ?f s)) (remove1 i (js_writers s)) (js_next s)"
    unfolding update_job_def by (simp add: writers_ok_remove i)
  from update_job_ok [OF ok this] have
    "jobs_ok limit ((update_job i ?f s)\<lparr>js_writers := remove1 i (js_writers s)\<rparr>)" by simp
  moreover have "drop_writer i s = (update_job i ?f s)\<lparr>js_writers := remove1 i (js_writers s)\<rparr>"
    by (simp add: drop_writer_def update_job_def)
  ultimately show ?thesis by simp
qed

lemma jobs_step_ok:
  assumes "jobs_ok limit s"
  shows "jobs_ok limit (jobs_step limit op s)"
proof (cases op)
  case (Register c x)
  then show ?thesis using register_inner_ok [OF assms, of None c x] by (simp add: register_with_cancel_def)
next
  case (Register_for_profile c x p)
  then show ?thesis
    using register_inner_ok [OF assms, of "Some (p, limit p)" c x] by (simp add: register_for_profile_def)
qed (use assms in \<open>simp_all add: active_count_def retain_active_ok cancel_jobs_ok cancel_and_stop_ok
      fork_writer_ok drop_writer_ok\<close>)

interpretation jobs_machine: kept_invariant jobs_default "jobs_step limit" "jobs_ok limit" for limit
proof unfold_locales
  show "jobs_ok limit jobs_default"
    by (simp add: jobs_ok_def writers_ok_def stopped_ok_def limits_ok_def profile_count_def jobs_default_def)
qed (rule jobs_step_ok)

section \<open>Properties\<close>

text \<open>
  C21. Whatever is registered, forked, dropped and cancelled, a connection with a limit never has
  more active exports than the limit, whose stages share one permit; the registry counts exactly
  the live writers of each job, so it reports that all exports finished only when no writer is
  left.
\<close>

theorem exports_stay_in_limit:
  "(limit p = 0 \<or> profile_count p (jobs_run limit ops) \<le> limit p)
   \<and> list_all (\<lambda>(i, j). j_remaining j = count_list (js_writers (jobs_run limit ops)) i)
       (js_jobs (jobs_run limit ops))
   \<and> (all_finished (jobs_run limit ops) \<longleftrightarrow> js_writers (jobs_run limit ops) = [])"
proof -
  let ?s = "jobs_run limit ops"
  have ok: "jobs_ok limit ?s" unfolding jobs_run_def by (rule jobs_machine.inv_run)
  then have w: "\<forall>(i, j) \<in> set (js_jobs ?s). j_remaining j = count_list (js_writers ?s) i"
    "set (js_writers ?s) \<subseteq> fst ` set (js_jobs ?s)" by (auto simp: jobs_ok_def writers_ok_def)
  have "js_writers ?s = []" if fin: "all_finished ?s"
  proof (cases "js_writers ?s")
    case (Cons i ws)
    with w(2) obtain j where "(i, j) \<in> set (js_jobs ?s)" by auto
    then have "j_remaining j = 0" "j_remaining j = count_list (js_writers ?s) i"
      using fin w(1) by (auto simp: all_finished_def list_all_iff)
    then have "count_list (js_writers ?s) i = 0" by simp
    with Cons show ?thesis by simp
  qed
  moreover have "all_finished ?s" if "js_writers ?s = []"
    using w(1) that by (auto simp: all_finished_def list_all_iff)
  ultimately show ?thesis
    using ok w(1) by (auto simp: jobs_ok_def limits_ok_def list_all_iff)
qed

text \<open>
  C22. Once the application stops, every job that is left has its flag set and its download's
  callback called, whether it was registered before or after; and a new export of a connection,
  one whose flag no job has, is refused.
\<close>

theorem shutdown_reaches_every_export:
  assumes "js_stopping (jobs_run limit ops)"
  shows "list_all (\<lambda>(i, j). js_flags (jobs_run limit ops) (j_cancel j)
            \<and> (case j_on_cancel j of None \<Rightarrow> True | Some c \<Rightarrow> c \<in> set (js_calls (jobs_run limit ops))))
           (js_jobs (jobs_run limit ops))
       \<and> (if list_all (\<lambda>(i, j). j_cancel j \<noteq> flag) (js_jobs (jobs_run limit ops))
          then snd (register_for_profile flag on_cancel p l (jobs_run limit ops)) = Inl Stopping
          else True)"
proof -
  let ?s = "jobs_run limit ops"
  have "jobs_ok limit ?s" unfolding jobs_run_def by (rule jobs_machine.inv_run)
  with assms have stopped: "\<forall>(i, j) \<in> set (js_jobs ?s). js_flags ?s (j_cancel j)
      \<and> set_option (j_on_cancel j) \<subseteq> set (js_calls ?s)"
    by (simp add: jobs_ok_def stopped_ok_def)
  have none: "list_all (\<lambda>(i, j). j_cancel j \<noteq> flag) js \<Longrightarrow> find_stage flag on_cancel profile js = None" for js profile
    by (induction js) auto
  have "snd (register_for_profile flag on_cancel p l ?s) = Inl Stopping"
    if new: "list_all (\<lambda>(i, j). j_cancel j \<noteq> flag) (js_jobs ?s)"
  proof -
    from new have "list_all (\<lambda>(i, j). j_cancel j \<noteq> flag) (js_jobs (retain_active ?s))"
      by (auto simp: retain_active_def list_all_iff)
    from none [OF this] assms show ?thesis
      by (simp add: register_for_profile_def register_inner_def Let_def retain_active_def)
  qed
  moreover have "list_all (\<lambda>(i, j). js_flags ?s (j_cancel j)
      \<and> (case j_on_cancel j of None \<Rightarrow> True | Some c \<Rightarrow> c \<in> set (js_calls ?s))) (js_jobs ?s)"
    using stopped by (fastforce simp: list_all_iff split: option.split)
  ultimately show ?thesis by simp
qed

definition sample_exports :: "jobs_op list" where
  "sample_exports = [Register_for_profile 1 None 7, Register_for_profile 1 (Some 5) 7, Cancel_and_stop]"

lemma sample_exports_run:
  "js_stopping (jobs_run (\<lambda>_. 2) sample_exports)"
  "map snd (js_jobs (jobs_run (\<lambda>_. 2) sample_exports)) =
     [\<lparr>j_cancel = 1, j_profile = Some 7, j_on_cancel = Some 5, j_remaining = 2\<rparr>]"
  "js_calls (jobs_run (\<lambda>_. 2) sample_exports) = [5]"
  by code_simp+

theorem shutdown_reaches_every_export_witness:
  "list_all (\<lambda>(i, j). j_cancel j \<noteq> 9) (js_jobs (jobs_run (\<lambda>_. 2) sample_exports))
   \<and> snd (register_for_profile 9 None 8 2 (jobs_run (\<lambda>_. 2) sample_exports)) = Inl Stopping"
proof -
  have "list_all (\<lambda>(i, j). j_cancel j \<noteq> 9) (js_jobs (jobs_run (\<lambda>_. 2) sample_exports))"
    by code_simp
  then show ?thesis
    using shutdown_reaches_every_export [OF sample_exports_run(1), of 9 None 8 2] by simp
qed

end
