(* ===== verification/Decimal.thy ===== *)
theory Decimal
  imports Rust_Str
begin

text \<open>
  Exact decimals (\<open>src/export/decimal.rs\<close>): the parser of a decimal text, the exact integer
  coefficient for a column's precision and scale, and the inference of one precision and scale
  for a column. \<open>i32\<close> and \<open>i128\<close> are integers with their bounds checked where the code
  checks them.
\<close>

definition i32_max :: int where "i32_max = 2147483647"
definition i32_min :: int where "i32_min = - 2147483648"
definition i128_max :: nat where "i128_max = 170141183460469231731687303715884105727"

datatype decimal_error = Invalid_decimal | Does_not_fit

record decimal =
  d_mantissa :: string
  d_negative :: bool
  d_scale :: int
  d_integer_digits :: nat

section \<open>The parser\<close>

text \<open>\<open>str::parse::<i32>\<close>: a sign, at least one digit, and a value in range.\<close>

definition parse_i32 :: "string \<Rightarrow> int option" where
  "parse_i32 s =
     (let (neg, ds) = (case s of
            [] \<Rightarrow> (False, [])
          | c # cs \<Rightarrow> if c = CHR ''-'' then (True, cs) else if c = CHR ''+'' then (False, cs) else (False, s));
          v = int (digits_value 0 ds);
          n = (if neg then - v else v)
      in if ds = [] \<or> \<not> list_all is_ascii_digit ds then None
         else if i32_min \<le> n \<and> n \<le> i32_max then Some n else None)"

text \<open>The loop over the mantissa: fractional digits, digits, and digits from the first non-zero one.\<close>

fun scan_mantissa :: "string \<Rightarrow> bool \<Rightarrow> nat \<Rightarrow> nat \<Rightarrow> nat \<Rightarrow> (nat \<times> nat \<times> nat) option" where
  "scan_mantissa [] point fractional digits significant = Some (fractional, digits, significant)"
| "scan_mantissa (c # cs) point fractional digits significant =
     (if c = CHR ''.'' \<and> \<not> point then scan_mantissa cs True fractional digits significant
      else if \<not> is_ascii_digit c then None
      else
        (let significant' = (if c \<noteq> CHR ''0'' \<or> 0 < significant then significant + 1 else significant) in
         if point then
           (if int (fractional + 1) \<le> i32_max
            then scan_mantissa cs point (fractional + 1) (digits + 1) significant' else None)
         else scan_mantissa cs point fractional (digits + 1) significant'))"

definition split_sign :: "string \<Rightarrow> bool \<times> string" where
  "split_sign text =
     (case text of
        [] \<Rightarrow> (False, text)
      | c # cs \<Rightarrow> if c = CHR ''-'' then (True, cs) else if c = CHR ''+'' then (False, cs) else (False, text))"

definition split_exponent :: "string \<Rightarrow> (decimal_error, string \<times> int) result" where
  "split_exponent unsigned =
     (case split_once (\<lambda>c. c = CHR ''e'' \<or> c = CHR ''E'') unsigned of
        None \<Rightarrow> Inr (unsigned, 0)
      | Some (mantissa, exponent) \<Rightarrow>
          (case parse_i32 exponent of
             None \<Rightarrow> Inl Invalid_decimal
           | Some e \<Rightarrow> Inr (mantissa, e)))"

definition count_integer_digits :: "nat \<Rightarrow> int \<Rightarrow> nat option" where
  "count_integer_digits significant scale =
     (if significant = 0 then Some 0
      else if 0 \<le> scale then Some (significant - nat scale)
      else checked_add significant (nat \<bar>scale\<bar>))"

definition parse_decimal :: "string \<Rightarrow> (decimal_error, decimal) result" where
  "parse_decimal text =
     (let (negative, unsigned) = split_sign text in
      case split_exponent unsigned of
        Inl e \<Rightarrow> Inl e
      | Inr (mantissa, exponent) \<Rightarrow>
          (case scan_mantissa mantissa False 0 0 0 of
             None \<Rightarrow> Inl Invalid_decimal
           | Some (fractional, digits, significant) \<Rightarrow>
               if digits = 0 then Inl Invalid_decimal
               else
                 (let scale = int fractional - exponent in
                  if \<not> (i32_min \<le> scale \<and> scale \<le> i32_max) then Inl Invalid_decimal
                  else
                    (case count_integer_digits significant scale of
                       None \<Rightarrow> Inl Invalid_decimal
                     | Some integer_digits \<Rightarrow>
                         Inr \<lparr>d_mantissa = mantissa, d_negative = negative, d_scale = scale,
                              d_integer_digits = integer_digits\<rparr>))))"

section \<open>The coefficient\<close>

definition mantissa_digits :: "decimal \<Rightarrow> string" where
  "mantissa_digits d = filter (\<lambda>c. c \<noteq> CHR ''.'') (d_mantissa d)"

definition all_zeros :: "string \<Rightarrow> bool" where
  "all_zeros ds \<longleftrightarrow> list_all (\<lambda>c. c = CHR ''0'') ds"

text \<open>\<open>checked_mul\<close> and \<open>checked_add\<close> on \<open>i128\<close>, for numbers that are not negative.\<close>

definition i128_mul :: "nat \<Rightarrow> nat \<Rightarrow> nat option" where
  "i128_mul a b = (if a * b \<le> i128_max then Some (a * b) else None)"

definition i128_add :: "nat \<Rightarrow> nat \<Rightarrow> nat option" where
  "i128_add a b = (if a + b \<le> i128_max then Some (a + b) else None)"

definition i128_pow10 :: "nat \<Rightarrow> nat option" where
  "i128_pow10 n = (if 10 ^ n \<le> i128_max then Some (10 ^ n) else None)"

fun coefficient_loop :: "nat \<Rightarrow> string \<Rightarrow> nat option" where
  "coefficient_loop acc [] = Some acc"
| "coefficient_loop acc (c # cs) =
     (case i128_mul acc 10 of
        None \<Rightarrow> None
      | Some v \<Rightarrow>
          (case i128_add v (byte c - 48) of
             None \<Rightarrow> None
           | Some w \<Rightarrow> coefficient_loop w cs))"

text \<open>The number of digits to keep, or the early results of the code.\<close>

datatype keep = Keep nat | Zero | Reject

definition kept_digits :: "string \<Rightarrow> int \<Rightarrow> keep" where
  "kept_digits digits shift =
     (let count = length digits in
      if shift < 0 then
        (let discarded = nat (- shift) in
         if count < discarded then (if all_zeros digits then Zero else Reject)
         else if \<not> all_zeros (drop (count - discarded) digits) then Reject
         else Keep (count - discarded))
      else Keep count)"

definition scale_up :: "nat \<Rightarrow> int \<Rightarrow> nat option" where
  "scale_up c shift =
     (if c \<noteq> 0 \<and> 0 < shift then
        (case i128_pow10 (nat shift) of None \<Rightarrow> None | Some p \<Rightarrow> i128_mul c p)
      else Some c)"

definition coefficient :: "decimal \<Rightarrow> nat \<Rightarrow> nat \<Rightarrow> (decimal_error, int) result" where
  "coefficient d precision scale =
     (if precision = 0 \<or> 38 < precision \<or> precision < scale then Inl Does_not_fit
      else
        (let shift = int scale - d_scale d in
         case kept_digits (mantissa_digits d) shift of
           Zero \<Rightarrow> Inr 0
         | Reject \<Rightarrow> Inl Does_not_fit
         | Keep keep \<Rightarrow>
             (case coefficient_loop 0 (take keep (mantissa_digits d)) of
                None \<Rightarrow> Inl Does_not_fit
              | Some c \<Rightarrow>
                  (case scale_up c shift of
                     None \<Rightarrow> Inl Does_not_fit
                   | Some k \<Rightarrow>
                       if 10 ^ precision \<le> k then Inl Does_not_fit
                       else Inr (if d_negative d then - int k else int k)))))"

section \<open>The inference of a column\<close>

record stats =
  st_scale :: nat
  st_integer_digits :: nat
  st_present :: bool
  st_special :: bool

definition stats_default :: stats where
  "stats_default = \<lparr>st_scale = 0, st_integer_digits = 0, st_present = False, st_special = False\<rparr>"

definition special_decimal :: "string \<Rightarrow> bool" where
  "special_decimal t \<longleftrightarrow>
     t = ''NaN'' \<or> t = ''Infinity'' \<or> t = ''+Infinity'' \<or> t = ''-Infinity'' \<or> t = ''inf'' \<or> t = ''-inf''"

definition observe :: "string option \<Rightarrow> stats \<Rightarrow> (decimal_error, stats) result" where
  "observe x s =
     (case x of
        None \<Rightarrow> Inr s
      | Some text \<Rightarrow>
          (let s1 = s\<lparr>st_present := True\<rparr> in
           if special_decimal text then Inr (s1\<lparr>st_special := True\<rparr>)
           else
             (case parse_decimal text of
                Inl e \<Rightarrow> Inl e
              | Inr d \<Rightarrow>
                  Inr (s1\<lparr>st_scale := max (st_scale s1) (nat (max (d_scale d) 0)),
                          st_integer_digits := max (st_integer_digits s1) (d_integer_digits d)\<rparr>))))"

fun observe_all :: "string option list \<Rightarrow> stats \<Rightarrow> (decimal_error, stats) result" where
  "observe_all [] s = Inr s"
| "observe_all (x # xs) s = and_then (observe x s) (observe_all xs)"

definition inferred :: "stats \<Rightarrow> (nat \<times> nat) option" where
  "inferred s =
     (if \<not> st_present s \<or> st_special s then None
      else
        (case checked_add (st_integer_digits s) (st_scale s) of
           None \<Rightarrow> None
         | Some n \<Rightarrow> (let precision = max n 1 in
                      if precision \<le> 38 then Some (precision, st_scale s) else None)))"

section \<open>The value of a decimal\<close>

text \<open>
  The value is \<open>signed_digits d * 10 ^ - d_scale d\<close>. \<open>exactly d scale k\<close> says, in integers,
  that \<open>k * 10 ^ - scale\<close> is that value.
\<close>

definition magnitude :: "decimal \<Rightarrow> nat" where
  "magnitude d = digits_value 0 (mantissa_digits d)"

definition signed_digits :: "decimal \<Rightarrow> int" where
  "signed_digits d = (if d_negative d then - int (magnitude d) else int (magnitude d))"

definition exactly :: "decimal \<Rightarrow> nat \<Rightarrow> int \<Rightarrow> bool" where
  "exactly d scale k \<longleftrightarrow>
     k * 10 ^ nat (d_scale d - int scale) = signed_digits d * 10 ^ nat (int scale - d_scale d)"

definition decimal_ok :: "decimal \<Rightarrow> bool" where
  "decimal_ok d \<longleftrightarrow> list_all is_ascii_digit (mantissa_digits d)"

lemma digit_value_bound: "is_ascii_digit c \<Longrightarrow> byte c - 48 \<le> 9"
  unfolding is_ascii_digit_def by linarith

lemma digits_value_acc: "digits_value acc ds = acc * 10 ^ length ds + digits_value 0 ds"
proof (induction ds arbitrary: acc)
  case (Cons c ds)
  show ?case
    using Cons [of "10 * acc + (byte c - 48)"] Cons [of "byte c - 48"] by (simp add: algebra_simps)
qed simp

lemma digits_value_less: "list_all is_ascii_digit ds \<Longrightarrow> digits_value 0 ds < 10 ^ length ds"
proof (induction ds)
  case (Cons c ds)
  have "digits_value 0 (c # ds) = (byte c - 48) * 10 ^ length ds + digits_value 0 ds"
    using digits_value_acc [of "byte c - 48" ds] by simp
  also have "\<dots> < (byte c - 48 + 1) * 10 ^ length ds" using Cons by simp
  also have "\<dots> \<le> 10 * 10 ^ length ds"
    using digit_value_bound [of c] Cons.prems by (intro mult_right_mono) simp_all
  finally show ?case by simp
qed simp

lemma digits_value_zeros: "all_zeros ds \<Longrightarrow> digits_value 0 ds = 0"
  by (induction ds) (simp_all add: all_zeros_def byte_def)

lemma digits_value_zero_iff:
  "list_all is_ascii_digit ds \<Longrightarrow> digits_value 0 ds = 0 \<longleftrightarrow> all_zeros ds"
proof (induction ds)
  case (Cons c ds)
  have "digits_value 0 (c # ds) = (byte c - 48) * 10 ^ length ds + digits_value 0 ds"
    using digits_value_acc [of "byte c - 48" ds] by simp
  moreover have "byte c - 48 = 0 \<longleftrightarrow> c = CHR ''0''"
  proof -
    have "byte c - 48 = 0 \<longleftrightarrow> byte c = byte CHR ''0''"
      using Cons.prems by (auto simp: is_ascii_digit_def byte_def)
    then show ?thesis by simp
  qed
  ultimately show ?case using Cons by (auto simp: all_zeros_def)
qed (simp add: all_zeros_def)

lemma digits_value_ge: "acc \<le> digits_value acc ds"
proof (induction ds arbitrary: acc)
  case (Cons c ds)
  have "acc \<le> 10 * acc + (byte c - 48)" by simp
  also have "\<dots> \<le> digits_value acc (c # ds)" using Cons [of "10 * acc + (byte c - 48)"] by simp
  finally show ?case .
qed simp

lemma coefficient_loop_spec:
  "acc \<le> i128_max \<Longrightarrow> coefficient_loop acc ds =
     (if digits_value acc ds \<le> i128_max then Some (digits_value acc ds) else None)"
proof (induction ds arbitrary: acc)
  case (Cons c ds)
  obtain x where x: "byte c - 48 = x" by simp
  let ?v = "10 * acc + x"
  have ge: "?v \<le> digits_value acc (c # ds)" using digits_value_ge [of ?v ds] by (simp add: x)
  have loop: "coefficient_loop acc (c # ds) = (if ?v \<le> i128_max then coefficient_loop ?v ds else None)"
    by (auto simp: i128_mul_def i128_add_def x mult.commute)
  show ?case
  proof (cases "?v \<le> i128_max")
    case True
    with Cons.IH [OF True] show ?thesis unfolding loop by (simp add: x)
  next
    case False
    with ge have "\<not> digits_value acc (c # ds) \<le> i128_max" by linarith
    with False show ?thesis unfolding loop by simp
  qed
qed simp

text \<open>Keeping digits is the exact division by the power of ten, when there is one.\<close>

lemma kept_digits_spec:
  assumes ok: "list_all is_ascii_digit ds"
  shows "case kept_digits ds shift of
           Keep n \<Rightarrow> digits_value 0 (take n ds) * 10 ^ nat (- shift) = digits_value 0 ds
         | Zero \<Rightarrow> digits_value 0 ds = 0
         | Reject \<Rightarrow> \<forall>k. k * 10 ^ nat (- shift) \<noteq> digits_value 0 ds"
proof (cases "shift < 0")
  case False
  then show ?thesis by (simp add: kept_digits_def)
next
  case True
  define m where "m = nat (- shift)"
  let ?M = "digits_value 0 ds"
  show ?thesis
  proof (cases "length ds < m")
    case True
    have "?M < 10 ^ m"
      using digits_value_less [OF ok] power_strict_increasing [OF True, of "10 :: nat"]
      by (rule order.strict_trans) simp
    then have "k * 10 ^ m \<noteq> ?M" if "?M \<noteq> 0" for k
      using that by (cases k) auto
    with True \<open>shift < 0\<close> digits_value_zero_iff [OF ok] show ?thesis
      by (simp add: kept_digits_def m_def)
  next
    case False
    define a b where "a = take (length ds - m) ds" and "b = drop (length ds - m) ds"
    have b: "length b = m" "list_all is_ascii_digit b"
      using False ok by (auto simp: b_def list_all_iff dest: in_set_dropD)
    have "?M = digits_value (digits_value 0 a) b"
      unfolding a_def b_def by (metis append_take_drop_id digits_value_append)
    then have M: "?M = digits_value 0 a * 10 ^ m + digits_value 0 b"
      using digits_value_acc [of "digits_value 0 a" b] b(1) by simp
    have "digits_value 0 b < 10 ^ m" using digits_value_less [OF b(2)] b(1) by simp
    then have mod: "?M mod 10 ^ m = digits_value 0 b" unfolding M by simp
    have "k * 10 ^ m \<noteq> ?M" if "digits_value 0 b \<noteq> 0" for k
      using that mod by (metis mod_mult_self2_is_0)
    with M False \<open>shift < 0\<close> digits_value_zero_iff [OF b(2)] show ?thesis
      by (simp add: kept_digits_def m_def a_def b_def Let_def)
  qed
qed

lemma scale_up_spec:
  "c \<le> i128_max \<Longrightarrow> scale_up c shift =
     (if c * 10 ^ nat shift \<le> i128_max then Some (c * 10 ^ nat shift) else None)"
proof (cases "c \<noteq> 0 \<and> 0 < shift")
  case True
  have "10 ^ nat shift \<le> c * 10 ^ nat shift" using True by simp
  then have "c * 10 ^ nat shift \<le> i128_max \<Longrightarrow> 10 ^ nat shift \<le> i128_max" by (rule le_trans)
  with True show ?thesis by (auto simp: scale_up_def i128_pow10_def i128_mul_def)
next
  case False
  assume "c \<le> i128_max"
  with False show ?thesis by (auto simp: scale_up_def)
qed

lemma i128_covers: "precision \<le> 38 \<Longrightarrow> 10 ^ precision \<le> i128_max"
proof -
  assume "precision \<le> 38"
  then have "(10 :: nat) ^ precision \<le> 10 ^ 38" by (rule power_increasing) simp
  also have "\<dots> \<le> i128_max" by (simp add: i128_max_def)
  finally show ?thesis .
qed

text \<open>The magnitude of the coefficient, exact or none.\<close>

lemma coefficient_magnitude:
  assumes ok: "decimal_ok d" and p: "0 < precision" "precision \<le> 38" "scale \<le> precision"
  shows "coefficient d precision scale = Inr z \<longleftrightarrow>
    (\<exists>k. z = (if d_negative d then - int k else int k) \<and> k < 10 ^ precision
       \<and> k * 10 ^ nat (d_scale d - int scale) = magnitude d * 10 ^ nat (int scale - d_scale d))"
proof -
  let ?ds = "mantissa_digits d"
  define shift where "shift = int scale - d_scale d"
  have neg: "d_scale d - int scale = - shift" by (simp add: shift_def)
  let ?sgn = "\<lambda>k. if d_negative d then - int k else int k"
  from ok have digits: "list_all is_ascii_digit ?ds" by (simp add: decimal_ok_def)
  note kept = kept_digits_spec [OF digits, of shift]
  have up: "nat (- shift) = 0 \<or> nat shift = 0" by auto
  have c: "coefficient d precision scale =
      (case kept_digits ?ds shift of Zero \<Rightarrow> Inr 0 | Reject \<Rightarrow> Inl Does_not_fit
       | Keep keep \<Rightarrow> (case coefficient_loop 0 (take keep ?ds) of None \<Rightarrow> Inl Does_not_fit
          | Some c \<Rightarrow> (case scale_up c shift of None \<Rightarrow> Inl Does_not_fit
             | Some k \<Rightarrow> if 10 ^ precision \<le> k then Inl Does_not_fit else Inr (?sgn k))))"
    using p unfolding coefficient_def shift_def by (simp add: Let_def)
  show ?thesis
  proof (cases "kept_digits ?ds shift")
    case Zero
    with kept have M: "magnitude d = 0" by (simp add: magnitude_def)
    with Zero c show ?thesis unfolding neg shift_def [symmetric] by auto
  next
    case Reject
    with kept have none: "\<And>k. k * 10 ^ nat (- shift) \<noteq> magnitude d" by (simp add: magnitude_def)
    from Reject have "shift < 0" by (auto simp: kept_digits_def Let_def split: if_splits)
    with Reject c none show ?thesis unfolding neg shift_def [symmetric] by simp
  next
    case (Keep n)
    define a where "a = digits_value 0 (take n ?ds)"
    with Keep kept have a: "a * 10 ^ nat (- shift) = magnitude d" by (simp add: magnitude_def)
    have k: "k * 10 ^ nat (- shift) = magnitude d * 10 ^ nat shift \<longleftrightarrow> k = a * 10 ^ nat shift" for k
      using up unfolding a [symmetric] by auto
    have result: "coefficient d precision scale =
        (if a * 10 ^ nat shift < 10 ^ precision then Inr (?sgn (a * 10 ^ nat shift)) else Inl Does_not_fit)"
    proof (cases "a \<le> i128_max")
      case True
      with c Keep scale_up_spec [OF True, of shift] coefficient_loop_spec [of 0 "take n ?ds"]
        i128_covers [OF p(2)]
      show ?thesis by (auto simp: a_def [symmetric])
    next
      case False
      then have "\<not> a * 10 ^ nat shift < 10 ^ precision"
        using i128_covers [OF p(2)] by (metis le_less_trans less_imp_le mult.right_neutral mult_le_mono2 not_le one_le_numeral one_le_power)
      with False c Keep coefficient_loop_spec [of 0 "take n ?ds"] show ?thesis
        by (simp add: a_def [symmetric])
    qed
    show ?thesis unfolding result neg shift_def [symmetric] k by auto
  qed
qed

section \<open>What the parser counts\<close>

lemma scan_mantissa_spec:
  "scan_mantissa cs point fr dg sg = Some (fr', dg', sg') \<Longrightarrow>
     list_all is_ascii_digit (filter (\<lambda>c. c \<noteq> CHR ''.'') cs)
     \<and> dg' = dg + length (filter (\<lambda>c. c \<noteq> CHR ''.'') cs)
     \<and> sg' = (if 0 < sg then sg + length (filter (\<lambda>c. c \<noteq> CHR ''.'') cs)
              else length (dropWhile (\<lambda>c. c = CHR ''0'') (filter (\<lambda>c. c \<noteq> CHR ''.'') cs)))"
proof (induction cs point fr dg sg rule: scan_mantissa.induct)
  case (2 c cs point fr dg sg)
  have dot: "\<not> is_ascii_digit CHR ''.''" by (simp add: is_ascii_digit_def byte_def)
  let ?sg = "if c \<noteq> CHR ''0'' \<or> 0 < sg then sg + 1 else sg"
  show ?case
  proof (cases "c = CHR ''.'' \<and> \<not> point")
    case True
    with 2(1) [OF True] 2(4) show ?thesis by simp
  next
    case False
    note nodot = False
    show ?thesis
    proof (cases "is_ascii_digit c")
      case False
      with nodot 2(4) show ?thesis by (auto split: if_splits)
    next
      case True
      with dot have c: "c \<noteq> CHR ''.''" by auto
      have "\<exists>fr2. scan_mantissa cs point fr2 (dg + 1) ?sg = Some (fr', dg', sg')
          \<and> (list_all is_ascii_digit (filter (\<lambda>c. c \<noteq> CHR ''.'') cs)
     \<and> dg' = dg + 1 + length (filter (\<lambda>c. c \<noteq> CHR ''.'') cs)
     \<and> sg' = (if 0 < ?sg then ?sg + length (filter (\<lambda>c. c \<noteq> CHR ''.'') cs)
              else length (dropWhile (\<lambda>c. c = CHR ''0'') (filter (\<lambda>c. c \<noteq> CHR ''.'') cs))))"
      proof (cases point)
        case True
        with 2(4) c \<open>is_ascii_digit c\<close> have fr: "int (fr + 1) \<le> i32_max"
          and rec: "scan_mantissa cs point (fr + 1) (dg + 1) ?sg = Some (fr', dg', sg')"
          by (auto simp: Let_def split: if_splits)
        show ?thesis
          using 2(2) [OF nodot _ refl True fr] \<open>is_ascii_digit c\<close> rec by blast
      next
        case False
        with 2(4) c \<open>is_ascii_digit c\<close>
        have rec: "scan_mantissa cs point fr (dg + 1) ?sg = Some (fr', dg', sg')"
          by (auto simp: Let_def split: if_splits)
        show ?thesis
          using 2(3) [OF nodot _ refl False] \<open>is_ascii_digit c\<close> rec by blast
      qed
      with True c show ?thesis by (auto split: if_splits)
    qed
  qed
qed simp

lemma dropWhile_zeros_value: "digits_value 0 (dropWhile (\<lambda>c. c = CHR ''0'') ds) = digits_value 0 ds"
  by (induction ds) (simp_all add: byte_def)

lemma parse_decimal_Inr:
  assumes "parse_decimal text = Inr d"
  obtains significant where "decimal_ok d" "magnitude d < 10 ^ significant"
    "count_integer_digits significant (d_scale d) = Some (d_integer_digits d)"
proof -
  from assms obtain m fr dg sg where
    scan: "scan_mantissa m False 0 0 0 = Some (fr, dg, sg)" and m: "d_mantissa d = m"
    and count: "count_integer_digits sg (d_scale d) = Some (d_integer_digits d)"
    by (auto simp: parse_decimal_def Let_def split: prod.splits sum.splits option.splits if_splits)
  let ?ds = "mantissa_digits d"
  note spec = scan_mantissa_spec [OF scan]
  have ds: "?ds = filter (\<lambda>c. c \<noteq> CHR ''.'') m" by (simp add: mantissa_digits_def m)
  have sg: "sg = length (dropWhile (\<lambda>c. c = CHR ''0'') ?ds)" using spec by (simp add: ds)
  have ok: "list_all is_ascii_digit ?ds" using spec by (simp add: ds)
  then have "list_all is_ascii_digit (dropWhile (\<lambda>c. c = CHR ''0'') ?ds)"
    by (auto simp: list_all_iff dest: set_dropWhileD)
  from digits_value_less [OF this] have less: "magnitude d < 10 ^ sg"
    by (simp add: magnitude_def dropWhile_zeros_value sg)
  show thesis
  proof (rule that [OF _ less count])
    show "decimal_ok d" using ok by (simp add: decimal_ok_def)
  qed
qed

section \<open>Properties\<close>

lemma exact_coefficient:
  assumes ok: "decimal_ok d" and p: "0 < precision" "precision \<le> 38" "scale \<le> precision"
  shows "coefficient d precision scale = Inr z \<longleftrightarrow> exactly d scale z \<and> \<bar>z\<bar> < 10 ^ precision"
proof -
  let ?a = "nat (d_scale d - int scale)" and ?b = "nat (int scale - d_scale d)"
  have pow: "int k < 10 ^ precision \<longleftrightarrow> k < 10 ^ precision" for k
    by (metis of_nat_less_iff of_nat_numeral of_nat_power)
  have eq: "int k * 10 ^ ?a = int (magnitude d) * 10 ^ ?b \<longleftrightarrow> k * 10 ^ ?a = magnitude d * 10 ^ ?b" for k
    by (metis (no_types, lifting) of_nat_eq_iff of_nat_mult of_nat_numeral of_nat_power)
  note mag = coefficient_magnitude [OF ok p, of z]
  show ?thesis
  proof (cases "d_negative d")
    case False
    then have "exactly d scale z \<longleftrightarrow> z * 10 ^ ?a = int (magnitude d) * 10 ^ ?b"
      by (simp add: exactly_def signed_digits_def)
    moreover have "0 \<le> z" if "z * 10 ^ ?a = int (magnitude d) * 10 ^ ?b"
      using that by (metis mult_nonneg_nonneg of_nat_0_le_iff zero_le_mult_iff zero_le_numeral zero_le_power zero_less_numeral zero_less_power not_less)
    ultimately show ?thesis
      using mag False eq [of "nat z"] pow [of "nat z"] by (auto simp: eq pow)
  next
    case True
    then have "exactly d scale z \<longleftrightarrow> - z * 10 ^ ?a = int (magnitude d) * 10 ^ ?b"
      by (auto simp: exactly_def signed_digits_def)
    moreover have "0 \<le> - z" if "- z * 10 ^ ?a = int (magnitude d) * 10 ^ ?b"
      using that by (metis mult_nonneg_nonneg of_nat_0_le_iff zero_le_mult_iff zero_le_numeral zero_le_power zero_less_numeral zero_less_power not_less)
    ultimately show ?thesis
      using mag True eq [of "nat (- z)"] pow [of "nat (- z)"] by (auto simp: eq pow)
  qed
qed

text \<open>
  C23. The coefficient of a parsed decimal is exact and complete: for a column of at most 38
  digits, it is \<open>z\<close> exactly when \<open>z * 10 ^ - scale\<close> is the value of the decimal and \<open>z\<close>
  has at most \<open>precision\<close> digits. So no digit is lost, and a value that fits is never refused.
\<close>

theorem coefficient_is_exact:
  assumes "parse_decimal text = Inr d" "0 < precision" "precision \<le> 38" "scale \<le> precision"
  shows "coefficient d precision scale = Inr z \<longleftrightarrow> exactly d scale z \<and> \<bar>z\<bar> < 10 ^ precision"
proof -
  from assms(1) have "decimal_ok d" by (rule parse_decimal_Inr)
  then show ?thesis using assms(2-4) by (rule exact_coefficient)
qed

theorem coefficient_is_exact_witness:
  "\<exists>d. parse_decimal ''-1.2345'' = Inr d \<and> coefficient d 8 4 = Inr (- 12345)
     \<and> exactly d 4 (- 12345)"
proof -
  obtain d where d: "parse_decimal ''-1.2345'' = Inr d" "coefficient d 8 4 = Inr (- 12345)"
  proof -
    have "parse_decimal ''-1.2345'' = Inr \<lparr>d_mantissa = ''1.2345'', d_negative = True, d_scale = 4,
        d_integer_digits = 1\<rparr>" by code_simp
    moreover have "coefficient \<lparr>d_mantissa = ''1.2345'', d_negative = True, d_scale = 4,
        d_integer_digits = 1\<rparr> 8 4 = Inr (- 12345)" by code_simp
    ultimately show thesis using that by blast
  qed
  with coefficient_is_exact [OF d(1), of 8 4 "- 12345"] show ?thesis by auto
qed

section \<open>The inferred column\<close>

lemma inferred_fits:
  assumes d: "parse_decimal text = Inr d" and scale: "nat (max (d_scale d) 0) \<le> scale"
    and digits: "d_integer_digits d + scale \<le> precision" and p: "0 < precision" "precision \<le> 38"
  shows "\<exists>z. coefficient d precision scale = Inr z"
proof -
  from d obtain sg where ok: "decimal_ok d" and less: "magnitude d < 10 ^ sg"
    and count: "count_integer_digits sg (d_scale d) = Some (d_integer_digits d)"
    by (rule parse_decimal_Inr)
  let ?b = "nat (int scale - d_scale d)"
  have a: "nat (d_scale d - int scale) = 0" using scale by simp
  have "magnitude d * 10 ^ ?b < 10 ^ precision"
  proof (cases "magnitude d = 0")
    case True
    then show ?thesis by simp
  next
    case False
    then have sg: "sg \<noteq> 0" using less by (cases sg) auto
    have "magnitude d * 10 ^ ?b < 10 ^ sg * 10 ^ ?b" using less by simp
    also have "\<dots> = 10 ^ (sg + ?b)" by (simp add: power_add)
    finally have lt: "magnitude d * 10 ^ ?b < 10 ^ (sg + ?b)" .
    have "sg + ?b \<le> precision \<or> (0 \<le> d_scale d \<and> int sg \<le> d_scale d)"
      using count sg scale digits
      by (auto simp: count_integer_digits_def checked_add_def split: if_splits)
    then show ?thesis
    proof
      assume "sg + ?b \<le> precision"
      then have "(10 :: nat) ^ (sg + ?b) \<le> 10 ^ precision" by (rule power_increasing) simp
      with lt show ?thesis by (rule order.strict_trans2)
    next
      assume small: "0 \<le> d_scale d \<and> int sg \<le> d_scale d"
      then obtain n where "d_scale d = int n" by (meson nonneg_int_cases)
      with small scale have "sg + ?b \<le> scale" by simp
      then have "sg + ?b \<le> precision" using digits by simp
      then have "(10 :: nat) ^ (sg + ?b) \<le> 10 ^ precision" by (rule power_increasing) simp
      with lt show ?thesis by (rule order.strict_trans2)
    qed
  qed
  with coefficient_magnitude [OF ok p, of scale] digits a show ?thesis by auto
qed

lemma observe_mono:
  assumes "observe x s = Inr s'"
  shows "st_scale s \<le> st_scale s' \<and> st_integer_digits s \<le> st_integer_digits s'
       \<and> (st_special s \<longrightarrow> st_special s')"
  using assms by (auto simp: observe_def Let_def split: option.splits if_splits sum.splits)

lemma observe_all_mono:
  "observe_all xs s = Inr s' \<Longrightarrow>
     st_scale s \<le> st_scale s' \<and> st_integer_digits s \<le> st_integer_digits s'
     \<and> (st_special s \<longrightarrow> st_special s')"
proof (induction xs arbitrary: s)
  case (Cons x xs)
  then obtain t where t: "observe x s = Inr t" "observe_all xs t = Inr s'"
    by (auto simp: and_then_Inr_iff)
  from observe_mono [OF t(1)] Cons.IH [OF t(2)] show ?case by auto
qed simp

lemma observe_all_spec:
  "observe_all xs s = Inr s' \<Longrightarrow> Some text \<in> set xs \<Longrightarrow> \<not> st_special s' \<Longrightarrow>
     \<exists>d. parse_decimal text = Inr d \<and> nat (max (d_scale d) 0) \<le> st_scale s'
       \<and> d_integer_digits d \<le> st_integer_digits s'"
proof (induction xs arbitrary: s)
  case (Cons x xs)
  then obtain t where t: "observe x s = Inr t" "observe_all xs t = Inr s'"
    by (auto simp: and_then_Inr_iff)
  note mono = observe_all_mono [OF t(2)]
  show ?case
  proof (cases "x = Some text")
    case True
    with t(1) mono Cons.prems(3) obtain d where d: "parse_decimal text = Inr d"
      "nat (max (d_scale d) 0) \<le> st_scale t" "d_integer_digits d \<le> st_integer_digits t"
      by (auto simp: observe_def Let_def split: if_splits sum.splits)
    with mono show ?thesis by (meson le_trans)
  next
    case False
    with Cons.prems t(2) Cons.IH show ?thesis by auto
  qed
qed simp

text \<open>
  When the values of a column give a precision and scale, every one of the values has an exact
  coefficient in that column: writing the column never fails and loses no digit.
\<close>

theorem inferred_column_holds_every_value:
  assumes "observe_all values stats_default = Inr s" "inferred s = Some (precision, scale)"
    and "Some text \<in> set values"
  shows "\<exists>d z. parse_decimal text = Inr d \<and> coefficient d precision scale = Inr z
       \<and> exactly d scale z \<and> \<bar>z\<bar> < 10 ^ precision"
proof -
  from assms(2) have s: "\<not> st_special s" "scale = st_scale s" "st_integer_digits s + scale \<le> precision"
    "0 < precision" "precision \<le> 38"
    by (auto simp: inferred_def Let_def checked_add_Some_iff split: if_splits option.splits)
  from observe_all_spec [OF assms(1,3) s(1)] obtain d where
    d: "parse_decimal text = Inr d" "nat (max (d_scale d) 0) \<le> scale"
      "d_integer_digits d \<le> st_integer_digits s" using s(2) by auto
  from d(3) s(3) have "d_integer_digits d + scale \<le> precision" by simp
  from inferred_fits [OF d(1,2) this s(4,5)] obtain z where z: "coefficient d precision scale = Inr z" ..
  have "exactly d scale z \<and> \<bar>z\<bar> < 10 ^ precision"
  proof -
    from d(1) have "decimal_ok d" by (rule parse_decimal_Inr)
    with z s(4,5) \<open>d_integer_digits d + scale \<le> precision\<close> show ?thesis
      by (simp add: exact_coefficient)
  qed
  with d(1) z show ?thesis by blast
qed

theorem inferred_column_holds_every_value_witness:
  "\<exists>s. observe_all [Some ''9999'', None, Some ''1.2345''] stats_default = Inr s
     \<and> inferred s = Some (8, 4)
     \<and> (\<exists>d z. parse_decimal ''9999'' = Inr d \<and> coefficient d 8 4 = Inr z \<and> exactly d 4 z)"
proof -
  let ?s = "\<lparr>st_scale = 4, st_integer_digits = 4, st_present = True, st_special = False\<rparr>"
  have obs: "observe_all [Some ''9999'', None, Some ''1.2345''] stats_default = Inr ?s" by code_simp
  have inf: "inferred ?s = Some (8, 4)" by code_simp
  show ?thesis
    using inferred_column_holds_every_value [OF obs inf, of "''9999''"] obs inf by auto
qed

end
