(* ===== verification/Names.thy ===== *)
theory Names
  imports Rust_Str
begin

text \<open>
  Unique names (\<open>src/model.rs\<close>): the copy names of connections, sign-ins and tabs, and the scopes
  of a sign-in. A search tries candidates until one is free; \<open>is_taken\<close> is any predicate, so the
  search is a partial function whose value \<open>None\<close> means that it does not end.
\<close>

definition MAX_PROFILE_NAME :: nat where "MAX_PROFILE_NAME = 60"
definition MAX_SIGN_IN_NAME :: nat where "MAX_SIGN_IN_NAME = 60"
definition MAX_TAB_TITLE :: nat where "MAX_TAB_TITLE = 60"

section \<open>The search\<close>

partial_function (option) find_free ::
  "(nat \<Rightarrow> string) \<Rightarrow> (string \<Rightarrow> bool) \<Rightarrow> nat \<Rightarrow> string option" where
  "find_free candidate is_taken copy =
     (if \<not> is_taken (candidate copy) then Some (candidate copy)
      else find_free candidate is_taken (copy + 1))"

declare find_free.simps [code]

text \<open>
  The contract of a search: different numbers give different candidates. Then a finite set of taken
  names cannot stop it, and it ends after at most one more candidate than there are taken names.
\<close>

locale fresh_search =
  fixes candidate :: "nat \<Rightarrow> string"
  assumes distinct_candidates: "1 \<le> i \<Longrightarrow> 1 \<le> j \<Longrightarrow> candidate i = candidate j \<Longrightarrow> i = j"
begin

lemma find_free_first:
  assumes "1 \<le> n" "\<not> is_taken (candidate n)" "k \<le> n" "\<forall>j. k \<le> j \<and> j < n \<longrightarrow> is_taken (candidate j)"
  shows "find_free candidate is_taken k = Some (candidate n)"
  using assms(3,4)
proof (induction "n - k" arbitrary: k)
  case 0
  then show ?case using assms(2) by (subst find_free.simps) simp
next
  case (Suc m)
  then have "is_taken (candidate k)" by simp
  moreover have "find_free candidate is_taken (k + 1) = Some (candidate n)"
    using Suc by simp
  ultimately show ?case by (subst find_free.simps) simp
qed

lemma find_free_ends:
  assumes fin: "finite {s. is_taken s}"
  shows "\<exists>n. 1 \<le> n \<and> n \<le> card {s. is_taken s} + 1 \<and> \<not> is_taken (candidate n)
       \<and> find_free candidate is_taken 1 = Some (candidate n)"
proof -
  let ?N = "card {s. is_taken s} + 1"
  have "\<exists>n \<in> {1..?N}. \<not> is_taken (candidate n)"
  proof (rule ccontr)
    assume "\<not> (\<exists>n \<in> {1..?N}. \<not> is_taken (candidate n))"
    then have sub: "candidate ` {1..?N} \<subseteq> {s. is_taken s}" by auto
    have "inj_on candidate {1..?N}" using distinct_candidates by (auto intro: inj_onI)
    then have "card (candidate ` {1..?N}) = ?N" by (simp add: card_image)
    with card_mono [OF fin sub] show False by simp
  qed
  then obtain m where m: "1 \<le> m" "m \<le> ?N" "\<not> is_taken (candidate m)" by auto
  define n where "n = (LEAST n. 1 \<le> n \<and> \<not> is_taken (candidate n))"
  have n: "1 \<le> n \<and> \<not> is_taken (candidate n)"
    unfolding n_def by (rule LeastI [of _ m]) (use m in simp)
  have "n \<le> m" unfolding n_def by (rule Least_le) (use m in simp)
  moreover have "\<forall>j. 1 \<le> j \<and> j < n \<longrightarrow> is_taken (candidate j)"
    using not_less_Least unfolding n_def by blast
  with n have "find_free candidate is_taken 1 = Some (candidate n)"
    by (intro find_free_first) auto
  ultimately show ?thesis using n m(2) by (intro exI [of _ n]) auto
qed

end

section \<open>The names of the code\<close>

definition copy_suffix :: "nat \<Rightarrow> string" where
  "copy_suffix copy = (if copy = 1 then '' copy'' else '' copy '' @ show_nat copy)"

definition copied_name_candidate :: "string \<Rightarrow> nat \<Rightarrow> nat \<Rightarrow> string" where
  "copied_name_candidate name max_chars copy =
     (let suffix = copy_suffix copy;
          available = max_chars - char_count suffix
      in take_chars available name @ suffix)"

definition copied_name :: "string \<Rightarrow> nat \<Rightarrow> (string \<Rightarrow> bool) \<Rightarrow> string option" where
  "copied_name name max_chars is_taken = find_free (copied_name_candidate name max_chars) is_taken 1"

definition copied_profile_name :: "string \<Rightarrow> (string \<Rightarrow> bool) \<Rightarrow> string option" where
  "copied_profile_name name is_taken = copied_name name MAX_PROFILE_NAME is_taken"

definition unique_sign_in_name :: "string \<Rightarrow> (string \<Rightarrow> bool) \<Rightarrow> string option" where
  "unique_sign_in_name name is_taken =
     (if \<not> is_taken name then Some name else copied_name name MAX_SIGN_IN_NAME is_taken)"

definition title_with_suffix :: "string \<Rightarrow> string \<Rightarrow> string" where
  "title_with_suffix title suffix =
     (let available = MAX_TAB_TITLE - char_count suffix in take_chars available title @ suffix)"

definition copied_tab_candidate :: "string \<Rightarrow> nat \<Rightarrow> string" where
  "copied_tab_candidate title copy =
     title_with_suffix title
       (if copy = 1 then '' (Copy)'' else '' (Copy '' @ show_nat copy @ '')'')"

definition copied_tab_title :: "string \<Rightarrow> (string \<Rightarrow> bool) \<Rightarrow> string option" where
  "copied_tab_title title is_taken = find_free (copied_tab_candidate title) is_taken 1"

definition unique_tab_title :: "string \<Rightarrow> (string \<Rightarrow> bool) \<Rightarrow> string option" where
  "unique_tab_title title is_taken =
     (if \<not> is_taken title then Some title else copied_tab_title title is_taken)"

text \<open>The outer option of the code is \<open>Some None\<close> for a blank title.\<close>

definition conversation_tab_title :: "string \<Rightarrow> (string \<Rightarrow> bool) \<Rightarrow> string option option" where
  "conversation_tab_title title is_taken =
     (let t = trim_end (take_chars MAX_TAB_TITLE (trim title)) in
      if t = [] then Some None else map_option Some (unique_tab_title t is_taken))"

section \<open>Scopes\<close>

definition BASE_SCOPES :: "string list" where
  "BASE_SCOPES = [''openid'', ''profile'', ''email'']"

fun extra_scopes_loop :: "string list \<Rightarrow> string list \<Rightarrow> string list" where
  "extra_scopes_loop extra [] = extra"
| "extra_scopes_loop extra (scope # rest) =
     (if scope \<notin> set BASE_SCOPES \<and> scope \<notin> set extra
      then extra_scopes_loop (extra @ [scope]) rest
      else extra_scopes_loop extra rest)"

definition extra_scopes :: "string list \<Rightarrow> string list" where
  "extra_scopes scopes = extra_scopes_loop [] scopes"

section \<open>Different numbers give different names\<close>

lemma digit_suffix_unique:
  assumes "a @ c # ds = b @ d # es" "\<not> is_ascii_digit c" "\<not> is_ascii_digit d"
    and "\<forall>x \<in> set ds. is_ascii_digit x" "\<forall>x \<in> set es. is_ascii_digit x"
  shows "ds = es"
proof -
  have "takeWhile is_ascii_digit (rev (a @ c # ds)) = rev ds" if "\<not> is_ascii_digit c" "\<forall>x \<in> set ds. is_ascii_digit x"
    for a c ds using that by (simp add: takeWhile_tail)
  from this [OF assms(2,4), of a] this [OF assms(3,5), of b] assms(1) show ?thesis by simp
qed

lemma last_show_nat: "is_ascii_digit (last (show_nat n))"
  by (rule show_nat_digits [of _ n]) (rule last_in_set, simp)

lemma space_not_digit: "\<not> is_ascii_digit CHR '' ''" "\<not> is_ascii_digit CHR ''y''" "\<not> is_ascii_digit CHR '')''"
  by (simp_all add: is_ascii_digit_def byte_def)

lemma copy_suffix_inj: "a @ copy_suffix i = b @ copy_suffix j \<Longrightarrow> i = j"
proof (cases "i = 1"; cases "j = 1")
  assume eq: "a @ copy_suffix i = b @ copy_suffix j"
  have one: "last (x @ copy_suffix 1) = CHR ''y''" for x by (simp add: copy_suffix_def)
  have more: "is_ascii_digit (last (x @ copy_suffix k))" if "k \<noteq> 1" for x k
    using that last_show_nat [of k] by (simp add: copy_suffix_def)
  {
    assume "i \<noteq> 1" "j \<noteq> 1"
    then have "(a @ '' copy'') @ CHR '' '' # show_nat i = (b @ '' copy'') @ CHR '' '' # show_nat j"
      using eq by (simp add: copy_suffix_def)
    then have "show_nat i = show_nat j"
      by (rule digit_suffix_unique) (use space_not_digit show_nat_digits in auto)
    then show "i = j" by (rule show_nat_inject)
  next
    assume "i = 1" "j \<noteq> 1"
    then show "i = j" using one [of a] more [of j b] eq space_not_digit by metis
  next
    assume "i \<noteq> 1" "j = 1"
    then show "i = j" using one [of b] more [of i a] eq space_not_digit by metis
  }
qed simp

interpretation copied_names: fresh_search "copied_name_candidate name max_chars" for name max_chars
  by unfold_locales (auto simp: copied_name_candidate_def Let_def dest: copy_suffix_inj)

lemma tab_suffix_inj:
  assumes "a @ (if i = 1 then '' (Copy)'' else '' (Copy '' @ show_nat i @ '')'')
         = b @ (if j = 1 then '' (Copy)'' else '' (Copy '' @ show_nat j @ '')'')"
  shows "i = j"
proof -
  have "a @ (if i = 1 then '' (Copy'' else '' (Copy '' @ show_nat i)
      = b @ (if j = 1 then '' (Copy'' else '' (Copy '' @ show_nat j)"
    using assms arg_cong [OF assms, of butlast] by (auto simp: butlast_append split: if_splits)
  then have cut: "a @ (if i = 1 then '' (Copy'' else '' (Copy '' @ show_nat i)
      = b @ (if j = 1 then '' (Copy'' else '' (Copy '' @ show_nat j)" .
  have one: "last (x @ '' (Copy'') = CHR ''y''" for x by simp
  have more: "is_ascii_digit (last (x @ '' (Copy '' @ show_nat k))" for x k
    using last_show_nat [of k] by simp
  show ?thesis
  proof (cases "i = 1"; cases "j = 1")
    assume "i \<noteq> 1" "j \<noteq> 1"
    then have "(a @ '' (Copy'') @ CHR '' '' # show_nat i = (b @ '' (Copy'') @ CHR '' '' # show_nat j"
      using cut by simp
    then have "show_nat i = show_nat j"
      by (rule digit_suffix_unique) (use space_not_digit show_nat_digits in auto)
    then show ?thesis by (rule show_nat_inject)
  next
    assume "i = 1" "j \<noteq> 1"
    then have "a @ '' (Copy'' = b @ '' (Copy '' @ show_nat j" using cut by simp
    with one [of a] more [of b j] have "is_ascii_digit CHR ''y''" by (simp only:)
    with space_not_digit show ?thesis by blast
  next
    assume "i \<noteq> 1" "j = 1"
    then have "b @ '' (Copy'' = a @ '' (Copy '' @ show_nat i" using cut by simp
    with one [of b] more [of a i] have "is_ascii_digit CHR ''y''" by (simp only:)
    with space_not_digit show ?thesis by blast
  qed simp
qed

interpretation copied_tabs: fresh_search "copied_tab_candidate title" for title
proof unfold_locales
  fix i j assume "copied_tab_candidate title i = copied_tab_candidate title j"
  then show "i = j"
    unfolding copied_tab_candidate_def title_with_suffix_def Let_def by (rule tab_suffix_inj)
qed

section \<open>The length of the names\<close>

lemma show_nat_length: "n < 10 ^ k \<Longrightarrow> 0 < k \<Longrightarrow> length (show_nat n) \<le> k"
proof (induction k arbitrary: n)
  case (Suc k)
  show ?case
  proof (cases "n < 10")
    case True
    then show ?thesis by (subst show_nat.simps) simp
  next
    case False
    with Suc.prems have "n div 10 < 10 ^ k" "0 < k"
      by (auto simp: less_mult_imp_div_less mult.commute intro!: gr0I)
    with Suc.IH have "length (show_nat (n div 10)) \<le> k" by blast
    with False show ?thesis by (subst show_nat.simps) simp
  qed
qed simp

lemma ascii_show_nat: "c \<in> set (show_nat n) \<Longrightarrow> byte c < 128"
  using show_nat_digits by (fastforce simp: is_ascii_digit_def)

lemma char_count_ascii: "\<forall>c \<in> set s. byte c < 128 \<Longrightarrow> char_count s = length s"
  by (simp add: char_count_def chunks_ascii)

lemma char_count_suffixed:
  assumes "\<forall>c \<in> set suffix. byte c < 128" "length suffix \<le> n"
  shows "char_count (take_chars (n - char_count suffix) name @ suffix) \<le> n"
proof -
  have "char_count (take_chars (n - char_count suffix) name @ suffix)
      \<le> char_count (take_chars (n - char_count suffix) name) + length suffix"
    by (rule char_count_append_le)
  also have "\<dots> \<le> (n - length suffix) + length suffix"
    using char_count_take_chars char_count_ascii [OF assms(1)] by simp
  finally show ?thesis using assms(2) by simp
qed

lemma copied_name_bound:
  assumes "n \<le> 10 ^ 50"
  shows "char_count (copied_name_candidate name 60 n) \<le> 60"
proof -
  have "n < 10 ^ 51" by (rule le_less_trans [OF assms]) (rule power_strict_increasing, simp_all)
  then have "length (show_nat n) \<le> 51" by (rule show_nat_length) simp
  then have "length (copy_suffix n) \<le> 60" by (simp add: copy_suffix_def)
  moreover have "\<forall>c \<in> set (copy_suffix n). byte c < 128"
    using ascii_show_nat [of _ n] by (auto simp: copy_suffix_def byte_def)
  ultimately show ?thesis
    unfolding copied_name_candidate_def Let_def by (intro char_count_suffixed)
qed

lemma copied_tab_bound:
  assumes "n \<le> 10 ^ 50"
  shows "char_count (copied_tab_candidate title n) \<le> 60"
proof -
  let ?suffix = "if n = 1 then '' (Copy)'' else '' (Copy '' @ show_nat n @ '')''"
  have "n < 10 ^ 51" by (rule le_less_trans [OF assms]) (rule power_strict_increasing, simp_all)
  then have "length (show_nat n) \<le> 51" by (rule show_nat_length) simp
  then have "length ?suffix \<le> 60" by simp
  moreover have "\<forall>c \<in> set ?suffix. byte c < 128" using ascii_show_nat [of _ n] by (auto simp: byte_def)
  ultimately show ?thesis
    unfolding copied_tab_candidate_def title_with_suffix_def Let_def MAX_TAB_TITLE_def
    by (intro char_count_suffixed)
qed

text \<open>
  C25. A copy of a connection, a pasted sign-in and a copied tab always get a name: the search ends,
  the name is not taken, and it has at most 60 characters, whatever the original name and however
  long it is. A pasted sign-in and a tab title that are free are kept.
\<close>

theorem copies_get_free_names:
  assumes "finite {s. is_taken s}" "card {s. is_taken s} < 10 ^ 50"
  shows "\<exists>p s t. copied_profile_name name is_taken = Some p \<and> \<not> is_taken p \<and> char_count p \<le> 60
       \<and> unique_sign_in_name name is_taken = Some s \<and> \<not> is_taken s
       \<and> (s = name \<or> char_count s \<le> 60)
       \<and> unique_tab_title name is_taken = Some t \<and> \<not> is_taken t
       \<and> (t = name \<or> char_count t \<le> 60)"
proof -
  from copied_names.find_free_ends [OF assms(1), of name 60] obtain m where
    m: "m \<le> card {s. is_taken s} + 1" "\<not> is_taken (copied_name_candidate name 60 m)"
      "copied_name name 60 is_taken = Some (copied_name_candidate name 60 m)"
    unfolding copied_name_def by blast
  from copied_tabs.find_free_ends [OF assms(1), of name] obtain n where
    n: "n \<le> card {s. is_taken s} + 1" "\<not> is_taken (copied_tab_candidate name n)"
      "copied_tab_title name is_taken = Some (copied_tab_candidate name n)"
    unfolding copied_tab_title_def by blast
  have "m \<le> 10 ^ 50" "n \<le> 10 ^ 50" using m(1) n(1) assms(2) by linarith+
  then show ?thesis
    using m(2,3) n(2,3) copied_name_bound copied_tab_bound
    by (auto simp: copied_profile_name_def unique_sign_in_name_def unique_tab_title_def
        MAX_PROFILE_NAME_def MAX_SIGN_IN_NAME_def)
qed

theorem copies_get_free_names_witness:
  "\<exists>p. copied_profile_name ''Prod'' (\<lambda>s. s = ''Prod copy'') = Some p \<and> p \<noteq> ''Prod copy''
     \<and> char_count p \<le> 60"
  using copies_get_free_names [of "\<lambda>s. s = ''Prod copy''" "''Prod''"] by auto

lemma extra_scopes_loop_spec:
  "distinct extra \<Longrightarrow> set extra \<inter> set BASE_SCOPES = {} \<Longrightarrow>
     distinct (extra_scopes_loop extra scopes)
     \<and> set (extra_scopes_loop extra scopes) = set extra \<union> (set scopes - set BASE_SCOPES)"
  by (induction extra scopes rule: extra_scopes_loop.induct) auto

lemma extra_scopes_spec:
  "distinct (extra_scopes scopes) \<and> set (extra_scopes scopes) = set scopes - set BASE_SCOPES"
  using extra_scopes_loop_spec [of "[]" scopes] by (simp add: extra_scopes_def)

end
