(* ===== verification/Catalog_Settings.thy ===== *)
theory Catalog_Settings
  imports Sql_Statements
begin

text \<open>
  The settings of the schema tree and of the session of a connection (\<open>src/model.rs\<close>): their
  validation, the schemas that the include and exclude patterns show, and the effective settings
  of a connection that follows a shared catalog. \<open>str::to_lowercase\<close> goes by the Unicode tables;
  it is the parameter \<open>lower\<close>. The matcher's loop is a partial function; that it always ends is
  proved.
\<close>

definition MAX_SCHEMA_PATTERNS :: nat where "MAX_SCHEMA_PATTERNS = 100"
definition MAX_SCHEMA_PATTERN :: nat where "MAX_SCHEMA_PATTERN = 256"

datatype catalog_refresh = Disabled | Manual | WhileConnected

record catalog_settings =
  cs_include :: "string list"
  cs_exclude :: "string list"
  cs_refresh :: catalog_refresh
  cs_refresh_minutes :: nat
  cs_timeout_minutes :: nat

definition catalog_settings_default :: catalog_settings where
  "catalog_settings_default =
     \<lparr>cs_include = [], cs_exclude = [], cs_refresh = Disabled, cs_refresh_minutes = 60,
      cs_timeout_minutes = 30\<rparr>"

definition browses :: "catalog_settings \<Rightarrow> bool" where
  "browses c \<longleftrightarrow> cs_refresh c \<noteq> Disabled"

datatype settings_error =
    Refresh_period
  | Refresh_timeout
  | Too_many_patterns
  | Empty_pattern
  | Long_pattern
  | Idle_timeout
  | Keep_alive_interval
  | Response_timeout
  | Keep_alive_sql statement_error

fun validate_patterns :: "string list \<Rightarrow> (settings_error, unit) result" where
  "validate_patterns [] = Inr ()"
| "validate_patterns (p # ps) =
     and_then (ensure (\<not> blank p) Empty_pattern) (\<lambda>_.
     and_then (ensure (char_count p \<le> MAX_SCHEMA_PATTERN) Long_pattern) (\<lambda>_.
     validate_patterns ps))"

definition catalog_validate :: "catalog_settings \<Rightarrow> (settings_error, unit) result" where
  "catalog_validate c =
     and_then (ensure (5 \<le> cs_refresh_minutes c \<and> cs_refresh_minutes c \<le> 10080) Refresh_period) (\<lambda>_.
     and_then (ensure (1 \<le> cs_timeout_minutes c \<and> cs_timeout_minutes c \<le> 1440) Refresh_timeout) (\<lambda>_.
     and_then (ensure (length (cs_include c) \<le> MAX_SCHEMA_PATTERNS) Too_many_patterns) (\<lambda>_.
     and_then (validate_patterns (cs_include c)) (\<lambda>_.
     and_then (ensure (length (cs_exclude c) \<le> MAX_SCHEMA_PATTERNS) Too_many_patterns) (\<lambda>_.
     validate_patterns (cs_exclude c))))))"

section \<open>Patterns\<close>

abbreviation star_char :: string where "star_char \<equiv> ''*''"
abbreviation any_char :: string where "any_char \<equiv> ''?''"

text \<open>
  The loop over the characters of the pattern and of the text, with one point to go back to.
  The branches of the \<open>match\<close> are in the code's order.
\<close>

partial_function (option) glob_loop ::
  "string list \<Rightarrow> string list \<Rightarrow> nat \<Rightarrow> nat \<Rightarrow> (nat \<times> nat) option \<Rightarrow> bool option" where
  "glob_loop pattern text p t star =
     (if \<not> t < length text then Some (list_all (\<lambda>c. c = star_char) (drop p pattern))
      else if p < length pattern \<and> pattern ! p = star_char
      then glob_loop pattern text (p + 1) t (Some (p, t))
      else if p < length pattern \<and> (pattern ! p = any_char \<or> pattern ! p = text ! t)
      then glob_loop pattern text (p + 1) (t + 1) star
      else
        (case star of
           Some (star_p, star_t) \<Rightarrow>
             glob_loop pattern text (star_p + 1) (star_t + 1) (Some (star_p, star_t + 1))
         | None \<Rightarrow> Some False))"

declare glob_loop.simps [code]

definition glob_match :: "(string \<Rightarrow> string) \<Rightarrow> string \<Rightarrow> string \<Rightarrow> bool option" where
  "glob_match lower pattern text =
     glob_loop (chunks (lower (trim pattern))) (chunks (lower text)) 0 0 None"

text \<open>\<open>any\<close> over patterns: it stops at the first match.\<close>

fun any_match :: "(string \<Rightarrow> string) \<Rightarrow> string list \<Rightarrow> string \<Rightarrow> bool option" where
  "any_match lower [] text = Some False"
| "any_match lower (p # ps) text =
     (case glob_match lower p text of
        None \<Rightarrow> None
      | Some True \<Rightarrow> Some True
      | Some False \<Rightarrow> any_match lower ps text)"

definition shows_schema :: "(string \<Rightarrow> string) \<Rightarrow> catalog_settings \<Rightarrow> string \<Rightarrow> bool option" where
  "shows_schema lower c schema =
     (case (if cs_include c = [] then Some True else any_match lower (cs_include c) schema) of
        None \<Rightarrow> None
      | Some False \<Rightarrow> Some False
      | Some True \<Rightarrow> map_option Not (any_match lower (cs_exclude c) schema))"

section \<open>Shared catalogs\<close>

record shared_catalog =
  sc_id :: nat
  sc_name :: string
  sc_settings :: catalog_settings
  sc_preferred :: "nat option"

text \<open>The connection's own settings and its choice of a shared catalog are the arguments.\<close>

definition effective_catalog ::
  "nat option \<Rightarrow> catalog_settings \<Rightarrow> shared_catalog list \<Rightarrow> catalog_settings" where
  "effective_catalog choice own shared =
     (case (case choice of None \<Rightarrow> None | Some i \<Rightarrow> List.find (\<lambda>c. sc_id c = i) shared) of
        Some c \<Rightarrow> if browses own then sc_settings c else own
      | None \<Rightarrow> own)"

section \<open>The session of a connection\<close>

record connection_lifecycle =
  lc_idle_seconds :: nat
  lc_keep_alive_seconds :: nat
  lc_keep_alive_sql :: string
  lc_response_timeout_seconds :: nat

definition lifecycle_default :: connection_lifecycle where
  "lifecycle_default =
     \<lparr>lc_idle_seconds = 900, lc_keep_alive_seconds = 0, lc_keep_alive_sql = ''SELECT 1'',
      lc_response_timeout_seconds = 300\<rparr>"

definition lifecycle_validate :: "unicode \<Rightarrow> connection_lifecycle \<Rightarrow> (settings_error, unit) result" where
  "lifecycle_validate u l =
     and_then (ensure (1 \<le> lc_idle_seconds l \<and> lc_idle_seconds l \<le> 604800) Idle_timeout) (\<lambda>_.
     and_then (ensure (lc_keep_alive_seconds l \<le> 604800) Keep_alive_interval) (\<lambda>_.
     and_then (ensure (10 \<le> lc_response_timeout_seconds l \<and> lc_response_timeout_seconds l \<le> 3600)
         Response_timeout) (\<lambda>_.
     if 0 < lc_keep_alive_seconds l then
       (case validate_single u (lc_keep_alive_sql l) of
          Inl e \<Rightarrow> Inl (Keep_alive_sql e)
        | Inr _ \<Rightarrow> Inr ())
     else Inr ())))"

section \<open>What a pattern matches\<close>

text \<open>\<open>*\<close> matches any text, \<open>?\<close> any character, and another character itself.\<close>

fun wildcard :: "string list \<Rightarrow> string list \<Rightarrow> bool" where
  "wildcard [] ts \<longleftrightarrow> ts = []"
| "wildcard (c # ps) [] \<longleftrightarrow> c = star_char \<and> wildcard ps []"
| "wildcard (c # ps) (t # ts) \<longleftrightarrow>
     (if c = star_char then wildcard ps (t # ts) \<or> wildcard (c # ps) ts
      else (c = any_char \<or> c = t) \<and> wildcard ps ts)"

lemma wildcard_Nil: "wildcard ps [] \<longleftrightarrow> list_all (\<lambda>c. c = star_char) ps"
  by (induction ps) auto

lemma wildcard_star: "wildcard (star_char # ps) ts \<longleftrightarrow> (\<exists>k < Suc (length ts). wildcard ps (drop k ts))"
proof (induction ts)
  case (Cons t ts)
  have "(\<exists>k < Suc (length (t # ts)). wildcard ps (drop k (t # ts)))
      \<longleftrightarrow> wildcard ps (t # ts) \<or> (\<exists>k < Suc (length ts). wildcard ps (drop k ts))"
    unfolding Ex_less_Suc2 [of "length (t # ts)"] by simp
  with Cons show ?case by simp
qed simp

text \<open>A part of the pattern without stars matches a text of its own length.\<close>

lemma wildcard_segment:
  "\<forall>c \<in> set seg. c \<noteq> star_char \<Longrightarrow> wildcard (seg @ ps) ts \<Longrightarrow>
     length seg \<le> length ts \<and> wildcard ps (drop (length seg) ts)"
proof (induction seg arbitrary: ts)
  case (Cons c seg)
  then obtain t us where "ts = t # us" by (cases ts) auto
  with Cons show ?case by (auto split: if_splits)
qed simp

text \<open>
  The state of the loop: the point to go back to is a star, what follows it up to here has no star,
  and it was matched with the text from the point to go back to.
\<close>

definition glob_ok :: "string list \<Rightarrow> string list \<Rightarrow> nat \<Rightarrow> nat \<Rightarrow> (nat \<times> nat) option \<Rightarrow> bool" where
  "glob_ok P T p t star \<longleftrightarrow>
     p \<le> length P \<and> t \<le> length T
     \<and> (case star of None \<Rightarrow> True
        | Some (sp, st) \<Rightarrow> sp < p \<and> st \<le> t \<and> p - (sp + 1) = t - st \<and> P ! sp = star_char
            \<and> (\<forall>i. sp < i \<and> i < p \<longrightarrow> P ! i \<noteq> star_char))"

definition glob_goal :: "string list \<Rightarrow> string list \<Rightarrow> nat \<Rightarrow> nat \<Rightarrow> (nat \<times> nat) option \<Rightarrow> bool" where
  "glob_goal P T p t star \<longleftrightarrow>
     wildcard (drop p P) (drop t T)
     \<or> (case star of None \<Rightarrow> False
        | Some (sp, st) \<Rightarrow> \<exists>k. st < k \<and> k \<le> length T \<and> wildcard (drop (sp + 1) P) (drop k T))"

lemma wildcard_step:
  assumes "p < length P" "t < length T" "P ! p \<noteq> star_char"
  shows "wildcard (drop p P) (drop t T) \<longleftrightarrow>
    (P ! p = any_char \<or> P ! p = T ! t) \<and> wildcard (drop (p + 1) P) (drop (t + 1) T)"
  using assms by (simp add: Cons_nth_drop_Suc [symmetric])

lemma wildcard_at_star:
  assumes "p < length P" "t \<le> length T" "P ! p = star_char"
  shows "wildcard (drop p P) (drop t T) \<longleftrightarrow> (\<exists>k. t \<le> k \<and> k \<le> length T \<and> wildcard (drop (p + 1) P) (drop k T))"
proof -
  have "drop p P = star_char # drop (p + 1) P" using assms by (simp add: Cons_nth_drop_Suc [symmetric])
  then have "wildcard (drop p P) (drop t T) \<longleftrightarrow> (\<exists>k < Suc (length T - t). wildcard (drop (p + 1) P) (drop k (drop t T)))"
    using wildcard_star [of "drop (p + 1) P" "drop t T"] by simp
  also have "\<dots> \<longleftrightarrow> (\<exists>k. t \<le> k \<and> k \<le> length T \<and> wildcard (drop (p + 1) P) (drop k T))"
  proof
    assume "\<exists>k < Suc (length T - t). wildcard (drop (p + 1) P) (drop k (drop t T))"
    then obtain k where "k \<le> length T - t" "wildcard (drop (p + 1) P) (drop (t + k) T)"
      by (auto simp: add.commute less_Suc_eq_le)
    with assms(2) show "\<exists>k. t \<le> k \<and> k \<le> length T \<and> wildcard (drop (p + 1) P) (drop k T)"
      by (intro exI [of _ "t + k"]) simp
  next
    assume "\<exists>k. t \<le> k \<and> k \<le> length T \<and> wildcard (drop (p + 1) P) (drop k T)"
    then obtain k where "t \<le> k" "k \<le> length T" "wildcard (drop (p + 1) P) (drop k T)" by blast
    then show "\<exists>k < Suc (length T - t). wildcard (drop (p + 1) P) (drop k (drop t T))"
      by (intro exI [of _ "k - t"]) simp
  qed
  finally show ?thesis .
qed

text \<open>A match from another point to go back to passes the text of the same segment first.\<close>

lemma segment_first:
  assumes ok: "glob_ok P T p t (Some (sp, st))" and w: "wildcard (drop (sp + 1) P) (drop k T)"
  shows "t - st \<le> length T - k \<and> wildcard (drop p P) (drop (k + (t - st)) T)"
proof -
  let ?seg = "take (p - (sp + 1)) (drop (sp + 1) P)"
  from ok have sp: "sp < p" "p \<le> length P" "p - (sp + 1) = t - st" by (simp_all add: glob_ok_def)
  have len: "length ?seg = t - st" using sp by simp
  have "\<forall>c \<in> set ?seg. c \<noteq> star_char"
  proof
    fix c assume "c \<in> set ?seg"
    then obtain i where "i < p - (sp + 1)" "i < length P - (sp + 1)" "c = drop (sp + 1) P ! i"
      by (auto simp: in_set_conv_nth)
    then have "c = P ! (sp + 1 + i)" "sp < sp + 1 + i" "sp + 1 + i < p" using sp by simp_all
    with ok show "c \<noteq> star_char" by (auto simp: glob_ok_def)
  qed
  moreover have "drop (p - (sp + 1)) (drop (sp + 1) P) = drop p P" using sp(1) by simp
  then have "drop (sp + 1) P = ?seg @ drop p P"
    using append_take_drop_id [of "p - (sp + 1)" "drop (sp + 1) P"] by argo
  with w have "wildcard (?seg @ drop p P) (drop k T)" by simp
  ultimately have "length ?seg \<le> length (drop k T) \<and> wildcard (drop p P) (drop (length ?seg) (drop k T))"
    by (rule wildcard_segment)
  then show ?thesis unfolding len by (simp add: add.commute)
qed

text \<open>At a new star, no earlier point to go back to is needed.\<close>

lemma later_star_absorbs:
  assumes ok: "glob_ok P T p t star" and p: "p < length P" "P ! p = star_char"
  shows "glob_goal P T p t star \<longleftrightarrow> (\<exists>j. t \<le> j \<and> j \<le> length T \<and> wildcard (drop (p + 1) P) (drop j T))"
proof -
  from ok have t: "t \<le> length T" by (simp add: glob_ok_def)
  note star = wildcard_at_star [OF p(1) _ p(2)]
  have "\<exists>j. t \<le> j \<and> j \<le> length T \<and> wildcard (drop (p + 1) P) (drop j T)"
    if s: "star = Some (sp, st)" and k: "st < k" "k \<le> length T" "wildcard (drop (sp + 1) P) (drop k T)" for sp st k
  proof -
    let ?j = "k + (t - st)"
    have "t - st \<le> length T - k" "wildcard (drop p P) (drop ?j T)"
      using segment_first [OF ok [unfolded s] k(3)] by blast+
    moreover from this(1) k(2) have "?j \<le> length T" by linarith
    ultimately obtain j where "?j \<le> j" "j \<le> length T" "wildcard (drop (p + 1) P) (drop j T)"
      using star by blast
    moreover have "t \<le> ?j" using k(1) by simp
    ultimately show ?thesis by (meson le_trans)
  qed
  then have "(case star of None \<Rightarrow> False | Some (sp, st) \<Rightarrow>
        \<exists>k. st < k \<and> k \<le> length T \<and> wildcard (drop (sp + 1) P) (drop k T)) \<Longrightarrow>
      \<exists>j. t \<le> j \<and> j \<le> length T \<and> wildcard (drop (p + 1) P) (drop j T)"
    by (cases star) auto
  with star [OF t] show ?thesis unfolding glob_goal_def by blast
qed

lemma goal_at_end:
  assumes ok: "glob_ok P T p (length T) star"
  shows "glob_goal P T p (length T) star \<longleftrightarrow> wildcard (drop p P) []"
proof (cases star)
  case (Some q)
  obtain sp st where q: "q = (sp, st)" by fastforce
  have "wildcard (drop p P) []" if k: "st < k" "k \<le> length T" "wildcard (drop (sp + 1) P) (drop k T)" for k
  proof -
    have "length T - st \<le> length T - k" "st \<le> length T"
      using segment_first [OF ok [unfolded Some q] k(3)] ok by (simp_all add: glob_ok_def Some q)
    with k show ?thesis by linarith
  qed
  with Some q show ?thesis by (auto simp: glob_goal_def)
qed (simp add: glob_goal_def)

text \<open>The loop ends, with the answer of the specification.\<close>

lemma glob_loop_correct:
  "glob_ok P T p t star \<Longrightarrow> glob_loop P T p t star = Some (glob_goal P T p t star)"
proof (induction "(P, T, p, t, star)" arbitrary: p t star
    rule: wf_induct_rule [OF wf_measures [of
      "[\<lambda>(P, T, p, t, star). length P - (case star of None \<Rightarrow> 0 | Some (sp, st) \<Rightarrow> sp + 1),
        \<lambda>(P, T, p, t, star). length T - (case star of None \<Rightarrow> 0 | Some (sp, st) \<Rightarrow> st),
        \<lambda>(P, T, p, t, star). length T - t]"]])
  case (1 p t star)
  note ok = 1(2)
  then have bounds: "p \<le> length P" "t \<le> length T" by (simp_all add: glob_ok_def)
  show ?case
  proof (cases "t < length T")
    case False
    with bounds have t: "t = length T" by simp
    with goal_at_end [of P T p star] ok False show ?thesis
      by (subst glob_loop.simps) (simp add: wildcard_Nil)
  next
    case True
    note t = True
    show ?thesis
    proof (cases "p < length P \<and> P ! p = star_char")
      case True
      then have p: "p < length P" "P ! p = star_char" by simp_all
      have ok': "glob_ok P T (p + 1) t (Some (p, t))" using p bounds by (auto simp: glob_ok_def less_Suc_eq)
      have "case star of None \<Rightarrow> True | Some (sp, st) \<Rightarrow> sp < p"
        using ok by (auto simp: glob_ok_def split: option.splits)
      then have IH: "glob_loop P T (p + 1) t (Some (p, t)) = Some (glob_goal P T (p + 1) t (Some (p, t)))"
        using p ok' by (intro 1(1)) (auto split: option.splits)
      have "glob_goal P T (p + 1) t (Some (p, t)) \<longleftrightarrow> glob_goal P T p t star"
      proof -
        have "glob_goal P T (p + 1) t (Some (p, t))
            \<longleftrightarrow> (\<exists>k. t \<le> k \<and> k \<le> length T \<and> wildcard (drop (p + 1) P) (drop k T))"
          using bounds(2) by (auto simp: glob_goal_def order_le_less)
        with later_star_absorbs [OF ok p] show ?thesis by blast
      qed
      with IH t p show ?thesis by (subst glob_loop.simps) simp
    next
      case False
      note nostar = False
      show ?thesis
      proof (cases "p < length P \<and> (P ! p = any_char \<or> P ! p = T ! t)")
        case True
        have ok': "glob_ok P T (p + 1) (t + 1) star"
          using ok True nostar t by (auto simp: glob_ok_def less_Suc_eq split: option.splits)
        have IH: "glob_loop P T (p + 1) (t + 1) star = Some (glob_goal P T (p + 1) (t + 1) star)"
          using t ok' by (intro 1(1)) auto
        have "glob_goal P T (p + 1) (t + 1) star \<longleftrightarrow> glob_goal P T p t star"
          using wildcard_step [of p P t T] True nostar t by (auto simp: glob_goal_def)
        with IH t nostar True show ?thesis by (subst glob_loop.simps) auto
      next
        case False
        have no: "\<not> wildcard (drop p P) (drop t T)"
        proof (cases "p < length P")
          case True
          with wildcard_step [of p P t T] False nostar t show ?thesis by simp
        next
          case False
          with bounds t show ?thesis by (simp add: drop_eq_Nil2)
        qed
        show ?thesis
        proof (cases star)
          case None
          with False nostar t no show ?thesis by (subst glob_loop.simps) (auto simp: glob_goal_def)
        next
          case (Some q)
          obtain sp st where q: "q = (sp, st)" by fastforce
          from ok Some q have sp: "sp < p" "st \<le> t" "P ! sp = star_char" by (simp_all add: glob_ok_def)
          have ok': "glob_ok P T (sp + 1) (st + 1) (Some (sp, st + 1))"
            using sp bounds t by (auto simp: glob_ok_def less_Suc_eq)
          have IH: "glob_loop P T (sp + 1) (st + 1) (Some (sp, st + 1))
              = Some (glob_goal P T (sp + 1) (st + 1) (Some (sp, st + 1)))"
            using sp t ok' Some q by (intro 1(1)) auto
          have "glob_goal P T (sp + 1) (st + 1) (Some (sp, st + 1)) \<longleftrightarrow> glob_goal P T p t star"
          proof -
            have "(\<exists>k. st < k \<and> k \<le> length T \<and> w k) \<longleftrightarrow> w (st + 1) \<or> (\<exists>k. st + 1 < k \<and> k \<le> length T \<and> w k)"
              if "st < length T" for w
            proof -
              have split: "st < k \<longleftrightarrow> k = st + 1 \<or> st + 1 < k" for k by arith
              from that have "st + 1 \<le> length T" by simp
              then show ?thesis unfolding split by blast
            qed
            from this [of "\<lambda>k. wildcard (drop (sp + 1) P) (drop k T)"] sp t no Some q show ?thesis
              by (auto simp: glob_goal_def)
          qed
          moreover have "glob_loop P T p t star = glob_loop P T (sp + 1) (st + 1) (Some (sp, st + 1))"
            using False nostar t Some q by (subst glob_loop.simps) auto
          ultimately show ?thesis using IH by simp
        qed
      qed
    qed
  qed
qed

lemma glob_match_correct:
  "glob_match lower pattern text = Some (wildcard (chunks (lower (trim pattern))) (chunks (lower text)))"
  using glob_loop_correct [of _ _ 0 0 None]
  by (simp add: glob_match_def glob_ok_def glob_goal_def)

lemma any_match_correct:
  "any_match lower ps text =
     Some (list_ex (\<lambda>p. wildcard (chunks (lower (trim p))) (chunks (lower text))) ps)"
  by (induction ps) (simp_all add: glob_match_correct split: bool.split)

section \<open>Properties\<close>

text \<open>
  The matching of schema patterns always ends, and it is the meaning of the patterns: a schema
  is shown exactly when there are no include patterns or one matches, and no exclude pattern
  matches, where a star stands for any text and a question mark for one character. Going back to
  the last star only is enough.
\<close>

theorem shown_schemas_match_patterns:
  "shows_schema lower c schema =
     Some ((cs_include c = []
            \<or> list_ex (\<lambda>p. wildcard (chunks (lower (trim p))) (chunks (lower schema))) (cs_include c))
           \<and> \<not> list_ex (\<lambda>p. wildcard (chunks (lower (trim p))) (chunks (lower schema))) (cs_exclude c))"
  unfolding shows_schema_def any_match_correct by (auto split: bool.split)

text \<open>The validation accepts exactly the settings in the limits.\<close>

lemma validate_patterns_ok:
  "validate_patterns ps = Inr () \<longleftrightarrow> list_all (\<lambda>p. \<not> blank p \<and> char_count p \<le> 256) ps"
  by (induction ps) (auto simp: and_then_Inr_iff MAX_SCHEMA_PATTERN_def)

lemma catalog_validate_ok:
  "catalog_validate c = Inr () \<longleftrightarrow>
     5 \<le> cs_refresh_minutes c \<and> cs_refresh_minutes c \<le> 10080
     \<and> 1 \<le> cs_timeout_minutes c \<and> cs_timeout_minutes c \<le> 1440
     \<and> length (cs_include c) \<le> 100 \<and> length (cs_exclude c) \<le> 100
     \<and> list_all (\<lambda>p. \<not> blank p \<and> char_count p \<le> 256) (cs_include c @ cs_exclude c)"
  by (auto simp: catalog_validate_def and_then_Inr_iff validate_patterns_ok MAX_SCHEMA_PATTERNS_def)

end
