(* ===== verification/Schema_Rules.thy ===== *)
theory Schema_Rules
  imports Rust_Str Database_Type
begin

text \<open>
  The dbt project of a connection (\<open>src/model.rs\<close>): its rules that map a dbt schema to a catalog
  schema, their text form, and their validation.
\<close>

section \<open>Lines and suffixes\<close>

text \<open>\<open>str::lines\<close>: a line ends with a line feed, and a carriage return before it is dropped.\<close>

definition strip_cr :: "string \<Rightarrow> string" where
  "strip_cr s = (if s \<noteq> [] \<and> last s = carriage_return then butlast s else s)"

function str_lines :: "string \<Rightarrow> string list" where
  "str_lines s =
     (if s = [] then []
      else
        (case position (\<lambda>c. c = newline) s of
           None \<Rightarrow> [s]
         | Some i \<Rightarrow> strip_cr (take i s) # str_lines (drop (i + 1) s)))"
  by pat_completeness auto
termination by (relation "measure length") auto

declare str_lines.simps [simp del]

definition strip_suffix :: "string \<Rightarrow> char \<Rightarrow> string option" where
  "strip_suffix s c = (if s \<noteq> [] \<and> last s = c then Some (butlast s) else None)"

lemma strip_suffix_snoc [simp]: "strip_suffix (s @ [c]) d = (if c = d then Some s else None)"
  by (simp add: strip_suffix_def)

section \<open>The rules\<close>

definition MAX_SCHEMA_RULES :: nat where "MAX_SCHEMA_RULES = 50"

datatype schema_rule_kind = Prefix | Exact
datatype dbt_refresh = Automatic | Manual_refresh

record schema_rule =
  sr_kind :: schema_rule_kind
  sr_from :: string
  sr_to :: string

record dbt_project =
  dp_manifest :: string
  dp_refresh :: dbt_refresh
  dp_schema_mapping :: "schema_rule list"

datatype dbt_error = No_manifest | Too_many_rules | Bad_rule | Bad_line nat

text \<open>\<open>Path::is_absolute\<close> on Unix.\<close>

definition is_absolute :: "string \<Rightarrow> bool" where
  "is_absolute s \<longleftrightarrow> starts_with s ''/''"

definition dbt_validate :: "dbt_project \<Rightarrow> (dbt_error, unit) result" where
  "dbt_validate p =
     (if \<not> is_absolute (dp_manifest p) then Inl No_manifest
      else if MAX_SCHEMA_RULES < length (dp_schema_mapping p) then Inl Too_many_rules
      else if list_all
          (\<lambda>r. \<not> blank (sr_from r) \<and> (sr_kind r = Prefix \<or> \<not> blank (sr_to r)))
          (dp_schema_mapping p)
        then Inr () else Inl Bad_rule)"

text \<open>\<open>str::get(..n)\<close>: nothing when \<open>n\<close> is past the end or inside a character.\<close>

definition get_to :: "string \<Rightarrow> nat \<Rightarrow> string option" where
  "get_to s n = (if is_char_boundary s n then Some (take n s) else None)"

definition rule_applies :: "schema_rule \<Rightarrow> string \<Rightarrow> bool" where
  "rule_applies r schema \<longleftrightarrow>
     (case sr_kind r of
        Exact \<Rightarrow> eq_ignore_ascii_case schema (sr_from r)
      | Prefix \<Rightarrow>
          (case get_to schema (length (sr_from r)) of
             None \<Rightarrow> False
           | Some start \<Rightarrow> eq_ignore_ascii_case start (sr_from r)))"

definition rule_result :: "schema_rule \<Rightarrow> string \<Rightarrow> string" where
  "rule_result r schema =
     (case sr_kind r of
        Exact \<Rightarrow> sr_to r
      | Prefix \<Rightarrow> sr_to r @ drop (length (sr_from r)) schema)"

fun map_schema_loop :: "schema_rule list \<Rightarrow> string \<Rightarrow> string" where
  "map_schema_loop [] schema = schema"
| "map_schema_loop (r # rs) schema =
     (if rule_applies r schema then rule_result r schema else map_schema_loop rs schema)"

definition map_schema :: "dbt_project \<Rightarrow> string \<Rightarrow> string" where
  "map_schema p schema = map_schema_loop (dp_schema_mapping p) schema"

section \<open>The text of the rules\<close>

definition name_text :: "unicode \<Rightarrow> string \<Rightarrow> bool" where
  "name_text u s \<longleftrightarrow>
     list_all (\<lambda>c. is_alphanumeric u (code_point c) \<or> c = ''_'' \<or> c = ''-'') (chunks s)"

definition rule_of :: "string \<Rightarrow> string \<Rightarrow> schema_rule option" where
  "rule_of from to =
     (case (strip_suffix from CHR ''*'', strip_suffix to CHR ''*'') of
        (Some f, Some t) \<Rightarrow> Some \<lparr>sr_kind = Prefix, sr_from = f, sr_to = t\<rparr>
      | (None, None) \<Rightarrow> Some \<lparr>sr_kind = Exact, sr_from = from, sr_to = to\<rparr>
      | _ \<Rightarrow> None)"

definition rule_ok :: "unicode \<Rightarrow> schema_rule \<Rightarrow> bool" where
  "rule_ok u r \<longleftrightarrow>
     \<not> (sr_from r = [] \<or> (sr_kind r = Exact \<and> sr_to r = [])
        \<or> \<not> name_text u (sr_from r) \<or> \<not> name_text u (sr_to r))"

text \<open>One line that is not blank.\<close>

definition parse_rule :: "unicode \<Rightarrow> string \<Rightarrow> schema_rule option" where
  "parse_rule u line =
     (case split_once (\<lambda>c. c = CHR ''='') line of
        None \<Rightarrow> None
      | Some (from, to) \<Rightarrow>
          (case rule_of (trim from) (trim to) of
             None \<Rightarrow> None
           | Some r \<Rightarrow> if rule_ok u r then Some r else None))"

fun parse_lines :: "unicode \<Rightarrow> nat \<Rightarrow> string list \<Rightarrow> (dbt_error, schema_rule list) result" where
  "parse_lines u number [] = Inr []"
| "parse_lines u number (l # ls) =
     (let line = trim l in
      if line = [] then parse_lines u (number + 1) ls
      else
        (case parse_rule u line of
           None \<Rightarrow> Inl (Bad_line (number + 1))
         | Some r \<Rightarrow> and_then (parse_lines u (number + 1) ls) (\<lambda>rs. Inr (r # rs))))"

definition parse_schema_rules :: "unicode \<Rightarrow> string \<Rightarrow> (dbt_error, schema_rule list) result" where
  "parse_schema_rules u text = parse_lines u 0 (str_lines text)"

definition format_rule :: "schema_rule \<Rightarrow> string" where
  "format_rule r =
     (case sr_kind r of
        Prefix \<Rightarrow> sr_from r @ ''* = '' @ sr_to r @ ''*''
      | Exact \<Rightarrow> sr_from r @ '' = '' @ sr_to r)"

definition format_schema_rules :: "schema_rule list \<Rightarrow> string" where
  "format_schema_rules rules = join [newline] (map format_rule rules)"

section \<open>The lines of a text\<close>

lemma str_lines_one:
  assumes "newline \<notin> set l"
  shows "str_lines l = (if l = [] then [] else [l])"
proof -
  have "position (\<lambda>c. c = newline) l = None" using assms by (auto simp: position_None)
  then show ?thesis by (subst str_lines.simps) simp
qed

lemma position_at:
  assumes "\<forall>x \<in> set xs. \<not> p x" "p y"
  shows "position p (xs @ y # ys) = Some (length xs)"
proof -
  have "takeWhile (\<lambda>x. \<not> p x) (xs @ y # ys) = xs" using assms by (simp add: takeWhile_tail)
  then show ?thesis by (simp add: position_def)
qed

lemma str_lines_Cons:
  assumes "newline \<notin> set l"
  shows "str_lines (l @ newline # rest) = strip_cr l # str_lines rest"
proof -
  have "position (\<lambda>c. c = newline) (l @ newline # rest) = Some (length l)"
    using assms by (intro position_at) (metis, simp)
  then show ?thesis by (subst str_lines.simps) simp
qed

lemma str_lines_join:
  assumes "\<forall>l \<in> set ls. newline \<notin> set l \<and> l \<noteq> [] \<and> last l \<noteq> carriage_return"
  shows "str_lines (join [newline] ls) = ls"
  using assms
proof (induction ls)
  case Nil
  then show ?case by (simp add: str_lines.simps)
next
  case (Cons l ls)
  show ?case
  proof (cases ls)
    case Nil
    with Cons.prems show ?thesis by (simp add: str_lines_one)
  next
    case (Cons m ms)
    have "join [newline] (l # ls) = l @ newline # join [newline] ls"
      using Cons by simp
    moreover have "strip_cr l = l" using Cons.prems by (simp add: strip_cr_def)
    ultimately show ?thesis
      using Cons.prems Cons.IH by (simp add: str_lines_Cons del: join.simps)
  qed
qed

section \<open>Names and spaces\<close>

text \<open>No letter or digit is a space; this holds in the Unicode tables.\<close>

definition spaces_apart :: "unicode \<Rightarrow> bool" where
  "spaces_apart u \<longleftrightarrow> (\<forall>n. is_alphanumeric u n \<longrightarrow> \<not> is_whitespace n)"

lemma utf8_chunk_bytes:
  assumes "utf8_chunk c" "b \<in> set c" "byte b < 128"
  shows "c = [b]"
proof -
  obtain h t where c: "c = h # t" using assms(2) by (cases c) auto
  show ?thesis
  proof (cases "b \<in> set t")
    case True
    with assms(1,3) c show ?thesis by (auto simp: utf8_chunk_def list_all_iff)
  next
    case False
    with assms(2) c have "b = h" by simp
    with assms(1,3) c have "length c = 1" by (simp add: utf8_chunk_def)
    with c \<open>b = h\<close> show ?thesis by simp
  qed
qed

lemma name_bytes:
  assumes "utf8 s" "name_text u s" "b \<in> set s" "byte b < 128"
  shows "is_ascii_alphanumeric b \<or> b = CHR ''_'' \<or> b = CHR ''-''"
proof -
  obtain c where c: "c \<in> set (chunks s)" "b \<in> set c"
    using assms(3) concat_chunks [of s] by (metis UN_E set_concat)
  with assms(1,4) have "c = [b]" by (auto simp: utf8_def list_all_iff intro: utf8_chunk_bytes)
  with c(1) assms(2) have "is_alphanumeric u (byte b) \<or> [b] = ''_'' \<or> [b] = ''-''"
    by (auto simp: name_text_def list_all_iff)
  with assms(4) show ?thesis
    by (auto simp: is_alphanumeric_def is_alphabetic_def is_numeric_def ascii_simps)
qed

lemma name_not:
  assumes "utf8 s" "name_text u s" "byte b < 128"
    and "\<not> is_ascii_alphanumeric b" "b \<noteq> CHR ''_''" "b \<noteq> CHR ''-''"
  shows "b \<notin> set s"
  using name_bytes [OF assms(1,2) _ assms(3)] assms(4-6) by blast

lemma name_chunks_not_white:
  assumes "spaces_apart u" "name_text u s" "c \<in> set (chunks s)"
  shows "\<not> white c"
proof -
  from assms(2,3) have "is_alphanumeric u (code_point c) \<or> c = ''_'' \<or> c = ''-''"
    by (auto simp: name_text_def list_all_iff)
  with assms(1) show ?thesis
    by (auto simp: spaces_apart_def is_whitespace_def byte_def)
qed

text \<open>Trimming removes exactly the spaces around a text that starts and ends with other characters.\<close>

definition no_outer_space :: "string \<Rightarrow> bool" where
  "no_outer_space s \<longleftrightarrow> chunks s \<noteq> [] \<and> \<not> white (hd (chunks s)) \<and> \<not> white (last (chunks s))"

lemma dropWhile_hd: "xs \<noteq> [] \<Longrightarrow> \<not> p (hd xs) \<Longrightarrow> dropWhile p xs = xs"
  by (cases xs) simp_all

lemma trim_chunks:
  assumes "chunks s = ws @ chunks x @ vs" "\<forall>w \<in> set ws. white w" "\<forall>v \<in> set vs. white v" "no_outer_space x"
  shows "trim s = x"
proof -
  have left: "dropWhile white (ws @ chunks x @ vs) = chunks x @ vs"
    using assms(2,4) by (simp add: dropWhile_append2 no_outer_space_def dropWhile_hd)
  have "rev (chunks x) \<noteq> []" "hd (rev (chunks x)) = last (chunks x)"
    using assms(4) by (simp_all add: no_outer_space_def hd_rev)
  then have "dropWhile white (rev (chunks x)) = rev (chunks x)"
    using assms(4) by (intro dropWhile_hd) (simp_all add: no_outer_space_def)
  then have right: "dropWhile white (rev (chunks x @ vs)) = rev (chunks x)"
    using assms(3) dropWhile_append2 [of "rev vs" white "rev (chunks x)"] by simp
  show ?thesis unfolding trim_def assms(1) left right by simp
qed

lemma trim_id: "no_outer_space x \<Longrightarrow> trim x = x"
  by (rule trim_chunks [of _ "[]" _ "[]"]) simp_all

lemma chunks_space: "chunks ('' '' @ s) = '' '' # chunks s"
  by (simp add: byte_def)

lemma white_space: "white '' ''"
  by (simp add: byte_def is_whitespace_def)

lemma trim_space_before: "no_outer_space x \<Longrightarrow> trim ('' '' @ x) = x"
  by (rule trim_chunks [of _ "['' '']" _ "[]"]) (simp_all add: chunks_space white_space del: append_Cons append_Nil chunks.simps code_point.simps)

lemma trim_space_after: "utf8 x \<Longrightarrow> no_outer_space x \<Longrightarrow> trim (x @ '' '') = x"
  by (rule trim_chunks [of _ "[]" _ "['' '']"])
    (simp_all add: chunks_append white_space chunks_ascii byte_def del: code_point.simps)

lemma name_outer:
  assumes "spaces_apart u" "name_text u s" "s \<noteq> []"
  shows "no_outer_space s"
  using assms name_chunks_not_white [OF assms(1,2)] by (simp add: no_outer_space_def)

lemma name_star_outer:
  assumes "spaces_apart u" "name_text u s" "utf8 s"
  shows "no_outer_space (s @ ''*'')"
proof -
  have star: "chunks ''*'' = [''*'']" "\<not> white ''*''" by (simp_all add: byte_def is_whitespace_def)
  have "hd (chunks s @ [''*'']) = ''*'' \<or> hd (chunks s @ [''*'']) \<in> set (chunks s)"
    by (cases "chunks s") simp_all
  then have "\<not> white (hd (chunks s @ [''*'']))"
    using star(2) name_chunks_not_white [OF assms(1,2)] by metis
  with star show ?thesis
    by (simp add: no_outer_space_def chunks_append [OF assms(3)] del: chunks.simps)
qed

section \<open>Properties\<close>

lemma split_once_at:
  assumes "\<forall>x \<in> set a. \<not> p x" "p c"
  shows "split_once p (a @ c # b) = Some (a, b)"
  using position_at [OF assms, of b] by (simp add: split_once_def)

definition rule_utf8 :: "schema_rule \<Rightarrow> bool" where
  "rule_utf8 r \<longleftrightarrow> utf8 (sr_from r) \<and> utf8 (sr_to r)"

lemma format_rule_parses:
  assumes u: "spaces_apart u" and ok: "rule_ok u r" and v: "rule_utf8 r"
  shows "no_outer_space (format_rule r) \<and> parse_rule u (format_rule r) = Some r
       \<and> newline \<notin> set (format_rule r) \<and> format_rule r \<noteq> [] \<and> last (format_rule r) \<noteq> carriage_return"
proof -
  let ?f = "sr_from r" and ?t = "sr_to r"
  from ok v have f: "name_text u ?f" "utf8 ?f" "?f \<noteq> []" and t: "name_text u ?t" "utf8 ?t"
    by (auto simp: rule_ok_def rule_utf8_def)
  have no: "CHR ''='' \<notin> set ?f" "newline \<notin> set ?f" "newline \<notin> set ?t" "CHR ''*'' \<notin> set ?f"
    "CHR ''*'' \<notin> set ?t" "carriage_return \<notin> set ?t"
    by (rule name_not [OF f(2,1)] name_not [OF t(2,1)]; simp add: ascii_simps byte_def)+
  have ascii: "utf8 ''*''" "utf8 '' ''" "utf8 '' = ''" "utf8 ''* = ''"
    by (rule utf8_ascii, simp add: byte_def)+
  show ?thesis
  proof (cases "sr_kind r")
    case Prefix
    have line: "format_rule r = (?f @ ''* '') @ CHR ''='' # ('' '' @ ?t @ ''*'')"
      by (simp add: format_rule_def Prefix)
    have fs: "no_outer_space (?f @ ''*'')" and ts: "no_outer_space (?t @ ''*'')"
      using name_star_outer u f t by blast+
    have "split_once (\<lambda>c. c = CHR ''='') (format_rule r) = Some (?f @ ''* '', '' '' @ ?t @ ''*'')"
      unfolding line using no(1) by (intro split_once_at) auto
    moreover have "trim (?f @ ''* '') = ?f @ ''*''"
      using trim_space_after [OF utf8_append [OF f(2) ascii(1)] fs] by simp
    moreover have "trim ('' '' @ ?t @ ''*'') = ?t @ ''*''" by (rule trim_space_before [OF ts])
    moreover have "rule_of (?f @ ''*'') (?t @ ''*'') = Some r"
      using Prefix by (simp add: rule_of_def)
    ultimately have parse: "parse_rule u (format_rule r) = Some r"
      using ok by (simp add: parse_rule_def)
    have "chunks (format_rule r) = (chunks ?f @ chunks ''* = '') @ chunks (?t @ ''*'')"
      unfolding line using chunks_append [OF f(2), of "''* = '' @ ?t @ ''*''"]
        chunks_append [OF ascii(4), of "?t @ ''*''"] by simp
    then have "hd (chunks (format_rule r)) = hd (chunks ?f)"
      "last (chunks (format_rule r)) = last (chunks (?t @ ''*''))"
      using f(3) by simp_all
    moreover have "\<not> white (hd (chunks ?f))" "\<not> white (last (chunks (?t @ ''*'')))"
      using name_outer [OF u f(1,3)] ts by (simp_all add: no_outer_space_def)
    ultimately have "no_outer_space (format_rule r)"
      by (simp add: no_outer_space_def line)
    with parse no line show ?thesis by (auto simp: byte_def)
  next
    case Exact
    with ok have "?t \<noteq> []" by (simp add: rule_ok_def)
    have line: "format_rule r = (?f @ '' '') @ CHR ''='' # ('' '' @ ?t)"
      by (simp add: format_rule_def Exact)
    have fs: "no_outer_space ?f" and ts: "no_outer_space ?t"
      using name_outer [OF u f(1,3)] name_outer [OF u t(1) \<open>?t \<noteq> []\<close>] by blast+
    have "split_once (\<lambda>c. c = CHR ''='') (format_rule r) = Some (?f @ '' '', '' '' @ ?t)"
      unfolding line using no(1) by (intro split_once_at) auto
    moreover have "trim (?f @ '' '') = ?f" by (rule trim_space_after [OF f(2) fs])
    moreover have "trim ('' '' @ ?t) = ?t" by (rule trim_space_before [OF ts])
    moreover have "rule_of ?f ?t = Some r"
    proof -
      have "last ?f \<noteq> CHR ''*''" "last ?t \<noteq> CHR ''*''"
        using no(4,5) f(3) \<open>?t \<noteq> []\<close> last_in_set by metis+
      with Exact show ?thesis by (simp add: rule_of_def strip_suffix_def)
    qed
    ultimately have parse: "parse_rule u (format_rule r) = Some r"
      using ok by (simp add: parse_rule_def)
    have "chunks (format_rule r) = (chunks ?f @ chunks '' = '') @ chunks ?t"
      unfolding line using chunks_append [OF f(2), of "'' = '' @ ?t"]
        chunks_append [OF ascii(3), of ?t] by simp
    then have "hd (chunks (format_rule r)) = hd (chunks ?f)"
      "last (chunks (format_rule r)) = last (chunks ?t)"
      using f(3) \<open>?t \<noteq> []\<close> by simp_all
    with fs ts have "no_outer_space (format_rule r)"
      by (simp add: no_outer_space_def line)
    moreover have "last (format_rule r) = last ?t" using \<open>?t \<noteq> []\<close> by (simp add: line)
    then have "last (format_rule r) \<noteq> carriage_return"
      using no(6) \<open>?t \<noteq> []\<close> last_in_set by metis
    moreover have "newline \<notin> set (format_rule r)" using no(2,3) by (simp add: line)
    moreover have "format_rule r \<noteq> []" by (simp add: line)
    ultimately show ?thesis using parse by blast
  qed
qed

lemma parse_lines_formatted:
  assumes u: "spaces_apart u" and rules: "list_all (\<lambda>r. rule_ok u r \<and> rule_utf8 r) rules"
  shows "parse_lines u n (map format_rule rules) = Inr rules"
  using rules
proof (induction rules arbitrary: n)
  case (Cons r rules)
  from Cons.prems have "rule_ok u r" "rule_utf8 r" by simp_all
  from format_rule_parses [OF u this] have r: "trim (format_rule r) = format_rule r"
    "parse_rule u (format_rule r) = Some r" "format_rule r \<noteq> []"
    using trim_id by blast+
  have "parse_lines u (n + 1) (map format_rule rules) = Inr rules" using Cons by simp
  with r show ?case by (simp add: Let_def)
qed simp

text \<open>
  The text of schema mapping rules is read back as the same rules, for all rules that the
  reader accepts: the settings page never changes the rules of a project.
\<close>

theorem schema_rules_round_trip:
  assumes "spaces_apart u" "list_all (\<lambda>r. rule_ok u r \<and> rule_utf8 r) rules"
  shows "parse_schema_rules u (format_schema_rules rules) = Inr rules"
proof -
  have "\<forall>l \<in> set (map format_rule rules). newline \<notin> set l \<and> l \<noteq> [] \<and> last l \<noteq> carriage_return"
    using format_rule_parses [OF assms(1)] assms(2) by (auto simp: list_all_iff)
  from str_lines_join [OF this] parse_lines_formatted [OF assms] show ?thesis
    by (simp add: parse_schema_rules_def format_schema_rules_def)
qed

theorem schema_rules_round_trip_witness:
  "parse_schema_rules ascii_tables (format_schema_rules
      [\<lparr>sr_kind = Prefix, sr_from = ''dbt_dev_'', sr_to = []\<rparr>,
       \<lparr>sr_kind = Exact, sr_from = ''analytics'', sr_to = ''prod''\<rparr>])
   = Inr [\<lparr>sr_kind = Prefix, sr_from = ''dbt_dev_'', sr_to = []\<rparr>,
          \<lparr>sr_kind = Exact, sr_from = ''analytics'', sr_to = ''prod''\<rparr>]"
proof (rule schema_rules_round_trip)
  show "spaces_apart ascii_tables"
    by (auto simp: spaces_apart_def is_alphanumeric_def is_alphabetic_def is_numeric_def
        is_whitespace_def ascii_tables_def split: if_splits)
  show "list_all (\<lambda>r. rule_ok ascii_tables r \<and> rule_utf8 r)
      [\<lparr>sr_kind = Prefix, sr_from = ''dbt_dev_'', sr_to = []\<rparr>,
       \<lparr>sr_kind = Exact, sr_from = ''analytics'', sr_to = ''prod''\<rparr>]"
    by code_simp
qed

end
