(* ===== verification/Export_Io.thy ===== *)
theory Export_Io
  imports Budget Rust_Str "HOL-Library.Sublist"
begin

text \<open>
  The output side of the exports (\<open>src/export.rs\<close>): the writers, the checks for a cancellation
  and the selected part of a result that a format writes.

  A function of the code that writes with \<open>?\<close> is a value of \<open>'a io\<close>: it takes the state of the
  writer and returns \<open>Err\<close> or \<open>Ok\<close> with the state it leaves, also after an error. A writer is
  either a vector, which takes any text, or the \<open>LimitedWriter\<close> of the clipboard. The flag of a
  cancellation and the global budget are shared with other threads, so what they answer at each
  moment is a parameter (\<open>env\<close>), about which nothing is assumed.
\<close>

section \<open>Writers\<close>

datatype io_error =
    Cancelled | Copy_Limit | Memory_Too_Large | No_Memory | Invalid_Input | Invalid_Data
  | Row_Too_Large | Headers_Too_Large

record env =
  ev_cancelled :: "nat \<Rightarrow> bool"
  ev_granted :: "nat \<Rightarrow> nat \<Rightarrow> bool"

record sink =
  sk_text :: string
  sk_limit :: "nat option"
  sk_memory :: "nat option"
  sk_time :: nat

type_synonym 'a io = "sink \<Rightarrow> (io_error, 'a) result \<times> sink"

definition vec_sink :: sink where
  "vec_sink = \<lparr>sk_text = [], sk_limit = None, sk_memory = None, sk_time = 0\<rparr>"

definition limited_sink :: "nat \<Rightarrow> sink" where
  "limited_sink limit = \<lparr>sk_text = [], sk_limit = Some limit, sk_memory = None, sk_time = 0\<rparr>"

definition calm :: env where
  "calm = \<lparr>ev_cancelled = (\<lambda>_. False), ev_granted = (\<lambda>_ _. True)\<rparr>"

definition io_return :: "'a \<Rightarrow> 'a io" where
  "io_return a = (\<lambda>s. (Inr a, s))"

definition io_fail :: "io_error \<Rightarrow> 'a io" where
  "io_fail e = (\<lambda>s. (Inl e, s))"

definition io_bind :: "'a io \<Rightarrow> ('a \<Rightarrow> 'b io) \<Rightarrow> 'b io" where
  "io_bind f g = (\<lambda>s. case f s of (Inl e, s1) \<Rightarrow> (Inl e, s1) | (Inr a, s1) \<Rightarrow> g a s1)"

definition io_then :: "unit io \<Rightarrow> 'b io \<Rightarrow> 'b io" where
  "io_then f g = io_bind f (\<lambda>_. g)"

text \<open>A \<open>for\<close> loop whose body may return early with an error.\<close>

fun io_each :: "('a \<Rightarrow> unit io) \<Rightarrow> 'a list \<Rightarrow> unit io" where
  "io_each f [] = io_return ()"
| "io_each f (x # xs) = io_then (f x) (io_each f xs)"

definition io_when :: "bool \<Rightarrow> unit io \<Rightarrow> unit io" where
  "io_when b f = (if b then f else io_return ())"

definition check_cancelled :: "env \<Rightarrow> unit io" where
  "check_cancelled ev s =
     (if ev_cancelled ev (sk_time s) then Inl Cancelled else Inr (), s\<lparr>sk_time := sk_time s + 1\<rparr>)"

text \<open>\<open>GLOBAL.acquire(n)\<close> and \<open>GLOBAL.allowance(n)\<close>, as one of the threads that share it sees them.\<close>

definition global_memory :: "env \<Rightarrow> nat \<Rightarrow> unit io" where
  "global_memory ev n s =
     (if ev_granted ev (sk_time s) n then Inr () else Inl No_Memory, s\<lparr>sk_time := sk_time s + 1\<rparr>)"

definition checked_next_power_of_two :: "nat \<Rightarrow> nat option" where
  "checked_next_power_of_two n = List.find (\<lambda>p. n \<le> p) (map (\<lambda>k. 2 ^ k) [0..<64])"

definition writer_capacity :: "nat \<Rightarrow> nat option" where
  "writer_capacity limit =
     Option.bind (checked_next_power_of_two limit)
       (\<lambda>c. Option.bind (checked_mul c 3) (\<lambda>c. checked_add c 64))"

definition CLIPBOARD_BYTES :: nat where "CLIPBOARD_BYTES = 10 * 1024 * 1024"

definition put :: "env \<Rightarrow> string \<Rightarrow> unit io" where
  "put ev bytes s =
     (let done = s\<lparr>sk_text := sk_text s @ bytes\<rparr> in
      case sk_limit s of
        None \<Rightarrow> (Inr (), done)
      | Some limit \<Rightarrow>
          if limit - length (sk_text s) < length bytes then (Inl Copy_Limit, s)
          else if sk_memory s = None \<and> bytes \<noteq> [] then
            (case writer_capacity limit of
               None \<Rightarrow> (Inl Memory_Too_Large, s)
             | Some capacity \<Rightarrow>
                 (case global_memory ev capacity s of
                    (Inl e, s1) \<Rightarrow> (Inl e, s1)
                  | (Inr _, s1) \<Rightarrow>
                      (Inr (), s1\<lparr>sk_memory := Some capacity, sk_text := sk_text s1 @ bytes\<rparr>)))
          else (Inr (), done))"

section \<open>What a writing function writes\<close>

named_theorems emits_rules \<open>what the parts of a writing function write\<close>

definition roomy :: "env \<Rightarrow> sink \<Rightarrow> string \<Rightarrow> bool" where
  "roomy ev s t \<longleftrightarrow>
     (\<forall>k. \<not> ev_cancelled ev k) \<and> (\<forall>k n. ev_granted ev k n)
     \<and> (case sk_limit s of
          None \<Rightarrow> True
        | Some l \<Rightarrow> length (sk_text s) + length t \<le> l \<and> writer_capacity l \<noteq> None)"

definition within :: "sink \<Rightarrow> bool" where
  "within s \<longleftrightarrow> (case sk_limit s of None \<Rightarrow> True | Some l \<Rightarrow> length (sk_text s) \<le> l)"

text \<open>
  The contract of a writing function that should write \<open>t\<close> and return \<open>a\<close>: whatever happens it
  only appends a prefix of \<open>t\<close> and stays within the limit; if it returns without an error, it wrote all of \<open>t\<close> and returns
  \<open>a\<close>; and if nobody cancels and there is room, it does return without an error.
\<close>

definition emits :: "env \<Rightarrow> 'a io \<Rightarrow> string \<Rightarrow> 'a \<Rightarrow> bool" where
  "emits ev f t a \<longleftrightarrow>
     (\<forall>s. sk_limit (snd (f s)) = sk_limit s
          \<and> (within s \<longrightarrow> within (snd (f s)))
          \<and> (\<exists>p. prefix p t \<and> sk_text (snd (f s)) = sk_text s @ p)
          \<and> (\<forall>b. fst (f s) = Inr b \<longrightarrow> b = a \<and> sk_text (snd (f s)) = sk_text s @ t)
          \<and> (roomy ev s t \<longrightarrow> fst (f s) = Inr a))"

lemma emits_limit: "emits ev f t a \<Longrightarrow> sk_limit (snd (f s)) = sk_limit s"
  by (simp add: emits_def)

lemma emits_within: "emits ev f t a \<Longrightarrow> within s \<Longrightarrow> within (snd (f s))"
  by (simp add: emits_def)

lemma emits_prefix: "emits ev f t a \<Longrightarrow> \<exists>p. prefix p t \<and> sk_text (snd (f s)) = sk_text s @ p"
  by (simp add: emits_def)

lemma emits_ok: "emits ev f t a \<Longrightarrow> fst (f s) = Inr b \<Longrightarrow> b = a \<and> sk_text (snd (f s)) = sk_text s @ t"
  by (simp add: emits_def)

lemma emits_roomy: "emits ev f t a \<Longrightarrow> roomy ev s t \<Longrightarrow> fst (f s) = Inr a"
  by (simp add: emits_def)

lemma emits_return [emits_rules]: "emits ev (io_return a) [] a"
  by (simp add: emits_def io_return_def)

lemma emits_check [emits_rules]: "emits ev (check_cancelled ev) [] ()"
  by (simp add: emits_def check_cancelled_def roomy_def within_def split: option.split)

lemma emits_memory [emits_rules]: "emits ev (global_memory ev n) [] ()"
  by (simp add: emits_def global_memory_def roomy_def within_def split: option.split)

lemma emits_put [emits_rules]: "emits ev (put ev t) t ()"
  by (auto simp: emits_def put_def roomy_def Let_def global_memory_def within_def split: option.splits)

lemma roomy_append: "roomy ev s (t @ u) \<Longrightarrow> roomy ev s t"
  by (auto simp: roomy_def split: option.splits)

lemma roomy_after:
  "roomy ev s (t @ u) \<Longrightarrow> sk_limit s1 = sk_limit s \<Longrightarrow> sk_text s1 = sk_text s @ t \<Longrightarrow> roomy ev s1 u"
  by (auto simp: roomy_def split: option.splits)

lemma emits_bind:
  assumes f: "emits ev f t a" and g: "emits ev (g a) u b"
  shows "emits ev (io_bind f g) (t @ u) b"
  unfolding emits_def
proof (intro allI)
  fix s
  obtain r s1 where fs: "f s = (r, s1)" by (cases "f s")
  have lim: "sk_limit s1 = sk_limit s" using emits_limit [OF f, of s] fs by simp
  show "sk_limit (snd (io_bind f g s)) = sk_limit s
     \<and> (within s \<longrightarrow> within (snd (io_bind f g s)))
     \<and> (\<exists>p. prefix p (t @ u) \<and> sk_text (snd (io_bind f g s)) = sk_text s @ p)
     \<and> (\<forall>ba. fst (io_bind f g s) = Inr ba \<longrightarrow> ba = b \<and> sk_text (snd (io_bind f g s)) = sk_text s @ t @ u)
     \<and> (roomy ev s (t @ u) \<longrightarrow> fst (io_bind f g s) = Inr b)"
  proof (cases r)
    case (Inl e)
    have "\<exists>p. prefix p (t @ u) \<and> sk_text s1 = sk_text s @ p"
      using emits_prefix [OF f, of s] fs by (auto intro: prefix_prefix)
    moreover have "\<not> roomy ev s (t @ u)"
      using emits_roomy [OF f, of s] roomy_append fs Inl by force
    moreover have "within s \<longrightarrow> within s1" using emits_within [OF f, of s] fs by simp
    ultimately show ?thesis using fs Inl lim by (simp add: io_bind_def)
  next
    case (Inr a')
    from emits_ok [OF f, of s a'] fs Inr have s1: "a' = a" "sk_text s1 = sk_text s @ t" by auto
    have eq: "io_bind f g s = g a s1" using fs Inr s1 by (simp add: io_bind_def)
    have 1: "sk_limit (snd (g a s1)) = sk_limit s" using emits_limit [OF g, of s1] lim by simp
    have 2: "\<exists>p. prefix p (t @ u) \<and> sk_text (snd (g a s1)) = sk_text s @ p"
    proof -
      obtain p where "prefix p u" "sk_text (snd (g a s1)) = sk_text s1 @ p"
        using emits_prefix [OF g, of s1] by blast
      then show ?thesis using s1 by (intro exI [of _ "t @ p"]) simp
    qed
    have 3: "\<forall>ba. fst (g a s1) = Inr ba \<longrightarrow> ba = b \<and> sk_text (snd (g a s1)) = sk_text s @ t @ u"
      using emits_ok [OF g, of s1] s1 by auto
    have 4: "roomy ev s (t @ u) \<longrightarrow> fst (g a s1) = Inr b"
      using emits_roomy [OF g, of s1] roomy_after [OF _ lim s1(2)] by blast
    have 5: "within s \<longrightarrow> within (snd (g a s1))"
      using emits_within [OF f, of s] emits_within [OF g, of s1] fs by simp
    show ?thesis unfolding eq using 1 2 3 4 5 by blast
  qed
qed

lemma emits_then [emits_rules]:
  "emits ev f t () \<Longrightarrow> emits ev g u b \<Longrightarrow> emits ev (io_then f g) (t @ u) b"
  unfolding io_then_def by (rule emits_bind)

lemma emits_each [emits_rules]:
  "(\<And>x. x \<in> set xs \<Longrightarrow> emits ev (f x) (t x) ()) \<Longrightarrow> emits ev (io_each f xs) (concat (map t xs)) ()"
  by (induction xs) (auto intro: emits_rules)

lemma emits_when [emits_rules]:
  "(b \<Longrightarrow> emits ev f t ()) \<Longrightarrow> emits ev (io_when b f) (if b then t else []) ()"
  by (simp add: io_when_def emits_return)

lemma emits_if:
  "(b \<Longrightarrow> emits ev f t a) \<Longrightarrow> (\<not> b \<Longrightarrow> emits ev g u a) \<Longrightarrow>
     emits ev (if b then f else g) (if b then t else u) a"
  by simp

lemma emits_text: "emits ev f t a \<Longrightarrow> t = u \<Longrightarrow> emits ev f u a"
  by simp

text \<open>What \<open>emits\<close> gives for a run into an empty writer.\<close>

lemma emits_vec:
  assumes "emits ev f t a" and "fst (f vec_sink) = Inr b"
  shows "sk_text (snd (f vec_sink)) = t \<and> b = a"
  using emits_ok [OF assms] by (simp add: vec_sink_def)

section \<open>The selected part of a result\<close>

record column =
  cl_name :: string
  cl_type :: string

datatype value_kind = Number_Kind | Boolean_Kind | Text_Kind

definition NUMBER_TYPES :: "string list" where
  "NUMBER_TYPES =
     [''tinyint'', ''smallint'', ''int'', ''integer'', ''bigint'', ''int2'', ''int4'', ''int8'',
      ''float'', ''real'', ''double'', ''double precision'', ''float4'', ''float8'',
      ''decimal'', ''numeric'', ''number'']"

definition value_kind_of :: "string \<Rightarrow> value_kind" where
  "value_kind_of type_name =
     (let name = to_ascii_lowercase (trim type_name);
          base = trim (takeWhile (\<lambda>c. c \<noteq> CHR ''('') name)
      in if base \<in> set NUMBER_TYPES then Number_Kind
         else if base = ''boolean'' \<or> base = ''bool'' then Boolean_Kind
         else Text_Kind)"

record export_column =
  ec_name :: string
  ec_kind :: value_kind

definition export_column_from :: "column \<Rightarrow> export_column" where
  "export_column_from c = \<lparr>ec_name = cl_name c, ec_kind = value_kind_of (cl_type c)\<rparr>"

text \<open>\<open>row_indices\<close> excludes its end, \<open>column_indices\<close> includes it.\<close>

record 'c table =
  tb_columns :: "column list"
  tb_rows :: "'c rows"
  tb_row_indices :: "nat \<times> nat"
  tb_column_indices :: "nat \<times> nat"

definition row_range :: "'c table \<Rightarrow> nat list" where
  "row_range t = [fst (tb_row_indices t)..<snd (tb_row_indices t)]"

definition column_range :: "'c table \<Rightarrow> nat list" where
  "column_range t = [fst (tb_column_indices t)..<Suc (snd (tb_column_indices t))]"

definition export_columns :: "'c table \<Rightarrow> export_column list" where
  "export_columns t =
     List.map_filter (\<lambda>i. map_option export_column_from (nth_opt (tb_columns t) i)) (column_range t)"

definition table_values :: "'c table \<Rightarrow> nat \<Rightarrow> row" where
  "table_values t r =
     (let vals = rows_get (tb_rows t) r in
      map (\<lambda>c. Option.bind vals (\<lambda>vs. Option.bind (nth_opt vs c) id)) (column_range t))"

definition row_count :: "'c table \<Rightarrow> nat" where
  "row_count t = snd (tb_row_indices t) - fst (tb_row_indices t)"

definition size_of_column :: nat where "size_of_column = 48"

fun add_headers :: "nat \<Rightarrow> column list \<Rightarrow> nat option" where
  "add_headers bytes [] = Some bytes"
| "add_headers bytes (c # cs) =
     (case checked_add bytes
             (saturating_add (saturating_add (length (cl_name c)) (length (cl_type c))) size_of_column) of
        None \<Rightarrow> None
      | Some bytes' \<Rightarrow> add_headers bytes' cs)"

definition table_range_ok :: "'c table \<Rightarrow> bool" where
  "table_range_ok t \<longleftrightarrow>
     tb_columns t \<noteq> []
     \<and> snd (tb_row_indices t) \<le> r_len (tb_rows t)
     \<and> fst (tb_row_indices t) \<le> snd (tb_row_indices t)
     \<and> fst (tb_column_indices t) \<le> snd (tb_column_indices t)
     \<and> snd (tb_column_indices t) < length (tb_columns t)"

definition validate_table :: "'c table \<Rightarrow> unit io" where
  "validate_table t =
     (if \<not> table_range_ok t then io_fail Invalid_Input
      else
        (case add_headers 0 (map (\<lambda>i. tb_columns t ! i) (column_range t)) of
           None \<Rightarrow> io_fail Headers_Too_Large
         | Some bytes \<Rightarrow> if MAX_ROW_BYTES < bytes then io_fail Headers_Too_Large else io_return ()))"

lemma io_then_Inr:
  assumes "fst (io_then f g s) = Inr a"
  shows "fst (f s) = Inr () \<and> fst (g (snd (f s))) = Inr a"
  using assms by (auto simp: io_then_def io_bind_def split: prod.splits sum.splits)

lemma io_then_fail [simp]: "io_then (io_fail e) g = io_fail e"
  by (simp add: io_then_def io_bind_def io_fail_def)

lemma io_fail_Inr [simp]: "fst (io_fail e s) \<noteq> Inr a"
  by (simp add: io_fail_def)

lemma validate_table_Inr:
  "fst (validate_table t s) = Inr a \<Longrightarrow> table_range_ok t \<and> validate_table t = io_return ()"
  by (auto simp: validate_table_def split: if_splits option.splits)

lemma column_range_nonempty: "table_range_ok t \<Longrightarrow> column_range t \<noteq> []"
  by (simp add: table_range_ok_def column_range_def)

lemma table_values_nonempty: "table_range_ok t \<Longrightarrow> table_values t r \<noteq> []"
  by (simp add: table_values_def Let_def column_range_nonempty)

lemma length_table_values [simp]: "length (table_values t r) = length (column_range t)"
  by (simp add: table_values_def Let_def)

lemma export_columns_map:
  assumes "table_range_ok t"
  shows "export_columns t = map (\<lambda>i. export_column_from (tb_columns t ! i)) (column_range t)"
proof -
  have "List.map_filter (\<lambda>i. map_option export_column_from (nth_opt (tb_columns t) i)) is
      = map (\<lambda>i. export_column_from (tb_columns t ! i)) is"
    if "\<forall>i \<in> set is. i < length (tb_columns t)" for "is"
    using that by (induction "is") (simp_all add: map_filter_simps nth_opt_def)
  moreover have "\<forall>i \<in> set (column_range t). i < length (tb_columns t)"
    using assms by (auto simp: table_range_ok_def column_range_def)
  ultimately show ?thesis by (simp add: export_columns_def)
qed

lemma export_columns_nonempty: "table_range_ok t \<Longrightarrow> export_columns t \<noteq> []"
  by (simp add: export_columns_map column_range_nonempty)

section \<open>Functions that may refuse a value\<close>

text \<open>
  Some values have no text in a format. \<open>emits_opt\<close> is \<open>emits\<close> with an optional text: for \<open>None\<close> the
  function never returns without an error.
\<close>

definition emits_opt :: "env \<Rightarrow> 'a io \<Rightarrow> string option \<Rightarrow> 'a \<Rightarrow> bool" where
  "emits_opt ev f r a =
     (case r of Some t \<Rightarrow> emits ev f t a | None \<Rightarrow> (\<forall>s b. fst (f s) \<noteq> Inr b))"

definition append_opt :: "string option \<Rightarrow> string option \<Rightarrow> string option" where
  "append_opt r q = (case (r, q) of (Some t, Some u) \<Rightarrow> Some (t @ u) | _ \<Rightarrow> None)"

lemma append_opt_simps [simp]:
  "append_opt (Some t) (Some u) = Some (t @ u)"
  "append_opt None q = None"
  "append_opt r None = None"
  by (simp_all add: append_opt_def split: option.splits)

lemma append_opt_Some_iff:
  "append_opt r q = Some v \<longleftrightarrow> (\<exists>t u. r = Some t \<and> q = Some u \<and> v = t @ u)"
  by (cases r; cases q) auto

lemma append_opt_assoc: "append_opt (append_opt r q) p = append_opt r (append_opt q p)"
  by (cases r; cases q; cases p) auto

lemma append_opt_Nil [simp]: "append_opt (Some []) q = q" "append_opt q (Some []) = q"
  by (cases q; simp)+

lemma emits_optI: "emits ev f t a \<Longrightarrow> emits_opt ev f (Some t) a"
  by (simp add: emits_opt_def)

lemma emits_opt_fail: "emits_opt ev (io_fail e) None a"
  by (simp add: emits_opt_def)

lemma emits_opt_then:
  assumes f: "emits_opt ev f r ()" and g: "emits_opt ev g q b"
  shows "emits_opt ev (io_then f g) (append_opt r q) b"
proof (cases "r = None \<or> q = None")
  case False
  with assms show ?thesis by (auto simp: emits_opt_def intro: emits_then)
next
  case True
  have "fst (io_then f g s) \<noteq> Inr c" for s c
    using io_then_Inr [of f g s c] True f g by (auto simp: emits_opt_def)
  with True show ?thesis by (cases r; cases q) (simp_all add: emits_opt_def)
qed

lemma emits_opt_ok:
  assumes "emits_opt ev f r a" and "fst (f s) = Inr b"
  obtains t where "r = Some t" "b = a" "sk_text (snd (f s)) = sk_text s @ t"
proof (cases r)
  case None
  with assms show ?thesis by (simp add: emits_opt_def)
next
  case (Some t)
  with assms(1) have "emits ev f t a" by (simp add: emits_opt_def)
  from emits_ok [OF this assms(2)] Some show ?thesis using that by blast
qed

end
