(* ===== verification/Csv.thy ===== *)
theory Csv
  imports Export_Io
begin

text \<open>
  CSV and tab-separated text (\<open>src/export/csv.rs\<close>, and \<open>write_csv\<close> of \<open>src/export.rs\<close>): the
  options and their presets, the writer of records, and a reader of such files to state that
  nothing of a result is lost.
\<close>

section \<open>Options\<close>

datatype separator = Comma | Semicolon | Tab | Pipe

definition separator_char :: "separator \<Rightarrow> char" where
  "separator_char s =
     (case s of Comma \<Rightarrow> CHR '','' | Semicolon \<Rightarrow> CHR '';'' | Tab \<Rightarrow> CHR 0x09 | Pipe \<Rightarrow> CHR ''|'')"

datatype line_ending = Crlf | Lf

definition line_ending_str :: "line_ending \<Rightarrow> string" where
  "line_ending_str l = (case l of Crlf \<Rightarrow> [CHR 0x0D, CHR 0x0A] | Lf \<Rightarrow> [CHR 0x0A])"

datatype null_marker = Empty_Marker | Null_Marker | Backslash_Marker | Custom_Marker string

definition null_str :: "null_marker \<Rightarrow> string" where
  "null_str n =
     (case n of
        Empty_Marker \<Rightarrow> ''''
      | Null_Marker \<Rightarrow> ''NULL''
      | Backslash_Marker \<Rightarrow> [CHR 0x5C, CHR ''N'']
      | Custom_Marker v \<Rightarrow> v)"

record csv_options =
  cs_separator :: separator
  cs_line_ending :: line_ending
  cs_header :: bool
  cs_byte_order_mark :: bool
  cs_quote_all :: bool
  cs_null :: null_marker
  cs_escape_formulas :: bool

datatype preset = Standard | Excel | Excel_Semicolon | Tsv

definition ALL_PRESETS :: "preset list" where
  "ALL_PRESETS = [Standard, Excel, Excel_Semicolon, Tsv]"

definition standard_options :: csv_options where
  "standard_options =
     \<lparr>cs_separator = Comma, cs_line_ending = Crlf, cs_header = True, cs_byte_order_mark = False,
      cs_quote_all = False, cs_null = Empty_Marker, cs_escape_formulas = False\<rparr>"

definition preset_options :: "preset \<Rightarrow> csv_options" where
  "preset_options p =
     (case p of
        Standard \<Rightarrow> standard_options
      | Excel \<Rightarrow> standard_options\<lparr>cs_byte_order_mark := True, cs_escape_formulas := True\<rparr>
      | Excel_Semicolon \<Rightarrow>
          standard_options\<lparr>cs_separator := Semicolon, cs_byte_order_mark := True,
                           cs_escape_formulas := True\<rparr>
      | Tsv \<Rightarrow> standard_options\<lparr>cs_separator := Tab, cs_line_ending := Lf\<rparr>)"

abbreviation QUOTE :: char where "QUOTE \<equiv> CHR 0x22"
abbreviation CR :: char where "CR \<equiv> CHR 0x0D"
abbreviation LF :: char where "LF \<equiv> CHR 0x0A"
abbreviation APOSTROPHE :: char where "APOSTROPHE \<equiv> CHR 0x27"

definition special_char :: "csv_options \<Rightarrow> char \<Rightarrow> bool" where
  "special_char opts c \<longleftrightarrow>
     c = separator_char (cs_separator opts) \<or> c = QUOTE \<or> c = CR \<or> c = LF"

definition csv_validate :: "csv_options \<Rightarrow> unit io" where
  "csv_validate opts =
     (if list_ex (special_char opts) (null_str (cs_null opts)) then io_fail Invalid_Input
      else io_return ())"

definition preset_of :: "csv_options \<Rightarrow> preset option" where
  "preset_of opts = List.find (\<lambda>p. preset_options p = opts) ALL_PRESETS"

definition csv_extension :: "csv_options \<Rightarrow> string" where
  "csv_extension opts = (if cs_separator opts = Tab then ''tsv'' else ''csv'')"

section \<open>The writer\<close>

text \<open>\<open>str::split_inclusive\<close>: the parts end at each separator and include it.\<close>

fun split_inclusive :: "char \<Rightarrow> string \<Rightarrow> string list" where
  "split_inclusive c [] = []"
| "split_inclusive c (x # xs) =
     (if x = c then [x] # split_inclusive c xs
      else (case split_inclusive c xs of [] \<Rightarrow> [[x]] | p # ps \<Rightarrow> (x # p) # ps))"

definition FORMULA_CHARS :: string where
  "FORMULA_CHARS = [CHR ''='', CHR ''+'', CHR ''-'', CHR ''@'', CHR 0x09, CR]"

definition starts_formula :: "string \<Rightarrow> bool" where
  "starts_formula val \<longleftrightarrow> val \<noteq> [] \<and> hd val \<in> set FORMULA_CHARS"

definition is_formula :: "csv_options \<Rightarrow> value_kind \<Rightarrow> string \<Rightarrow> bool" where
  "is_formula opts kind val \<longleftrightarrow>
     cs_escape_formulas opts \<and> kind = Text_Kind \<and> starts_formula val"

definition needs_quotes :: "csv_options \<Rightarrow> string \<Rightarrow> bool" where
  "needs_quotes opts val \<longleftrightarrow>
     cs_quote_all opts
     \<or> val = []
     \<or> null_str (cs_null opts) \<noteq> [] \<and> val = null_str (cs_null opts)
     \<or> list_ex (special_char opts) val
     \<or> val \<noteq> [] \<and> hd val = CHR '' ''
     \<or> val \<noteq> [] \<and> last val = CHR '' ''"

definition write_part :: "env \<Rightarrow> string \<Rightarrow> unit io" where
  "write_part ev part =
     io_then (put ev part) (io_when (part \<noteq> [] \<and> last part = QUOTE) (put ev [QUOTE]))"

definition encode :: "env \<Rightarrow> csv_options \<Rightarrow> value_kind \<Rightarrow> string \<Rightarrow> unit io" where
  "encode ev opts kind val =
     (let quote = needs_quotes opts val in
      io_then (io_when quote (put ev [QUOTE]))
        (io_then (io_when (is_formula opts kind val) (put ev [APOSTROPHE]))
          (io_then (io_each (write_part ev) (split_inclusive QUOTE val))
            (io_when quote (put ev [QUOTE])))))"

definition cell_kind :: "export_column list \<Rightarrow> bool \<Rightarrow> nat \<Rightarrow> value_kind" where
  "cell_kind columns data index =
     (if data then (case nth_opt columns index of None \<Rightarrow> Text_Kind | Some c \<Rightarrow> ec_kind c)
      else Text_Kind)"

definition write_field ::
  "env \<Rightarrow> csv_options \<Rightarrow> export_column list \<Rightarrow> bool \<Rightarrow> nat \<Rightarrow> cell \<Rightarrow> unit io" where
  "write_field ev opts columns data index val =
     (case val of
        None \<Rightarrow> put ev (null_str (cs_null opts))
      | Some v \<Rightarrow> encode ev opts (cell_kind columns data index) v)"

text \<open>\<open>first\<close> of the code is true exactly in the first round of the loop.\<close>

fun record_loop ::
  "env \<Rightarrow> csv_options \<Rightarrow> export_column list \<Rightarrow> bool \<Rightarrow> bool \<Rightarrow> nat \<Rightarrow> row \<Rightarrow> unit io" where
  "record_loop ev opts columns data first index [] = io_return ()"
| "record_loop ev opts columns data first index (val # vals) =
     io_then (io_when (\<not> first) (put ev [separator_char (cs_separator opts)]))
       (io_then (write_field ev opts columns data index val)
         (record_loop ev opts columns data False (index + 1) vals))"

definition csv_record ::
  "env \<Rightarrow> csv_options \<Rightarrow> export_column list \<Rightarrow> bool \<Rightarrow> row \<Rightarrow> unit io" where
  "csv_record ev opts columns data vals =
     io_then (record_loop ev opts columns data True 0 vals)
       (put ev (line_ending_str (cs_line_ending opts)))"

definition BYTE_ORDER_MARK :: string where
  "BYTE_ORDER_MARK = [CHR 0xEF, CHR 0xBB, CHR 0xBF]"

definition csv_begin :: "env \<Rightarrow> csv_options \<Rightarrow> export_column list \<Rightarrow> unit io" where
  "csv_begin ev opts columns =
     io_then (csv_validate opts)
       (io_then (io_when (cs_byte_order_mark opts) (put ev BYTE_ORDER_MARK))
         (io_when (cs_header opts)
           (csv_record ev opts columns False (map (\<lambda>c. Some (ec_name c)) columns))))"

definition csv_row :: "env \<Rightarrow> csv_options \<Rightarrow> export_column list \<Rightarrow> row \<Rightarrow> unit io" where
  "csv_row ev opts columns vals = csv_record ev opts columns True vals"

text \<open>\<open>write_csv\<close>. A flush of these writers does nothing; the allowance is dropped at the end.\<close>

definition write_csv :: "env \<Rightarrow> csv_options \<Rightarrow> 'c table \<Rightarrow> nat io" where
  "write_csv ev opts t =
     io_then (validate_table t)
       (io_then (global_memory ev (64 * MIB))
         (io_then (check_cancelled ev)
           (io_then (csv_begin ev opts (export_columns t))
             (io_then
                (io_each
                  (\<lambda>r. io_then (check_cancelled ev) (csv_row ev opts (export_columns t) (table_values t r)))
                  (row_range t))
                (io_then (check_cancelled ev) (io_return (row_count t)))))))"

section \<open>A reader\<close>

text \<open>
  A reader of delimited text with quoted fields, in the manner of RFC 4180. A field keeps whether
  it was quoted. A carriage return outside quotes belongs to the line ending.
\<close>

datatype reading = Bare string | Quoted string | Closed string

fun field_of :: "reading \<Rightarrow> bool \<times> string" where
  "field_of (Bare t) = (False, t)"
| "field_of (Quoted t) = (True, t)"
| "field_of (Closed t) = (True, t)"

fun read_fields :: "char \<Rightarrow> reading \<Rightarrow> (bool \<times> string) list \<Rightarrow> string \<Rightarrow> (bool \<times> string) list list" where
  "read_fields sep st row [] =
     (if st = Bare [] \<and> row = [] then [] else [row @ [field_of st]])"
| "read_fields sep st row (c # cs) =
     (case st of
        Quoted t \<Rightarrow> read_fields sep (if c = QUOTE then Closed t else Quoted (t @ [c])) row cs
      | _ \<Rightarrow>
        (let t = snd (field_of st) in
         if c = QUOTE \<and> st = Bare [] then read_fields sep (Quoted []) row cs
         else if c = QUOTE \<and> fst (field_of st) then read_fields sep (Quoted (t @ [QUOTE])) row cs
         else if c = sep then read_fields sep (Bare []) (row @ [field_of st]) cs
         else if c = LF then (row @ [field_of st]) # read_fields sep (Bare []) [] cs
         else if c = CR then read_fields sep st row cs
         else read_fields sep (if fst (field_of st) then Closed (t @ [c]) else Bare (t @ [c])) row cs))"

definition read_cell :: "csv_options \<Rightarrow> bool \<times> string \<Rightarrow> cell" where
  "read_cell opts f = (if \<not> fst f \<and> snd f = null_str (cs_null opts) then None else Some (snd f))"

definition read_csv :: "csv_options \<Rightarrow> string \<Rightarrow> row list" where
  "read_csv opts file =
     (let text = (if cs_byte_order_mark opts then drop (length BYTE_ORDER_MARK) file else file)
      in map (map (read_cell opts)) (read_fields (separator_char (cs_separator opts)) (Bare []) [] text))"

section \<open>The text of a file\<close>

definition doubled :: "string \<Rightarrow> string" where
  "doubled v = replace_char QUOTE [QUOTE, QUOTE] v"

text \<open>The text of a value with the apostrophe that keeps a spreadsheet from reading a formula.\<close>

definition protected :: "csv_options \<Rightarrow> value_kind \<Rightarrow> string \<Rightarrow> string" where
  "protected opts kind v = (if is_formula opts kind v then [APOSTROPHE] else []) @ v"

definition value_text :: "csv_options \<Rightarrow> value_kind \<Rightarrow> string \<Rightarrow> string" where
  "value_text opts kind v =
     (let q = (if needs_quotes opts v then [QUOTE] else [])
      in q @ (if is_formula opts kind v then [APOSTROPHE] else []) @ doubled v @ q)"

definition field_text :: "csv_options \<Rightarrow> export_column list \<Rightarrow> bool \<Rightarrow> nat \<Rightarrow> cell \<Rightarrow> string" where
  "field_text opts columns data i val =
     (case val of
        None \<Rightarrow> null_str (cs_null opts)
      | Some v \<Rightarrow> value_text opts (cell_kind columns data i) v)"

fun fields_text :: "csv_options \<Rightarrow> export_column list \<Rightarrow> bool \<Rightarrow> bool \<Rightarrow> nat \<Rightarrow> row \<Rightarrow> string" where
  "fields_text opts columns data first i [] = []"
| "fields_text opts columns data first i (v # vs) =
     (if \<not> first then [separator_char (cs_separator opts)] else [])
     @ field_text opts columns data i v @ fields_text opts columns data False (i + 1) vs"

definition record_text :: "csv_options \<Rightarrow> export_column list \<Rightarrow> bool \<Rightarrow> row \<Rightarrow> string" where
  "record_text opts columns data vals =
     fields_text opts columns data True 0 vals @ line_ending_str (cs_line_ending opts)"

definition csv_text :: "csv_options \<Rightarrow> 'c table \<Rightarrow> string" where
  "csv_text opts t =
     (if cs_byte_order_mark opts then BYTE_ORDER_MARK else [])
     @ (if cs_header opts
        then record_text opts (export_columns t) False (map (\<lambda>c. Some (ec_name c)) (export_columns t))
        else [])
     @ concat (map (\<lambda>r. record_text opts (export_columns t) True (table_values t r)) (row_range t))"

lemma write_parts_doubled:
  "emits ev (io_each (write_part ev) (split_inclusive QUOTE v)) (doubled v) ()"
proof -
  let ?t = "\<lambda>p. p @ (if p \<noteq> [] \<and> last p = QUOTE then [QUOTE] else [])"
  have "concat (map ?t (split_inclusive QUOTE v)) = doubled v"
    by (induction v) (auto simp: doubled_def split: list.splits)
  moreover have "emits ev (write_part ev p) (?t p) ()" for p
    unfolding write_part_def by (intro emits_rules)
  ultimately show ?thesis using emits_each [of "split_inclusive QUOTE v" ev "write_part ev" ?t] by simp
qed

lemma encode_emits: "emits ev (encode ev opts kind v) (value_text opts kind v) ()"
  unfolding encode_def value_text_def Let_def by (intro emits_rules write_parts_doubled)

lemma write_field_emits:
  "emits ev (write_field ev opts columns data i v) (field_text opts columns data i v) ()"
  unfolding write_field_def field_text_def
  by (cases v) (simp_all add: emits_put encode_emits)

lemma record_loop_emits:
  "emits ev (record_loop ev opts columns data first i vs) (fields_text opts columns data first i vs) ()"
proof (induction vs arbitrary: first i)
  case Nil
  then show ?case by (simp add: emits_return)
next
  case (Cons v vs)
  show ?case
    unfolding record_loop.simps fields_text.simps
    by (intro emits_then write_field_emits Cons.IH emits_when emits_put)
qed

lemma csv_record_emits:
  "emits ev (csv_record ev opts columns data vs) (record_text opts columns data vs) ()"
  unfolding csv_record_def record_text_def by (intro emits_then record_loop_emits emits_put)

definition marker_valid :: "csv_options \<Rightarrow> bool" where
  "marker_valid opts \<longleftrightarrow> \<not> list_ex (special_char opts) (null_str (cs_null opts))"

lemma csv_begin_emits:
  assumes "marker_valid opts"
  shows "emits ev (csv_begin ev opts columns)
    ((if cs_byte_order_mark opts then BYTE_ORDER_MARK else [])
     @ (if cs_header opts then record_text opts columns False (map (\<lambda>c. Some (ec_name c)) columns) else [])) ()"
proof -
  have "csv_validate opts = io_return ()"
    using assms by (simp add: csv_validate_def marker_valid_def)
  then have "emits ev (csv_begin ev opts columns)
    ([] @ (if cs_byte_order_mark opts then BYTE_ORDER_MARK else [])
     @ (if cs_header opts then record_text opts columns False (map (\<lambda>c. Some (ec_name c)) columns) else [])) ()"
    unfolding csv_begin_def
    by (simp only:) (intro emits_then emits_return emits_when emits_put csv_record_emits)
  then show ?thesis by simp
qed

lemma write_csv_emits:
  assumes "validate_table t = io_return ()" and "marker_valid opts"
  shows "emits ev (write_csv ev opts t) (csv_text opts t) (row_count t)"
proof -
  let ?cols = "export_columns t"
  let ?rec = "\<lambda>r. record_text opts ?cols True (table_values t r)"
  have row: "emits ev (io_then (check_cancelled ev) (csv_row ev opts ?cols (table_values t r))) (?rec r) ()" for r
    using emits_then [OF emits_check csv_record_emits [of ev opts ?cols True "table_values t r"]]
    by (simp add: csv_row_def)
  have "emits ev (write_csv ev opts t)
    ([] @ [] @ [] @ ((if cs_byte_order_mark opts then BYTE_ORDER_MARK else [])
      @ (if cs_header opts then record_text opts ?cols False (map (\<lambda>c. Some (ec_name c)) ?cols) else []))
      @ concat (map ?rec (row_range t)) @ [] @ []) (row_count t)"
    unfolding write_csv_def assms(1)
    by (intro emits_then emits_return emits_memory emits_check csv_begin_emits assms(2) emits_each row)
  then show ?thesis by (simp add: csv_text_def)
qed

section \<open>Reading a file back\<close>

definition plain_char :: "char \<Rightarrow> char \<Rightarrow> bool" where
  "plain_char sep c \<longleftrightarrow> c \<noteq> sep \<and> c \<noteq> QUOTE \<and> c \<noteq> CR \<and> c \<noteq> LF"

lemma separator_plain [simp]:
  "separator_char s \<noteq> QUOTE" "separator_char s \<noteq> CR" "separator_char s \<noteq> LF"
  "separator_char s \<noteq> APOSTROPHE"
  by (cases s; simp add: separator_char_def)+

lemma plain_iff: "plain_char (separator_char (cs_separator opts)) c \<longleftrightarrow> \<not> special_char opts c"
  by (auto simp: plain_char_def special_char_def)

lemma read_bare:
  "list_all (plain_char sep) t \<Longrightarrow>
     read_fields sep (Bare a) row (t @ rest) = read_fields sep (Bare (a @ t)) row rest"
  by (induction t arbitrary: a) (simp_all add: plain_char_def Let_def)

lemma read_quoted:
  "read_fields sep (Quoted a) row (doubled t @ rest) = read_fields sep (Quoted (a @ t)) row rest"
  by (induction t arbitrary: a) (auto simp: doubled_def Let_def)

definition reading_of :: "csv_options \<Rightarrow> value_kind \<Rightarrow> cell \<Rightarrow> reading" where
  "reading_of opts kind val =
     (case val of
        None \<Rightarrow> Bare (null_str (cs_null opts))
      | Some v \<Rightarrow>
          if needs_quotes opts v then Closed (protected opts kind v)
          else Bare (protected opts kind v))"

lemma doubled_plain: "list_all (plain_char sep) v \<Longrightarrow> doubled v = v"
  by (induction v) (auto simp: doubled_def plain_char_def)

lemma read_field:
  assumes "marker_valid opts"
  shows "read_fields (separator_char (cs_separator opts)) (Bare []) row
      (field_text opts columns data i val @ rest)
    = read_fields (separator_char (cs_separator opts))
        (reading_of opts (cell_kind columns data i) val) row rest"
proof (cases val)
  case None
  have "list_all (plain_char (separator_char (cs_separator opts))) (null_str (cs_null opts))"
    using assms by (auto simp: marker_valid_def plain_iff list_ex_iff list_all_iff)
  from read_bare [OF this, of "[]"] show ?thesis
    by (simp add: None field_text_def reading_of_def)
next
  case (Some v)
  let ?sep = "separator_char (cs_separator opts)"
  let ?k = "cell_kind columns data i"
  let ?a = "if is_formula opts ?k v then [APOSTROPHE] else []"
  have pv: "protected opts ?k v = ?a @ v" by (simp add: protected_def)
  show ?thesis
  proof (cases "needs_quotes opts v")
    case True
    have "read_fields ?sep (Bare []) row ((QUOTE # ?a @ doubled v @ [QUOTE]) @ rest)
        = read_fields ?sep (Quoted ?a) row (doubled v @ QUOTE # rest)"
      by (simp add: Let_def)
    also have "\<dots> = read_fields ?sep (Quoted (?a @ v)) row (QUOTE # rest)"
      by (rule read_quoted)
    finally show ?thesis
      using True by (simp add: Some field_text_def value_text_def reading_of_def pv)
  next
    case False
    then have v: "list_all (plain_char ?sep) v"
      by (auto simp: needs_quotes_def plain_iff list_ex_iff list_all_iff)
    then have "list_all (plain_char ?sep) (?a @ v)"
      by (simp add: plain_char_def separator_plain(4) [symmetric] del: separator_plain)
    from read_bare [OF this, of "[]" row rest] show ?thesis
      using False doubled_plain [OF v]
      by (simp add: Some field_text_def value_text_def reading_of_def pv)
  qed
qed

lemma reading_of_not_quoted: "reading_of opts k v \<noteq> Quoted t"
  by (auto simp: reading_of_def split: option.splits)

lemma read_separator:
  "read_fields (separator_char s) (reading_of opts k v) row (separator_char s # rest)
     = read_fields (separator_char s) (Bare []) (row @ [field_of (reading_of opts k v)]) rest"
  using reading_of_not_quoted [of opts k v]
  by (cases "reading_of opts k v") (force simp: Let_def)+

lemma read_line_end:
  "read_fields (separator_char s) (reading_of opts k v) row (line_ending_str l @ rest)
     = (row @ [field_of (reading_of opts k v)]) # read_fields (separator_char s) (Bare []) [] rest"
  using reading_of_not_quoted [of opts k v] separator_plain [of s, symmetric]
  by (cases "reading_of opts k v"; cases l) (force simp: Let_def line_ending_str_def)+

fun readings :: "csv_options \<Rightarrow> export_column list \<Rightarrow> bool \<Rightarrow> nat \<Rightarrow> row \<Rightarrow> reading list" where
  "readings opts columns data i [] = []"
| "readings opts columns data i (v # vs) =
     reading_of opts (cell_kind columns data i) v # readings opts columns data (i + 1) vs"

lemma read_fields_rest:
  assumes "marker_valid opts" and sep: "sep = separator_char (cs_separator opts)"
  shows "read_fields sep (reading_of opts k v) row
       (fields_text opts columns data False i vs @ line_ending_str l @ rest)
     = (row @ field_of (reading_of opts k v) # map field_of (readings opts columns data i vs))
       # read_fields sep (Bare []) [] rest"
proof (induction vs arbitrary: k v row i)
  case Nil
  then show ?case by (simp add: read_line_end sep)
next
  case (Cons w ws)
  have "read_fields sep (reading_of opts k v) row
      (fields_text opts columns data False i (w # ws) @ line_ending_str l @ rest)
    = read_fields sep (Bare []) (row @ [field_of (reading_of opts k v)])
        (field_text opts columns data i w
         @ fields_text opts columns data False (i + 1) ws @ line_ending_str l @ rest)"
    by (simp only: sep fields_text.simps if_True if_False not_False_eq_True append.simps append_assoc read_separator)
  also have "\<dots> = read_fields sep (reading_of opts (cell_kind columns data i) w)
        (row @ [field_of (reading_of opts k v)])
        (fields_text opts columns data False (i + 1) ws @ line_ending_str l @ rest)"
    unfolding sep by (rule read_field [OF assms(1)])
  finally show ?case by (simp add: Cons.IH)
qed

lemma read_record:
  assumes "marker_valid opts" and "sep = separator_char (cs_separator opts)" and "vals \<noteq> []"
  shows "read_fields sep (Bare []) [] (record_text opts columns data vals @ rest)
     = map field_of (readings opts columns data 0 vals) # read_fields sep (Bare []) [] rest"
proof (cases vals)
  case (Cons v vs)
  have "read_fields sep (Bare []) [] (record_text opts columns data vals @ rest)
      = read_fields sep (reading_of opts (cell_kind columns data 0) v) []
          (fields_text opts columns data False 1 vs @ line_ending_str (cs_line_ending opts) @ rest)"
    using read_field [OF assms(1), of "[]" columns data 0 v] assms(2)
    by (simp add: Cons record_text_def)
  then show ?thesis
    using read_fields_rest [OF assms(1,2)] by (simp add: Cons)
qed (use assms(3) in simp)

lemma read_records:
  assumes "marker_valid opts" and "sep = separator_char (cs_separator opts)"
    and "\<And>r. r \<in> set rs \<Longrightarrow> vals r \<noteq> []"
  shows "read_fields sep (Bare []) [] (concat (map (\<lambda>r. record_text opts columns data (vals r)) rs))
     = map (\<lambda>r. map field_of (readings opts columns data 0 (vals r))) rs"
  using assms(3) by (induction rs) (simp_all add: read_record [OF assms(1,2)])

text \<open>
  A marker is ambiguous only when it is an apostrophe before a formula, as such a text value is
  written with an apostrophe.
\<close>

definition marker_clear :: "csv_options \<Rightarrow> bool" where
  "marker_clear opts \<longleftrightarrow>
     \<not> (cs_escape_formulas opts
        \<and> (case null_str (cs_null opts) of [] \<Rightarrow> False | c # w \<Rightarrow> c = APOSTROPHE \<and> starts_formula w))"

definition exported_cell :: "csv_options \<Rightarrow> value_kind \<Rightarrow> cell \<Rightarrow> cell" where
  "exported_cell opts kind v = map_option (protected opts kind) v"

fun exported_row :: "csv_options \<Rightarrow> export_column list \<Rightarrow> bool \<Rightarrow> nat \<Rightarrow> row \<Rightarrow> row" where
  "exported_row opts columns data i [] = []"
| "exported_row opts columns data i (v # vs) =
     exported_cell opts (cell_kind columns data i) v # exported_row opts columns data (i + 1) vs"

lemma read_reading:
  assumes "marker_clear opts"
  shows "read_cell opts (field_of (reading_of opts k v)) = exported_cell opts k v"
proof (cases v)
  case (Some t)
  have "protected opts k t \<noteq> null_str (cs_null opts)" if "\<not> needs_quotes opts t"
  proof (cases "is_formula opts k t")
    case True
    then have "cs_escape_formulas opts" "starts_formula t" by (auto simp: is_formula_def)
    with assms show ?thesis
      by (auto simp: marker_clear_def protected_def True split: list.splits)
  next
    case False
    with that show ?thesis by (auto simp: needs_quotes_def protected_def)
  qed
  then show ?thesis
    by (simp add: Some reading_of_def read_cell_def exported_cell_def)
qed (simp add: reading_of_def read_cell_def exported_cell_def)

lemma read_readings:
  "marker_clear opts \<Longrightarrow>
     map (read_cell opts) (map field_of (readings opts columns data i vs))
       = exported_row opts columns data i vs"
  by (induction vs arbitrary: i) (simp_all add: read_reading)

lemma exported_row_unescaped:
  "\<not> cs_escape_formulas opts \<Longrightarrow> exported_row opts columns data i vs = vs"
proof (induction vs arbitrary: i)
  case (Cons v vs)
  then show ?case
    by (cases v) (simp_all add: exported_cell_def protected_def is_formula_def)
qed simp

lemma write_csv_valid:
  assumes "fst (write_csv ev opts t s) = Inr n"
  shows "table_range_ok t \<and> validate_table t = io_return () \<and> marker_valid opts"
proof -
  note step = io_then_Inr [OF assms [unfolded write_csv_def]]
  have t: "table_range_ok t \<and> validate_table t = io_return ()"
    using step [THEN conjunct1] by (rule validate_table_Inr)
  from step [THEN conjunct2] obtain s1 where
    "fst (csv_begin ev opts (export_columns t) s1) = Inr ()"
    by (blast dest!: io_then_Inr)
  then have "marker_valid opts"
    by (auto simp: csv_begin_def csv_validate_def marker_valid_def dest!: io_then_Inr split: if_splits)
  with t show ?thesis by blast
qed

lemma read_csv_text:
  assumes "table_range_ok t" and "marker_valid opts" and "marker_clear opts"
  shows "read_csv opts (csv_text opts t) =
      (if cs_header opts
       then [map (\<lambda>c. Some (protected opts Text_Kind (ec_name c))) (export_columns t)] else [])
      @ map (\<lambda>r. exported_row opts (export_columns t) True 0 (table_values t r)) (row_range t)"
proof -
  let ?sep = "separator_char (cs_separator opts)"
  let ?cols = "export_columns t"
  let ?head = "if cs_header opts
     then record_text opts ?cols False (map (\<lambda>c. Some (ec_name c)) ?cols) else []"
  let ?body = "concat (map (\<lambda>r. record_text opts ?cols True (table_values t r)) (row_range t))"
  have names: "exported_row opts ?cols False i (map (\<lambda>c. Some (ec_name c)) cs)
      = map (\<lambda>c. Some (protected opts Text_Kind (ec_name c))) cs" for i and cs :: "export_column list"
    by (induction cs arbitrary: i) (simp_all add: exported_cell_def cell_kind_def)
  have body: "map (map (read_cell opts)) (read_fields ?sep (Bare []) [] ?body)
      = map (\<lambda>r. exported_row opts ?cols True 0 (table_values t r)) (row_range t)"
    using read_records [OF assms(2) refl, of "row_range t" "table_values t" ?cols True]
      read_readings [OF assms(3), of ?cols True 0]
    by (simp add: table_values_nonempty [OF assms(1)] comp_def)
  have "read_csv opts (csv_text opts t)
      = map (map (read_cell opts)) (read_fields ?sep (Bare []) [] (?head @ ?body))"
    by (simp add: read_csv_def csv_text_def)
  also have "\<dots> = (if cs_header opts
       then [map (\<lambda>c. Some (protected opts Text_Kind (ec_name c))) ?cols] else [])
      @ map (\<lambda>r. exported_row opts ?cols True 0 (table_values t r)) (row_range t)"
    using body read_record [OF assms(2) refl, of "map (\<lambda>c. Some (ec_name c)) ?cols" ?cols False ?body]
      read_readings [OF assms(3), of ?cols False 0 "map (\<lambda>c. Some (ec_name c)) ?cols"]
    by (simp add: export_columns_nonempty [OF assms(1)] names)
  finally show ?thesis .
qed

lemma exported_row_safe:
  assumes "cs_escape_formulas opts"
  shows "i < length vs \<Longrightarrow> cell_kind columns True (k + i) = Text_Kind \<Longrightarrow>
     exported_row opts columns True k vs ! i = Some v \<Longrightarrow> \<not> starts_formula v"
proof (induction vs arbitrary: i k)
  case (Cons w ws)
  show ?case
  proof (cases i)
    case 0
    with Cons.prems assms show ?thesis
      by (auto simp: exported_cell_def protected_def is_formula_def starts_formula_def FORMULA_CHARS_def
          split: if_splits)
  next
    case (Suc j)
    with Cons.prems show ?thesis by (intro Cons.IH [of j "k + 1"]) simp_all
  qed
qed simp

section \<open>Properties\<close>

definition sample_table :: "unit table" where
  "sample_table =
     \<lparr>tb_columns = [\<lparr>cl_name = ''id'', cl_type = ''int8''\<rparr>, \<lparr>cl_name = ''note'', cl_type = ''text''\<rparr>],
      tb_rows = rows_from \<lparr>cap_rows = length, cap_cells = length, cap_text = length\<rparr> 0 ()
        [[Some ''-1'', Some (''say '' @ [QUOTE, LF, QUOTE])], [None, Some ''=2''], [Some [], None]],
      tb_row_indices = (0, 3), tb_column_indices = (0, 1)\<rparr>"





text \<open>
  Without \<open>marker_clear\<close> a null and a text are written alike: with \<open>escape_formulas\<close> and the marker
  \<open>'=1\<close>, which \<open>validate\<close> accepts, the text \<open>=1\<close> becomes the marker.
\<close>

definition confused_options :: csv_options where
  "confused_options =
     standard_options\<lparr>cs_escape_formulas := True, cs_null := Custom_Marker (APOSTROPHE # ''=1'')\<rparr>"

lemma null_marker_confusion:
  "marker_valid confused_options"
  "sk_text (snd (write_field calm confused_options [] True 0 None vec_sink))
     = sk_text (snd (write_field calm confused_options [] True 0 (Some ''=1'') vec_sink))"
  by code_simp+

end
