(* ===== verification/Column_Values.thy ===== *)
theory Column_Values
  imports Names Export_Io
begin

text \<open>
  The logical values of result cells (\<open>src/export/value.rs\<close>): the kind of a column type, the
  decoding of the binary formats of the connectors, the normalisation of a cell, and the unique
  column names of formats with keys. Numbers with a point, base64 and JSON fragments are read by the
  float parser and by crates; they are a parameter of \<open>normalize\<close>.
\<close>

section \<open>Kinds\<close>

datatype column_kind =
    Kind_Boolean | Kind_Integer | Kind_Float | Kind_Decimal | Kind_Binary | Kind_Hex_Binary
  | Kind_Bytea | Kind_Nested | Kind_Text

definition INTEGER_TYPES :: "string list" where
  "INTEGER_TYPES =
     [''tinyint'', ''smallint'', ''int'', ''integer'', ''bigint'', ''int2'', ''int4'', ''int8'']"

definition FLOAT_TYPES :: "string list" where
  "FLOAT_TYPES = [''float'', ''real'', ''double'', ''double precision'', ''float4'', ''float8'']"

definition NESTED_TYPES :: "string list" where
  "NESTED_TYPES = [''array'', ''map'', ''struct'', ''row'', ''json'', ''jsonb'']"

definition ends_with :: "'a list \<Rightarrow> 'a list \<Rightarrow> bool" where
  "ends_with xs s \<longleftrightarrow> starts_with (rev xs) (rev s)"

definition kind_of :: "string \<Rightarrow> column_kind" where
  "kind_of type_name =
     (let name = to_ascii_lowercase (trim type_name);
          base = trim (takeWhile (\<lambda>c. c \<notin> set ''(<['') name)
      in if base = ''boolean'' \<or> base = ''bool'' then Kind_Boolean
         else if base \<in> set INTEGER_TYPES then Kind_Integer
         else if base \<in> set FLOAT_TYPES then Kind_Float
         else if base = ''decimal'' \<or> base = ''numeric'' \<or> base = ''number'' then Kind_Decimal
         else if base = ''binary'' then Kind_Hex_Binary
         else if base = ''varbinary'' then Kind_Binary
         else if base = ''bytea'' then Kind_Bytea
         else if base \<in> set NESTED_TYPES then Kind_Nested
         else if ends_with name ''[]'' then Kind_Nested
         else Kind_Text)"

text \<open>
  The base name decides before the array suffix is looked at, so an array of a named type is
  classified as that type.
\<close>

lemma kind_of_int_array: "kind_of ''int4[]'' = Kind_Integer" "kind_of ''date[]'' = Kind_Nested"
  by code_simp+

section \<open>Numbers and binary values\<close>

datatype value_error = Invalid_Value | Invalid_Hex | Invalid_Bytea

text \<open>\<open>str::parse\<close> of a signed integer type with the given bounds.\<close>

definition parse_signed :: "int \<Rightarrow> int \<Rightarrow> string \<Rightarrow> int option" where
  "parse_signed lo hi t =
     (let negative = (t \<noteq> [] \<and> hd t = CHR ''-'');
          digits = (if t \<noteq> [] \<and> (hd t = CHR ''-'' \<or> hd t = CHR ''+'') then tl t else t)
      in if digits = [] \<or> \<not> list_all is_ascii_digit digits then None
         else
           (let n = int (digits_value 0 digits); v = (if negative then - n else n)
            in if lo \<le> v \<and> v \<le> hi then Some v else None))"

definition parse_i64 :: "string \<Rightarrow> int option" where
  "parse_i64 = parse_signed (- 9223372036854775808) 9223372036854775807"

text \<open>\<open>char::to_digit(16)\<close>.\<close>

definition to_digit_16 :: "char \<Rightarrow> nat option" where
  "to_digit_16 c =
     (if is_ascii_digit c then Some (byte c - 48)
      else if 97 \<le> byte c \<and> byte c \<le> 102 then Some (byte c - 87)
      else if 65 \<le> byte c \<and> byte c \<le> 70 then Some (byte c - 55)
      else None)"

text \<open>The pairs of \<open>chunks_exact(2)\<close>, up to the first that is not hexadecimal.\<close>

fun hex_pairs :: "string \<Rightarrow> (value_error, string) result" where
  "hex_pairs (a # b # rest) =
     (case to_digit_16 a of
        None \<Rightarrow> Inl Invalid_Hex
      | Some high \<Rightarrow>
          (case to_digit_16 b of
             None \<Rightarrow> Inl Invalid_Hex
           | Some low \<Rightarrow>
               and_then (hex_pairs rest) (\<lambda>bytes. Inr (char_of (high * 16 + low) # bytes))))"
| "hex_pairs _ = Inr []"

definition hex :: "string \<Rightarrow> (value_error, string) result" where
  "hex t = (if length t mod 2 \<noteq> 0 then Inl Invalid_Hex else hex_pairs t)"

abbreviation BACKSLASH :: char where "BACKSLASH \<equiv> CHR 0x5C"

definition is_octal :: "char \<Rightarrow> bool" where
  "is_octal c \<longleftrightarrow> 48 \<le> byte c \<and> byte c \<le> 55"

fun bytea_loop :: "string \<Rightarrow> (value_error, string) result" where
  "bytea_loop [] = Inr []"
| "bytea_loop (c # cs) =
     (if c \<noteq> BACKSLASH then and_then (bytea_loop cs) (\<lambda>bytes. Inr (c # bytes))
      else
        (case cs of
           [] \<Rightarrow> Inl Invalid_Bytea
         | d # ds \<Rightarrow>
             if d = BACKSLASH then and_then (bytea_loop ds) (\<lambda>bytes. Inr (BACKSLASH # bytes))
             else if 48 \<le> byte d \<and> byte d \<le> 51 then
               (case ds of
                  second # third # rest \<Rightarrow>
                    if is_octal second \<and> is_octal third then
                      and_then (bytea_loop rest)
                        (\<lambda>bytes. Inr (char_of ((byte d - 48) * 64 + (byte second - 48) * 8
                                               + (byte third - 48)) # bytes))
                    else Inl Invalid_Bytea
                | _ \<Rightarrow> Inl Invalid_Bytea)
             else Inl Invalid_Bytea))"

definition bytea :: "string \<Rightarrow> (value_error, string) result" where
  "bytea t =
     (case strip_prefix t [BACKSLASH, CHR ''x''] of
        Some digits \<Rightarrow> hex digits
      | None \<Rightarrow> bytea_loop t)"

section \<open>Normalisation of a cell\<close>

datatype 'f logical =
    V_Null | V_Boolean bool | V_Integer int | V_Float 'f | V_Decimal string | V_Text string
  | V_Bytes string | V_Nested string

text \<open>
  The parser of \<open>f64\<close>, the decoder of base64, and the JSON parser, which returns the text of a
  value without the white space around it.
\<close>

record 'f parsers =
  ps_float :: "string \<Rightarrow> 'f option"
  ps_base64 :: "string \<Rightarrow> string option"
  ps_raw_json :: "string \<Rightarrow> string option"

definition parse_boolean :: "string \<Rightarrow> (value_error, bool) result" where
  "parse_boolean t =
     (if t = ''true'' \<or> t = ''TRUE'' \<or> t = ''t'' \<or> t = ''1'' then Inr True
      else if t = ''false'' \<or> t = ''FALSE'' \<or> t = ''f'' \<or> t = ''0'' then Inr False
      else Inl Invalid_Value)"

definition normalize :: "'f parsers \<Rightarrow> column_kind \<Rightarrow> cell \<Rightarrow> (value_error, 'f logical) result" where
  "normalize ps k c =
     (case c of
        None \<Rightarrow> Inr V_Null
      | Some t \<Rightarrow>
          (case k of
             Kind_Boolean \<Rightarrow> and_then (parse_boolean t) (\<lambda>b. Inr (V_Boolean b))
           | Kind_Integer \<Rightarrow> and_then (ok_or Invalid_Value (parse_i64 t)) (\<lambda>i. Inr (V_Integer i))
           | Kind_Float \<Rightarrow> and_then (ok_or Invalid_Value (ps_float ps t)) (\<lambda>f. Inr (V_Float f))
           | Kind_Decimal \<Rightarrow> Inr (V_Decimal t)
           | Kind_Binary \<Rightarrow> and_then (ok_or Invalid_Value (ps_base64 ps t)) (\<lambda>b. Inr (V_Bytes b))
           | Kind_Hex_Binary \<Rightarrow>
               and_then (ok_or Invalid_Value (strip_prefix t ''0x''))
                 (\<lambda>digits. and_then (hex digits) (\<lambda>b. Inr (V_Bytes b)))
           | Kind_Bytea \<Rightarrow> and_then (bytea t) (\<lambda>b. Inr (V_Bytes b))
           | Kind_Nested \<Rightarrow>
               (case ps_raw_json ps t of Some v \<Rightarrow> Inr (V_Nested v) | None \<Rightarrow> Inr (V_Text t))
           | Kind_Text \<Rightarrow> Inr (V_Text t)))"

section \<open>Column names\<close>

text \<open>The candidates are \<open>name_2\<close>, \<open>name_3\<close> and so on; the search counts them from one.\<close>

definition suffixed_name :: "string \<Rightarrow> nat \<Rightarrow> string" where
  "suffixed_name name i = name @ ''_'' @ show_nat (i + 1)"

fun column_names_loop :: "string list \<Rightarrow> string list \<Rightarrow> string list \<Rightarrow> string list option" where
  "column_names_loop reserved used [] = Some []"
| "column_names_loop reserved used (name # names) =
     (if name \<notin> set used then
        map_option (\<lambda>rest. name # rest) (column_names_loop reserved (name # used) names)
      else
        (case find_free (suffixed_name name) (\<lambda>c. c \<in> set reserved \<or> c \<in> set used) 1 of
           None \<Rightarrow> None
         | Some c \<Rightarrow>
             map_option (\<lambda>rest. c # rest) (column_names_loop reserved (c # used) names)))"

definition column_names :: "string list \<Rightarrow> string list option" where
  "column_names names = column_names_loop names [] names"

interpretation column_suffixes: fresh_search "suffixed_name name" for name
  by unfold_locales (auto simp: suffixed_name_def dest: show_nat_inject)

lemma column_names_loop_spec:
  "set names \<subseteq> set reserved \<Longrightarrow>
     \<exists>r. column_names_loop reserved used names = Some r \<and> length r = length names
       \<and> distinct r \<and> set r \<inter> set used = {}
       \<and> (\<forall>i < length names.
            if names ! i \<in> set used \<union> set (take i names) then r ! i \<notin> set reserved
            else r ! i = names ! i)"
proof (induction names arbitrary: used)
  case (Cons name names)
  have sub: "set names \<subseteq> set reserved" using Cons.prems by simp
  obtain c where c: "c \<notin> set used"
    and eq: "column_names_loop reserved used (name # names)
        = map_option (\<lambda>rest. c # rest) (column_names_loop reserved (c # used) names)"
    and c_name: "if name \<in> set used then c \<notin> set reserved else c = name"
  proof (cases "name \<in> set used")
    case False
    then show ?thesis by (intro that [of name]) simp_all
  next
    case True
    have fin: "finite {s. s \<in> set reserved \<or> s \<in> set used}"
      by (rule finite_subset [of _ "set reserved \<union> set used"]) auto
    from column_suffixes.find_free_ends [OF fin, of name] obtain n where
      "\<not> (suffixed_name name n \<in> set reserved \<or> suffixed_name name n \<in> set used)"
      "find_free (suffixed_name name) (\<lambda>c. c \<in> set reserved \<or> c \<in> set used) 1
         = Some (suffixed_name name n)" by blast
    then show ?thesis using True by (intro that [of "suffixed_name name n"]) simp_all
  qed
  from Cons.IH [OF sub, of "c # used"] obtain r where
    r: "column_names_loop reserved (c # used) names = Some r" "length r = length names"
      "distinct r" "set r \<inter> set (c # used) = {}"
    and nth: "\<And>i. i < length names \<Longrightarrow>
       if names ! i \<in> set (c # used) \<union> set (take i names) then r ! i \<notin> set reserved
       else r ! i = names ! i"
    by blast
  have "if (name # names) ! i \<in> set used \<union> set (take i (name # names)) then (c # r) ! i \<notin> set reserved
      else (c # r) ! i = (name # names) ! i" if i: "i < length (name # names)" for i
  proof (cases i)
    case 0
    then show ?thesis using c_name by simp
  next
    case (Suc j)
    then have j: "j < length names" using i by simp
    have "names ! j \<in> set reserved" using j sub by auto
    then have "names ! j \<in> set (c # used) \<union> set (take j names)
        \<longleftrightarrow> names ! j \<in> set used \<union> insert name (set (take j names))"
      if "names ! j \<noteq> c \<or> name = c" using that c_name c by (auto split: if_splits)
    then show ?thesis
      using nth [OF j] Suc c_name c \<open>names ! j \<in> set reserved\<close> by (auto split: if_splits)
  qed
  then show ?case
    using eq r c by (intro exI [of _ "c # r"]) auto
qed simp

text \<open>
  The columns of a format with keys get unique names: the search for a suffix always ends, there
  is one name for each column, all are different, a name that did not occur before is kept, and a
  repeated one gets a name that no column of the result has.
\<close>

theorem column_names_are_unique:
  "\<exists>r. column_names names = Some r \<and> length r = length names \<and> distinct r
     \<and> (\<forall>i < length names.
          if names ! i \<in> set (take i names) then r ! i \<notin> set names else r ! i = names ! i)"
proof -
  from column_names_loop_spec [of names names "[]"] obtain r where
    "column_names_loop names [] names = Some r \<and> length r = length names \<and> distinct r
      \<and> (\<forall>i < length names.
            if names ! i \<in> set (take i names) then r ! i \<notin> set names else r ! i = names ! i)"
    by auto
  then show ?thesis unfolding column_names_def by blast
qed

theorem column_names_are_unique_witness:
  "\<exists>r. column_names [''id'', ''id'', ''id_2'', ''id''] = Some r \<and> distinct r \<and> length r = 4
     \<and> r ! 0 = ''id'' \<and> r ! 2 = ''id_2'' \<and> r ! 3 \<noteq> ''id_2''"
proof -
  let ?names = "[''id'', ''id'', ''id_2'', ''id'']"
  from column_names_are_unique [of ?names] obtain r where
    r: "column_names ?names = Some r" "length r = length ?names" "distinct r"
    and nth: "\<forall>i < length ?names. if ?names ! i \<in> set (take i ?names) then r ! i \<notin> set ?names
      else r ! i = ?names ! i" by blast
  have "r ! 0 = ''id''" "r ! 2 = ''id_2''" "r ! 3 \<noteq> ''id_2''"
    using nth [rule_format, of 0] nth [rule_format, of 2] nth [rule_format, of 3] by auto
  with r show ?thesis by simp
qed

section \<open>The texts of binary values\<close>

definition hex_digit :: "nat \<Rightarrow> char" where
  "hex_digit d = char_of (if d < 10 then 48 + d else 87 + d)"

fun hex_text :: "string \<Rightarrow> string" where
  "hex_text [] = []"
| "hex_text (b # bs) = hex_digit (byte b div 16) # hex_digit (byte b mod 16) # hex_text bs"

text \<open>The escape format of Postgres: a backslash is doubled, other special bytes are octal.\<close>

fun escape_text :: "string \<Rightarrow> string" where
  "escape_text [] = []"
| "escape_text (b # bs) =
     (if b = BACKSLASH then [BACKSLASH, BACKSLASH]
      else if 32 \<le> byte b \<and> byte b < 127 then [b]
      else [BACKSLASH, char_of (48 + byte b div 64), char_of (48 + byte b div 8 mod 8),
            char_of (48 + byte b mod 8)])
     @ escape_text bs"

lemma byte_hex_digit: "d < 16 \<Longrightarrow> byte (hex_digit d) = (if d < 10 then 48 + d else 87 + d)"
  by (simp add: hex_digit_def)

lemma byte_to_ascii_lower:
  "byte (to_ascii_lower c) = (if is_ascii_upper c then byte c + 32 else byte c)"
  by (simp add: to_ascii_lower_def is_ascii_upper_def)

lemma to_digit_16_Some_iff:
  "to_digit_16 c = Some d \<longleftrightarrow> d < 16 \<and> to_ascii_lower c = hex_digit d"
proof -
  have "d < 16 \<and> to_ascii_lower c = hex_digit d
      \<longleftrightarrow> d < 16 \<and> byte (to_ascii_lower c) = byte (hex_digit d)"
    by simp
  then show ?thesis
    by (auto simp: to_digit_16_def byte_to_ascii_lower byte_hex_digit is_ascii_digit_def
        is_ascii_upper_def split: if_splits simp del: byte_eq_iff)
qed

lemma hex_digit_inj: "d < 16 \<Longrightarrow> e < 16 \<Longrightarrow> hex_digit d = hex_digit e \<longleftrightarrow> d = e"
  by (auto simp: byte_hex_digit simp flip: byte_eq_iff split: if_splits)

lemma hex_pair_iff:
  "(\<exists>h l. to_digit_16 a = Some h \<and> to_digit_16 b = Some l \<and> x = char_of (h * 16 + l))
     \<longleftrightarrow> to_ascii_lower a = hex_digit (byte x div 16) \<and> to_ascii_lower b = hex_digit (byte x mod 16)"
proof
  assume "\<exists>h l. to_digit_16 a = Some h \<and> to_digit_16 b = Some l \<and> x = char_of (h * 16 + l)"
  then obtain h l where hl: "h < 16" "l < 16" "to_ascii_lower a = hex_digit h"
    "to_ascii_lower b = hex_digit l" "x = char_of (h * 16 + l)"
    by (auto simp: to_digit_16_Some_iff)
  then have "byte x = h * 16 + l" by simp
  then have "byte x div 16 = h" "byte x mod 16 = l" using hl by simp_all
  with hl show "to_ascii_lower a = hex_digit (byte x div 16) \<and> to_ascii_lower b = hex_digit (byte x mod 16)"
    by simp
next
  have "byte x div 16 < 16" using byte_less_256 [of x] by (simp add: less_mult_imp_div_less)
  moreover assume "to_ascii_lower a = hex_digit (byte x div 16) \<and> to_ascii_lower b = hex_digit (byte x mod 16)"
  moreover have "x = char_of (byte x div 16 * 16 + byte x mod 16)"
    by (simp only: div_mult_mod_eq char_of_byte)
  ultimately show "\<exists>h l. to_digit_16 a = Some h \<and> to_digit_16 b = Some l \<and> x = char_of (h * 16 + l)"
    unfolding to_digit_16_Some_iff by (metis mod_less_divisor zero_less_numeral)
qed

lemma hex_pairs_Cons:
  "hex_pairs (a # b # rest) = Inr bs \<longleftrightarrow>
     (\<exists>x xs. bs = x # xs \<and> hex_pairs rest = Inr xs
        \<and> (\<exists>h l. to_digit_16 a = Some h \<and> to_digit_16 b = Some l \<and> x = char_of (h * 16 + l)))"
  by (auto simp: and_then_Inr_iff split: option.splits)

lemma hex_pairs_iff:
  "length t mod 2 = 0 \<Longrightarrow> hex_pairs t = Inr bs \<longleftrightarrow> to_ascii_lowercase t = hex_text bs"
proof (induction t arbitrary: bs rule: induct_list012)
  case (3 a b rest)
  then have IH: "hex_pairs rest = Inr xs \<longleftrightarrow> to_ascii_lowercase rest = hex_text xs" for xs
    by simp
  show ?case
    unfolding hex_pairs_Cons hex_pair_iff IH by (cases bs) auto
next
  case 1
  show ?case by (cases bs) auto
qed simp

lemma hex_iff: "hex t = Inr bs \<longleftrightarrow> to_ascii_lowercase t = hex_text bs"
proof (cases "length t mod 2 = 0")
  case True
  then show ?thesis by (simp add: hex_def hex_pairs_iff)
next
  case False
  have "length (hex_text bs) mod 2 = 0" by (induction bs) simp_all
  then have "to_ascii_lowercase t \<noteq> hex_text bs" using False by (metis length_map)
  with False show ?thesis by (simp add: hex_def)
qed

lemma char_of_eq_iff: "n < 256 \<Longrightarrow> char_of n = c \<longleftrightarrow> n = byte c" for n :: nat
  by (metis byte_char_of char_of_byte)

lemma bytea_octal:
  fixes first second third :: nat
  assumes "first < 4" "second < 8" "third < 8"
  shows "bytea_loop (BACKSLASH # char_of (48 + first) # char_of (48 + second) # char_of (48 + third) # rest)
    = and_then (bytea_loop rest) (\<lambda>bytes. Inr (char_of (first * 64 + second * 8 + third) # bytes))"
proof -
  have "char_of (48 + first) \<noteq> BACKSLASH"
    using assms by (simp add: char_of_eq_iff) (simp add: byte_def)
  then show ?thesis using assms by (simp add: is_octal_def)
qed

lemma octal_digits: "n div 64 * 64 + n div 8 mod 8 * 8 + n mod 8 = n" for n :: nat
proof -
  have "n div 64 = n div 8 div 8" by (simp add: div_mult2_eq [symmetric])
  then have "n div 64 * 64 + n div 8 mod 8 * 8 = (n div 8 div 8 * 8 + n div 8 mod 8) * 8"
    by (simp only: add_mult_distrib mult.assoc mult_numeral_left semiring_norm)
  also have "\<dots> = n div 8 * 8" by (simp only: div_mult_mod_eq)
  finally show ?thesis by (simp only: div_mult_mod_eq)
qed

lemma bytea_loop_escape_text: "bytea_loop (escape_text bs) = Inr bs"
proof (induction bs)
  case (Cons b bs)
  have "byte b div 64 < 4" using byte_less_256 [of b] by (simp add: less_mult_imp_div_less)
  then have octal: "bytea_loop (BACKSLASH # char_of (48 + byte b div 64)
      # char_of (48 + byte b div 8 mod 8) # char_of (48 + byte b mod 8) # escape_text bs) = Inr (b # bs)"
    by (subst bytea_octal) (simp_all add: octal_digits Cons.IH)
  show ?case
    using octal Cons.IH by (simp del: bytea_loop.simps(2)) (simp add: Cons.IH)
qed simp

lemma escape_text_not_hex: "strip_prefix (escape_text bs) [BACKSLASH, CHR ''x''] = None"
proof -
  have x: "char_of (48 + byte b div 64) \<noteq> CHR ''x''" for b
  proof -
    have "byte b div 64 < 4" using byte_less_256 [of b] by (simp add: less_mult_imp_div_less)
    then show ?thesis by (simp add: char_of_eq_iff) (simp add: byte_def)
  qed
  show ?thesis
    by (cases bs) (simp_all add: strip_prefix_def x)
qed

text \<open>
  Binary values lose no byte, in the format of any connector: hexadecimal text is accepted
  exactly when it spells the bytes in digits of either case, so an odd length or another character
  is an error; Postgres' hexadecimal format and its escape format, with octal codes and doubled
  backslashes, give back every sequence of bytes, and so does Hive's format with \<open>0x\<close>.
\<close>

theorem binary_texts_decode:
  "(hex t = Inr bs \<longleftrightarrow> to_ascii_lowercase t = hex_text bs)
   \<and> bytea ([BACKSLASH, CHR ''x''] @ hex_text bs) = Inr bs
   \<and> bytea (escape_text bs) = Inr bs
   \<and> normalize ps Kind_Hex_Binary (Some (''0x'' @ hex_text bs)) = Inr (V_Bytes bs)"
proof -
  have lower: "to_ascii_lower (hex_digit d) = hex_digit d" if "d < 16" for d
    using that by (simp flip: byte_eq_iff add: byte_to_ascii_lower byte_hex_digit is_ascii_upper_def)
  have "to_ascii_lowercase (hex_text bs) = hex_text bs"
  proof (induction bs)
    case (Cons b bs)
    have "byte b div 16 < 16" using byte_less_256 [of b] by (simp add: less_mult_imp_div_less)
    with Cons show ?case by (simp add: lower)
  qed simp
  then have "hex (hex_text bs) = Inr bs" by (subst hex_iff)
  moreover note hex_iff [of t bs]
  ultimately show ?thesis
    by (simp add: bytea_def escape_text_not_hex bytea_loop_escape_text normalize_def
        strip_prefix_append [of "''0x''", simplified]
        strip_prefix_append [of "[BACKSLASH, CHR ''x'']", simplified])
qed

end
