(* ===== verification/Json.thy ===== *)
theory Json
  imports Column_Values
begin

text \<open>
  JSON exports (\<open>src/export/json.rs\<close>): an array of objects or one object on each line. The texts
  of strings, floating-point numbers and exact numbers, and base64, come from crates and are a
  parameter. A crate may write a text in several pieces; here it is one piece.
\<close>

section \<open>The writer\<close>

record json_options =
  jo_pretty :: bool
  jo_typed :: bool
  jo_decimals_as_numbers :: bool
  jo_lines :: bool

definition json_options_default :: json_options where
  "json_options_default =
     \<lparr>jo_pretty = True, jo_typed = True, jo_decimals_as_numbers = False, jo_lines = False\<rparr>"

record 'f encoders =
  en_string :: "string \<Rightarrow> string"
  en_finite :: "'f \<Rightarrow> bool"
  en_float :: "'f \<Rightarrow> string"
  en_number :: "string \<Rightarrow> string option"
  en_base64 :: "string \<Rightarrow> string"

abbreviation DQUOTE :: char where "DQUOTE \<equiv> CHR 0x22"
abbreviation NEWLINE :: char where "NEWLINE \<equiv> CHR 0x0A"

definition show_int :: "int \<Rightarrow> string" where
  "show_int i = (if i < 0 then CHR ''-'' # show_nat (nat (- i)) else show_nat (nat i))"

definition json_special :: "string \<Rightarrow> bool" where
  "json_special v \<longleftrightarrow>
     v \<in> set [''NaN'', ''Infinity'', ''+Infinity'', ''-Infinity'', ''inf'', ''-inf'']"

definition json_space :: "char \<Rightarrow> bool" where
  "json_space c \<longleftrightarrow> c = CHR '' '' \<or> c = CHR 0x09 \<or> c = CHR 0x0D \<or> c = NEWLINE"

text \<open>
  The loop of \<open>write_nested\<close>: it writes slices of the text between white space, and every 4096
  bytes what it has, after a check for a cancellation.
\<close>

fun nested_loop :: "env \<Rightarrow> string \<Rightarrow> nat \<Rightarrow> nat \<Rightarrow> bool \<Rightarrow> bool \<Rightarrow> string \<Rightarrow> unit io" where
  "nested_loop ev t start index quoted escaped [] = put ev (slice t (start, length t))"
| "nested_loop ev t start index quoted escaped (b # bs) =
     io_then
       (io_when (index mod 4096 = 0) (io_then (check_cancelled ev) (put ev (slice t (start, index)))))
       (let start = (if index mod 4096 = 0 then index else start) in
        if quoted then
          (if escaped then nested_loop ev t start (index + 1) quoted False bs
           else if b = BACKSLASH then nested_loop ev t start (index + 1) quoted True bs
           else if b = DQUOTE then nested_loop ev t start (index + 1) False escaped bs
           else nested_loop ev t start (index + 1) quoted escaped bs)
        else if b = DQUOTE then nested_loop ev t start (index + 1) True escaped bs
        else if json_space b then
          io_then (put ev (slice t (start, index)))
            (nested_loop ev t (index + 1) (index + 1) quoted escaped bs)
        else nested_loop ev t start (index + 1) quoted escaped bs)"

definition write_nested :: "env \<Rightarrow> string \<Rightarrow> bool \<Rightarrow> unit io" where
  "write_nested ev t pretty =
     (if pretty then put ev t else nested_loop ev t 0 0 False False t)"

definition json_text_of :: "'f encoders \<Rightarrow> cell \<Rightarrow> string" where
  "json_text_of en c = (case c of None \<Rightarrow> ''null'' | Some t \<Rightarrow> en_string en t)"

definition write_logical ::
  "env \<Rightarrow> 'f encoders \<Rightarrow> json_options \<Rightarrow> bool \<Rightarrow> cell \<Rightarrow> 'f logical \<Rightarrow> unit io" where
  "write_logical ev en opts pretty c v =
     (case v of
        V_Null \<Rightarrow> put ev ''null''
      | V_Boolean b \<Rightarrow> put ev (if b then ''true'' else ''false'')
      | V_Integer i \<Rightarrow> put ev (show_int i)
      | V_Float f \<Rightarrow> if en_finite en f then put ev (en_float en f) else put ev (json_text_of en c)
      | V_Decimal d \<Rightarrow>
          if jo_decimals_as_numbers opts \<and> \<not> json_special d then
            (case en_number en d of None \<Rightarrow> io_fail Invalid_Data | Some n \<Rightarrow> put ev n)
          else put ev (en_string en d)
      | V_Text t \<Rightarrow> put ev (en_string en t)
      | V_Bytes b \<Rightarrow> put ev (en_string en (en_base64 en b))
      | V_Nested n \<Rightarrow> write_nested ev n pretty)"

definition write_value ::
  "env \<Rightarrow> 'f parsers \<Rightarrow> 'f encoders \<Rightarrow> json_options \<Rightarrow> bool \<Rightarrow> column_kind \<Rightarrow> cell \<Rightarrow> unit io" where
  "write_value ev ps en opts pretty k c =
     (if \<not> jo_typed opts then put ev (json_text_of en c)
      else
        (case normalize ps k c of
           Inl _ \<Rightarrow> io_fail Invalid_Data
         | Inr v \<Rightarrow> write_logical ev en opts pretty c v))"

fun json_cells ::
  "env \<Rightarrow> 'f parsers \<Rightarrow> 'f encoders \<Rightarrow> json_options \<Rightarrow> bool \<Rightarrow> string list \<Rightarrow> column_kind list
     \<Rightarrow> nat \<Rightarrow> row \<Rightarrow> unit io" where
  "json_cells ev ps en opts pretty names kinds col [] = io_return ()"
| "json_cells ev ps en opts pretty names kinds col (c # cs) =
     io_then (io_when (0 < col) (put ev '',''))
       (io_then (io_when pretty (put ev (NEWLINE # ''    '')))
         (io_then (put ev (en_string en (names ! col)))
           (io_then (put ev (if pretty then '': '' else '':''))
             (io_then (write_value ev ps en opts pretty (kinds ! col) c)
               (json_cells ev ps en opts pretty names kinds (col + 1) cs)))))"

definition json_row ::
  "env \<Rightarrow> 'f parsers \<Rightarrow> 'f encoders \<Rightarrow> json_options \<Rightarrow> bool \<Rightarrow> string list \<Rightarrow> column_kind list
     \<Rightarrow> nat \<Rightarrow> row \<Rightarrow> unit io" where
  "json_row ev ps en opts lines names kinds count vals =
     (let pretty = jo_pretty opts \<and> \<not> lines in
      io_then (io_when (\<not> lines)
                (io_then (io_when (0 < count) (put ev '',''))
                  (io_when pretty (put ev (NEWLINE # ''  '')))))
        (io_then (put ev ''{'')
          (io_then (json_cells ev ps en opts pretty names kinds 0 vals)
            (io_then (io_when pretty (put ev (NEWLINE # ''  '')))
              (io_then (put ev ''}'') (io_when lines (put ev [NEWLINE])))))))"

fun json_batch ::
  "env \<Rightarrow> 'f parsers \<Rightarrow> 'f encoders \<Rightarrow> json_options \<Rightarrow> bool \<Rightarrow> string list \<Rightarrow> column_kind list
     \<Rightarrow> nat \<Rightarrow> row list \<Rightarrow> unit io" where
  "json_batch ev ps en opts lines names kinds count [] = io_return ()"
| "json_batch ev ps en opts lines names kinds count (r # rs) =
     io_then (check_cancelled ev)
       (io_then (json_row ev ps en opts lines names kinds count r)
         (json_batch ev ps en opts lines names kinds (count + 1) rs))"

definition json_finish :: "env \<Rightarrow> json_options \<Rightarrow> bool \<Rightarrow> nat \<Rightarrow> nat io" where
  "json_finish ev opts lines count =
     io_then (io_when (\<not> lines)
               (io_then (io_when (jo_pretty opts \<and> 0 < count) (put ev [NEWLINE]))
                 (put ev (CHR '']'' # [NEWLINE]))))
       (io_then (check_cancelled ev) (io_return count))"

definition selected_columns :: "'c table \<Rightarrow> column list" where
  "selected_columns t = map (\<lambda>i. tb_columns t ! i) (column_range t)"

text \<open>The search for column names always ends (\<open>column_names_are_unique\<close>).\<close>

definition write_json ::
  "env \<Rightarrow> 'f parsers \<Rightarrow> 'f encoders \<Rightarrow> json_options \<Rightarrow> bool \<Rightarrow> 'c table \<Rightarrow> nat io" where
  "write_json ev ps en opts lines t =
     io_then (validate_table t)
       (io_then (check_cancelled ev)
         (io_then (global_memory ev (64 * MIB))
           (case column_names (map cl_name (selected_columns t)) of
              None \<Rightarrow> io_fail Invalid_Data
            | Some names \<Rightarrow>
                (let kinds = map (\<lambda>c. kind_of (cl_type c)) (selected_columns t);
                     rs = map (table_values t) (row_range t)
                 in io_then (io_when (\<not> lines) (put ev ''[''))
                      (io_then (json_batch ev ps en opts lines names kinds 0 rs)
                        (json_finish ev opts lines (length rs)))))))"

section \<open>White space of fragments\<close>

fun squeeze :: "bool \<Rightarrow> bool \<Rightarrow> string \<Rightarrow> string" where
  "squeeze quoted escaped [] = []"
| "squeeze quoted escaped (b # bs) =
     (if quoted then
        b # squeeze (escaped \<or> b \<noteq> DQUOTE) (\<not> escaped \<and> b = BACKSLASH) bs
      else if b = DQUOTE then b # squeeze True False bs
      else if json_space b then squeeze False False bs
      else b # squeeze False False bs)"

text \<open>No control character inside the strings of a JSON text.\<close>

fun strings_plain :: "bool \<Rightarrow> bool \<Rightarrow> string \<Rightarrow> bool" where
  "strings_plain quoted escaped [] = True"
| "strings_plain quoted escaped (b # bs) =
     (if quoted then
        32 \<le> byte b \<and> strings_plain (escaped \<or> b \<noteq> DQUOTE) (\<not> escaped \<and> b = BACKSLASH) bs
      else strings_plain (b = DQUOTE) False bs)"

lemma squeeze_idem:
  "(\<not> quoted \<Longrightarrow> \<not> escaped) \<Longrightarrow> squeeze quoted escaped (squeeze quoted escaped t) = squeeze quoted escaped t"
proof (induction quoted escaped t rule: squeeze.induct)
  case (2 quoted escaped b bs)
  then show ?case by (cases quoted; cases escaped; cases "b = DQUOTE"; cases "json_space b") auto
qed simp

lemma squeeze_no_newline:
  "strings_plain quoted escaped t \<Longrightarrow> NEWLINE \<notin> set (squeeze quoted escaped t)"
proof (induction quoted escaped t rule: squeeze.induct)
  case (2 quoted escaped b bs)
  have "\<not> 32 \<le> byte NEWLINE" by (simp add: byte_def)
  with 2 show ?case
    by (cases quoted; cases "b = DQUOTE"; cases "json_space b") (auto simp: json_space_def)
qed simp

lemma slice_snoc: "start \<le> i \<Longrightarrow> i < length t \<Longrightarrow> slice t (start, i) @ [t ! i] = slice t (start, i + 1)"
  using slice_append [of start i "i + 1" t] by (simp add: slice_def take_Suc_conv_app_nth)

lemma nested_loop_emits:
  assumes "start \<le> index" "index \<le> length t" "bs = drop index t" "\<not> quoted \<longrightarrow> \<not> escaped"
  shows "emits ev (nested_loop ev t start index quoted escaped bs)
    (slice t (start, index) @ squeeze quoted escaped bs) ()"
  using assms
proof (induction bs arbitrary: start index quoted escaped)
  case Nil
  then show ?case by (simp add: emits_put)
next
  case (Cons b bs)
  have lt: "index < length t" using Cons.prems(3) by (metis drop_all list.distinct(1) not_less)
  have "b # bs = t ! index # drop (Suc index) t"
    by (simp only: Cons.prems(3) Cons_nth_drop_Suc [OF lt])
  then have "b = t ! index" "bs = drop (index + 1) t" by simp_all
  note index = lt this
  let ?poll = "index mod 4096 = 0"
  let ?start = "if ?poll then index else start"
  have flush: "emits ev (io_when ?poll (io_then (check_cancelled ev) (put ev (slice t (start, index)))))
     (if ?poll then slice t (start, index) else []) ()"
    by (rule emits_when) (use emits_then [OF emits_check emits_put] in simp)
  have keep: "emits ev (nested_loop ev t ?start (index + 1) q e bs)
     (slice t (?start, index) @ b # squeeze q e bs) ()" if "\<not> q \<longrightarrow> \<not> e" for q e
  proof -
    have "emits ev (nested_loop ev t ?start (index + 1) q e bs)
       (slice t (?start, index + 1) @ squeeze q e bs) ()"
      using Cons.prems(1) index that by (intro Cons.IH) auto
    moreover have "slice t (?start, index + 1) = slice t (?start, index) @ [b]"
      using slice_snoc [of ?start index t] Cons.prems(1) index by simp
    ultimately show ?thesis by simp
  qed
  have drop: "emits ev (io_then (put ev (slice t (?start, index)))
       (nested_loop ev t (index + 1) (index + 1) quoted escaped bs))
     (slice t (?start, index) @ squeeze quoted escaped bs) ()"
  proof -
    have "emits ev (nested_loop ev t (index + 1) (index + 1) quoted escaped bs)
       (slice t (index + 1, index + 1) @ squeeze quoted escaped bs) ()"
      using index Cons.prems(4) by (intro Cons.IH) auto
    then show ?thesis by (intro emits_then emits_put) simp
  qed
  have head: "(if ?poll then slice t (start, index) else []) @ slice t (?start, index) @ u
      = slice t (start, index) @ u" for u
    by simp
  have "emits ev (nested_loop ev t start index quoted escaped (b # bs))
    ((if ?poll then slice t (start, index) else []) @ slice t (?start, index)
      @ squeeze quoted escaped (b # bs)) ()"
    unfolding nested_loop.simps Let_def
  proof (rule emits_then [OF flush], goal_cases)
    case 1
    show ?case
      using Cons.prems(4) drop keep [of quoted False] keep [of quoted True] keep [of False escaped]
        keep [of quoted escaped] keep [of True escaped]
      by (cases quoted; cases escaped; cases "b = DQUOTE"; cases "b = BACKSLASH"; cases "json_space b")
        (auto simp: json_space_def)
  qed
  then show ?case unfolding head .
qed

section \<open>The text of a file\<close>

definition json_logical_text ::
  "'f encoders \<Rightarrow> json_options \<Rightarrow> bool \<Rightarrow> cell \<Rightarrow> 'f logical \<Rightarrow> string option" where
  "json_logical_text en opts pretty c v =
     (case v of
        V_Null \<Rightarrow> Some ''null''
      | V_Boolean b \<Rightarrow> Some (if b then ''true'' else ''false'')
      | V_Integer i \<Rightarrow> Some (show_int i)
      | V_Float f \<Rightarrow> Some (if en_finite en f then en_float en f else json_text_of en c)
      | V_Decimal d \<Rightarrow>
          if jo_decimals_as_numbers opts \<and> \<not> json_special d then en_number en d
          else Some (en_string en d)
      | V_Text t \<Rightarrow> Some (en_string en t)
      | V_Bytes b \<Rightarrow> Some (en_string en (en_base64 en b))
      | V_Nested n \<Rightarrow> Some (if pretty then n else squeeze False False n))"

definition json_value_text ::
  "'f parsers \<Rightarrow> 'f encoders \<Rightarrow> json_options \<Rightarrow> bool \<Rightarrow> column_kind \<Rightarrow> cell \<Rightarrow> string option" where
  "json_value_text ps en opts pretty k c =
     (if \<not> jo_typed opts then Some (json_text_of en c)
      else
        (case normalize ps k c of
           Inl _ \<Rightarrow> None
         | Inr v \<Rightarrow> json_logical_text en opts pretty c v))"

fun json_cells_text ::
  "'f parsers \<Rightarrow> 'f encoders \<Rightarrow> json_options \<Rightarrow> bool \<Rightarrow> string list \<Rightarrow> column_kind list
     \<Rightarrow> nat \<Rightarrow> row \<Rightarrow> string option" where
  "json_cells_text ps en opts pretty names kinds col [] = Some []"
| "json_cells_text ps en opts pretty names kinds col (c # cs) =
     append_opt
       (Some ((if 0 < col then '','' else []) @ (if pretty then NEWLINE # ''    '' else [])
              @ en_string en (names ! col) @ (if pretty then '': '' else '':'')))
       (append_opt (json_value_text ps en opts pretty (kinds ! col) c)
         (json_cells_text ps en opts pretty names kinds (col + 1) cs))"

definition json_object_text ::
  "'f parsers \<Rightarrow> 'f encoders \<Rightarrow> json_options \<Rightarrow> bool \<Rightarrow> string list \<Rightarrow> column_kind list \<Rightarrow> row \<Rightarrow> string option" where
  "json_object_text ps en opts pretty names kinds vals =
     append_opt (Some ''{'')
       (append_opt (json_cells_text ps en opts pretty names kinds 0 vals)
         (Some ((if pretty then NEWLINE # ''  '' else []) @ ''}'')))"

definition json_row_text ::
  "'f parsers \<Rightarrow> 'f encoders \<Rightarrow> json_options \<Rightarrow> bool \<Rightarrow> string list \<Rightarrow> column_kind list
     \<Rightarrow> nat \<Rightarrow> row \<Rightarrow> string option" where
  "json_row_text ps en opts lines names kinds count vals =
     (let pretty = jo_pretty opts \<and> \<not> lines in
      append_opt
        (Some (if lines then []
               else (if 0 < count then '','' else []) @ (if pretty then NEWLINE # ''  '' else [])))
        (append_opt (json_object_text ps en opts pretty names kinds vals)
          (Some (if lines then [NEWLINE] else []))))"

fun json_rows_text ::
  "'f parsers \<Rightarrow> 'f encoders \<Rightarrow> json_options \<Rightarrow> bool \<Rightarrow> string list \<Rightarrow> column_kind list
     \<Rightarrow> nat \<Rightarrow> row list \<Rightarrow> string option" where
  "json_rows_text ps en opts lines names kinds count [] = Some []"
| "json_rows_text ps en opts lines names kinds count (r # rs) =
     append_opt (json_row_text ps en opts lines names kinds count r)
       (json_rows_text ps en opts lines names kinds (count + 1) rs)"

definition table_names :: "'c table \<Rightarrow> string list" where
  "table_names t =
     (case column_names (map cl_name (selected_columns t)) of Some names \<Rightarrow> names | None \<Rightarrow> [])"

definition table_kinds :: "'c table \<Rightarrow> column_kind list" where
  "table_kinds t = map (\<lambda>c. kind_of (cl_type c)) (selected_columns t)"

definition json_text ::
  "'f parsers \<Rightarrow> 'f encoders \<Rightarrow> json_options \<Rightarrow> bool \<Rightarrow> 'c table \<Rightarrow> string option" where
  "json_text ps en opts lines t =
     append_opt (Some (if lines then [] else ''[''))
       (append_opt
         (json_rows_text ps en opts lines (table_names t) (table_kinds t) 0
            (map (table_values t) (row_range t)))
         (Some (if lines then []
                else (if jo_pretty opts \<and> 0 < row_count t then [NEWLINE] else []) @ CHR '']'' # [NEWLINE])))"

lemma write_nested_emits:
  "emits ev (write_nested ev t pretty) (if pretty then t else squeeze False False t) ()"
  using nested_loop_emits [of 0 0 t t False False ev] by (simp add: write_nested_def emits_put)

lemma write_value_emits:
  "emits_opt ev (write_value ev ps en opts pretty k c) (json_value_text ps en opts pretty k c) ()"
proof -
  have logical: "emits_opt ev (write_logical ev en opts pretty c v) (json_logical_text en opts pretty c v) ()" for v
    unfolding write_logical_def json_logical_text_def
    using write_nested_emits [of ev _ True] write_nested_emits [of ev _ False]
    by (auto intro!: emits_optI emits_put emits_opt_fail split: logical.split option.split)
  then show ?thesis
    unfolding write_value_def json_value_text_def
    by (auto intro!: emits_optI emits_put emits_opt_fail split: sum.split)
qed

lemma emits_opt_text: "emits_opt ev f r a \<Longrightarrow> r = q \<Longrightarrow> emits_opt ev f q a"
  by simp

lemmas emits_opt_rules =
  emits_opt_then emits_optI [OF emits_put] emits_optI [OF emits_when] emits_optI [OF emits_return]
  emits_optI [OF emits_check] emits_optI [OF emits_memory] emits_put emits_then emits_when

lemma json_cells_emits:
  "emits_opt ev (json_cells ev ps en opts pretty names kinds col cs)
     (json_cells_text ps en opts pretty names kinds col cs) ()"
proof (induction cs arbitrary: col)
  case Nil
  then show ?case by (simp add: emits_optI emits_return)
next
  case (Cons c cs)
  show ?case
    unfolding json_cells.simps
    by (rule emits_opt_text, (rule emits_opt_rules write_value_emits Cons.IH)+)
      (simp add: append_opt_assoc [symmetric])
qed

lemma json_row_emits:
  "emits_opt ev (json_row ev ps en opts lines names kinds count vals)
     (json_row_text ps en opts lines names kinds count vals) ()"
  unfolding json_row_def Let_def
  by (rule emits_opt_text, (rule emits_opt_rules json_cells_emits)+)
    (cases lines; cases "json_cells_text ps en opts (jo_pretty opts \<and> \<not> lines) names kinds 0 vals";
      simp add: json_row_text_def json_object_text_def)

lemma json_batch_emits:
  "emits_opt ev (json_batch ev ps en opts lines names kinds count rs)
     (json_rows_text ps en opts lines names kinds count rs) ()"
proof (induction rs arbitrary: count)
  case Nil
  then show ?case by (simp add: emits_optI emits_return)
next
  case (Cons r rs)
  show ?case
    unfolding json_batch.simps
    by (rule emits_opt_text, (rule emits_opt_rules json_row_emits Cons.IH)+) simp
qed

section \<open>Properties\<close>

lemma write_json_emits:
  assumes "validate_table t = io_return ()"
  shows "emits_opt ev (write_json ev ps en opts lines t) (json_text ps en opts lines t) (row_count t)"
proof -
  have names: "column_names (map cl_name (selected_columns t)) = Some (table_names t)"
    using column_names_loop_spec [of "map cl_name (selected_columns t)" "map cl_name (selected_columns t)" "[]"]
    by (auto simp: table_names_def column_names_def)
  have count: "length (map (table_values t) (row_range t)) = row_count t"
    by (simp add: row_range_def row_count_def)
  show ?thesis
    unfolding write_json_def assms names option.case Let_def json_finish_def count
    by - (rule emits_opt_text, (rule emits_opt_rules json_batch_emits)+,
      cases "json_rows_text ps en opts lines (table_names t) (table_kinds t) 0
         (map (table_values t) (row_range t))";
      simp add: json_text_def table_kinds_def)
qed

lemma write_json_valid:
  assumes "fst (write_json ev ps en opts lines t s) = Inr n"
  shows "table_range_ok t \<and> validate_table t = io_return ()"
  using io_then_Inr [OF assms [unfolded write_json_def]] validate_table_Inr by blast

text \<open>
  The fragments of nested columns are compacted without a change of their content: the loop,
  which works on slices and stops for a cancellation every 4096 bytes, writes exactly the text
  without the white space outside its strings, and compacting again changes nothing. In a fragment
  that is valid JSON no line feed is left.
\<close>

theorem nested_fragments_are_compacted:
  "emits ev (write_nested ev t False) (squeeze False False t) ()
   \<and> squeeze False False (squeeze False False t) = squeeze False False t
   \<and> (strings_plain False False t \<longrightarrow> NEWLINE \<notin> set (squeeze False False t))"
  using write_nested_emits [of ev t False] squeeze_idem [of False False t]
    squeeze_no_newline [of False False t]
  by simp

definition sample_fragment :: string where
  "sample_fragment = ''{ '' @ [DQUOTE, CHR ''a'', CHR '' '', BACKSLASH, DQUOTE, DQUOTE, CHR '':'', NEWLINE, CHR ''1''] @ ''}''"

theorem nested_fragments_are_compacted_witness:
  "sk_text (snd (write_nested calm sample_fragment False vec_sink))
     = ''{'' @ [DQUOTE, CHR ''a'', CHR '' '', BACKSLASH, DQUOTE, DQUOTE, CHR '':'', CHR ''1''] @ ''}''
   \<and> NEWLINE \<notin> set (squeeze False False sample_fragment)"
proof -
  have run: "fst (write_nested calm sample_fragment False vec_sink) = Inr ()" by code_simp
  have plain: "strings_plain False False sample_fragment" by code_simp
  have sq: "squeeze False False sample_fragment
     = ''{'' @ [DQUOTE, CHR ''a'', CHR '' '', BACKSLASH, DQUOTE, DQUOTE, CHR '':'', CHR ''1''] @ ''}''"
    by code_simp
  note all = nested_fragments_are_compacted [of calm sample_fragment]
  from all have "emits calm (write_nested calm sample_fragment False) (squeeze False False sample_fragment) ()"
    by (rule conjunct1)
  from emits_vec [OF this run] show ?thesis using all plain sq by simp
qed

text \<open>What the JSON crates promise: a text of theirs is on one line, also inside a string.\<close>

definition one_line_encoders :: "'f encoders \<Rightarrow> bool" where
  "one_line_encoders en \<longleftrightarrow>
     (\<forall>s. NEWLINE \<notin> set (en_string en s)) \<and> (\<forall>f. NEWLINE \<notin> set (en_float en f))
     \<and> (\<forall>d n. en_number en d = Some n \<longrightarrow> NEWLINE \<notin> set n)"

definition valid_fragments :: "'f parsers \<Rightarrow> bool" where
  "valid_fragments ps \<longleftrightarrow> (\<forall>t v. ps_raw_json ps t = Some v \<longrightarrow> strings_plain False False v)"

lemma show_nat_no_newline: "NEWLINE \<notin> set (show_nat n)"
proof
  assume "NEWLINE \<in> set (show_nat n)"
  from show_nat_digits [OF this] show False by (simp add: is_ascii_digit_def byte_def)
qed

lemma normalize_nested:
  "normalize ps k c = Inr (V_Nested v) \<Longrightarrow> \<exists>t. ps_raw_json ps t = Some v"
  by (auto simp: normalize_def and_then_Inr_iff split: option.splits column_kind.splits)

lemma json_value_one_line:
  assumes "one_line_encoders en" "valid_fragments ps"
    and "json_value_text ps en opts False k c = Some t"
  shows "NEWLINE \<notin> set t"
proof (cases "jo_typed opts")
  case False
  with assms(1,3) show ?thesis
    by (auto simp: json_value_text_def json_text_of_def one_line_encoders_def split: option.splits)
next
  case True
  with assms(3) obtain v where v: "normalize ps k c = Inr v"
    and t: "json_logical_text en opts False c v = Some t"
    by (auto simp: json_value_text_def split: sum.splits)
  show ?thesis
  proof (cases v)
    case (V_Nested n)
    from normalize_nested [OF v [unfolded V_Nested]] assms(2) have "strings_plain False False n"
      by (auto simp: valid_fragments_def)
    with t V_Nested squeeze_no_newline show ?thesis by (auto simp: json_logical_text_def)
  qed (use t assms(1) show_nat_no_newline in
        \<open>auto simp: json_logical_text_def one_line_encoders_def json_text_of_def show_int_def
           split: option.splits if_splits\<close>)
qed

lemma json_cells_one_line:
  assumes "one_line_encoders en" "valid_fragments ps"
  shows "json_cells_text ps en opts False names kinds col cs = Some t \<Longrightarrow> NEWLINE \<notin> set t"
proof (induction cs arbitrary: col t)
  case (Cons c cs)
  from Cons.prems obtain u v where
    u: "json_value_text ps en opts False (kinds ! col) c = Some u"
    and v: "json_cells_text ps en opts False names kinds (col + 1) cs = Some v"
    and t: "t = (if 0 < col then '','' else []) @ en_string en (names ! col) @ '':'' @ u @ v"
    by (auto simp: append_opt_Some_iff)
  have "NEWLINE \<notin> set u" by (rule json_value_one_line [OF assms u])
  moreover have "NEWLINE \<notin> set v" by (rule Cons.IH [OF v])
  moreover have "NEWLINE \<notin> set (en_string en (names ! col))"
    using assms(1) by (simp add: one_line_encoders_def)
  ultimately show ?case by (simp add: t)
qed simp

lemma json_rows_lines:
  "json_rows_text ps en opts True names kinds count rs = Some t \<Longrightarrow>
     \<exists>objs. list_all2 (\<lambda>r l. json_object_text ps en opts False names kinds r = Some l) rs objs
       \<and> t = concat (map (\<lambda>l. l @ [NEWLINE]) objs)"
proof (induction rs arbitrary: count t)
  case (Cons r rs)
  from Cons.prems obtain l v where
    l: "json_object_text ps en opts False names kinds r = Some l"
    and v: "json_rows_text ps en opts True names kinds (count + 1) rs = Some v"
    and t: "t = l @ NEWLINE # v"
    by (auto simp: append_opt_Some_iff json_row_text_def)
  from Cons.IH [OF v] obtain objs where
    "list_all2 (\<lambda>r l. json_object_text ps en opts False names kinds r = Some l) rs objs"
    "v = concat (map (\<lambda>l. l @ [NEWLINE]) objs)" by blast
  with l t show ?case by (intro exI [of _ "l # objs"]) simp
qed simp

text \<open>
  A JSON Lines export has one line for each row: the file is the objects of the rows in their
  order, each followed by one line feed, with none inside, where each line starts with an opening
  and ends with a closing brace and is the object of its row under the unique column names.
\<close>

theorem json_lines_has_one_object_per_line:
  assumes "one_line_encoders en" "valid_fragments ps"
    and "fst (write_json ev ps en opts True t vec_sink) = Inr n"
  shows "n = row_count t
    \<and> (\<exists>objs. sk_text (snd (write_json ev ps en opts True t vec_sink))
               = concat (map (\<lambda>l. l @ [NEWLINE]) objs)
         \<and> list_all2 (\<lambda>r l. json_object_text ps en opts False (table_names t) (table_kinds t) r = Some l
                            \<and> NEWLINE \<notin> set l \<and> hd l = CHR ''{'' \<and> last l = CHR ''}'')
             (map (table_values t) (row_range t)) objs)"
proof -
  from write_json_valid [OF assms(3)] have "validate_table t = io_return ()" by blast
  from emits_opt_ok [OF write_json_emits [OF this] assms(3)] obtain f where
    f: "json_text ps en opts True t = Some f" "n = row_count t"
      "sk_text (snd (write_json ev ps en opts True t vec_sink)) = f"
    by (auto simp: vec_sink_def)
  then have "json_rows_text ps en opts True (table_names t) (table_kinds t) 0
      (map (table_values t) (row_range t)) = Some f"
    by (simp add: json_text_def)
  from json_rows_lines [OF this] obtain objs where
    objs: "list_all2 (\<lambda>r l. json_object_text ps en opts False (table_names t) (table_kinds t) r = Some l)
       (map (table_values t) (row_range t)) objs" "f = concat (map (\<lambda>l. l @ [NEWLINE]) objs)"
    by blast
  have "NEWLINE \<notin> set l \<and> hd l = CHR ''{'' \<and> last l = CHR ''}''"
    if l: "json_object_text ps en opts False (table_names t) (table_kinds t) r = Some l" for r l
  proof -
    from l obtain c where "json_cells_text ps en opts False (table_names t) (table_kinds t) 0 r = Some c"
      "l = ''{'' @ c @ ''}''" by (auto simp: json_object_text_def append_opt_Some_iff)
    with json_cells_one_line [OF assms(1,2)] show ?thesis by auto
  qed
  then have "list_all2 (\<lambda>r l. json_object_text ps en opts False (table_names t) (table_kinds t) r = Some l
                            \<and> NEWLINE \<notin> set l \<and> hd l = CHR ''{'' \<and> last l = CHR ''}'')
             (map (table_values t) (row_range t)) objs"
    by (intro list_all2_mono [OF objs(1)]) blast
  with f objs(2) show ?thesis by blast
qed

text \<open>A small instance of the parameters: strings without an escape, no numbers with a point.\<close>

definition plain_encoders :: "unit encoders" where
  "plain_encoders =
     \<lparr>en_string = (\<lambda>s. DQUOTE # filter (\<lambda>c. 32 \<le> byte c \<and> c \<noteq> DQUOTE \<and> c \<noteq> BACKSLASH) s @ [DQUOTE]),
      en_finite = (\<lambda>_. True), en_float = (\<lambda>_. ''0''), en_number = (\<lambda>_. None), en_base64 = id\<rparr>"

definition plain_parsers :: "unit parsers" where
  "plain_parsers = \<lparr>ps_float = (\<lambda>_. None), ps_base64 = (\<lambda>_. None), ps_raw_json = (\<lambda>_. None)\<rparr>"

definition json_sample :: "unit table" where
  "json_sample =
     \<lparr>tb_columns = [\<lparr>cl_name = ''id'', cl_type = ''int8''\<rparr>, \<lparr>cl_name = ''id'', cl_type = ''text''\<rparr>],
      tb_rows = rows_from \<lparr>cap_rows = length, cap_cells = length, cap_text = length\<rparr> 0 ()
        [[Some ''7'', Some ''a''], [None, Some ''b'']],
      tb_row_indices = (0, 2), tb_column_indices = (0, 1)\<rparr>"

theorem json_lines_has_one_object_per_line_witness:
  "\<exists>objs. length objs = 2
     \<and> sk_text (snd (write_json calm plain_parsers plain_encoders json_options_default True json_sample vec_sink))
         = concat (map (\<lambda>l. l @ [NEWLINE]) objs)
     \<and> (\<forall>l \<in> set objs. NEWLINE \<notin> set l)"
proof -
  have nl: "\<not> 32 \<le> byte NEWLINE" by (simp add: byte_def)
  then have 1: "one_line_encoders plain_encoders"
    by (simp add: one_line_encoders_def plain_encoders_def)
  have 2: "valid_fragments plain_parsers"
    by (simp add: valid_fragments_def plain_parsers_def)
  have 3: "fst (write_json calm plain_parsers plain_encoders json_options_default True json_sample vec_sink)
     = Inr 2" by code_simp
  have rows: "length (map (table_values json_sample) (row_range json_sample)) = 2" by code_simp
  from json_lines_has_one_object_per_line [OF 1 2 3] obtain objs where
    written: "sk_text (snd (write_json calm plain_parsers plain_encoders json_options_default True json_sample vec_sink))
         = concat (map (\<lambda>l. l @ [NEWLINE]) objs)"
    and each: "list_all2 (\<lambda>r l. json_object_text plain_parsers plain_encoders json_options_default False
            (table_names json_sample) (table_kinds json_sample) r = Some l
          \<and> NEWLINE \<notin> set l \<and> hd l = CHR ''{'' \<and> last l = CHR ''}'')
        (map (table_values json_sample) (row_range json_sample)) objs"
    by blast
  from list_all2_lengthD [OF each] rows have "length objs = 2" by simp
  moreover have "\<forall>l \<in> set objs. NEWLINE \<notin> set l"
    using each by (auto simp: list_all2_conv_all_nth in_set_conv_nth)
  ultimately show ?thesis using written by blast
qed

end
