(* ===== verification/Markdown.thy ===== *)
theory Markdown
  imports Export_Io
begin

text \<open>
  Markdown exports (\<open>src/export/markdown.rs\<close>): compact and padded tables, and fenced text tables.
  The display widths of texts and characters and the grapheme clusters come from two crates and are
  a parameter (\<open>display\<close>). Characters are UTF-8 sequences, as \<open>chunks\<close> gives them.
\<close>

section \<open>Options and widths\<close>

datatype md_style = Table_Style | Code_Block

record md_options =
  mo_style :: md_style
  mo_max_cell_width :: nat
  mo_row_numbers :: bool
  mo_pretty :: bool

definition md_options_default :: md_options where
  "md_options_default =
     \<lparr>mo_style = Table_Style, mo_max_cell_width = 40, mo_row_numbers = False, mo_pretty = True\<rparr>"

record display =
  dp_str :: "string \<Rightarrow> nat"
  dp_char :: "string \<Rightarrow> nat option"
  dp_graphemes :: "string \<Rightarrow> string list"

abbreviation (input) TAB :: char where "TAB \<equiv> CHR 0x09"
abbreviation (input) CRET :: char where "CRET \<equiv> CHR 0x0D"
abbreviation (input) NL :: char where "NL \<equiv> CHR 0x0A"
abbreviation (input) BSLASH :: char where "BSLASH \<equiv> CHR 0x5C"
abbreviation (input) PIPE :: char where "PIPE \<equiv> CHR 0x7C"

definition cell_or_null :: "cell \<Rightarrow> string" where
  "cell_or_null c = (case c of None \<Rightarrow> ''NULL'' | Some v \<Rightarrow> v)"

section \<open>Table cells\<close>

text \<open>The characters after a line break: the line feed of a pair is part of it.\<close>

definition after_break :: "string \<Rightarrow> string list \<Rightarrow> string list" where
  "after_break ch chs = (if ch = [CRET] \<and> chs \<noteq> [] \<and> hd chs = [NL] then tl chs else chs)"

lemma length_after_break: "length (after_break ch chs) \<le> length chs"
  by (simp add: after_break_def)

function write_cell_loop :: "env \<Rightarrow> bool \<Rightarrow> string list \<Rightarrow> unit io" where
  "write_cell_loop ev escape_tabs [] = io_return ()"
| "write_cell_loop ev escape_tabs (ch # chs) =
     (if ch = [TAB] \<and> escape_tabs then
        io_then (put ev ''&#9;'') (write_cell_loop ev escape_tabs chs)
      else if ch = [BSLASH] then
        io_then (put ev [BSLASH, BSLASH]) (write_cell_loop ev escape_tabs chs)
      else if ch = [PIPE] then
        io_then (put ev [BSLASH, PIPE]) (write_cell_loop ev escape_tabs chs)
      else if ch = [CRET] \<or> ch = [NL] then
        io_then (put ev ''<br>'') (write_cell_loop ev escape_tabs (after_break ch chs))
      else io_then (put ev ch) (write_cell_loop ev escape_tabs chs))"
  by pat_completeness auto
termination
  by (relation "measure (\<lambda>(ev, e, chs). length chs)") (auto simp: le_imp_less_Suc length_after_break)

definition write_cell :: "env \<Rightarrow> bool \<Rightarrow> string \<Rightarrow> unit io" where
  "write_cell ev escape_tabs val = write_cell_loop ev escape_tabs (chunks val)"

definition escaped_width :: "string \<Rightarrow> nat option" where
  "escaped_width ch =
     (if ch = [BSLASH] \<or> ch = [PIPE] then Some 2
      else if ch = [CRET] \<or> ch = [NL] \<or> ch = [TAB] then Some 4
      else None)"

function table_width_loop ::
  "display \<Rightarrow> string \<Rightarrow> nat \<Rightarrow> nat \<Rightarrow> nat \<Rightarrow> string list \<Rightarrow> nat" where
  "table_width_loop dp val width start index [] = width + dp_str dp (drop start val)"
| "table_width_loop dp val width start index (ch # chs) =
     (case escaped_width ch of
        None \<Rightarrow> table_width_loop dp val width start (index + length ch) chs
      | Some escaped \<Rightarrow>
          (let width = width + (dp_str dp (slice val (start, index)) + escaped);
               rest = after_break ch chs;
               next = index + length ch + (length chs - length rest)
           in table_width_loop dp val width next next rest))"
  by pat_completeness auto
termination
  by (relation "measure (\<lambda>(dp, val, width, start, index, chs). length chs)")
    (auto simp: le_imp_less_Suc length_after_break)

definition table_width :: "display \<Rightarrow> string \<Rightarrow> nat" where
  "table_width dp val = table_width_loop dp val 0 0 0 (chunks val)"

definition table_widths :: "display \<Rightarrow> string list \<Rightarrow> bool list \<Rightarrow> nat list" where
  "table_widths dp names numeric =
     map (\<lambda>(name, number). max (table_width dp name) (if number then 4 else 3)) (zip names numeric)"

text \<open>\<open>iter_mut().zip(values)\<close>: widths without a value stay.\<close>

fun measure_table :: "display \<Rightarrow> nat list \<Rightarrow> row \<Rightarrow> nat list" where
  "measure_table dp (w # ws) (v # vs) =
     max w (table_width dp (cell_or_null v)) # measure_table dp ws vs"
| "measure_table dp ws vs = ws"

fun padding :: "env \<Rightarrow> nat \<Rightarrow> char \<Rightarrow> unit io" where
  "padding ev count b =
     (if count = 0 then io_return ()
      else
        io_then (check_cancelled ev)
          (io_then (put ev (replicate (min count 256) b)) (padding ev (count - min count 256) b)))"

declare padding.simps [simp del]

section \<open>Lines\<close>

definition md_line :: "env \<Rightarrow> string option \<Rightarrow> row \<Rightarrow> unit io" where
  "md_line ev number vals =
     io_then (put ev ''|'')
       (io_then
         (io_each
           (\<lambda>v. io_then (put ev '' '') (io_then (write_cell ev False (cell_or_null v)) (put ev '' |'')))
           ((case number of None \<Rightarrow> [] | Some n \<Rightarrow> [Some n]) @ vals))
         (put ev [NL]))"

definition pretty_line ::
  "env \<Rightarrow> display \<Rightarrow> (string \<times> nat) option \<Rightarrow> row \<Rightarrow> nat list \<Rightarrow> unit io" where
  "pretty_line ev dp number vals widths =
     io_then (put ev ''|'')
       (io_then
         (io_each
           (\<lambda>(v, w).
              io_then (put ev '' '')
                (io_then (write_cell ev True v)
                  (io_then (padding ev (w - table_width dp v) (CHR '' '')) (put ev '' |''))))
           ((case number of None \<Rightarrow> [] | Some n \<Rightarrow> [n])
            @ map (\<lambda>(v, w). (cell_or_null v, w)) (zip vals widths)))
         (put ev [NL]))"

text \<open>A width is at least three, so the subtraction of the colon does not wrap.\<close>

definition pretty_separator ::
  "env \<Rightarrow> nat option \<Rightarrow> nat list \<Rightarrow> bool list \<Rightarrow> unit io" where
  "pretty_separator ev number widths numeric =
     io_then (put ev ''|'')
       (io_then
         (io_each
           (\<lambda>(w, number).
              io_then (put ev '' '')
                (io_then (padding ev (w - of_bool number) (CHR ''-''))
                  (io_then (io_when number (put ev '':'')) (put ev '' |''))))
           ((case number of None \<Rightarrow> [] | Some w \<Rightarrow> [(w, True)]) @ zip widths numeric))
         (put ev [NL]))"

section \<open>Fenced tables\<close>

definition is_control_char :: "string \<Rightarrow> bool" where
  "is_control_char ch \<longleftrightarrow> is_control (code_point ch)"

definition grapheme_width :: "display \<Rightarrow> string \<Rightarrow> nat" where
  "grapheme_width dp t =
     (if list_ex is_control_char (chunks t) then
        sum_list (map (\<lambda>ch. if is_control_char ch then 1
                            else (case dp_char dp ch of None \<Rightarrow> 0 | Some w \<Rightarrow> w)) (chunks t))
      else dp_str dp t)"

text \<open>The first loop of \<open>clipped\<close>: the width of the whole value, if it fits.\<close>

fun fit_loop :: "display \<Rightarrow> nat \<Rightarrow> nat \<Rightarrow> string list \<Rightarrow> nat option" where
  "fit_loop dp cap width [] = Some width"
| "fit_loop dp cap width (g # gs) =
     (let next = width + grapheme_width dp g in
      if cap < next then None else fit_loop dp cap next gs)"

text \<open>The second loop: the end of the part that leaves room for the ellipsis, and its width.\<close>

fun clip_loop :: "display \<Rightarrow> nat \<Rightarrow> nat \<Rightarrow> nat \<Rightarrow> nat \<Rightarrow> string list \<Rightarrow> nat \<times> nat" where
  "clip_loop dp cap index end width [] = (end, width)"
| "clip_loop dp cap index end width (g # gs) =
     (let next = width + grapheme_width dp g in
      if cap - 1 < next then (end, width)
      else clip_loop dp cap (index + length g) (index + length g) next gs)"

definition clipped :: "display \<Rightarrow> string \<Rightarrow> nat \<Rightarrow> string \<times> nat \<times> bool" where
  "clipped dp val cap =
     (if list_all is_ascii (take (min (length val) (saturating_add cap 1)) val) then
        (if length val \<le> cap then (val, length val, False)
         else
           (let end = cap - 1;
                end = (if 0 < end \<and> slice val (end - 1, end + 1) = [CRET, NL] then end - 1 else end)
            in (take end val, end + 1, True)))
      else
        (case fit_loop dp cap 0 (dp_graphemes dp val) of
           Some width \<Rightarrow> (val, width, False)
         | None \<Rightarrow>
             (let (end, width) = clip_loop dp cap 0 0 0 (dp_graphemes dp val)
              in (take end val, width + 1, True))))"

definition md_width :: "display \<Rightarrow> string \<Rightarrow> nat \<Rightarrow> nat" where
  "md_width dp val cap = fst (snd (clipped dp val cap))"

definition ELLIPSIS :: string where
  "ELLIPSIS = [CHR 0xE2, CHR 0x80, CHR 0xA6]"

definition shown_char :: "string \<Rightarrow> string" where
  "shown_char ch = (if is_control_char ch then '' '' else ch)"

definition code_cell :: "env \<Rightarrow> display \<Rightarrow> nat \<Rightarrow> string \<Rightarrow> nat \<Rightarrow> unit io" where
  "code_cell ev dp limit val width =
     (let (part, written, truncated) = clipped dp val limit in
      io_then (put ev '' '')
        (io_then (io_each (\<lambda>ch. put ev (shown_char ch)) (chunks part))
          (io_then (io_when truncated (put ev ELLIPSIS))
            (io_then (io_each (\<lambda>_. put ev '' '') [written..<width]) (put ev '' |'')))))"

definition code_line ::
  "env \<Rightarrow> display \<Rightarrow> (string \<times> nat) option \<Rightarrow> row \<Rightarrow> nat list \<Rightarrow> nat \<Rightarrow> unit io" where
  "code_line ev dp number vals widths cap =
     io_then (put ev ''|'')
       (io_then
         (io_each (\<lambda>(limit, v, w). code_cell ev dp limit v w)
           ((case number of None \<Rightarrow> [] | Some (n, w) \<Rightarrow> [(max cap w, n, w)])
            @ map (\<lambda>(v, w). (cap, cell_or_null v, w)) (zip vals widths)))
         (put ev [NL]))"

section \<open>The export\<close>

fun measure_rows ::
  "env \<Rightarrow> (nat list \<Rightarrow> row \<Rightarrow> nat list) \<Rightarrow> nat list \<Rightarrow> row list \<Rightarrow> nat list io" where
  "measure_rows ev widen widths [] = io_return widths"
| "measure_rows ev widen widths (r # rs) =
     io_bind (check_cancelled ev) (\<lambda>_. measure_rows ev widen (widen widths r) rs)"

text \<open>The index of \<open>widths\<close> in the code is the one of the value: there is one width per column.\<close>

fun measure_code :: "display \<Rightarrow> nat \<Rightarrow> nat list \<Rightarrow> row \<Rightarrow> nat list" where
  "measure_code dp cap (w # ws) (v # vs) =
     max w (md_width dp (cell_or_null v) cap) # measure_code dp cap ws vs"
| "measure_code dp cap ws vs = ws"

definition md_numeric :: "'c table \<Rightarrow> bool list" where
  "md_numeric t = map (\<lambda>c. ec_kind c = Number_Kind) (export_columns t)"

definition md_names :: "'c table \<Rightarrow> string list" where
  "md_names t = map ec_name (export_columns t)"

definition when_some :: "bool \<Rightarrow> 'a \<Rightarrow> 'a option" where
  "when_some b a = (if b then Some a else None)"

definition write_table_style :: "env \<Rightarrow> display \<Rightarrow> md_options \<Rightarrow> 'c table \<Rightarrow> unit io" where
  "write_table_style ev dp opts t =
     io_bind
       (if mo_pretty opts
        then measure_rows ev (measure_table dp) (table_widths dp (md_names t) (md_numeric t))
               (map (table_values t) (row_range t))
        else io_return (table_widths dp (md_names t) (md_numeric t)))
       (\<lambda>widths.
          let number_width = max (length (show_nat (snd (tb_row_indices t)))) 4;
              numbers = mo_row_numbers opts
          in io_then
              (if mo_pretty opts then
                 io_then
                   (pretty_line ev dp (when_some numbers (''#'', number_width)) (map Some (md_names t)) widths)
                   (pretty_separator ev (when_some numbers number_width) widths (md_numeric t))
               else
                 io_then (md_line ev (when_some numbers ''#'') (map Some (md_names t)))
                   (md_line ev (when_some numbers ''---:'')
                      (map (\<lambda>n. Some (if n then ''---:'' else ''---'')) (md_numeric t))))
              (io_each
                (\<lambda>r. io_then (check_cancelled ev)
                   (if mo_pretty opts
                    then pretty_line ev dp (when_some numbers (show_nat (r + 1), number_width))
                           (table_values t r) widths
                    else md_line ev (when_some numbers (show_nat (r + 1))) (table_values t r)))
                (row_range t)))"

definition write_code_style :: "env \<Rightarrow> display \<Rightarrow> md_options \<Rightarrow> 'c table \<Rightarrow> unit io" where
  "write_code_style ev dp opts t =
     (let cap = mo_max_cell_width opts; numbers = mo_row_numbers opts in
      io_bind
        (measure_rows ev (measure_code dp cap) (map (\<lambda>n. md_width dp n cap) (md_names t))
           (map (table_values t) (row_range t)))
        (\<lambda>widths.
           let number_width = max (length (show_nat (snd (tb_row_indices t)))) 1
           in io_then (put ev (''```'' @ [NL]))
                (io_then (code_line ev dp (when_some numbers (''#'', number_width)) (map Some (md_names t)) widths cap)
                  (io_then (code_line ev dp (when_some numbers (''-'', number_width)) (map (\<lambda>_. Some ''-'') widths) widths cap)
                    (io_then
                      (io_each
                        (\<lambda>r. io_then (check_cancelled ev)
                           (code_line ev dp (when_some numbers (show_nat (r + 1), number_width))
                              (table_values t r) widths cap))
                        (row_range t))
                      (put ev (''```'' @ [NL])))))))"

definition write_markdown :: "env \<Rightarrow> display \<Rightarrow> md_options \<Rightarrow> 'c table \<Rightarrow> nat io" where
  "write_markdown ev dp opts t =
     io_then (validate_table t)
       (io_then (global_memory ev (64 * MIB))
         (io_then (check_cancelled ev)
           (if mo_style opts = Code_Block \<and> \<not> (1 \<le> mo_max_cell_width opts \<and> mo_max_cell_width opts \<le> 1000)
            then io_fail Invalid_Input
            else
              io_then
                (case mo_style opts of
                   Table_Style \<Rightarrow> write_table_style ev dp opts t
                 | Code_Block \<Rightarrow> write_code_style ev dp opts t)
                (io_then (check_cancelled ev) (io_return (row_count t))))))"

section \<open>The text of a table\<close>

function cell_text :: "bool \<Rightarrow> string list \<Rightarrow> string" where
  "cell_text e [] = []"
| "cell_text e (ch # chs) =
     (if ch = [TAB] \<and> e then ''&#9;'' @ cell_text e chs
      else if ch = [BSLASH] then [BSLASH, BSLASH] @ cell_text e chs
      else if ch = [PIPE] then [BSLASH, PIPE] @ cell_text e chs
      else if ch = [CRET] \<or> ch = [NL] then ''<br>'' @ cell_text e (after_break ch chs)
      else ch @ cell_text e chs)"
  by pat_completeness auto
termination
  by (relation "measure (\<lambda>(e, chs). length chs)") (auto simp: le_imp_less_Suc length_after_break)

text \<open>What a reader of Markdown sees of a cell: line breaks as tags, in padded tables tabs as entities.\<close>

function shown_text :: "bool \<Rightarrow> string list \<Rightarrow> string" where
  "shown_text e [] = []"
| "shown_text e (ch # chs) =
     (if ch = [TAB] \<and> e then ''&#9;'' @ shown_text e chs
      else if ch = [CRET] \<or> ch = [NL] then ''<br>'' @ shown_text e (after_break ch chs)
      else ch @ shown_text e chs)"
  by pat_completeness auto
termination
  by (relation "measure (\<lambda>(e, chs). length chs)") (auto simp: le_imp_less_Suc length_after_break)

definition shown :: "bool \<Rightarrow> string \<Rightarrow> string" where
  "shown e v = shown_text e (chunks v)"

definition raw_row :: "string list \<Rightarrow> string" where
  "raw_row cs = ''|'' @ concat (map (\<lambda>c. '' '' @ c @ '' |'') cs) @ [NL]"

lemma write_cell_emits: "emits ev (write_cell ev e v) (cell_text e (chunks v)) ()"
proof -
  have "emits ev (write_cell_loop ev e chs) (cell_text e chs) ()" for chs
  proof (induction "length chs" arbitrary: chs rule: less_induct)
    case less
    show ?case
    proof (cases chs)
      case (Cons ch rest)
      have rest: "emits ev (write_cell_loop ev e rest) (cell_text e rest) ()"
        by (rule less) (simp add: Cons)
      have break: "emits ev (write_cell_loop ev e (after_break ch rest)) (cell_text e (after_break ch rest)) ()"
        by (rule less) (simp add: Cons le_imp_less_Suc length_after_break)
      show ?thesis
        unfolding Cons write_cell_loop.simps cell_text.simps
        by (intro emits_if emits_then emits_put rest break)
    qed (simp add: emits_return)
  qed
  then show ?thesis by (simp add: write_cell_def)
qed

lemma padding_emits: "emits ev (padding ev n b) (replicate n b) ()"
proof (induction ev n b rule: padding.induct)
  case (1 ev n b)
  show ?case
  proof (cases "n = 0")
    case True
    then show ?thesis by (subst padding.simps) (simp add: emits_return)
  next
    case False
    then have "emits ev (padding ev n b) ([] @ replicate (min n 256) b @ replicate (n - min n 256) b) ()"
      by (subst padding.simps) (simp only: if_False, intro emits_then emits_check emits_put 1)
    moreover have "replicate (min n 256) b @ replicate (n - min n 256) b = replicate n b"
      by (simp add: replicate_add [symmetric])
    ultimately show ?thesis by simp
  qed
qed

lemma measure_rows_emits: "emits ev (measure_rows ev widen ws rs) [] (foldl widen ws rs)"
proof (induction rs arbitrary: ws)
  case Nil
  then show ?case by (simp add: emits_return)
next
  case (Cons r rs)
  have "emits ev (measure_rows ev widen ws (r # rs)) ([] @ []) (foldl widen (widen ws r) rs)"
    unfolding measure_rows.simps by (rule emits_bind [OF emits_check Cons.IH])
  then show ?case by simp
qed

definition number_cells :: "'a option \<Rightarrow> 'a list" where
  "number_cells n = (case n of None \<Rightarrow> [] | Some x \<Rightarrow> [x])"

lemma md_line_emits:
  "emits ev (md_line ev number vals)
     (raw_row (map (\<lambda>v. cell_text False (chunks v)) (number_cells number @ map cell_or_null vals))) ()"
proof -
  have cell: "emits ev (io_then (put ev '' '') (io_then (write_cell ev False (cell_or_null v)) (put ev '' |'')))
     ('' '' @ cell_text False (chunks (cell_or_null v)) @ '' |'') ()" for v
    by (intro emits_then emits_put write_cell_emits)
  have "emits ev (md_line ev number vals)
     (''|'' @ concat (map (\<lambda>v. '' '' @ cell_text False (chunks (cell_or_null v)) @ '' |'')
       ((case number of None \<Rightarrow> [] | Some n \<Rightarrow> [Some n]) @ vals)) @ [NL]) ()"
    unfolding md_line_def by (intro emits_then emits_put emits_each cell)
  then show ?thesis
    by (cases number) (simp_all add: raw_row_def number_cells_def cell_or_null_def comp_def)
qed

definition padded :: "display \<Rightarrow> string \<times> nat \<Rightarrow> string" where
  "padded dp c = cell_text True (chunks (fst c)) @ replicate (snd c - table_width dp (fst c)) (CHR '' '')"

lemma pretty_line_emits:
  "emits ev (pretty_line ev dp number vals widths)
     (raw_row (map (padded dp) (number_cells number @ zip (map cell_or_null vals) widths))) ()"
proof -
  have cell: "emits ev
      (case c of (v, w) \<Rightarrow>
         io_then (put ev '' '')
           (io_then (write_cell ev True v)
             (io_then (padding ev (w - table_width dp v) (CHR '' '')) (put ev '' |''))))
     ('' '' @ padded dp c @ '' |'') ()" for c
    unfolding padded_def prod.case_eq_if append_assoc
    by (intro emits_then emits_put write_cell_emits padding_emits)
  have "emits ev (pretty_line ev dp number vals widths)
     (''|'' @ concat (map (\<lambda>c. '' '' @ padded dp c @ '' |'')
       ((case number of None \<Rightarrow> [] | Some n \<Rightarrow> [n])
            @ map (\<lambda>(v, w). (cell_or_null v, w)) (zip vals widths))) @ [NL]) ()"
    unfolding pretty_line_def by (intro emits_then emits_put emits_each cell)
  moreover have "map (\<lambda>(v, w). (cell_or_null v, w)) (zip vals widths) = zip (map cell_or_null vals) widths"
    by (simp add: zip_map1)
  ultimately show ?thesis
    by (simp add: raw_row_def number_cells_def comp_def)
qed

definition rule_text :: "nat \<times> bool \<Rightarrow> string" where
  "rule_text c = replicate (fst c - of_bool (snd c)) (CHR ''-'') @ (if snd c then '':'' else [])"

lemma pretty_separator_emits:
  "emits ev (pretty_separator ev number widths numeric)
     (raw_row (map rule_text (map (\<lambda>w. (w, True)) (number_cells number) @ zip widths numeric))) ()"
proof -
  have cell: "emits ev
      (case c of (w, number) \<Rightarrow>
         io_then (put ev '' '')
           (io_then (padding ev (w - of_bool number) (CHR ''-''))
             (io_then (io_when number (put ev '':'')) (put ev '' |''))))
     ('' '' @ rule_text c @ '' |'') ()" for c
    unfolding rule_text_def prod.case_eq_if append_assoc
    by (intro emits_then emits_put padding_emits emits_when)
  have "emits ev (pretty_separator ev number widths numeric)
     (''|'' @ concat (map (\<lambda>c. '' '' @ rule_text c @ '' |'')
       ((case number of None \<Rightarrow> [] | Some w \<Rightarrow> [(w, True)]) @ zip widths numeric)) @ [NL]) ()"
    unfolding pretty_separator_def by (intro emits_then emits_put emits_each cell)
  then show ?thesis
    by (cases number) (simp_all add: raw_row_def number_cells_def comp_def)
qed

section \<open>A reader of tables\<close>

text \<open>A backslash escapes the next character, a pipe ends a cell, and one space pads each side.\<close>

definition inner_text :: "string \<Rightarrow> string" where
  "inner_text c = butlast (tl c)"

fun md_read :: "string \<Rightarrow> string list \<Rightarrow> string \<Rightarrow> string list list" where
  "md_read acc cells [] = []"
| "md_read acc cells [c] = (if c = NL then [map inner_text (tl cells)] else [])"
| "md_read acc cells (c # d # ds) =
     (if c = BSLASH then md_read (acc @ [d]) cells ds
      else if c = PIPE then md_read [] (cells @ [acc]) (d # ds)
      else if c = NL then map inner_text (tl cells) # md_read [] [] (d # ds)
      else md_read (acc @ [c]) cells (d # ds))"

lemma md_read_escape: "md_read acc cells (BSLASH # d # ds) = md_read (acc @ [d]) cells ds"
  by simp

lemma md_read_pipe: "md_read acc cells (PIPE # ds) = md_read [] (cells @ [acc]) ds"
  by (cases ds) simp_all

lemma md_read_newline: "md_read acc cells (NL # ds) = map inner_text (tl cells) # md_read [] [] ds"
  by (cases ds) simp_all

lemma md_read_other:
  "c \<noteq> BSLASH \<Longrightarrow> c \<noteq> PIPE \<Longrightarrow> c \<noteq> NL \<Longrightarrow> md_read acc cells (c # ds) = md_read (acc @ [c]) cells ds"
  by (cases ds) simp_all

text \<open>The text \<open>c\<close> of the file is read as the text \<open>s\<close>.\<close>

definition reads :: "string \<Rightarrow> string \<Rightarrow> bool" where
  "reads c s \<longleftrightarrow> (\<forall>acc cells rest. md_read acc cells (c @ rest) = md_read (acc @ s) cells rest)"

lemma reads_Nil: "reads [] []"
  by (simp add: reads_def)

lemma reads_append: "reads c s \<Longrightarrow> reads d t \<Longrightarrow> reads (c @ d) (s @ t)"
  by (simp add: reads_def)

definition ordinary :: "char \<Rightarrow> bool" where
  "ordinary c \<longleftrightarrow> c \<noteq> BSLASH \<and> c \<noteq> PIPE \<and> c \<noteq> NL"

lemma reads_plain: "\<forall>c \<in> set s. ordinary c \<Longrightarrow> reads s s"
proof (induction s)
  case (Cons c s)
  have "reads [c] [c]" using Cons.prems by (simp add: reads_def md_read_other ordinary_def)
  with reads_append [of "[c]" "[c]" s s] Cons show ?case by simp
qed (rule reads_Nil)

lemma reads_escaped: "reads [BSLASH, c] [c]"
  by (simp add: reads_def)

lemma utf8_chunk_byte:
  assumes "utf8_chunk ch" "b \<in> set ch" "byte b < 128"
  shows "ch = [b]"
proof (cases ch)
  case (Cons h tail)
  have tail: "\<forall>x \<in> set tail. 128 \<le> byte x" using assms(1) by (auto simp: utf8_chunk_def Cons list_all_iff)
  with assms(2,3) Cons have b: "b = h" by auto
  with assms(1,3) Cons have "length ch = 1" by (simp add: utf8_chunk_def)
  with Cons b show ?thesis by simp
qed (use assms(2) in simp)

lemma utf8_chunk_ordinary:
  assumes "utf8_chunk ch" "ch \<noteq> [BSLASH]" "ch \<noteq> [PIPE]" "ch \<noteq> [NL]"
  shows "\<forall>c \<in> set ch. ordinary c"
proof
  fix c assume c: "c \<in> set ch"
  have "byte BSLASH < 128" "byte PIPE < 128" "byte NL < 128" by (simp_all add: byte_def)
  with utf8_chunk_byte [OF assms(1) c] assms(2-4) show "ordinary c"
    unfolding ordinary_def by blast
qed

lemma set_after_break: "set (after_break ch chs) \<subseteq> set chs"
  by (auto simp: after_break_def dest: list.set_sel(2))

lemma reads_cell_text:
  "\<forall>ch \<in> set chs. utf8_chunk ch \<Longrightarrow> reads (cell_text e chs) (shown_text e chs)"
proof (induction "length chs" arbitrary: chs rule: less_induct)
  case less
  show ?case
  proof (cases chs)
    case (Cons ch rest)
    have rest: "reads (cell_text e rest) (shown_text e rest)"
      using less.prems by (intro less.hyps) (simp_all add: Cons)
    have break: "reads (cell_text e (after_break ch rest)) (shown_text e (after_break ch rest))"
      using less.prems set_after_break [of ch rest]
      by (intro less.hyps) (auto simp: Cons le_imp_less_Suc length_after_break)
    have entity: "reads ''&#9;'' ''&#9;''" and br: "reads ''<br>'' ''<br>''"
      by (rule reads_plain; simp add: ordinary_def)+
    have other: "reads ch ch" if "ch \<noteq> [BSLASH]" "ch \<noteq> [PIPE]" "ch \<noteq> [NL]"
      using utf8_chunk_ordinary [OF _ that] less.prems by (intro reads_plain) (simp add: Cons)
    show ?thesis
      using reads_append [OF entity rest] reads_append [OF br break]
        reads_append [OF reads_escaped rest] reads_append [OF other rest]
      by (auto simp: Cons)
  qed (simp add: reads_Nil)
qed

lemma reads_cell: "utf8 v \<Longrightarrow> reads (cell_text e (chunks v)) (shown e v)"
  unfolding shown_def by (rule reads_cell_text) (simp add: utf8_def list_all_iff)

lemma read_cells:
  "list_all2 reads cs ss \<Longrightarrow>
     md_read [] cells (concat (map (\<lambda>c. '' '' @ c @ '' |'') cs) @ NL # rest)
       = map inner_text (tl (cells @ map (\<lambda>s. '' '' @ s @ '' '') ss)) # md_read [] [] rest"
proof (induction cs ss arbitrary: cells rule: list_all2_induct)
  case Nil
  then show ?case by (simp add: md_read_newline)
next
  case (Cons c cs s ss)
  have "md_read [] cells ('' '' @ c @ '' |'' @ u) = md_read [] (cells @ ['' '' @ s @ '' '']) u" for u
    using Cons(1) by (simp add: md_read_other reads_def md_read_pipe)
  with Cons.IH show ?case by simp
qed

lemma read_row: "list_all2 reads cs ss \<Longrightarrow> md_read [] [] (raw_row cs @ rest) = ss # md_read [] [] rest"
  using read_cells [of cs ss "[[]]" rest]
  by (simp add: raw_row_def md_read_pipe comp_def inner_text_def butlast_append)

lemma read_rows:
  "list_all2 (list_all2 reads) rs ss \<Longrightarrow> md_read [] [] (concat (map raw_row rs)) = ss"
  by (induction rs ss rule: list_all2_induct) (simp_all add: read_row)

section \<open>The rows of a table export\<close>

definition final_widths :: "display \<Rightarrow> md_options \<Rightarrow> 'c table \<Rightarrow> nat list" where
  "final_widths dp opts t =
     (let ws = table_widths dp (md_names t) (md_numeric t) in
      if mo_pretty opts then foldl (measure_table dp) ws (map (table_values t) (row_range t)) else ws)"

definition number_width :: "'c table \<Rightarrow> nat" where
  "number_width t = max (length (show_nat (snd (tb_row_indices t)))) 4"

definition rule_cell :: "bool \<Rightarrow> string" where
  "rule_cell number = (if number then ''---:'' else ''---'')"

definition compact_rows :: "(string \<Rightarrow> string) \<Rightarrow> bool \<Rightarrow> 'c table \<Rightarrow> string list list" where
  "compact_rows f numbers t =
     (number_cells (when_some numbers ''#'') @ map f (md_names t))
     # (number_cells (when_some numbers ''---:'') @ map rule_cell (md_numeric t))
     # map (\<lambda>r. number_cells (when_some numbers (show_nat (r + 1)))
                @ map (f \<circ> cell_or_null) (table_values t r)) (row_range t)"

definition pretty_rows ::
  "(string \<times> nat \<Rightarrow> string) \<Rightarrow> bool \<Rightarrow> nat list \<Rightarrow> 'c table \<Rightarrow> string list list" where
  "pretty_rows f numbers widths t =
     map f (number_cells (when_some numbers (''#'', number_width t)) @ zip (md_names t) widths)
     # map rule_text (map (\<lambda>w. (w, True)) (number_cells (when_some numbers (number_width t)))
                      @ zip widths (md_numeric t))
     # map (\<lambda>r. map f (number_cells (when_some numbers (show_nat (r + 1), number_width t))
                       @ zip (map cell_or_null (table_values t r)) widths)) (row_range t)"

lemma simple_cell:
  assumes "\<forall>c \<in> set s. ordinary c \<and> c \<noteq> CRET \<and> c \<noteq> TAB \<and> byte c < 128"
  shows "cell_text e (chunks s) = s" "shown e s = s" "utf8 s"
proof -
  have "\<forall>c \<in> set s. byte c < 128" using assms by blast
  then have chunks: "chunks s = map (\<lambda>c. [c]) s" and "utf8 s" by (rule chunks_ascii, rule utf8_ascii)
  have "cell_text e (map (\<lambda>c. [c]) s) = s \<and> shown_text e (map (\<lambda>c. [c]) s) = s"
    using assms by (induction s) (auto simp: ordinary_def)
  with chunks \<open>utf8 s\<close> show "cell_text e (chunks s) = s" "shown e s = s" "utf8 s"
    by (simp_all add: shown_def)
qed

lemma simple_chars:
  "ordinary CHR ''#''" "ordinary CHR ''-''" "ordinary CHR '':''" "ordinary CHR '' ''"
  "byte CHR ''#'' < 128" "byte CHR ''-'' < 128" "byte CHR '':'' < 128" "byte CHR '' '' < 128"
  by (simp_all add: ordinary_def byte_def)

lemma simple_digits:
  "\<forall>c \<in> set (show_nat n). ordinary c \<and> c \<noteq> CRET \<and> c \<noteq> TAB \<and> byte c < 128"
proof
  fix c assume "c \<in> set (show_nat n)"
  from show_nat_digits [OF this] have "48 \<le> byte c" "byte c \<le> 57" by (simp_all add: is_ascii_digit_def)
  then show "ordinary c \<and> c \<noteq> CRET \<and> c \<noteq> TAB \<and> byte c < 128"
    by (auto simp: ordinary_def byte_def)
qed

lemmas simple_texts =
  simple_cell [OF simple_digits]
  simple_cell [of "''#''"] simple_cell [of "''---:''"] simple_cell [of "''---''"]

lemma md_line_emits_cells:
  assumes "cs = map (\<lambda>v. cell_text False (chunks v)) (number_cells number @ map cell_or_null vals)"
  shows "emits ev (md_line ev number vals) (raw_row cs) ()"
  unfolding assms by (rule md_line_emits)

definition style_text :: "display \<Rightarrow> md_options \<Rightarrow> 'c table \<Rightarrow> string" where
  "style_text dp opts t =
     concat (map raw_row
       (if mo_pretty opts
        then pretty_rows (padded dp) (mo_row_numbers opts) (final_widths dp opts t) t
        else compact_rows (\<lambda>v. cell_text False (chunks v)) (mo_row_numbers opts) t))"

lemma compact_lines_emit:
  "emits ev
     (io_then
       (io_then (md_line ev (when_some numbers ''#'') (map Some (md_names t)))
         (md_line ev (when_some numbers ''---:'')
            (map (\<lambda>n. Some (if n then ''---:'' else ''---'')) (md_numeric t))))
       (io_each
         (\<lambda>r. io_then (check_cancelled ev)
            (md_line ev (when_some numbers (show_nat (r + 1))) (table_values t r)))
         (row_range t)))
     (concat (map raw_row (compact_rows (\<lambda>v. cell_text False (chunks v)) numbers t))) ()"
proof -
  let ?f = "\<lambda>v. cell_text False (chunks v)"
  let ?row = "\<lambda>r. number_cells (when_some numbers (show_nat (r + 1)))
                @ map (?f \<circ> cell_or_null) (table_values t r)"
  have each: "emits ev (io_then (check_cancelled ev)
            (md_line ev (when_some numbers (show_nat (r + 1))) (table_values t r)))
     ([] @ raw_row (?row r)) ()" for r
    by (intro emits_then emits_check md_line_emits_cells)
      (cases numbers; simp add: number_cells_def when_some_def simple_texts)
  have 1: "emits ev (md_line ev (when_some numbers ''#'') (map Some (md_names t)))
     (raw_row (number_cells (when_some numbers ''#'') @ map ?f (md_names t))) ()"
    by (rule md_line_emits_cells)
      (cases numbers; simp add: number_cells_def when_some_def simple_texts simple_chars cell_or_null_def comp_def)
  have 2: "emits ev (md_line ev (when_some numbers ''---:'')
            (map (\<lambda>n. Some (if n then ''---:'' else ''---'')) (md_numeric t)))
     (raw_row (number_cells (when_some numbers ''---:'') @ map rule_cell (md_numeric t))) ()"
    by (rule md_line_emits_cells)
      (cases numbers; simp add: number_cells_def when_some_def simple_texts simple_chars cell_or_null_def
        rule_cell_def comp_def)
  have "emits ev
     (io_then
       (io_then (md_line ev (when_some numbers ''#'') (map Some (md_names t)))
         (md_line ev (when_some numbers ''---:'')
            (map (\<lambda>n. Some (if n then ''---:'' else ''---'')) (md_numeric t))))
       (io_each
         (\<lambda>r. io_then (check_cancelled ev)
            (md_line ev (when_some numbers (show_nat (r + 1))) (table_values t r)))
         (row_range t)))
     ((raw_row (number_cells (when_some numbers ''#'') @ map ?f (md_names t))
       @ raw_row (number_cells (when_some numbers ''---:'') @ map rule_cell (md_numeric t)))
      @ concat (map (\<lambda>r. [] @ raw_row (?row r)) (row_range t))) ()"
    by (intro emits_then 1 2 emits_each each)
  then show ?thesis by (simp add: compact_rows_def comp_def)
qed

lemma pretty_lines_emit:
  "emits ev
     (io_then
       (io_then
         (pretty_line ev dp (when_some numbers (''#'', number_width t)) (map Some (md_names t)) widths)
         (pretty_separator ev (when_some numbers (number_width t)) widths (md_numeric t)))
       (io_each
         (\<lambda>r. io_then (check_cancelled ev)
            (pretty_line ev dp (when_some numbers (show_nat (r + 1), number_width t))
               (table_values t r) widths))
         (row_range t)))
     (concat (map raw_row (pretty_rows (padded dp) numbers widths t))) ()"
proof -
  let ?row = "\<lambda>r. map (padded dp) (number_cells (when_some numbers (show_nat (r + 1), number_width t))
                       @ zip (map cell_or_null (table_values t r)) widths)"
  have names: "map cell_or_null (map Some ns) = ns" for ns
    by (simp add: cell_or_null_def comp_def)
  have "emits ev
     (io_then
       (io_then
         (pretty_line ev dp (when_some numbers (''#'', number_width t)) (map Some (md_names t)) widths)
         (pretty_separator ev (when_some numbers (number_width t)) widths (md_numeric t)))
       (io_each
         (\<lambda>r. io_then (check_cancelled ev)
            (pretty_line ev dp (when_some numbers (show_nat (r + 1), number_width t))
               (table_values t r) widths))
         (row_range t)))
     ((raw_row (map (padded dp) (number_cells (when_some numbers (''#'', number_width t))
          @ zip (map cell_or_null (map Some (md_names t))) widths))
       @ raw_row (map rule_text (map (\<lambda>w. (w, True)) (number_cells (when_some numbers (number_width t)))
                      @ zip widths (md_numeric t))))
      @ concat (map (\<lambda>r. [] @ raw_row (?row r)) (row_range t))) ()"
    by (intro emits_then emits_each emits_check pretty_line_emits pretty_separator_emits)
  then show ?thesis
    unfolding pretty_rows_def names
    by (simp only: list.map concat.simps map_map comp_def append_Nil append_assoc)
qed

lemma write_table_style_emits:
  "emits ev (write_table_style ev dp opts t) (style_text dp opts t) ()"
proof (cases "mo_pretty opts")
  case True
  show ?thesis
    by (simp only: write_table_style_def Let_def True if_True number_width_def [symmetric],
        rule emits_text, rule emits_bind, rule measure_rows_emits, rule pretty_lines_emit)
      (simp add: style_text_def True final_widths_def Let_def)
next
  case False
  show ?thesis
    by (simp only: write_table_style_def Let_def False if_False,
        rule emits_text, rule emits_bind, rule emits_return, rule compact_lines_emit)
      (simp add: style_text_def False)
qed

section \<open>Reading a table export\<close>

definition table_utf8 :: "'c table \<Rightarrow> bool" where
  "table_utf8 t \<longleftrightarrow>
     list_all utf8 (md_names t)
     \<and> list_all (\<lambda>r. list_all (\<lambda>v. utf8 (cell_or_null v)) (table_values t r)) (row_range t)"

text \<open>A padded cell as a reader sees it.\<close>

definition shown_padded :: "display \<Rightarrow> string \<times> nat \<Rightarrow> string" where
  "shown_padded dp c = shown True (fst c) @ replicate (snd c - table_width dp (fst c)) (CHR '' '')"

lemma reads_list: "\<forall>v \<in> set vs. reads (f v) (g v) \<Longrightarrow> list_all2 reads (map f vs) (map g vs)"
  by (induction vs) simp_all

lemma reads_same: "\<forall>v \<in> set vs. reads v v \<Longrightarrow> list_all2 reads vs vs"
  by (induction vs) simp_all

lemma reads_simple:
  assumes "\<forall>c \<in> set s. ordinary c \<and> c \<noteq> CRET \<and> c \<noteq> TAB \<and> byte c < 128"
  shows "reads s s"
  using assms by (intro reads_plain) blast

lemma reads_number:
  "list_all2 reads (number_cells (when_some b (show_nat n))) (number_cells (when_some b (show_nat n)))"
  by (cases b) (simp_all add: number_cells_def when_some_def reads_simple [OF simple_digits])

lemma list_all2_mapI: "(\<And>x. x \<in> set xs \<Longrightarrow> P (f x) (g x)) \<Longrightarrow> list_all2 P (map f xs) (map g xs)"
  by (induction xs) simp_all

lemma compact_rows_read:
  assumes "table_utf8 t"
  shows "list_all2 (list_all2 reads)
    (compact_rows (\<lambda>v. cell_text False (chunks v)) numbers t) (compact_rows (shown False) numbers t)"
proof -
  have names: "utf8 v" if "v \<in> set (md_names t)" for v
    using assms that by (simp add: table_utf8_def list_all_iff)
  have vals: "utf8 (cell_or_null v)" if "r \<in> set (row_range t)" "v \<in> set (table_values t r)" for r v
    using assms that by (simp add: table_utf8_def list_all_iff)
  have rule: "reads (rule_cell b) (rule_cell b)" for b
    by (rule reads_simple) (auto simp: rule_cell_def simple_chars split: if_splits)
  have hash: "list_all2 reads (number_cells (when_some numbers ''#'')) (number_cells (when_some numbers ''#''))"
    and dashes: "list_all2 reads (number_cells (when_some numbers ''---:'')) (number_cells (when_some numbers ''---:''))"
    by (cases numbers; simp add: number_cells_def when_some_def reads_simple simple_chars)+
  show ?thesis
    unfolding compact_rows_def list.rel_inject
    by (intro conjI list_all2_appendI list_all2_mapI reads_number hash dashes rule)
      (simp_all add: reads_cell names vals)
qed

lemma replicate_reads: "ordinary c \<Longrightarrow> reads (replicate n c) (replicate n c)"
  by (rule reads_plain) simp

lemma padded_reads: "utf8 (fst c) \<Longrightarrow> reads (padded dp c) (shown_padded dp c)"
  unfolding padded_def shown_padded_def
  by (intro reads_append reads_cell replicate_reads) (simp_all add: simple_chars)

lemma rule_reads: "reads (rule_text c) (rule_text c)"
proof -
  have "reads (if snd c then '':'' else []) (if snd c then '':'' else [])"
    by (simp add: reads_simple simple_chars reads_Nil)
  then show ?thesis
    unfolding rule_text_def by (intro reads_append replicate_reads simple_chars)
qed

lemma pretty_rows_read:
  assumes "table_utf8 t"
  shows "list_all2 (list_all2 reads)
    (pretty_rows (padded dp) numbers widths t) (pretty_rows (shown_padded dp) numbers widths t)"
proof -
  have number: "\<forall>c \<in> set (number_cells (when_some numbers (show_nat n, w))). utf8 (fst c)" for n w
    by (simp add: number_cells_def when_some_def simple_texts)
  have hash: "\<forall>c \<in> set (number_cells (when_some numbers (''#'', w))). utf8 (fst c)" for w
    by (simp add: number_cells_def when_some_def simple_texts simple_chars)
  have zips: "\<forall>c \<in> set (zip vs widths). utf8 (fst c)" if "\<forall>v \<in> set vs. utf8 v" for vs
    using that by (auto dest: set_zip_leftD)
  have names: "\<forall>v \<in> set (md_names t). utf8 v"
    using assms by (simp add: table_utf8_def list_all_iff)
  have vals: "\<forall>v \<in> set (map cell_or_null (table_values t r)). utf8 v" if "r \<in> set (row_range t)" for r
    using assms that by (simp add: table_utf8_def list_all_iff)
  show ?thesis
    unfolding pretty_rows_def list.rel_inject
    by (intro conjI list_all2_mapI padded_reads rule_reads; unfold set_append Un_iff)
      (blast dest: bspec [OF hash] bspec [OF number] bspec [OF zips [OF names]] bspec [OF zips [OF vals]])+
qed

lemma write_markdown_valid:
  assumes "fst (write_markdown ev dp opts t s) = Inr n"
  shows "table_range_ok t \<and> validate_table t = io_return ()
    \<and> (mo_style opts = Code_Block \<longrightarrow> 1 \<le> mo_max_cell_width opts)"
proof -
  note step = io_then_Inr [OF assms [unfolded write_markdown_def]]
  from step have "table_range_ok t \<and> validate_table t = io_return ()"
    using validate_table_Inr by blast
  moreover have "mo_style opts = Code_Block \<longrightarrow> 1 \<le> mo_max_cell_width opts"
    using step [THEN conjunct2] by (auto dest!: io_then_Inr split: if_splits)
  ultimately show ?thesis by blast
qed

lemma write_markdown_emits:
  assumes "validate_table t = io_return ()"
    and "mo_style opts = Code_Block \<longrightarrow> 1 \<le> mo_max_cell_width opts \<and> mo_max_cell_width opts \<le> 1000"
    and "emits ev (case mo_style opts of
                 Table_Style \<Rightarrow> write_table_style ev dp opts t
               | Code_Block \<Rightarrow> write_code_style ev dp opts t) txt ()"
  shows "emits ev (write_markdown ev dp opts t) txt (row_count t)"
proof -
  have ok: "\<not> (mo_style opts = Code_Block \<and> \<not> (1 \<le> mo_max_cell_width opts \<and> mo_max_cell_width opts \<le> 1000))"
    using assms(2) by blast
  have "emits ev (write_markdown ev dp opts t) ([] @ [] @ [] @ txt @ [] @ []) (row_count t)"
    unfolding write_markdown_def assms(1) if_not_P [OF ok]
    by (intro emits_then emits_return emits_memory emits_check assms(3))
  then show ?thesis by simp
qed

lemma table_style_written:
  assumes "mo_style opts = Table_Style" and "fst (write_markdown ev dp opts t vec_sink) = Inr n"
  shows "n = row_count t \<and> sk_text (snd (write_markdown ev dp opts t vec_sink)) = style_text dp opts t"
proof -
  have "emits ev (write_markdown ev dp opts t) (style_text dp opts t) (row_count t)"
    using write_markdown_valid [OF assms(2)] write_table_style_emits assms(1)
    by (intro write_markdown_emits) (simp_all del: style_text_def)
  from emits_vec [OF this assms(2)] show ?thesis by simp
qed

text \<open>
  A compact Markdown table loses nothing but the kind of its line breaks: the file has one line
  for the names, one for the alignment and one for each row, and a reader, for which a backslash
  escapes the next character and a pipe ends a cell, gets each name and each cell with its
  backslashes, pipes and tabs, where a line break is the tag \<open><br>\<close> and a null is \<open>NULL\<close>; a cell
  never ends its row. Row numbers, when they are asked for, are the first cells.
\<close>

theorem markdown_table_round_trip:
  assumes "mo_style opts = Table_Style" and "\<not> mo_pretty opts" and "table_utf8 t"
    and "fst (write_markdown ev dp opts t vec_sink) = Inr n"
  shows "n = row_count t
    \<and> md_read [] [] (sk_text (snd (write_markdown ev dp opts t vec_sink)))
      = compact_rows (shown False) (mo_row_numbers opts) t"
  using table_style_written [OF assms(1,4)] read_rows [OF compact_rows_read [OF assms(3)]] assms(2)
  by (simp add: style_text_def)

definition ascii_display :: display where
  "ascii_display =
     \<lparr>dp_str = length, dp_char = (\<lambda>ch. Some 1), dp_graphemes = chunks\<rparr>"

definition md_sample :: "unit table" where
  "md_sample =
     \<lparr>tb_columns = [\<lparr>cl_name = ''n'', cl_type = ''int4''\<rparr>, \<lparr>cl_name = ''a|b'', cl_type = ''text''\<rparr>],
      tb_rows = rows_from \<lparr>cap_rows = length, cap_cells = length, cap_text = length\<rparr> 0 ()
        [[Some ''1'', Some [CHR ''x'', CRET, NL, PIPE, BSLASH]], [None, Some ''longer'']],
      tb_row_indices = (0, 2), tb_column_indices = (0, 1)\<rparr>"

definition compact_options :: md_options where
  "compact_options = md_options_default\<lparr>mo_pretty := False, mo_row_numbers := True\<rparr>"

theorem markdown_table_round_trip_witness:
  "md_read [] [] (sk_text (snd (write_markdown calm ascii_display compact_options md_sample vec_sink)))
     = [[''#'', ''n'', ''a|b''], [''---:'', ''---:'', ''---''],
        [''1'', ''1'', ''x<br>'' @ [PIPE, BSLASH]], [''2'', ''NULL'', ''longer'']]"
proof -
  have 1: "mo_style compact_options = Table_Style" "\<not> mo_pretty compact_options"
    by (simp_all add: compact_options_def md_options_default_def)
  have 2: "table_utf8 md_sample" by code_simp
  have 3: "fst (write_markdown calm ascii_display compact_options md_sample vec_sink) = Inr 2" by code_simp
  have 4: "compact_rows (shown False) (mo_row_numbers compact_options) md_sample
     = [[''#'', ''n'', ''a|b''], [''---:'', ''---:'', ''---''],
        [''1'', ''1'', ''x<br>'' @ [PIPE, BSLASH]], [''2'', ''NULL'', ''longer'']]" by code_simp
  show ?thesis using markdown_table_round_trip [OF 1 2 3] unfolding 4 by blast
qed

section \<open>Widths of padded tables\<close>

lemma length_measure_table [simp]: "length (measure_table dp ws r) = length ws"
  by (induction dp ws r rule: measure_table.induct) simp_all

lemma measure_table_ge: "list_all2 (\<le>) ws (measure_table dp ws r)"
  by (induction dp ws r rule: measure_table.induct) (simp_all add: list.rel_refl)

lemma measure_table_fits:
  "length r \<le> length ws \<Longrightarrow>
     list_all2 (\<lambda>v w. table_width dp (cell_or_null v) \<le> w) r (take (length r) (measure_table dp ws r))"
  by (induction dp ws r rule: measure_table.induct) auto

lemma list_all2_le_trans: "list_all2 P xs ws \<Longrightarrow> list_all2 (\<le>) ws vs \<Longrightarrow>
    (\<And>x w v. P x w \<Longrightarrow> w \<le> v \<Longrightarrow> P x v) \<Longrightarrow> list_all2 P xs vs" for ws :: "nat list"
  by (auto simp: list_all2_conv_all_nth)

lemma measure_all_ge: "list_all2 (\<le>) ws (foldl (measure_table dp) ws rs)"
proof (induction rs arbitrary: ws)
  case (Cons r rs)
  have "list_all2 (\<le>) ws (measure_table dp ws r)" by (rule measure_table_ge)
  moreover have "list_all2 (\<le>) (measure_table dp ws r) (foldl (measure_table dp) (measure_table dp ws r) rs)"
    by (rule Cons.IH)
  ultimately have "list_all2 (\<le>) ws (foldl (measure_table dp) (measure_table dp ws r) rs)"
    by (rule list_all2_le_trans) (rule le_trans)
  then show ?case by simp
qed (simp add: list.rel_refl)

lemma measure_all_fits:
  "r \<in> set rs \<Longrightarrow> length r = length ws \<Longrightarrow>
     list_all2 (\<lambda>v w. table_width dp (cell_or_null v) \<le> w) r (foldl (measure_table dp) ws rs)"
proof (induction rs arbitrary: ws)
  case (Cons s rs)
  show ?case
  proof (cases "r = s")
    case True
    have "list_all2 (\<lambda>v w. table_width dp (cell_or_null v) \<le> w) r (measure_table dp ws r)"
      using measure_table_fits [of r ws dp] Cons.prems(2) by simp
    then have "list_all2 (\<lambda>v w. table_width dp (cell_or_null v) \<le> w) r
        (foldl (measure_table dp) (measure_table dp ws r) rs)"
      by (rule list_all2_le_trans [OF _ measure_all_ge]) (rule le_trans)
    then show ?thesis using True by simp
  next
    case False
    then show ?thesis using Cons.prems Cons.IH [of "measure_table dp ws s"] by simp
  qed
qed simp

lemma show_nat_length_mono: "m \<le> n \<Longrightarrow> length (show_nat m) \<le> length (show_nat n)"
proof (induction n arbitrary: m rule: less_induct)
  case (less n)
  show ?case
  proof (cases "n < 10")
    case True
    with less.prems show ?thesis by (simp add: show_nat.simps [of m] show_nat.simps [of n])
  next
    case False
    then have "length (show_nat n) = Suc (length (show_nat (n div 10)))"
      by (subst show_nat.simps) simp
    moreover have "length (show_nat m) \<le> Suc (length (show_nat (n div 10)))"
    proof (cases "m < 10")
      case True
      then show ?thesis by (subst show_nat.simps) simp
    next
      case m: False
      have "length (show_nat (m div 10)) \<le> length (show_nat (n div 10))"
        using False less.prems by (intro less.IH div_le_mono) auto
      then show ?thesis using m by (subst show_nat.simps) simp
    qed
    ultimately show ?thesis by simp
  qed
qed

lemma length_md_names:
  assumes "table_range_ok t"
  shows "length (md_names t) = length (column_range t)" "length (md_numeric t) = length (column_range t)"
  by (simp_all add: md_names_def md_numeric_def export_columns_map [OF assms])

lemma initial_widths:
  assumes "length names = length numeric"
  shows "length (table_widths dp names numeric) = length names"
    "list_all2 (\<lambda>name w. table_width dp name \<le> w) names (table_widths dp names numeric)"
    "list_all (\<lambda>w. 3 \<le> w) (table_widths dp names numeric)"
  using assms
  by (induction names numeric rule: list_induct2) (auto simp: table_widths_def)

text \<open>
  In a padded Markdown table every line has the same width: after the measuring pass no name
  and no cell of the selected rows is wider than its column, each is followed by exactly the spaces
  that are missing to the width of the column, every column is at least three wide, so the rule line
  has its dashes, and no row number is wider than the column of the numbers. A reader gets each name
  and each cell with these spaces.
\<close>

theorem pretty_tables_are_aligned:
  assumes "mo_style opts = Table_Style" and "mo_pretty opts" and "table_utf8 t"
    and "fst (write_markdown ev dp opts t vec_sink) = Inr n"
    and "ws = final_widths dp opts t"
  shows "md_read [] [] (sk_text (snd (write_markdown ev dp opts t vec_sink)))
        = pretty_rows (shown_padded dp) (mo_row_numbers opts) ws t
    \<and> list_all2 (\<lambda>name w. table_width dp name \<le> w) (md_names t) ws
    \<and> list_all (\<lambda>r. list_all2 (\<lambda>v w. table_width dp (cell_or_null v) \<le> w) (table_values t r) ws)
        (row_range t)
    \<and> list_all (\<lambda>w. 3 \<le> w) ws
    \<and> list_all (\<lambda>r. length (show_nat (r + 1)) \<le> number_width t) (row_range t)"
proof -
  have ok: "table_range_ok t" using write_markdown_valid [OF assms(4)] by blast
  let ?init = "table_widths dp (md_names t) (md_numeric t)"
  have ws: "ws = foldl (measure_table dp) ?init (map (table_values t) (row_range t))"
    using assms(2,5) by (simp add: final_widths_def Let_def)
  have len: "length (md_names t) = length (md_numeric t)" using length_md_names [OF ok] by simp
  note init = initial_widths [OF len]
  have ge: "list_all2 (\<le>) ?init ws" unfolding ws by (rule measure_all_ge)
  have names: "list_all2 (\<lambda>name w. table_width dp name \<le> w) (md_names t) ws"
    by (rule list_all2_le_trans [OF init(2) ge]) (rule le_trans)
  have rows: "list_all (\<lambda>r. list_all2 (\<lambda>v w. table_width dp (cell_or_null v) \<le> w) (table_values t r) ws)
        (row_range t)"
    unfolding ws list_all_iff
    by (intro ballI measure_all_fits) (simp_all add: init(1) length_md_names [OF ok])
  have three: "list_all (\<lambda>w. 3 \<le> w) ws"
    using init(3) ge by (simp add: list_all_length list_all2_conv_all_nth) (metis le_trans)
  have numbers: "list_all (\<lambda>r. length (show_nat (r + 1)) \<le> number_width t) (row_range t)"
    by (auto simp: list_all_iff row_range_def number_width_def le_max_iff_disj
        intro!: disjI1 show_nat_length_mono)
  have "md_read [] [] (sk_text (snd (write_markdown ev dp opts t vec_sink)))
        = pretty_rows (shown_padded dp) (mo_row_numbers opts) ws t"
    using table_style_written [OF assms(1,4)] read_rows [OF pretty_rows_read [OF assms(3)]] assms(2,5)
    by (simp add: style_text_def)
  with names rows three numbers show ?thesis by blast
qed

theorem pretty_tables_are_aligned_witness:
  "list_all2 (\<lambda>name w. table_width ascii_display name \<le> w) [''n'', ''a|b''] [4, 9]
   \<and> md_read [] [] (sk_text (snd (write_markdown calm ascii_display md_options_default md_sample vec_sink)))
       = pretty_rows (shown_padded ascii_display) False [4, 9] md_sample"
proof -
  have 1: "mo_style md_options_default = Table_Style" "mo_pretty md_options_default"
    by (simp_all add: md_options_default_def)
  have 2: "table_utf8 md_sample" by code_simp
  have 3: "fst (write_markdown calm ascii_display md_options_default md_sample vec_sink) = Inr 2" by code_simp
  have 4: "[4, 9] = final_widths ascii_display md_options_default md_sample" by code_simp
  have 5: "md_names md_sample = [''n'', ''a|b'']" "mo_row_numbers md_options_default = False" by code_simp+
  show ?thesis using pretty_tables_are_aligned [OF 1 2 3 4] unfolding 5 by blast
qed

section \<open>Fenced tables stay in their fence\<close>

text \<open>What the crate for grapheme clusters promises: they are the text, cut between characters.\<close>

definition segments :: "display \<Rightarrow> bool" where
  "segments dp \<longleftrightarrow>
     (\<forall>s. utf8 s \<longrightarrow> concat (dp_graphemes dp s) = s \<and> (\<forall>g \<in> set (dp_graphemes dp s). utf8 g))"

definition code_cell_text :: "display \<Rightarrow> nat \<Rightarrow> string \<Rightarrow> nat \<Rightarrow> string" where
  "code_cell_text dp limit v w =
     (let (part, written, truncated) = clipped dp v limit in
      '' '' @ concat (map shown_char (chunks part)) @ (if truncated then ELLIPSIS else [])
      @ replicate (w - written) (CHR '' '') @ '' |'')"

lemma code_cell_emits: "emits ev (code_cell ev dp limit v w) (code_cell_text dp limit v w) ()"
proof -
  obtain part written truncated where c: "clipped dp v limit = (part, written, truncated)"
    by (cases "clipped dp v limit")
  have spaces: "concat (map (\<lambda>_. '' '') [written..<w]) = replicate (w - written) (CHR '' '')"
    by (induction w) (simp_all add: Suc_diff_le replicate_append_same)
  have "emits ev (code_cell ev dp limit v w)
     ('' '' @ concat (map shown_char (chunks part)) @ (if truncated then ELLIPSIS else [])
      @ concat (map (\<lambda>_. '' '') [written..<w]) @ '' |'') ()"
    unfolding code_cell_def c Let_def prod.case
    by (intro emits_then emits_put emits_each emits_when)
  then show ?thesis unfolding spaces by (simp add: code_cell_text_def c)
qed

definition code_line_cells ::
  "nat \<Rightarrow> (string \<times> nat) option \<Rightarrow> row \<Rightarrow> nat list \<Rightarrow> (nat \<times> string \<times> nat) list" where
  "code_line_cells cap number vals widths =
     (case number of None \<Rightarrow> [] | Some (n, w) \<Rightarrow> [(max cap w, n, w)])
     @ map (\<lambda>(v, w). (cap, cell_or_null v, w)) (zip vals widths)"

definition code_line_text :: "display \<Rightarrow> (nat \<times> string \<times> nat) list \<Rightarrow> string" where
  "code_line_text dp cells = concat (map (\<lambda>(limit, v, w). code_cell_text dp limit v w) cells)"

lemma code_line_emits:
  "emits ev (code_line ev dp number vals widths cap)
     (''|'' @ code_line_text dp (code_line_cells cap number vals widths) @ [NL]) ()"
proof -
  have cell: "emits ev (case c of (limit, v, w) \<Rightarrow> code_cell ev dp limit v w)
     (case c of (limit, v, w) \<Rightarrow> code_cell_text dp limit v w) ()" for c
    by (simp add: code_cell_emits split: prod.split)
  show ?thesis
    unfolding code_line_def code_line_text_def code_line_cells_def
    by (intro emits_then emits_put emits_each cell)
qed

lemma clip_loop_take:
  "\<exists>k. fst (clip_loop dp cap i i w gs) = i + length (concat (take k gs))"
proof (induction gs arbitrary: i w)
  case (Cons g gs)
  show ?case
  proof (cases "cap - 1 < w + grapheme_width dp g")
    case True
    then show ?thesis by (intro exI [of _ 0]) simp
  next
    case False
    from Cons.IH [of "i + length g" "w + grapheme_width dp g"] obtain k where
      "fst (clip_loop dp cap (i + length g) (i + length g) (w + grapheme_width dp g) gs)
        = i + length g + length (concat (take k gs))" by blast
    with False show ?thesis by (intro exI [of _ "Suc k"]) (simp add: Let_def)
  qed
qed simp

lemma clipped_is_take: "\<exists>k. fst (clipped dp v cap) = take k v"
proof -
  have "\<exists>k. v = take k v" by (intro exI [of _ "length v"]) simp
  then show ?thesis
    by (auto simp: clipped_def Let_def split: option.split prod.split)
qed

lemma utf8_concat: "\<forall>g \<in> set gs. utf8 g \<Longrightarrow> utf8 (concat gs)"
  by (induction gs) (simp_all add: utf8_append)

lemma clipped_utf8:
  assumes "utf8 v" "segments dp" "cap \<le> usize_max"
  shows "utf8 (fst (clipped dp v cap))"
proof (cases "list_all is_ascii (take (min (length v) (saturating_add cap 1)) v)")
  case True
  show ?thesis
  proof (cases "length v \<le> cap")
    case True
    with assms(1) \<open>list_all is_ascii _\<close> show ?thesis by (simp add: clipped_def)
  next
    case False
    from clipped_is_take [of dp v cap] obtain k where k: "fst (clipped dp v cap) = take k v" by blast
    have "\<exists>e. fst (clipped dp v cap) = take e v \<and> e \<le> cap - 1"
      using False \<open>list_all is_ascii _\<close> by (auto simp: clipped_def Let_def)
    then obtain e where e: "fst (clipped dp v cap) = take e v" "e \<le> cap - 1" by blast
    have "e \<le> saturating_add cap 1" using e(2) assms(3) by (auto simp: saturating_add_def)
    then have "take e v = take e (take (min (length v) (saturating_add cap 1)) v)"
      by (simp add: min_def)
    moreover have "\<forall>c \<in> set (take e (take (min (length v) (saturating_add cap 1)) v)). byte c < 128"
      using True unfolding list_all_iff is_ascii_def by (meson in_set_takeD)
    ultimately have "\<forall>c \<in> set (take e v). byte c < 128" by (simp only:)
    then show ?thesis unfolding e(1) by (rule utf8_ascii)
  qed
next
  case False
  from assms(1,2) have seg: "concat (dp_graphemes dp v) = v" "\<forall>g \<in> set (dp_graphemes dp v). utf8 g"
    by (auto simp: segments_def)
  from clip_loop_take [of dp cap 0 0 "dp_graphemes dp v"] obtain k where
    k: "fst (clip_loop dp cap 0 0 0 (dp_graphemes dp v)) = length (concat (take k (dp_graphemes dp v)))"
    by auto
  have "v = concat (take k (dp_graphemes dp v)) @ concat (drop k (dp_graphemes dp v))"
    by (simp only: seg(1) concat_append [symmetric] append_take_drop_id)
  then have "take (length (concat (take k (dp_graphemes dp v)))) v = concat (take k (dp_graphemes dp v))"
    by (metis append_eq_conv_conj)
  moreover have "utf8 (concat (take k (dp_graphemes dp v)))"
    using seg(2) by (intro utf8_concat) (auto dest: in_set_takeD)
  ultimately have "utf8 (take (fst (clip_loop dp cap 0 0 0 (dp_graphemes dp v))) v)"
    by (simp add: k)
  with False assms(1) show ?thesis
    by (auto simp: clipped_def Let_def split: option.split prod.split)
qed

lemma clipped_ascii_utf8: "\<forall>c \<in> set v. byte c < 128 \<Longrightarrow> utf8 (fst (clipped dp v cap))"
  using clipped_is_take [of dp v cap] by (metis in_set_takeD utf8_ascii)

lemma shown_chars_no_newline:
  assumes "utf8 s"
  shows "NL \<notin> set (concat (map shown_char (chunks s)))"
proof
  assume "NL \<in> set (concat (map shown_char (chunks s)))"
  then obtain ch where ch: "ch \<in> set (chunks s)" "NL \<in> set (shown_char ch)" by auto
  then have "NL \<in> set ch" "\<not> is_control_char ch" by (auto simp: shown_char_def split: if_splits)
  moreover have "utf8_chunk ch" using assms ch(1) by (simp add: utf8_def list_all_iff)
  ultimately have "ch = [NL]" by (intro utf8_chunk_byte) (simp_all add: byte_def)
  with \<open>\<not> is_control_char ch\<close> show False
    by (simp add: is_control_char_def is_control_def byte_def)
qed

lemma code_cell_no_newline:
  assumes "utf8 (fst (clipped dp v limit))"
  shows "NL \<notin> set (code_cell_text dp limit v w)"
proof -
  obtain part written truncated where "clipped dp v limit = (part, written, truncated)"
    by (cases "clipped dp v limit")
  with shown_chars_no_newline [OF assms] show ?thesis
    by (auto simp: code_cell_text_def ELLIPSIS_def)
qed

lemma fit_loop_bound: "fit_loop dp cap w gs = Some n \<Longrightarrow> w \<le> cap \<Longrightarrow> n \<le> cap"
  by (induction dp cap w gs rule: fit_loop.induct) (auto simp: Let_def split: if_splits)

lemma clip_loop_bound: "w \<le> cap - 1 \<Longrightarrow> snd (clip_loop dp cap i e w gs) \<le> cap - 1"
  by (induction dp cap i e w gs rule: clip_loop.induct) (auto simp: Let_def)

lemma md_width_bound: "1 \<le> cap \<Longrightarrow> md_width dp v cap \<le> cap"
  using fit_loop_bound [of dp cap 0 "dp_graphemes dp v"] clip_loop_bound [of 0 cap dp 0 0 "dp_graphemes dp v"]
  by (auto simp: md_width_def clipped_def Let_def split: option.split prod.split)

definition code_lines :: "display \<Rightarrow> md_options \<Rightarrow> nat list \<Rightarrow> 'c table \<Rightarrow> string list" where
  "code_lines dp opts widths t =
     (let cap = mo_max_cell_width opts; numbers = mo_row_numbers opts;
          nw = max (length (show_nat (snd (tb_row_indices t)))) 1;
          line = (\<lambda>n vals. code_line_text dp (code_line_cells cap (when_some numbers (n, nw)) vals widths))
      in line ''#'' (map Some (md_names t)) # line ''-'' (map (\<lambda>_. Some ''-'') widths)
         # map (\<lambda>r. line (show_nat (r + 1)) (table_values t r)) (row_range t))"

definition code_widths :: "display \<Rightarrow> md_options \<Rightarrow> 'c table \<Rightarrow> nat list" where
  "code_widths dp opts t =
     foldl (measure_code dp (mo_max_cell_width opts))
       (map (\<lambda>n. md_width dp n (mo_max_cell_width opts)) (md_names t))
       (map (table_values t) (row_range t))"

definition fenced :: "string list \<Rightarrow> string" where
  "fenced ls = ''```'' @ [NL] @ concat (map (\<lambda>l. ''|'' @ l @ [NL]) ls) @ ''```'' @ [NL]"

lemma write_code_style_emits:
  "emits ev (write_code_style ev dp opts t) (fenced (code_lines dp opts (code_widths dp opts t) t)) ()"
proof -
  let ?cap = "mo_max_cell_width opts" and ?num = "mo_row_numbers opts"
  let ?nw = "max (length (show_nat (snd (tb_row_indices t)))) 1"
  let ?line = "\<lambda>n vals. code_line_text dp
    (code_line_cells ?cap (when_some ?num (n, ?nw)) vals (code_widths dp opts t))"
  have "emits ev (write_code_style ev dp opts t)
    ([] @ (''```'' @ [NL]) @ (''|'' @ ?line ''#'' (map Some (md_names t)) @ [NL])
      @ (''|'' @ ?line ''-'' (map (\<lambda>_. Some ''-'') (code_widths dp opts t)) @ [NL])
      @ concat (map (\<lambda>r. [] @ ''|'' @ ?line (show_nat (r + 1)) (table_values t r) @ [NL]) (row_range t))
      @ (''```'' @ [NL])) ()"
    unfolding write_code_style_def Let_def
    by (rule emits_bind [OF measure_rows_emits])
      (unfold code_widths_def [symmetric],
        intro emits_then emits_put emits_each emits_check code_line_emits)
  then show ?thesis
    by (simp add: fenced_def code_lines_def Let_def comp_def)
qed

lemma code_line_no_newline:
  assumes "\<forall>(limit, v, w) \<in> set cells. utf8 (fst (clipped dp v limit))"
  shows "NL \<notin> set (code_line_text dp cells)"
  using assms by (auto simp: code_line_text_def dest!: code_cell_no_newline)

lemma code_line_cells_utf8:
  assumes "segments dp" "cap \<le> usize_max" "\<forall>v \<in> set vals. utf8 (cell_or_null v)"
    and "\<forall>c \<in> set n. byte c < 128"
  shows "\<forall>(limit, v, w) \<in> set (code_line_cells cap (when_some b (n, nw)) vals widths).
     utf8 (fst (clipped dp v limit))"
proof -
  have "utf8 (fst (clipped dp (cell_or_null v) cap))" if "v \<in> set vals" for v
    using assms that by (intro clipped_utf8) simp_all
  then show ?thesis
    using clipped_ascii_utf8 [OF assms(4), of dp]
    by (cases b) (auto simp: code_line_cells_def when_some_def dest: set_zip_leftD)
qed

lemma code_lines_no_newline:
  assumes "segments dp" "mo_max_cell_width opts \<le> usize_max" "table_utf8 t"
  shows "list_all (\<lambda>l. NL \<notin> set l) (code_lines dp opts widths t)"
proof -
  note cells = code_line_no_newline [OF code_line_cells_utf8 [OF assms(1,2)]]
  have names: "\<forall>v \<in> set (map Some (md_names t)). utf8 (cell_or_null v)"
    using assms(3) by (simp add: table_utf8_def list_all_iff cell_or_null_def)
  have dash: "\<forall>v \<in> set (map (\<lambda>_. Some ''-'') widths). utf8 (cell_or_null v)"
    by (simp add: cell_or_null_def simple_texts utf8_ascii simple_chars)
  have vals: "\<forall>v \<in> set (table_values t r). utf8 (cell_or_null v)" if "r \<in> set (row_range t)" for r
    using assms(3) that by (simp add: table_utf8_def list_all_iff)
  have ascii: "\<forall>c \<in> set ''#''. byte c < 128" "\<forall>c \<in> set ''-''. byte c < 128"
    "\<forall>c \<in> set (show_nat n). byte c < 128" for n
    using simple_digits [of n] by (simp_all add: simple_chars)
  show ?thesis
    using cells [OF names ascii(1)] cells [OF dash ascii(2)] cells [OF vals ascii(3)]
    by (auto simp: code_lines_def Let_def list_all_iff)
qed

text \<open>
  No cell can leave the fence of a text table: the file is the opening fence, one line for the
  names, one rule line and one for each row, and the closing fence; every line between starts with a
  pipe and contains no line feed, as control characters of cells and names become spaces, also where
  a long cell is cut; and no name and no cell takes more than the maximal width.
\<close>

theorem code_block_stays_fenced:
  assumes "mo_style opts = Code_Block" and "segments dp" and "table_utf8 t"
    and "fst (write_markdown ev dp opts t vec_sink) = Inr n"
  shows "n = row_count t
    \<and> (\<exists>ls. sk_text (snd (write_markdown ev dp opts t vec_sink)) = fenced ls
         \<and> length ls = row_count t + 2 \<and> list_all (\<lambda>l. NL \<notin> set l) ls)
    \<and> md_width dp v (mo_max_cell_width opts) \<le> mo_max_cell_width opts"
proof -
  have cap: "1 \<le> mo_max_cell_width opts" and valid: "validate_table t = io_return ()"
    using write_markdown_valid [OF assms(4)] assms(1) by auto
  have cap_le: "mo_max_cell_width opts \<le> 1000"
    using io_then_Inr [OF assms(4) [unfolded write_markdown_def]] assms(1)
    by (auto dest!: io_then_Inr split: if_splits)
  let ?ls = "code_lines dp opts (code_widths dp opts t) t"
  have "emits ev (write_markdown ev dp opts t) (fenced ?ls) (row_count t)"
    using write_code_style_emits assms(1) cap cap_le
    by (intro write_markdown_emits valid) simp_all
  from emits_vec [OF this assms(4)]
  have "sk_text (snd (write_markdown ev dp opts t vec_sink)) = fenced ?ls \<and> n = row_count t" .
  moreover have "length ?ls = row_count t + 2"
    by (simp add: code_lines_def Let_def row_range_def row_count_def)
  moreover have "list_all (\<lambda>l. NL \<notin> set l) ?ls"
    using cap_le assms(2,3) by (intro code_lines_no_newline) (simp_all add: usize_max_def)
  ultimately show ?thesis using md_width_bound [OF cap] by blast
qed

definition fence_sample :: "unit table" where
  "fence_sample =
     \<lparr>tb_columns = [\<lparr>cl_name = ''n'', cl_type = ''text''\<rparr>],
      tb_rows = rows_from \<lparr>cap_rows = length, cap_cells = length, cap_text = length\<rparr> 0 ()
        [[Some (''x'' @ [NL] @ ''```'' @ [NL])]],
      tb_row_indices = (0, 1), tb_column_indices = (0, 0)\<rparr>"

definition code_options :: md_options where
  "code_options = md_options_default\<lparr>mo_style := Code_Block, mo_max_cell_width := 5\<rparr>"

lemma ascii_display_segments: "segments ascii_display"
proof -
  have "utf8 g" if "utf8 s" "g \<in> set (chunks s)" for s g
  proof -
    have g: "utf8_chunk g" using that by (simp add: utf8_def list_all_iff)
    then obtain h tail where h: "g = h # tail"
      using utf8_len_pos [of "hd g"] by (cases g) (auto simp: utf8_chunk_def)
    have "length tail = utf8_len h - 1" using g by (auto simp: utf8_chunk_def h)
    then have "chunks g = [g]" by (simp add: h)
    with g show ?thesis by (simp add: utf8_def)
  qed
  then show ?thesis by (simp add: segments_def ascii_display_def)
qed

theorem code_block_stays_fenced_witness:
  "\<exists>ls. sk_text (snd (write_markdown calm ascii_display code_options fence_sample vec_sink)) = fenced ls
     \<and> length ls = 3 \<and> list_all (\<lambda>l. NL \<notin> set l) ls"
proof -
  have 1: "mo_style code_options = Code_Block" by (simp add: code_options_def)
  have 2: "table_utf8 fence_sample" by code_simp
  have 3: "fst (write_markdown calm ascii_display code_options fence_sample vec_sink) = Inr 1" by code_simp
  have 4: "row_count fence_sample + 2 = 3" by code_simp
  show ?thesis using code_block_stays_fenced [OF 1 ascii_display_segments 2 3] unfolding 4 by blast
qed

end
