(* ===== verification/Export.thy ===== *)
theory Export
  imports Csv Json Markdown
begin

text \<open>
  An export in the selected format (\<open>src/export.rs\<close>): the settings, the checks before the first
  byte, the choice of the format, the source snapshot and the copy to the clipboard. The Parquet
  writer is a crate's; its export is a parameter.
\<close>

section \<open>Settings\<close>

datatype format =
  Csv_Format | Markdown_Format | Json_Format | Json_Lines_Format | Parquet_Format

definition ALL_FORMATS :: "format list" where
  "ALL_FORMATS = [Csv_Format, Markdown_Format, Json_Format, Json_Lines_Format, Parquet_Format]"

record 'p export_settings =
  es_format :: format
  es_csv :: csv_options
  es_markdown :: md_options
  es_json :: json_options
  es_parquet :: 'p
  es_directory :: "string option"

definition format_label :: "format \<Rightarrow> string" where
  "format_label f =
     (case f of
        Csv_Format \<Rightarrow> ''CSV / TSV''
      | Markdown_Format \<Rightarrow> ''Markdown''
      | Json_Format \<Rightarrow> ''JSON (array)''
      | Json_Lines_Format \<Rightarrow> ''JSON (lines)''
      | Parquet_Format \<Rightarrow> ''Parquet'')"

definition settings_extension :: "'p export_settings \<Rightarrow> string" where
  "settings_extension s =
     (case es_format s of
        Csv_Format \<Rightarrow> csv_extension (es_csv s)
      | Markdown_Format \<Rightarrow> ''md''
      | Json_Format \<Rightarrow> ''json''
      | Json_Lines_Format \<Rightarrow> ''jsonl''
      | Parquet_Format \<Rightarrow> ''parquet'')"

definition settings_validate :: "'p export_settings \<Rightarrow> unit io" where
  "settings_validate s =
     (case es_format s of
        Csv_Format \<Rightarrow> csv_validate (es_csv s)
      | Markdown_Format \<Rightarrow>
          if mo_style (es_markdown s) = Code_Block
             \<and> \<not> (1 \<le> mo_max_cell_width (es_markdown s) \<and> mo_max_cell_width (es_markdown s) \<le> 1000)
          then io_fail Invalid_Input else io_return ()
      | _ \<Rightarrow> io_return ())"

section \<open>The export\<close>

record ('f, 'c, 'p) crates =
  cr_display :: display
  cr_parsers :: "'f parsers"
  cr_encoders :: "'f encoders"
  cr_parquet :: "env \<Rightarrow> 'c table \<Rightarrow> 'p \<Rightarrow> nat io"

definition check_row :: "row \<Rightarrow> unit io" where
  "check_row vals =
     (case selected_row_bytes vals of Inl _ \<Rightarrow> io_fail Row_Too_Large | Inr _ \<Rightarrow> io_return ())"

definition write_format ::
  "env \<Rightarrow> ('f, 'c, 'p) crates \<Rightarrow> 'p export_settings \<Rightarrow> 'c table \<Rightarrow> nat io" where
  "write_format ev cr s t =
     (case es_format s of
        Parquet_Format \<Rightarrow> cr_parquet cr ev t (es_parquet s)
      | Csv_Format \<Rightarrow> write_csv ev (es_csv s) t
      | Markdown_Format \<Rightarrow> write_markdown ev (cr_display cr) (es_markdown s) t
      | Json_Format \<Rightarrow> write_json ev (cr_parsers cr) (cr_encoders cr) (es_json s) False t
      | Json_Lines_Format \<Rightarrow> write_json ev (cr_parsers cr) (cr_encoders cr) (es_json s) True t)"

definition write_export ::
  "env \<Rightarrow> ('f, 'c, 'p) crates \<Rightarrow> 'p export_settings \<Rightarrow> 'c table \<Rightarrow> nat io" where
  "write_export ev cr s t =
     io_then (settings_validate s)
       (io_then (validate_table t)
         (io_then
           (io_each (\<lambda>r. io_then (check_cancelled ev) (check_row (table_values t r))) (row_range t))
           (write_format ev cr s t)))"

section \<open>Snapshots\<close>

record 'c snapshot =
  sn_columns :: "column list"
  sn_rows :: "'c rows"
  sn_lease :: shared
  sn_metadata :: nat

definition snapshot_bytes :: "column list \<Rightarrow> 'c rows \<Rightarrow> nat" where
  "snapshot_bytes columns rs =
     saturating_add
       (saturating_add (min (length columns * size_of_column) usize_max)
         (sum_list (map (\<lambda>c. length (cl_name c) + length (cl_type c)) columns)))
       (metadata_bytes rs)"

text \<open>\<open>None\<close> is a panic. A refused lease drops the allocation of the metadata.\<close>

definition snapshot_new ::
  "column list \<Rightarrow> 'c rows \<Rightarrow> budget \<Rightarrow> (budget_error, budget \<times> 'c snapshot) result option \<times> budget" where
  "snapshot_new columns rs b =
     (case budget_acquire (snapshot_bytes columns rs) b of
        Inl e \<Rightarrow> (Some (Inl e), b)
      | Inr (b1, metadata) \<Rightarrow>
          (case lease_acquire rs b1 of
             None \<Rightarrow> (None, b1)
           | Some (Inl e) \<Rightarrow>
               (case release metadata b1 of None \<Rightarrow> (None, b1) | Some b2 \<Rightarrow> (Some (Inl e), b2))
           | Some (Inr (b2, lease, held)) \<Rightarrow>
               (Some (Inr (b2, \<lparr>sn_columns = columns, sn_rows = rs, sn_lease = lease,
                                sn_metadata = metadata\<rparr>)), b2)))"

definition snapshot_table :: "((nat \<times> nat) \<times> (nat \<times> nat)) option \<Rightarrow> 'c snapshot \<Rightarrow> 'c table" where
  "snapshot_table selection sn =
     (let (row_indices, column_indices) =
            (case selection of
               None \<Rightarrow> ((0, r_len (sn_rows sn)), (0, length (sn_columns sn) - 1))
             | Some s \<Rightarrow> s)
      in \<lparr>tb_columns = sn_columns sn, tb_rows = sn_rows sn, tb_row_indices = row_indices,
          tb_column_indices = column_indices\<rparr>)"

lemma whole_snapshot_is_valid:
  "sn_columns sn \<noteq> [] \<Longrightarrow> table_range_ok (snapshot_table None sn)"
  by (simp add: table_range_ok_def snapshot_table_def)

section \<open>What an export writes\<close>

lemma settings_validate_Inr:
  "fst (settings_validate s st) = Inr a \<Longrightarrow> settings_validate s = io_return ()"
  by (auto simp: settings_validate_def csv_validate_def split: format.splits if_splits)

lemma io_each_Inr:
  "fst (io_each f xs s) = Inr a \<Longrightarrow> x \<in> set xs \<Longrightarrow> \<exists>s1. fst (f x s1) = Inr ()"
  by (induction xs arbitrary: s) (auto dest!: io_then_Inr)

lemma check_row_Inr: "fst (check_row vals s) = Inr a \<Longrightarrow> check_row vals = io_return ()"
  by (auto simp: check_row_def split: sum.splits)

lemma write_export_valid:
  assumes "fst (write_export ev cr s t st) = Inr n"
  shows "settings_validate s = io_return () \<and> validate_table t = io_return ()
    \<and> (\<forall>r \<in> set (row_range t). check_row (table_values t r) = io_return ())
    \<and> (\<exists>s1. fst (write_format ev cr s t s1) = Inr n)"
proof -
  note a = io_then_Inr [OF assms [unfolded write_export_def]]
  note b = io_then_Inr [OF a [THEN conjunct2]]
  note c = io_then_Inr [OF b [THEN conjunct2]]
  have "check_row (table_values t r) = io_return ()" if r: "r \<in> set (row_range t)" for r
  proof -
    from io_each_Inr [OF c [THEN conjunct1] r] obtain s1 where
      "fst (io_then (check_cancelled ev) (check_row (table_values t r)) s1) = Inr ()" by blast
    from io_then_Inr [OF this] check_row_Inr show ?thesis by blast
  qed
  with a b c settings_validate_Inr validate_table_Inr show ?thesis by blast
qed

text \<open>The text of an export. It does not depend on the writer or on what other threads do.\<close>

definition md_text :: "display \<Rightarrow> md_options \<Rightarrow> 'c table \<Rightarrow> string" where
  "md_text dp opts t =
     (case mo_style opts of
        Table_Style \<Rightarrow> style_text dp opts t
      | Code_Block \<Rightarrow> fenced (code_lines dp opts (code_widths dp opts t) t))"

definition format_text :: "('f, 'c, 'p) crates \<Rightarrow> 'p export_settings \<Rightarrow> 'c table \<Rightarrow> string option" where
  "format_text cr s t =
     (case es_format s of
        Parquet_Format \<Rightarrow> None
      | Csv_Format \<Rightarrow> Some (csv_text (es_csv s) t)
      | Markdown_Format \<Rightarrow> Some (md_text (cr_display cr) (es_markdown s) t)
      | Json_Format \<Rightarrow> json_text (cr_parsers cr) (cr_encoders cr) (es_json s) False t
      | Json_Lines_Format \<Rightarrow> json_text (cr_parsers cr) (cr_encoders cr) (es_json s) True t)"

lemma write_format_emits:
  assumes "fst (write_format ev cr s t st) = Inr n" "es_format s \<noteq> Parquet_Format"
  shows "\<exists>txt. format_text cr s t = Some txt \<and> (\<forall>ev'. emits ev' (write_format ev' cr s t) txt (row_count t))"
proof -
  let ?json = "\<lambda>ev lines. write_json ev (cr_parsers cr) (cr_encoders cr) (es_json s) lines t"
  have json: "\<exists>txt. json_text (cr_parsers cr) (cr_encoders cr) (es_json s) lines t = Some txt
      \<and> (\<forall>ev'. emits ev' (?json ev' lines) txt (row_count t))"
    if run: "fst (?json ev lines st) = Inr n" for lines
  proof -
    from write_json_valid [OF run] have valid: "validate_table t = io_return ()" by blast
    from emits_opt_ok [OF write_json_emits [OF valid] run] obtain "txt" where
      "json_text (cr_parsers cr) (cr_encoders cr) (es_json s) lines t = Some txt" by blast
    with write_json_emits [OF valid, of _ "cr_parsers cr" "cr_encoders cr" "es_json s" lines]
    show ?thesis by (auto simp: emits_opt_def)
  qed
  show ?thesis
  proof (cases "es_format s")
    case Csv_Format
    with assms(1) have "fst (write_csv ev (es_csv s) t st) = Inr n" by (simp add: write_format_def)
    from write_csv_valid [OF this] write_csv_emits Csv_Format show ?thesis
      by (auto simp: write_format_def format_text_def)
  next
    case Markdown_Format
    let ?dp = "cr_display cr" and ?o = "es_markdown s"
    from Markdown_Format assms(1) have run: "fst (write_markdown ev ?dp ?o t st) = Inr n"
      by (simp add: write_format_def)
    note valid = write_markdown_valid [OF run]
    have width: "mo_style ?o = Code_Block \<longrightarrow> 1 \<le> mo_max_cell_width ?o \<and> mo_max_cell_width ?o \<le> 1000"
      using io_then_Inr [OF run [unfolded write_markdown_def]]
      by (auto dest!: io_then_Inr split: if_splits)
    have "emits ev' (write_markdown ev' ?dp ?o t) (md_text ?dp ?o t) (row_count t)" for ev'
      using valid width write_table_style_emits write_code_style_emits
      unfolding md_text_def by (intro write_markdown_emits) (auto split: md_style.split)
    with Markdown_Format show ?thesis by (auto simp: write_format_def format_text_def)
  qed (use json assms in \<open>auto simp: write_format_def format_text_def\<close>)
qed

lemma write_export_emits:
  assumes "fst (write_export ev cr s t st) = Inr n" "es_format s \<noteq> Parquet_Format"
  obtains "txt" where "format_text cr s t = Some txt"
    and "\<And>ev'. emits ev' (write_export ev' cr s t) txt (row_count t)"
proof -
  note valid = write_export_valid [OF assms(1)]
  then obtain "txt" where written: "format_text cr s t = Some txt"
    and emit: "\<And>ev'. emits ev' (write_format ev' cr s t) txt (row_count t)"
    using write_format_emits assms(2) by blast
  have row: "emits ev' (io_then (check_cancelled ev') (check_row (table_values t r))) ([] @ []) ()"
    if "r \<in> set (row_range t)" for ev' r
    using that valid by (intro emits_then emits_check) (simp add: emits_return)
  have rows: "emits ev' (io_each (\<lambda>r. io_then (check_cancelled ev') (check_row (table_values t r))) (row_range t))
     (concat (map (\<lambda>_. [] @ []) (row_range t))) ()" for ev'
    by (intro emits_each row)
  have "emits ev' (write_export ev' cr s t) ([] @ [] @ concat (map (\<lambda>_. [] @ []) (row_range t)) @ txt) (row_count t)"
    for ev'
    using valid unfolding write_export_def by (simp only:) (intro emits_then emits_return rows emit)
  moreover have "concat (map (\<lambda>_. [] @ []) (row_range t)) = ([] :: string)" by simp
  ultimately have "emits ev' (write_export ev' cr s t) txt (row_count t)" for ev'
    by (simp only: append_Nil)
  with written show ?thesis by (rule that)
qed

text \<open>
  C37. A copy is complete or refused: when an export of a result succeeds into a file, then the same
  export into the bounded writer of the clipboard, at any other time, never holds more than the
  limit and only ever a prefix of that text; if it succeeds it holds exactly that text; it fails when
  the text does not fit; and when the text fits, nobody cancels and memory is granted, it succeeds.
\<close>

theorem copies_are_complete_or_refused:
  assumes "es_format s \<noteq> Parquet_Format"
    and "fst (write_export ev cr s t vec_sink) = Inr n"
    and "full = sk_text (snd (write_export ev cr s t vec_sink))"
    and "copy = write_export ev' cr s t (limited_sink limit)"
  shows "n = row_count t
    \<and> prefix (sk_text (snd copy)) full
    \<and> length (sk_text (snd copy)) \<le> limit
    \<and> (\<forall>m. fst copy = Inr m \<longrightarrow> m = n \<and> sk_text (snd copy) = full)
    \<and> (limit < length full \<longrightarrow> (\<exists>e. fst copy = Inl e))
    \<and> ((\<forall>k. \<not> ev_cancelled ev' k) \<and> (\<forall>k b. ev_granted ev' k b) \<and> length full \<le> limit
        \<and> writer_capacity limit \<noteq> None \<longrightarrow> fst copy = Inr n)"
proof -
  from write_export_emits [OF assms(2,1)] obtain "txt" where
    e: "\<And>ev'. emits ev' (write_export ev' cr s t) txt (row_count t)" by blast
  from emits_vec [OF e assms(2)] assms(3) have full: "full = txt" "n = row_count t" by auto
  let ?s = "limited_sink limit"
  have start: "sk_text ?s = []" "sk_limit ?s = Some limit" by (simp_all add: limited_sink_def)
  then have "within ?s" by (simp add: within_def)
  from emits_within [OF e [of ev'] this] emits_limit [OF e, of ev' ?s]
  have len: "length (sk_text (snd copy)) \<le> limit" by (simp add: assms(4) start within_def)
  have pre: "prefix (sk_text (snd copy)) full"
    using emits_prefix [OF e, of ev' ?s] by (auto simp: assms(4) start full)
  have ok: "\<forall>m. fst copy = Inr m \<longrightarrow> m = n \<and> sk_text (snd copy) = full"
    using emits_ok [OF e, of ev' ?s] by (simp add: assms(4) start full)
  have big: "limit < length full \<longrightarrow> (\<exists>e. fst copy = Inl e)"
    using ok len by (cases "fst copy") auto
  have room: "(\<forall>k. \<not> ev_cancelled ev' k) \<and> (\<forall>k b. ev_granted ev' k b) \<and> length full \<le> limit
        \<and> writer_capacity limit \<noteq> None \<longrightarrow> fst copy = Inr n"
    using emits_roomy [OF e, of ev' ?s] by (auto simp: assms(4) start full roomy_def)
  show ?thesis using full pre len ok big room by blast
qed

definition sample_crates :: "(unit, unit, unit) crates" where
  "sample_crates =
     \<lparr>cr_display = ascii_display, cr_parsers = plain_parsers, cr_encoders = plain_encoders,
      cr_parquet = (\<lambda>_ _ _. io_fail Invalid_Input)\<rparr>"

definition sample_settings :: "unit export_settings" where
  "sample_settings =
     \<lparr>es_format = Markdown_Format, es_csv = standard_options, es_markdown = compact_options,
      es_json = json_options_default, es_parquet = (), es_directory = None\<rparr>"

lemma clipboard_capacity: "writer_capacity CLIPBOARD_BYTES = Some (3 * 16777216 + 64)"
  by code_simp

theorem copies_are_complete_or_refused_witness:
  "sk_text (snd (write_export calm sample_crates sample_settings md_sample (limited_sink CLIPBOARD_BYTES)))
     = sk_text (snd (write_export calm sample_crates sample_settings md_sample vec_sink))
   \<and> (\<exists>e. fst (write_export calm sample_crates sample_settings md_sample (limited_sink 20)) = Inl e)"
proof -
  let ?full = "sk_text (snd (write_export calm sample_crates sample_settings md_sample vec_sink))"
  have 1: "es_format sample_settings \<noteq> Parquet_Format" by (simp add: sample_settings_def)
  have 2: "fst (write_export calm sample_crates sample_settings md_sample vec_sink) = Inr 2" by code_simp
  have "20 < length ?full" "length ?full < 1000" by code_simp+
  then have len: "20 < length ?full" "length ?full \<le> CLIPBOARD_BYTES"
    by (simp_all add: CLIPBOARD_BYTES_def)
  have free: "(\<forall>k. \<not> ev_cancelled calm k) \<and> (\<forall>k b. ev_granted calm k b)" by (simp add: calm_def)
  have capacity: "writer_capacity CLIPBOARD_BYTES \<noteq> None" by (simp only: clipboard_capacity) simp
  note all = copies_are_complete_or_refused [OF 1 2 refl refl, of calm CLIPBOARD_BYTES]
  from free len(2) capacity
  have "fst (write_export calm sample_crates sample_settings md_sample (limited_sink CLIPBOARD_BYTES)) = Inr 2"
    by (intro all [THEN conjunct2, THEN conjunct2, THEN conjunct2, THEN conjunct2, THEN conjunct2,
        THEN mp] conjI) blast+
  then have "sk_text (snd (write_export calm sample_crates sample_settings md_sample (limited_sink CLIPBOARD_BYTES)))
     = ?full"
    by (rule all [THEN conjunct2, THEN conjunct2, THEN conjunct2, THEN conjunct1, rule_format,
        THEN conjunct2])
  moreover from len(1)
  have "\<exists>e. fst (write_export calm sample_crates sample_settings md_sample (limited_sink 20)) = Inl e"
    by (rule copies_are_complete_or_refused [OF 1 2 refl refl, of calm 20, THEN conjunct2, THEN conjunct2,
        THEN conjunct2, THEN conjunct2, THEN conjunct1, rule_format])
  ultimately show ?thesis by (rule conjI)
qed

end
