(* ===== verification/Export_Stream.thy ===== *)
theory Export_Stream
  imports Export
begin

text \<open>
  Exports of a whole result (\<open>src/export/stream.rs\<close>): one format around any number of batches that
  a reader takes from the spool of the download. A measuring pass of a table needs a reader of its
  own. A reader of the spool (\<open>Reader::next\<close> in \<open>src/export/spool.rs\<close>) is here what it delivers:
  the batches it reads and then either the end record or the error that stops it. The Parquet
  writer is a crate's and a parameter, as in \<open>Export\<close>.
\<close>

section \<open>Readers\<close>

definition READER_MEMORY :: nat where "READER_MEMORY = 160 * MIB"

record 'c spool_reader =
  sr_open :: "io_error option"
  sr_batches :: "'c rows list"
  sr_end :: "io_error option"

record 'c stream_spool =
  ss_columns :: "column list"
  ss_reader :: "nat \<Rightarrow> 'c spool_reader"

definition open_reader :: "env \<Rightarrow> 'c spool_reader \<Rightarrow> unit io" where
  "open_reader ev rd =
     io_then (case sr_open rd of None \<Rightarrow> io_return () | Some e \<Rightarrow> io_fail e)
       (global_memory ev READER_MEMORY)"

text \<open>
  \<open>while let Some(batch) = reader.next(cancel)?\<close>. \<open>next\<close> checks for a cancellation before it waits
  for a record and before each row that it decodes.
\<close>

fun read_batches ::
  "env \<Rightarrow> ('a \<Rightarrow> 'c rows \<Rightarrow> 'a io) \<Rightarrow> 'a \<Rightarrow> 'c rows list \<Rightarrow> io_error option \<Rightarrow> 'a io" where
  "read_batches ev body acc [] fin =
     io_then (check_cancelled ev) (case fin of None \<Rightarrow> io_return acc | Some e \<Rightarrow> io_fail e)"
| "read_batches ev body acc (b # bs) fin =
     io_then (check_cancelled ev)
       (io_then (io_each (\<lambda>_. check_cancelled ev) (rows_list b))
         (io_bind (body acc b) (\<lambda>acc. read_batches ev body acc bs fin)))"

definition for_batches :: "env \<Rightarrow> ('a \<Rightarrow> 'c rows \<Rightarrow> 'a io) \<Rightarrow> 'a \<Rightarrow> 'c spool_reader \<Rightarrow> 'a io" where
  "for_batches ev body acc rd = read_batches ev body acc (sr_batches rd) (sr_end rd)"

definition stream_table :: "column list \<Rightarrow> 'c rows \<Rightarrow> 'c table" where
  "stream_table columns rs =
     \<lparr>tb_columns = columns, tb_rows = rs, tb_row_indices = (0, r_len rs),
      tb_column_indices = (0, length columns - 1)\<rparr>"

definition batch_rows :: "column list \<Rightarrow> 'c rows \<Rightarrow> row list" where
  "batch_rows columns rs =
     map (table_values (stream_table columns rs)) (row_range (stream_table columns rs))"

text \<open>The loop over the rows of a batch, with the number of rows before each.\<close>

fun row_loop :: "env \<Rightarrow> (nat \<Rightarrow> row \<Rightarrow> unit io) \<Rightarrow> nat \<Rightarrow> row list \<Rightarrow> nat io" where
  "row_loop ev line count [] = io_return count"
| "row_loop ev line count (r # rs) =
     io_then (check_cancelled ev) (io_then (line count r) (row_loop ev line (count + 1) rs))"

section \<open>The formats\<close>

definition stream_csv :: "env \<Rightarrow> csv_options \<Rightarrow> 'c stream_spool \<Rightarrow> nat io" where
  "stream_csv ev opts sp =
     (let columns = map export_column_from (ss_columns sp) in
      io_then (global_memory ev (64 * MIB))
        (io_then (open_reader ev (ss_reader sp 0))
          (io_then (csv_begin ev opts columns)
            (io_bind
              (for_batches ev
                (\<lambda>count b. row_loop ev (\<lambda>_ r. csv_row ev opts columns r) count (batch_rows (ss_columns sp) b))
                0 (ss_reader sp 0))
              (\<lambda>count. io_then (check_cancelled ev) (io_return count))))))"

definition stream_json ::
  "env \<Rightarrow> 'f parsers \<Rightarrow> 'f encoders \<Rightarrow> json_options \<Rightarrow> bool \<Rightarrow> 'c stream_spool \<Rightarrow> nat io" where
  "stream_json ev ps en opts lines sp =
     io_then (open_reader ev (ss_reader sp 0))
       (io_then (global_memory ev (64 * MIB))
         (case column_names (map cl_name (ss_columns sp)) of
            None \<Rightarrow> io_fail Invalid_Data
          | Some names \<Rightarrow>
              (let kinds = map (\<lambda>c. kind_of (cl_type c)) (ss_columns sp) in
               io_then (io_when (\<not> lines) (put ev ''[''))
                 (io_bind
                   (for_batches ev
                     (\<lambda>count b.
                        let rs = batch_rows (ss_columns sp) b in
                        io_then (json_batch ev ps en opts lines names kinds count rs)
                          (io_return (count + length rs)))
                     0 (ss_reader sp 0))
                   (json_finish ev opts lines)))))"

definition stream_names :: "'c stream_spool \<Rightarrow> string list" where
  "stream_names sp = map cl_name (ss_columns sp)"

definition stream_numeric :: "'c stream_spool \<Rightarrow> bool list" where
  "stream_numeric sp = map (\<lambda>c. value_kind_of (cl_type c) = Number_Kind) (ss_columns sp)"

text \<open>The first pass: the widths of the columns and the number of rows.\<close>

definition stream_measure ::
  "env \<Rightarrow> display \<Rightarrow> md_options \<Rightarrow> 'c stream_spool \<Rightarrow> (nat list \<times> nat) io" where
  "stream_measure ev dp opts sp =
     (let cap = mo_max_cell_width opts;
          pretty = (mo_style opts = Table_Style \<and> mo_pretty opts);
          widths = (if pretty then table_widths dp (stream_names sp) (stream_numeric sp)
                    else map (\<lambda>n. md_width dp n cap) (stream_names sp))
      in if mo_style opts = Code_Block \<or> pretty then
           io_then (open_reader ev (ss_reader sp 0))
             (for_batches ev
               (\<lambda>(widths, count) b.
                  let rs = batch_rows (ss_columns sp) b in
                  io_bind (measure_rows ev (if pretty then measure_table dp else measure_code dp cap) widths rs)
                    (\<lambda>widths. io_return (widths, count + length rs)))
               (widths, 0) (ss_reader sp 0))
         else io_return (widths, 0))"

definition stream_head ::
  "env \<Rightarrow> display \<Rightarrow> md_options \<Rightarrow> 'c stream_spool \<Rightarrow> nat list \<Rightarrow> nat \<Rightarrow> unit io" where
  "stream_head ev dp opts sp widths nw =
     (let cap = mo_max_cell_width opts; numbers = mo_row_numbers opts;
          names = map Some (stream_names sp)
      in case mo_style opts of
           Table_Style \<Rightarrow>
             if mo_pretty opts then
               io_then (pretty_line ev dp (when_some numbers (''#'', nw)) names widths)
                 (pretty_separator ev (when_some numbers nw) widths (stream_numeric sp))
             else
               io_then (md_line ev (when_some numbers ''#'') names)
                 (md_line ev (when_some numbers ''---:'')
                   (map (\<lambda>n. Some (if n then ''---:'' else ''---'')) (stream_numeric sp)))
         | Code_Block \<Rightarrow>
             io_then (put ev (''```'' @ [NL]))
               (io_then (code_line ev dp (when_some numbers (''#'', nw)) names widths cap)
                 (code_line ev dp (when_some numbers (''-'', nw)) (map (\<lambda>_. Some ''-'') widths)
                    widths cap)))"

definition stream_line ::
  "env \<Rightarrow> display \<Rightarrow> md_options \<Rightarrow> nat list \<Rightarrow> nat \<Rightarrow> nat \<Rightarrow> row \<Rightarrow> unit io" where
  "stream_line ev dp opts widths nw count r =
     (let number = show_nat (count + 1); numbers = mo_row_numbers opts
      in case mo_style opts of
           Table_Style \<Rightarrow>
             if mo_pretty opts then pretty_line ev dp (when_some numbers (number, nw)) r widths
             else md_line ev (when_some numbers number) r
         | Code_Block \<Rightarrow>
             code_line ev dp (when_some numbers (number, nw)) r widths (mo_max_cell_width opts))"

definition stream_markdown :: "env \<Rightarrow> display \<Rightarrow> md_options \<Rightarrow> 'c stream_spool \<Rightarrow> nat io" where
  "stream_markdown ev dp opts sp =
     (let pretty = (mo_style opts = Table_Style \<and> mo_pretty opts);
          second = (if mo_style opts = Code_Block \<or> pretty then 1 else 0)
      in io_then (global_memory ev (64 * MIB))
           (io_bind (stream_measure ev dp opts sp)
             (\<lambda>(widths, count).
                let nw = max (length (show_nat count)) (if pretty then 4 else 1) in
                io_then (stream_head ev dp opts sp widths nw)
                  (io_then (open_reader ev (ss_reader sp second))
                    (io_bind
                      (for_batches ev
                        (\<lambda>count b. row_loop ev (stream_line ev dp opts widths nw) count
                           (batch_rows (ss_columns sp) b))
                        0 (ss_reader sp second))
                      (\<lambda>count.
                         io_then (io_when (mo_style opts = Code_Block) (put ev (''```'' @ [NL])))
                           (io_then (check_cancelled ev) (io_return count))))))))"

definition stream_write ::
  "env \<Rightarrow> ('f, 'c, 'p) crates \<Rightarrow> (env \<Rightarrow> 'c stream_spool \<Rightarrow> 'p \<Rightarrow> nat io) \<Rightarrow> 'p export_settings
     \<Rightarrow> 'c stream_spool \<Rightarrow> nat io" where
  "stream_write ev cr parquet s sp =
     io_then (settings_validate s)
       (io_then (check_cancelled ev)
         (case es_format s of
            Csv_Format \<Rightarrow> stream_csv ev (es_csv s) sp
          | Json_Format \<Rightarrow> stream_json ev (cr_parsers cr) (cr_encoders cr) (es_json s) False sp
          | Json_Lines_Format \<Rightarrow> stream_json ev (cr_parsers cr) (cr_encoders cr) (es_json s) True sp
          | Markdown_Format \<Rightarrow> stream_markdown ev (cr_display cr) (es_markdown s) sp
          | Parquet_Format \<Rightarrow> parquet ev sp (es_parquet s)))"

section \<open>What the loops write\<close>

text \<open>The text of rows whose lines depend on their position.\<close>

fun rows_text :: "(nat \<Rightarrow> row \<Rightarrow> string) \<Rightarrow> nat \<Rightarrow> row list \<Rightarrow> string" where
  "rows_text f k [] = []"
| "rows_text f k (r # rs) = f k r @ rows_text f (k + 1) rs"

lemma rows_text_append: "rows_text f k (xs @ ys) = rows_text f k xs @ rows_text f (k + length xs) ys"
  by (induction xs arbitrary: k) simp_all

lemma rows_text_range:
  "concat (map (\<lambda>i. f i (g i)) [k..<k + n]) = rows_text f k (map g [k..<k + n])"
proof (induction n arbitrary: k)
  case (Suc n)
  from Suc [of "Suc k"] show ?case by (simp add: upt_conv_Cons del: upt_Suc)
qed simp

lemma rows_text_table:
  "concat (map (\<lambda>i. f i (g i)) [0..<n]) = rows_text f 0 (map g [0..<n])"
  using rows_text_range [of f g 0 n] by simp

lemma row_loop_emits:
  assumes "\<And>k r. emits ev (line k r) (f k r) ()"
  shows "emits ev (row_loop ev line k rs) (rows_text f k rs) (k + length rs)"
proof (induction rs arbitrary: k)
  case (Cons r rs)
  have "emits ev (row_loop ev line k (r # rs)) ([] @ f k r @ rows_text f (k + 1) rs) (k + 1 + length rs)"
    unfolding row_loop.simps by (intro emits_then emits_check assms Cons)
  then show ?case by simp
qed (simp add: emits_return)

lemma emits_opt_bind:
  assumes f: "emits_opt ev f r a" and g: "emits_opt ev (g a) q b"
  shows "emits_opt ev (io_bind f g) (append_opt r q) b"
proof (cases r)
  case None
  have "fst (io_bind f g s) \<noteq> Inr c" for s c
    using f None by (auto simp: emits_opt_def io_bind_def split: prod.split sum.split)
      (metis fst_conv)
  with None show ?thesis by (simp add: emits_opt_def)
next
  case (Some t)
  with f have t: "emits ev f t a" by (simp add: emits_opt_def)
  show ?thesis
  proof (cases q)
    case (Some u)
    with g emits_bind [OF t, of g u b] \<open>r = Some t\<close> show ?thesis by (simp add: emits_opt_def)
  next
    case None
    have "fst (io_bind f g s) \<noteq> Inr c" for s c
    proof
      assume run: "fst (io_bind f g s) = Inr c"
      then obtain a' s1 where fs: "f s = (Inr a', s1)" and gs: "fst (g a' s1) = Inr c"
        by (auto simp: io_bind_def split: prod.splits sum.splits)
      with emits_ok [OF t, of s a'] have "a' = a" by simp
      with gs g None show False by (simp add: emits_opt_def)
    qed
    with None \<open>r = Some t\<close> show ?thesis by (simp add: emits_opt_def)
  qed
qed

fun batches_text :: "('a \<Rightarrow> 'b \<Rightarrow> string option) \<Rightarrow> ('a \<Rightarrow> 'b \<Rightarrow> 'a) \<Rightarrow> 'a \<Rightarrow> 'b list \<Rightarrow> string option" where
  "batches_text txt nxt acc [] = Some []"
| "batches_text txt nxt acc (b # bs) = append_opt (txt acc b) (batches_text txt nxt (nxt acc b) bs)"

lemma emits_checks: "emits ev (io_each (\<lambda>_. check_cancelled ev) xs) [] ()"
proof (induction xs)
  case (Cons x xs)
  from emits_then [OF emits_check Cons] show ?case by simp
qed (simp add: emits_return)

definition ended :: "io_error option \<Rightarrow> string option" where
  "ended e = (case e of None \<Rightarrow> Some [] | Some _ \<Rightarrow> None)"

lemma ended_simps [simp]: "ended None = Some []" "ended (Some e) = None"
  by (simp_all add: ended_def)

lemma read_batches_emits:
  assumes "\<And>acc b. b \<in> set bs \<Longrightarrow> emits_opt ev (body acc b) (txt acc b) (nxt acc b)"
  shows "emits_opt ev (read_batches ev body acc bs fin)
    (append_opt (batches_text txt nxt acc bs) (ended fin)) (foldl nxt acc bs)"
  using assms
proof (induction bs arbitrary: acc)
  case Nil
  show ?case
    by (cases fin; simp)
      (rule emits_opt_text, rule emits_opt_then,
        (rule emits_optI [OF emits_check] emits_opt_fail emits_optI [OF emits_return])+, simp)+
next
  case (Cons b bs)
  have "emits_opt ev (read_batches ev body acc (b # bs) fin)
    (append_opt (Some []) (append_opt (Some []) (append_opt (txt acc b)
       (append_opt (batches_text txt nxt (nxt acc b) bs) (ended fin))))) (foldl nxt (nxt acc b) bs)"
    unfolding read_batches.simps
    by (rule emits_opt_then emits_optI [OF emits_check] emits_optI [OF emits_checks])+
      (rule emits_opt_bind [where a = "nxt acc b"]; simp add: Cons)
  then show ?case by (simp add: append_opt_assoc)
qed

section \<open>Streams and tables\<close>

lemma stream_range: "columns \<noteq> [] \<Longrightarrow> column_range (stream_table columns rs) = [0..<length columns]"
  by (cases columns) (simp_all add: column_range_def stream_table_def)

lemma stream_row_range: "row_range (stream_table columns rs) = [0..<r_len rs]"
  by (simp add: row_range_def stream_table_def)

lemma stream_table_simps [simp]:
  "tb_columns (stream_table columns rs) = columns" "tb_rows (stream_table columns rs) = rs"
  "tb_row_indices (stream_table columns rs) = (0, r_len rs)"
  "row_count (stream_table columns rs) = r_len rs"
  by (simp_all add: stream_table_def row_count_def)

lemma stream_selected: "columns \<noteq> [] \<Longrightarrow> selected_columns (stream_table columns rs) = columns"
  by (simp add: selected_columns_def stream_range map_nth)

lemma stream_export_columns:
  assumes "columns \<noteq> []"
  shows "export_columns (stream_table columns rs) = map export_column_from columns"
proof -
  have "table_range_ok (stream_table columns rs)"
    using assms by (simp add: table_range_ok_def stream_table_def)
  from export_columns_map [OF this] have "export_columns (stream_table columns rs)
      = map (\<lambda>i. export_column_from (columns ! i)) [0..<length columns]"
    by (simp only: stream_range [OF assms] stream_table_simps)
  also have "\<dots> = map export_column_from columns"
    by (intro nth_equalityI) simp_all
  finally show ?thesis .
qed

definition row_view :: "column list \<Rightarrow> row \<Rightarrow> row" where
  "row_view columns r = map (\<lambda>c. Option.bind (nth_opt r c) id) [0..<length columns]"

lemma batch_rows_view:
  assumes "columns \<noteq> []" "store_ok rs"
  shows "batch_rows columns rs = map (row_view columns) (rows_list rs)"
proof -
  have "table_values (stream_table columns rs) i = row_view columns (rows_list rs ! i)"
    if "i < length (rows_list rs)" for i
    using that assms
    by (simp add: table_values_def Let_def stream_range store_ok_get nth_opt_def [of "rows_list rs"] row_view_def)
  with assms(2) have "batch_rows columns rs = map (\<lambda>i. row_view columns (rows_list rs ! i)) [0..<length (rows_list rs)]"
    by (simp add: batch_rows_def stream_row_range store_ok_length)
  also have "\<dots> = map (row_view columns) (rows_list rs)"
    by (intro nth_equalityI) simp_all
  finally show ?thesis .
qed

lemma batch_rows_concat:
  assumes "columns \<noteq> []" "list_all store_ok bs"
  shows "concat (map (batch_rows columns) bs) = map (row_view columns) (concat (map rows_list bs))"
  using assms(2) by (induction bs) (simp_all add: batch_rows_view [OF assms(1)])

text \<open>The rows that all batches of a reader hold, in order.\<close>

definition reader_rows :: "column list \<Rightarrow> 'c spool_reader \<Rightarrow> row list" where
  "reader_rows columns rd = concat (map (batch_rows columns) (sr_batches rd))"

lemma counted_batches_text:
  "(\<And>k xs ys. F k (xs @ ys) = append_opt (F k xs) (F (k + length xs) ys)) \<Longrightarrow> (\<And>k. F k [] = Some []) \<Longrightarrow>
     batches_text (\<lambda>k b. F k (g b)) (\<lambda>k b. k + length (g b)) k bs = F k (concat (map g bs))"
  by (induction bs arbitrary: k) simp_all

lemma counted_batches_end: "foldl (\<lambda>k b. k + length (g b)) k bs = k + length (concat (map g bs))"
  by (induction bs arbitrary: k) simp_all

lemma for_batches_emits:
  assumes "\<And>k b. emits_opt ev (body k b) (F k (batch_rows columns b)) (k + length (batch_rows columns b))"
    and "\<And>k xs ys. F k (xs @ ys) = append_opt (F k xs) (F (k + length xs) ys)" and "\<And>k. F k [] = Some []"
  shows "emits_opt ev (for_batches ev body 0 rd)
    (append_opt (F 0 (reader_rows columns rd)) (ended (sr_end rd))) (length (reader_rows columns rd))"
proof -
  have "emits_opt ev (for_batches ev body 0 rd)
    (append_opt (batches_text (\<lambda>k b. F k (batch_rows columns b)) (\<lambda>k b. k + length (batch_rows columns b)) 0
        (sr_batches rd)) (ended (sr_end rd)))
    (foldl (\<lambda>k b. k + length (batch_rows columns b)) 0 (sr_batches rd))"
    unfolding for_batches_def by (rule read_batches_emits) (rule assms(1))
  then show ?thesis
    by (simp add: counted_batches_end reader_rows_def
        counted_batches_text [of F "batch_rows columns", OF assms(2,3)])
qed

lemma rows_for_batches_emits:
  assumes "\<And>k r. emits ev (line k r) (f k r) ()"
  shows "emits_opt ev (for_batches ev (\<lambda>k b. row_loop ev line k (batch_rows columns b)) 0 rd)
    (append_opt (Some (rows_text f 0 (reader_rows columns rd))) (ended (sr_end rd)))
    (length (reader_rows columns rd))"
  by (rule for_batches_emits [where F = "\<lambda>k rs. Some (rows_text f k rs)"])
    (simp_all add: rows_text_append emits_optI row_loop_emits assms)

lemma open_reader_emits: "emits_opt ev (open_reader ev rd) (ended (sr_open rd)) ()"
proof (cases "sr_open rd")
  case None
  have "emits ev (open_reader ev rd) ([] @ []) ()"
    unfolding open_reader_def None by (simp only: option.case) (intro emits_then emits_return emits_memory)
  with None show ?thesis by (simp add: emits_optI)
qed (simp add: open_reader_def emits_opt_fail)

section \<open>CSV\<close>

lemma csv_text_stream:
  assumes "columns \<noteq> []"
  shows "csv_text opts (stream_table columns rs)
    = (if cs_byte_order_mark opts then BYTE_ORDER_MARK else [])
      @ (if cs_header opts
         then record_text opts (map export_column_from columns) False
                (map (\<lambda>c. Some (ec_name c)) (map export_column_from columns))
         else [])
      @ rows_text (\<lambda>_ r. record_text opts (map export_column_from columns) True r) 0 (batch_rows columns rs)"
  using rows_text_table [of "\<lambda>_ r. record_text opts (map export_column_from columns) True r"
      "table_values (stream_table columns rs)" "r_len rs"]
  by (simp add: csv_text_def stream_export_columns [OF assms] batch_rows_def stream_row_range)

lemma stream_csv_emits:
  assumes "marker_valid opts" "ss_columns sp \<noteq> []"
    and "reader_rows (ss_columns sp) (ss_reader sp 0) = batch_rows (ss_columns sp) rs"
  shows "emits_opt ev (stream_csv ev opts sp)
    (append_opt (ended (sr_open (ss_reader sp 0)))
       (append_opt (Some (csv_text opts (stream_table (ss_columns sp) rs))) (ended (sr_end (ss_reader sp 0)))))
    (length (batch_rows (ss_columns sp) rs))"
proof -
  let ?cols = "map export_column_from (ss_columns sp)"
  let ?head = "(if cs_byte_order_mark opts then BYTE_ORDER_MARK else [])
     @ (if cs_header opts then record_text opts ?cols False (map (\<lambda>c. Some (ec_name c)) ?cols) else [])"
  let ?rows = "rows_text (\<lambda>_ r. record_text opts ?cols True r) 0 (batch_rows (ss_columns sp) rs)"
  have loop: "emits_opt ev
      (for_batches ev (\<lambda>k b. row_loop ev (\<lambda>_ r. csv_row ev opts ?cols r) k (batch_rows (ss_columns sp) b)) 0
         (ss_reader sp 0))
      (append_opt (Some ?rows) (ended (sr_end (ss_reader sp 0)))) (length (batch_rows (ss_columns sp) rs))"
    using rows_for_batches_emits [of ev "\<lambda>_ r. csv_row ev opts ?cols r"
        "\<lambda>_ r. record_text opts ?cols True r" "ss_columns sp" "ss_reader sp 0"]
    unfolding assms(3) by (simp add: csv_row_def csv_record_emits)
  have done_: "emits_opt ev (io_then (check_cancelled ev) (io_return n)) (Some []) n" for n :: nat
    using emits_optI [OF emits_then [OF emits_check emits_return]] by simp
  have "emits_opt ev (stream_csv ev opts sp)
    (append_opt (Some []) (append_opt (ended (sr_open (ss_reader sp 0))) (append_opt (Some ?head)
      (append_opt (append_opt (Some ?rows) (ended (sr_end (ss_reader sp 0)))) (Some [])))))
    (length (batch_rows (ss_columns sp) rs))"
    unfolding stream_csv_def Let_def
    by (intro emits_opt_then emits_optI [OF emits_memory] open_reader_emits
        emits_optI [OF csv_begin_emits [OF assms(1)]] emits_opt_bind [OF loop] done_)
  then show ?thesis
    unfolding csv_text_stream [OF assms(2)]
    by (rule emits_opt_text)
      (cases "ended (sr_open (ss_reader sp 0))"; cases "ended (sr_end (ss_reader sp 0))"; simp)
qed

section \<open>JSON\<close>

lemma json_rows_text_append:
  "json_rows_text ps en opts lines names kinds k (xs @ ys)
     = append_opt (json_rows_text ps en opts lines names kinds k xs)
         (json_rows_text ps en opts lines names kinds (k + length xs) ys)"
  by (induction xs arbitrary: k) (simp_all add: append_opt_assoc)

lemma json_finish_emits:
  "emits ev (json_finish ev opts lines n)
     (if lines then [] else (if jo_pretty opts \<and> 0 < n then [NEWLINE] else []) @ CHR '']'' # [NEWLINE]) n"
  unfolding json_finish_def
  by (rule emits_text, (rule emits_then emits_when emits_check emits_return emits_put)+) simp

lemma column_names_Some: "\<exists>names. column_names cs = Some names"
  using column_names_loop_spec [of cs cs "[]"] by (auto simp: column_names_def)

lemma stream_json_emits:
  assumes "ss_columns sp \<noteq> []"
    and "reader_rows (ss_columns sp) (ss_reader sp 0) = batch_rows (ss_columns sp) rs"
  shows "emits_opt ev (stream_json ev ps en opts lines sp)
    (append_opt (ended (sr_open (ss_reader sp 0)))
       (append_opt (json_text ps en opts lines (stream_table (ss_columns sp) rs))
          (ended (sr_end (ss_reader sp 0)))))
    (length (batch_rows (ss_columns sp) rs))"
proof -
  let ?t = "stream_table (ss_columns sp) rs"
  let ?kinds = "map (\<lambda>c. kind_of (cl_type c)) (ss_columns sp)"
  let ?n = "length (batch_rows (ss_columns sp) rs)"
  obtain names where names: "column_names (map cl_name (ss_columns sp)) = Some names"
    using column_names_Some by blast
  let ?F = "json_rows_text ps en opts lines names ?kinds"
  have body: "emits_opt ev
      (let rs = batch_rows (ss_columns sp) b in
         io_then (json_batch ev ps en opts lines names ?kinds k rs) (io_return (k + length rs)))
      (?F k (batch_rows (ss_columns sp) b)) (k + length (batch_rows (ss_columns sp) b))" for k b
    unfolding Let_def
    by (rule emits_opt_text, rule emits_opt_then [OF json_batch_emits emits_optI [OF emits_return]]) simp
  have loop: "emits_opt ev
      (for_batches ev
         (\<lambda>k b. let rs = batch_rows (ss_columns sp) b in
            io_then (json_batch ev ps en opts lines names ?kinds k rs) (io_return (k + length rs)))
         0 (ss_reader sp 0))
      (append_opt (?F 0 (batch_rows (ss_columns sp) rs)) (ended (sr_end (ss_reader sp 0)))) ?n"
    using for_batches_emits [where F = ?F, OF body json_rows_text_append, of "ss_reader sp 0"]
    unfolding assms(2) by simp
  have "emits_opt ev (stream_json ev ps en opts lines sp)
    (append_opt (ended (sr_open (ss_reader sp 0))) (append_opt (Some [])
      (append_opt (Some (if \<not> lines then ''['' else []))
        (append_opt (append_opt (?F 0 (batch_rows (ss_columns sp) rs)) (ended (sr_end (ss_reader sp 0))))
          (Some (if lines then [] else (if jo_pretty opts \<and> 0 < ?n then [NEWLINE] else []) @ CHR '']'' # [NEWLINE]))))))
    ?n"
    unfolding stream_json_def names option.case Let_def [of ?kinds]
    by (intro emits_opt_then open_reader_emits emits_optI [OF emits_memory]
        emits_optI [OF emits_when [OF emits_put]] emits_opt_bind [OF loop] emits_optI [OF json_finish_emits])
  moreover have "json_text ps en opts lines ?t
      = append_opt (Some (if \<not> lines then ''['' else []))
          (append_opt (?F 0 (batch_rows (ss_columns sp) rs))
            (Some (if lines then [] else (if jo_pretty opts \<and> 0 < ?n then [NEWLINE] else []) @ CHR '']'' # [NEWLINE])))"
    using names
    by (simp add: json_text_def table_names_def table_kinds_def stream_selected [OF assms(1)] batch_rows_def
        stream_row_range)
  ultimately show ?thesis
    by (cases "ended (sr_end (ss_reader sp 0))"; cases "?F 0 (batch_rows (ss_columns sp) rs)")
      (auto simp: ended_def split: option.splits)
qed

section \<open>Markdown\<close>

definition md_head_text ::
  "display \<Rightarrow> md_options \<Rightarrow> string list \<Rightarrow> bool list \<Rightarrow> nat list \<Rightarrow> nat \<Rightarrow> string" where
  "md_head_text dp opts names numeric widths nw =
     (let numbers = mo_row_numbers opts; cap = mo_max_cell_width opts in
      case mo_style opts of
        Table_Style \<Rightarrow>
          if mo_pretty opts then
            raw_row (map (padded dp) (number_cells (when_some numbers (''#'', nw)) @ zip names widths))
            @ raw_row (map rule_text (map (\<lambda>w. (w, True)) (number_cells (when_some numbers nw)) @ zip widths numeric))
          else
            raw_row (number_cells (when_some numbers ''#'') @ map (\<lambda>v. cell_text False (chunks v)) names)
            @ raw_row (number_cells (when_some numbers ''---:'') @ map rule_cell numeric)
      | Code_Block \<Rightarrow>
          (''```'' @ [NL])
          @ (''|'' @ code_line_text dp (code_line_cells cap (when_some numbers (''#'', nw)) (map Some names) widths) @ [NL])
          @ (''|'' @ code_line_text dp (code_line_cells cap (when_some numbers (''-'', nw)) (map (\<lambda>_. Some ''-'') widths) widths) @ [NL]))"

definition md_row_text :: "display \<Rightarrow> md_options \<Rightarrow> nat list \<Rightarrow> nat \<Rightarrow> nat \<Rightarrow> row \<Rightarrow> string" where
  "md_row_text dp opts widths nw k r =
     (let numbers = mo_row_numbers opts; cap = mo_max_cell_width opts in
      case mo_style opts of
        Table_Style \<Rightarrow>
          if mo_pretty opts then
            raw_row (map (padded dp) (number_cells (when_some numbers (show_nat (k + 1), nw))
                                      @ zip (map cell_or_null r) widths))
          else
            raw_row (number_cells (when_some numbers (show_nat (k + 1)))
                     @ map ((\<lambda>v. cell_text False (chunks v)) \<circ> cell_or_null) r)
      | Code_Block \<Rightarrow>
          ''|'' @ code_line_text dp (code_line_cells cap (when_some numbers (show_nat (k + 1), nw)) r widths) @ [NL])"

definition md_foot_text :: "md_options \<Rightarrow> string" where
  "md_foot_text opts = (if mo_style opts = Code_Block then ''```'' @ [NL] else [])"

lemma stream_head_emits:
  "emits ev (stream_head ev dp opts sp widths nw)
     (md_head_text dp opts (stream_names sp) (stream_numeric sp) widths nw) ()"
proof (cases "mo_style opts")
  case Table_Style
  note md = md_line_emits_cells [of _ "when_some (mo_row_numbers opts) n" for n]
  show ?thesis
  proof (cases "mo_pretty opts")
    case True
    have names: "map cell_or_null (map Some ns) = ns" for ns
      by (simp add: cell_or_null_def comp_def)
    show ?thesis
      using emits_then [OF pretty_line_emits [of ev dp _ "map Some (stream_names sp)"] pretty_separator_emits]
      by (simp only: stream_head_def md_head_text_def Let_def Table_Style md_style.case True if_True names)
  next
    case False
    have "emits ev (md_line ev (when_some (mo_row_numbers opts) ''#'') (map Some (stream_names sp)))
       (raw_row (number_cells (when_some (mo_row_numbers opts) ''#'')
          @ map (\<lambda>v. cell_text False (chunks v)) (stream_names sp))) ()"
      by (rule md)
        (cases "mo_row_numbers opts"; simp add: number_cells_def when_some_def simple_texts simple_chars cell_or_null_def comp_def)
    moreover have "emits ev (md_line ev (when_some (mo_row_numbers opts) ''---:'')
            (map (\<lambda>n. Some (if n then ''---:'' else ''---'')) (stream_numeric sp)))
       (raw_row (number_cells (when_some (mo_row_numbers opts) ''---:'') @ map rule_cell (stream_numeric sp))) ()"
      by (rule md)
        (cases "mo_row_numbers opts"; simp add: number_cells_def when_some_def simple_texts simple_chars cell_or_null_def
          rule_cell_def comp_def)
    ultimately show ?thesis
      by (simp only: stream_head_def md_head_text_def Let_def Table_Style md_style.case False if_False)
        (rule emits_then)
  qed
next
  case Code_Block
  show ?thesis
    by (simp only: stream_head_def md_head_text_def Let_def Code_Block md_style.case)
      (intro emits_then emits_put code_line_emits)
qed

lemma stream_line_emits:
  "emits ev (stream_line ev dp opts widths nw k r) (md_row_text dp opts widths nw k r) ()"
proof (cases "mo_style opts")
  case Table_Style
  show ?thesis
  proof (cases "mo_pretty opts")
    case True
    then show ?thesis
      by (simp only: stream_line_def md_row_text_def Let_def Table_Style md_style.case if_True pretty_line_emits)
  next
    case False
    show ?thesis
      by (simp only: stream_line_def md_row_text_def Let_def Table_Style md_style.case False if_False)
        (rule md_line_emits_cells,
          cases "mo_row_numbers opts"; simp add: number_cells_def when_some_def simple_texts)
  qed
next
  case Code_Block
  show ?thesis
    by (simp only: stream_line_def md_row_text_def Let_def Code_Block md_style.case code_line_emits)
qed

text \<open>The text of a table with all rows at once, in the same three parts.\<close>

definition md_widths :: "display \<Rightarrow> md_options \<Rightarrow> string list \<Rightarrow> bool list \<Rightarrow> row list \<Rightarrow> nat list" where
  "md_widths dp opts names numeric rs =
     (let cap = mo_max_cell_width opts; pretty = (mo_style opts = Table_Style \<and> mo_pretty opts)
      in foldl (if pretty then measure_table dp else measure_code dp cap)
           (if pretty then table_widths dp names numeric else map (\<lambda>n. md_width dp n cap) names) rs)"

lemma md_text_stream:
  fixes rs :: "'c rows" and columns :: "column list" and opts :: md_options
  defines "pretty \<equiv> mo_style opts = Table_Style \<and> mo_pretty opts"
  defines "names \<equiv> map cl_name columns"
    and "numeric \<equiv> map (\<lambda>c. value_kind_of (cl_type c) = Number_Kind) columns"
    and "R \<equiv> batch_rows columns rs"
  assumes "columns \<noteq> []"
    and "mo_style opts = Code_Block \<or> pretty \<Longrightarrow>
       widths = md_widths dp opts names numeric R
       \<and> nw = max (length (show_nat (length R))) (if pretty then 4 else 1)"
  shows "md_text dp opts (stream_table columns rs)
    = md_head_text dp opts names numeric widths nw
      @ rows_text (md_row_text dp opts widths nw) 0 R @ md_foot_text opts"
proof -
  let ?t = "stream_table columns rs"
  have t: "md_names ?t = names" "md_numeric ?t = numeric" "row_range ?t = [0..<r_len rs]"
    "length R = r_len rs" "map (table_values ?t) [0..<r_len rs] = R"
    by (simp_all add: md_names_def md_numeric_def stream_export_columns [OF assms(5)] export_column_from_def
        names_def numeric_def R_def batch_rows_def stream_row_range comp_def)
  have rows: "concat (map (\<lambda>k. f k (table_values ?t k)) [0..<r_len rs]) = rows_text f 0 R" for f
    using rows_text_table [of f "table_values ?t" "r_len rs"] by (simp only: t)
  show ?thesis
  proof (cases "mo_style opts")
    case Table_Style
    show ?thesis
    proof (cases "mo_pretty opts")
      case True
      then have pretty by (simp add: pretty_def Table_Style)
      with assms(6) have w: "widths = final_widths dp opts ?t" "nw = number_width ?t"
        by (simp_all add: md_widths_def final_widths_def Let_def t Table_Style True number_width_def)
      have "md_text dp opts ?t
        = md_head_text dp opts names numeric widths nw
          @ concat (map (\<lambda>k. md_row_text dp opts widths nw k (table_values ?t k)) [0..<r_len rs])"
        unfolding w
        by (simp add: md_text_def style_text_def md_head_text_def md_row_text_def Table_Style True pretty_rows_def t comp_def Let_def)
      then show ?thesis by (simp add: rows md_foot_text_def Table_Style)
    next
      case False
      have "md_text dp opts ?t
        = md_head_text dp opts names numeric widths nw
          @ concat (map (\<lambda>k. md_row_text dp opts widths nw k (table_values ?t k)) [0..<r_len rs])"
        by (simp add: md_text_def style_text_def md_head_text_def md_row_text_def Table_Style False compact_rows_def t comp_def Let_def)
      then show ?thesis by (simp add: rows md_foot_text_def Table_Style)
    qed
  next
    case Code_Block
    then have "\<not> pretty" by (simp add: pretty_def)
    with assms(6) Code_Block have w: "widths = code_widths dp opts ?t"
      "nw = max (length (show_nat (snd (tb_row_indices ?t)))) 1"
      by (simp_all add: md_widths_def code_widths_def Let_def t)
    have "md_text dp opts ?t
      = md_head_text dp opts names numeric widths nw
        @ concat (map (\<lambda>k. md_row_text dp opts widths nw k (table_values ?t k)) [0..<r_len rs]) @ md_foot_text opts"
      unfolding w
      by (simp add: md_text_def md_head_text_def md_row_text_def Code_Block code_lines_def fenced_def Let_def t
          comp_def md_foot_text_def)
    then show ?thesis by (simp only: rows)
  qed
qed

text \<open>The pass that measures: nothing is written, and the widths are those of all rows.\<close>

lemma measured_batches_text: "batches_text (\<lambda>a b. Some []) nxt acc bs = Some []"
  by (induction bs arbitrary: acc) simp_all

lemma measured_batches_end:
  "foldl (\<lambda>(ws, k) b. (foldl f ws (g b), k + length (g b))) (ws, k) bs
     = (foldl f ws (concat (map g bs)), k + length (concat (map g bs)))"
  by (induction bs arbitrary: ws k) simp_all

definition measured_failure :: "md_options \<Rightarrow> 'c stream_spool \<Rightarrow> string option" where
  "measured_failure opts sp =
     (if mo_style opts = Code_Block \<or> mo_pretty opts
      then append_opt (ended (sr_open (ss_reader sp 0))) (ended (sr_end (ss_reader sp 0))) else Some [])"

lemma stream_measure_emits:
  fixes sp :: "'c stream_spool" and opts :: md_options
  defines "pretty \<equiv> mo_style opts = Table_Style \<and> mo_pretty opts"
  obtains ws n where "emits_opt ev (stream_measure ev dp opts sp) (measured_failure opts sp) (ws, n)"
    and "mo_style opts = Code_Block \<or> pretty \<Longrightarrow>
      ws = md_widths dp opts (stream_names sp) (stream_numeric sp) (reader_rows (ss_columns sp) (ss_reader sp 0))
      \<and> n = length (reader_rows (ss_columns sp) (ss_reader sp 0))"
proof (cases "mo_style opts = Code_Block \<or> pretty")
  case True
  let ?widen = "if pretty then measure_table dp else measure_code dp (mo_max_cell_width opts)"
  let ?start = "if pretty then table_widths dp (stream_names sp) (stream_numeric sp)
     else map (\<lambda>n. md_width dp n (mo_max_cell_width opts)) (stream_names sp)"
  let ?body = "\<lambda>(widths, count) b.
      let rs = batch_rows (ss_columns sp) b in
      io_bind (measure_rows ev ?widen widths rs) (\<lambda>widths. io_return (widths, count + length rs))"
  let ?nxt = "\<lambda>(ws, k) b. (foldl ?widen ws (batch_rows (ss_columns sp) b), k + length (batch_rows (ss_columns sp) b))"
  let ?R = "reader_rows (ss_columns sp) (ss_reader sp 0)"
  have body: "emits_opt ev (?body acc b) (Some []) (?nxt acc b)" for acc b
  proof (cases acc)
    case (Pair ws k)
    show ?thesis
      unfolding Pair prod.case Let_def
      by (rule emits_opt_text, rule emits_opt_bind, rule emits_optI, rule measure_rows_emits,
          rule emits_optI, rule emits_return) simp
  qed
  have loop: "emits_opt ev (for_batches ev ?body (?start, 0) (ss_reader sp 0))
      (ended (sr_end (ss_reader sp 0))) (foldl ?widen ?start ?R, length ?R)"
    using read_batches_emits [of "sr_batches (ss_reader sp 0)" ev ?body "\<lambda>_ _. Some []" ?nxt "(?start, 0)"
        "sr_end (ss_reader sp 0)", OF body]
    unfolding measured_batches_text measured_batches_end
    by (simp add: for_batches_def reader_rows_def)
  have failure: "measured_failure opts sp
      = append_opt (ended (sr_open (ss_reader sp 0))) (ended (sr_end (ss_reader sp 0)))"
    using True by (auto simp: measured_failure_def pretty_def)
  have "emits_opt ev (stream_measure ev dp opts sp) (measured_failure opts sp) (foldl ?widen ?start ?R, length ?R)"
    unfolding stream_measure_def Let_def failure pretty_def [symmetric]
    by (simp only: True if_True, rule emits_opt_then [OF open_reader_emits], rule loop [unfolded Let_def])
  then show ?thesis
    by (rule that) (simp add: md_widths_def pretty_def Let_def)
next
  case False
  then have "mo_style opts = Table_Style" "\<not> mo_pretty opts"
    by (cases "mo_style opts"; simp add: pretty_def)+
  then have "stream_measure ev dp opts sp
      = io_return (map (\<lambda>n. md_width dp n (mo_max_cell_width opts)) (stream_names sp), 0)"
    "measured_failure opts sp = Some []"
    by (simp_all add: stream_measure_def Let_def measured_failure_def)
  then have "emits_opt ev (stream_measure ev dp opts sp) (measured_failure opts sp)
      (map (\<lambda>n. md_width dp n (mo_max_cell_width opts)) (stream_names sp), 0)"
    by (simp add: emits_optI emits_return)
  then show ?thesis by (rule that) (use False in simp)
qed

definition second_reader :: "md_options \<Rightarrow> nat" where
  "second_reader opts = (if mo_style opts = Code_Block \<or> mo_pretty opts then 1 else 0)"

lemma stream_markdown_emits:
  assumes "ss_columns sp \<noteq> []"
    and "reader_rows (ss_columns sp) (ss_reader sp 0) = batch_rows (ss_columns sp) rs"
    and "reader_rows (ss_columns sp) (ss_reader sp (second_reader opts)) = batch_rows (ss_columns sp) rs"
  shows "emits_opt ev (stream_markdown ev dp opts sp)
    (append_opt (measured_failure opts sp)
      (append_opt (ended (sr_open (ss_reader sp (second_reader opts))))
        (append_opt (Some (md_text dp opts (stream_table (ss_columns sp) rs)))
          (ended (sr_end (ss_reader sp (second_reader opts)))))))
    (length (batch_rows (ss_columns sp) rs))"
proof -
  let ?pretty = "mo_style opts = Table_Style \<and> mo_pretty opts"
  let ?R = "batch_rows (ss_columns sp) rs" and ?rd = "ss_reader sp (second_reader opts)"
  obtain ws n where measure: "emits_opt ev (stream_measure ev dp opts sp) (measured_failure opts sp) (ws, n)"
    and ws: "mo_style opts = Code_Block \<or> ?pretty \<Longrightarrow>
      ws = md_widths dp opts (stream_names sp) (stream_numeric sp) ?R \<and> n = length ?R"
    using stream_measure_emits [of ev dp opts sp] unfolding assms(2) by blast
  define nw where "nw = max (length (show_nat n)) (if ?pretty then 4 else 1)"
  let ?head = "md_head_text dp opts (stream_names sp) (stream_numeric sp) ws nw"
  let ?rows = "rows_text (md_row_text dp opts ws nw) 0 ?R"
  have second: "(if mo_style opts = Code_Block \<or> ?pretty then 1 else 0) = second_reader opts"
    by (cases "mo_style opts") (auto simp: second_reader_def)
  have loop: "emits_opt ev
      (for_batches ev (\<lambda>k b. row_loop ev (stream_line ev dp opts ws nw) k (batch_rows (ss_columns sp) b)) 0 ?rd)
      (append_opt (Some ?rows) (ended (sr_end ?rd))) (length ?R)"
    using rows_for_batches_emits [of ev "stream_line ev dp opts ws nw", OF stream_line_emits, of "ss_columns sp" ?rd]
    unfolding assms(3) .
  have finish: "emits_opt ev
      (io_then (io_when (mo_style opts = Code_Block) (put ev (''```'' @ [NL])))
         (io_then (check_cancelled ev) (io_return k))) (Some (md_foot_text opts)) k" for k :: nat
    unfolding md_foot_text_def
    by (rule emits_optI, rule emits_text, (rule emits_then emits_when emits_put emits_check emits_return)+) simp
  have run: "emits_opt ev (stream_markdown ev dp opts sp)
    (append_opt (Some []) (append_opt (measured_failure opts sp) (append_opt (Some ?head)
      (append_opt (ended (sr_open ?rd))
        (append_opt (append_opt (Some ?rows) (ended (sr_end ?rd))) (Some (md_foot_text opts)))))))
    (length ?R)"
    unfolding stream_markdown_def Let_def second
    by (intro emits_opt_then emits_optI [OF emits_memory], rule emits_opt_bind [OF measure])
      (simp only: prod.case nw_def [symmetric],
        intro emits_opt_then emits_optI [OF stream_head_emits] open_reader_emits emits_opt_bind [OF loop] finish)
  have "md_text dp opts (stream_table (ss_columns sp) rs) = ?head @ ?rows @ md_foot_text opts"
    unfolding stream_names_def stream_numeric_def
    by (rule md_text_stream [OF assms(1)]) (use ws in \<open>auto simp: nw_def stream_names_def stream_numeric_def\<close>)
  with run show ?thesis
    by (elim emits_opt_text)
      (cases "measured_failure opts sp"; cases "ended (sr_open ?rd)"; cases "ended (sr_end ?rd)"; simp add: ended_def split: option.splits)
qed

section \<open>Readers that fail\<close>

lemma io_bind_Inr:
  "fst (io_bind f g s) = Inr b \<Longrightarrow> \<exists>a. fst (f s) = Inr a \<and> fst (g a (snd (f s))) = Inr b"
  by (auto simp: io_bind_def split: prod.splits sum.splits)

lemma for_batches_complete: "fst (for_batches ev body acc rd s) = Inr b \<Longrightarrow> sr_end rd = None"
proof -
  have "fst (read_batches ev body acc bs fin s) = Inr b \<Longrightarrow> fin = None" for bs fin acc s
    by (induction bs arbitrary: acc s) (auto dest!: io_then_Inr io_bind_Inr split: option.splits)
  then show "fst (for_batches ev body acc rd s) = Inr b \<Longrightarrow> sr_end rd = None"
    by (simp add: for_batches_def)
qed

lemma stream_csv_complete: "fst (stream_csv ev opts sp s) = Inr n \<Longrightarrow> sr_end (ss_reader sp 0) = None"
  by (auto simp: stream_csv_def Let_def dest!: io_then_Inr io_bind_Inr dest: for_batches_complete)

lemma stream_json_complete:
  "fst (stream_json ev ps en opts lines sp s) = Inr n \<Longrightarrow> sr_end (ss_reader sp 0) = None"
  by (auto simp: stream_json_def Let_def dest!: io_then_Inr io_bind_Inr dest: for_batches_complete split: option.splits)

lemma stream_markdown_complete:
  assumes "fst (stream_markdown ev dp opts sp s) = Inr n"
  shows "sr_end (ss_reader sp 0) = None \<and> sr_end (ss_reader sp (second_reader opts)) = None"
proof -
  have second: "(if mo_style opts = Code_Block \<or> mo_style opts = Table_Style \<and> mo_pretty opts then 1 else 0)
      = second_reader opts"
    by (cases "mo_style opts") (auto simp: second_reader_def)
  have 1: "sr_end (ss_reader sp (second_reader opts)) = None"
    using assms unfolding stream_markdown_def Let_def second
    by (auto dest!: io_then_Inr io_bind_Inr dest: for_batches_complete split: prod.splits)
  obtain a s1 where "fst (stream_measure ev dp opts sp s1) = Inr a"
    using assms by (auto simp: stream_markdown_def Let_def dest!: io_then_Inr io_bind_Inr)
  then have "mo_style opts = Code_Block \<or> mo_pretty opts \<Longrightarrow> sr_end (ss_reader sp 0) = None"
    by (cases "mo_style opts")
      (auto simp: stream_measure_def Let_def dest!: io_then_Inr dest: for_batches_complete split: if_splits)
  with 1 show ?thesis by (auto simp: second_reader_def split: if_splits)
qed

section \<open>A stream is the export of all rows\<close>

definition readers_complete :: "'c stream_spool \<Rightarrow> bool" where
  "readers_complete sp \<longleftrightarrow> (\<forall>i. sr_open (ss_reader sp i) = None \<and> sr_end (ss_reader sp i) = None)"

text \<open>
  The spool holds the rows of \<open>whole\<close>: a reader that comes to the end record has read all of them,
  in batches of any lengths. A reader that stops with an error may have read anything.
\<close>

definition spools :: "'c stream_spool \<Rightarrow> 'c rows \<Rightarrow> bool" where
  "spools sp whole \<longleftrightarrow>
     ss_columns sp \<noteq> [] \<and> store_ok whole
     \<and> (\<forall>i. sr_end (ss_reader sp i) = None \<longrightarrow>
            list_all store_ok (sr_batches (ss_reader sp i))
            \<and> concat (map rows_list (sr_batches (ss_reader sp i))) = rows_list whole)"

lemma spools_rows:
  "spools sp whole \<Longrightarrow> sr_end (ss_reader sp i) = None \<Longrightarrow>
     reader_rows (ss_columns sp) (ss_reader sp i) = batch_rows (ss_columns sp) whole"
  by (simp add: spools_def reader_rows_def batch_rows_concat batch_rows_view)

text \<open>
  What a stream of the text \<open>t\<close> with \<open>n\<close> rows does: success means that the first reader came to its
  end and that all of \<open>t\<close> is written; complete readers, room and no cancellation give success.
\<close>

definition streams :: "env \<Rightarrow> nat io \<Rightarrow> 'c stream_spool \<Rightarrow> string \<Rightarrow> nat \<Rightarrow> bool" where
  "streams ev f sp t n \<longleftrightarrow>
     (\<forall>s m. fst (f s) = Inr m \<longrightarrow>
        m = n \<and> sk_text (snd (f s)) = sk_text s @ t \<and> sr_end (ss_reader sp 0) = None)
     \<and> (readers_complete sp \<longrightarrow> emits ev f t n)"

lemma streamsI:
  assumes "\<And>s m. fst (f s) = Inr m \<Longrightarrow> sr_end (ss_reader sp 0) = None \<and> P"
    and "sr_end (ss_reader sp 0) = None \<Longrightarrow> P \<Longrightarrow> \<exists>q. emits_opt ev f q n \<and> (\<forall>u. q = Some u \<longrightarrow> u = t)
       \<and> (readers_complete sp \<longrightarrow> q = Some t)"
    and "readers_complete sp \<Longrightarrow> P"
  shows "streams ev f sp t n"
proof (cases "sr_end (ss_reader sp 0) = None \<and> P")
  case True
  then obtain q where q: "emits_opt ev f q n" "\<forall>u. q = Some u \<longrightarrow> u = t"
    "readers_complete sp \<longrightarrow> q = Some t" using assms(2) by meson
  have "m = n \<and> sk_text (snd (f s)) = sk_text s @ t" if run: "fst (f s) = Inr m" for s m
    by (rule emits_opt_ok [OF q(1) run]) (use q(2) in simp)
  moreover have "emits ev f t n" if "readers_complete sp"
  proof -
    have "q = Some t" using q(3) that by blast
    with q(1) show ?thesis by (simp add: emits_opt_def)
  qed
  ultimately show ?thesis unfolding streams_def using True by blast
next
  case False
  with assms(1,3) show ?thesis by (auto simp: streams_def readers_complete_def)
qed

lemma complete_ends:
  "readers_complete sp \<Longrightarrow> sr_end (ss_reader sp i) = None \<and> sr_open (ss_reader sp i) = None"
  by (simp add: readers_complete_def)

lemma append_ended_Some:
  "append_opt (ended a) (append_opt q (ended b)) = Some u \<Longrightarrow> q = Some u"
  "append_opt m (append_opt (ended a) (append_opt (Some t) (ended b))) = Some u \<Longrightarrow> m = Some [] \<Longrightarrow> u = t"
  by (cases a; cases b; simp)+

lemma stream_format_streams:
  fixes cr :: "('f, 'c, 'p) crates"
  assumes "spools sp whole" "es_format s \<noteq> Parquet_Format"
    and "fst (write_export ev0 cr s (stream_table (ss_columns sp) whole) st) = Inr n"
    and "format_text cr s (stream_table (ss_columns sp) whole) = Some t"
  shows "streams ev
    (case es_format s of
       Csv_Format \<Rightarrow> stream_csv ev (es_csv s) sp
     | Json_Format \<Rightarrow> stream_json ev (cr_parsers cr) (cr_encoders cr) (es_json s) False sp
     | Json_Lines_Format \<Rightarrow> stream_json ev (cr_parsers cr) (cr_encoders cr) (es_json s) True sp
     | Markdown_Format \<Rightarrow> stream_markdown ev (cr_display cr) (es_markdown s) sp
     | Parquet_Format \<Rightarrow> parquet ev sp (es_parquet s))
    sp t (length (batch_rows (ss_columns sp) whole))"
proof -
  let ?t = "stream_table (ss_columns sp) whole" and ?n = "length (batch_rows (ss_columns sp) whole)"
  have cols: "ss_columns sp \<noteq> []" using assms(1) by (simp add: spools_def)
  obtain s1 where fmt: "fst (write_format ev0 cr s ?t s1) = Inr n"
    using write_export_valid [OF assms(3)] by blast
  have json: "streams ev (stream_json ev (cr_parsers cr) (cr_encoders cr) (es_json s) lines sp) sp t ?n"
    if "json_text (cr_parsers cr) (cr_encoders cr) (es_json s) lines ?t = Some t" for lines
  proof (rule streamsI [where P = True])
    assume "sr_end (ss_reader sp 0) = None"
    note e = stream_json_emits [OF cols spools_rows [OF assms(1) this], of ev "cr_parsers cr" "cr_encoders cr" "es_json s" lines]
    show "\<exists>q. emits_opt ev (stream_json ev (cr_parsers cr) (cr_encoders cr) (es_json s) lines sp) q ?n
       \<and> (\<forall>u. q = Some u \<longrightarrow> u = t) \<and> (readers_complete sp \<longrightarrow> q = Some t)"
      by (rule exI, rule conjI, rule e)
        (use that in \<open>auto dest!: append_ended_Some(1) simp: complete_ends\<close>)
  qed (auto dest: stream_json_complete)
  show ?thesis
  proof (cases "es_format s")
    case Csv_Format
    with fmt have "fst (write_csv ev0 (es_csv s) ?t s1) = Inr n" by (simp add: write_format_def)
    from write_csv_valid [OF this] have m: "marker_valid (es_csv s)" by blast
    have t: "t = csv_text (es_csv s) ?t" using assms(4) Csv_Format by (simp add: format_text_def)
    have "streams ev (stream_csv ev (es_csv s) sp) sp t ?n"
    proof (rule streamsI [where P = True])
      assume "sr_end (ss_reader sp 0) = None"
      note e = stream_csv_emits [OF m cols spools_rows [OF assms(1) this], of ev]
      show "\<exists>q. emits_opt ev (stream_csv ev (es_csv s) sp) q ?n
         \<and> (\<forall>u. q = Some u \<longrightarrow> u = t) \<and> (readers_complete sp \<longrightarrow> q = Some t)"
        by (rule exI, rule conjI, rule e) (use t in \<open>auto dest!: append_ended_Some(1) simp: complete_ends\<close>)
    qed (auto dest: stream_csv_complete)
    with Csv_Format show ?thesis by simp
  next
    case Markdown_Format
    let ?o = "es_markdown s" and ?dp = "cr_display cr"
    have t: "t = md_text ?dp ?o ?t" using assms(4) Markdown_Format by (simp add: format_text_def)
    have "streams ev (stream_markdown ev ?dp ?o sp) sp t ?n"
    proof (rule streamsI [where P = "sr_end (ss_reader sp (second_reader ?o)) = None"])
      assume ends: "sr_end (ss_reader sp 0) = None" "sr_end (ss_reader sp (second_reader ?o)) = None"
      note e = stream_markdown_emits [OF cols spools_rows [OF assms(1) ends(1)] spools_rows [OF assms(1) ends(2)],
          of ev ?dp]
      have measured: "measured_failure ?o sp = Some [] \<or> measured_failure ?o sp = None"
        by (auto simp: measured_failure_def ended_def split: option.splits)
      show "\<exists>q. emits_opt ev (stream_markdown ev ?dp ?o sp) q ?n
         \<and> (\<forall>u. q = Some u \<longrightarrow> u = t) \<and> (readers_complete sp \<longrightarrow> q = Some t)"
        by (rule exI, rule conjI, rule e)
          (use measured t in \<open>auto dest!: append_ended_Some(1) dest: append_ended_Some(2) simp: complete_ends measured_failure_def\<close>)
    qed (auto dest: stream_markdown_complete simp: complete_ends)
    with Markdown_Format show ?thesis by simp
  qed (use assms(2,4) json in \<open>auto simp: format_text_def\<close>)
qed

text \<open>
  C18. A streamed export is the export of the whole result. However the download cut the result
  into batches, and whatever other threads do: if the export of all rows as one table succeeds with
  some text, then a streamed export that succeeds has written exactly that text after what the
  writer already held, has counted the same rows and has read its first reader to the end; and when
  all readers come to their end, it never writes anything but a prefix of that text, and it succeeds
  if there is room, memory is granted and nobody cancels.
\<close>

theorem streamed_export_matches_whole:
  assumes "spools sp whole" "es_format s \<noteq> Parquet_Format"
    and "fst (write_export ev cr s (stream_table (ss_columns sp) whole) vec_sink) = Inr n"
    and "full = sk_text (snd (write_export ev cr s (stream_table (ss_columns sp) whole) vec_sink))"
    and "run = stream_write ev' cr parquet s sp out"
  shows "(\<forall>m. fst run = Inr m \<longrightarrow>
            m = n \<and> sk_text (snd run) = sk_text out @ full \<and> sr_end (ss_reader sp 0) = None)
    \<and> (readers_complete sp \<longrightarrow> (\<exists>p. prefix p full \<and> sk_text (snd run) = sk_text out @ p))
    \<and> (readers_complete sp \<and> roomy ev' out full \<longrightarrow> fst run = Inr n)"
proof -
  let ?t = "stream_table (ss_columns sp) whole"
  from write_export_emits [OF assms(3,2)] obtain t where t: "format_text cr s ?t = Some t"
    and e: "\<And>ev'. emits ev' (write_export ev' cr s ?t) t (row_count ?t)" by blast
  from emits_vec [OF e assms(3)] assms(4) have full: "full = t" "n = r_len whole" by auto
  have valid: "settings_validate s = io_return ()" using write_export_valid [OF assms(3)] by blast
  define f where "f = (case es_format s of
       Csv_Format \<Rightarrow> stream_csv ev' (es_csv s) sp
     | Json_Format \<Rightarrow> stream_json ev' (cr_parsers cr) (cr_encoders cr) (es_json s) False sp
     | Json_Lines_Format \<Rightarrow> stream_json ev' (cr_parsers cr) (cr_encoders cr) (es_json s) True sp
     | Markdown_Format \<Rightarrow> stream_markdown ev' (cr_display cr) (es_markdown s) sp
     | Parquet_Format \<Rightarrow> parquet ev' sp (es_parquet s))"
  have count: "length (batch_rows (ss_columns sp) whole) = n"
    by (simp add: full batch_rows_def stream_row_range)
  have streams: "streams ev' f sp full n"
    using stream_format_streams [OF assms(1,2,3) t, of ev' parquet] unfolding f_def count full(1) .
  have run: "run = io_then (io_return ()) (io_then (check_cancelled ev') f) out"
    unfolding assms(5) stream_write_def f_def valid ..
  have "m = n \<and> sk_text (snd run) = sk_text out @ full \<and> sr_end (ss_reader sp 0) = None"
    if ok: "fst run = Inr m" for m
  proof -
    let ?s = "snd (check_cancelled ev' (snd (io_return () out)))"
    have "fst (f ?s) = Inr m" "snd run = snd (f ?s)"
      using ok unfolding run by (auto simp: io_then_def io_bind_def io_return_def split: prod.splits sum.splits)
    with streams have "m = n \<and> sk_text (snd run) = sk_text ?s @ full \<and> sr_end (ss_reader sp 0) = None"
      by (simp add: streams_def)
    then show ?thesis by (simp add: check_cancelled_def io_return_def)
  qed
  moreover have "(\<exists>p. prefix p full \<and> sk_text (snd run) = sk_text out @ p) \<and> (roomy ev' out full \<longrightarrow> fst run = Inr n)"
    if "readers_complete sp"
  proof -
    have "emits ev' (io_then (io_return ()) (io_then (check_cancelled ev') f)) ([] @ [] @ full) n"
      using streams that by (intro emits_then emits_return emits_check) (simp add: streams_def)
    then have "emits ev' (io_then (io_return ()) (io_then (check_cancelled ev') f)) full n" by simp
    from emits_prefix [OF this, of out] emits_roomy [OF this, of out] show ?thesis unfolding run by blast
  qed
  ultimately show ?thesis by blast
qed

text \<open>Three rows in batches of two and one, in a padded table that needs two readers.\<close>

definition stream_sample_rows :: "row list" where
  "stream_sample_rows = [[Some ''a'', Some ''1''], [None, Some ''22''], [Some ''b'', None]]"

definition stream_sample_reader :: "unit spool_reader" where
  "stream_sample_reader =
     \<lparr>sr_open = None,
      sr_batches = [rows_from sample_caps 1 () (take 2 stream_sample_rows),
                    rows_from sample_caps 2 () (drop 2 stream_sample_rows)],
      sr_end = None\<rparr>"

definition stream_sample :: "unit stream_spool" where
  "stream_sample =
     \<lparr>ss_columns = [\<lparr>cl_name = ''name'', cl_type = ''STRING''\<rparr>, \<lparr>cl_name = ''n'', cl_type = ''INT''\<rparr>],
      ss_reader = (\<lambda>_. stream_sample_reader)\<rparr>"

definition stream_whole :: "unit rows" where
  "stream_whole = rows_from sample_caps 1 () stream_sample_rows"

lemma rows_from_list: "store_ok (rows_from cap i c rs) \<and> rows_list (rows_from cap i c rs) = rs"
proof -
  have "rows_list (rows_default c) = []" by (simp add: rows_list_def rows_default_def)
  with store_ok_extend [OF store_ok_default [of c], of cap i rs] show ?thesis by (simp add: rows_from_def)
qed

theorem streamed_export_matches_whole_witness:
  "fst (stream_write calm sample_crates (\<lambda>_ _ _. io_fail Invalid_Input)
          (sample_settings\<lparr>es_markdown := md_options_default\<rparr>) stream_sample vec_sink) = Inr 3
   \<and> sk_text (snd (stream_write calm sample_crates (\<lambda>_ _ _. io_fail Invalid_Input)
          (sample_settings\<lparr>es_markdown := md_options_default\<rparr>) stream_sample vec_sink))
     = sk_text (snd (write_export calm sample_crates (sample_settings\<lparr>es_markdown := md_options_default\<rparr>)
          (stream_table (ss_columns stream_sample) stream_whole) vec_sink))"
proof -
  let ?s = "sample_settings\<lparr>es_markdown := md_options_default\<rparr>"
  have 1: "spools stream_sample stream_whole"
    by (simp add: spools_def stream_sample_def stream_whole_def stream_sample_reader_def rows_from_list
        stream_sample_rows_def)
  have 2: "es_format ?s \<noteq> Parquet_Format" by (simp add: sample_settings_def)
  have 3: "fst (write_export calm sample_crates ?s (stream_table (ss_columns stream_sample) stream_whole) vec_sink) = Inr 3"
    by code_simp
  have 4: "readers_complete stream_sample"
    by (simp add: readers_complete_def stream_sample_def stream_sample_reader_def)
  have 5: "roomy calm vec_sink t" for t by (simp add: roomy_def calm_def vec_sink_def)
  note all = streamed_export_matches_whole [OF 1 2 3 refl refl, of calm "\<lambda>_ _ _. io_fail Invalid_Input" vec_sink]
  have run: "fst (stream_write calm sample_crates (\<lambda>_ _ _. io_fail Invalid_Input) ?s stream_sample vec_sink) = Inr 3"
    using all 4 5 by blast
  with all show ?thesis by (simp add: vec_sink_def)
qed

end
