(* ===== verification/Temporal.thy ===== *)
theory Temporal
  imports Column_Values
begin

text \<open>
  Exact dates and timestamps of exports (\<open>src/export/temporal.rs\<close>): the precision of a column
  type, the checks that keep a value from losing digits, and the choice of the offset. Calendar
  texts and named time zones are read by the chrono crates and are a parameter.
\<close>

section \<open>Column types\<close>

datatype temporal_error =
    Bad_Precision | Precision_Above_9 | Bad_Iso_Timestamp | Loses_Precision | Leap_Second
  | Bad_Offset | Unknown_Zone | Gap_Or_Overlap | Unexpected_Zone | Nanosecond_Range | Bad_Iso_Date
  | Date_Range

record timestamp_type =
  ts_precision :: nat
  ts_instant :: bool

text \<open>\<open>str::parse::<u8>\<close>.\<close>

definition parse_u8 :: "string \<Rightarrow> nat option" where
  "parse_u8 t =
     (let digits = (if t \<noteq> [] \<and> hd t = CHR ''+'' then tl t else t)
      in if digits = [] \<or> \<not> list_all is_ascii_digit digits then None
         else (let n = digits_value 0 digits in if n \<le> 255 then Some n else None))"

definition timestamp_from_type :: "string \<Rightarrow> (temporal_error, timestamp_type option) result" where
  "timestamp_from_type type_name =
     (let name = to_ascii_lowercase (trim type_name) in
      if \<not> starts_with name ''timestamp'' \<and> name \<noteq> ''timestamptz'' then Inr None
      else
        and_then
          (case split_once (\<lambda>c. c = CHR ''('') name of
             Some (_, rest) \<Rightarrow> ok_or Bad_Precision (parse_u8 (takeWhile (\<lambda>c. c \<noteq> CHR '')'') rest))
           | None \<Rightarrow> Inr 6)
          (\<lambda>precision.
             if 9 < precision then Inl Precision_Above_9
             else
               Inr (Some \<lparr>ts_precision = precision,
                          ts_instant =
                            starts_with name ''timestamptz'' \<or> contains_str name ''with time zone''
                            \<or> ends_with name ''local tz'' \<or> contains_str name ''with local time zone''\<rparr>)))"

definition ts_nanos :: "timestamp_type \<Rightarrow> bool" where
  "ts_nanos ty \<longleftrightarrow> 6 < ts_precision ty"

section \<open>Values\<close>

text \<open>
  The chrono crates. A calendar text is read as the seconds from the epoch of its wall clock and the
  nanoseconds in its second, which are at least a billion in a leap second; a zone gives the seconds
  of the instant of a wall clock that is unique in it; and \<open>ch_range\<close> are the seconds that a
  calendar value can hold.
\<close>

record chrono =
  ch_datetime :: "string \<Rightarrow> (int \<times> nat) option"
  ch_date :: "string \<Rightarrow> int option"
  ch_zone :: "string \<Rightarrow> (int \<Rightarrow> int option) option"
  ch_range :: "int \<Rightarrow> bool"

definition two_digits :: "string \<Rightarrow> bool" where
  "two_digits part \<longleftrightarrow> length part = 2 \<and> list_all is_ascii_digit part"

text \<open>The offset from UTC in seconds; \<open>FixedOffset::east_opt\<close> takes less than a day.\<close>

definition offset :: "string \<Rightarrow> (temporal_error, int) result" where
  "offset t =
     (let sign = (if starts_with t ''-'' then - 1 else 1);
          parts = split_char (CHR '':'') (tl t)
      in if 3 < length parts \<or> \<not> list_all two_digits parts then Inl Bad_Offset
         else
           (let part = (\<lambda>i. if i < length parts then int (digits_value 0 (parts ! i)) else 0);
                hour = part 0; minute = part 1; second = part 2;
                shift = sign * (hour * 3600 + minute * 60 + second)
            in if 23 < hour \<or> 59 < minute \<or> 59 < second then Inl Bad_Offset
               else if - 86400 < shift \<and> shift < 86400 then Inr shift
               else Inl Bad_Offset))"

text \<open>The end of the clock: the first sign, \<open>Z\<close> or space from its eighth byte on.\<close>

definition zone_at :: "string \<Rightarrow> nat" where
  "zone_at rest =
     (case List.find (\<lambda>ix. rest ! ix \<in> set ''+-Z '' \<and> 8 \<le> ix) [0..<length rest] of
        Some ix \<Rightarrow> ix
      | None \<Rightarrow> length rest)"

definition fraction_of :: "string \<Rightarrow> string option" where
  "fraction_of clock = map_option snd (split_once (\<lambda>c. c = CHR ''.'') clock)"

definition loses_precision :: "timestamp_type \<Rightarrow> string \<Rightarrow> bool" where
  "loses_precision ty clock \<longleftrightarrow>
     (let digits = (case fraction_of clock of None \<Rightarrow> 0 | Some f \<Rightarrow> length f) in
      9 < digits
      \<or> ts_precision ty < digits
        \<and> (case fraction_of clock of
             None \<Rightarrow> False
           | Some f \<Rightarrow> list_ex (\<lambda>c. c \<noteq> CHR ''0'') (drop (ts_precision ty) f)))"

definition to_utc :: "chrono \<Rightarrow> timestamp_type \<Rightarrow> string \<Rightarrow> int \<Rightarrow> (temporal_error, int) result" where
  "to_utc ch ty zone seconds =
     (if ts_instant ty then
        (let z = trim zone in
         if z = ''Z'' \<or> z = ''UTC'' then Inr seconds
         else if z \<noteq> [] \<and> hd z \<in> set ''+-'' then
           and_then (offset z)
             (\<lambda>east. let s = seconds - east in if ch_range ch s then Inr s else Inl Bad_Offset)
         else
           (case ch_zone ch z of
              None \<Rightarrow> Inl Unknown_Zone
            | Some unique \<Rightarrow> ok_or Gap_Or_Overlap (unique seconds)))
      else if zone \<noteq> [] then Inl Unexpected_Zone
      else Inr seconds)"

definition i64_min :: int where "i64_min = - 9223372036854775808"
definition i64_max :: int where "i64_max = 9223372036854775807"

definition timestamp_parse :: "chrono \<Rightarrow> timestamp_type \<Rightarrow> string \<Rightarrow> (temporal_error, int) result" where
  "timestamp_parse ch ty t =
     (case split_once (\<lambda>c. c = CHR '' '' \<or> c = CHR ''T'') t of
        None \<Rightarrow> Inl Bad_Iso_Timestamp
      | Some (day, rest) \<Rightarrow>
          (let clock = take (zone_at rest) rest; zone = drop (zone_at rest) rest in
           if loses_precision ty clock then Inl Loses_Precision
           else
             (case ch_datetime ch (day @ '' '' @ clock) of
                None \<Rightarrow> Inl Bad_Iso_Timestamp
              | Some (seconds, nanos) \<Rightarrow>
                  if 1000000000 \<le> nanos then Inl Leap_Second
                  else
                    and_then (to_utc ch ty zone seconds)
                      (\<lambda>utc.
                         if ts_nanos ty then
                           (let v = utc * 1000000000 + int nanos in
                            if i64_min \<le> v \<and> v \<le> i64_max then Inr v else Inl Nanosecond_Range)
                         else Inr (utc * 1000000 + int (nanos div 1000))))))"

definition date :: "chrono \<Rightarrow> string \<Rightarrow> (temporal_error, int) result" where
  "date ch t =
     (case ch_date ch t of
        None \<Rightarrow> Inl Bad_Iso_Date
      | Some days \<Rightarrow> if - 2147483648 \<le> days \<and> days \<le> 2147483647 then Inr days else Inl Date_Range)"

section \<open>No digit is lost\<close>

text \<open>
  What is documented of \<open>%.f\<close>: the nanoseconds of a clock with a fraction of at most nine digits are
  that fraction, and none without one; leap seconds add a billion.
\<close>

definition fraction_nanos :: "string \<Rightarrow> nat" where
  "fraction_nanos clock =
     (case fraction_of clock of None \<Rightarrow> 0 | Some f \<Rightarrow> digits_value 0 f * 10 ^ (9 - length f))"

definition reads_fractions :: "chrono \<Rightarrow> bool" where
  "reads_fractions ch \<longleftrightarrow>
     (\<forall>day clock seconds nanos. ch_datetime ch (day @ '' '' @ clock) = Some (seconds, nanos) \<longrightarrow>
        nanos < 1000000000 \<longrightarrow> nanos = fraction_nanos clock)"

lemma digits_value_zeros_end:
  "list_all (\<lambda>c. c = CHR ''0'') zs \<Longrightarrow> digits_value a zs = a * 10 ^ length zs"
  by (induction zs arbitrary: a) (simp_all add: byte_def)

lemma fraction_multiple:
  assumes "\<not> loses_precision ty clock" "ts_precision ty \<le> 9"
  shows "10 ^ (9 - ts_precision ty) dvd fraction_nanos clock"
proof (cases "fraction_of clock")
  case (Some f)
  let ?p = "ts_precision ty"
  show ?thesis
  proof (cases "?p < length f")
    case True
    with assms(1) Some have z: "list_all (\<lambda>c. c = CHR ''0'') (drop ?p f)" and l: "length f \<le> 9"
      by (auto simp: loses_precision_def Let_def list_ex_iff list_all_iff)
    have "digits_value 0 f = digits_value 0 (take ?p f) * 10 ^ (length f - ?p)"
      using digits_value_append [of 0 "take ?p f" "drop ?p f"] digits_value_zeros_end [OF z] True by simp
    then have "fraction_nanos clock = digits_value 0 (take ?p f) * (10 ^ (length f - ?p) * 10 ^ (9 - length f))"
      by (simp add: fraction_nanos_def Some)
    also have "(10::nat) ^ (length f - ?p) * 10 ^ (9 - length f) = 10 ^ (9 - ?p)"
      using True l by (simp add: power_add [symmetric])
    finally show ?thesis by simp
  next
    case False
    then have "(10::nat) ^ (9 - ?p) dvd 10 ^ (9 - length f)" by (intro le_imp_power_dvd) simp
    then show ?thesis by (simp add: fraction_nanos_def Some)
  qed
qed (simp add: fraction_nanos_def)

lemma from_type_precision:
  "timestamp_from_type name = Inr (Some ty) \<Longrightarrow> ts_precision ty \<le> 9"
  by (auto simp: timestamp_from_type_def Let_def and_then_Inr_iff split: if_splits option.splits)

lemma timestamp_is_exact:
  assumes "timestamp_from_type name = Inr (Some ty)" "reads_fractions ch"
    and "timestamp_parse ch ty t = Inr v"
  shows "\<exists>day rest seconds utc.
      split_once (\<lambda>c. c = CHR '' '' \<or> c = CHR ''T'') t = Some (day, rest)
      \<and> ch_datetime ch (day @ '' '' @ take (zone_at rest) rest)
          = Some (seconds, fraction_nanos (take (zone_at rest) rest))
      \<and> to_utc ch ty (drop (zone_at rest) rest) seconds = Inr utc
      \<and> v * (if ts_nanos ty then 1 else 1000)
          = utc * 1000000000 + int (fraction_nanos (take (zone_at rest) rest))"
proof -
  from assms(3) obtain day rest seconds nanos utc where p:
    "split_once (\<lambda>c. c = CHR '' '' \<or> c = CHR ''T'') t = Some (day, rest)"
    "\<not> loses_precision ty (take (zone_at rest) rest)"
    "ch_datetime ch (day @ '' '' @ take (zone_at rest) rest) = Some (seconds, nanos)"
    "nanos < 1000000000" "to_utc ch ty (drop (zone_at rest) rest) seconds = Inr utc"
    "v = (if ts_nanos ty then utc * 1000000000 + int nanos else utc * 1000000 + int (nanos div 1000))"
    by (auto simp: timestamp_parse_def Let_def and_then_Inr_iff split: option.splits if_splits prod.splits)
  have n: "nanos = fraction_nanos (take (zone_at rest) rest)"
    using assms(2) p(3,4) by (auto simp: reads_fractions_def)
  have "v * (if ts_nanos ty then 1 else 1000) = utc * 1000000000 + int nanos"
  proof (cases "ts_nanos ty")
    case False
    have "(10::nat) ^ 3 dvd 10 ^ (9 - ts_precision ty)"
      using False by (intro le_imp_power_dvd) (simp add: ts_nanos_def)
    then have "(1000::nat) dvd nanos"
      using fraction_multiple [OF p(2) from_type_precision [OF assms(1)]] dvd_trans n by fastforce
    then have "int (nanos div 1000) * 1000 = int nanos" by (metis dvd_div_mult_self of_nat_mult of_nat_numeral)
    with p(6) False show ?thesis by (simp add: algebra_simps)
  qed (use p(6) in simp)
  with p n show ?thesis by blast
qed

end
