(* ===== verification/Spool.thy ===== *)
theory Spool
  imports Temporal Budget_Props
begin

text \<open>
  The spool of a download (\<open>src/export/spool.rs\<close>, with \<open>src/export/context.rs\<close>): a temporary file
  of length-prefixed records that one producer appends and any number of readers follow, and the
  commit record that both lock. The steps of the producer and of the readers interleave freely with
  each other and with \<open>cancel\<close> and \<open>fail\<close> of other threads.

  The wire format of a value is the postcard crate's and a parameter; the layout of a record, its
  limits and every check of the reader are the code's. A refused allocation, a failed write and
  the cancellation flag are arguments of the step they hit.
\<close>

section \<open>Result context\<close>

record postgres_context =
  pc_date_style :: string
  pc_interval_style :: string
  pc_time_zone :: string

type_synonym result_context = "postgres_context option"

definition iso_dates :: "result_context \<Rightarrow> bool" where
  "iso_dates c =
     (case c of None \<Rightarrow> True | Some p \<Rightarrow> trim (hd (split_char (CHR '','') (pc_date_style p))) = ''ISO'')"

definition context_bytes :: "result_context \<Rightarrow> nat" where
  "context_bytes c =
     (case c of
        None \<Rightarrow> 0
      | Some p \<Rightarrow> length (pc_date_style p) + length (pc_interval_style p) + length (pc_time_zone p))"

section \<open>Records\<close>

datatype spool_error =
    Stop_Cancelled | Bad_Column_Count | Large_Schema | Refused_Memory | Bad_Row | Row_Limit budget_error
  | Bad_Cell value_error | Large_Record | Large_Batch | Row_Overflow | Offset_Overflow
  | Already_Complete | Disk_Error | Bad_Version | Missing_End | Bad_Length | Bad_Count | Bad_Codec
  | Large_Cell | Bad_Null | Trailing_Data | Bad_End | Unknown_Record | Handoff_Refused
  | Not_Finished | Other_Error string

datatype 'f spool_logical =
    L_Null | L_Boolean bool | L_Integer int | L_Double 'f | L_Decimal | L_Text | L_Bytes string
  | L_Date int | L_Timestamp int bool bool | L_Nested

record 'f postcard =
  pt_u32 :: "nat \<Rightarrow> string"
  pt_u64 :: "nat \<Rightarrow> string"
  pt_cell :: "cell \<Rightarrow> 'f spool_logical \<Rightarrow> string"
  pt_header :: "column list \<Rightarrow> column_kind list \<Rightarrow> result_context \<Rightarrow> string"
  take_u32 :: "string \<Rightarrow> (nat \<times> string) option"
  take_u64 :: "string \<Rightarrow> (nat \<times> string) option"
  take_cell :: "string \<Rightarrow> ((cell \<times> 'f spool_logical) \<times> string) option"

text \<open>What a spool is made with: its columns and context, and the crates.\<close>

record 'f spool_env =
  se_columns :: "column list"
  se_context :: result_context
  se_parsers :: "'f parsers"
  se_chrono :: chrono
  se_postcard :: "'f postcard"
  se_fetched :: capacities
  se_decoded :: capacities

definition MAX_COLUMNS :: nat where "MAX_COLUMNS = 4096"
definition MAX_BATCH_ROWS :: nat where "MAX_BATCH_ROWS = 1000"
definition PRODUCER_MEMORY :: nat where "PRODUCER_MEMORY = 128 * MIB"
definition MAGIC :: string where
  "MAGIC = ''QROWSP'' @ [CHR 0x00, CHR 0x01]"

text \<open>\<open>u32::to_le_bytes\<close> and \<open>u32::from_le_bytes\<close>.\<close>

definition le_bytes :: "nat \<Rightarrow> string" where
  "le_bytes n =
     [char_of (n mod 256), char_of (n div 2 ^ 8 mod 256), char_of (n div 2 ^ 16 mod 256),
      char_of (n div 2 ^ 24 mod 256)]"

definition from_le_bytes :: "string \<Rightarrow> nat" where
  "from_le_bytes bs = foldr (\<lambda>b n. 256 * n + byte b) bs 0"

definition text_logical :: "'f spool_env \<Rightarrow> column \<Rightarrow> string \<Rightarrow> 'f spool_logical" where
  "text_logical se c t =
     (if iso_dates (se_context se) then
        if eq_ignore_ascii_case (cl_type c) ''date'' then
          (case date (se_chrono se) t of Inl _ \<Rightarrow> L_Text | Inr d \<Rightarrow> L_Date d)
        else
          (case timestamp_from_type (cl_type c) of
             Inr (Some ty) \<Rightarrow>
               (case timestamp_parse (se_chrono se) ty t of
                  Inr v \<Rightarrow> L_Timestamp v (ts_nanos ty) (ts_instant ty)
                | Inl _ \<Rightarrow> L_Text)
           | _ \<Rightarrow> L_Text)
      else L_Text)"

definition logical_of :: "'f spool_env \<Rightarrow> column \<Rightarrow> 'f logical \<Rightarrow> 'f spool_logical" where
  "logical_of se c v =
     (case v of
        V_Null \<Rightarrow> L_Null | V_Boolean b \<Rightarrow> L_Boolean b | V_Integer i \<Rightarrow> L_Integer i
      | V_Float f \<Rightarrow> L_Double f | V_Decimal _ \<Rightarrow> L_Decimal | V_Bytes b \<Rightarrow> L_Bytes b
      | V_Nested _ \<Rightarrow> L_Nested | V_Text t \<Rightarrow> text_logical se c t)"

definition encode_cell :: "'f spool_env \<Rightarrow> column \<times> cell \<Rightarrow> string option" where
  "encode_cell se cc =
     (case normalize (se_parsers se) (kind_of (cl_type (fst cc))) (snd cc) of
        Inl _ \<Rightarrow> None
      | Inr v \<Rightarrow> Some (pt_cell (se_postcard se) (snd cc) (logical_of se (fst cc) v)))"

text \<open>The elements of a sequence one after another; the first that fails fails the whole.\<close>

fun concat_opt :: "string option list \<Rightarrow> string option" where
  "concat_opt [] = Some []"
| "concat_opt (x # xs) = append_opt x (concat_opt xs)"

definition encode_row :: "'f spool_env \<Rightarrow> row \<Rightarrow> string option" where
  "encode_row se r =
     append_opt (Some (pt_u64 (se_postcard se) (length r)))
       (concat_opt (map (encode_cell se) (zip (se_columns se) r)))"

definition encode_batch :: "'f spool_env \<Rightarrow> row list \<Rightarrow> string option" where
  "encode_batch se rs =
     append_opt (Some (pt_u32 (se_postcard se) 0 @ pt_u64 (se_postcard se) (length rs)))
       (concat_opt (map (encode_row se) rs))"

definition end_record :: "'f spool_env \<Rightarrow> nat \<Rightarrow> string" where
  "end_record se rows = pt_u32 (se_postcard se) 1 @ pt_u64 (se_postcard se) rows"

definition spool_frame :: "string \<Rightarrow> string" where
  "spool_frame bytes = le_bytes (length bytes) @ bytes"

text \<open>\<open>count\<close>: a counting writer that refuses more than the limit of a record.\<close>

definition count_record :: "'f spool_env \<Rightarrow> row list \<Rightarrow> nat option" where
  "count_record se rs =
     (case encode_batch se rs of
        None \<Rightarrow> None
      | Some bytes \<Rightarrow> if length bytes \<le> MAX_RECORD_BYTES then Some (length bytes) else None)"

definition decoded_bytes :: "'f spool_env \<Rightarrow> nat \<Rightarrow> nat \<Rightarrow> nat" where
  "decoded_bytes se rows len =
     saturating_add
       (saturating_add
         (min usize_max (rows * (size_of_row + length (se_columns se) * size_of_cell)))
         (len + 1024))
       (context_bytes (se_context se))"

section \<open>The plan of an append\<close>

text \<open>
  The batches that \<open>append\<close> writes, in order, and the error it ends with. A batch that is too large
  is halved until each part fits; one row that does not fit is an error.
\<close>

type_synonym plan = "row list list \<times> spool_error option"

definition plan_then :: "plan \<Rightarrow> plan \<Rightarrow> plan" where
  "plan_then p q = (case snd p of Some e \<Rightarrow> p | None \<Rightarrow> (fst p @ fst q, snd q))"

function append_bounded :: "'f spool_env \<Rightarrow> row list \<Rightarrow> plan" where
  "append_bounded se rs =
     (let middle = length rs div 2;
          halves = (if 1 < length rs
                    then plan_then (append_bounded se (take middle rs)) (append_bounded se (drop middle rs))
                    else ([], None))
      in case count_record se rs of
           None \<Rightarrow> if 1 < length rs then halves else ([], Some Large_Record)
         | Some len \<Rightarrow>
             if MAX_RECORD_BYTES < decoded_bytes se (length rs) len then
               (if 1 < length rs then halves else ([], Some Large_Batch))
             else ([rs], None))"
  by pat_completeness auto
termination
  by (relation "measure (\<lambda>(se, rs). length rs)") auto

declare append_bounded.simps [simp del]

definition check_cell :: "'f spool_env \<Rightarrow> column \<times> cell \<Rightarrow> (spool_error, unit) result" where
  "check_cell se cc =
     (case normalize (se_parsers se) (kind_of (cl_type (fst cc))) (snd cc) of
        Inl e \<Rightarrow> Inl (Bad_Cell e)
      | Inr _ \<Rightarrow> Inr ())"

definition check_spool_row :: "'f spool_env \<Rightarrow> row \<Rightarrow> (spool_error, unit) result" where
  "check_spool_row se r =
     and_then (ensure (length r = length (se_columns se)) Bad_Row)
       (\<lambda>_. and_then
         (case row_bytes (se_fetched se) r of Inl e \<Rightarrow> Inl (Row_Limit e) | Inr _ \<Rightarrow> Inr ())
         (\<lambda>_. check_all (check_cell se) (zip (se_columns se) r)))"

text \<open>\<open>rows.chunks(n)\<close>.\<close>

function row_chunks :: "nat \<Rightarrow> 'a list \<Rightarrow> 'a list list" where
  "row_chunks n xs = (if xs = [] \<or> n = 0 then [] else take n xs # row_chunks n (drop n xs))"
  by pat_completeness auto
termination
  by (relation "measure (\<lambda>(n, xs). length xs)") auto

declare row_chunks.simps [simp del]

fun append_chunks :: "'f spool_env \<Rightarrow> row list list \<Rightarrow> plan" where
  "append_chunks se [] = ([], None)"
| "append_chunks se (c # cs) =
     (case check_all (check_spool_row se) c of
        Inl e \<Rightarrow> ([], Some e)
      | Inr _ \<Rightarrow> plan_then (append_bounded se c) (append_chunks se cs))"

definition append_rows :: "'f spool_env \<Rightarrow> row list \<Rightarrow> plan" where
  "append_rows se rs = append_chunks se (row_chunks MAX_BATCH_ROWS rs)"

section \<open>The file and its commit record\<close>

datatype spool_status = Downloading | Complete nat | Failed spool_error | Status_Cancelled

record spool_cursor =
  sc_offset :: nat
  sc_rows :: nat
  sc_ended :: bool

text \<open>
  \<open>sp_file\<close> is what a reader sees of the file, \<open>sp_offset\<close>, \<open>sp_rows\<close> and \<open>sp_status\<close> are the commit
  record, and the cursors are those of the readers. Of the producer there are its count of rows, the
  rest of the append that runs, and the record that is in the file and waits for its commit
  (\<open>None\<close> is the end record). The last three fields are the history of the run: the rows of all
  appends, the committed batches, and the batches each reader has returned.
\<close>

record spool_state =
  sp_file :: string
  sp_first :: nat
  sp_offset :: nat
  sp_rows :: nat
  sp_status :: spool_status
  sp_cursors :: "nat \<Rightarrow> spool_cursor option"
  sp_open :: bool
  sp_produced :: nat
  sp_plan :: "row list list"
  sp_after :: "spool_error option"
  sp_written :: "(row list option \<times> string) option"
  sp_appended :: "row list"
  sp_committed :: "row list list"
  sp_delivered :: "nat \<Rightarrow> row list list"

definition size_of_kind :: nat where "size_of_kind = 1"

definition schema_bytes :: "column list \<Rightarrow> nat option" where
  "schema_bytes columns =
     Option.bind (checked_mul (length columns) (size_of_column + size_of_kind))
       (\<lambda>bytes. checked_add bytes (sum_list (map (\<lambda>c. length (cl_name c) + length (cl_type c)) columns)))"

definition spool_header :: "'f spool_env \<Rightarrow> string" where
  "spool_header se =
     pt_header (se_postcard se) (se_columns se) (map (\<lambda>c. kind_of (cl_type c)) (se_columns se)) (se_context se)"

definition spool_start :: "'f spool_env \<Rightarrow> spool_state" where
  "spool_start se =
     (let first = 12 + length (spool_header se) in
      \<lparr>sp_file = MAGIC @ le_bytes (length (spool_header se)) @ spool_header se,
       sp_first = first, sp_offset = first, sp_rows = 0, sp_status = Downloading,
       sp_cursors = Map.empty, sp_open = True, sp_produced = 0, sp_plan = [],
       sp_after = None, sp_written = None, sp_appended = [], sp_committed = [],
       sp_delivered = (\<lambda>_. [])\<rparr>)"

definition spool_new :: "'f spool_env \<Rightarrow> (spool_error, spool_state) result" where
  "spool_new se =
     (if se_columns se = [] \<or> MAX_COLUMNS < length (se_columns se) then Inl Bad_Column_Count
      else
        (case schema_bytes (se_columns se) of
           None \<Rightarrow> Inl Large_Schema
         | Some bytes \<Rightarrow>
             if MAX_ROW_BYTES < bytes then Inl Large_Schema
             else if MAX_RECORD_BYTES < length (spool_header se) then Inl Bad_Codec
             else Inr (spool_start se)))"

definition spool_stop :: "spool_status \<Rightarrow> spool_state \<Rightarrow> spool_state" where
  "spool_stop st s = (if sp_status s = Downloading then s\<lparr>sp_status := st\<rparr> else s)"

definition ensure_downloading :: "spool_status \<Rightarrow> (spool_error, unit) result" where
  "ensure_downloading st =
     (case st of
        Downloading \<Rightarrow> Inr ()
      | Status_Cancelled \<Rightarrow> Inl Stop_Cancelled
      | Failed e \<Rightarrow> Inl e
      | Complete _ \<Rightarrow> Inl Already_Complete)"

section \<open>The producer\<close>

text \<open>\<open>late\<close> is the cancellation flag when the failure is recorded.\<close>

definition record_failure :: "spool_error \<Rightarrow> bool \<Rightarrow> spool_state \<Rightarrow> spool_state" where
  "record_failure e late s = spool_stop (if late then Status_Cancelled else Failed e) s"

definition append_fails :: "spool_error \<Rightarrow> bool \<Rightarrow> spool_state \<Rightarrow> spool_state" where
  "append_fails e late s = record_failure e late (s\<lparr>sp_plan := [], sp_after := None, sp_written := None\<rparr>)"

definition producer_idle :: "spool_state \<Rightarrow> bool" where
  "producer_idle s \<longleftrightarrow> sp_open s \<and> sp_plan s = [] \<and> sp_after s = None \<and> sp_written s = None"

definition append_begin :: "'f spool_env \<Rightarrow> row list \<Rightarrow> spool_state \<Rightarrow> spool_state" where
  "append_begin se rs s =
     (if producer_idle s then
        s\<lparr>sp_plan := fst (append_rows se rs), sp_after := snd (append_rows se rs),
          sp_appended := sp_appended s @ rs\<rparr>
      else s)"

text \<open>One batch up to the flush of the file, or the error that ends the append.\<close>

definition write_batch :: "'f spool_env \<Rightarrow> bool \<Rightarrow> bool \<Rightarrow> spool_state \<Rightarrow> spool_state" where
  "write_batch se cancelled late s =
     (if \<not> sp_open s \<or> sp_written s \<noteq> None then s
      else
        (case sp_plan s of
           [] \<Rightarrow> (case sp_after s of None \<Rightarrow> s | Some e \<Rightarrow> append_fails e late s)
         | b # bs \<Rightarrow>
             (case encode_batch se b of
                None \<Rightarrow> append_fails Bad_Codec late s
              | Some bytes \<Rightarrow>
                  (case checked_add (sp_produced s) (length b) of
                     None \<Rightarrow> append_fails Row_Overflow late s
                   | Some n \<Rightarrow>
                       (let s1 = s\<lparr>sp_produced := n\<rparr> in
                        if cancelled then append_fails Stop_Cancelled late s1
                        else
                          (case ensure_downloading (sp_status s) of
                             Inl e \<Rightarrow> append_fails e late s1
                           | Inr _ \<Rightarrow>
                               s1\<lparr>sp_file := sp_file s @ spool_frame bytes, sp_written := Some (Some b, bytes),
                                  sp_plan := bs\<rparr>))))))"

text \<open>The disk takes only a part of what the producer writes.\<close>

definition write_fails :: "string \<Rightarrow> bool \<Rightarrow> spool_state \<Rightarrow> spool_state" where
  "write_fails part late s =
     (if sp_open s \<and> sp_written s = None \<and> sp_plan s \<noteq> [] \<and> sp_status s = Downloading
      then append_fails Disk_Error late
             (s\<lparr>sp_file := sp_file s @ part, sp_produced := sp_produced s + length (hd (sp_plan s))\<rparr>)
      else s)"

definition commit_batch :: "bool \<Rightarrow> bool \<Rightarrow> spool_state \<Rightarrow> spool_state" where
  "commit_batch cancelled late s =
     (case sp_written s of
        Some (Some b, bytes) \<Rightarrow>
          if cancelled then append_fails Stop_Cancelled late s
          else
            (case ensure_downloading (sp_status s) of
               Inl e \<Rightarrow> append_fails e late s
             | Inr _ \<Rightarrow>
                 (case checked_add (sp_offset s) (4 + length bytes) of
                    None \<Rightarrow> append_fails Offset_Overflow late s
                  | Some end_at \<Rightarrow>
                      s\<lparr>sp_offset := end_at, sp_rows := sp_produced s, sp_written := None,
                        sp_committed := sp_committed s @ [b]\<rparr>))
      | _ \<Rightarrow> s)"

definition drop_producer :: "spool_state \<Rightarrow> spool_state" where
  "drop_producer s = spool_stop (Failed Not_Finished) (s\<lparr>sp_open := False\<rparr>)"

definition finish_fails :: "spool_error \<Rightarrow> bool \<Rightarrow> spool_state \<Rightarrow> spool_state" where
  "finish_fails e late s = drop_producer (record_failure e late (s\<lparr>sp_written := None\<rparr>))"

text \<open>\<open>finish_with\<close> up to the flush; the buffer of the end record has sixteen bytes.\<close>

definition write_end_record :: "'f spool_env \<Rightarrow> bool \<Rightarrow> bool \<Rightarrow> spool_state \<Rightarrow> spool_state" where
  "write_end_record se cancelled late s =
     (if \<not> producer_idle s then s
      else if 16 < length (end_record se (sp_produced s)) then drop_producer s
      else if cancelled then finish_fails Stop_Cancelled late s
      else
        (case ensure_downloading (sp_status s) of
           Inl e \<Rightarrow> finish_fails e late s
         | Inr _ \<Rightarrow>
             s\<lparr>sp_file := sp_file s @ spool_frame (end_record se (sp_produced s)),
               sp_written := Some (None, end_record se (sp_produced s))\<rparr>))"

definition write_end_fails :: "string \<Rightarrow> bool \<Rightarrow> spool_state \<Rightarrow> spool_state" where
  "write_end_fails part late s =
     (if producer_idle s \<and> sp_status s = Downloading
      then finish_fails Disk_Error late (s\<lparr>sp_file := sp_file s @ part\<rparr>) else s)"

text \<open>The commit of the end record; \<open>before_commit\<close> may refuse the hand-off.\<close>

definition commit_end :: "bool \<Rightarrow> bool \<Rightarrow> bool \<Rightarrow> spool_state \<Rightarrow> spool_state" where
  "commit_end cancelled late accepted s =
     (case sp_written s of
        Some (None, bytes) \<Rightarrow>
          if cancelled then finish_fails Stop_Cancelled late s
          else
            (case ensure_downloading (sp_status s) of
               Inl e \<Rightarrow> finish_fails e late s
             | Inr _ \<Rightarrow>
                 (case checked_add (sp_offset s) (4 + length bytes) of
                    None \<Rightarrow> finish_fails Offset_Overflow late s
                  | Some end_at \<Rightarrow>
                      if \<not> accepted then finish_fails Handoff_Refused late s
                      else
                        drop_producer
                          (s\<lparr>sp_offset := end_at, sp_rows := sp_produced s,
                             sp_status := Complete (sp_produced s), sp_written := None\<rparr>)))
      | _ \<Rightarrow> s)"

section \<open>The readers\<close>

fun decode_cells :: "'f postcard \<Rightarrow> nat \<Rightarrow> string \<Rightarrow> (spool_error, row \<times> string) result" where
  "decode_cells pt 0 rest = Inr ([], rest)"
| "decode_cells pt (Suc n) rest =
     (case take_cell pt rest of
        None \<Rightarrow> Inl Bad_Codec
      | Some ((raw, logical), rest) \<Rightarrow>
          if (case raw of None \<Rightarrow> False | Some t \<Rightarrow> MAX_CELL_BYTES < length t) then Inl Large_Cell
          else if (logical = L_Null) \<noteq> (raw = None) then Inl Bad_Null
          else and_then (decode_cells pt n rest) (\<lambda>(r, rest). Inr (raw # r, rest)))"

fun decode_rows :: "'f spool_env \<Rightarrow> nat \<Rightarrow> string \<Rightarrow> (spool_error, row list \<times> string) result" where
  "decode_rows se 0 rest = Inr ([], rest)"
| "decode_rows se (Suc n) rest =
     (case take_u64 (se_postcard se) rest of
        None \<Rightarrow> Inl Bad_Codec
      | Some (columns, rest) \<Rightarrow>
          if columns \<noteq> length (se_columns se) then Inl Bad_Row
          else
            and_then (decode_cells (se_postcard se) columns rest)
              (\<lambda>(r, rest).
                 and_then (case row_bytes (se_decoded se) r of Inl e \<Rightarrow> Inl (Row_Limit e) | Inr _ \<Rightarrow> Inr ())
                   (\<lambda>_. and_then (decode_rows se n rest) (\<lambda>(rs, rest). Inr (r # rs, rest)))))"

definition batch_allocation :: "'f spool_env \<Rightarrow> nat \<Rightarrow> nat \<Rightarrow> nat option" where
  "batch_allocation se count len =
     Option.bind (checked_mul count (size_of_row + length (se_columns se) * size_of_cell))
       (\<lambda>bytes. checked_add bytes (len + 1024 + context_bytes (se_context se)))"

definition read_batch ::
  "'f spool_env \<Rightarrow> nat \<Rightarrow> string \<Rightarrow> (spool_error, row list) result" where
  "read_batch se len bytes =
     (case take_u64 (se_postcard se) bytes of
        None \<Rightarrow> Inl Bad_Codec
      | Some (count, rest) \<Rightarrow>
          if count = 0 \<or> MAX_BATCH_ROWS < count then Inl Bad_Count
          else
            (case batch_allocation se count len of
               None \<Rightarrow> Inl Large_Batch
             | Some bytes \<Rightarrow>
                 if MAX_RECORD_BYTES < bytes then Inl Large_Batch
                 else
                   and_then (decode_rows se count rest)
                     (\<lambda>(rs, rest). if rest \<noteq> [] then Inl Trailing_Data else Inr rs)))"

definition reader_record ::
  "'f spool_env \<Rightarrow> bool \<Rightarrow> spool_state \<Rightarrow> spool_cursor \<Rightarrow> (spool_error, row list option) result \<times> spool_cursor" where
  "reader_record se granted s cur =
     (let len = from_le_bytes (take 4 (drop (sc_offset cur) (sp_file s)));
          bytes = take len (drop (sc_offset cur + 4) (sp_file s))
      in if len = 0 \<or> MAX_RECORD_BYTES < len \<or> sp_offset s < sc_offset cur + (4 + len)
         then (Inl Bad_Length, cur)
         else if \<not> granted then (Inl Refused_Memory, cur)
         else
           (case take_u32 (se_postcard se) bytes of
              None \<Rightarrow> (Inl Bad_Codec, cur)
            | Some (tag, rest) \<Rightarrow>
                if tag = 0 then
                  (case read_batch se len rest of
                     Inl e \<Rightarrow> (Inl e, cur)
                   | Inr rs \<Rightarrow>
                       (case checked_add (sc_rows cur) (length rs) of
                          None \<Rightarrow> (Inl Row_Overflow, cur)
                        | Some n \<Rightarrow>
                            (Inr (Some rs), cur\<lparr>sc_rows := n, sc_offset := sc_offset cur + (4 + len)\<rparr>)))
                else if tag = 1 then
                  (case take_u64 (se_postcard se) rest of
                     None \<Rightarrow> (Inl Bad_Codec, cur)
                   | Some (rows, rest) \<Rightarrow>
                       if rest \<noteq> [] \<or> rows \<noteq> sc_rows cur \<or> sp_status s \<noteq> Complete rows
                          \<or> sc_offset cur + 4 + len \<noteq> sp_offset s
                       then (Inl Bad_End, cur)
                       else (Inr None, cur\<lparr>sc_ended := True\<rparr>))
                else (Inl Unknown_Record, cur)))"

text \<open>
  \<open>Reader::next\<close>. The answer \<open>None\<close> is the timed wait for the producer. The bytes below the
  committed offset never change, so it does not matter when they are read.
\<close>

definition reader_next ::
  "'f spool_env \<Rightarrow> bool \<Rightarrow> bool \<Rightarrow> spool_state \<Rightarrow> spool_cursor
     \<Rightarrow> (spool_error, row list option) result option \<times> spool_cursor" where
  "reader_next se cancelled granted s cur =
     (if sc_ended cur then (Some (Inr None), cur)
      else if cancelled then (Some (Inl Stop_Cancelled), cur)
      else
        (case sp_status s of
           Failed e \<Rightarrow> (Some (Inl e), cur)
         | Status_Cancelled \<Rightarrow> (Some (Inl Stop_Cancelled), cur)
         | st \<Rightarrow>
             if sc_offset cur < sp_offset s then
               (case reader_record se granted s cur of (a, cur) \<Rightarrow> (Some a, cur))
             else if st \<noteq> Downloading then (Some (Inl Missing_End), cur)
             else (None, cur)))"

definition reader_open :: "nat \<Rightarrow> spool_state \<Rightarrow> spool_state" where
  "reader_open i s =
     (if sp_cursors s i = None \<and> take 8 (sp_file s) = MAGIC then
        s\<lparr>sp_cursors := (sp_cursors s)(i \<mapsto> \<lparr>sc_offset = sp_first s, sc_rows = 0, sc_ended = False\<rparr>)\<rparr>
      else s)"

definition reader_step :: "'f spool_env \<Rightarrow> nat \<Rightarrow> bool \<Rightarrow> bool \<Rightarrow> spool_state \<Rightarrow> spool_state" where
  "reader_step se i cancelled granted s =
     (case sp_cursors s i of
        None \<Rightarrow> s
      | Some cur \<Rightarrow>
          (case reader_next se cancelled granted s cur of
             (answer, cur) \<Rightarrow>
               s\<lparr>sp_cursors := (sp_cursors s)(i \<mapsto> cur),
                 sp_delivered :=
                   (case answer of
                      Some (Inr (Some rs)) \<Rightarrow> (sp_delivered s)(i := sp_delivered s i @ [rs])
                    | _ \<Rightarrow> sp_delivered s)\<rparr>))"

section \<open>Interleavings\<close>

datatype spool_op =
    Append "row list" | Write_Batch bool bool | Write_Fails string bool | Commit_Batch bool bool
  | Write_End bool bool | Write_End_Fails string bool | Commit_End bool bool bool | Drop_Producer
  | Spool_Cancel | Spool_Fail spool_error
  | Open_Reader nat | Read_Next nat bool bool

definition spool_step :: "'f spool_env \<Rightarrow> spool_op \<Rightarrow> spool_state \<Rightarrow> spool_state" where
  "spool_step se op s =
     (case op of
        Append rs \<Rightarrow> append_begin se rs s
      | Write_Batch c l \<Rightarrow> write_batch se c l s
      | Write_Fails p l \<Rightarrow> write_fails p l s
      | Commit_Batch c l \<Rightarrow> commit_batch c l s
      | Write_End c l \<Rightarrow> write_end_record se c l s
      | Write_End_Fails p l \<Rightarrow> write_end_fails p l s
      | Commit_End c l a \<Rightarrow> commit_end c l a s
      | Drop_Producer \<Rightarrow> if producer_idle s then drop_producer s else s
      | Spool_Cancel \<Rightarrow> spool_stop Status_Cancelled s
      | Spool_Fail e \<Rightarrow> spool_stop (Failed e) s
      | Open_Reader i \<Rightarrow> reader_open i s
      | Read_Next i c g \<Rightarrow> reader_step se i c g s)"

section \<open>What a reader decodes\<close>

text \<open>
  What is documented of the crate: a value is read back from its encoding, whatever follows it. The
  buffers of decoded values are no larger than their contents, and a fetched buffer holds its contents.
\<close>

definition postcard_ok :: "'f postcard \<Rightarrow> bool" where
  "postcard_ok pt \<longleftrightarrow>
     (\<forall>n rest. n < 2 ^ 32 \<longrightarrow> take_u32 pt (pt_u32 pt n @ rest) = Some (n, rest))
     \<and> (\<forall>n rest. n \<le> usize_max \<longrightarrow> take_u64 pt (pt_u64 pt n @ rest) = Some (n, rest))
     \<and> (\<forall>c l rest. take_cell pt (pt_cell pt c l @ rest) = Some ((c, l), rest))"

definition tight_buffers :: "'f spool_env \<Rightarrow> bool" where
  "tight_buffers se \<longleftrightarrow>
     (\<forall>r. cap_cells (se_decoded se) r = length r \<and> length r \<le> cap_cells (se_fetched se) r)
     \<and> (\<forall>t. cap_text (se_decoded se) t = length t \<and> length t \<le> cap_text (se_fetched se) t)"

lemma row_bytes_decoded:
  assumes "tight_buffers se" "row_bytes (se_fetched se) r = Inr n"
  shows "\<exists>m. row_bytes (se_decoded se) r = Inr m" "list_all (\<lambda>t. length t \<le> MAX_CELL_BYTES) (texts r)"
proof -
  have limits: "MAX_ROW_BYTES = 16777216" "usize_max = 18446744073709551615"
    by (simp_all add: MAX_ROW_BYTES_def MIB_def usize_max_def)
  let ?f = "se_fetched se" and ?d = "se_decoded se"
  from assms(2) obtain k where k: "cap_cells ?f r * 24 \<le> usize_max"
    "add_texts (cap_text ?f) (cap_cells ?f r * 24) (texts r) = Inr k" "k \<le> MAX_ROW_BYTES"
    by (auto simp: row_bytes_def checked_mul_def size_of_cell_def and_then_Inr_iff row_limit_def
        split: option.splits if_splits)
  from add_texts_sound [OF k(2)]
  have s: "list_all (\<lambda>t. length t \<le> MAX_CELL_BYTES) (texts r)"
    "k = cap_cells ?f r * 24 + sum_list (map (cap_text ?f) (texts r))" by auto
  then show "list_all (\<lambda>t. length t \<le> MAX_CELL_BYTES) (texts r)" by blast
  have cells: "cap_cells ?d r \<le> cap_cells ?f r" using assms(1) by (simp add: tight_buffers_def)
  have texts: "sum_list (map (cap_text ?d) (texts r)) \<le> sum_list (map (cap_text ?f) (texts r))"
    using assms(1) by (intro sum_list_mono) (simp add: tight_buffers_def)
  have small: "cap_cells ?d r * 24 + sum_list (map (cap_text ?d) (texts r)) \<le> MAX_ROW_BYTES"
    using cells texts s(2) k(3) by linarith
  then have "add_texts (cap_text ?d) (cap_cells ?d r * 24) (texts r)
      = Inr (cap_cells ?d r * 24 + sum_list (map (cap_text ?d) (texts r)))"
    by (intro add_texts_complete [OF _ s(1)]) (simp add: limits)
  with small show "\<exists>m. row_bytes ?d r = Inr m"
    by (auto simp: row_bytes_def checked_mul_def size_of_cell_def row_limit_def limits)
qed

lemma text_logical_not_null [simp]: "text_logical se c t \<noteq> L_Null"
  by (simp add: text_logical_def split: sum.split option.split)

lemma logical_null:
  "normalize ps k c = Inr v \<Longrightarrow> (logical_of se col v = L_Null) = (c = None)"
  by (cases c; cases k) (auto simp: normalize_def logical_of_def and_then_Inr_iff split: option.splits)

lemma encode_cell_Some:
  "encode_cell se (col, c) = Some b \<Longrightarrow>
     \<exists>v. normalize (se_parsers se) (kind_of (cl_type col)) c = Inr v
       \<and> b = pt_cell (se_postcard se) c (logical_of se col v)"
  by (auto simp: encode_cell_def split: sum.splits)

lemma encode_row_Some:
  "encode_row se r = Some b \<Longrightarrow>
     \<exists>cells. concat_opt (map (encode_cell se) (zip (se_columns se) r)) = Some cells
       \<and> b = pt_u64 (se_postcard se) (length r) @ cells"
  by (auto simp: encode_row_def append_opt_Some_iff)

lemma decode_cells_encoded:
  assumes "postcard_ok (se_postcard se)"
  shows "length cs = length r \<Longrightarrow> list_all (\<lambda>t. length t \<le> MAX_CELL_BYTES) (texts r) \<Longrightarrow>
     concat_opt (map (encode_cell se) (zip cs r)) = Some bytes \<Longrightarrow>
     decode_cells (se_postcard se) (length r) (bytes @ rest) = Inr (r, rest)"
proof (induction r arbitrary: cs bytes)
  case (Cons c r)
  then obtain col cs' where cs: "cs = col # cs'" by (cases cs) auto
  from Cons.prems(3) obtain v b bs where v: "normalize (se_parsers se) (kind_of (cl_type col)) c = Inr v"
    and b: "b = pt_cell (se_postcard se) c (logical_of se col v)"
    and bs: "concat_opt (map (encode_cell se) (zip cs' r)) = Some bs" "bytes = b @ bs"
    by (auto simp: cs append_opt_Some_iff dest!: encode_cell_Some)
  have take: "take_cell (se_postcard se) (bytes @ rest) = Some ((c, logical_of se col v), bs @ rest)"
    using assms by (simp add: postcard_ok_def b bs(2))
  have small: "case c of None \<Rightarrow> True | Some t \<Rightarrow> length t \<le> MAX_CELL_BYTES"
    "list_all (\<lambda>t. length t \<le> MAX_CELL_BYTES) (texts r)"
    using Cons.prems(2) by (cases c; simp)+
  from Cons.IH [OF _ small(2) bs(1)] Cons.prems(1) small(1) logical_null [OF v] take
  show ?case by (auto simp: cs split: option.splits)
qed simp

definition row_valid :: "'f spool_env \<Rightarrow> row \<Rightarrow> bool" where
  "row_valid se r \<longleftrightarrow> check_spool_row se r = Inr ()"

lemma row_validD:
  assumes "row_valid se r"
  shows "length r = length (se_columns se)" "\<exists>n. row_bytes (se_fetched se) r = Inr n"
  using assms by (auto simp: row_valid_def check_spool_row_def and_then_Inr_iff split: sum.splits)

lemma decode_rows_encoded:
  assumes "postcard_ok (se_postcard se)" "tight_buffers se" "length (se_columns se) \<le> usize_max"
  shows "list_all (row_valid se) rs \<Longrightarrow> concat_opt (map (encode_row se) rs) = Some bytes \<Longrightarrow>
     decode_rows se (length rs) (bytes @ rest) = Inr (rs, rest)"
proof (induction rs arbitrary: bytes)
  case (Cons r rs)
  note r = row_validD [of se r]
  from Cons.prems(2) obtain cells bs where p:
    "concat_opt (map (encode_cell se) (zip (se_columns se) r)) = Some cells"
    "concat_opt (map (encode_row se) rs) = Some bs"
    "bytes = pt_u64 (se_postcard se) (length r) @ cells @ bs"
    by (auto simp: append_opt_Some_iff dest!: encode_row_Some)
  from r Cons.prems(1) obtain n where n: "length r = length (se_columns se)" "row_bytes (se_fetched se) r = Inr n"
    by auto
  from row_bytes_decoded [OF assms(2) n(2)] obtain m where
    m: "row_bytes (se_decoded se) r = Inr m" "list_all (\<lambda>t. length t \<le> MAX_CELL_BYTES) (texts r)" by blast
  have take: "take_u64 (se_postcard se) (bytes @ rest) = Some (length r, cells @ bs @ rest)"
    using assms(1,3) n(1) by (simp add: postcard_ok_def p(3))
  have cells: "decode_cells (se_postcard se) (length (se_columns se)) (cells @ bs @ rest) = Inr (r, bs @ rest)"
    using decode_cells_encoded [OF assms(1) _ m(2) p(1), of "bs @ rest"] n(1) by simp
  from Cons.IH [OF _ p(2)] Cons.prems(1) take cells m(1) n(1) show ?case by simp
qed simp

definition batch_ok :: "'f spool_env \<Rightarrow> row list \<Rightarrow> bool" where
  "batch_ok se b \<longleftrightarrow>
     b \<noteq> [] \<and> length b \<le> MAX_BATCH_ROWS \<and> list_all (row_valid se) b
     \<and> (\<exists>bytes. encode_batch se b = Some bytes \<and> length bytes \<le> MAX_RECORD_BYTES
          \<and> decoded_bytes se (length b) (length bytes) \<le> MAX_RECORD_BYTES)"

abbreviation batch_record :: "'f spool_env \<Rightarrow> row list \<Rightarrow> string" where
  "batch_record se b \<equiv> the (encode_batch se b)"

lemma read_batch_encoded:
  assumes "postcard_ok (se_postcard se)" "tight_buffers se" "length (se_columns se) \<le> usize_max"
    and "batch_ok se b"
  shows "\<exists>rest. take_u32 (se_postcard se) (batch_record se b) = Some (0, rest)
    \<and> read_batch se (length (batch_record se b)) rest = Inr b"
proof -
  have limits: "MAX_RECORD_BYTES = 33554432" "usize_max = 18446744073709551615" "MAX_BATCH_ROWS = 1000"
    by (simp_all add: MAX_RECORD_BYTES_def MIB_def usize_max_def MAX_BATCH_ROWS_def)
  from assms(4) obtain bytes where b: "encode_batch se b = Some bytes" "b \<noteq> []" "length b \<le> 1000"
    "list_all (row_valid se) b" "decoded_bytes se (length b) (length bytes) \<le> MAX_RECORD_BYTES"
    by (auto simp: batch_ok_def limits)
  from b(1) obtain rs where rs: "concat_opt (map (encode_row se) b) = Some rs"
    "bytes = pt_u32 (se_postcard se) 0 @ pt_u64 (se_postcard se) (length b) @ rs"
    by (auto simp: encode_batch_def append_opt_Some_iff)
  let ?cost = "length b * (size_of_row + length (se_columns se) * size_of_cell)"
  have fits: "?cost + (length bytes + 1024 + context_bytes (se_context se)) \<le> MAX_RECORD_BYTES"
    using b(5) by (auto simp: decoded_bytes_def saturating_add_def limits split: if_splits simp: min_def)
  then have alloc: "batch_allocation se (length b) (length bytes)
      = Some (?cost + (length bytes + 1024 + context_bytes (se_context se)))"
    by (simp add: batch_allocation_def checked_mul_def checked_add_def limits)
  have "take_u32 (se_postcard se) bytes = Some (0, pt_u64 (se_postcard se) (length b) @ rs)"
    using assms(1) by (simp add: postcard_ok_def rs(2))
  moreover have "read_batch se (length bytes) (pt_u64 (se_postcard se) (length b) @ rs) = Inr b"
    using assms(1) b(2,3) alloc fits decode_rows_encoded [OF assms(1-3) b(4) rs(1), of "[]"]
    by (simp add: read_batch_def postcard_ok_def limits)
  ultimately show ?thesis using b(1) by simp
qed

section \<open>What an append writes\<close>

lemma check_all_Inr: "check_all f xs = Inr () \<longleftrightarrow> (\<forall>x \<in> set xs. f x = Inr ())"
  by (induction xs) (auto simp: and_then_Inr_iff)

definition plan_ok :: "'f spool_env \<Rightarrow> row list \<Rightarrow> plan \<Rightarrow> bool" where
  "plan_ok se rs p \<longleftrightarrow>
     list_all (batch_ok se) (fst p) \<and> prefix (concat (fst p)) rs
     \<and> (snd p = None \<longrightarrow> concat (fst p) = rs)"

lemma plan_ok_then:
  assumes "plan_ok se xs p" "plan_ok se ys q"
  shows "plan_ok se (xs @ ys) (plan_then p q)"
proof (cases "snd p")
  case None
  with assms show ?thesis by (auto simp: plan_ok_def plan_then_def)
next
  case (Some e)
  with assms show ?thesis by (auto simp: plan_ok_def plan_then_def intro: prefix_prefix)
qed

lemma append_bounded_ok:
  "rs \<noteq> [] \<Longrightarrow> length rs \<le> MAX_BATCH_ROWS \<Longrightarrow> list_all (row_valid se) rs \<Longrightarrow>
     plan_ok se rs (append_bounded se rs)"
proof (induction se rs rule: append_bounded.induct)
  case (1 se rs)
  let ?m = "length rs div 2"
  have halves: "plan_ok se rs (plan_then (append_bounded se (take ?m rs)) (append_bounded se (drop ?m rs)))"
    if "1 < length rs"
  proof -
    have "plan_ok se (take ?m rs) (append_bounded se (take ?m rs))"
      using that "1.prems" by (intro "1.IH"(1)) (auto simp: list_all_iff dest: in_set_takeD)
    moreover have "plan_ok se (drop ?m rs) (append_bounded se (drop ?m rs))"
      using that "1.prems" by (intro "1.IH"(2)) (auto simp: list_all_iff dest: in_set_dropD)
    ultimately show ?thesis using plan_ok_then by fastforce
  qed
  have one: "plan_ok se rs ([rs], None)"
    if "count_record se rs = Some len" "\<not> MAX_RECORD_BYTES < decoded_bytes se (length rs) len" for len
    using that "1.prems"
    by (auto simp: plan_ok_def batch_ok_def count_record_def split: option.splits if_splits)
  have none: "plan_ok se rs ([], Some e)" for e by (simp add: plan_ok_def)
  show ?case
    using halves one none
    by (subst append_bounded.simps) (auto simp: Let_def split: option.splits)
qed

lemma row_chunks_concat: "0 < n \<Longrightarrow> concat (row_chunks n xs) = xs"
proof (induction n xs rule: row_chunks.induct)
  case (1 n xs)
  then show ?case by (subst row_chunks.simps) auto
qed

lemma row_chunks_bounds: "c \<in> set (row_chunks n xs) \<Longrightarrow> c \<noteq> [] \<and> length c \<le> n"
proof (induction n xs rule: row_chunks.induct)
  case (1 n xs)
  show ?case
  proof (cases "xs = [] \<or> n = 0")
    case True
    with "1.prems" show ?thesis by (subst (asm) row_chunks.simps) auto
  next
    case False
    with "1.prems" have "c = take n xs \<or> c \<in> set (row_chunks n (drop n xs))"
      by (subst (asm) row_chunks.simps) auto
    with 1 False show ?thesis by auto
  qed
qed

lemma append_chunks_ok:
  "(\<And>c. c \<in> set cs \<Longrightarrow> c \<noteq> [] \<and> length c \<le> MAX_BATCH_ROWS) \<Longrightarrow>
     plan_ok se (concat cs) (append_chunks se cs)"
proof (induction cs)
  case (Cons c cs)
  show ?case
  proof (cases "check_all (check_spool_row se) c")
    case (Inl e)
    then show ?thesis by (simp add: plan_ok_def)
  next
    case (Inr u)
    then have "list_all (row_valid se) c"
      by (cases u) (simp add: check_all_Inr list_all_iff row_valid_def)
    moreover have "c \<noteq> []" "length c \<le> MAX_BATCH_ROWS" using Cons.prems [of c] by auto
    moreover have "plan_ok se (concat cs) (append_chunks se cs)" using Cons by simp
    ultimately show ?thesis
      using Inr plan_ok_then [OF append_bounded_ok, of c se "concat cs" "append_chunks se cs"] by simp
  qed
qed (simp add: plan_ok_def)

lemma append_rows_ok: "plan_ok se rs (append_rows se rs)"
  using append_chunks_ok [of "row_chunks MAX_BATCH_ROWS rs" se] row_chunks_bounds [of _ MAX_BATCH_ROWS rs]
    row_chunks_concat [of MAX_BATCH_ROWS rs]
  by (simp add: append_rows_def MAX_BATCH_ROWS_def)

section \<open>The file is its committed records\<close>

lemma length_le_bytes [simp]: "length (le_bytes n) = 4"
  by (simp add: le_bytes_def)

lemma length_frame [simp]: "length (spool_frame bytes) = 4 + length bytes"
  by (simp add: spool_frame_def)

lemma from_le_bytes_le_bytes:
  assumes "n < 2 ^ 32"
  shows "from_le_bytes (le_bytes n) = n"
proof -
  have b: "byte (char_of k) = k mod 256" for k by (simp add: byte_def)
  have parts: "n = 256 * (n div 256) + n mod 256"
    "n div 256 = 256 * (n div 65536) + n div 256 mod 256"
    "n div 65536 = 256 * (n div 16777216) + n div 65536 mod 256"
    using mult_div_mod_eq [of 256 "n div 256"] mult_div_mod_eq [of 256 "n div 65536"]
    by (simp_all add: div_mult2_eq [symmetric])
  have "n div 16777216 < 256" using assms by simp
  then have "from_le_bytes (le_bytes n)
      = n mod 256 + 256 * (n div 256 mod 256) + 65536 * (n div 65536 mod 256) + 16777216 * (n div 16777216)"
    unfolding le_bytes_def from_le_bytes_def by (simp add: b)
  with parts show ?thesis by linarith
qed

definition file_start :: "'f spool_env \<Rightarrow> string" where
  "file_start se = MAGIC @ le_bytes (length (spool_header se)) @ spool_header se"

definition status_record :: "'f spool_env \<Rightarrow> spool_status \<Rightarrow> string" where
  "status_record se st = (case st of Complete n \<Rightarrow> spool_frame (end_record se n) | _ \<Rightarrow> [])"

definition batch_frames :: "'f spool_env \<Rightarrow> row list list \<Rightarrow> string" where
  "batch_frames se bs = concat (map (\<lambda>b. spool_frame (batch_record se b)) bs)"

lemma batch_frames_simps [simp]:
  "batch_frames se [] = []"
  "batch_frames se (bs @ cs) = batch_frames se bs @ batch_frames se cs"
  "batch_frames se (b # bs) = spool_frame (batch_record se b) @ batch_frames se bs"
  by (simp_all add: batch_frames_def)

definition committed_file :: "'f spool_env \<Rightarrow> spool_state \<Rightarrow> string" where
  "committed_file se s = file_start se @ batch_frames se (sp_committed s) @ status_record se (sp_status s)"

definition cursor_ok :: "'f spool_env \<Rightarrow> spool_state \<Rightarrow> nat \<Rightarrow> spool_cursor \<Rightarrow> bool" where
  "cursor_ok se s i cur \<longleftrightarrow>
     (\<exists>rest. sp_committed s = sp_delivered s i @ rest \<and> (sc_ended cur \<longrightarrow> rest = [] \<and> (\<exists>n. sp_status s = Complete n)))
     \<and> sc_rows cur = length (concat (sp_delivered s i))
     \<and> sc_offset cur = length (file_start se) + length (batch_frames se (sp_delivered s i))"

text \<open>What holds whether or not the producer still runs, and what holds while it does.\<close>

definition base_ok :: "'f spool_env \<Rightarrow> spool_state \<Rightarrow> bool" where
  "base_ok se s \<longleftrightarrow>
     prefix (committed_file se s) (sp_file s) \<and> sp_offset s = length (committed_file se s)
     \<and> sp_first s = length (file_start se)
     \<and> list_all (batch_ok se) (sp_committed s)
     \<and> sp_rows s = length (concat (sp_committed s)) \<and> sp_rows s \<le> usize_max
     \<and> (\<forall>n. sp_status s = Complete n \<longrightarrow> n = sp_rows s \<and> concat (sp_committed s) = sp_appended s \<and> \<not> sp_open s
          \<and> length (end_record se n) \<le> 16)
     \<and> prefix (concat (sp_committed s)) (sp_appended s)
     \<and> (\<forall>i. sp_cursors s i = None \<longrightarrow> sp_delivered s i = [])
     \<and> (\<forall>i cur. sp_cursors s i = Some cur \<longrightarrow> cursor_ok se s i cur)"

definition written_rows :: "spool_state \<Rightarrow> row list" where
  "written_rows s = (case sp_written s of Some (Some b, _) \<Rightarrow> b | _ \<Rightarrow> [])"

definition spool_live_ok :: "'f spool_env \<Rightarrow> spool_state \<Rightarrow> bool" where
  "spool_live_ok se s \<longleftrightarrow>
     sp_open s
     \<and> sp_file s = committed_file se s @ (case sp_written s of None \<Rightarrow> [] | Some (_, bytes) \<Rightarrow> spool_frame bytes)
     \<and> sp_produced s = sp_rows s + length (written_rows s) \<and> sp_produced s \<le> usize_max
     \<and> (\<forall>b bytes. sp_written s = Some (Some b, bytes) \<longrightarrow> batch_ok se b \<and> bytes = batch_record se b)
     \<and> (\<forall>bytes. sp_written s = Some (None, bytes) \<longrightarrow>
          bytes = end_record se (sp_produced s) \<and> length bytes \<le> 16 \<and> sp_plan s = [] \<and> sp_after s = None)
     \<and> list_all (batch_ok se) (sp_plan s)
     \<and> prefix (concat (sp_committed s) @ written_rows s @ concat (sp_plan s)) (sp_appended s)
     \<and> (sp_after s = None \<longrightarrow>
          concat (sp_committed s) @ written_rows s @ concat (sp_plan s) = sp_appended s)"

definition spool_ok :: "'f spool_env \<Rightarrow> spool_state \<Rightarrow> bool" where
  "spool_ok se s \<longleftrightarrow> base_ok se s \<and> (sp_status s = Downloading \<longrightarrow> spool_live_ok se s)"

section \<open>Steps of the producer\<close>

lemma base_ok_producer [simp]:
  "base_ok se (s\<lparr>sp_plan := p\<rparr>) = base_ok se s"
  "base_ok se (s\<lparr>sp_after := a\<rparr>) = base_ok se s"
  "base_ok se (s\<lparr>sp_written := w\<rparr>) = base_ok se s"
  "base_ok se (s\<lparr>sp_produced := n\<rparr>) = base_ok se s"
  by (simp_all add: base_ok_def committed_file_def cursor_ok_def)

lemma base_ok_close: "base_ok se s \<Longrightarrow> base_ok se (s\<lparr>sp_open := False\<rparr>)"
  by (auto simp: base_ok_def committed_file_def cursor_ok_def)

lemma base_ok_file: "base_ok se s \<Longrightarrow> base_ok se (s\<lparr>sp_file := sp_file s @ more_bytes\<rparr>)"
  by (auto simp: base_ok_def committed_file_def cursor_ok_def prefix_prefix)

definition halted :: "spool_status \<Rightarrow> bool" where
  "halted st = (case st of Failed _ \<Rightarrow> True | Status_Cancelled \<Rightarrow> True | _ \<Rightarrow> False)"

lemma halted_iff: "halted st \<longleftrightarrow> (\<exists>e. st = Failed e) \<or> st = Status_Cancelled"
  by (simp add: halted_def split: spool_status.split)

lemma spool_stop_base:
  assumes "base_ok se s" "halted st"
  shows "base_ok se (spool_stop st s) \<and> sp_status (spool_stop st s) \<noteq> Downloading"
proof -
  have status: "status_record se st = status_record se Downloading"
    using assms(2) by (auto simp: halted_iff status_record_def)
  have cursors: "cursor_ok se (s\<lparr>sp_status := st\<rparr>) i cur" if "sp_status s = Downloading" "cursor_ok se s i cur" for i cur
    using that by (simp add: cursor_ok_def)
  have "base_ok se (s\<lparr>sp_status := st\<rparr>)" if "sp_status s = Downloading"
    using assms that cursors [OF that] status
    by (auto simp: base_ok_def committed_file_def halted_iff split: option.splits)
  with assms show ?thesis by (auto simp: spool_stop_def halted_iff)
qed

lemma spool_ok_halted: "base_ok se s \<Longrightarrow> sp_status s \<noteq> Downloading \<Longrightarrow> spool_ok se s"
  by (simp add: spool_ok_def)

lemma spool_stop_ok:
  assumes "base_ok se s" "halted st"
  shows "spool_ok se (spool_stop st s)"
  by (rule spool_ok_halted) (use spool_stop_base [OF assms] in simp_all)

lemma halted_simps [simp]: "halted (Failed e)" "halted Status_Cancelled"
  by (simp_all add: halted_iff)

lemma spool_ok_record_failure: "base_ok se s \<Longrightarrow> spool_ok se (record_failure e late s)"
  unfolding record_failure_def by (rule spool_stop_ok) simp_all

lemma spool_ok_append_fails: "base_ok se s \<Longrightarrow> spool_ok se (append_fails e late s)"
  unfolding append_fails_def by (rule spool_ok_record_failure) simp

lemma spool_ok_drop: "base_ok se s \<Longrightarrow> spool_ok se (drop_producer s)"
  unfolding drop_producer_def by (intro spool_stop_ok base_ok_close) simp_all

lemma spool_ok_finish_fails:
  assumes "base_ok se s"
  shows "spool_ok se (finish_fails e late s)"
proof -
  have "spool_ok se (record_failure e late (s\<lparr>sp_written := None\<rparr>))"
    by (rule spool_ok_record_failure) (simp add: assms)
  then show ?thesis unfolding finish_fails_def by (intro spool_ok_drop) (simp add: spool_ok_def)
qed

lemma spool_okD: "spool_ok se s \<Longrightarrow> base_ok se s"
  by (simp add: spool_ok_def)

lemma ensure_downloading_Inr [simp]: "ensure_downloading st = Inr u \<longleftrightarrow> st = Downloading"
  by (cases st) (simp_all add: ensure_downloading_def)

lemma spool_ok_append:
  assumes "spool_ok se s"
  shows "spool_ok se (append_begin se rs s)"
proof (cases "producer_idle s")
  case True
  let ?s = "append_begin se rs s"
  have idle: "sp_open s" "sp_plan s = []" "sp_after s = None" "sp_written s = None"
    using True by (simp_all add: producer_idle_def)
  note base = spool_okD [OF assms]
  have same: "committed_file se ?s = committed_file se s" "sp_status ?s = sp_status s"
    "cursor_ok se ?s i cur = cursor_ok se s i cur" for i cur
    using True by (simp_all add: append_begin_def committed_file_def cursor_ok_def)
  have "base_ok se ?s"
    using base True idle(1) unfolding base_ok_def same
    by (auto simp: append_begin_def prefix_prefix)
  moreover have "spool_live_ok se ?s" if "sp_status s = Downloading"
  proof -
    have live: "spool_live_ok se s" using assms that by (simp add: spool_ok_def)
    have plan: "plan_ok se rs (append_rows se rs)" by (rule append_rows_ok)
    have "concat (sp_committed s) = sp_appended s" using live idle by (simp add: spool_live_ok_def written_rows_def)
    with live plan True idle show ?thesis
      unfolding spool_live_ok_def same
      by (simp add: append_begin_def written_rows_def plan_ok_def)
  qed
  ultimately show ?thesis by (simp add: spool_ok_def same)
qed (use assms in \<open>simp add: append_begin_def\<close>)

lemma spool_ok_write_batch:
  assumes "spool_ok se s"
  shows "spool_ok se (write_batch se c l s)"
proof -
  note base = spool_okD [OF assms]
  note fails = spool_ok_append_fails [OF base] spool_ok_append_fails [of se "s\<lparr>sp_produced := n\<rparr>" for n]
  have ok: "spool_ok se (s\<lparr>sp_produced := n, sp_file := sp_file s @ spool_frame bytes,
      sp_written := Some (Some b, bytes), sp_plan := bs\<rparr>)"
    if p: "sp_plan s = b # bs" "encode_batch se b = Some bytes" "sp_status s = Downloading"
      "sp_written s = None" "checked_add (sp_produced s) (length b) = Some n" for b bs bytes n
  proof -
    have live: "spool_live_ok se s" using assms p(3) by (simp add: spool_ok_def)
    have "base_ok se (s\<lparr>sp_produced := n\<rparr>)" using base by simp
    from base_ok_file [OF this, of "spool_frame bytes"]
    have "base_ok se (s\<lparr>sp_produced := n, sp_file := sp_file s @ spool_frame bytes\<rparr>)" by simp
    moreover have "spool_live_ok se (s\<lparr>sp_produced := n, sp_file := sp_file s @ spool_frame bytes,
      sp_written := Some (Some b, bytes), sp_plan := bs\<rparr>)"
      using live p by (auto simp: spool_live_ok_def committed_file_def written_rows_def checked_add_Some_iff)
    ultimately show ?thesis by (simp add: spool_ok_def)
  qed
  show ?thesis
    using ok base assms fails
    by (cases "sp_written s") (auto simp: write_batch_def Let_def split: list.splits option.splits sum.splits)
qed

lemma spool_ok_write_fails:
  assumes "spool_ok se s"
  shows "spool_ok se (write_fails part l s)"
proof -
  have "base_ok se ((s\<lparr>sp_file := sp_file s @ part\<rparr>)\<lparr>sp_produced := n\<rparr>)" for n
    using base_ok_file [OF spool_okD [OF assms]] by simp
  from spool_ok_append_fails [OF this] assms show ?thesis by (simp add: write_fails_def)
qed

lemma cursor_ok_commit:
  "cursor_ok se s i cur \<Longrightarrow> sp_status s = Downloading \<Longrightarrow> sp_committed t = sp_committed s @ bs \<Longrightarrow>
     sp_delivered t = sp_delivered s \<Longrightarrow> cursor_ok se t i cur"
  by (auto simp: cursor_ok_def)

lemma spool_ok_commit_batch:
  assumes "spool_ok se s"
  shows "spool_ok se (commit_batch c l s)"
proof -
  note base = spool_okD [OF assms]
  note fails = spool_ok_append_fails [OF base]
  have ok: "spool_ok se (s\<lparr>sp_offset := n, sp_rows := sp_produced s, sp_written := None,
      sp_committed := sp_committed s @ [b]\<rparr>)"
    if p: "sp_written s = Some (Some b, bytes)" "sp_status s = Downloading"
      "checked_add (sp_offset s) (4 + length bytes) = Some n" for b bytes n
  proof -
    let ?t = "s\<lparr>sp_offset := n, sp_rows := sp_produced s, sp_written := None, sp_committed := sp_committed s @ [b]\<rparr>"
    have live: "spool_live_ok se s" using assms p(2) by (simp add: spool_ok_def)
    from live p(1) have w: "bytes = batch_record se b" "batch_ok se b" "written_rows s = b"
      "sp_produced s = sp_rows s + length b" by (auto simp: spool_live_ok_def written_rows_def)
    have contents: "committed_file se ?t = committed_file se s @ spool_frame bytes"
      by (simp add: committed_file_def p(2) status_record_def w(1))
    have appended: "prefix ((concat (sp_committed s) @ b) @ concat (sp_plan s)) (sp_appended s)"
      using live w(3) by (simp add: spool_live_ok_def)
    have cursors: "cursor_ok se ?t i cur" if "sp_cursors s i = Some cur" for i cur
    proof -
      have "cursor_ok se s i cur" using base that unfolding base_ok_def by blast
      from cursor_ok_commit [OF this p(2)] show ?thesis by simp
    qed
    have "sp_file s = committed_file se ?t" unfolding contents using live p(1) by (simp add: spool_live_ok_def)
    moreover have "sp_offset ?t = length (committed_file se ?t)"
      unfolding contents using base p(3) by (simp add: base_ok_def checked_add_Some_iff)
    moreover have "sp_rows ?t = length (concat (sp_committed ?t))" "list_all (batch_ok se) (sp_committed ?t)"
      "sp_first ?t = length (file_start se)" "\<forall>i. sp_cursors ?t i = None \<longrightarrow> sp_delivered ?t i = []"
      using base w(2,4) by (simp_all add: base_ok_def)
    moreover have "sp_rows ?t \<le> usize_max" using live by (simp add: spool_live_ok_def)
    moreover have "prefix (concat (sp_committed ?t)) (sp_appended ?t)"
      using append_prefixD [OF appended] by simp
    ultimately have "base_ok se ?t"
      unfolding base_ok_def using cursors p(2) by simp
    moreover have "spool_live_ok se ?t"
      using live p w unfolding spool_live_ok_def contents by (simp add: written_rows_def)
    ultimately show ?thesis by (simp add: spool_ok_def)
  qed
  show ?thesis
    using ok assms fails by (auto simp: commit_batch_def split: option.splits prod.splits sum.splits)
qed

lemma spool_ok_write_end:
  assumes "spool_ok se s"
  shows "spool_ok se (write_end_record se c l s)"
proof -
  note base = spool_okD [OF assms]
  note fails = spool_ok_finish_fails [OF base] spool_ok_drop [OF base]
  let ?e = "end_record se (sp_produced s)"
  have ok: "spool_ok se (s\<lparr>sp_file := sp_file s @ spool_frame ?e, sp_written := Some (None, ?e)\<rparr>)"
    if p: "producer_idle s" "length ?e \<le> 16" "sp_status s = Downloading"
  proof -
    have live: "spool_live_ok se s" using assms p(3) by (simp add: spool_ok_def)
    have "spool_live_ok se (s\<lparr>sp_file := sp_file s @ spool_frame ?e, sp_written := Some (None, ?e)\<rparr>)"
      using live p by (auto simp: spool_live_ok_def committed_file_def written_rows_def producer_idle_def)
    with base_ok_file [OF base, of "spool_frame ?e"] show ?thesis by (simp add: spool_ok_def)
  qed
  show ?thesis using ok assms fails by (auto simp: write_end_record_def split: sum.splits)
qed

lemma spool_ok_write_end_fails: "spool_ok se s \<Longrightarrow> spool_ok se (write_end_fails part l s)"
  by (auto simp: write_end_fails_def intro!: spool_ok_finish_fails base_ok_file dest: spool_okD)

lemma spool_ok_commit_end:
  assumes "spool_ok se s"
  shows "spool_ok se (commit_end c l a s)"
proof -
  note base = spool_okD [OF assms]
  note fails = spool_ok_finish_fails [OF base]
  have ok: "spool_ok se (drop_producer (s\<lparr>sp_offset := n, sp_rows := sp_produced s,
      sp_status := Complete (sp_produced s), sp_written := None\<rparr>))"
    if p: "sp_written s = Some (None, bytes)" "sp_status s = Downloading"
      "checked_add (sp_offset s) (4 + length bytes) = Some n" for bytes n
  proof -
    let ?t = "s\<lparr>sp_offset := n, sp_rows := sp_produced s, sp_status := Complete (sp_produced s), sp_written := None,
       sp_open := False\<rparr>"
    have drop: "drop_producer (s\<lparr>sp_offset := n, sp_rows := sp_produced s,
      sp_status := Complete (sp_produced s), sp_written := None\<rparr>) = ?t"
      by (simp add: drop_producer_def spool_stop_def)
    have live: "spool_live_ok se s" using assms p(2) by (simp add: spool_ok_def)
    from live p(1) have w: "bytes = end_record se (sp_produced s)" "written_rows s = []"
      "sp_produced s = sp_rows s" "concat (sp_committed s) = sp_appended s"
      "length (end_record se (sp_produced s)) \<le> 16"
      by (auto simp: spool_live_ok_def written_rows_def)
    have contents: "committed_file se ?t = committed_file se s @ spool_frame bytes"
      by (simp add: committed_file_def p(2) status_record_def w(1))
    have cursors: "cursor_ok se ?t i cur" if "sp_cursors s i = Some cur" for i cur
    proof -
      have "cursor_ok se s i cur" using base that unfolding base_ok_def by blast
      with p(2) show ?thesis by (auto simp: cursor_ok_def)
    qed
    have "sp_file s = committed_file se ?t" unfolding contents using live p(1) by (simp add: spool_live_ok_def)
    moreover have "sp_offset ?t = length (committed_file se ?t)"
      unfolding contents using base p(3) by (simp add: base_ok_def checked_add_Some_iff)
    moreover have "sp_rows ?t = length (concat (sp_committed ?t))" "list_all (batch_ok se) (sp_committed ?t)"
      "sp_first ?t = length (file_start se)" "\<forall>i. sp_cursors ?t i = None \<longrightarrow> sp_delivered ?t i = []"
      "sp_rows ?t \<le> usize_max"
      using base w(3) by (simp_all add: base_ok_def)
    ultimately have "base_ok se ?t"
      unfolding base_ok_def using cursors w(3-5) by (simp add: committed_file_def)
    then show ?thesis unfolding drop by (rule spool_ok_halted) simp
  qed
  show ?thesis
    using ok assms fails by (auto simp: commit_end_def split: option.splits prod.splits sum.splits)
qed

section \<open>Steps of the readers\<close>

lemma postcard_tags:
  assumes "postcard_ok pt"
  shows "pt_u32 pt 0 \<noteq> []" "pt_u32 pt 1 \<noteq> []"
proof -
  have t: "take_u32 pt (pt_u32 pt 0 @ rest) = Some (0, rest)" "take_u32 pt (pt_u32 pt 1 @ rest) = Some (1, rest)" for rest
    using assms by (simp_all add: postcard_ok_def)
  show "pt_u32 pt 0 \<noteq> []" using t(1) [of "pt_u32 pt 1"] t(2) [of "[]"] by force
  show "pt_u32 pt 1 \<noteq> []" using t(2) [of "pt_u32 pt 0"] t(1) [of "[]"] by force
qed

definition lawful :: "'f spool_env \<Rightarrow> bool" where
  "lawful se \<longleftrightarrow> postcard_ok (se_postcard se) \<and> tight_buffers se \<and> length (se_columns se) \<le> usize_max"

lemma batch_record_bounds:
  assumes "lawful se" "batch_ok se b"
  shows "0 < length (batch_record se b)" "length (batch_record se b) \<le> MAX_RECORD_BYTES"
  using assms postcard_tags [of "se_postcard se"]
  by (auto simp: lawful_def batch_ok_def encode_batch_def append_opt_Some_iff)

lemma read_at:
  assumes "prefix (A @ spool_frame bytes @ B) contents"
  shows "take 4 (drop (length A) contents) = le_bytes (length bytes)"
    "take (length bytes) (drop (length A + 4) contents) = bytes"
proof -
  from assms obtain C where c: "contents = A @ spool_frame bytes @ B @ C" by (auto simp: prefix_def)
  have "drop (length A) contents = le_bytes (length bytes) @ bytes @ B @ C" by (simp add: c spool_frame_def)
  then show "take 4 (drop (length A) contents) = le_bytes (length bytes)" by simp
  have "drop (length A + 4) contents = drop 4 (drop (length A) contents)" by (simp add: add.commute)
  then show "take (length bytes) (drop (length A + 4) contents) = bytes"
    by (simp add: c spool_frame_def)
qed

lemma record_limit: "n \<le> MAX_RECORD_BYTES \<Longrightarrow> n < 2 ^ 32"
  by (simp add: MAX_RECORD_BYTES_def MIB_def)

text \<open>The next committed batch is returned, and the cursor moves past it.\<close>

lemma read_record_batch:
  assumes "lawful se" "base_ok se s" "sp_cursors s i = Some cur" "\<not> sc_ended cur"
    and "sp_committed s = sp_delivered s i @ b # rest" and "granted"
  shows "reader_record se granted s cur
    = (Inr (Some b), cur\<lparr>sc_rows := sc_rows cur + length b,
                         sc_offset := sc_offset cur + (4 + length (batch_record se b))\<rparr>)
    \<and> sc_offset cur < sp_offset s"
proof -
  let ?bytes = "batch_record se b"
  let ?A = "file_start se @ batch_frames se (sp_delivered s i)"
  have cur: "cursor_ok se s i cur" and b: "batch_ok se b" and n: "sp_rows s = length (concat (sp_committed s))" "sp_rows s \<le> usize_max"
    using assms(2,3,5) by (auto simp: base_ok_def)
  have at: "sc_offset cur = length ?A" using cur by (simp add: cursor_ok_def)
  have contents: "committed_file se s = ?A @ spool_frame ?bytes @ (batch_frames se rest @ status_record se (sp_status s))"
    by (simp add: committed_file_def assms(5))
  have "prefix (?A @ spool_frame ?bytes @ (batch_frames se rest @ status_record se (sp_status s))) (sp_file s)"
    using assms(2) by (simp only: base_ok_def contents [symmetric])
  note read = read_at [OF this, folded at]
  note bounds = batch_record_bounds [OF assms(1) b]
  have len: "from_le_bytes (take 4 (drop (sc_offset cur) (sp_file s))) = length ?bytes"
    unfolding read by (rule from_le_bytes_le_bytes) (rule record_limit [OF bounds(2)])
  have upto: "sc_offset cur + (4 + length ?bytes) \<le> sp_offset s"
    using assms(2) at by (simp add: base_ok_def contents)
  obtain tail where tail: "take_u32 (se_postcard se) ?bytes = Some (0, tail)"
    "read_batch se (length ?bytes) tail = Inr b"
    using read_batch_encoded [of se b] assms(1) b by (auto simp: lawful_def)
  have rows: "checked_add (sc_rows cur) (length b) = Some (sc_rows cur + length b)"
    using cur n by (simp add: checked_add_def cursor_ok_def assms(5))
  show ?thesis
    unfolding reader_record_def Let_def len read(2)
    using bounds upto tail rows assms(6) by simp
qed

text \<open>After the last batch of a complete spool the reader finds the end record.\<close>

lemma read_record_end:
  assumes "lawful se" "base_ok se s" "sp_cursors s i = Some cur"
    and "sp_committed s = sp_delivered s i" "sp_status s = Complete n" "granted"
    and "length (end_record se n) \<le> 16"
  shows "reader_record se granted s cur = (Inr None, cur\<lparr>sc_ended := True\<rparr>) \<and> sc_offset cur < sp_offset s"
proof -
  let ?bytes = "end_record se n"
  let ?A = "file_start se @ batch_frames se (sp_delivered s i)"
  have cur: "cursor_ok se s i cur" and n: "n = sp_rows s" "sp_rows s = length (concat (sp_committed s))"
    "sp_rows s \<le> usize_max"
    using assms(2,3,5) by (auto simp: base_ok_def)
  have at: "sc_offset cur = length ?A" using cur by (simp add: cursor_ok_def)
  have contents: "committed_file se s = ?A @ spool_frame ?bytes @ []"
    by (simp add: committed_file_def assms(4,5) status_record_def)
  have "prefix (?A @ spool_frame ?bytes @ []) (sp_file s)"
    using assms(2) by (simp only: base_ok_def contents [symmetric])
  note read = read_at [OF this, folded at]
  have limit: "length ?bytes \<le> MAX_RECORD_BYTES" using assms(7) by (simp add: MAX_RECORD_BYTES_def MIB_def)
  have pos: "length ?bytes \<noteq> 0"
    using assms(1) postcard_tags [of "se_postcard se"] by (auto simp: lawful_def end_record_def)
  have len: "from_le_bytes (take 4 (drop (sc_offset cur) (sp_file s))) = length ?bytes"
    unfolding read by (rule from_le_bytes_le_bytes) (rule record_limit [OF limit])
  have upto: "sp_offset s = sc_offset cur + (4 + length ?bytes)"
    using assms(2) at by (simp add: base_ok_def contents)
  have tags: "take_u32 (se_postcard se) ?bytes = Some (1, pt_u64 (se_postcard se) n)"
    "take_u64 (se_postcard se) (pt_u64 (se_postcard se) n @ []) = Some (n, [])"
    using assms(1) n by (simp_all only: lawful_def postcard_ok_def end_record_def) simp_all
  have rows: "sc_rows cur = n" using cur n by (simp add: cursor_ok_def assms(4))
  show ?thesis
    unfolding reader_record_def Let_def len read(2)
    using limit pos upto tags rows assms(5,6) by simp
qed

lemma refused_read:
  "reader_record se False s cur = (Inl Bad_Length, cur) \<or> reader_record se False s cur = (Inl Refused_Memory, cur)"
  by (simp add: reader_record_def Let_def)

text \<open>A reader of an intact spool gets the next batch, the end, or one of three errors.\<close>

lemma reader_next_cases:
  assumes "lawful se" "base_ok se s" "sp_cursors s i = Some cur"
  shows "reader_next se c g s cur = (None, cur)
    \<or> (\<exists>e. reader_next se c g s cur = (Some (Inl e), cur))
    \<or> (\<exists>b rest. sp_committed s = sp_delivered s i @ b # rest \<and> \<not> sc_ended cur
          \<and> reader_next se c g s cur = (Some (Inr (Some b)),
              cur\<lparr>sc_rows := sc_rows cur + length b,
                  sc_offset := sc_offset cur + (4 + length (batch_record se b))\<rparr>))
    \<or> sp_committed s = sp_delivered s i \<and> (\<exists>n. sp_status s = Complete n)
      \<and> reader_next se c g s cur = (Some (Inr None), cur\<lparr>sc_ended := True\<rparr>)"
proof (cases "sc_ended cur \<or> c \<or> \<not> g \<or> halted (sp_status s) \<or> sp_offset s \<le> sc_offset cur")
  case True
  have cur: "cursor_ok se s i cur" using assms(2,3) by (simp add: base_ok_def)
  show ?thesis
  proof (cases "sc_ended cur")
    case ended: True
    then have "reader_next se c g s cur = (Some (Inr None), cur\<lparr>sc_ended := True\<rparr>)"
      by (simp add: reader_next_def)
    moreover have "sp_committed s = sp_delivered s i \<and> (\<exists>n. sp_status s = Complete n)"
      using cur ended by (auto simp: cursor_ok_def)
    ultimately show ?thesis by blast
  next
    case open_: False
    have "reader_next se c g s cur = (None, cur) \<or> (\<exists>e. reader_next se c g s cur = (Some (Inl e), cur))"
      using True open_ refused_read [of se s cur]
      by (cases "sp_status s"; cases c; cases g; cases "sp_offset s \<le> sc_offset cur")
        (auto simp: reader_next_def halted_iff)
    then show ?thesis by blast
  qed
next
  case False
  then have open_: "\<not> sc_ended cur" "\<not> c" "g" "\<not> halted (sp_status s)" "sc_offset cur < sp_offset s" by auto
  have cur: "cursor_ok se s i cur" using assms(2,3) by (simp add: base_ok_def)
  then obtain rest where rest: "sp_committed s = sp_delivered s i @ rest" by (auto simp: cursor_ok_def)
  have run: "reader_next se c g s cur = (case reader_record se g s cur of (a, cur) \<Rightarrow> (Some a, cur))"
    using open_ by (auto simp: reader_next_def halted_iff split: spool_status.splits)
  show ?thesis
  proof (cases rest)
    case (Cons b bs)
    from read_record_batch [OF assms open_(1) rest [unfolded Cons] open_(3)]
    show ?thesis unfolding run using rest Cons open_(1) by simp
  next
    case Nil
    with open_(5) assms(2) cur rest have "status_record se (sp_status s) \<noteq> []"
      by (auto simp: base_ok_def cursor_ok_def committed_file_def)
    then obtain n where n: "sp_status s = Complete n"
      by (cases "sp_status s") (auto simp: status_record_def)
    moreover from n assms(2) have "length (end_record se n) \<le> 16" by (auto simp: base_ok_def)
    ultimately show ?thesis
      using read_record_end [OF assms _ n open_(3)] rest Nil unfolding run by simp
  qed
qed

lemma base_ok_reader_step:
  assumes "lawful se" "base_ok se s"
  shows "base_ok se (reader_step se i c g s)"
proof (cases "sp_cursors s i")
  case (Some cur)
  have cur: "cursor_ok se s i cur" using assms(2) Some by (simp add: base_ok_def)
  have keep: "base_ok se (s\<lparr>sp_cursors := (sp_cursors s)(i \<mapsto> cur1), sp_delivered := (sp_delivered s)(i := d)\<rparr>)"
    if new: "cursor_ok se (s\<lparr>sp_delivered := (sp_delivered s)(i := d)\<rparr>) i cur1" for cur1 d
  proof -
    let ?t = "s\<lparr>sp_cursors := (sp_cursors s)(i \<mapsto> cur1), sp_delivered := (sp_delivered s)(i := d)\<rparr>"
    have contents: "committed_file se ?t = committed_file se s" by (simp add: committed_file_def)
    have "cursor_ok se ?t j x" if "sp_cursors ?t j = Some x" for j x
    proof (cases "j = i")
      case True
      with new that show ?thesis by (simp add: cursor_ok_def)
    next
      case False
      with that have "sp_cursors s j = Some x" by simp
      then have "cursor_ok se s j x" using assms(2) unfolding base_ok_def by blast
      with False show ?thesis by (simp add: cursor_ok_def)
    qed
    then show ?thesis using assms(2) unfolding base_ok_def contents by auto
  qed
  have same: "(sp_delivered s)(i := sp_delivered s i) = sp_delivered s" by simp
  from reader_next_cases [OF assms Some, of c g] show ?thesis
  proof (elim disjE exE conjE)
    assume "reader_next se c g s cur = (None, cur)"
    with keep [of "sp_delivered s i" cur] cur Some same show ?thesis by (simp add: reader_step_def)
  next
    fix e assume "reader_next se c g s cur = (Some (Inl e), cur)"
    with keep [of "sp_delivered s i" cur] cur Some same show ?thesis by (simp add: reader_step_def)
  next
    fix b rest
    assume run: "reader_next se c g s cur = (Some (Inr (Some b)),
              cur\<lparr>sc_rows := sc_rows cur + length b,
                  sc_offset := sc_offset cur + (4 + length (batch_record se b))\<rparr>)"
      and b: "sp_committed s = sp_delivered s i @ b # rest" "\<not> sc_ended cur"
    let ?cur = "cur\<lparr>sc_rows := sc_rows cur + length b, sc_offset := sc_offset cur + (4 + length (batch_record se b))\<rparr>"
    have "cursor_ok se (s\<lparr>sp_delivered := (sp_delivered s)(i := sp_delivered s i @ [b])\<rparr>) i ?cur"
      using cur b by (simp add: cursor_ok_def)
    from keep [OF this] run Some show ?thesis by (simp add: reader_step_def)
  next
    fix n
    assume run: "reader_next se c g s cur = (Some (Inr None), cur\<lparr>sc_ended := True\<rparr>)"
      and ended: "sp_committed s = sp_delivered s i" "sp_status s = Complete n"
    have "cursor_ok se (s\<lparr>sp_delivered := (sp_delivered s)(i := sp_delivered s i)\<rparr>) i (cur\<lparr>sc_ended := True\<rparr>)"
      using cur ended by (simp add: cursor_ok_def)
    from keep [OF this] run Some same show ?thesis by (simp add: reader_step_def)
  qed
qed (use assms in \<open>simp add: reader_step_def\<close>)

lemma reader_step_frame:
  "sp_status (reader_step se i c g s) = sp_status s \<and> spool_live_ok se (reader_step se i c g s) = spool_live_ok se s"
  by (auto simp: reader_step_def spool_live_ok_def committed_file_def written_rows_def split: option.split prod.split)

lemma base_ok_open:
  assumes "base_ok se s"
  shows "base_ok se (reader_open i s)"
proof -
  have "cursor_ok se (s\<lparr>sp_cursors := (sp_cursors s)(i \<mapsto> \<lparr>sc_offset = sp_first s, sc_rows = 0, sc_ended = False\<rparr>)\<rparr>) i
      \<lparr>sc_offset = sp_first s, sc_rows = 0, sc_ended = False\<rparr>" if "sp_cursors s i = None"
    using assms that by (simp add: base_ok_def cursor_ok_def)
  with assms show ?thesis
    by (auto simp: reader_open_def base_ok_def committed_file_def cursor_ok_def)
qed

lemma reader_open_frame:
  "sp_status (reader_open i s) = sp_status s \<and> spool_live_ok se (reader_open i s) = spool_live_ok se s"
  by (simp add: reader_open_def spool_live_ok_def committed_file_def written_rows_def)

section \<open>Properties\<close>

lemma spool_ok_step:
  assumes "lawful se" "spool_ok se s"
  shows "spool_ok se (spool_step se op s)"
proof (cases op)
  case (Open_Reader i)
  with assms(2) reader_open_frame [of i s se] show ?thesis
    by (auto simp: spool_step_def spool_ok_def intro: base_ok_open)
next
  case (Read_Next i c g)
  with assms reader_step_frame [of se i c g s] show ?thesis
    by (auto simp: spool_step_def spool_ok_def intro: base_ok_reader_step)
qed (use assms in \<open>simp_all add: spool_step_def spool_ok_append spool_ok_write_batch spool_ok_write_fails
    spool_ok_commit_batch spool_ok_write_end spool_ok_write_end_fails spool_ok_commit_end spool_ok_drop
    spool_stop_ok spool_okD\<close>)

lemma spool_ok_start: "spool_ok se (spool_start se)"
proof -
  have "length MAGIC = 8" by (simp add: MAGIC_def)
  then show ?thesis
    by (simp add: spool_start_def Let_def spool_ok_def base_ok_def spool_live_ok_def committed_file_def file_start_def
        status_record_def written_rows_def)
qed

interpretation spool_machine:
  kept_invariant "spool_start se" "spool_step se" "\<lambda>s. lawful se \<longrightarrow> spool_ok se s" for se
  by unfold_locales (auto intro: spool_ok_start spool_ok_step)

text \<open>
  C32. A reader of a spool sees the download. However the appends of the producer, the flushes and
  commits of its records, failed writes, cancellations and the reads of any number of readers
  interleave, each reader has returned the first batches that the producer committed, in order and
  with their rows unchanged, and these rows are a prefix of the rows that were appended; a reader
  that came to the end has returned every row that was appended, and the download is complete with
  that number of rows. A read that is not cancelled and gets its memory, while the download has not
  failed, returns the next committed batch when there is one and the end when the download is
  complete; no file that the producer leaves makes it fail.
\<close>

theorem readers_see_the_download:
  assumes "lawful se" "spool_new se = Inr s0" "s = run_from (spool_step se) s0 ops"
    and "sp_cursors s i = Some cur"
  shows "prefix (sp_delivered s i) (sp_committed s)
    \<and> prefix (concat (sp_delivered s i)) (sp_appended s)
    \<and> (sc_ended cur \<longrightarrow>
          concat (sp_delivered s i) = sp_appended s \<and> sp_status s = Complete (length (sp_appended s)))
    \<and> (\<forall>b rest. \<not> halted (sp_status s) \<and> sp_committed s = sp_delivered s i @ b # rest \<longrightarrow>
          sp_delivered (reader_step se i False True s) i = sp_delivered s i @ [b])
    \<and> (\<forall>n. sp_status s = Complete n \<and> sp_committed s = sp_delivered s i \<longrightarrow>
          fst (reader_next se False True s cur) = Some (Inr None))"
proof -
  have start: "s0 = spool_start se" using assms(2) by (auto simp: spool_new_def split: if_splits option.splits)
  have ok: "spool_ok se s" using spool_machine.inv_run assms(1) unfolding assms(3) start by blast
  then have base: "base_ok se s" by (rule spool_okD)
  have cur: "cursor_ok se s i cur" using base assms(4) by (simp add: base_ok_def)
  then obtain rest where rest: "sp_committed s = sp_delivered s i @ rest"
    and ended: "sc_ended cur \<longrightarrow> rest = [] \<and> (\<exists>n. sp_status s = Complete n)" by (auto simp: cursor_ok_def)
  have appended: "prefix (concat (sp_committed s)) (sp_appended s)"
    and total: "\<And>n. sp_status s = Complete n \<Longrightarrow> n = length (concat (sp_committed s))
        \<and> concat (sp_committed s) = sp_appended s \<and> length (end_record se n) \<le> 16"
    using base unfolding base_ok_def by (blast, metis)
  have next_batch: "sp_delivered (reader_step se i False True s) i = sp_delivered s i @ [b]"
    if p: "\<not> halted (sp_status s)" "sp_committed s = sp_delivered s i @ b # bs" for b bs
  proof -
    have "\<not> sc_ended cur" using ended rest p(2) by auto
    with read_record_batch [OF assms(1) base assms(4) _ p(2)] p(1) show ?thesis
      by (auto simp: reader_step_def assms(4) reader_next_def halted_iff split: spool_status.splits)
  qed
  have end_found: "fst (reader_next se False True s cur) = Some (Inr None)"
    if p: "sp_status s = Complete n" "sp_committed s = sp_delivered s i" for n
  proof -
    have fits: "length (end_record se n) \<le> 16" using total [OF p(1)] by blast
    from read_record_end [OF assms(1) base assms(4) p(2,1) TrueI fits] p(1)
    show ?thesis by (simp add: reader_next_def)
  qed
  have "prefix (concat (sp_delivered s i)) (sp_appended s)"
    using appended unfolding rest concat_append by (rule append_prefixD)
  moreover have "concat (sp_delivered s i) = sp_appended s \<and> sp_status s = Complete (length (sp_appended s))"
    if "sc_ended cur"
  proof -
    from ended that obtain n where "rest = []" and n: "sp_status s = Complete n" by blast
    with total [OF n] rest show ?thesis by simp
  qed
  moreover have "prefix (sp_delivered s i) (sp_committed s)" by (simp add: rest)
  ultimately show ?thesis using next_batch end_found by blast
qed

section \<open>A concrete encoding\<close>

text \<open>Numbers in unary, texts with a mark before each byte.\<close>

definition put_unary :: "nat \<Rightarrow> string" where
  "put_unary n = replicate n CHR ''1'' @ ''0''"

fun take_unary :: "string \<Rightarrow> (nat \<times> string) option" where
  "take_unary [] = None"
| "take_unary (c # cs) =
     (if c = CHR ''1'' then map_option (\<lambda>(n, rest). (Suc n, rest)) (take_unary cs) else Some (0, cs))"

fun put_text :: "string \<Rightarrow> string" where
  "put_text [] = ''0''"
| "put_text (c # cs) = CHR ''1'' # c # put_text cs"

fun take_text :: "string \<Rightarrow> (string \<times> string) option" where
  "take_text (m # c # cs) =
     (if m = CHR ''1'' then map_option (\<lambda>(t, rest). (c # t, rest)) (take_text cs) else Some ([], c # cs))"
| "take_text [m] = Some ([], [])"
| "take_text [] = None"

definition put_int :: "int \<Rightarrow> string" where
  "put_int i = (if i < 0 then ''-'' else ''+'') @ put_unary (nat \<bar>i\<bar>)"

definition take_int :: "string \<Rightarrow> (int \<times> string) option" where
  "take_int s =
     (case s of
        [] \<Rightarrow> None
      | c # cs \<Rightarrow>
          map_option (\<lambda>(n, rest). (if c = CHR ''-'' then - int n else int n, rest)) (take_unary cs))"

definition put_bool :: "bool \<Rightarrow> string" where
  "put_bool b = (if b then ''t'' else ''f'')"

fun put_logical :: "unit spool_logical \<Rightarrow> string" where
  "put_logical L_Null = ''N''"
| "put_logical (L_Boolean b) = ''B'' @ put_bool b"
| "put_logical (L_Integer i) = ''I'' @ put_int i"
| "put_logical (L_Double u) = ''D''"
| "put_logical L_Decimal = ''C''"
| "put_logical L_Text = ''T''"
| "put_logical (L_Bytes b) = ''Y'' @ put_text b"
| "put_logical (L_Date i) = ''A'' @ put_int i"
| "put_logical (L_Timestamp i n z) = ''S'' @ put_bool n @ put_bool z @ put_int i"
| "put_logical L_Nested = ''E''"

definition take_logical :: "string \<Rightarrow> (unit spool_logical \<times> string) option" where
  "take_logical s =
     (case s of
        [] \<Rightarrow> None
      | c # cs \<Rightarrow>
          if c = CHR ''N'' then Some (L_Null, cs)
          else if c = CHR ''B'' then Some (L_Boolean (hd cs = CHR ''t''), tl cs)
          else if c = CHR ''I'' then map_option (\<lambda>(i, rest). (L_Integer i, rest)) (take_int cs)
          else if c = CHR ''D'' then Some (L_Double (), cs)
          else if c = CHR ''C'' then Some (L_Decimal, cs)
          else if c = CHR ''T'' then Some (L_Text, cs)
          else if c = CHR ''Y'' then map_option (\<lambda>(b, rest). (L_Bytes b, rest)) (take_text cs)
          else if c = CHR ''A'' then map_option (\<lambda>(i, rest). (L_Date i, rest)) (take_int cs)
          else if c = CHR ''S'' then
            map_option (\<lambda>(i, rest). (L_Timestamp i (hd cs = CHR ''t'') (hd (tl cs) = CHR ''t''), rest))
              (take_int (tl (tl cs)))
          else Some (L_Nested, cs))"

definition unary_postcard :: "unit postcard" where
  "unary_postcard =
     \<lparr>pt_u32 = put_unary, pt_u64 = put_unary,
      pt_cell = (\<lambda>c l. (case c of None \<Rightarrow> ''-'' | Some t \<Rightarrow> ''+'' @ put_text t) @ put_logical l),
      pt_header = (\<lambda>_ _ _. ''head''), take_u32 = take_unary, take_u64 = take_unary,
      take_cell =
        (\<lambda>s. case s of
              [] \<Rightarrow> None
            | c # cs \<Rightarrow>
                if c = CHR ''-'' then map_option (\<lambda>(l, rest). ((None, l), rest)) (take_logical cs)
                else
                  Option.bind (take_text cs)
                    (\<lambda>(t, rest). map_option (\<lambda>(l, rest). ((Some t, l), rest)) (take_logical rest)))\<rparr>"

lemma take_unary_put: "take_unary (put_unary n @ rest) = Some (n, rest)"
  by (induction n) (simp_all add: put_unary_def)

lemma take_text_put: "take_text (put_text t @ rest) = Some (t, rest)"
  by (induction t) (cases rest; simp)+

lemma take_int_put: "take_int (put_int i @ rest) = Some (i, rest)"
  by (simp add: put_int_def take_int_def take_unary_put)

lemma take_logical_put: "take_logical (put_logical l @ rest) = Some (l, rest)"
  by (cases l) (simp_all add: take_logical_def take_int_put take_text_put put_bool_def)

lemma unary_postcard_ok: "postcard_ok unary_postcard"
  by (simp add: postcard_ok_def unary_postcard_def take_unary_put take_text_put take_logical_put split: option.split)

definition no_chrono :: chrono where
  "no_chrono = \<lparr>ch_datetime = (\<lambda>_. None), ch_date = (\<lambda>_. None), ch_zone = (\<lambda>_. None), ch_range = (\<lambda>_. True)\<rparr>"

definition spool_sample :: "unit spool_env" where
  "spool_sample =
     \<lparr>se_columns = [\<lparr>cl_name = ''name'', cl_type = ''STRING''\<rparr>, \<lparr>cl_name = ''n'', cl_type = ''INT''\<rparr>],
      se_context = None,
      se_parsers = \<lparr>ps_float = (\<lambda>_. None), ps_base64 = (\<lambda>_. None), ps_raw_json = (\<lambda>_. None)\<rparr>,
      se_chrono = no_chrono, se_postcard = unary_postcard,
      se_fetched = \<lparr>cap_rows = length, cap_cells = length, cap_text = length\<rparr>,
      se_decoded = \<lparr>cap_rows = length, cap_cells = length, cap_text = length\<rparr>\<rparr>"

definition spool_ops :: "spool_op list" where
  "spool_ops =
     [Open_Reader 0, Append [[Some ''a'', Some ''1''], [None, Some ''22'']], Write_Batch False False,
      Read_Next 0 False True, Commit_Batch False False, Open_Reader 1, Read_Next 0 False True,
      Append [[Some ''b'', None]], Write_Batch False False, Commit_Batch False False,
      Write_End False False, Commit_End False False True, Read_Next 0 False True, Read_Next 0 False True]"

definition spool_view ::
    "spool_state \<Rightarrow> bool \<times> bool \<times> row list list \<times> row list list \<times> row list list \<times> row list" where
  "spool_view s =
     (sp_cursors s 1 \<noteq> None, halted (sp_status s), sp_delivered s 1, sp_committed s, sp_delivered s 0, sp_appended s)"

lemma spool_view_sample:
  "spool_view (run_from (spool_step spool_sample) (spool_start spool_sample) spool_ops)
     = (True, False, [], [[[Some ''a'', Some ''1''], [None, Some ''22'']], [[Some ''b'', None]]],
        [[[Some ''a'', Some ''1''], [None, Some ''22'']], [[Some ''b'', None]]],
        [[Some ''a'', Some ''1''], [None, Some ''22''], [Some ''b'', None]])"
  by code_simp

theorem readers_see_the_download_witness:
  "sp_delivered (run_from (spool_step spool_sample) (spool_start spool_sample) spool_ops) 0
     = [[[Some ''a'', Some ''1''], [None, Some ''22'']], [[Some ''b'', None]]]
   \<and> sp_appended (run_from (spool_step spool_sample) (spool_start spool_sample) spool_ops)
     = [[Some ''a'', Some ''1''], [None, Some ''22''], [Some ''b'', None]]
   \<and> sp_delivered (run_from (spool_step spool_sample) (spool_start spool_sample) (spool_ops @ [Read_Next 1 False True])) 1
     = [[[Some ''a'', Some ''1''], [None, Some ''22'']]]"
proof -
  let ?s = "run_from (spool_step spool_sample) (spool_start spool_sample) spool_ops"
  have 1: "lawful spool_sample"
    using unary_postcard_ok by (simp add: lawful_def spool_sample_def tight_buffers_def usize_max_def)
  have 2: "spool_new spool_sample = Inr (spool_start spool_sample)"
    by (simp add: spool_new_def spool_sample_def MAX_COLUMNS_def schema_bytes_def checked_mul_def checked_add_def
        usize_max_def size_of_column_def size_of_kind_def MAX_ROW_BYTES_def MIB_def MAX_RECORD_BYTES_def
        spool_header_def unary_postcard_def)
  have run: "sp_cursors ?s 1 \<noteq> None" "\<not> halted (sp_status ?s)" "sp_delivered ?s 1 = []"
    "sp_committed ?s = [[[Some ''a'', Some ''1''], [None, Some ''22'']], [[Some ''b'', None]]]"
    "sp_delivered ?s 0 = [[[Some ''a'', Some ''1''], [None, Some ''22'']], [[Some ''b'', None]]]"
    "sp_appended ?s = [[Some ''a'', Some ''1''], [None, Some ''22''], [Some ''b'', None]]"
    using spool_view_sample unfolding spool_view_def prod.inject by blast+
  obtain cur where cur: "sp_cursors ?s 1 = Some cur" using run(1) by blast
  have "sp_delivered (reader_step spool_sample 1 False True ?s) 1
      = sp_delivered ?s 1 @ [[[Some ''a'', Some ''1''], [None, Some ''22'']]]"
    using readers_see_the_download [OF 1 2 refl cur] run(2-4) by simp
  with run(3,5,6) show ?thesis by (simp add: run_from_def spool_step_def)
qed

end
