(* ===== verification/Download.thy ===== *)
theory Download
  imports Spool
begin

text \<open>
  The download of a result (\<open>src/worker/download.rs\<close>): one lock that decides whether a cancellation
  still belongs to the operation of the session, or the session can run the next query. The methods
  are split at their locks, so that the steps of the worker, of any number of callers, of the
  cancelling thread and of its watchdog interleave freely. The spool of the download takes part with
  its own commit lock (theory Spool).

  The transport is a number, and what is done to it is written to a log. Whether a thread
  can be made, whether a deadline has passed and whether the transport reports a failed cancellation
  are arguments of the steps.
\<close>

section \<open>State\<close>

datatype dl_route = Route_Pending | Transport nat | Downloading_From nat | Downloaded | Route_Stopped

datatype dl_source = Source_Pending | Source_Ready | Source_Failed string | Session_Changed | Source_Cancelled

datatype dl_event = Cancel_Call nat | Abort_Transport nat

text \<open>The public methods that stop a download, and what a thread inside one of them does next.\<close>

datatype dl_call = Call_Cancel | Call_Background | Call_Fail string | Call_Session_Changed | Call_Abort string

datatype dl_phase =
    Source_Phase dl_call | Spool_Phase dl_call | Flag_Phase dl_call | Operation_Phase
  | Spawn_Background | Spawn_Cancel nat | Abort_Phase

text \<open>The thread \<open>qrow-export-cancel\<close>: it starts its watchdog, calls the transport and reports.\<close>

datatype dl_cancel_phase = Watch_Phase | Call_Phase | Wait_Phase | Report_Phase bool

text \<open>
  A double: the finite ones are \<open>m / 2 ^ k\<close>. Comparisons with a value that is not a number are false.
\<close>

datatype double = Finite_Double int nat | Infinite_Double bool | Not_A_Number

definition is_percentage :: "double \<Rightarrow> bool" where
  "is_percentage v = (case v of Finite_Double m k \<Rightarrow> 0 \<le> m \<and> m \<le> 100 * 2 ^ k | _ \<Rightarrow> False)"

text \<open>
  \<open>dl_guard\<close> tells that the guard of the writer is in the state; it is moved to the cancelling
  thread. \<open>dl_clean\<close> is the answer of \<open>stopped\<close> and \<open>dl_log\<close> the history of the transports.
\<close>

record download =
  dl_percentage :: "double option"
  dl_cancel :: bool
  dl_source :: dl_source
  dl_route :: dl_route
  dl_started :: bool
  dl_done :: bool
  dl_failed :: bool
  dl_aborted :: bool
  dl_guard :: bool
  dl_spool :: spool_state
  dl_threads :: "nat \<Rightarrow> dl_phase option"
  dl_canceller :: "(nat \<times> dl_cancel_phase) option"
  dl_watchdog :: "nat option"
  dl_clean :: "bool option"
  dl_log :: "dl_event list"

definition dl_with_source :: "dl_source \<Rightarrow> bool \<Rightarrow> spool_state \<Rightarrow> download" where
  "dl_with_source source cancelled spool =
     \<lparr>dl_percentage = None, dl_cancel = cancelled, dl_source = source, dl_route = Route_Pending, dl_started = False, dl_done = False,
      dl_failed = False, dl_aborted = False, dl_guard = False, dl_spool = spool,
      dl_threads = Map.empty, dl_canceller = None, dl_watchdog = None, dl_clean = None, dl_log = []\<rparr>"

definition download_new :: "bool \<Rightarrow> spool_state \<Rightarrow> download" where
  "download_new = dl_with_source Source_Ready"

definition download_pending :: "bool \<Rightarrow> spool_state \<Rightarrow> download" where
  "download_pending = dl_with_source Source_Pending"

definition dl_do :: "dl_event \<Rightarrow> download \<Rightarrow> download" where
  "dl_do e s = s\<lparr>dl_log := dl_log s @ [e]\<rparr>"

section \<open>Steps of the worker\<close>

definition wait_spool :: "download \<Rightarrow> (string + unit) option" where
  "wait_spool s =
     (case dl_source s of
        Source_Ready \<Rightarrow> Some (Inr ())
      | Source_Failed m \<Rightarrow> Some (Inl m)
      | Session_Changed \<Rightarrow> Some (Inl ''The session changed'')
      | Source_Cancelled \<Rightarrow> Some (Inl ''Cancelled'')
      | Source_Pending \<Rightarrow> None)"

definition set_progress_percentage :: "double option \<Rightarrow> download \<Rightarrow> download" where
  "set_progress_percentage v s =
     s\<lparr>dl_percentage := Option.bind v (\<lambda>x. if is_percentage x then Some x else None)\<rparr>"

definition publish_spool :: "download \<Rightarrow> download" where
  "publish_spool s =
     (if dl_cancel s \<or> dl_source s \<noteq> Source_Pending then s else s\<lparr>dl_source := Source_Ready\<rparr>)"

definition route_open :: "dl_route \<Rightarrow> bool" where
  "route_open r = (case r of Route_Pending \<Rightarrow> True | Transport _ \<Rightarrow> True | _ \<Rightarrow> False)"

definition route_target :: "dl_route \<Rightarrow> nat option" where
  "route_target r = (case r of Transport t \<Rightarrow> Some t | Downloading_From t \<Rightarrow> Some t | _ \<Rightarrow> None)"

definition register_transport :: "nat \<Rightarrow> download \<Rightarrow> download" where
  "register_transport t s =
     (if dl_cancel s \<or> dl_aborted s \<or> \<not> route_open (dl_route s) then dl_do (Abort_Transport t) s
      else s\<lparr>dl_route := Transport t\<rparr>)"

definition release_transport :: "download \<Rightarrow> download" where
  "release_transport s =
     (case dl_route s of
        Transport _ \<Rightarrow> if dl_aborted s then s else s\<lparr>dl_route := Route_Pending\<rparr>
      | _ \<Rightarrow> s)"

definition bind_download :: "nat \<Rightarrow> download \<Rightarrow> download" where
  "bind_download t s =
     (if dl_cancel s \<or> dl_aborted s then dl_do (Abort_Transport t) s
      else if \<not> route_open (dl_route s) then s
      else s\<lparr>dl_route := Downloading_From t, dl_guard := True\<rparr>)"

definition is_downloading :: "dl_route \<Rightarrow> bool" where
  "is_downloading r = (case r of Downloading_From _ \<Rightarrow> True | _ \<Rightarrow> False)"

definition finish_without_spool :: "string \<Rightarrow> download \<Rightarrow> download" where
  "finish_without_spool message s =
     (if dl_cancel s \<or> \<not> is_downloading (dl_route s) \<or> dl_source s \<noteq> Source_Pending then s
      else s\<lparr>dl_source := Source_Failed message, dl_route := Downloaded, dl_guard := False\<rparr>)"

text \<open>
  \<open>complete\<close>, at the commit of the end record: the closure runs under both locks. The flag is read
  twice; \<open>early\<close> tells that the first look has seen it set.
\<close>

definition at_handoff :: "bool \<Rightarrow> download \<Rightarrow> bool" where
  "at_handoff early s \<longleftrightarrow>
     (case sp_written (dl_spool s) of
        Some (None, bytes) \<Rightarrow>
          \<not> early \<and> sp_status (dl_spool s) = Downloading
          \<and> checked_add (sp_offset (dl_spool s)) (4 + length bytes) \<noteq> None
      | _ \<Rightarrow> False)"

definition complete_commit :: "bool \<Rightarrow> bool \<Rightarrow> download \<Rightarrow> download" where
  "complete_commit early late s =
     (let accepted = (\<not> dl_cancel s \<and> is_downloading (dl_route s) \<and> \<not> dl_aborted s);
          seen = (early \<and> dl_cancel s);
          s1 = s\<lparr>dl_spool := commit_end seen late accepted (dl_spool s)\<rparr>
      in if at_handoff seen s \<and> accepted then s1\<lparr>dl_route := Downloaded, dl_guard := False\<rparr> else s1)"

text \<open>One turn of the loop of \<open>stopped\<close>: it waits on, or it ends with the answer.\<close>

definition stopped :: "bool \<Rightarrow> download \<Rightarrow> download" where
  "stopped timed_out s =
     (let waiting = (dl_started s \<and> \<not> dl_done s \<and> \<not> dl_aborted s) in
      if waiting \<and> \<not> timed_out then s
      else
        (let s1 = (if waiting then s\<lparr>dl_aborted := True\<rparr> else s);
             clean = (\<not> dl_aborted s1 \<and> \<not> dl_failed s1);
             s2 = (case route_target (dl_route s1) of
                     Some t \<Rightarrow> if clean then s1 else dl_do (Abort_Transport t) s1
                   | None \<Rightarrow> s1)
         in s2\<lparr>dl_route := Route_Stopped, dl_guard := False, dl_clean := Some clean\<rparr>))"

section \<open>Steps of the callers\<close>

definition call_error :: "dl_call \<Rightarrow> string option" where
  "call_error c = (case c of Call_Fail m \<Rightarrow> Some m | Call_Abort m \<Rightarrow> Some m | _ \<Rightarrow> None)"

definition set_thread :: "nat \<Rightarrow> dl_phase option \<Rightarrow> download \<Rightarrow> download" where
  "set_thread i p s = s\<lparr>dl_threads := (dl_threads s)(i := p)\<rparr>"

definition dl_begin :: "nat \<Rightarrow> dl_call \<Rightarrow> download \<Rightarrow> download" where
  "dl_begin i c s = (if dl_threads s i = None then set_thread i (Some (Source_Phase c)) s else s)"

text \<open>\<open>terminal_source\<close> under the lock; the stop of a spool that is ready comes after it.\<close>

definition terminal_source :: "nat \<Rightarrow> dl_call \<Rightarrow> download \<Rightarrow> download" where
  "terminal_source i c s =
     (case dl_source s of
        Source_Ready \<Rightarrow> set_thread i (Some (Spool_Phase c)) s
      | Source_Pending \<Rightarrow>
          set_thread i (Some (Flag_Phase c))
            (s\<lparr>dl_source := (case call_error c of None \<Rightarrow> Source_Cancelled | Some m \<Rightarrow> Source_Failed m)\<rparr>)
      | _ \<Rightarrow> set_thread i (Some (Flag_Phase c)) s)"

definition source_step :: "nat \<Rightarrow> dl_call \<Rightarrow> download \<Rightarrow> download" where
  "source_step i c s =
     (if c = Call_Session_Changed then
        set_thread i (Some (Flag_Phase c))
          (if dl_source s = Source_Pending then s\<lparr>dl_source := Session_Changed\<rparr> else s)
      else terminal_source i c s)"

definition spool_terminal :: "dl_call \<Rightarrow> spool_status" where
  "spool_terminal c = (case call_error c of None \<Rightarrow> Status_Cancelled | Some m \<Rightarrow> Failed (Other_Error m))"

definition flag_step :: "nat \<Rightarrow> dl_call \<Rightarrow> download \<Rightarrow> download" where
  "flag_step i c s =
     set_thread i
       (Some (case c of Call_Abort _ \<Rightarrow> Abort_Phase | Call_Background \<Rightarrow> Spawn_Background | _ \<Rightarrow> Operation_Phase))
       (s\<lparr>dl_cancel := True\<rparr>)"

definition abort_operation :: "download \<Rightarrow> download" where
  "abort_operation s =
     (case route_target (dl_route s) of
        Some t \<Rightarrow>
          (dl_do (Abort_Transport t) s)\<lparr>dl_aborted := True, dl_done := True, dl_failed := True, dl_guard := False\<rparr>
      | None \<Rightarrow> s)"

definition cancel_operation :: "nat \<Rightarrow> download \<Rightarrow> download" where
  "cancel_operation i s =
     (case dl_route s of
        Transport t \<Rightarrow>
          set_thread i None
            ((dl_do (Abort_Transport t) s)\<lparr>dl_aborted := True, dl_done := True, dl_guard := False\<rparr>)
      | Downloading_From t \<Rightarrow>
          if dl_started s then set_thread i None s
          else set_thread i (Some (Spawn_Cancel t)) (s\<lparr>dl_started := True, dl_guard := False\<rparr>)
      | _ \<Rightarrow> set_thread i None s)"

text \<open>
  The next section of thread \<open>i\<close>; \<open>made\<close> tells that a thread could be made. A thread that
  \<open>cancel_in_background\<close> has made takes the place of its caller.
\<close>

definition dl_advance :: "nat \<Rightarrow> bool \<Rightarrow> download \<Rightarrow> download" where
  "dl_advance i made s =
     (case dl_threads s i of
        None \<Rightarrow> s
      | Some (Source_Phase c) \<Rightarrow> source_step i c s
      | Some (Spool_Phase c) \<Rightarrow>
          set_thread i (Some (Flag_Phase c)) (s\<lparr>dl_spool := spool_stop (spool_terminal c) (dl_spool s)\<rparr>)
      | Some (Flag_Phase c) \<Rightarrow> flag_step i c s
      | Some Operation_Phase \<Rightarrow> cancel_operation i s
      | Some Spawn_Background \<Rightarrow> set_thread i (Some (if made then Operation_Phase else Abort_Phase)) s
      | Some (Spawn_Cancel t) \<Rightarrow>
          if made then set_thread i None (s\<lparr>dl_canceller := Some (t, Watch_Phase)\<rparr>)
          else set_thread i (Some Abort_Phase) s
      | Some Abort_Phase \<Rightarrow> set_thread i None (abort_operation s))"

section \<open>The cancelling thread and its watchdog\<close>

definition canceller_step :: "bool \<Rightarrow> download \<Rightarrow> download" where
  "canceller_step good s =
     (case dl_canceller s of
        None \<Rightarrow> s
      | Some (t, Watch_Phase) \<Rightarrow>
          (if good then s\<lparr>dl_watchdog := Some t\<rparr> else abort_operation s)\<lparr>dl_canceller := Some (t, Call_Phase)\<rparr>
      | Some (t, Call_Phase) \<Rightarrow> (dl_do (Cancel_Call t) s)\<lparr>dl_canceller := Some (t, Wait_Phase)\<rparr>
      | Some (t, Wait_Phase) \<Rightarrow> s\<lparr>dl_canceller := Some (t, Report_Phase (\<not> good))\<rparr>
      | Some (t, Report_Phase failed) \<Rightarrow> s\<lparr>dl_done := True, dl_failed := failed, dl_canceller := None\<rparr>)"

definition watchdog_step :: "bool \<Rightarrow> download \<Rightarrow> download" where
  "watchdog_step timed_out s =
     (case dl_watchdog s of
        None \<Rightarrow> s
      | Some t \<Rightarrow>
          if \<not> is_downloading (dl_route s) then s\<lparr>dl_watchdog := None\<rparr>
          else if timed_out then
            (dl_do (Abort_Transport t) s)\<lparr>dl_aborted := True, dl_watchdog := None\<rparr>
          else s)"

section \<open>Interleavings\<close>

text \<open>The steps of the spool other than the commit of its end, which belongs to \<open>complete\<close>.\<close>

datatype dl_op =
    Publish_Spool | Register_Transport nat | Release_Transport | Bind nat | Finish_Without_Spool string
  | Complete_Commit bool bool | Stopped bool | Spool_Step spool_op | Set_Cancel | Set_Percentage "double option"
  | Begin_Call nat dl_call | Advance nat bool | Canceller_Step bool | Watchdog_Step bool

definition is_commit_end :: "spool_op \<Rightarrow> bool" where
  "is_commit_end op = (case op of Commit_End _ _ _ \<Rightarrow> True | _ \<Rightarrow> False)"

definition dl_step :: "'f spool_env \<Rightarrow> dl_op \<Rightarrow> download \<Rightarrow> download" where
  "dl_step se op s =
     (case op of
        Publish_Spool \<Rightarrow> publish_spool s
      | Register_Transport t \<Rightarrow> register_transport t s
      | Release_Transport \<Rightarrow> release_transport s
      | Bind t \<Rightarrow> bind_download t s
      | Finish_Without_Spool m \<Rightarrow> finish_without_spool m s
      | Complete_Commit e l \<Rightarrow> complete_commit e l s
      | Stopped t \<Rightarrow> stopped t s
      | Spool_Step op \<Rightarrow> if is_commit_end op then s else s\<lparr>dl_spool := spool_step se op (dl_spool s)\<rparr>
      | Set_Cancel \<Rightarrow> s\<lparr>dl_cancel := True\<rparr>
      | Set_Percentage v \<Rightarrow> set_progress_percentage v s
      | Begin_Call i c \<Rightarrow> dl_begin i c s
      | Advance i m \<Rightarrow> dl_advance i m s
      | Canceller_Step g \<Rightarrow> canceller_step g s
      | Watchdog_Step t \<Rightarrow> watchdog_step t s)"

section \<open>The spool only completes with the hand-off\<close>

lemma spool_stop_Complete [simp]:
  "(\<And>m. st \<noteq> Complete m) \<Longrightarrow> sp_status (spool_stop st s) = Complete n \<longleftrightarrow> sp_status s = Complete n"
  by (auto simp: spool_stop_def)

lemma record_failure_Complete [simp]: "sp_status (record_failure e l s) = Complete n \<longleftrightarrow> sp_status s = Complete n"
  by (simp add: record_failure_def)

lemma append_fails_Complete [simp]: "sp_status (append_fails e l s) = Complete n \<longleftrightarrow> sp_status s = Complete n"
  by (simp add: append_fails_def)

lemma drop_producer_Complete [simp]: "sp_status (drop_producer s) = Complete n \<longleftrightarrow> sp_status s = Complete n"
  by (simp add: drop_producer_def)

lemma finish_fails_Complete [simp]: "sp_status (finish_fails e l s) = Complete n \<longleftrightarrow> sp_status s = Complete n"
  by (simp add: finish_fails_def)

lemma spool_step_Complete:
  assumes "\<not> is_commit_end op"
  shows "sp_status (spool_step se op s) = Complete n \<longleftrightarrow> sp_status s = Complete n"
proof (cases op)
  case (Write_Batch c l)
  then show ?thesis
    by (auto simp: spool_step_def write_batch_def Let_def split: list.split option.split sum.split)
next
  case (Read_Next i c g)
  then show ?thesis
    by (auto simp: spool_step_def reader_step_def split: option.split prod.split)
qed (use assms in \<open>auto simp: spool_step_def is_commit_end_def append_begin_def write_fails_def commit_batch_def
    write_end_record_def write_end_fails_def reader_open_def split: option.split sum.split list.split\<close>)

lemma commit_end_Complete:
  "sp_status (commit_end c l a s) = Complete n \<Longrightarrow>
     sp_status s = Complete n \<or> a \<and> (\<exists>bytes. sp_written s = Some (None, bytes) \<and> \<not> c \<and> sp_status s = Downloading
       \<and> checked_add (sp_offset s) (4 + length bytes) \<noteq> None)"
  by (cases "sp_status s")
    (auto simp: commit_end_def ensure_downloading_def split: option.splits if_splits sum.splits)

section \<open>The invariant of the hand-off\<close>

definition is_cancel :: "dl_event \<Rightarrow> bool" where
  "is_cancel e = (case e of Cancel_Call _ \<Rightarrow> True | _ \<Rightarrow> False)"

definition cancels :: "download \<Rightarrow> nat" where
  "cancels s = length (filter is_cancel (dl_log s))"

definition past_flag :: "dl_phase \<Rightarrow> bool" where
  "past_flag p = (case p of Source_Phase _ \<Rightarrow> False | Spool_Phase _ \<Rightarrow> False | Flag_Phase _ \<Rightarrow> False | _ \<Rightarrow> True)"

text \<open>What cannot have happened while a cancellation is only planned, and what a spawned one leaves.\<close>

definition dl_flags_ok :: "download \<Rightarrow> bool" where
  "dl_flags_ok s \<longleftrightarrow>
     (dl_started s \<longrightarrow> dl_cancel s) \<and> (dl_aborted s \<longrightarrow> dl_cancel s) \<and> (dl_watchdog s \<noteq> None \<longrightarrow> dl_started s)
     \<and> (dl_failed s \<longrightarrow> dl_started s \<or> dl_aborted s) \<and> (dl_done s \<longrightarrow> dl_started s \<or> dl_aborted s)
     \<and> (\<forall>i p. dl_threads s i = Some p \<longrightarrow> past_flag p \<longrightarrow> dl_cancel s)"

definition dl_route_ok :: "download \<Rightarrow> bool" where
  "dl_route_ok s \<longleftrightarrow>
     (dl_started s \<longrightarrow> is_downloading (dl_route s) \<or> dl_route s = Route_Stopped)
     \<and> (dl_aborted s \<longrightarrow> route_target (dl_route s) \<noteq> None \<or> dl_route s = Route_Stopped)
     \<and> (dl_clean s = None \<longleftrightarrow> dl_route s \<noteq> Route_Stopped)
     \<and> (dl_clean s = Some True \<longrightarrow> \<not> dl_aborted s \<and> \<not> dl_failed s \<and> (dl_started s \<longrightarrow> dl_done s))
     \<and> (dl_clean s = Some False \<longrightarrow> dl_started s \<or> dl_aborted s)
     \<and> (\<forall>n. sp_status (dl_spool s) = Complete n \<longrightarrow>
          (dl_route s = Downloaded \<or> dl_route s = Route_Stopped) \<and> \<not> dl_started s \<and> \<not> dl_aborted s)"

definition dl_cancel_ok :: "download \<Rightarrow> bool" where
  "dl_cancel_ok s \<longleftrightarrow>
     cancels s \<le> 1
     \<and> (\<not> dl_started s \<longrightarrow> cancels s = 0)
     \<and> (\<forall>t p. dl_canceller s = Some (t, p) \<longrightarrow>
          dl_started s \<and> (dl_done s \<longrightarrow> dl_aborted s)
          \<and> (p = Watch_Phase \<or> p = Call_Phase \<longrightarrow> cancels s = 0))
     \<and> (\<forall>i t. dl_threads s i = Some (Spawn_Cancel t) \<longrightarrow>
          dl_started s \<and> (dl_done s \<longrightarrow> dl_aborted s) \<and> dl_canceller s = None \<and> cancels s = 0
          \<and> (\<forall>j u. dl_threads s j = Some (Spawn_Cancel u) \<longrightarrow> j = i))"

definition dl_ok :: "download \<Rightarrow> bool" where
  "dl_ok s \<longleftrightarrow> dl_flags_ok s \<and> dl_route_ok s \<and> dl_cancel_ok s"

lemma dl_log_simps [simp]:
  "cancels (dl_do (Abort_Transport t) s) = cancels s"
  "cancels (dl_do (Cancel_Call t) s) = Suc (cancels s)"
  by (simp_all add: cancels_def dl_do_def is_cancel_def)

lemma dl_do_simps [simp]:
  "dl_cancel (dl_do e s) = dl_cancel s" "dl_source (dl_do e s) = dl_source s" "dl_route (dl_do e s) = dl_route s"
  "dl_started (dl_do e s) = dl_started s" "dl_done (dl_do e s) = dl_done s" "dl_failed (dl_do e s) = dl_failed s"
  "dl_aborted (dl_do e s) = dl_aborted s" "dl_spool (dl_do e s) = dl_spool s" "dl_threads (dl_do e s) = dl_threads s"
  "dl_canceller (dl_do e s) = dl_canceller s" "dl_watchdog (dl_do e s) = dl_watchdog s" "dl_clean (dl_do e s) = dl_clean s"
  by (simp_all add: dl_do_def)

lemma cancels_cong: "dl_log s = dl_log t \<Longrightarrow> cancels s = cancels t"
  by (simp add: cancels_def)

lemma cancels_updates [simp]:
  "cancels (s\<lparr>dl_percentage := v0\<rparr>) = cancels s" "cancels (s\<lparr>dl_cancel := b\<rparr>) = cancels s"
  "cancels (s\<lparr>dl_source := v1\<rparr>) = cancels s" "cancels (s\<lparr>dl_route := v2\<rparr>) = cancels s"
  "cancels (s\<lparr>dl_started := b\<rparr>) = cancels s" "cancels (s\<lparr>dl_done := b\<rparr>) = cancels s"
  "cancels (s\<lparr>dl_failed := b\<rparr>) = cancels s" "cancels (s\<lparr>dl_aborted := b\<rparr>) = cancels s"
  "cancels (s\<lparr>dl_guard := b\<rparr>) = cancels s" "cancels (s\<lparr>dl_spool := v3\<rparr>) = cancels s"
  "cancels (s\<lparr>dl_threads := v4\<rparr>) = cancels s" "cancels (s\<lparr>dl_canceller := v5\<rparr>) = cancels s"
  "cancels (s\<lparr>dl_watchdog := v6\<rparr>) = cancels s" "cancels (s\<lparr>dl_clean := v7\<rparr>) = cancels s"
  by (rule cancels_cong; simp)+

lemmas dl_ok_defs = dl_ok_def dl_flags_ok_def dl_route_ok_def dl_cancel_ok_def

lemmas dl_worker_defs = set_progress_percentage_def publish_spool_def register_transport_def release_transport_def
  bind_download_def finish_without_spool_def route_open_def is_downloading_def route_target_def

lemma dl_ok_percentage: "dl_ok s \<Longrightarrow> dl_ok (set_progress_percentage v s)"
  by (simp add: dl_ok_defs set_progress_percentage_def)

lemma dl_ok_publish: "dl_ok s \<Longrightarrow> dl_ok (publish_spool s)"
  by (auto simp: dl_ok_defs publish_spool_def)

lemma dl_ok_register: "dl_ok s \<Longrightarrow> dl_ok (register_transport t s)"
  by (cases "dl_route s")
    (auto simp: dl_ok_defs register_transport_def route_open_def is_downloading_def route_target_def)

lemma dl_ok_release: "dl_ok s \<Longrightarrow> dl_ok (release_transport s)"
  by (cases "dl_route s") (auto simp: dl_ok_defs release_transport_def is_downloading_def route_target_def)

lemma dl_ok_bind: "dl_ok s \<Longrightarrow> dl_ok (bind_download t s)"
  by (cases "dl_route s") (auto simp: dl_ok_defs bind_download_def route_open_def is_downloading_def route_target_def)

lemma dl_ok_finish: "dl_ok s \<Longrightarrow> dl_ok (finish_without_spool m s)"
  by (cases "dl_route s") (auto simp: dl_ok_defs finish_without_spool_def is_downloading_def route_target_def)

lemma dl_ok_spool:
  assumes "dl_ok s" "\<And>n. sp_status sp = Complete n \<Longrightarrow> sp_status (dl_spool s) = Complete n"
  shows "dl_ok (s\<lparr>dl_spool := sp\<rparr>)"
  using assms by (auto simp: dl_ok_defs)

lemma dl_ok_complete:
  assumes ok: "dl_ok s"
  shows "dl_ok (complete_commit e l s)"
proof -
  let ?accepted = "\<not> dl_cancel s \<and> is_downloading (dl_route s) \<and> \<not> dl_aborted s"
  let ?sp = "commit_end (e \<and> dl_cancel s) l ?accepted (dl_spool s)"
  show ?thesis
  proof (cases "at_handoff (e \<and> dl_cancel s) s \<and> ?accepted")
    case True
    then have "complete_commit e l s = s\<lparr>dl_spool := ?sp, dl_route := Downloaded, dl_guard := False\<rparr>"
      unfolding complete_commit_def Let_def by (subst if_P) auto
    with True ok show ?thesis by (auto simp: dl_ok_defs is_downloading_def route_target_def)
  next
    case False
    then have eq: "complete_commit e l s = s\<lparr>dl_spool := ?sp\<rparr>"
      by (auto simp: complete_commit_def Let_def)
    have "sp_status (dl_spool s) = Complete n" if "sp_status ?sp = Complete n" for n
      using commit_end_Complete [OF that] False by (auto simp: at_handoff_def)
    then show ?thesis unfolding eq by (rule dl_ok_spool [OF ok])
  qed
qed

definition stop_waits :: "download \<Rightarrow> bool" where
  "stop_waits s \<longleftrightarrow> dl_started s \<and> \<not> dl_done s \<and> \<not> dl_aborted s"

definition stop_clean :: "download \<Rightarrow> bool" where
  "stop_clean s \<longleftrightarrow> \<not> dl_aborted s \<and> \<not> dl_failed s \<and> (dl_started s \<longrightarrow> dl_done s)"

lemma stopped_eq:
  "stopped timed_out s =
     (if stop_waits s \<and> \<not> timed_out then s
      else
        s\<lparr>dl_aborted := dl_aborted s \<or> stop_waits s, dl_route := Route_Stopped, dl_guard := False,
          dl_clean := Some (stop_clean s),
          dl_log := dl_log s
            @ (case route_target (dl_route s) of
                 Some t \<Rightarrow> if stop_clean s then [] else [Abort_Transport t]
               | None \<Rightarrow> [])\<rparr>)"
  by (auto simp: stopped_def stop_waits_def stop_clean_def Let_def dl_do_def split: option.split)

lemma cancels_append_aborts: "\<forall>e \<in> set es. \<not> is_cancel e \<Longrightarrow> cancels (s\<lparr>dl_log := dl_log s @ es\<rparr>) = cancels s"
  by (simp add: cancels_def)

lemma dl_ok_stopped:
  assumes "dl_ok s"
  shows "dl_ok (stopped t s)"
proof (cases "stop_waits s \<and> \<not> t")
  case False
  then have c: "cancels (stopped t s) = cancels s"
    by (auto simp: stopped_eq cancels_def is_cancel_def split: option.split)
  from assms False have "dl_flags_ok (stopped t s)"
    by (auto simp: dl_ok_def dl_flags_ok_def stopped_eq stop_waits_def)
  moreover from assms False have "dl_route_ok (stopped t s)"
    by (auto simp: dl_ok_def dl_flags_ok_def dl_route_ok_def stopped_eq stop_clean_def stop_waits_def)
  moreover from assms False have "dl_cancel_ok (stopped t s)"
    unfolding dl_cancel_ok_def c by (auto simp: dl_ok_def dl_cancel_ok_def stopped_eq)
  ultimately show ?thesis by (simp add: dl_ok_def)
qed (use assms in \<open>simp add: stopped_eq\<close>)

section \<open>The callers keep the invariant\<close>

lemma dl_ok_threads:
  assumes "dl_ok s" "past_flag p \<Longrightarrow> dl_cancel s" "\<And>t. p \<noteq> Spawn_Cancel t"
  shows "dl_ok (set_thread i (Some p) s)"
  using assms by (auto simp: dl_ok_defs set_thread_def)

lemma dl_ok_end: "dl_ok s \<Longrightarrow> dl_ok (set_thread i None s)"
  by (auto simp: dl_ok_defs set_thread_def)

lemma dl_ok_source: "dl_ok s \<Longrightarrow> dl_ok (s\<lparr>dl_source := x\<rparr>)"
  by (simp add: dl_ok_defs)

lemma dl_ok_set_cancel: "dl_ok s \<Longrightarrow> dl_ok (s\<lparr>dl_cancel := True\<rparr>)"
  by (simp add: dl_ok_defs)

lemma dl_ok_begin: "dl_ok s \<Longrightarrow> dl_ok (dl_begin i c s)"
  by (auto simp: dl_begin_def past_flag_def intro: dl_ok_threads)

lemma dl_ok_source_step: "dl_ok s \<Longrightarrow> dl_ok (source_step i c s)"
  by (auto simp: source_step_def terminal_source_def past_flag_def split: dl_source.split
      intro!: dl_ok_threads dl_ok_source)

lemma dl_ok_flag_step: "dl_ok s \<Longrightarrow> dl_ok (flag_step i c s)"
  by (auto simp: flag_step_def split: dl_call.split intro!: dl_ok_threads dl_ok_set_cancel)

lemma dl_ok_abort_operation:
  assumes "dl_ok s" "dl_cancel s"
  shows "dl_ok (abort_operation s)"
proof (cases "dl_route s")
  case (Transport t)
  with assms show ?thesis
    by (simp add: abort_operation_def route_target_def) (auto simp: dl_ok_defs is_downloading_def route_target_def)
next
  case (Downloading_From t)
  with assms show ?thesis
    by (simp add: abort_operation_def route_target_def) (auto simp: dl_ok_defs is_downloading_def route_target_def)
qed (use assms in \<open>simp_all add: abort_operation_def route_target_def\<close>)

lemma dl_ok_cancel_operation:
  assumes "dl_ok s" "dl_cancel s"
  shows "dl_ok (cancel_operation i s)"
proof (cases "dl_route s")
  case (Transport t)
  have "dl_ok ((dl_do (Abort_Transport t) s)\<lparr>dl_aborted := True, dl_done := True, dl_guard := False\<rparr>)"
    using assms Transport by (auto simp: dl_ok_defs is_downloading_def route_target_def)
  then show ?thesis by (simp add: cancel_operation_def Transport dl_ok_end)
next
  case (Downloading_From t)
  show ?thesis
  proof (cases "dl_started s")
    case False
    with assms Downloading_From have "dl_clean s = None" "\<not> (\<exists>n. sp_status (dl_spool s) = Complete n)"
      "cancels s = 0" "\<And>i t. dl_threads s i \<noteq> Some (Spawn_Cancel t)" "dl_done s \<longrightarrow> dl_aborted s"
      by (auto simp: dl_ok_defs)
    moreover from assms False have "dl_canceller s = None"
      by (cases "dl_canceller s") (auto simp: dl_ok_defs)
    ultimately show ?thesis using assms False Downloading_From
      by (auto simp: cancel_operation_def set_thread_def dl_ok_defs is_downloading_def)
  qed (use assms Downloading_From in \<open>simp add: cancel_operation_def dl_ok_end\<close>)
qed (use assms in \<open>simp_all add: cancel_operation_def dl_ok_end\<close>)

lemma dl_spawnD:
  assumes "dl_ok s" "dl_threads s i = Some (Spawn_Cancel t)"
  shows "dl_started s" "dl_done s \<longrightarrow> dl_aborted s" "dl_canceller s = None" "cancels s = 0"
    "dl_threads s j = Some (Spawn_Cancel u) \<longrightarrow> j = i"
  using assms by (auto simp: dl_ok_def dl_cancel_ok_def)

lemma dl_cancellerD:
  assumes "dl_ok s" "dl_canceller s = Some (t, p)"
  shows "dl_started s" "dl_done s \<longrightarrow> dl_aborted s" "p = Watch_Phase \<or> p = Call_Phase \<longrightarrow> cancels s = 0"
    "dl_threads s i \<noteq> Some (Spawn_Cancel u)"
  using assms by (auto simp: dl_ok_def dl_cancel_ok_def)

lemma dl_ok_spawn:
  assumes ok: "dl_ok s" and at: "dl_threads s i = Some (Spawn_Cancel t)"
  shows "dl_ok (set_thread i None (s\<lparr>dl_canceller := Some (t, Watch_Phase)\<rparr>))"
proof -
  let ?s = "set_thread i None (s\<lparr>dl_canceller := Some (t, Watch_Phase)\<rparr>)"
  from ok have "dl_flags_ok ?s" "dl_route_ok ?s"
    by (simp_all add: dl_ok_def dl_flags_ok_def dl_route_ok_def set_thread_def)
  moreover have "dl_cancel_ok ?s"
    using dl_spawnD [OF ok at] by (auto simp: dl_cancel_ok_def set_thread_def)
  ultimately show ?thesis by (simp add: dl_ok_def)
qed

lemma dl_ok_advance:
  assumes ok: "dl_ok s"
  shows "dl_ok (dl_advance i made s)"
proof (cases "dl_threads s i")
  case (Some p)
  have flag: "dl_cancel s" if "past_flag p"
    using ok Some that by (auto simp: dl_ok_def dl_flags_ok_def)
  show ?thesis
  proof (cases p)
    case (Source_Phase c)
    with Some ok show ?thesis by (simp add: dl_advance_def dl_ok_source_step)
  next
    case (Spool_Phase c)
    have "dl_ok (s\<lparr>dl_spool := spool_stop (spool_terminal c) (dl_spool s)\<rparr>)"
      by (rule dl_ok_spool [OF ok]) (auto simp: spool_terminal_def split: option.splits)
    with Some Spool_Phase show ?thesis
      by (auto simp: dl_advance_def past_flag_def intro: dl_ok_threads)
  next
    case (Flag_Phase c)
    with Some ok show ?thesis by (simp add: dl_advance_def dl_ok_flag_step)
  next
    case Operation_Phase
    with Some ok flag show ?thesis by (simp add: dl_advance_def past_flag_def dl_ok_cancel_operation)
  next
    case Spawn_Background
    with Some ok flag show ?thesis by (auto simp: dl_advance_def past_flag_def intro: dl_ok_threads)
  next
    case (Spawn_Cancel t)
    with Some ok flag show ?thesis
      by (auto simp: dl_advance_def past_flag_def intro: dl_ok_threads dl_ok_spawn)
  next
    case Abort_Phase
    with Some ok flag show ?thesis
      by (simp add: dl_advance_def past_flag_def dl_ok_abort_operation dl_ok_end)
  qed
qed (use ok in \<open>simp add: dl_advance_def\<close>)

section \<open>The cancelling thread and the watchdog keep the invariant\<close>

lemma abort_operation_simps [simp]:
  "dl_canceller (abort_operation s) = dl_canceller s" "dl_threads (abort_operation s) = dl_threads s"
  "cancels (abort_operation s) = cancels s" "dl_started (abort_operation s) = dl_started s"
  by (simp_all add: abort_operation_def split: option.split)

lemma dl_ok_canceller_phase:
  assumes ok: "dl_ok s" and at: "dl_canceller s = Some (t, p)" and q: "q = Watch_Phase \<or> q = Call_Phase \<longrightarrow> cancels s = 0"
  shows "dl_ok (s\<lparr>dl_canceller := Some (t, q)\<rparr>)"
proof -
  let ?s = "s\<lparr>dl_canceller := Some (t, q)\<rparr>"
  from ok have "dl_flags_ok ?s" "dl_route_ok ?s"
    by (simp_all add: dl_ok_def dl_flags_ok_def dl_route_ok_def)
  moreover have "cancels s \<le> 1" using ok by (simp add: dl_ok_def dl_cancel_ok_def)
  with dl_cancellerD [OF ok at] q have "dl_cancel_ok ?s" by (simp add: dl_cancel_ok_def)
  ultimately show ?thesis by (simp add: dl_ok_def)
qed

lemma dl_ok_report:
  assumes ok: "dl_ok s" and at: "dl_canceller s = Some (t, p)"
  shows "dl_ok (s\<lparr>dl_done := True, dl_failed := failed, dl_canceller := None\<rparr>)"
proof -
  let ?s = "s\<lparr>dl_done := True, dl_failed := failed, dl_canceller := None\<rparr>"
  note at = dl_cancellerD [OF ok at]
  from ok at(1) have "dl_flags_ok ?s" by (simp add: dl_ok_def dl_flags_ok_def)
  moreover from ok at(1,2) have "dl_route_ok ?s" by (auto simp: dl_ok_def dl_route_ok_def)
  moreover from ok at(1,4) have "dl_cancel_ok ?s" by (simp add: dl_ok_def dl_cancel_ok_def)
  ultimately show ?thesis by (simp add: dl_ok_def)
qed

lemma dl_ok_canceller_step:
  assumes ok: "dl_ok s"
  shows "dl_ok (canceller_step good s)"
proof (cases "dl_canceller s")
  case (Some tp)
  then obtain t p where at: "dl_canceller s = Some (t, p)" by (cases tp) simp
  have started: "dl_cancel s" using ok dl_cancellerD(1) [OF ok at] by (simp add: dl_ok_def dl_flags_ok_def)
  note zero = dl_cancellerD(3) [OF ok at]
  show ?thesis
  proof (cases p)
    case Watch_Phase
    have "dl_ok (s\<lparr>dl_watchdog := Some t\<rparr>)"
      using ok dl_cancellerD(1) [OF ok at] by (simp add: dl_ok_def dl_flags_ok_def dl_route_ok_def dl_cancel_ok_def)
    with zero at Watch_Phase dl_ok_abort_operation [OF ok] started show ?thesis
      by (simp add: canceller_step_def dl_ok_canceller_phase)
  next
    case Call_Phase
    let ?s = "dl_do (Cancel_Call t) s"
    have "dl_flags_ok (?s\<lparr>dl_canceller := Some (t, Wait_Phase)\<rparr>)" "dl_route_ok (?s\<lparr>dl_canceller := Some (t, Wait_Phase)\<rparr>)"
      using ok by (simp_all add: dl_ok_def dl_flags_ok_def dl_route_ok_def)
    moreover have "dl_cancel_ok (?s\<lparr>dl_canceller := Some (t, Wait_Phase)\<rparr>)"
      using dl_cancellerD [OF ok at] Call_Phase by (simp add: dl_cancel_ok_def)
    ultimately show ?thesis by (simp add: canceller_step_def at Call_Phase dl_ok_def)
  next
    case Wait_Phase
    with ok at show ?thesis by (simp add: canceller_step_def dl_ok_canceller_phase [where p = p])
  next
    case (Report_Phase failed)
    with dl_ok_report [OF ok at] at show ?thesis by (simp add: canceller_step_def)
  qed
qed (use ok in \<open>simp add: canceller_step_def\<close>)

lemma dl_ok_watchdog_step:
  assumes ok: "dl_ok s"
  shows "dl_ok (watchdog_step timed_out s)"
proof (cases "dl_watchdog s")
  case (Some t)
  with ok have started: "dl_started s" "dl_cancel s" by (auto simp: dl_ok_defs)
  show ?thesis
  proof (cases "is_downloading (dl_route s)")
    case True
    then have "route_target (dl_route s) \<noteq> None" "dl_route s \<noteq> Route_Stopped"
      by (auto simp: is_downloading_def route_target_def split: dl_route.splits)
    with ok Some started True show ?thesis
      by (auto simp: watchdog_step_def dl_ok_defs)
  qed (use ok Some in \<open>auto simp: watchdog_step_def dl_ok_defs\<close>)
qed (use ok in \<open>simp add: watchdog_step_def\<close>)

lemma dl_ok_spool_step: "dl_ok s \<Longrightarrow> \<not> is_commit_end op \<Longrightarrow> dl_ok (s\<lparr>dl_spool := spool_step se op (dl_spool s)\<rparr>)"
  by (rule dl_ok_spool) (simp_all add: spool_step_Complete)

lemma dl_ok_step: "dl_ok s \<Longrightarrow> dl_ok (dl_step se op s)"
  by (cases op)
    (simp_all add: dl_step_def dl_ok_publish dl_ok_register dl_ok_release dl_ok_bind dl_ok_finish dl_ok_complete
      dl_ok_stopped dl_ok_set_cancel dl_ok_percentage dl_ok_begin dl_ok_advance dl_ok_canceller_step
      dl_ok_watchdog_step dl_ok_spool_step)

lemma dl_ok_start: "dl_ok (dl_with_source source cancelled (spool_start se))"
  by (simp add: dl_with_source_def dl_ok_defs cancels_def spool_start_def Let_def)

interpretation download_runs:
  kept_invariant "dl_with_source source cancelled (spool_start se)" "dl_step se" dl_ok for source cancelled se
  by unfold_locales (rule dl_ok_start, rule dl_ok_step)

section \<open>A session that is left alone\<close>

definition detached :: "download \<Rightarrow> bool" where
  "detached s \<longleftrightarrow> dl_route s = Downloaded \<or> dl_route s = Route_Stopped \<and> dl_clean s = Some True"

definition offers_transport :: "dl_op \<Rightarrow> bool" where
  "offers_transport op = (case op of Register_Transport _ \<Rightarrow> True | Bind _ \<Rightarrow> True | _ \<Rightarrow> False)"

lemma detachedD:
  assumes ok: "dl_ok s" and d: "detached s"
  shows "\<not> dl_aborted s" "\<not> dl_failed s" "dl_started s \<longrightarrow> dl_done s" "dl_canceller s = None"
    "dl_threads s i \<noteq> Some (Spawn_Cancel t)" "route_target (dl_route s) = None" "\<not> is_downloading (dl_route s)"
proof -
  have route: "dl_route s = Downloaded \<or> dl_route s = Route_Stopped" using d by (auto simp: detached_def)
  then show none: "route_target (dl_route s) = None" "\<not> is_downloading (dl_route s)"
    by (auto simp: route_target_def is_downloading_def)
  have r: "dl_route_ok s" and f: "dl_flags_ok s" using ok by (simp_all add: dl_ok_def)
  show aborted: "\<not> dl_aborted s" using r d none by (auto simp: dl_route_ok_def detached_def)
  show started: "dl_started s \<longrightarrow> dl_done s" using r d none by (auto simp: dl_route_ok_def detached_def)
  show "\<not> dl_failed s" using r f d none aborted by (auto simp: dl_route_ok_def dl_flags_ok_def detached_def)
  show "dl_canceller s = None"
    using dl_cancellerD(1,2) [OF ok] started aborted by (cases "dl_canceller s") auto
  show "dl_threads s i \<noteq> Some (Spawn_Cancel t)"
    using dl_spawnD(1,2) [OF ok] started aborted by blast
qed

lemma set_thread_simps [simp]:
  "dl_log (set_thread i p s) = dl_log s" "dl_route (set_thread i p s) = dl_route s"
  "dl_clean (set_thread i p s) = dl_clean s" "dl_source (set_thread i p s) = dl_source s"
  by (simp_all add: set_thread_def)

lemma detached_cong: "dl_route s = dl_route t \<Longrightarrow> dl_clean s = dl_clean t \<Longrightarrow> detached s = detached t"
  by (simp add: detached_def)

lemma advance_detached:
  assumes ok: "dl_ok s" and d: "detached s"
  shows "dl_log (dl_advance i made s) = dl_log s" "detached (dl_advance i made s)"
proof -
  note facts = detachedD [OF ok d]
  have "dl_log (dl_advance i made s) = dl_log s \<and> dl_route (dl_advance i made s) = dl_route s
      \<and> dl_clean (dl_advance i made s) = dl_clean s"
  proof (cases "dl_threads s i")
    case (Some p)
    have route: "dl_route s = Downloaded \<or> dl_route s = Route_Stopped" using d by (auto simp: detached_def)
    with Some facts show ?thesis
      by (cases p) (auto simp: dl_advance_def source_step_def terminal_source_def flag_step_def cancel_operation_def
          abort_operation_def split: dl_source.split)
  qed (simp add: dl_advance_def)
  with d show "dl_log (dl_advance i made s) = dl_log s" "detached (dl_advance i made s)"
    by (simp_all add: detached_def)
qed

lemma detached_step:
  assumes ok: "dl_ok s" and d: "detached s" and op: "\<not> offers_transport op"
  shows "dl_log (dl_step se op s) = dl_log s \<and> detached (dl_step se op s)"
proof -
  note facts = detachedD [OF ok d]
  have route: "dl_route s \<noteq> Transport t" for t using d by (auto simp: detached_def)
  show ?thesis
  proof (cases op)
    case (Stopped t)
    with facts d show ?thesis by (auto simp: dl_step_def stopped_eq stop_waits_def stop_clean_def detached_def)
  next
    case (Advance i made)
    with advance_detached [OF ok d] show ?thesis by (simp add: dl_step_def)
  next
    case Release_Transport
    with d route show ?thesis by (auto simp: dl_step_def release_transport_def split: dl_route.split)
  qed (use op d facts in \<open>simp_all add: dl_step_def offers_transport_def set_progress_percentage_def publish_spool_def
      finish_without_spool_def complete_commit_def dl_begin_def canceller_step_def watchdog_step_def detached_def
      split: option.split\<close>)
qed

lemma run_from_append: "run_from step s (xs @ ys) = run_from step (run_from step s xs) ys"
  by (simp add: run_from_def)

lemma detached_run:
  assumes "dl_ok s" "detached s" "list_all (\<lambda>op. \<not> offers_transport op) later"
  shows "dl_log (run_from (dl_step se) s later) = dl_log s"
proof -
  from assms(3) have "dl_ok (run_from (dl_step se) s later)
      \<and> detached (run_from (dl_step se) s later) \<and> dl_log (run_from (dl_step se) s later) = dl_log s"
    by (induction later rule: rev_induct) (simp_all add: assms(1,2) dl_ok_step detached_step)
  then show ?thesis by simp
qed

lemma source_stays_step: "dl_source s \<noteq> Source_Pending \<Longrightarrow> dl_source (dl_step se op s) = dl_source s"
proof (cases op)
  case (Advance i made)
  assume "dl_source s \<noteq> Source_Pending"
  with Advance show ?thesis
    by (simp add: dl_step_def dl_advance_def source_step_def terminal_source_def flag_step_def cancel_operation_def
        abort_operation_def split: option.split dl_phase.split dl_source.split dl_route.split)
next
  case (Canceller_Step good)
  then show ?thesis
    by (simp add: dl_step_def canceller_step_def abort_operation_def split: option.split prod.split dl_cancel_phase.split)
qed (simp_all add: dl_step_def set_progress_percentage_def publish_spool_def register_transport_def
    release_transport_def bind_download_def finish_without_spool_def complete_commit_def Let_def stopped_eq
    dl_begin_def watchdog_step_def split: option.split dl_route.split)

lemma source_stays_run: "dl_source s \<noteq> Source_Pending \<Longrightarrow> dl_source (run_from (dl_step se) s later) = dl_source s"
  by (induction later rule: rev_induct) (simp_all add: source_stays_step)

text \<open>
  C31. A cancellation only ever reaches the operation that it was meant for. In every interleaving of
  the worker, the callers, the cancelling thread, the watchdog and the spool, once \<open>stopped\<close> has
  answered that the session is clean, or the download is complete, no later step cancels or aborts
  a transport that was given before; a complete download is not cancelled at all and leaves a clean
  session. If the answer is that the session is not clean, its transport is aborted in the same
  step. The transport is cancelled at most once, and the first end of the source wins.
\<close>

theorem clean_session_is_left_alone:
  assumes "s = run_from (dl_step se) (dl_with_source source cancelled (spool_start se)) ops"
    and "list_all (\<lambda>op. \<not> offers_transport op) later"
  shows "(dl_clean s = Some True \<longrightarrow> dl_log (run_from (dl_step se) s later) = dl_log s)
    \<and> (sp_status (dl_spool s) = Complete n \<longrightarrow>
         cancels s = 0 \<and> (dl_clean s = None \<longrightarrow> dl_clean (stopped t s) = Some True)
         \<and> dl_log (run_from (dl_step se) s later) = dl_log s)
    \<and> (dl_clean s = None \<and> dl_clean (stopped t s) = Some False \<longrightarrow>
         (\<exists>target. route_target (dl_route s) = Some target
            \<and> dl_log (stopped t s) = dl_log s @ [Abort_Transport target]))
    \<and> cancels s \<le> 1
    \<and> (dl_source s \<noteq> Source_Pending \<longrightarrow> dl_source (run_from (dl_step se) s later) = dl_source s)"
proof -
  have ok: "dl_ok s" unfolding assms(1) by (rule download_runs.inv_run)
  then have r: "dl_route_ok s" and c: "dl_cancel_ok s" and f: "dl_flags_ok s" by (simp_all add: dl_ok_def)
  have quiet: "dl_log (run_from (dl_step se) s later) = dl_log s" if "detached s"
    using ok that assms(2) by (rule detached_run)
  have clean: "detached s" if "dl_clean s = Some True"
    using that r by (auto simp: dl_route_ok_def detached_def)
  have complete: "\<not> dl_started s \<and> (dl_clean s = None \<longrightarrow> dl_clean (stopped t s) = Some True) \<and> detached s"
    if "sp_status (dl_spool s) = Complete n"
    using that r f
    by (cases "dl_clean s") (auto simp: dl_route_ok_def dl_flags_ok_def detached_def stopped_eq stop_waits_def stop_clean_def)
  have unclean: "\<exists>target. route_target (dl_route s) = Some target
      \<and> dl_log (stopped t s) = dl_log s @ [Abort_Transport target]"
    if "dl_clean s = None" "dl_clean (stopped t s) = Some False"
  proof -
    from that have "\<not> stop_clean s" "\<not> (stop_waits s \<and> \<not> t)" by (auto simp: stopped_eq split: if_splits)
    moreover from this(1) that(1) r f obtain target where "route_target (dl_route s) = Some target"
      by (cases "dl_route s") (auto simp: stop_clean_def dl_route_ok_def dl_flags_ok_def route_target_def is_downloading_def)
    ultimately show ?thesis by (simp add: stopped_eq)
  qed
  from c have "cancels s \<le> 1" "\<not> dl_started s \<longrightarrow> cancels s = 0" by (simp_all add: dl_cancel_ok_def)
  with quiet clean complete unclean source_stays_run show ?thesis by blast
qed

definition cancelled_run :: "dl_op list" where
  "cancelled_run =
     [Register_Transport 3, Release_Transport, Bind 7, Begin_Call 0 Call_Cancel, Advance 0 True, Advance 0 True,
      Advance 0 True, Advance 0 True, Stopped False, Advance 0 True, Canceller_Step True, Canceller_Step True,
      Canceller_Step True, Canceller_Step True, Stopped False]"

definition late_calls :: "dl_op list" where
  "late_calls =
     [Begin_Call 1 (Call_Abort ''disk''), Advance 1 True, Advance 1 True, Advance 1 True, Advance 1 True,
      Begin_Call 2 Call_Background, Advance 2 False, Advance 2 False, Advance 2 False, Advance 2 False, Advance 2 False,
      Watchdog_Step True]"

theorem clean_session_is_left_alone_witness:
  "dl_clean (run_from (dl_step spool_sample) (dl_with_source Source_Ready False (spool_start spool_sample)) cancelled_run)
     = Some True
   \<and> dl_log (run_from (dl_step spool_sample)
       (run_from (dl_step spool_sample) (dl_with_source Source_Ready False (spool_start spool_sample)) cancelled_run)
       late_calls)
     = [Cancel_Call 7]"
proof -
  let ?s = "run_from (dl_step spool_sample) (dl_with_source Source_Ready False (spool_start spool_sample)) cancelled_run"
  have "dl_clean ?s = Some True" "dl_log ?s = [Cancel_Call 7]" "list_all (\<lambda>op. \<not> offers_transport op) late_calls"
    by code_simp+
  with clean_session_is_left_alone [OF refl this(3), of spool_sample Source_Ready False cancelled_run 0 False]
  show ?thesis by simp
qed

end
