(* ===== verification/Oidc_Jwt.thy ===== *)
theory Oidc_Jwt
  imports Rust_Str
begin

text \<open>
  The validation of OpenID Connect ID tokens (\<open>src/oidc/jwt.rs\<close>): the selection of the signing
  key, the check of the signature over the received header and payload, and the check of the claims.

  The URL-safe base64 decoder, the two JSON readers and the signature schemes of \<open>ring\<close> are
  parameters. Times are nanoseconds around 1970; \<open>u64\<close> sums wrap, as in the release build.
\<close>

section \<open>Keys and algorithms\<close>

datatype algorithm = Rs256 | Ps256 | Es256

record jwk =
  jwk_kty :: string
  jwk_kid :: "string option"
  jwk_usage :: "string option"
  jwk_alg :: "string option"
  jwk_n :: "string option"
  jwk_e :: "string option"
  jwk_crv :: "string option"
  jwk_x :: "string option"
  jwk_y :: "string option"

text \<open>The errors, one for each message of the code.\<close>

datatype jwt_error =
    Unsupported_Algorithm string | Invalid_Key_Part string | Wrong_Curve | Invalid_Signature
  | Not_Signed | Invalid_Header | Unsupported_Extensions | Invalid_Encoding | No_Key
  | Invalid_Claims | Wrong_Issuer | Wrong_Client | Wrong_Party | No_Expiry | Expired
  | No_Issue_Time | Issued_In_Future | Wrong_Attempt | Invalid_Subject | Wrong_Account

definition parse_algorithm :: "string \<Rightarrow> (jwt_error, algorithm) result" where
  "parse_algorithm alg =
     (if alg = ''RS256'' then Inr Rs256
      else if alg = ''PS256'' then Inr Ps256
      else if alg = ''ES256'' then Inr Es256
      else Inl (Unsupported_Algorithm alg))"

fun algorithm_name :: "algorithm \<Rightarrow> string" where
  "algorithm_name Rs256 = ''RS256''"
| "algorithm_name Ps256 = ''PS256''"
| "algorithm_name Es256 = ''ES256''"

fun key_type :: "algorithm \<Rightarrow> string" where
  "key_type Rs256 = ''RSA''"
| "key_type Ps256 = ''RSA''"
| "key_type Es256 = ''EC''"

definition is_none_or :: "('a \<Rightarrow> bool) \<Rightarrow> 'a option \<Rightarrow> bool" where
  "is_none_or p x = (case x of None \<Rightarrow> True | Some a \<Rightarrow> p a)"

definition accepts :: "jwk \<Rightarrow> algorithm \<Rightarrow> string option \<Rightarrow> bool" where
  "accepts key alg kid \<longleftrightarrow>
     jwk_kty key = key_type alg
     \<and> is_none_or (\<lambda>usage. usage = ''sig'') (jwk_usage key)
     \<and> is_none_or (\<lambda>a. a = algorithm_name alg) (jwk_alg key)
     \<and> is_none_or (\<lambda>k. jwk_kid key = Some k) kid"

section \<open>The JSON values of the claims\<close>

datatype json_number = Pos_Int nat | Neg_Int int | Float_Number

datatype json =
  Null | Bool bool | Number json_number | String string | Array "json list"
  | Object "(string \<times> json) list"

fun as_str :: "json \<Rightarrow> string option" where
  "as_str (String s) = Some s"
| "as_str _ = None"

fun as_u64 :: "json \<Rightarrow> nat option" where
  "as_u64 (Number (Pos_Int n)) = Some n"
| "as_u64 _ = None"

record header =
  hd_alg :: string
  hd_kid :: "string option"
  hd_crit :: "json option"

text \<open>
  The libraries: the decoder, the readers of the header and of the claims, and the verification of
  an RSA signature with the padding of an algorithm and of an ECDSA signature on P-256.
\<close>

record crypto =
  base64url :: "string \<Rightarrow> string option"
  read_header :: "string \<Rightarrow> header option"
  read_claims :: "string \<Rightarrow> (string \<rightharpoonup> json) option"
  rsa_verify :: "algorithm \<Rightarrow> string \<Rightarrow> string \<Rightarrow> string \<Rightarrow> string \<Rightarrow> bool"
  p256_verify :: "string \<Rightarrow> string \<Rightarrow> string \<Rightarrow> bool"

definition decode_part :: "crypto \<Rightarrow> string option \<Rightarrow> string \<Rightarrow> (jwt_error, string) result" where
  "decode_part env part label = ok_or (Invalid_Key_Part label) (Option.bind part (base64url env))"

definition verify_key :: "crypto \<Rightarrow> jwk \<Rightarrow> algorithm \<Rightarrow> string \<Rightarrow> string \<Rightarrow> (jwt_error, unit) result" where
  "verify_key env key alg message signature =
     and_then
       (if alg = Rs256 \<or> alg = Ps256 then
          and_then (decode_part env (jwk_n key) ''modulus'') (\<lambda>n.
          and_then (decode_part env (jwk_e key) ''exponent'') (\<lambda>e.
            Inr (rsa_verify env alg n e message signature)))
        else if jwk_crv key \<noteq> Some ''P-256'' then Inl Wrong_Curve
        else
          and_then (decode_part env (jwk_x key) ''x coordinate'') (\<lambda>x.
          and_then (decode_part env (jwk_y key) ''y coordinate'') (\<lambda>y.
            Inr (p256_verify env (char_of (4 :: nat) # x @ y) message signature))))
       (\<lambda>verified. if verified then Inr () else Inl Invalid_Signature)"

text \<open>The loop over the candidates: it keeps the result of the last key it tried.\<close>

fun verify_any :: "crypto \<Rightarrow> jwk list \<Rightarrow> algorithm \<Rightarrow> string \<Rightarrow> string \<Rightarrow> (jwt_error, unit) result \<Rightarrow> (jwt_error, unit) result" where
  "verify_any env [] alg message signature verified = verified"
| "verify_any env (key # keys) alg message signature verified =
     (let verified = verify_key env key alg message signature in
      if is_ok verified then verified else verify_any env keys alg message signature verified)"

section \<open>The claims\<close>

record expected =
  ex_issuer :: string
  ex_client_id :: string
  ex_nonce :: "string option"
  ex_subject :: "string option"
  ex_now :: int

record id_claims =
  id_subject :: string
  id_name :: "string option"
  id_email :: "string option"

definition clock_skew :: nat where
  "clock_skew = 60"

text \<open>\<open>now.duration_since(UNIX_EPOCH).unwrap_or_default().as_secs()\<close>.\<close>

definition unix_seconds :: "int \<Rightarrow> nat" where
  "unix_seconds now = nat (now div 1000000000)"

definition wrapping_add :: "nat \<Rightarrow> nat \<Rightarrow> nat" where
  "wrapping_add a b = (a + b) mod 2 ^ 64"

definition claim_text :: "(string \<rightharpoonup> json) \<Rightarrow> string \<Rightarrow> string option" where
  "claim_text claims label = Option.bind (claims label) as_str"

definition audiences :: "(string \<rightharpoonup> json) \<Rightarrow> string list" where
  "audiences claims =
     (case claims ''aud'' of
        Some (String audience) \<Rightarrow> [audience]
      | Some (Array items) \<Rightarrow> List.map_filter as_str items
      | _ \<Rightarrow> [])"

definition optional_claim :: "(string \<rightharpoonup> json) \<Rightarrow> string \<Rightarrow> string option" where
  "optional_claim claims label =
     (case map_option trim (claim_text claims label) of
        None \<Rightarrow> None
      | Some v \<Rightarrow> if v = [] then None else Some (take_chars 200 v))"

definition or_else :: "'a option \<Rightarrow> 'a option \<Rightarrow> 'a option" where
  "or_else x y = (case x of None \<Rightarrow> y | Some _ \<Rightarrow> x)"

definition valid_subject :: "(string \<rightharpoonup> json) \<Rightarrow> (jwt_error, string) result" where
  "valid_subject claims =
     ok_or Invalid_Subject
       (case claim_text claims ''sub'' of
          None \<Rightarrow> None
        | Some s \<Rightarrow> if s \<noteq> [] \<and> length s \<le> 255 then Some s else None)"

definition validate_claims :: "(string \<rightharpoonup> json) \<Rightarrow> expected \<Rightarrow> (jwt_error, id_claims) result" where
  "validate_claims claims ex =
     and_then (ensure (claim_text claims ''iss'' = Some (ex_issuer ex)) Wrong_Issuer) (\<lambda>_.
     and_then (ensure (ex_client_id ex \<in> set (audiences claims)) Wrong_Client) (\<lambda>_.
     and_then
       (if 1 < length (audiences claims) \<or> claims ''azp'' \<noteq> None
        then ensure (claim_text claims ''azp'' = Some (ex_client_id ex)) Wrong_Party else Inr ()) (\<lambda>_.
     let now = unix_seconds (ex_now ex) in
     and_then (ok_or No_Expiry (Option.bind (claims ''exp'') as_u64)) (\<lambda>expiry.
     and_then (ensure (now < wrapping_add expiry clock_skew) Expired) (\<lambda>_.
     and_then (ok_or No_Issue_Time (Option.bind (claims ''iat'') as_u64)) (\<lambda>issued.
     and_then (ensure (issued \<le> wrapping_add now clock_skew) Issued_In_Future) (\<lambda>_.
     and_then
       (case ex_nonce ex of
          None \<Rightarrow> Inr ()
        | Some nonce \<Rightarrow> ensure (claim_text claims ''nonce'' = Some nonce) Wrong_Attempt) (\<lambda>_.
     and_then (valid_subject claims) (\<lambda>subject.
     and_then
       (case ex_subject ex of
          None \<Rightarrow> Inr ()
        | Some current \<Rightarrow> ensure (subject = current) Wrong_Account) (\<lambda>_.
     Inr \<lparr>id_subject = subject,
          id_name = or_else (optional_claim claims ''name'') (optional_claim claims ''preferred_username''),
          id_email = optional_claim claims ''email''\<rparr>))))))))))"

section \<open>The token\<close>

definition key_id :: "crypto \<Rightarrow> string \<Rightarrow> string option" where
  "key_id env token =
     Option.bind (base64url env (hd (split_char CHR ''.'' token))) (\<lambda>h.
       Option.bind (read_header env h) hd_kid)"

definition validate_id_token :: "crypto \<Rightarrow> string \<Rightarrow> jwk list \<Rightarrow> expected \<Rightarrow> (jwt_error, id_claims) result" where
  "validate_id_token env token keys ex =
     (let parts = split_char CHR ''.'' token in
      and_then (ensure (length parts = 3) Not_Signed) (\<lambda>_.
      and_then (ok_or Invalid_Header (Option.bind (base64url env (parts ! 0)) (read_header env))) (\<lambda>h.
      and_then (ensure (hd_crit h = None) Unsupported_Extensions) (\<lambda>_.
      and_then (parse_algorithm (hd_alg h)) (\<lambda>alg.
      and_then (ok_or Invalid_Encoding (base64url env (parts ! 2))) (\<lambda>signature.
      let message = parts ! 0 @ ''.'' @ parts ! 1;
          candidates = filter (\<lambda>key. accepts key alg (hd_kid h)) keys in
      and_then (ensure (candidates \<noteq> []) No_Key) (\<lambda>_.
      and_then (verify_any env candidates alg message signature (Inl Invalid_Signature)) (\<lambda>_.
      and_then (ok_or Invalid_Claims (Option.bind (base64url env (parts ! 1)) (read_claims env))) (\<lambda>claims.
      validate_claims claims ex)))))))))"

section \<open>Lemmas\<close>

text \<open>Three parts are exactly the two dots of the compact serialization.\<close>

lemma three_parts:
  "split_char d s = [a, b, c] \<longleftrightarrow> s = a @ d # b @ d # c \<and> d \<notin> set a \<and> d \<notin> set b \<and> d \<notin> set c"
proof
  assume eq: "split_char d s = [a, b, c]"
  then have "s = a @ d # b @ d # c" using join_split_char [of d s] by simp
  moreover have "d \<notin> set p" if "p \<in> {a, b, c}" for p
    using that eq split_char_parts [of p d s] by auto
  ultimately show "s = a @ d # b @ d # c \<and> d \<notin> set a \<and> d \<notin> set b \<and> d \<notin> set c" by blast
qed (simp add: split_char_append split_char_none)

lemma length_three_iff: "length xs = 3 \<longleftrightarrow> (\<exists>a b c. xs = [a, b, c])"
  by (auto simp: numeral_3_eq_3 length_Suc_conv)

lemma verify_any_Inr:
  "verify_any env keys alg message signature (Inl e) = Inr () \<longleftrightarrow>
     (\<exists>key \<in> set keys. verify_key env key alg message signature = Inr ())"
proof (induction keys arbitrary: e)
  case (Cons key keys)
  then show ?case by (cases "verify_key env key alg message signature") (auto simp: Let_def)
qed simp

text \<open>What a verified signature rests on.\<close>

definition signed_by :: "crypto \<Rightarrow> jwk \<Rightarrow> algorithm \<Rightarrow> string \<Rightarrow> string \<Rightarrow> bool" where
  "signed_by env key alg message signature \<longleftrightarrow>
     (case alg of
        Es256 \<Rightarrow>
          \<exists>x y. jwk_crv key = Some ''P-256'' \<and> Option.bind (jwk_x key) (base64url env) = Some x
            \<and> Option.bind (jwk_y key) (base64url env) = Some y
            \<and> p256_verify env (char_of (4 :: nat) # x @ y) message signature
      | _ \<Rightarrow>
          \<exists>n e. Option.bind (jwk_n key) (base64url env) = Some n
            \<and> Option.bind (jwk_e key) (base64url env) = Some e
            \<and> rsa_verify env alg n e message signature)"

lemma verify_key_Inr: "verify_key env key alg message signature = Inr u \<longleftrightarrow> signed_by env key alg message signature"
  by (cases alg) (auto simp: verify_key_def signed_by_def and_then_Inr_iff decode_part_def ok_or_Inr_iff)

lemma parse_algorithm_Inr: "parse_algorithm s = Inr alg \<longleftrightarrow> s = algorithm_name alg"
  by (cases alg) (auto simp: parse_algorithm_def)

text \<open>The claims a token must have, without the order of the checks and with exact sums.\<close>

definition claims_match :: "(string \<rightharpoonup> json) \<Rightarrow> expected \<Rightarrow> bool" where
  "claims_match claims ex \<longleftrightarrow>
     claims ''iss'' = Some (String (ex_issuer ex))
     \<and> (claims ''aud'' = Some (String (ex_client_id ex))
        \<or> (\<exists>items. claims ''aud'' = Some (Array items) \<and> String (ex_client_id ex) \<in> set items))
     \<and> claims ''azp'' \<in> {None, Some (String (ex_client_id ex))}
     \<and> (\<forall>items other. claims ''aud'' = Some (Array items) \<and> String other \<in> set items
          \<and> other \<noteq> ex_client_id ex \<longrightarrow> claims ''azp'' = Some (String (ex_client_id ex)))
     \<and> (\<exists>expiry. claims ''exp'' = Some (Number (Pos_Int expiry)) \<and> unix_seconds (ex_now ex) < expiry + 60)
     \<and> (\<exists>issued. claims ''iat'' = Some (Number (Pos_Int issued)) \<and> issued \<le> unix_seconds (ex_now ex) + 60)
     \<and> (\<forall>nonce. ex_nonce ex = Some nonce \<longrightarrow> claims ''nonce'' = Some (String nonce))"

lemma as_str_Some [simp]: "as_str v = Some s \<longleftrightarrow> v = String s"
  by (cases v) auto

lemma as_u64_Some [simp]: "as_u64 v = Some n \<longleftrightarrow> v = Number (Pos_Int n)"
  by (cases v rule: as_u64.cases) auto

lemma claim_text_Some: "claim_text claims label = Some s \<longleftrightarrow> claims label = Some (String s)"
  by (auto simp: claim_text_def bind_eq_Some_conv)

lemma map_filter_as_str: "a \<in> set (List.map_filter as_str items) \<longleftrightarrow> String a \<in> set items"
  by (induction items) (auto simp: List.map_filter_simps split: option.split)

lemma audience_iff:
  "a \<in> set (audiences claims) \<longleftrightarrow>
     claims ''aud'' = Some (String a) \<or> (\<exists>items. claims ''aud'' = Some (Array items) \<and> String a \<in> set items)"
proof (cases "claims ''aud''")
  case (Some v)
  then show ?thesis by (cases v) (auto simp: audiences_def map_filter_as_str)
qed (simp add: audiences_def)

lemma two_audiences:
  assumes "a \<in> set xs" "b \<in> set xs" "a \<noteq> b"
  shows "1 < length xs"
  using assms by (cases xs; cases "tl xs") auto

lemma wrapping_add_le: "wrapping_add a b \<le> a + b"
  by (simp add: wrapping_add_def)

lemma optional_claim_bounds:
  assumes "optional_claim claims label = Some s"
  shows "char_count s \<le> 200"
  using assms by (auto simp: optional_claim_def char_count_take_chars split: option.splits if_splits)

lemma valid_subject_Inr:
  "valid_subject claims = Inr s \<longleftrightarrow> claims ''sub'' = Some (String s) \<and> s \<noteq> [] \<and> length s \<le> 255"
  by (auto simp: valid_subject_def ok_or_Inr_iff claim_text_Some [symmetric] split: option.splits)

text \<open>The conditions of the code, as one conjunction.\<close>

lemma validate_claims_Inr:
  "validate_claims claims ex = Inr c \<longleftrightarrow>
     claims ''iss'' = Some (String (ex_issuer ex))
     \<and> ex_client_id ex \<in> set (audiences claims)
     \<and> (1 < length (audiences claims) \<or> claims ''azp'' \<noteq> None \<longrightarrow> claims ''azp'' = Some (String (ex_client_id ex)))
     \<and> (\<exists>expiry. claims ''exp'' = Some (Number (Pos_Int expiry))
          \<and> unix_seconds (ex_now ex) < wrapping_add expiry clock_skew)
     \<and> (\<exists>issued. claims ''iat'' = Some (Number (Pos_Int issued))
          \<and> issued \<le> wrapping_add (unix_seconds (ex_now ex)) clock_skew)
     \<and> (\<forall>nonce. ex_nonce ex = Some nonce \<longrightarrow> claims ''nonce'' = Some (String nonce))
     \<and> claims ''sub'' = Some (String (id_subject c)) \<and> id_subject c \<noteq> [] \<and> length (id_subject c) \<le> 255
     \<and> (\<forall>current. ex_subject ex = Some current \<longrightarrow> id_subject c = current)
     \<and> id_name c = or_else (optional_claim claims ''name'') (optional_claim claims ''preferred_username'')
     \<and> id_email c = optional_claim claims ''email''"
  apply (simp only: validate_claims_def and_then_Inr_iff ensure_Inr Let_def ok_or_Inr_iff
      claim_text_Some valid_subject_Inr bind_eq_Some_conv as_u64_Some)
  apply (cases c; cases "ex_nonce ex"; cases "ex_subject ex")
     apply (auto simp: valid_subject_Inr claim_text_Some)
  done

lemma or_else_cases: "or_else x y = Some v \<Longrightarrow> x = Some v \<or> y = Some v"
  by (simp add: or_else_def split: option.splits)

lemma validated_claims:
  assumes "validate_claims claims ex = Inr c"
  shows "claims_match claims ex"
    and "claims ''sub'' = Some (String (id_subject c))"
    and "id_subject c \<noteq> [] \<and> length (id_subject c) \<le> 255"
    and "\<forall>current. ex_subject ex = Some current \<longrightarrow> id_subject c = current"
    and "\<forall>s. id_name c = Some s \<or> id_email c = Some s \<longrightarrow> char_count s \<le> 200"
proof -
  note ok = assms [unfolded validate_claims_Inr]
  show "claims_match claims ex"
    unfolding claims_match_def
  proof (intro conjI)
    show "claims ''iss'' = Some (String (ex_issuer ex))" using ok by blast
    show aud: "claims ''aud'' = Some (String (ex_client_id ex))
        \<or> (\<exists>items. claims ''aud'' = Some (Array items) \<and> String (ex_client_id ex) \<in> set items)"
      using ok by (simp add: audience_iff)
    show "claims ''azp'' \<in> {None, Some (String (ex_client_id ex))}" using ok by blast
    show "\<forall>items other. claims ''aud'' = Some (Array items) \<and> String other \<in> set items
        \<and> other \<noteq> ex_client_id ex \<longrightarrow> claims ''azp'' = Some (String (ex_client_id ex))"
      using ok two_audiences [of _ "audiences claims" "ex_client_id ex"] by (simp add: audience_iff) blast
    show "\<exists>expiry. claims ''exp'' = Some (Number (Pos_Int expiry)) \<and> unix_seconds (ex_now ex) < expiry + 60"
      using ok wrapping_add_le [of _ 60] by (metis clock_skew_def less_le_trans)
    show "\<exists>issued. claims ''iat'' = Some (Number (Pos_Int issued)) \<and> issued \<le> unix_seconds (ex_now ex) + 60"
      using ok wrapping_add_le [of _ 60] by (metis clock_skew_def le_trans)
    show "\<forall>nonce. ex_nonce ex = Some nonce \<longrightarrow> claims ''nonce'' = Some (String nonce)" using ok by blast
  qed
  show "claims ''sub'' = Some (String (id_subject c))" using ok by blast
  show "id_subject c \<noteq> [] \<and> length (id_subject c) \<le> 255" using ok by blast
  show "\<forall>current. ex_subject ex = Some current \<longrightarrow> id_subject c = current" using ok by blast
  show "\<forall>s. id_name c = Some s \<or> id_email c = Some s \<longrightarrow> char_count s \<le> 200"
    using ok by (auto dest!: or_else_cases intro: optional_claim_bounds)
qed

section \<open>Properties\<close>

text \<open>
  C38. An accepted ID token is vouched for: it has exactly three parts, the signature in the last one
  covers the first two as they were received and verifies under a key of the provider whose type,
  use, algorithm and ID fit the header, which names one of the three asymmetric algorithms and no
  critical extension; its claims name the provider and this client, also as the party when there is
  another audience; it has not expired and was not issued in the future beyond the allowed skew, even where the sums of
  \<open>u64\<close> wrap; it carries the nonce of this attempt; and the identity that is returned is the subject
  of the token, the current one on a refresh, with a bounded name and email.
\<close>

theorem accepted_token_is_vouched_for:
  assumes "validate_id_token env token keys ex = Inr c"
  shows "\<exists>head payload tail h alg signature key claims.
    token = head @ ''.'' @ payload @ ''.'' @ tail
    \<and> CHR ''.'' \<notin> set (head @ payload @ tail)
    \<and> Option.bind (base64url env head) (read_header env) = Some h
    \<and> hd_crit h = None \<and> hd_alg h = algorithm_name alg
    \<and> key \<in> set keys \<and> accepts key alg (hd_kid h)
    \<and> base64url env tail = Some signature
    \<and> signed_by env key alg (head @ ''.'' @ payload) signature
    \<and> Option.bind (base64url env payload) (read_claims env) = Some claims
    \<and> claims_match claims ex
    \<and> claims ''sub'' = Some (String (id_subject c))
    \<and> id_subject c \<noteq> [] \<and> length (id_subject c) \<le> 255
    \<and> (\<forall>current. ex_subject ex = Some current \<longrightarrow> id_subject c = current)
    \<and> (\<forall>s. id_name c = Some s \<or> id_email c = Some s \<longrightarrow> char_count s \<le> 200)"
proof -
  from assms obtain head payload tail where parts: "split_char CHR ''.'' token = [head, payload, tail]"
    by (auto simp: validate_id_token_def Let_def and_then_Inr_iff length_three_iff)
  from assms parts obtain h alg signature claims where ok:
    "Option.bind (base64url env head) (read_header env) = Some h" "hd_crit h = None"
    "hd_alg h = algorithm_name alg" "base64url env tail = Some signature"
    "verify_any env (filter (\<lambda>key. accepts key alg (hd_kid h)) keys) alg (head @ ''.'' @ payload) signature
       (Inl Invalid_Signature) = Inr ()"
    "Option.bind (base64url env payload) (read_claims env) = Some claims"
    "validate_claims claims ex = Inr c"
    by (auto simp: validate_id_token_def Let_def and_then_Inr_iff ok_or_Inr_iff parse_algorithm_Inr)
  from ok(5) obtain key where "key \<in> set keys" "accepts key alg (hd_kid h)"
    "signed_by env key alg (head @ ''.'' @ payload) signature"
    by (auto simp: verify_any_Inr verify_key_Inr)
  moreover have "token = head @ ''.'' @ payload @ ''.'' @ tail" "CHR ''.'' \<notin> set (head @ payload @ tail)"
    using parts by (simp_all add: three_parts)
  ultimately show ?thesis using ok(1-4,6) validated_claims [OF ok(7)] by blast
qed

definition sample_claims :: "string \<rightharpoonup> json" where
  "sample_claims = map_of
     [(''iss'', String ''https://id''), (''aud'', Array [String ''qrow'', String ''other'', Null]),
      (''azp'', String ''qrow''), (''sub'', String ''s1''), (''nonce'', String ''n1''),
      (''exp'', Number (Pos_Int 1000)), (''iat'', Number (Pos_Int 700)), (''name'', String '' Ada '')]"

definition sample_crypto :: crypto where
  "sample_crypto =
     \<lparr>base64url = Some,
      read_header = (\<lambda>h. if h = ''h'' then Some \<lparr>hd_alg = ''ES256'', hd_kid = Some ''k1'', hd_crit = None\<rparr> else None),
      read_claims = (\<lambda>p. if p = ''p'' then Some sample_claims else None),
      rsa_verify = (\<lambda>_ _ _ _ _. False),
      p256_verify = (\<lambda>point message signature. message = ''h.p'' \<and> signature = ''s'')\<rparr>"

definition sample_key :: jwk where
  "sample_key =
     \<lparr>jwk_kty = ''EC'', jwk_kid = Some ''k1'', jwk_usage = Some ''sig'', jwk_alg = None, jwk_n = None, jwk_e = None,
      jwk_crv = Some ''P-256'', jwk_x = Some ''x'', jwk_y = Some ''y''\<rparr>"

definition sample_expected :: expected where
  "sample_expected =
     \<lparr>ex_issuer = ''https://id'', ex_client_id = ''qrow'', ex_nonce = Some ''n1'', ex_subject = None,
      ex_now = 1050000000000\<rparr>"

theorem accepted_token_is_vouched_for_witness:
  "validate_id_token sample_crypto ''h.p.s'' [sample_key] sample_expected
     = Inr \<lparr>id_subject = ''s1'', id_name = Some ''Ada'', id_email = None\<rparr>
   \<and> (\<exists>claims. claims_match claims sample_expected)"
proof -
  have ok: "validate_id_token sample_crypto ''h.p.s'' [sample_key] sample_expected
     = Inr \<lparr>id_subject = ''s1'', id_name = Some ''Ada'', id_email = None\<rparr>"
    by code_simp
  from accepted_token_is_vouched_for [OF ok] show ?thesis using ok by blast
qed

end
