(* ===== verification/Inbox.thy ===== *)
theory Inbox
  imports Rust_Prelude
begin

text \<open>
  The input channel of the assistant worker (\<open>src/assistant/inbox.rs\<close>). Threads send commands and
  the output of harness processes on one channel, each source with its own bound; the worker takes
  them with \<open>next\<close>, and while it waits for an answer it receives and holds what it cannot handle
  yet, as \<open>read_message\<close> of \<open>codex.rs\<close> and the control requests of \<open>claude.rs\<close> do. The worker of
  \<open>claude.rs\<close> also holds a result again that \<open>next\<close> has returned.

  A send is not atomic: it adds to the counter, then either takes its addition back or puts the
  message on the channel, or takes it back when the worker is gone. Each of these is a step, so every interleaving of the threads is a
  sequence of steps. How many threads are between two steps is kept in the bound.
\<close>

section \<open>State\<close>

datatype 'a inbox_message =
    Command_Msg 'a | Codex_Msg 'a | Codex_Closed | Output_Msg nat 'a | Output_Closed nat | Stop_Msg

datatype source = Commands | Codex_Output | Processes

record bound =
  bd_queued :: nat
  bd_capacity :: nat
  bd_entered :: nat
  bd_refused :: nat

record 'a inbox =
  ib_queue :: "'a inbox_message list"
  ib_bounds :: "source \<Rightarrow> bound"
  ib_held :: "'a inbox_message list"
  ib_held_output :: nat
  ib_output_closed :: bool
  ib_stopped :: bool

definition bound_new :: "nat \<Rightarrow> bound" where
  "bound_new capacity =
     \<lparr>bd_queued = 0, bd_capacity = capacity, bd_entered = 0, bd_refused = 0\<rparr>"

definition inbox_channel :: "nat \<Rightarrow> 'a inbox" where
  "inbox_channel command_capacity =
     \<lparr>ib_queue = [],
      ib_bounds = (\<lambda>src. bound_new (if src = Commands then command_capacity else 0)),
      ib_held = [], ib_held_output = 0, ib_output_closed = False, ib_stopped = False\<rparr>"

definition output_sender :: "nat \<Rightarrow> 'a inbox \<Rightarrow> 'a inbox" where
  "output_sender capacity ib = ib\<lparr>ib_bounds := (ib_bounds ib)(Codex_Output := bound_new capacity)\<rparr>"

definition set_process_capacity :: "nat \<Rightarrow> 'a inbox \<Rightarrow> 'a inbox" where
  "set_process_capacity capacity ib = ib\<lparr>ib_bounds := (ib_bounds ib)(Processes := bound_new capacity)\<rparr>"

text \<open>The harnesses set the bounds of an inbox before its first message.\<close>

definition open_inbox :: "nat \<Rightarrow> nat \<Rightarrow> nat \<Rightarrow> 'a inbox" where
  "open_inbox commands output processes =
     set_process_capacity processes (output_sender output (inbox_channel commands))"

section \<open>Senders\<close>

definition update_bound :: "source \<Rightarrow> (bound \<Rightarrow> bound) \<Rightarrow> 'a inbox \<Rightarrow> 'a inbox" where
  "update_bound src f ib = ib\<lparr>ib_bounds := (ib_bounds ib)(src := f (ib_bounds ib src))\<rparr>"

text \<open>\<open>fetch_sub\<close> wraps at zero.\<close>

definition fetch_sub :: "bound \<Rightarrow> bound" where
  "fetch_sub b = b\<lparr>bd_queued := (if bd_queued b = 0 then usize_max else bd_queued b - 1)\<rparr>"

definition send_begin :: "source \<Rightarrow> 'a inbox \<Rightarrow> 'a inbox" where
  "send_begin src =
     update_bound src
       (\<lambda>b. if bd_capacity b \<le> bd_queued b
            then b\<lparr>bd_queued := bd_queued b + 1, bd_refused := bd_refused b + 1\<rparr>
            else b\<lparr>bd_queued := bd_queued b + 1, bd_entered := bd_entered b + 1\<rparr>)"

text \<open>The end of a refused send: its addition is taken back and the caller gets \<open>Full\<close>.\<close>

definition send_back :: "source \<Rightarrow> 'a inbox \<Rightarrow> 'a inbox" where
  "send_back src ib =
     (if bd_refused (ib_bounds ib src) = 0 then ib
      else update_bound src (\<lambda>b. fetch_sub (b\<lparr>bd_refused := bd_refused b - 1\<rparr>)) ib)"

definition message_of :: "source \<Rightarrow> nat \<Rightarrow> 'a \<Rightarrow> 'a inbox_message" where
  "message_of src k a =
     (case src of Commands \<Rightarrow> Command_Msg a | Codex_Output \<Rightarrow> Codex_Msg a | Processes \<Rightarrow> Output_Msg k a)"

definition send_push :: "source \<Rightarrow> nat \<Rightarrow> 'a \<Rightarrow> 'a inbox \<Rightarrow> 'a inbox" where
  "send_push src k a ib =
     (if bd_entered (ib_bounds ib src) = 0 then ib
      else
        (update_bound src (\<lambda>b. b\<lparr>bd_entered := bd_entered b - 1\<rparr>) ib)
          \<lparr>ib_queue := ib_queue ib @ [message_of src k a]\<rparr>)"

text \<open>The worker is gone: the message comes back and the caller gets \<open>Disconnected\<close>.\<close>

definition send_lost :: "source \<Rightarrow> 'a inbox \<Rightarrow> 'a inbox" where
  "send_lost src ib =
     (if bd_entered (ib_bounds ib src) = 0 then ib
      else update_bound src (\<lambda>b. fetch_sub (b\<lparr>bd_entered := bd_entered b - 1\<rparr>)) ib)"

text \<open>\<open>stop\<close> and the drop of a sender put their message on the channel without a bound.\<close>

definition send_free :: "'a inbox_message \<Rightarrow> 'a inbox \<Rightarrow> 'a inbox" where
  "send_free m ib = ib\<lparr>ib_queue := ib_queue ib @ [m]\<rparr>"

section \<open>The worker\<close>

text \<open>\<open>None\<close> is the deadline: without a message the worker waits.\<close>

definition inbox_receive :: "'a inbox \<Rightarrow> 'a inbox_message option \<times> 'a inbox" where
  "inbox_receive ib =
     (if ib_output_closed ib then (Some Codex_Closed, ib)
      else
        (case ib_queue ib of
           [] \<Rightarrow> (None, ib)
         | m # ms \<Rightarrow>
             (let ib = ib\<lparr>ib_queue := ms\<rparr> in
              (Some m,
               case m of
                 Codex_Msg _ \<Rightarrow> update_bound Codex_Output fetch_sub ib
               | Codex_Closed \<Rightarrow> ib\<lparr>ib_output_closed := True\<rparr>
               | Output_Msg _ _ \<Rightarrow> update_bound Processes fetch_sub ib
               | Stop_Msg \<Rightarrow> ib\<lparr>ib_stopped := True\<rparr>
               | Command_Msg _ \<Rightarrow> ib
               | Output_Closed _ \<Rightarrow> ib))))"

definition is_codex :: "'a inbox_message \<Rightarrow> bool" where
  "is_codex m = (case m of Codex_Msg _ \<Rightarrow> True | _ \<Rightarrow> False)"

definition is_command :: "'a inbox_message \<Rightarrow> bool" where
  "is_command m = (case m of Command_Msg _ \<Rightarrow> True | _ \<Rightarrow> False)"

definition is_output :: "'a inbox_message \<Rightarrow> bool" where
  "is_output m = (case m of Output_Msg _ _ \<Rightarrow> True | _ \<Rightarrow> False)"

definition inbox_hold :: "'a inbox_message \<Rightarrow> 'a inbox \<Rightarrow> 'a inbox" where
  "inbox_hold m ib =
     ib\<lparr>ib_held_output := (if is_codex m then ib_held_output ib + 1 else ib_held_output ib),
        ib_held := ib_held ib @ [m]\<rparr>"

definition inbox_next :: "'a inbox \<Rightarrow> 'a inbox_message option \<times> 'a inbox" where
  "inbox_next ib =
     (if ib_stopped ib then (Some Stop_Msg, ib)
      else
        (let (r, ib) =
               (case ib_held ib of
                  m # ms \<Rightarrow>
                    (Some m,
                     ib\<lparr>ib_held := ms,
                        ib_held_output := (if is_codex m then ib_held_output ib - 1 else ib_held_output ib)\<rparr>)
                | [] \<Rightarrow> inbox_receive ib)
         in (case r of
               None \<Rightarrow> (None, ib)
             | Some m \<Rightarrow> (Some m, if is_command m then update_bound Commands fetch_sub ib else ib))))"

text \<open>
  One round of a request that waits for its answer: commands are held, output may be held or
  handled at once, a stop ends the request.
\<close>

definition inbox_wait :: "bool \<Rightarrow> 'a inbox \<Rightarrow> 'a inbox" where
  "inbox_wait keep ib =
     (let (r, ib1) = inbox_receive ib in
      case r of
        None \<Rightarrow> ib1
      | Some m \<Rightarrow>
          if is_command m \<or> keep \<and> m \<noteq> Stop_Msg \<and> m \<noteq> Codex_Closed then inbox_hold m ib1 else ib1)"

datatype 'a inbox_op =
    Send_Begin source | Send_Back source | Send_Push source nat 'a | Send_Lost source | Send_Stop | Drop_Output
  | Drop_Process nat | Worker_Next | Worker_Wait bool

fun inbox_step :: "'a inbox_op \<Rightarrow> 'a inbox \<Rightarrow> 'a inbox" where
  "inbox_step (Send_Begin src) ib = send_begin src ib"
| "inbox_step (Send_Back src) ib = send_back src ib"
| "inbox_step (Send_Push src k a) ib = send_push src k a ib"
| "inbox_step (Send_Lost src) ib = send_lost src ib"
| "inbox_step Send_Stop ib = send_free Stop_Msg ib"
| "inbox_step Drop_Output ib = send_free Codex_Closed ib"
| "inbox_step (Drop_Process k) ib = send_free (Output_Closed k) ib"
| "inbox_step Worker_Next ib = snd (inbox_next ib)"
| "inbox_step (Worker_Wait keep) ib = inbox_wait keep ib"

section \<open>A result that is taken twice\<close>

text \<open>
  The worker of Claude Code keeps the streamed text of a conversation. When a result arrives while
  there is one, \<open>session_event\<close> of \<open>claude.rs\<close> gives the text first and holds the result again, so that
  \<open>next\<close> returns it a second time. \<open>hw_texts\<close> has the sources whose session has a text; what a
  message is, is a parameter.
\<close>

datatype output_kind = Text_Start | Text_Delta | Text_End | Turn_Result | Output_Failed | Other_Output

record 'a harness_worker =
  hw_inbox :: "'a inbox"
  hw_texts :: "nat list"

definition harness_new :: "'a inbox \<Rightarrow> 'a harness_worker" where
  "harness_new ib = \<lparr>hw_inbox = ib, hw_texts = []\<rparr>"

text \<open>
  \<open>session_event\<close> for a message of the source \<open>k\<close>, with whether its session has a turn. Only a result
  changes the inbox.
\<close>

definition session_event :: "('a \<Rightarrow> output_kind) \<Rightarrow> bool \<Rightarrow> nat \<Rightarrow> 'a \<Rightarrow> 'a harness_worker \<Rightarrow> 'a harness_worker" where
  "session_event kind turn k a w =
     (case kind a of
        Text_Delta \<Rightarrow> w\<lparr>hw_texts := List.insert k (hw_texts w)\<rparr>
      | Turn_Result \<Rightarrow>
          (let w' = w\<lparr>hw_texts := removeAll k (hw_texts w)\<rparr>
           in if turn \<and> k \<in> set (hw_texts w) then w'\<lparr>hw_inbox := inbox_hold (Output_Msg k a) (hw_inbox w)\<rparr> else w')
      | Other_Output \<Rightarrow> w
      | _ \<Rightarrow> w\<lparr>hw_texts := removeAll k (hw_texts w)\<rparr>)"

text \<open>
  One message of \<open>next_input\<close>. \<open>known\<close>: the source is a session and not the control process. The end
  of an output ends its session.
\<close>

definition take_input ::
  "('a \<Rightarrow> output_kind) \<Rightarrow> bool \<Rightarrow> bool \<Rightarrow> 'a harness_worker \<Rightarrow> 'a inbox_message option \<times> 'a harness_worker" where
  "take_input kind known turn w =
     (let (r, ib) = inbox_next (hw_inbox w); w = w\<lparr>hw_inbox := ib\<rparr> in
      (r, case r of
            Some (Output_Msg k a) \<Rightarrow> if known then session_event kind turn k a w else w
          | Some (Output_Closed k) \<Rightarrow> w\<lparr>hw_texts := removeAll k (hw_texts w)\<rparr>
          | _ \<Rightarrow> w))"

text \<open>\<open>Forget_Text\<close>: a new turn, or the end of an idle session.\<close>

datatype 'a harness_op = Channel "'a inbox_op" | Take_Input bool bool | Forget_Text nat

definition harness_step :: "('a \<Rightarrow> output_kind) \<Rightarrow> 'a harness_op \<Rightarrow> 'a harness_worker \<Rightarrow> 'a harness_worker" where
  "harness_step kind op w =
     (case op of
        Channel op \<Rightarrow> w\<lparr>hw_inbox := inbox_step op (hw_inbox w)\<rparr>
      | Take_Input known turn \<Rightarrow> snd (take_input kind known turn w)
      | Forget_Text k \<Rightarrow> w\<lparr>hw_texts := removeAll k (hw_texts w)\<rparr>)"

lemma session_event_inbox:
  "hw_inbox (session_event kind turn k a w) = hw_inbox w
   \<or> hw_inbox (session_event kind turn k a w) = inbox_hold (Output_Msg k a) (hw_inbox w)"
  by (auto simp: session_event_def Let_def split: output_kind.split)

text \<open>What a step does to the inbox: a step of the inbox, or one and a hold.\<close>

lemma harness_step_inbox:
  "\<exists>op'. hw_inbox (harness_step kind op w) = inbox_step op' (hw_inbox w)
     \<or> (\<exists>k a. hw_inbox (harness_step kind op w) = inbox_hold (Output_Msg k a) (inbox_step op' (hw_inbox w)))
     \<or> hw_inbox (harness_step kind op w) = hw_inbox w"
proof (cases op)
  case (Channel c)
  then show ?thesis by (auto simp: harness_step_def)
next
  case (Take_Input known turn)
  obtain r ib where nx: "inbox_next (hw_inbox w) = (r, ib)" by (cases "inbox_next (hw_inbox w)")
  have "hw_inbox (harness_step kind op w) = ib \<or> (\<exists>k a. hw_inbox (harness_step kind op w) = inbox_hold (Output_Msg k a) ib)"
    using session_event_inbox [of kind turn _ _ "w\<lparr>hw_inbox := ib\<rparr>"]
    by (auto simp: harness_step_def Take_Input take_input_def nx Let_def split: option.split inbox_message.split)
  moreover have "inbox_step Worker_Next (hw_inbox w) = ib" by (simp add: nx)
  ultimately show ?thesis by metis
qed (simp add: harness_step_def)

section \<open>The bounds\<close>

definition from_source :: "source \<Rightarrow> 'a inbox_message \<Rightarrow> bool" where
  "from_source src m =
     (case src of Commands \<Rightarrow> is_command m | Codex_Output \<Rightarrow> is_codex m | Processes \<Rightarrow> is_output m)"

text \<open>The messages of a source that the worker has not taken; a held command still waits.\<close>

definition waiting :: "source \<Rightarrow> 'a inbox \<Rightarrow> nat" where
  "waiting src ib =
     length (filter (from_source src) (ib_queue ib))
     + (if src = Commands then length (filter is_command (ib_held ib)) else 0)"

definition bound_ok :: "nat \<Rightarrow> bound \<Rightarrow> bool" where
  "bound_ok n b \<longleftrightarrow>
     bd_queued b = bd_entered b + bd_refused b + n \<and> bd_entered b + n \<le> bd_capacity b"

text \<open>While the worker handles a command that it just took, \<open>n\<close> is one.\<close>

definition pending_ok :: "nat \<Rightarrow> 'a inbox \<Rightarrow> bool" where
  "pending_ok n ib \<longleftrightarrow>
     (\<forall>src. bound_ok (waiting src ib + (if src = Commands then n else 0)) (ib_bounds ib src))
     \<and> ib_held_output ib = length (filter is_codex (ib_held ib))"

abbreviation inbox_ok :: "'a inbox \<Rightarrow> bool" where
  "inbox_ok ib \<equiv> pending_ok 0 ib"

lemma pending_okD: "pending_ok n ib \<Longrightarrow>
    bound_ok (waiting src ib + (if src = Commands then n else 0)) (ib_bounds ib src)"
  by (simp add: pending_ok_def)

lemma inbox_okD: "pending_ok 0 ib \<Longrightarrow> bound_ok (waiting src ib) (ib_bounds ib src)"
  by (simp add: pending_ok_def)

lemma pending_okI: "(\<And>src. bound_ok (waiting src ib + (if src = Commands then n else 0)) (ib_bounds ib src))
    \<Longrightarrow> ib_held_output ib = length (filter is_codex (ib_held ib)) \<Longrightarrow> pending_ok n ib"
  by (simp add: pending_ok_def)

lemma waiting_bounds [simp]: "waiting src (update_bound s f ib) = waiting src ib"
  by (simp add: waiting_def update_bound_def)

lemma update_bound_simps [simp]:
  "ib_bounds (update_bound s f ib) src = (if src = s then f (ib_bounds ib s) else ib_bounds ib src)"
  "ib_held (update_bound s f ib) = ib_held ib"
  "ib_held_output (update_bound s f ib) = ib_held_output ib"
  "ib_queue (update_bound s f ib) = ib_queue ib"
  "ib_output_closed (update_bound s f ib) = ib_output_closed ib"
  "ib_stopped (update_bound s f ib) = ib_stopped ib"
  by (simp_all add: update_bound_def)

lemma pending_ok_update:
  assumes "pending_ok n ib"
    and "bound_ok (waiting s ib + (if s = Commands then n else 0)) (ib_bounds ib s) \<Longrightarrow>
       bound_ok (waiting s ib + (if s = Commands then m else 0)) (f (ib_bounds ib s))"
    and "s \<noteq> Commands \<Longrightarrow> m = n"
  shows "pending_ok m (update_bound s f ib)"
proof (rule pending_okI)
  show "bound_ok (waiting src (update_bound s f ib) + (if src = Commands then m else 0))
      (ib_bounds (update_bound s f ib) src)" for src
    using pending_okD [OF assms(1), of src] assms(2,3) by (cases "src = s") (auto split: if_splits)
qed (use assms(1) in \<open>simp add: pending_ok_def\<close>)

lemma inbox_ok_open: "inbox_ok (open_inbox cmds outs procs)"
  by (simp add: pending_ok_def bound_ok_def waiting_def open_inbox_def output_sender_def
      set_process_capacity_def inbox_channel_def bound_new_def)

lemma inbox_ok_send_begin: "inbox_ok ib \<Longrightarrow> inbox_ok (send_begin src ib)"
  unfolding send_begin_def by (erule pending_ok_update) (auto simp: bound_ok_def)

lemma inbox_ok_send_back: "inbox_ok ib \<Longrightarrow> inbox_ok (send_back src ib)"
  unfolding send_back_def
  by (auto elim!: pending_ok_update simp: bound_ok_def fetch_sub_def)

lemma inbox_ok_send_lost: "inbox_ok ib \<Longrightarrow> inbox_ok (send_lost src ib)"
  unfolding send_lost_def
  by (auto elim!: pending_ok_update simp: bound_ok_def fetch_sub_def)

lemma from_source_message_of [simp]: "from_source src (message_of s k a) \<longleftrightarrow> src = s"
  by (cases src; cases s) (simp_all add: from_source_def is_command_def is_codex_def is_output_def message_of_def)

lemma inbox_ok_send_push:
  assumes "inbox_ok ib"
  shows "inbox_ok (send_push s k a ib)"
proof (cases "bd_entered (ib_bounds ib s) = 0")
  case False
  let ?ib = "send_push s k a ib"
  have w: "waiting src ?ib = waiting src ib + (if src = s then 1 else 0)" for src
    using False by (simp add: send_push_def waiting_def)
  show ?thesis
  proof (rule pending_okI)
    show "bound_ok (waiting src ?ib + (if src = Commands then 0 else 0)) (ib_bounds ?ib src)" for src
      using pending_okD [OF assms, of src] False
      unfolding w by (auto simp: send_push_def bound_ok_def)
  qed (use assms False in \<open>simp add: pending_ok_def send_push_def\<close>)
qed (use assms in \<open>simp add: send_push_def\<close>)

lemma inbox_ok_send_free:
  "inbox_ok ib \<Longrightarrow> (\<And>src. \<not> from_source src m) \<Longrightarrow> inbox_ok (send_free m ib)"
proof -
  assume ok: "inbox_ok ib" and m: "\<And>src. \<not> from_source src m"
  have "waiting src (send_free m ib) = waiting src ib" for src
    using m by (simp add: send_free_def waiting_def)
  with ok show ?thesis by (simp add: pending_ok_def send_free_def)
qed

lemma source_of_message:
  "from_source src Stop_Msg = False" "from_source src Codex_Closed = False"
  "from_source src (Output_Closed k) = False"
  "from_source src (Command_Msg a) = (src = Commands)"
  "from_source src (Codex_Msg a) = (src = Codex_Output)"
  "from_source src (Output_Msg k a) = (src = Processes)"
  by (cases src; simp add: from_source_def is_command_def is_codex_def is_output_def)+

lemma pop_pending:
  assumes "inbox_ok ib" "ib_queue ib = m # ms" "is_command m \<or> (\<forall>src. \<not> from_source src m)"
  shows "pending_ok (of_bool (is_command m)) (ib\<lparr>ib_queue := ms\<rparr>)"
proof (rule pending_okI)
  fix src
  have "waiting src ib = waiting src (ib\<lparr>ib_queue := ms\<rparr>) + of_bool (from_source src m)"
    using assms(2) by (simp add: waiting_def)
  moreover have "from_source src m = (is_command m \<and> src = Commands)"
    using assms(3) by (cases m) (auto simp: source_of_message is_command_def)
  ultimately show "bound_ok (waiting src (ib\<lparr>ib_queue := ms\<rparr>)
        + (if src = Commands then of_bool (is_command m) else 0)) (ib_bounds (ib\<lparr>ib_queue := ms\<rparr>) src)"
    using pending_okD [OF assms(1), of src] by auto
qed (use assms(1) in \<open>simp add: pending_ok_def\<close>)

lemma pop_counted:
  assumes "inbox_ok ib" "ib_queue ib = m # ms" "from_source s m" "s \<noteq> Commands"
  shows "inbox_ok (update_bound s fetch_sub (ib\<lparr>ib_queue := ms\<rparr>))"
proof (rule pending_okI)
  fix src
  have "waiting src ib = waiting src (ib\<lparr>ib_queue := ms\<rparr>) + of_bool (from_source src m)"
    using assms(2) by (simp add: waiting_def)
  moreover have "from_source src m = (src = s)"
    using assms(3) by (cases m) (auto simp: source_of_message)
  ultimately show "bound_ok (waiting src (update_bound s fetch_sub (ib\<lparr>ib_queue := ms\<rparr>))
        + (if src = Commands then 0 else 0)) (ib_bounds (update_bound s fetch_sub (ib\<lparr>ib_queue := ms\<rparr>)) src)"
    using pending_okD [OF assms(1), of src] assms(4) by (auto simp: bound_ok_def fetch_sub_def)
qed (use assms(1) in \<open>simp add: pending_ok_def\<close>)

definition taken :: "'a inbox_message option \<Rightarrow> nat" where
  "taken r = (case r of None \<Rightarrow> 0 | Some m \<Rightarrow> of_bool (is_command m))"

lemma pending_flags [simp]:
  "pending_ok n (ib\<lparr>ib_stopped := b\<rparr>) = pending_ok n ib"
  "pending_ok n (ib\<lparr>ib_output_closed := b\<rparr>) = pending_ok n ib"
  by (simp_all add: pending_ok_def waiting_def)

lemma receive_pending:
  assumes "inbox_ok ib" "inbox_receive ib = (r, ib1)"
  shows "pending_ok (taken r) ib1"
proof (cases "ib_output_closed ib")
  case True
  with assms show ?thesis by (auto simp: inbox_receive_def taken_def is_command_def)
next
  case False
  show ?thesis
  proof (cases "ib_queue ib")
    case Nil
    with False assms show ?thesis by (auto simp: inbox_receive_def taken_def)
  next
    case (Cons m ms)
    note pop = pop_pending [OF assms(1) Cons] pop_counted [OF assms(1) Cons]
    show ?thesis
    proof (cases m)
      case (Codex_Msg a)
      with pop(2) [of Codex_Output] False Cons assms(2) show ?thesis
        by (auto simp: inbox_receive_def taken_def is_command_def source_of_message)
    next
      case (Output_Msg k a)
      with pop(2) [of Processes] False Cons assms(2) show ?thesis
        by (auto simp: inbox_receive_def taken_def is_command_def source_of_message)
    qed (use pop(1) False Cons assms(2) in
          \<open>auto simp: inbox_receive_def taken_def is_command_def source_of_message\<close>)
  qed
qed

lemma hold_pending: "pending_ok (of_bool (is_command m)) ib \<Longrightarrow> inbox_ok (inbox_hold m ib)"
proof -
  assume ok: "pending_ok (of_bool (is_command m)) ib"
  have "waiting src (inbox_hold m ib) = waiting src ib + (if src = Commands then of_bool (is_command m) else 0)" for src
    by (simp add: waiting_def inbox_hold_def)
  with ok show ?thesis by (simp add: pending_ok_def inbox_hold_def)
qed

lemma release_command: "pending_ok 1 ib \<Longrightarrow> inbox_ok (update_bound Commands fetch_sub ib)"
  by (erule pending_ok_update) (auto simp: bound_ok_def fetch_sub_def)

lemma inbox_ok_wait:
  assumes "inbox_ok ib"
  shows "inbox_ok (inbox_wait keep ib)"
proof -
  obtain r ib1 where r: "inbox_receive ib = (r, ib1)" by (cases "inbox_receive ib")
  from receive_pending [OF assms r] hold_pending show ?thesis
    by (cases r) (auto simp: inbox_wait_def r taken_def)
qed

lemma inbox_ok_next:
  assumes "inbox_ok ib"
  shows "inbox_ok (snd (inbox_next ib))"
proof (cases "ib_stopped ib")
  case False
  obtain r ib1 where r: "(case ib_held ib of
       m # ms \<Rightarrow> (Some m, ib\<lparr>ib_held := ms,
          ib_held_output := (if is_codex m then ib_held_output ib - 1 else ib_held_output ib)\<rparr>)
     | [] \<Rightarrow> inbox_receive ib) = (r, ib1)"
    by (cases "case ib_held ib of
       m # ms \<Rightarrow> (Some m, ib\<lparr>ib_held := ms,
          ib_held_output := (if is_codex m then ib_held_output ib - 1 else ib_held_output ib)\<rparr>)
     | [] \<Rightarrow> inbox_receive ib")
  have "pending_ok (taken r) ib1"
  proof (cases "ib_held ib")
    case Nil
    with r receive_pending [OF assms] show ?thesis by simp
  next
    case (Cons m ms)
    with r have ib1: "r = Some m" "ib1 = ib\<lparr>ib_held := ms,
       ib_held_output := (if is_codex m then ib_held_output ib - 1 else ib_held_output ib)\<rparr>" by auto
    have "waiting src ib = waiting src ib1 + (if src = Commands then of_bool (is_command m) else 0)" for src
      using Cons by (simp add: ib1 waiting_def)
    then have "bound_ok (waiting src ib1 + (if src = Commands then of_bool (is_command m) else 0))
        (ib_bounds ib1 src)" for src
      using pending_okD [OF assms, of src] by (simp add: ib1(2))
    moreover have "ib_held_output ib1 = length (filter is_codex (ib_held ib1))"
      using assms Cons by (simp add: pending_ok_def ib1(2))
    ultimately show ?thesis by (simp add: pending_ok_def ib1(1) taken_def)
  qed
  with False r release_command [of ib1] show ?thesis
    by (cases r) (auto simp: inbox_next_def taken_def)
qed (use assms in \<open>simp add: inbox_next_def\<close>)

lemma inbox_ok_step: "inbox_ok ib \<Longrightarrow> inbox_ok (inbox_step op ib)"
  by (cases op)
    (simp_all add: inbox_ok_send_begin inbox_ok_send_back inbox_ok_send_lost inbox_ok_send_push inbox_ok_send_free
      inbox_ok_wait inbox_ok_next source_of_message)

lemma inbox_ok_harness: "inbox_ok (hw_inbox w) \<Longrightarrow> inbox_ok (hw_inbox (harness_step kind op w))"
proof -
  assume ok: "inbox_ok (hw_inbox w)"
  have hold: "inbox_ok ib \<Longrightarrow> inbox_ok (inbox_hold (Output_Msg k a) ib)" for ib :: "'a inbox" and k a
    using hold_pending [of "Output_Msg k a" ib] by (simp add: is_command_def)
  from harness_step_inbox [of kind op w] show ?thesis
    by (elim exE disjE) (simp_all add: ok inbox_ok_step hold del: inbox_step.simps)
qed

interpretation inbox_runs: kept_invariant "harness_new (open_inbox cmds outs procs)" "harness_step kind" "\<lambda>w. inbox_ok (hw_inbox w)"
  for cmds outs procs kind
  by unfold_locales (simp add: harness_new_def inbox_ok_open, rule inbox_ok_harness)

lemma inbox_step_capacity: "bd_capacity (ib_bounds (inbox_step op ib) s) = bd_capacity (ib_bounds ib s)"
  by (cases op)
    (auto simp: send_begin_def send_back_def send_lost_def send_push_def send_free_def inbox_next_def inbox_wait_def
      inbox_receive_def inbox_hold_def fetch_sub_def Let_def split: list.splits inbox_message.splits)

lemma harness_step_capacity:
  "bd_capacity (ib_bounds (hw_inbox (harness_step kind op w)) s) = bd_capacity (ib_bounds (hw_inbox w) s)"
  using harness_step_inbox [of kind op w]
  by (elim exE disjE) (simp_all add: inbox_step_capacity inbox_hold_def del: inbox_step.simps)

text \<open>
  C39. The bounds of the inbox hold under every interleaving of the senders' steps with each other
  and with the worker: the commands, Codex messages and process messages that wait are never more
  than the bound of their source, whatever the other sources send; a counter is exactly the messages
  that wait and the sends in progress, so it never wraps below zero, a command counts until the
  worker takes it with \<open>next\<close>, also while it is held, and the number of held Codex messages is right,
  also when the worker holds a result again that it has taken.
\<close>

theorem inbox_bounds_hold:
  "let ib = hw_inbox (run_from (harness_step kind) (harness_new (open_inbox cmds outs procs)) ops) in
     waiting Commands ib \<le> cmds \<and> waiting Codex_Output ib \<le> outs \<and> waiting Processes ib \<le> procs
     \<and> bd_queued (ib_bounds ib src)
         = waiting src ib + bd_entered (ib_bounds ib src) + bd_refused (ib_bounds ib src)
     \<and> ib_held_output ib = length (filter is_codex (ib_held ib))"
proof -
  let ?start = "harness_new (open_inbox cmds outs procs :: 'a inbox)"
  let ?ib = "hw_inbox (run_from (harness_step kind) ?start ops)"
  have ok: "inbox_ok ?ib" by (rule inbox_runs.inv_run)
  have "bd_capacity (ib_bounds ?ib s) = bd_capacity (ib_bounds (hw_inbox ?start) s)" for s
    by (induction ops rule: rev_induct) (simp_all add: harness_step_capacity)
  then have caps: "bd_capacity (ib_bounds ?ib Commands) = cmds"
    "bd_capacity (ib_bounds ?ib Codex_Output) = outs" "bd_capacity (ib_bounds ?ib Processes) = procs"
    by (simp_all add: harness_new_def open_inbox_def output_sender_def set_process_capacity_def inbox_channel_def bound_new_def)
  have le: "waiting s ?ib \<le> bd_capacity (ib_bounds ?ib s)" for s
    using inbox_okD [OF ok, of s] by (simp add: bound_ok_def)
  have eq: "bd_queued (ib_bounds ?ib src)
      = waiting src ?ib + bd_entered (ib_bounds ?ib src) + bd_refused (ib_bounds ?ib src)"
    using inbox_okD [OF ok, of src] by (simp add: bound_ok_def)
  have "ib_held_output ?ib = length (filter is_codex (ib_held ?ib))"
    using ok by (simp add: pending_ok_def)
  with eq le [of Commands] le [of Codex_Output] le [of Processes] show ?thesis
    unfolding Let_def caps by blast
qed

section \<open>A stop request arrives\<close>

text \<open>What \<open>next\<close> returns during a run.\<close>

fun taken_messages :: "('a \<Rightarrow> output_kind) \<Rightarrow> 'a harness_op list \<Rightarrow> 'a harness_worker \<Rightarrow> 'a inbox_message option list" where
  "taken_messages kind [] w = []"
| "taken_messages kind (op # ops) w =
     (case op of
        Channel Worker_Next \<Rightarrow> [fst (inbox_next (hw_inbox w))]
      | Take_Input known turn \<Rightarrow> [fst (take_input kind known turn w)]
      | _ \<Rightarrow> [])
     @ taken_messages kind ops (harness_step kind op w)"

definition send_stop :: "'a harness_worker \<Rightarrow> 'a harness_worker" where
  "send_stop w = w\<lparr>hw_inbox := send_free Stop_Msg (hw_inbox w)\<rparr>"

definition stop_sent :: "'a inbox \<Rightarrow> bool" where
  "stop_sent ib \<longleftrightarrow> ib_stopped ib \<or> ib_output_closed ib \<or> Stop_Msg \<in> set (ib_queue ib)"

text \<open>
  How often \<open>next\<close> may return for a message: once, and once more for a piece of text, since a text lets one
  result be taken twice.
\<close>

definition message_weight :: "('a \<Rightarrow> output_kind) \<Rightarrow> 'a inbox_message \<Rightarrow> nat" where
  "message_weight kind m = (case m of Output_Msg k a \<Rightarrow> (if kind a = Text_Delta then 2 else 1) | _ \<Rightarrow> 1)"

definition messages_weight :: "('a \<Rightarrow> output_kind) \<Rightarrow> 'a inbox_message list \<Rightarrow> nat" where
  "messages_weight kind ms = sum_list (map (message_weight kind) ms)"

definition before_stop :: "('a \<Rightarrow> output_kind) \<Rightarrow> 'a inbox_message list \<Rightarrow> nat" where
  "before_stop kind ms = messages_weight kind (takeWhile (\<lambda>m. m \<noteq> Stop_Msg) ms)"

text \<open>How many messages \<open>next\<close> may still return before the stop, or the end of the output.\<close>

definition stop_distance :: "('a \<Rightarrow> output_kind) \<Rightarrow> 'a inbox \<Rightarrow> nat" where
  "stop_distance kind ib =
     (if ib_stopped ib then 0
      else messages_weight kind (ib_held ib) + (if ib_output_closed ib then 0 else before_stop kind (ib_queue ib)))"

lemma messages_weight_simps [simp]:
  "messages_weight kind [] = 0"
  "messages_weight kind (m # ms) = message_weight kind m + messages_weight kind ms"
  "messages_weight kind (ms @ ns) = messages_weight kind ms + messages_weight kind ns"
  by (simp_all add: messages_weight_def)

lemma before_stop_append: "Stop_Msg \<in> set ms \<Longrightarrow> before_stop kind (ms @ ns) = before_stop kind ms"
  by (simp add: before_stop_def takeWhile_append1)

lemma before_stop_Cons:
  "before_stop kind (m # ms) = (if m = Stop_Msg then 0 else message_weight kind m + before_stop kind ms)"
  by (simp add: before_stop_def)

lemma receive_stop:
  assumes "stop_sent ib" "\<not> ib_stopped ib" "inbox_receive ib = (r, ib1)"
  shows "ib_held ib1 = ib_held ib \<and>
    (if ib_output_closed ib then r = Some Codex_Closed \<and> ib1 = ib
     else if r = Some Stop_Msg then ib_stopped ib1
     else if r = Some Codex_Closed then ib_output_closed ib1 \<and> \<not> ib_stopped ib1
     else r \<noteq> None \<and> stop_sent ib1 \<and> \<not> ib_stopped ib1 \<and> \<not> ib_output_closed ib1
          \<and> before_stop kind (ib_queue ib) = message_weight kind (the r) + before_stop kind (ib_queue ib1))"
proof (cases "ib_output_closed ib")
  case True
  with assms show ?thesis by (auto simp: inbox_receive_def)
next
  case False
  with assms(1,2) obtain m ms where q: "ib_queue ib = m # ms" "Stop_Msg \<in> set (m # ms)"
    by (cases "ib_queue ib") (auto simp: stop_sent_def)
  with assms(2,3) False show ?thesis
    by (cases m) (auto simp: inbox_receive_def Let_def stop_sent_def before_stop_Cons)
qed

lemma next_stop:
  assumes "stop_sent ib" "inbox_next ib = (r, ib1)"
  shows "r = Some Stop_Msg \<or> r = Some Codex_Closed
    \<or> (r \<noteq> None \<and> stop_sent ib1 \<and> \<not> ib_stopped ib1
       \<and> stop_distance kind ib = message_weight kind (the r) + stop_distance kind ib1)"
proof (cases "ib_stopped ib")
  case False
  show ?thesis
  proof (cases "ib_held ib")
    case Nil
    obtain r' ib' where rec: "inbox_receive ib = (r', ib')" by (cases "inbox_receive ib")
    with assms(2) False Nil have r: "r = r'"
      "ib1 = (if r' \<noteq> None \<and> is_command (the r') then update_bound Commands fetch_sub ib' else ib')"
      by (auto simp: inbox_next_def split: option.splits)
    from receive_stop [OF assms(1) False rec, of kind] r Nil False show ?thesis
      by (auto simp: stop_distance_def stop_sent_def split: if_splits)
  next
    case (Cons m ms)
    with assms(2) False have "r = Some m" "ib_held ib1 = ms" "ib_queue ib1 = ib_queue ib"
      "ib_stopped ib1 = ib_stopped ib" "ib_output_closed ib1 = ib_output_closed ib"
      by (auto simp: inbox_next_def split: if_splits)
    with assms(1) False Cons show ?thesis by (simp add: stop_sent_def stop_distance_def)
  qed
qed (use assms in \<open>simp add: inbox_next_def\<close>)

lemma wait_stop:
  assumes "stop_sent ib"
  shows "stop_sent (inbox_wait keep ib) \<and> stop_distance kind (inbox_wait keep ib) \<le> stop_distance kind ib"
proof -
  obtain r ib1 where rec: "inbox_receive ib = (r, ib1)" by (cases "inbox_receive ib")
  show ?thesis
  proof (cases "ib_stopped ib")
    case True
    have "ib_stopped ib1"
      using rec True by (auto simp: inbox_receive_def Let_def split: if_splits list.splits inbox_message.splits)
    then show ?thesis
      by (auto simp: inbox_wait_def rec stop_sent_def stop_distance_def inbox_hold_def split: option.split)
  next
    case False
    from receive_stop [OF assms False rec, of kind] assms False show ?thesis
      by (auto simp: inbox_wait_def rec stop_sent_def stop_distance_def inbox_hold_def is_command_def
          split: option.split if_splits inbox_message.split)
  qed
qed

lemma step_stop:
  assumes "stop_sent ib" "op \<noteq> Worker_Next"
  shows "stop_sent (inbox_step op ib) \<and> stop_distance kind (inbox_step op ib) \<le> stop_distance kind ib"
proof -
  have push: "stop_sent ib2 \<and> stop_distance kind ib2 \<le> stop_distance kind ib"
    if "ib_queue ib2 = ib_queue ib @ ms" "ib_held ib2 = ib_held ib" "ib_stopped ib2 = ib_stopped ib"
      "ib_output_closed ib2 = ib_output_closed ib" for ib2 ms
    using that assms(1) by (auto simp: stop_sent_def stop_distance_def before_stop_append)
  show ?thesis
  proof (cases op)
    case (Send_Begin src)
    then show ?thesis by (intro push [of _ "[]"]) (simp_all add: send_begin_def)
  next
    case (Send_Back src)
    then show ?thesis by (intro push [of _ "[]"]) (simp_all add: send_back_def)
  next
    case (Send_Push src k a)
    then show ?thesis
      by (intro push [of _ "if bd_entered (ib_bounds ib src) = 0 then [] else [message_of src k a]"])
        (simp_all add: send_push_def)
  next
    case (Send_Lost src)
    then show ?thesis by (intro push [of _ "[]"]) (simp_all add: send_lost_def)
  next
    case Send_Stop
    then show ?thesis by (intro push [of _ "[Stop_Msg]"]) (simp_all add: send_free_def)
  next
    case Drop_Output
    then show ?thesis by (intro push [of _ "[Codex_Closed]"]) (simp_all add: send_free_def)
  next
    case (Drop_Process k)
    then show ?thesis by (intro push [of _ "[Output_Closed k]"]) (simp_all add: send_free_def)
  next
    case (Worker_Wait keep)
    then show ?thesis using wait_stop [OF assms(1)] by simp
  qed (use assms(2) in simp)
qed

text \<open>The distance with the texts: each of them may let one result be taken again.\<close>

definition worker_distance :: "('a \<Rightarrow> output_kind) \<Rightarrow> 'a harness_worker \<Rightarrow> nat" where
  "worker_distance kind w = stop_distance kind (hw_inbox w) + length (hw_texts w)"

lemma stop_sent_hold [simp]: "stop_sent (inbox_hold m ib) = stop_sent ib"
  by (simp add: stop_sent_def inbox_hold_def)

lemma stop_distance_hold: "\<not> ib_stopped ib \<Longrightarrow> stop_distance kind (inbox_hold m ib) = stop_distance kind ib + message_weight kind m"
  by (simp add: stop_distance_def inbox_hold_def)

lemma fewer_texts: "length (removeAll k ks) \<le> length ks" "k \<in> set ks \<Longrightarrow> Suc (length (removeAll k ks)) \<le> length ks"
  "length (List.insert k ks) \<le> Suc (length ks)"
  using length_removeAll_less [of k ks] by (auto simp: length_removeAll_less_eq List.insert_def)

lemma session_event_stop:
  assumes "stop_sent (hw_inbox w)" "\<not> ib_stopped (hw_inbox w)"
  shows "stop_sent (hw_inbox (session_event kind turn k a w))
    \<and> Suc (worker_distance kind (session_event kind turn k a w)) \<le> message_weight kind (Output_Msg k a) + worker_distance kind w"
  using assms fewer_texts [of k "hw_texts w"]
  by (cases "kind a") (auto simp: session_event_def worker_distance_def message_weight_def stop_distance_hold Let_def)

lemma weight_pos: "Suc 0 \<le> message_weight kind m"
  by (simp add: message_weight_def split: inbox_message.split)

lemma take_input_stop:
  assumes "stop_sent (hw_inbox w)" "take_input kind known turn w = (r, w1)"
  shows "r = Some Stop_Msg \<or> r = Some Codex_Closed
    \<or> (stop_sent (hw_inbox w1) \<and> Suc (worker_distance kind w1) \<le> worker_distance kind w)"
proof -
  obtain q ib where nx: "inbox_next (hw_inbox w) = (q, ib)" by (cases "inbox_next (hw_inbox w)")
  let ?w = "w\<lparr>hw_inbox := ib\<rparr>"
  from assms(2) nx have r: "r = q" and w1: "w1 = (case q of
        Some (Output_Msg k a) \<Rightarrow> if known then session_event kind turn k a ?w else ?w
      | Some (Output_Closed k) \<Rightarrow> ?w\<lparr>hw_texts := removeAll k (hw_texts ?w)\<rparr>
      | _ \<Rightarrow> ?w)"
    by (auto simp: take_input_def Let_def)
  from next_stop [OF assms(1) nx, of kind] show ?thesis
  proof (elim disjE conjE)
    assume live: "q \<noteq> None" "stop_sent ib" "\<not> ib_stopped ib"
      and less: "stop_distance kind (hw_inbox w) = message_weight kind (the q) + stop_distance kind ib"
    from live obtain m where m: "q = Some m" by blast
    have before: "worker_distance kind w = message_weight kind m + worker_distance kind ?w"
      using less by (simp add: worker_distance_def m)
    have "stop_sent (hw_inbox w1) \<and> Suc (worker_distance kind w1) \<le> message_weight kind m + worker_distance kind ?w"
    proof (cases m)
      case (Output_Msg k a)
      show ?thesis
      proof (cases known)
        case True
        with w1 m Output_Msg session_event_stop [of ?w kind turn k a] live show ?thesis by simp
      next
        case False
        with w1 m Output_Msg live weight_pos [of kind m] show ?thesis by (simp add: worker_distance_def)
      qed
    next
      case (Output_Closed k)
      with w1 m live show ?thesis by (simp add: worker_distance_def message_weight_def)
    qed (use w1 m live weight_pos [of kind m] in \<open>simp_all add: worker_distance_def\<close>)
    with before show ?thesis by simp
  qed (auto simp: r)
qed

lemma harness_step_stop:
  assumes "stop_sent (hw_inbox w)" "op \<noteq> Channel Worker_Next" "\<And>known turn. op \<noteq> Take_Input known turn"
  shows "stop_sent (hw_inbox (harness_step kind op w)) \<and> worker_distance kind (harness_step kind op w) \<le> worker_distance kind w"
proof (cases op)
  case (Channel c)
  with step_stop [OF assms(1), of c kind] assms(2) show ?thesis
    by (simp add: harness_step_def worker_distance_def del: inbox_step.simps)
next
  case (Forget_Text k)
  with assms(1) fewer_texts(1) [of k "hw_texts w"] show ?thesis by (simp add: harness_step_def worker_distance_def)
qed (use assms(3) in simp)

lemma stop_taken:
  "stop_sent (hw_inbox w) \<Longrightarrow> worker_distance kind w < length (taken_messages kind ops w) \<Longrightarrow>
     Some Stop_Msg \<in> set (taken_messages kind ops w) \<or> Some Codex_Closed \<in> set (taken_messages kind ops w)"
proof (induction ops arbitrary: w)
  case (Cons op ops)
  have next_case: ?case
    if eq: "taken_messages kind (op # ops) w = r # taken_messages kind ops w1"
      and step: "r = Some Stop_Msg \<or> r = Some Codex_Closed
        \<or> (stop_sent (hw_inbox w1) \<and> Suc (worker_distance kind w1) \<le> worker_distance kind w)" for r w1
    using step Cons.IH [of w1] Cons.prems(2) unfolding eq by auto
  consider "op = Channel Worker_Next" | known turn where "op = Take_Input known turn"
    | "op \<noteq> Channel Worker_Next" "\<And>known turn. op \<noteq> Take_Input known turn" by blast
  then show ?case
  proof cases
    case 1
    obtain r ib1 where nx: "inbox_next (hw_inbox w) = (r, ib1)" by (cases "inbox_next (hw_inbox w)")
    show ?thesis
    proof (rule next_case)
      show "taken_messages kind (op # ops) w = r # taken_messages kind ops (w\<lparr>hw_inbox := ib1\<rparr>)"
        by (simp add: 1 nx harness_step_def)
      show "r = Some Stop_Msg \<or> r = Some Codex_Closed
          \<or> (stop_sent (hw_inbox (w\<lparr>hw_inbox := ib1\<rparr>)) \<and> Suc (worker_distance kind (w\<lparr>hw_inbox := ib1\<rparr>)) \<le> worker_distance kind w)"
        using next_stop [OF Cons.prems(1) nx, of kind] weight_pos [of kind "the r"] by (auto simp: worker_distance_def)
    qed
  next
    case (2 known turn)
    obtain r w1 where tk: "take_input kind known turn w = (r, w1)" by (cases "take_input kind known turn w")
    show ?thesis
    proof (rule next_case)
      show "taken_messages kind (op # ops) w = r # taken_messages kind ops w1" by (simp add: 2 tk harness_step_def)
    qed (rule take_input_stop [OF Cons.prems(1) tk])
  next
    case 3
    then have eq: "taken_messages kind (op # ops) w = taken_messages kind ops (harness_step kind op w)"
      by (auto split: harness_op.split inbox_op.split)
    from harness_step_stop [OF Cons.prems(1) 3, of kind] Cons.IH [of "harness_step kind op w"] Cons.prems(2)
    show ?thesis unfolding eq by auto
  qed
qed simp

text \<open>
  C40. A stop request reaches the worker: from the moment the window sends it, whatever the senders
  do and however often the worker waits for an answer in between, \<open>next\<close> returns the stop, or the
  end of the Codex output, after at most as many messages as were held or before the request on the
  channel, counting a piece of streamed text twice, and one for each conversation with a streamed
  text: such a text lets the worker hold one result again that it has taken. No bound and no later
  message delays the stop.
\<close>

theorem stop_reaches_the_worker:
  assumes "messages_weight kind (ib_held (hw_inbox w) @ ib_queue (hw_inbox w)) + length (hw_texts w)
    < length (taken_messages kind ops (send_stop w))"
  shows "Some Stop_Msg \<in> set (taken_messages kind ops (send_stop w))
     \<or> Some Codex_Closed \<in> set (taken_messages kind ops (send_stop w))"
proof (rule stop_taken)
  show "stop_sent (hw_inbox (send_stop w))" by (simp add: stop_sent_def send_free_def send_stop_def)
  have "before_stop kind (ms @ [Stop_Msg]) \<le> messages_weight kind ms" for ms
    by (induction ms) (simp_all add: before_stop_Cons)
  then have "worker_distance kind (send_stop w)
      \<le> messages_weight kind (ib_held (hw_inbox w) @ ib_queue (hw_inbox w)) + length (hw_texts w)"
    by (simp add: worker_distance_def stop_distance_def send_free_def send_stop_def trans_le_add2)
  with assms show "worker_distance kind (send_stop w) < length (taken_messages kind ops (send_stop w))"
    by simp
qed

text \<open>A piece of text and a result wait; the result is taken twice before the stop.\<close>

definition sample_kind :: "nat \<Rightarrow> output_kind" where
  "sample_kind a = (if a = 1 then Text_Delta else if a = 2 then Turn_Result else Other_Output)"

definition busy_worker :: "nat harness_worker" where
  "busy_worker =
     run_from (harness_step sample_kind) (harness_new (open_inbox 1 0 2))
       [Channel (Send_Begin Processes), Channel (Send_Push Processes 7 1), Channel (Send_Begin Processes),
        Channel (Send_Push Processes 7 2), Channel (Worker_Wait True)]"

definition stopping_ops :: "nat harness_op list" where
  "stopping_ops = [Take_Input True True, Channel (Send_Begin Processes), Channel (Send_Push Processes 7 3), Take_Input True True,
     Take_Input True True, Take_Input True True]"

theorem stop_reaches_the_worker_witness:
  "taken_messages sample_kind stopping_ops (send_stop busy_worker)
     = [Some (Output_Msg 7 1), Some (Output_Msg 7 2), Some (Output_Msg 7 2), Some Stop_Msg]
   \<and> (Some Stop_Msg \<in> set (taken_messages sample_kind stopping_ops (send_stop busy_worker))
      \<or> Some Codex_Closed \<in> set (taken_messages sample_kind stopping_ops (send_stop busy_worker)))"
proof (rule conjI)
  show "taken_messages sample_kind stopping_ops (send_stop busy_worker)
     = [Some (Output_Msg 7 1), Some (Output_Msg 7 2), Some (Output_Msg 7 2), Some Stop_Msg]"
    by code_simp
  show "Some Stop_Msg \<in> set (taken_messages sample_kind stopping_ops (send_stop busy_worker))
      \<or> Some Codex_Closed \<in> set (taken_messages sample_kind stopping_ops (send_stop busy_worker))"
    by (rule stop_reaches_the_worker) code_simp
qed

end
