(* ===== verification/Sasl_Frames.thy ===== *)
theory Sasl_Frames
  imports Rust_Str
begin

text \<open>
  The transport of HiveServer2 (\<open>src/connector/sasl.rs\<close>): the SASL PLAIN negotiation and the
  length-prefixed frames that carry every Thrift message after it.

  A socket is a sink that may fail after some bytes and a source whose bytes arrive in pieces of any
  size: each read follows the next entry of a script, which delivers some bytes or fails. The buffer
  of \<open>BufReader\<close> only changes the pieces, so it is a part of the script.
\<close>

section \<open>Sockets\<close>

datatype io_kind = Would_Block | Timed_Out | Unexpected_Eof | Invalid_Data | Other_Kind

datatype wire_error = Wire_Error (wire_kind: io_kind) (wire_text: string)

datatype delivery = Deliver nat | Fail wire_error

record wire_source =
  src_bytes :: string
  src_script :: "delivery list"

record wire_sink =
  out_bytes :: string
  out_fault :: "(nat \<times> wire_error) option"
  out_flush_fault :: "wire_error option"

text \<open>
  One \<open>read\<close> into a buffer of \<open>count\<close> bytes. A delivery of \<open>k\<close> gives at most \<open>k + 1\<close> bytes: a read
  that returns no byte is the end of the stream.
\<close>

definition source_read :: "nat \<Rightarrow> wire_source \<Rightarrow> (wire_error, string) result \<times> wire_source" where
  "source_read count src =
     (case src_script src of
        [] \<Rightarrow> (Inr (take count (src_bytes src)), src\<lparr>src_bytes := drop count (src_bytes src)\<rparr>)
      | Deliver k # ds \<Rightarrow>
          (let n = min count (Suc k) in
           (Inr (take n (src_bytes src)), src\<lparr>src_bytes := drop n (src_bytes src), src_script := ds\<rparr>))
      | Fail e # ds \<Rightarrow> (Inl e, src\<lparr>src_script := ds\<rparr>))"

text \<open>\<open>Read::read_exact\<close>.\<close>

function read_exact :: "nat \<Rightarrow> wire_source \<Rightarrow> (wire_error, string) result \<times> wire_source" where
  "read_exact count src =
     (if count = 0 then (Inr [], src)
      else
        (case source_read count src of
           (Inl e, src1) \<Rightarrow> (Inl e, src1)
         | (Inr piece, src1) \<Rightarrow>
             if piece = [] then (Inl (Wire_Error Unexpected_Eof ''failed to fill whole buffer''), src1)
             else
               (case read_exact (count - length piece) src1 of
                  (Inl e, src2) \<Rightarrow> (Inl e, src2)
                | (Inr rest, src2) \<Rightarrow> (Inr (piece @ rest), src2))))"
  by pat_completeness auto
termination
  by (relation "measure fst") auto

declare read_exact.simps [simp del]

text \<open>\<open>Write::write_all\<close>: a sink with a fault takes the bytes that still fit.\<close>

definition write_all :: "string \<Rightarrow> wire_sink \<Rightarrow> (wire_error, unit) result \<times> wire_sink" where
  "write_all bytes out =
     (case out_fault out of
        None \<Rightarrow> (Inr (), out\<lparr>out_bytes := out_bytes out @ bytes\<rparr>)
      | Some (room, e) \<Rightarrow>
          ((if length bytes \<le> room then Inr () else Inl e),
           out\<lparr>out_bytes := out_bytes out @ take room bytes, out_fault := Some (room - length bytes, e)\<rparr>))"

definition flush_sink :: "wire_sink \<Rightarrow> (wire_error, unit) result" where
  "flush_sink out = (case out_flush_fault out of None \<Rightarrow> Inr () | Some e \<Rightarrow> Inl e)"

section \<open>Errors and lengths\<close>

definition MAX_FRAME :: nat where "MAX_FRAME = 67108864"

definition WRITE_TIMEOUT :: nat where "WRITE_TIMEOUT = 15"

definition timed_out :: "wire_error \<Rightarrow> string \<Rightarrow> wire_error" where
  "timed_out e label =
     (if wire_kind e = Would_Block \<or> wire_kind e = Timed_Out then Wire_Error Timed_Out label else e)"

definition read_error :: "nat \<Rightarrow> wire_error \<Rightarrow> wire_error" where
  "read_error seconds e =
     timed_out e (''Kyuubi did not answer within '' @ show_nat seconds @ '' seconds'')"

definition write_error :: "wire_error \<Rightarrow> wire_error" where
  "write_error e =
     timed_out e (''Kyuubi did not accept the request within '' @ show_nat WRITE_TIMEOUT @ '' seconds'')"

definition map_err :: "('e \<Rightarrow> 'f) \<Rightarrow> ('e, 'a) result \<Rightarrow> ('f, 'a) result" where
  "map_err f r = (case r of Inl e \<Rightarrow> Inl (f e) | Inr a \<Rightarrow> Inr a)"

lemma map_err_simps [simp]: "map_err f (Inl e) = Inl (f e)" "map_err f (Inr a) = Inr a"
  by (simp_all add: map_err_def)

text \<open>\<open>(n as u32).to_be_bytes()\<close> and \<open>u32::from_be_bytes\<close>.\<close>

definition be_bytes :: "nat \<Rightarrow> string" where
  "be_bytes n =
     [char_of (n div 2 ^ 24 mod 256), char_of (n div 2 ^ 16 mod 256), char_of (n div 2 ^ 8 mod 256),
      char_of (n mod 256)]"

definition from_be_bytes :: "string \<Rightarrow> nat" where
  "from_be_bytes bs = foldl (\<lambda>n b. 256 * n + byte b) 0 bs"

section \<open>Frames\<close>

record frame_writer =
  fw_inner :: wire_sink
  fw_frame :: string

definition writer_new :: "wire_sink \<Rightarrow> frame_writer" where
  "writer_new inner = \<lparr>fw_inner = inner, fw_frame = []\<rparr>"

definition writer_write :: "string \<Rightarrow> frame_writer \<Rightarrow> (wire_error, nat) result \<times> frame_writer" where
  "writer_write buffer w =
     (if MAX_FRAME < saturating_add (length (fw_frame w)) (length buffer)
      then (Inl (Wire_Error Invalid_Data ''Request exceeds 64 MiB''), w)
      else (Inr (length buffer), w\<lparr>fw_frame := fw_frame w @ buffer\<rparr>))"

text \<open>A failed write leaves the frame in place.\<close>

definition writer_flush :: "frame_writer \<Rightarrow> (wire_error, unit) result \<times> frame_writer" where
  "writer_flush w =
     (if fw_frame w = [] then (map_err write_error (flush_sink (fw_inner w)), w)
      else
        (case write_all (be_bytes (length (fw_frame w))) (fw_inner w) of
           (Inl e, out) \<Rightarrow> (Inl (write_error e), w\<lparr>fw_inner := out\<rparr>)
         | (Inr _, out) \<Rightarrow>
             (case write_all (fw_frame w) out of
                (Inl e, out) \<Rightarrow> (Inl (write_error e), w\<lparr>fw_inner := out\<rparr>)
              | (Inr _, out) \<Rightarrow>
                  (map_err write_error (flush_sink out), w\<lparr>fw_inner := out, fw_frame := []\<rparr>))))"

record frame_reader =
  fr_inner :: wire_source
  fr_frame_remaining :: nat
  fr_response_remaining :: nat
  fr_timeout :: nat

definition reader_new :: "wire_source \<Rightarrow> nat \<Rightarrow> frame_reader" where
  "reader_new inner seconds =
     \<lparr>fr_inner = inner, fr_frame_remaining = 0, fr_response_remaining = usize_max, fr_timeout = seconds\<rparr>"

definition begin_response :: "nat \<Rightarrow> frame_reader \<Rightarrow> frame_reader" where
  "begin_response limit r = r\<lparr>fr_response_remaining := limit\<rparr>"

text \<open>The header of the next frame, where the current one is used up.\<close>

definition next_frame :: "frame_reader \<Rightarrow> (wire_error, unit) result \<times> frame_reader" where
  "next_frame r =
     (if fr_frame_remaining r \<noteq> 0 then (Inr (), r)
      else
        (case read_exact 4 (fr_inner r) of
           (Inl e, src) \<Rightarrow> (Inl (read_error (fr_timeout r) e), r\<lparr>fr_inner := src\<rparr>)
         | (Inr head, src) \<Rightarrow>
             (let len = from_be_bytes head in
              if len = 0 \<or> MAX_FRAME < len
              then (Inl (Wire_Error Invalid_Data ''Invalid SASL frame length''), r\<lparr>fr_inner := src\<rparr>)
              else (Inr (), r\<lparr>fr_inner := src, fr_frame_remaining := len\<rparr>))))"

definition reader_read :: "nat \<Rightarrow> frame_reader \<Rightarrow> (wire_error, string) result \<times> frame_reader" where
  "reader_read want r =
     (if want = 0 then (Inr [], r)
      else if fr_response_remaining r = 0
      then (Inl (Wire_Error Invalid_Data ''Server response exceeds byte limit''), r)
      else
        (case next_frame r of
           (Inl e, r) \<Rightarrow> (Inl e, r)
         | (Inr _, r) \<Rightarrow>
             (let count = min (min want (fr_frame_remaining r)) (fr_response_remaining r) in
              (case source_read count (fr_inner r) of
                 (Inl e, src) \<Rightarrow> (Inl (read_error (fr_timeout r) e), r\<lparr>fr_inner := src\<rparr>)
               | (Inr piece, src) \<Rightarrow>
                   (Inr piece,
                    r\<lparr>fr_inner := src,
                      fr_frame_remaining := fr_frame_remaining r - length piece,
                      fr_response_remaining := fr_response_remaining r - length piece\<rparr>)))))"

section \<open>The handshake\<close>

datatype auth_error =
    Null_Credentials | Handshake_Io wire_error | Not_Completed wire_error | Payload_Io wire_error
  | Long_Response | Rejected nat

record wire =
  wr_in :: wire_source
  wr_out :: wire_sink

definition send_handshake :: "nat \<Rightarrow> string \<Rightarrow> wire_sink \<Rightarrow> (wire_error, unit) result \<times> wire_sink" where
  "send_handshake status payload out =
     (case write_all [char_of status] out of
        (Inl e, out) \<Rightarrow> (Inl (write_error e), out)
      | (Inr _, out) \<Rightarrow>
          (case write_all (be_bytes (length payload)) out of
             (Inl e, out) \<Rightarrow> (Inl (write_error e), out)
           | (Inr _, out) \<Rightarrow>
               (case write_all payload out of
                  (Inl e, out) \<Rightarrow> (Inl (write_error e), out)
                | (Inr _, out) \<Rightarrow> (map_err write_error (flush_sink out), out))))"

text \<open>The answer: a status, a length and a payload, which is read and never looked at.\<close>

definition read_answer :: "nat \<Rightarrow> wire_source \<Rightarrow> (auth_error, unit) result \<times> wire_source" where
  "read_answer seconds src =
     (case read_exact 5 src of
        (Inl e, src) \<Rightarrow> (Inl (Not_Completed (read_error seconds e)), src)
      | (Inr head, src) \<Rightarrow>
          (let len = from_be_bytes (tl head) in
           if 65536 < len then (Inl Long_Response, src)
           else
             (case read_exact len src of
                (Inl e, src) \<Rightarrow> (Inl (Payload_Io (read_error seconds e)), src)
              | (Inr _, src) \<Rightarrow>
                  (if byte (hd head) = 5 then Inr () else Inl (Rejected (byte (hd head))), src))))"

definition null_char :: char where "null_char = char_of (0 :: nat)"

definition negotiate :: "string \<Rightarrow> string \<Rightarrow> nat \<Rightarrow> wire \<Rightarrow> (auth_error, unit) result \<times> wire" where
  "negotiate username password seconds s =
     (if null_char \<in> set username \<or> null_char \<in> set password then (Inl Null_Credentials, s)
      else
        (case send_handshake 1 ''PLAIN'' (wr_out s) of
           (Inl e, out) \<Rightarrow> (Inl (Handshake_Io e), s\<lparr>wr_out := out\<rparr>)
         | (Inr _, out) \<Rightarrow>
             (let response = null_char # username @ null_char # password in
              case send_handshake 2 response out of
                (Inl e, out) \<Rightarrow> (Inl (Handshake_Io e), s\<lparr>wr_out := out\<rparr>)
              | (Inr _, out) \<Rightarrow>
                  (case read_answer seconds (wr_in s) of
                     (r, src) \<Rightarrow> (r, s\<lparr>wr_in := src, wr_out := out\<rparr>)))))"

section \<open>Lengths and reads\<close>

lemma length_be_bytes [simp]: "length (be_bytes n) = 4"
  by (simp add: be_bytes_def)

lemma wire_byte_char_of: "byte (char_of n) = n mod 256"
  by (simp add: byte_def)

lemma from_be_bytes_be_bytes:
  assumes "n < 2 ^ 32"
  shows "from_be_bytes (be_bytes n) = n"
proof -
  have parts: "n = 256 * (n div 256) + n mod 256"
    "n div 256 = 256 * (n div 65536) + n div 256 mod 256"
    "n div 65536 = 256 * (n div 16777216) + n div 65536 mod 256"
    using mult_div_mod_eq [of 256 "n div 256"] mult_div_mod_eq [of 256 "n div 65536"]
    by (simp_all add: div_mult2_eq [symmetric])
  have "n div 16777216 < 256" using assms by simp
  then have "from_be_bytes (be_bytes n)
      = 16777216 * (n div 16777216) + 65536 * (n div 65536 mod 256) + 256 * (n div 256 mod 256) + n mod 256"
    unfolding be_bytes_def from_be_bytes_def by (simp add: wire_byte_char_of)
  with parts show ?thesis by linarith
qed

definition steady :: "wire_source \<Rightarrow> bool" where
  "steady src \<longleftrightarrow> (\<forall>d \<in> set (src_script src). \<exists>k. d = Deliver k)"

text \<open>A read of a steady source returns some of the next bytes, and at least one when there is one.\<close>

lemma source_read_steady:
  assumes "steady src" "0 < count"
  obtains piece src1 where "source_read count src = (Inr piece, src1)" "steady src1"
    "src_bytes src = piece @ src_bytes src1" "length piece \<le> count" "piece = [] \<longleftrightarrow> src_bytes src = []"
proof (cases "src_script src")
  case Nil
  show ?thesis
    by (rule that [of "take count (src_bytes src)" "src\<lparr>src_bytes := drop count (src_bytes src)\<rparr>"])
      (use Nil assms in \<open>auto simp: source_read_def steady_def\<close>)
next
  case (Cons d ds)
  with assms(1) obtain k where d: "d = Deliver k" by (auto simp: steady_def)
  let ?n = "min count (Suc k)"
  show ?thesis
    by (rule that [of "take ?n (src_bytes src)" "src\<lparr>src_bytes := drop ?n (src_bytes src), src_script := ds\<rparr>"])
      (use Cons d assms in \<open>auto simp: source_read_def steady_def Let_def\<close>)
qed

lemma read_exact_0 [simp]: "read_exact 0 src = (Inr [], src)"
  by (simp add: read_exact.simps)

lemma read_exact_steady:
  assumes "steady src" "count \<le> length (src_bytes src)"
  shows "\<exists>src1. read_exact count src = (Inr (take count (src_bytes src)), src1)
    \<and> steady src1 \<and> src_bytes src1 = drop count (src_bytes src)"
  using assms
proof (induction count arbitrary: src rule: less_induct)
  case (less count)
  show ?case
  proof (cases "count = 0")
    case False
    then obtain piece src1 where piece: "source_read count src = (Inr piece, src1)" "steady src1"
      "src_bytes src = piece @ src_bytes src1" "length piece \<le> count" "piece = [] \<longleftrightarrow> src_bytes src = []"
      using source_read_steady [OF less.prems(1), of count] by auto
    with False less.prems(2) have ne: "piece \<noteq> []" by auto
    from piece(3,4) less.prems(2) have "count - length piece \<le> length (src_bytes src1)" by simp
    with less.IH [of "count - length piece" src1] ne piece(2,4) False
    obtain src2 where "read_exact (count - length piece) src1
        = (Inr (take (count - length piece) (src_bytes src1)), src2)"
      "steady src2" "src_bytes src2 = drop (count - length piece) (src_bytes src1)"
      by (metis diff_less gr0I length_0_conv)
    with False ne piece(1,3,4) show ?thesis
      by (simp add: read_exact.simps [of count])
  qed (use less.prems in simp)
qed

text \<open>A read of a source that has no bytes left fails.\<close>

lemma read_exact_empty:
  assumes "steady src" "src_bytes src = []" "0 < count"
  obtains e src1 where "read_exact count src = (Inl e, src1)" "steady src1" "src_bytes src1 = []"
proof -
  obtain piece src1 where piece: "source_read count src = (Inr piece, src1)" "steady src1"
    "src_bytes src = piece @ src_bytes src1" "piece = [] \<longleftrightarrow> src_bytes src = []"
    using source_read_steady [OF assms(1,3)] by metis
  then have "piece = []" "src_bytes src1 = []" using assms(2) by simp_all
  moreover have "read_exact count src
      = (Inl (Wire_Error Unexpected_Eof ''failed to fill whole buffer''), src1)"
    unfolding read_exact.simps [of count src] piece(1) using \<open>piece = []\<close> assms(3) by simp
  ultimately show ?thesis using that piece(2) by blast
qed

section \<open>What a reader still has to deliver\<close>

definition frame :: "string \<Rightarrow> string" where
  "frame payload = be_bytes (length payload) @ payload"

definition frame_ok :: "string \<Rightarrow> bool" where
  "frame_ok payload \<longleftrightarrow> payload \<noteq> [] \<and> length payload \<le> MAX_FRAME"

text \<open>The reader is inside a frame whose rest is \<open>cur\<close>, and the frames \<open>fs\<close> follow.\<close>

definition ahead :: "frame_reader \<Rightarrow> string \<Rightarrow> bool" where
  "ahead r data \<longleftrightarrow>
     steady (fr_inner r)
     \<and> (\<exists>cur fs. length cur = fr_frame_remaining r \<and> (\<forall>f \<in> set fs. frame_ok f)
          \<and> src_bytes (fr_inner r) = cur @ concat (map frame fs) \<and> data = cur @ concat fs)"

lemma next_frame_ahead:
  assumes "ahead r data" "data \<noteq> []"
  shows "\<exists>r1. next_frame r = (Inr (), r1) \<and> ahead r1 data \<and> fr_frame_remaining r1 \<noteq> 0
    \<and> fr_response_remaining r1 = fr_response_remaining r"
proof (cases "fr_frame_remaining r = 0")
  case True
  from assms True obtain f fs where fs: "steady (fr_inner r)" "frame_ok f" "\<forall>f \<in> set fs. frame_ok f"
    "src_bytes (fr_inner r) = frame f @ concat (map frame fs)" "data = f @ concat fs"
    unfolding ahead_def by (metis append_Nil concat.simps length_0_conv list.exhaust list.set_intros list.simps(9))
  have "length f < 2 ^ 32" using fs(2) by (simp add: frame_ok_def MAX_FRAME_def)
  then have len: "from_be_bytes (be_bytes (length f)) = length f" by (rule from_be_bytes_be_bytes)
  obtain src1 where src1: "read_exact 4 (fr_inner r) = (Inr (be_bytes (length f)), src1)"
    "steady src1" "src_bytes src1 = f @ concat (map frame fs)"
    using read_exact_steady [OF fs(1), of 4] fs(4) by (auto simp: frame_def)
  let ?r1 = "r\<lparr>fr_inner := src1, fr_frame_remaining := length f\<rparr>"
  have "next_frame r = (Inr (), ?r1)"
    using True src1(1) len fs(2) by (simp add: next_frame_def frame_ok_def)
  moreover have "ahead ?r1 data" using src1 fs by (auto simp: ahead_def)
  moreover have "f \<noteq> []" using fs(2) by (simp add: frame_ok_def)
  ultimately show ?thesis by auto
qed (use assms in \<open>auto simp: next_frame_def\<close>)

lemma reader_read_ahead:
  assumes "ahead r data" "data \<noteq> []" "0 < want" "length data \<le> fr_response_remaining r"
  shows "\<exists>piece r1 data1. reader_read want r = (Inr piece, r1) \<and> ahead r1 data1
    \<and> data = piece @ data1 \<and> piece \<noteq> [] \<and> length piece \<le> want
    \<and> fr_response_remaining r = length piece + fr_response_remaining r1"
proof -
  from next_frame_ahead [OF assms(1,2)] obtain r1 where r1: "next_frame r = (Inr (), r1)" "ahead r1 data"
    "fr_frame_remaining r1 \<noteq> 0" "fr_response_remaining r1 = fr_response_remaining r" by blast
  from r1(2) obtain cur fs where cur: "steady (fr_inner r1)" "length cur = fr_frame_remaining r1"
    "\<forall>f \<in> set fs. frame_ok f" "src_bytes (fr_inner r1) = cur @ concat (map frame fs)" "data = cur @ concat fs"
    unfolding ahead_def by blast
  let ?count = "min (min want (fr_frame_remaining r1)) (fr_response_remaining r1)"
  have room: "fr_response_remaining r1 \<noteq> 0" using assms(2,4) r1(4) by (cases data) auto
  then have pos: "0 < ?count" using assms(3) r1(3) by simp
  obtain piece src1 where piece: "source_read ?count (fr_inner r1) = (Inr piece, src1)" "steady src1"
    "src_bytes (fr_inner r1) = piece @ src_bytes src1" "length piece \<le> ?count"
    "piece = [] \<longleftrightarrow> src_bytes (fr_inner r1) = []"
    by (rule source_read_steady [OF cur(1) pos])
  have ne: "piece \<noteq> []" using piece(5) cur(2,4) r1(3) by auto
  have "length piece \<le> length cur" using piece(4) cur(2) by simp
  with piece(3) cur(4) obtain cur1 where cur1: "cur = piece @ cur1" "src_bytes src1 = cur1 @ concat (map frame fs)"
    by (auto simp: append_eq_append_conv2)
  let ?r2 = "r1\<lparr>fr_inner := src1, fr_frame_remaining := fr_frame_remaining r1 - length piece,
     fr_response_remaining := fr_response_remaining r1 - length piece\<rparr>"
  have "reader_read want r = (Inr piece, ?r2)"
    using assms(3) room r1(1,4) piece(1) by (simp add: reader_read_def Let_def)
  moreover have "ahead ?r2 (cur1 @ concat fs)"
    unfolding ahead_def using piece(2) cur(2,3) cur1 by (intro conjI exI [of _ cur1] exI [of _ fs]) auto
  moreover have "fr_response_remaining r = length piece + fr_response_remaining ?r2"
    using piece(4) r1(4) by simp
  ultimately show ?thesis using ne piece(4) cur(5) cur1(1) by fastforce
qed

lemma reader_read_end:
  assumes "ahead r []" "0 < want"
  shows "\<exists>e r1. reader_read want r = (Inl e, r1) \<and> ahead r1 []"
proof -
  from assms(1) have r: "steady (fr_inner r)" "fr_frame_remaining r = 0" "src_bytes (fr_inner r) = []"
    unfolding ahead_def frame_ok_def by (fastforce simp: neq_Nil_conv)+
  obtain e src1 where "read_exact 4 (fr_inner r) = (Inl e, src1)" "steady src1" "src_bytes src1 = []"
    using read_exact_empty [OF r(1,3), of 4] by auto
  with r have "next_frame r = (Inl (read_error (fr_timeout r) e), r\<lparr>fr_inner := src1\<rparr>)"
    "ahead (r\<lparr>fr_inner := src1\<rparr>) []"
    by (auto simp: next_frame_def ahead_def intro!: exI [of _ "[]"])
  with assms show ?thesis by (auto simp: reader_read_def)
qed

section \<open>Clients\<close>

text \<open>A request is written in some pieces and then flushed; an answer is read in pieces of some sizes.\<close>

fun write_pieces :: "string list \<Rightarrow> frame_writer \<Rightarrow> (wire_error, unit) result \<times> frame_writer" where
  "write_pieces [] w = writer_flush w"
| "write_pieces (piece # pieces) w =
     (case writer_write piece w of
        (Inl e, w) \<Rightarrow> (Inl e, w)
      | (Inr _, w) \<Rightarrow> write_pieces pieces w)"

fun send_requests :: "string list list \<Rightarrow> frame_writer \<Rightarrow> (wire_error, unit) result \<times> frame_writer" where
  "send_requests [] w = (Inr (), w)"
| "send_requests (request # requests) w =
     (case write_pieces request w of
        (Inl e, w) \<Rightarrow> (Inl e, w)
      | (Inr _, w) \<Rightarrow> send_requests requests w)"

fun run_reads :: "nat list \<Rightarrow> frame_reader \<Rightarrow> (wire_error, string) result list" where
  "run_reads [] r = []"
| "run_reads (want # wants) r = (case reader_read want r of (piece, r) \<Rightarrow> piece # run_reads wants r)"

definition received :: "(wire_error, string) result list \<Rightarrow> string" where
  "received pieces = concat (map (\<lambda>p. case p of Inl _ \<Rightarrow> [] | Inr piece \<Rightarrow> piece) pieces)"

lemma received_simps [simp]:
  "received [] = []" "received (Inl e # ps) = received ps" "received (Inr piece # ps) = piece @ received ps"
  by (simp_all add: received_def)

lemma write_all_ok:
  "write_all bytes out = (Inr u, out1) \<Longrightarrow> out_bytes out1 = out_bytes out @ bytes"
  by (auto simp: write_all_def split: option.splits if_splits)

lemma map_err_Inr [simp]: "map_err f r = Inr a \<longleftrightarrow> r = Inr a"
  by (cases r) simp_all

lemma write_pieces_ok:
  assumes "write_pieces pieces w = (Inr (), w1)" "length (fw_frame w) \<le> MAX_FRAME"
  shows "fw_frame w1 = [] \<and> length (fw_frame w @ concat pieces) \<le> MAX_FRAME
    \<and> out_bytes (fw_inner w1) = out_bytes (fw_inner w)
        @ (if fw_frame w @ concat pieces = [] then [] else frame (fw_frame w @ concat pieces))"
  using assms
proof (induction pieces arbitrary: w)
  case Nil
  then show ?case
    by (auto simp: writer_flush_def frame_def dest!: write_all_ok split: if_splits prod.splits sum.splits)
next
  case (Cons piece pieces)
  from Cons.prems(1) have fits: "length (fw_frame w @ piece) \<le> MAX_FRAME"
    and rest: "write_pieces pieces (w\<lparr>fw_frame := fw_frame w @ piece\<rparr>) = (Inr (), w1)"
    by (auto simp: writer_write_def saturating_add_def MAX_FRAME_def usize_max_def split: if_splits)
  from Cons.IH [OF rest] fits show ?case by simp
qed

lemma send_requests_ok:
  assumes "send_requests requests w = (Inr (), w1)" "fw_frame w = []"
  shows "\<exists>fs. (\<forall>f \<in> set fs. frame_ok f) \<and> concat fs = concat (map concat requests)
    \<and> out_bytes (fw_inner w1) = out_bytes (fw_inner w) @ concat (map frame fs)"
  using assms
proof (induction requests arbitrary: w)
  case Nil
  then show ?case by (intro exI [of _ "[]"]) simp
next
  case (Cons request requests)
  from Cons.prems(1) obtain w2 where w2: "write_pieces request w = (Inr (), w2)"
    "send_requests requests w2 = (Inr (), w1)" by (auto split: prod.splits sum.splits)
  from write_pieces_ok [OF w2(1)] Cons.prems(2) have first: "fw_frame w2 = []"
    "length (concat request) \<le> MAX_FRAME"
    "out_bytes (fw_inner w2) = out_bytes (fw_inner w)
       @ (if concat request = [] then [] else frame (concat request))"
    by simp_all
  from Cons.IH [OF w2(2) first(1)] obtain fs where fs: "\<forall>f \<in> set fs. frame_ok f"
    "concat fs = concat (map concat requests)"
    "out_bytes (fw_inner w1) = out_bytes (fw_inner w2) @ concat (map frame fs)" by blast
  show ?case
    by (rule exI [of _ "(if concat request = [] then [] else [concat request]) @ fs"])
      (use fs first in \<open>auto simp: frame_ok_def\<close>)
qed

lemma run_reads_ahead:
  assumes "ahead r data" "\<forall>want \<in> set wants. 0 < want" "length data \<le> fr_response_remaining r"
  shows "\<exists>rest. data = received (run_reads wants r) @ rest
    \<and> (rest = [] \<or> length wants \<le> length (received (run_reads wants r)))"
  using assms
proof (induction wants arbitrary: r data)
  case (Cons want wants)
  show ?case
  proof (cases "data = []")
    case True
    with reader_read_end [of r want] Cons.prems obtain e r1 where
      "reader_read want r = (Inl e, r1)" "ahead r1 []" by auto
    with Cons.IH [of r1 "[]"] Cons.prems(2) True show ?thesis by auto
  next
    case False
    with reader_read_ahead [OF Cons.prems(1) False, of want] Cons.prems(2,3) obtain piece r1 data1 where
      step: "reader_read want r = (Inr piece, r1)" "ahead r1 data1" "data = piece @ data1" "piece \<noteq> []"
      "fr_response_remaining r = length piece + fr_response_remaining r1" by auto
    from step(3,5) Cons.prems(3) have "length data1 \<le> fr_response_remaining r1" by simp
    with Cons.IH [OF step(2)] Cons.prems(2) obtain rest where
      "data1 = received (run_reads wants r1) @ rest"
      "rest = [] \<or> length wants \<le> length (received (run_reads wants r1))" by auto
    with step(1,3,4) show ?thesis by (cases piece) auto
  qed
qed simp

section \<open>Properties\<close>

text \<open>
  C8. The frames of a connection carry the written bytes: what a client writes in any pieces and
  flushes in any requests, the other side reads in the same order and without change, whatever the
  sizes of its reads and of the pieces that the socket delivers, and wherever the frames end; until
  every byte is read, each read returns at least one.
\<close>

theorem frames_round_trip:
  assumes "send_requests requests (writer_new sink) = (Inr (), w)" "out_bytes sink = []"
    and "steady src" "src_bytes src = out_bytes (fw_inner w)"
    and "length (concat (map concat requests)) \<le> limit"
    and "\<forall>want \<in> set wants. 0 < want"
  shows "\<exists>rest. concat (map concat requests)
       = received (run_reads wants (begin_response limit (reader_new src seconds))) @ rest
     \<and> (rest = [] \<or> length wants \<le> length (received (run_reads wants (begin_response limit (reader_new src seconds)))))"
proof -
  from send_requests_ok [OF assms(1)] assms(2) obtain fs where "\<forall>f \<in> set fs. frame_ok f"
    "concat fs = concat (map concat requests)" "out_bytes (fw_inner w) = concat (map frame fs)"
    by (auto simp: writer_new_def)
  with assms(3,4) have "ahead (begin_response limit (reader_new src seconds)) (concat (map concat requests))"
    by (auto simp: ahead_def begin_response_def reader_new_def)
  from run_reads_ahead [OF this assms(6)] assms(5) show ?thesis
    by (simp add: begin_response_def reader_new_def)
qed

definition sample_stream :: wire_sink where
  "sample_stream = \<lparr>out_bytes = [], out_fault = None, out_flush_fault = None\<rparr>"

definition sample_requests :: "string list list" where
  "sample_requests = [[''he'', ''llo''], [], [''world'']]"

definition sample_source :: wire_source where
  "sample_source =
     \<lparr>src_bytes = out_bytes (fw_inner (snd (send_requests sample_requests (writer_new sample_stream)))),
      src_script = [Deliver 2, Deliver 0, Deliver 0, Deliver 1, Deliver 9]\<rparr>"

theorem frames_round_trip_witness:
  "received (run_reads [3, 4, 100, 100] (begin_response 20 (reader_new sample_source 30))) = ''helloworld''
   \<and> (\<exists>rest. concat (map concat sample_requests)
       = received (run_reads [3, 4, 100, 100] (begin_response 20 (reader_new sample_source 30))) @ rest)"
proof (rule conjI)
  show "received (run_reads [3, 4, 100, 100] (begin_response 20 (reader_new sample_source 30))) = ''helloworld''"
    by code_simp
  have "send_requests sample_requests (writer_new sample_stream)
      = (Inr (), snd (send_requests sample_requests (writer_new sample_stream)))" by code_simp
  from frames_round_trip [OF this, of sample_source 20 "[3, 4, 100, 100]" 30]
  show "\<exists>rest. concat (map concat sample_requests)
       = received (run_reads [3, 4, 100, 100] (begin_response 20 (reader_new sample_source 30))) @ rest"
    by (auto simp: sample_stream_def sample_source_def steady_def sample_requests_def)
qed

section \<open>The handshake\<close>

lemma write_all_free:
  "out_fault out = None \<Longrightarrow> write_all bytes out = (Inr (), out\<lparr>out_bytes := out_bytes out @ bytes\<rparr>)"
  by (simp add: write_all_def)

lemma send_handshake_free:
  assumes "out_fault out = None" "out_flush_fault out = None"
  shows "send_handshake status payload out
    = (Inr (), out\<lparr>out_bytes := out_bytes out @ char_of status # be_bytes (length payload) @ payload\<rparr>)"
  using assms by (simp add: send_handshake_def write_all_free flush_sink_def)

text \<open>
  The negotiation leaves the stream at the first frame: on a socket that does not fail it sends
  exactly the mechanism and the credentials, each with its length, and reads exactly the answer, of
  which only the status decides: status 5 is success, any other is the rejection with that number.
  What follows the answer is still there, and credentials with a null character send nothing.
\<close>

theorem negotiation_consumes_the_answer:
  assumes "out_fault (wr_out s) = None" "out_flush_fault (wr_out s) = None" "steady (wr_in s)"
    and "src_bytes (wr_in s) = char_of status # be_bytes (length payload) @ payload @ rest"
    and "status < 256" "length payload \<le> 65536"
  shows "if null_char \<in> set (username @ password)
     then negotiate username password seconds s = (Inl Null_Credentials, s)
     else \<exists>s1. negotiate username password seconds s
            = ((if status = 5 then Inr () else Inl (Rejected status)), s1)
          \<and> steady (wr_in s1) \<and> src_bytes (wr_in s1) = rest
          \<and> out_bytes (wr_out s1) = out_bytes (wr_out s)
              @ char_of (1 :: nat) # be_bytes 5 @ ''PLAIN''
              @ char_of (2 :: nat) # be_bytes (length username + length password + 2)
              @ null_char # username @ null_char # password"
proof (cases "null_char \<in> set (username @ password)")
  case False
  obtain src1 where src1: "read_exact 5 (wr_in s) = (Inr (char_of status # be_bytes (length payload)), src1)"
    "steady src1" "src_bytes src1 = payload @ rest"
    using read_exact_steady [OF assms(3), of 5] assms(4) by auto
  obtain src2 where src2: "read_exact (length payload) src1 = (Inr payload, src2)" "steady src2" "src_bytes src2 = rest"
    using read_exact_steady [OF src1(2), of "length payload"] src1(3) by auto
  have "from_be_bytes (be_bytes (length payload)) = length payload"
    using assms(6) by (intro from_be_bytes_be_bytes) simp
  with src1(1) src2(1) assms(5,6) have "read_answer seconds (wr_in s)
      = ((if status = 5 then Inr () else Inl (Rejected status)), src2)"
    by (simp add: read_answer_def wire_byte_char_of)
  with False assms(1,2) src2 show ?thesis
    by (simp add: negotiate_def send_handshake_free add.assoc numeral_eq_Suc)
qed (auto simp: negotiate_def)

definition sample_wire :: wire where
  "sample_wire =
     \<lparr>wr_in = \<lparr>src_bytes = char_of (5 :: nat) # be_bytes 2 @ ''ok'' @ be_bytes 1 @ ''x'', src_script = [Deliver 0, Deliver 3]\<rparr>,
      wr_out = sample_stream\<rparr>"

theorem negotiation_consumes_the_answer_witness:
  "fst (negotiate ''ada'' ''pw'' 30 sample_wire) = Inr ()
   \<and> (\<exists>s1. negotiate ''ada'' ''pw'' 30 sample_wire = (Inr (), s1) \<and> src_bytes (wr_in s1) = be_bytes 1 @ ''x'')"
proof -
  have "null_char \<notin> set (''ada'' @ ''pw'')" by code_simp
  moreover have "src_bytes (wr_in sample_wire)
      = char_of (5 :: nat) # be_bytes (length ''ok'') @ ''ok'' @ be_bytes 1 @ ''x''" by code_simp
  moreover have "out_fault (wr_out sample_wire) = None \<and> out_flush_fault (wr_out sample_wire) = None
      \<and> steady (wr_in sample_wire)"
    by (simp add: sample_wire_def sample_stream_def steady_def)
  ultimately have "\<exists>s1. negotiate ''ada'' ''pw'' 30 sample_wire = (Inr (), s1) \<and> src_bytes (wr_in s1) = be_bytes 1 @ ''x''"
    using negotiation_consumes_the_answer [of sample_wire 5 "''ok''" "be_bytes 1 @ ''x''" "''ada''" "''pw''" 30]
    by (simp del: One_nat_def) blast
  then show ?thesis by auto
qed

section \<open>The byte limit\<close>

lemma next_frame_remaining: "next_frame r = (x, r1) \<Longrightarrow> fr_response_remaining r1 = fr_response_remaining r"
  by (auto simp: next_frame_def Let_def split: if_splits prod.splits sum.splits)

lemma source_read_length: "source_read count src = (Inr piece, src1) \<Longrightarrow> length piece \<le> count"
  by (auto simp: source_read_def Let_def split: list.splits delivery.splits)

text \<open>Every byte that a read returns counts against the limit, on any socket.\<close>

lemma reader_read_counts:
  assumes "reader_read want r = (x, r1)"
  shows "fr_response_remaining r = length (received [x]) + fr_response_remaining r1"
proof (cases "want = 0 \<or> fr_response_remaining r = 0")
  case False
  obtain y r2 where nf: "next_frame r = (y, r2)" by (cases "next_frame r")
  note left = next_frame_remaining [OF nf]
  show ?thesis
  proof (cases y)
    case (Inr u)
    let ?count = "min (min want (fr_frame_remaining r2)) (fr_response_remaining r2)"
    obtain z src where sr: "source_read ?count (fr_inner r2) = (z, src)"
      by (cases "source_read ?count (fr_inner r2)")
    show ?thesis
    proof (cases z)
      case (Inr piece)
      with source_read_length [of ?count "fr_inner r2" piece src] sr have "length piece \<le> ?count" by simp
      with assms False nf \<open>y = Inr u\<close> sr Inr left show ?thesis
        by (auto simp: reader_read_def Let_def)
    qed (use assms False nf Inr sr left in \<open>auto simp: reader_read_def Let_def\<close>)
  qed (use assms False nf left in \<open>auto simp: reader_read_def\<close>)
qed (use assms in \<open>auto simp: reader_read_def split: if_splits\<close>)

lemma response_limit: "length (received (run_reads wants r)) \<le> fr_response_remaining r"
proof (induction wants arbitrary: r)
  case (Cons want wants)
  obtain x r1 where step: "reader_read want r = (x, r1)" by (cases "reader_read want r")
  from reader_read_counts [OF step] Cons [of r1] step show ?case by (cases x) auto
qed simp

end
