(* ===== verification/Thrift_Limits.thy ===== *)
theory Thrift_Limits
  imports Sasl_Frames
begin

text \<open>
  The limits on Thrift responses (\<open>src/connector/protocol.rs\<close>): \<open>ResponseProtocol\<close> charges every
  string and container of a response before the generated bindings allocate it. The binary protocol
  of the \<open>thrift\<close> crate, the sizes of the generated types and the allocator are parameters.
\<close>

section \<open>State\<close>

datatype thrift_error =
    Previous_Failed | Exceeds_Allocation | Invalid_Container | Exceeds_Response | No_Memory
  | Bad_Version | Negative_Size | Unknown_Message | Not_Utf8 | Thrift_Io wire_error | Thrift_Other

record response_protocol =
  rp_reader :: frame_reader
  rp_limit :: nat
  rp_allocation_remaining :: nat
  rp_active :: bool

type_synonym 'a inner_read = "frame_reader \<Rightarrow> (thrift_error, 'a) result \<times> frame_reader"

text \<open>
  \<open>TBinaryInputProtocol\<close> over the frame reader, with the reads that only return their size or
  nothing of interest here, the message types, the largest element of a container and \<open>try_reserve\<close>.
\<close>

record thrift_library =
  th_i32 :: "int inner_read"
  th_list_begin :: "int inner_read"
  th_set_begin :: "int inner_read"
  th_map_begin :: "int inner_read"
  th_message_end :: "unit inner_read"
  th_delegate :: "nat \<Rightarrow> unit inner_read"
  th_message_type :: "nat \<Rightarrow> bool"
  th_element_bytes :: nat
  th_reserve :: "nat \<Rightarrow> bool"

text \<open>
  A call of the protocol: \<open>Ok\<close> or an error, the sizes of the buffers that it got from the allocator, in
  their order, and the state after it. What a call charges is in the state alone.
\<close>

type_synonym 'a charged = "response_protocol \<Rightarrow> (thrift_error, 'a) result \<times> nat list \<times> response_protocol"

definition protocol_new :: "frame_reader \<Rightarrow> nat \<Rightarrow> response_protocol" where
  "protocol_new reader limit =
     \<lparr>rp_reader = begin_response limit reader, rp_limit = limit, rp_allocation_remaining = limit,
      rp_active = False\<rparr>"

definition inner_call :: "'a inner_read \<Rightarrow> 'a charged" where
  "inner_call read p = (case read (rp_reader p) of (x, reader) \<Rightarrow> (x, [], p\<lparr>rp_reader := reader\<rparr>))"

definition charged_return :: "'a \<Rightarrow> 'a charged" where
  "charged_return a p = (Inr a, [], p)"

definition charged_fail :: "thrift_error \<Rightarrow> 'a charged" where
  "charged_fail e p = (Inl e, [], p)"

definition charged_bind :: "'a charged \<Rightarrow> ('a \<Rightarrow> 'b charged) \<Rightarrow> 'b charged" where
  "charged_bind f g p =
     (case f p of
        (Inl e, bs, p1) \<Rightarrow> (Inl e, bs, p1)
      | (Inr a, bs, p1) \<Rightarrow> (case g a p1 of (x, cs, p2) \<Rightarrow> (x, bs @ cs, p2)))"

section \<open>The charged reads\<close>

definition allocate :: "nat \<Rightarrow> unit charged" where
  "allocate bytes p =
     (case checked_sub (rp_allocation_remaining p) bytes of
        None \<Rightarrow> (Inl Exceeds_Allocation, [], p)
      | Some left \<Rightarrow> (Inr (), [], p\<lparr>rp_allocation_remaining := left\<rparr>))"

definition container :: "int \<Rightarrow> nat \<Rightarrow> unit charged" where
  "container count element =
     (case (if count < 0 then None else checked_mul (nat count) element) of
        None \<Rightarrow> charged_fail Invalid_Container
      | Some bytes \<Rightarrow> allocate bytes)"

text \<open>\<open>Vec::try_reserve_exact\<close> on an empty vector: a buffer of exactly the size, or none.\<close>

definition try_reserve_exact :: "thrift_library \<Rightarrow> nat \<Rightarrow> unit charged" where
  "try_reserve_exact lib bytes p =
     (if th_reserve lib bytes then (Inr (), [bytes], p) else (Inl No_Memory, [], p))"

text \<open>\<open>Read::read_exact\<close> on the frame reader.\<close>

function frame_read_exact :: "nat \<Rightarrow> frame_reader \<Rightarrow> (thrift_error, string) result \<times> frame_reader" where
  "frame_read_exact count r =
     (if count = 0 then (Inr [], r)
      else
        (case reader_read count r of
           (Inl e, r1) \<Rightarrow> (Inl (Thrift_Io e), r1)
         | (Inr piece, r1) \<Rightarrow>
             if piece = []
             then (Inl (Thrift_Io (Wire_Error Unexpected_Eof ''failed to fill whole buffer'')), r1)
             else
               (case frame_read_exact (count - length piece) r1 of
                  (Inl e, r2) \<Rightarrow> (Inl e, r2)
                | (Inr rest, r2) \<Rightarrow> (Inr (piece @ rest), r2))))"
  by pat_completeness auto
termination
  by (relation "measure fst") auto

declare frame_read_exact.simps [simp del]

definition read_bytes :: "thrift_library \<Rightarrow> string charged" where
  "read_bytes lib =
     charged_bind (inner_call (th_i32 lib)) (\<lambda>len.
       if len < 0 then charged_fail Negative_Size
       else (\<lambda>p.
         (if fr_response_remaining (rp_reader p) < nat len then charged_fail Exceeds_Response
          else
            charged_bind (allocate (nat len)) (\<lambda>_.
            charged_bind (try_reserve_exact lib (nat len)) (\<lambda>_.
              inner_call (frame_read_exact (nat len))))) p))"

definition read_string :: "thrift_library \<Rightarrow> string charged" where
  "read_string lib =
     charged_bind (read_bytes lib) (\<lambda>bytes.
       if utf8 bytes then charged_return bytes else charged_fail Not_Utf8)"

text \<open>A container is answered with the number of its elements, which the bindings then make room for.\<close>

definition read_list_begin :: "thrift_library \<Rightarrow> int charged" where
  "read_list_begin lib =
     charged_bind (inner_call (th_list_begin lib)) (\<lambda>count.
     charged_bind (container count (th_element_bytes lib)) (\<lambda>_.
       charged_return count))"

definition read_set_begin :: "thrift_library \<Rightarrow> int charged" where
  "read_set_begin lib =
     charged_bind (inner_call (th_set_begin lib)) (\<lambda>count.
     charged_bind (container count (th_element_bytes lib + 64)) (\<lambda>_.
       charged_return count))"

definition read_map_begin :: "thrift_library \<Rightarrow> int charged" where
  "read_map_begin lib =
     charged_bind (inner_call (th_map_begin lib)) (\<lambda>count.
     charged_bind (container count (2 * th_element_bytes lib + 64)) (\<lambda>_.
       charged_return count))"

text \<open>\<open>version & 0xffff0000 != 0x80010000\<close>, for the version as a \<open>u32\<close>.\<close>

definition u32_of_i32 :: "int \<Rightarrow> nat" where
  "u32_of_i32 v = nat (v mod 2 ^ 32)"

definition read_message_begin :: "thrift_library \<Rightarrow> (nat \<times> string \<times> int) charged" where
  "read_message_begin lib p =
     (if rp_active p then charged_fail Previous_Failed p
      else
        charged_bind (inner_call (th_i32 lib)) (\<lambda>v.
          let version = u32_of_i32 v in
          if version div 65536 \<noteq> 32769 then charged_fail Bad_Version
          else if \<not> th_message_type lib (version mod 256) then charged_fail Unknown_Message
          else
            charged_bind (read_string lib) (\<lambda>label.
            charged_bind (inner_call (th_i32 lib)) (\<lambda>sequence.
              charged_return (version mod 256, label, sequence))))
          (p\<lparr>rp_active := True, rp_reader := begin_response (rp_limit p) (rp_reader p),
             rp_allocation_remaining := rp_limit p\<rparr>))"

definition read_message_end :: "thrift_library \<Rightarrow> unit charged" where
  "read_message_end lib =
     charged_bind (inner_call (th_message_end lib)) (\<lambda>_ p. (Inr (), [], p\<lparr>rp_active := False\<rparr>))"

section \<open>Runs\<close>

datatype response_op =
    Message_Begin | Message_End | Read_Bytes | Read_String | List_Begin | Set_Begin | Map_Begin
  | Delegated nat

text \<open>What a call hands to the bindings.\<close>

datatype response_read = Got_Message nat string int | Got_Bytes string | Got_Elements int | Got_Nothing

definition charged_map :: "('a \<Rightarrow> 'b) \<Rightarrow> 'a charged \<Rightarrow> 'b charged" where
  "charged_map f c = charged_bind c (\<lambda>a. charged_return (f a))"

fun response_step :: "thrift_library \<Rightarrow> response_op \<Rightarrow> response_read charged" where
  "response_step lib Message_Begin =
     charged_map (\<lambda>(kind, label, sequence). Got_Message kind label sequence) (read_message_begin lib)"
| "response_step lib Message_End = charged_map (\<lambda>_. Got_Nothing) (read_message_end lib)"
| "response_step lib Read_Bytes = charged_map Got_Bytes (read_bytes lib)"
| "response_step lib Read_String = charged_map Got_Bytes (read_string lib)"
| "response_step lib List_Begin = charged_map Got_Elements (read_list_begin lib)"
| "response_step lib Set_Begin = charged_map Got_Elements (read_set_begin lib)"
| "response_step lib Map_Begin = charged_map Got_Elements (read_map_begin lib)"
| "response_step lib (Delegated k) = charged_map (\<lambda>_. Got_Nothing) (inner_call (th_delegate lib k))"

text \<open>A run: each call with its answer and the buffers that it got.\<close>

type_synonym response_event = "response_op \<times> (thrift_error, response_read) result \<times> nat list"

fun response_run :: "thrift_library \<Rightarrow> response_op list \<Rightarrow> response_protocol \<Rightarrow> response_event list" where
  "response_run lib [] p = []"
| "response_run lib (op # ops) p =
     (case response_step lib op p of (x, bs, p1) \<Rightarrow> (op, x, bs) # response_run lib ops p1)"

text \<open>
  The memory that the events of a run take: the buffers of the strings, whether or not the string
  arrives, and what the generated bindings reserve when they are told the number of elements of a
  container, which is one element of the largest type for each place of a list, 64 bytes more for the
  node of a set, and two elements and 64 bytes for the node of a map.
\<close>

fun reserved_elements :: "thrift_library \<Rightarrow> response_op \<Rightarrow> (thrift_error, response_read) result \<Rightarrow> nat" where
  "reserved_elements lib List_Begin (Inr (Got_Elements count)) = nat count * th_element_bytes lib"
| "reserved_elements lib Set_Begin (Inr (Got_Elements count)) = nat count * (th_element_bytes lib + 64)"
| "reserved_elements lib Map_Begin (Inr (Got_Elements count)) = nat count * (2 * th_element_bytes lib + 64)"
| "reserved_elements lib op x = 0"

definition event_bytes :: "thrift_library \<Rightarrow> response_event \<Rightarrow> nat" where
  "event_bytes lib = (\<lambda>(op, x, bs). sum_list bs + reserved_elements lib op x)"

section \<open>What a call may spend\<close>

text \<open>
  A triple in the style of an amortised analysis: a call that starts with \<open>c\<close> bytes already charged
  and not yet reserved leaves \<open>d a\<close> of them with its answer \<open>a\<close>, and reserves only charged bytes.
\<close>

definition spends :: "nat \<Rightarrow> 'a charged \<Rightarrow> ('a \<Rightarrow> nat) \<Rightarrow> bool" where
  "spends c f d \<longleftrightarrow> (\<forall>p x bs p1. f p = (x, bs, p1) \<longrightarrow>
     rp_limit p1 = rp_limit p \<and> rp_active p1 = rp_active p
     \<and> sum_list bs + case_sum (\<lambda>_. 0) d x + rp_allocation_remaining p1 \<le> rp_allocation_remaining p + c)"

lemma spendsI:
  "(\<And>p x bs p1. f p = (x, bs, p1) \<Longrightarrow> rp_limit p1 = rp_limit p \<and> rp_active p1 = rp_active p
     \<and> sum_list bs + case_sum (\<lambda>_. 0) d x + rp_allocation_remaining p1 \<le> rp_allocation_remaining p + c)
   \<Longrightarrow> spends c f d"
  by (simp add: spends_def)

lemma spendsD:
  "spends c f d \<Longrightarrow> f p = (x, bs, p1) \<Longrightarrow> rp_limit p1 = rp_limit p \<and> rp_active p1 = rp_active p
     \<and> sum_list bs + case_sum (\<lambda>_. 0) d x + rp_allocation_remaining p1 \<le> rp_allocation_remaining p + c"
  by (simp add: spends_def)

named_theorems spends \<open>calls that reserve only what they charge\<close>

lemma spends_inner [spends]: "spends c (inner_call read) (\<lambda>_. c)"
  by (rule spendsI) (auto simp: inner_call_def split: prod.splits sum.splits)

lemma spends_return [spends]: "spends (d a) (charged_return a) d"
  by (rule spendsI) (auto simp: charged_return_def)

lemma spends_fail [spends]: "spends c (charged_fail e) d"
  by (rule spendsI) (auto simp: charged_fail_def)

lemma spends_allocate [spends]: "spends 0 (allocate bytes) (\<lambda>_. bytes)"
  by (rule spendsI) (auto simp: allocate_def checked_sub_Some_iff split: option.splits)

lemma spends_reserve [spends]: "spends bytes (try_reserve_exact lib bytes) (\<lambda>_. 0)"
  by (rule spendsI) (auto simp: try_reserve_exact_def split: if_splits)

lemma spends_bind [spends]:
  assumes "spends c f d" "\<And>a. spends (d a) (g a) e"
  shows "spends c (charged_bind f g) e"
proof (rule spendsI)
  fix p x bs p1
  assume run: "charged_bind f g p = (x, bs, p1)"
  obtain y cs p2 where f: "f p = (y, cs, p2)" by (cases "f p")
  show "rp_limit p1 = rp_limit p \<and> rp_active p1 = rp_active p
     \<and> sum_list bs + case_sum (\<lambda>_. 0) e x + rp_allocation_remaining p1 \<le> rp_allocation_remaining p + c"
  proof (cases y)
    case (Inr a)
    obtain z ds p3 where g: "g a p2 = (z, ds, p3)" by (cases "g a p2")
    from run f Inr g spendsD [OF assms(1) f] spendsD [OF assms(2) g] show ?thesis
      by (auto simp: charged_bind_def)
  qed (use run f spendsD [OF assms(1) f] in \<open>auto simp: charged_bind_def\<close>)
qed

lemma spends_if [spends]: "spends c f d \<Longrightarrow> spends c g d \<Longrightarrow> spends c (if b then f else g) d"
  by simp

lemma spends_state: "(\<And>p. spends c (f p) d) \<Longrightarrow> spends c (\<lambda>p. f p p) d"
  unfolding spends_def by blast

lemma spends_container: "spends 0 (container count element) (\<lambda>_. nat count * element)"
proof (cases "count < 0 \<or> checked_mul (nat count) element = None")
  case True
  then show ?thesis by (auto simp: container_def intro: spends)
next
  case False
  then have "container count element = allocate (nat count * element)"
    by (auto simp: container_def checked_mul_def split: if_splits)
  then show ?thesis by (simp add: spends)
qed

lemma spends_elements:
  "spends 0 (charged_bind (inner_call read) (\<lambda>count. charged_bind (container count element) (\<lambda>_. charged_return count)))
     (\<lambda>count. nat count * element)"
  by (rule spends_bind [OF spends_inner], rule spends_bind [OF spends_container]) (rule spends_return)

lemma spends_read_bytes: "spends 0 (read_bytes lib) (\<lambda>_. 0)"
  unfolding read_bytes_def
  by (rule spends_bind, rule spends_inner, rule spends_if, rule spends_fail, rule spends_state, rule spends_if,
      rule spends_fail, rule spends_bind, rule spends_allocate, rule spends_bind, rule spends_reserve, rule spends_inner)

lemma spends_read_string: "spends 0 (read_string lib) (\<lambda>_. 0)"
  unfolding read_string_def
  by (rule spends_bind, rule spends_read_bytes, rule spends_if, rule spends_return, rule spends_fail)

lemma spends_containers:
  "spends 0 (read_list_begin lib) (\<lambda>count. nat count * th_element_bytes lib)"
  "spends 0 (read_set_begin lib) (\<lambda>count. nat count * (th_element_bytes lib + 64))"
  "spends 0 (read_map_begin lib) (\<lambda>count. nat count * (2 * th_element_bytes lib + 64))"
  unfolding read_list_begin_def read_set_begin_def read_map_begin_def by (rule spends_elements)+


section \<open>The limit of a response\<close>

lemma spends_map:
  assumes "spends c f d" "\<And>a. d a = e (h a)"
  shows "spends c (charged_map h f) e"
  unfolding charged_map_def by (rule spends_bind [OF assms(1)]) (simp add: assms(2) spends_return)

lemma response_step_spends:
  assumes "op \<noteq> Message_Begin" "op \<noteq> Message_End"
  shows "spends 0 (response_step lib op) (\<lambda>a. reserved_elements lib op (Inr a))"
  using assms
  by (cases op) (auto intro!: spends_map spends_read_bytes spends_read_string spends_containers spends_inner)

text \<open>What the current response can still charge, with a response that was not begun yet.\<close>

definition credit :: "response_protocol \<Rightarrow> nat" where
  "credit p = rp_allocation_remaining p + (if rp_active p then 0 else rp_limit p)"

text \<open>What one event does to the credit, and to the responses that may still be begun.\<close>

definition ends_response :: "response_event \<Rightarrow> bool" where
  "ends_response = (\<lambda>(op, x, bs). op = Message_End \<and> (\<exists>a. x = Inr a))"

definition begins_response :: "response_event \<Rightarrow> bool" where
  "begins_response = (\<lambda>(op, x, bs). op = Message_Begin \<and> (\<exists>a. x = Inr a))"

definition pays :: "thrift_library \<Rightarrow> response_protocol \<Rightarrow> response_event \<Rightarrow> response_protocol \<Rightarrow> bool" where
  "pays lib p ev p1 \<longleftrightarrow> rp_limit p1 = rp_limit p
     \<and> event_bytes lib ev + credit p1 \<le> credit p + (if ends_response ev then rp_limit p else 0)
     \<and> of_bool (begins_response ev) + of_bool (\<not> rp_active p1)
         \<le> of_bool (\<not> rp_active p) + (of_bool (ends_response ev) :: nat)"

lemma spends_pays:
  assumes "response_step lib op p = (x, bs, p1)" "op \<noteq> Message_Begin" "op \<noteq> Message_End"
  shows "pays lib p (op, x, bs) p1"
proof -
  have "reserved_elements lib op x = case_sum (\<lambda>_. 0) (\<lambda>a. reserved_elements lib op (Inr a)) x"
    by (cases x; cases op) auto
  with spendsD [OF response_step_spends [OF assms(2,3)] assms(1)] assms(2,3) show ?thesis
    by (auto simp: pays_def event_bytes_def credit_def ends_response_def begins_response_def)
qed

lemma message_begin_body:
  "spends 0 (charged_bind (inner_call (th_i32 lib)) (\<lambda>v.
      let version = u32_of_i32 v in
      if version div 65536 \<noteq> 32769 then charged_fail Bad_Version
      else if \<not> th_message_type lib (version mod 256) then charged_fail Unknown_Message
      else
        charged_bind (read_string lib) (\<lambda>label.
        charged_bind (inner_call (th_i32 lib)) (\<lambda>sequence.
          charged_return (version mod 256, label, sequence))))) (\<lambda>_. 0)"
  unfolding Let_def
  by (intro spends_bind [where d = "\<lambda>_. 0"] spends_inner spends_if spends_fail spends_read_string spends_return)

lemma begin_inactive:
  assumes "response_step lib Message_Begin p = (x, bs, p1)" "\<not> rp_active p"
  shows "sum_list bs + rp_allocation_remaining p1 \<le> rp_limit p \<and> rp_limit p1 = rp_limit p \<and> rp_active p1"
proof -
  let ?p = "p\<lparr>rp_active := True, rp_reader := begin_response (rp_limit p) (rp_reader p),
     rp_allocation_remaining := rp_limit p\<rparr>"
  obtain y cs p2 where run: "read_message_begin lib p = (y, cs, p2)" by (cases "read_message_begin lib p")
  then have "sum_list cs + rp_allocation_remaining p2 \<le> rp_limit p \<and> rp_limit p2 = rp_limit p \<and> rp_active p2"
    using spendsD [OF message_begin_body [of lib], of ?p y cs p2] assms(2)
    by (auto simp: read_message_begin_def)
  with run assms(1) show ?thesis
    by (auto simp: charged_map_def charged_bind_def charged_return_def split: sum.splits)
qed

lemma begin_pays:
  assumes "response_step lib Message_Begin p = (x, bs, p1)"
  shows "pays lib p (Message_Begin, x, bs) p1"
proof (cases "rp_active p")
  case True
  with assms show ?thesis
    by (auto simp: read_message_begin_def charged_map_def charged_bind_def charged_fail_def pays_def
        event_bytes_def begins_response_def)
next
  case False
  with begin_inactive [OF assms] show ?thesis
    by (auto simp: pays_def credit_def event_bytes_def ends_response_def)
qed

lemma end_pays:
  assumes "response_step lib Message_End p = (x, bs, p1)"
  shows "pays lib p (Message_End, x, bs) p1"
  using assms
  by (cases "th_message_end lib (rp_reader p)"; cases "fst (th_message_end lib (rp_reader p))")
    (auto simp: read_message_end_def charged_map_def charged_bind_def charged_return_def inner_call_def
      credit_def pays_def event_bytes_def ends_response_def begins_response_def)

lemma step_pays:
  assumes "response_step lib op p = (x, bs, p1)"
  shows "pays lib p (op, x, bs) p1"
  using assms begin_pays end_pays spends_pays by (cases "op = Message_Begin"; cases "op = Message_End") auto

lemma run_pays:
  "sum_list (map (event_bytes lib) (response_run lib ops p))
     \<le> credit p + rp_limit p * length (filter ends_response (response_run lib ops p))
   \<and> length (filter begins_response (response_run lib ops p))
     \<le> of_bool (\<not> rp_active p) + length (filter ends_response (response_run lib ops p))"
proof (induction ops arbitrary: p)
  case (Cons op ops)
  obtain x bs p1 where step: "response_step lib op p = (x, bs, p1)" by (cases "response_step lib op p")
  from step_pays [OF step] Cons.IH [of p1] step show ?case
    by (auto simp: pays_def split: if_splits)
qed simp

text \<open>
  C30. Whatever the server sends, the bindings call and the allocator gives, the buffers of the
  strings and the room for the elements of the containers that a run reserves stay within one limit
  for each response: only a response that was read to its end (a \<open>read_message_end\<close> that
  succeeded) gives a new limit and lets a new message begin, so a response that failed cannot get a
  second limit. What is counted are the buffers that the allocator gave out and the element counts
  that the bindings were told, not what the protocol charged for them.
\<close>

theorem responses_stay_in_limit:
  "sum_list (map (event_bytes lib) (response_run lib (Message_Begin # ops) (protocol_new reader limit)))
     \<le> limit * Suc (length (filter ends_response (response_run lib (Message_Begin # ops) (protocol_new reader limit))))
   \<and> length (filter begins_response (response_run lib (Message_Begin # ops) (protocol_new reader limit)))
     \<le> Suc (length (filter ends_response (response_run lib (Message_Begin # ops) (protocol_new reader limit))))"
proof -
  let ?p = "protocol_new reader limit"
  obtain x bs p1 where step: "response_step lib Message_Begin ?p = (x, bs, p1)"
    by (cases "response_step lib Message_Begin ?p")
  then have "sum_list bs + rp_allocation_remaining p1 \<le> limit" "rp_limit p1 = limit" "rp_active p1"
    using begin_inactive [OF step] by (simp_all add: protocol_new_def)
  with run_pays [of lib ops p1] step show ?thesis
    by (auto simp: event_bytes_def ends_response_def begins_response_def credit_def)
qed

end
