(* ===== verification/Disk.thy ===== *)
theory Disk
  imports Rust_Prelude
begin

text \<open>
  The reservations of disk space (\<open>src/export/disk.rs\<close>). Spools and outputs write in chunks; before
  each chunk a writer reserves its bytes on the volume, under one lock with the reading of the free
  space, and releases them after the write. The steps of all writers interleave. The free space of
  a volume is the environment: writes use it, other processes may free some.
\<close>

section \<open>State\<close>

record reservation =
  rv_volume :: nat
  rv_bytes :: nat
  rv_unwritten :: nat

record disk =
  dk_counts :: "nat \<rightharpoonup> nat"
  dk_live :: "reservation list"
  dk_free :: "nat \<Rightarrow> nat"
  dk_panicked :: bool

datatype disk_error = Reservation_Overflow | Space_Unknown | Floor_Reached

definition DISK_FLOOR :: nat where "DISK_FLOOR = 1024 * 1024 * 1024"

definition DISK_CHUNK :: nat where "DISK_CHUNK = 8 * 1024 * 1024"

definition disk_new :: "(nat \<Rightarrow> nat) \<Rightarrow> disk" where
  "disk_new free = \<lparr>dk_counts = Map.empty, dk_live = [], dk_free = free, dk_panicked = False\<rparr>"

section \<open>Operations\<close>

definition reserve :: "nat \<Rightarrow> nat \<Rightarrow> nat option \<Rightarrow> nat \<Rightarrow> (nat \<rightharpoonup> nat) \<Rightarrow> (disk_error, nat \<rightharpoonup> nat) result" where
  "reserve volume bytes available floor counts =
     (let reserved = (case counts volume of None \<Rightarrow> 0 | Some n \<Rightarrow> n) in
      and_then (ok_or Reservation_Overflow (checked_add reserved bytes)) (\<lambda>total.
      and_then (ok_or Space_Unknown available) (\<lambda>space.
      and_then (ensure (\<not> space - total < floor) Floor_Reached) (\<lambda>_.
      Inr (counts(volume \<mapsto> total))))))"

text \<open>\<open>None\<close> is the panic of \<open>unwrap\<close> or of the subtraction.\<close>

definition drop_reservation :: "nat \<Rightarrow> nat \<Rightarrow> (nat \<rightharpoonup> nat) \<Rightarrow> (nat \<rightharpoonup> nat) option" where
  "drop_reservation volume bytes counts =
     Option.bind (counts volume) (\<lambda>count.
       Option.bind (checked_sub count bytes) (\<lambda>count.
         if count = 0 then Some (counts(volume := None)) else Some (counts(volume \<mapsto> count))))"

text \<open>The first part of \<open>DiskWriter::write\<close>: an empty buffer reserves nothing.\<close>

definition write_begin :: "nat \<Rightarrow> nat \<Rightarrow> bool \<Rightarrow> disk \<Rightarrow> (disk_error, nat) result \<times> disk" where
  "write_begin volume len readable d =
     (if len = 0 then (Inr 0, d)
      else
        (let bytes = min len DISK_CHUNK in
         case reserve volume bytes (if readable then Some (dk_free d volume) else None) DISK_FLOOR (dk_counts d) of
           Inl e \<Rightarrow> (Inl e, d)
         | Inr counts \<Rightarrow>
             (Inr bytes,
              d\<lparr>dk_counts := counts,
                dk_live := dk_live d @ [\<lparr>rv_volume = volume, rv_bytes = bytes, rv_unwritten = bytes\<rparr>]\<rparr>)))"

text \<open>The write of the inner file takes some of the reserved bytes, or none when it fails.\<close>

definition inner_write :: "nat \<Rightarrow> nat \<Rightarrow> disk \<Rightarrow> disk" where
  "inner_write k n d =
     (if k < length (dk_live d) then
        (let r = dk_live d ! k; n = min n (rv_unwritten r) in
         d\<lparr>dk_live := (dk_live d)[k := r\<lparr>rv_unwritten := rv_unwritten r - n\<rparr>],
           dk_free := (dk_free d)(rv_volume r := dk_free d (rv_volume r) - n)\<rparr>)
      else d)"

text \<open>The end of the write, also after an error, drops the reservation.\<close>

definition write_end :: "nat \<Rightarrow> disk \<Rightarrow> disk" where
  "write_end k d =
     (if k < length (dk_live d) then
        (let r = dk_live d ! k; live = take k (dk_live d) @ drop (Suc k) (dk_live d) in
         case drop_reservation (rv_volume r) (rv_bytes r) (dk_counts d) of
           None \<Rightarrow> d\<lparr>dk_live := live, dk_panicked := True\<rparr>
         | Some counts \<Rightarrow> d\<lparr>dk_live := live, dk_counts := counts\<rparr>)
      else d)"

datatype disk_op =
    Write_Begin nat nat bool | Inner_Write nat nat | Write_End nat | Space_Freed nat nat

fun disk_step :: "disk_op \<Rightarrow> disk \<Rightarrow> disk" where
  "disk_step (Write_Begin volume len readable) d = snd (write_begin volume len readable d)"
| "disk_step (Inner_Write k n) d = inner_write k n d"
| "disk_step (Write_End k) d = write_end k d"
| "disk_step (Space_Freed volume n) d = d\<lparr>dk_free := (dk_free d)(volume := dk_free d volume + n)\<rparr>"

section \<open>The invariant\<close>

abbreviation reserved_on :: "nat \<Rightarrow> disk \<Rightarrow> nat" where
  "reserved_on v d \<equiv> key_sum rv_volume rv_bytes v (dk_live d)"

abbreviation unwritten_on :: "nat \<Rightarrow> disk \<Rightarrow> nat" where
  "unwritten_on v d \<equiv> key_sum rv_volume rv_unwritten v (dk_live d)"

definition counts_ok :: "disk \<Rightarrow> bool" where
  "counts_ok d \<longleftrightarrow>
     (\<forall>v. dk_counts d v = (if reserved_on v d = 0 then None else Some (reserved_on v d)))"

definition live_ok :: "disk \<Rightarrow> bool" where
  "live_ok d \<longleftrightarrow>
     (\<forall>r \<in> set (dk_live d). 0 < rv_bytes r \<and> rv_bytes r \<le> DISK_CHUNK \<and> rv_unwritten r \<le> rv_bytes r)"

definition floor_ok :: "disk \<Rightarrow> bool" where
  "floor_ok d \<longleftrightarrow>
     (\<forall>v. reserved_on v d \<noteq> 0 \<longrightarrow> DISK_FLOOR + unwritten_on v d \<le> dk_free d v)"

definition disk_ok :: "disk \<Rightarrow> bool" where
  "disk_ok d \<longleftrightarrow> counts_ok d \<and> live_ok d \<and> floor_ok d \<and> \<not> dk_panicked d"

lemma key_sum_nth:
  "k < length xs \<Longrightarrow> key_sum key f v xs
     = key_sum key f v (take k xs @ drop (Suc k) xs) + (if key (xs ! k) = v then f (xs ! k) else 0)"
  by (subst id_take_nth_drop [of k xs]) simp_all

lemma key_sum_le: "(\<And>x. x \<in> set xs \<Longrightarrow> f x \<le> g x) \<Longrightarrow> key_sum key f v xs \<le> key_sum key g v xs"
  by (induction xs) (auto intro: add_mono)

lemma key_sum_update:
  assumes "k < length xs" "key x = key (xs ! k)"
  shows "key_sum key f v (xs[k := x]) + (if key (xs ! k) = v then f (xs ! k) else 0)
    = key_sum key f v xs + (if key (xs ! k) = v then f x else 0)"
proof -
  have "take k (xs[k := x]) @ drop (Suc k) (xs[k := x]) = take k xs @ drop (Suc k) xs" by simp
  with key_sum_nth [of k "xs[k := x]" key f v] key_sum_nth [of k xs key f v] assms show ?thesis by simp
qed

lemma unwritten_le: "live_ok d \<Longrightarrow> unwritten_on v d \<le> reserved_on v d"
  by (rule key_sum_le) (simp add: live_ok_def)

lemma reserve_Inr:
  assumes "reserve v bytes available floor counts = Inr counts1"
  obtains space where "available = Some space" "counts1 = counts(v \<mapsto> (case counts v of None \<Rightarrow> 0 | Some n \<Rightarrow> n) + bytes)"
    "floor \<le> space - ((case counts v of None \<Rightarrow> 0 | Some n \<Rightarrow> n) + bytes)"
  using assms by (auto simp: reserve_def Let_def and_then_Inr_iff ok_or_Inr_iff checked_add_Some_iff)

lemma disk_ok_write_begin:
  assumes "disk_ok d"
  shows "disk_ok (snd (write_begin v len readable d))"
proof (cases "len = 0")
  case False
  let ?b = "min len DISK_CHUNK"
  show ?thesis
  proof (cases "reserve v ?b (if readable then Some (dk_free d v) else None) DISK_FLOOR (dk_counts d)")
    case (Inr counts)
    let ?d = "d\<lparr>dk_counts := counts,
        dk_live := dk_live d @ [\<lparr>rv_volume = v, rv_bytes = ?b, rv_unwritten = ?b\<rparr>]\<rparr>"
    have b: "0 < ?b" "?b \<le> DISK_CHUNK" using False by (simp_all add: DISK_CHUNK_def)
    have old: "(case dk_counts d v of None \<Rightarrow> 0 | Some n \<Rightarrow> n) = reserved_on v d"
      using assms by (simp add: disk_ok_def counts_ok_def)
    from reserve_Inr [OF Inr] obtain space where sp:
      "(if readable then Some (dk_free d v) else None) = Some space"
      "counts = (dk_counts d)(v \<mapsto> reserved_on v d + ?b)" "DISK_FLOOR \<le> space - (reserved_on v d + ?b)"
      unfolding old by blast
    from sp(1) have space: "space = dk_free d v" by (simp split: if_splits)
    have "0 < DISK_FLOOR" by (simp add: DISK_FLOOR_def)
    with sp(3) space have fits: "DISK_FLOOR + (reserved_on v d + ?b) \<le> dk_free d v" by linarith
    have "counts_ok ?d" using assms b sp(2) by (auto simp: disk_ok_def counts_ok_def)
    moreover have "live_ok ?d" using assms b by (auto simp: disk_ok_def live_ok_def)
    moreover have "floor_ok ?d"
      using assms fits unwritten_le [of d v] by (auto simp: disk_ok_def floor_ok_def)
    ultimately have "disk_ok ?d" using assms by (simp add: disk_ok_def)
    with False Inr show ?thesis by (simp add: write_begin_def Let_def)
  qed (use assms False in \<open>simp add: write_begin_def Let_def\<close>)
qed (use assms in \<open>simp add: write_begin_def\<close>)

lemma disk_ok_inner_write:
  assumes "disk_ok d"
  shows "disk_ok (inner_write k n d)"
proof (cases "k < length (dk_live d)")
  case True
  let ?r = "dk_live d ! k"
  let ?n = "min n (rv_unwritten ?r)"
  let ?d = "d\<lparr>dk_live := (dk_live d)[k := ?r\<lparr>rv_unwritten := rv_unwritten ?r - ?n\<rparr>],
     dk_free := (dk_free d)(rv_volume ?r := dk_free d (rv_volume ?r) - ?n)\<rparr>"
  have bytes: "reserved_on v ?d = reserved_on v d" for v
    using key_sum_update [OF True, of rv_volume "?r\<lparr>rv_unwritten := rv_unwritten ?r - ?n\<rparr>" rv_bytes v]
    by (simp split: if_splits)
  have unwritten: "unwritten_on v ?d + (if rv_volume ?r = v then ?n else 0) = unwritten_on v d" for v
    using key_sum_update [OF True, of rv_volume "?r\<lparr>rv_unwritten := rv_unwritten ?r - ?n\<rparr>" rv_unwritten v]
    by (simp split: if_splits)
  have "counts_ok ?d" using assms by (simp add: disk_ok_def counts_ok_def bytes [simplified])
  moreover have "live_ok ?d"
    unfolding live_ok_def
  proof
    fix x
    assume "x \<in> set (dk_live ?d)"
    then have "x = ?r\<lparr>rv_unwritten := rv_unwritten ?r - ?n\<rparr> \<or> x \<in> set (dk_live d)"
      using set_update_subset_insert [of "dk_live d" k] by auto
    moreover have "?r \<in> set (dk_live d)" using True by simp
    ultimately show "0 < rv_bytes x \<and> rv_bytes x \<le> DISK_CHUNK \<and> rv_unwritten x \<le> rv_bytes x"
      using assms by (fastforce simp: disk_ok_def live_ok_def)
  qed
  moreover have "floor_ok ?d"
    unfolding floor_ok_def
  proof (intro allI impI)
    fix v
    assume "reserved_on v ?d \<noteq> 0"
    with bytes assms have "DISK_FLOOR + unwritten_on v d \<le> dk_free d v"
      by (simp only: disk_ok_def floor_ok_def) simp
    with unwritten [of v] show "DISK_FLOOR + unwritten_on v ?d \<le> dk_free ?d v" by (auto split: if_splits)
  qed
  ultimately have "disk_ok ?d" using assms by (simp add: disk_ok_def)
  with True show ?thesis by (simp add: inner_write_def Let_def)
qed (use assms in \<open>simp add: inner_write_def\<close>)

lemma disk_ok_write_end:
  assumes "disk_ok d"
  shows "disk_ok (write_end k d)"
proof (cases "k < length (dk_live d)")
  case True
  let ?r = "dk_live d ! k"
  let ?live = "take k (dk_live d) @ drop (Suc k) (dk_live d)"
  have sums: "reserved_on v d = key_sum rv_volume rv_bytes v ?live + (if rv_volume ?r = v then rv_bytes ?r else 0)"
    "unwritten_on v d = key_sum rv_volume rv_unwritten v ?live + (if rv_volume ?r = v then rv_unwritten ?r else 0)"
    for v by (rule key_sum_nth [OF True])+
  have "?r \<in> set (dk_live d)" using True by simp
  with assms have pos: "0 < rv_bytes ?r" by (auto simp: disk_ok_def live_ok_def)
  let ?rest = "key_sum rv_volume rv_bytes (rv_volume ?r) ?live"
  have count: "dk_counts d (rv_volume ?r) = Some (?rest + rv_bytes ?r)"
    using assms sums(1) [of "rv_volume ?r"] pos by (simp add: disk_ok_def counts_ok_def del: key_sum_simps)
  let ?counts = "(dk_counts d)(rv_volume ?r := (if ?rest = 0 then None else Some ?rest))"
  have dropped: "drop_reservation (rv_volume ?r) (rv_bytes ?r) (dk_counts d) = Some ?counts"
    by (simp add: drop_reservation_def count checked_sub_def del: key_sum_simps)
  let ?d = "d\<lparr>dk_live := ?live, dk_counts := ?counts\<rparr>"
  have "counts_ok ?d"
    using assms sums(1) by (auto simp: disk_ok_def counts_ok_def simp del: key_sum_simps)
  moreover have "live_ok ?d"
    using assms by (auto simp: disk_ok_def live_ok_def dest: in_set_takeD in_set_dropD)
  moreover have "floor_ok ?d"
    unfolding floor_ok_def
  proof (intro allI impI)
    fix v
    assume "reserved_on v ?d \<noteq> 0"
    then have "reserved_on v d \<noteq> 0" using sums(1) [of v] by (simp del: key_sum_simps)
    with assms have "DISK_FLOOR + unwritten_on v d \<le> dk_free d v"
      unfolding disk_ok_def floor_ok_def by blast
    with sums(2) [of v] show "DISK_FLOOR + unwritten_on v ?d \<le> dk_free ?d v" by (simp del: key_sum_simps)
  qed
  ultimately have "disk_ok ?d" using assms by (simp add: disk_ok_def)
  with True dropped show ?thesis by (simp add: write_end_def Let_def del: key_sum_simps)
qed (use assms in \<open>simp add: write_end_def\<close>)

lemma disk_ok_step: "disk_ok d \<Longrightarrow> disk_ok (disk_step op d)"
proof (cases op)
  case (Space_Freed v n)
  moreover assume "disk_ok d"
  ultimately show ?thesis by (auto simp: disk_ok_def counts_ok_def live_ok_def floor_ok_def intro: trans_le_add1)
qed (simp_all add: disk_ok_write_begin disk_ok_inner_write disk_ok_write_end)

lemma disk_ok_new: "disk_ok (disk_new free)"
  by (simp add: disk_ok_def disk_new_def counts_ok_def live_ok_def floor_ok_def)

interpretation disk_runs: kept_invariant "disk_new free" disk_step disk_ok
  for free
  by unfold_locales (rule disk_ok_new, rule disk_ok_step)

text \<open>
  C15. Concurrent exports keep the last gigabyte of a volume free: in every interleaving of the
  writers' steps, where other processes only free space, a volume with a chunk in progress has the
  floor and all chunks that are reserved and not yet written free; the count of a volume is exactly
  the sum of its reservations and is gone with the last of them, and no release panics.
\<close>

theorem disk_floor_is_kept:
  "let d = run_from disk_step (disk_new free) ops in
     (\<forall>r \<in> set (dk_live d). DISK_FLOOR + unwritten_on (rv_volume r) d \<le> dk_free d (rv_volume r))
     \<and> dk_counts d v = (if reserved_on v d = 0 then None else Some (reserved_on v d))
     \<and> \<not> dk_panicked d"
proof -
  let ?d = "run_from disk_step (disk_new free) ops"
  have ok: "disk_ok ?d" by (rule disk_runs.inv_run)
  have "reserved_on (rv_volume r) ?d \<noteq> 0" if "r \<in> set (dk_live ?d)" for r
  proof -
    from that ok have "0 < rv_bytes r" by (auto simp: disk_ok_def live_ok_def)
    moreover from that obtain k where "k < length (dk_live ?d)" "dk_live ?d ! k = r"
      by (auto simp: in_set_conv_nth)
    ultimately show ?thesis using key_sum_nth [of k "dk_live ?d" rv_volume rv_bytes "rv_volume r"] by simp
  qed
  with ok have "\<forall>r \<in> set (dk_live ?d). DISK_FLOOR + unwritten_on (rv_volume r) ?d \<le> dk_free ?d (rv_volume r)"
    by (simp add: disk_ok_def floor_ok_def)
  with ok show ?thesis unfolding Let_def disk_ok_def counts_ok_def by blast
qed

definition sample_writes :: "disk_op list" where
  "sample_writes =
     [Write_Begin 0 100 True, Inner_Write 0 40, Write_Begin 0 9000000 True, Write_Begin 1 5 False, Write_End 0,
      Write_Begin 0 0 True]"

theorem disk_floor_is_kept_witness:
  "dk_live (run_from disk_step (disk_new (\<lambda>_. 1100000000)) sample_writes)
      = [\<lparr>rv_volume = 0, rv_bytes = 8388608, rv_unwritten = 8388608\<rparr>]
   \<and> DISK_FLOOR + 8388608 \<le> dk_free (run_from disk_step (disk_new (\<lambda>_. 1100000000)) sample_writes) 0
   \<and> dk_counts (run_from disk_step (disk_new (\<lambda>_. 1100000000)) sample_writes) 0 = Some 8388608"
proof -
  have live: "dk_live (run_from disk_step (disk_new (\<lambda>_. 1100000000)) sample_writes)
      = [\<lparr>rv_volume = 0, rv_bytes = 8388608, rv_unwritten = 8388608\<rparr>]"
    by code_simp
  show ?thesis
    using disk_floor_is_kept [of "\<lambda>_. 1100000000" sample_writes 0]
    unfolding Let_def live by simp
qed

end
