(* ===== verification/Dbt_Index.thy ===== *)
theory Dbt_Index
  imports Rust_Str "HOL-Library.List_Lexorder" "HOL-Library.Char_ord"
begin

text \<open>
  The index of a dbt project (\<open>src/dbt.rs\<close>): its entries and tests with interned symbols, the
  check of a loaded index, the lookups that rely on it, and the search. \<open>str::to_lowercase\<close> goes by
  the Unicode tables; it is the parameter \<open>lower\<close>.
\<close>

section \<open>State\<close>

type_synonym symbol = nat

datatype dbt_kind = Dbt_Model | Dbt_Seed | Dbt_Snapshot | Dbt_Source

fun dbt_kind_name :: "dbt_kind \<Rightarrow> string" where
  "dbt_kind_name Dbt_Model = ''model''"
| "dbt_kind_name Dbt_Seed = ''seed''"
| "dbt_kind_name Dbt_Snapshot = ''snapshot''"
| "dbt_kind_name Dbt_Source = ''source''"

record span =
  sn_start :: nat
  sn_len :: nat

record dbt_column =
  dc_name :: string
  dc_description :: string
  dc_data_type :: "symbol option"

record dbt_entry =
  de_unique_id :: string
  de_kind :: dbt_kind
  de_name :: string
  de_package :: symbol
  de_database :: "symbol option"
  de_schema :: symbol
  de_identifier :: string
  de_relation_name :: "string option"
  de_materialized :: "symbol option"
  de_description :: string
  de_tags :: "symbol list"
  de_columns :: "dbt_column list"
  de_parents :: "nat list"
  de_path :: string
  de_compiled_path :: "string option"
  de_source_name :: "symbol option"
  de_loader :: "symbol option"
  de_raw_code :: "span option"
  de_compiled_code :: "span option"

record dbt_test =
  dt_name :: symbol
  dt_entry :: nat
  dt_column :: "string option"
  dt_values :: "string list"
  dt_to :: "nat option"
  dt_to_text :: "string option"
  dt_field :: "string option"
  dt_arguments :: "string option"

record semantic_part =
  sp_name :: string
  sp_kind :: "symbol option"
  sp_expr :: "string option"
  sp_description :: "string option"

record semantic_model =
  sm_name :: string
  sm_description :: string
  sm_entry :: "nat option"
  sm_agg_time_dimension :: "string option"
  sm_entities :: "semantic_part list"
  sm_dimensions :: "semantic_part list"
  sm_measures :: "semantic_part list"

record metric =
  me_name :: string
  me_label :: "string option"
  me_description :: string
  me_kind :: "symbol option"
  me_type_params :: "string option"
  me_filter :: "string option"

record exposure =
  xp_name :: string
  xp_kind :: "symbol option"
  xp_label :: "string option"
  xp_description :: string
  xp_owner :: "string option"
  xp_url :: "string option"
  xp_parents :: "nat list"

record dbt_index =
  ix_project :: string
  ix_dbt_version :: string
  ix_generated_at :: string
  ix_adapter :: string
  ix_has_compiled_code :: bool
  ix_symbols :: "string list"
  ix_entries :: "dbt_entry list"
  ix_tests :: "dbt_test list"
  ix_children :: "nat list list"
  ix_semantic_models :: "semantic_model list"
  ix_metrics :: "metric list"
  ix_exposures :: "exposure list"

section \<open>Lookups\<close>

text \<open>Indexing panics out of range; the panic is \<open>None\<close>.\<close>

definition at :: "'a list \<Rightarrow> nat \<Rightarrow> 'a option" where
  "at xs i = (if i < length xs then Some (xs ! i) else None)"

definition index_symbol :: "dbt_index \<Rightarrow> symbol \<Rightarrow> string option" where
  "index_symbol ix s = at (ix_symbols ix) s"

definition index_entry :: "dbt_index \<Rightarrow> nat \<Rightarrow> dbt_entry option" where
  "index_entry ix i = at (ix_entries ix) i"

definition index_children :: "dbt_index \<Rightarrow> nat \<Rightarrow> nat list option" where
  "index_children ix i = at (ix_children ix) i"

text \<open>\<open>binary_search_by\<close> between two positions.\<close>

function binary_search :: "('a \<Rightarrow> 'k :: linorder) \<Rightarrow> 'k \<Rightarrow> 'a list \<Rightarrow> nat \<Rightarrow> nat \<Rightarrow> nat option" where
  "binary_search key k xs lo hi =
     (if hi \<le> lo then None
      else
        (let mid = lo + (hi - lo) div 2 in
         if key (xs ! mid) < k then binary_search key k xs (mid + 1) hi
         else if k < key (xs ! mid) then binary_search key k xs lo mid
         else Some mid))"
  by pat_completeness auto
termination
  by (relation "measure (\<lambda>(_, _, _, lo, hi). hi - lo)") auto

declare binary_search.simps [simp del]

definition index_find :: "dbt_index \<Rightarrow> string \<Rightarrow> nat option" where
  "index_find ix unique_id = binary_search de_unique_id unique_id (ix_entries ix) 0 (length (ix_entries ix))"

text \<open>\<open>partition_point\<close> of a list whose first elements are the ones with the property.\<close>

definition partition_point :: "('a \<Rightarrow> bool) \<Rightarrow> 'a list \<Rightarrow> nat" where
  "partition_point p xs = length (takeWhile p xs)"

definition index_tests :: "dbt_index \<Rightarrow> nat \<Rightarrow> dbt_test list" where
  "index_tests ix i =
     slice (ix_tests ix)
       (partition_point (\<lambda>t. dt_entry t < i) (ix_tests ix), partition_point (\<lambda>t. dt_entry t \<le> i) (ix_tests ix))"

section \<open>The check of a loaded index\<close>

definition none_or :: "('a \<Rightarrow> bool) \<Rightarrow> 'a option \<Rightarrow> bool" where
  "none_or p x = (case x of None \<Rightarrow> True | Some a \<Rightarrow> p a)"

definition entry_in_range :: "nat \<Rightarrow> nat \<Rightarrow> dbt_entry \<Rightarrow> bool" where
  "entry_in_range symbols entries e \<longleftrightarrow>
     de_package e < symbols \<and> none_or (\<lambda>s. s < symbols) (de_database e) \<and> de_schema e < symbols
     \<and> none_or (\<lambda>s. s < symbols) (de_materialized e) \<and> none_or (\<lambda>s. s < symbols) (de_source_name e)
     \<and> none_or (\<lambda>s. s < symbols) (de_loader e) \<and> list_all (\<lambda>s. s < symbols) (de_tags e)
     \<and> list_all (\<lambda>c. none_or (\<lambda>s. s < symbols) (dc_data_type c)) (de_columns e)
     \<and> list_all (\<lambda>p. p < entries) (de_parents e)"

definition parts_in_range :: "nat \<Rightarrow> semantic_part list \<Rightarrow> bool" where
  "parts_in_range symbols parts \<longleftrightarrow> list_all (\<lambda>p. none_or (\<lambda>s. s < symbols) (sp_kind p)) parts"

fun windows_ascending :: "dbt_entry list \<Rightarrow> bool" where
  "windows_ascending (a # b # es) \<longleftrightarrow> de_unique_id a < de_unique_id b \<and> windows_ascending (b # es)"
| "windows_ascending es \<longleftrightarrow> True"

definition index_check :: "dbt_index \<Rightarrow> bool" where
  "index_check ix \<longleftrightarrow>
     (let entries = length (ix_entries ix); symbols = length (ix_symbols ix) in
      list_all (entry_in_range symbols entries) (ix_entries ix)
      \<and> windows_ascending (ix_entries ix)
      \<and> list_all (\<lambda>t. dt_name t < symbols \<and> dt_entry t < entries \<and> none_or (\<lambda>i. i < entries) (dt_to t)) (ix_tests ix)
      \<and> sorted (map dt_entry (ix_tests ix))
      \<and> length (ix_children ix) = entries
      \<and> list_all (list_all (\<lambda>i. i < entries)) (ix_children ix)
      \<and> list_all (\<lambda>m. none_or (\<lambda>i. i < entries) (sm_entry m) \<and> parts_in_range symbols (sm_entities m)
           \<and> parts_in_range symbols (sm_dimensions m) \<and> parts_in_range symbols (sm_measures m)) (ix_semantic_models ix)
      \<and> list_all (\<lambda>m. none_or (\<lambda>s. s < symbols) (me_kind m)) (ix_metrics ix)
      \<and> list_all (\<lambda>x. none_or (\<lambda>s. s < symbols) (xp_kind x) \<and> list_all (\<lambda>p. p < entries) (xp_parents x)) (ix_exposures ix))"

section \<open>Interning\<close>

record symbol_table =
  sy_list :: "string list"
  sy_positions :: "string \<rightharpoonup> nat"

definition intern :: "string \<Rightarrow> symbol_table \<Rightarrow> symbol \<times> symbol_table" where
  "intern text t =
     (case sy_positions t text of
        Some i \<Rightarrow> (i, t)
      | None \<Rightarrow>
          (length (sy_list t),
           \<lparr>sy_list = sy_list t @ [text], sy_positions = (sy_positions t)(text \<mapsto> length (sy_list t))\<rparr>))"

section \<open>Search\<close>

fun has_folded_window :: "string \<Rightarrow> string \<Rightarrow> bool" where
  "has_folded_window [] query \<longleftrightarrow> False"
| "has_folded_window (c # cs) query \<longleftrightarrow>
     length query \<le> length (c # cs) \<and> eq_ignore_ascii_case (take (length query) (c # cs)) query
     \<or> has_folded_window cs query"

definition contains_folded :: "(string \<Rightarrow> string) \<Rightarrow> string \<Rightarrow> string \<Rightarrow> bool" where
  "contains_folded lower txt query \<longleftrightarrow>
     (if query = [] then True
      else if list_all is_ascii txt \<and> list_all is_ascii query then has_folded_window txt query
      else contains_str (lower txt) query)"

definition names_match :: "(string \<Rightarrow> string) \<Rightarrow> dbt_index \<Rightarrow> string \<Rightarrow> dbt_entry \<Rightarrow> bool" where
  "names_match lower ix query e \<longleftrightarrow>
     contains_folded lower (de_name e) query \<or> contains_folded lower (de_identifier e) query
     \<or> list_ex (\<lambda>tag. case index_symbol ix tag of None \<Rightarrow> False | Some s \<Rightarrow> eq_ignore_ascii_case s query) (de_tags e)"

fun search_loop ::
  "(dbt_entry \<Rightarrow> bool) \<Rightarrow> (dbt_entry \<Rightarrow> bool) \<Rightarrow> nat \<Rightarrow> (nat \<times> dbt_entry) list \<Rightarrow> nat list \<Rightarrow> nat list \<Rightarrow> nat list" where
  "search_loop by_name by_description limit [] names texts = take limit (names @ texts)"
| "search_loop by_name by_description limit ((i, e) # es) names texts =
     (let (names, texts) =
        (if by_name e then (names @ [i], texts)
         else if length names + length texts < limit \<and> by_description e then (names, texts @ [i])
         else (names, texts))
      in if limit \<le> length names then take limit (names @ texts)
         else search_loop by_name by_description limit es names texts)"

definition search_candidates :: "dbt_index \<Rightarrow> dbt_kind option \<Rightarrow> (nat \<times> dbt_entry) list" where
  "search_candidates ix kind =
     filter (\<lambda>(_, e). none_or (\<lambda>k. de_kind e = k) kind) (zip [0..<length (ix_entries ix)] (ix_entries ix))"

definition index_search :: "(string \<Rightarrow> string) \<Rightarrow> dbt_index \<Rightarrow> string \<Rightarrow> dbt_kind option \<Rightarrow> nat \<Rightarrow> nat list" where
  "index_search lower ix query kind limit =
     (let query = lower (trim query) in
      search_loop (names_match lower ix query) (\<lambda>e. contains_folded lower (de_description e) query)
        limit (search_candidates ix kind) [] [])"

section \<open>Lookups of a checked index\<close>

lemma binary_search_Some:
  "binary_search key k xs lo hi = Some i \<Longrightarrow> lo \<le> i \<and> i < hi \<and> key (xs ! i) = k"
proof (induction key k xs lo hi rule: binary_search.induct)
  case (1 key k xs lo hi)
  from "1.prems" have lt: "lo < hi" by (subst (asm) binary_search.simps) (auto split: if_splits)
  let ?mid = "lo + (hi - lo) div 2"
  have mid: "lo \<le> ?mid" "?mid < hi" using lt by auto
  consider "key (xs ! ?mid) < k" | "k < key (xs ! ?mid)" | "key (xs ! ?mid) = k" by force
  then show ?case
  proof cases
    case 1
    with "1.prems" lt have "binary_search key k xs (?mid + 1) hi = Some i"
      by (subst (asm) binary_search.simps) (simp add: Let_def)
    with "1.IH"(1) 1 lt mid show ?thesis by force
  next
    case 2
    then have "\<not> key (xs ! ?mid) < k" by simp
    with 2 "1.prems" lt have "binary_search key k xs lo ?mid = Some i"
      by (subst (asm) binary_search.simps) (simp add: Let_def)
    with "1.IH"(2) 2 lt mid show ?thesis by force
  next
    case 3
    with "1.prems" lt have "i = ?mid" by (subst (asm) binary_search.simps) (simp add: Let_def)
    with 3 mid show ?thesis by simp
  qed
qed

lemma binary_search_finds:
  assumes "sorted_wrt (<) (map key xs)" "i < length xs" "lo \<le> i" "i < hi" "hi \<le> length xs"
  shows "binary_search key (key (xs ! i)) xs lo hi = Some i"
  using assms(3-5)
proof (induction "hi - lo" arbitrary: lo hi rule: less_induct)
  case less
  let ?mid = "lo + (hi - lo) div 2"
  have mid: "lo \<le> ?mid" "?mid < hi" "?mid < length xs" using less.prems by auto
  have order: "a < b \<Longrightarrow> b < length xs \<Longrightarrow> key (xs ! a) < key (xs ! b)" for a b
    using assms(1) by (simp add: sorted_wrt_iff_nth_less)
  consider "?mid < i" | "i < ?mid" | "?mid = i" by linarith
  then show ?case
  proof cases
    case 1
    with order [of ?mid i] assms(2) have lt: "key (xs ! ?mid) < key (xs ! i)" by simp
    from 1 less.prems have "binary_search key (key (xs ! i)) xs (?mid + 1) hi = Some i"
      by (intro less.hyps) auto
    with lt less.prems show ?thesis by (subst binary_search.simps) (simp add: Let_def)
  next
    case 2
    with order [of i ?mid] mid have lt: "key (xs ! i) < key (xs ! ?mid)" by simp
    from 2 less.prems mid have "binary_search key (key (xs ! i)) xs lo ?mid = Some i"
      by (intro less.hyps) auto
    with lt less.prems show ?thesis by (subst binary_search.simps) (auto simp: Let_def)
  next
    case 3
    with less.prems show ?thesis by (subst binary_search.simps) (simp add: Let_def)
  qed
qed

lemma windows_ascending_sorted: "windows_ascending es \<Longrightarrow> sorted_wrt (<) (map de_unique_id es)"
proof (induction es rule: windows_ascending.induct)
  case (1 a b es)
  then show ?case by (auto intro: less_trans)
qed simp_all

lemma index_find_iff:
  assumes "index_check ix"
  shows "index_find ix unique_id = Some i \<longleftrightarrow> i < length (ix_entries ix) \<and> de_unique_id (ix_entries ix ! i) = unique_id"
proof -
  have "sorted_wrt (<) (map de_unique_id (ix_entries ix))"
    using assms by (auto simp: index_check_def Let_def intro: windows_ascending_sorted)
  from binary_search_finds [OF this] show ?thesis
    unfolding index_find_def by (auto dest: binary_search_Some)
qed

lemma slice_sorted:
  "sorted (map f xs) \<Longrightarrow>
     slice xs (partition_point (\<lambda>x. f x < i) xs, partition_point (\<lambda>x. f x \<le> i) xs) = filter (\<lambda>x. f x = i) xs"
  for f :: "'a \<Rightarrow> nat"
proof (induction xs)
  case (Cons x xs)
  consider "f x < i" | "f x = i" | "i < f x" by linarith
  then show ?case
  proof cases
    case 2
    with Cons.prems have "partition_point (\<lambda>x. f x < i) xs = 0"
      by (cases xs) (auto simp: partition_point_def)
    with Cons 2 show ?thesis by (simp add: partition_point_def slice_def)
  next
    case 3
    with Cons.prems have "filter (\<lambda>x. f x = i) xs = []" by (auto simp: filter_empty_conv)
    with 3 show ?thesis by (simp add: partition_point_def slice_def)
  qed (use Cons in \<open>simp add: partition_point_def slice_def\<close>)
qed (simp add: partition_point_def slice_def)

lemma index_tests_filter:
  "index_check ix \<Longrightarrow> index_tests ix i = filter (\<lambda>t. dt_entry t = i) (ix_tests ix)"
  unfolding index_tests_def by (rule slice_sorted) (simp add: index_check_def Let_def)

lemma checked_entry:
  assumes "index_check ix" "e \<in> set (ix_entries ix)"
  shows "\<exists>s. index_symbol ix (de_schema e) = Some s" "\<forall>tag \<in> set (de_tags e). index_symbol ix tag \<noteq> None"
    "\<forall>p \<in> set (de_parents e). index_entry ix p \<noteq> None"
proof -
  from assms have "entry_in_range (length (ix_symbols ix)) (length (ix_entries ix)) e"
    by (auto simp: index_check_def Let_def list_all_iff)
  then show "\<exists>s. index_symbol ix (de_schema e) = Some s" "\<forall>tag \<in> set (de_tags e). index_symbol ix tag \<noteq> None"
    "\<forall>p \<in> set (de_parents e). index_entry ix p \<noteq> None"
    by (auto simp: entry_in_range_def index_symbol_def index_entry_def at_def list_all_iff)
qed

section \<open>Symbols\<close>

definition symbols_ok :: "symbol_table \<Rightarrow> bool" where
  "symbols_ok t \<longleftrightarrow> (\<forall>s i. sy_positions t s = Some i \<longleftrightarrow> i < length (sy_list t) \<and> sy_list t ! i = s)"

lemma intern_ok:
  assumes "symbols_ok t" "intern text t = (i, t1)"
  shows "symbols_ok t1 \<and> i < length (sy_list t1) \<and> sy_list t1 ! i = text
    \<and> take (length (sy_list t)) (sy_list t1) = sy_list t"
proof (cases "sy_positions t text")
  case None
  with assms have t1: "i = length (sy_list t)" "sy_list t1 = sy_list t @ [text]"
    "sy_positions t1 = (sy_positions t)(text \<mapsto> length (sy_list t))"
    by (auto simp: intern_def)
  have "\<not> (j < length (sy_list t) \<and> sy_list t ! j = text)" for j
    using assms(1) None unfolding symbols_ok_def by (metis option.distinct(1))
  with assms(1) have "symbols_ok t1"
    unfolding symbols_ok_def t1(2,3) by (auto simp: nth_append less_Suc_eq)
  with t1 show ?thesis by simp
qed (use assms in \<open>auto simp: intern_def symbols_ok_def\<close>)

section \<open>The search is a ranked filter\<close>


lemma take_long: "n \<le> length xs \<Longrightarrow> take n (xs @ ys) = take n (xs @ zs)"
  by simp

lemma search_loop_filter:
  "search_loop p q n es names texts
    = take n (names @ map fst (filter (\<lambda>(_, e). p e) es)
        @ texts @ map fst (filter (\<lambda>(_, e). \<not> p e \<and> q e) es))"
proof (induction p q n es names texts rule: search_loop.induct)
  case (2 p q n i e es names texts)
  consider "p e" | "\<not> p e" "length names + length texts < n" "q e"
    | "\<not> p e" "\<not> (length names + length texts < n \<and> q e)" by blast
  then show ?case
  proof cases
    case 1
    then show ?thesis using 2 [of "(names @ [i], texts)"] by (cases "n \<le> length (names @ [i])") (auto simp: take_Cons')
  next
    case 2
    with "2.IH" [of "(names, texts @ [i])"] show ?thesis by (cases "n \<le> length names") simp_all
  next
    case 3
    with "2.IH" [of "(names, texts)"] show ?thesis
      by (cases "n \<le> length names"; cases "q e") (auto simp: take_Cons' not_less)
  qed
qed simp

text \<open>
  The search returns the entries whose names match, then the ones whose description does, each in
  the order of the index, up to the limit: stopping early leaves none out.
\<close>

lemma index_search_ranked:
  "index_search lower ix query kind n =
    take n (map fst (filter (\<lambda>(_, e). names_match lower ix (lower (trim query)) e) (search_candidates ix kind))
      @ map fst (filter (\<lambda>(_, e). \<not> names_match lower ix (lower (trim query)) e
          \<and> contains_folded lower (de_description e) (lower (trim query))) (search_candidates ix kind)))"
  by (simp add: index_search_def Let_def search_loop_filter)

end
