(* ===== verification/Btree.thy ===== *)
theory Btree
  imports Main "HOL-Library.List_Lexorder" "HOL-Library.Char_ord"
begin

text \<open>
  The ordered maps of the code: \<open>BTreeMap<String, _>\<close> as the list of its entries in the order of
  the keys, which is the order of their bytes. A map is read with \<open>map_of\<close>.
\<close>

type_synonym 'v btree = "(string \<times> 'v) list"

fun bt_insert :: "string \<Rightarrow> 'v \<Rightarrow> 'v btree \<Rightarrow> 'v btree" where
  "bt_insert k v [] = [(k, v)]"
| "bt_insert k v ((a, w) # m) =
     (if k < a then (k, v) # (a, w) # m
      else if k = a then (k, v) # m
      else (a, w) # bt_insert k v m)"

definition bt_remove :: "string \<Rightarrow> 'v btree \<Rightarrow> 'v btree" where
  "bt_remove k m = filter (\<lambda>(a, _). a \<noteq> k) m"

text \<open>\<open>FromIterator\<close>: of two entries with one key the later stays.\<close>

definition bt_collect :: "(string \<times> 'v) list \<Rightarrow> 'v btree" where
  "bt_collect xs = fold (\<lambda>(k, v). bt_insert k v) xs []"

definition bt_retain :: "(string \<Rightarrow> bool) \<Rightarrow> 'v btree \<Rightarrow> 'v btree" where
  "bt_retain p m = filter (\<lambda>(a, _). p a) m"

text \<open>\<open>get_mut\<close> with an update.\<close>

definition bt_update :: "string \<Rightarrow> ('v \<Rightarrow> 'v) \<Rightarrow> 'v btree \<Rightarrow> 'v btree" where
  "bt_update k f m = map (\<lambda>(a, w). (a, if a = k then f w else w)) m"

abbreviation bt_keys :: "'v btree \<Rightarrow> string list" where
  "bt_keys m \<equiv> map fst m"

definition bt_ok :: "'v btree \<Rightarrow> bool" where
  "bt_ok m \<longleftrightarrow> sorted_wrt (<) (bt_keys m)"

lemma bt_map_of_insert [simp]: "map_of (bt_insert k v m) = (map_of m)(k \<mapsto> v)"
  by (induction k v m rule: bt_insert.induct) (auto simp: fun_upd_twist)

lemma bt_map_of_remove [simp]: "map_of (bt_remove k m) = (map_of m)(k := None)"
  by (induction m) (auto simp: bt_remove_def fun_upd_twist)

lemma bt_map_of_retain [simp]: "map_of (bt_retain p m) k = (if p k then map_of m k else None)"
  by (induction m) (auto simp: bt_retain_def)

lemma bt_map_of_update [simp]: "map_of (bt_update k f m) a = (if a = k then map_option f (map_of m a) else map_of m a)"
  by (induction m) (auto simp: bt_update_def)

lemma bt_map_of_fold_insert:
  "map_of (fold (\<lambda>(k, v). bt_insert k v) xs m) k
    = (case map_of (rev xs) k of None \<Rightarrow> map_of m k | Some v \<Rightarrow> Some v)"
  by (induction xs arbitrary: m) (auto simp: map_add_def split: option.split)

lemma bt_map_of_collect [simp]: "map_of (bt_collect xs) = map_of (rev xs)"
  by (rule ext) (auto simp: bt_collect_def bt_map_of_fold_insert split: option.split)

lemma bt_map_of_collect_distinct:
  assumes "distinct (map fst xs)"
  shows "map_of (bt_collect xs) = map_of xs"
  using map_of_eqI [of "rev xs" xs] assms map_of_is_SomeI
  by (metis distinct_rev bt_map_of_collect map_of_inject_set rev_map set_rev)

lemma bt_keys_insert: "set (bt_keys (bt_insert k v m)) = insert k (set (bt_keys m))"
  by (induction k v m rule: bt_insert.induct) auto

lemma bt_ok_insert: "bt_ok m \<Longrightarrow> bt_ok (bt_insert k v m)"
proof (induction k v m rule: bt_insert.induct)
  case (2 k v a w m)
  then have "bt_ok m" "\<forall>x \<in> set (bt_keys m). a < x" by (simp_all add: bt_ok_def)
  with 2 bt_keys_insert [of k v m] show ?case by (auto simp: bt_ok_def)
qed (simp add: bt_ok_def)

lemma bt_ok_collect [simp]: "bt_ok (bt_collect xs)"
proof -
  have "bt_ok m \<Longrightarrow> bt_ok (fold (\<lambda>(k, v). bt_insert k v) xs m)" for m
    by (induction xs arbitrary: m) (auto intro: bt_ok_insert)
  then show ?thesis by (simp add: bt_collect_def bt_ok_def)
qed

lemma bt_ok_filter: "bt_ok m \<Longrightarrow> bt_ok (filter p m)"
  by (induction m) (auto simp: bt_ok_def)

lemma bt_ok_retain [simp]: "bt_ok m \<Longrightarrow> bt_ok (bt_retain p m)"
  unfolding bt_retain_def by (rule bt_ok_filter)

lemma bt_ok_remove [simp]: "bt_ok m \<Longrightarrow> bt_ok (bt_remove k m)"
  unfolding bt_remove_def by (rule bt_ok_filter)

lemma bt_keys_update [simp]: "bt_keys (bt_update k f m) = bt_keys m"
  by (simp add: bt_update_def case_prod_unfold)

lemma bt_ok_update [simp]: "bt_ok (bt_update k f m) = bt_ok m"
  by (simp add: bt_ok_def)

lemma bt_ok_Nil [simp]: "bt_ok []"
  by (simp add: bt_ok_def)

lemma bt_in_keys_iff: "k \<in> set (bt_keys m) \<longleftrightarrow> (\<exists>v. map_of m k = Some v)"
  by (metis map_of_eq_None_iff list.set_map option.exhaust option.distinct(1))

end
