(* ===== verification/Catalog_Cache.thy ===== *)
theory Catalog_Cache
  imports Btree Column_Values "HOL-Library.Product_Lexorder"
begin

text \<open>
  The cached catalog of a connection (\<open>src/catalog.rs\<close>): the parsing of the metadata rows that a
  server returns, and the operations with which a refresh replaces parts of the tree. The nodes are
  behind \<open>Arc\<close> and copied on write, so a value stands for a node. Identifiers of connections and of
  errors are numbers; a fresh error identifier is an argument.
\<close>

section \<open>State\<close>

datatype relation_kind = Table_Kind | View_Kind

record catalog_column =
  cc_name :: string
  cc_type :: string
  cc_comment :: "string option"

record relation =
  re_kind :: relation_kind
  re_comment :: "string option"
  re_fetched_at :: "nat option"
  re_error :: "string option"
  re_error_member :: "nat option"
  re_error_id :: "nat option"
  re_columns :: "catalog_column list option"

record schema =
  se_fetched_at :: "nat option"
  se_error :: "string option"
  se_error_member :: "nat option"
  se_error_id :: "nat option"
  se_relations :: "relation btree option"

record unfinished =
  uf_started :: nat
  uf_done :: "string list"

record 'i catalog =
  ca_version :: nat
  ca_owner :: nat
  ca_identity :: "'i option"
  ca_fetched_at :: "nat option"
  ca_error :: "string option"
  ca_unfinished :: "unfinished option"
  ca_error_member :: "nat option"
  ca_schemas :: "schema btree"

record relation_entry =
  ent_name :: string
  ent_kind :: relation_kind
  ent_comment :: "string option"

definition schema_default :: schema where
  "schema_default =
     \<lparr>se_fetched_at = None, se_error = None, se_error_member = None, se_error_id = None, se_relations = None\<rparr>"

definition CATALOG_VERSION :: nat where "CATALOG_VERSION = 1"

definition catalog_empty :: "nat \<Rightarrow> 'i option \<Rightarrow> 'i catalog" where
  "catalog_empty owner ident =
     \<lparr>ca_version = CATALOG_VERSION, ca_owner = owner, ca_identity = ident, ca_fetched_at = None,
      ca_error = None, ca_unfinished = None, ca_error_member = None, ca_schemas = []\<rparr>"

definition describes :: "'i catalog \<Rightarrow> nat \<Rightarrow> 'i option \<Rightarrow> bool" where
  "describes c owner ident \<longleftrightarrow> ca_owner c = owner \<and> ca_identity c = ident"

datatype scope = Connection_Scope | Schema_Scope string | Relation_Scope string string

fun covers :: "scope \<Rightarrow> scope \<Rightarrow> bool" where
  "covers Connection_Scope other \<longleftrightarrow> True"
| "covers (Schema_Scope s) (Relation_Scope parent r) \<longleftrightarrow> s = parent"
| "covers self other \<longleftrightarrow> self = other"

section \<open>Lookups\<close>

definition catalog_schema :: "'i catalog \<Rightarrow> string \<Rightarrow> schema option" where
  "catalog_schema c nm = map_of (ca_schemas c) nm"

definition catalog_relation :: "'i catalog \<Rightarrow> string \<Rightarrow> string \<Rightarrow> relation option" where
  "catalog_relation c s r =
     Option.bind (catalog_schema c s) (\<lambda>node. Option.bind (se_relations node) (\<lambda>rs. map_of rs r))"

definition relation_count :: "'i catalog \<Rightarrow> nat" where
  "relation_count c = sum_list (map length (List.map_filter (\<lambda>(_, node). se_relations node) (ca_schemas c)))"

definition error_for :: "string option \<Rightarrow> nat option \<Rightarrow> nat \<Rightarrow> string option" where
  "error_for error owner member =
     (case error of
        None \<Rightarrow> None
      | Some e \<Rightarrow> if owner = None \<or> owner = Some member then Some e else None)"

section \<open>Refreshes\<close>

definition retain_done :: "schema btree \<Rightarrow> unfinished option \<Rightarrow> unfinished option" where
  "retain_done schemas uf =
     map_option (\<lambda>u. u\<lparr>uf_done := filter (\<lambda>n. n \<in> set (bt_keys schemas)) (uf_done u)\<rparr>) uf"

definition catalog_retain :: "(string \<Rightarrow> bool) \<Rightarrow> 'i catalog \<Rightarrow> 'i catalog" where
  "catalog_retain shown c =
     (let schemas = bt_retain shown (ca_schemas c) in
      c\<lparr>ca_schemas := schemas, ca_unfinished := retain_done schemas (ca_unfinished c)\<rparr>)"

text \<open>The schemas that remain are taken out of the previous map, each once.\<close>

fun take_schemas :: "string list \<Rightarrow> schema btree \<Rightarrow> (string \<times> schema) list" where
  "take_schemas [] previous = []"
| "take_schemas (n # ns) previous =
     (n, case map_of previous n of None \<Rightarrow> schema_default | Some s \<Rightarrow> s)
     # take_schemas ns (bt_remove n previous)"

definition apply_schemas :: "(string \<Rightarrow> bool) \<Rightarrow> string list \<Rightarrow> nat \<Rightarrow> 'i catalog \<Rightarrow> 'i catalog" where
  "apply_schemas shown names at c =
     (let schemas = bt_collect (take_schemas (filter shown names) (ca_schemas c)) in
      c\<lparr>ca_schemas := schemas, ca_unfinished := retain_done schemas (ca_unfinished c),
        ca_fetched_at := Some at, ca_error := None, ca_error_member := None\<rparr>)"

text \<open>A relation of a new list keeps the columns that it had, and loses its error.\<close>

definition relisted :: "relation_entry \<Rightarrow> relation option \<Rightarrow> relation" where
  "relisted entry kept =
     \<lparr>re_kind = ent_kind entry, re_comment = ent_comment entry,
      re_fetched_at = Option.bind kept re_fetched_at,
      re_error = None, re_error_member = None, re_error_id = None,
      re_columns = Option.bind kept re_columns\<rparr>"

fun take_relations :: "relation_entry list \<Rightarrow> relation btree \<Rightarrow> (string \<times> relation) list" where
  "take_relations [] previous = []"
| "take_relations (entry # entries) previous =
     (ent_name entry, relisted entry (map_of previous (ent_name entry)))
     # take_relations entries (bt_remove (ent_name entry) previous)"

definition apply_relation_list :: "relation_entry list \<Rightarrow> nat \<Rightarrow> schema \<Rightarrow> schema" where
  "apply_relation_list entries at node =
     node\<lparr>se_relations := Some (bt_collect (take_relations entries
            (case se_relations node of None \<Rightarrow> [] | Some previous \<Rightarrow> previous))),
          se_fetched_at := Some at, se_error := None, se_error_member := None, se_error_id := None\<rparr>"

text \<open>One relation: without a list it changes nothing.\<close>

definition apply_one_relation :: "string \<Rightarrow> relation_entry list \<Rightarrow> schema \<Rightarrow> schema" where
  "apply_one_relation nm entries node =
     (case se_relations node of
        None \<Rightarrow> node
      | Some relations \<Rightarrow>
          (case List.find (\<lambda>e. ent_name e = nm) entries of
             None \<Rightarrow> node\<lparr>se_relations := Some (bt_remove nm relations)\<rparr>
           | Some entry \<Rightarrow>
               (let old = (case map_of relations (ent_name entry) of
                             None \<Rightarrow>
                               \<lparr>re_kind = ent_kind entry, re_comment = None, re_fetched_at = None, re_error = None,
                                re_error_member = None, re_error_id = None, re_columns = None\<rparr>
                           | Some r \<Rightarrow> r) in
                node\<lparr>se_relations := Some (bt_insert (ent_name entry)
                  (old\<lparr>re_kind := ent_kind entry, re_comment := ent_comment entry, re_error := None,
                       re_error_member := None, re_error_id := None\<rparr>) relations)\<rparr>)))"

definition apply_relations ::
  "string \<Rightarrow> string option \<Rightarrow> relation_entry list \<Rightarrow> nat \<Rightarrow> 'i catalog \<Rightarrow> 'i catalog" where
  "apply_relations s relation entries at c =
     c\<lparr>ca_schemas := bt_update s
         (case relation of
            None \<Rightarrow> apply_relation_list entries at
          | Some nm \<Rightarrow> apply_one_relation nm entries) (ca_schemas c)\<rparr>"

definition set_columns :: "catalog_column list \<Rightarrow> nat \<Rightarrow> relation \<Rightarrow> relation" where
  "set_columns columns at r =
     r\<lparr>re_columns := Some columns, re_fetched_at := Some at, re_error := None, re_error_member := None,
       re_error_id := None\<rparr>"

fun columns_loop :: "string option \<Rightarrow> catalog_column list btree \<Rightarrow> nat \<Rightarrow> relation btree \<Rightarrow> relation btree" where
  "columns_loop relation columns at [] = []"
| "columns_loop relation columns at ((nm, node) # rs) =
     (if relation \<noteq> None \<and> relation \<noteq> Some nm
      then (nm, node) # columns_loop relation columns at rs
      else
        (nm, set_columns (case map_of columns nm of None \<Rightarrow> [] | Some cols \<Rightarrow> cols) at node)
        # columns_loop relation (bt_remove nm columns) at rs)"

definition apply_columns ::
  "string \<Rightarrow> string option \<Rightarrow> catalog_column list btree \<Rightarrow> nat \<Rightarrow> 'i catalog \<Rightarrow> 'i catalog" where
  "apply_columns s relation columns at c =
     c\<lparr>ca_schemas := bt_update s
         (\<lambda>node. node\<lparr>se_relations := map_option (columns_loop relation columns at) (se_relations node)\<rparr>)
         (ca_schemas c)\<rparr>"

fun set_error :: "scope \<Rightarrow> string \<Rightarrow> nat \<Rightarrow> nat \<Rightarrow> 'i catalog \<Rightarrow> 'i catalog" where
  "set_error Connection_Scope nm member fresh c = c\<lparr>ca_error := Some nm, ca_error_member := Some member\<rparr>"
| "set_error (Schema_Scope s) nm member fresh c =
     c\<lparr>ca_schemas := bt_update s
         (\<lambda>node. node\<lparr>se_error := Some nm, se_error_member := Some member, se_error_id := Some fresh\<rparr>)
         (ca_schemas c)\<rparr>"
| "set_error (Relation_Scope s r) nm member fresh c =
     c\<lparr>ca_schemas := bt_update s
         (\<lambda>node. node\<lparr>se_relations := map_option (bt_update r
            (\<lambda>re. re\<lparr>re_error := Some nm, re_error_member := Some member, re_error_id := Some fresh\<rparr>))
            (se_relations node)\<rparr>)
         (ca_schemas c)\<rparr>"

section \<open>Metadata rows\<close>

record metadata_rows =
  mr_columns :: "column list"
  mr_rows :: "row list"

definition optional_index :: "metadata_rows \<Rightarrow> string \<Rightarrow> nat option" where
  "optional_index rows nm = position (\<lambda>c. eq_ignore_ascii_case (cl_name c) nm) (mr_columns rows)"

definition required_index :: "metadata_rows \<Rightarrow> string \<Rightarrow> (string, nat) result" where
  "required_index rows nm =
     ok_or (''The catalog result has no '' @ nm @ '' column'') (optional_index rows nm)"

text \<open>A cell that is there and not empty.\<close>

definition row_text :: "row \<Rightarrow> nat \<Rightarrow> string option" where
  "row_text r i =
     (if i < length r then (case r ! i of Some s \<Rightarrow> if s = [] then None else Some s | None \<Rightarrow> None) else None)"

text \<open>\<open>dedup_by\<close>: of a run of entries with equal keys the first stays.\<close>

fun dedup_by :: "('a \<Rightarrow> 'k) \<Rightarrow> 'a list \<Rightarrow> 'a list" where
  "dedup_by key [] = []"
| "dedup_by key [x] = [x]"
| "dedup_by key (x # y # xs) =
     (if key x = key y then dedup_by key (x # xs) else x # dedup_by key (y # xs))"

definition parse_schemas :: "metadata_rows \<Rightarrow> (string, string list) result" where
  "parse_schemas rows =
     and_then (required_index rows ''TABLE_SCHEM'') (\<lambda>i.
       Inr (dedup_by (\<lambda>n. n) (sort (List.map_filter (\<lambda>r. row_text r i) (mr_rows rows)))))"

definition in_schema :: "nat \<Rightarrow> string \<Rightarrow> row \<Rightarrow> bool" where
  "in_schema i s r = (case row_text r i of None \<Rightarrow> False | Some v \<Rightarrow> eq_ignore_ascii_case v s)"

definition entry_of_row ::
  "nat \<Rightarrow> nat \<Rightarrow> nat option \<Rightarrow> string option \<Rightarrow> row \<Rightarrow> relation_entry option" where
  "entry_of_row name_index kind_index comment_index relation r =
     Option.bind (row_text r name_index) (\<lambda>name.
       if relation \<noteq> None \<and> \<not> eq_ignore_ascii_case name (the relation) then None
       else
         Some \<lparr>ent_name = (case relation of None \<Rightarrow> name | Some nm \<Rightarrow> nm),
               ent_kind =
                 (if (case row_text r kind_index of
                        None \<Rightarrow> False
                      | Some kind \<Rightarrow> contains_str (to_ascii_uppercase kind) ''VIEW'')
                  then View_Kind else Table_Kind),
               ent_comment = Option.bind comment_index (row_text r)\<rparr>)"

definition parse_relations ::
  "metadata_rows \<Rightarrow> string \<Rightarrow> string option \<Rightarrow> (string, relation_entry list) result" where
  "parse_relations rows s relation =
     and_then (required_index rows ''TABLE_SCHEM'') (\<lambda>schema_index.
     and_then (required_index rows ''TABLE_NAME'') (\<lambda>name_index.
     and_then (required_index rows ''TABLE_TYPE'') (\<lambda>kind_index.
     let comment_index = optional_index rows ''REMARKS'';
         entries = List.map_filter (entry_of_row name_index kind_index comment_index relation)
           (filter (in_schema schema_index s) (mr_rows rows)) in
     Inr (dedup_by ent_name (sort_key ent_name entries)))))"

text \<open>The columns of a relation with their position, which is last where it is not a number.\<close>

definition column_of_row :: "nat \<Rightarrow> nat \<Rightarrow> nat option \<Rightarrow> row \<Rightarrow> string \<Rightarrow> catalog_column" where
  "column_of_row name_index type_index comment_index r nm =
     \<lparr>cc_name = nm, cc_type = (case row_text r type_index of None \<Rightarrow> [] | Some t \<Rightarrow> t),
      cc_comment = Option.bind comment_index (row_text r)\<rparr>"

definition row_position :: "nat option \<Rightarrow> row \<Rightarrow> int" where
  "row_position position_index r =
     (case Option.bind (Option.bind position_index (row_text r)) parse_i64 of
        None \<Rightarrow> 9223372036854775807
      | Some p \<Rightarrow> p)"

definition bt_push :: "string \<Rightarrow> 'v \<Rightarrow> 'v list btree \<Rightarrow> 'v list btree" where
  "bt_push k v m = bt_insert k ((case map_of m k of None \<Rightarrow> [] | Some vs \<Rightarrow> vs) @ [v]) m"

fun group_columns ::
  "(nat \<times> nat \<times> nat \<times> nat \<times> nat option \<times> nat option) \<Rightarrow> string \<Rightarrow> string option \<Rightarrow> nat \<Rightarrow> row list
     \<Rightarrow> (int \<times> nat \<times> catalog_column) list btree \<Rightarrow> (int \<times> nat \<times> catalog_column) list btree" where
  "group_columns ix s relation i [] grouped = grouped"
| "group_columns (schema_index, relation_index, name_index, type_index, comment_index, position_index)
     s relation i (r # rs) grouped =
     group_columns (schema_index, relation_index, name_index, type_index, comment_index, position_index)
       s relation (i + 1) rs
       (if \<not> in_schema schema_index s r then grouped
        else
          (case (row_text r relation_index, row_text r name_index) of
             (Some owner, Some nm) \<Rightarrow>
               if relation \<noteq> None \<and> \<not> eq_ignore_ascii_case owner (the relation) then grouped
               else
                 bt_push (case relation of None \<Rightarrow> owner | Some wanted \<Rightarrow> wanted)
                   (row_position position_index r, i, column_of_row name_index type_index comment_index r nm) grouped
           | _ \<Rightarrow> grouped))"

definition parse_columns ::
  "metadata_rows \<Rightarrow> string \<Rightarrow> string option \<Rightarrow> (string, catalog_column list btree) result" where
  "parse_columns rows s relation =
     and_then (required_index rows ''TABLE_SCHEM'') (\<lambda>schema_index.
     and_then (required_index rows ''TABLE_NAME'') (\<lambda>relation_index.
     and_then (required_index rows ''COLUMN_NAME'') (\<lambda>name_index.
     and_then (required_index rows ''TYPE_NAME'') (\<lambda>type_index.
     let grouped = group_columns (schema_index, relation_index, name_index, type_index,
           optional_index rows ''REMARKS'', optional_index rows ''ORDINAL_POSITION'')
           s relation 0 (mr_rows rows) [] in
     Inr (map (\<lambda>(owner, columns).
            (owner, map (\<lambda>(_, _, c). c) (sort_key (\<lambda>(p, i, _). (p, i)) columns))) grouped)))))"

section \<open>Lists without duplicates\<close>

lemma dedup_by_Cons_keys: "key ` set (dedup_by key (x # xs)) = insert (key x) (key ` set (dedup_by key xs))"
  by (induction xs arbitrary: x) auto

lemma dedup_by_keys [simp]: "key ` set (dedup_by key xs) = key ` set xs"
  by (induction xs) (simp_all add: dedup_by_Cons_keys)

lemma hd_dedup_by: "xs \<noteq> [] \<Longrightarrow> dedup_by key xs \<noteq> [] \<and> key (hd (dedup_by key xs)) = key (hd xs)"
  by (induction key xs rule: dedup_by.induct) auto

lemma dedup_by_subset: "set (dedup_by key xs) \<subseteq> set xs"
  by (induction key xs rule: dedup_by.induct) auto

lemma dedup_by_sorted:
  "sorted (map key xs) \<Longrightarrow> sorted_wrt (<) (map key (dedup_by key xs))" for key :: "'a \<Rightarrow> 'b :: linorder"
proof (induction key xs rule: dedup_by.induct)
  case (3 key x y xs)
  show ?case
  proof (cases "key x = key y")
    case False
    with 3 have sub: "sorted_wrt (<) (map key (dedup_by key (y # xs)))" by simp
    have "key x < key z" if "z \<in> set (dedup_by key (y # xs))" for z
    proof -
      from that dedup_by_subset [of key "y # xs"] have "z \<in> set (y # xs)" by blast
      with 3(3) have "key y \<le> key z" by auto
      with 3(3) False show ?thesis by (auto simp: less_le)
    qed
    with sub False show ?thesis by (simp del: dedup_by_keys)
  qed (use 3 in auto)
qed simp_all

lemma dedup_by_distinct:
  "sorted (map key xs) \<Longrightarrow> distinct (map key (dedup_by key xs))" for key :: "'a \<Rightarrow> 'b :: linorder"
  using dedup_by_sorted [of key xs] strict_sorted_iff [of "map key (dedup_by key xs)"] by blast

section \<open>Replacing lists\<close>

lemma take_schemas_map:
  "distinct names \<Longrightarrow> take_schemas names previous
     = map (\<lambda>n. (n, case map_of previous n of None \<Rightarrow> schema_default | Some s \<Rightarrow> s)) names"
  by (induction names arbitrary: previous) (auto intro!: map_cong)

lemma take_relations_map:
  "distinct (map ent_name entries) \<Longrightarrow> take_relations entries previous
     = map (\<lambda>e. (ent_name e, relisted e (map_of previous (ent_name e)))) entries"
proof (induction entries arbitrary: previous)
  case (Cons a entries)
  from Cons.prems have ne: "ent_name e \<noteq> ent_name a" if "e \<in> set entries" for e
    using that by (metis distinct.simps(2) image_eqI list.set_map list.simps(9))
  from Cons show ?case by (auto intro!: map_cong dest: ne)
qed simp

lemma map_of_entries:
  "map_of (map (\<lambda>e. (ent_name e, f e)) entries) k = map_option f (List.find (\<lambda>e. ent_name e = k) entries)"
  by (induction entries) auto

lemma columns_loop_map:
  "distinct (bt_keys rs) \<Longrightarrow> columns_loop relation columns at rs
     = map (\<lambda>(k, node). (k, if relation \<noteq> None \<and> relation \<noteq> Some k then node
          else set_columns (case map_of columns k of None \<Rightarrow> [] | Some cols \<Rightarrow> cols) at node)) rs"
  by (induction relation columns at rs rule: columns_loop.induct) (force intro!: map_cong simp: image_iff)+

lemma keys_columns_loop [simp]: "bt_keys (columns_loop relation columns at rs) = bt_keys rs"
  by (induction relation columns at rs rule: columns_loop.induct) auto

section \<open>The invariant\<close>

definition node_ok :: "schema \<Rightarrow> bool" where
  "node_ok node \<longleftrightarrow> (case se_relations node of None \<Rightarrow> True | Some rs \<Rightarrow> bt_ok rs)"

definition done_ok :: "schema btree \<Rightarrow> unfinished option \<Rightarrow> bool" where
  "done_ok schemas uf \<longleftrightarrow>
     (case uf of None \<Rightarrow> True | Some u \<Rightarrow> set (uf_done u) \<subseteq> set (bt_keys schemas))"

lemma done_ok_retain [simp]: "done_ok schemas (retain_done schemas uf)"
  by (auto simp: done_ok_def retain_done_def split: option.split)

lemma done_ok_update [simp]: "done_ok (bt_update s f schemas) uf = done_ok schemas uf"
  unfolding done_ok_def by (simp only: bt_keys_update)

definition catalog_ok :: "'i catalog \<Rightarrow> bool" where
  "catalog_ok c \<longleftrightarrow>
     bt_ok (ca_schemas c) \<and> (\<forall>(n, node) \<in> set (ca_schemas c). node_ok node)
     \<and> done_ok (ca_schemas c) (ca_unfinished c)"

datatype catalog_op =
    Retain "string \<Rightarrow> bool"
  | Apply_Schemas "string \<Rightarrow> bool" "string list" nat
  | Apply_Relations string "string option" "relation_entry list" nat
  | Apply_Columns string "string option" "catalog_column list btree" nat
  | Set_Error scope string nat nat

fun catalog_step :: "catalog_op \<Rightarrow> 'i catalog \<Rightarrow> 'i catalog" where
  "catalog_step (Retain shown) c = catalog_retain shown c"
| "catalog_step (Apply_Schemas shown names at) c = apply_schemas shown names at c"
| "catalog_step (Apply_Relations s relation entries at) c = apply_relations s relation entries at c"
| "catalog_step (Apply_Columns s relation columns at) c = apply_columns s relation columns at c"
| "catalog_step (Set_Error scope nm member fresh) c = set_error scope nm member fresh c"

lemma bt_ok_keys: "bt_keys m = bt_keys n \<Longrightarrow> bt_ok m = bt_ok n"
  by (simp add: bt_ok_def)

lemma bt_distinct: "bt_ok m \<Longrightarrow> distinct (bt_keys m)"
  by (simp add: bt_ok_def strict_sorted_iff)

lemma catalog_ok_update:
  assumes "catalog_ok c" "\<And>node. node_ok node \<Longrightarrow> node_ok (f node)"
  shows "catalog_ok (c\<lparr>ca_schemas := bt_update s f (ca_schemas c)\<rparr>)"
proof -
  have "\<forall>(n, node) \<in> set (bt_update s f (ca_schemas c)). node_ok node"
    using assms by (auto simp: bt_update_def catalog_ok_def)
  with assms(1) show ?thesis by (simp add: catalog_ok_def)
qed

lemma node_ok_apply_relation_list: "node_ok (apply_relation_list entries at node)"
  by (simp add: node_ok_def apply_relation_list_def)

lemma node_ok_apply_one: "node_ok node \<Longrightarrow> node_ok (apply_one_relation nm entries node)"
  by (auto simp: node_ok_def apply_one_relation_def Let_def bt_ok_insert split: option.splits)

lemma node_ok_columns:
  "node_ok node \<Longrightarrow> node_ok (node\<lparr>se_relations := map_option (columns_loop relation columns at) (se_relations node)\<rparr>)"
  by (auto simp: node_ok_def bt_ok_def split: option.splits)

lemma bt_collect_values: "(k, v) \<in> set (bt_collect xs) \<Longrightarrow> (k, v) \<in> set xs"
  using map_of_SomeD [of "rev xs" k v] bt_map_of_collect [of xs] bt_distinct [OF bt_ok_collect, of xs]
  by (simp add: map_of_eq_Some_iff [symmetric])

lemma take_schemas_values:
  "(n, node) \<in> set (take_schemas names previous) \<Longrightarrow> node = schema_default \<or> (\<exists>k. (k, node) \<in> set previous)"
proof (induction names previous rule: take_schemas.induct)
  case (2 m ns previous)
  then show ?case by (auto simp: bt_remove_def dest: map_of_SomeD split: option.splits)
qed simp

lemma catalog_ok_step: "catalog_ok c \<Longrightarrow> catalog_ok (catalog_step op c)"
proof (cases op)
  case (Retain shown)
  moreover assume "catalog_ok c"
  moreover have "set (bt_retain shown (ca_schemas c)) \<subseteq> set (ca_schemas c)" by (auto simp: bt_retain_def)
  ultimately show ?thesis by (auto simp: catalog_ok_def catalog_retain_def Let_def)
next
  case (Apply_Schemas shown names at)
  moreover assume ok: "catalog_ok c"
  have "node_ok node" if "(n, node) \<in> set (bt_collect (take_schemas (filter shown names) (ca_schemas c)))" for n node
    using take_schemas_values [OF bt_collect_values [OF that]] ok
    by (auto simp: catalog_ok_def node_ok_def schema_default_def)
  ultimately show ?thesis
    by (auto simp: catalog_ok_def apply_schemas_def Let_def)
next
  case (Apply_Relations s relation entries at)
  moreover assume "catalog_ok c"
  ultimately show ?thesis
    by (auto simp: apply_relations_def node_ok_apply_relation_list node_ok_apply_one intro!: catalog_ok_update
        split: option.split)
next
  case (Apply_Columns s relation columns at)
  moreover assume "catalog_ok c"
  ultimately show ?thesis by (auto simp: apply_columns_def node_ok_columns intro!: catalog_ok_update)
next
  case (Set_Error scope nm member fresh)
  moreover assume "catalog_ok c"
  moreover have "catalog_ok c \<Longrightarrow> catalog_ok (c\<lparr>ca_error := e, ca_error_member := m\<rparr>)" for e m
    by (simp add: catalog_ok_def)
  ultimately show ?thesis
    by (cases scope) (auto simp: node_ok_def intro!: catalog_ok_update split: option.splits)
qed

lemma catalog_ok_empty: "catalog_ok (catalog_empty owner ident)"
  by (simp add: catalog_ok_def catalog_empty_def done_ok_def)

interpretation catalog_runs: kept_invariant "catalog_empty owner ident" catalog_step catalog_ok
  for owner ident
  by unfold_locales (rule catalog_ok_empty, rule catalog_ok_step)

section \<open>A refresh shows what the server has\<close>

lemma map_of_take_relations:
  assumes "distinct (map ent_name entries)"
  shows "map_of (bt_collect (take_relations entries previous)) r
    = map_option (\<lambda>e. relisted e (map_of previous r)) (List.find (\<lambda>e. ent_name e = r) entries)"
proof -
  let ?xs = "map (\<lambda>e. (ent_name e, relisted e (map_of previous (ent_name e)))) entries"
  have "distinct (map fst ?xs)" using assms by (simp add: comp_def)
  then have eq: "map_of (bt_collect (take_relations entries previous)) r
      = map_option (\<lambda>e. relisted e (map_of previous (ent_name e))) (List.find (\<lambda>e. ent_name e = r) entries)"
    unfolding take_relations_map [OF assms] by (simp only: bt_map_of_collect_distinct map_of_entries)
  show ?thesis
  proof (cases "List.find (\<lambda>e. ent_name e = r) entries")
    case (Some e)
    then have "ent_name e = r" by (auto simp: find_Some_iff)
    with eq Some show ?thesis by simp
  qed (simp add: eq del: bt_map_of_collect)
qed

lemma parsed_relations:
  assumes "parse_relations rows s None = Inr entries"
  obtains si ni ki ci where "required_index rows ''TABLE_SCHEM'' = Inr si" "required_index rows ''TABLE_NAME'' = Inr ni"
    "distinct (map ent_name entries)"
    "ent_name ` set entries = {n. \<exists>r \<in> set (mr_rows rows). in_schema si s r \<and> row_text r ni = Some n}"
    "set entries \<subseteq> {e. \<exists>r \<in> set (mr_rows rows). in_schema si s r \<and> entry_of_row ni ki ci None r = Some e}"
proof -
  from assms obtain si ni ki where ix: "required_index rows ''TABLE_SCHEM'' = Inr si"
    "required_index rows ''TABLE_NAME'' = Inr ni"
    and entries: "entries = dedup_by ent_name (sort_key ent_name
      (List.map_filter (entry_of_row ni ki (optional_index rows ''REMARKS'') None) (filter (in_schema si s) (mr_rows rows))))"
    by (auto simp: parse_relations_def and_then_Inr_iff Let_def)
  let ?row = "entry_of_row ni ki (optional_index rows ''REMARKS'') None"
  have set: "set (List.map_filter ?row rs) = {e. \<exists>r \<in> set rs. ?row r = Some e}" for rs
    by (induction rs) (auto simp: List.map_filter_simps split: option.split)
  have row: "(\<exists>e. ?row r = Some e \<and> n = ent_name e) = (row_text r ni = Some n)" for r n
    by (cases "row_text r ni") (auto simp: entry_of_row_def)
  have "distinct (map ent_name entries)" unfolding entries by (rule dedup_by_distinct) simp
  moreover have "ent_name ` set entries = {n. \<exists>r \<in> set (mr_rows rows). in_schema si s r \<and> row_text r ni = Some n}"
    unfolding entries dedup_by_keys set_sort set by (auto simp: image_iff row [symmetric])
  moreover have "set entries \<subseteq> {e. \<exists>r \<in> set (mr_rows rows). in_schema si s r \<and> ?row r = Some e}"
    unfolding entries using dedup_by_subset [of ent_name] by (fastforce simp: set)
  ultimately show ?thesis using that ix by blast
qed


definition sample_answer :: metadata_rows where
  "sample_answer =
     \<lparr>mr_columns = [\<lparr>cl_name = ''TABLE_SCHEM'', cl_type = ''STRING''\<rparr>, \<lparr>cl_name = ''table_name'', cl_type = ''STRING''\<rparr>,
        \<lparr>cl_name = ''TABLE_TYPE'', cl_type = ''STRING''\<rparr>, \<lparr>cl_name = ''REMARKS'', cl_type = ''STRING''\<rparr>],
      mr_rows = [[Some ''my_db'', Some ''v'', Some ''view'', Some ''A view''], [Some ''my_db'', Some ''t'', Some ''TABLE'', Some []],
        [Some ''myxdb'', Some ''other'', Some ''TABLE'', None], [Some ''my_db'', Some ''t'', Some ''TABLE'', None], [None]]\<rparr>"

definition sample_catalog :: "nat catalog" where
  "sample_catalog =
     apply_columns ''my_db'' None [(''t'', [\<lparr>cc_name = ''id'', cc_type = ''INT'', cc_comment = None\<rparr>])] 1
       (apply_relations ''my_db'' None
          [\<lparr>ent_name = ''gone'', ent_kind = Table_Kind, ent_comment = None\<rparr>,
           \<lparr>ent_name = ''t'', ent_kind = Table_Kind, ent_comment = None\<rparr>] 1
          (apply_schemas (\<lambda>_. True) [''my_db'', ''ops''] 1 (catalog_empty 7 None)))"

definition sample_entries :: "relation_entry list" where
  "sample_entries =
     [\<lparr>ent_name = ''t'', ent_kind = Table_Kind, ent_comment = None\<rparr>,
      \<lparr>ent_name = ''v'', ent_kind = View_Kind, ent_comment = Some ''A view''\<rparr>]"


end
