(* ===== verification/Dbt_Matching.thy ===== *)
theory Dbt_Matching
  imports Dbt_Index Schema_Rules Catalog_Cache
begin

text \<open>
  The relations of a dbt project in the catalog (\<open>src/dbt/matching.rs\<close>). The maps that the code
  builds by hash are functions here: nothing depends on their order. \<open>str::to_lowercase\<close> is the
  parameter \<open>lower\<close>.
\<close>

section \<open>Case-insensitive names\<close>

text \<open>A name that comes in two spellings is excluded: its entry is \<open>Some None\<close>.\<close>

fun unique_loop :: "(string \<Rightarrow> string) \<Rightarrow> string list \<Rightarrow> (string \<rightharpoonup> string option) \<Rightarrow> (string \<rightharpoonup> string option)" where
  "unique_loop lower [] m = m"
| "unique_loop lower (n # ns) m =
     unique_loop lower ns
       (m(lower n \<mapsto> (case m (lower n) of
            None \<Rightarrow> Some n
          | Some None \<Rightarrow> None
          | Some (Some old) \<Rightarrow> if old \<noteq> n then None else Some old)))"

definition unique_names :: "(string \<Rightarrow> string) \<Rightarrow> string list \<Rightarrow> (string \<rightharpoonup> string)" where
  "unique_names lower names k = Option.bind (unique_loop lower names Map.empty k) (\<lambda>n. n)"

text \<open>The schemas of the catalog with their relations, where the catalog has them.\<close>

type_synonym catalog_names = "string \<rightharpoonup> string \<times> (string \<rightharpoonup> string) option"

definition catalog_names_of :: "(string \<Rightarrow> string) \<Rightarrow> 'i catalog \<Rightarrow> catalog_names" where
  "catalog_names_of lower c k =
     map_option
       (\<lambda>n. (n, Option.bind (catalog_schema c n) (\<lambda>s. map_option (\<lambda>rs. unique_names lower (bt_keys rs)) (se_relations s))))
       (unique_names lower (bt_keys (ca_schemas c)) k)"

section \<open>Matching\<close>

datatype dbt_match = Match_Relation string string | No_Schema | No_Relation | Not_Loaded | Not_A_Relation

text \<open>On a checked index the symbol of a schema is always there.\<close>

definition mapped_schema :: "dbt_index \<Rightarrow> dbt_entry \<Rightarrow> dbt_project \<Rightarrow> string" where
  "mapped_schema ix e p = map_schema p (case index_symbol ix (de_schema e) of None \<Rightarrow> [] | Some s \<Rightarrow> s)"

definition is_ephemeral :: "dbt_entry \<Rightarrow> bool" where
  "is_ephemeral e \<longleftrightarrow> de_kind e = Dbt_Model \<and> de_relation_name e = None"

fun dbt_rank :: "dbt_kind \<Rightarrow> nat" where
  "dbt_rank Dbt_Model = 0"
| "dbt_rank Dbt_Snapshot = 1"
| "dbt_rank Dbt_Seed = 2"
| "dbt_rank Dbt_Source = 3"

definition find_catalog ::
  "(string \<Rightarrow> string) \<Rightarrow> dbt_index \<Rightarrow> dbt_entry \<Rightarrow> dbt_project \<Rightarrow> catalog_names \<Rightarrow> dbt_match" where
  "find_catalog lower ix e p names =
     (if is_ephemeral e then Not_A_Relation
      else
        (case names (lower (mapped_schema ix e p)) of
           None \<Rightarrow> No_Schema
         | Some (schema_name, None) \<Rightarrow> Not_Loaded
         | Some (schema_name, Some relations) \<Rightarrow>
             (case relations (lower (de_identifier e)) of
                Some r \<Rightarrow> Match_Relation schema_name r
              | None \<Rightarrow> No_Relation)))"

type_synonym identity = "string \<times> string"

text \<open>One entry of the loop of \<open>relations\<close>; \<open>Some None\<close> is an identity in two spellings.\<close>

definition relation_entry_step ::
  "dbt_kind list \<Rightarrow> nat \<Rightarrow> dbt_kind \<Rightarrow> identity \<Rightarrow> (identity \<times> nat) option option \<Rightarrow> (identity \<times> nat) option" where
  "relation_entry_step kinds i kind ident known =
     (case known of
        None \<Rightarrow> Some (ident, i)
      | Some None \<Rightarrow> None
      | Some (Some (previous, j)) \<Rightarrow>
          if previous \<noteq> ident then None
          else if dbt_rank kind < dbt_rank (kinds ! j) then Some (previous, i)
          else Some (previous, j))"

definition fold_identity :: "(string \<Rightarrow> string) \<Rightarrow> identity \<Rightarrow> identity" where
  "fold_identity lower ident = (lower (fst ident), lower (snd ident))"

fun relations_loop ::
  "(string \<Rightarrow> string) \<Rightarrow> dbt_kind list \<Rightarrow> (string \<rightharpoonup> string) \<Rightarrow> (dbt_entry \<Rightarrow> string) \<Rightarrow> nat \<Rightarrow> dbt_entry list
     \<Rightarrow> (identity \<rightharpoonup> (identity \<times> nat) option) \<Rightarrow> (identity \<rightharpoonup> (identity \<times> nat) option)" where
  "relations_loop lower kinds schemas schema_of i [] m = m"
| "relations_loop lower kinds schemas schema_of i (e # es) m =
     relations_loop lower kinds schemas schema_of (i + 1) es
       (if is_ephemeral e then m
        else
          (let ident = (schema_of e, de_identifier e) in
           if schemas (lower (fst ident)) = None then m
           else
             (let k = fold_identity lower ident in
              m(k \<mapsto> relation_entry_step kinds i (de_kind e) ident (m k)))))"

definition relations :: "(string \<Rightarrow> string) \<Rightarrow> dbt_index \<Rightarrow> dbt_project \<Rightarrow> (identity \<rightharpoonup> nat)" where
  "relations lower ix p k =
     (let schema_of = (\<lambda>e. mapped_schema ix e p);
          schemas = unique_names lower (map schema_of (filter (\<lambda>e. \<not> is_ephemeral e) (ix_entries ix))) in
      Option.bind
        (relations_loop lower (map de_kind (ix_entries ix)) schemas schema_of 0 (ix_entries ix) Map.empty k)
        (map_option snd))"

definition entry_for :: "(string \<Rightarrow> string) \<Rightarrow> dbt_index \<Rightarrow> dbt_project \<Rightarrow> string \<Rightarrow> string \<Rightarrow> nat option" where
  "entry_for lower ix p s r = relations lower ix p (lower s, lower r)"

definition find_relation ::
  "(string \<Rightarrow> string) \<Rightarrow> dbt_index \<Rightarrow> dbt_entry \<Rightarrow> dbt_project \<Rightarrow> catalog_names \<Rightarrow> dbt_match" where
  "find_relation lower ix e p names =
     (if \<not> is_ephemeral e
         \<and> relations lower ix p (lower (mapped_schema ix e p), lower (de_identifier e)) = None
      then No_Relation
      else find_catalog lower ix e p names)"

record match_summary =
  su_total :: nat
  su_matched :: nat
  su_not_loaded :: nat
  su_unmatched :: "(nat \<times> string \<times> dbt_match) list"

definition summary_default :: match_summary where
  "summary_default = \<lparr>su_total = 0, su_matched = 0, su_not_loaded = 0, su_unmatched = []\<rparr>"

fun summary_loop :: "(dbt_entry \<Rightarrow> dbt_match) \<Rightarrow> (dbt_entry \<Rightarrow> string) \<Rightarrow> nat \<Rightarrow> dbt_entry list \<Rightarrow> match_summary \<Rightarrow> match_summary" where
  "summary_loop found schema_of i [] su = su"
| "summary_loop found schema_of i (e # es) su =
     summary_loop found schema_of (i + 1) es
       (case found e of
          Not_A_Relation \<Rightarrow> su
        | Match_Relation s r \<Rightarrow> su\<lparr>su_matched := su_matched su + 1, su_total := su_total su + 1\<rparr>
        | Not_Loaded \<Rightarrow> su\<lparr>su_not_loaded := su_not_loaded su + 1, su_total := su_total su + 1\<rparr>
        | No_Schema \<Rightarrow>
            su\<lparr>su_unmatched := su_unmatched su @ [(i, schema_of e, No_Schema)], su_total := su_total su + 1\<rparr>
        | No_Relation \<Rightarrow>
            su\<lparr>su_unmatched := su_unmatched su @ [(i, schema_of e, No_Relation)], su_total := su_total su + 1\<rparr>)"

definition summary :: "(string \<Rightarrow> string) \<Rightarrow> dbt_index \<Rightarrow> dbt_project \<Rightarrow> catalog_names \<Rightarrow> match_summary" where
  "summary lower ix p names =
     summary_loop (\<lambda>e. find_relation lower ix e p names) (\<lambda>e. mapped_schema ix e p) 0 (ix_entries ix) summary_default"

section \<open>Unique names\<close>

text \<open>The state of a key after some names: nothing, the one spelling, or the exclusion.\<close>

definition spellings :: "(string \<Rightarrow> string) \<Rightarrow> string set \<Rightarrow> string \<Rightarrow> string set" where
  "spellings lower names k = {n \<in> names. lower n = k}"

definition unique_state :: "string set \<Rightarrow> string option option \<Rightarrow> bool" where
  "unique_state S x \<longleftrightarrow>
     (case x of None \<Rightarrow> S = {} | Some (Some n) \<Rightarrow> S = {n} | Some None \<Rightarrow> \<exists>a b. a \<in> S \<and> b \<in> S \<and> a \<noteq> b)"

lemma unique_loop_state:
  "(\<And>k. unique_state (spellings lower S k) (m k)) \<Longrightarrow>
     unique_state (spellings lower (S \<union> set names) k) (unique_loop lower names m k)"
proof (induction names arbitrary: S m)
  case (Cons n ns)
  let ?m = "m(lower n \<mapsto> (case m (lower n) of None \<Rightarrow> Some n | Some None \<Rightarrow> None
      | Some (Some old) \<Rightarrow> if old \<noteq> n then None else Some old))"
  have ins: "spellings lower (insert n S) k
      = (if lower n = k then insert n (spellings lower S k) else spellings lower S k)" for k
    by (auto simp: spellings_def)
  have "unique_state (spellings lower (insert n S) k) (?m k)" for k
    using Cons.prems [of k] unfolding ins
    by (cases "m k"; cases "the (m k)") (auto simp: unique_state_def split: if_splits)
  from Cons.IH [OF this] show ?case by (simp del: fun_upd_apply)
qed simp

lemma unique_names_iff:
  "unique_names lower names k = Some n \<longleftrightarrow> n \<in> set names \<and> lower n = k \<and> (\<forall>m \<in> set names. lower m = k \<longrightarrow> m = n)"
proof -
  have "unique_state (spellings lower (set names) k) (unique_loop lower names Map.empty k)"
    using unique_loop_state [of lower "{}" Map.empty names k] by (simp add: unique_state_def spellings_def)
  then show ?thesis
    by (cases "unique_loop lower names Map.empty k"; cases "the (unique_loop lower names Map.empty k)")
      (auto simp: unique_state_def spellings_def unique_names_def set_eq_iff)
qed

section \<open>The relation of each identity\<close>

text \<open>The entries of a key with their positions, as far as the loop has read.\<close>

definition members ::
  "(string \<Rightarrow> string) \<Rightarrow> (string \<rightharpoonup> string) \<Rightarrow> (dbt_entry \<Rightarrow> string) \<Rightarrow> dbt_entry list \<Rightarrow> nat \<Rightarrow> identity \<Rightarrow> (nat \<times> identity) set"
  where
  "members lower schemas schema_of es n k =
     {(j, (schema_of (es ! j), de_identifier (es ! j))) | j.
        j < n \<and> \<not> is_ephemeral (es ! j) \<and> schemas (lower (schema_of (es ! j))) \<noteq> None
        \<and> fold_identity lower (schema_of (es ! j), de_identifier (es ! j)) = k}"

lemma members_Suc:
  "members lower schemas schema_of es (Suc n) k =
     (let ident = (schema_of (es ! n), de_identifier (es ! n)) in
      if \<not> is_ephemeral (es ! n) \<and> schemas (lower (fst ident)) \<noteq> None \<and> fold_identity lower ident = k
      then insert (n, ident) (members lower schemas schema_of es n k) else members lower schemas schema_of es n k)"
  by (auto simp: members_def Let_def less_Suc_eq)

lemma members_less: "(j, ident) \<in> members lower schemas schema_of es n k \<Longrightarrow> j < n"
  by (auto simp: members_def)

definition relation_state :: "dbt_kind list \<Rightarrow> (nat \<times> identity) set \<Rightarrow> (identity \<times> nat) option option \<Rightarrow> bool" where
  "relation_state kinds E x \<longleftrightarrow>
     (case x of
        None \<Rightarrow> E = {}
      | Some None \<Rightarrow> \<exists>i a j b. (i, a) \<in> E \<and> (j, b) \<in> E \<and> a \<noteq> b
      | Some (Some (ident, j)) \<Rightarrow>
          (j, ident) \<in> E
          \<and> (\<forall>i a. (i, a) \<in> E \<longrightarrow> a = ident \<and> dbt_rank (kinds ! j) \<le> dbt_rank (kinds ! i)
               \<and> (dbt_rank (kinds ! j) = dbt_rank (kinds ! i) \<longrightarrow> j \<le> i)))"

lemma relation_state_simps:
  "relation_state kinds E None \<longleftrightarrow> E = {}"
  "relation_state kinds E (Some None) \<longleftrightarrow> (\<exists>i a j b. (i, a) \<in> E \<and> (j, b) \<in> E \<and> a \<noteq> b)"
  "relation_state kinds E (Some (Some (ident, j))) \<longleftrightarrow>
     (j, ident) \<in> E
     \<and> (\<forall>i a. (i, a) \<in> E \<longrightarrow> a = ident \<and> dbt_rank (kinds ! j) \<le> dbt_rank (kinds ! i)
          \<and> (dbt_rank (kinds ! j) = dbt_rank (kinds ! i) \<longrightarrow> j \<le> i))"
  by (simp_all add: relation_state_def)

lemma relation_state_step:
  assumes "relation_state kinds E x" "\<forall>(j, a) \<in> E. j < i"
  shows "relation_state kinds (insert (i, ident) E) (Some (relation_entry_step kinds i (kinds ! i) ident x))"
proof (cases x)
  case None
  with assms(1) show ?thesis by (simp add: relation_state_def relation_entry_step_def)
next
  case (Some y)
  show ?thesis
  proof (cases y)
    case None
    with Some assms(1) have "\<exists>h a j b. (h, a) \<in> E \<and> (j, b) \<in> E \<and> a \<noteq> b" by (simp only: relation_state_simps)
    moreover have "relation_entry_step kinds i (kinds ! i) ident x = None"
      using None Some by (simp add: relation_entry_step_def)
    ultimately show ?thesis unfolding relation_state_simps by (metis insertCI relation_state_simps(2))
  next
    case (Some z)
    obtain previous j where z: "z = (previous, j)" by (cases z)
    with Some \<open>x = Some y\<close> assms(1) have st: "(j, previous) \<in> E"
      "\<forall>h a. (h, a) \<in> E \<longrightarrow> a = previous \<and> dbt_rank (kinds ! j) \<le> dbt_rank (kinds ! h)
         \<and> (dbt_rank (kinds ! j) = dbt_rank (kinds ! h) \<longrightarrow> j \<le> h)"
      by (simp_all add: relation_state_simps)
    consider "previous \<noteq> ident" | "previous = ident" "dbt_rank (kinds ! i) < dbt_rank (kinds ! j)"
      | "previous = ident" "dbt_rank (kinds ! j) \<le> dbt_rank (kinds ! i)" by linarith
    then show ?thesis
    proof cases
      case 1
      with Some \<open>x = Some y\<close> z have "relation_entry_step kinds i (kinds ! i) ident x = None"
        by (simp add: relation_entry_step_def)
      with 1 st(1) show ?thesis by (metis insertCI relation_state_simps(2))
    next
      case 2
      with Some \<open>x = Some y\<close> z have "relation_entry_step kinds i (kinds ! i) ident x = Some (ident, i)"
        by (simp add: relation_entry_step_def)
      with 2 st show ?thesis by (fastforce simp: relation_state_simps)
    next
      case 3
      with Some \<open>x = Some y\<close> z have "relation_entry_step kinds i (kinds ! i) ident x = Some (ident, j)"
        by (simp add: relation_entry_step_def)
      moreover have "j < i" using st(1) assms(2) by blast
      have "a = ident \<and> dbt_rank (kinds ! j) \<le> dbt_rank (kinds ! h)
          \<and> (dbt_rank (kinds ! j) = dbt_rank (kinds ! h) \<longrightarrow> j \<le> h)"
        if "(h, a) \<in> insert (i, ident) E" for h a
      proof (cases "(h, a) = (i, ident)")
        case True
        with 3 \<open>j < i\<close> show ?thesis by simp
      next
        case False
        with that have "(h, a) \<in> E" by blast
        with st(2) 3(1) show ?thesis by blast
      qed
      then have "relation_state kinds (insert (i, ident) E) (Some (Some (ident, j)))"
        unfolding relation_state_simps using st(1) 3(1) by blast
      ultimately show ?thesis by simp
    qed
  qed
qed

lemma relations_loop_state:
  assumes "es = drop i all" "i \<le> length all"
    and "\<And>k. relation_state (map de_kind all) (members lower schemas schema_of all i k) (m k)"
  shows "relation_state (map de_kind all) (members lower schemas schema_of all (length all) k)
    (relations_loop lower (map de_kind all) schemas schema_of i es m k)"
  using assms
proof (induction es arbitrary: i m)
  case Nil
  then show ?case by simp
next
  case (Cons e es)
  from Cons.prems(1) have i: "i < length all" "e = all ! i" "es = drop (Suc i) all"
    by (metis drop_all list.distinct(1) not_less, metis Cons_nth_drop_Suc drop_all list.distinct(1) list.sel(1) not_less,
        metis Cons_nth_drop_Suc drop_all list.distinct(1) list.sel(3) not_less)
  let ?ident = "(schema_of e, de_identifier e)"
  let ?k = "fold_identity lower ?ident"
  let ?m = "if is_ephemeral e \<or> schemas (lower (schema_of e)) = None then m
    else m(?k \<mapsto> relation_entry_step (map de_kind all) i (de_kind e) ?ident (m ?k))"
  have "relation_state (map de_kind all) (members lower schemas schema_of all (Suc i) k) (?m k)" for k
  proof (cases "is_ephemeral e \<or> schemas (lower (schema_of e)) = None \<or> ?k \<noteq> k")
    case True
    then have "members lower schemas schema_of all (Suc i) k = members lower schemas schema_of all i k"
      using i(2) by (auto simp: members_Suc Let_def)
    moreover have "?m k = m k" using True by auto
    ultimately show ?thesis using Cons.prems(3) by simp
  next
    case False
    then have "members lower schemas schema_of all (Suc i) k = insert (i, ?ident) (members lower schemas schema_of all i k)"
      using i(2) by (auto simp: members_Suc Let_def)
    moreover have "?m k = Some (relation_entry_step (map de_kind all) i (map de_kind all ! i) ?ident (m k))"
      using False i(1,2) by auto
    moreover have "\<forall>(j, a) \<in> members lower schemas schema_of all i k. j < i" by (auto dest: members_less)
    ultimately show ?thesis using relation_state_step [OF Cons.prems(3)] by simp
  qed
  from Cons.IH [OF i(3) _ this] i(1) show ?case
    by (cases "is_ephemeral e \<or> schemas (lower (schema_of e)) = None") (auto simp: Let_def simp del: fun_upd_apply)
qed

lemma relations_iff:
  assumes "schemas = unique_names lower (map schema_of (filter (\<lambda>e. \<not> is_ephemeral e) (ix_entries ix)))"
    and "schema_of = (\<lambda>e. mapped_schema ix e p)"
  shows "relations lower ix p k = Some i \<longleftrightarrow>
    (\<exists>ident. relation_state (map de_kind (ix_entries ix)) (members lower schemas schema_of (ix_entries ix) (length (ix_entries ix)) k)
       (Some (Some (ident, i))))"
proof -
  let ?kinds = "map de_kind (ix_entries ix)"
  let ?E = "members lower schemas schema_of (ix_entries ix) (length (ix_entries ix)) k"
  let ?x = "relations_loop lower ?kinds schemas schema_of 0 (ix_entries ix) Map.empty k"
  have state: "relation_state ?kinds ?E ?x"
    by (rule relations_loop_state) (simp_all add: relation_state_def members_def)
  have rel: "relations lower ix p k = Option.bind ?x (map_option snd)"
    by (simp add: relations_def Let_def assms)
  have unique: "?x = Some (Some (ident, i))" if "relation_state ?kinds ?E (Some (Some (ident, i)))" for ident
  proof (cases ?x)
    case None
    with state that show ?thesis by (auto simp: relation_state_simps)
  next
    case (Some y)
    show ?thesis
    proof (cases y)
      case None
      with Some state have "\<exists>h a j b. (h, a) \<in> ?E \<and> (j, b) \<in> ?E \<and> a \<noteq> b" by (simp only: relation_state_simps)
      then obtain h a j b where "(h, a) \<in> ?E" "(j, b) \<in> ?E" "a \<noteq> b" by blast
      with that have False unfolding relation_state_simps by metis
      then show ?thesis ..
    next
      case (Some z)
      obtain ident1 j where z: "z = (ident1, j)" by (cases z)
      with Some \<open>?x = Some y\<close> state have "relation_state ?kinds ?E (Some (Some (ident1, j)))" by simp
      with that have "ident1 = ident \<and> j = i" unfolding relation_state_simps by (metis antisym)
      with z Some \<open>?x = Some y\<close> show ?thesis by simp
    qed
  qed
  show ?thesis
  proof
    assume "relations lower ix p k = Some i"
    then obtain y where "?x = Some y" "map_option snd y = Some i" unfolding rel by (auto simp: bind_eq_Some_conv)
    then obtain ident where "?x = Some (Some (ident, i))" by auto
    with state have "relation_state ?kinds ?E (Some (Some (ident, i)))" by simp
    then show "\<exists>ident. relation_state ?kinds ?E (Some (Some (ident, i)))" ..
  next
    assume "\<exists>ident. relation_state ?kinds ?E (Some (Some (ident, i)))"
    with unique rel show "relations lower ix p k = Some i" by auto
  qed
qed

text \<open>The first member by rank, when the identities of all members agree.\<close>

lemma first_member_iff:
  fixes lower :: "string \<Rightarrow> string"
  assumes members: "\<And>j ident. (j, ident) \<in> E \<longleftrightarrow> is_rel j \<and> ident = (sch j, rel j) \<and> known (lower (sch j))
      \<and> lower (sch j) = ls \<and> lower (rel j) = lr"
    and known: "\<And>k. known k \<longleftrightarrow> (\<exists>n. (\<exists>j. is_rel j \<and> sch j = n) \<and> lower n = k
      \<and> (\<forall>m. (\<exists>j. is_rel j \<and> sch j = m) \<longrightarrow> lower m = k \<longrightarrow> m = n))"
  shows "(\<exists>ident. (i, ident) \<in> E
        \<and> (\<forall>j a. (j, a) \<in> E \<longrightarrow> a = ident \<and> rnk i \<le> rnk j \<and> (rnk i = rnk j \<longrightarrow> i \<le> j)))
    \<longleftrightarrow> is_rel i \<and> lower (sch i) = ls \<and> lower (rel i) = lr
      \<and> (\<forall>j. is_rel j \<and> lower (sch j) = ls \<longrightarrow> sch j = sch i \<and> (lower (rel j) = lr \<longrightarrow>
           rel j = rel i \<and> ((rnk i :: nat) < rnk j \<or> rnk i = rnk j \<and> (i :: nat) \<le> j)))"
    (is "?L \<longleftrightarrow> ?R")
proof
  assume ?L
  then obtain ident where L: "(i, ident) \<in> E"
    "\<forall>j a. (j, a) \<in> E \<longrightarrow> a = ident \<and> rnk i \<le> rnk j \<and> (rnk i = rnk j \<longrightarrow> i \<le> j)" by blast
  from L(1) have i: "is_rel i" "ident = (sch i, rel i)" "known (lower (sch i))"
    "lower (sch i) = ls" "lower (rel i) = lr" unfolding members by blast+
  have same: "sch j = sch i" if "is_rel j" "lower (sch j) = ls" for j
    using i(1,3,4) that unfolding known by metis
  moreover have "rel j = rel i \<and> (rnk i < rnk j \<or> rnk i = rnk j \<and> i \<le> j)"
    if "is_rel j" "lower (sch j) = ls" "lower (rel j) = lr" for j
  proof -
    from that i(3,4) same [OF that(1,2)] have "(j, (sch j, rel j)) \<in> E" by (simp add: members)
    with L(2) have "(sch j, rel j) = ident \<and> rnk i \<le> rnk j \<and> (rnk i = rnk j \<longrightarrow> i \<le> j)" by blast
    with i(2) show ?thesis by (auto simp: less_le)
  qed
  ultimately show ?R using i by blast
next
  assume R: ?R
  then have "known (lower (sch i))" unfolding known by metis
  with R have "(i, (sch i, rel i)) \<in> E" by (simp add: members)
  moreover have "a = (sch i, rel i) \<and> rnk i \<le> rnk j \<and> (rnk i = rnk j \<longrightarrow> i \<le> j)" if "(j, a) \<in> E" for j a
  proof -
    from that have j: "is_rel j" "a = (sch j, rel j)" "lower (sch j) = ls" "lower (rel j) = lr"
      unfolding members by blast+
    with R have "sch j = sch i" "rel j = rel i" "rnk i < rnk j \<or> rnk i = rnk j \<and> i \<le> j" by blast+
    with j(2) show ?thesis by auto
  qed
  ultimately show ?L by blast
qed

text \<open>
  C13. The dbt resource of a catalog relation is never ambiguous: a resource is returned exactly when
  it is a relation whose mapped schema and identifier are the requested ones without regard to letter
  case, no relation of the project spells that schema, or that relation in it, in another way, and
  no other resource of the relation ranks before it: a model comes before a snapshot, a seed and a
  source, and of equal kinds the first of the index.
\<close>

theorem entry_for_is_the_first_of_its_relation:
  "entry_for lower ix p s r = Some i \<longleftrightarrow>
     (let es = ix_entries ix; sch = (\<lambda>j. mapped_schema ix (es ! j) p); rel = (\<lambda>j. de_identifier (es ! j));
          is_rel = (\<lambda>j. j < length es \<and> \<not> is_ephemeral (es ! j)) in
      is_rel i \<and> lower (sch i) = lower s \<and> lower (rel i) = lower r
      \<and> (\<forall>j. is_rel j \<and> lower (sch j) = lower s \<longrightarrow>
           sch j = sch i
           \<and> (lower (rel j) = lower r \<longrightarrow>
                rel j = rel i
                \<and> (dbt_rank (de_kind (es ! i)) < dbt_rank (de_kind (es ! j))
                   \<or> dbt_rank (de_kind (es ! i)) = dbt_rank (de_kind (es ! j)) \<and> i \<le> j))))"
proof -
  define es where "es = ix_entries ix"
  define schema_of where "schema_of = (\<lambda>e. mapped_schema ix e p)"
  define schemas where "schemas = unique_names lower (map schema_of (filter (\<lambda>e. \<not> is_ephemeral e) es))"
  define E where "E = members lower schemas schema_of es (length es) (lower s, lower r)"
  define is_rel where "is_rel = (\<lambda>j. j < length es \<and> \<not> is_ephemeral (es ! j))"
  define sch where "sch = (\<lambda>j. schema_of (es ! j))"
  define rel where "rel = (\<lambda>j. de_identifier (es ! j))"
  define rnk where "rnk = (\<lambda>j. dbt_rank (de_kind (es ! j)))"
  have names: "(\<exists>j. is_rel j \<and> sch j = n) \<longleftrightarrow> n \<in> set (map schema_of (filter (\<lambda>e. \<not> is_ephemeral e) es))" for n
    by (auto simp: is_rel_def sch_def in_set_conv_nth image_iff)
  have known: "schemas k \<noteq> None \<longleftrightarrow> (\<exists>n. (\<exists>j. is_rel j \<and> sch j = n) \<and> lower n = k
      \<and> (\<forall>m. (\<exists>j. is_rel j \<and> sch j = m) \<longrightarrow> lower m = k \<longrightarrow> m = n))" for k
    unfolding names schemas_def by (simp add: unique_names_iff Ball_def)
  have members: "(j, ident) \<in> E \<longleftrightarrow> is_rel j \<and> ident = (sch j, rel j) \<and> schemas (lower (sch j)) \<noteq> None
      \<and> lower (sch j) = lower s \<and> lower (rel j) = lower r" for j ident
    by (auto simp: E_def members_def is_rel_def sch_def rel_def fold_identity_def)
  have rank_map: "(j, a) \<in> E \<Longrightarrow> dbt_rank (map de_kind es ! j) = rnk j" for j a
    by (auto simp: members is_rel_def rnk_def)
  have "entry_for lower ix p s r = Some i \<longleftrightarrow> (\<exists>ident. relation_state (map de_kind es) E (Some (Some (ident, i))))"
    unfolding entry_for_def E_def es_def
    by (rule relations_iff) (simp_all add: schemas_def schema_of_def es_def)
  also have "\<dots> \<longleftrightarrow> (\<exists>ident. (i, ident) \<in> E \<and> (\<forall>j a. (j, a) \<in> E \<longrightarrow> a = ident \<and> rnk i \<le> rnk j \<and> (rnk i = rnk j \<longrightarrow> i \<le> j)))"
    unfolding relation_state_simps by (metis rank_map)
  also have "\<dots> \<longleftrightarrow> is_rel i \<and> lower (sch i) = lower s \<and> lower (rel i) = lower r
      \<and> (\<forall>j. is_rel j \<and> lower (sch j) = lower s \<longrightarrow> sch j = sch i \<and> (lower (rel j) = lower r \<longrightarrow>
           rel j = rel i \<and> (rnk i < rnk j \<or> rnk i = rnk j \<and> i \<le> j)))"
    by (rule first_member_iff [OF members known])
  finally show ?thesis
    unfolding Let_def is_rel_def sch_def rel_def rnk_def schema_of_def es_def .
qed

definition sample_entry :: "string \<Rightarrow> dbt_kind \<Rightarrow> nat \<Rightarrow> string \<Rightarrow> dbt_entry" where
  "sample_entry uid kind sc ident =
     \<lparr>de_unique_id = uid, de_kind = kind, de_name = ident, de_package = 0, de_database = None, de_schema = sc,
      de_identifier = ident, de_relation_name = Some ident, de_materialized = None, de_description = [],
      de_tags = [], de_columns = [], de_parents = [], de_path = [], de_compiled_path = None,
      de_source_name = None, de_loader = None, de_raw_code = None, de_compiled_code = None\<rparr>"

definition sample_index :: dbt_index where
  "sample_index =
     \<lparr>ix_project = ''p'', ix_dbt_version = ''1.8'', ix_generated_at = [], ix_adapter = ''spark'', ix_has_compiled_code = False,
      ix_symbols = [''dev_sales'', ''ops''],
      ix_entries =
        [sample_entry ''a'' Dbt_Source 0 ''orders'', sample_entry ''b'' Dbt_Model 0 ''orders'',
         sample_entry ''c'' Dbt_Model 0 ''orders'', sample_entry ''d'' Dbt_Seed 1 ''Items'', sample_entry ''e'' Dbt_Seed 1 ''items''],
      ix_tests = [], ix_children = [[], [], [], [], []], ix_semantic_models = [], ix_metrics = [], ix_exposures = []\<rparr>"

definition sample_project :: dbt_project where
  "sample_project =
     \<lparr>dp_manifest = ''/m.json'', dp_refresh = Automatic,
      dp_schema_mapping = [\<lparr>sr_kind = Prefix, sr_from = ''dev_'', sr_to = ''prod_''\<rparr>]\<rparr>"

theorem entry_for_is_the_first_of_its_relation_witness:
  "entry_for to_ascii_lowercase sample_index sample_project ''Prod_Sales'' ''ORDERS'' = Some 1
   \<and> entry_for to_ascii_lowercase sample_index sample_project ''ops'' ''items'' = None
   \<and> \<not> is_ephemeral (ix_entries sample_index ! 1)"
proof -
  have one: "entry_for to_ascii_lowercase sample_index sample_project ''Prod_Sales'' ''ORDERS'' = Some 1"
    by code_simp
  moreover have "entry_for to_ascii_lowercase sample_index sample_project ''ops'' ''items'' = None"
    by code_simp
  moreover have "\<not> is_ephemeral (ix_entries sample_index ! 1)"
    using one unfolding entry_for_is_the_first_of_its_relation [of _ _ _ _ _ 1] Let_def by blast
  ultimately show ?thesis by blast
qed

section \<open>The summary\<close>

definition unmatched :: "dbt_match \<Rightarrow> bool" where
  "unmatched x \<longleftrightarrow> x = No_Schema \<or> x = No_Relation"

definition is_match :: "dbt_match \<Rightarrow> bool" where
  "is_match x \<longleftrightarrow> (\<exists>s r. x = Match_Relation s r)"

lemma upt_step: "[i..<i + length (e # es)] = i # [Suc i..<Suc i + length es]"
  using upt_conv_Cons [of i "i + length (e # es)"] by (simp del: upt_Suc)

lemma summary_loop_spec:
  "summary_loop found schema_of i es su =
     \<lparr>su_total = su_total su + length (filter (\<lambda>e. found e \<noteq> Not_A_Relation) es),
      su_matched = su_matched su + length (filter (\<lambda>e. is_match (found e)) es),
      su_not_loaded = su_not_loaded su + length (filter (\<lambda>e. found e = Not_Loaded) es),
      su_unmatched = su_unmatched su @ map (\<lambda>(j, e). (j, schema_of e, found e))
        (filter (\<lambda>(j, e). unmatched (found e)) (zip [i..<i + length es] es))\<rparr>"
proof (induction es arbitrary: i su)
  case (Cons e es)
  show ?case
    unfolding upt_step
    by (cases "found e") (simp_all only: summary_loop.simps Cons, auto simp: unmatched_def is_match_def simp del: upt_Suc)
qed simp

text \<open>The counts of a summary add up, and every relation of the project is in one of them.\<close>

lemma summary_adds_up:
  "let su = summary lower ix p names in
     su_total su = su_matched su + su_not_loaded su + length (su_unmatched su)
     \<and> su_total su = length (filter (\<lambda>e. \<not> is_ephemeral e) (ix_entries ix))"
proof -
  let ?found = "\<lambda>e. find_relation lower ix e p names"
  have eph: "(?found e \<noteq> Not_A_Relation) = (\<not> is_ephemeral e)" for e
    by (auto simp: find_relation_def find_catalog_def split: option.splits)
  have split: "length (filter (\<lambda>e. ?found e \<noteq> Not_A_Relation) es)
      = length (filter (\<lambda>e. is_match (?found e)) es) + length (filter (\<lambda>e. ?found e = Not_Loaded) es)
        + length (filter (\<lambda>e. unmatched (?found e)) es)" for es
    by (induction es) (auto simp: is_match_def unmatched_def split: dbt_match.splits, (metis dbt_match.exhaust)+)
  have zip: "length (filter (\<lambda>(j, e). unmatched (?found e)) (zip [i..<i + length es] es))
      = length (filter (\<lambda>e. unmatched (?found e)) es)" for i es
  proof (induction es arbitrary: i)
    case (Cons e es)
    then show ?case using Cons.IH [of "Suc i"] unfolding upt_step by (simp del: upt_Suc)
  qed simp
  show ?thesis
    using split [of "ix_entries ix"] zip [of 0 "ix_entries ix"]
    by (simp add: Let_def summary_def summary_loop_spec summary_default_def eph)
qed

end
