(* ===== verification/Refresh_Queue.thy ===== *)
theory Refresh_Queue
  imports Catalog_Cache Catalog_Settings
begin

text \<open>
  The refreshes of a catalog worker (\<open>src/catalog/worker.rs\<close>): its queue of requests, its status, the
  commands that change them between and during refreshes, and the cancellation flag that the window
  shares with the worker. Reading the server is the environment: a refresh ends with some outcome.
  A profile is its identifier; whether a new configuration makes the open session stale is an
  argument, as are the catalogs that are loaded from files. \<open>str::to_lowercase\<close> is \<open>lower\<close>.
\<close>

section \<open>State\<close>

record request =
  rq_member :: nat
  rq_scope :: scope

record 'i catalog_config =
  cf_id :: nat
  cf_members :: "nat list"
  cf_settings :: catalog_settings
  cf_preferred :: "nat option"
  cf_identity :: "'i option"

record status =
  st_active :: "scope option"
  st_runner :: "nat option"
  st_queued :: "request list"
  st_done :: nat
  st_total :: nat

definition status_default :: status where
  "status_default = \<lparr>st_active = None, st_runner = None, st_queued = [], st_done = 0, st_total = 0\<rparr>"

datatype outcome = Completed | Cancelled | Stopped | Unavailable string | Timed_Out_Refresh | Cold

text \<open>The flag is the batch of the refresh to stop, \<open>CANCEL_ALL\<close>, or zero.\<close>

record 'i worker =
  wk_config :: "'i catalog_config"
  wk_catalog :: "'i catalog"
  wk_queue :: "request list"
  wk_status :: status
  wk_interrupted :: bool
  wk_batch :: nat
  wk_profile :: nat
  wk_session :: "nat option"
  wk_live :: "nat list"
  wk_resume :: bool
  wk_last_refresh :: "nat option"
  wk_automatic :: bool
  wk_flag :: nat
  wk_running :: "(nat \<times> nat) option"
  wk_stopped :: bool

definition CANCEL_ALL :: nat where "CANCEL_ALL = 18446744073709551615"

definition worker_new :: "'i catalog_config \<Rightarrow> 'i worker" where
  "worker_new config =
     \<lparr>wk_config = config, wk_catalog = catalog_empty (cf_id config) (cf_identity config), wk_queue = [],
      wk_status = status_default, wk_interrupted = False, wk_batch = 0,
      wk_profile = (case cf_members config of [] \<Rightarrow> 0 | m # _ \<Rightarrow> m), wk_session = None, wk_live = [],
      wk_resume = False, wk_last_refresh = None, wk_automatic = False, wk_flag = 0, wk_running = None,
      wk_stopped = False\<rparr>"

section \<open>The status that a member sees\<close>

definition status_includes :: "status \<Rightarrow> scope \<Rightarrow> bool" where
  "status_includes s x \<longleftrightarrow> st_active s = Some x \<or> list_ex (\<lambda>q. rq_scope q = x) (st_queued s)"

definition status_idle :: "status \<Rightarrow> bool" where
  "status_idle s \<longleftrightarrow> st_active s = None \<and> st_queued s = []"

definition status_of_member :: "nat \<Rightarrow> status \<Rightarrow> status" where
  "status_of_member member s =
     (let runs = (st_runner s = Some member) in
      \<lparr>st_active = (if runs then st_active s else None),
       st_runner = (if runs then st_runner s else None),
       st_queued = filter (\<lambda>q. rq_member q = member) (st_queued s),
       st_done = (if runs then st_done s else 0),
       st_total = (if runs then st_total s else 0)\<rparr>)"

section \<open>Automatic refreshes\<close>

text \<open>Times are in the unit of \<open>minute\<close>; a catalog that was never read is due at the epoch.\<close>

definition refresh_due :: "catalog_settings \<Rightarrow> bool \<Rightarrow> nat option \<Rightarrow> nat \<Rightarrow> nat option" where
  "refresh_due settings warm previous minute =
     (if cs_refresh settings \<noteq> WhileConnected \<or> \<not> warm then None
      else Some (case previous of None \<Rightarrow> 0 | Some l \<Rightarrow> l + minute * cs_refresh_minutes settings))"

definition automatic_runner :: "'i worker \<Rightarrow> nat option" where
  "automatic_runner w =
     (let preferred = (case cf_preferred (wk_config w) of
            Some p \<Rightarrow> if p \<in> set (wk_live w) then Some p else None | None \<Rightarrow> None);
          chosen = (case preferred of
            Some p \<Rightarrow> Some p
          | None \<Rightarrow> List.find (\<lambda>m. m \<in> set (wk_live w)) (cf_members (wk_config w))) in
      case chosen of
        Some m \<Rightarrow> if m \<in> set (cf_members (wk_config w)) then Some m else None
      | None \<Rightarrow> None)"

section \<open>Commands\<close>

definition set_queue :: "request list \<Rightarrow> 'i worker \<Rightarrow> 'i worker" where
  "set_queue q w = w\<lparr>wk_queue := q, wk_status := (wk_status w)\<lparr>st_queued := q\<rparr>\<rparr>"

definition pending_scopes :: "'i worker \<Rightarrow> scope list" where
  "pending_scopes w =
     (case st_active (wk_status w) of None \<Rightarrow> [] | Some s \<Rightarrow> [s]) @ map rq_scope (wk_queue w)"

definition handle_refresh :: "request \<Rightarrow> 'i worker \<Rightarrow> 'i worker" where
  "handle_refresh r w =
     (if rq_member r \<notin> set (cf_members (wk_config w)) then w
      else if list_ex (\<lambda>s. covers s (rq_scope r)) (pending_scopes w) then w
      else set_queue (filter (\<lambda>q. \<not> covers (rq_scope r) (rq_scope q)) (wk_queue w) @ [r]) w)"

definition handle_if_unloaded :: "nat \<Rightarrow> 'i worker \<Rightarrow> 'i worker" where
  "handle_if_unloaded member w =
     (if ca_fetched_at (wk_catalog w) = None
      then handle_refresh \<lparr>rq_member = member, rq_scope = Connection_Scope\<rparr> w else w)"

definition handle_cancel_all :: "'i worker \<Rightarrow> 'i worker" where
  "handle_cancel_all w = set_queue [] (w\<lparr>wk_flag := 0, wk_interrupted := True\<rparr>)"

definition handle_cancel_member :: "nat \<Rightarrow> 'i worker \<Rightarrow> 'i worker" where
  "handle_cancel_member member w =
     (let active = (st_active (wk_status w) \<noteq> None);
          w = w\<lparr>wk_flag := (if wk_flag w \<noteq> CANCEL_ALL \<and> \<not> (active \<and> wk_flag w = wk_batch w) then 0 else wk_flag w),
                wk_interrupted := (wk_interrupted w \<or> active \<and> wk_profile w = member)\<rparr> in
      set_queue (filter (\<lambda>q. rq_member q \<noteq> member) (wk_queue w)) w)"

definition shown_by :: "(string \<Rightarrow> string) \<Rightarrow> catalog_settings \<Rightarrow> string \<Rightarrow> bool" where
  "shown_by lower settings nm \<longleftrightarrow> shows_schema lower settings nm = Some True"

definition handle_configure :: "(string \<Rightarrow> string) \<Rightarrow> 'i catalog_config \<Rightarrow> bool \<Rightarrow> 'i worker \<Rightarrow> 'i worker" where
  "handle_configure lower config stale w =
     (let w1 =
        (if ca_identity (wk_catalog w) \<noteq> cf_identity config
         then w\<lparr>wk_session := None, wk_catalog := catalog_empty (cf_id config) (cf_identity config),
                wk_last_refresh := None, wk_resume := False\<rparr>
         else
           w\<lparr>wk_session := (if (case wk_session w of None \<Rightarrow> False | Some m \<Rightarrow> m \<notin> set (cf_members config) \<or> stale)
                            then None else wk_session w),
             wk_catalog := (if cf_settings config \<noteq> cf_settings (wk_config w)
                            then catalog_retain (shown_by lower (cf_settings config)) (wk_catalog w)
                            else wk_catalog w)\<rparr>) in
      set_queue (filter (\<lambda>q. rq_member q \<in> set (cf_members config)) (wk_queue w1))
        (w1\<lparr>wk_live := filter (\<lambda>m. m \<in> set (cf_members config)) (wk_live w1), wk_config := config\<rparr>))"

definition handle_set_live :: "nat \<Rightarrow> bool \<Rightarrow> 'i worker \<Rightarrow> 'i worker" where
  "handle_set_live member live w =
     (if live then
        w\<lparr>wk_resume := (wk_resume w \<or> wk_live w = [] \<and> member \<in> set (cf_members (wk_config w))
             \<and> (ca_unfinished (wk_catalog w) \<noteq> None \<or> st_active (wk_status w) = Some Connection_Scope)),
          wk_live := List.insert member (wk_live w)\<rparr>
      else w\<lparr>wk_live := removeAll member (wk_live w)\<rparr>)"

text \<open>A catalog that was read before: the cache file, or the seed of a new shared catalog.\<close>

definition adopt :: "(string \<Rightarrow> string) \<Rightarrow> 'i catalog \<Rightarrow> 'i worker \<Rightarrow> 'i worker" where
  "adopt lower c w =
     (let c = catalog_retain (shown_by lower (cf_settings (wk_config w)))
                (c\<lparr>ca_owner := cf_id (wk_config w), ca_identity := cf_identity (wk_config w)\<rparr>) in
      w\<lparr>wk_last_refresh := ca_fetched_at c, wk_catalog := c, wk_resume := False\<rparr>)"

definition handle_seed :: "(string \<Rightarrow> string) \<Rightarrow> 'i catalog option \<Rightarrow> 'i worker \<Rightarrow> 'i worker" where
  "handle_seed lower seed w =
     (case seed of
        None \<Rightarrow> w
      | Some c \<Rightarrow>
          if ca_fetched_at (wk_catalog w) = None \<and> ca_fetched_at c \<noteq> None
          then (let w = adopt lower c w in w\<lparr>wk_catalog := (wk_catalog w)\<lparr>ca_error := None\<rparr>\<rparr>)
          else w)"

section \<open>The loop of the worker\<close>

text \<open>The start of the next refresh; a request of a member that left is skipped.\<close>

fun start_next :: "'i worker \<Rightarrow> request list \<Rightarrow> 'i worker" where
  "start_next w [] = w\<lparr>wk_queue := []\<rparr>"
| "start_next w (r # rs) =
     (if rq_member r \<notin> set (cf_members (wk_config w)) then start_next w rs
      else
        w\<lparr>wk_queue := rs, wk_profile := rq_member r, wk_batch := wk_batch w + 1,
          wk_running := Some (wk_batch w + 1, rq_member r),
          wk_status := \<lparr>st_active = Some (rq_scope r), st_runner = Some (rq_member r), st_queued = rs,
                         st_done = 0, st_total = 0\<rparr>,
          wk_interrupted := False\<rparr>)"

text \<open>Each error gets an identifier of its own.\<close>

fun fail_scopes :: "request list \<Rightarrow> string \<Rightarrow> nat \<Rightarrow> nat \<Rightarrow> 'i catalog \<Rightarrow> 'i catalog" where
  "fail_scopes [] message member fresh c = c"
| "fail_scopes (r # rs) message member fresh c =
     fail_scopes rs message member (fresh + 1) (set_error (rq_scope r) message member fresh c)"

definition finish :: "outcome \<Rightarrow> string \<Rightarrow> nat \<Rightarrow> 'i worker \<Rightarrow> 'i worker" where
  "finish result timeout_text fresh w =
     (case st_active (wk_status w) of
        None \<Rightarrow> w
      | Some active \<Rightarrow>
          (let cancelled_all = (wk_flag w = CANCEL_ALL);
               member = wk_profile w;
               w = w\<lparr>wk_automatic := False, wk_running := None,
                     wk_flag := (if wk_flag w = wk_batch w then 0 else wk_flag w)\<rparr> in
           if result = Stopped then w\<lparr>wk_stopped := True\<rparr>
           else
             (let w =
                (case result of
                   Cancelled \<Rightarrow>
                     w\<lparr>wk_queue := (if cancelled_all then [] else filter (\<lambda>q. rq_member q \<noteq> member) (wk_queue w))\<rparr>
                 | Unavailable message \<Rightarrow>
                     w\<lparr>wk_catalog := fail_scopes (filter (\<lambda>q. rq_member q = member) (wk_queue w)) message member (fresh + 1)
                                        (set_error active message member fresh (wk_catalog w)),
                       wk_queue := filter (\<lambda>q. rq_member q \<noteq> member) (wk_queue w), wk_session := None\<rparr>
                 | Timed_Out_Refresh \<Rightarrow>
                     w\<lparr>wk_catalog := set_error active timeout_text member fresh (wk_catalog w), wk_session := None\<rparr>
                 | _ \<Rightarrow> w) in
              w\<lparr>wk_status := status_default\<lparr>st_queued := wk_queue w\<rparr>\<rparr>)))"

text \<open>
  The window's side: a flag for all refreshes, or for the batch that the member runs. Its reading of
  the running batch and the exchange of the flag are one step.
\<close>

definition ui_cancel :: "'i worker \<Rightarrow> 'i worker" where
  "ui_cancel w = w\<lparr>wk_flag := CANCEL_ALL\<rparr>"

definition ui_stop :: "nat \<Rightarrow> 'i worker \<Rightarrow> 'i worker" where
  "ui_stop member w =
     (case wk_running w of
        Some (batch, runner) \<Rightarrow> if runner = member \<and> wk_flag w = 0 then w\<lparr>wk_flag := batch\<rparr> else w
      | None \<Rightarrow> w)"

definition cancel_requested :: "'i worker \<Rightarrow> bool" where
  "cancel_requested w \<longleftrightarrow> wk_flag w = CANCEL_ALL \<or> wk_flag w = wk_batch w"

definition is_cold :: "'i worker \<Rightarrow> bool" where
  "is_cold w \<longleftrightarrow> wk_automatic w \<and> wk_profile w \<notin> set (wk_live w)"

text \<open>What a checkpoint of a refresh decides after the waiting commands.\<close>

definition checkpoint :: "bool \<Rightarrow> 'i worker \<Rightarrow> outcome option" where
  "checkpoint expired w =
     (if wk_stopped w then Some Stopped
      else if wk_interrupted w \<or> cancel_requested w then Some Cancelled
      else if expired then Some Timed_Out_Refresh
      else if is_cold w then Some Cold
      else None)"

datatype 'i worker_op =
    Refresh_Cmd request | Refresh_If_Unloaded nat | Cancel_All_Cmd | Cancel_Member_Cmd nat
  | Configure_Cmd "'i catalog_config" bool | Set_Live nat bool | Seed_Cmd "'i catalog option" | Stop_Cmd
  | Start_Next | Finish outcome string nat | Ui_Cancel | Ui_Stop nat

fun worker_step :: "(string \<Rightarrow> string) \<Rightarrow> 'i worker_op \<Rightarrow> 'i worker \<Rightarrow> 'i worker" where
  "worker_step lower (Refresh_Cmd r) w = handle_refresh r w"
| "worker_step lower (Refresh_If_Unloaded m) w = handle_if_unloaded m w"
| "worker_step lower Cancel_All_Cmd w = handle_cancel_all w"
| "worker_step lower (Cancel_Member_Cmd m) w = handle_cancel_member m w"
| "worker_step lower (Configure_Cmd config stale) w = handle_configure lower config stale w"
| "worker_step lower (Set_Live m live) w = handle_set_live m live w"
| "worker_step lower (Seed_Cmd seed) w = handle_seed lower seed w"
| "worker_step lower Stop_Cmd w = w\<lparr>wk_stopped := True\<rparr>"
| "worker_step lower Start_Next w = (if st_active (wk_status w) = None then start_next w (wk_queue w) else w)"
| "worker_step lower (Finish result nm fresh) w = finish result nm fresh w"
| "worker_step lower Ui_Cancel w = ui_cancel w"
| "worker_step lower (Ui_Stop m) w = ui_stop m w"

section \<open>The invariant of the queue\<close>

definition apart :: "request \<Rightarrow> request \<Rightarrow> bool" where
  "apart a b \<longleftrightarrow> \<not> covers (rq_scope a) (rq_scope b) \<and> \<not> covers (rq_scope b) (rq_scope a)"

definition queue_ok :: "scope option \<Rightarrow> nat list \<Rightarrow> request list \<Rightarrow> bool" where
  "queue_ok active members q \<longleftrightarrow>
     sorted_wrt apart q \<and> (\<forall>r \<in> set q. rq_member r \<in> set members)
     \<and> (\<forall>s. active = Some s \<longrightarrow> (\<forall>r \<in> set q. \<not> covers s (rq_scope r)))"

definition worker_ok :: "'i worker \<Rightarrow> bool" where
  "worker_ok w \<longleftrightarrow>
     queue_ok (st_active (wk_status w)) (cf_members (wk_config w)) (wk_queue w)
     \<and> st_queued (wk_status w) = wk_queue w"

lemma covers_refl [simp]: "covers s s"
  by (cases s) simp_all

lemma covers_trans: "covers a b \<Longrightarrow> covers b c \<Longrightarrow> covers a c"
  by (cases a; cases b; cases c) auto

lemma queue_ok_filter: "queue_ok active members q \<Longrightarrow> queue_ok active members (filter p q)"
  by (auto simp: queue_ok_def sorted_wrt_filter)

lemma queue_ok_idle: "queue_ok active members q \<Longrightarrow> queue_ok None members q"
  by (simp add: queue_ok_def)

lemma queue_ok_members:
  "queue_ok active members q \<Longrightarrow> queue_ok active ms (filter (\<lambda>r. rq_member r \<in> set ms) q)"
  by (auto simp: queue_ok_def sorted_wrt_filter)

lemma set_queue_simps [simp]:
  "wk_queue (set_queue q w) = q" "wk_config (set_queue q w) = wk_config w"
  "st_active (wk_status (set_queue q w)) = st_active (wk_status w)"
  "st_queued (wk_status (set_queue q w)) = q"
  by (simp_all add: set_queue_def)

lemma worker_ok_set_queue:
  "queue_ok (st_active (wk_status w)) (cf_members (wk_config w)) q \<Longrightarrow> worker_ok (set_queue q w)"
  by (simp add: worker_ok_def)

lemma worker_ok_cong:
  "wk_queue w1 = wk_queue w \<Longrightarrow> wk_status w1 = wk_status w \<Longrightarrow> wk_config w1 = wk_config w \<Longrightarrow>
     worker_ok w1 = worker_ok w"
  by (simp add: worker_ok_def)

lemma worker_ok_refresh:
  assumes "worker_ok w"
  shows "worker_ok (handle_refresh r w)"
proof (cases "rq_member r \<in> set (cf_members (wk_config w))
    \<and> \<not> list_ex (\<lambda>s. covers s (rq_scope r)) (pending_scopes w)")
  case True
  from assms have q: "queue_ok (st_active (wk_status w)) (cf_members (wk_config w)) (wk_queue w)"
    by (simp add: worker_ok_def)
  from True have new: "\<forall>x \<in> set (wk_queue w). \<not> covers (rq_scope x) (rq_scope r)"
    "\<forall>s. st_active (wk_status w) = Some s \<longrightarrow> \<not> covers s (rq_scope r)"
    by (auto simp: pending_scopes_def list_ex_iff)
  have "queue_ok (st_active (wk_status w)) (cf_members (wk_config w))
      (filter (\<lambda>x. \<not> covers (rq_scope r) (rq_scope x)) (wk_queue w) @ [r])"
    using q new True by (auto simp: queue_ok_def sorted_wrt_append sorted_wrt_filter apart_def)
  with True show ?thesis by (auto simp: handle_refresh_def intro: worker_ok_set_queue)
qed (use assms in \<open>auto simp: handle_refresh_def\<close>)

lemma worker_ok_configure:
  assumes "worker_ok w"
  shows "worker_ok (handle_configure lower config stale w)"
  using assms by (auto simp: handle_configure_def Let_def worker_ok_def intro: queue_ok_members)

lemma worker_ok_start:
  assumes "worker_ok w" "queue_ok None (cf_members (wk_config w)) q" "st_active (wk_status w) = None"
  shows "worker_ok (start_next w q) \<or> q = []"
  using assms(2)
proof (cases q)
  case (Cons r rs)
  with assms(2) have "rq_member r \<in> set (cf_members (wk_config w))" by (simp add: queue_ok_def)
  moreover have "queue_ok (Some (rq_scope r)) (cf_members (wk_config w)) rs"
    using assms(2) Cons by (auto simp: queue_ok_def apart_def)
  ultimately show ?thesis using Cons by (simp add: worker_ok_def)
qed simp

lemma worker_ok_finish:
  assumes "worker_ok w"
  shows "worker_ok (finish result nm fresh w)"
proof -
  from assms have q: "queue_ok (st_active (wk_status w)) (cf_members (wk_config w)) (wk_queue w)"
    "st_queued (wk_status w) = wk_queue w" by (simp_all add: worker_ok_def)
  note idle = queue_ok_idle [OF q(1)]
  have nil: "queue_ok a m []" for a m by (simp add: queue_ok_def)
  show ?thesis
    by (cases result)
      (use q idle nil in \<open>auto simp: finish_def Let_def worker_ok_def status_default_def queue_ok_filter split: option.split\<close>)
qed

lemma worker_ok_step:
  assumes "worker_ok w"
  shows "worker_ok (worker_step lower op w)"
proof (cases op)
  case Start_Next
  from assms have q: "queue_ok (st_active (wk_status w)) (cf_members (wk_config w)) (wk_queue w)"
    by (simp add: worker_ok_def)
  show ?thesis
  proof (cases "st_active (wk_status w) = None")
    case True
    with worker_ok_start [OF assms, of "wk_queue w"] q assms Start_Next show ?thesis
      by (cases "wk_queue w") (auto simp: worker_ok_def)
  qed (use assms Start_Next in auto)
next
  case (Cancel_Member_Cmd m)
  with assms show ?thesis
    by (auto simp: handle_cancel_member_def Let_def worker_ok_def queue_ok_filter)
next
  case Cancel_All_Cmd
  with assms show ?thesis by (auto simp: handle_cancel_all_def worker_ok_def queue_ok_def)
next
  case (Seed_Cmd seed)
  with assms show ?thesis
    by (auto simp: handle_seed_def adopt_def Let_def worker_ok_def split: option.split)
next
  case (Set_Live m live)
  with assms show ?thesis by (simp add: handle_set_live_def worker_ok_def)
next
  case (Ui_Stop m)
  with assms show ?thesis by (auto simp: ui_stop_def worker_ok_def split: option.split)
qed (use assms in \<open>auto simp: worker_ok_refresh worker_ok_configure worker_ok_finish handle_if_unloaded_def
      ui_cancel_def worker_ok_cong [of "w\<lparr>wk_stopped := True\<rparr>" w] worker_ok_cong [of "w\<lparr>wk_flag := CANCEL_ALL\<rparr>" w]\<close>)

lemma worker_ok_new: "worker_ok (worker_new config)"
  by (simp add: worker_ok_def worker_new_def status_default_def queue_ok_def)

interpretation worker_runs: kept_invariant "worker_new config" "worker_step lower" worker_ok
  for config lower
  by unfold_locales (rule worker_ok_new, rule worker_ok_step)

section \<open>Requests are not lost\<close>

definition covered :: "scope \<Rightarrow> 'i worker \<Rightarrow> bool" where
  "covered s w \<longleftrightarrow> (\<exists>t \<in> set (pending_scopes w). covers t s)"

lemma covered_after_refresh:
  "rq_member r \<in> set (cf_members (wk_config w)) \<Longrightarrow> covered (rq_scope r) (handle_refresh r w)"
  by (auto simp: handle_refresh_def covered_def list_ex_iff pending_scopes_def)

lemma covered_kept:
  assumes "covered s w"
  shows "covered s (handle_refresh r w)"
proof -
  from assms obtain t where t: "t \<in> set (pending_scopes w)" "covers t s" by (auto simp: covered_def)
  show ?thesis
  proof (cases "t \<in> set (pending_scopes (handle_refresh r w))")
    case True
    with t(2) show ?thesis by (auto simp: covered_def)
  next
    case False
    with t(1) have "covers (rq_scope r) t" "rq_scope r \<in> set (pending_scopes (handle_refresh r w))"
      by (auto simp: handle_refresh_def pending_scopes_def split: if_splits)
    with t(2) show ?thesis by (auto simp: covered_def intro: covers_trans)
  qed
qed

lemma covered_seed: "pending_scopes (handle_seed lower seed w) = pending_scopes w"
  by (auto simp: handle_seed_def adopt_def Let_def pending_scopes_def split: option.split)

text \<open>The commands and events that end no refresh and take back no request.\<close>

fun keeps_requests :: "'i worker_op \<Rightarrow> bool" where
  "keeps_requests (Refresh_Cmd r) \<longleftrightarrow> True"
| "keeps_requests (Refresh_If_Unloaded m) \<longleftrightarrow> True"
| "keeps_requests (Set_Live m live) \<longleftrightarrow> True"
| "keeps_requests (Seed_Cmd seed) \<longleftrightarrow> True"
| "keeps_requests Start_Next \<longleftrightarrow> True"
| "keeps_requests Ui_Cancel \<longleftrightarrow> True"
| "keeps_requests (Ui_Stop m) \<longleftrightarrow> True"
| "keeps_requests op \<longleftrightarrow> False"

lemma covered_start:
  assumes "worker_ok w" "covered s w" "st_active (wk_status w) = None"
  shows "covered s (start_next w (wk_queue w))"
proof (cases "wk_queue w")
  case Nil
  with assms show ?thesis by (simp add: covered_def pending_scopes_def)
next
  case (Cons r rs)
  with assms(1) have "rq_member r \<in> set (cf_members (wk_config w))"
    by (simp add: worker_ok_def queue_ok_def)
  with assms Cons show ?thesis by (simp add: covered_def pending_scopes_def)
qed

lemma covered_step:
  assumes "worker_ok w" "covered s w" "keeps_requests op"
  shows "covered s (worker_step lower op w)"
proof (cases op)
  case (Set_Live m live)
  with assms show ?thesis by (simp add: handle_set_live_def covered_def pending_scopes_def)
next
  case (Ui_Stop m)
  with assms show ?thesis by (auto simp: ui_stop_def covered_def pending_scopes_def split: option.split)
next
  case Ui_Cancel
  with assms show ?thesis by (simp add: ui_cancel_def covered_def pending_scopes_def)
next
  case (Seed_Cmd seed)
  with assms show ?thesis by (simp add: covered_def covered_seed)
next
  case Start_Next
  with assms show ?thesis by (auto intro: covered_start)
qed (use assms in \<open>auto simp: covered_kept handle_if_unloaded_def\<close>)

lemma covered_run:
  assumes "worker_ok w" "covered s w" "list_all keeps_requests ops"
  shows "worker_ok (run_from (worker_step lower) w ops) \<and> covered s (run_from (worker_step lower) w ops)"
  using assms(3)
  by (induction ops rule: rev_induct) (auto simp: assms worker_ok_step covered_step)

text \<open>
  C16. A refresh that is asked for is done once: after any commands, events and outcomes no two
  waiting refreshes of a worker cover each other and the one in progress covers none of them, every
  waiting refresh belongs to a connection of the catalog, and the status shows exactly the queue. A
  request of a member is covered by the refresh in progress or a waiting one from then on, until a
  refresh ends, a cancellation, or a new configuration.
\<close>

theorem refreshes_are_covered_once:
  "let w = run_from (worker_step lower) (worker_new config) ops;
       w1 = run_from (worker_step lower) (handle_refresh r w) later in
     sorted_wrt apart (wk_queue w)
     \<and> (\<forall>s q. st_active (wk_status w) = Some s \<longrightarrow> q \<in> set (wk_queue w) \<longrightarrow> \<not> covers s (rq_scope q))
     \<and> rq_member ` set (wk_queue w) \<subseteq> set (cf_members (wk_config w))
     \<and> st_queued (wk_status w) = wk_queue w
     \<and> (rq_member r \<in> set (cf_members (wk_config w)) \<longrightarrow> list_all keeps_requests later \<longrightarrow> covered (rq_scope r) w1)"
proof -
  let ?w = "run_from (worker_step lower) (worker_new config) ops"
  have ok: "worker_ok ?w" by (rule worker_runs.inv_run)
  then have "sorted_wrt apart (wk_queue ?w)"
    "\<forall>s q. st_active (wk_status ?w) = Some s \<longrightarrow> q \<in> set (wk_queue ?w) \<longrightarrow> \<not> covers s (rq_scope q)"
    "rq_member ` set (wk_queue ?w) \<subseteq> set (cf_members (wk_config ?w))"
    "st_queued (wk_status ?w) = wk_queue ?w"
    by (auto simp: worker_ok_def queue_ok_def)
  moreover have "covered (rq_scope r) (run_from (worker_step lower) (handle_refresh r ?w) later)"
    if "rq_member r \<in> set (cf_members (wk_config ?w))" "list_all keeps_requests later"
    using covered_run [OF worker_ok_refresh [OF ok] covered_after_refresh [OF that(1)] that(2)] by blast
  ultimately show ?thesis unfolding Let_def by blast
qed

definition sample_config :: "nat catalog_config" where
  "sample_config =
     \<lparr>cf_id = 9, cf_members = [1, 2], cf_settings = catalog_settings_default, cf_preferred = None, cf_identity = None\<rparr>"

definition sample_ops :: "nat worker_op list" where
  "sample_ops =
     [Refresh_Cmd \<lparr>rq_member = 1, rq_scope = Relation_Scope ''s'' ''t''\<rparr>,
      Refresh_Cmd \<lparr>rq_member = 2, rq_scope = Relation_Scope ''u'' ''t''\<rparr>, Start_Next,
      Refresh_Cmd \<lparr>rq_member = 1, rq_scope = Schema_Scope ''u''\<rparr>]"

theorem refreshes_are_covered_once_witness:
  "wk_queue (run_from (worker_step to_ascii_lowercase) (worker_new sample_config) sample_ops)
      = [\<lparr>rq_member = 1, rq_scope = Schema_Scope ''u''\<rparr>]
   \<and> covered (Relation_Scope ''u'' ''x'')
       (run_from (worker_step to_ascii_lowercase)
          (handle_refresh \<lparr>rq_member = 2, rq_scope = Relation_Scope ''u'' ''x''\<rparr>
             (run_from (worker_step to_ascii_lowercase) (worker_new sample_config) sample_ops))
          [Refresh_Cmd \<lparr>rq_member = 2, rq_scope = Connection_Scope\<rparr>, Ui_Cancel])"
proof (rule conjI)
  show "wk_queue (run_from (worker_step to_ascii_lowercase) (worker_new sample_config) sample_ops)
      = [\<lparr>rq_member = 1, rq_scope = Schema_Scope ''u''\<rparr>]" by code_simp
  have "2 \<in> set (cf_members (wk_config (run_from (worker_step to_ascii_lowercase) (worker_new sample_config) sample_ops)))"
    by code_simp
  then show "covered (Relation_Scope ''u'' ''x'')
       (run_from (worker_step to_ascii_lowercase)
          (handle_refresh \<lparr>rq_member = 2, rq_scope = Relation_Scope ''u'' ''x''\<rparr>
             (run_from (worker_step to_ascii_lowercase) (worker_new sample_config) sample_ops))
          [Refresh_Cmd \<lparr>rq_member = 2, rq_scope = Connection_Scope\<rparr>, Ui_Cancel])"
    using refreshes_are_covered_once [of to_ascii_lowercase sample_config sample_ops
        "\<lparr>rq_member = 2, rq_scope = Relation_Scope ''u'' ''x''\<rparr>"
        "[Refresh_Cmd \<lparr>rq_member = 2, rq_scope = Connection_Scope\<rparr>, Ui_Cancel]"]
    unfolding Let_def by simp
qed

end
