(* ===== verification/Transcripts.thy ===== *)
theory Transcripts
  imports Rust_Str "HOL-Library.Sublist"
begin

text \<open>
  The transcripts of the assistant (\<open>src/assistant/transcripts.rs\<close>): the file of a conversation, a
  header line and one line for each entry, and the writer thread that saves and deletes the files.

  The JSON form of a header and of an entry is the serde\_json crate's and a parameter. A UUID is a
  number. The outcome of each disk operation is an argument of the step that makes it.
\<close>

section \<open>Entries\<close>

definition TRANSCRIPT_VERSION :: nat where "TRANSCRIPT_VERSION = 1"
definition MAX_TRANSCRIPT_BYTES :: nat where "MAX_TRANSCRIPT_BYTES = 8 * 1024 * 1024"
definition MAX_ENTRY_BYTES :: nat where "MAX_ENTRY_BYTES = 1024 * 1024"

definition LINE_FEED :: char where "LINE_FEED = CHR 0x0A"

definition TRUNCATION_NOTE :: string where
  "TRUNCATION_NOTE = [LINE_FEED, LINE_FEED] @ ''[Qrow saved only the start of this text.]''"

datatype stored_speaker = Speaker_User | Speaker_Assistant | Speaker_Activity | Speaker_Error

datatype stored_tool_state =
    Tool_Running string | Tool_Done "string option" | Tool_Query_Result nat bool "nat option" | Tool_Failed
  | Tool_Cancelled

record stored_tool =
  tl_name :: string
  tl_target :: "string option"
  tl_state :: stored_tool_state

record stored_entry =
  en_id :: nat
  en_speaker :: stored_speaker
  en_text :: string
  en_turn_id :: "string option"
  en_tool :: "stored_tool option"
  en_detail :: "string option"

record stored_transcript =
  tr_entries :: "stored_entry list"
  tr_older_cursor :: "string option"

record transcript_header =
  hd_version :: nat
  hd_older_cursor :: "string option"

text \<open>The codec of serde\_json for the two kinds of lines.\<close>

record transcript_codec =
  write_header :: "transcript_header \<Rightarrow> string"
  write_entry :: "stored_entry \<Rightarrow> string option"
  read_header :: "string \<Rightarrow> transcript_header option"
  read_entry :: "string \<Rightarrow> stored_entry option"

section \<open>Paths\<close>

definition safe_thread_id :: "string \<Rightarrow> bool" where
  "safe_thread_id t \<longleftrightarrow>
     t \<noteq> [] \<and> length t \<le> 128 \<and> hd t \<noteq> CHR ''.''
     \<and> list_all (\<lambda>c. is_ascii_alphanumeric c \<or> c = CHR ''-'' \<or> c = CHR ''_'' \<or> c = CHR ''.'') t"

definition transcript_path :: "string \<Rightarrow> string \<Rightarrow> string option" where
  "transcript_path directory t =
     (if safe_thread_id t then Some (directory @ ''/'' @ t @ ''.jsonl'') else None)"

section \<open>Encoding\<close>

fun cut_end :: "string \<Rightarrow> nat \<Rightarrow> nat" where
  "cut_end s 0 = 0"
| "cut_end s (Suc n) = (if is_char_boundary s (Suc n) then Suc n else cut_end s n)"

definition cut :: "string \<Rightarrow> string" where
  "cut s =
     (if length s \<le> MAX_ENTRY_BYTES div 2 then s
      else take (cut_end s (MAX_ENTRY_BYTES div 2)) s @ TRUNCATION_NOTE)"

definition entry_size :: "stored_entry \<Rightarrow> nat" where
  "entry_size e = length (en_text e) + (case en_detail e of None \<Rightarrow> 0 | Some d \<Rightarrow> length d)"

definition bounded :: "stored_entry \<Rightarrow> stored_entry" where
  "bounded e =
     (if entry_size e \<le> MAX_ENTRY_BYTES then e
      else e\<lparr>en_text := cut (en_text e), en_detail := map_option cut (en_detail e)\<rparr>)"

definition header_line :: "transcript_codec \<Rightarrow> string option \<Rightarrow> string" where
  "header_line c older = write_header c \<lparr>hd_version = TRANSCRIPT_VERSION, hd_older_cursor = older\<rparr> @ [LINE_FEED]"

text \<open>The loop over the entries from the newest on.\<close>

fun entry_lines :: "transcript_codec \<Rightarrow> nat \<Rightarrow> nat \<Rightarrow> string list \<Rightarrow> stored_entry list \<Rightarrow> string list" where
  "entry_lines c limit used lines [] = lines"
| "entry_lines c limit used lines (e # es) =
     (case write_entry c (bounded e) of
        None \<Rightarrow> entry_lines c limit used lines es
      | Some l \<Rightarrow>
          if limit < used + length (l @ [LINE_FEED]) then lines
          else entry_lines c limit (used + length (l @ [LINE_FEED])) ((l @ [LINE_FEED]) # lines) es)"

definition encode_with_limit :: "transcript_codec \<Rightarrow> stored_transcript \<Rightarrow> nat \<Rightarrow> string" where
  "encode_with_limit c t limit =
     (let full_header = header_line c (tr_older_cursor t);
          lines = entry_lines c limit (length full_header) [] (rev (tr_entries t));
          header = (if length lines = length (tr_entries t) then full_header else header_line c None)
      in header @ concat lines)"

definition encode_transcript :: "transcript_codec \<Rightarrow> stored_transcript \<Rightarrow> string" where
  "encode_transcript c t = encode_with_limit c t MAX_TRANSCRIPT_BYTES"

definition decode_transcript :: "transcript_codec \<Rightarrow> string \<Rightarrow> stored_transcript option" where
  "decode_transcript c bytes =
     (let lines = split_char LINE_FEED bytes in
      Option.bind (read_header c (hd lines))
        (\<lambda>h. if hd_version h = TRANSCRIPT_VERSION
             then Some \<lparr>tr_entries = List.map_filter (read_entry c) (filter (\<lambda>l. l \<noteq> []) (tl lines)),
                        tr_older_cursor = hd_older_cursor h\<rparr>
             else None))"

definition load_transcript ::
  "transcript_codec \<Rightarrow> string \<Rightarrow> (string \<Rightarrow> string option) \<Rightarrow> string \<Rightarrow> stored_transcript option" where
  "load_transcript c directory files t =
     Option.bind (transcript_path directory t) (\<lambda>p. Option.bind (files p) (decode_transcript c))"

section \<open>The writer thread\<close>

datatype transcript_job = Job_Save string string string | Job_Delete string string | Job_Flush nat

text \<open>A failed operation may have changed the file before it failed.\<close>

datatype disk_outcome = Disk_Done | Disk_Refused bool

text \<open>
  \<open>ts_batch\<close> is the batch in work: the files still to write and the flushes still to answer, in order.
  The last four fields are the history: the jobs sent, those of the batches that are done, those of
  the batch in work, and the conversations that \<open>take_failed\<close> has returned and that were not saved since.
\<close>

record transcript_store =
  ts_queue :: "transcript_job list"
  ts_batch :: "((string \<times> string \<times> string option) list \<times> nat list) option"
  ts_files :: "string \<Rightarrow> string option"
  ts_failed :: "string set"
  ts_answered :: "nat list"
  ts_sent :: "transcript_job list"
  ts_done :: "transcript_job list"
  ts_working :: "transcript_job list"
  ts_reported :: "string set"

definition store_new :: "(string \<Rightarrow> string option) \<Rightarrow> transcript_store" where
  "store_new files =
     \<lparr>ts_queue = [], ts_batch = None, ts_files = files, ts_failed = {}, ts_answered = [], ts_sent = [],
      ts_done = [], ts_working = [], ts_reported = {}\<rparr>"

definition send_job :: "transcript_job \<Rightarrow> transcript_store \<Rightarrow> transcript_store" where
  "send_job j s = s\<lparr>ts_queue := ts_queue s @ [j], ts_sent := ts_sent s @ [j]\<rparr>"

definition save_transcript :: "string \<Rightarrow> string \<Rightarrow> string \<Rightarrow> transcript_store \<Rightarrow> transcript_store" where
  "save_transcript directory t bytes s =
     (case transcript_path directory t of None \<Rightarrow> s | Some p \<Rightarrow> send_job (Job_Save t p bytes) s)"

definition delete_transcript :: "string \<Rightarrow> string \<Rightarrow> transcript_store \<Rightarrow> transcript_store" where
  "delete_transcript directory t s =
     (case transcript_path directory t of None \<Rightarrow> s | Some p \<Rightarrow> send_job (Job_Delete t p) s)"

definition take_failed :: "transcript_store \<Rightarrow> string set \<times> transcript_store" where
  "take_failed s = (ts_failed s, s\<lparr>ts_failed := {}, ts_reported := ts_reported s \<union> ts_failed s\<rparr>)"

definition job_write :: "transcript_job \<Rightarrow> (string \<times> string \<times> string option) option" where
  "job_write j =
     (case j of
        Job_Save t p b \<Rightarrow> Some (t, p, Some b)
      | Job_Delete t p \<Rightarrow> Some (t, p, None)
      | Job_Flush _ \<Rightarrow> None)"

fun last_writes ::
  "(string \<times> string \<times> string option) list \<Rightarrow> transcript_job list \<Rightarrow> (string \<times> string \<times> string option) list" where
  "last_writes last_list [] = last_list"
| "last_writes last_list (j # js) =
     (case job_write j of
        None \<Rightarrow> last_writes last_list js
      | Some (t, p, b) \<Rightarrow> last_writes (filter (\<lambda>(_, earlier, _). earlier \<noteq> p) last_list @ [(t, p, b)]) js)"

definition batch_flushes :: "transcript_job list \<Rightarrow> nat list" where
  "batch_flushes js = List.map_filter (\<lambda>j. case j of Job_Flush f \<Rightarrow> Some f | _ \<Rightarrow> None) js"

text \<open>The job that \<open>recv\<close> returns, and the \<open>n\<close> jobs that \<open>try_iter\<close> still finds.\<close>

definition take_batch :: "nat \<Rightarrow> transcript_store \<Rightarrow> transcript_store" where
  "take_batch n s =
     (if ts_batch s \<noteq> None \<or> ts_queue s = [] then s
      else
        (let jobs = take (Suc n) (ts_queue s) in
         s\<lparr>ts_queue := drop (Suc n) (ts_queue s),
           ts_batch := Some (last_writes [] jobs, batch_flushes jobs),
           ts_working := jobs\<rparr>))"

definition write_file :: "disk_outcome \<Rightarrow> string \<Rightarrow> string option \<Rightarrow> (string \<Rightarrow> string option) \<Rightarrow> (string \<Rightarrow> string option)" where
  "write_file outcome p b files = (if outcome = Disk_Refused False then files else files(p := b))"

definition batch_step :: "disk_outcome \<Rightarrow> transcript_store \<Rightarrow> transcript_store" where
  "batch_step outcome s =
     (case ts_batch s of
        None \<Rightarrow> s
      | Some ([], []) \<Rightarrow> s\<lparr>ts_batch := None, ts_done := ts_done s @ ts_working s, ts_working := []\<rparr>
      | Some ([], f # flushes) \<Rightarrow> s\<lparr>ts_batch := Some ([], flushes), ts_answered := ts_answered s @ [f]\<rparr>
      | Some ((t, p, b) # rest, flushes) \<Rightarrow>
          s\<lparr>ts_batch := Some (rest, flushes), ts_files := write_file outcome p b (ts_files s),
            ts_failed := (if outcome = Disk_Done then ts_failed s - {t} else insert t (ts_failed s)),
            ts_reported := ts_reported s - {t}\<rparr>)"

datatype store_op =
    Save_Transcript string string | Delete_Transcript string | Flush_Store nat | Take_Failed
  | Take_Batch nat | Batch_Step disk_outcome

definition store_step :: "string \<Rightarrow> store_op \<Rightarrow> transcript_store \<Rightarrow> transcript_store" where
  "store_step directory op s =
     (case op of
        Save_Transcript t b \<Rightarrow> save_transcript directory t b s
      | Delete_Transcript t \<Rightarrow> delete_transcript directory t s
      | Flush_Store f \<Rightarrow> send_job (Job_Flush f) s
      | Take_Failed \<Rightarrow> snd (take_failed s)
      | Take_Batch n \<Rightarrow> take_batch n s
      | Batch_Step d \<Rightarrow> batch_step d s)"

section \<open>The entry of a line\<close>

lemma cut_end_le: "cut_end s n \<le> n"
  by (induction n) auto

lemma cut_end_boundary: "is_char_boundary s (cut_end s n)"
  by (induction n) (auto simp: is_char_boundary_def)

lemma cut_length: "length (cut s) \<le> MAX_ENTRY_BYTES div 2 + length TRUNCATION_NOTE"
  using cut_end_le [of s "MAX_ENTRY_BYTES div 2"] by (simp add: cut_def)

lemma bounded_size: "entry_size (bounded e) \<le> MAX_ENTRY_BYTES + 2 * length TRUNCATION_NOTE"
  using cut_length [of "en_text e"] cut_length [of "the (en_detail e)"]
  by (auto simp: bounded_def entry_size_def MAX_ENTRY_BYTES_def split: option.split)

definition line_of :: "transcript_codec \<Rightarrow> stored_entry \<Rightarrow> string option" where
  "line_of c e = write_entry c (bounded e)"

definition line_bytes :: "transcript_codec \<Rightarrow> stored_entry \<Rightarrow> nat" where
  "line_bytes c e = Suc (length (the (line_of c e)))"

definition encodable :: "transcript_codec \<Rightarrow> stored_entry \<Rightarrow> bool" where
  "encodable c e \<longleftrightarrow> line_of c e \<noteq> None"

lemma entry_lines_spec:
  "\<exists>n. entry_lines c limit used lines es
        = rev (map (\<lambda>e. the (line_of c e) @ [LINE_FEED]) (take n (filter (encodable c) es))) @ lines
      \<and> n \<le> length (filter (encodable c) es)
      \<and> (used \<le> limit \<longrightarrow> used + sum_list (map (line_bytes c) (take n (filter (encodable c) es))) \<le> limit)
      \<and> (n < length (filter (encodable c) es) \<longrightarrow>
           limit < used + sum_list (map (line_bytes c) (take (Suc n) (filter (encodable c) es))))"
proof (induction es arbitrary: used lines)
  case (Cons e es)
  show ?case
  proof (cases "write_entry c (bounded e)")
    case None
    with Cons [of used lines] show ?thesis by (simp add: encodable_def line_of_def)
  next
    case (Some l)
    then have e: "line_of c e = Some l" "encodable c e" "line_bytes c e = Suc (length l)"
      by (simp_all add: line_of_def encodable_def line_bytes_def)
    show ?thesis
    proof (cases "limit < used + Suc (length l)")
      case True
      with Some e show ?thesis by (intro exI [of _ 0]) simp
    next
      case False
      obtain n where "entry_lines c limit (used + Suc (length l)) ((l @ [LINE_FEED]) # lines) es
          = rev (map (\<lambda>e. the (line_of c e) @ [LINE_FEED]) (take n (filter (encodable c) es))) @ (l @ [LINE_FEED]) # lines"
        "n \<le> length (filter (encodable c) es)"
        "used + Suc (length l) + sum_list (map (line_bytes c) (take n (filter (encodable c) es))) \<le> limit"
        "n < length (filter (encodable c) es) \<longrightarrow>
           limit < used + Suc (length l) + sum_list (map (line_bytes c) (take (Suc n) (filter (encodable c) es)))"
        using Cons [of "used + Suc (length l)" "(l @ [LINE_FEED]) # lines"] False by auto
      with Some e False show ?thesis by (intro exI [of _ "Suc n"]) (simp add: add.assoc)
    qed
  qed
qed simp

section \<open>Round trip of a file\<close>

text \<open>
  What is documented of the codec: it reads back what it has written, a value has no raw line feed
  (JSON escapes it) and is not empty, and a header without a cursor is no longer than one with it.
\<close>

definition codec_ok :: "transcript_codec \<Rightarrow> bool" where
  "codec_ok c \<longleftrightarrow>
     (\<forall>h. read_header c (write_header c h) = Some h \<and> LINE_FEED \<notin> set (write_header c h))
     \<and> (\<forall>e l. write_entry c e = Some l \<longrightarrow> read_entry c l = Some e \<and> LINE_FEED \<notin> set l \<and> l \<noteq> [])
     \<and> (\<forall>v o1. length (write_header c \<lparr>hd_version = v, hd_older_cursor = None\<rparr>)
          \<le> length (write_header c \<lparr>hd_version = v, hd_older_cursor = o1\<rparr>))"

lemma split_lines:
  "\<forall>l \<in> set ls. LINE_FEED \<notin> set l \<Longrightarrow> split_char LINE_FEED (concat (map (\<lambda>l. l @ [LINE_FEED]) ls)) = ls @ [[]]"
  by (induction ls) (simp_all add: split_char_append)

lemma decode_lines:
  assumes ok: "codec_ok c" and all: "\<forall>e \<in> set es. encodable c e"
  shows "decode_transcript c (header_line c older @ concat (map (\<lambda>e. the (line_of c e) @ [LINE_FEED]) es))
    = Some \<lparr>tr_entries = map bounded es, tr_older_cursor = older\<rparr>"
proof -
  let ?h = "write_header c \<lparr>hd_version = TRANSCRIPT_VERSION, hd_older_cursor = older\<rparr>"
  let ?ls = "map (\<lambda>e. the (line_of c e)) es"
  from all ok have ls: "\<forall>l \<in> set ?ls. LINE_FEED \<notin> set l \<and> l \<noteq> []" and rd: "\<forall>e \<in> set es. read_entry c (the (line_of c e)) = Some (bounded e)"
    by (auto simp: encodable_def line_of_def codec_ok_def)
  have "split_char LINE_FEED (header_line c older @ concat (map (\<lambda>e. the (line_of c e) @ [LINE_FEED]) es)) = ?h # ?ls @ [[]]"
    using ok split_lines [of ?ls] ls by (simp add: header_line_def split_char_append codec_ok_def comp_def)
  moreover have "filter (\<lambda>l. l \<noteq> []) ?ls = ?ls" using ls by (auto intro: filter_True)
  moreover have "List.map_filter (read_entry c) ?ls = map bounded es"
    using rd by (induction es) (simp_all add: List.map_filter_simps)
  ultimately show ?thesis using ok by (simp add: decode_transcript_def codec_ok_def)
qed

lemma suffix_filter_same: "suffix xs (filter P ys) \<Longrightarrow> length xs = length ys \<longleftrightarrow> xs = ys"
proof (intro iffI)
  assume suffix: "suffix xs (filter P ys)" and eq: "length xs = length ys"
  from suffix_length_le [OF suffix] length_filter_le [of P ys] eq
  have "length (filter P ys) = length ys" "length xs = length (filter P ys)" by simp_all
  moreover from this(1) have "filter P ys = ys" by (metis filter_id_conv length_filter_less less_irrefl)
  ultimately show "xs = ys" using suffix by (metis append_eq_append_conv self_append_conv2 suffix_def)
qed simp

text \<open>
  C20. A saved conversation is read back: its newest entries, each with at most the start of its
  text and detail, in their order. The older cursor is kept exactly when every entry is in the
  file. The file stays in the limit, and the next older entry would not have fitted.
\<close>

theorem transcripts_round_trip:
  assumes ok: "codec_ok c" and fits: "length (header_line c (tr_older_cursor t)) \<le> limit"
  shows "\<exists>kept. suffix kept (filter (encodable c) (tr_entries t))
    \<and> decode_transcript c (encode_with_limit c t limit)
      = Some \<lparr>tr_entries = map bounded kept,
              tr_older_cursor = (if kept = tr_entries t then tr_older_cursor t else None)\<rparr>
    \<and> length (encode_with_limit c t limit) \<le> limit
    \<and> (\<forall>older e. filter (encodable c) (tr_entries t) = older @ e # kept \<longrightarrow>
         limit < length (header_line c (tr_older_cursor t)) + sum_list (map (line_bytes c) (e # kept)))
    \<and> (\<forall>e \<in> set kept. entry_size (bounded e) \<le> MAX_ENTRY_BYTES + 2 * length TRUNCATION_NOTE
         \<and> (entry_size e \<le> MAX_ENTRY_BYTES \<longrightarrow> bounded e = e))"
proof -
  let ?F = "filter (encodable c) (tr_entries t)"
  let ?full = "header_line c (tr_older_cursor t)"
  let ?line = "\<lambda>e. the (line_of c e) @ [LINE_FEED]"
  obtain n where n: "entry_lines c limit (length ?full) [] (rev (tr_entries t)) = rev (map ?line (take n (rev ?F)))"
    "n \<le> length ?F" "length ?full + sum_list (map (line_bytes c) (take n (rev ?F))) \<le> limit"
    "n < length ?F \<longrightarrow> limit < length ?full + sum_list (map (line_bytes c) (take (Suc n) (rev ?F)))"
    using entry_lines_spec [of c limit "length ?full" "[]" "rev (tr_entries t)"] fits by (auto simp: rev_filter [symmetric])
  define kept where "kept = drop (length ?F - n) ?F"
  have kept: "take n (rev ?F) = rev kept" by (simp add: kept_def take_rev)
  have suffix: "suffix kept ?F" by (simp add: kept_def suffix_drop)
  have len: "length kept = n" using n(2) by (simp add: kept_def)
  have lines: "entry_lines c limit (length ?full) [] (rev (tr_entries t)) = map ?line kept"
    using n(1) by (simp add: kept rev_map)
  have same: "length kept = length (tr_entries t) \<longleftrightarrow> kept = tr_entries t"
    using suffix by (rule suffix_filter_same)
  define older where "older = (if kept = tr_entries t then tr_older_cursor t else None)"
  have bytes: "encode_with_limit c t limit = header_line c older @ concat (map ?line kept)"
    using same by (simp add: encode_with_limit_def lines older_def)
  have all: "\<forall>e \<in> set kept. encodable c e" using set_mono_suffix [OF suffix] by auto
  have size: "length (concat (map ?line kept)) = sum_list (map (line_bytes c) kept)"
    by (induction kept) (simp_all add: line_bytes_def)
  have "length (header_line c older) \<le> length ?full"
    using ok by (simp add: header_line_def older_def codec_ok_def)
  then have limit: "length (encode_with_limit c t limit) \<le> limit"
    using n(3) by (simp add: bytes size kept rev_map [symmetric] sum_list_rev)
  have next_entry: "limit < length ?full + sum_list (map (line_bytes c) (e # kept))" if "?F = before @ e # kept" for before e
  proof -
    from that len have "take (Suc n) (rev ?F) = rev (e # kept)" by simp
    moreover from that len have "n < length ?F" by simp
    ultimately show ?thesis using n(4) by (simp add: rev_map [symmetric] sum_list_rev)
  qed
  have "decode_transcript c (encode_with_limit c t limit) = Some \<lparr>tr_entries = map bounded kept, tr_older_cursor = older\<rparr>"
    unfolding bytes by (rule decode_lines [OF ok all])
  with suffix limit next_entry bounded_size show ?thesis
    unfolding older_def by (intro exI [of _ kept]) (auto simp: bounded_def)
qed

text \<open>A codec to run the theorem with: texts are escaped, and only plain messages of the user encode.\<close>

fun escape_lines :: "string \<Rightarrow> string" where
  "escape_lines [] = []"
| "escape_lines (c # cs) =
     (if c = LINE_FEED then [CHR 0x5C, CHR ''n''] else if c = CHR 0x5C then [CHR 0x5C, CHR 0x5C] else [c]) @ escape_lines cs"

fun unescape_text :: "string \<Rightarrow> string" where
  "unescape_text (c # d # cs) =
     (if c = CHR 0x5C then (if d = CHR ''n'' then LINE_FEED else d) # unescape_text cs else c # unescape_text (d # cs))"
| "unescape_text cs = cs"

lemma unescape_escape: "unescape_text (escape_lines s) = s"
proof (induction s)
  case (Cons c cs)
  then show ?case by (cases "escape_lines cs") (auto simp: LINE_FEED_def)
qed simp

lemma escape_no_LF: "LINE_FEED \<notin> set (escape_lines s)"
  by (induction s) (auto simp: LINE_FEED_def)

definition plain_message :: "string \<Rightarrow> stored_entry" where
  "plain_message s =
     \<lparr>en_id = 0, en_speaker = Speaker_User, en_text = s, en_turn_id = None, en_tool = None, en_detail = None\<rparr>"

definition plain_codec :: transcript_codec where
  "plain_codec =
     \<lparr>write_header = (\<lambda>h. replicate (hd_version h) (CHR ''1'')
        @ (case hd_older_cursor h of None \<Rightarrow> '';'' | Some s \<Rightarrow> '':'' @ escape_lines s)),
      write_entry = (\<lambda>e. if e = plain_message (en_text e) then Some (''u'' @ escape_lines (en_text e)) else None),
      read_header = (\<lambda>l. case dropWhile (\<lambda>c. c = CHR ''1'') l of
          [] \<Rightarrow> None
        | c # cs \<Rightarrow>
            Some \<lparr>hd_version = length (takeWhile (\<lambda>c. c = CHR ''1'') l),
                  hd_older_cursor = (if c = CHR '';'' then None else Some (unescape_text cs))\<rparr>),
      read_entry = (\<lambda>l. case l of [] \<Rightarrow> None | c # cs \<Rightarrow> Some (plain_message (unescape_text cs)))\<rparr>"

lemma takeWhile_replicate_append:
  "\<not> P d \<Longrightarrow> P c \<Longrightarrow> takeWhile P (replicate n c @ d # xs) = replicate n c"
  "\<not> P d \<Longrightarrow> P c \<Longrightarrow> dropWhile P (replicate n c @ d # xs) = d # xs"
  by (induction n) simp_all

lemma plain_codec_ok: "codec_ok plain_codec"
  unfolding codec_ok_def plain_codec_def
  by (auto simp: takeWhile_replicate_append unescape_escape escape_no_LF LINE_FEED_def split: option.splits
      dest: subsetD [OF equalityD1 [OF set_replicate_conv_if]])
    (auto simp: escape_no_LF [unfolded LINE_FEED_def] split: if_splits)

definition sample_transcript :: stored_transcript where
  "sample_transcript =
     \<lparr>tr_entries = [plain_message ''old'', (plain_message ''x'')\<lparr>en_id := 5\<rparr>, plain_message [CHR ''a'', LINE_FEED], plain_message ''new''],
      tr_older_cursor = Some ''c''\<rparr>"

theorem transcripts_round_trip_witness:
  "decode_transcript plain_codec (encode_with_limit plain_codec sample_transcript 16)
     = Some \<lparr>tr_entries = [plain_message [CHR ''a'', LINE_FEED], plain_message ''new''], tr_older_cursor = None\<rparr>
   \<and> length (encode_with_limit plain_codec sample_transcript 16) \<le> 16"
proof -
  have "length (header_line plain_codec (tr_older_cursor sample_transcript)) \<le> 16"
    by code_simp
  from transcripts_round_trip [OF plain_codec_ok this]
  have "length (encode_with_limit plain_codec sample_transcript 16) \<le> 16" by blast
  moreover have "decode_transcript plain_codec (encode_with_limit plain_codec sample_transcript 16)
     = Some \<lparr>tr_entries = [plain_message [CHR ''a'', LINE_FEED], plain_message ''new''], tr_older_cursor = None\<rparr>"
    by code_simp
  ultimately show ?thesis by simp
qed

section \<open>Files of conversations\<close>

lemma transcript_path_inject:
  "transcript_path d t = Some p \<Longrightarrow> transcript_path d u = Some p \<Longrightarrow> t = u"
  by (auto simp: transcript_path_def split: if_splits)

text \<open>A safe identifier names a file of the directory itself.\<close>

lemma transcript_path_in_directory:
  assumes "transcript_path d t = Some p"
  shows "\<exists>name. p = d @ ''/'' @ name \<and> CHR ''/'' \<notin> set name \<and> name \<noteq> ''.'' \<and> name \<noteq> ''..'' \<and> length name \<le> 134"
proof -
  from assms have t: "safe_thread_id t" "p = d @ ''/'' @ t @ ''.jsonl''"
    by (auto simp: transcript_path_def split: if_splits)
  have "CHR ''/'' \<notin> set t"
    using t(1) by (auto simp: safe_thread_id_def list_all_iff ascii_simps byte_def)
  with t show ?thesis
    by (intro exI [of _ "t @ ''.jsonl''"]) (auto simp: safe_thread_id_def)
qed

section \<open>The last writes of a batch\<close>

definition wanted :: "string option \<Rightarrow> string \<Rightarrow> transcript_job list \<Rightarrow> string option" where
  "wanted x p js =
     foldl (\<lambda>x j. case job_write j of Some (_, q, b) \<Rightarrow> if q = p then b else x | None \<Rightarrow> x) x js"

definition pending :: "(string \<times> string \<times> string option) list \<Rightarrow> string \<Rightarrow> string option option" where
  "pending ws p = map_of (map snd ws) p"

lemma wanted_append: "wanted x p (js @ ks) = wanted (wanted x p js) p ks"
  by (simp add: wanted_def)

lemma pending_put:
  "pending (filter (\<lambda>(_, earlier, _). earlier \<noteq> p) ws @ [(t, p, b)]) q = (if q = p then Some b else pending ws q)"
  by (induction ws) (auto simp: pending_def)

lemma last_writes_pending:
  "(case pending (last_writes ws js) p of None \<Rightarrow> x | Some b \<Rightarrow> b)
     = wanted (case pending ws p of None \<Rightarrow> x | Some b \<Rightarrow> b) p js"
proof (induction js arbitrary: ws)
  case (Cons j js)
  show ?case
  proof (cases "job_write j")
    case (Some w)
    then obtain t q b where w: "job_write j = Some (t, q, b)" by (cases w) simp
    show ?thesis by (simp add: w Cons pending_put) (simp add: wanted_def w)
  qed (simp add: Cons, simp add: wanted_def)
qed (simp add: wanted_def)

lemma last_writes_distinct:
  "distinct (map (fst \<circ> snd) ws) \<Longrightarrow> distinct (map (fst \<circ> snd) (last_writes ws js))"
proof (induction js arbitrary: ws)
  case (Cons j js)
  show ?case
  proof (cases "job_write j")
    case (Some w)
    obtain t p b where w: "w = (t, p, b)" by (cases w)
    have d: "distinct (map (fst \<circ> snd) (filter (\<lambda>(_, earlier, _). earlier \<noteq> p) ws @ [(t, p, b)]))"
      using distinct_map_filter [OF Cons.prems] by (auto simp: comp_def)
    show ?thesis using Cons.IH [OF d] Some w by simp
  qed (use Cons in \<open>simp add: comp_def\<close>)
qed simp

lemma last_writes_set: "set (last_writes ws js) \<subseteq> set ws \<union> {w. \<exists>j \<in> set js. job_write j = Some w}"
proof (induction js arbitrary: ws)
  case (Cons j js)
  show ?case
  proof (cases "job_write j")
    case None
    with Cons [of ws] show ?thesis by auto
  next
    case (Some w)
    obtain t p b where w: "w = (t, p, b)" by (cases w)
    from Cons [of "filter (\<lambda>(_, earlier, _). earlier \<noteq> p) ws @ [(t, p, b)]"] Some w show ?thesis by auto
  qed
qed simp

section \<open>No save is lost silently\<close>

definition jobs_valid :: "string \<Rightarrow> transcript_job list \<Rightarrow> bool" where
  "jobs_valid d js \<longleftrightarrow> (\<forall>j t p b. j \<in> set js \<and> job_write j = Some (t, p, b) \<longrightarrow> transcript_path d t = Some p)"

definition rest_of :: "transcript_store \<Rightarrow> (string \<times> string \<times> string option) list" where
  "rest_of s = (case ts_batch s of None \<Rightarrow> [] | Some (rest, _) \<Rightarrow> rest)"

definition flushes_of :: "transcript_store \<Rightarrow> nat list" where
  "flushes_of s = (case ts_batch s of None \<Rightarrow> [] | Some (_, flushes) \<Rightarrow> flushes)"

definition taken_jobs :: "transcript_store \<Rightarrow> transcript_job list" where
  "taken_jobs s = ts_done s @ ts_working s"

text \<open>Flushes are answered in the order of sending, those of a batch after its last write.\<close>

definition history_ok :: "transcript_store \<Rightarrow> bool" where
  "history_ok s \<longleftrightarrow>
     ts_sent s = ts_done s @ ts_working s @ ts_queue s
     \<and> (ts_batch s = None \<longrightarrow> ts_working s = [])
     \<and> ts_answered s @ flushes_of s = batch_flushes (taken_jobs s)
     \<and> (rest_of s \<noteq> [] \<longrightarrow> ts_answered s = batch_flushes (ts_done s))"

definition files_ok :: "string \<Rightarrow> (string \<Rightarrow> string option) \<Rightarrow> transcript_store \<Rightarrow> bool" where
  "files_ok d files s \<longleftrightarrow>
     distinct (map (fst \<circ> snd) (rest_of s))
     \<and> (\<forall>t p b. (t, p, b) \<in> set (rest_of s) \<longrightarrow> transcript_path d t = Some p \<and> wanted (files p) p (taken_jobs s) = b)
     \<and> (\<forall>t p. transcript_path d t = Some p \<longrightarrow> t \<notin> ts_failed s \<union> ts_reported s \<longrightarrow>
          ts_files s p = wanted (files p) p (if pending (rest_of s) p = None then taken_jobs s else ts_done s))"

lemma batch_flushes_append [simp]: "batch_flushes (js @ ks) = batch_flushes js @ batch_flushes ks"
  by (simp add: batch_flushes_def map_filter_def)

lemma batch_flushes_simps [simp]:
  "batch_flushes [] = []"
  "batch_flushes (j # js) = (case j of Job_Flush f \<Rightarrow> f # batch_flushes js | _ \<Rightarrow> batch_flushes js)"
  by (simp_all add: batch_flushes_def map_filter_def split: transcript_job.split)

text \<open>The job of the \<open>i\<close>-th flush.\<close>

lemma nth_flush:
  "i < length (batch_flushes js) \<Longrightarrow>
     \<exists>before after. js = before @ Job_Flush (batch_flushes js ! i) # after \<and> length (batch_flushes before) = i"
proof (induction js arbitrary: i)
  case (Cons j js)
  show ?case
  proof (cases "(\<exists>f. j = Job_Flush f) \<and> i = 0")
    case True
    then show ?thesis by (intro exI [of _ "[]"] exI [of _ js]) auto
  next
    case False
    let ?i = "i - length (batch_flushes [j])"
    have split: "batch_flushes (j # js) = batch_flushes [j] @ batch_flushes js" using batch_flushes_append [of "[j]" js] by simp
    from False have short: "length (batch_flushes [j]) \<le> i" by (cases j) auto
    with Cons.prems have "?i < length (batch_flushes js)" "batch_flushes (j # js) ! i = batch_flushes js ! ?i"
      unfolding split by (simp_all add: nth_append)
    with Cons.IH [of ?i] obtain before after where
      "js = before @ Job_Flush (batch_flushes (j # js) ! i) # after" "length (batch_flushes before) = ?i" by auto
    with short show ?thesis
      using batch_flushes_append [of "[j]" before] by (intro exI [of _ "j # before"] exI [of _ after]) simp
  qed
qed simp

definition transcripts_ok :: "string \<Rightarrow> (string \<Rightarrow> string option) \<Rightarrow> transcript_store \<Rightarrow> bool" where
  "transcripts_ok d files s \<longleftrightarrow> jobs_valid d (ts_sent s) \<and> history_ok s \<and> files_ok d files s"

lemma job_write_simps [simp]:
  "job_write (Job_Save t p b) = Some (t, p, Some b)" "job_write (Job_Delete t p) = Some (t, p, None)"
  "job_write (Job_Flush f) = None"
  by (simp_all add: job_write_def)

lemma jobs_valid_snoc:
  "jobs_valid d (js @ [j]) \<longleftrightarrow>
     jobs_valid d js \<and> (\<forall>t p b. job_write j = Some (t, p, b) \<longrightarrow> transcript_path d t = Some p)"
  by (auto simp: jobs_valid_def)

lemma transcripts_ok_send:
  assumes "transcripts_ok d files s" "\<And>t p b. job_write j = Some (t, p, b) \<Longrightarrow> transcript_path d t = Some p"
  shows "transcripts_ok d files (send_job j s)"
  using assms
  by (auto simp: transcripts_ok_def send_job_def jobs_valid_snoc [of d "_ @ _ @ _", simplified] history_ok_def files_ok_def rest_of_def taken_jobs_def flushes_of_def)

lemma transcripts_ok_failed: "transcripts_ok d files s \<Longrightarrow> transcripts_ok d files (snd (take_failed s))"
  by (auto simp: transcripts_ok_def take_failed_def history_ok_def files_ok_def rest_of_def taken_jobs_def flushes_of_def)

lemma pending_None_iff: "pending ws p = None \<longleftrightarrow> (\<forall>t b. (t, p, b) \<notin> set ws)"
  by (force simp: pending_def map_of_eq_None_iff)

lemma pending_Some: "distinct (map (fst \<circ> snd) ws) \<Longrightarrow> (t, p, b) \<in> set ws \<Longrightarrow> pending ws p = Some b"
  by (force simp: pending_def comp_def)

lemma transcripts_ok_take_batch:
  assumes ok: "transcripts_ok d files s"
  shows "transcripts_ok d files (take_batch n s)"
proof (cases "ts_batch s \<noteq> None \<or> ts_queue s = []")
  case False
  let ?jobs = "take (Suc n) (ts_queue s)" and ?s = "take_batch n s"
  let ?ws = "last_writes [] ?jobs"
  from False have none: "ts_batch s = None" by blast
  with ok have idle: "ts_batch s = None" "ts_working s = []" "taken_jobs s = ts_done s"
    and sent: "ts_sent s = ts_done s @ ?jobs @ drop (Suc n) (ts_queue s)"
    by (simp_all add: transcripts_ok_def history_ok_def taken_jobs_def)
  from False have s: "?s = s\<lparr>ts_queue := drop (Suc n) (ts_queue s), ts_batch := Some (?ws, batch_flushes ?jobs), ts_working := ?jobs\<rparr>"
    by (simp add: take_batch_def Let_def)
  have history: "history_ok ?s" using ok sent idle
    by (simp add: s transcripts_ok_def history_ok_def taken_jobs_def flushes_of_def rest_of_def)
  have d: "distinct (map (fst \<circ> snd) ?ws)" by (simp add: last_writes_distinct)
  have valid: "transcript_path d t = Some p" if "(t, p, b) \<in> set ?ws" for t p b
  proof -
    from that last_writes_set [of "[]" ?jobs] obtain j where "j \<in> set ?jobs" "job_write j = Some (t, p, b)" by auto
    moreover from this(1) sent have "j \<in> set (ts_sent s)" by (auto dest: in_set_takeD)
    ultimately show ?thesis using ok by (auto simp: transcripts_ok_def jobs_valid_def)
  qed
  have want: "wanted (files p) p (taken_jobs ?s)
      = (case pending ?ws p of None \<Rightarrow> wanted (files p) p (ts_done s) | Some b \<Rightarrow> b)" for p
    using last_writes_pending [of "wanted (files p) p (ts_done s)" "[]" ?jobs p]
    by (simp add: s taken_jobs_def wanted_append pending_def)
  have rest: "rest_of ?s = ?ws" by (simp add: s rest_of_def)
  have "wanted (files p) p (taken_jobs ?s) = b" if "(t, p, b) \<in> set ?ws" for t p b
    using pending_Some [OF d that] want by simp
  moreover have "ts_files ?s p = wanted (files p) p (if pending ?ws p = None then taken_jobs ?s else ts_done ?s)"
    if "transcript_path d t = Some p" "t \<notin> ts_failed ?s \<union> ts_reported ?s" for t p
    using that ok idle want [of p] by (auto simp: s transcripts_ok_def files_ok_def rest_of_def pending_def)
  ultimately have "files_ok d files ?s"
    unfolding files_ok_def rest using d valid by blast
  with history ok show ?thesis by (simp add: transcripts_ok_def s)
qed (use ok in \<open>auto simp: take_batch_def\<close>)

lemma transcripts_ok_batch_step:
  assumes ok: "transcripts_ok d files s"
  shows "transcripts_ok d files (batch_step outcome s)"
proof (cases "ts_batch s")
  case (Some rf)
  then obtain rest fs where at: "ts_batch s = Some (rest, fs)" by (cases rf) simp
  show ?thesis
  proof (cases rest)
    case Nil
    with ok at show ?thesis
      by (cases fs) (auto simp: batch_step_def transcripts_ok_def history_ok_def files_ok_def rest_of_def taken_jobs_def
          flushes_of_def pending_def)
  next
    case (Cons w rest')
    obtain t p b where w: "w = (t, p, b)" by (cases w)
    have d: "distinct (map (fst \<circ> snd) ((t, p, b) # rest'))" and path: "transcript_path d t = Some p"
      and want: "wanted (files p) p (taken_jobs s) = b"
      using ok at by (auto simp: transcripts_ok_def files_ok_def rest_of_def Cons w)
    have s: "batch_step outcome s = s\<lparr>ts_batch := Some (rest', fs), ts_files := write_file outcome p b (ts_files s),
        ts_failed := (if outcome = Disk_Done then ts_failed s - {t} else insert t (ts_failed s)),
        ts_reported := ts_reported s - {t}\<rparr>"
      by (simp add: batch_step_def at Cons w)
    have taken_jobs: "taken_jobs (batch_step outcome s) = taken_jobs s" by (simp add: s taken_jobs_def)
    have in_file: "ts_files (batch_step outcome s) q
        = wanted (files q) q (if pending rest' q = None then taken_jobs s else ts_done s)"
      if q: "transcript_path d u = Some q" "u \<notin> ts_failed (batch_step outcome s) \<union> ts_reported (batch_step outcome s)" for u q
    proof (cases "q = p")
      case True
      with q(1) path have "u = t" by (auto intro: transcript_path_inject)
      with q(2) have "outcome = Disk_Done" by (auto simp: s split: if_splits)
      moreover have "pending rest' q = None" using d True by (force simp: pending_None_iff)
      ultimately show ?thesis using True want unfolding s by (simp add: write_file_def)
    next
      case False
      with q(1) path have "u \<noteq> t" by auto
      with q(2) have "u \<notin> ts_failed s \<union> ts_reported s" by (auto simp: s split: if_splits)
      moreover have "pending (rest_of s) q = pending rest' q"
        using False by (simp add: rest_of_def at Cons w pending_def)
      ultimately have "ts_files s q = wanted (files q) q (if pending rest' q = None then taken_jobs s else ts_done s)"
        using ok q(1) unfolding transcripts_ok_def files_ok_def by metis
      with False show ?thesis by (simp add: s write_file_def)
    qed
    have waiting: "rest_of (batch_step outcome s) = rest'" "ts_done (batch_step outcome s) = ts_done s"
      by (simp_all add: s rest_of_def)
    have "\<forall>t p b. (t, p, b) \<in> set rest' \<longrightarrow> transcript_path d t = Some p \<and> wanted (files p) p (taken_jobs s) = b"
      using ok by (auto simp: transcripts_ok_def files_ok_def rest_of_def at Cons)
    with in_file d have "files_ok d files (batch_step outcome s)"
      unfolding files_ok_def taken_jobs waiting by auto
    moreover from ok have "jobs_valid d (ts_sent (batch_step outcome s))" by (simp add: s transcripts_ok_def)
    moreover from ok at have "history_ok (batch_step outcome s)"
      by (auto simp: s transcripts_ok_def history_ok_def taken_jobs_def flushes_of_def rest_of_def Cons)
    ultimately show ?thesis by (simp add: transcripts_ok_def)
  qed
qed (use ok in \<open>simp add: batch_step_def\<close>)

lemma transcripts_ok_step: "transcripts_ok d files s \<Longrightarrow> transcripts_ok d files (store_step d op s)"
  by (cases op)
    (auto simp: store_step_def save_transcript_def delete_transcript_def transcripts_ok_failed transcripts_ok_take_batch
      transcripts_ok_batch_step split: option.split intro!: transcripts_ok_send)

lemma transcripts_ok_new: "transcripts_ok d files (store_new files)"
  by (simp add: transcripts_ok_def store_new_def jobs_valid_def history_ok_def files_ok_def rest_of_def taken_jobs_def wanted_def
      flushes_of_def)

interpretation store_runs: kept_invariant "store_new files" "store_step d" "transcripts_ok d files"
  for files d
  by unfold_locales (rule transcripts_ok_new, rule transcripts_ok_step)

text \<open>
  C35. No transcript is lost silently, although a batch writes only the last job of each file.
  Whatever the batches and the failures of the disk, and also while a batch is in work, a
  conversation that is not reported as failed has exactly the file that the jobs of the finished
  batches ask for, applied one by one, and also those of the batch in work once the batch has nothing
  left to write for it. The flushes are answered in the order in which they were sent, and when the
  answer to the \<open>i\<close>-th one is there, the file is the one that some number of the sent jobs ask for, among
  them all that were sent before this flush.
\<close>

theorem saved_transcripts_are_kept:
  assumes "s = run_from (store_step d) (store_new files) ops"
    and "transcript_path d t = Some p" "t \<notin> ts_failed s" "t \<notin> ts_reported s"
  shows "ts_files s p = wanted (files p) p (if pending (rest_of s) p = None then ts_done s @ ts_working s else ts_done s)
    \<and> ts_sent s = ts_done s @ ts_working s @ ts_queue s
    \<and> (ts_batch s = None \<longrightarrow> ts_working s = [] \<and> rest_of s = [])
    \<and> (\<forall>i < length (ts_answered s). \<exists>before after k.
         ts_sent s = before @ Job_Flush (ts_answered s ! i) # after \<and> length (batch_flushes before) = i
         \<and> length before < k \<and> ts_files s p = wanted (files p) p (take k (ts_sent s)))
    \<and> load_transcript c d (ts_files s) t = Option.bind (ts_files s p) (decode_transcript c)"
proof -
  have ok: "transcripts_ok d files s" unfolding assms(1) by (rule store_runs.inv_run)
  then have in_file: "ts_files s p = wanted (files p) p (if pending (rest_of s) p = None then taken_jobs s else ts_done s)"
    using assms(2-4) unfolding transcripts_ok_def files_ok_def by blast
  from ok have sent: "ts_sent s = ts_done s @ ts_working s @ ts_queue s"
    and idle: "ts_batch s = None \<longrightarrow> ts_working s = [] \<and> rest_of s = []"
    and answers: "ts_answered s @ flushes_of s = batch_flushes (taken_jobs s)"
      "rest_of s \<noteq> [] \<longrightarrow> ts_answered s = batch_flushes (ts_done s)"
    by (auto simp: transcripts_ok_def history_ok_def rest_of_def)
  define js where "js = (if pending (rest_of s) p = None then taken_jobs s else ts_done s)"
  have "pending (rest_of s) p \<noteq> None \<Longrightarrow> rest_of s \<noteq> []" by (auto simp: pending_def)
  with answers have js: "\<exists>fs. batch_flushes js = ts_answered s @ fs" unfolding js_def by (metis append_Nil2)
  have prefix: "\<exists>ks. ts_sent s = js @ ks" using sent by (auto simp: js_def taken_jobs_def)
  have "\<exists>before after k. ts_sent s = before @ Job_Flush (ts_answered s ! i) # after \<and> length (batch_flushes before) = i
      \<and> length before < k \<and> ts_files s p = wanted (files p) p (take k (ts_sent s))" if i: "i < length (ts_answered s)" for i
  proof -
    from js i have "i < length (batch_flushes js)" "batch_flushes js ! i = ts_answered s ! i" by (auto simp: nth_append)
    with nth_flush [of i js] obtain before after where
      "js = before @ Job_Flush (ts_answered s ! i) # after" "length (batch_flushes before) = i" by auto
    with prefix in_file show ?thesis
      by (intro exI [of _ before] exI [of _ "after @ drop (length js) (ts_sent s)"] exI [of _ "length js"])
        (auto simp: js_def)
  qed
  with in_file sent idle assms(2) show ?thesis by (simp add: load_transcript_def taken_jobs_def)
qed

definition saved_run :: "store_op list" where
  "saved_run =
     [Save_Transcript ''a'' ''1'', Save_Transcript ''../b'' ''x'', Save_Transcript ''a'' ''2'', Save_Transcript ''b'' ''3'',
      Flush_Store 9, Delete_Transcript ''b'', Take_Batch 3, Batch_Step Disk_Done, Batch_Step (Disk_Refused False),
      Take_Failed, Batch_Step Disk_Done]"

theorem saved_transcripts_are_kept_witness:
  "ts_files (run_from (store_step ''t'') (store_new (\<lambda>_. None)) saved_run) ''t/a.jsonl'' = Some ''2''
   \<and> ts_answered (run_from (store_step ''t'') (store_new (\<lambda>_. None)) saved_run) = [9]"
proof -
  let ?s = "run_from (store_step ''t'') (store_new (\<lambda>_. None)) saved_run"
  have 1: "transcript_path ''t'' ''a'' = Some ''t/a.jsonl''" "''a'' \<notin> ts_failed ?s" "''a'' \<notin> ts_reported ?s"
    by code_simp+
  have 2: "wanted None ''t/a.jsonl'' (if pending (rest_of ?s) ''t/a.jsonl'' = None then ts_done ?s @ ts_working ?s else ts_done ?s)
      = Some ''2''" "ts_answered ?s = [9]"
    by code_simp+
  from saved_transcripts_are_kept [OF refl 1, of plain_codec] 2 show ?thesis by simp
qed

end
