(* ===== verification/Trino_Session.thy ===== *)
theory Trino_Session
  imports Rust_Str Btree
begin

text \<open>
  The session of a Trino connection and its requests (\<open>src/connector/trino/protocol.rs\<close>): the state
  that every request repeats in its headers and every response may change, the loop that repeats a
  request after a rejected token, and the bounded body of a response.

  The percent encoding of form\_urlencoded and the checks of header values of the http crate are
  parameters, and the capacity of a \<open>String\<close> is a function of its text.
\<close>

section \<open>State\<close>

record header_codec =
  hc_encode :: "string \<Rightarrow> string"
  hc_decode :: "string \<Rightarrow> string"
  hc_value_ok :: "string \<Rightarrow> bool"
  hc_text_ok :: "string \<Rightarrow> bool"
  hc_capacity :: "string \<Rightarrow> nat"

record trino_session =
  tn_catalog :: string
  tn_schema :: string
  tn_properties :: "string btree"
  tn_roles :: "string btree"
  tn_prepared :: "string btree"
  tn_transaction :: "string option"

datatype session_error =
    Large_Session_Name | Too_Many_Settings | Large_Setting | Large_Session | Bad_Header_Value | Large_Request
  | Large_Response_Headers | Bad_Session_Header | Large_Header_Text

definition MAX_HEADER_STATE :: nat where "MAX_HEADER_STATE = 256 * 1024"
definition MAX_REQUEST_HEADERS :: nat where "MAX_REQUEST_HEADERS = 512 * 1024"
definition MAX_HEADER_ENTRIES :: nat where "MAX_HEADER_ENTRIES = 1024"

type_synonym headers = "(string \<times> string) list"

definition decode_header :: "header_codec \<Rightarrow> nat \<Rightarrow> string \<Rightarrow> (session_error, string) result" where
  "decode_header hc limit text =
     and_then (ensure (length text \<le> limit * 3) Large_Header_Text)
       (\<lambda>_. let decoded = hc_decode hc text in
            and_then (ensure (length decoded \<le> limit) Large_Header_Text) (\<lambda>_. Inr decoded))"

section \<open>Validation\<close>

definition session_names :: "trino_session \<Rightarrow> string list" where
  "session_names s =
     [tn_catalog s, tn_schema s] @ (case tn_transaction s of None \<Rightarrow> [] | Some t \<Rightarrow> [t])"

definition session_settings :: "trino_session \<Rightarrow> (string \<times> string) list" where
  "session_settings s = tn_properties s @ tn_roles s @ tn_prepared s"

definition setting_ok :: "string \<times> string \<Rightarrow> (session_error, unit) result" where
  "setting_ok nv = ensure (length (fst nv) \<le> 1024 \<and> length (snd nv) \<le> 64 * 1024) Large_Setting"

definition session_capacity :: "header_codec \<Rightarrow> trino_session \<Rightarrow> nat" where
  "session_capacity hc s =
     sum_list (map (hc_capacity hc) (session_names s))
     + sum_list (map (\<lambda>(n, v). hc_capacity hc n + hc_capacity hc v) (session_settings s))"

definition validate_session :: "header_codec \<Rightarrow> trino_session \<Rightarrow> (session_error, unit) result" where
  "validate_session hc s =
     and_then (check_all (\<lambda>v. ensure (length v \<le> 1024) Large_Session_Name) (session_names s))
       (\<lambda>_. and_then (check_all setting_ok (session_settings s))
         (\<lambda>_. ensure (length (session_settings s) \<le> MAX_HEADER_ENTRIES \<and> session_capacity hc s \<le> MAX_HEADER_STATE)
                Large_Session))"

section \<open>Headers of a request\<close>

fun name_headers ::
  "header_codec \<Rightarrow> (string \<times> string) list \<Rightarrow> nat \<Rightarrow> (session_error, headers \<times> nat) result" where
  "name_headers hc [] used = Inr ([], used)"
| "name_headers hc ((n, v) # nvs) used =
     and_then (ensure (v = [] \<or> hc_value_ok hc v) Bad_Header_Value)
       (\<lambda>_. and_then (name_headers hc nvs (used + length v))
         (\<lambda>(hs, t). Inr ((if v = [] then hs else (n, v) # hs), t)))"

definition encoded_size :: "header_codec \<Rightarrow> string btree \<Rightarrow> nat" where
  "encoded_size hc m =
     sum_list (map (\<lambda>(k, v). length (hc_encode hc k) + 1 + length (hc_encode hc v)) m) + (length m - 1)"

text \<open>The loop that writes the pairs, with the text so far.\<close>

definition push_pair :: "header_codec \<Rightarrow> string \<times> string \<Rightarrow> string \<Rightarrow> string" where
  "push_pair hc kv text =
     (if text = [] then [] else text @ '','') @ hc_encode hc (fst kv) @ ''='' @ hc_encode hc (snd kv)"

definition map_text :: "header_codec \<Rightarrow> string btree \<Rightarrow> string" where
  "map_text hc m = fold (push_pair hc) m []"

fun map_headers ::
  "header_codec \<Rightarrow> (string \<times> string btree) list \<Rightarrow> nat \<Rightarrow> (session_error, headers) result" where
  "map_headers hc [] used = Inr []"
| "map_headers hc ((n, m) # nms) used =
     and_then (ensure (used + encoded_size hc m \<le> MAX_REQUEST_HEADERS) Large_Request)
       (\<lambda>_. let text = map_text hc m in
            and_then (ensure (text = [] \<or> hc_value_ok hc text) Bad_Header_Value)
              (\<lambda>_. and_then (map_headers hc nms (used + encoded_size hc m))
                (\<lambda>hs. Inr (if text = [] then hs else (n, text) # hs))))"

definition transaction_text :: "trino_session \<Rightarrow> string" where
  "transaction_text s = (case tn_transaction s of None \<Rightarrow> ''NONE'' | Some t \<Rightarrow> t)"

definition session_request :: "header_codec \<Rightarrow> trino_session \<Rightarrow> (session_error, headers) result" where
  "session_request hc s =
     and_then (validate_session hc s)
       (\<lambda>_. and_then
         (name_headers hc
           [(''x-trino-catalog'', tn_catalog s), (''x-trino-schema'', tn_schema s),
            (''x-trino-transaction-id'', transaction_text s)] 0)
         (\<lambda>(names, used). and_then
           (map_headers hc
             [(''x-trino-session'', tn_properties s), (''x-trino-role'', tn_roles s),
              (''x-trino-prepared-statement'', tn_prepared s)] used)
           (\<lambda>maps. Inr (names @ maps))))"

section \<open>A new session\<close>

definition empty_session :: trino_session where
  "empty_session =
     \<lparr>tn_catalog = [], tn_schema = [], tn_properties = [], tn_roles = [], tn_prepared = [], tn_transaction = None\<rparr>"

fun profile_settings :: "nat \<Rightarrow> (string \<times> string) list \<Rightarrow> (session_error, unit) result" where
  "profile_settings bytes [] = Inr ()"
| "profile_settings bytes ((n, v) # nvs) =
     and_then (setting_ok (n, v))
       (\<lambda>_. and_then (ensure (bytes + length n + length v \<le> MAX_HEADER_STATE) Large_Session)
         (\<lambda>_. profile_settings (bytes + length n + length v) nvs))"

definition session_new ::
  "header_codec \<Rightarrow> string \<Rightarrow> string \<Rightarrow> string btree \<Rightarrow> (session_error, trino_session) result" where
  "session_new hc database schema parameters =
     and_then (ensure (length database \<le> 1024 \<and> length schema \<le> 1024) Large_Session_Name)
       (\<lambda>_. and_then (ensure (length parameters \<le> MAX_HEADER_ENTRIES) Too_Many_Settings)
         (\<lambda>_. and_then (profile_settings (length database + length schema) parameters)
           (\<lambda>_. let s = empty_session\<lparr>tn_catalog := database, tn_schema := schema, tn_properties := parameters\<rparr> in
                and_then (session_request hc s) (\<lambda>_. Inr s))))"

definition in_transaction :: "trino_session \<Rightarrow> bool" where
  "in_transaction s \<longleftrightarrow> tn_transaction s \<noteq> None"

section \<open>A response\<close>

definition get_all :: "headers \<Rightarrow> string \<Rightarrow> string list" where
  "get_all hs n = map snd (filter (\<lambda>(m, _). m = n) hs)"

definition get_first :: "headers \<Rightarrow> string \<Rightarrow> string option" where
  "get_first hs n = map_of hs n"

definition header_text :: "header_codec \<Rightarrow> string \<Rightarrow> (session_error, string) result" where
  "header_text hc v = and_then (ensure (hc_text_ok hc v) Bad_Header_Value) (\<lambda>_. Inr v)"

definition set_name ::
  "header_codec \<Rightarrow> headers \<Rightarrow> string \<Rightarrow> string \<Rightarrow> (session_error, string) result" where
  "set_name hc hs n old =
     (case get_first hs n of
        None \<Rightarrow> Inr old
      | Some v \<Rightarrow>
          and_then (header_text hc v)
            (\<lambda>t. and_then (ensure (length t \<le> 1024) Large_Session_Name) (\<lambda>_. Inr t)))"

datatype map_kind = Properties | Roles | Prepared

definition kind_map :: "map_kind \<Rightarrow> trino_session \<Rightarrow> string btree" where
  "kind_map k s =
     (case k of Properties \<Rightarrow> tn_properties s | Roles \<Rightarrow> tn_roles s | Prepared \<Rightarrow> tn_prepared s)"

definition with_map :: "map_kind \<Rightarrow> (string btree \<Rightarrow> string btree) \<Rightarrow> trino_session \<Rightarrow> trino_session" where
  "with_map k f s =
     (case k of
        Properties \<Rightarrow> s\<lparr>tn_properties := f (tn_properties s)\<rparr>
      | Roles \<Rightarrow> s\<lparr>tn_roles := f (tn_roles s)\<rparr>
      | Prepared \<Rightarrow> s\<lparr>tn_prepared := f (tn_prepared s)\<rparr>)"

definition set_pair ::
  "header_codec \<Rightarrow> map_kind \<Rightarrow> string \<Rightarrow> trino_session \<Rightarrow> (session_error, trino_session) result" where
  "set_pair hc k pair s =
     and_then (ok_or Bad_Session_Header (split_once (\<lambda>c. c = CHR ''='') (trim pair)))
       (\<lambda>(key, v). and_then (decode_header hc 1024 key)
         (\<lambda>key. and_then (decode_header hc (64 * 1024) v)
           (\<lambda>v. let s' = with_map k (bt_insert key v) s in
                and_then (validate_session hc s') (\<lambda>_. Inr s'))))"

definition clear_key ::
  "header_codec \<Rightarrow> map_kind \<Rightarrow> string \<Rightarrow> trino_session \<Rightarrow> (session_error, trino_session) result" where
  "clear_key hc k text s =
     and_then (decode_header hc 1024 (trim text)) (\<lambda>key. Inr (with_map k (bt_remove key) s))"

text \<open>A loop over the parts of the values of a header.\<close>

fun each_part ::
  "(string \<Rightarrow> 's \<Rightarrow> (session_error, 's) result) \<Rightarrow> string list \<Rightarrow> 's \<Rightarrow> (session_error, 's) result" where
  "each_part f [] s = Inr s"
| "each_part f (p # ps) s = and_then (f p s) (each_part f ps)"

fun each_value ::
  "header_codec \<Rightarrow> (string \<Rightarrow> 's \<Rightarrow> (session_error, 's) result) \<Rightarrow> string list \<Rightarrow> 's \<Rightarrow> (session_error, 's) result" where
  "each_value hc f [] s = Inr s"
| "each_value hc f (v # vs) s =
     and_then (header_text hc v)
       (\<lambda>t. and_then (each_part f (split_char (CHR '','') t) s) (each_value hc f vs))"

definition set_settings :: "header_codec \<Rightarrow> headers \<Rightarrow> trino_session \<Rightarrow> (session_error, trino_session) result" where
  "set_settings hc hs s =
     and_then (each_value hc (set_pair hc Properties) (get_all hs ''x-trino-set-session'') s)
       (\<lambda>s. and_then (each_value hc (set_pair hc Roles) (get_all hs ''x-trino-set-role'') s)
         (each_value hc (set_pair hc Prepared) (get_all hs ''x-trino-added-prepare'')))"

definition clear_settings :: "header_codec \<Rightarrow> headers \<Rightarrow> trino_session \<Rightarrow> (session_error, trino_session) result" where
  "clear_settings hc hs s =
     and_then (each_value hc (clear_key hc Properties) (get_all hs ''x-trino-clear-session'') s)
       (each_value hc (clear_key hc Prepared) (get_all hs ''x-trino-deallocated-prepare''))"

definition set_transaction :: "header_codec \<Rightarrow> headers \<Rightarrow> trino_session \<Rightarrow> (session_error, trino_session) result" where
  "set_transaction hc hs s =
     and_then
       (case get_first hs ''x-trino-started-transaction-id'' of
          None \<Rightarrow> Inr s
        | Some v \<Rightarrow>
            and_then (header_text hc v)
              (\<lambda>t. and_then (ensure (length t \<le> 1024) Large_Session_Name)
                (\<lambda>_. Inr (s\<lparr>tn_transaction := Some t\<rparr>))))
       (\<lambda>s. Inr (if get_first hs ''x-trino-clear-transaction-id'' \<noteq> None then s\<lparr>tn_transaction := None\<rparr> else s))"

definition session_candidate ::
  "header_codec \<Rightarrow> headers \<Rightarrow> trino_session \<Rightarrow> (session_error, trino_session) result" where
  "session_candidate hc hs s =
     and_then (ensure (sum_list (map (length \<circ> snd) hs) \<le> MAX_REQUEST_HEADERS) Large_Response_Headers)
       (\<lambda>_. and_then (set_name hc hs ''x-trino-set-catalog'' (tn_catalog s))
         (\<lambda>cat. and_then (set_name hc hs ''x-trino-set-schema'' (tn_schema s))
           (\<lambda>sch. and_then (set_settings hc hs (s\<lparr>tn_catalog := cat, tn_schema := sch\<rparr>))
             (\<lambda>s. and_then (clear_settings hc hs s)
               (\<lambda>s. and_then (set_transaction hc hs s)
                 (\<lambda>s. and_then (session_request hc s) (\<lambda>_. Inr s)))))))"

text \<open>\<open>apply\<close>: the candidate replaces the session at the end, or nothing changes.\<close>

definition session_apply ::
  "header_codec \<Rightarrow> headers \<Rightarrow> trino_session \<Rightarrow> (session_error, unit) result \<times> trino_session" where
  "session_apply hc hs s =
     (case session_candidate hc hs s of Inl e \<Rightarrow> (Inl e, s) | Inr s' \<Rightarrow> (Inr (), s'))"

section \<open>The session can always be sent\<close>

text \<open>The documented contract of a capacity: it holds the text.\<close>

definition capacities_hold :: "header_codec \<Rightarrow> bool" where
  "capacities_hold hc \<longleftrightarrow> (\<forall>t. length t \<le> hc_capacity hc t)"

definition session_ok :: "header_codec \<Rightarrow> trino_session \<Rightarrow> bool" where
  "session_ok hc s \<longleftrightarrow>
     bt_ok (tn_properties s) \<and> bt_ok (tn_roles s) \<and> bt_ok (tn_prepared s) \<and> (\<exists>hs. session_request hc s = Inr hs)"

definition maps_ok :: "trino_session \<Rightarrow> bool" where
  "maps_ok s \<longleftrightarrow> bt_ok (tn_properties s) \<and> bt_ok (tn_roles s) \<and> bt_ok (tn_prepared s)"

lemma maps_ok_with_map: "maps_ok s \<Longrightarrow> (\<And>m. bt_ok m \<Longrightarrow> bt_ok (f m)) \<Longrightarrow> maps_ok (with_map k f s)"
  by (cases k) (simp_all add: maps_ok_def with_map_def)

definition part_keeps :: "(string \<Rightarrow> 's \<Rightarrow> (session_error, 's) result) \<Rightarrow> ('s \<Rightarrow> bool) \<Rightarrow> bool" where
  "part_keeps f P \<longleftrightarrow> (\<forall>p s s'. f p s = Inr s' \<longrightarrow> P s \<longrightarrow> P s')"

lemma each_part_keeps: "part_keeps f P \<Longrightarrow> each_part f ps s = Inr s' \<Longrightarrow> P s \<Longrightarrow> P s'"
  by (induction ps arbitrary: s) (auto simp: and_then_Inr_iff part_keeps_def)

lemma each_value_keeps: "part_keeps f P \<Longrightarrow> each_value hc f vs s = Inr s' \<Longrightarrow> P s \<Longrightarrow> P s'"
proof (induction vs arbitrary: s)
  case (Cons v vs)
  then obtain t s1 where "each_part f (split_char (CHR '','') t) s = Inr s1" "each_value hc f vs s1 = Inr s'"
    by (auto simp: and_then_Inr_iff)
  with Cons.IH [OF Cons.prems(1)] each_part_keeps [OF Cons.prems(1)] Cons.prems(3) show ?case by blast
qed simp

lemma set_pair_Inr:
  "set_pair hc k pair s = Inr s' \<longleftrightarrow>
     (\<exists>rawk rawv key v. split_once (\<lambda>c. c = CHR ''='') (trim pair) = Some (rawk, rawv)
        \<and> decode_header hc 1024 rawk = Inr key \<and> decode_header hc (64 * 1024) rawv = Inr v
        \<and> validate_session hc (with_map k (bt_insert key v) s) = Inr ()
        \<and> s' = with_map k (bt_insert key v) s)"
  by (auto simp: set_pair_def and_then_Inr_iff ok_or_Inr_iff Let_def split: prod.splits)

lemma set_pair_maps_ok: "part_keeps (set_pair hc k) maps_ok"
  by (auto simp: part_keeps_def set_pair_Inr intro: maps_ok_with_map bt_ok_insert)

lemma clear_key_maps_ok: "part_keeps (clear_key hc k) maps_ok"
  by (auto simp: part_keeps_def clear_key_def and_then_Inr_iff intro: maps_ok_with_map)

lemma set_transaction_keeps:
  "set_transaction hc hs s = Inr s' \<Longrightarrow>
     tn_catalog s' = tn_catalog s \<and> tn_schema s' = tn_schema s \<and> tn_properties s' = tn_properties s
     \<and> tn_roles s' = tn_roles s \<and> tn_prepared s' = tn_prepared s"
  by (auto simp: set_transaction_def and_then_Inr_iff split: option.splits)

lemma session_candidate_Inr:
  "session_candidate hc hs s = Inr s' \<longleftrightarrow>
     sum_list (map (length \<circ> snd) hs) \<le> MAX_REQUEST_HEADERS
     \<and> (\<exists>cat sch s1 s2. set_name hc hs ''x-trino-set-catalog'' (tn_catalog s) = Inr cat
          \<and> set_name hc hs ''x-trino-set-schema'' (tn_schema s) = Inr sch
          \<and> set_settings hc hs (s\<lparr>tn_catalog := cat, tn_schema := sch\<rparr>) = Inr s1
          \<and> clear_settings hc hs s1 = Inr s2 \<and> set_transaction hc hs s2 = Inr s')
     \<and> (\<exists>r. session_request hc s' = Inr r)"
  by (auto simp: session_candidate_def and_then_Inr_iff)

lemma set_settings_maps_ok: "set_settings hc hs s = Inr s' \<Longrightarrow> maps_ok s \<Longrightarrow> maps_ok s'"
  unfolding set_settings_def and_then_Inr_iff
  by (auto dest: each_value_keeps [OF set_pair_maps_ok])

lemma clear_settings_maps_ok: "clear_settings hc hs s = Inr s' \<Longrightarrow> maps_ok s \<Longrightarrow> maps_ok s'"
  unfolding clear_settings_def and_then_Inr_iff
  by (auto dest: each_value_keeps [OF clear_key_maps_ok])

lemma session_ok_candidate:
  assumes "session_ok hc s" "session_candidate hc hs s = Inr s'"
  shows "session_ok hc s'"
proof -
  from assms(2) obtain cat sch s1 s2 where
      1: "set_settings hc hs (s\<lparr>tn_catalog := cat, tn_schema := sch\<rparr>) = Inr s1"
    and 2: "clear_settings hc hs s1 = Inr s2" and 3: "set_transaction hc hs s2 = Inr s'"
    and 4: "\<exists>r. session_request hc s' = Inr r"
    by (auto simp: session_candidate_Inr)
  have "maps_ok (s\<lparr>tn_catalog := cat, tn_schema := sch\<rparr>)" using assms(1) by (simp add: session_ok_def maps_ok_def)
  from set_settings_maps_ok [OF 1 this] have "maps_ok s1" .
  from clear_settings_maps_ok [OF 2 this] have "maps_ok s2" .
  with set_transaction_keeps [OF 3] 4 show ?thesis by (simp add: session_ok_def maps_ok_def)
qed

lemma session_ok_apply: "session_ok hc s \<Longrightarrow> session_ok hc (snd (session_apply hc hs s))"
  by (auto simp: session_apply_def split: sum.split intro: session_ok_candidate)

lemma session_new_Inr:
  assumes "session_new hc database schema parameters = Inr s" "bt_ok parameters"
  shows "session_ok hc s"
  using assms by (auto simp: session_new_def and_then_Inr_iff Let_def session_ok_def empty_session_def)

interpretation session_runs:
  kept_invariant s "\<lambda>hs s. snd (session_apply hc hs s)" "\<lambda>s'. session_ok hc s \<longrightarrow> session_ok hc s'" for hc s
  by unfold_locales (auto intro: session_ok_apply)

section \<open>The headers of a request\<close>

lemma name_headers_Inr:
  "name_headers hc nvs used = Inr (hs, used') \<Longrightarrow>
     used' = used + sum_list (map (length \<circ> snd) nvs) \<and> hs = filter (\<lambda>(_, v). v \<noteq> []) nvs
     \<and> (\<forall>(n, v) \<in> set hs. hc_value_ok hc v)"
proof (induction nvs arbitrary: used hs)
  case (Cons nv nvs)
  obtain n v where nv: "nv = (n, v)" by (cases nv)
  from Cons.prems obtain hs1 where "name_headers hc nvs (used + length v) = Inr (hs1, used')"
    "v = [] \<or> hc_value_ok hc v" "hs = (if v = [] then hs1 else (n, v) # hs1)"
    by (auto simp: nv and_then_Inr_iff)
  with Cons.IH [OF this(1)] show ?case by (auto simp: nv)
qed simp

lemma fold_push_length:
  "t \<noteq> [] \<Longrightarrow> length (fold (push_pair hc) m t) = length t
     + sum_list (map (\<lambda>(k, v). length (hc_encode hc k) + 1 + length (hc_encode hc v)) m) + length m
     \<and> fold (push_pair hc) m t \<noteq> []"
proof (induction m arbitrary: t)
  case (Cons kv m)
  have "push_pair hc kv t \<noteq> []" by (simp add: push_pair_def)
  from Cons.IH [OF this] Cons.prems show ?case by (cases kv) (simp add: push_pair_def)
qed simp

text \<open>The reserved buffer has exactly the size of the text, and only an empty map has no text.\<close>

lemma map_text_size: "length (map_text hc m) = encoded_size hc m \<and> (map_text hc m = [] \<longleftrightarrow> m = [])"
proof (cases m)
  case (Cons kv ms)
  have "push_pair hc kv [] \<noteq> []" by (simp add: push_pair_def)
  from fold_push_length [OF this, of hc ms] show ?thesis
    by (cases kv) (simp add: Cons map_text_def encoded_size_def push_pair_def)
qed (simp add: map_text_def encoded_size_def)

lemma map_headers_Inr:
  "map_headers hc nms used = Inr hs \<Longrightarrow> used \<le> MAX_REQUEST_HEADERS \<or> nms \<noteq> [] \<Longrightarrow>
     used + sum_list (map (length \<circ> snd) hs) \<le> MAX_REQUEST_HEADERS
     \<and> hs = map (\<lambda>(n, m). (n, map_text hc m)) (filter (\<lambda>(_, m). m \<noteq> []) nms)
     \<and> (\<forall>(n, v) \<in> set hs. hc_value_ok hc v)"
proof (induction nms arbitrary: used hs)
  case (Cons nm nms)
  obtain n m where nm: "nm = (n, m)" by (cases nm)
  from Cons.prems(1) obtain hs1 where 1: "map_headers hc nms (used + encoded_size hc m) = Inr hs1"
    "used + encoded_size hc m \<le> MAX_REQUEST_HEADERS"
    "map_text hc m = [] \<or> hc_value_ok hc (map_text hc m)"
    "hs = (if map_text hc m = [] then hs1 else (n, map_text hc m) # hs1)"
    by (auto simp: nm and_then_Inr_iff Let_def)
  from Cons.IH [OF 1(1)] 1 show ?case using map_text_size [of hc m] by (auto simp: nm)
qed auto

lemma session_request_Inr:
  assumes "session_request hc s = Inr hs"
  shows "validate_session hc s = Inr ()"
    "hs = filter (\<lambda>(_, v). v \<noteq> [])
        [(''x-trino-catalog'', tn_catalog s), (''x-trino-schema'', tn_schema s),
         (''x-trino-transaction-id'', transaction_text s)]
      @ map (\<lambda>(n, m). (n, map_text hc m)) (filter (\<lambda>(_, m). m \<noteq> [])
        [(''x-trino-session'', tn_properties s), (''x-trino-role'', tn_roles s),
         (''x-trino-prepared-statement'', tn_prepared s)])"
    "sum_list (map (length \<circ> snd) hs) \<le> MAX_REQUEST_HEADERS"
    "\<forall>(n, v) \<in> set hs. hc_value_ok hc v"
proof -
  let ?names = "[(''x-trino-catalog'', tn_catalog s), (''x-trino-schema'', tn_schema s),
         (''x-trino-transaction-id'', transaction_text s)]"
  let ?maps = "[(''x-trino-session'', tn_properties s), (''x-trino-role'', tn_roles s),
         (''x-trino-prepared-statement'', tn_prepared s)]"
  from assms obtain names used maps where v: "validate_session hc s = Inr ()"
    and n: "name_headers hc ?names 0 = Inr (names, used)" and m: "map_headers hc ?maps used = Inr maps"
    and hs: "hs = names @ maps"
    unfolding session_request_def by (auto simp: and_then_Inr_iff simp del: name_headers.simps map_headers.simps)
  show "validate_session hc s = Inr ()" by (rule v)
  note n = name_headers_Inr [OF n] and m = map_headers_Inr [OF m]
  show "hs = filter (\<lambda>(_, v). v \<noteq> []) ?names @ map (\<lambda>(n, m). (n, map_text hc m)) (filter (\<lambda>(_, m). m \<noteq> []) ?maps)"
    unfolding hs using n m by blast
  have "sum_list (map (length \<circ> snd) names) \<le> used"
    using n by simp
  moreover have "used + sum_list (map (length \<circ> snd) maps) \<le> MAX_REQUEST_HEADERS" using m by blast
  ultimately show "sum_list (map (length \<circ> snd) hs) \<le> MAX_REQUEST_HEADERS" unfolding hs by simp
  show "\<forall>(n, v) \<in> set hs. hc_value_ok hc v" unfolding hs using n m by auto
qed

section \<open>What a response changes\<close>

text \<open>The parts of all values of a header, and what a part sets.\<close>

definition header_parts :: "headers \<Rightarrow> string \<Rightarrow> string list" where
  "header_parts hs n = concat (map (split_char (CHR '','')) (get_all hs n))"

definition part_pair :: "header_codec \<Rightarrow> string \<Rightarrow> string \<times> string" where
  "part_pair hc part =
     (case split_once (\<lambda>c. c = CHR ''='') (trim part) of
        None \<Rightarrow> ([], [])
      | Some (k, v) \<Rightarrow> (hc_decode hc k, hc_decode hc v))"

lemma decode_header_Inr: "decode_header hc limit t = Inr u \<Longrightarrow> u = hc_decode hc t"
  by (auto simp: decode_header_def and_then_Inr_iff Let_def)

lemma header_text_Inr: "header_text hc v = Inr t \<longleftrightarrow> t = v \<and> hc_text_ok hc v"
  by (auto simp: header_text_def and_then_Inr_iff)

lemma each_part_append: "each_part f (ps @ qs) s = and_then (each_part f ps s) (each_part f qs)"
proof (induction ps arbitrary: s)
  case (Cons p ps)
  then show ?case by (cases "f p s") simp_all
qed simp

lemma each_value_Inr:
  "each_value hc f vs s = Inr s' \<longleftrightarrow>
     list_all (hc_text_ok hc) vs \<and> each_part f (concat (map (split_char (CHR '','')) vs)) s = Inr s'"
proof (induction vs arbitrary: s)
  case (Cons v vs)
  show ?case by (auto simp: Cons each_part_append and_then_Inr_iff header_text_Inr)
qed simp

lemma with_map_fuse: "with_map k f (with_map k g s) = with_map k (f \<circ> g) s"
  by (cases k) (simp_all add: with_map_def)

lemma with_map_id: "with_map k id s = s"
  by (cases k) (simp_all add: with_map_def)

lemma set_parts:
  "each_part (set_pair hc k) ps s = Inr s' \<Longrightarrow>
     s' = with_map k (fold (\<lambda>(a, b). bt_insert a b) (map (part_pair hc) ps)) s"
proof (induction ps arbitrary: s)
  case (Cons p ps)
  then obtain s1 where 1: "set_pair hc k p s = Inr s1" "each_part (set_pair hc k) ps s1 = Inr s'"
    by (auto simp: and_then_Inr_iff)
  then have "s1 = with_map k (bt_insert (fst (part_pair hc p)) (snd (part_pair hc p))) s"
    by (auto simp: set_pair_Inr part_pair_def dest!: decode_header_Inr)
  with Cons.IH [OF 1(2)] show ?case by (simp add: with_map_fuse comp_def case_prod_unfold)
qed (simp add: with_map_id)

lemma clear_parts:
  "each_part (clear_key hc k) ps s = Inr s' \<Longrightarrow>
     s' = with_map k (fold bt_remove (map (\<lambda>p. hc_decode hc (trim p)) ps)) s"
proof (induction ps arbitrary: s)
  case (Cons p ps)
  then obtain s1 where 1: "clear_key hc k p s = Inr s1" "each_part (clear_key hc k) ps s1 = Inr s'"
    by (auto simp: and_then_Inr_iff)
  then have "s1 = with_map k (bt_remove (hc_decode hc (trim p))) s"
    by (auto simp: clear_key_def and_then_Inr_iff dest!: decode_header_Inr)
  with Cons.IH [OF 1(2)] show ?case by (simp add: with_map_fuse comp_def)
qed (simp add: with_map_id)

lemma bt_map_of_fold_remove: "map_of (fold bt_remove ks m) k = (if k \<in> set ks then None else map_of m k)"
  by (induction ks arbitrary: m) auto

definition put_pairs :: "(string \<times> string) list \<Rightarrow> string btree \<Rightarrow> string btree" where
  "put_pairs ps m = fold (\<lambda>(a, b). bt_insert a b) ps m"

lemma map_of_put_pairs: "map_of (put_pairs ps m) k = map_of (rev ps @ m) k"
  by (simp add: put_pairs_def bt_map_of_fold_insert map_add_def)

text \<open>The value of a setting after a response: the last that it sets, unless it clears it.\<close>

definition setting_after ::
  "header_codec \<Rightarrow> headers \<Rightarrow> string \<Rightarrow> string option \<Rightarrow> string btree \<Rightarrow> string \<Rightarrow> string option" where
  "setting_after hc hs set_name_of clear_name m key =
     (if (case clear_name of None \<Rightarrow> False
          | Some c \<Rightarrow> key \<in> set (map (\<lambda>p. hc_decode hc (trim p)) (header_parts hs c)))
      then None
      else map_of (rev (map (part_pair hc) (header_parts hs set_name_of)) @ m) key)"

definition transaction_after :: "headers \<Rightarrow> string option \<Rightarrow> string option" where
  "transaction_after hs old =
     (if get_first hs ''x-trino-clear-transaction-id'' \<noteq> None then None
      else case get_first hs ''x-trino-started-transaction-id'' of None \<Rightarrow> old | Some t \<Rightarrow> Some t)"

lemma set_name_Inr: "set_name hc hs n old = Inr t \<Longrightarrow> t = (case get_first hs n of None \<Rightarrow> old | Some v \<Rightarrow> v)"
  by (auto simp: set_name_def and_then_Inr_iff header_text_Inr split: option.splits)

lemma session_candidate_effect:
  assumes "session_candidate hc hs s = Inr s'"
  shows "tn_catalog s' = (case get_first hs ''x-trino-set-catalog'' of None \<Rightarrow> tn_catalog s | Some v \<Rightarrow> v)"
    "tn_schema s' = (case get_first hs ''x-trino-set-schema'' of None \<Rightarrow> tn_schema s | Some v \<Rightarrow> v)"
    "map_of (tn_properties s') k
       = setting_after hc hs ''x-trino-set-session'' (Some ''x-trino-clear-session'') (tn_properties s) k"
    "map_of (tn_roles s') k = setting_after hc hs ''x-trino-set-role'' None (tn_roles s) k"
    "map_of (tn_prepared s') k
       = setting_after hc hs ''x-trino-added-prepare'' (Some ''x-trino-deallocated-prepare'') (tn_prepared s) k"
    "tn_transaction s' = transaction_after hs (tn_transaction s)"
proof -
  from assms obtain cat sch s1 s2 where names: "set_name hc hs ''x-trino-set-catalog'' (tn_catalog s) = Inr cat"
      "set_name hc hs ''x-trino-set-schema'' (tn_schema s) = Inr sch"
    and 1: "set_settings hc hs (s\<lparr>tn_catalog := cat, tn_schema := sch\<rparr>) = Inr s1"
    and 2: "clear_settings hc hs s1 = Inr s2" and 3: "set_transaction hc hs s2 = Inr s'"
    by (auto simp: session_candidate_Inr)
  let ?pairs = "\<lambda>n. put_pairs (map (part_pair hc) (header_parts hs n))"
  let ?clear = "\<lambda>n. fold bt_remove (map (\<lambda>p. hc_decode hc (trim p)) (header_parts hs n))"
  from 1 have s1: "s1 = with_map Prepared (?pairs ''x-trino-added-prepare'') (with_map Roles (?pairs ''x-trino-set-role'')
      (with_map Properties (?pairs ''x-trino-set-session'') (s\<lparr>tn_catalog := cat, tn_schema := sch\<rparr>)))"
    unfolding set_settings_def and_then_Inr_iff each_value_Inr put_pairs_def header_parts_def
    by (auto dest!: set_parts)
  from 2 have s2: "s2 = with_map Prepared (?clear ''x-trino-deallocated-prepare'')
      (with_map Properties (?clear ''x-trino-clear-session'') s1)"
    unfolding clear_settings_def and_then_Inr_iff each_value_Inr header_parts_def
    by (auto dest!: clear_parts)
  note keep = set_transaction_keeps [OF 3]
  show "tn_catalog s' = (case get_first hs ''x-trino-set-catalog'' of None \<Rightarrow> tn_catalog s | Some v \<Rightarrow> v)"
    "tn_schema s' = (case get_first hs ''x-trino-set-schema'' of None \<Rightarrow> tn_schema s | Some v \<Rightarrow> v)"
    using keep names [THEN set_name_Inr] by (simp_all add: s1 s2 with_map_def)
  show "map_of (tn_properties s') k
       = setting_after hc hs ''x-trino-set-session'' (Some ''x-trino-clear-session'') (tn_properties s) k"
    "map_of (tn_roles s') k = setting_after hc hs ''x-trino-set-role'' None (tn_roles s) k"
    "map_of (tn_prepared s') k
       = setting_after hc hs ''x-trino-added-prepare'' (Some ''x-trino-deallocated-prepare'') (tn_prepared s) k"
    using keep by (simp_all add: s1 s2 with_map_def bt_map_of_fold_remove map_of_put_pairs setting_after_def)
  show "tn_transaction s' = transaction_after hs (tn_transaction s)"
    using 3 by (auto simp: set_transaction_def and_then_Inr_iff header_text_Inr transaction_after_def s1 s2 with_map_def
        split: option.splits)
qed

lemma sum_list_mono_length:
  "capacities_hold hc \<Longrightarrow> sum_list (map length (session_names s)) + sum_list (map (\<lambda>(n, v). length n + length v) (session_settings s))
     \<le> session_capacity hc s"
  unfolding session_capacity_def capacities_hold_def
  by (intro add_mono sum_list_mono) (auto intro: add_mono)

text \<open>
  C12. A session follows its server and can always be sent. From a new session and after any
  responses, accepted or refused, the headers of the next request can be built: each value is a
  valid header, together they stay in 512 KiB, and the state stays in 1024 settings and 256 KiB. A
  refused response changes nothing. After an accepted one each setting has the last value that the
  response gives it, unless the response clears it, and the catalog, the schema and the transaction
  are those of the response.
\<close>

theorem session_follows_the_server:
  assumes "session_new hc database schema parameters = Inr s0" "bt_ok parameters" "capacities_hold hc"
    and "s = run_from (\<lambda>hs s. snd (session_apply hc hs s)) s0 responses"
  shows "(\<exists>hs. session_request hc s = Inr hs \<and> sum_list (map (length \<circ> snd) hs) \<le> MAX_REQUEST_HEADERS
        \<and> (\<forall>(n, v) \<in> set hs. hc_value_ok hc v))
    \<and> length (session_settings s) \<le> MAX_HEADER_ENTRIES
    \<and> sum_list (map length (session_names s)) + sum_list (map (\<lambda>(n, v). length n + length v) (session_settings s))
        \<le> MAX_HEADER_STATE
    \<and> (case session_apply hc r s of
         (Inl e, s') \<Rightarrow> s' = s
       | (Inr u, s') \<Rightarrow>
           tn_catalog s' = (case get_first r ''x-trino-set-catalog'' of None \<Rightarrow> tn_catalog s | Some v \<Rightarrow> v)
           \<and> tn_schema s' = (case get_first r ''x-trino-set-schema'' of None \<Rightarrow> tn_schema s | Some v \<Rightarrow> v)
           \<and> map_of (tn_properties s') k
               = setting_after hc r ''x-trino-set-session'' (Some ''x-trino-clear-session'') (tn_properties s) k
           \<and> map_of (tn_roles s') k = setting_after hc r ''x-trino-set-role'' None (tn_roles s) k
           \<and> map_of (tn_prepared s') k
               = setting_after hc r ''x-trino-added-prepare'' (Some ''x-trino-deallocated-prepare'') (tn_prepared s) k
           \<and> tn_transaction s' = transaction_after r (tn_transaction s))"
proof -
  have "session_ok hc s0" by (rule session_new_Inr [OF assms(1,2)])
  with session_runs.inv_run [of hc s0 responses] have "session_ok hc s" by (simp add: assms(4))
  then obtain hs where hs: "session_request hc s = Inr hs" by (auto simp: session_ok_def)
  note sent = session_request_Inr [OF hs]
  have valid: "length (session_settings s) \<le> MAX_HEADER_ENTRIES" "session_capacity hc s \<le> MAX_HEADER_STATE"
    using sent(1) by (auto simp: validate_session_def and_then_Inr_iff)
  have size: "sum_list (map length (session_names s)) + sum_list (map (\<lambda>(n, v). length n + length v) (session_settings s))
      \<le> MAX_HEADER_STATE"
    using sum_list_mono_length [OF assms(3), of s] valid(2) by (rule order_trans)
  have request: "\<exists>hs. session_request hc s = Inr hs \<and> sum_list (map (length \<circ> snd) hs) \<le> MAX_REQUEST_HEADERS
      \<and> (\<forall>(n, v) \<in> set hs. hc_value_ok hc v)"
    using hs sent(3,4) by blast
  show ?thesis
  proof (cases "session_candidate hc r s")
    case (Inl e)
    with request valid(1) size show ?thesis by (simp add: session_apply_def)
  next
    case (Inr s')
    note effect = session_candidate_effect [OF Inr]
    from Inr have "session_apply hc r s = (Inr (), s')" by (simp add: session_apply_def)
    with request valid(1) size effect show ?thesis by simp
  qed
qed

definition plain_header_codec :: header_codec where
  "plain_header_codec =
     \<lparr>hc_encode = (\<lambda>t. t), hc_decode = (\<lambda>t. t), hc_value_ok = list_all (\<lambda>c. 32 \<le> byte c),
      hc_text_ok = (\<lambda>_. True), hc_capacity = length\<rparr>"

definition sample_responses :: "headers list" where
  "sample_responses =
     [[(''x-trino-set-schema'', ''s2''), (''x-trino-set-session'', ''a=1, b=2''), (''x-trino-started-transaction-id'', ''t1'')],
      [(''x-trino-set-catalog'', ''lost''), (''x-trino-set-role'', ''no pair'')],
      [(''x-trino-set-session'', ''b=3''), (''x-trino-clear-session'', ''a'')]]"

definition sample_session :: trino_session where
  "sample_session = empty_session\<lparr>tn_catalog := ''c'', tn_schema := ''s'', tn_properties := [(''z'', ''0'')]\<rparr>"

theorem session_follows_the_server_witness:
  "tn_catalog (run_from (\<lambda>hs s. snd (session_apply plain_header_codec hs s)) sample_session sample_responses) = ''c''
   \<and> tn_properties (run_from (\<lambda>hs s. snd (session_apply plain_header_codec hs s)) sample_session sample_responses)
     = [(''b'', ''3''), (''z'', ''0'')]
   \<and> (\<exists>hs. session_request plain_header_codec
         (run_from (\<lambda>hs s. snd (session_apply plain_header_codec hs s)) sample_session sample_responses) = Inr hs)"
proof -
  let ?s = "run_from (\<lambda>hs s. snd (session_apply plain_header_codec hs s)) sample_session sample_responses"
  have 1: "session_new plain_header_codec ''c'' ''s'' [(''z'', ''0'')] = Inr sample_session"
    and 2: "tn_catalog ?s = ''c''" "tn_properties ?s = [(''b'', ''3''), (''z'', ''0'')]"
    by code_simp+
  have 3: "bt_ok [(''z'', ''0'')]" "capacities_hold plain_header_codec"
    by (simp_all add: bt_ok_def capacities_hold_def plain_header_codec_def)
  from session_follows_the_server [OF 1 3 refl, of sample_responses "[]" "[]"]
  have "\<exists>hs. session_request plain_header_codec ?s = Inr hs" by blast
  with 2 show ?thesis by simp
qed

end
