(* ===== verification/Profiles.thy ===== *)
theory Profiles
  imports Catalog_Settings Schema_Rules Names Btree
begin

text \<open>
  Connections and sign-ins of a workspace (\<open>src/model.rs\<close>, \<open>src/model/transfer.rs\<close>): the policy of
  transfers, the profile of a connection with the identity of its session, its checks and its
  repair, the reusable sign-ins, and the text in which a sign-in is given to another user.

  The url crate and serde\_json are parameters; a UUID is a number.
\<close>

section \<open>Transfers\<close>

datatype transfer_preset = Conservative | Balanced | Fast | Custom_Preset
datatype incremental_collect = Inherit | Collect_On | Collect_Off
datatype trino_spooling = Spooling_Off | Serial | Parallel

record transfer_settings =
  ts_incremental_collect :: incremental_collect
  ts_request_mib :: nat
  ts_speed_limit_mb :: nat
  ts_concurrent_exports :: nat
  ts_trino_spooling :: trino_spooling

record transfer =
  tf_preset :: transfer_preset
  tf_custom :: transfer_settings

definition MAX_FETCH_ROWS :: nat where "MAX_FETCH_ROWS = 100000"

definition collect_value :: "incremental_collect \<Rightarrow> string option" where
  "collect_value c =
     (case c of Inherit \<Rightarrow> None | Collect_On \<Rightarrow> Some ''true'' | Collect_Off \<Rightarrow> Some ''false'')"

text \<open>The first token that is neither blank nor a comment decides.\<close>

definition incremental_override_applies :: "unicode \<Rightarrow> string \<Rightarrow> bool" where
  "incremental_override_applies u sql =
     (if contains_str sql ''${'' then False
      else
        (case List.find (\<lambda>(r, k). k \<noteq> Comment \<and> \<not> blank (slice sql r)) (tokens u sql) of
           None \<Rightarrow> True
         | Some (r, _) \<Rightarrow>
             \<not> (eq_ignore_ascii_case (slice sql r) ''SET'' \<or> eq_ignore_ascii_case (slice sql r) ''RESET'')))"

definition transfer_settings_default :: transfer_settings where
  "transfer_settings_default =
     \<lparr>ts_incremental_collect = Inherit, ts_request_mib = 16, ts_speed_limit_mb = 0, ts_concurrent_exports = 1,
      ts_trino_spooling = Serial\<rparr>"

datatype transfer_error = Request_size | Speed_limit

definition transfer_settings_validate :: "transfer_settings \<Rightarrow> (transfer_error, unit) result" where
  "transfer_settings_validate t =
     and_then (ensure (1 \<le> ts_request_mib t \<and> ts_request_mib t \<le> 32) Request_size)
       (\<lambda>_. ensure (ts_speed_limit_mb t \<le> 1000) Speed_limit)"

definition clamp :: "nat \<Rightarrow> nat \<Rightarrow> nat \<Rightarrow> nat" where
  "clamp low high n = (if n < low then low else if high < n then high else n)"

definition request_rows :: "transfer_settings \<Rightarrow> nat \<Rightarrow> nat" where
  "request_rows t widest =
     (let width = max widest 1024;
          estimate = saturating_add width (width div 4)
      in clamp 1 MAX_FETCH_ROWS (ts_request_mib t * 1024 * 1024 div estimate))"

definition effective_transfer :: "transfer \<Rightarrow> transfer_settings" where
  "effective_transfer t =
     (case tf_preset t of
        Conservative \<Rightarrow>
          \<lparr>ts_incremental_collect = Collect_On, ts_request_mib = 4, ts_speed_limit_mb = 20, ts_concurrent_exports = 1,
           ts_trino_spooling = Spooling_Off\<rparr>
      | Balanced \<Rightarrow> transfer_settings_default
      | Fast \<Rightarrow>
          transfer_settings_default\<lparr>ts_request_mib := 32, ts_concurrent_exports := 2, ts_trino_spooling := Parallel\<rparr>
      | Custom_Preset \<Rightarrow> tf_custom t)"

definition transfer_validate :: "transfer \<Rightarrow> (transfer_error, unit) result" where
  "transfer_validate t = transfer_settings_validate (tf_custom t)"

definition transfer_default :: transfer where
  "transfer_default = \<lparr>tf_preset = Balanced, tf_custom = transfer_settings_default\<rparr>"

section \<open>Profiles\<close>

datatype postgres_ssl_mode = Ssl_Disable | Ssl_Require | Ssl_Verify_Full
datatype catalog_column_reads = Read_Table | Read_Schema
datatype authentication = Auth_Password | Auth_Oidc nat | Auth_Trino_External

definition auth_sign_in :: "authentication \<Rightarrow> nat option" where
  "auth_sign_in a = (case a of Auth_Oidc s \<Rightarrow> Some s | _ \<Rightarrow> None)"

record profile =
  pf_database_type :: database_type
  pf_id :: nat
  pf_name :: string
  pf_host :: string
  pf_port :: nat
  pf_username :: string
  pf_database :: string
  pf_trino_schema :: string
  pf_parameters :: "string btree"
  pf_transfer :: transfer
  pf_lifecycle :: connection_lifecycle
  pf_catalog :: catalog_settings
  pf_catalog_column_reads :: catalog_column_reads
  pf_shared_catalog :: "nat option"
  pf_tls :: bool
  pf_postgres_ssl_mode :: "postgres_ssl_mode option"
  pf_authentication :: authentication
  pf_assistant_notes :: string
  pf_dbt :: "dbt_project option"

definition MAX_ASSISTANT_NOTES_BYTES :: nat where "MAX_ASSISTANT_NOTES_BYTES = 16 * 1024"

definition profile_default :: "nat \<Rightarrow> profile" where
  "profile_default uuid =
     \<lparr>pf_database_type = Kyuubi, pf_id = uuid, pf_name = ''Spark'', pf_host = [], pf_port = 10009, pf_username = [],
      pf_database = ''avia'', pf_trino_schema = [], pf_parameters = [], pf_transfer = transfer_default,
      pf_lifecycle = lifecycle_default, pf_catalog = catalog_settings_default, pf_catalog_column_reads = Read_Table,
      pf_shared_catalog = None, pf_tls = False, pf_postgres_ssl_mode = None, pf_authentication = Auth_Password,
      pf_assistant_notes = [], pf_dbt = None\<rparr>"

definition ssl_mode :: "profile \<Rightarrow> postgres_ssl_mode" where
  "ssl_mode p =
     (case pf_postgres_ssl_mode p of
        Some m \<Rightarrow> m
      | None \<Rightarrow> if pf_tls p then Ssl_Verify_Full else Ssl_Disable)"

definition connection_identity_eq :: "profile \<Rightarrow> profile \<Rightarrow> bool" where
  "connection_identity_eq a b \<longleftrightarrow>
     pf_id a = pf_id b \<and> pf_database_type a = pf_database_type b \<and> pf_host a = pf_host b \<and> pf_port a = pf_port b
     \<and> pf_username a = pf_username b \<and> pf_database a = pf_database b
     \<and> (pf_database_type a \<noteq> Trino \<or> pf_trino_schema a = pf_trino_schema b)
     \<and> pf_parameters a = pf_parameters b
     \<and> (if pf_database_type a = Postgres then ssl_mode a = ssl_mode b else pf_tls a = pf_tls b)
     \<and> pf_authentication a = pf_authentication b"

datatype profile_error =
    No_name | Long_name | No_host | No_port | No_username | Null_username | No_database | Large_notes
  | Postgres_password | Trino_tls | External_trino | Bad_transfer transfer_error | Bad_settings settings_error
  | Bad_dbt dbt_error

definition map_error :: "('e \<Rightarrow> 'f) \<Rightarrow> ('e, 'a) result \<Rightarrow> ('f, 'a) result" where
  "map_error f r = (case r of Inl e \<Rightarrow> Inl (f e) | Inr a \<Rightarrow> Inr a)"

definition profile_validate :: "unicode \<Rightarrow> profile \<Rightarrow> (profile_error, unit) result" where
  "profile_validate u p =
     and_then (ensure (\<not> blank (pf_name p)) No_name) (\<lambda>_.
     and_then (map_error Bad_transfer (transfer_validate (pf_transfer p))) (\<lambda>_.
     and_then (ensure (char_count (pf_name p) \<le> MAX_PROFILE_NAME) Long_name) (\<lambda>_.
     and_then (ensure (\<not> blank (pf_host p)) No_host) (\<lambda>_.
     and_then (ensure (pf_port p \<noteq> 0) No_port) (\<lambda>_.
     and_then (ensure (\<not> blank (pf_username p)) No_username) (\<lambda>_.
     and_then (ensure (CHR 0x00 \<notin> set (pf_username p)) Null_username) (\<lambda>_.
     and_then (ensure (\<not> blank (pf_database p)) No_database) (\<lambda>_.
     and_then (ensure (length (pf_assistant_notes p) \<le> MAX_ASSISTANT_NOTES_BYTES) Large_notes) (\<lambda>_.
     and_then (ensure (pf_database_type p \<noteq> Postgres \<or> pf_authentication p = Auth_Password) Postgres_password) (\<lambda>_.
     and_then (ensure (pf_database_type p \<noteq> Trino \<or> pf_authentication p = Auth_Password \<or> pf_tls p) Trino_tls) (\<lambda>_.
     and_then (ensure (pf_authentication p \<noteq> Auth_Trino_External \<or> pf_database_type p = Trino) External_trino) (\<lambda>_.
     and_then (map_error Bad_settings (lifecycle_validate u (pf_lifecycle p))) (\<lambda>_.
     and_then (case pf_dbt p of None \<Rightarrow> Inr () | Some d \<Rightarrow> map_error Bad_dbt (dbt_validate d)) (\<lambda>_.
     map_error Bad_settings (catalog_validate (pf_catalog p))))))))))))))))"

section \<open>Repair of a profile\<close>

definition rule_valid :: "schema_rule \<Rightarrow> bool" where
  "rule_valid r \<longleftrightarrow>
     is_ok (dbt_validate \<lparr>dp_manifest = ''/'', dp_refresh = Manual_refresh, dp_schema_mapping = [r]\<rparr>)"

definition profile_sanitize :: "profile \<Rightarrow> profile" where
  "profile_sanitize p =
     p\<lparr>pf_dbt := map_option
          (\<lambda>d. d\<lparr>dp_schema_mapping := take MAX_SCHEMA_RULES (filter rule_valid (dp_schema_mapping d))\<rparr>) (pf_dbt p),
        pf_assistant_notes :=
          (if MAX_ASSISTANT_NOTES_BYTES < length (pf_assistant_notes p)
           then take (floor_char_boundary (pf_assistant_notes p) MAX_ASSISTANT_NOTES_BYTES) (pf_assistant_notes p)
           else pf_assistant_notes p)\<rparr>"

section \<open>Sign-ins\<close>

datatype sign_in_provider = Oidc | Legacy_Trino_External

record account =
  id_issuer :: string
  id_subject :: string
  id_name :: "string option"
  id_email :: "string option"

definition account_display :: "account \<Rightarrow> string" where
  "account_display i =
     (case id_email i of
        Some e \<Rightarrow> e
      | None \<Rightarrow> (case id_name i of Some n \<Rightarrow> n | None \<Rightarrow> id_subject i))"

record sign_in =
  si_id :: nat
  si_name :: string
  si_provider :: sign_in_provider
  si_issuer :: string
  si_client_id :: string
  si_scopes :: "string list"
  si_resource :: "string option"
  si_callback_ports :: "nat list"
  si_identity :: "account option"

definition MAX_CALLBACK_PORTS :: nat where "MAX_CALLBACK_PORTS = 16"

definition sign_in_default :: "nat \<Rightarrow> sign_in" where
  "sign_in_default uuid =
     \<lparr>si_id = uuid, si_name = [], si_provider = Oidc, si_issuer = [], si_client_id = [], si_scopes = [],
      si_resource = None, si_callback_ports = [], si_identity = None\<rparr>"

definition token_requirements_eq :: "sign_in \<Rightarrow> sign_in \<Rightarrow> bool" where
  "token_requirements_eq a b \<longleftrightarrow>
     si_id a = si_id b \<and> si_provider a = si_provider b \<and> si_issuer a = si_issuer b \<and> si_client_id a = si_client_id b
     \<and> extra_scopes (si_scopes a) = extra_scopes (si_scopes b) \<and> si_resource a = si_resource b"

definition requested_scopes :: "sign_in \<Rightarrow> string list" where
  "requested_scopes s = BASE_SCOPES @ extra_scopes (si_scopes s)"

text \<open>A URL as the url crate parses it.\<close>

record url =
  ur_scheme :: string
  ur_host :: "string option"
  ur_query :: "string option"
  ur_fragment :: "string option"
  ur_username :: string
  ur_password :: "string option"

type_synonym url_parser = "string \<Rightarrow> url option"

datatype sign_in_error =
    No_sign_in_name | Long_sign_in_name | Bad_issuer | No_client_id | Bad_client_id | Bad_scope string | Bad_resource
  | Too_many_ports | Bad_port

definition printable_char :: "string \<Rightarrow> bool" where
  "printable_char c \<longleftrightarrow> 32 \<le> code_point c \<and> code_point c \<le> 126"

definition scope_char :: "string \<Rightarrow> bool" where
  "scope_char c \<longleftrightarrow>
     c = ''!'' \<or> 35 \<le> code_point c \<and> code_point c \<le> 91 \<or> 93 \<le> code_point c \<and> code_point c \<le> 126"

definition issuer_ok :: "url \<Rightarrow> bool" where
  "issuer_ok v \<longleftrightarrow>
     ur_scheme v = ''https'' \<and> ur_host v \<noteq> None \<and> ur_query v = None \<and> ur_fragment v = None \<and> ur_username v = []
     \<and> ur_password v = None"

definition oidc_validate :: "url_parser \<Rightarrow> sign_in \<Rightarrow> (sign_in_error, unit) result" where
  "oidc_validate parse s =
     and_then (ok_or Bad_issuer (parse (si_issuer s))) (\<lambda>issuer.
     and_then (ensure (issuer_ok issuer) Bad_issuer) (\<lambda>_.
     and_then (ensure (\<not> blank (si_client_id s)) No_client_id) (\<lambda>_.
     and_then (ensure (list_all printable_char (chunks (si_client_id s))) Bad_client_id) (\<lambda>_.
     and_then (check_all (\<lambda>scope. ensure (scope \<noteq> [] \<and> list_all scope_char (chunks scope)) (Bad_scope scope)) (si_scopes s)) (\<lambda>_.
     case si_resource s of
       None \<Rightarrow> Inr ()
     | Some r \<Rightarrow> and_then (ok_or Bad_resource (parse r)) (\<lambda>v. ensure (ur_fragment v = None) Bad_resource))))))"

definition sign_in_validate :: "url_parser \<Rightarrow> sign_in \<Rightarrow> (sign_in_error, unit) result" where
  "sign_in_validate parse s =
     and_then (ensure (\<not> blank (si_name s)) No_sign_in_name) (\<lambda>_.
     and_then (ensure (char_count (si_name s) \<le> MAX_SIGN_IN_NAME) Long_sign_in_name) (\<lambda>_.
     and_then (if si_provider s = Oidc then oidc_validate parse s else Inr ()) (\<lambda>_.
     and_then (ensure (length (si_callback_ports s) \<le> MAX_CALLBACK_PORTS) Too_many_ports) (\<lambda>_.
     ensure (0 \<notin> set (si_callback_ports s)) Bad_port))))"

text \<open>The saved form of the ports: one number before there was a list.\<close>

datatype saved_ports = One_Port nat | Many_Ports "nat list"

definition callback_ports :: "saved_ports \<Rightarrow> nat list" where
  "callback_ports p = (case p of One_Port n \<Rightarrow> if n = 0 then [] else [n] | Many_Ports ns \<Rightarrow> ns)"

section \<open>A sign-in as text\<close>

definition SHARED_SIGN_IN_VERSION :: nat where "SHARED_SIGN_IN_VERSION = 2"
definition MAX_SHARED_SIGN_IN_BYTES :: nat where "MAX_SHARED_SIGN_IN_BYTES = 64 * 1024"
definition STARTS_PER_MARKER :: nat where "STARTS_PER_MARKER = 4"

record shared_sign_in =
  sh_version :: nat
  sh_name :: string
  sh_provider :: sign_in_provider
  sh_issuer :: string
  sh_client_id :: string
  sh_scopes :: "string list"
  sh_resource :: "string option"
  sh_callback_ports :: "nat list"

text \<open>
  serde\_json: the pretty text of the settings, the first value that a text starts with, whether a
  value has the marker, the number in it, and the settings in a value.
\<close>

record 'v shared_codec =
  sj_text :: "shared_sign_in \<Rightarrow> string"
  sj_first :: "string \<Rightarrow> 'v option"
  sj_marked :: "'v \<Rightarrow> bool"
  sj_version :: "'v \<Rightarrow> nat option"
  sj_settings :: "'v \<Rightarrow> shared_sign_in option"

definition shared_settings :: "sign_in \<Rightarrow> shared_sign_in" where
  "shared_settings s =
     \<lparr>sh_version = (if si_provider s = Oidc then 1 else SHARED_SIGN_IN_VERSION), sh_name = si_name s,
      sh_provider = si_provider s, sh_issuer = si_issuer s, sh_client_id = si_client_id s,
      sh_scopes = extra_scopes (si_scopes s), sh_resource = si_resource s,
      sh_callback_ports = si_callback_ports s\<rparr>"

definition to_shared_text :: "'v shared_codec \<Rightarrow> sign_in \<Rightarrow> string" where
  "to_shared_text sj s = sj_text sj (shared_settings s)"

definition MARKER :: string where
  "MARKER = [double_quote] @ ''qrow_sign_in'' @ [double_quote]"

text \<open>\<open>match_indices\<close> of a text that cannot overlap itself, and \<open>rmatch_indices\<close> of a character.\<close>

definition match_indices :: "string \<Rightarrow> string \<Rightarrow> nat list" where
  "match_indices txt p = filter (\<lambda>i. starts_with (drop i txt) p) [0..<length txt]"

definition rmatch_char :: "string \<Rightarrow> char \<Rightarrow> nat list" where
  "rmatch_char txt c = rev (filter (\<lambda>i. txt ! i = c) [0..<length txt])"

fun find_map :: "('a \<Rightarrow> 'b option) \<Rightarrow> 'a list \<Rightarrow> 'b option" where
  "find_map f [] = None"
| "find_map f (x # xs) = (case f x of Some y \<Rightarrow> Some y | None \<Rightarrow> find_map f xs)"

definition object_at :: "'v shared_codec \<Rightarrow> string \<Rightarrow> nat \<Rightarrow> 'v option" where
  "object_at sj txt start =
     (case sj_first sj (drop start txt) of
        None \<Rightarrow> None
      | Some v \<Rightarrow> if sj_marked sj v then Some v else None)"

definition shared_sign_in_object :: "'v shared_codec \<Rightarrow> string \<Rightarrow> 'v option" where
  "shared_sign_in_object sj txt =
     find_map
       (\<lambda>m. find_map (object_at sj txt) (take STARTS_PER_MARKER (rmatch_char (take m txt) (CHR ''{''))))
       (match_indices txt MARKER)"

text \<open>The typographic quotes become plain ones.\<close>

definition plain_quotes :: "string \<Rightarrow> string" where
  "plain_quotes txt =
     concat (map (\<lambda>c. if code_point c = 0x201C \<or> code_point c = 0x201D then [double_quote] else c) (chunks txt))"

datatype shared_error = Not_a_sign_in | Newer_version | Incomplete_settings | Invalid_sign_in sign_in_error

definition from_shared_text ::
  "'v shared_codec \<Rightarrow> url_parser \<Rightarrow> nat \<Rightarrow> string \<Rightarrow> (shared_error, sign_in) result" where
  "from_shared_text sj parse uuid txt =
     and_then (ensure (length txt \<le> MAX_SHARED_SIGN_IN_BYTES) Not_a_sign_in) (\<lambda>_.
     and_then
       (ok_or Not_a_sign_in
         (case shared_sign_in_object sj txt of
            Some v \<Rightarrow> Some v
          | None \<Rightarrow> shared_sign_in_object sj (plain_quotes txt))) (\<lambda>v.
     and_then (ok_or Not_a_sign_in (sj_version sj v)) (\<lambda>version.
     and_then (ensure (version \<le> SHARED_SIGN_IN_VERSION) Newer_version) (\<lambda>_.
     and_then (ok_or Incomplete_settings (sj_settings sj v)) (\<lambda>sh.
     let s = (sign_in_default uuid)
           \<lparr>si_name := trim (sh_name sh), si_provider := sh_provider sh, si_issuer := trim (sh_issuer sh),
            si_client_id := trim (sh_client_id sh), si_scopes := sh_scopes sh,
            si_resource := (case sh_resource sh of None \<Rightarrow> None | Some r \<Rightarrow> if blank r then None else Some r),
            si_callback_ports := sh_callback_ports sh\<rparr>
     in and_then (map_error Invalid_sign_in (sign_in_validate parse s)) (\<lambda>_. Inr s))))))"

section \<open>Requests of a transfer\<close>

lemma effective_transfer_valid:
  "transfer_validate t = Inr () \<Longrightarrow> transfer_settings_validate (effective_transfer t) = Inr ()"
  by (cases "tf_preset t")
    (auto simp: effective_transfer_def transfer_validate_def transfer_settings_validate_def transfer_settings_default_def
      and_then_Inr_iff)

text \<open>A request asks for one row at least, and for no more than its data unless one row is wider.\<close>

lemma request_rows_bound:
  assumes "transfer_validate t = Inr ()"
  shows "1 \<le> request_rows (effective_transfer t) w \<and> request_rows (effective_transfer t) w \<le> MAX_FETCH_ROWS
    \<and> (1 < request_rows (effective_transfer t) w \<longrightarrow> request_rows (effective_transfer t) w * w \<le> 32 * 1024 * 1024)"
proof -
  let ?s = "effective_transfer t"
  define est where "est = saturating_add (max w 1024) (max w 1024 div 4)"
  define n where "n = ts_request_mib ?s * 1024 * 1024 div est"
  from effective_transfer_valid [OF assms] have mib: "ts_request_mib ?s \<le> 32"
    by (auto simp: transfer_settings_validate_def and_then_Inr_iff)
  have rows: "request_rows ?s w = clamp 1 MAX_FETCH_ROWS n" by (simp add: request_rows_def Let_def est_def n_def)
  have "clamp 1 MAX_FETCH_ROWS n * w \<le> 32 * 1024 * 1024" if "1 < clamp 1 MAX_FETCH_ROWS n"
  proof -
    from that have "clamp 1 MAX_FETCH_ROWS n \<le> n" "0 < n" by (auto simp: clamp_def MAX_FETCH_ROWS_def split: if_splits)
    have "n * est \<le> ts_request_mib ?s * 1024 * 1024" by (simp add: n_def)
    moreover have small: "est \<le> ts_request_mib ?s * 1024 * 1024"
      using \<open>0 < n\<close> by (metis n_def div_less not_le less_irrefl)
    moreover have "w \<le> est"
      using small mib by (auto simp: est_def saturating_add_def usize_max_def min_def max_def split: if_splits)
    ultimately have "n * w \<le> ts_request_mib ?s * 1024 * 1024"
      by (meson mult_le_mono2 order_trans)
    moreover have "clamp 1 MAX_FETCH_ROWS n * w \<le> n * w"
      using \<open>clamp 1 MAX_FETCH_ROWS n \<le> n\<close> by (rule mult_le_mono1)
    ultimately show ?thesis using mib by linarith
  qed
  then show ?thesis unfolding rows by (auto simp: clamp_def MAX_FETCH_ROWS_def)
qed

section \<open>The identity of a session\<close>

lemma connection_identity_refl: "connection_identity_eq p p"
  by (simp add: connection_identity_eq_def)

lemma connection_identity_sym: "connection_identity_eq p q \<Longrightarrow> connection_identity_eq q p"
  by (auto simp: connection_identity_eq_def split: if_splits)

lemma connection_identity_trans: "connection_identity_eq p q \<Longrightarrow> connection_identity_eq q r \<Longrightarrow> connection_identity_eq p r"
  by (auto simp: connection_identity_eq_def split: if_splits)

section \<open>The repair of a profile\<close>

lemma dbt_validate_rules:
  "dbt_validate p = Inr () \<longleftrightarrow>
     is_absolute (dp_manifest p) \<and> length (dp_schema_mapping p) \<le> MAX_SCHEMA_RULES
     \<and> list_all rule_valid (dp_schema_mapping p)"
  by (auto simp: dbt_validate_def rule_valid_def is_absolute_def MAX_SCHEMA_RULES_def list_all_iff is_ok_def)

lemma profile_sanitize_notes: "length (pf_assistant_notes (profile_sanitize p)) \<le> MAX_ASSISTANT_NOTES_BYTES"
  using floor_char_boundary_le [of "pf_assistant_notes p" MAX_ASSISTANT_NOTES_BYTES] by (auto simp: profile_sanitize_def)

lemma profile_sanitize_simps [simp]:
  "pf_id (profile_sanitize p) = pf_id p" "pf_shared_catalog (profile_sanitize p) = pf_shared_catalog p"
  "pf_database_type (profile_sanitize p) = pf_database_type p" "pf_authentication (profile_sanitize p) = pf_authentication p"
  by (simp_all add: profile_sanitize_def)

lemma profile_sanitize_valid: "profile_validate u p = Inr () \<Longrightarrow> profile_sanitize p = p"
proof -
  assume "profile_validate u p = Inr ()"
  then have "length (pf_assistant_notes p) \<le> MAX_ASSISTANT_NOTES_BYTES"
    and dbt: "pf_dbt p = Some d \<Longrightarrow> dbt_validate d = Inr ()" for d
    by (auto simp: profile_validate_def and_then_Inr_iff map_error_def split: option.splits sum.splits)
  moreover have "map_option (\<lambda>d. d\<lparr>dp_schema_mapping := take MAX_SCHEMA_RULES (filter rule_valid (dp_schema_mapping d))\<rparr>) (pf_dbt p)
      = pf_dbt p"
    using dbt by (cases "pf_dbt p") (auto simp: dbt_validate_rules list_all_iff)
  ultimately show ?thesis by (simp add: profile_sanitize_def)
qed

section \<open>A shared sign-in is read back\<close>

text \<open>
  What is documented of the codec: the text of the settings is an object whose first key is the
  marker, and it is read back whatever follows it.
\<close>

definition shared_codec_ok :: "'v shared_codec \<Rightarrow> bool" where
  "shared_codec_ok sj \<longleftrightarrow>
     (\<forall>sh. (\<exists>ws rest. sj_text sj sh = ''{'' @ ws @ MARKER @ rest \<and> (\<forall>c \<in> set ws. c = CHR '' '' \<or> c = newline))
        \<and> (\<forall>after. \<exists>v. sj_first sj (sj_text sj sh @ after) = Some v \<and> sj_marked sj v
              \<and> sj_version sj v = Some (sh_version sh) \<and> sj_settings sj v = Some sh))"

lemma upt_split: "m < n \<Longrightarrow> [0..<n] = [0..<m] @ m # [Suc m..<n]"
  by (metis le_add1 le_add_same_cancel1 less_imp_add_positive upt_add_eq_append upt_conv_Cons)

lemma filter_upt_first:
  assumes "P m" "m < n" "\<And>i. i < m \<Longrightarrow> \<not> P i"
  shows "\<exists>rest. filter P [0..<n] = m # rest"
proof -
  note upt_split [OF assms(2)]
  moreover have "filter P [0..<m] = []" using assms(3) by (auto simp: filter_empty_conv)
  ultimately show ?thesis using assms(1) by simp
qed

lemma find_str_None: "find_str xs p = None \<Longrightarrow> i \<le> length xs \<Longrightarrow> \<not> starts_with (drop i xs) p"
proof (induction xs arbitrary: i)
  case Nil
  then show ?case by (cases p) simp_all
next
  case (Cons x xs)
  then show ?case by (cases i) (auto split: if_splits)
qed

lemma marker_chars: "length MARKER = 14" "hd MARKER = double_quote" "CHR ''{'' \<notin> set MARKER" "MARKER \<noteq> []"
  by (simp_all add: MARKER_def)

lemma first_marker:
  assumes "\<not> contains_str before MARKER" and ws: "\<forall>c \<in> set ws. c = CHR '' '' \<or> c = newline"
  shows "\<exists>more_indices. match_indices (before @ CHR ''{'' # ws @ MARKER @ rest) MARKER
    = (length before + 1 + length ws) # more_indices"
proof -
  let ?txt = "before @ CHR ''{'' # ws @ MARKER @ rest"
  let ?m = "length before + 1 + length ws"
  have at_m: "drop ?m ?txt = MARKER @ rest" by simp
  have no: "\<not> starts_with (drop i ?txt) MARKER" if i: "i < ?m" for i
  proof
    assume s: "starts_with (drop i ?txt) MARKER"
    then obtain t where t: "drop i ?txt = MARKER @ t" by (auto simp: starts_with_iff)
    consider "i + 14 \<le> length before" | "i \<le> length before" "length before < i + 14" | "length before < i" by linarith
    then show False
    proof cases
      case 1
      then have "take 14 (drop i ?txt) = take 14 (drop i before)" by simp
      with t have "MARKER = take 14 (drop i before)" by (simp add: marker_chars)
      then have "starts_with (drop i before) MARKER" unfolding starts_with_iff
        by (intro exI [of _ "drop 14 (drop i before)"]) (metis append_take_drop_id)
      with assms(1) 1 show False using find_str_None [of before MARKER i] by (auto simp: contains_str_def)
    next
      case 2
      then have k: "length before - i < length MARKER" by (auto simp: marker_chars)
      then have "MARKER ! (length before - i) = drop i ?txt ! (length before - i)"
        unfolding t by (simp add: nth_append)
      also have "\<dots> = CHR ''{''" using 2 by (simp add: nth_append)
      finally have "CHR ''{'' \<in> set MARKER" using k by (metis nth_mem)
      then show False by (simp add: marker_chars)
    next
      case 3
      have "drop i ?txt = drop (i - length before - 1) ws @ MARKER @ rest"
        using 3 i by (simp add: drop_Cons')
      moreover have "drop (i - length before - 1) ws \<noteq> []" using 3 i by simp
      ultimately have "hd MARKER = hd (drop (i - length before - 1) ws)"
        using t by (metis hd_append2 marker_chars(4))
      moreover have "hd (drop (i - length before - 1) ws) \<in> set ws"
        using \<open>drop (i - length before - 1) ws \<noteq> []\<close> by (meson hd_in_set in_set_dropD)
      ultimately have "hd MARKER \<in> set ws" by (rule ssubst)
      with ws have "hd MARKER = CHR '' '' \<or> hd MARKER = newline" by blast
      then show False unfolding marker_chars(2) by simp
    qed
  qed
  have "starts_with (drop ?m ?txt) MARKER" unfolding at_m by (rule starts_with_append)
  moreover have "?m < length ?txt" by (simp add: marker_chars)
  ultimately show ?thesis unfolding match_indices_def
    using no filter_upt_first [of "\<lambda>i. starts_with (drop i ?txt) MARKER" ?m "length ?txt"] by blast
qed

lemma nearest_brace:
  assumes "CHR ''{'' \<notin> set ws"
  shows "\<exists>more_indices. rmatch_char (before @ CHR ''{'' # ws) (CHR ''{'') = length before # more_indices"
proof -
  let ?txt = "before @ CHR ''{'' # ws"
  have split: "[0..<length ?txt] = [0..<length before] @ length before # [Suc (length before)..<length ?txt]"
    by (rule upt_split) simp
  have none: "filter (\<lambda>i. ?txt ! i = CHR ''{'') [Suc (length before)..<length ?txt] = []"
    using assms by (auto simp: filter_empty_conv nth_append nth_Cons' in_set_conv_nth) 
  have "filter (\<lambda>i. ?txt ! i = CHR ''{'') [0..<length ?txt]
      = filter (\<lambda>i. ?txt ! i = CHR ''{'') [0..<length before] @ [length before]"
    unfolding split filter_append using none by simp
  then show ?thesis unfolding rmatch_char_def by simp
qed

lemma shared_object_found:
  assumes ok: "shared_codec_ok sj" and before: "\<not> contains_str before MARKER"
  shows "\<exists>v. shared_sign_in_object sj (before @ sj_text sj sh @ after) = Some v
    \<and> sj_version sj v = Some (sh_version sh) \<and> sj_settings sj v = Some sh"
proof -
  from ok obtain ws rest where form: "sj_text sj sh = ''{'' @ ws @ MARKER @ rest"
    and ws: "\<forall>c \<in> set ws. c = CHR '' '' \<or> c = newline"
    unfolding shared_codec_ok_def by meson
  from ok obtain v where v: "sj_first sj (sj_text sj sh @ after) = Some v" "sj_marked sj v"
    "sj_version sj v = Some (sh_version sh)" "sj_settings sj v = Some sh"
    unfolding shared_codec_ok_def by blast
  let ?all = "before @ sj_text sj sh @ after"
  have all: "?all = before @ CHR ''{'' # ws @ MARKER @ (rest @ after)" by (simp add: form)
  from first_marker [OF before ws, of "rest @ after"] obtain ms where
    m: "match_indices ?all MARKER = (length before + 1 + length ws) # ms" unfolding all by blast
  have "take (length before + 1 + length ws) ?all = before @ CHR ''{'' # ws" unfolding all by simp
  moreover have "CHR ''{'' \<notin> set ws" using ws by auto
  ultimately obtain bs where b: "rmatch_char (take (length before + 1 + length ws) ?all) (CHR ''{'') = length before # bs"
    using nearest_brace [of ws before] by auto
  have "object_at sj ?all (length before) = Some v" using v by (simp add: object_at_def)
  then have "shared_sign_in_object sj ?all = Some v"
    unfolding shared_sign_in_object_def m find_map.simps b by (simp add: STARTS_PER_MARKER_def numeral_eq_Suc)
  with v show ?thesis by blast
qed

text \<open>
  C36. A sign-in that one user gives to another survives a chat message: whatever text is around it,
  as long as it does not hold the marker before it and the whole is not too long, the settings are
  read back exactly, as a new sign-in without an account.
\<close>

theorem shared_sign_in_round_trip:
  assumes ok: "shared_codec_ok sj" and valid: "sign_in_validate parse s = Inr ()"
    and trimmed: "trim (si_name s) = si_name s" "trim (si_issuer s) = si_issuer s" "trim (si_client_id s) = si_client_id s"
    and resource: "\<forall>r. si_resource s = Some r \<longrightarrow> \<not> blank r"
    and before: "\<not> contains_str before MARKER"
    and size: "length (before @ to_shared_text sj s @ after) \<le> MAX_SHARED_SIGN_IN_BYTES"
  shows "from_shared_text sj parse uuid (before @ to_shared_text sj s @ after)
    = Inr (s\<lparr>si_id := uuid, si_scopes := extra_scopes (si_scopes s), si_identity := None\<rparr>)"
proof -
  let ?sh = "shared_settings s"
  let ?s = "s\<lparr>si_id := uuid, si_scopes := extra_scopes (si_scopes s), si_identity := None\<rparr>"
  obtain v where v: "shared_sign_in_object sj (before @ to_shared_text sj s @ after) = Some v"
    "sj_version sj v = Some (sh_version ?sh)" "sj_settings sj v = Some ?sh"
    using shared_object_found [OF ok before, of ?sh after] unfolding to_shared_text_def by blast
  have version: "sh_version ?sh \<le> SHARED_SIGN_IN_VERSION"
    by (simp add: shared_settings_def SHARED_SIGN_IN_VERSION_def)
  have same: "(sign_in_default uuid)
      \<lparr>si_name := trim (sh_name ?sh), si_provider := sh_provider ?sh, si_issuer := trim (sh_issuer ?sh),
       si_client_id := trim (sh_client_id ?sh), si_scopes := sh_scopes ?sh,
       si_resource := (case sh_resource ?sh of None \<Rightarrow> None | Some r \<Rightarrow> if blank r then None else Some r),
       si_callback_ports := sh_callback_ports ?sh\<rparr> = ?s"
    using trimmed resource by (cases s) (auto simp: shared_settings_def sign_in_default_def split: option.split)
  have "sign_in_validate parse ?s = Inr ()"
    using valid extra_scopes_spec [of "si_scopes s"]
    by (auto simp: sign_in_validate_def oidc_validate_def and_then_Inr_iff check_all_Inr_iff ok_or_Inr_iff
        split: if_splits option.splits)
  then show ?thesis
    using size v version unfolding from_shared_text_def same [symmetric] Let_def
    by (simp add: map_error_def ensure_def)
qed

text \<open>A codec to run the theorem with: numbers in unary, texts and lists after their length.\<close>

definition sx_nat :: "nat \<Rightarrow> string" where
  "sx_nat n = replicate n (CHR ''1'') @ ''.''"

definition sx_text :: "string \<Rightarrow> string" where
  "sx_text t = sx_nat (length t) @ t"

definition sx_list :: "('a \<Rightarrow> string) \<Rightarrow> 'a list \<Rightarrow> string" where
  "sx_list f xs = sx_nat (length xs) @ concat (map f xs)"

definition rx_nat :: "string \<Rightarrow> nat \<times> string" where
  "rx_nat s = (let n = length (takeWhile (\<lambda>c. c = CHR ''1'') s) in (n, drop (Suc n) s))"

definition rx_text :: "string \<Rightarrow> string \<times> string" where
  "rx_text s = (case rx_nat s of (n, r) \<Rightarrow> (take n r, drop n r))"

fun rx_items :: "(string \<Rightarrow> 'a \<times> string) \<Rightarrow> nat \<Rightarrow> string \<Rightarrow> 'a list \<times> string" where
  "rx_items f 0 s = ([], s)"
| "rx_items f (Suc n) s = (case f s of (x, r) \<Rightarrow> (case rx_items f n r of (xs, r) \<Rightarrow> (x # xs, r)))"

definition rx_list :: "(string \<Rightarrow> 'a \<times> string) \<Rightarrow> string \<Rightarrow> 'a list \<times> string" where
  "rx_list f s = (case rx_nat s of (n, r) \<Rightarrow> rx_items f n r)"

lemma rx_nat_put [simp]: "rx_nat (sx_nat n @ r) = (n, r)"
proof -
  have "takeWhile (\<lambda>c. c = CHR ''1'') (replicate n (CHR ''1'') @ CHR ''.'' # r) = replicate n (CHR ''1'')"
    by (induction n) simp_all
  then show ?thesis by (simp add: rx_nat_def sx_nat_def)
qed

lemma rx_text_put [simp]: "rx_text (sx_text t @ r) = (t, r)"
  by (simp add: rx_text_def sx_text_def)

lemma rx_list_put: "(\<And>x r. f (g x @ r) = (x, r)) \<Longrightarrow> rx_list f (sx_list g xs @ r) = (xs, r)"
proof -
  assume f: "\<And>x r. f (g x @ r) = (x, r)"
  have "rx_items f (length xs) (concat (map g xs) @ r) = (xs, r)"
    by (induction xs) (simp_all add: f)
  then show ?thesis by (simp add: rx_list_def sx_list_def)
qed

definition sample_shared_text :: "shared_sign_in \<Rightarrow> string" where
  "sample_shared_text sh =
     ''{ '' @ MARKER @ sx_nat (sh_version sh) @ sx_text (sh_name sh) @ sx_nat (if sh_provider sh = Oidc then 0 else 1)
     @ sx_text (sh_issuer sh) @ sx_text (sh_client_id sh) @ sx_list sx_text (sh_scopes sh)
     @ sx_list sx_text (case sh_resource sh of None \<Rightarrow> [] | Some r \<Rightarrow> [r]) @ sx_list sx_nat (sh_callback_ports sh)"

definition read_sample_shared :: "string \<Rightarrow> shared_sign_in option" where
  "read_sample_shared s =
     (if starts_with s (''{ '' @ MARKER) then
        (case rx_nat (drop 16 s) of (version, r) \<Rightarrow>
         case rx_text r of (name, r) \<Rightarrow>
         case rx_nat r of (provider, r) \<Rightarrow>
         case rx_text r of (issuer, r) \<Rightarrow>
         case rx_text r of (client, r) \<Rightarrow>
         case rx_list rx_text r of (scopes, r) \<Rightarrow>
         case rx_list rx_text r of (resource, r) \<Rightarrow>
         case rx_list rx_nat r of (ports, r) \<Rightarrow>
           Some \<lparr>sh_version = version, sh_name = name,
                 sh_provider = (if provider = 0 then Oidc else Legacy_Trino_External), sh_issuer = issuer,
                 sh_client_id = client, sh_scopes = scopes,
                 sh_resource = (if resource = [] then None else Some (hd resource)), sh_callback_ports = ports\<rparr>)
      else None)"

definition sample_shared_codec :: "shared_sign_in shared_codec" where
  "sample_shared_codec =
     \<lparr>sj_text = sample_shared_text, sj_first = read_sample_shared, sj_marked = (\<lambda>_. True),
      sj_version = (\<lambda>v. Some (sh_version v)), sj_settings = Some\<rparr>"

lemma read_sample_shared_text: "read_sample_shared (sample_shared_text sh @ after) = Some sh"
proof -
  have [simp]: "rx_list rx_text (sx_list sx_text xs @ r) = (xs, r)" "rx_list rx_nat (sx_list sx_nat ns @ r) = (ns, r)"
    for xs ns r
    by (rule rx_list_put; simp)+
  have p: "x = (if (if x = Oidc then 0 else 1 :: nat) = 0 then Oidc else Legacy_Trino_External)" for x
    by (cases x) simp_all
  show ?thesis
    by (cases sh; cases "sh_resource sh"; cases "sh_provider sh")
      (simp_all add: read_sample_shared_def sample_shared_text_def MARKER_def)
qed

lemma sample_shared_codec_ok: "shared_codec_ok sample_shared_codec"
  unfolding shared_codec_ok_def
proof (intro allI conjI)
  fix sh
  have "\<exists>rest. sample_shared_text sh = ''{'' @ '' '' @ MARKER @ rest"
    by (simp add: sample_shared_text_def)
  then show "\<exists>ws rest. sj_text sample_shared_codec sh = ''{'' @ ws @ MARKER @ rest \<and> (\<forall>c \<in> set ws. c = CHR '' '' \<or> c = newline)"
    by (simp add: sample_shared_codec_def) (metis empty_iff empty_set set_ConsD append_Cons append_Nil)
qed (simp add: sample_shared_codec_def read_sample_shared_text)

definition sample_sign_in :: sign_in where
  "sample_sign_in =
     \<lparr>si_id = 4, si_name = ''Work'', si_provider = Oidc, si_issuer = ''https://i'', si_client_id = ''qrow'',
      si_scopes = [''email'', ''db'', ''db''], si_resource = None, si_callback_ports = [8080],
      si_identity = Some \<lparr>id_issuer = ''https://i'', id_subject = ''s'', id_name = None, id_email = None\<rparr>\<rparr>"

definition https_urls :: url_parser where
  "https_urls t =
     Some \<lparr>ur_scheme = ''https'', ur_host = Some t, ur_query = None, ur_fragment = None, ur_username = [], ur_password = None\<rparr>"

theorem shared_sign_in_round_trip_witness:
  "from_shared_text sample_shared_codec https_urls 9
      (''Use {this}: '' @ to_shared_text sample_shared_codec sample_sign_in @ '' Bye'')
    = Inr (sample_sign_in\<lparr>si_id := 9, si_scopes := [''db''], si_identity := None\<rparr>)"
proof -
  have 1: "sign_in_validate https_urls sample_sign_in = Inr ()" by code_simp
  have 3: "trim (si_name sample_sign_in) = si_name sample_sign_in"
    "trim (si_issuer sample_sign_in) = si_issuer sample_sign_in" "trim (si_client_id sample_sign_in) = si_client_id sample_sign_in"
    by code_simp+
  have 4: "\<not> contains_str ''Use {this}: '' MARKER" by code_simp
  have 6: "extra_scopes (si_scopes sample_sign_in) = [''db'']"
    by code_simp
  have 5: "length (''Use {this}: '' @ to_shared_text sample_shared_codec sample_sign_in @ '' Bye'') \<le> MAX_SHARED_SIGN_IN_BYTES"
    using 6 by (simp add: to_shared_text_def sample_shared_codec_def sample_shared_text_def shared_settings_def
        sx_text_def sx_list_def sx_nat_def sample_sign_in_def MARKER_def MAX_SHARED_SIGN_IN_BYTES_def)
  have 2: "\<forall>r. si_resource sample_sign_in = Some r \<longrightarrow> \<not> blank r" by (simp add: sample_sign_in_def)
  show ?thesis
    using shared_sign_in_round_trip [OF sample_shared_codec_ok 1 3 2 4 5, of 9] unfolding 6 .
qed

end
