(* ===== verification/Workspace.thy ===== *)
theory Workspace
  imports Profiles
begin

text \<open>
  The workspace that is saved (\<open>src/model.rs\<close>, \<open>Workspace\<close>): connections, query tabs, the
  conversations of the assistant, shared catalogs and the scope of the search, and the normalization
  that every load runs, whatever an older version or an edited file has left.

  The new identifiers that a normalization needs are the values of \<open>fresh\<close>. The settings of the
  interface are carried along and not looked at.
\<close>

section \<open>Data\<close>

definition WORKSPACE_VERSION :: nat where "WORKSPACE_VERSION = 8"
definition MAX_ASSISTANT_CONVERSATION_TITLE :: nat where "MAX_ASSISTANT_CONVERSATION_TITLE = 120"
definition MAX_SHARED_CATALOG_NAME :: nat where "MAX_SHARED_CATALOG_NAME = 60"

record saved_tab =
  tb_id :: nat
  tb_title :: string
  tb_sql :: string
  tb_profile :: "nat option"

definition saved_tab_new :: "nat \<Rightarrow> nat \<Rightarrow> nat option \<Rightarrow> saved_tab" where
  "saved_tab_new uuid number p =
     \<lparr>tb_id = uuid, tb_title = ''Query '' @ show_nat number, tb_sql = [], tb_profile = p\<rparr>"

datatype title_source = Temporary | Generated | User_Title
datatype execution_mode = Ask_Before_Running | Run_Automatically
datatype assistant_harness = Codex | Claude

record sent_notes =
  sn_connection :: "nat option"
  sn_digest :: string

record conversation =
  cv_thread_id :: string
  cv_harness :: assistant_harness
  cv_title :: string
  cv_title_source :: title_source
  cv_title_follows :: bool
  cv_last_activity :: nat
  cv_execution_mode :: execution_mode
  cv_tab_id :: "nat option"
  cv_detached_profile :: "nat option"
  cv_sent_notes :: "sent_notes option"

definition new_conversation_title :: string where
  "new_conversation_title = ''New conversation''"

definition conversation_new :: "string \<Rightarrow> execution_mode \<Rightarrow> conversation" where
  "conversation_new thread execution =
     \<lparr>cv_thread_id = thread, cv_harness = Codex, cv_title = new_conversation_title, cv_title_source = Temporary,
      cv_title_follows = False, cv_last_activity = 0, cv_execution_mode = execution, cv_tab_id = None,
      cv_detached_profile = None, cv_sent_notes = None\<rparr>"

record assistant_workspace =
  as_conversations :: "conversation list"
  as_legacy_selected :: "string option"

datatype search_scope = Scope_All | Scope_Current | Scope_Connections "nat set"

record 's workspace =
  ws_version :: nat
  ws_settings :: 's
  ws_profiles :: "profile list"
  ws_tabs :: "saved_tab list"
  ws_active_tab :: nat
  ws_active_tabs :: "nat \<Rightarrow> nat option"
  ws_assistant :: assistant_workspace
  ws_shared_catalogs :: "shared_catalog list"
  ws_sign_ins :: "sign_in list"
  ws_search_scope :: search_scope

definition workspace_default :: "'s \<Rightarrow> nat \<Rightarrow> 's workspace" where
  "workspace_default settings uuid =
     \<lparr>ws_version = WORKSPACE_VERSION, ws_settings = settings, ws_profiles = [], ws_tabs = [saved_tab_new uuid 1 None],
      ws_active_tab = 0, ws_active_tabs = (\<lambda>_. None),
      ws_assistant = \<lparr>as_conversations = [], as_legacy_selected = None\<rparr>, ws_shared_catalogs = [], ws_sign_ins = [],
      ws_search_scope = Scope_All\<rparr>"

definition has_profile :: "profile list \<Rightarrow> nat \<Rightarrow> bool" where
  "has_profile ps i \<longleftrightarrow> list_ex (\<lambda>p. pf_id p = i) ps"

section \<open>The scope of the search\<close>

definition scope_includes :: "search_scope \<Rightarrow> nat \<Rightarrow> nat option \<Rightarrow> bool" where
  "scope_includes s p current =
     (case s of Scope_All \<Rightarrow> True | Scope_Current \<Rightarrow> current = Some p | Scope_Connections ids \<Rightarrow> p \<in> ids)"

definition scope_toggle :: "nat \<Rightarrow> search_scope \<Rightarrow> search_scope" where
  "scope_toggle p s =
     (case s of
        Scope_Connections ids \<Rightarrow>
          (let ids = (if p \<in> ids then ids - {p} else insert p ids)
           in if ids = {} then Scope_All else Scope_Connections ids)
      | _ \<Rightarrow> Scope_Connections {p})"

definition scope_sanitize :: "profile list \<Rightarrow> search_scope \<Rightarrow> search_scope" where
  "scope_sanitize ps s =
     (case s of
        Scope_Connections ids \<Rightarrow>
          (let ids = Set.filter (has_profile ps) ids in if ids = {} then Scope_All else Scope_Connections ids)
      | _ \<Rightarrow> s)"

section \<open>Shared catalogs\<close>

definition shared_catalog_sanitize :: "shared_catalog \<Rightarrow> shared_catalog" where
  "shared_catalog_sanitize c =
     (let st = (if browses (sc_settings c) then sc_settings c else (sc_settings c)\<lparr>cs_refresh := Manual\<rparr>);
          st = (if is_ok (catalog_validate st) then st else catalog_settings_default\<lparr>cs_refresh := cs_refresh st\<rparr>)
      in c\<lparr>sc_settings := st, sc_name := (if blank (sc_name c) then ''Shared catalog'' else sc_name c)\<rparr>)"

datatype shared_catalog_error = No_catalog_name | Long_catalog_name | Bad_catalog_settings settings_error

definition shared_catalog_validate :: "shared_catalog \<Rightarrow> (shared_catalog_error, unit) result" where
  "shared_catalog_validate c =
     and_then (ensure (\<not> blank (sc_name c)) No_catalog_name) (\<lambda>_.
     and_then (ensure (char_count (sc_name c) \<le> MAX_SHARED_CATALOG_NAME) Long_catalog_name) (\<lambda>_.
     map_error Bad_catalog_settings (catalog_validate (sc_settings c))))"

definition drop_stale_catalog :: "shared_catalog list \<Rightarrow> profile \<Rightarrow> profile" where
  "drop_stale_catalog shared p =
     (case pf_shared_catalog p of
        None \<Rightarrow> p
      | Some i \<Rightarrow> if list_ex (\<lambda>c. sc_id c = i) shared then p else p\<lparr>pf_shared_catalog := None\<rparr>)"

definition catalog_used :: "profile list \<Rightarrow> shared_catalog \<Rightarrow> bool" where
  "catalog_used ps c \<longleftrightarrow> list_ex (\<lambda>p. pf_shared_catalog p = Some (sc_id c)) ps"

definition drop_stale_preferred :: "profile list \<Rightarrow> shared_catalog \<Rightarrow> shared_catalog" where
  "drop_stale_preferred ps c =
     (case sc_preferred c of
        None \<Rightarrow> c
      | Some q \<Rightarrow>
          if list_ex (\<lambda>p. pf_id p = q \<and> pf_shared_catalog p = Some (sc_id c)) ps then c
          else c\<lparr>sc_preferred := None\<rparr>)"

text \<open>The profiles, the catalogs and the identifiers of the removed catalogs.\<close>

definition prune_shared_catalogs ::
  "profile list \<Rightarrow> shared_catalog list \<Rightarrow> profile list \<times> shared_catalog list \<times> nat list" where
  "prune_shared_catalogs ps shared =
     (let ps = map (drop_stale_catalog shared) ps;
          removed = map sc_id (filter (\<lambda>c. \<not> catalog_used ps c) shared);
          shared = map (drop_stale_preferred ps) (filter (catalog_used ps) shared)
      in (ps, shared, removed))"

section \<open>Conversations\<close>

definition conversation_sanitize :: "conversation \<Rightarrow> conversation" where
  "conversation_sanitize c =
     (let title = trim (cv_title c);
          source = (if title = [] then Temporary else cv_title_source c);
          title = (if title = [] then new_conversation_title else title)
      in c\<lparr>cv_thread_id := trim (cv_thread_id c), cv_title := take_chars MAX_ASSISTANT_CONVERSATION_TITLE title,
           cv_title_source := source\<rparr>)"

fun sanitize_conversations :: "string set \<Rightarrow> conversation list \<Rightarrow> conversation list" where
  "sanitize_conversations ids [] = []"
| "sanitize_conversations ids (c # cs) =
     (let c = conversation_sanitize c in
      if cv_thread_id c \<noteq> [] \<and> cv_thread_id c \<notin> ids
      then c # sanitize_conversations (insert (cv_thread_id c) ids) cs
      else sanitize_conversations ids cs)"

definition conversation_for_tab :: "conversation list \<Rightarrow> nat \<Rightarrow> conversation option" where
  "conversation_for_tab cs t = List.find (\<lambda>c. cv_tab_id c = Some t) cs"

definition detach_tab :: "nat \<Rightarrow> nat option \<Rightarrow> conversation list \<Rightarrow> conversation list" where
  "detach_tab t p cs =
     map (\<lambda>c. if cv_tab_id c = Some t then c\<lparr>cv_tab_id := None, cv_detached_profile := p\<rparr> else c) cs"

definition remove_unstarted :: "string set \<Rightarrow> conversation list \<Rightarrow> conversation list" where
  "remove_unstarted unstarted cs = filter (\<lambda>c. cv_thread_id c \<notin> unstarted) cs"

text \<open>The stable order from the latest activity on.\<close>

definition latest_first :: "conversation list \<Rightarrow> nat list" where
  "latest_first cs = sort_key (\<lambda>i. - int (cv_last_activity (cs ! i))) [0..<length cs]"

text \<open>One conversation takes its tab, or is detached from it.\<close>

definition link_one :: "saved_tab list \<Rightarrow> nat set \<Rightarrow> conversation \<Rightarrow> nat set \<times> conversation" where
  "link_one tabs claimed c =
     (case cv_tab_id c of
        None \<Rightarrow> (claimed, c)
      | Some t \<Rightarrow>
          (case List.find (\<lambda>tab. tb_id tab = t) tabs of
             Some tab \<Rightarrow>
               if t \<notin> claimed then (insert t claimed, c\<lparr>cv_detached_profile := None\<rparr>)
               else (claimed, c\<lparr>cv_tab_id := None, cv_detached_profile := tb_profile tab\<rparr>)
           | None \<Rightarrow> (claimed, c\<lparr>cv_tab_id := None\<rparr>)))"

fun link_loop :: "saved_tab list \<Rightarrow> nat list \<Rightarrow> nat set \<Rightarrow> conversation list \<Rightarrow> conversation list" where
  "link_loop tabs [] claimed cs = cs"
| "link_loop tabs (i # is) claimed cs =
     (case link_one tabs claimed (cs ! i) of
        (claimed, c) \<Rightarrow> link_loop tabs is claimed (cs[i := c]))"

definition drop_stale_profile :: "profile list \<Rightarrow> conversation \<Rightarrow> conversation" where
  "drop_stale_profile ps c =
     (case cv_detached_profile c of
        None \<Rightarrow> c
      | Some i \<Rightarrow> if has_profile ps i then c else c\<lparr>cv_detached_profile := None\<rparr>)"

definition link_tabs :: "saved_tab list \<Rightarrow> profile list \<Rightarrow> conversation list \<Rightarrow> conversation list" where
  "link_tabs tabs ps cs = map (drop_stale_profile ps) (link_loop tabs (latest_first cs) {} cs)"

section \<open>Normalization\<close>

definition legacy_sign_ins :: "sign_in list \<Rightarrow> nat set" where
  "legacy_sign_ins ss = set (map si_id (filter (\<lambda>s. si_provider s = Legacy_Trino_External) ss))"

definition migrate_profile :: "nat set \<Rightarrow> profile \<Rightarrow> profile" where
  "migrate_profile legacy p =
     (if pf_database_type p = Trino
         \<and> (case auth_sign_in (pf_authentication p) of None \<Rightarrow> False | Some i \<Rightarrow> i \<in> legacy)
      then p\<lparr>pf_authentication := Auth_Trino_External\<rparr> else p)"

definition tab_profile :: "saved_tab list \<Rightarrow> nat \<Rightarrow> nat option" where
  "tab_profile tabs i = (if i < length tabs then tb_profile (tabs ! i) else None)"

definition fallback_profile :: "profile list \<Rightarrow> saved_tab list \<Rightarrow> nat \<Rightarrow> nat option" where
  "fallback_profile ps tabs active =
     (case (case tab_profile tabs active of None \<Rightarrow> None | Some i \<Rightarrow> if has_profile ps i then Some i else None) of
        Some i \<Rightarrow> Some i
      | None \<Rightarrow> (case ps of [] \<Rightarrow> None | p # _ \<Rightarrow> Some (pf_id p)))"

definition own_tab :: "profile list \<Rightarrow> nat option \<Rightarrow> saved_tab \<Rightarrow> saved_tab" where
  "own_tab ps fallback tab =
     (let tab = (if tb_profile tab = None \<and> fallback \<noteq> None then tab\<lparr>tb_profile := fallback\<rparr> else tab) in
      case tb_profile tab of
        None \<Rightarrow> tab
      | Some i \<Rightarrow> if has_profile ps i then tab else tab\<lparr>tb_profile := fallback\<rparr>)"

fun add_tabs :: "(nat \<Rightarrow> nat) \<Rightarrow> nat \<Rightarrow> profile list \<Rightarrow> saved_tab list \<Rightarrow> saved_tab list" where
  "add_tabs fresh n [] tabs = tabs"
| "add_tabs fresh n (p # ps) tabs =
     (if list_ex (\<lambda>t. tb_profile t = Some (pf_id p)) tabs then add_tabs fresh n ps tabs
      else add_tabs fresh (Suc n) ps (tabs @ [saved_tab_new (fresh n) 1 (Some (pf_id p))]))"

definition keep_active :: "profile list \<Rightarrow> saved_tab list \<Rightarrow> (nat \<Rightarrow> nat option) \<Rightarrow> nat \<Rightarrow> nat option" where
  "keep_active ps tabs active p =
     (case active p of
        None \<Rightarrow> None
      | Some t \<Rightarrow>
          if has_profile ps p \<and> list_ex (\<lambda>c. tb_id c = t \<and> tb_profile c = Some p) tabs then Some t else None)"

definition first_tab :: "saved_tab list \<Rightarrow> nat \<Rightarrow> saved_tab option" where
  "first_tab tabs p = List.find (\<lambda>t. tb_profile t = Some p) tabs"

definition fill_active :: "saved_tab list \<Rightarrow> profile \<Rightarrow> (nat \<Rightarrow> nat option) \<Rightarrow> (nat \<Rightarrow> nat option)" where
  "fill_active tabs p active =
     (case first_tab tabs (pf_id p) of
        None \<Rightarrow> active
      | Some t \<Rightarrow> if active (pf_id p) = None then active(pf_id p \<mapsto> tb_id t) else active)"

text \<open>The active tab of the window is the active tab of its connection.\<close>

definition settle_active ::
  "profile list \<Rightarrow> saved_tab list \<Rightarrow> nat \<Rightarrow> (nat \<Rightarrow> nat option) \<Rightarrow> nat \<times> (nat \<Rightarrow> nat option)" where
  "settle_active ps tabs i active =
     (case tab_profile tabs i of
        Some p \<Rightarrow> (i, active(p \<mapsto> tb_id (tabs ! i)))
      | None \<Rightarrow>
          (case ps of
             [] \<Rightarrow> (i, active)
           | p # _ \<Rightarrow>
               (case first_tab tabs (pf_id p) of
                  None \<Rightarrow> (i, active)
                | Some t \<Rightarrow>
                    (case position (\<lambda>c. tb_id c = tb_id t) tabs of None \<Rightarrow> 0 | Some k \<Rightarrow> k,
                     active(pf_id p \<mapsto> tb_id t)))))"

text \<open>The titles: blank ones get a title, and those of one connection become different.\<close>

fun title_tabs :: "(nat option \<Rightarrow> string set) \<Rightarrow> saved_tab list \<Rightarrow> saved_tab list option" where
  "title_tabs used [] = Some []"
| "title_tabs used (t # ts) =
     (let title = (if blank (tb_title t) then ''Query 1'' else trim (tb_title t)) in
      Option.bind (unique_tab_title title (\<lambda>c. c \<in> used (tb_profile t)))
        (\<lambda>title. Option.bind
          (title_tabs (used(tb_profile t := insert title (used (tb_profile t)))) ts)
          (\<lambda>ts. Some (t\<lparr>tb_title := title\<rparr> # ts))))"

definition adopt_conversations ::
  "saved_tab list \<Rightarrow> nat \<Rightarrow> string option \<Rightarrow> conversation list \<Rightarrow> conversation list" where
  "adopt_conversations tabs active selected cs =
     map (\<lambda>c. c\<lparr>cv_detached_profile := tab_profile tabs active,
                cv_tab_id :=
                  (if selected = Some (cv_thread_id c) \<and> active < length tabs then Some (tb_id (tabs ! active))
                   else None)\<rparr>) cs"

definition normalize_assistant ::
  "nat \<Rightarrow> saved_tab list \<Rightarrow> nat \<Rightarrow> profile list \<Rightarrow> assistant_workspace \<Rightarrow> assistant_workspace" where
  "normalize_assistant version tabs active ps a =
     (let cs = sanitize_conversations {} (as_conversations a);
          selected = map_option trim (as_legacy_selected a);
          cs = (if version < 4 then adopt_conversations tabs active selected cs else cs)
      in \<lparr>as_conversations = link_tabs tabs ps cs, as_legacy_selected = None\<rparr>)"

definition normalize_workspace :: "(nat \<Rightarrow> nat) \<Rightarrow> 's workspace \<Rightarrow> 's workspace option" where
  "normalize_workspace fresh w =
     (let legacy = legacy_sign_ins (ws_sign_ins w);
          ps = map (profile_sanitize \<circ> migrate_profile legacy) (ws_profiles w);
          sign_ins = filter (\<lambda>s. si_provider s \<noteq> Legacy_Trino_External) (ws_sign_ins w);
          fallback = fallback_profile ps (ws_tabs w) (ws_active_tab w);
          tabs = add_tabs fresh 0 ps (map (own_tab ps fallback) (ws_tabs w));
          i = min (ws_active_tab w) (length tabs - 1);
          active = fold (fill_active tabs) ps (keep_active ps tabs (ws_active_tabs w));
          (i, active) = settle_active ps tabs i active
      in Option.bind (title_tabs (\<lambda>_. {}) tabs)
        (\<lambda>tabs.
           let assistant = normalize_assistant (ws_version w) tabs i ps (ws_assistant w);
               (ps, shared, _) = prune_shared_catalogs ps (map shared_catalog_sanitize (ws_shared_catalogs w))
           in Some
             (w\<lparr>ws_version := WORKSPACE_VERSION, ws_profiles := ps, ws_tabs := tabs, ws_active_tab := i,
                ws_active_tabs := active, ws_assistant := assistant, ws_shared_catalogs := shared,
                ws_sign_ins := sign_ins, ws_search_scope := scope_sanitize ps (ws_search_scope w)\<rparr>)))"

section \<open>A well-formed workspace\<close>

definition tabs_ok :: "profile list \<Rightarrow> saved_tab list \<Rightarrow> bool" where
  "tabs_ok ps tabs \<longleftrightarrow>
     (\<forall>t \<in> set tabs. case tb_profile t of None \<Rightarrow> ps = [] | Some i \<Rightarrow> has_profile ps i)
     \<and> (\<forall>i. has_profile ps i \<longrightarrow> (\<exists>t \<in> set tabs. tb_profile t = Some i))"

definition titles_ok :: "saved_tab list \<Rightarrow> bool" where
  "titles_ok tabs \<longleftrightarrow>
     (\<forall>t \<in> set tabs. tb_title t \<noteq> [])
     \<and> (\<forall>p. distinct (map tb_title (filter (\<lambda>t. tb_profile t = p) tabs)))"

definition active_ok :: "profile list \<Rightarrow> saved_tab list \<Rightarrow> nat \<Rightarrow> (nat \<Rightarrow> nat option) \<Rightarrow> bool" where
  "active_ok ps tabs i active \<longleftrightarrow>
     (tabs \<noteq> [] \<longrightarrow> i < length tabs)
     \<and> (\<forall>p. active p \<noteq> None \<longleftrightarrow> has_profile ps p)
     \<and> (\<forall>p t. active p = Some t \<longrightarrow> (\<exists>tab \<in> set tabs. tb_id tab = t \<and> tb_profile tab = Some p))
     \<and> (\<forall>p. tab_profile tabs i = Some p \<longrightarrow> active p = Some (tb_id (tabs ! i)))"

definition conversations_ok :: "profile list \<Rightarrow> saved_tab list \<Rightarrow> conversation list \<Rightarrow> bool" where
  "conversations_ok ps tabs cs \<longleftrightarrow>
     distinct (map cv_thread_id cs)
     \<and> (\<forall>c \<in> set cs. cv_thread_id c \<noteq> [] \<and> cv_title c \<noteq> []
          \<and> char_count (cv_title c) \<le> MAX_ASSISTANT_CONVERSATION_TITLE
          \<and> (\<forall>t. cv_tab_id c = Some t \<longrightarrow> (\<exists>tab \<in> set tabs. tb_id tab = t))
          \<and> (\<forall>p. cv_detached_profile c = Some p \<longrightarrow> has_profile ps p))
     \<and> (\<forall>i < length cs. \<forall>j < length cs. \<forall>t.
          cv_tab_id (cs ! i) = Some t \<and> cv_tab_id (cs ! j) = Some t \<longrightarrow> i = j)"

definition catalogs_ok :: "profile list \<Rightarrow> shared_catalog list \<Rightarrow> bool" where
  "catalogs_ok ps shared \<longleftrightarrow>
     (\<forall>p \<in> set ps. \<forall>i. pf_shared_catalog p = Some i \<longrightarrow> (\<exists>c \<in> set shared. sc_id c = i))
     \<and> (\<forall>c \<in> set shared. catalog_used ps c \<and> browses (sc_settings c) \<and> catalog_validate (sc_settings c) = Inr ()
          \<and> \<not> blank (sc_name c)
          \<and> (\<forall>q. sc_preferred c = Some q \<longrightarrow> (\<exists>p \<in> set ps. pf_id p = q \<and> pf_shared_catalog p = Some (sc_id c))))"

definition scope_ok :: "profile list \<Rightarrow> search_scope \<Rightarrow> bool" where
  "scope_ok ps s \<longleftrightarrow>
     (case s of Scope_Connections ids \<Rightarrow> ids \<noteq> {} \<and> (\<forall>i \<in> ids. has_profile ps i) | _ \<Rightarrow> True)"

definition profile_ok :: "profile \<Rightarrow> bool" where
  "profile_ok p \<longleftrightarrow>
     length (pf_assistant_notes p) \<le> MAX_ASSISTANT_NOTES_BYTES
     \<and> (\<forall>d. pf_dbt p = Some d \<longrightarrow>
          length (dp_schema_mapping d) \<le> MAX_SCHEMA_RULES \<and> list_all rule_valid (dp_schema_mapping d))"

definition workspace_ok :: "'s workspace \<Rightarrow> bool" where
  "workspace_ok w \<longleftrightarrow>
     ws_version w = WORKSPACE_VERSION
     \<and> tabs_ok (ws_profiles w) (ws_tabs w) \<and> titles_ok (ws_tabs w)
     \<and> active_ok (ws_profiles w) (ws_tabs w) (ws_active_tab w) (ws_active_tabs w)
     \<and> conversations_ok (ws_profiles w) (ws_tabs w) (as_conversations (ws_assistant w))
     \<and> as_legacy_selected (ws_assistant w) = None
     \<and> catalogs_ok (ws_profiles w) (ws_shared_catalogs w)
     \<and> scope_ok (ws_profiles w) (ws_search_scope w)
     \<and> list_all profile_ok (ws_profiles w)
     \<and> list_all (\<lambda>s. si_provider s \<noteq> Legacy_Trino_External) (ws_sign_ins w)"

section \<open>Tabs\<close>

lemma has_profile_map: "(\<And>p. pf_id (f p) = pf_id p) \<Longrightarrow> has_profile (map f ps) i \<longleftrightarrow> has_profile ps i"
  by (simp add: has_profile_def list_ex_iff)

lemma fallback_profile_ok:
  "fallback_profile ps tabs i = None \<Longrightarrow> ps = []"
  "fallback_profile ps tabs i = Some p \<Longrightarrow> has_profile ps p"
  by (auto simp: fallback_profile_def has_profile_def split: option.splits list.splits if_splits)

lemma own_tab_ok:
  "case tb_profile (own_tab ps (fallback_profile ps tabs i) t) of None \<Rightarrow> ps = [] | Some q \<Rightarrow> has_profile ps q"
  using fallback_profile_ok [of ps tabs i]
  by (cases "fallback_profile ps tabs i"; cases "tb_profile t") (auto simp: own_tab_def Let_def has_profile_def)

lemma own_tab_simps [simp]: "tb_id (own_tab ps f t) = tb_id t" "tb_sql (own_tab ps f t) = tb_sql t"
  by (simp_all add: own_tab_def Let_def split: option.split)

lemma add_tabs_spec:
  "\<exists>new. add_tabs fresh n qs tabs = tabs @ new
     \<and> (\<forall>t \<in> set new. \<exists>q \<in> set qs. tb_profile t = Some (pf_id q))
     \<and> (\<forall>q \<in> set qs. \<exists>t \<in> set (tabs @ new). tb_profile t = Some (pf_id q))"
proof (induction qs arbitrary: n tabs)
  case (Cons q qs)
  show ?case
  proof (cases "list_ex (\<lambda>t. tb_profile t = Some (pf_id q)) tabs")
    case True
    with Cons [of n tabs] show ?thesis by (auto simp: list_ex_iff)
  next
    case False
    let ?t = "saved_tab_new (fresh n) 1 (Some (pf_id q))"
    have t: "tb_profile ?t = Some (pf_id q)" by (simp add: saved_tab_new_def)
    from Cons [of "Suc n" "tabs @ [?t]"] obtain new where
      "add_tabs fresh (Suc n) qs (tabs @ [?t]) = (tabs @ [?t]) @ new"
      "\<forall>t \<in> set new. \<exists>q \<in> set qs. tb_profile t = Some (pf_id q)"
      "\<forall>q \<in> set qs. \<exists>t \<in> set ((tabs @ [?t]) @ new). tb_profile t = Some (pf_id q)"
      by blast
    with False t show ?thesis by (intro exI [of _ "?t # new"]) auto
  qed
qed simp

lemma tabs_ok_add:
  assumes "\<forall>t \<in> set tabs. case tb_profile t of None \<Rightarrow> ps = [] | Some i \<Rightarrow> has_profile ps i"
  shows "tabs_ok ps (add_tabs fresh n ps tabs)"
proof -
  obtain new where new: "add_tabs fresh n ps tabs = tabs @ new"
    "\<forall>t \<in> set new. \<exists>q \<in> set ps. tb_profile t = Some (pf_id q)"
    "\<forall>q \<in> set ps. \<exists>t \<in> set (tabs @ new). tb_profile t = Some (pf_id q)"
    using add_tabs_spec by blast
  have "case tb_profile t of None \<Rightarrow> ps = [] | Some i \<Rightarrow> has_profile ps i" if "t \<in> set new" for t
    using new(2) that by (fastforce simp: has_profile_def list_ex_iff)
  with assms new(1,3) show ?thesis by (auto simp: tabs_ok_def has_profile_def list_ex_iff)
qed

section \<open>Active tabs\<close>

definition active_part :: "profile list \<Rightarrow> saved_tab list \<Rightarrow> (nat \<Rightarrow> nat option) \<Rightarrow> bool" where
  "active_part ps tabs active \<longleftrightarrow>
     (\<forall>p t. active p = Some t \<longrightarrow> has_profile ps p \<and> (\<exists>tab \<in> set tabs. tb_id tab = t \<and> tb_profile tab = Some p))"

lemma keep_active_part: "active_part ps tabs (keep_active ps tabs active)"
  by (auto simp: active_part_def keep_active_def list_ex_iff split: option.splits if_splits)

lemma first_tab_Some: "first_tab tabs p = Some t \<Longrightarrow> t \<in> set tabs \<and> tb_profile t = Some p"
  by (auto simp: first_tab_def find_Some_iff in_set_conv_nth)

lemma first_tab_None: "first_tab tabs p = None \<longleftrightarrow> (\<forall>t \<in> set tabs. tb_profile t \<noteq> Some p)"
  by (auto simp: first_tab_def find_None_iff)

lemma fill_active_spec:
  assumes "\<forall>i. has_profile ps i \<longrightarrow> (\<exists>t \<in> set tabs. tb_profile t = Some i)" "set qs \<subseteq> set ps" "active_part ps tabs active"
  shows "active_part ps tabs (fold (fill_active tabs) qs active)
    \<and> (\<forall>p. (active p \<noteq> None \<or> (\<exists>q \<in> set qs. pf_id q = p)) \<longrightarrow> fold (fill_active tabs) qs active p \<noteq> None)"
  using assms(2,3)
proof (induction qs arbitrary: active)
  case (Cons q qs)
  from Cons.prems(1) have q: "has_profile ps (pf_id q)" by (auto simp: has_profile_def list_ex_iff)
  with assms(1) obtain t where t: "first_tab tabs (pf_id q) = Some t"
    by (cases "first_tab tabs (pf_id q)") (auto simp: first_tab_None)
  have 1: "active_part ps tabs (fill_active tabs q active)"
    using Cons.prems(2) q first_tab_Some [OF t] by (auto simp: active_part_def fill_active_def t)
  have 2: "fill_active tabs q active p \<noteq> None" if "active p \<noteq> None \<or> p = pf_id q" for p
    using that by (auto simp: fill_active_def t)
  from Cons.IH [OF _ 1] Cons.prems(1) 2 show ?case by (auto simp: fold_Cons)
qed simp

lemma settle_active_ok:
  assumes tabs: "tabs_ok ps tabs" and part: "active_part ps tabs active" and i: "tabs \<noteq> [] \<longrightarrow> i < length tabs"
    and full: "\<And>p. has_profile ps p \<Longrightarrow> active p \<noteq> None"
    and settled: "settle_active ps tabs i active = (j, active')"
  shows "active_ok ps tabs j active'"
proof (cases "tab_profile tabs i")
  case (Some p)
  then have p: "i < length tabs" "tb_profile (tabs ! i) = Some p" by (auto simp: tab_profile_def split: if_splits)
  from tabs have "case tb_profile (tabs ! i) of None \<Rightarrow> ps = [] | Some i \<Rightarrow> has_profile ps i"
    using nth_mem [OF p(1)] unfolding tabs_ok_def by blast
  with p have "has_profile ps p" by simp
  moreover from settled Some have "j = i" "active' = active(p \<mapsto> tb_id (tabs ! i))"
    by (auto simp: settle_active_def)
  ultimately show ?thesis
    using part full p Some by (auto simp: active_ok_def active_part_def)
next
  case None
  have "ps = []"
  proof (cases "tabs = []")
    case True
    with tabs show ?thesis by (cases ps) (auto simp: tabs_ok_def has_profile_def)
  next
    case False
    with i None have "tb_profile (tabs ! i) = None" "tabs ! i \<in> set tabs" by (simp_all add: tab_profile_def)
    with tabs show ?thesis by (auto simp: tabs_ok_def)
  qed
  with settled None have "j = i" "active' = active" by (simp_all add: settle_active_def)
  with part i None \<open>ps = []\<close> show ?thesis
    by (auto simp: active_ok_def active_part_def has_profile_def)
qed

section \<open>Titles\<close>

lemma unique_tab_title_free:
  assumes "finite U"
  shows "\<exists>t. unique_tab_title title (\<lambda>c. c \<in> U) = Some t \<and> t \<notin> U \<and> (title \<noteq> [] \<longrightarrow> t \<noteq> [])"
proof (cases "title \<in> U")
  case True
  have "finite {s. s \<in> U}" using assms by simp
  from copied_tabs.find_free_ends [OF this, of title] obtain n where
    n: "copied_tab_candidate title n \<notin> U" "copied_tab_title title (\<lambda>c. c \<in> U) = Some (copied_tab_candidate title n)"
    unfolding copied_tab_title_def by blast
  moreover have "copied_tab_candidate title n \<noteq> []"
    by (simp add: copied_tab_candidate_def title_with_suffix_def Let_def)
  ultimately show ?thesis using True by (simp add: unique_tab_title_def)
qed (simp add: unique_tab_title_def)

lemma trim_nonblank: "\<not> blank s \<Longrightarrow> trim s \<noteq> []"
  unfolding blank_def by simp

lemma title_tabs_spec:
  assumes "\<forall>p. finite (used p)"
  shows "\<exists>ts'. title_tabs used ts = Some ts' \<and> map tb_id ts' = map tb_id ts \<and> map tb_sql ts' = map tb_sql ts
    \<and> map tb_profile ts' = map tb_profile ts \<and> (\<forall>t \<in> set ts'. tb_title t \<noteq> [])
    \<and> (\<forall>p. distinct (map tb_title (filter (\<lambda>t. tb_profile t = p) ts'))
          \<and> set (map tb_title (filter (\<lambda>t. tb_profile t = p) ts')) \<inter> used p = {})"
  using assms
proof (induction ts arbitrary: used)
  case (Cons t ts)
  let ?title = "if blank (tb_title t) then ''Query 1'' else trim (tb_title t)"
  obtain n where n: "unique_tab_title ?title (\<lambda>c. c \<in> used (tb_profile t)) = Some n" "n \<notin> used (tb_profile t)" "n \<noteq> []"
  proof -
    have "?title \<noteq> []" using trim_nonblank [of "tb_title t"] by simp
    moreover have "finite (used (tb_profile t))" using Cons.prems by blast
    ultimately show ?thesis using unique_tab_title_free [of "used (tb_profile t)" ?title] that by blast
  qed
  let ?used = "used(tb_profile t := insert n (used (tb_profile t)))"
  have "\<forall>p. finite (?used p)" using Cons.prems by simp
  from Cons.IH [OF this] obtain ts' where ts': "title_tabs ?used ts = Some ts'" "map tb_id ts' = map tb_id ts"
    "map tb_sql ts' = map tb_sql ts" "map tb_profile ts' = map tb_profile ts" "\<forall>t \<in> set ts'. tb_title t \<noteq> []"
    and d: "\<And>p. distinct (map tb_title (filter (\<lambda>t. tb_profile t = p) ts'))"
      "\<And>p. set (map tb_title (filter (\<lambda>t. tb_profile t = p) ts')) \<inter> ?used p = {}"
    by blast
  let ?t = "t\<lparr>tb_title := n\<rparr>"
  have "distinct (map tb_title (filter (\<lambda>t. tb_profile t = p) (?t # ts')))
      \<and> set (map tb_title (filter (\<lambda>t. tb_profile t = p) (?t # ts'))) \<inter> used p = {}" for p
    using d(1) [of p] d(2) [of p] n(2) by (auto split: if_splits)
  moreover have "title_tabs used (t # ts) = Some (?t # ts')"
    using n(1) ts'(1) by (simp add: Let_def)
  ultimately show ?case using ts' n(3) by (intro exI [of _ "?t # ts'"]) simp
qed simp

section \<open>Conversations\<close>

lemma sanitize_conversations_spec:
  "distinct (map cv_thread_id (sanitize_conversations ids cs))
   \<and> (\<forall>c \<in> set (sanitize_conversations ids cs). cv_thread_id c \<notin> ids \<and> cv_thread_id c \<noteq> []
        \<and> (\<exists>d. c = conversation_sanitize d))"
proof (induction cs arbitrary: ids)
  case (Cons c cs)
  let ?d = "conversation_sanitize c"
  from Cons [of ids] Cons [of "insert (cv_thread_id ?d) ids"] show ?case
    by (auto simp: Let_def)
qed simp

lemma take_chars_nonempty: "s \<noteq> [] \<Longrightarrow> 0 < n \<Longrightarrow> take_chars n s \<noteq> []"
proof -
  assume "s \<noteq> []" "0 < n"
  then obtain c cs where c: "chunks s = c # cs" "c \<noteq> []" "n = Suc (n - 1)"
    using chunks_nonempty [of _ s] by (cases "chunks s") auto
  then show ?thesis by (metis take_chars_def append_is_Nil_conv concat.simps(2) take_Suc_Cons)
qed

lemma conversation_sanitize_title:
  "cv_title (conversation_sanitize c) \<noteq> []"
  "char_count (cv_title (conversation_sanitize c)) \<le> MAX_ASSISTANT_CONVERSATION_TITLE"
  using char_count_take_chars take_chars_nonempty
  by (auto simp: conversation_sanitize_def Let_def MAX_ASSISTANT_CONVERSATION_TITLE_def new_conversation_title_def)

text \<open>What the linking of tabs does not touch.\<close>

definition same_conversation :: "conversation \<Rightarrow> conversation \<Rightarrow> bool" where
  "same_conversation c d \<longleftrightarrow> cv_thread_id c = cv_thread_id d \<and> cv_title c = cv_title d"

lemma link_one_same: "same_conversation (snd (link_one tabs claimed c)) c"
  by (auto simp: link_one_def same_conversation_def split: option.split)

lemma link_loop_length [simp]: "length (link_loop tabs is claimed cs) = length cs"
  by (induction "is" arbitrary: claimed cs) (auto split: prod.split)

lemma link_loop_same:
  "i < length cs \<Longrightarrow> same_conversation (link_loop tabs is claimed cs ! i) (cs ! i)"
proof (induction "is" arbitrary: claimed cs)
  case (Cons k ks)
  obtain cl c where c: "link_one tabs claimed (cs ! k) = (cl, c)" by force
  with link_one_same [of tabs claimed "cs ! k"] have "same_conversation c (cs ! k)" by simp
  moreover have "same_conversation (link_loop tabs ks cl (cs[k := c]) ! i) (cs[k := c] ! i)"
    using Cons by simp
  moreover have "same_conversation (cs[k := c] ! i) (cs ! i)" if "same_conversation c (cs ! k)"
    using that Cons.prems by (cases "k = i") (simp_all add: same_conversation_def)
  ultimately show ?case using c Cons.prems by (simp add: same_conversation_def)
qed (simp add: same_conversation_def)

text \<open>
  After the loop the conversations of the order hold existing tabs, each tab once; those that come
  later keep what they had.
\<close>

definition linked :: "saved_tab list \<Rightarrow> nat set \<Rightarrow> nat set \<Rightarrow> conversation list \<Rightarrow> bool" where
  "linked tabs I claimed cs \<longleftrightarrow>
     (\<forall>i \<in> I. \<forall>t. cv_tab_id (cs ! i) = Some t \<longrightarrow> t \<in> claimed \<and> (\<exists>tab \<in> set tabs. tb_id tab = t))
     \<and> (\<forall>i \<in> I. \<forall>j \<in> I. \<forall>t. cv_tab_id (cs ! i) = Some t \<and> cv_tab_id (cs ! j) = Some t \<longrightarrow> i = j)"

lemma link_one_cases:
  assumes "link_one tabs claimed c = (cl, d)"
  shows "claimed \<subseteq> cl" "cv_tab_id d = Some t \<Longrightarrow> t \<in> cl \<and> t \<notin> claimed \<and> (\<exists>tab \<in> set tabs. tb_id tab = t)"
  using assms by (auto simp: link_one_def find_Some_iff split: option.splits if_splits)

lemma link_loop_linked:
  assumes "linked tabs I claimed cs" "distinct is" "set is \<inter> I = {}" "set is \<union> I \<subseteq> {..<length cs}"
  shows "\<exists>cl. linked tabs (I \<union> set is) cl (link_loop tabs is claimed cs)"
  using assms
proof (induction "is" arbitrary: I claimed cs)
  case (Cons k ks)
  obtain cl c where c: "link_one tabs claimed (cs ! k) = (cl, c)" by force
  note step = link_one_cases [OF c]
  have k: "k < length cs" "k \<notin> I" using Cons.prems by auto
  have "linked tabs (insert k I) cl (cs[k := c])"
    unfolding linked_def
  proof (intro conjI ballI allI impI)
    fix i t assume "i \<in> insert k I" "cv_tab_id (cs[k := c] ! i) = Some t"
    with k step Cons.prems(1) show "t \<in> cl" "\<exists>tab \<in> set tabs. tb_id tab = t"
      by (auto simp: linked_def nth_list_update split: if_splits)
  next
    fix i j t assume "i \<in> insert k I" "j \<in> insert k I"
      "cv_tab_id (cs[k := c] ! i) = Some t \<and> cv_tab_id (cs[k := c] ! j) = Some t"
    with k step(2) [of t] Cons.prems(1) show "i = j"
      by (auto simp: linked_def nth_list_update split: if_splits)
  qed
  with Cons.IH [of "insert k I" cl "cs[k := c]"] Cons.prems c show ?case by auto
qed auto

lemma latest_first_indices: "distinct (latest_first cs)" "set (latest_first cs) = {..<length cs}"
  by (auto simp: latest_first_def distinct_sort)

lemma drop_stale_profile_simps [simp]:
  "cv_tab_id (drop_stale_profile ps c) = cv_tab_id c"
  "cv_thread_id (drop_stale_profile ps c) = cv_thread_id c" "cv_title (drop_stale_profile ps c) = cv_title c"
  by (simp_all add: drop_stale_profile_def split: option.split)

lemma drop_stale_profile_exists:
  "cv_detached_profile (drop_stale_profile ps c) = Some p \<Longrightarrow> has_profile ps p"
  by (auto simp: drop_stale_profile_def split: option.splits if_splits)

lemma link_tabs_same:
  "map cv_thread_id (link_tabs tabs ps cs) = map cv_thread_id cs"
  "map cv_title (link_tabs tabs ps cs) = map cv_title cs"
  using link_loop_same [of _ cs tabs "latest_first cs" "{}"]
  by (auto simp: link_tabs_def same_conversation_def intro!: nth_equalityI)

lemma link_tabs_linked: "\<exists>cl. linked tabs {..<length cs} cl (link_loop tabs (latest_first cs) {} cs)"
  using link_loop_linked [of tabs "{}" "{}" cs "latest_first cs"]
  by (simp add: latest_first_indices linked_def)

lemma conversations_ok_link_tabs:
  assumes "distinct (map cv_thread_id cs)"
    "\<forall>c \<in> set cs. cv_thread_id c \<noteq> [] \<and> cv_title c \<noteq> [] \<and> char_count (cv_title c) \<le> MAX_ASSISTANT_CONVERSATION_TITLE"
  shows "conversations_ok ps tabs (link_tabs tabs ps cs)"
proof -
  let ?ds = "link_loop tabs (latest_first cs) {} cs"
  obtain cl where cl: "linked tabs {..<length cs} cl ?ds" using link_tabs_linked by blast
  have same: "same_conversation (?ds ! i) (cs ! i)" if "i < length cs" for i using that by (rule link_loop_same)
  have each: "cv_thread_id c \<noteq> [] \<and> cv_title c \<noteq> [] \<and> char_count (cv_title c) \<le> MAX_ASSISTANT_CONVERSATION_TITLE
      \<and> (\<forall>t. cv_tab_id c = Some t \<longrightarrow> (\<exists>tab \<in> set tabs. tb_id tab = t))
      \<and> (\<forall>p. cv_detached_profile c = Some p \<longrightarrow> has_profile ps p)" if c: "c \<in> set (link_tabs tabs ps cs)" for c
  proof -
    from c obtain i where i: "i < length cs" "c = drop_stale_profile ps (?ds ! i)"
      by (auto simp: link_tabs_def in_set_conv_nth)
    with same [OF i(1)] assms(2) cl drop_stale_profile_exists show ?thesis
      by (auto simp: same_conversation_def linked_def)
  qed
  moreover have "\<forall>i < length (link_tabs tabs ps cs). \<forall>j < length (link_tabs tabs ps cs). \<forall>t.
      cv_tab_id (link_tabs tabs ps cs ! i) = Some t \<and> cv_tab_id (link_tabs tabs ps cs ! j) = Some t \<longrightarrow> i = j"
    using cl by (auto simp: link_tabs_def linked_def)
  ultimately show ?thesis using assms(1) by (simp add: conversations_ok_def link_tabs_same(1))
qed

lemma adopt_conversations_simps [simp]:
  "map cv_thread_id (adopt_conversations tabs i selected cs) = map cv_thread_id cs"
  "map cv_title (adopt_conversations tabs i selected cs) = map cv_title cs"
  by (simp_all add: adopt_conversations_def)

lemma adopt_conversations_each:
  assumes "\<forall>c \<in> set cs. P (cv_thread_id c) (cv_title c)"
  shows "\<forall>c \<in> set (adopt_conversations tabs i selected cs). P (cv_thread_id c) (cv_title c)"
  using assms by (auto simp: adopt_conversations_def)

lemma normalize_assistant_ok:
  "conversations_ok ps tabs (as_conversations (normalize_assistant version tabs i ps a))
   \<and> as_legacy_selected (normalize_assistant version tabs i ps a) = None"
proof -
  let ?P = "\<lambda>thread title. thread \<noteq> [] \<and> title \<noteq> [] \<and> char_count title \<le> MAX_ASSISTANT_CONVERSATION_TITLE"
  let ?cs = "sanitize_conversations {} (as_conversations a)"
  let ?ds = "adopt_conversations tabs i (map_option trim (as_legacy_selected a)) ?cs"
  have 1: "distinct (map cv_thread_id ?cs)" "\<forall>c \<in> set ?cs. ?P (cv_thread_id c) (cv_title c)"
    using sanitize_conversations_spec [of "{}" "as_conversations a"] by (auto simp: conversation_sanitize_title)
  have 2: "distinct (map cv_thread_id ?ds)" "\<forall>c \<in> set ?ds. ?P (cv_thread_id c) (cv_title c)"
    using 1(1) adopt_conversations_each [of _ ?P, OF 1(2)] by simp_all
  from conversations_ok_link_tabs [OF 1] conversations_ok_link_tabs [OF 2] show ?thesis
    by (simp add: normalize_assistant_def Let_def)
qed

section \<open>Catalogs, scope and profiles\<close>

lemma shared_catalog_sanitize_ok:
  "browses (sc_settings (shared_catalog_sanitize c))" "catalog_validate (sc_settings (shared_catalog_sanitize c)) = Inr ()"
  "\<not> blank (sc_name (shared_catalog_sanitize c))"
proof -
  have 1: "catalog_validate (catalog_settings_default\<lparr>cs_refresh := r\<rparr>) = Inr ()" for r
    by (simp add: catalog_validate_ok catalog_settings_default_def)
  show "catalog_validate (sc_settings (shared_catalog_sanitize c)) = Inr ()"
    using 1 by (auto simp: shared_catalog_sanitize_def Let_def is_ok_def split: sum.splits)
  show "browses (sc_settings (shared_catalog_sanitize c))"
    by (auto simp: shared_catalog_sanitize_def Let_def browses_def)
  show "\<not> blank (sc_name (shared_catalog_sanitize c))"
    by (simp add: shared_catalog_sanitize_def Let_def) code_simp
qed

lemma drop_stale_catalog_simps [simp]:
  "pf_id (drop_stale_catalog shared p) = pf_id p" "pf_assistant_notes (drop_stale_catalog shared p) = pf_assistant_notes p"
  "pf_dbt (drop_stale_catalog shared p) = pf_dbt p"
  by (simp_all add: drop_stale_catalog_def split: option.split)

lemma drop_stale_catalog_known:
  "pf_shared_catalog (drop_stale_catalog shared p) = Some i \<Longrightarrow> \<exists>c \<in> set shared. sc_id c = i"
  by (auto simp: drop_stale_catalog_def list_ex_iff split: option.splits if_splits)

lemma drop_stale_preferred_simps [simp]:
  "sc_id (drop_stale_preferred ps c) = sc_id c" "sc_settings (drop_stale_preferred ps c) = sc_settings c"
  "sc_name (drop_stale_preferred ps c) = sc_name c"
  by (simp_all add: drop_stale_preferred_def split: option.split)

lemma drop_stale_preferred_known:
  "sc_preferred (drop_stale_preferred ps c) = Some q \<Longrightarrow>
   \<exists>p \<in> set ps. pf_id p = q \<and> pf_shared_catalog p = Some (sc_id c)"
  by (auto simp: drop_stale_preferred_def list_ex_iff split: option.splits if_splits)

lemma prune_shared_catalogs_ok:
  assumes "\<forall>c \<in> set shared. browses (sc_settings c) \<and> catalog_validate (sc_settings c) = Inr () \<and> \<not> blank (sc_name c)"
    "prune_shared_catalogs ps shared = (ps', shared', removed)"
  shows "catalogs_ok ps' shared'" "ps' = map (drop_stale_catalog shared) ps"
proof -
  have ps': "ps' = map (drop_stale_catalog shared) ps"
    and shared': "shared' = map (drop_stale_preferred ps') (filter (catalog_used ps') shared)"
    using assms(2) by (auto simp: prune_shared_catalogs_def Let_def)
  show "ps' = map (drop_stale_catalog shared) ps" by (rule ps')
  have "\<exists>c \<in> set shared'. sc_id c = i" if "p \<in> set ps'" "pf_shared_catalog p = Some i" for p i
  proof -
    from that ps' obtain q where "p = drop_stale_catalog shared q" by auto
    with drop_stale_catalog_known that(2) obtain c where c: "c \<in> set shared" "sc_id c = i" by blast
    with that have "catalog_used ps' c" by (auto simp: catalog_used_def list_ex_iff)
    with c shared' show ?thesis by auto
  qed
  moreover have "catalog_used ps' c \<and> browses (sc_settings c) \<and> catalog_validate (sc_settings c) = Inr ()
      \<and> \<not> blank (sc_name c)
      \<and> (\<forall>q. sc_preferred c = Some q \<longrightarrow> (\<exists>p \<in> set ps'. pf_id p = q \<and> pf_shared_catalog p = Some (sc_id c)))"
    if "c \<in> set shared'" for c
  proof -
    from that shared' obtain d where d: "d \<in> set shared" "catalog_used ps' d" "c = drop_stale_preferred ps' d" by auto
    then have "catalog_used ps' c" by (simp add: catalog_used_def)
    with d assms(1) drop_stale_preferred_known [of ps' d] show ?thesis by simp
  qed
  ultimately show "catalogs_ok ps' shared'" unfolding catalogs_ok_def by blast
qed

lemma scope_ok_sanitize: "scope_ok ps (scope_sanitize ps s)"
  by (auto simp: scope_ok_def scope_sanitize_def Let_def split: search_scope.split)

lemma profile_ok_sanitize: "profile_ok (profile_sanitize p)"
  using profile_sanitize_notes [of p]
  by (auto simp: profile_ok_def) (auto simp: profile_sanitize_def list_all_iff dest!: in_set_takeD)

section \<open>The normalized workspace\<close>

lemma tabs_ok_cong:
  assumes "\<And>i. has_profile ps i \<longleftrightarrow> has_profile qs i" "ps = [] \<longleftrightarrow> qs = []" "map tb_profile ts = map tb_profile us"
  shows "tabs_ok ps ts \<longleftrightarrow> tabs_ok qs us"
proof -
  have all: "(\<forall>t \<in> set ts. P (tb_profile t)) \<longleftrightarrow> (\<forall>t \<in> set us. P (tb_profile t))" for P
    using arg_cong [OF assms(3), of "list_all P"] by (simp add: list_all_iff)
  have ex: "(\<exists>t \<in> set ts. P (tb_profile t)) \<longleftrightarrow> (\<exists>t \<in> set us. P (tb_profile t))" for P
    using arg_cong [OF assms(3), of "list_ex P"] by (simp add: list_ex_iff)
  show ?thesis
    unfolding tabs_ok_def assms(1,2) all [of "\<lambda>q. case q of None \<Rightarrow> qs = [] | Some i \<Rightarrow> has_profile qs i"]
      ex [of "\<lambda>q. q = Some i" for i] ..
qed

lemma active_ok_cong:
  assumes "\<And>i. has_profile ps i \<longleftrightarrow> has_profile qs i" "map tb_profile ts = map tb_profile us" "map tb_id ts = map tb_id us"
  shows "active_ok ps ts i active \<longleftrightarrow> active_ok qs us i active"
proof -
  have l: "length ts = length us" using arg_cong [OF assms(2), of length] by simp
  have n: "tb_profile (ts ! k) = tb_profile (us ! k)" "tb_id (ts ! k) = tb_id (us ! k)" if "k < length ts" for k
    using that assms(2,3) l by (metis nth_map)+
  have "(\<exists>t \<in> set ts. tb_id t = x \<and> tb_profile t = y) \<longleftrightarrow> (\<exists>t \<in> set us. tb_id t = x \<and> tb_profile t = y)" for x y
    using n l by (metis in_set_conv_nth)
  moreover have "tab_profile ts i = tab_profile us i" using n l by (simp add: tab_profile_def)
  moreover have "tab_profile us i = Some p \<longrightarrow> tb_id (ts ! i) = tb_id (us ! i)" for p
    using n l by (simp add: tab_profile_def)
  moreover have "ts = [] \<longleftrightarrow> us = []" using l by (cases ts; cases us) auto
  ultimately show ?thesis by (simp add: active_ok_def assms(1) l)
qed

lemma conversations_ok_cong:
  "(\<And>i. has_profile ps i \<longleftrightarrow> has_profile qs i) \<Longrightarrow> conversations_ok ps tabs cs \<longleftrightarrow> conversations_ok qs tabs cs"
  by (simp add: conversations_ok_def)

text \<open>The tabs and the active tabs before the titles.\<close>

lemma normalized_tabs_ok:
  assumes "tabs = add_tabs fresh 0 ps (map (own_tab ps (fallback_profile ps old a)) old)"
    "settle_active ps tabs (min a (length tabs - 1))
       (fold (fill_active tabs) ps (keep_active ps tabs active)) = (i, active')"
  shows "tabs_ok ps tabs" "active_ok ps tabs i active'"
proof -
  have "\<forall>t \<in> set (map (own_tab ps (fallback_profile ps old a)) old).
      case tb_profile t of None \<Rightarrow> ps = [] | Some i \<Rightarrow> has_profile ps i"
    using own_tab_ok [of ps old a] by (simp only: set_map ball_simps) blast
  from tabs_ok_add [OF this] show ok: "tabs_ok ps tabs" by (simp add: assms(1))
  then have "\<forall>i. has_profile ps i \<longrightarrow> (\<exists>t \<in> set tabs. tb_profile t = Some i)" by (simp add: tabs_ok_def)
  note filled = fill_active_spec [OF this subset_refl keep_active_part [of ps tabs active]]
  show "active_ok ps tabs i active'"
  proof (rule settle_active_ok [OF ok conjunct1 [OF filled] _ _ assms(2)])
    show "tabs \<noteq> [] \<longrightarrow> min a (length tabs - 1) < length tabs" by (cases tabs) auto
  next
    fix p assume "has_profile ps p"
    then have "\<exists>q \<in> set ps. pf_id q = p" by (simp add: has_profile_def list_ex_iff)
    then show "fold (fill_active tabs) ps (keep_active ps tabs active) p \<noteq> None"
      using conjunct2 [OF filled] by blast
  qed
qed

lemma add_tabs_kept:
  "\<exists>new. map (\<lambda>t. (tb_id t, tb_sql t)) (add_tabs fresh n ps (map (own_tab qs f) old))
     = map (\<lambda>t. (tb_id t, tb_sql t)) old @ new"
proof -
  obtain new where "add_tabs fresh n ps (map (own_tab qs f) old) = map (own_tab qs f) old @ new"
    using add_tabs_spec by blast
  then have "map (\<lambda>t. (tb_id t, tb_sql t)) (add_tabs fresh n ps (map (own_tab qs f) old))
      = map ((\<lambda>t. (tb_id t, tb_sql t)) \<circ> own_tab qs f) old @ map (\<lambda>t. (tb_id t, tb_sql t)) new"
    by (simp only: map_append map_map)
  also have "(\<lambda>t. (tb_id t, tb_sql t)) \<circ> own_tab qs f = (\<lambda>t. (tb_id t, tb_sql t))" by (simp add: fun_eq_iff)
  finally show ?thesis by blast
qed

lemma map_pair_eq: "map f xs = map f ys \<Longrightarrow> map g xs = map g ys \<Longrightarrow> map (\<lambda>x. (f x, g x)) xs = map (\<lambda>x. (f x, g x)) ys"
proof -
  assume eq: "map f xs = map f ys" "map g xs = map g ys"
  have "map (\<lambda>x. (f x, g x)) zs = zip (map f zs) (map g zs)" for zs by (induction zs) simp_all
  then show ?thesis by (simp only: eq)
qed

text \<open>
  C26. Whatever a saved workspace holds, its normalization ends with a well-formed one: every tab
  belongs to a connection (while there is one) and every connection has a tab, the titles of the tabs
  of one connection differ, every connection has an active tab of its own, the conversations have
  different threads and hold different tabs, the shared catalogs are used and valid, the scope of
  the search names connections, the notes and the schema rules are within their limits, no legacy
  sign-in is left. Nothing of the user is lost on the way: the tabs keep their identifiers and SQL,
  in order, and the connections stay.
\<close>

theorem normalized_workspaces_are_well_formed:
  "\<exists>w' new. normalize_workspace fresh w = Some w' \<and> workspace_ok w'
     \<and> map (\<lambda>t. (tb_id t, tb_sql t)) (ws_tabs w') = map (\<lambda>t. (tb_id t, tb_sql t)) (ws_tabs w) @ new
     \<and> map pf_id (ws_profiles w') = map pf_id (ws_profiles w)"
proof -
  let ?ps = "map (profile_sanitize \<circ> migrate_profile (legacy_sign_ins (ws_sign_ins w))) (ws_profiles w)"
  let ?tabs = "add_tabs fresh 0 ?ps (map (own_tab ?ps (fallback_profile ?ps (ws_tabs w) (ws_active_tab w))) (ws_tabs w))"
  obtain i active where settled: "settle_active ?ps ?tabs (min (ws_active_tab w) (length ?tabs - 1))
      (fold (fill_active ?tabs) ?ps (keep_active ?ps ?tabs (ws_active_tabs w))) = (i, active)" by force
  note tabs = normalized_tabs_ok [OF refl settled]
  obtain ts where ts: "title_tabs (\<lambda>_. {}) ?tabs = Some ts" "map tb_id ts = map tb_id ?tabs"
    "map tb_sql ts = map tb_sql ?tabs" "map tb_profile ts = map tb_profile ?tabs" "titles_ok ts"
    using title_tabs_spec [of "\<lambda>_. {}" ?tabs] by (auto simp: titles_ok_def)
  let ?shared = "map shared_catalog_sanitize (ws_shared_catalogs w)"
  obtain qs shared removed where pruned: "prune_shared_catalogs ?ps ?shared = (qs, shared, removed)"
    by (cases "prune_shared_catalogs ?ps ?shared")
  have "\<forall>c \<in> set ?shared. browses (sc_settings c) \<and> catalog_validate (sc_settings c) = Inr () \<and> \<not> blank (sc_name c)"
    using shared_catalog_sanitize_ok by auto
  note catalogs = prune_shared_catalogs_ok [OF this pruned]
  have same: "has_profile qs k \<longleftrightarrow> has_profile ?ps k" for k
    unfolding catalogs(2) by (rule has_profile_map) simp
  have empty: "qs = [] \<longleftrightarrow> ?ps = []" by (simp add: catalogs(2))
  have "tabs_ok qs ts" using tabs_ok_cong [OF same empty ts(4)] tabs(1) by simp
  moreover have "active_ok qs ts i active" using active_ok_cong [OF same ts(4) ts(2)] tabs(2) by simp
  moreover have "conversations_ok qs ts (as_conversations (normalize_assistant v ts i ?ps a))" for v a
    using normalize_assistant_ok conversations_ok_cong [OF same] by blast
  moreover have "list_all profile_ok qs"
    using profile_ok_sanitize by (simp add: catalogs(2) list_all_iff profile_ok_def)
  moreover have "map pf_id qs = map pf_id (ws_profiles w)"
    by (simp add: catalogs(2) migrate_profile_def)
  moreover have "\<exists>new. map (\<lambda>t. (tb_id t, tb_sql t)) ts = map (\<lambda>t. (tb_id t, tb_sql t)) (ws_tabs w) @ new"
    unfolding map_pair_eq [OF ts(2,3)] by (rule add_tabs_kept)
  moreover obtain w' where "w' = w\<lparr>ws_version := WORKSPACE_VERSION, ws_profiles := qs, ws_tabs := ts, ws_active_tab := i,
      ws_active_tabs := active, ws_assistant := normalize_assistant (ws_version w) ts i ?ps (ws_assistant w),
      ws_shared_catalogs := shared,
      ws_sign_ins := filter (\<lambda>s. si_provider s \<noteq> Legacy_Trino_External) (ws_sign_ins w),
      ws_search_scope := scope_sanitize qs (ws_search_scope w)\<rparr>" by blast
  moreover from this have "normalize_workspace fresh w = Some w'"
    unfolding normalize_workspace_def Let_def settled split_conv ts(1) bind.bind_lunit pruned by simp
  ultimately show ?thesis
    using catalogs(1) ts(5) by (intro exI [of _ w']) (simp add: workspace_ok_def normalize_assistant_ok scope_ok_sanitize list_all_iff)
qed

end
