(* ===== verification/External_Auth.thy ===== *)
theory External_Auth
  imports Profiles
begin

text \<open>
  Shared browser sign-ins (\<open>src/external_auth.rs\<close>): the registry of connections, one entry with a
  cached token per connection, and flights: sign-ins under way that several callers wait for.

  An \<open>Arc\<close> is an address: entries, flights and callers are functions from addresses with a counter
  of the used ones. A step is what one thread does between two locks or reads, so the steps of all
  threads interleave. The job of a flight, the clock and the cancellation of a caller are arguments
  of the steps; the observers (progress, notification) only watch.
\<close>

section \<open>State\<close>

record entry =
  en_profile :: profile
  en_valid :: bool
  en_token :: "string option"
  en_flight :: "nat option"
  en_failed :: bool

record flight =
  fl_entry :: nat
  fl_cancel :: bool
  fl_waiters :: nat
  fl_result :: "(string, string) result option"

datatype auth_failure = Auth_Cancelled | Settings_Changed | Sign_In_Failed string | Sign_In_Timeout

text \<open>A caller of \<open>authenticate\<close>: where its thread is.\<close>

datatype caller =
    Returned "(auth_failure, string) result"
  | Checked nat "string option"
  | Polling nat nat
  | Looking nat nat
  | Leaving nat nat "(auth_failure, string) result"

text \<open>A thread in \<open>retain\<close> holds the lock of the registry.\<close>

datatype retain_reason = Keep_Configured "profile list" | Keep_Others nat

record retain_state =
  rt_reason :: retain_reason
  rt_kept :: "nat list"
  rt_todo :: "nat list"
  rt_clearing :: "nat option"

record auth_service =
  sv_profiles :: "profile list"
  sv_registry :: "nat list"
  sv_retain :: "retain_state option"
  sv_entry :: "nat \<Rightarrow> entry"
  sv_entries :: nat
  sv_flight :: "nat \<Rightarrow> flight"
  sv_flights :: nat
  sv_caller :: "nat \<Rightarrow> caller"
  sv_callers :: nat

definition entry_new :: "profile \<Rightarrow> entry" where
  "entry_new p = \<lparr>en_profile = p, en_valid = True, en_token = None, en_flight = None, en_failed = False\<rparr>"

definition flight_new :: "nat \<Rightarrow> flight" where
  "flight_new e = \<lparr>fl_entry = e, fl_cancel = False, fl_waiters = 0, fl_result = None\<rparr>"

text \<open>No address is used yet.\<close>

definition auth_new :: "auth_service" where
  "auth_new =
     \<lparr>sv_profiles = [], sv_registry = [], sv_retain = None,
      sv_entry = (\<lambda>_. (entry_new (profile_default 0))\<lparr>en_valid := False\<rparr>), sv_entries = 0,
      sv_flight = (\<lambda>_. (flight_new 0)\<lparr>fl_cancel := True\<rparr>), sv_flights = 0,
      sv_caller = (\<lambda>_. Returned (Inl Auth_Cancelled)), sv_callers = 0\<rparr>"

section \<open>The registry\<close>

definition keeps_entry :: "retain_reason \<Rightarrow> profile \<Rightarrow> bool" where
  "keeps_entry reason q =
     (case reason of
        Keep_Configured ps \<Rightarrow> list_ex (\<lambda>p. pf_authentication p = Auth_Trino_External \<and> connection_identity_eq q p) ps
      | Keep_Others i \<Rightarrow> pf_id q \<noteq> i)"

definition start_retain :: "retain_reason \<Rightarrow> auth_service \<Rightarrow> auth_service" where
  "start_retain reason s =
     s\<lparr>sv_retain := Some \<lparr>rt_reason = reason, rt_kept = [], rt_todo = sv_registry s, rt_clearing = None\<rparr>\<rparr>"

text \<open>\<open>configure\<close> and \<open>clear\<close>, up to the loop over the entries. They wait for the lock.\<close>

definition configure :: "profile list \<Rightarrow> auth_service \<Rightarrow> auth_service" where
  "configure ps s = (if sv_retain s = None then start_retain (Keep_Configured ps) (s\<lparr>sv_profiles := ps\<rparr>) else s)"

definition clear_sign_in :: "nat \<Rightarrow> auth_service \<Rightarrow> auth_service" where
  "clear_sign_in i s = (if sv_retain s = None then start_retain (Keep_Others i) s else s)"

text \<open>The part of \<open>invalidate\<close> under the lock of the state.\<close>

definition clear_entry :: "nat \<Rightarrow> auth_service \<Rightarrow> auth_service" where
  "clear_entry e s =
     (let en = sv_entry s e;
          s = s\<lparr>sv_entry := (sv_entry s)(e := en\<lparr>en_token := None, en_flight := None\<rparr>)\<rparr>
      in case en_flight en of
           None \<Rightarrow> s
         | Some f \<Rightarrow> s\<lparr>sv_flight := (sv_flight s)(f := (sv_flight s f)\<lparr>fl_cancel := True\<rparr>)\<rparr>)"

text \<open>One step of the loop: an entry is looked at, or its state is cleared, or the loop ends.\<close>

definition retain_step :: "auth_service \<Rightarrow> auth_service" where
  "retain_step s =
     (case sv_retain s of
        None \<Rightarrow> s
      | Some r \<Rightarrow>
          (case rt_clearing r of
             Some e \<Rightarrow> (clear_entry e s)\<lparr>sv_retain := Some (r\<lparr>rt_clearing := None\<rparr>)\<rparr>
           | None \<Rightarrow>
               (case rt_todo r of
                  [] \<Rightarrow> s\<lparr>sv_registry := rt_kept r, sv_retain := None\<rparr>
                | e # es \<Rightarrow>
                    if keeps_entry (rt_reason r) (en_profile (sv_entry s e))
                    then s\<lparr>sv_retain := Some (r\<lparr>rt_kept := rt_kept r @ [e], rt_todo := es\<rparr>)\<rparr>
                    else s\<lparr>sv_entry := (sv_entry s)(e := (sv_entry s e)\<lparr>en_valid := False\<rparr>),
                           sv_retain := Some (r\<lparr>rt_todo := es, rt_clearing := Some e\<rparr>)\<rparr>)))"

datatype secret_error = Not_External | Invalid_Profile profile_error | Needs_Https | Unknown_Connection

definition secret :: "unicode \<Rightarrow> profile \<Rightarrow> auth_service \<Rightarrow> (secret_error, nat) result \<times> auth_service" where
  "secret u p s =
     (case
        and_then (ensure (pf_authentication p = Auth_Trino_External) Not_External) (\<lambda>_.
        and_then (map_error Invalid_Profile (profile_validate u p)) (\<lambda>_.
        and_then (ensure (pf_database_type p = Trino \<and> pf_tls p) Needs_Https) (\<lambda>_.
        ensure (list_ex (\<lambda>c. connection_identity_eq c p) (sv_profiles s)) Unknown_Connection))) of
        Inl e \<Rightarrow> (Inl e, s)
      | Inr _ \<Rightarrow>
          (case List.find (\<lambda>e. connection_identity_eq (en_profile (sv_entry s e)) p) (sv_registry s) of
             Some e \<Rightarrow> (Inr e, s)
           | None \<Rightarrow>
               (Inr (sv_entries s),
                s\<lparr>sv_entry := (sv_entry s)(sv_entries s := entry_new p), sv_entries := sv_entries s + 1,
                  sv_registry := sv_registry s @ [sv_entries s]\<rparr>)))"

datatype auth_status = Signed_Out | Waiting_Sign_In | Signed_In | Failed_Sign_In

fun status_loop :: "auth_status \<Rightarrow> entry list \<Rightarrow> auth_status" where
  "status_loop st [] = st"
| "status_loop st (en # ens) =
     (if en_flight en \<noteq> None then Waiting_Sign_In
      else
        status_loop
          (if en_token en \<noteq> None then Signed_In
           else if en_failed en \<and> st \<noteq> Signed_In then Failed_Sign_In else st) ens)"

definition auth_status_of :: "nat \<Rightarrow> auth_service \<Rightarrow> auth_status" where
  "auth_status_of i s =
     status_loop Signed_Out (filter (\<lambda>en. pf_id (en_profile en) = i) (map (sv_entry s) (sv_registry s)))"

section \<open>A source\<close>

text \<open>\<open>cached\<close>: the validity is read before the state is locked.\<close>

definition cached_token :: "bool \<Rightarrow> entry \<Rightarrow> (auth_failure, string option) result" where
  "cached_token was_valid en = and_then (ensure was_valid Settings_Changed) (\<lambda>_. Inr (en_token en))"

definition reject :: "nat \<Rightarrow> string option \<Rightarrow> auth_service \<Rightarrow> auth_service" where
  "reject e token s =
     (let en = sv_entry s e in
      if en_token en \<noteq> None \<and> en_token en = token
      then s\<lparr>sv_entry := (sv_entry s)(e := en\<lparr>en_token := None, en_failed := True\<rparr>)\<rparr> else s)"

section \<open>A caller\<close>

definition set_caller :: "nat \<Rightarrow> caller \<Rightarrow> auth_service \<Rightarrow> auth_service" where
  "set_caller k c s = s\<lparr>sv_caller := (sv_caller s)(k := c)\<rparr>"

text \<open>The checks before the lock.\<close>

definition authenticate :: "nat \<Rightarrow> string option \<Rightarrow> bool \<Rightarrow> auth_service \<Rightarrow> auth_service" where
  "authenticate e rejected cancelled s =
     set_caller (sv_callers s)
       (if cancelled then Returned (Inl Auth_Cancelled)
        else if \<not> en_valid (sv_entry s e) then Returned (Inl Settings_Changed)
        else Checked e rejected)
       (s\<lparr>sv_callers := sv_callers s + 1\<rparr>)"

text \<open>
  Under the lock of the state: the token, or a flight to wait for. The caller that makes the flight
  also starts its job, the only one of the flight: in a run the job is the step of the flight that
  gives its result, and it needs a flight without one.
\<close>

definition join_flight :: "nat \<Rightarrow> auth_service \<Rightarrow> auth_service" where
  "join_flight k s =
     (case sv_caller s k of
        Checked e rejected \<Rightarrow>
          (let en = sv_entry s e in
           if en_token en \<noteq> None \<and> en_token en \<noteq> rejected
           then set_caller k (Returned (Inr (the (en_token en)))) s
           else
             (let (f, s) =
                (case en_flight en of
                   Some f \<Rightarrow>
                     if \<not> fl_cancel (sv_flight s f) then (f, s)
                     else (sv_flights s, s\<lparr>sv_flight := (sv_flight s)(sv_flights s := flight_new e),
                                          sv_flights := sv_flights s + 1\<rparr>)
                 | None \<Rightarrow>
                     (sv_flights s, s\<lparr>sv_flight := (sv_flight s)(sv_flights s := flight_new e),
                                     sv_flights := sv_flights s + 1\<rparr>))
              in set_caller k (Polling e f)
                   (s\<lparr>sv_flight := (sv_flight s)(f := (sv_flight s f)\<lparr>fl_waiters := fl_waiters (sv_flight s f) + 1\<rparr>),
                      sv_entry := (sv_entry s)
                        (e := en\<lparr>en_token := None, en_failed := False, en_flight := Some f\<rparr>)\<rparr>)))
      | _ \<Rightarrow> s)"

text \<open>The thread of a flight ends, under the lock of the state.\<close>

definition job_done :: "nat \<Rightarrow> (string, string) result \<Rightarrow> auth_service \<Rightarrow> auth_service" where
  "job_done f r s =
     (let fl = sv_flight s f; e = fl_entry fl; en = sv_entry s e;
          en' =
            (if en_valid en \<and> \<not> fl_cancel fl \<and> en_flight en = Some f
             then en\<lparr>en_token := (case r of Inl _ \<Rightarrow> None | Inr t \<Rightarrow> Some t), en_failed := \<not> is_ok r, en_flight := None\<rparr>
             else if en_flight en = Some f then en\<lparr>en_flight := None\<rparr> else en)
      in if f < sv_flights s \<and> fl_result fl = None
         then s\<lparr>sv_entry := (sv_entry s)(e := en'), sv_flight := (sv_flight s)(f := fl\<lparr>fl_result := Some r\<rparr>)\<rparr>
         else s)"

text \<open>One turn of the loop: the cancellation and the validity, then the result and the clock.\<close>

definition poll :: "nat \<Rightarrow> bool \<Rightarrow> auth_service \<Rightarrow> auth_service" where
  "poll k cancelled s =
     (case sv_caller s k of
        Polling e f \<Rightarrow>
          set_caller k
            (if cancelled \<or> \<not> en_valid (sv_entry s e) then Leaving e f (Inl Auth_Cancelled) else Looking e f) s
      | _ \<Rightarrow> s)"

definition look :: "nat \<Rightarrow> bool \<Rightarrow> auth_service \<Rightarrow> auth_service" where
  "look k in_time s =
     (case sv_caller s k of
        Looking e f \<Rightarrow>
          set_caller k
            (case fl_result (sv_flight s f) of
               Some (Inr t) \<Rightarrow> Leaving e f (Inr t)
             | Some (Inl m) \<Rightarrow> Leaving e f (Inl (Sign_In_Failed m))
             | None \<Rightarrow> if in_time then Polling e f else Leaving e f (Inl Sign_In_Timeout)) s
      | _ \<Rightarrow> s)"

text \<open>The drop of the waiter, under the lock of the state.\<close>

definition leave :: "nat \<Rightarrow> auth_service \<Rightarrow> auth_service" where
  "leave k s =
     (case sv_caller s k of
        Leaving e f r \<Rightarrow>
          (let fl = sv_flight s f in
           set_caller k (Returned r)
             (s\<lparr>sv_flight := (sv_flight s)
                 (f := fl\<lparr>fl_waiters := fl_waiters fl - 1, fl_cancel := fl_cancel fl \<or> fl_waiters fl = 1\<rparr>)\<rparr>))
      | _ \<Rightarrow> s)"

section \<open>Runs\<close>

datatype auth_op =
    Configure "profile list" | Clear nat | Retain | Secret profile | Reject nat "string option"
  | Authenticate nat "string option" bool | Join nat | Poll nat bool | Look nat bool | Leave nat
  | Job_Done nat "(string, string) result"

fun auth_step :: "unicode \<Rightarrow> auth_op \<Rightarrow> auth_service \<Rightarrow> auth_service" where
  "auth_step u (Configure ps) s = configure ps s"
| "auth_step u (Clear i) s = clear_sign_in i s"
| "auth_step u Retain s = retain_step s"
| "auth_step u (Secret p) s = (if sv_retain s = None then snd (secret u p s) else s)"
| "auth_step u (Reject e t) s = reject e t s"
| "auth_step u (Authenticate e t c) s = (if e < sv_entries s then authenticate e t c s else s)"
| "auth_step u (Join k) s = join_flight k s"
| "auth_step u (Poll k c) s = poll k c s"
| "auth_step u (Look k c) s = look k c s"
| "auth_step u (Leave k) s = leave k s"
| "auth_step u (Job_Done f r) s = job_done f r s"

section \<open>The invariant\<close>

definition reg_now :: "auth_service \<Rightarrow> nat list" where
  "reg_now s = (case sv_retain s of None \<Rightarrow> sv_registry s | Some r \<Rightarrow> rt_kept r @ rt_todo r)"

definition clearing :: "auth_service \<Rightarrow> nat option" where
  "clearing s = (case sv_retain s of None \<Rightarrow> None | Some r \<Rightarrow> rt_clearing r)"

text \<open>The entries that the current settings are known to have.\<close>

definition settled :: "auth_service \<Rightarrow> nat list" where
  "settled s =
     (case sv_retain s of
        None \<Rightarrow> sv_registry s
      | Some r \<Rightarrow> (case rt_reason r of Keep_Configured _ \<Rightarrow> rt_kept r | Keep_Others _ \<Rightarrow> rt_kept r @ rt_todo r))"

definition configured :: "auth_service \<Rightarrow> profile \<Rightarrow> bool" where
  "configured s q \<longleftrightarrow> keeps_entry (Keep_Configured (sv_profiles s)) q"

definition registry_part :: "auth_service \<Rightarrow> bool" where
  "registry_part s \<longleftrightarrow>
     distinct (reg_now s)
     \<and> (\<forall>e \<in> set (reg_now s). e < sv_entries s)
     \<and> (\<forall>e. en_valid (sv_entry s e) \<longleftrightarrow> e \<in> set (reg_now s))
     \<and> (\<forall>e \<in> set (reg_now s). \<forall>e' \<in> set (reg_now s).
          connection_identity_eq (en_profile (sv_entry s e)) (en_profile (sv_entry s e')) \<longrightarrow> e = e')
     \<and> (\<forall>e \<in> set (settled s). configured s (en_profile (sv_entry s e)))
     \<and> (\<forall>r ps. sv_retain s = Some r \<and> rt_reason r = Keep_Configured ps \<longrightarrow> ps = sv_profiles s)"

definition token_part :: "auth_service \<Rightarrow> bool" where
  "token_part s \<longleftrightarrow>
     (\<forall>e. \<not> en_valid (sv_entry s e) \<and> clearing s \<noteq> Some e \<longrightarrow> en_token (sv_entry s e) = None)
     \<and> (\<forall>e. clearing s = Some e \<longrightarrow> \<not> en_valid (sv_entry s e))"

definition flight_part :: "auth_service \<Rightarrow> bool" where
  "flight_part s \<longleftrightarrow>
     (\<forall>f. \<not> fl_cancel (sv_flight s f) \<and> fl_result (sv_flight s f) = None \<longrightarrow>
          en_flight (sv_entry s (fl_entry (sv_flight s f))) = Some f)
     \<and> (\<forall>e f. en_flight (sv_entry s e) = Some f \<longrightarrow>
          fl_entry (sv_flight s f) = e \<and> f < sv_flights s \<and> fl_result (sv_flight s f) = None)
     \<and> (\<forall>f. f < sv_flights s \<longrightarrow> fl_entry (sv_flight s f) < sv_entries s)
     \<and> (\<forall>f. sv_flights s \<le> f \<longrightarrow> fl_cancel (sv_flight s f) \<and> fl_waiters (sv_flight s f) = 0)
     \<and> (\<forall>f. fl_cancel (sv_flight s f) \<and> 0 < fl_waiters (sv_flight s f) \<longrightarrow>
          \<not> en_valid (sv_entry s (fl_entry (sv_flight s f))))
     \<and> (\<forall>f. fl_waiters (sv_flight s f) = 0 \<longrightarrow> fl_cancel (sv_flight s f))"

text \<open>The callers that hold a flight.\<close>

fun holds_flight :: "nat \<Rightarrow> caller \<Rightarrow> bool" where
  "holds_flight f (Polling e g) = (g = f)"
| "holds_flight f (Looking e g) = (g = f)"
| "holds_flight f (Leaving e g r) = (g = f)"
| "holds_flight f _ = False"

fun caller_ok :: "auth_service \<Rightarrow> caller \<Rightarrow> bool" where
  "caller_ok s (Returned r) = True"
| "caller_ok s (Checked e rejected) = (e < sv_entries s)"
| "caller_ok s (Polling e f) = (f < sv_flights s \<and> fl_entry (sv_flight s f) = e)"
| "caller_ok s (Looking e f) = (f < sv_flights s \<and> fl_entry (sv_flight s f) = e)"
| "caller_ok s (Leaving e f r) = (f < sv_flights s \<and> fl_entry (sv_flight s f) = e)"

definition holders_of :: "auth_service \<Rightarrow> nat \<Rightarrow> nat set" where
  "holders_of s f = {k. holds_flight f (sv_caller s k)}"

definition caller_part :: "auth_service \<Rightarrow> bool" where
  "caller_part s \<longleftrightarrow>
     (\<forall>k. caller_ok s (sv_caller s k))
     \<and> (\<forall>k. sv_callers s \<le> k \<longrightarrow> (\<exists>r. sv_caller s k = Returned r))
     \<and> (\<forall>f. fl_waiters (sv_flight s f) = card (holders_of s f))"

definition auth_ok :: "auth_service \<Rightarrow> bool" where
  "auth_ok s \<longleftrightarrow> registry_part s \<and> token_part s \<and> flight_part s \<and> caller_part s"

lemma caller_partI:
  assumes "\<And>k. caller_ok s (sv_caller s k)" "\<And>k. sv_callers s \<le> k \<Longrightarrow> \<exists>r. sv_caller s k = Returned r"
    "\<And>f. fl_waiters (sv_flight s f) = card (holders_of s f)"
  shows "caller_part s"
  using assms by (simp add: caller_part_def)

lemma auth_new_ok: "auth_ok auth_new"
  by (simp add: auth_ok_def registry_part_def token_part_def flight_part_def caller_part_def auth_new_def
      reg_now_def settled_def clearing_def holders_of_def flight_new_def entry_new_def)

lemma holders_of_finite: "caller_part s \<Longrightarrow> finite (holders_of s f)"
proof -
  assume "caller_part s"
  then have "holders_of s f \<subseteq> {..<sv_callers s}"
    by (fastforce simp: caller_part_def holders_of_def not_less [symmetric])
  then show ?thesis using finite_subset by blast
qed

text \<open>What each part of the invariant depends on.\<close>

lemma registry_frame:
  assumes "sv_profiles s' = sv_profiles s" "sv_registry s' = sv_registry s" "sv_retain s' = sv_retain s"
    "sv_entries s' = sv_entries s"
    "\<And>e. en_profile (sv_entry s' e) = en_profile (sv_entry s e)" "\<And>e. en_valid (sv_entry s' e) = en_valid (sv_entry s e)"
  shows "registry_part s' \<longleftrightarrow> registry_part s"
proof -
  have "reg_now s' = reg_now s" "settled s' = settled s"
    by (simp_all add: reg_now_def settled_def assms split: option.split retain_reason.split)
  then show ?thesis by (simp add: registry_part_def configured_def assms)
qed

lemma token_frame:
  assumes "clearing s' = clearing s"
    "\<And>e. en_valid (sv_entry s' e) = en_valid (sv_entry s e)" "\<And>e. en_token (sv_entry s' e) = en_token (sv_entry s e)"
  shows "token_part s' \<longleftrightarrow> token_part s"
  by (simp add: token_part_def assms)

lemma flight_frame:
  assumes "sv_flight s' = sv_flight s" "sv_flights s' = sv_flights s" "sv_entries s' = sv_entries s"
    "\<And>e. en_valid (sv_entry s' e) = en_valid (sv_entry s e)" "\<And>e. en_flight (sv_entry s' e) = en_flight (sv_entry s e)"
  shows "flight_part s' \<longleftrightarrow> flight_part s"
  by (simp add: flight_part_def assms)

lemma caller_ok_mono:
  assumes "sv_entries s \<le> sv_entries s'" "sv_flights s \<le> sv_flights s'"
    "\<And>f. f < sv_flights s \<Longrightarrow> fl_entry (sv_flight s' f) = fl_entry (sv_flight s f)"
  shows "caller_ok s c \<Longrightarrow> caller_ok s' c"
  using assms by (cases c) auto

lemma caller_frame:
  assumes "caller_part s" "sv_caller s' = sv_caller s" "sv_callers s' = sv_callers s"
    "sv_entries s \<le> sv_entries s'" "sv_flights s \<le> sv_flights s'"
    "\<And>f. f < sv_flights s \<Longrightarrow> fl_entry (sv_flight s' f) = fl_entry (sv_flight s f)"
    "\<And>f. fl_waiters (sv_flight s' f) = fl_waiters (sv_flight s f)"
  shows "caller_part s'"
  using assms(1) caller_ok_mono [OF assms(4-6)]
  by (simp add: caller_part_def holders_of_def assms(2,3,7))

section \<open>Steps of the registry\<close>

lemma registry_step:
  assumes "registry_part s" "distinct (reg_now s')" "set (reg_now s') \<subseteq> set (reg_now s)" "sv_entries s' = sv_entries s"
    "\<And>e. en_profile (sv_entry s' e) = en_profile (sv_entry s e)" "\<And>e. en_valid (sv_entry s' e) \<longleftrightarrow> e \<in> set (reg_now s')"
    "\<And>e. e \<in> set (settled s') \<Longrightarrow> configured s' (en_profile (sv_entry s e))"
    "\<And>r ps. sv_retain s' = Some r \<Longrightarrow> rt_reason r = Keep_Configured ps \<Longrightarrow> ps = sv_profiles s'"
  shows "registry_part s'"
proof -
  have "\<forall>e \<in> set (reg_now s'). e < sv_entries s'" using assms(1,3,4) by (auto simp: registry_part_def)
  moreover have "\<forall>e \<in> set (reg_now s'). \<forall>e' \<in> set (reg_now s').
      connection_identity_eq (en_profile (sv_entry s' e)) (en_profile (sv_entry s' e')) \<longrightarrow> e = e'"
    unfolding assms(5) using assms(1,3) unfolding registry_part_def by blast
  ultimately show ?thesis unfolding registry_part_def using assms(2,5-8) by simp
qed

lemma registry_partD:
  assumes "registry_part s"
  shows "distinct (reg_now s)" "e \<in> set (reg_now s) \<Longrightarrow> e < sv_entries s"
    "en_valid (sv_entry s e) \<longleftrightarrow> e \<in> set (reg_now s)"
    "e \<in> set (settled s) \<Longrightarrow> configured s (en_profile (sv_entry s e))"
    "sv_retain s = Some r \<Longrightarrow> rt_reason r = Keep_Configured ps \<Longrightarrow> ps = sv_profiles s"
  using assms by (auto simp: registry_part_def)

lemma start_retain_ok:
  assumes "auth_ok s" "sv_retain s = None"
    and qs: "case reason of Keep_Configured ps \<Rightarrow> qs = ps | Keep_Others i \<Rightarrow> qs = sv_profiles s"
  shows "auth_ok (start_retain reason (s\<lparr>sv_profiles := qs\<rparr>))"
proof -
  let ?s = "start_retain reason (s\<lparr>sv_profiles := qs\<rparr>)"
  have reg: "registry_part s" using assms(1) by (simp add: auth_ok_def)
  have now: "reg_now ?s = reg_now s" by (simp add: reg_now_def start_retain_def assms(2))
  have "registry_part ?s"
  proof (rule registry_step [OF reg])
    fix e assume "e \<in> set (settled ?s)"
    then show "configured ?s (en_profile (sv_entry s e))"
      using qs registry_partD(4) [OF reg, of e] assms(2)
      by (cases reason) (auto simp: settled_def start_retain_def configured_def)
  next
    fix r ps assume "sv_retain ?s = Some r" "rt_reason r = Keep_Configured ps"
    with qs show "ps = sv_profiles ?s" by (auto simp: start_retain_def)
  next
    show "distinct (reg_now ?s)" unfolding now by (rule registry_partD(1) [OF reg])
  next
    fix e show "en_valid (sv_entry ?s e) \<longleftrightarrow> e \<in> set (reg_now ?s)"
      unfolding now using registry_partD(3) [OF reg] by (simp add: start_retain_def)
  next
    show "set (reg_now ?s) \<subseteq> set (reg_now s)" unfolding now ..
  qed (simp_all add: start_retain_def)
  moreover have "token_part ?s"
    using assms token_frame [of ?s s] unfolding auth_ok_def by (auto simp: start_retain_def clearing_def)
  moreover have "flight_part ?s"
    using assms flight_frame [of ?s s] unfolding auth_ok_def by (auto simp: start_retain_def)
  moreover have "caller_part ?s"
    by (rule caller_frame [of s]) (use assms in \<open>simp_all add: start_retain_def auth_ok_def\<close>)
  ultimately show ?thesis by (simp add: auth_ok_def)
qed

lemma configure_ok: "auth_ok s \<Longrightarrow> auth_ok (configure ps s)"
  using start_retain_ok [where s = s and reason = "Keep_Configured ps" and qs = ps] by (simp add: configure_def)

lemma clear_sign_in_ok: "auth_ok s \<Longrightarrow> auth_ok (clear_sign_in i s)"
  using start_retain_ok [where s = s and reason = "Keep_Others i" and qs = "sv_profiles s"] by (simp add: clear_sign_in_def)

lemma clear_entry_simps [simp]:
  "sv_profiles (clear_entry e s) = sv_profiles s" "sv_registry (clear_entry e s) = sv_registry s"
  "sv_retain (clear_entry e s) = sv_retain s" "sv_entries (clear_entry e s) = sv_entries s"
  "sv_flights (clear_entry e s) = sv_flights s" "sv_caller (clear_entry e s) = sv_caller s"
  "sv_callers (clear_entry e s) = sv_callers s"
  "en_profile (sv_entry (clear_entry e s) e') = en_profile (sv_entry s e')"
  "en_valid (sv_entry (clear_entry e s) e') = en_valid (sv_entry s e')"
  "en_token (sv_entry (clear_entry e s) e') = (if e' = e then None else en_token (sv_entry s e'))"
  "en_flight (sv_entry (clear_entry e s) e') = (if e' = e then None else en_flight (sv_entry s e'))"
  "fl_entry (sv_flight (clear_entry e s) f) = fl_entry (sv_flight s f)"
  "fl_waiters (sv_flight (clear_entry e s) f) = fl_waiters (sv_flight s f)"
  "fl_result (sv_flight (clear_entry e s) f) = fl_result (sv_flight s f)"
  "fl_cancel (sv_flight (clear_entry e s) f) = (fl_cancel (sv_flight s f) \<or> en_flight (sv_entry s e) = Some f)"
  by (auto simp: clear_entry_def Let_def split: option.split)

text \<open>The parts of the invariant for the steps of the loop.\<close>

lemma retain_registry:
  assumes reg: "registry_part s" and r: "sv_retain s = Some r" and s': "sv_profiles s' = sv_profiles s"
    "sv_entries s' = sv_entries s" "\<And>e. en_profile (sv_entry s' e) = en_profile (sv_entry s e)"
    "\<And>e. en_valid (sv_entry s' e) \<longleftrightarrow> e \<in> set (reg_now s')"
    and kept: "distinct (reg_now s')" "set (reg_now s') \<subseteq> set (rt_kept r @ rt_todo r)"
    and settled: "\<And>e. e \<in> set (settled s') \<Longrightarrow> e \<in> set (settled s) \<or> keeps_entry (rt_reason r) (en_profile (sv_entry s e))
        \<and> (\<exists>ps. rt_reason r = Keep_Configured ps)"
    and reason: "\<And>r'. sv_retain s' = Some r' \<Longrightarrow> rt_reason r' = rt_reason r"
  shows "registry_part s'"
proof (rule registry_step [OF reg])
  show "set (reg_now s') \<subseteq> set (reg_now s)" using kept(2) by (simp add: reg_now_def r)
  fix e assume "e \<in> set (settled s')"
  with settled registry_partD(4,5) [OF reg] r show "configured s' (en_profile (sv_entry s e))"
    by (fastforce simp: configured_def s'(1))
next
  fix r' ps assume "sv_retain s' = Some r'" "rt_reason r' = Keep_Configured ps"
  with reason registry_partD(5) [OF reg r] show "ps = sv_profiles s'" by (simp add: s'(1))
qed (rule s' kept)+

lemma retain_step_ok: "auth_ok s \<Longrightarrow> auth_ok (retain_step s)"
proof (cases "sv_retain s")
  case (Some r)
  note r = this
  assume ok: "auth_ok s"
  then have reg: "registry_part s" and call: "caller_part s" by (simp_all add: auth_ok_def)
  have now: "reg_now s = rt_kept r @ rt_todo r" by (simp add: reg_now_def r)
  note kept = registry_partD(1) [OF reg, unfolded now]
  note valid = registry_partD(3) [OF reg, unfolded now]
  show ?thesis
  proof (cases "rt_clearing r")
    case (Some e)
    let ?s = "(clear_entry e s)\<lparr>sv_retain := Some (r\<lparr>rt_clearing := None\<rparr>)\<rparr>"
    have e: "\<not> en_valid (sv_entry s e)" using ok Some r by (simp add: auth_ok_def token_part_def clearing_def)
    have "registry_part ?s"
      by (rule retain_registry [OF reg r])
        (use kept valid in \<open>simp_all add: reg_now_def settled_def r split: retain_reason.splits\<close>)
    moreover have "token_part ?s"
      using ok Some r by (auto simp: auth_ok_def token_part_def clearing_def)
    moreover have "flight_part ?s"
      using ok e unfolding auth_ok_def flight_part_def by (auto split: if_splits)
    moreover have "caller_part ?s" by (rule caller_frame [OF call]) simp_all
    ultimately show ?thesis using Some r by (simp add: auth_ok_def retain_step_def)
  next
    case None
    show ?thesis
    proof (cases "rt_todo r")
      case Nil
      let ?s = "s\<lparr>sv_registry := rt_kept r, sv_retain := None\<rparr>"
      have "registry_part ?s"
        by (rule retain_registry [OF reg r])
          (use kept valid Nil in \<open>simp_all add: reg_now_def settled_def r split: retain_reason.splits\<close>)
      moreover have "token_part ?s"
        using ok None r by (simp add: auth_ok_def token_part_def clearing_def)
      moreover have "flight_part ?s" using ok flight_frame [of ?s s] by (simp add: auth_ok_def)
      moreover have "caller_part ?s" by (rule caller_frame [OF call]) simp_all
      ultimately show ?thesis using None Nil r by (simp add: auth_ok_def retain_step_def)
    next
      case (Cons e es)
      show ?thesis
      proof (cases "keeps_entry (rt_reason r) (en_profile (sv_entry s e))")
        case True
        let ?s = "s\<lparr>sv_retain := Some (r\<lparr>rt_kept := rt_kept r @ [e], rt_todo := es\<rparr>)\<rparr>"
        have "registry_part ?s"
          by (rule retain_registry [OF reg r])
            (use kept valid Cons True in \<open>auto simp: reg_now_def settled_def r split: retain_reason.splits\<close>)
        moreover have "token_part ?s"
          using ok None r by (simp add: auth_ok_def token_part_def clearing_def)
        moreover have "flight_part ?s" using ok flight_frame [of ?s s] by (simp add: auth_ok_def)
        moreover have "caller_part ?s" by (rule caller_frame [OF call]) simp_all
        ultimately show ?thesis using None Cons True r by (simp add: auth_ok_def retain_step_def)
      next
        case False
        let ?s = "s\<lparr>sv_entry := (sv_entry s)(e := (sv_entry s e)\<lparr>en_valid := False\<rparr>),
                    sv_retain := Some (r\<lparr>rt_todo := es, rt_clearing := Some e\<rparr>)\<rparr>"
        have "registry_part ?s"
          by (rule retain_registry [OF reg r])
            (use kept valid Cons in \<open>auto simp: reg_now_def settled_def r split: retain_reason.splits\<close>)
        moreover have "token_part ?s"
          using ok None r by (auto simp: auth_ok_def token_part_def clearing_def)
        moreover have "flight_part ?s"
          using ok unfolding auth_ok_def flight_part_def by (auto split: if_splits)
        moreover have "caller_part ?s" by (rule caller_frame [OF call]) simp_all
        ultimately show ?thesis using None Cons False r by (simp add: auth_ok_def retain_step_def)
      qed
    qed
  qed
qed (simp add: retain_step_def)

lemma flight_partD:
  assumes "flight_part s"
  shows "\<not> fl_cancel (sv_flight s f) \<Longrightarrow> fl_result (sv_flight s f) = None \<Longrightarrow>
      en_flight (sv_entry s (fl_entry (sv_flight s f))) = Some f"
    "en_flight (sv_entry s e) = Some f \<Longrightarrow> fl_entry (sv_flight s f) = e"
    "en_flight (sv_entry s e) = Some f \<Longrightarrow> f < sv_flights s \<and> fl_result (sv_flight s f) = None"
    "f < sv_flights s \<Longrightarrow> fl_entry (sv_flight s f) < sv_entries s"
    "sv_flights s \<le> f \<Longrightarrow> fl_cancel (sv_flight s f) \<and> fl_waiters (sv_flight s f) = 0"
    "fl_cancel (sv_flight s f) \<Longrightarrow> 0 < fl_waiters (sv_flight s f) \<Longrightarrow>
      \<not> en_valid (sv_entry s (fl_entry (sv_flight s f)))"
    "fl_waiters (sv_flight s f) = 0 \<Longrightarrow> fl_cancel (sv_flight s f)"
  using assms unfolding flight_part_def by blast+

lemma flight_partI:
  assumes "\<And>f. \<not> fl_cancel (sv_flight s f) \<Longrightarrow> fl_result (sv_flight s f) = None \<Longrightarrow>
      en_flight (sv_entry s (fl_entry (sv_flight s f))) = Some f"
    "\<And>e f. en_flight (sv_entry s e) = Some f \<Longrightarrow>
      fl_entry (sv_flight s f) = e \<and> f < sv_flights s \<and> fl_result (sv_flight s f) = None"
    "\<And>f. f < sv_flights s \<Longrightarrow> fl_entry (sv_flight s f) < sv_entries s"
    "\<And>f. sv_flights s \<le> f \<Longrightarrow> fl_cancel (sv_flight s f) \<and> fl_waiters (sv_flight s f) = 0"
    "\<And>f. fl_cancel (sv_flight s f) \<Longrightarrow> 0 < fl_waiters (sv_flight s f) \<Longrightarrow>
      \<not> en_valid (sv_entry s (fl_entry (sv_flight s f)))"
    "\<And>f. fl_waiters (sv_flight s f) = 0 \<Longrightarrow> fl_cancel (sv_flight s f)"
  shows "flight_part s"
  using assms unfolding flight_part_def by blast

section \<open>A new entry\<close>

lemma keeps_identity:
  assumes "list_ex (\<lambda>c. connection_identity_eq c p) ps" "pf_authentication p = Auth_Trino_External"
  shows "keeps_entry (Keep_Configured ps) p"
  using assms connection_identity_sym
  by (fastforce simp: keeps_entry_def list_ex_iff connection_identity_eq_def split: if_splits)

lemma secret_Inr:
  assumes "secret u p s = (Inr e, s')"
  shows "pf_authentication p = Auth_Trino_External" "list_ex (\<lambda>c. connection_identity_eq c p) (sv_profiles s)"
  using assms by (auto simp: secret_def ensure_def and_then_def split: sum.splits if_splits)

lemma secret_cases:
  obtains "snd (secret u p s) = s"
  | "keeps_entry (Keep_Configured (sv_profiles s)) p"
    "\<forall>e \<in> set (sv_registry s). \<not> connection_identity_eq (en_profile (sv_entry s e)) p"
    "snd (secret u p s) = s\<lparr>sv_entry := (sv_entry s)(sv_entries s := entry_new p), sv_entries := sv_entries s + 1,
      sv_registry := sv_registry s @ [sv_entries s]\<rparr>"
proof (cases "\<exists>e s'. secret u p s = (Inr e, s')")
  case True
  then obtain e s' where s': "secret u p s = (Inr e, s')" by blast
  note p = keeps_identity [OF secret_Inr(2,1) [OF s']]
  show ?thesis
  proof (cases "List.find (\<lambda>e. connection_identity_eq (en_profile (sv_entry s e)) p) (sv_registry s)")
    case None
    then have "\<forall>e \<in> set (sv_registry s). \<not> connection_identity_eq (en_profile (sv_entry s e)) p"
      by (simp add: find_None_iff)
    with None show ?thesis using that(2) [OF p] s' by (auto simp: secret_def split: sum.splits)
  next
    case (Some i)
    then show ?thesis using that(1) s' by (auto simp: secret_def split: sum.splits)
  qed
next
  case False
  then have "snd (secret u p s) = s" by (auto simp: secret_def split: sum.splits option.splits)
  then show ?thesis by (rule that(1))
qed

lemma secret_ok:
  assumes ok: "auth_ok s" and free: "sv_retain s = None"
  shows "auth_ok (snd (secret u p s))"
proof (cases rule: secret_cases [of u p s])
  case 2
  let ?s = "s\<lparr>sv_entry := (sv_entry s)(sv_entries s := entry_new p), sv_entries := sv_entries s + 1,
      sv_registry := sv_registry s @ [sv_entries s]\<rparr>"
  from ok have reg: "registry_part s" and call: "caller_part s" by (simp_all add: auth_ok_def)
  have now: "reg_now s = sv_registry s" "settled s = sv_registry s"
    "reg_now ?s = sv_registry s @ [sv_entries s]" "settled ?s = sv_registry s @ [sv_entries s]"
    by (simp_all add: reg_now_def settled_def free)
  note old = registry_partD [OF reg, unfolded now]
  have new: "sv_entries s \<notin> set (sv_registry s)" using old(2) by blast
  have other: "sv_entry ?s e = sv_entry s e" if "e \<in> set (sv_registry s)" for e using new that by auto
  have fresh: "\<not> en_valid (sv_entry s (sv_entries s))" using new old(3) by blast
  have "registry_part ?s"
    unfolding registry_part_def now
  proof (intro conjI ballI allI impI)
    show "distinct (sv_registry s @ [sv_entries s])" using old(1) new by simp
  next
    fix e assume "e \<in> set (sv_registry s @ [sv_entries s])"
    then show "e < sv_entries ?s" using old(2) [of e] by auto
  next
    fix e show "en_valid (sv_entry ?s e) \<longleftrightarrow> e \<in> set (sv_registry s @ [sv_entries s])"
      using old(3) [of e] by (simp add: entry_new_def)
  next
    fix e e' assume e: "e \<in> set (sv_registry s @ [sv_entries s])" "e' \<in> set (sv_registry s @ [sv_entries s])"
      and same: "connection_identity_eq (en_profile (sv_entry ?s e)) (en_profile (sv_entry ?s e'))"
    have "e = e'" if "e \<in> set (sv_registry s)" "e' \<in> set (sv_registry s)"
      using reg same that unfolding registry_part_def now other [OF that(1)] other [OF that(2)] by blast
    moreover have False if "x \<in> set (sv_registry s)"
      "connection_identity_eq (en_profile (sv_entry ?s x)) (en_profile (sv_entry ?s (sv_entries s)))" for x
      using 2(2) that(1) that(2) [unfolded other [OF that(1)]] by (simp add: entry_new_def)
    ultimately show "e = e'" using e same connection_identity_sym [OF same] by (auto simp del: fun_upd_apply)
  next
    fix e assume "e \<in> set (sv_registry s @ [sv_entries s])"
    then show "configured ?s (en_profile (sv_entry ?s e))"
      using old(4) [of e] 2(1) other [of e] by (auto simp: configured_def entry_new_def split: if_splits)
  next
    fix r ps assume "sv_retain ?s = Some r \<and> rt_reason r = Keep_Configured ps"
    with free show "ps = sv_profiles ?s" by simp
  qed
  moreover have "token_part ?s"
    using ok free by (auto simp: auth_ok_def token_part_def clearing_def entry_new_def)
  moreover have "flight_part ?s"
  proof -
    have part: "flight_part s" using ok by (simp add: auth_ok_def)
    note d = flight_partD [OF part]
    have old: "fl_entry (sv_flight s f) \<noteq> sv_entries s" if "f < sv_flights s" for f using d(4) [OF that] by simp
    have used: "f < sv_flights s" if "0 < fl_waiters (sv_flight s f)" for f
      using d(5) [of f] that by (cases "f < sv_flights s") auto
    have live: "f < sv_flights s" if "\<not> fl_cancel (sv_flight s f)" for f
      using d(5) [of f] that by (cases "f < sv_flights s") auto
    have "en_flight (sv_entry s e) = Some f \<Longrightarrow> e \<noteq> sv_entries s" for e f
      using d(2,3) old by blast
    note none = this
    show ?thesis
    proof (rule flight_partI)
      fix f assume "\<not> fl_cancel (sv_flight ?s f)" "fl_result (sv_flight ?s f) = None"
      then show "en_flight (sv_entry ?s (fl_entry (sv_flight ?s f))) = Some f" using d(1) [of f] live [of f] old [of f] by simp
    next
      fix e f assume "en_flight (sv_entry ?s e) = Some f"
      then have "en_flight (sv_entry s e) = Some f" by (simp add: entry_new_def split: if_splits)
      then show "fl_entry (sv_flight ?s f) = e \<and> f < sv_flights ?s \<and> fl_result (sv_flight ?s f) = None"
        using d(2,3) [of e f] by simp
    next
      fix f assume "fl_cancel (sv_flight ?s f)" "0 < fl_waiters (sv_flight ?s f)"
      then show "\<not> en_valid (sv_entry ?s (fl_entry (sv_flight ?s f)))" using d(6) [of f] used [of f] old [of f] by simp
    qed (use d(4,5,7) in \<open>simp_all add: less_SucI\<close>)
  qed
  moreover have "caller_part ?s" by (rule caller_frame [OF call]) simp_all
  ultimately show ?thesis using 2(3) by (simp add: auth_ok_def)
qed (use ok in simp)

section \<open>Steps of sources and callers\<close>

lemma reject_ok:
  assumes ok: "auth_ok s"
  shows "auth_ok (reject e t s)"
proof -
  from ok have call: "caller_part s" by (simp add: auth_ok_def)
  let ?s = "s\<lparr>sv_entry := (sv_entry s)(e := (sv_entry s e)\<lparr>en_token := None, en_failed := True\<rparr>)\<rparr>"
  have "registry_part ?s" using ok registry_frame [of ?s s] by (simp add: auth_ok_def)
  moreover have "token_part ?s" using ok by (simp add: auth_ok_def token_part_def clearing_def)
  moreover have "flight_part ?s" using ok flight_frame [of ?s s] by (simp add: auth_ok_def)
  moreover have "caller_part ?s" by (rule caller_frame [OF call]) simp_all
  ultimately show ?thesis using ok by (simp add: reject_def auth_ok_def Let_def)
qed

text \<open>A caller that moves on and holds the same flights.\<close>

lemma set_caller_ok:
  assumes ok: "auth_ok s" and c: "caller_ok s c" "\<And>f. holds_flight f c \<longleftrightarrow> holds_flight f (sv_caller s k)"
    and k: "k < sv_callers s \<or> (\<exists>r. c = Returned r)"
  shows "auth_ok (set_caller k c s)"
proof -
  let ?s = "set_caller k c s"
  have "registry_part ?s" using ok registry_frame [of ?s s] by (simp add: auth_ok_def set_caller_def)
  moreover have "token_part ?s" using ok token_frame [of ?s s] by (simp add: auth_ok_def set_caller_def clearing_def)
  moreover have "flight_part ?s" using ok flight_frame [of ?s s] by (simp add: auth_ok_def set_caller_def)
  moreover have "caller_part ?s"
  proof -
    have "holders_of ?s f = holders_of s f" for f
      using c(2) [of f] by (auto simp: holders_of_def set_caller_def split: if_splits)
    moreover have "caller_ok s x \<Longrightarrow> caller_ok ?s x" for x
      by (rule caller_ok_mono [of s ?s]) (simp_all add: set_caller_def)
    ultimately show ?thesis
      using ok c(1) k by (auto simp: auth_ok_def caller_part_def set_caller_def)
  qed
  ultimately show ?thesis by (simp add: auth_ok_def)
qed

lemma authenticate_ok:
  assumes ok: "auth_ok s" and e: "e < sv_entries s"
  shows "auth_ok (authenticate e t c s)"
proof -
  let ?s = "s\<lparr>sv_callers := sv_callers s + 1\<rparr>"
  from ok have call: "caller_part s" by (simp add: auth_ok_def)
  then obtain r where r: "sv_caller s (sv_callers s) = Returned r" by (auto simp: caller_part_def)
  have "caller_part ?s"
  proof -
    have "caller_ok s x \<Longrightarrow> caller_ok ?s x" for x by (rule caller_ok_mono [of s ?s]) simp_all
    then show ?thesis using call by (simp add: caller_part_def holders_of_def)
  qed
  moreover have "registry_part ?s" "token_part ?s" "flight_part ?s"
    using ok registry_frame [of ?s s] token_frame [of ?s s] flight_frame [of ?s s]
    by (simp_all add: auth_ok_def clearing_def)
  ultimately have "auth_ok ?s" by (simp add: auth_ok_def)
  then show ?thesis unfolding authenticate_def by (rule set_caller_ok) (use r e in simp_all)
qed

lemma poll_ok:
  assumes ok: "auth_ok s"
  shows "auth_ok (poll k c s)"
proof (cases "sv_caller s k")
  case (Polling e f)
  from ok have call: "caller_part s" by (simp add: auth_ok_def)
  then have "k < sv_callers s" using Polling by (cases "k < sv_callers s") (auto simp: caller_part_def not_less)
  moreover from call have "caller_ok s (Polling e f)" unfolding caller_part_def Polling [symmetric] by blast
  ultimately show ?thesis using Polling set_caller_ok [OF ok, where k = k] by (simp add: poll_def)
qed (use ok in \<open>simp_all add: poll_def\<close>)

lemma look_ok:
  assumes ok: "auth_ok s"
  shows "auth_ok (look k c s)"
proof (cases "sv_caller s k")
  case (Looking e f)
  from ok have call: "caller_part s" by (simp add: auth_ok_def)
  then have "k < sv_callers s" using Looking by (cases "k < sv_callers s") (auto simp: caller_part_def not_less)
  moreover from call have "caller_ok s (Looking e f)" unfolding caller_part_def Looking [symmetric] by blast
  ultimately show ?thesis
    using Looking set_caller_ok [OF ok, where k = k] by (simp add: look_def split: option.split sum.split)
qed (use ok in \<open>simp_all add: look_def\<close>)

lemma leave_ok:
  assumes ok: "auth_ok s"
  shows "auth_ok (leave k s)"
proof (cases "sv_caller s k")
  case (Leaving e f r)
  let ?fl = "(sv_flight s f)\<lparr>fl_waiters := fl_waiters (sv_flight s f) - 1,
      fl_cancel := fl_cancel (sv_flight s f) \<or> fl_waiters (sv_flight s f) = 1\<rparr>"
  let ?s = "set_caller k (Returned r) (s\<lparr>sv_flight := (sv_flight s)(f := ?fl)\<rparr>)"
  from ok have call: "caller_part s" and flight: "flight_part s" by (simp_all add: auth_ok_def)
  have counts: "fl_waiters (sv_flight s g) = card (holders_of s g)" for g using call by (simp add: caller_part_def)
  have k: "k \<in> holders_of s f" using Leaving by (simp add: holders_of_def)
  then have pos: "0 < fl_waiters (sv_flight s f)"
    using holders_of_finite [OF call] by (auto simp: counts card_gt_0_iff)
  have holders: "holders_of ?s g = (if g = f then holders_of s f - {k} else holders_of s g)" for g
    using Leaving by (auto simp: holders_of_def set_caller_def)
  have "registry_part ?s" using ok registry_frame [of ?s s] by (simp add: auth_ok_def set_caller_def)
  moreover have "token_part ?s" using ok token_frame [of ?s s] by (simp add: auth_ok_def set_caller_def clearing_def)
  moreover have "flight_part ?s"
    using flight pos unfolding flight_part_def set_caller_def by (auto split: if_splits)
  moreover have "caller_part ?s"
  proof -
    have mono: "caller_ok s x \<Longrightarrow> caller_ok ?s x" for x
      by (rule caller_ok_mono [of s ?s]) (simp_all add: set_caller_def)
    show ?thesis
    proof (rule caller_partI)
      fix j show "caller_ok ?s (sv_caller ?s j)"
        using call mono [of "sv_caller s j"] by (simp add: caller_part_def set_caller_def)
    next
      fix j assume "sv_callers ?s \<le> j"
      then show "\<exists>r. sv_caller ?s j = Returned r" using call by (simp add: caller_part_def set_caller_def)
    next
      fix g show "fl_waiters (sv_flight ?s g) = card (holders_of ?s g)"
        unfolding holders using k holders_of_finite [OF call] by (simp add: set_caller_def counts)
    qed
  qed
  ultimately show ?thesis using Leaving by (simp add: auth_ok_def leave_def Let_def)
qed (use ok in \<open>simp_all add: leave_def\<close>)

lemma job_done_ok:
  assumes ok: "auth_ok s"
  shows "auth_ok (job_done f r s)"
proof (cases "f < sv_flights s \<and> fl_result (sv_flight s f) = None")
  case True
  let ?e = "fl_entry (sv_flight s f)" let ?en = "sv_entry s ?e"
  define en where "en = (if en_valid ?en \<and> \<not> fl_cancel (sv_flight s f) \<and> en_flight ?en = Some f
      then ?en\<lparr>en_token := (case r of Inl _ \<Rightarrow> None | Inr t \<Rightarrow> Some t), en_failed := \<not> is_ok r, en_flight := None\<rparr>
      else if en_flight ?en = Some f then ?en\<lparr>en_flight := None\<rparr> else ?en)"
  let ?s = "s\<lparr>sv_entry := (sv_entry s)(?e := en), sv_flight := (sv_flight s)(f := (sv_flight s f)\<lparr>fl_result := Some r\<rparr>)\<rparr>"
  have en: "en_valid en = en_valid ?en" "en_profile en = en_profile ?en"
    "en_flight en = (if en_flight ?en = Some f then None else en_flight ?en)"
    "\<not> en_valid ?en \<Longrightarrow> en_token en = en_token ?en"
    by (simp_all add: en_def)
  from ok have call: "caller_part s" and flight: "flight_part s" by (simp_all add: auth_ok_def)
  have "registry_part ?s" using ok registry_frame [of ?s s] by (simp add: auth_ok_def en)
  moreover have "token_part ?s" using ok by (auto simp: auth_ok_def token_part_def clearing_def en)
  moreover have "flight_part ?s"
  proof -
    note d = flight_partD [OF flight]
    show ?thesis
    proof (rule flight_partI)
      fix g assume "\<not> fl_cancel (sv_flight ?s g)" "fl_result (sv_flight ?s g) = None"
      then have g: "g \<noteq> f" "\<not> fl_cancel (sv_flight s g)" "fl_result (sv_flight s g) = None" by (simp_all split: if_splits)
      with d(1) [of g] show "en_flight (sv_entry ?s (fl_entry (sv_flight ?s g))) = Some g" by (auto simp: en)
    next
      fix e g assume "en_flight (sv_entry ?s e) = Some g"
      then have g: "en_flight (sv_entry s e) = Some g" "g \<noteq> f" using d(2) [of e f] by (auto simp: en split: if_splits)
      with d(2,3) [OF g(1)] show "fl_entry (sv_flight ?s g) = e \<and> g < sv_flights ?s \<and> fl_result (sv_flight ?s g) = None"
        by simp
    next
      fix g assume "fl_cancel (sv_flight ?s g)" "0 < fl_waiters (sv_flight ?s g)"
      then show "\<not> en_valid (sv_entry ?s (fl_entry (sv_flight ?s g)))" using d(6) [of g] by (auto simp: en split: if_splits)
    qed (use d(4,5,7) in \<open>simp_all split: if_splits\<close>)
  qed
  moreover have "caller_part ?s" by (rule caller_frame [OF call]) simp_all
  ultimately show ?thesis using True by (simp add: auth_ok_def job_done_def Let_def en_def)
qed (use ok in \<open>auto simp: job_done_def Let_def\<close>)

text \<open>A caller joins the flight of the entry, or a new one.\<close>

definition joined :: "nat \<Rightarrow> nat \<Rightarrow> nat \<Rightarrow> flight \<Rightarrow> nat \<Rightarrow> auth_service \<Rightarrow> auth_service" where
  "joined k e f fl n s = set_caller k (Polling e f)
     (s\<lparr>sv_flights := n, sv_flight := (sv_flight s)(f := fl\<lparr>fl_waiters := fl_waiters fl + 1\<rparr>),
        sv_entry := (sv_entry s)(e := (sv_entry s e)\<lparr>en_token := None, en_failed := False, en_flight := Some f\<rparr>)\<rparr>)"

lemma joined_simps [simp]:
  "sv_profiles (joined k e f fl n s) = sv_profiles s" "sv_registry (joined k e f fl n s) = sv_registry s"
  "sv_retain (joined k e f fl n s) = sv_retain s" "sv_entries (joined k e f fl n s) = sv_entries s"
  "sv_flights (joined k e f fl n s) = n" "sv_callers (joined k e f fl n s) = sv_callers s"
  "sv_caller (joined k e f fl n s) = (sv_caller s)(k := Polling e f)"
  "en_profile (sv_entry (joined k e f fl n s) x) = en_profile (sv_entry s x)"
  "en_valid (sv_entry (joined k e f fl n s) x) = en_valid (sv_entry s x)"
  "en_token (sv_entry (joined k e f fl n s) x) = (if x = e then None else en_token (sv_entry s x))"
  "en_flight (sv_entry (joined k e f fl n s) x) = (if x = e then Some f else en_flight (sv_entry s x))"
  "sv_flight (joined k e f fl n s) = (sv_flight s)(f := fl\<lparr>fl_waiters := fl_waiters fl + 1\<rparr>)"
  by (simp_all add: joined_def set_caller_def)

lemma join_cases:
  assumes "sv_caller s k = Checked e rejected"
  obtains t where "join_flight k s = set_caller k (Returned (Inr t)) s"
  | f where "en_flight (sv_entry s e) = Some f" "\<not> fl_cancel (sv_flight s f)"
      "join_flight k s = joined k e f (sv_flight s f) (sv_flights s) s"
  | "\<And>f. en_flight (sv_entry s e) = Some f \<Longrightarrow> fl_cancel (sv_flight s f)"
      "join_flight k s = joined k e (sv_flights s) (flight_new e) (sv_flights s + 1) s"
proof (cases "en_token (sv_entry s e) \<noteq> None \<and> en_token (sv_entry s e) \<noteq> rejected")
  case True
  then show ?thesis by (intro that(1)) (simp add: join_flight_def assms Let_def)
next
  case False
  show ?thesis
  proof (cases "en_flight (sv_entry s e)")
    case None
    then show ?thesis using False
      by (intro that(3)) (auto simp: join_flight_def assms Let_def joined_def flight_new_def)
  next
    case (Some f)
    show ?thesis
    proof (cases "fl_cancel (sv_flight s f)")
      case True
      then show ?thesis using False Some
        by (intro that(3)) (auto simp: join_flight_def assms Let_def joined_def flight_new_def)
    next
      case nc: False
      then show ?thesis using False Some
        by (intro that(2) [OF Some nc]) (auto simp: join_flight_def assms Let_def joined_def)
    qed
  qed
qed

lemma joined_ok:
  assumes ok: "auth_ok s" and k: "sv_caller s k = Checked e rejected"
    and fl: "\<not> fl_cancel fl" "fl_entry fl = e" "fl_result fl = None" "f < n" "sv_flights s \<le> n" "n \<le> max (f + 1) (sv_flights s)"
      "f \<le> sv_flights s"
    and waiters: "fl_waiters fl = fl_waiters (sv_flight s f)"
    and same: "f < sv_flights s \<Longrightarrow> fl_entry (sv_flight s f) = e"
    and own: "\<And>g. en_flight (sv_entry s e) = Some g \<Longrightarrow> g = f \<or> fl_cancel (sv_flight s g)"
  shows "auth_ok (joined k e f fl n s)"
proof -
  let ?s = "joined k e f fl n s"
  from ok have call: "caller_part s" and flight: "flight_part s" by (simp_all add: auth_ok_def)
  have e: "e < sv_entries s" using call k unfolding caller_part_def by (metis caller_ok.simps(2))
  note d = flight_partD [OF flight]
  have "registry_part ?s" using ok registry_frame [of ?s s] by (simp add: auth_ok_def)
  moreover have "token_part ?s" using ok by (simp add: auth_ok_def token_part_def clearing_def)
  moreover have "flight_part ?s"
  proof (rule flight_partI)
    fix g assume g: "\<not> fl_cancel (sv_flight ?s g)" "fl_result (sv_flight ?s g) = None"
    show "en_flight (sv_entry ?s (fl_entry (sv_flight ?s g))) = Some g"
    proof (cases "g = f")
      case False
      with g d(1) [of g] own show ?thesis by auto
    qed (simp add: fl)
  next
    fix x g assume "en_flight (sv_entry ?s x) = Some g"
    then have "x = e \<and> g = f \<or> x \<noteq> e \<and> en_flight (sv_entry s x) = Some g" by (simp split: if_splits)
    then show "fl_entry (sv_flight ?s g) = x \<and> g < sv_flights ?s \<and> fl_result (sv_flight ?s g) = None"
      using d(2,3) [of x g] fl same by auto
  next
    fix g assume "g < sv_flights ?s"
    with fl(6,7) have "g < sv_flights s \<or> g = f" by auto
    with d(4) [of g] e fl(2) show "fl_entry (sv_flight ?s g) < sv_entries ?s" by auto
  next
    fix g assume "sv_flights ?s \<le> g"
    with fl d(5) [of g] show "fl_cancel (sv_flight ?s g) \<and> fl_waiters (sv_flight ?s g) = 0" by auto
  qed (use d(6,7) fl in \<open>auto split: if_splits\<close>)
  moreover have "caller_part ?s"
  proof (rule caller_partI)
    have mono: "caller_ok s c \<Longrightarrow> caller_ok ?s c" for c
      by (rule caller_ok_mono [of s ?s]) (use fl same in auto)
    fix j show "caller_ok ?s (sv_caller ?s j)"
      using call mono [of "sv_caller s j"] fl by (simp add: caller_part_def)
  next
    fix j assume "sv_callers ?s \<le> j"
    moreover from this call k have "j \<noteq> k" by (force simp: caller_part_def)
    ultimately show "\<exists>r. sv_caller ?s j = Returned r" using call by (simp add: caller_part_def)
  next
    fix g
    have counts: "fl_waiters (sv_flight s g) = card (holders_of s g)" for g using call by (simp add: caller_part_def)
    have "holders_of ?s g = (if g = f then insert k (holders_of s f) else holders_of s g)"
      using k by (auto simp: holders_of_def)
    moreover have "k \<notin> holders_of s f" using k by (simp add: holders_of_def)
    ultimately show "fl_waiters (sv_flight ?s g) = card (holders_of ?s g)"
      using holders_of_finite [OF call] by (simp add: counts waiters)
  qed
  ultimately show ?thesis by (simp add: auth_ok_def)
qed

lemma join_ok:
  assumes ok: "auth_ok s"
  shows "auth_ok (join_flight k s)"
proof (cases "\<exists>e rejected. sv_caller s k = Checked e rejected")
  case True
  then obtain e rejected where k: "sv_caller s k = Checked e rejected" by blast
  from ok have flight: "flight_part s" by (simp add: auth_ok_def)
  note d = flight_partD [OF flight]
  show ?thesis
  proof (cases rule: join_cases [OF k])
    case (1 t)
    show ?thesis unfolding 1 by (rule set_caller_ok [OF ok]) (simp_all add: k)
  next
    case (2 f)
    show ?thesis unfolding 2(3) by (rule joined_ok [OF ok k]) (use 2 d(2,3) [OF 2(1)] in auto)
  next
    case 3
    show ?thesis unfolding 3(2)
      by (rule joined_ok [OF ok k]) (use 3(1) d(5) [of "sv_flights s"] in \<open>auto simp: flight_new_def\<close>)
  qed
qed (use ok in \<open>auto simp: join_flight_def split: caller.split\<close>)

lemma auth_ok_step: "auth_ok s \<Longrightarrow> auth_ok (auth_step u op s)"
  by (cases op)
    (simp_all add: configure_ok clear_sign_in_ok retain_step_ok secret_ok reject_ok authenticate_ok join_ok poll_ok
      look_ok leave_ok job_done_ok)

interpretation auth_runs: kept_invariant auth_new "auth_step u" auth_ok for u
  by unfold_locales (auto intro: auth_new_ok auth_ok_step)

section \<open>Sign-ins of the current connections\<close>

text \<open>A sign-in under way that can still give a token.\<close>

definition live_flight :: "auth_service \<Rightarrow> nat \<Rightarrow> bool" where
  "live_flight s f \<longleftrightarrow> \<not> fl_cancel (sv_flight s f) \<and> fl_result (sv_flight s f) = None"

lemma late_results_are_dropped:
  "fl_cancel (sv_flight s f) \<or> \<not> en_valid (sv_entry s (fl_entry (sv_flight s f)))
   \<Longrightarrow> en_token (sv_entry (job_done f r s) e) = en_token (sv_entry s e)"
  by (auto simp: job_done_def Let_def)

text \<open>
  C33. Whatever the threads do, a cached token belongs to a connection with the current settings, and
  no other entry of the same connection has one; while a changed connection is being dropped, only
  the entry under the hand of that thread can still hold a token. Each connection has at most one
  sign-in under way that can still give a token, and a caller waits for it: the last caller that
  leaves cancels it. A sign-in that others wait for is cancelled only with its connection, and the
  late result of a cancelled sign-in never becomes a token.
\<close>

theorem sign_ins_stay_with_their_connection:
  assumes "s = run_from (auth_step u) auth_new ops"
  shows "(sv_retain s = None \<and> en_token (sv_entry s e) = Some t \<longrightarrow>
        list_ex (\<lambda>p. pf_authentication p = Auth_Trino_External \<and> connection_identity_eq (en_profile (sv_entry s e)) p)
          (sv_profiles s)
        \<and> (\<forall>e' t'. en_token (sv_entry s e') = Some t'
             \<and> connection_identity_eq (en_profile (sv_entry s e)) (en_profile (sv_entry s e')) \<longrightarrow> e' = e))
    \<and> (en_token (sv_entry s e) = Some t \<longrightarrow> en_valid (sv_entry s e) \<or> clearing s = Some e)
    \<and> (live_flight s f \<longrightarrow>
        (\<exists>k. holds_flight f (sv_caller s k))
        \<and> (\<forall>g. live_flight s g \<and> fl_entry (sv_flight s g) = fl_entry (sv_flight s f) \<longrightarrow> g = f))
    \<and> (holds_flight f (sv_caller s k) \<and> \<not> live_flight s f \<longrightarrow>
        fl_result (sv_flight s f) \<noteq> None \<or> \<not> en_valid (sv_entry s (fl_entry (sv_flight s f))))
    \<and> fl_waiters (sv_flight s f) = card {k. holds_flight f (sv_caller s k)}
    \<and> (fl_cancel (sv_flight s f) \<longrightarrow> en_token (sv_entry (job_done f r s) e) = en_token (sv_entry s e))"
proof -
  have ok: "auth_ok s" unfolding assms by (rule auth_runs.inv_run)
  then have reg: "registry_part s" and token: "token_part s" and flight: "flight_part s" and call: "caller_part s"
    by (simp_all add: auth_ok_def)
  note d = flight_partD [OF flight]
  have counts: "fl_waiters (sv_flight s f) = card (holders_of s f)" for f using call by (simp add: caller_part_def)
  have valid: "en_valid (sv_entry s e) \<or> clearing s = Some e" if "en_token (sv_entry s e) = Some t" for e t
    using token that unfolding token_part_def by (metis option.distinct(1))
  have now: "x \<in> set (sv_registry s)" if "sv_retain s = None" "en_token (sv_entry s x) = Some t" for x t
    using valid [OF that(2)] registry_partD(3) [OF reg, of x] that(1) by (simp add: clearing_def reg_now_def)
  have one: "e' = e" if "sv_retain s = None" "e \<in> set (sv_registry s)" "e' \<in> set (sv_registry s)"
      "connection_identity_eq (en_profile (sv_entry s e)) (en_profile (sv_entry s e'))" for e e'
    using reg that unfolding registry_part_def by (auto simp: reg_now_def)
  have conf: "list_ex (\<lambda>p. pf_authentication p = Auth_Trino_External \<and> connection_identity_eq (en_profile (sv_entry s x)) p)
      (sv_profiles s)" if "sv_retain s = None" "x \<in> set (sv_registry s)" for x
    using registry_partD(4) [OF reg, of x] that by (simp add: settled_def configured_def keeps_entry_def)
  have waits: "\<exists>k. holds_flight f (sv_caller s k)" if "\<not> fl_cancel (sv_flight s f)" for f
  proof -
    have "card (holders_of s f) \<noteq> 0" using d(7) [of f] that counts [of f] by auto
    then show ?thesis by (auto simp: holders_of_def card_eq_0_iff)
  qed
  have dropped: "\<not> en_valid (sv_entry s (fl_entry (sv_flight s f)))"
    if "fl_cancel (sv_flight s f)" "holds_flight f (sv_caller s k)" for f k
  proof -
    have "holders_of s f \<noteq> {}" using that(2) by (auto simp: holders_of_def)
    then have "0 < fl_waiters (sv_flight s f)" using holders_of_finite [OF call] by (simp add: counts card_gt_0_iff)
    with d(6) that(1) show ?thesis by blast
  qed
  have single: "g = f" if "live_flight s f" "live_flight s g" "fl_entry (sv_flight s g) = fl_entry (sv_flight s f)" for f g
    using d(1) [of f] d(1) [of g] that by (simp add: live_flight_def)
  show ?thesis
    using now one conf valid waits dropped single [of f] counts [of f] late_results_are_dropped [of s f r e]
    by (auto simp: live_flight_def holders_of_def)
qed

text \<open>A run: two queries wait for one sign-in, the first is cancelled, the sign-in ends.\<close>

definition sample_trino :: profile where
  "sample_trino =
     (profile_default 1)\<lparr>pf_host := ''h'', pf_username := ''u'', pf_database_type := Trino, pf_tls := True,
       pf_authentication := Auth_Trino_External\<rparr>"

definition sample_sign_in_run :: "auth_op list" where
  "sample_sign_in_run =
     [Configure [sample_trino], Retain, Secret sample_trino, Authenticate 0 None False, Authenticate 0 None False,
      Join 0, Join 1, Poll 0 True, Leave 0, Job_Done 0 (Inr ''token''), Poll 1 False, Look 1 True, Leave 1]"

definition sign_in_view ::
  "auth_service \<Rightarrow> bool \<times> string option \<times> (auth_failure, string) result list \<times> nat \<times> bool" where
  "sign_in_view s =
     (sv_retain s = None, en_token (sv_entry s 0),
      map (\<lambda>c. case c of Returned r \<Rightarrow> r | _ \<Rightarrow> Inl Sign_In_Timeout) [sv_caller s 0, sv_caller s 1],
      sv_flights s, pf_id (en_profile (sv_entry s 0)) = 1)"

lemma sample_sign_in_view:
  "sign_in_view (run_from (auth_step ascii_tables) auth_new sample_sign_in_run)
     = (True, Some ''token'', [Inl Auth_Cancelled, Inr ''token''], 1, True)"
  by code_simp

theorem sign_ins_stay_with_their_connection_witness:
  "en_token (sv_entry (run_from (auth_step ascii_tables) auth_new sample_sign_in_run) 0) = Some ''token''
   \<and> list_ex (\<lambda>p. pf_authentication p = Auth_Trino_External
        \<and> connection_identity_eq
            (en_profile (sv_entry (run_from (auth_step ascii_tables) auth_new sample_sign_in_run) 0)) p)
       (sv_profiles (run_from (auth_step ascii_tables) auth_new sample_sign_in_run))"
proof -
  have view: "sv_retain (run_from (auth_step ascii_tables) auth_new sample_sign_in_run) = None"
    "en_token (sv_entry (run_from (auth_step ascii_tables) auth_new sample_sign_in_run) 0) = Some ''token''"
    using sample_sign_in_view by (simp_all add: sign_in_view_def)
  with sign_ins_stay_with_their_connection
    [OF refl, where u = ascii_tables and ops = sample_sign_in_run and e = 0 and t = "''token''"]
  show ?thesis by blast
qed

end
