(* ===== verification/Broker.thy ===== *)
theory Broker
  imports Sql_Format Rows "HOL-Library.Product_Lexorder"
begin

text \<open>
  The boundary between the assistant and the editor (\<open>src/assistant/broker.rs\<close>): which part of a
  text the assistant sees, the check of a call against the target of its turn, the plans of an edit,
  of a new query and of a run, and the rows of a result that fit an answer.

  The layout crate is the parameter \<open>sqlformat\<close> of \<open>Sql_Format\<close>; the JSON text of a row comes in
  the pieces that the serializer writes (\<open>pieces\<close>).
\<close>

section \<open>Limits\<close>

definition TOOL_SCHEMA_VERSION :: nat where "TOOL_SCHEMA_VERSION = 1"
definition MAX_TEXT_EDITS :: nat where "MAX_TEXT_EDITS = 64"
definition MAX_EDIT_BYTES :: nat where "MAX_EDIT_BYTES = 1024 * 1024"
definition MAX_SQL_BYTES :: nat where "MAX_SQL_BYTES = 4 * 1024 * 1024"
definition MAX_TOOL_ROWS :: nat where "MAX_TOOL_ROWS = 100"
definition MAX_PREVIEW_ROWS :: nat where "MAX_PREVIEW_ROWS = 20"
definition MAX_PREVIEW_BYTES :: nat where "MAX_PREVIEW_BYTES = 16 * 1024"
definition MAX_CONTEXT_STATEMENTS :: nat where "MAX_CONTEXT_STATEMENTS = 100"
definition MAX_TOOL_OUTPUT_BYTES :: nat where "MAX_TOOL_OUTPUT_BYTES = 64 * 1024"
definition MAX_HARNESS_ID_BYTES :: nat where "MAX_HARNESS_ID_BYTES = 256"
definition MAX_TOOL_PAYLOAD_BYTES :: nat where "MAX_TOOL_PAYLOAD_BYTES = MAX_TOOL_OUTPUT_BYTES - 1024"

section \<open>The part of a text that is shown\<close>

definition context_statement_ranges_for ::
  "unicode \<Rightarrow> database_type \<Rightarrow> string \<Rightarrow> range \<Rightarrow> range list \<times> bool" where
  "context_statement_ranges_for u d sql part =
     (let all = statement_ranges_for u d sql;
          ranges = take MAX_CONTEXT_STATEMENTS (filter (\<lambda>r. fst r < snd part \<and> fst part < snd r) all)
      in (ranges, length ranges < length all))"

definition sql_window :: "string \<Rightarrow> range \<Rightarrow> nat \<Rightarrow> range" where
  "sql_window sql focus limit =
     (if length sql \<le> limit then (0, length sql)
      else
        (let focus_start = min (fst focus) (length sql);
             focus_end = min (max (snd focus) focus_start) (length sql);
             spare = limit - (focus_end - focus_start);
             start = focus_start - spare div 2;
             stop = start + limit;
             (start, stop) = (if length sql < stop then (length sql - limit, length sql) else (start, stop))
         in (ceil_char_boundary sql start, floor_char_boundary sql stop)))"

definition sql_page :: "string \<Rightarrow> nat \<Rightarrow> nat \<Rightarrow> range option" where
  "sql_page sql offset limit =
     (if length sql < offset \<or> \<not> is_char_boundary sql offset then None
      else
        (let stop = floor_char_boundary sql (min (offset + limit) (length sql));
             stop = (if stop = offset \<and> offset < length sql then ceil_char_boundary sql (offset + 1) else stop)
         in Some (offset, stop)))"

section \<open>Targets and requests\<close>

record action_target =
  at_conversation :: string
  at_turn :: string
  at_tab :: nat
  at_connection :: "nat option"
  at_selected :: "range option"

record call_identity =
  ci_conversation :: string
  ci_turn :: string

record editor_document =
  ed_database :: database_type
  ed_tab :: nat
  ed_connection :: "nat option"
  ed_revision :: nat
  ed_sql :: string
  ed_selected :: "range option"
  ed_busy :: bool
  ed_style :: sql_style

record text_edit =
  te_start :: nat
  te_end :: nat
  te_replacement :: string

record edit_request =
  er_version :: nat
  er_tab :: nat
  er_connection :: "nat option"
  er_revision :: nat
  er_edits :: "text_edit list"
  er_replace :: bool

record append_request =
  aq_version :: nat
  aq_tab :: nat
  aq_connection :: "nat option"
  aq_revision :: nat
  aq_sql :: string

record run_request =
  rq_version :: nat
  rq_tab :: nat
  rq_connection :: nat
  rq_revision :: nat
  rq_statement :: "range option"

record edit_plan =
  ep_tab :: nat
  ep_revision :: nat
  ep_sql :: string
  ep_edits :: "text_edit list"
  ep_formatted :: bool

record append_plan =
  ap_tab :: nat
  ap_sql :: string
  ap_range :: range
  ap_formatted :: bool

record run_plan =
  rp_tab :: nat
  rp_revision :: nat
  rp_sql :: string

text \<open>The errors, one for each message, and their codes.\<close>

datatype tool_error_code =
    No_Action_Target | Stale_Target | Stale_Revision | Invalid_Statement | Tab_Busy | Invalid_Arguments
  | Limit_Reached | Capability_Missing

datatype tool_error =
    Wrong_Version | Large_Identifier | No_Target | Old_Turn | Other_Tab | Old_Revision
  | Edit_Count | Replaces_Everything | Large_Edit | Bad_Edits | Large_Edited_Query
  | Bad_Statement statement_error | Busy_Tab | Other_Selection | Bad_Range | Large_Query | Bad_Row_Count

fun error_code :: "tool_error \<Rightarrow> tool_error_code" where
  "error_code Wrong_Version = Capability_Missing"
| "error_code Large_Identifier = Invalid_Arguments"
| "error_code No_Target = No_Action_Target"
| "error_code Old_Turn = Stale_Target"
| "error_code Other_Tab = Stale_Target"
| "error_code Old_Revision = Stale_Revision"
| "error_code Edit_Count = Limit_Reached"
| "error_code Replaces_Everything = Invalid_Arguments"
| "error_code Large_Edit = Limit_Reached"
| "error_code Bad_Edits = Invalid_Arguments"
| "error_code Large_Edited_Query = Limit_Reached"
| "error_code (Bad_Statement e) = Invalid_Statement"
| "error_code Busy_Tab = Tab_Busy"
| "error_code Other_Selection = Stale_Target"
| "error_code Bad_Range = Invalid_Arguments"
| "error_code Large_Query = Limit_Reached"
| "error_code Bad_Row_Count = Invalid_Arguments"

type_synonym 'a tool_result = "(tool_error, 'a) result"

definition validate_request ::
  "action_target option \<Rightarrow> nat \<Rightarrow> call_identity \<Rightarrow> nat \<Rightarrow> nat option \<Rightarrow> nat \<Rightarrow> editor_document
   \<Rightarrow> action_target tool_result" where
  "validate_request target version call tab connection revision doc =
     and_then (ensure (version = TOOL_SCHEMA_VERSION) Wrong_Version) (\<lambda>_.
     and_then (ensure (length (ci_conversation call) \<le> MAX_HARNESS_ID_BYTES
         \<and> length (ci_turn call) \<le> MAX_HARNESS_ID_BYTES) Large_Identifier) (\<lambda>_.
     and_then (ok_or No_Target target) (\<lambda>t.
     and_then (ensure (ci_conversation call = at_conversation t \<and> ci_turn call = at_turn t) Old_Turn) (\<lambda>_.
     and_then (ensure (tab = at_tab t \<and> connection = at_connection t \<and> ed_tab doc = at_tab t
         \<and> ed_connection doc = at_connection t) Other_Tab) (\<lambda>_.
     and_then (ensure (revision = ed_revision doc) Old_Revision) (\<lambda>_. Inr t))))))"

section \<open>Edits\<close>

definition apply_edits :: "string \<Rightarrow> text_edit list \<Rightarrow> string" where
  "apply_edits sql edits = foldr (\<lambda>e s. replace_range s (te_start e, te_end e) (te_replacement e)) edits sql"

text \<open>The loop that checks the sorted edits, with \<open>previous_end\<close> and \<open>previous_empty\<close>.\<close>

fun edits_valid :: "string \<Rightarrow> bool \<Rightarrow> nat \<Rightarrow> nat option \<Rightarrow> text_edit list \<Rightarrow> bool" where
  "edits_valid sql first previous_end previous_empty [] = True"
| "edits_valid sql first previous_end previous_empty (e # es) =
     (\<not> (te_end e < te_start e \<or> length sql < te_end e
         \<or> \<not> is_char_boundary sql (te_start e) \<or> \<not> is_char_boundary sql (te_end e)
         \<or> (\<not> first \<and> te_start e < previous_end)
         \<or> (te_start e = te_end e \<and> previous_empty = Some (te_start e)))
      \<and> edits_valid sql False (te_end e) (if te_start e = te_end e then Some (te_start e) else None) es)"

definition trim_end_char :: "char \<Rightarrow> string \<Rightarrow> string" where
  "trim_end_char c s = rev (dropWhile (\<lambda>x. x = c) (rev s))"

text \<open>The statements of the edited text without their separators.\<close>

definition statement_bodies :: "unicode \<Rightarrow> database_type \<Rightarrow> string \<Rightarrow> range list" where
  "statement_bodies u d edited =
     map (\<lambda>r. (fst r, fst r + length (trim_end (trim_end_char (CHR '';'') (slice edited r)))))
       (statement_ranges_for u d edited)"

text \<open>The inner loop over the statements of one replacement, from the last.\<close>

fun format_bodies ::
  "(string \<Rightarrow> format_outcome) \<Rightarrow> string \<Rightarrow> nat \<Rightarrow> range list \<Rightarrow> string \<times> bool \<Rightarrow> string \<times> bool" where
  "format_bodies fmt edited start [] acc = acc"
| "format_bodies fmt edited start (r # rs) (replacement, formatted) =
     (case fmt (slice edited r) of
        Formatted t \<Rightarrow>
          format_bodies fmt edited start rs (replace_range replacement (fst r - start, snd r - start) t, True)
      | _ \<Rightarrow> format_bodies fmt edited start rs (replacement, formatted))"

fun format_edits ::
  "(string \<Rightarrow> format_outcome) \<Rightarrow> string \<Rightarrow> range list \<Rightarrow> int \<Rightarrow> bool \<Rightarrow> text_edit list \<Rightarrow> text_edit list \<times> bool" where
  "format_edits fmt edited bodies shift formatted [] = ([], formatted)"
| "format_edits fmt edited bodies shift formatted (e # es) =
     (let start = nat (int (te_start e) + shift);
          stop = start + length (te_replacement e);
          shift = shift + int (length (te_replacement e)) - int (te_end e - te_start e);
          (replacement, formatted) = format_bodies fmt edited start
            (filter (\<lambda>r. start \<le> fst r \<and> snd r \<le> stop) (rev bodies)) (te_replacement e, formatted);
          (es, formatted) = format_edits fmt edited bodies shift formatted es
      in (e\<lparr>te_replacement := replacement\<rparr> # es, formatted))"

definition format_replaced_statements ::
  "unicode \<Rightarrow> (sql_style \<Rightarrow> string \<Rightarrow> string) \<Rightarrow> sql_style \<Rightarrow> database_type \<Rightarrow> string \<Rightarrow> text_edit list
   \<Rightarrow> text_edit list \<times> bool" where
  "format_replaced_statements u sqlformat style d edited edits =
     format_edits (format_statement_for u sqlformat style Assistant d) edited (statement_bodies u d edited) 0 False edits"

definition replacement_bytes :: "text_edit list \<Rightarrow> nat option" where
  "replacement_bytes edits =
     fold (\<lambda>e t. Option.bind t (\<lambda>n. checked_add n (length (te_replacement e)))) edits (Some 0)"

definition replaces_everything :: "edit_request \<Rightarrow> editor_document \<Rightarrow> bool" where
  "replaces_everything rq doc \<longleftrightarrow>
     ed_sql doc \<noteq> [] \<and> \<not> er_replace rq \<and> length (er_edits rq) = 1
     \<and> te_start (hd (er_edits rq)) = 0 \<and> te_end (hd (er_edits rq)) = length (ed_sql doc)"

definition plan_edit ::
  "unicode \<Rightarrow> (sql_style \<Rightarrow> string \<Rightarrow> string) \<Rightarrow> action_target option \<Rightarrow> call_identity \<Rightarrow> edit_request
   \<Rightarrow> editor_document \<Rightarrow> edit_plan tool_result" where
  "plan_edit u sqlformat target call rq doc =
     and_then (validate_request target (er_version rq) call (er_tab rq) (er_connection rq) (er_revision rq) doc) (\<lambda>_.
     and_then (ensure (er_edits rq \<noteq> [] \<and> length (er_edits rq) \<le> MAX_TEXT_EDITS) Edit_Count) (\<lambda>_.
     and_then (ensure (\<not> replaces_everything rq doc) Replaces_Everything) (\<lambda>_.
     and_then (ok_or Large_Edit (replacement_bytes (er_edits rq))) (\<lambda>bytes.
     and_then (ensure (bytes \<le> MAX_EDIT_BYTES) Large_Edit) (\<lambda>_.
     let edits = sort_key (\<lambda>e. (te_start e, te_end e)) (er_edits rq)
     in and_then (ensure (edits_valid (ed_sql doc) True 0 None edits) Bad_Edits) (\<lambda>_.
        let sql = apply_edits (ed_sql doc) edits;
            (edits, formatted) = format_replaced_statements u sqlformat (ed_style doc) (ed_database doc) sql edits;
            sql = (if formatted then apply_edits (ed_sql doc) edits else sql)
        in and_then (ensure (length sql \<le> MAX_SQL_BYTES) Large_Edited_Query) (\<lambda>_.
           Inr \<lparr>ep_tab = ed_tab doc, ep_revision = ed_revision doc, ep_sql = sql, ep_edits = edits,
                ep_formatted = formatted\<rparr>)))))))"

section \<open>New queries and runs\<close>

definition text_ends_with :: "string \<Rightarrow> string \<Rightarrow> bool" where
  "text_ends_with s t \<longleftrightarrow> length t \<le> length s \<and> drop (length s - length t) s = t"

text \<open>The separator after the last statement and the blank line before the new one.\<close>

definition close_document :: "unicode \<Rightarrow> database_type \<Rightarrow> string \<Rightarrow> string" where
  "close_document u d sql =
     (let closed =
        (case List.find (\<lambda>(r, k). k \<noteq> Comment \<and> \<not> blank (slice sql r)) (rev (tokens_for u d sql)) of
           Some (r, k) \<Rightarrow> if k \<noteq> Separator then take (snd r) sql @ '';'' @ drop (snd r) sql else sql
         | None \<Rightarrow> sql);
          closed = (if closed \<noteq> [] \<and> \<not> text_ends_with closed [newline] then closed @ [newline] else closed)
      in if closed \<noteq> [] \<and> \<not> text_ends_with closed [newline, newline] then closed @ [newline] else closed)"

definition plan_append ::
  "unicode \<Rightarrow> (sql_style \<Rightarrow> string \<Rightarrow> string) \<Rightarrow> action_target option \<Rightarrow> call_identity \<Rightarrow> append_request
   \<Rightarrow> editor_document \<Rightarrow> append_plan tool_result" where
  "plan_append u sqlformat target call rq doc =
     and_then (validate_request target (aq_version rq) call (aq_tab rq) (aq_connection rq) (aq_revision rq) doc) (\<lambda>_.
     let new_query = trim (aq_sql rq); d = ed_database doc
     in and_then (ensure (length (aq_sql rq) \<le> MAX_EDIT_BYTES) Large_Edit) (\<lambda>_.
        and_then (case validate_single_for u d new_query of Inl e \<Rightarrow> Inl (Bad_Statement e) | Inr x \<Rightarrow> Inr x) (\<lambda>_.
        let cut = (case statement_ranges_for u d new_query of [] \<Rightarrow> 0 | r # _ \<Rightarrow> fst r);
            comment = take cut new_query;
            statement = drop cut new_query;
            formatted = (case format_statement_for u sqlformat (ed_style doc) Assistant d statement of
                           Formatted t \<Rightarrow> Some t | _ \<Rightarrow> None);
            statement = (case formatted of Some t \<Rightarrow> t | None \<Rightarrow> statement);
            before = close_document u d (ed_sql doc) @ comment;
            sql = before @ statement
        in and_then (ensure (length sql \<le> MAX_SQL_BYTES) Large_Edited_Query) (\<lambda>_.
           Inr \<lparr>ap_tab = ed_tab doc, ap_sql = sql, ap_range = (length before, length sql),
                ap_formatted = (formatted \<noteq> None)\<rparr>))))"

definition run_text :: "action_target \<Rightarrow> run_request \<Rightarrow> editor_document \<Rightarrow> string tool_result" where
  "run_text t rq doc =
     (case (case rq_statement rq of Some r \<Rightarrow> Some r | None \<Rightarrow> at_selected t) of
        Some r \<Rightarrow>
          if fst r \<le> snd r \<and> snd r \<le> length (ed_sql doc) \<and> is_char_boundary (ed_sql doc) (fst r)
            \<and> is_char_boundary (ed_sql doc) (snd r)
          then Inr (slice (ed_sql doc) r) else Inl Bad_Range
      | None \<Rightarrow> Inr (ed_sql doc))"

definition plan_run ::
  "unicode \<Rightarrow> action_target option \<Rightarrow> call_identity \<Rightarrow> run_request \<Rightarrow> editor_document \<Rightarrow> run_plan tool_result" where
  "plan_run u target call rq doc =
     and_then (validate_request target (rq_version rq) call (rq_tab rq) (Some (rq_connection rq)) (rq_revision rq) doc) (\<lambda>t.
     and_then (ensure (\<not> ed_busy doc) Busy_Tab) (\<lambda>_.
     and_then (ensure (ed_selected doc = at_selected t) Other_Selection) (\<lambda>_.
     and_then (run_text t rq doc) (\<lambda>sql.
     and_then (ensure (length sql \<le> MAX_SQL_BYTES) Large_Query) (\<lambda>_.
     and_then (case validate_single_for u (ed_database doc) sql of Inl e \<Rightarrow> Inl (Bad_Statement e) | Inr x \<Rightarrow> Inr x) (\<lambda>_.
     Inr \<lparr>rp_tab = ed_tab doc, rp_revision = ed_revision doc, rp_sql = sql\<rparr>))))))"

section \<open>Rows of a result\<close>

record bounded_rows =
  br_rows :: "row list"
  br_omitted :: "nat list"
  br_next :: nat
  br_truncated :: bool

text \<open>The counting writer: it refuses the piece that exceeds the limit.\<close>

fun encoded_loop :: "nat \<Rightarrow> nat \<Rightarrow> string list \<Rightarrow> nat option" where
  "encoded_loop limit n [] = Some n"
| "encoded_loop limit n (p # ps) = (if limit < n + length p then None else encoded_loop limit (n + length p) ps)"

definition encoded_len_with_limit :: "(row \<Rightarrow> string list) \<Rightarrow> nat \<Rightarrow> row \<Rightarrow> nat option" where
  "encoded_len_with_limit pieces limit r = encoded_loop limit 0 (pieces r)"

text \<open>The loop over the rows, with \<open>output\<close>, \<open>omitted_row_offsets\<close>, \<open>bytes\<close> and \<open>consumed\<close>.\<close>

fun rows_loop ::
  "(row \<Rightarrow> string list) \<Rightarrow> nat \<Rightarrow> bool \<Rightarrow> row list \<Rightarrow> nat \<Rightarrow> row list \<Rightarrow> nat list \<Rightarrow> nat \<Rightarrow> nat
   \<Rightarrow> row list \<times> nat list \<times> nat" where
  "rows_loop pieces budget omit [] index out omitted bytes consumed = (out, omitted, consumed)"
| "rows_loop pieces budget omit (r # rs) index out omitted bytes consumed =
     (let separator = (if out = [] then 0 else 1);
          remaining = budget - (bytes + separator)
      in case encoded_len_with_limit pieces MAX_TOOL_PAYLOAD_BYTES r of
           None \<Rightarrow> rows_loop pieces budget omit rs (index + 1) out (omitted @ [index]) bytes (consumed + 1)
         | Some full \<Rightarrow>
             if remaining < full then
               if out = [] \<and> omit
               then rows_loop pieces budget omit rs (index + 1) out (omitted @ [index]) bytes (consumed + 1)
               else (out, omitted, consumed)
             else rows_loop pieces budget omit rs (index + 1) (out @ [r]) omitted (bytes + full + separator)
                    (consumed + 1))"

definition bound_rows_within ::
  "(row \<Rightarrow> string list) \<Rightarrow> row list \<Rightarrow> nat \<Rightarrow> nat \<Rightarrow> nat \<Rightarrow> bool \<Rightarrow> bounded_rows tool_result" where
  "bound_rows_within pieces rows offset requested budget omit =
     (if requested = 0 \<or> MAX_TOOL_ROWS < requested then Inl Bad_Row_Count
      else
        (let stop = min (offset + requested) (length rows);
             (out, omitted, consumed) = rows_loop pieces budget omit (slice rows (offset, stop)) offset [] [] 0 0;
             next_offset = min (offset + consumed) (length rows)
         in Inr \<lparr>br_rows = out, br_omitted = omitted, br_next = next_offset,
                 br_truncated = (omitted \<noteq> [] \<or> next_offset < stop)\<rparr>))"

definition bound_rows_after ::
  "(row \<Rightarrow> string list) \<Rightarrow> row list \<Rightarrow> nat \<Rightarrow> nat \<Rightarrow> nat \<Rightarrow> bounded_rows tool_result" where
  "bound_rows_after pieces rows offset requested used_bytes =
     bound_rows_within pieces rows offset requested (MAX_TOOL_PAYLOAD_BYTES - used_bytes) True"

text \<open>\<open>None\<close> is the panic of \<open>expect\<close>.\<close>

definition preview_rows :: "(row \<Rightarrow> string list) \<Rightarrow> row list \<Rightarrow> nat \<Rightarrow> nat \<Rightarrow> bounded_rows option" where
  "preview_rows pieces rows offset used_bytes =
     (case bound_rows_within pieces rows offset MAX_PREVIEW_ROWS
         (min MAX_PREVIEW_BYTES (MAX_TOOL_PAYLOAD_BYTES - used_bytes)) False of
        Inr b \<Rightarrow> Some b | Inl _ \<Rightarrow> None)"

fun boundary_before :: "string \<Rightarrow> nat \<Rightarrow> nat" where
  "boundary_before s 0 = 0"
| "boundary_before s (Suc n) = (if is_char_boundary s (Suc n) then Suc n else boundary_before s n)"

definition bound_text :: "string \<Rightarrow> string \<times> bool" where
  "bound_text t =
     (if length t \<le> MAX_TOOL_PAYLOAD_BYTES then (t, False)
      else (take (boundary_before t MAX_TOOL_PAYLOAD_BYTES) t, True))"

section \<open>Pages of a text\<close>

lemma floor_char_boundary_ge: "is_char_boundary s i \<Longrightarrow> i \<le> n \<Longrightarrow> i \<le> floor_char_boundary s n"
proof (induction n)
  case (Suc n)
  then show ?case using is_char_boundary_le [of s i] by (cases "i = Suc n") auto
qed simp

lemma sql_page_Some:
  assumes "sql_page sql offset limit = Some r"
  shows "fst r = offset" "offset \<le> snd r" "snd r \<le> length sql" "is_char_boundary sql (snd r)"
    "offset < length sql \<Longrightarrow> offset < snd r"
proof -
  let ?lim = "min (offset + limit) (length sql)"
  have b: "offset \<le> length sql" "is_char_boundary sql offset" using assms by (auto simp: sql_page_def split: if_splits)
  have "offset \<le> floor_char_boundary sql ?lim" using floor_char_boundary_ge [OF b(2), of ?lim] b(1) by simp
  moreover have "floor_char_boundary sql ?lim \<le> length sql" using floor_char_boundary_le [of sql ?lim] by simp
  ultimately show "fst r = offset" "offset \<le> snd r" "snd r \<le> length sql" "is_char_boundary sql (snd r)"
    "offset < length sql \<Longrightarrow> offset < snd r"
    using assms ceil_char_boundary_bounds [of "offset + 1" sql] floor_char_boundary_boundary ceil_char_boundary_boundary
    by (auto simp: sql_page_def Let_def split: if_splits)
qed

lemma sql_window_boundaries:
  "is_char_boundary sql (fst (sql_window sql focus limit)) \<and> is_char_boundary sql (snd (sql_window sql focus limit))"
proof (cases "length sql \<le> limit")
  case True
  then show ?thesis by (simp add: sql_window_def) (simp add: is_char_boundary_def)
next
  case False
  then have "\<exists>a b. sql_window sql focus limit = (ceil_char_boundary sql a, floor_char_boundary sql b)"
    unfolding sql_window_def Let_def if_not_P [OF False] by (simp only: split_def) blast
  then show ?thesis using floor_char_boundary_boundary ceil_char_boundary_boundary by force
qed

lemma sql_window_bounds: "snd (sql_window sql focus limit) \<le> length sql"
  using sql_window_boundaries is_char_boundary_le by blast

section \<open>Edits from the first to the last\<close>

text \<open>The reference for \<open>apply_edits\<close>: the text between the edits with the replacements.\<close>

fun splice :: "string \<Rightarrow> nat \<Rightarrow> text_edit list \<Rightarrow> string" where
  "splice s p [] = drop p s"
| "splice s p (e # es) = slice s (p, te_start e) @ te_replacement e @ splice s (te_end e) es"

fun edits_within :: "nat \<Rightarrow> nat \<Rightarrow> text_edit list \<Rightarrow> bool" where
  "edits_within p n [] \<longleftrightarrow> p \<le> n"
| "edits_within p n (e # es) \<longleftrightarrow> p \<le> te_start e \<and> te_start e \<le> te_end e \<and> edits_within (te_end e) n es"

lemma edits_within_le: "edits_within p n es \<Longrightarrow> p \<le> n"
  by (induction es arbitrary: p) fastforce+

lemma edits_valid_within:
  "edits_valid s first pe pem es \<Longrightarrow> pe \<le> length s \<Longrightarrow> (first \<Longrightarrow> pe = 0) \<Longrightarrow> edits_within pe (length s) es"
proof (induction es arbitrary: first pe pem)
  case (Cons e es)
  from Cons.prems(1) have "te_start e \<le> te_end e" "te_end e \<le> length s"
    "edits_valid s False (te_end e) (if te_start e = te_end e then Some (te_start e) else None) es"
    "first \<or> pe \<le> te_start e" by auto
  with Cons.IH [OF this(3)] Cons.prems(3) show ?case by auto
qed simp

lemma apply_edits_splice:
  "edits_within p (length s) es \<Longrightarrow> apply_edits s es = take p s @ splice s p es"
proof (induction es arbitrary: p)
  case (Cons e es)
  then have e: "p \<le> te_start e" "te_start e \<le> te_end e" "edits_within (te_end e) (length s) es" by auto
  from edits_within_le [OF e(3)] have len: "te_end e \<le> length s" .
  have "apply_edits s (e # es) = replace_range (take (te_end e) s @ splice s (te_end e) es) (te_start e, te_end e) (te_replacement e)"
    using Cons.IH [OF e(3)] by (simp add: apply_edits_def)
  also have "\<dots> = take (te_start e) s @ te_replacement e @ splice s (te_end e) es"
    using e len by (simp add: replace_range_def min_def)
  also have "take (te_start e) s = take p s @ slice s (p, te_start e)"
    using slice_append [of 0 p "te_start e" s] e(1) by (simp add: slice_def)
  finally show ?case by simp
qed (simp add: apply_edits_def)

section \<open>Formatted replacements\<close>

text \<open>
  The reference for the loops of \<open>format_replaced_statements\<close>, from the first statement to the last.
  \<open>statement_body edited stmt r\<close>: \<open>r\<close> is the statement \<open>stmt\<close> without the separators and then the white
  space at its end. \<open>laid_out fmt edited p q rs\<close> is the part of \<open>edited\<close> from \<open>p\<close> to \<open>q\<close> in which only the
  parts \<open>rs\<close> that \<open>fmt\<close> can format are replaced.
\<close>

definition statement_body :: "string \<Rightarrow> range \<Rightarrow> range \<Rightarrow> bool" where
  "statement_body edited stmt r \<longleftrightarrow> fst r = fst stmt \<and> fst r \<le> snd r \<and> snd r \<le> snd stmt
     \<and> (\<exists>bs cs k. slice edited r = concat bs \<and> slice edited stmt = concat bs @ concat cs @ replicate k (CHR '';'')
          \<and> chunks (concat bs @ concat cs) = bs @ cs \<and> list_all white cs \<and> (bs = [] \<or> \<not> white (last bs))
          \<and> (concat bs @ concat cs = [] \<or> last (concat bs @ concat cs) \<noteq> CHR '';''))"

fun laid_out :: "(string \<Rightarrow> format_outcome) \<Rightarrow> string \<Rightarrow> nat \<Rightarrow> nat \<Rightarrow> range list \<Rightarrow> string" where
  "laid_out fmt edited p q [] = slice edited (p, q)"
| "laid_out fmt edited p q (r # rs) =
     slice edited (p, fst r)
     @ (case fmt (slice edited r) of Formatted t \<Rightarrow> t | _ \<Rightarrow> slice edited r)
     @ laid_out fmt edited (snd r) q rs"

text \<open>
  \<open>relaid fmt edited bodies p q es es'\<close>: the edits \<open>es\<close> follow the position \<open>p\<close> of the old text, which is
  the position \<open>q\<close> of the edited text, and \<open>es'\<close> are the same edits, in whose replacements exactly the
  statements that they supply completely are laid out.
\<close>

fun relaid :: "(string \<Rightarrow> format_outcome) \<Rightarrow> string \<Rightarrow> range list \<Rightarrow> nat \<Rightarrow> nat \<Rightarrow> text_edit list \<Rightarrow> text_edit list \<Rightarrow> bool" where
  "relaid fmt edited bodies p q [] es' \<longleftrightarrow> es' = []"
| "relaid fmt edited bodies p q (e # es) es' \<longleftrightarrow>
     (let start = q + (te_start e - p); stop = start + length (te_replacement e)
      in slice edited (start, stop) = te_replacement e
       \<and> (\<exists>more_es. es' = e\<lparr>te_replacement :=
              laid_out fmt edited start stop (filter (\<lambda>r. start \<le> fst r \<and> snd r \<le> stop) bodies)\<rparr> # more_es
            \<and> relaid fmt edited bodies (te_end e) stop es more_es))"

text \<open>Ranges from the last to the first, below \<open>hi\<close> and from \<open>lo\<close> on.\<close>

fun descending :: "nat \<Rightarrow> nat \<Rightarrow> range list \<Rightarrow> bool" where
  "descending lo hi [] \<longleftrightarrow> lo \<le> hi"
| "descending lo hi (r # rs) \<longleftrightarrow> snd r \<le> hi \<and> fst r \<le> snd r \<and> descending lo (fst r) rs"

lemma descending_le: "descending lo hi rs \<Longrightarrow> lo \<le> hi"
  by (induction rs arbitrary: hi) fastforce+

lemma descending_mono: "descending lo hi rs \<Longrightarrow> hi \<le> hi' \<Longrightarrow> descending lo hi' rs"
  by (cases rs) auto

lemma descending_ranges: "descending lo hi rs \<Longrightarrow> r \<in> set rs \<Longrightarrow> fst r \<le> snd r \<and> snd r \<le> hi"
  by (induction rs arbitrary: hi) fastforce+

lemma descending_filter:
  assumes "descending 0 hi rs" "a \<le> b"
  shows "descending a b (filter (\<lambda>r. a \<le> fst r \<and> snd r \<le> b) rs)"
proof -
  have "descending a c (filter (\<lambda>r. a \<le> fst r \<and> snd r \<le> b) rs)" if "descending 0 h rs" "a \<le> c" "h \<le> c \<or> c = b" for h c
    using that
  proof (induction rs arbitrary: h c)
    case (Cons r rs)
    show ?case
    proof (cases "a \<le> fst r \<and> snd r \<le> b")
      case True
      with Cons.IH [of "fst r" "fst r"] Cons.prems show ?thesis by auto
    next
      case False
      with Cons.IH [of "fst r" c] Cons.prems show ?thesis by auto
    qed
  qed simp
  with assms show ?thesis by blast
qed

lemma laid_out_snoc:
  "laid_out fmt edited p q (rs @ [r]) = laid_out fmt edited p (fst r) rs
     @ (case fmt (slice edited r) of Formatted t \<Rightarrow> t | _ \<Rightarrow> slice edited r) @ slice edited (snd r, q)"
  by (induction rs arbitrary: p) simp_all

lemma slice_length: "a \<le> b \<Longrightarrow> b \<le> length s \<Longrightarrow> length (slice s (a, b)) = b - a"
  by (simp add: slice_def)

lemma format_bodies_laid_out:
  assumes "descending start hi rs" "hi \<le> length edited"
  shows "fst (format_bodies fmt edited start rs (slice edited (start, hi) @ rest, formatted))
    = laid_out fmt edited start hi (rev rs) @ rest"
  using assms
proof (induction rs arbitrary: hi rest formatted)
  case (Cons r rs)
  have r: "start \<le> fst r" "fst r \<le> snd r" "snd r \<le> hi" "descending start (fst r) rs"
    using Cons.prems(1) descending_le by auto
  have hi: "slice edited (start, hi) = slice edited (start, fst r) @ slice edited r @ slice edited (snd r, hi)"
    using slice_append [of start "fst r" "snd r" edited] slice_append [of start "snd r" hi edited] r
    by (metis append_assoc order_trans prod.collapse)
  have len: "length (slice edited (start, fst r)) = fst r - start" "length (slice edited r) = snd r - fst r"
    using slice_length [of start "fst r" edited] slice_length [of "fst r" "snd r" edited] r Cons.prems(2) by simp_all
  have IH: "fst (format_bodies fmt edited start rs (slice edited (start, fst r) @ rest', f))
      = laid_out fmt edited start (fst r) (rev rs) @ rest'" for rest' f
    using Cons.IH [OF r(4)] r Cons.prems(2) by simp
  show ?case
  proof (cases "fmt (slice edited r)")
    case (Formatted t)
    have "replace_range (slice edited (start, hi) @ rest) (fst r - start, snd r - start) t
        = slice edited (start, fst r) @ t @ slice edited (snd r, hi) @ rest"
      using r len by (simp add: replace_range_def hi)
    then show ?thesis using Formatted IH by (simp add: laid_out_snoc)
  qed (use IH in \<open>simp_all add: laid_out_snoc hi\<close>)
qed simp

lemma format_bodies_flag:
  "formatted \<Longrightarrow> snd (format_bodies fmt edited start rs (replacement, formatted))"
  "\<not> snd (format_bodies fmt edited start rs (replacement, formatted)) \<Longrightarrow>
     fst (format_bodies fmt edited start rs (replacement, formatted)) = replacement \<and> \<not> formatted"
proof (induction rs arbitrary: replacement formatted)
  case (Cons r rs)
  { case 1 then show ?case using Cons(1) by (auto split: format_outcome.split)
  next
    case 2 then show ?case using Cons by (auto split: format_outcome.splits) }
qed simp_all

lemma format_edits_unchanged:
  assumes "\<not> snd (format_edits fmt edited bodies shift formatted es)"
  shows "fst (format_edits fmt edited bodies shift formatted es) = es \<and> \<not> formatted"
  using assms
proof (induction es arbitrary: shift formatted)
  case (Cons e es)
  let ?start = "nat (int (te_start e) + shift)"
  let ?ranges = "filter (\<lambda>r. ?start \<le> fst r \<and> snd r \<le> ?start + length (te_replacement e)) (rev bodies)"
  let ?b = "format_bodies fmt edited ?start ?ranges (te_replacement e, formatted)"
  obtain replacement formatted1 where b: "?b = (replacement, formatted1)" by (cases ?b)
  let ?shift = "shift + int (length (te_replacement e)) - int (te_end e - te_start e)"
  obtain es' formatted2 where es': "format_edits fmt edited bodies ?shift formatted1 es = (es', formatted2)"
    by (cases "format_edits fmt edited bodies ?shift formatted1 es")
  have "\<not> formatted2" using Cons.prems b es' by (simp add: Let_def)
  with Cons.IH [of ?shift formatted1] es' have "es' = es" "\<not> formatted1" by auto
  moreover from this format_bodies_flag(2) [of fmt edited ?start ?ranges "te_replacement e" formatted] b
  have "replacement = te_replacement e" "\<not> formatted" by auto
  ultimately show ?case using b es' by (simp add: Let_def)
qed simp

text \<open>The places of the replacements in the edited text are found by the running shift.\<close>

lemma format_edits_relaid:
  assumes bodies: "descending 0 (length edited) (rev bodies)"
    and edited: "edited = pre @ splice s p es" "int (length pre) = int p + shift" "edits_within p (length s) es"
  shows "relaid fmt edited bodies p (length pre) es (fst (format_edits fmt edited bodies shift formatted es))"
  using edited
proof (induction es arbitrary: pre p shift formatted)
  case (Cons e es)
  let ?start = "nat (int (te_start e) + shift)" let ?repl = "te_replacement e"
  let ?stop = "?start + length ?repl" let ?here = "\<lambda>r. ?start \<le> fst r \<and> snd r \<le> ?stop"
  let ?b = "format_bodies fmt edited ?start (filter ?here (rev bodies)) (?repl, formatted)"
  let ?shift = "shift + int (length ?repl) - int (te_end e - te_start e)"
  have e: "p \<le> te_start e" "te_start e \<le> te_end e" "edits_within (te_end e) (length s) es" using Cons.prems(3) by auto
  have len: "te_end e \<le> length s" by (rule edits_within_le [OF e(3)])
  let ?before = "pre @ slice s (p, te_start e)"
  have start: "?start = length ?before" using Cons.prems(2) e(1,2) len by (simp add: slice_length)
  have place: "length pre + (te_start e - p) = ?start" using Cons.prems(2) e(1) by simp
  have edited: "edited = ?before @ ?repl @ splice s (te_end e) es" using Cons.prems(1) by simp
  have repl: "slice edited (?start, ?stop) = ?repl" unfolding start edited by (simp add: slice_def)
  have "descending ?start ?stop (filter ?here (rev bodies))" by (rule descending_filter [OF bodies]) simp
  moreover have "?stop \<le> length edited" unfolding start by (subst edited) simp
  ultimately have "fst (format_bodies fmt edited ?start (filter ?here (rev bodies)) (slice edited (?start, ?stop) @ [], formatted))
      = laid_out fmt edited ?start ?stop (rev (filter ?here (rev bodies))) @ []"
    by (rule format_bodies_laid_out)
  then have laid: "fst ?b = laid_out fmt edited ?start ?stop (filter ?here bodies)"
    by (simp only: repl append_Nil2 rev_filter rev_rev_ident)
  have "relaid fmt edited bodies (te_end e) (length (?before @ ?repl)) es
      (fst (format_edits fmt edited bodies ?shift f es))" for f
  proof (rule Cons.IH)
    show "edited = (?before @ ?repl) @ splice s (te_end e) es" using edited by simp
    show "int (length (?before @ ?repl)) = int (te_end e) + ?shift" using Cons.prems(2) e len by (simp add: slice_length)
  qed (rule e(3))
  then have rest: "relaid fmt edited bodies (te_end e) ?stop es (fst (format_edits fmt edited bodies ?shift f es))" for f
    using start by (simp add: add.assoc)
  have out: "fst (format_edits fmt edited bodies shift formatted (e # es))
      = e\<lparr>te_replacement := fst ?b\<rparr> # fst (format_edits fmt edited bodies ?shift (snd ?b) es)"
    by (simp add: Let_def split_def)
  show ?case unfolding out using rest repl by (simp only: relaid.simps Let_def place laid) blast
qed simp

lemma relaid_places:
  "relaid fmt edited bodies p q es es' \<Longrightarrow> list_all2 (\<lambda>e e'. te_start e' = te_start e \<and> te_end e' = te_end e) es es'"
  by (induction es arbitrary: p q es') (auto simp: Let_def)

lemma trim_end_length: "length (trim_end s) \<le> length s"
proof -
  have "rev (dropWhile white (rev xs)) @ rev (takeWhile white (rev xs)) = xs" for xs
    using arg_cong [OF takeWhile_dropWhile_id [of white "rev xs"], of rev] by (simp only: rev_append rev_rev_ident)
  from arg_cong [OF this [of "chunks s"], of concat]
  have "trim_end s @ concat (rev (takeWhile white (rev (chunks s)))) = s" by (simp add: trim_end_def)
  from arg_cong [OF this, of length] show ?thesis by simp
qed

lemma trim_end_char_length: "length (trim_end_char c s) \<le> length s"
  using length_dropWhile_le [of "\<lambda>x. x = c" "rev s"] by (simp add: trim_end_char_def)

lemma descending_rev: "ordered a rs b \<Longrightarrow> (\<forall>r \<in> set rs. fst r \<le> snd (f r) \<and> snd (f r) \<le> snd r \<and> fst (f r) = fst r) \<Longrightarrow>
   descending a b (rev (map f rs))"
proof (induction rs arbitrary: b rule: rev_induct)
  case (snoc r rs)
  have o: "ordered a rs (fst r)" "fst r \<le> snd r" "snd r \<le> b"
    using snoc.prems(1)
  proof (induction rs arbitrary: a)
    case Nil { case 1 then show ?case by simp next case 2 then show ?case by simp next case 3 then show ?case by simp }
  next
    case (Cons q qs)
    { case 1 then show ?case using Cons.IH(1) [of "snd q"] by simp
    next case 2 then show ?case using Cons.IH(2) [of "snd q"] by simp
    next case 3 then show ?case using Cons.IH(3) [of "snd q"] by simp }
  qed
  from snoc.IH [OF o(1)] snoc.prems(2) o show ?case by auto
qed simp

lemma ranges_in_order: "ordered 0 (statement_ranges_for u d sql) (length sql)"
  unfolding statement_ranges_for_def by (rule tokenizer.ranges_ordered)

lemma statement_bodies_descending: "descending 0 (length sql) (rev (statement_bodies u d sql))"
  unfolding statement_bodies_def
proof (rule descending_rev [OF ranges_in_order])
  show "\<forall>r \<in> set (statement_ranges_for u d sql).
      fst r \<le> snd (fst r, fst r + length (trim_end (trim_end_char (CHR '';'') (slice sql r))))
      \<and> snd (fst r, fst r + length (trim_end (trim_end_char (CHR '';'') (slice sql r)))) \<le> snd r
      \<and> fst (fst r, fst r + length (trim_end (trim_end_char (CHR '';'') (slice sql r)))) = fst r"
  proof
    fix r assume "r \<in> set (statement_ranges_for u d sql)"
    then have "fst r < snd r" "snd r \<le> length sql" using ordered_bounds [OF ranges_in_order] by blast+
    moreover have "length (slice sql r) \<le> snd r - fst r" by (simp add: slice_def)
    ultimately show "fst r \<le> snd (fst r, fst r + length (trim_end (trim_end_char (CHR '';'') (slice sql r))))
      \<and> snd (fst r, fst r + length (trim_end (trim_end_char (CHR '';'') (slice sql r)))) \<le> snd r
      \<and> fst (fst r, fst r + length (trim_end (trim_end_char (CHR '';'') (slice sql r)))) = fst r"
      using trim_end_length [of "trim_end_char (CHR '';'') (slice sql r)"] trim_end_char_length [of "CHR '';''" "slice sql r"]
      by simp
  qed
qed

lemma validate_request_Inr:
  "validate_request target version call tab connection revision doc = Inr t \<longleftrightarrow>
     version = TOOL_SCHEMA_VERSION \<and> length (ci_conversation call) \<le> MAX_HARNESS_ID_BYTES
     \<and> length (ci_turn call) \<le> MAX_HARNESS_ID_BYTES \<and> target = Some t
     \<and> ci_conversation call = at_conversation t \<and> ci_turn call = at_turn t
     \<and> tab = at_tab t \<and> connection = at_connection t \<and> ed_tab doc = at_tab t \<and> ed_connection doc = at_connection t
     \<and> revision = ed_revision doc"
  by (auto simp: validate_request_def and_then_Inr_iff ok_or_Inr_iff)

lemma trim_end_char_split: "\<exists>k. s = trim_end_char c s @ replicate k c"
  "trim_end_char c s = [] \<or> last (trim_end_char c s) \<noteq> c"
proof -
  have "s = trim_end_char c s @ rev (takeWhile (\<lambda>x. x = c) (rev s))"
    unfolding trim_end_char_def by (metis rev_append rev_rev_ident takeWhile_dropWhile_id)
  moreover have "rev (takeWhile (\<lambda>x. x = c) (rev s)) = replicate (length (takeWhile (\<lambda>x. x = c) (rev s))) c"
    by (metis (mono_tags, lifting) rev_replicate replicate_eqI set_takeWhileD)
  ultimately show "\<exists>k. s = trim_end_char c s @ replicate k c" by metis
  show "trim_end_char c s = [] \<or> last (trim_end_char c s) \<noteq> c"
    unfolding trim_end_char_def using hd_dropWhile [of "\<lambda>x. x = c" "rev s"] by (auto simp: last_rev)
qed

lemma trim_end_split:
  "\<exists>bs cs. trim_end s = concat bs \<and> s = concat bs @ concat cs \<and> chunks s = bs @ cs \<and> list_all white cs
     \<and> (bs = [] \<or> \<not> white (last bs))"
proof (intro exI conjI)
  let ?bs = "rev (dropWhile white (rev (chunks s)))" and ?cs = "rev (takeWhile white (rev (chunks s)))"
  show split: "chunks s = ?bs @ ?cs" by (metis rev_append rev_rev_ident takeWhile_dropWhile_id)
  show "trim_end s = concat ?bs" by (simp add: trim_end_def)
  show "s = concat ?bs @ concat ?cs" using arg_cong [OF split, of concat] by simp
  show "list_all white ?cs" by (auto simp: list_all_iff dest: set_takeWhileD)
  show "?bs = [] \<or> \<not> white (last ?bs)" using hd_dropWhile [of white "rev (chunks s)"] by (auto simp: last_rev)
qed

lemma statement_bodies_are_bodies:
  "list_all2 (statement_body edited) (statement_ranges_for u d edited) (statement_bodies u d edited)"
  unfolding statement_bodies_def list.rel_map
proof (rule list.rel_refl_strong)
  fix r assume r: "r \<in> set (statement_ranges_for u d edited)"
  let ?s = "slice edited r" let ?t = "trim_end_char (CHR '';'') ?s"
  let ?b = "(fst r, fst r + length (trim_end ?t))"
  have len: "fst r < snd r" "snd r \<le> length edited" using ordered_bounds [OF ranges_in_order] r by blast+
  then have slen: "length ?s = snd r - fst r" using slice_length [of "fst r" "snd r" edited] by simp
  obtain k where k: "?s = ?t @ replicate k (CHR '';'')" using trim_end_char_split(1) by blast
  obtain bs cs where bc: "trim_end ?t = concat bs" "?t = concat bs @ concat cs" "chunks ?t = bs @ cs" "list_all white cs"
    "bs = [] \<or> \<not> white (last bs)" using trim_end_split by blast
  have short: "length (concat bs) \<le> snd r - fst r" using arg_cong [OF k, of length] slen bc(2) by simp
  have "slice edited ?b = take (length (concat bs)) (drop (fst r) edited)" unfolding bc(1) by (simp add: slice_def)
  also have "\<dots> = take (length (concat bs)) ?s" using short by (simp add: slice_def)
  also have "\<dots> = concat bs" using k bc(2) by (metis append_assoc append_eq_conv_conj)
  finally have "slice edited ?b = concat bs" .
  then show "statement_body edited r ?b"
    unfolding statement_body_def using k bc short len trim_end_char_split(2) [of "CHR '';''" ?s]
    by (metis append_assoc fst_conv snd_conv le_add1 le_add_diff_inverse add_le_cancel_left less_imp_le)
qed

text \<open>
  C6. An accepted edit belongs to the conversation, the turn, the tab, the connection and the revision
  of the document, and it changes nothing but the ranges it names: the new text is the old one with
  the replacements in order, each at its range. In the text \<open>edited\<close> that the request asks for, a
  replacement of the plan is the requested one in which each statement that it supplies completely,
  without its separators and the white space before them, is laid out by the formatter, if the
  formatter accepts it, and every other character is as asked for: a statement that keeps text from
  before the edit keeps its layout, and so does all text between the statements. A text that the
  formatter gives for a statement has the tokens of the statement.
\<close>

theorem edits_change_only_their_ranges:
  assumes "plan_edit u sqlformat target call rq doc = Inr p"
  shows "ep_sql p = splice (ed_sql doc) 0 (ep_edits p)
    \<and> edits_within 0 (length (ed_sql doc)) (ep_edits p)
    \<and> (\<exists>edits edited bodies.
        edits = sort_key (\<lambda>e. (te_start e, te_end e)) (er_edits rq)
        \<and> edited = splice (ed_sql doc) 0 edits
        \<and> list_all2 (statement_body edited) (statement_ranges_for u (ed_database doc) edited) bodies
        \<and> relaid (format_statement_for u sqlformat (ed_style doc) Assistant (ed_database doc)) edited bodies 0 0
            edits (ep_edits p)
        \<and> (\<forall>r \<in> set bodies. \<forall>t.
            format_statement_for u sqlformat (ed_style doc) Assistant (ed_database doc) (slice edited r) = Formatted t
            \<longrightarrow> same_tokens_for u (ed_database doc) (slice edited r) t)
        \<and> (ep_formatted p \<or> ep_edits p = edits))
    \<and> length (ep_sql p) \<le> MAX_SQL_BYTES
    \<and> ep_tab p = er_tab rq \<and> er_tab rq = ed_tab doc
    \<and> ep_revision p = ed_revision doc \<and> er_revision rq = ed_revision doc
    \<and> (\<exists>t. target = Some t \<and> at_conversation t = ci_conversation call \<and> at_turn t = ci_turn call
        \<and> at_tab t = er_tab rq \<and> at_connection t = er_connection rq \<and> er_connection rq = ed_connection doc)"
proof -
  let ?edits = "sort_key (\<lambda>e. (te_start e, te_end e)) (er_edits rq)"
  let ?fmt = "format_statement_for u sqlformat (ed_style doc) Assistant (ed_database doc)"
  define sql where "sql = apply_edits (ed_sql doc) ?edits"
  define bodies where "bodies = statement_bodies u (ed_database doc) sql"
  obtain edits formatted where f: "format_edits ?fmt sql bodies 0 False ?edits = (edits, formatted)"
    by (cases "format_edits ?fmt sql bodies 0 False ?edits")
  have f': "format_replaced_statements u sqlformat (ed_style doc) (ed_database doc) (apply_edits (ed_sql doc) ?edits) ?edits
      = (edits, formatted)"
    using f by (simp add: format_replaced_statements_def bodies_def sql_def)
  from assms obtain t where t: "validate_request target (er_version rq) call (er_tab rq) (er_connection rq) (er_revision rq) doc = Inr t"
    and valid: "edits_valid (ed_sql doc) True 0 None ?edits"
    and size: "length (if formatted then apply_edits (ed_sql doc) edits else apply_edits (ed_sql doc) ?edits) \<le> MAX_SQL_BYTES"
    and p: "p = \<lparr>ep_tab = ed_tab doc, ep_revision = ed_revision doc,
        ep_sql = (if formatted then apply_edits (ed_sql doc) edits else apply_edits (ed_sql doc) ?edits),
        ep_edits = edits, ep_formatted = formatted\<rparr>"
    by (auto simp: plan_edit_def and_then_Inr_iff Let_def f')
  have within: "edits_within 0 (length (ed_sql doc)) ?edits" using edits_valid_within [OF valid] by simp
  have spliced: "sql = splice (ed_sql doc) 0 ?edits" using apply_edits_splice [OF within] by (simp add: sql_def)
  have relaid: "relaid ?fmt sql bodies 0 0 ?edits edits"
    using format_edits_relaid [where pre = "[]" and shift = 0 and formatted = False and fmt = ?fmt, OF _ _ _ within]
      statement_bodies_descending [of sql u "ed_database doc"] spliced f by (fastforce simp: bodies_def)
  have moved: "edits_within q n es \<longleftrightarrow> edits_within q n es'"
    if "list_all2 (\<lambda>e e'. te_start e' = te_start e \<and> te_end e' = te_end e) es es'" for q n es es'
    using that by (induction arbitrary: q rule: list_all2_induct) auto
  have unchanged: "formatted \<or> edits = ?edits" using format_edits_unchanged [of ?fmt sql bodies 0 False ?edits] f by auto
  have within': "edits_within 0 (length (ed_sql doc)) edits" using moved [OF relaid_places [OF relaid]] within by blast
  have "ep_sql p = splice (ed_sql doc) 0 edits"
    using unchanged apply_edits_splice [OF within'] spliced by (auto simp: p sql_def)
  moreover have "list_all2 (statement_body sql) (statement_ranges_for u (ed_database doc) sql) bodies"
    unfolding bodies_def by (rule statement_bodies_are_bodies)
  moreover have "\<forall>r \<in> set bodies. \<forall>t. ?fmt (slice sql r) = Formatted t \<longrightarrow> same_tokens_for u (ed_database doc) (slice sql r) t"
    using format_statement_for_Formatted by blast
  moreover have "ep_edits p = edits" "ep_formatted p = formatted" "length (ep_sql p) \<le> MAX_SQL_BYTES"
    "ep_tab p = ed_tab doc" "ep_revision p = ed_revision doc"
    using size by (simp_all add: p)
  ultimately show ?thesis
    using within' spliced relaid unchanged t unfolding validate_request_Inr
    by (intro conjI exI [of _ ?edits] exI [of _ sql] exI [of _ bodies] exI [of _ t]) simp_all
qed

text \<open>
  A call that adds a statement to a query: the statement that the replacement supplies is laid out, the
  one that was there is not.
\<close>

definition sample_target :: action_target where
  "sample_target = \<lparr>at_conversation = ''c'', at_turn = ''t'', at_tab = 1, at_connection = Some 2, at_selected = None\<rparr>"

definition sample_call :: call_identity where
  "sample_call = \<lparr>ci_conversation = ''c'', ci_turn = ''t''\<rparr>"

definition sample_document :: editor_document where
  "sample_document = \<lparr>ed_database = Postgres, ed_tab = 1, ed_connection = Some 2, ed_revision = 7, ed_sql = ''select 1'',
     ed_selected = None, ed_busy = False, ed_style = default_style\<rparr>"

definition sample_edit :: edit_request where
  "sample_edit = \<lparr>er_version = 1, er_tab = 1, er_connection = Some 2, er_revision = 7,
     er_edits = [\<lparr>te_start = 8, te_end = 8,
       te_replacement = '';select '' @ replicate 76 (CHR ''7'') @ '' ;''\<rparr>], er_replace = False\<rparr>"

definition sample_edit_result :: edit_plan where
  "sample_edit_result = \<lparr>ep_tab = 1, ep_revision = 7,
     ep_sql = ''select 1;select'' @ [newline] @ replicate 76 (CHR ''7'') @ '' ;'',
     ep_edits = [\<lparr>te_start = 8, te_end = 8,
       te_replacement = '';select'' @ [newline] @ replicate 76 (CHR ''7'') @ '' ;''\<rparr>], ep_formatted = True\<rparr>"

lemma sample_edit_plan:
  "plan_edit ascii_tables two_line_layout (Some sample_target) sample_call sample_edit sample_document
     = Inr sample_edit_result"
  by code_simp

theorem edits_change_only_their_ranges_witness:
  "splice ''select 1'' 0 (ep_edits sample_edit_result) = ep_sql sample_edit_result \<and> ep_formatted sample_edit_result"
  using edits_change_only_their_ranges [OF sample_edit_plan, THEN conjunct1]
  by (simp add: sample_document_def sample_edit_result_def)

section \<open>New queries and runs\<close>

lemma bad_statement_Inr [simp]:
  "(case v of Inl e \<Rightarrow> Inl (Bad_Statement e) | Inr x \<Rightarrow> Inr x) = Inr y \<longleftrightarrow> v = Inr y"
  by (cases v) simp_all

lemma plan_run_runs_one_statement:
  assumes "plan_run u target call rq doc = Inr p"
  shows "length (statement_ranges_for u (ed_database doc) (rp_sql p)) = 1"
    "\<exists>a b. ed_sql doc = a @ rp_sql p @ b" "\<not> ed_busy doc" "rq_revision rq = ed_revision doc"
proof -
  from assms obtain t sql where t: "validate_request target (rq_version rq) call (rq_tab rq) (Some (rq_connection rq)) (rq_revision rq) doc = Inr t"
    and sql: "run_text t rq doc = Inr sql"
    and valid: "validate_single_for u (ed_database doc) sql = Inr ()" and p: "rp_sql p = sql" and busy: "\<not> ed_busy doc"
    by (auto simp: plan_run_def and_then_Inr_iff)
  show "length (statement_ranges_for u (ed_database doc) (rp_sql p)) = 1"
    using valid validate_count [of sql u "ed_database doc"]
    by (auto simp: p validate_single_for_def Let_def split: if_splits)
  show "\<exists>a b. ed_sql doc = a @ rp_sql p @ b"
  proof -
    have "\<exists>a b. ed_sql doc = a @ slice (ed_sql doc) r @ b" if "fst r \<le> snd r" "snd r \<le> length (ed_sql doc)" for r
      using slice_split [of "fst r" "snd r" "ed_sql doc"] that by (metis prod.collapse)
    note part = this
    show ?thesis
    proof (cases "case rq_statement rq of Some r \<Rightarrow> Some r | None \<Rightarrow> at_selected t")
      case None
      then have "rp_sql p = ed_sql doc" using sql p by (simp add: run_text_def)
      then show ?thesis by (intro exI [of _ "[]"]) simp
    next
      case (Some r)
      then have "fst r \<le> snd r" "snd r \<le> length (ed_sql doc)" "rp_sql p = slice (ed_sql doc) r"
        using sql p by (auto simp: run_text_def split: if_splits)
      with part [of r] show ?thesis by simp
    qed
  qed
  show "\<not> ed_busy doc" "rq_revision rq = ed_revision doc" using busy t by (simp_all add: validate_request_Inr)
qed

lemma close_document_keeps:
  "\<exists>a b c m. sql = a @ b \<and> close_document u d sql = a @ m @ b @ c \<and> (m = [] \<or> m = '';'') \<and> set c \<subseteq> {newline}"
proof -
  have "\<exists>a b m. sql = a @ b \<and> (m = [] \<or> m = '';'') \<and>
      (case List.find (\<lambda>(r, k). k \<noteq> Comment \<and> \<not> blank (slice sql r)) (rev (tokens_for u d sql)) of
           Some (r, k) \<Rightarrow> if k \<noteq> Separator then take (snd r) sql @ '';'' @ drop (snd r) sql else sql
         | None \<Rightarrow> sql) = a @ m @ b" (is "\<exists>a b m. _ \<and> _ \<and> ?closed = _")
  proof (cases "\<exists>r k. List.find (\<lambda>(r, k). k \<noteq> Comment \<and> \<not> blank (slice sql r)) (rev (tokens_for u d sql)) = Some (r, k)
      \<and> k \<noteq> Separator")
    case True
    then obtain r k where "List.find (\<lambda>(r, k). k \<noteq> Comment \<and> \<not> blank (slice sql r)) (rev (tokens_for u d sql)) = Some (r, k)"
      "k \<noteq> Separator" by blast
    then show ?thesis by (intro exI [of _ "take (snd r) sql"] exI [of _ "drop (snd r) sql"] exI [of _ "'';''"]) simp
  next
    case False
    then have "?closed = sql" by (auto split: option.split)
    then show ?thesis by (intro exI [of _ sql] exI [of _ "[]"]) simp
  qed
  then obtain a b m where s: "sql = a @ b" "m = [] \<or> m = '';''" "?closed = a @ m @ b" by blast
  have "\<exists>c. close_document u d sql = ?closed @ c \<and> set c \<subseteq> {newline}"
    unfolding close_document_def Let_def by (auto intro: exI [of _ "[]"])
  with s show ?thesis by auto
qed

text \<open>The rows of an answer: the JSON text of a row is never empty.\<close>

definition json_len :: "(row \<Rightarrow> string list) \<Rightarrow> row \<Rightarrow> nat" where
  "json_len pieces r = length (concat (pieces r))"

definition answer_size :: "(row \<Rightarrow> string list) \<Rightarrow> row list \<Rightarrow> nat" where
  "answer_size pieces rs = sum_list (map (json_len pieces) rs) + (length rs - 1)"

lemma encoded_loop_Some: "encoded_loop limit k ps = Some n \<Longrightarrow> n = k + length (concat ps)"
proof (induction ps arbitrary: k)
  case (Cons p ps)
  from Cons.prems Cons.IH [of "k + length p"] show ?case by (simp split: if_splits)
qed simp

lemma encoded_loop_None: "encoded_loop limit k ps = None \<Longrightarrow> limit < k + length (concat ps)"
proof (induction ps arbitrary: k)
  case (Cons p ps)
  from Cons.prems Cons.IH [of "k + length p"] show ?case by (simp split: if_splits)
qed simp

lemma encoded_len_Some: "encoded_len_with_limit pieces limit r = Some n \<Longrightarrow> n = json_len pieces r"
  using encoded_loop_Some [of limit 0 "pieces r" n] by (simp add: encoded_len_with_limit_def json_len_def)

lemma encoded_len_None: "encoded_len_with_limit pieces limit r = None \<Longrightarrow> limit < json_len pieces r"
  using encoded_loop_None [of limit 0 "pieces r"] by (simp add: encoded_len_with_limit_def json_len_def)

text \<open>
  What the loop over the rows gives: of the rows that it has consumed the omitted ones are too large
  and the others are its output, which stays in the budget.
\<close>

definition rows_spec ::
  "(row \<Rightarrow> string list) \<Rightarrow> nat \<Rightarrow> row list \<Rightarrow> nat \<Rightarrow> row list \<Rightarrow> nat list \<Rightarrow> nat \<Rightarrow> bool" where
  "rows_spec pieces budget rows index out omitted k \<longleftrightarrow>
     k \<le> length rows \<and> set omitted \<subseteq> {index..<index + k}
     \<and> out = map (\<lambda>i. rows ! (i - index)) (filter (\<lambda>i. i \<notin> set omitted) [index..<index + k])
     \<and> (\<forall>i \<in> set omitted. min budget MAX_TOOL_PAYLOAD_BYTES < json_len pieces (rows ! (i - index)))"

lemma rows_spec_stop: "rows_spec pieces budget rows index [] [] 0"
  by (simp add: rows_spec_def)

lemma rows_spec_Cons:
  assumes spec: "rows_spec pieces budget rows (index + 1) out omitted k"
  shows "rows_spec pieces budget (r # rows) index (r # out) omitted (k + 1)"
    "min budget MAX_TOOL_PAYLOAD_BYTES < json_len pieces r \<Longrightarrow> rows_spec pieces budget (r # rows) index out (index # omitted) (k + 1)"
proof -
  have nth: "(r # rows) ! (i - index) = rows ! (i - (index + 1))" if "index < i" for i
  proof -
    from that have "i - index = Suc (i - (index + 1))" by simp
    then show ?thesis by simp
  qed
  have upt: "[index..<index + (k + 1)] = index # [index + 1..<index + 1 + k]" by (simp add: upt_rec)
  have om: "set omitted \<subseteq> {index + 1..<index + 1 + k}" using spec by (simp add: rows_spec_def)
  then have new: "index \<notin> set omitted" by auto
  have tail: "map (\<lambda>i. (r # rows) ! (i - index)) (filter (\<lambda>i. i \<notin> S) [index + 1..<index + 1 + k])
      = map (\<lambda>i. rows ! (i - (index + 1))) (filter (\<lambda>i. i \<notin> S) [index + 1..<index + 1 + k])" for S
    using nth by (intro map_cong refl) (auto simp del: upt_Suc)
  have out: "out = map (\<lambda>i. rows ! (i - (index + 1))) (filter (\<lambda>i. i \<notin> set omitted) [index + 1..<index + 1 + k])"
    using spec by (simp add: rows_spec_def)
  have ins: "filter (\<lambda>i. i \<notin> set (index # omitted)) [index + 1..<index + 1 + k] = filter (\<lambda>i. i \<notin> set omitted) [index + 1..<index + 1 + k]"
    by (rule filter_cong) auto
  have big: "min budget MAX_TOOL_PAYLOAD_BYTES < json_len pieces ((r # rows) ! (i - index))" if "i \<in> set omitted" for i
    using spec that om nth [of i] by (auto simp: rows_spec_def)
  show "rows_spec pieces budget (r # rows) index (r # out) omitted (k + 1)"
    using spec om new tail [of "set omitted"] out big unfolding rows_spec_def upt by auto
  show "rows_spec pieces budget (r # rows) index out (index # omitted) (k + 1)"
    if "min budget MAX_TOOL_PAYLOAD_BYTES < json_len pieces r"
    using spec om new tail [of "set (index # omitted)"] out ins big that unfolding rows_spec_def upt by auto
qed

lemma rows_loop_spec:
  assumes "rows_loop pieces budget omit rows index out omitted bytes consumed = (out', omitted', consumed')"
    and nonempty: "\<And>r. 0 < json_len pieces r" and "bytes = answer_size pieces out" "bytes \<le> budget"
  shows "\<exists>o1 m k. out' = out @ o1 \<and> omitted' = omitted @ m \<and> consumed' = consumed + k
    \<and> rows_spec pieces budget rows index o1 m k \<and> answer_size pieces out' \<le> budget"
  using assms(1,3,4)
proof (induction rows arbitrary: index out omitted bytes consumed)
  case Nil
  then show ?case using rows_spec_stop by (intro exI [of _ "[]"] exI [of _ 0]) auto
next
  case (Cons r rows)
  let ?sep = "if out = [] then 0 else 1 :: nat"
  have none: "?case" if "rows_loop pieces budget omit rows (index + 1) out (omitted @ [index]) bytes (consumed + 1) = (out', omitted', consumed')"
      "min budget MAX_TOOL_PAYLOAD_BYTES < json_len pieces r"
  proof -
    from Cons.IH [OF that(1) Cons.prems(2,3)] obtain o1 m k where
      "out' = out @ o1" "omitted' = (omitted @ [index]) @ m" "consumed' = consumed + 1 + k"
      "rows_spec pieces budget rows (index + 1) o1 m k" "answer_size pieces out' \<le> budget" by blast
    then show ?thesis
      using rows_spec_Cons(2) [OF _ that(2)] by (intro exI [of _ o1] exI [of _ "index # m"] exI [of _ "k + 1"]) auto
  qed
  show ?case
  proof (cases "encoded_len_with_limit pieces MAX_TOOL_PAYLOAD_BYTES r")
    case None
    then show ?thesis using Cons.prems(1) encoded_len_None [OF None] by (intro none) (auto simp: Let_def)
  next
    case (Some full)
    from encoded_len_Some [OF Some] have full: "full = json_len pieces r" .
    show ?thesis
    proof (cases "budget - (bytes + ?sep) < full")
      case True
      show ?thesis
      proof (cases "out = [] \<and> omit")
        case omit: True
        then have "bytes = 0" using Cons.prems(2) by (simp add: answer_size_def)
        with omit True full have "min budget MAX_TOOL_PAYLOAD_BYTES < json_len pieces r" by simp
        moreover have "rows_loop pieces budget omit rows (index + 1) out (omitted @ [index]) bytes (consumed + 1) = (out', omitted', consumed')"
          using Cons.prems(1) Some True omit by (simp add: Let_def)
        ultimately show ?thesis by (rule none [rotated])
      next
        case False
        then have "(out', omitted', consumed') = (out, omitted, consumed)"
          using Cons.prems(1) Some True by (auto simp: Let_def split: if_splits)
        then show ?thesis using rows_spec_stop Cons.prems(2,3) by (intro exI [of _ "[]"] exI [of _ 0]) auto
      qed
    next
      case False
      have size: "answer_size pieces (out @ [r]) = bytes + full + ?sep"
        by (cases out) (simp_all add: Cons.prems(2) answer_size_def full)
      have fits: "bytes + full + ?sep \<le> budget" using False nonempty [of r] full by simp
      have loop: "rows_loop pieces budget omit rows (index + 1) (out @ [r]) omitted (bytes + full + ?sep) (consumed + 1)
          = (out', omitted', consumed')"
        using Cons.prems(1) Some False by (simp add: Let_def split: if_splits)
      from Cons.IH [OF loop size [symmetric] fits] obtain o1 m k where
        "out' = (out @ [r]) @ o1" "omitted' = omitted @ m" "consumed' = consumed + 1 + k"
        "rows_spec pieces budget rows (index + 1) o1 m k" "answer_size pieces out' \<le> budget"
        by blast
      then show ?thesis
        using rows_spec_Cons(1) by (intro exI [of _ "r # o1"] exI [of _ m] exI [of _ "k + 1"]) auto
    qed
  qed
qed

lemma rows_loop_consumed: "consumed \<le> snd (snd (rows_loop pieces budget omit rs i out om b consumed))"
proof (induction rs arbitrary: i out om b consumed)
  case (Cons r rs)
  have "consumed \<le> snd (snd (rows_loop pieces budget omit rs i out om b (consumed + 1)))" for i out om b
    using Cons.IH [of "consumed + 1" i out om b] by simp
  then show ?case by (auto simp: Let_def split: option.split)
qed simp

lemma rows_loop_progress:
  assumes "rows_loop pieces budget True (r # rows) index [] omitted bytes 0 = (out', omitted', consumed')"
  shows "0 < consumed'"
proof -
  have "0 < snd (snd (rows_loop pieces budget True (r # rows) index [] omitted bytes 0))"
    using rows_loop_consumed [of 1 pieces budget True rows "index + 1"]
    by (auto simp: Let_def Suc_le_eq split: option.split)
  then show ?thesis using assms by simp
qed

text \<open>
  C24. The rows that one answer gives to the assistant: from the offset to the next offset every row
  is either returned, in order, or reported as omitted because it is too large alone, the answer
  stays in its budget, and reading always advances, so that reading on from the next offset sees
  the whole result. Rows are reported as left out exactly when some are.
\<close>

theorem answers_page_through_the_rows:
  assumes "bound_rows_after pieces rows offset requested used_bytes = Inr b"
    and "\<forall>r. 0 < json_len pieces r" "offset \<le> length rows"
  shows "offset \<le> br_next b \<and> br_next b \<le> min (offset + requested) (length rows)
    \<and> (offset < length rows \<longrightarrow> offset < br_next b)
    \<and> set (br_omitted b) \<subseteq> {offset..<br_next b}
    \<and> br_rows b = map (\<lambda>i. rows ! i) (filter (\<lambda>i. i \<notin> set (br_omitted b)) [offset..<br_next b])
    \<and> answer_size pieces (br_rows b) \<le> MAX_TOOL_PAYLOAD_BYTES - used_bytes
    \<and> (\<forall>i \<in> set (br_omitted b). MAX_TOOL_PAYLOAD_BYTES - used_bytes < json_len pieces (rows ! i))
    \<and> (br_truncated b \<longleftrightarrow> br_omitted b \<noteq> [] \<or> br_next b < min (offset + requested) (length rows))"
proof -
  let ?budget = "MAX_TOOL_PAYLOAD_BYTES - used_bytes"
  let ?stop = "min (offset + requested) (length rows)" let ?part = "slice rows (offset, ?stop)"
  obtain out omitted k where loop: "rows_loop pieces ?budget True ?part offset [] [] 0 0 = (out, omitted, k)"
    by (cases "rows_loop pieces ?budget True ?part offset [] [] 0 0")
  have requested: "0 < requested" and b: "b = \<lparr>br_rows = out, br_omitted = omitted, br_next = min (offset + k) (length rows),
      br_truncated = (omitted \<noteq> [] \<or> min (offset + k) (length rows) < ?stop)\<rparr>"
    using assms(1) loop by (auto simp: bound_rows_after_def bound_rows_within_def Let_def split: if_splits)
  from rows_loop_spec [OF loop] assms(2) have spec: "rows_spec pieces ?budget ?part offset out omitted k"
    and size: "answer_size pieces out \<le> ?budget" by (auto simp: answer_size_def)
  have len: "length ?part = ?stop - offset" by simp
  with spec have "k \<le> ?stop - offset" by (simp add: rows_spec_def)
  then have k: "offset + k \<le> ?stop" using assms(3) by linarith
  have nth: "?part ! (i - offset) = rows ! i" if "offset \<le> i" "i < offset + k" for i
  proof -
    have "i - offset < ?stop - offset" using that k by linarith
    then show ?thesis using that(1) assms(3) by (simp add: slice_def del: min_less_iff_conj)
  qed
  have "0 < k" if "offset < length rows"
  proof -
    from that requested len have "?part \<noteq> []" by fastforce
    then obtain r rs where "?part = r # rs" by (cases ?part) auto
    with loop rows_loop_progress show ?thesis by metis
  qed
  moreover have "out = map (\<lambda>i. rows ! i) (filter (\<lambda>i. i \<notin> set omitted) [offset..<offset + k])"
    using spec nth by (simp add: rows_spec_def)
  moreover have "\<forall>i \<in> set omitted. ?budget < json_len pieces (rows ! i)"
    using spec nth by (fastforce simp: rows_spec_def)
  moreover have "set omitted \<subseteq> {offset..<offset + k}" using spec by (simp add: rows_spec_def)
  moreover have "min (offset + k) (length rows) = offset + k" using k by simp
  ultimately show ?thesis using k size by (simp add: b)
qed

theorem answers_page_through_the_rows_witness:
  "\<exists>b. bound_rows_after (\<lambda>r. [''row'']) [[Some ''a''], [Some ''b''], [None]] 1 5 0 = Inr b
     \<and> br_next b = 3 \<and> br_rows b = [[Some ''b''], [None]]"
proof -
  let ?pieces = "\<lambda>r :: row. [''row'']" let ?rows = "[[Some ''a''], [Some ''b''], [None]] :: row list"
  have b: "bound_rows_after ?pieces ?rows 1 5 0
      = Inr \<lparr>br_rows = [[Some ''b''], [None]], br_omitted = [], br_next = 3, br_truncated = False\<rparr>" by code_simp
  have "[Some ''b''] # [[None]] = map (\<lambda>i. ?rows ! i) (filter (\<lambda>i. i \<notin> {}) [1..<3])"
    using answers_page_through_the_rows [OF b] by (simp add: json_len_def)
  with b show ?thesis by simp
qed

end
