(* ===== verification/Trino_Raw.thy ===== *)
theory Trino_Raw
  imports Budget Oidc_Jwt Export_Io
begin

text \<open>
  The rows of a Trino page (\<open>src/connector/trino/raw.rs\<close>) and the bounded prefix that a preview
  keeps of them (\<open>src/connector/trino/preview.rs\<close>).

  \<open>serde_json\<close> is a parameter: the extent of the first JSON value of a text, the elements of an
  array up to its end or up to an error, and the text of a string literal. A file is the bytes that
  were written to it; whether a write or a read of the disk fails is an argument.
\<close>

section \<open>Bounded texts and columns\<close>

definition MAX_RAW_COLUMNS :: nat where "MAX_RAW_COLUMNS = 4096"
definition MAX_SCHEMA_BYTES :: nat where "MAX_SCHEMA_BYTES = MIB"

datatype raw_error =
    Bad_Raw_Json | Long_Text | Too_Many_Columns | Large_Schema | Not_An_Array | Incomplete_Data
  | Too_Many_Cells | Too_Few_Cells | Large_Cell | Large_Row | Huge_Cell

definition bounded_text :: "nat \<Rightarrow> json \<Rightarrow> (raw_error, string) result" where
  "bounded_text limit v =
     (case v of String t \<Rightarrow> if limit < length t then Inl Long_Text else Inr t | _ \<Rightarrow> Inl Bad_Raw_Json)"

text \<open>A member that may be missing.\<close>

definition optional_text :: "nat \<Rightarrow> json option \<Rightarrow> (raw_error, string option) result" where
  "optional_text limit m =
     (case m of None \<Rightarrow> Inr None | Some Null \<Rightarrow> Inr None
      | Some v \<Rightarrow> and_then (bounded_text limit v) (\<lambda>t. Inr (Some t)))"

text \<open>The members \<open>name\<close> and \<open>type\<close> of each descriptor, up to the end or an error.\<close>

fun raw_columns_loop ::
  "(string \<Rightarrow> nat) \<Rightarrow> bool \<Rightarrow> (json \<times> json) list \<Rightarrow> column list \<Rightarrow> nat \<Rightarrow> (raw_error, column list) result" where
  "raw_columns_loop cap ended [] cols bytes = (if ended then Inr cols else Inl Bad_Raw_Json)"
| "raw_columns_loop cap ended ((n, d) # es) cols bytes =
     (if length cols = MAX_RAW_COLUMNS then Inl Too_Many_Columns
      else
        and_then (bounded_text 1024 n) (\<lambda>name.
        and_then (bounded_text 4096 d) (\<lambda>data_type.
        let bytes = bytes + (cap name + cap data_type)
        in if MAX_SCHEMA_BYTES < bytes then Inl Large_Schema
           else raw_columns_loop cap ended es (cols @ [\<lparr>cl_name = name, cl_type = data_type\<rparr>]) bytes)))"

section \<open>Rows\<close>

record raw_json =
  rv_value :: "string \<Rightarrow> nat option option"
  rv_items :: "string \<Rightarrow> string list \<times> bool"
  rv_string :: "string \<Rightarrow> string option"
  rv_capacity :: "string \<Rightarrow> nat"

definition raw_cell_text :: "bool \<Rightarrow> nat \<Rightarrow> string \<Rightarrow> (raw_error, string) result" where
  "raw_cell_text direct remaining t =
     and_then (ensure (\<not> (direct \<and> MAX_CELL_BYTES < length t)) Large_Cell) (\<lambda>_.
     and_then (ensure (\<not> (direct \<and> remaining < length t)) Large_Row) (\<lambda>_.
     and_then (ensure (\<not> MAX_ROW_BYTES < length t) Huge_Cell) (\<lambda>_. Inr t)))"

definition cell_of :: "raw_json \<Rightarrow> bool \<Rightarrow> nat \<Rightarrow> string \<Rightarrow> (raw_error, cell) result" where
  "cell_of env direct bytes v =
     (if v = ''null'' then Inr None
      else if starts_with v [CHR 0x22]
      then and_then (ok_or Bad_Raw_Json (rv_string env v)) (\<lambda>t.
             and_then (raw_cell_text direct (MAX_ROW_BYTES - bytes) t) (\<lambda>t. Inr (Some t)))
      else
        and_then (ensure (\<not> (direct \<and> MAX_CELL_BYTES < length v)) Large_Cell) (\<lambda>_.
        and_then (ensure (\<not> (direct \<and> MAX_ROW_BYTES - bytes < length v)) Large_Row) (\<lambda>_. Inr (Some v))))"

fun row_cells ::
  "raw_json \<Rightarrow> nat \<Rightarrow> bool \<Rightarrow> bool \<Rightarrow> string list \<Rightarrow> row \<Rightarrow> nat \<Rightarrow> (raw_error, row) result" where
  "row_cells env width direct ended [] row bytes =
     and_then (ensure ended Bad_Raw_Json) (\<lambda>_.
     and_then (ensure (length row = width) Too_Few_Cells) (\<lambda>_. Inr row))"
| "row_cells env width direct ended (v # vs) row bytes =
     and_then (ensure (length row \<noteq> width) Too_Many_Cells) (\<lambda>_.
     and_then (cell_of env direct bytes v) (\<lambda>c.
     let bytes = bytes + (case c of None \<Rightarrow> 0 | Some t \<Rightarrow> rv_capacity env t)
     in and_then (ensure (\<not> (direct \<and> MAX_ROW_BYTES < bytes)) Large_Row) (\<lambda>_.
        row_cells env width direct ended vs (row @ [c]) bytes)))"

definition row_of :: "raw_json \<Rightarrow> nat \<Rightarrow> bool \<Rightarrow> string \<Rightarrow> (raw_error, row) result" where
  "row_of env width direct raw =
     (let (items, ended) = rv_items env raw in row_cells env width direct ended items [] (width * size_of_cell))"

record raw_rows =
  rr_text :: string
  rr_offset :: nat

definition raw_rows_new :: "string \<Rightarrow> (raw_error, raw_rows) result" where
  "raw_rows_new t =
     and_then (ensure (starts_with (trim_start t) ''['') Not_An_Array) (\<lambda>_.
       Inr \<lparr>rr_text = t, rr_offset = length (takeWhile (\<lambda>c. c \<noteq> CHR ''['') t) + 1\<rparr>)"

definition skip_space :: "string \<Rightarrow> nat \<Rightarrow> nat" where
  "skip_space t i = i + length (takeWhile is_ascii_whitespace (drop i t))"

definition byte_at :: "string \<Rightarrow> nat \<Rightarrow> char option" where
  "byte_at t i = (if i < length t then Some (t ! i) else None)"

definition raw_rows_next :: "raw_json \<Rightarrow> nat \<Rightarrow> bool \<Rightarrow> raw_rows \<Rightarrow> (raw_error, row option \<times> raw_rows) result" where
  "raw_rows_next env width direct r =
     (let t = rr_text r;
          i = skip_space t (rr_offset r);
          i = (if byte_at t i = Some (CHR '','') then i + 1 else i);
          i = skip_space t i
      in if byte_at t i = Some (CHR '']'') then Inr (None, r\<lparr>rr_offset := i\<rparr>)
         else
           (case rv_value env (drop i t) of
              None \<Rightarrow> Inl Incomplete_Data
            | Some None \<Rightarrow> Inl Bad_Raw_Json
            | Some (Some n) \<Rightarrow>
                and_then (row_of env width direct (take n (drop i t))) (\<lambda>row.
                  Inr (Some row, r\<lparr>rr_offset := i + n\<rparr>))))"

section \<open>The prefix of a preview\<close>

definition MAX_RESULT_BYTES :: nat where "MAX_RESULT_BYTES = 64 * 1024 * 1024"
definition MAX_RESULT_ROWS :: nat where "MAX_RESULT_ROWS = 100000"

text \<open>\<open>u64::to_le_bytes\<close> and \<open>u64::from_le_bytes\<close>.\<close>

fun le_digits :: "nat \<Rightarrow> nat \<Rightarrow> string" where
  "le_digits 0 n = []"
| "le_digits (Suc k) n = char_of (n mod 256) # le_digits k (n div 256)"

definition u64_le :: "nat \<Rightarrow> string" where
  "u64_le n = le_digits 8 n"

fun from_le :: "string \<Rightarrow> nat" where
  "from_le [] = 0"
| "from_le (b # bs) = byte b + 256 * from_le bs"

datatype prefix_error = Disk_Failed | Bad_Width | Bad_Cell_Length | Bad_Cell_Text

record prefix =
  px_file :: string
  px_offset :: nat
  px_rows :: nat
  px_consumed :: nat
  px_bytes :: nat
  px_limited :: bool

definition prefix_new :: prefix where
  "prefix_new = \<lparr>px_file = [], px_offset = 0, px_rows = 0, px_consumed = 0, px_bytes = 0, px_limited = False\<rparr>"

definition available :: "prefix \<Rightarrow> nat" where
  "available p = px_rows p - px_consumed p"

fun cell_bytes :: "cell \<Rightarrow> string" where
  "cell_bytes None = u64_le usize_max"
| "cell_bytes (Some t) = u64_le (length t) @ t"

definition record_bytes :: "row \<Rightarrow> string" where
  "record_bytes r = u64_le (length r) @ concat (map cell_bytes r)"

definition prefix_row_size :: "(string \<Rightarrow> nat) \<Rightarrow> row \<Rightarrow> nat" where
  "prefix_row_size cap r = length r * size_of_cell + sum_list (map cap (texts r))"

text \<open>\<open>fault\<close>: the disk fails after so many bytes of the row.\<close>

definition prefix_append ::
  "(string \<Rightarrow> nat) \<Rightarrow> nat option \<Rightarrow> row \<Rightarrow> prefix \<Rightarrow> (prefix_error, unit) result \<times> prefix" where
  "prefix_append cap fault r p =
     (let bytes = prefix_row_size cap r;
          p = (if px_rows p = MAX_RESULT_ROWS \<or> MAX_RESULT_BYTES < px_bytes p + bytes
               then p\<lparr>px_limited := True\<rparr> else p)
      in if px_limited p then (Inr (), p)
         else
           (case fault of
              Some n \<Rightarrow> (Inl Disk_Failed, p\<lparr>px_file := px_file p @ take n (record_bytes r)\<rparr>)
            | None \<Rightarrow>
                (Inr (), p\<lparr>px_file := px_file p @ record_bytes r, px_rows := px_rows p + 1,
                           px_bytes := px_bytes p + bytes\<rparr>)))"

text \<open>\<open>bad\<close>: the offsets at which the disk cannot be read.\<close>

definition prefix_read ::
  "(nat \<Rightarrow> bool) \<Rightarrow> nat \<Rightarrow> prefix \<Rightarrow> (prefix_error, string) result \<times> prefix" where
  "prefix_read bad n p =
     (if bad (px_offset p) \<or> length (px_file p) < px_offset p + n then (Inl Disk_Failed, p)
      else (Inr (take n (drop (px_offset p) (px_file p))), p\<lparr>px_offset := px_offset p + n\<rparr>))"

fun prefix_cells ::
  "(nat \<Rightarrow> bool) \<Rightarrow> nat \<Rightarrow> row \<Rightarrow> prefix \<Rightarrow> (prefix_error, row) result \<times> prefix" where
  "prefix_cells bad 0 row p = (Inr row, p)"
| "prefix_cells bad (Suc n) row p =
     (case prefix_read bad 8 p of
        (Inl e, p) \<Rightarrow> (Inl e, p)
      | (Inr bs, p) \<Rightarrow>
          if from_le bs = usize_max then prefix_cells bad n (row @ [None]) p
          else if MAX_ROW_BYTES < from_le bs then (Inl Bad_Cell_Length, p)
          else
            (case prefix_read bad (from_le bs) p of
               (Inl e, p) \<Rightarrow> (Inl e, p)
             | (Inr t, p) \<Rightarrow> if utf8 t then prefix_cells bad n (row @ [Some t]) p else (Inl Bad_Cell_Text, p)))"

definition prefix_next ::
  "(nat \<Rightarrow> bool) \<Rightarrow> bool \<Rightarrow> nat \<Rightarrow> prefix \<Rightarrow> (prefix_error, row option) result \<times> prefix" where
  "prefix_next bad flushed width p =
     (if available p = 0 then (Inr None, p)
      else if \<not> flushed then (Inl Disk_Failed, p)
      else
        (case prefix_read bad 8 p of
           (Inl e, p) \<Rightarrow> (Inl e, p)
         | (Inr bs, p) \<Rightarrow>
             if from_le bs \<noteq> width then (Inl Bad_Width, p)
             else
               (case prefix_cells bad width [] p of
                  (Inl e, p) \<Rightarrow> (Inl e, p)
                | (Inr row, p) \<Rightarrow> (Inr (Some row), p\<lparr>px_consumed := px_consumed p + 1\<rparr>))))"

section \<open>The prefix is a queue of rows\<close>

lemma length_le_digits [simp]: "length (le_digits k n) = k"
  by (induction k arbitrary: n) simp_all

lemma length_u64_le [simp]: "length (u64_le n) = 8"
  by (simp add: u64_le_def)

lemma from_le_digits: "n < 256 ^ k \<Longrightarrow> from_le (le_digits k n) = n"
  by (induction k arbitrary: n) (simp_all add: byte_def less_mult_imp_div_less mult.commute)

lemma from_u64_le [simp]: "n \<le> usize_max \<Longrightarrow> from_le (u64_le n) = n"
  unfolding u64_le_def by (rule from_le_digits) (simp add: usize_max_def)

text \<open>The reference: the rows that were kept, the size they take, how many were read.\<close>

record row_queue =
  qu_rows :: "row list"
  qu_bytes :: nat
  qu_read :: nat
  qu_limited :: bool

definition queue_append :: "(string \<Rightarrow> nat) \<Rightarrow> row \<Rightarrow> row_queue \<Rightarrow> row_queue" where
  "queue_append cap r q =
     (if qu_limited q \<or> length (qu_rows q) = MAX_RESULT_ROWS \<or> MAX_RESULT_BYTES < qu_bytes q + prefix_row_size cap r
      then q\<lparr>qu_limited := True\<rparr>
      else q\<lparr>qu_rows := qu_rows q @ [r], qu_bytes := qu_bytes q + prefix_row_size cap r\<rparr>)"

definition queue_next :: "row_queue \<Rightarrow> row option \<times> row_queue" where
  "queue_next q =
     (if qu_read q < length (qu_rows q) then (Some (qu_rows q ! qu_read q), q\<lparr>qu_read := qu_read q + 1\<rparr>) else (None, q))"

definition row_fits :: "nat \<Rightarrow> row \<Rightarrow> bool" where
  "row_fits width r \<longleftrightarrow> length r = width \<and> list_all (\<lambda>t. utf8 t \<and> length t \<le> MAX_ROW_BYTES) (texts r)"

definition holds_queue :: "nat \<Rightarrow> row_queue \<Rightarrow> prefix \<Rightarrow> bool" where
  "holds_queue width q p \<longleftrightarrow>
     qu_read q \<le> length (qu_rows q) \<and> list_all (row_fits width) (qu_rows q)
     \<and> p = \<lparr>px_file = concat (map record_bytes (qu_rows q)),
             px_offset = length (concat (map record_bytes (take (qu_read q) (qu_rows q)))),
             px_rows = length (qu_rows q), px_consumed = qu_read q, px_bytes = qu_bytes q, px_limited = qu_limited q\<rparr>"

lemma row_fits_Cons: "row_fits (Suc n) (c # r) \<longleftrightarrow>
    (case c of None \<Rightarrow> True | Some t \<Rightarrow> utf8 t \<and> length t \<le> MAX_ROW_BYTES) \<and> row_fits n r"
  by (cases c) (auto simp: row_fits_def)

lemma MAX_ROW_BYTES_small: "n \<le> MAX_ROW_BYTES \<Longrightarrow> n < usize_max"
  by (simp add: MAX_ROW_BYTES_def MIB_def usize_max_def)

lemma prefix_read_here:
  assumes "px_file p = before @ xs @ after" "px_offset p = length before" "length xs = n"
  shows "prefix_read (\<lambda>_. False) n p = (Inr xs, p\<lparr>px_offset := length before + n\<rparr>)"
  using assms by (auto simp: prefix_read_def)

lemma prefix_cells_read:
  assumes "row_fits n r" "px_file p = before @ concat (map cell_bytes r) @ after" "px_offset p = length before"
  shows "prefix_cells (\<lambda>_. False) n done p
    = (Inr (done @ r), p\<lparr>px_offset := length before + length (concat (map cell_bytes r))\<rparr>)"
  using assms
proof (induction n arbitrary: r p before "done")
  case 0
  then have "r = []" by (simp add: row_fits_def)
  with 0 show ?case by simp
next
  case (Suc n)
  then obtain c r' where r: "r = c # r'" and fits: "row_fits n r'"
    and c: "case c of None \<Rightarrow> True | Some t \<Rightarrow> utf8 t \<and> length t \<le> MAX_ROW_BYTES"
    by (cases r) (auto simp: row_fits_Cons, simp add: row_fits_def)
  show ?case
  proof (cases c)
    case None
    have "px_file p = before @ u64_le usize_max @ (concat (map cell_bytes r') @ after)"
      using Suc.prems by (simp add: r None)
    from prefix_read_here [OF this Suc.prems(3)]
    have read: "prefix_read (\<lambda>_. False) 8 p = (Inr (u64_le usize_max), p\<lparr>px_offset := length before + 8\<rparr>)" by simp
    have "prefix_cells (\<lambda>_. False) n (done @ [None]) (p\<lparr>px_offset := length before + 8\<rparr>)
        = (Inr ((done @ [None]) @ r'), (p\<lparr>px_offset := length before + 8\<rparr>)
             \<lparr>px_offset := length (before @ u64_le usize_max) + length (concat (map cell_bytes r'))\<rparr>)"
      using Suc.prems by (intro Suc.IH [OF fits]) (simp_all add: r None)
    then show ?thesis by (simp add: read r None add.assoc)
  next
    case (Some t)
    with c have t: "utf8 t" "length t \<le> MAX_ROW_BYTES" "length t < usize_max" by (simp_all add: MAX_ROW_BYTES_small)
    have "px_file p = before @ u64_le (length t) @ (t @ concat (map cell_bytes r') @ after)"
      using Suc.prems by (simp add: r Some)
    from prefix_read_here [OF this Suc.prems(3)]
    have read: "prefix_read (\<lambda>_. False) 8 p = (Inr (u64_le (length t)), p\<lparr>px_offset := length before + 8\<rparr>)" by simp
    have "px_file p = (before @ u64_le (length t)) @ t @ (concat (map cell_bytes r') @ after)"
      using Suc.prems by (simp add: r Some)
    from prefix_read_here [of "p\<lparr>px_offset := length before + 8\<rparr>", simplified, OF this, of "length t"]
    have cell: "prefix_read (\<lambda>_. False) (length t) (p\<lparr>px_offset := length before + 8\<rparr>)
        = (Inr t, p\<lparr>px_offset := length before + 8 + length t\<rparr>)" by simp
    have "prefix_cells (\<lambda>_. False) n (done @ [Some t]) (p\<lparr>px_offset := length before + 8 + length t\<rparr>)
        = (Inr ((done @ [Some t]) @ r'), (p\<lparr>px_offset := length before + 8 + length t\<rparr>)
             \<lparr>px_offset := length (before @ u64_le (length t) @ t) + length (concat (map cell_bytes r'))\<rparr>)"
      using Suc.prems by (intro Suc.IH [OF fits]) (simp_all add: r Some)
    then show ?thesis using t by (simp add: read cell r Some add.assoc)
  qed
qed

lemma holds_queue_append:
  assumes "holds_queue width q p" "row_fits width r"
  shows "\<exists>p'. prefix_append cap None r p = (Inr (), p') \<and> holds_queue width (queue_append cap r q) p'"
  using assms by (auto simp: holds_queue_def prefix_append_def queue_append_def Let_def)

lemma holds_queue_next:
  assumes "holds_queue width q p" "width \<le> usize_max"
  shows "\<exists>p'. prefix_next (\<lambda>_. False) True width p = (Inr (fst (queue_next q)), p') \<and> holds_queue width (snd (queue_next q)) p'"
proof (cases "qu_read q < length (qu_rows q)")
  case False
  then show ?thesis using assms by (auto simp: holds_queue_def prefix_next_def available_def queue_next_def)
next
  case True
  let ?r = "qu_rows q ! qu_read q" let ?before = "concat (map record_bytes (take (qu_read q) (qu_rows q)))"
  have rows: "qu_rows q = take (qu_read q) (qu_rows q) @ ?r # drop (Suc (qu_read q)) (qu_rows q)"
    using True by (rule id_take_nth_drop)
  then have "concat (map record_bytes (qu_rows q))
      = ?before @ record_bytes ?r @ concat (map record_bytes (drop (Suc (qu_read q)) (qu_rows q)))"
    by (metis concat.simps(2) concat_append list.simps(9) map_append)
  then have px_file: "px_file p = ?before @ record_bytes ?r @ concat (map record_bytes (drop (Suc (qu_read q)) (qu_rows q)))"
    and offset: "px_offset p = length ?before" and counts: "available p \<noteq> 0" and consumed: "px_consumed p = qu_read q"
    using assms True by (simp_all add: holds_queue_def available_def)
  have fits: "row_fits width ?r" using assms True by (auto simp: holds_queue_def list_all_iff)
  then have w: "length ?r = width" by (simp add: row_fits_def)
  from px_file have "px_file p = ?before @ u64_le width @ (concat (map cell_bytes ?r)
      @ concat (map record_bytes (drop (Suc (qu_read q)) (qu_rows q))))" by (simp add: record_bytes_def w)
  from prefix_read_here [OF this offset, of 8]
  have read: "prefix_read (\<lambda>_. False) 8 p = (Inr (u64_le width), p\<lparr>px_offset := length ?before + 8\<rparr>)" by simp
  have "prefix_cells (\<lambda>_. False) width [] (p\<lparr>px_offset := length ?before + 8\<rparr>)
      = (Inr ([] @ ?r), p\<lparr>px_offset := length ?before + 8\<rparr>
           \<lparr>px_offset := length (?before @ u64_le width) + length (concat (map cell_bytes ?r))\<rparr>)"
    by (rule prefix_cells_read [OF fits]) (simp_all add: px_file record_bytes_def w)
  then have "prefix_next (\<lambda>_. False) True width p
      = (Inr (Some ?r), p\<lparr>px_offset := length ?before + length (record_bytes ?r), px_consumed := qu_read q + 1\<rparr>)"
    using assms(2) by (simp add: prefix_next_def read counts consumed record_bytes_def w add.assoc)
  moreover have "length (concat (map record_bytes (take (Suc (qu_read q)) (qu_rows q))))
      = length ?before + length (record_bytes ?r)"
    using True by (simp add: take_Suc_conv_app_nth)
  ultimately show ?thesis using assms(1) True by (auto simp: holds_queue_def queue_next_def)
qed

section \<open>Runs\<close>

datatype prefix_op = Append row | Next

fun prefix_run :: "(string \<Rightarrow> nat) \<Rightarrow> nat \<Rightarrow> prefix_op list \<Rightarrow> prefix \<Rightarrow> (prefix_error, row option) result list" where
  "prefix_run cap width [] p = []"
| "prefix_run cap width (Append r # ops) p =
     (case prefix_append cap None r p of (Inl e, p) \<Rightarrow> [Inl e] | (Inr _, p) \<Rightarrow> prefix_run cap width ops p)"
| "prefix_run cap width (Next # ops) p =
     (case prefix_next (\<lambda>_. False) True width p of
        (Inl e, p) \<Rightarrow> [Inl e] | (Inr x, p) \<Rightarrow> Inr x # prefix_run cap width ops p)"

fun queue_run :: "(string \<Rightarrow> nat) \<Rightarrow> prefix_op list \<Rightarrow> row_queue \<Rightarrow> row option list" where
  "queue_run cap [] q = []"
| "queue_run cap (Append r # ops) q = queue_run cap ops (queue_append cap r q)"
| "queue_run cap (Next # ops) q = fst (queue_next q) # queue_run cap ops (snd (queue_next q))"

definition queue_new :: row_queue where
  "queue_new = \<lparr>qu_rows = [], qu_bytes = 0, qu_read = 0, qu_limited = False\<rparr>"

lemma prefix_run_queue:
  assumes "holds_queue width q p" "width \<le> usize_max" "\<forall>r. Append r \<in> set ops \<longrightarrow> row_fits width r"
  shows "prefix_run cap width ops p = map Inr (queue_run cap ops q)"
  using assms
proof (induction cap ops q arbitrary: p rule: queue_run.induct)
  case (2 cap r ops q)
  then obtain p' where "prefix_append cap None r p = (Inr (), p')" "holds_queue width (queue_append cap r q) p'"
    using holds_queue_append by (metis list.set_intros(1))
  with 2 show ?case by simp
next
  case (3 cap ops q)
  obtain p' where "prefix_next (\<lambda>_. False) True width p = (Inr (fst (queue_next q)), p')"
      "holds_queue width (snd (queue_next q)) p'"
    using holds_queue_next [OF 3(2,3)] by blast
  with 3 show ?case by simp
qed simp

text \<open>
  C27. On a disk that works the prefix of a preview is a queue: whatever the order of the rows that
  arrive and the rows that are read, each row comes back once, in order and unchanged, with its
  nulls and empty texts, until the limit of rows or bytes closes the queue for all later rows.
\<close>

theorem preview_prefix_is_a_queue:
  assumes "width \<le> usize_max" "\<forall>r. Append r \<in> set ops \<longrightarrow> row_fits width r"
  shows "prefix_run cap width ops prefix_new = map Inr (queue_run cap ops queue_new)"
  using assms by (intro prefix_run_queue) (simp_all add: holds_queue_def prefix_new_def queue_new_def)

theorem preview_prefix_is_a_queue_witness:
  "prefix_run length 2 [Append [None, Some []], Next, Append [Some ''x'', None], Next, Next] prefix_new
     = [Inr (Some [None, Some []]), Inr (Some [Some ''x'', None]), Inr None]"
proof -
  let ?ops = "[Append [None, Some []], Next, Append [Some ''x'', None], Next, Next]"
  have "prefix_run length 2 ?ops prefix_new = map Inr (queue_run length ?ops queue_new)"
    by (rule preview_prefix_is_a_queue) (auto simp: row_fits_def usize_max_def MAX_ROW_BYTES_def MIB_def utf8_ascii is_ascii_def byte_def)
  also have "queue_run length ?ops queue_new = [Some [None, Some []], Some [Some ''x'', None], None]"
    by (simp add: queue_append_def queue_next_def queue_new_def MAX_RESULT_ROWS_def MAX_RESULT_BYTES_def
        prefix_row_size_def size_of_cell_def)
  finally show ?thesis by simp
qed

end
