(* ===== verification/Segments.thy ===== *)
theory Segments
  imports Profiles Trino_Raw
begin

text \<open>
  Spooled Trino results: the descriptors of segments and their limits
  (\<open>src/connector/trino/spooling.rs\<close>) and the download and the acknowledgement of one segment
  (\<open>src/connector/trino/segment_download.rs\<close>).

  The JSON readers, the URL and header types of the client library, base64, LZ4 and the parser of
  times are parameters. A request to the storage is an event of a script: what the transport
  answered, the time, and whether the query was cancelled by then. The result of a download comes
  with the requests that it sent.
\<close>

section \<open>Descriptors\<close>

definition MAX_SEGMENT :: nat where "MAX_SEGMENT = 32 * 1024 * 1024"
definition MAX_SEGMENTS :: nat where "MAX_SEGMENTS = 1024"
definition MAX_METADATA :: nat where "MAX_METADATA = 2 * 1024 * 1024"

datatype segment_error =
    Large_Page | Bad_Page | Bad_Encoding | Many_Segments | Bad_Segments | Large_Metadata | Bad_Segment
  | Large_Segment | Unexpected_Compression | Bad_Expiry | Bad_Storage_Headers | Bad_Inline | No_Inline_Data
  | Unexpected_Inline | No_Uri | No_Ack_Uri | Unknown_Segment | Long_Uri | Bad_Uri | Unsafe_Uri | Expired_Uri
  | Segment_Cancelled | Transport_Failed | Segment_Late | Request_Failed | Redirect_Limit | Bad_Redirect
  | Long_Redirect | Http_Status nat | Size_Mismatch | Content_Encoding | Body_Late_Error | Body_Failed
  | Over_Declared | Ended_Early | Bad_Lz4 | Decoded_Mismatch | Bad_Segment_Json | Bad_Rows raw_error

datatype seg_encoding = Enc_Json | Enc_Lz4

definition encoding_parse :: "string \<Rightarrow> (segment_error, seg_encoding) result" where
  "encoding_parse v =
     (if v = ''json'' then Inr Enc_Json else if v = ''json+lz4'' then Inr Enc_Lz4 else Inl Bad_Encoding)"

text \<open>The members of a descriptor as JSON values; a missing member is \<open>None\<close>. Headers are a raw text.\<close>

record descriptor =
  ds_kind :: json
  ds_row_offset :: json
  ds_rows_count :: json
  ds_segment_size :: json
  ds_uncompressed :: "json option"
  ds_expires :: "json option"
  ds_data :: "json option"
  ds_uri :: "json option"
  ds_ack_uri :: "json option"
  ds_headers :: "string option"

type_synonym header_list = "(string \<times> string) list"

text \<open>The libraries. \<open>sl_page\<close> gives the encoding and the places of the segments up to the end or an error.\<close>

record 'u segment_library =
  sl_page :: "string \<Rightarrow> (string \<times> (nat \<times> nat) list \<times> bool) option"
  sl_descriptor :: "string \<Rightarrow> descriptor option"
  sl_header_object :: "string \<Rightarrow> (string \<times> json list) list option"
  sl_name_ok :: "string \<Rightarrow> bool"
  sl_value_ok :: "string \<Rightarrow> bool"
  sl_capacity :: "string \<Rightarrow> nat"
  sl_map_capacity :: "header_list \<Rightarrow> nat"
  sl_rfc3339 :: "string \<Rightarrow> int option"
  sl_local_time :: "string \<Rightarrow> string \<Rightarrow> bool"
  sl_parse :: "string \<Rightarrow> 'u option"
  sl_view :: "'u \<Rightarrow> url"
  sl_text :: "'u \<Rightarrow> string"
  sl_join :: "'u \<Rightarrow> string \<Rightarrow> 'u option"
  sl_origin :: "'u \<Rightarrow> string"
  sl_base64 :: "nat \<Rightarrow> string \<Rightarrow> string option"
  sl_lz4 :: "nat \<Rightarrow> string \<Rightarrow> string option"
  sl_json :: "string \<Rightarrow> string option"

datatype 'u seg_source = Inline string | Remote 'u

record 'u segment =
  sg_offset :: nat
  sg_rows :: nat
  sg_wire_size :: nat
  sg_decoded_size :: "nat option"
  sg_expiry :: "int option"
  sg_source :: "'u seg_source"
  sg_ack :: "'u option"
  sg_headers :: header_list
  sg_encoding :: seg_encoding

fun integer_of :: "json \<Rightarrow> nat option" where
  "integer_of (Number (Pos_Int n)) = Some n"
| "integer_of (Number (Neg_Int i)) = (if 0 \<le> i then Some (nat i) else None)"
| "integer_of (String v) =
     (if v = [] \<or> 20 < length v \<or> \<not> list_all is_ascii_digit v then None
      else if usize_max < digits_value 0 v then None else Some (digits_value 0 v))"
| "integer_of _ = None"

fun optional :: "(json \<Rightarrow> 'a option) \<Rightarrow> json option \<Rightarrow> 'a option option" where
  "optional f None = Some None"
| "optional f (Some Null) = Some None"
| "optional f (Some v) = map_option Some (f v)"

definition text_within :: "nat \<Rightarrow> json \<Rightarrow> string option" where
  "text_within limit v = (case bounded_text limit v of Inl _ \<Rightarrow> None | Inr t \<Rightarrow> Some t)"

definition bounded_segment_size :: "nat \<Rightarrow> (segment_error, nat) result" where
  "bounded_segment_size n = and_then (ensure (n \<le> MAX_SEGMENT) Large_Segment) (\<lambda>_. Inr n)"

definition parse_expiry :: "'u segment_library \<Rightarrow> string \<Rightarrow> (segment_error, int option) result" where
  "parse_expiry lib v =
     (case sl_rfc3339 lib v of
        Some at \<Rightarrow> Inr (Some at)
      | None \<Rightarrow>
          and_then (ensure (sl_local_time lib ''%Y-%m-%dT%H:%M:%S%.f'' v \<or> sl_local_time lib ''%Y-%m-%dT%H:%M'' v) Bad_Expiry)
            (\<lambda>_. Inr None))"

definition safe_url :: "url \<Rightarrow> bool" where
  "safe_url v \<longleftrightarrow>
     ur_scheme v = ''https'' \<and> ur_host v \<noteq> None \<and> ur_username v = [] \<and> ur_password v = None \<and> ur_fragment v = None"

definition resource :: "'u segment_library \<Rightarrow> string \<Rightarrow> (segment_error, 'u) result" where
  "resource lib v =
     and_then (ensure (length v \<le> 16384) Long_Uri) (\<lambda>_.
     and_then (ok_or Bad_Uri (sl_parse lib v)) (\<lambda>u.
     and_then (ensure (safe_url (sl_view lib u)) Unsafe_Uri) (\<lambda>_. Inr u)))"

section \<open>Storage headers\<close>

definition FORBIDDEN_HEADERS :: "string list" where
  "FORBIDDEN_HEADERS =
     [''authorization'', ''proxy-authorization'', ''proxy-authenticate'', ''cookie'', ''cookie2'', ''connection'',
      ''keep-alive'', ''te'', ''trailer'', ''transfer-encoding'', ''upgrade'', ''host'', ''content-length'',
      ''accept-encoding'', ''x-amz-security-token'']"

definition forbidden_header :: "string \<Rightarrow> bool" where
  "forbidden_header key \<longleftrightarrow> starts_with key ''x-trino-'' \<or> List.member FORBIDDEN_HEADERS key"

text \<open>The values of one name; every error of this part has one message.\<close>

fun header_values ::
  "'u segment_library \<Rightarrow> string \<Rightarrow> json list \<Rightarrow> header_list \<Rightarrow> nat \<Rightarrow> (header_list \<times> nat) option" where
  "header_values lib name [] hs bytes = Some (hs, bytes)"
| "header_values lib name (v # vs) hs bytes =
     (if length hs = 32 then None
      else
        (case text_within 32768 v of
           None \<Rightarrow> None
         | Some t \<Rightarrow>
             (let bytes = bytes + (length name + sl_capacity lib t)
              in if 32768 < bytes \<or> \<not> sl_value_ok lib t then None
                 else header_values lib name vs (hs @ [(name, t)]) bytes)))"

fun header_entries ::
  "'u segment_library \<Rightarrow> nat \<Rightarrow> (string \<times> json list) list \<Rightarrow> header_list \<Rightarrow> nat \<Rightarrow> header_list option" where
  "header_entries lib entries [] hs bytes = Some hs"
| "header_entries lib entries ((key, vs) # es) hs bytes =
     (if 32 < entries + 1 \<or> 256 < length key \<or> 32 \<le> length hs then None
      else
        (let name = map to_ascii_lower key
         in if forbidden_header name \<or> \<not> sl_name_ok lib name then None
            else
              (case header_values lib name vs hs bytes of
                 None \<Rightarrow> None
               | Some (hs, bytes) \<Rightarrow> header_entries lib (entries + 1) es hs bytes)))"

definition parse_headers :: "'u segment_library \<Rightarrow> string \<Rightarrow> (segment_error, header_list) result" where
  "parse_headers lib raw =
     ok_or Bad_Storage_Headers (Option.bind (sl_header_object lib raw) (\<lambda>es. header_entries lib 0 es [] 0))"

section \<open>Specifications and pages\<close>

definition and_none :: "'a option \<Rightarrow> ('a \<Rightarrow> ('e, 'b) result) \<Rightarrow> ('e, 'b option) result" where
  "and_none x f = (case x of None \<Rightarrow> Inr None | Some a \<Rightarrow> and_then (f a) (\<lambda>b. Inr (Some b)))"

definition segment_place ::
  "'u segment_library \<Rightarrow> string \<Rightarrow> string option \<Rightarrow> string option \<Rightarrow> string option \<Rightarrow> header_list
   \<Rightarrow> (segment_error, 'u seg_source \<times> 'u option) result" where
  "segment_place lib kind data uri ack headers =
     (if kind = ''inline'' then
        and_then (ensure (uri = None \<and> ack = None \<and> headers = []) Bad_Inline) (\<lambda>_.
        and_then (ok_or No_Inline_Data data) (\<lambda>t. Inr (Inline t, None)))
      else if kind = ''spooled'' then
        and_then (ensure (data = None) Unexpected_Inline) (\<lambda>_.
        and_then (ok_or No_Uri uri) (\<lambda>uri.
        and_then (resource lib uri) (\<lambda>source.
        and_then (ok_or No_Ack_Uri ack) (\<lambda>ack.
        and_then (resource lib ack) (\<lambda>ack. Inr (Remote source, Some ack))))))
      else Inl Unknown_Segment)"

text \<open>The members, with the limits of the JSON reader.\<close>

definition spec_members ::
  "'u segment_library \<Rightarrow> string
   \<Rightarrow> (string \<times> nat \<times> nat \<times> nat \<times> nat option \<times> string option \<times> string option \<times> string option \<times> string option
       \<times> string option) option" where
  "spec_members lib raw =
     Option.bind (sl_descriptor lib raw) (\<lambda>d.
     Option.bind (text_within 16 (ds_kind d)) (\<lambda>kind.
     Option.bind (integer_of (ds_row_offset d)) (\<lambda>offset.
     Option.bind (integer_of (ds_rows_count d)) (\<lambda>rows.
     Option.bind (integer_of (ds_segment_size d)) (\<lambda>wire.
     Option.bind (optional integer_of (ds_uncompressed d)) (\<lambda>decoded.
     Option.bind (optional (text_within 128) (ds_expires d)) (\<lambda>expires.
     Option.bind (optional as_str (ds_data d)) (\<lambda>data.
     Option.bind (optional (text_within 16384) (ds_uri d)) (\<lambda>uri.
     Option.bind (optional (text_within 16384) (ds_ack_uri d)) (\<lambda>acked.
       Some (kind, offset, rows, wire, decoded, expires, data, uri, acked, ds_headers d)))))))))))"

definition spec_parse :: "'u segment_library \<Rightarrow> seg_encoding \<Rightarrow> string \<Rightarrow> (segment_error, 'u segment) result" where
  "spec_parse lib encoding raw =
     and_then (ok_or Bad_Segment (spec_members lib raw))
     (\<lambda>(kind, offset, rows, wire, decoded, expires, data, uri, acked, raw_headers).
     and_then (bounded_segment_size wire) (\<lambda>wire.
     and_then (and_none decoded bounded_segment_size) (\<lambda>decoded.
     and_then (ensure (encoding = Enc_Lz4 \<or> decoded = None) Unexpected_Compression) (\<lambda>_.
     and_then (and_none expires (parse_expiry lib)) (\<lambda>expiry.
     and_then (case raw_headers of None \<Rightarrow> Inr [] | Some h \<Rightarrow> parse_headers lib h) (\<lambda>headers.
     and_then (segment_place lib kind data uri acked headers) (\<lambda>(source, acked).
       Inr \<lparr>sg_offset = offset, sg_rows = rows, sg_wire_size = wire, sg_decoded_size = decoded,
            sg_expiry = Option.bind expiry id, sg_source = source, sg_ack = acked, sg_headers = headers,
            sg_encoding = encoding\<rparr>)))))))"

definition spec_metadata_bytes :: "'u segment_library \<Rightarrow> 'u segment \<Rightarrow> nat" where
  "spec_metadata_bytes lib sg =
     (case sg_source sg of Remote u \<Rightarrow> 2 * length (sl_text lib u) | Inline _ \<Rightarrow> 0)
     + (case sg_ack sg of None \<Rightarrow> 0 | Some u \<Rightarrow> 2 * length (sl_text lib u))
     + sl_map_capacity lib (sg_headers sg) * 256
     + sum_list (map (\<lambda>(k, v). 2 * (length k + length v) + 256) (sg_headers sg)) + 512"

definition check_expiry :: "int \<Rightarrow> 'u segment \<Rightarrow> (segment_error, unit) result" where
  "check_expiry now sg = ensure (case sg_expiry sg of None \<Rightarrow> True | Some expiry \<Rightarrow> now < expiry) Expired_Uri"

record seg_page =
  sp_raw :: string
  sp_ranges :: "(nat \<times> nat) list"
  sp_encoding :: seg_encoding

definition segment_ranges :: "(nat \<times> nat) list \<Rightarrow> bool \<Rightarrow> (segment_error, (nat \<times> nat) list) result" where
  "segment_ranges rs ended =
     and_then (ensure (length rs \<le> MAX_SEGMENTS) Many_Segments) (\<lambda>_.
     and_then (ensure ended Bad_Segments) (\<lambda>_. Inr rs))"

fun metadata_loop ::
  "'u segment_library \<Rightarrow> seg_encoding \<Rightarrow> string \<Rightarrow> nat \<Rightarrow> (nat \<times> nat) list \<Rightarrow> (segment_error, unit) result" where
  "metadata_loop lib encoding raw metadata [] = Inr ()"
| "metadata_loop lib encoding raw metadata (r # rs) =
     and_then (spec_parse lib encoding (slice raw r)) (\<lambda>sg.
     and_then (ok_or Large_Metadata (checked_add metadata (spec_metadata_bytes lib sg))) (\<lambda>metadata.
     and_then (ensure (metadata \<le> MAX_METADATA) Large_Metadata) (\<lambda>_.
       metadata_loop lib encoding raw metadata rs)))"

definition page_new :: "'u segment_library \<Rightarrow> string \<Rightarrow> (segment_error, seg_page) result" where
  "page_new lib raw =
     and_then (ensure (length raw \<le> 16 * 1024 * 1024) Large_Page) (\<lambda>_.
     and_then (ok_or Bad_Page (sl_page lib raw)) (\<lambda>(name, rs, ended).
     and_then (encoding_parse name) (\<lambda>encoding.
     and_then (segment_ranges rs ended) (\<lambda>rs.
     and_then (metadata_loop lib encoding raw 0 rs) (\<lambda>_.
       Inr \<lparr>sp_raw = raw, sp_ranges = rs, sp_encoding = encoding\<rparr>)))))"

definition page_next ::
  "'u segment_library \<Rightarrow> seg_page \<Rightarrow> (segment_error, 'u segment option) result \<times> seg_page" where
  "page_next lib p =
     (case sp_ranges p of
        [] \<Rightarrow> (Inr None, p)
      | r # rs \<Rightarrow>
          (and_then (spec_parse lib (sp_encoding p) (slice (sp_raw p) r)) (\<lambda>sg. Inr (Some sg)), p\<lparr>sp_ranges := rs\<rparr>))"

definition page_is_empty :: "seg_page \<Rightarrow> bool" where
  "page_is_empty p \<longleftrightarrow> sp_ranges p = []"

section \<open>The download of a segment\<close>

text \<open>A failure carries whether another attempt may help.\<close>

type_synonym seg_failure = "segment_error \<times> bool"

datatype body_event = Body string | Body_Stopped | Body_Late | Body_Broken | Body_Aborted

record reply =
  ht_status :: nat
  ht_location :: "string option"
  ht_length :: "nat option"
  ht_encoding :: "string option"
  ht_body :: "body_event list"

datatype sending = Send_Failed | Send_Aborted | Sent reply

text \<open>One request: the cancellation and the time before it, whether the deadline has passed, the answer.\<close>

record hop =
  hp_stopped :: bool
  hp_now :: int
  hp_late :: bool
  hp_sending :: sending

definition terminal :: "(segment_error, 'a) result \<Rightarrow> (seg_failure, 'a) result" where
  "terminal r = (case r of Inl e \<Rightarrow> Inl (e, False) | Inr a \<Rightarrow> Inr a)"

definition exceeds :: "nat option \<Rightarrow> nat \<Rightarrow> nat \<Rightarrow> bool" where
  "exceeds exact held extra \<longleftrightarrow> (case exact of None \<Rightarrow> False | Some n \<Rightarrow> n - held < extra)"

fun read_body :: "nat option \<Rightarrow> nat \<Rightarrow> body_event list \<Rightarrow> string \<Rightarrow> (seg_failure, string) result" where
  "read_body exact max_bytes [] bytes =
     (if exact \<noteq> None \<and> exact \<noteq> Some (length bytes) then Inl (Ended_Early, True) else Inr bytes)"
| "read_body exact max_bytes (Body c # es) bytes =
     (if max_bytes - length bytes < length c \<or> exceeds exact (length bytes) (length c) then Inl (Over_Declared, False)
      else read_body exact max_bytes es (bytes @ c))"
| "read_body exact max_bytes (Body_Stopped # es) bytes = Inl (Segment_Cancelled, False)"
| "read_body exact max_bytes (Body_Late # es) bytes = Inl (Body_Late_Error, True)"
| "read_body exact max_bytes (Body_Broken # es) bytes = Inl (Body_Failed, True)"
| "read_body exact max_bytes (Body_Aborted # es) bytes = Inl (Segment_Cancelled, False)"

definition read_reply :: "nat option \<Rightarrow> nat \<Rightarrow> reply \<Rightarrow> (seg_failure, string) result" where
  "read_reply exact max_bytes r =
     (if \<not> (200 \<le> ht_status r \<and> ht_status r < 300)
      then Inl (Http_Status (ht_status r), List.member [408, 429, 500, 502, 503, 504] (ht_status r))
      else
        and_then (terminal (ensure
          (case ht_length r of None \<Rightarrow> True | Some n \<Rightarrow> n \<le> max_bytes \<and> (exact = None \<or> exact = Some n)) Size_Mismatch)) (\<lambda>_.
        and_then (terminal (ensure (ht_encoding r = None \<or> ht_encoding r = Some ''identity'') Content_Encoding)) (\<lambda>_.
          read_body exact max_bytes (ht_body r) [])))"

definition redirect_target ::
  "'u segment_library \<Rightarrow> 'u \<Rightarrow> reply \<Rightarrow> (segment_error, 'u) result" where
  "redirect_target lib u r =
     and_then (ok_or Bad_Redirect (ht_location r)) (\<lambda>location.
     and_then (ensure (length location \<le> 16384) Long_Redirect) (\<lambda>_.
     and_then (ok_or Bad_Redirect (sl_join lib u location)) (\<lambda>next. resource lib (sl_text lib next))))"

text \<open>
  The loop over redirects with the rest of them as \<open>left\<close>. \<open>hop\<close> gives the events of the request after
  which \<open>left\<close> redirects remain. The second part of the result is the requests in order.
\<close>

fun get_loop ::
  "'u segment_library \<Rightarrow> nat option \<Rightarrow> nat \<Rightarrow> 'u segment \<Rightarrow> (nat \<Rightarrow> hop) \<Rightarrow> nat \<Rightarrow> 'u \<Rightarrow> header_list
   \<Rightarrow> (seg_failure, string) result \<times> ('u \<times> header_list) list" where
  "get_loop lib exact max_bytes sg hop left u headers =
     (case and_then (ensure (\<not> hp_stopped (hop left)) Segment_Cancelled) (\<lambda>_. check_expiry (hp_now (hop left)) sg) of
        Inl e \<Rightarrow> (Inl (e, False), [])
      | Inr _ \<Rightarrow>
          if hp_late (hop left) then (Inl (Segment_Late, True), [])
          else
            (case hp_sending (hop left) of
               Send_Failed \<Rightarrow> (Inl (Request_Failed, True), [(u, headers)])
             | Send_Aborted \<Rightarrow> (Inl (Segment_Cancelled, False), [(u, headers)])
             | Sent r \<Rightarrow>
                 if List.member [301, 302, 303, 307, 308] (ht_status r) then
                   (case left of
                      0 \<Rightarrow> (Inl (Redirect_Limit, False), [(u, headers)])
                    | Suc left \<Rightarrow>
                        (case redirect_target lib u r of
                           Inl e \<Rightarrow> (Inl (e, False), [(u, headers)])
                         | Inr target \<Rightarrow>
                             (let (res, sent) = get_loop lib exact max_bytes sg hop left target
                                (if sl_origin lib u \<noteq> sl_origin lib target then [] else headers)
                              in (res, (u, headers) # sent))))
                 else (read_reply exact max_bytes r, [(u, headers)])))"

text \<open>\<open>start\<close>: the error of the runtime, the client or the transport before the first request.\<close>

definition get_segment ::
  "'u segment_library \<Rightarrow> nat option \<Rightarrow> nat \<Rightarrow> 'u segment \<Rightarrow> segment_error option \<Rightarrow> (nat \<Rightarrow> hop) \<Rightarrow> 'u
   \<Rightarrow> (seg_failure, string) result \<times> ('u \<times> header_list) list" where
  "get_segment lib exact max_bytes sg start hop u =
     (case start of Some e \<Rightarrow> (Inl (e, False), []) | None \<Rightarrow> get_loop lib exact max_bytes sg hop 2 u (sg_headers sg))"

definition segment_wire ::
  "'u segment_library \<Rightarrow> 'u segment \<Rightarrow> segment_error option \<Rightarrow> (nat \<Rightarrow> hop)
   \<Rightarrow> (seg_failure, string) result \<times> ('u \<times> header_list) list" where
  "segment_wire lib sg start hop =
     (case sg_source sg of
        Inline t \<Rightarrow>
          (terminal
            (and_then (ok_or Bad_Inline (sl_base64 lib (sg_wire_size sg) t)) (\<lambda>bytes.
             and_then (ensure (length bytes = sg_wire_size sg) Size_Mismatch) (\<lambda>_. Inr bytes))), [])
      | Remote u \<Rightarrow> get_segment lib (Some (sg_wire_size sg)) MAX_SEGMENT sg start hop u)"

definition segment_decode :: "'u segment_library \<Rightarrow> 'u segment \<Rightarrow> string \<Rightarrow> (segment_error, string) result" where
  "segment_decode lib sg wire =
     (if sg_encoding sg = Enc_Lz4 \<and> sg_decoded_size sg \<noteq> None then
        (let n = the (sg_decoded_size sg) in
         and_then (ok_or Bad_Lz4 (sl_lz4 lib n wire)) (\<lambda>out.
         and_then (ensure (length out = n) Decoded_Mismatch) (\<lambda>_. Inr out)))
      else Inr wire)"

definition segment_json :: "'u segment_library \<Rightarrow> string \<Rightarrow> (segment_error, raw_rows) result" where
  "segment_json lib bytes =
     and_then (ok_or Bad_Segment_Json (sl_json lib bytes)) (\<lambda>v.
     case raw_rows_new v of Inl e \<Rightarrow> Inl (Bad_Rows e) | Inr rows \<Rightarrow> Inr rows)"

text \<open>\<open>stopped i\<close>: the check of the cancellation at the start, after the download and after the decoding.\<close>

definition attempt ::
  "'u segment_library \<Rightarrow> (nat \<Rightarrow> bool) \<Rightarrow> int \<Rightarrow> segment_error option \<Rightarrow> (nat \<Rightarrow> hop) \<Rightarrow> 'u segment
   \<Rightarrow> (seg_failure, raw_rows) result \<times> ('u \<times> header_list) list" where
  "attempt lib stopped now start hop sg =
     (let live = (\<lambda>i. ensure (\<not> stopped i) Segment_Cancelled) in
      case and_then (live 0) (\<lambda>_. check_expiry now sg) of
        Inl e \<Rightarrow> (Inl (e, False), [])
      | Inr _ \<Rightarrow>
          (let (wire, sent) = segment_wire lib sg start hop in
           (and_then wire (\<lambda>wire. terminal
              (and_then (live 1) (\<lambda>_.
               and_then (segment_decode lib sg wire) (\<lambda>bytes.
               and_then (live 2) (\<lambda>_. segment_json lib bytes))))), sent)))"

declare get_loop.simps [simp del]

section \<open>The acknowledgement\<close>

text \<open>
  One round: the check before it, the delay before a repetition with the check after a delay that
  ended early, the request, the check after the answer and whether the deadline has passed.
\<close>

record ack_round =
  ak_stopped :: bool
  ak_delayed :: bool
  ak_stopped_delay :: bool
  ak_start :: "segment_error option"
  ak_hop :: "nat \<Rightarrow> hop"
  ak_stopped_after :: bool
  ak_late :: bool

fun ack_loop ::
  "'u segment_library \<Rightarrow> 'u segment \<Rightarrow> 'u \<Rightarrow> (nat \<Rightarrow> ack_round) \<Rightarrow> nat
   \<Rightarrow> (segment_error, bool) result \<times> ('u \<times> header_list) list list" where
  "ack_loop lib sg u round 0 = (Inr False, [])"
| "ack_loop lib sg u round (Suc left) =
     (let k = round left in
      if ak_stopped k then (Inl Segment_Cancelled, [])
      else if left < 2 \<and> \<not> ak_delayed k
      then (and_then (ensure (\<not> ak_stopped_delay k) Segment_Cancelled) (\<lambda>_. Inr False), [])
      else
        (let (answer, sent) = get_segment lib None 8192 sg (ak_start k) (ak_hop k) u in
         if ak_stopped_after k then (Inl Segment_Cancelled, [sent])
         else
           (case answer of
              Inr _ \<Rightarrow> (Inr True, [sent])
            | Inl (e, retryable) \<Rightarrow>
                if \<not> retryable \<or> ak_late k then (Inr False, [sent])
                else (let (res, rest) = ack_loop lib sg u round left in (res, sent # rest)))))"

definition ack ::
  "'u segment_library \<Rightarrow> bool \<Rightarrow> segment_error option \<Rightarrow> (nat \<Rightarrow> ack_round) \<Rightarrow> 'u segment
   \<Rightarrow> (segment_error, bool) result \<times> ('u \<times> header_list) list list" where
  "ack lib stopped activity round sg =
     (if stopped then (Inl Segment_Cancelled, [])
      else
        (case sg_ack sg of
           None \<Rightarrow> (Inr True, [])
         | Some u \<Rightarrow> (case activity of Some e \<Rightarrow> (Inl e, []) | None \<Rightarrow> ack_loop lib sg u round 3)))"

section \<open>The limits of a specification\<close>

text \<open>
  What a storage header must not be, in any case of its letters: a credential, one of the headers of
  the coordinator's protocol, or one that changes where a request goes or where it ends.
\<close>

definition credential_header :: "string \<Rightarrow> bool" where
  "credential_header n \<longleftrightarrow>
     map to_ascii_lower n \<in> {''authorization'', ''proxy-authorization'', ''cookie'', ''cookie2'', ''x-amz-security-token'',
       ''host'', ''content-length'', ''transfer-encoding''}
     \<or> take 8 (map to_ascii_lower n) = ''x-trino-''"

lemma to_ascii_lower_twice [simp]: "map to_ascii_lower (map to_ascii_lower n) = map to_ascii_lower n"
  by (simp add: to_ascii_lower_def is_ascii_upper_def)

lemma forbidden_credentials: "credential_header (map to_ascii_lower n) \<Longrightarrow> forbidden_header (map to_ascii_lower n)"
  unfolding credential_header_def to_ascii_lower_twice
proof (elim disjE)
  assume "take 8 (map to_ascii_lower n) = ''x-trino-''"
  then have "map to_ascii_lower n = ''x-trino-'' @ drop 8 (map to_ascii_lower n)"
    using append_take_drop_id [of 8 "map to_ascii_lower n"] by simp
  then have "starts_with (map to_ascii_lower n) ''x-trino-''" by (metis starts_with_append)
  then show ?thesis by (simp add: forbidden_header_def)
qed (auto simp: forbidden_header_def FORBIDDEN_HEADERS_def)

definition storage_headers_ok :: "'u segment_library \<Rightarrow> header_list \<Rightarrow> bool" where
  "storage_headers_ok lib hs \<longleftrightarrow>
     length hs \<le> 32 \<and> (\<forall>(n, v) \<in> set hs. \<not> credential_header n \<and> sl_value_ok lib v)
     \<and> sum_list (map (\<lambda>(n, v). length n + sl_capacity lib v) hs) \<le> 32768"

lemma storage_headers_ok_Nil [simp]: "storage_headers_ok lib []"
  by (simp add: storage_headers_ok_def)

lemma header_values_ok:
  assumes "header_values lib name vs hs bytes = Some (hs', bytes')" "storage_headers_ok lib hs" "\<not> credential_header name"
    "sum_list (map (\<lambda>(n, v). length n + sl_capacity lib v) hs) = bytes"
  shows "storage_headers_ok lib hs' \<and> sum_list (map (\<lambda>(n, v). length n + sl_capacity lib v) hs') = bytes'"
  using assms
proof (induction lib name vs hs bytes rule: header_values.induct)
  case (2 lib name v vs hs bytes)
  then obtain t where t: "text_within 32768 v = Some t" "length hs \<noteq> 32" "bytes + (length name + sl_capacity lib t) \<le> 32768"
      "sl_value_ok lib t"
      "header_values lib name vs (hs @ [(name, t)]) (bytes + (length name + sl_capacity lib t)) = Some (hs', bytes')"
    by (auto simp: Let_def split: if_splits option.splits)
  have "storage_headers_ok lib (hs @ [(name, t)])"
    using 2(3-5) t(2-4) by (auto simp: storage_headers_ok_def)
  then show ?case using 2(1) [OF t(2,1) refl] t 2(4,5) by simp
qed simp

lemma header_entries_ok:
  assumes "header_entries lib entries es hs bytes = Some hs'" "storage_headers_ok lib hs"
    "sum_list (map (\<lambda>(n, v). length n + sl_capacity lib v) hs) = bytes"
  shows "storage_headers_ok lib hs'"
  using assms
proof (induction lib entries es hs bytes rule: header_entries.induct)
  case (2 lib entries key vs es hs bytes)
  then obtain hs1 bytes1 where 1: "\<not> forbidden_header (map to_ascii_lower key)"
      "header_values lib (map to_ascii_lower key) vs hs bytes = Some (hs1, bytes1)"
      "header_entries lib (entries + 1) es hs1 bytes1 = Some hs'"
      "\<not> (32 < entries + 1 \<or> 256 < length key \<or> 32 \<le> length hs)" "sl_name_ok lib (map to_ascii_lower key)"
    by (auto simp: Let_def split: if_splits option.splits)
  from 1(1) have "\<not> credential_header (map to_ascii_lower key)" using forbidden_credentials by blast
  from header_values_ok [OF 1(2) 2(3) this 2(4)] have "storage_headers_ok lib hs1"
      "sum_list (map (\<lambda>(n, v). length n + sl_capacity lib v) hs1) = bytes1" by simp_all
  with 2(1) [OF 1(4) refl _ 1(2) refl] 1 show ?case by simp
qed simp

lemma parse_headers_ok: "parse_headers lib raw = Inr hs \<Longrightarrow> storage_headers_ok lib hs"
  by (auto simp: parse_headers_def ok_or_Inr_iff bind_eq_Some_conv intro: header_entries_ok)

lemma resource_Inr: "resource lib v = Inr u \<Longrightarrow> safe_url (sl_view lib u)"
  by (auto simp: resource_def and_then_Inr_iff)

lemma and_none_Inr: "and_none x f = Inr y \<longleftrightarrow> (case x of None \<Rightarrow> y = None | Some a \<Rightarrow> \<exists>b. f a = Inr b \<and> y = Some b)"
  by (auto simp: and_none_def and_then_Inr_iff split: option.split)

lemma bounded_segment_size_Inr: "bounded_segment_size n = Inr m \<longleftrightarrow> m = n \<and> n \<le> MAX_SEGMENT"
  by (auto simp: bounded_segment_size_def and_then_Inr_iff)

definition source_ok :: "'u segment_library \<Rightarrow> header_list \<Rightarrow> 'u seg_source \<Rightarrow> 'u option \<Rightarrow> bool" where
  "source_ok lib hs source acked \<longleftrightarrow>
     (case source of Inline _ \<Rightarrow> hs = [] \<and> acked = None
      | Remote u \<Rightarrow> safe_url (sl_view lib u) \<and> (\<exists>a. acked = Some a \<and> safe_url (sl_view lib a)))"

lemma segment_place_Inr: "segment_place lib kind data uri a hs = Inr (source, acked) \<Longrightarrow> source_ok lib hs source acked"
  by (auto simp: segment_place_def and_then_Inr_iff source_ok_def split: if_splits dest: resource_Inr)

definition segment_ok :: "'u segment_library \<Rightarrow> 'u segment \<Rightarrow> bool" where
  "segment_ok lib sg \<longleftrightarrow>
     sg_wire_size sg \<le> MAX_SEGMENT \<and> (\<forall>n. sg_decoded_size sg = Some n \<longrightarrow> n \<le> MAX_SEGMENT)
     \<and> storage_headers_ok lib (sg_headers sg) \<and> source_ok lib (sg_headers sg) (sg_source sg) (sg_ack sg)"

lemma and_none_bounded: "and_none x bounded_segment_size = Inr y \<Longrightarrow> (\<forall>n. y = Some n \<longrightarrow> n \<le> MAX_SEGMENT)"
  by (auto simp: and_none_Inr bounded_segment_size_Inr split: option.splits)

lemma spec_parse_ok:
  assumes "spec_parse lib encoding raw = Inr sg"
  shows "segment_ok lib sg"
proof -
  obtain kind offset rows wire decoded expires data uri acked raw_headers where
    m: "spec_members lib raw = Some (kind, offset, rows, wire, decoded, expires, data, uri, acked, raw_headers)"
    using assms by (auto simp: spec_parse_def and_then_Inr_iff ok_or_Inr_iff)
  from assms obtain decoded' headers source acked' where
    "wire \<le> MAX_SEGMENT" "and_none decoded bounded_segment_size = Inr decoded'"
    "(case raw_headers of None \<Rightarrow> Inr [] | Some h \<Rightarrow> parse_headers lib h) = Inr headers"
    "segment_place lib kind data uri acked headers = Inr (source, acked')"
    "sg_wire_size sg = wire" "sg_decoded_size sg = decoded'" "sg_headers sg = headers" "sg_source sg = source" "sg_ack sg = acked'"
    unfolding spec_parse_def m by (auto simp: and_then_Inr_iff bounded_segment_size_Inr)
  then show ?thesis
    by (auto simp: segment_ok_def dest: segment_place_Inr parse_headers_ok and_none_bounded split: option.splits)
qed

text \<open>What a page accepts, it gives: reading on cannot fail.\<close>

lemma metadata_loop_Inr: "metadata_loop lib encoding raw metadata rs = Inr () \<Longrightarrow> r \<in> set rs \<Longrightarrow>
    \<exists>sg. spec_parse lib encoding (slice raw r) = Inr sg"
  by (induction rs arbitrary: metadata) (auto simp: and_then_Inr_iff)

lemma page_next_gives:
  assumes "page_new lib raw = Inr p" "r \<in> set (sp_ranges p)"
  shows "\<exists>sg. spec_parse lib (sp_encoding p) (slice (sp_raw p) r) = Inr sg \<and> segment_ok lib sg"
  using assms by (auto simp: page_new_def and_then_Inr_iff dest!: metadata_loop_Inr intro: spec_parse_ok)

section \<open>Requests\<close>

lemma read_body_Inr:
  assumes "read_body exact max_bytes es bytes = Inr out" "length bytes \<le> max_bytes"
  shows "length out \<le> max_bytes \<and> (\<forall>n. exact = Some n \<longrightarrow> length out = n)"
  using assms by (induction exact max_bytes es bytes rule: read_body.induct) (auto split: if_splits)

lemma terminal_Inr [simp]: "terminal r = Inr a \<longleftrightarrow> r = Inr a"
  by (cases r) (simp_all add: terminal_def)

lemma read_reply_Inr:
  "read_reply exact max_bytes r = Inr out \<Longrightarrow> length out \<le> max_bytes \<and> (\<forall>n. exact = Some n \<longrightarrow> length out = n)"
  using read_body_Inr [of exact max_bytes "ht_body r" "[]" out] by (auto simp: read_reply_def and_then_Inr_iff split: if_splits)

definition guarded :: "'u segment_library \<Rightarrow> 'u \<Rightarrow> header_list \<Rightarrow> ('u \<times> header_list) list \<Rightarrow> bool" where
  "guarded lib u hs sent \<longleftrightarrow>
     (\<forall>i < length sent. safe_url (sl_view lib (fst (sent ! i)))
        \<and> (snd (sent ! i) \<noteq> [] \<longrightarrow>
             snd (sent ! i) = hs \<and> (\<forall>j \<le> i. sl_origin lib (fst (sent ! j)) = sl_origin lib u)))"

lemma guarded_Nil [simp]: "guarded lib u hs []"
  by (simp add: guarded_def)

lemma guarded_Cons:
  assumes "safe_url (sl_view lib u)" "guarded lib t (if sl_origin lib u \<noteq> sl_origin lib t then [] else hs) sent"
  shows "guarded lib u hs ((u, hs) # sent)"
  unfolding guarded_def
proof (intro allI impI)
  fix i assume i: "i < length ((u, hs) # sent)"
  show "safe_url (sl_view lib (fst (((u, hs) # sent) ! i))) \<and> (snd (((u, hs) # sent) ! i) \<noteq> [] \<longrightarrow>
      snd (((u, hs) # sent) ! i) = hs \<and> (\<forall>j \<le> i. sl_origin lib (fst (((u, hs) # sent) ! j)) = sl_origin lib u))"
  proof (cases i)
    case 0
    then show ?thesis using assms(1) by simp
  next
    case (Suc k)
    have "sl_origin lib (fst (((u, hs) # sent) ! j)) = sl_origin lib u" if "j \<le> Suc k" "snd (sent ! k) \<noteq> []" for j
      using that assms(2) i Suc by (cases j) (auto simp: guarded_def split: if_splits)
    then show ?thesis using assms(2) i Suc by (auto simp: guarded_def split: if_splits)
  qed
qed

lemma get_loop_cases:
  assumes "get_loop lib exact max_bytes sg hop left u hs = (res, sent)"
  obtains e where "sent = []" "res = Inl e"
    | "sent = [(u, hs)]" "\<forall>out. res = Inr out \<longrightarrow> (\<exists>r. read_reply exact max_bytes r = Inr out)"
    | k r t sent' where "left = Suc k" "redirect_target lib u r = Inr t" "sent = (u, hs) # sent'"
      "get_loop lib exact max_bytes sg hop k t (if sl_origin lib u \<noteq> sl_origin lib t then [] else hs) = (res, sent')"
  using assms
  by (subst (asm) (2) get_loop.simps) (auto simp: Let_def split: sum.splits if_splits sending.splits nat.splits prod.splits)

lemma redirect_target_Inr: "redirect_target lib u r = Inr t \<Longrightarrow> safe_url (sl_view lib t)"
  by (auto simp: redirect_target_def and_then_Inr_iff dest: resource_Inr)

lemma guarded_one: "safe_url (sl_view lib u) \<Longrightarrow> guarded lib u hs [(u, hs)]"
  using guarded_Cons [of lib u u hs "[]"] by simp

lemma get_loop_guarded:
  assumes "get_loop lib exact max_bytes sg hop left u hs = (res, sent)" "safe_url (sl_view lib u)"
  shows "guarded lib u hs sent \<and> length sent \<le> Suc left
    \<and> (\<forall>out. res = Inr out \<longrightarrow> length out \<le> max_bytes \<and> (\<forall>n. exact = Some n \<longrightarrow> length out = n))"
  using assms
proof (induction left arbitrary: u hs sent)
  case 0
  from 0(1) show ?case by (cases rule: get_loop_cases) (auto simp: guarded_one [OF 0(2)] dest: read_reply_Inr)
next
  case (Suc left)
  from Suc.prems(1) show ?case
  proof (cases rule: get_loop_cases)
    case (3 k r t sent')
    with Suc.IH [of t _ sent'] redirect_target_Inr guarded_Cons [OF Suc.prems(2)] show ?thesis by fastforce
  qed (auto simp: guarded_one [OF Suc.prems(2)] dest: read_reply_Inr)
qed

lemma get_segment_guarded:
  assumes "get_segment lib exact max_bytes sg start hop u = (res, sent)" "safe_url (sl_view lib u)"
  shows "guarded lib u (sg_headers sg) sent \<and> length sent \<le> 3
    \<and> (\<forall>out. res = Inr out \<longrightarrow> length out \<le> max_bytes \<and> (\<forall>n. exact = Some n \<longrightarrow> length out = n))"
  using assms get_loop_guarded [of lib exact max_bytes sg hop 2 u "sg_headers sg" res sent]
  by (auto simp: get_segment_def split: option.splits)

lemma ack_loop_guarded:
  assumes "ack_loop lib sg u round n = (res, sent)" "safe_url (sl_view lib u)"
  shows "length sent \<le> n \<and> (\<forall>s \<in> set sent. guarded lib u (sg_headers sg) s \<and> length s \<le> 3)"
  using assms
proof (induction n arbitrary: res sent)
  case (Suc n)
  obtain answer s where s: "get_segment lib None 8192 sg (ak_start (round n)) (ak_hop (round n)) u = (answer, s)" by fastforce
  obtain res' sent' where rest: "ack_loop lib sg u round n = (res', sent')" by fastforce
  from Suc.prems(1) s rest have "sent = [] \<or> sent = [s] \<or> sent = s # sent'"
    by (auto simp: Let_def split: if_splits sum.splits)
  with get_segment_guarded [OF s Suc.prems(2)] Suc.IH [OF rest Suc.prems(2)] show ?case by fastforce
qed simp

lemma ack_guarded:
  assumes "segment_ok lib sg" "ack lib stopped activity round sg = (res, sent)"
  shows "length sent \<le> 3
    \<and> (\<forall>s \<in> set sent. length s \<le> 3 \<and> (\<exists>u. sg_ack sg = Some u \<and> guarded lib u (sg_headers sg) s))"
proof (cases "sg_ack sg")
  case (Some u)
  with assms(1) have "safe_url (sl_view lib u)"
    by (auto simp: segment_ok_def source_ok_def split: seg_source.splits)
  with assms(2) Some ack_loop_guarded [of lib sg u round 3 res sent] show ?thesis
    by (auto simp: ack_def split: if_splits option.splits)
qed (use assms(2) in \<open>auto simp: ack_def split: if_splits\<close>)

lemma segment_wire_guarded:
  assumes "segment_ok lib sg" "segment_wire lib sg start hop = (res, sent)"
  shows "length sent \<le> 3 \<and> (sent \<noteq> [] \<longrightarrow> (\<exists>u. sg_source sg = Remote u \<and> guarded lib u (sg_headers sg) sent))
    \<and> (\<forall>wire. res = Inr wire \<longrightarrow> length wire = sg_wire_size sg)"
proof (cases "sg_source sg")
  case (Remote u)
  with assms(1) have "safe_url (sl_view lib u)" by (simp add: segment_ok_def source_ok_def)
  with assms(2) Remote get_segment_guarded [of lib "Some (sg_wire_size sg)" MAX_SEGMENT sg start hop u res sent]
  show ?thesis by (auto simp: segment_wire_def)
qed (use assms(2) in \<open>auto simp: segment_wire_def and_then_Inr_iff\<close>)

lemma segment_decode_size:
  "segment_decode lib sg wire = Inr bytes \<Longrightarrow> segment_ok lib sg \<Longrightarrow> length wire = sg_wire_size sg \<Longrightarrow>
     length bytes \<le> MAX_SEGMENT"
  by (auto simp: segment_decode_def segment_ok_def Let_def and_then_Inr_iff split: if_splits)

text \<open>
  C34. The requests for a segment that a page accepted: at most three for one attempt at its download,
  and for its acknowledgement at most three rounds of at most three, each over HTTPS without user
  information or a fragment. In an attempt the storage headers are sent only while every request so
  far went to the origin of the URI of the segment, and in a round of the acknowledgement only while
  every request so far went to the origin of its acknowledgement URI, which the coordinator chose and
  which may be another one: a redirect elsewhere goes on without them, also when it leads back. They
  are never a credential, a header of the coordinator's protocol or a framing header, whatever the
  case of their letters. The rows of a segment come from a body of exactly the declared size, decoded
  within the limit.
\<close>

theorem segment_requests_keep_their_headers:
  assumes "spec_parse lib encoding raw = Inr sg"
    and "attempt lib stopped now start hop sg = (res, sent)"
    and "ack lib halted activity round sg = (answer, acks)"
  shows "length sent \<le> 3 \<and> (sent \<noteq> [] \<longrightarrow> (\<exists>u. sg_source sg = Remote u \<and> guarded lib u (sg_headers sg) sent))
    \<and> length acks \<le> 3
    \<and> (\<forall>s \<in> set acks. length s \<le> 3 \<and> (\<exists>u. sg_ack sg = Some u \<and> guarded lib u (sg_headers sg) s))
    \<and> (\<forall>(n, v) \<in> set (sg_headers sg). \<not> credential_header n)
    \<and> (\<forall>rows. res = Inr rows \<longrightarrow>
         (\<exists>wire bytes. fst (segment_wire lib sg start hop) = Inr wire \<and> length wire = sg_wire_size sg
            \<and> segment_decode lib sg wire = Inr bytes \<and> length bytes \<le> MAX_SEGMENT
            \<and> segment_json lib bytes = Inr rows))"
proof -
  have ok: "segment_ok lib sg" using assms(1) by (rule spec_parse_ok)
  obtain wire asked where wire: "segment_wire lib sg start hop = (wire, asked)" by fastforce
  note w = segment_wire_guarded [OF ok wire]
  have "sent = [] \<or> sent = asked" using assms(2) wire by (auto simp: attempt_def Let_def split: sum.splits)
  moreover have "\<exists>b. wire = Inr b \<and> (\<exists>bytes. segment_decode lib sg b = Inr bytes \<and> segment_json lib bytes = Inr rows)"
    if "res = Inr rows" for rows
    using assms(2) wire that by (auto simp: attempt_def Let_def and_then_Inr_iff split: sum.splits)
  moreover have "\<forall>(n, v) \<in> set (sg_headers sg). \<not> credential_header n"
    using ok by (auto simp: segment_ok_def storage_headers_ok_def)
  ultimately show ?thesis
    using w ack_guarded [OF ok assms(3)] segment_decode_size [OF _ ok] by (fastforce simp: wire)
qed

text \<open>A segment whose storage redirects to another host.\<close>

definition sample_library :: "string segment_library" where
  "sample_library =
     \<lparr>sl_page = (\<lambda>_. None),
      sl_descriptor = (\<lambda>_. Some \<lparr>ds_kind = String ''spooled'', ds_row_offset = Number (Pos_Int 0),
         ds_rows_count = String ''1'', ds_segment_size = Number (Pos_Int 5), ds_uncompressed = None, ds_expires = None,
         ds_data = None, ds_uri = Some (String ''https://a/1''), ds_ack_uri = Some (String ''https://t/1''),
         ds_headers = Some ''h''\<rparr>),
      sl_header_object = (\<lambda>_. Some [(''X-Key'', [String ''k''])]), sl_name_ok = (\<lambda>_. True), sl_value_ok = (\<lambda>_. True),
      sl_capacity = length, sl_map_capacity = (\<lambda>_. 32), sl_rfc3339 = (\<lambda>_. None), sl_local_time = (\<lambda>_ _. False),
      sl_parse = (\<lambda>t. Some t),
      sl_view = (\<lambda>t. \<lparr>ur_scheme = takeWhile (\<lambda>c. c \<noteq> CHR '':'') t, ur_host = Some (drop 8 t), ur_query = None,
         ur_fragment = None, ur_username = [], ur_password = None\<rparr>),
      sl_text = (\<lambda>t. t), sl_join = (\<lambda>_ l. Some l), sl_origin = take 9, sl_base64 = (\<lambda>_ _. None),
      sl_lz4 = (\<lambda>_ _. None), sl_json = (\<lambda>t. Some t)\<rparr>"

definition sample_reply :: "nat \<Rightarrow> string option \<Rightarrow> body_event list \<Rightarrow> hop" where
  "sample_reply status location body =
     \<lparr>hp_stopped = False, hp_now = 0, hp_late = False,
      hp_sending = Sent \<lparr>ht_status = status, ht_location = location, ht_length = None, ht_encoding = None, ht_body = body\<rparr>\<rparr>"

definition sample_hops :: "nat \<Rightarrow> hop" where
  "sample_hops n =
     (if n = 2 then sample_reply 302 (Some ''https://b/1'') [] else sample_reply 200 None [Body ''[[1'', Body '']]''])"

definition sample_round :: "nat \<Rightarrow> ack_round" where
  "sample_round n =
     \<lparr>ak_stopped = False, ak_delayed = True, ak_stopped_delay = False, ak_start = None,
      ak_hop = (\<lambda>_. if n = 2 then sample_reply 503 None [] else sample_reply 200 None []),
      ak_stopped_after = False, ak_late = False\<rparr>"

definition sample_segment :: "string segment" where
  "sample_segment = (case spec_parse sample_library Enc_Json [] of Inr sg \<Rightarrow> sg)"

lemma sample_segment_runs:
  "spec_parse sample_library Enc_Json [] = Inr sample_segment"
  "attempt sample_library (\<lambda>_. False) 0 None sample_hops sample_segment
     = (Inr \<lparr>rr_text = ''[[1]]'', rr_offset = 1\<rparr>,
        [(''https://a/1'', [(''x-key'', ''k'')]), (''https://b/1'', [])])"
  "ack sample_library False None sample_round sample_segment
     = (Inr True, [[(''https://t/1'', [(''x-key'', ''k'')])], [(''https://t/1'', [(''x-key'', ''k'')])]])"
  by code_simp+

theorem segment_requests_keep_their_headers_witness:
  "guarded sample_library ''https://a/1'' [(''x-key'', ''k'')]
     [(''https://a/1'', [(''x-key'', ''k'')]), (''https://b/1'', [])]"
proof -
  have fields: "sg_source sample_segment = Remote ''https://a/1''" "sg_headers sample_segment = [(''x-key'', ''k'')]"
    by code_simp+
  from segment_requests_keep_their_headers [OF sample_segment_runs] show ?thesis by (simp add: fields)
qed

end
