(* ===== verification/Segment_Reader.thy ===== *)
theory Segment_Reader
  imports Segments "HOL-Library.Multiset"
begin

text \<open>
  The reader of spooled Trino results (\<open>src/connector/trino/segment_reader.rs\<close>) with its helper
  threads (\<open>src/connector/trino/segment_threads.rs\<close>): segments are admitted in the order of the server
  into one or two slots, each is downloaded by a thread of its own, and the fetch thread gives their
  rows in order, waits for the commit of each batch and acknowledges a segment after its last one.

  What the threads, the clock and the cancellation do is an environment: the result of a thread by
  its segment and number, and the rest by a tick that every check of the cancellation advances.
  \<open>rd_acks\<close> is what the storage sees of the acknowledgements: each call of \<open>Control::ack\<close> with its
  segment and the requests that it sent, whether or not it succeeded.
\<close>

section \<open>State\<close>

datatype reader_error =
    Reader_Cancelled | Unread_Page | Changed_Encoding | Slot_Limit | Offset_Mismatch | Row_Overflow
  | Thread_Limit | Activity_Limit | Thread_Overflow | Spawn_Failed | Worker_Stopped | Worker_Panicked | Worker_Late
  | Awaiting_Commit | Fewer_Rows | More_Rows | Nothing_Awaited | Count_Mismatch | Missing_Segment
  | Commit_Overflow | Uncommitted_Rows | Segment_Error segment_error | Row_Error raw_error | Size_Error budget_error

record segment_threads =
  ts_next :: nat
  ts_handles :: "nat list"

record 'u segment_job =
  jb_spec :: "'u segment"
  jb_thread :: nat
  jb_attempts :: nat

record 'u current =
  cu_spec :: "'u segment"
  cu_decoded :: raw_rows
  cu_emitted :: nat
  cu_committed :: nat
  cu_pending :: "row option"

record batch_commit =
  cm_rows :: nat
  cm_boundary :: bool

record 'u reader =
  rd_page :: "seg_page option"
  rd_encoding :: "seg_encoding option"
  rd_parallel :: bool
  rd_jobs :: "'u segment_job list"
  rd_current :: "'u current option"
  rd_awaiting :: "batch_commit option"
  rd_offset :: nat
  rd_ack_failures :: nat
  rd_acks :: "('u segment \<times> ('u \<times> header_list) list list) list"
  rd_threads :: segment_threads
  rd_tick :: nat

datatype join_result = Joined | Join_Panicked | Join_Stopped | Join_Late

text \<open>\<open>rn_polls\<close>: how often the fetch thread polls the result of a thread before it arrives.\<close>

record 'u reader_env =
  rn_library :: "'u segment_library"
  rn_json :: raw_json
  rn_capacities :: capacities
  rn_row_capacity :: "nat \<Rightarrow> nat"
  rn_stopped :: "nat \<Rightarrow> bool"
  rn_now :: "nat \<Rightarrow> int"
  rn_activity :: "nat \<Rightarrow> bool"
  rn_spawns :: "nat \<Rightarrow> bool"
  rn_polls :: "nat \<Rightarrow> nat"
  rn_result :: "'u segment \<Rightarrow> nat \<Rightarrow> (seg_failure, raw_rows) result option"
  rn_join :: "nat \<Rightarrow> join_result"
  rn_ack :: "nat \<Rightarrow> bool \<times> segment_error option \<times> (nat \<Rightarrow> ack_round)"

section \<open>Steps that may fail\<close>

definition act_bind ::
  "('s \<Rightarrow> ('e, 'a) result \<times> 's) \<Rightarrow> ('a \<Rightarrow> 's \<Rightarrow> ('e, 'b) result \<times> 's) \<Rightarrow> 's \<Rightarrow> ('e, 'b) result \<times> 's" where
  "act_bind m f s = (case m s of (Inl e, s) \<Rightarrow> (Inl e, s) | (Inr a, s) \<Rightarrow> f a s)"

definition act_return :: "'a \<Rightarrow> 's \<Rightarrow> ('e, 'a) result \<times> 's" where
  "act_return a s = (Inr a, s)"

definition act_lift :: "('e, 'a) result \<Rightarrow> 's \<Rightarrow> ('e, 'a) result \<times> 's" where
  "act_lift r s = (r, s)"

definition act_set :: "('s \<Rightarrow> 's) \<Rightarrow> 's \<Rightarrow> ('e, unit) result \<times> 's" where
  "act_set f s = (Inr (), f s)"

lemma act_bind_Inr: "act_bind m f s = (Inr b, s') \<longleftrightarrow> (\<exists>a s1. m s = (Inr a, s1) \<and> f a s1 = (Inr b, s'))"
  by (auto simp: act_bind_def split: prod.splits sum.splits)

lemma act_simps [simp]:
  "act_return a s = (Inr b, s') \<longleftrightarrow> b = a \<and> s' = s"
  "act_lift r s = (Inr b, s') \<longleftrightarrow> r = Inr b \<and> s' = s"
  "act_set f s = (Inr u, s') \<longleftrightarrow> s' = f s"
  by (auto simp: act_return_def act_lift_def act_set_def)

definition map_left :: "('d \<Rightarrow> 'e) \<Rightarrow> ('d, 'a) result \<Rightarrow> ('e, 'a) result" where
  "map_left f r = (case r of Inl e \<Rightarrow> Inl (f e) | Inr a \<Rightarrow> Inr a)"

lemma map_left_Inr [simp]: "map_left f r = Inr a \<longleftrightarrow> r = Inr a"
  by (cases r) (simp_all add: map_left_def)

type_synonym ('u, 'a) reader_act = "'u reader \<Rightarrow> (reader_error, 'a) result \<times> 'u reader"

text \<open>\<open>Control::check\<close>.\<close>

definition live :: "'u reader_env \<Rightarrow> ('u, unit) reader_act" where
  "live env s = (ensure (\<not> rn_stopped env (rd_tick s)) Reader_Cancelled, s\<lparr>rd_tick := rd_tick s + 1\<rparr>)"

section \<open>Threads\<close>

definition MAX_SEGMENT_THREADS :: nat where "MAX_SEGMENT_THREADS = 2"

definition spawn_thread :: "'u reader_env \<Rightarrow> ('u, nat) reader_act" where
  "spawn_thread env s =
     (let t = rd_threads s; i = ts_next t in
      if \<not> length (ts_handles t) < MAX_SEGMENT_THREADS then (Inl Thread_Limit, s)
      else if \<not> rn_activity env i then (Inl Activity_Limit, s)
      else
        (case checked_add i 1 of
           None \<Rightarrow> (Inl Thread_Overflow, s)
         | Some n \<Rightarrow>
             if \<not> rn_spawns env i then (Inl Spawn_Failed, s\<lparr>rd_threads := t\<lparr>ts_next := n\<rparr>\<rparr>)
             else (Inr i, s\<lparr>rd_threads := \<lparr>ts_next = n, ts_handles = ts_handles t @ [i]\<rparr>\<rparr>)))"

text \<open>\<open>Vec::swap_remove\<close> of the handle of a finished thread.\<close>

definition take_handle :: "nat \<Rightarrow> nat list \<Rightarrow> nat list" where
  "take_handle i hs =
     (case position (\<lambda>h. h = i) hs of None \<Rightarrow> hs | Some k \<Rightarrow> butlast (hs[k := last hs]))"

definition join_thread :: "'u reader_env \<Rightarrow> nat \<Rightarrow> ('u, unit) reader_act" where
  "join_thread env i = act_bind (live env) (\<lambda>_ s.
     let t = rd_threads s; taken = s\<lparr>rd_threads := t\<lparr>ts_handles := take_handle i (ts_handles t)\<rparr>\<rparr> in
     if i \<notin> set (ts_handles t) then (Inr (), s)
     else
       (case rn_join env i of
          Joined \<Rightarrow> (Inr (), taken)
        | Join_Panicked \<Rightarrow> (Inl Worker_Panicked, taken)
        | Join_Stopped \<Rightarrow> (Inl Reader_Cancelled, s)
        | Join_Late \<Rightarrow> (Inl Worker_Late, s)))"

section \<open>Jobs\<close>

definition job_start :: "'u reader_env \<Rightarrow> 'u segment \<Rightarrow> nat \<Rightarrow> ('u, 'u segment_job) reader_act" where
  "job_start env sg attempts =
     act_bind (live env) (\<lambda>_. act_bind (spawn_thread env) (\<lambda>i.
       act_return \<lparr>jb_spec = sg, jb_thread = i, jb_attempts = attempts\<rparr>))"

fun poll_checks :: "'u reader_env \<Rightarrow> nat \<Rightarrow> ('u, unit) reader_act" where
  "poll_checks env 0 = act_return ()"
| "poll_checks env (Suc n) = act_bind (live env) (\<lambda>_. poll_checks env n)"

definition not_expired :: "'u reader_env \<Rightarrow> 'u segment \<Rightarrow> ('u, unit) reader_act" where
  "not_expired env sg s = act_lift (map_left Segment_Error (check_expiry (rn_now env (rd_tick s)) sg)) s"

text \<open>The result of the thread of a job, or the error of its channel.\<close>

definition receive_result ::
  "'u reader_env \<Rightarrow> 'u segment_job \<Rightarrow> ('u, (seg_failure, raw_rows) result) reader_act" where
  "receive_result env job =
     act_bind (live env) (\<lambda>_.
     act_bind (poll_checks env (Suc (rn_polls env (jb_thread job)))) (\<lambda>_.
     act_bind (act_lift (ok_or Worker_Stopped (rn_result env (jb_spec job) (jb_thread job)))) (\<lambda>r.
     act_bind (join_thread env (jb_thread job)) (\<lambda>_. act_return r))))"

text \<open>
  \<open>Job::wait\<close>, with the attempts that remain as \<open>left\<close>. Attempts count from one, so the last of
  three has none left. The delay is a check.
\<close>

fun job_wait :: "'u reader_env \<Rightarrow> nat \<Rightarrow> 'u segment_job \<Rightarrow> ('u, 'u current) reader_act" where
  "job_wait env left job = act_bind (receive_result env job) (\<lambda>r.
     case r of
       Inr decoded \<Rightarrow>
         act_return \<lparr>cu_spec = jb_spec job, cu_decoded = decoded, cu_emitted = 0, cu_committed = 0, cu_pending = None\<rparr>
     | Inl (e, retryable) \<Rightarrow>
         act_bind (live env) (\<lambda>_.
         case left of
           0 \<Rightarrow> act_lift (Inl (Segment_Error e))
         | Suc left \<Rightarrow>
             if \<not> retryable then act_lift (Inl (Segment_Error e))
             else
               act_bind (not_expired env (jb_spec job)) (\<lambda>_.
               act_bind (live env) (\<lambda>_.
               act_bind (not_expired env (jb_spec job)) (\<lambda>_.
               act_bind (job_start env (jb_spec job) (jb_attempts job + 1)) (job_wait env left))))))"

declare job_wait.simps [simp del]

section \<open>The reader\<close>

definition segment_reader_new :: "bool \<Rightarrow> 'u reader" where
  "segment_reader_new two_slots =
     \<lparr>rd_page = None, rd_encoding = None, rd_parallel = two_slots, rd_jobs = [], rd_current = None,
      rd_awaiting = None, rd_offset = 0, rd_ack_failures = 0, rd_acks = [],
      rd_threads = \<lparr>ts_next = 0, ts_handles = []\<rparr>, rd_tick = 0\<rparr>"

definition install :: "seg_page \<Rightarrow> ('u, unit) reader_act" where
  "install page s =
     (if \<not> (case rd_page s of None \<Rightarrow> True | Some p \<Rightarrow> page_is_empty p) then (Inl Unread_Page, s)
      else if \<not> (rd_encoding s = None \<or> rd_encoding s = Some (sp_encoding page)) then (Inl Changed_Encoding, s)
      else (Inr (), s\<lparr>rd_encoding := Some (sp_encoding page), rd_page := Some page\<rparr>))"

definition has_slots :: "'u reader \<Rightarrow> bool" where
  "has_slots s \<longleftrightarrow> rd_current s \<noteq> None \<or> rd_jobs s \<noteq> []"

definition has_input :: "'u reader \<Rightarrow> bool" where
  "has_input s \<longleftrightarrow>
     has_slots s \<or> rd_awaiting s \<noteq> None \<or> (case rd_page s of None \<Rightarrow> False | Some p \<Rightarrow> \<not> page_is_empty p)"

definition has_space :: "'u reader \<Rightarrow> bool" where
  "has_space s \<longleftrightarrow> length (rd_jobs s) + of_bool (rd_current s \<noteq> None) < (if rd_parallel s then 2 else 1)"

text \<open>The next segment of the page.\<close>

definition next_spec :: "'u reader_env \<Rightarrow> ('u, 'u segment option) reader_act" where
  "next_spec env s =
     (case rd_page s of
        None \<Rightarrow> (Inr None, s)
      | Some p \<Rightarrow>
          (let (r, p) = page_next (rn_library env) p in (map_left Segment_Error r, s\<lparr>rd_page := Some p\<rparr>)))"

definition admit :: "'u reader_env \<Rightarrow> ('u, bool) reader_act" where
  "admit env s =
     (if \<not> has_space s then (Inl Slot_Limit, s)
      else
        act_bind (next_spec env) (\<lambda>m.
          case m of
            None \<Rightarrow> act_bind (act_set (\<lambda>s. s\<lparr>rd_page := None\<rparr>)) (\<lambda>_. act_return False)
          | Some sg \<Rightarrow> (\<lambda>s.
              if sg_offset sg \<noteq> rd_offset s then (Inl Offset_Mismatch, s)
              else
                (case checked_add (rd_offset s) (sg_rows sg) of
                   None \<Rightarrow> (Inl Row_Overflow, s)
                 | Some offset \<Rightarrow>
                     act_bind (act_set (\<lambda>s. s\<lparr>rd_offset := offset\<rparr>)) (\<lambda>_.
                     act_bind (job_start env sg 1) (\<lambda>job.
                     act_bind (act_set (\<lambda>s. s\<lparr>rd_jobs := rd_jobs s @ [job]\<rparr>)) (\<lambda>_. act_return True))) s))) s)"

definition ready_to_fetch :: "'u reader_env \<Rightarrow> ('u, unit) reader_act" where
  "ready_to_fetch env = act_bind (live env) (\<lambda>_ s. act_lift (ensure (rd_awaiting s = None) Awaiting_Commit) s)"

section \<open>Batches\<close>

text \<open>The next row: the one that did not fit into the last batch, or one of the segment.\<close>

definition next_row :: "'u reader_env \<Rightarrow> nat \<Rightarrow> 'u current \<Rightarrow> ('u, row) reader_act" where
  "next_row env width c =
     (case cu_pending c of
        Some row \<Rightarrow> act_bind (act_set (\<lambda>s. s\<lparr>rd_current := Some (c\<lparr>cu_pending := None\<rparr>)\<rparr>)) (\<lambda>_. act_return row)
      | None \<Rightarrow>
          act_bind (act_lift (map_left Row_Error (raw_rows_next (rn_json env) width True (cu_decoded c)))) (\<lambda>(m, decoded).
          act_bind (act_set (\<lambda>s. s\<lparr>rd_current := Some (c\<lparr>cu_decoded := decoded\<rparr>)\<rparr>)) (\<lambda>_.
            act_lift (ok_or Fewer_Rows m))))"

definition BATCH_BYTES :: nat where "BATCH_BYTES = 48 * MIB"

text \<open>The loop of \<open>fetch\<close>, with the rows that the batch may still take.\<close>

fun fetch_loop ::
  "'u reader_env \<Rightarrow> nat \<Rightarrow> nat \<Rightarrow> row list \<Rightarrow> nat \<Rightarrow> 'u current \<Rightarrow> ('u, row list \<times> 'u current) reader_act" where
  "fetch_loop env width 0 rows bytes c = act_return (rows, c)"
| "fetch_loop env width (Suc n) rows bytes c =
     (if sg_rows (cu_spec c) \<le> cu_emitted c then act_return (rows, c)
      else
        act_bind (live env) (\<lambda>_.
        act_bind (next_row env width c) (\<lambda>row s.
        let c = the (rd_current s) in
        act_bind (act_lift (map_left Size_Error (row_bytes (rn_capacities env) row))) (\<lambda>owned.
          if rows \<noteq> [] \<and> BATCH_BYTES < bytes + owned then act_return (rows, c\<lparr>cu_pending := Some row\<rparr>)
          else fetch_loop env width n (rows @ [row]) (bytes + owned) (c\<lparr>cu_emitted := cu_emitted c + 1\<rparr>)) s)))"

text \<open>The first job becomes the current segment when there is none.\<close>

definition next_current :: "'u reader_env \<Rightarrow> ('u, 'u current option) reader_act" where
  "next_current env s =
     (case rd_current s of
        Some c \<Rightarrow> (Inr (Some c), s)
      | None \<Rightarrow>
          (case rd_jobs s of
             [] \<Rightarrow> (Inr None, s)
           | job # jobs \<Rightarrow>
               act_bind (act_set (\<lambda>s. s\<lparr>rd_jobs := jobs\<rparr>)) (\<lambda>_.
               act_bind (job_wait env (3 - jb_attempts job) job) (\<lambda>c.
               act_bind (act_set (\<lambda>s. s\<lparr>rd_current := Some c\<rparr>)) (\<lambda>_. act_return (Some c)))) s))"

definition no_more_rows :: "'u reader_env \<Rightarrow> nat \<Rightarrow> 'u current \<Rightarrow> ('u, unit) reader_act" where
  "no_more_rows env width c =
     act_bind (act_lift (map_left Row_Error (raw_rows_next (rn_json env) width True (cu_decoded c)))) (\<lambda>(m, decoded).
     act_bind (act_set (\<lambda>s. s\<lparr>rd_current := Some (c\<lparr>cu_decoded := decoded\<rparr>)\<rparr>)) (\<lambda>_.
       act_lift (ensure (m = None) More_Rows)))"

definition reader_fetch :: "'u reader_env \<Rightarrow> nat \<Rightarrow> nat \<Rightarrow> ('u, row list) reader_act" where
  "reader_fetch env wanted width =
     act_bind (ready_to_fetch env) (\<lambda>_.
     act_bind (next_current env) (\<lambda>m.
       case m of
         None \<Rightarrow> act_return []
       | Some c \<Rightarrow>
           (let n = min wanted 1000 in
            act_bind (fetch_loop env width n [] (rn_row_capacity env n * size_of_row) c) (\<lambda>(rows, c).
            let boundary = (cu_emitted c = sg_rows (cu_spec c)) in
            act_bind (act_set (\<lambda>s. s\<lparr>rd_current := Some c\<rparr>)) (\<lambda>_.
            act_bind (if boundary then no_more_rows env width c else act_return ()) (\<lambda>_.
            act_bind (act_set (\<lambda>s. s\<lparr>rd_awaiting := Some \<lparr>cm_rows = length rows, cm_boundary = boundary\<rparr>\<rparr>)) (\<lambda>_.
              act_return rows)))))))"

text \<open>The call of \<open>Control::ack\<close>.\<close>

definition call_ack :: "'u reader_env \<Rightarrow> 'u segment \<Rightarrow> ('u, bool) reader_act" where
  "call_ack env sg s =
     (let (stopped, activity, round) = rn_ack env (rd_tick s);
          (answer, sent) = ack (rn_library env) stopped activity round sg
      in (map_left Segment_Error answer, s\<lparr>rd_acks := rd_acks s @ [(sg, sent)]\<rparr>))"

text \<open>The end of a segment: its acknowledgement, and the slot is free.\<close>

definition end_segment :: "'u reader_env \<Rightarrow> 'u current \<Rightarrow> ('u, unit) reader_act" where
  "end_segment env c =
     act_bind (act_lift (ensure (cu_committed c = sg_rows (cu_spec c)) Uncommitted_Rows)) (\<lambda>_.
     act_bind (call_ack env (cu_spec c)) (\<lambda>acked.
       act_set (\<lambda>s. s\<lparr>rd_ack_failures := (if acked then rd_ack_failures s else saturating_add (rd_ack_failures s) 1),
                      rd_current := None\<rparr>)))"

definition reader_commit :: "'u reader_env \<Rightarrow> nat \<Rightarrow> ('u, bool) reader_act" where
  "reader_commit env rows =
     act_bind (live env) (\<lambda>_ s.
     case rd_awaiting s of
       None \<Rightarrow> act_bind (act_lift (ensure (rows = 0 \<and> rd_current s = None) Nothing_Awaited)) (\<lambda>_. act_return False) s
     | Some commit \<Rightarrow>
         act_bind (act_lift (ensure (rows = cm_rows commit) Count_Mismatch)) (\<lambda>_.
         act_bind (act_set (\<lambda>s. s\<lparr>rd_awaiting := None\<rparr>)) (\<lambda>_.
         act_bind (act_lift (ok_or Missing_Segment (rd_current s))) (\<lambda>c.
         act_bind (act_lift (ok_or Commit_Overflow (checked_add (cu_committed c) rows))) (\<lambda>committed.
         let c = c\<lparr>cu_committed := committed\<rparr> in
         act_bind (act_set (\<lambda>s. s\<lparr>rd_current := Some c\<rparr>)) (\<lambda>_.
         act_bind (if cm_boundary commit then end_segment env c else act_return ()) (\<lambda>_. act_return True)))))) s)"

section \<open>Runs\<close>

text \<open>
  What a run has done: the admitted segments, those that are finished with their rows, the rows
  given of the current one, the batch that waits for its commit and the committed rows. A run ends
  at the first error, as the export that uses the reader does.
\<close>

record 'u history =
  hy_admitted :: "'u segment list"
  hy_done :: "('u segment \<times> row list) list"
  hy_rows :: "row list"
  hy_batch :: "row list"
  hy_committed :: "row list"

definition history_new :: "'u history" where
  "history_new = \<lparr>hy_admitted = [], hy_done = [], hy_rows = [], hy_batch = [], hy_committed = []\<rparr>"

datatype reader_op = Page string | Admit | Fetch nat | Commit nat

definition commit_history :: "'u reader \<Rightarrow> 'u reader \<Rightarrow> 'u history \<Rightarrow> 'u history" where
  "commit_history s s' h =
     (let h = h\<lparr>hy_committed := hy_committed h @ hy_batch h, hy_batch := []\<rparr>
      in if rd_current s' = None
         then h\<lparr>hy_done := hy_done h @ [(cu_spec (the (rd_current s)), hy_rows h)], hy_rows := []\<rparr> else h)"

fun segment_reader_step ::
  "'u reader_env \<Rightarrow> nat \<Rightarrow> reader_op \<Rightarrow> 'u reader \<times> 'u history \<Rightarrow> ('u reader \<times> 'u history) option" where
  "segment_reader_step env width (Page raw) (s, h) =
     (case page_new (rn_library env) raw of
        Inl _ \<Rightarrow> None
      | Inr p \<Rightarrow> (case install p s of (Inr _, s') \<Rightarrow> Some (s', h) | (Inl _, _) \<Rightarrow> None))"
| "segment_reader_step env width Admit (s, h) =
     (case admit env s of
        (Inl _, _) \<Rightarrow> None
      | (Inr admitted, s') \<Rightarrow>
          Some (s', if admitted then h\<lparr>hy_admitted := hy_admitted h @ [jb_spec (last (rd_jobs s'))]\<rparr> else h))"
| "segment_reader_step env width (Fetch wanted) (s, h) =
     (case reader_fetch env wanted width s of
        (Inl _, _) \<Rightarrow> None
      | (Inr rows, s') \<Rightarrow> Some (s', h\<lparr>hy_rows := hy_rows h @ rows, hy_batch := rows\<rparr>))"
| "segment_reader_step env width (Commit rows) (s, h) =
     (case reader_commit env rows s of
        (Inl _, _) \<Rightarrow> None
      | (Inr more_rows, s') \<Rightarrow> Some (s', if more_rows then commit_history s s' h else h))"

fun reader_run ::
  "'u reader_env \<Rightarrow> nat \<Rightarrow> reader_op list \<Rightarrow> 'u reader \<times> 'u history \<Rightarrow> ('u reader \<times> 'u history) option" where
  "reader_run env width [] x = Some x"
| "reader_run env width (op # ops) x = Option.bind (segment_reader_step env width op x) (reader_run env width ops)"

section \<open>The rows of a decoded segment\<close>

fun gives :: "raw_json \<Rightarrow> nat \<Rightarrow> raw_rows \<Rightarrow> row list \<Rightarrow> raw_rows option" where
  "gives env width r [] = Some r"
| "gives env width r (x # xs) =
     (case raw_rows_next env width True r of
        Inr (Some y, r') \<Rightarrow> if y = x then gives env width r' xs else None
      | _ \<Rightarrow> None)"

lemma gives_append: "gives env width r (xs @ ys) = Option.bind (gives env width r xs) (\<lambda>r'. gives env width r' ys)"
  by (induction xs arbitrary: r) (auto split: sum.split option.split)

text \<open>All rows: none is left after them.\<close>

definition whole_rows :: "raw_json \<Rightarrow> nat \<Rightarrow> raw_rows \<Rightarrow> row list \<Rightarrow> bool" where
  "whole_rows env width r xs \<longleftrightarrow>
     (case gives env width r xs of
        None \<Rightarrow> False
      | Some r' \<Rightarrow> (case raw_rows_next env width True r' of Inr (None, _) \<Rightarrow> True | _ \<Rightarrow> False))"

section \<open>What the steps change\<close>

lemma live_Inr: "live env s = (Inr u, s') \<Longrightarrow> \<exists>t. s' = s\<lparr>rd_tick := t\<rparr>"
  by (auto simp: live_def)

lemma poll_checks_Inr: "poll_checks env n s = (Inr u, s') \<Longrightarrow> \<exists>t. s' = s\<lparr>rd_tick := t\<rparr>"
proof (induction n arbitrary: s)
  case 0
  then show ?case by (auto intro: exI [of _ "rd_tick s"])
next
  case (Suc n)
  then obtain t where "poll_checks env n (s\<lparr>rd_tick := t\<rparr>) = (Inr u, s')" by (auto simp: act_bind_Inr dest!: live_Inr)
  from Suc.IH [OF this] show ?case by simp
qed

lemma not_expired_Inr: "not_expired env sg s = (Inr u, s') \<Longrightarrow> s' = s"
  by (simp add: not_expired_def)

lemma take_handle_other: "i \<notin> set hs \<Longrightarrow> take_handle i hs = hs"
  by (auto simp: take_handle_def position_None split: option.split dest!: position_Some)

lemma take_handle_mset: "i \<in> set hs \<Longrightarrow> mset (take_handle i hs) = mset hs - {#i#}"
proof -
  assume "i \<in> set hs"
  then obtain k where p: "position (\<lambda>h. h = i) hs = Some k"
    by (cases "position (\<lambda>h. h = i) hs") (auto simp: position_None)
  from position_Some [OF p] have k: "k < length hs" "hs ! k = i" by simp_all
  then obtain xs z where hs: "hs = xs @ [z]" by (cases hs rule: rev_cases) auto
  have "mset (butlast (hs[k := last hs])) = mset hs - {#i#}"
  proof (cases "k = length xs")
    case True
    with k hs show ?thesis by simp
  next
    case False
    with k hs have "k < length xs" "xs ! k = i" by (simp_all add: nth_append)
    then have "mset (xs[k := z]) = add_mset z (mset xs - {#i#})" "i \<in># mset xs"
      by (auto simp: mset_update)
    with False k hs \<open>k < length xs\<close> show ?thesis by (simp add: list_update_append)
  qed
  then show ?thesis by (simp add: take_handle_def p)
qed

lemma take_handle_absent:
  "i \<notin> set (ts_handles (rd_threads s)) \<Longrightarrow>
     s\<lparr>rd_threads := (rd_threads s)\<lparr>ts_handles := take_handle i (ts_handles (rd_threads s))\<rparr>\<rparr> = s"
  by (cases s; cases "rd_threads s") (simp add: take_handle_other)

lemma join_thread_Inr:
  assumes "join_thread env i s = (Inr u, s')"
  shows "\<exists>t. s' = s\<lparr>rd_tick := t, rd_threads := (rd_threads s)\<lparr>ts_handles := take_handle i (ts_handles (rd_threads s))\<rparr>\<rparr>"
proof -
  from assms obtain s1 where s1: "live env s = (Inr (), s1)"
    and "(if i \<notin> set (ts_handles (rd_threads s1)) then s' = s1 else
          s' = s1\<lparr>rd_threads := (rd_threads s1)\<lparr>ts_handles := take_handle i (ts_handles (rd_threads s1))\<rparr>\<rparr>)"
    unfolding join_thread_def by (auto simp: act_bind_Inr Let_def split: if_splits join_result.splits)
  then have s': "s' = s1\<lparr>rd_threads := (rd_threads s1)\<lparr>ts_handles := take_handle i (ts_handles (rd_threads s1))\<rparr>\<rparr>"
    by (simp add: take_handle_absent split: if_splits)
  from live_Inr [OF s1] obtain t where "s1 = s\<lparr>rd_tick := t\<rparr>" by blast
  with s' show ?thesis by (intro exI [of _ t]) simp
qed

lemma receive_result_Inr:
  assumes "receive_result env job s = (Inr r, s')"
  shows "rn_result env (jb_spec job) (jb_thread job) = Some r
    \<and> (\<exists>t. s' = s\<lparr>rd_tick := t, rd_threads := (rd_threads s)
          \<lparr>ts_handles := take_handle (jb_thread job) (ts_handles (rd_threads s))\<rparr>\<rparr>)"
proof -
  from assms obtain s1 s2 where 1: "live env s = (Inr (), s1)" "poll_checks env (Suc (rn_polls env (jb_thread job))) s1 = (Inr (), s2)"
      "rn_result env (jb_spec job) (jb_thread job) = Some r" "join_thread env (jb_thread job) s2 = (Inr (), s')"
    by (auto simp: receive_result_def act_bind_Inr ok_or_Inr_iff)
  from live_Inr [OF 1(1)] poll_checks_Inr [OF 1(2)] obtain t where "s2 = s\<lparr>rd_tick := t\<rparr>" by auto
  with join_thread_Inr [OF 1(4)] 1(3) show ?thesis by simp
qed

lemma receive_result_handles:
  assumes "receive_result env job s = (Inr r, s')" "jb_thread job \<in> set (ts_handles (rd_threads s))"
  obtains t n hs where "s' = s\<lparr>rd_tick := t, rd_threads := \<lparr>ts_next = n, ts_handles = hs\<rparr>\<rparr>"
    "mset hs = mset (ts_handles (rd_threads s)) - {#jb_thread job#}"
    "rn_result env (jb_spec job) (jb_thread job) = Some r"
proof -
  from receive_result_Inr [OF assms(1)] obtain t where "rn_result env (jb_spec job) (jb_thread job) = Some r"
    "s' = s\<lparr>rd_tick := t, rd_threads := (rd_threads s)\<lparr>ts_handles := take_handle (jb_thread job) (ts_handles (rd_threads s))\<rparr>\<rparr>"
    by blast
  then show ?thesis using take_handle_mset [OF assms(2)] that by (cases "rd_threads s") auto
qed

lemma spawn_thread_Inr:
  "spawn_thread env s = (Inr i, s') \<Longrightarrow> i = ts_next (rd_threads s)
     \<and> (\<exists>n. s' = s\<lparr>rd_threads := \<lparr>ts_next = n, ts_handles = ts_handles (rd_threads s) @ [i]\<rparr>\<rparr>)"
  by (auto simp: spawn_thread_def Let_def split: if_splits option.splits)

lemma job_start_Inr:
  assumes "job_start env sg attempts s = (Inr job, s')"
  shows "job = \<lparr>jb_spec = sg, jb_thread = ts_next (rd_threads s), jb_attempts = attempts\<rparr>
    \<and> (\<exists>t n. s' = s\<lparr>rd_tick := t, rd_threads := \<lparr>ts_next = n, ts_handles = ts_handles (rd_threads s) @ [jb_thread job]\<rparr>\<rparr>)"
proof -
  from assms obtain s1 i where 1: "live env s = (Inr (), s1)" "spawn_thread env s1 = (Inr i, s')"
      "job = \<lparr>jb_spec = sg, jb_thread = i, jb_attempts = attempts\<rparr>"
    by (auto simp: job_start_def act_bind_Inr)
  from live_Inr [OF 1(1)] obtain t where "s1 = s\<lparr>rd_tick := t\<rparr>" by blast
  moreover from spawn_thread_Inr [OF 1(2)] obtain n where "i = ts_next (rd_threads s1)"
    "s' = s1\<lparr>rd_threads := \<lparr>ts_next = n, ts_handles = ts_handles (rd_threads s1) @ [i]\<rparr>\<rparr>" by blast
  ultimately show ?thesis using 1(3) by (intro conjI exI [of _ t] exI [of _ n]) simp_all
qed

text \<open>A job that gives a segment leaves no thread behind, whatever its attempts were.\<close>

lemma job_wait_Inr:
  assumes "job_wait env left job s = (Inr c, s')" "jb_thread job \<in> set (ts_handles (rd_threads s))"
  shows "(\<exists>i decoded. rn_result env (jb_spec job) i = Some (Inr decoded)
        \<and> c = \<lparr>cu_spec = jb_spec job, cu_decoded = decoded, cu_emitted = 0, cu_committed = 0, cu_pending = None\<rparr>)
    \<and> (\<exists>t n hs. s' = s\<lparr>rd_tick := t, rd_threads := \<lparr>ts_next = n, ts_handles = hs\<rparr>\<rparr>
        \<and> mset hs = mset (ts_handles (rd_threads s)) - {#jb_thread job#})"
  using assms
proof (induction left arbitrary: job s)
  case 0
  from 0(1) obtain a s1 where a: "receive_result env job s = (Inr a, s1)"
    by (subst (asm) job_wait.simps) (auto simp: act_bind_Inr)
  with 0(1) obtain decoded where r: "receive_result env job s = (Inr (Inr decoded), s')"
      "c = \<lparr>cu_spec = jb_spec job, cu_decoded = decoded, cu_emitted = 0, cu_committed = 0, cu_pending = None\<rparr>"
    by (subst (asm) job_wait.simps, cases a) (auto simp: act_bind_Inr)
  from receive_result_handles [OF r(1) 0(2)] r(2) show ?case by metis
next
  case (Suc left)
  from Suc.prems(1) obtain r s1 where r: "receive_result env job s = (Inr r, s1)"
    by (subst (asm) job_wait.simps) (auto simp: act_bind_Inr)
  from receive_result_handles [OF r Suc.prems(2)] obtain t n0 hs where
    s1: "s1 = s\<lparr>rd_tick := t, rd_threads := \<lparr>ts_next = n0, ts_handles = hs\<rparr>\<rparr>"
    and hs: "mset hs = mset (ts_handles (rd_threads s)) - {#jb_thread job#}"
    and res: "rn_result env (jb_spec job) (jb_thread job) = Some r" by metis
  show ?case
  proof (cases r)
    case (Inr decoded)
    with Suc.prems(1) r have "s' = s1 \<and>
      c = \<lparr>cu_spec = jb_spec job, cu_decoded = decoded, cu_emitted = 0, cu_committed = 0, cu_pending = None\<rparr>"
      by (subst (asm) job_wait.simps) (auto simp: act_bind_Inr)
    with res Inr s1 hs show ?thesis by metis
  next
    case (Inl e)
    obtain msg retryable where e: "e = (msg, retryable)" by fastforce
    from Suc.prems(1) r have "job_wait env (Suc left) job s = (Inr c, s')" by simp
    then obtain s2 s3 s4 job' where
      2: "live env s1 = (Inr (), s2)" "live env s2 = (Inr (), s3)"
         "job_start env (jb_spec job) (jb_attempts job + 1) s3 = (Inr job', s4)" "job_wait env left job' s4 = (Inr c, s')"
      by (subst (asm) job_wait.simps) (auto simp: act_bind_Inr r Inl e split: if_splits dest!: not_expired_Inr)
    from live_Inr [OF 2(1)] live_Inr [OF 2(2)] obtain t2 where s3: "s3 = s1\<lparr>rd_tick := t2\<rparr>" by auto
    from job_start_Inr [OF 2(3)] s1 s3 obtain t' n where
      s4: "s4 = s\<lparr>rd_tick := t', rd_threads := \<lparr>ts_next = n,
            ts_handles = hs @ [jb_thread job']\<rparr>\<rparr>"
      and job': "jb_spec job' = jb_spec job" by auto
    from Suc.IH [OF 2(4)] s4 job' hs show ?thesis by simp
  qed
qed

section \<open>The rows of a batch\<close>

definition pending_rows :: "'u current \<Rightarrow> row list" where
  "pending_rows c = (case cu_pending c of None \<Rightarrow> [] | Some row \<Rightarrow> [row])"

text \<open>\<open>raw\<close> is the decoded segment as it arrived, \<open>xs\<close> the rows given so far.\<close>

definition giving :: "'u reader_env \<Rightarrow> nat \<Rightarrow> raw_rows \<Rightarrow> row list \<Rightarrow> 'u current \<Rightarrow> bool" where
  "giving env width raw xs c \<longleftrightarrow>
     gives (rn_json env) width raw (xs @ pending_rows c) = Some (cu_decoded c)
     \<and> cu_emitted c = length xs \<and> cu_emitted c \<le> sg_rows (cu_spec c)
     \<and> (cu_pending c \<noteq> None \<longrightarrow> cu_emitted c < sg_rows (cu_spec c))"

lemma next_row_Inr:
  assumes "next_row env width c s = (Inr row, s')" "giving env width raw xs c" "cu_emitted c < sg_rows (cu_spec c)"
  shows "\<exists>d. s' = s\<lparr>rd_current := Some (c\<lparr>cu_pending := None, cu_decoded := d\<rparr>)\<rparr>
    \<and> gives (rn_json env) width raw (xs @ [row]) = Some d"
proof (cases "cu_pending c")
  case None
  with assms(1) obtain d where "raw_rows_next (rn_json env) width True (cu_decoded c) = Inr (Some row, d)"
    "s' = s\<lparr>rd_current := Some (c\<lparr>cu_decoded := d\<rparr>)\<rparr>"
    by (auto simp: next_row_def act_bind_Inr ok_or_Inr_iff split: prod.splits)
  moreover have "c\<lparr>cu_pending := None\<rparr> = c" using None by (cases c) simp
  ultimately show ?thesis using assms(2) None
    by (intro exI [of _ d]) (simp add: giving_def pending_rows_def gives_append)
next
  case (Some r)
  with assms show ?thesis
    by (intro exI [of _ "cu_decoded c"]) (simp add: next_row_def act_bind_Inr giving_def pending_rows_def)
qed

lemma fetch_loop_Inr:
  assumes "fetch_loop env width n rows bytes c s = (Inr (rows', c'), s')" "giving env width raw xs c"
  shows "\<exists>ys t m. rows' = rows @ ys \<and> giving env width raw (xs @ ys) c' \<and> s' = s\<lparr>rd_tick := t, rd_current := m\<rparr>
    \<and> cu_spec c' = cu_spec c \<and> cu_committed c' = cu_committed c"
  using assms
proof (induction n arbitrary: rows bytes c s xs)
  case 0
  then show ?case by (intro exI [of _ "[]"] exI [of _ "rd_tick s"] exI [of _ "rd_current s"]) simp
next
  case (Suc n)
  show ?case
  proof (cases "sg_rows (cu_spec c) \<le> cu_emitted c")
    case True
    with Suc.prems show ?thesis by (intro exI [of _ "[]"] exI [of _ "rd_tick s"] exI [of _ "rd_current s"]) simp
  next
    case False
    with Suc.prems(1) obtain s1 row s2 owned where
      1: "live env s = (Inr (), s1)" "next_row env width c s1 = (Inr row, s2)"
      and rest: "(if rows \<noteq> [] \<and> BATCH_BYTES < bytes + owned
          then act_return (rows, (the (rd_current s2))\<lparr>cu_pending := Some row\<rparr>)
          else fetch_loop env width n (rows @ [row]) (bytes + owned)
                 ((the (rd_current s2))\<lparr>cu_emitted := cu_emitted (the (rd_current s2)) + 1\<rparr>)) s2 = (Inr (rows', c'), s')"
      and owned: "row_bytes (rn_capacities env) row = Inr owned"
      by (auto simp: act_bind_Inr Let_def)
    from live_Inr [OF 1(1)] obtain t where s1: "s1 = s\<lparr>rd_tick := t\<rparr>" by blast
    from next_row_Inr [OF 1(2) Suc.prems(2)] False obtain d where
      s2: "s2 = s1\<lparr>rd_current := Some (c\<lparr>cu_pending := None, cu_decoded := d\<rparr>)\<rparr>"
      and d: "gives (rn_json env) width raw (xs @ [row]) = Some d" by auto
    show ?thesis
    proof (cases "rows \<noteq> [] \<and> BATCH_BYTES < bytes + owned")
      case True
      with rest s2 have "rows' = rows" "c' = c\<lparr>cu_pending := Some row, cu_decoded := d\<rparr>" "s' = s2" by auto
      with Suc.prems(2) d False s1 s2 show ?thesis
        by (intro exI [of _ "[]"] exI [of _ t] exI [of _ "rd_current s2"]) (simp add: giving_def pending_rows_def)
    next
      case more_fit: False
      let ?c = "c\<lparr>cu_pending := None, cu_decoded := d, cu_emitted := cu_emitted c + 1\<rparr>"
      have now: "giving env width raw (xs @ [row]) ?c"
        using Suc.prems(2) d False by (simp add: giving_def pending_rows_def)
      have rest': "fetch_loop env width n (rows @ [row]) (bytes + owned) ?c s2 = (Inr (rows', c'), s')"
        using rest more_fit s2 by (simp split: if_splits)
      from Suc.IH [OF rest' now] obtain ys t' m where "rows' = (rows @ [row]) @ ys" "giving env width raw ((xs @ [row]) @ ys) c'"
        "s' = s2\<lparr>rd_tick := t', rd_current := m\<rparr>" "cu_spec c' = cu_spec c" "cu_committed c' = cu_committed c"
        by auto
      with s1 s2 show ?thesis
        by (intro exI [of _ "row # ys"] exI [of _ t'] exI [of _ m]) simp
    qed
  qed
qed

section \<open>The invariant of a run\<close>

definition slots_part :: "'u reader \<Rightarrow> bool" where
  "slots_part s \<longleftrightarrow>
     length (rd_jobs s) + of_bool (rd_current s \<noteq> None) \<le> (if rd_parallel s then 2 else 1)
     \<and> mset (ts_handles (rd_threads s)) = mset (map jb_thread (rd_jobs s))"

definition slot_specs :: "'u reader \<Rightarrow> 'u segment list" where
  "slot_specs s = (case rd_current s of None \<Rightarrow> [] | Some c \<Rightarrow> [cu_spec c]) @ map jb_spec (rd_jobs s)"

text \<open>Each segment starts where the ones before it end.\<close>

definition offsets_ok :: "'u segment list \<Rightarrow> bool" where
  "offsets_ok sgs \<longleftrightarrow> (\<forall>k < length sgs. sg_offset (sgs ! k) = sum_list (map sg_rows (take k sgs)))"

lemma offsets_ok_snoc: "offsets_ok (sgs @ [sg]) \<longleftrightarrow> offsets_ok sgs \<and> sg_offset sg = sum_list (map sg_rows sgs)"
  by (auto simp: offsets_ok_def nth_append less_Suc_eq)

definition order_part :: "'u reader \<Rightarrow> 'u history \<Rightarrow> bool" where
  "order_part s h \<longleftrightarrow>
     hy_admitted h = map fst (hy_done h) @ slot_specs s
     \<and> rd_offset s = sum_list (map sg_rows (hy_admitted h))
     \<and> offsets_ok (hy_admitted h)"

lemma order_part_frame:
  assumes "map fst (hy_done h') @ slot_specs s' = map fst (hy_done h) @ slot_specs s" "rd_offset s' = rd_offset s"
    "hy_admitted h' = hy_admitted h"
  shows "order_part s' h' \<longleftrightarrow> order_part s h"
  by (simp only: order_part_def assms)

definition segment_done_ok :: "'u reader_env \<Rightarrow> nat \<Rightarrow> 'u segment \<times> row list \<Rightarrow> bool" where
  "segment_done_ok env width d \<longleftrightarrow>
     (\<exists>i raw. rn_result env (fst d) i = Some (Inr raw) \<and> whole_rows (rn_json env) width raw (snd d))
     \<and> length (snd d) = sg_rows (fst d)"

definition current_ok :: "'u reader_env \<Rightarrow> nat \<Rightarrow> 'u current \<Rightarrow> batch_commit option \<Rightarrow> 'u history \<Rightarrow> bool" where
  "current_ok env width c awaiting h \<longleftrightarrow>
     (\<exists>i raw. rn_result env (cu_spec c) i = Some (Inr raw)
        \<and> (if awaiting \<noteq> None \<and> cm_boundary (the awaiting)
           then whole_rows (rn_json env) width raw (hy_rows h) \<and> length (hy_rows h) = sg_rows (cu_spec c)
           else giving env width raw (hy_rows h) c))
     \<and> cu_committed c + length (hy_batch h) = length (hy_rows h)
     \<and> hy_batch h = drop (cu_committed c) (hy_rows h)
     \<and> (case awaiting of None \<Rightarrow> hy_batch h = [] | Some m \<Rightarrow> cm_rows m = length (hy_batch h))"

text \<open>The acknowledgements: one for each finished segment, in their order.\<close>

definition acks_ok :: "'u reader_env \<Rightarrow> 'u reader \<Rightarrow> 'u history \<Rightarrow> bool" where
  "acks_ok env s h \<longleftrightarrow> map fst (rd_acks s) = map fst (hy_done h)
     \<and> (\<forall>(sg, sent) \<in> set (rd_acks s). \<exists>stopped activity round acked.
          ack (rn_library env) stopped activity round sg = (Inr acked, sent))"

lemma acks_ok_updates [simp]:
  "acks_ok env (s\<lparr>rd_page := p\<rparr>) h = acks_ok env s h" "acks_ok env (s\<lparr>rd_jobs := js\<rparr>) h = acks_ok env s h"
  "acks_ok env (s\<lparr>rd_current := m\<rparr>) h = acks_ok env s h" "acks_ok env (s\<lparr>rd_awaiting := w\<rparr>) h = acks_ok env s h"
  "acks_ok env (s\<lparr>rd_offset := n\<rparr>) h = acks_ok env s h" "acks_ok env (s\<lparr>rd_ack_failures := n\<rparr>) h = acks_ok env s h"
  "acks_ok env (s\<lparr>rd_threads := ts\<rparr>) h = acks_ok env s h" "acks_ok env (s\<lparr>rd_tick := n\<rparr>) h = acks_ok env s h"
  "acks_ok env s (h\<lparr>hy_admitted := sgs\<rparr>) = acks_ok env s h" "acks_ok env s (h\<lparr>hy_rows := rows\<rparr>) = acks_ok env s h"
  "acks_ok env s (h\<lparr>hy_batch := rows\<rparr>) = acks_ok env s h" "acks_ok env s (h\<lparr>hy_committed := rows\<rparr>) = acks_ok env s h"
  by (simp_all add: acks_ok_def)

definition reader_ok :: "'u reader_env \<Rightarrow> nat \<Rightarrow> 'u reader \<Rightarrow> 'u history \<Rightarrow> bool" where
  "reader_ok env width s h \<longleftrightarrow>
     slots_part s \<and> order_part s h \<and> list_all (segment_done_ok env width) (hy_done h) \<and> acks_ok env s h
     \<and> (case rd_current s of
          None \<Rightarrow> hy_rows h = [] \<and> hy_batch h = [] \<and> rd_awaiting s = None
            \<and> hy_committed h = concat (map snd (hy_done h))
        | Some c \<Rightarrow> current_ok env width c (rd_awaiting s) h
            \<and> hy_committed h = concat (map snd (hy_done h)) @ take (cu_committed c) (hy_rows h))"

text \<open>The parts of the state that the invariant reads.\<close>

lemma reader_ok_frame:
  assumes "rd_jobs s' = rd_jobs s" "rd_current s' = rd_current s" "rd_parallel s' = rd_parallel s"
    "rd_awaiting s' = rd_awaiting s" "rd_offset s' = rd_offset s" "ts_handles (rd_threads s') = ts_handles (rd_threads s)"
    "rd_acks s' = rd_acks s"
  shows "reader_ok env width s' h \<longleftrightarrow> reader_ok env width s h"
  unfolding reader_ok_def slots_part_def order_part_def slot_specs_def acks_ok_def assms by simp

lemma reader_ok_install:
  "reader_ok env width s h \<Longrightarrow> install p s = (Inr u, s') \<Longrightarrow> reader_ok env width s' h"
  using reader_ok_frame [of s' s env width h] by (auto simp: install_def split: if_splits)

lemma next_spec_Inr: "next_spec env s = (Inr m, s') \<Longrightarrow> \<exists>p. s' = s\<lparr>rd_page := p\<rparr>"
  by (auto simp: next_spec_def split: option.splits prod.splits intro: exI [of _ "rd_page s"])

lemma admit_Inr:
  assumes "admit env s = (Inr admitted, s')"
  shows "(\<not> admitted \<and> s' = s\<lparr>rd_page := None\<rparr>)
    \<or> (admitted \<and> has_space s \<and> (\<exists>sg p job t n. sg_offset sg = rd_offset s \<and> job = \<lparr>jb_spec = sg, jb_thread = ts_next (rd_threads s), jb_attempts = 1\<rparr>
        \<and> s' = s\<lparr>rd_page := p, rd_offset := rd_offset s + sg_rows sg, rd_jobs := rd_jobs s @ [job], rd_tick := t,
                 rd_threads := \<lparr>ts_next = n, ts_handles = ts_handles (rd_threads s) @ [jb_thread job]\<rparr>\<rparr>))"
proof -
  from assms have space: "has_space s" by (simp add: admit_def split: if_splits)
  with assms obtain m s1 where m: "next_spec env s = (Inr m, s1)" by (auto simp: admit_def act_bind_Inr)
  from next_spec_Inr [OF m] obtain p where s1: "s1 = s\<lparr>rd_page := p\<rparr>" by blast
  show ?thesis
  proof (cases m)
    case None
    with assms space m s1 show ?thesis by (auto simp: admit_def act_bind_Inr)
  next
    case (Some sg)
    with assms space m obtain offset job s2 where 1: "sg_offset sg = rd_offset s1" "checked_add (rd_offset s1) (sg_rows sg) = Some offset"
        "job_start env sg 1 (s1\<lparr>rd_offset := offset\<rparr>) = (Inr job, s2)" "s' = s2\<lparr>rd_jobs := rd_jobs s2 @ [job]\<rparr>" "admitted"
      by (auto simp: admit_def act_bind_Inr split: if_splits option.splits)
    from job_start_Inr [OF 1(3)] obtain t n where "job = \<lparr>jb_spec = sg, jb_thread = ts_next (rd_threads s), jb_attempts = 1\<rparr>"
      "s2 = s1\<lparr>rd_offset := offset, rd_tick := t, rd_threads := \<lparr>ts_next = n, ts_handles = ts_handles (rd_threads s) @ [jb_thread job]\<rparr>\<rparr>"
      using s1 by auto
    with 1 s1 space show ?thesis
      by (intro disjI2 conjI exI [of _ sg] exI [of _ p] exI [of _ job] exI [of _ t] exI [of _ n]) (auto simp: checked_add_Some_iff)
  qed
qed

lemma reader_ok_admit:
  assumes "reader_ok env width s h" "admit env s = (Inr admitted, s')"
  shows "reader_ok env width s' (if admitted then h\<lparr>hy_admitted := hy_admitted h @ [jb_spec (last (rd_jobs s'))]\<rparr> else h)"
  using admit_Inr [OF assms(2)]
proof (elim disjE conjE exE)
  assume "\<not> admitted" "s' = s\<lparr>rd_page := None\<rparr>"
  with assms(1) reader_ok_frame [of s' s env width h] show ?thesis by simp
next
  fix sg p job t n
  assume a: "admitted" "has_space s" "sg_offset sg = rd_offset s"
    and job: "job = \<lparr>jb_spec = sg, jb_thread = ts_next (rd_threads s), jb_attempts = 1\<rparr>"
    and s': "s' = s\<lparr>rd_page := p, rd_offset := rd_offset s + sg_rows sg, rd_jobs := rd_jobs s @ [job], rd_tick := t,
                 rd_threads := \<lparr>ts_next = n, ts_handles = ts_handles (rd_threads s) @ [jb_thread job]\<rparr>\<rparr>"
  let ?h = "h\<lparr>hy_admitted := hy_admitted h @ [sg]\<rparr>"
  have last_job: "jb_spec (last (rd_jobs s')) = sg" by (simp add: s' job)
  have slots: "slots_part s'" using assms(1) a(2) by (auto simp: reader_ok_def slots_part_def s' has_space_def)
  have "slot_specs s' = slot_specs s @ [sg]" by (simp add: slot_specs_def s' job)
  moreover have "offsets_ok (hy_admitted h @ [sg])"
    unfolding offsets_ok_snoc using assms(1) a(3) unfolding reader_ok_def order_part_def by metis
  ultimately have "order_part s' ?h" using assms(1) by (simp add: reader_ok_def order_part_def s')
  moreover have "current_ok env width c w ?h \<longleftrightarrow> current_ok env width c w h" for c w by (simp add: current_ok_def cong: option.case_cong)
  ultimately show ?thesis using slots assms(1) a(1) unfolding last_job by (auto simp: reader_ok_def s' split: option.splits)
qed

lemma ready_to_fetch_Inr: "ready_to_fetch env s = (Inr u, s') \<Longrightarrow> rd_awaiting s = None \<and> (\<exists>t. s' = s\<lparr>rd_tick := t\<rparr>)"
  by (auto simp: ready_to_fetch_def act_bind_Inr dest!: live_Inr)

lemma next_current_Inr:
  assumes "next_current env s = (Inr m, s')" "reader_ok env width s h" "rd_awaiting s = None"
  shows "reader_ok env width s' h \<and> rd_current s' = m \<and> rd_awaiting s' = None \<and> rd_parallel s' = rd_parallel s"
proof (cases "rd_current s = None \<and> rd_jobs s \<noteq> []")
  case False
  then have "s' = s \<and> m = rd_current s" using assms(1) by (auto simp: next_current_def split: option.splits list.splits)
  with assms show ?thesis by simp
next
  case True
  then obtain job jobs where jobs: "rd_jobs s = job # jobs" and none: "rd_current s = None" by (cases "rd_jobs s") auto
  from assms(1) jobs none obtain c s1 where 1: "job_wait env (3 - jb_attempts job) job (s\<lparr>rd_jobs := jobs\<rparr>) = (Inr c, s1)"
      "s' = s1\<lparr>rd_current := Some c\<rparr>" "m = Some c"
    by (auto simp: next_current_def act_bind_Inr)
  have threads: "mset (ts_handles (rd_threads s)) = add_mset (jb_thread job) (mset (map jb_thread jobs))"
    using assms(2) jobs by (simp add: reader_ok_def slots_part_def)
  then have "jb_thread job \<in> set (ts_handles (rd_threads s))" by (metis set_mset_mset union_single_eq_member)
  with job_wait_Inr [OF 1(1)] obtain i decoded t n hs where
    c: "rn_result env (jb_spec job) i = Some (Inr decoded)"
      "c = \<lparr>cu_spec = jb_spec job, cu_decoded = decoded, cu_emitted = 0, cu_committed = 0, cu_pending = None\<rparr>"
    and s1: "s1 = s\<lparr>rd_jobs := jobs, rd_tick := t, rd_threads := \<lparr>ts_next = n, ts_handles = hs\<rparr>\<rparr>"
      "mset hs = mset (ts_handles (rd_threads s)) - {#jb_thread job#}" by auto
  have s': "s' = s\<lparr>rd_jobs := jobs, rd_current := Some c, rd_tick := t, rd_threads := \<lparr>ts_next = n, ts_handles = hs\<rparr>\<rparr>"
    using 1(2) s1(1) by simp
  have slots: "slots_part s'" using assms(2) jobs none s1(2) threads by (simp add: reader_ok_def slots_part_def s')
  have "slot_specs s' = slot_specs s" by (simp add: slot_specs_def s' jobs none c(2))
  then have order: "order_part s' h" using assms(2) order_part_frame [of h s' h s] by (simp add: reader_ok_def s')
  have rows: "hy_rows h = []" "hy_batch h = []" using assms(2) none by (simp_all add: reader_ok_def)
  have "giving env width decoded [] c" by (simp add: c(2) giving_def pending_rows_def)
  then have "current_ok env width c None h" using c rows by (auto simp: current_ok_def)
  with slots order assms(2,3) none rows 1(3) show ?thesis by (simp add: reader_ok_def s')
qed

lemma no_more_rows_Inr:
  assumes "no_more_rows env width c s = (Inr u, s')" "giving env width raw xs c" "cu_emitted c = sg_rows (cu_spec c)"
  shows "whole_rows (rn_json env) width raw xs \<and> (\<exists>d. s' = s\<lparr>rd_current := Some (c\<lparr>cu_decoded := d\<rparr>)\<rparr>)"
proof -
  from assms(2,3) have "cu_pending c = None" by (cases "cu_pending c") (auto simp: giving_def)
  with assms(2) have "gives (rn_json env) width raw xs = Some (cu_decoded c)" by (simp add: giving_def pending_rows_def)
  with assms(1) show ?thesis by (auto simp: no_more_rows_def act_bind_Inr whole_rows_def split: prod.splits)
qed

lemma reader_ok_fetch:
  assumes "reader_ok env width s h" "reader_fetch env wanted width s = (Inr rows, s')"
  shows "reader_ok env width s' (h\<lparr>hy_rows := hy_rows h @ rows, hy_batch := rows\<rparr>) \<and> rd_parallel s' = rd_parallel s"
proof -
  let ?h = "h\<lparr>hy_rows := hy_rows h @ rows, hy_batch := rows\<rparr>"
  from assms(2) obtain s1 s2 m where 1: "ready_to_fetch env s = (Inr (), s1)" "next_current env s1 = (Inr m, s2)"
    by (auto simp: reader_fetch_def act_bind_Inr)
  from ready_to_fetch_Inr [OF 1(1)] assms(1) have s1: "reader_ok env width s1 h" "rd_awaiting s1 = None" "rd_parallel s1 = rd_parallel s"
    using reader_ok_frame [of s1 s env width h] by auto
  from next_current_Inr [OF 1(2) s1(1,2)] s1(3) have s2: "reader_ok env width s2 h" "rd_current s2 = m" "rd_awaiting s2 = None"
    and mode: "rd_parallel s2 = rd_parallel s" by simp_all
  show ?thesis
  proof (cases m)
    case None
    with assms(2) 1 have "s' = s2" "rows = []" by (auto simp: reader_fetch_def act_bind_Inr)
    moreover from s2 None have "h\<lparr>hy_rows := hy_rows h @ [], hy_batch := []\<rparr> = h" by (simp add: reader_ok_def)
    ultimately show ?thesis using s2(1) mode by simp
  next
    case (Some c)
    from s2 Some obtain i raw where raw: "rn_result env (cu_spec c) i = Some (Inr raw)" "giving env width raw (hy_rows h) c"
      and counts: "cu_committed c = length (hy_rows h)" "hy_batch h = []"
      by (auto simp: reader_ok_def current_ok_def)
    from assms(2) 1 Some obtain c' s3 s4 where
      3: "fetch_loop env width (min wanted 1000) [] (rn_row_capacity env (min wanted 1000) * size_of_row) c s2 = (Inr (rows, c'), s3)"
      and end_check: "(if cu_emitted c' = sg_rows (cu_spec c') then no_more_rows env width c' else act_return ())
          (s3\<lparr>rd_current := Some c'\<rparr>) = (Inr (), s4)"
      and s4': "s' = s4\<lparr>rd_awaiting := Some \<lparr>cm_rows = length rows, cm_boundary = (cu_emitted c' = sg_rows (cu_spec c'))\<rparr>\<rparr>"
      by (auto simp: reader_fetch_def act_bind_Inr Let_def)
    define boundary where boundary: "boundary = (cu_emitted c' = sg_rows (cu_spec c'))"
    from end_check have 4: "(if boundary then no_more_rows env width c' else act_return ()) (s3\<lparr>rd_current := Some c'\<rparr>) = (Inr (), s4)"
      by (simp add: boundary)
    from s4' have s': "s' = s4\<lparr>rd_awaiting := Some \<lparr>cm_rows = length rows, cm_boundary = boundary\<rparr>\<rparr>"
      by (simp add: boundary)
    from fetch_loop_Inr [OF 3 raw(2)] obtain t m' where giving: "giving env width raw (hy_rows h @ rows) c'"
      and s3: "s3 = s2\<lparr>rd_tick := t, rd_current := m'\<rparr>" and same: "cu_spec c' = cu_spec c" "cu_committed c' = cu_committed c"
      by auto
    obtain d where s4: "s4 = s3\<lparr>rd_current := Some (c'\<lparr>cu_decoded := d\<rparr>)\<rparr>"
      and ends: "if boundary then whole_rows (rn_json env) width raw (hy_rows h @ rows) else c'\<lparr>cu_decoded := d\<rparr> = c'"
    proof (cases boundary)
      case True
      with 4 no_more_rows_Inr [OF _ giving, of "s3\<lparr>rd_current := Some c'\<rparr>" "()" s4] boundary that show ?thesis by auto
    next
      case False
      with 4 that [of "cu_decoded c'"] show ?thesis by simp
    qed
    let ?c = "c'\<lparr>cu_decoded := d\<rparr>"
    have full: "s' = s2\<lparr>rd_tick := t, rd_current := Some ?c, rd_awaiting := Some \<lparr>cm_rows = length rows, cm_boundary = boundary\<rparr>\<rparr>"
      by (simp add: s' s4 s3)
    have "length (hy_rows h @ rows) = sg_rows (cu_spec c)" if boundary
      using giving that boundary same by (simp add: giving_def)
    then have "current_ok env width ?c (rd_awaiting s') ?h"
      unfolding current_ok_def using raw(1) giving ends counts same
      by (intro conjI exI [of _ i] exI [of _ raw]) (auto simp: full)
    moreover have "slots_part s'" using s2 Some by (simp add: reader_ok_def slots_part_def full)
    moreover have "slot_specs s' = slot_specs s2" using s2 Some same by (simp add: slot_specs_def full)
    then have "order_part s' ?h" using s2 order_part_frame [of ?h s' h s2] by (simp add: reader_ok_def full)
    ultimately show ?thesis using s2 Some counts same mode by (simp add: reader_ok_def full)
  qed
qed

lemma call_ack_Inr:
  assumes "call_ack env sg s = (Inr acked, s')"
  shows "\<exists>stopped activity round sent. ack (rn_library env) stopped activity round sg = (Inr acked, sent)
    \<and> s' = s\<lparr>rd_acks := rd_acks s @ [(sg, sent)]\<rparr>"
  using assms by (auto simp: call_ack_def split: prod.splits)

lemma end_segment_Inr:
  assumes "end_segment env c s = (Inr u, s')"
  shows "cu_committed c = sg_rows (cu_spec c)
    \<and> (\<exists>n stopped activity round acked sent. ack (rn_library env) stopped activity round (cu_spec c) = (Inr acked, sent)
         \<and> s' = s\<lparr>rd_acks := rd_acks s @ [(cu_spec c, sent)], rd_ack_failures := n, rd_current := None\<rparr>)"
proof -
  from assms obtain acked s1 where committed: "cu_committed c = sg_rows (cu_spec c)"
    and asked: "call_ack env (cu_spec c) s = (Inr acked, s1)"
    and s': "s' = s1\<lparr>rd_ack_failures := (if acked then rd_ack_failures s1 else saturating_add (rd_ack_failures s1) 1), rd_current := None\<rparr>"
    by (auto simp: end_segment_def act_bind_Inr)
  from call_ack_Inr [OF asked] obtain stopped activity round sent where
    sent: "ack (rn_library env) stopped activity round (cu_spec c) = (Inr acked, sent)"
    and s1: "s1 = s\<lparr>rd_acks := rd_acks s @ [(cu_spec c, sent)]\<rparr>" by blast
  show ?thesis
    by (intro conjI committed exI [of _ "if acked then rd_ack_failures s1 else saturating_add (rd_ack_failures s1) 1"]
        exI [of _ stopped] exI [of _ activity] exI [of _ round] exI [of _ acked] exI [of _ sent] sent) (simp add: s' s1)
qed

text \<open>A successful commit: the awaited batch, and whether it ends its segment.\<close>

lemma reader_commit_Inr:
  assumes "reader_commit env n s = (Inr more_rows, s')"
  obtains t where "\<not> more_rows" "s' = s\<lparr>rd_tick := t\<rparr>"
    | t m c where "more_rows" "rd_awaiting s = Some m" "rd_current s = Some c" "n = cm_rows m" "\<not> cm_boundary m"
      "s' = s\<lparr>rd_tick := t, rd_awaiting := None, rd_current := Some (c\<lparr>cu_committed := cu_committed c + n\<rparr>)\<rparr>"
    | t m c k stopped activity round acked sent where "more_rows" "rd_awaiting s = Some m" "rd_current s = Some c" "n = cm_rows m" "cm_boundary m"
      "cu_committed c + n = sg_rows (cu_spec c)"
      "ack (rn_library env) stopped activity round (cu_spec c) = (Inr acked, sent)"
      "s' = s\<lparr>rd_tick := t, rd_awaiting := None, rd_acks := rd_acks s @ [(cu_spec c, sent)], rd_ack_failures := k, rd_current := None\<rparr>"
proof -
  from assms obtain s1 where s1: "live env s = (Inr (), s1)" by (auto simp: reader_commit_def act_bind_Inr)
  from live_Inr [OF s1] obtain t where t: "s1 = s\<lparr>rd_tick := t\<rparr>" by blast
  show ?thesis
  proof (cases "rd_awaiting s")
    case None
    with assms s1 t that(1) [of t] show ?thesis by (auto simp: reader_commit_def act_bind_Inr)
  next
    case (Some m)
    with assms s1 t obtain c s2 where 1: "n = cm_rows m" "rd_current s = Some c" "more_rows"
      and s2: "(if cm_boundary m then end_segment env (c\<lparr>cu_committed := cu_committed c + n\<rparr>) else act_return ())
          (s\<lparr>rd_tick := t, rd_awaiting := None, rd_current := Some (c\<lparr>cu_committed := cu_committed c + n\<rparr>)\<rparr>) = (Inr (), s')"
      by (auto simp: reader_commit_def act_bind_Inr ok_or_Inr_iff checked_add_Some_iff Let_def)
    show ?thesis
    proof (cases "cm_boundary m")
      case True
      with s2 have "end_segment env (c\<lparr>cu_committed := cu_committed c + n\<rparr>)
          (s\<lparr>rd_tick := t, rd_awaiting := None, rd_current := Some (c\<lparr>cu_committed := cu_committed c + n\<rparr>)\<rparr>) = (Inr (), s')"
        by simp
      from end_segment_Inr [OF this] obtain k stopped activity round acked sent where k: "cu_committed c + n = sg_rows (cu_spec c)"
        "ack (rn_library env) stopped activity round (cu_spec c) = (Inr acked, sent)"
        "s' = s\<lparr>rd_tick := t, rd_awaiting := None, rd_acks := rd_acks s @ [(cu_spec c, sent)], rd_ack_failures := k, rd_current := None\<rparr>"
        by auto
      from that(3) [OF 1(3) Some 1(2,1) True k] show ?thesis .
    next
      case False
      with s2 that(2) [of m c t] 1 Some show ?thesis by simp
    qed
  qed
qed

lemma reader_ok_commit:
  assumes "reader_ok env width s h" "reader_commit env n s = (Inr more_rows, s')"
  shows "reader_ok env width s' (if more_rows then commit_history s s' h else h)"
  using assms(2)
proof (cases rule: reader_commit_Inr)
  case (1 t)
  with assms(1) reader_ok_frame [of s' s env width h] show ?thesis by simp
next
  case (2 t m c)
  from assms(1) 2 have c: "current_ok env width c (Some m) h" "hy_committed h = concat (map snd (hy_done h)) @ take (cu_committed c) (hy_rows h)"
    by (simp_all add: reader_ok_def)
  let ?h = "h\<lparr>hy_committed := hy_committed h @ hy_batch h, hy_batch := []\<rparr>" let ?c = "c\<lparr>cu_committed := cu_committed c + n\<rparr>"
  have "hy_batch h = drop (cu_committed c) (hy_rows h)" "cu_committed c + n = length (hy_rows h)"
    using c(1) 2 by (simp_all add: current_ok_def)
  then have rows: "hy_committed ?h = concat (map snd (hy_done h)) @ take (cu_committed ?c) (hy_rows h)" using c(2) by simp
  have "current_ok env width ?c None ?h"
    using c(1) 2 by (auto simp: current_ok_def giving_def pending_rows_def)
  moreover have "slots_part s'" using assms(1) 2 by (simp add: reader_ok_def slots_part_def)
  moreover have "slot_specs s' = slot_specs s" using 2 by (simp add: slot_specs_def)
  then have "order_part s' ?h" using assms(1) order_part_frame [of ?h s' h s] 2 by (simp add: reader_ok_def)
  ultimately have "reader_ok env width s' ?h" using assms(1) rows 2 by (simp add: reader_ok_def)
  then show ?thesis using 2 by (simp add: commit_history_def)
next
  case (3 t m c k stopped activity round acked sent)
  from assms(1) 3 have c: "current_ok env width c (Some m) h" "hy_committed h = concat (map snd (hy_done h)) @ take (cu_committed c) (hy_rows h)"
    by (simp_all add: reader_ok_def)
  let ?h = "h\<lparr>hy_committed := hy_committed h @ hy_batch h, hy_batch := [], hy_done := hy_done h @ [(cu_spec c, hy_rows h)], hy_rows := []\<rparr>"
  from c(1) 3 have batch: "hy_batch h = drop (cu_committed c) (hy_rows h)" by (simp add: current_ok_def)
  from c(1) 3 have "segment_done_ok env width (cu_spec c, hy_rows h)" by (auto simp: current_ok_def segment_done_ok_def)
  moreover have "slots_part s'" using assms(1) 3 by (simp add: reader_ok_def slots_part_def)
  moreover have "map fst (hy_done ?h) @ slot_specs s' = map fst (hy_done h) @ slot_specs s"
    using 3 by (simp add: slot_specs_def)
  then have "order_part s' ?h" using assms(1) order_part_frame [of ?h s' h s] 3 by (simp add: reader_ok_def)
  moreover have "acks_ok env s h" using assms(1) by (simp add: reader_ok_def)
  then have "acks_ok env s' ?h" using 3(7,8) by (auto simp: acks_ok_def)
  ultimately have "reader_ok env width s' ?h" using assms(1) c(2) batch 3 by (simp add: reader_ok_def)
  then show ?thesis using 3 by (simp add: commit_history_def)
qed

lemma reader_ok_new: "reader_ok env width (segment_reader_new two_slots) history_new"
  by (simp add: reader_ok_def segment_reader_new_def history_new_def slots_part_def order_part_def slot_specs_def offsets_ok_def
      acks_ok_def)

lemma reader_ok_step:
  assumes "reader_ok env width s h" "segment_reader_step env width op (s, h) = Some (s', h')"
  shows "reader_ok env width s' h' \<and> rd_parallel s' = rd_parallel s"
proof (cases op)
  case (Page raw)
  with assms obtain p where "install p s = (Inr (), s')" "h' = h" by (auto split: sum.splits prod.splits)
  with reader_ok_install [OF assms(1)] show ?thesis by (auto simp: install_def split: if_splits)
next
  case Admit
  with assms(2) obtain admitted where a: "admit env s = (Inr admitted, s')"
    and h': "h' = (if admitted then h\<lparr>hy_admitted := hy_admitted h @ [jb_spec (last (rd_jobs s'))]\<rparr> else h)"
    by (auto split: sum.splits prod.splits)
  from admit_Inr [OF a] have "rd_parallel s' = rd_parallel s" by auto
  with reader_ok_admit [OF assms(1) a] h' show ?thesis by simp
next
  case (Fetch wanted)
  with assms(2) obtain rows where "reader_fetch env wanted width s = (Inr rows, s')"
    "h' = h\<lparr>hy_rows := hy_rows h @ rows, hy_batch := rows\<rparr>" by (auto split: sum.splits prod.splits)
  with reader_ok_fetch [OF assms(1)] show ?thesis by simp
next
  case (Commit n)
  with assms(2) obtain more_rows where c: "reader_commit env n s = (Inr more_rows, s')"
    and h': "h' = (if more_rows then commit_history s s' h else h)" by (auto split: sum.splits prod.splits)
  from c have "rd_parallel s' = rd_parallel s" by (cases rule: reader_commit_Inr) simp_all
  with reader_ok_commit [OF assms(1) c] h' show ?thesis by simp
qed

lemma reader_ok_run:
  assumes "reader_ok env width s h" "reader_run env width ops (s, h) = Some (s', h')"
  shows "reader_ok env width s' h' \<and> rd_parallel s' = rd_parallel s"
  using assms
proof (induction ops arbitrary: s h)
  case (Cons op ops)
  then obtain s1 h1 where "segment_reader_step env width op (s, h) = Some (s1, h1)" "reader_run env width ops (s1, h1) = Some (s', h')"
    by (auto simp: bind_eq_Some_conv)
  with Cons.IH [of s1 h1] reader_ok_step [OF Cons.prems(1)] show ?case by simp
qed simp

section \<open>Exported rows\<close>

lemma gives_prefix: "gives env width raw (xs @ ys) \<noteq> None \<Longrightarrow> gives env width raw xs \<noteq> None"
  by (auto simp: gives_append split: bind_split_asm)

lemma current_rows:
  assumes "current_ok env width c awaiting h"
  shows "\<exists>i raw. rn_result env (cu_spec c) i = Some (Inr raw)
    \<and> gives (rn_json env) width raw (take (cu_committed c) (hy_rows h)) \<noteq> None"
proof -
  from assms obtain i raw where raw: "rn_result env (cu_spec c) i = Some (Inr raw)"
    and cases: "whole_rows (rn_json env) width raw (hy_rows h) \<or> giving env width raw (hy_rows h) c"
    by (auto simp: current_ok_def split: if_splits)
  from cases have "gives (rn_json env) width raw (hy_rows h) \<noteq> None"
    using gives_prefix [of "rn_json env" width raw "hy_rows h" "pending_rows c"]
    by (auto simp: whole_rows_def giving_def split: option.splits)
  then have "gives (rn_json env) width raw (take (cu_committed c) (hy_rows h)) \<noteq> None"
    using gives_prefix [of "rn_json env" width raw "take (cu_committed c) (hy_rows h)" "drop (cu_committed c) (hy_rows h)"]
    by simp
  with raw show ?thesis by blast
qed

lemma slot_specs_length: "length (slot_specs s) = length (rd_jobs s) + of_bool (rd_current s \<noteq> None)"
  by (simp add: slot_specs_def split: option.split)

section \<open>Calls that acknowledge nothing\<close>

text \<open>A call that sends no acknowledgement, whether or not it succeeds.\<close>

definition quiet :: "('u, 'a) reader_act \<Rightarrow> bool" where
  "quiet m \<longleftrightarrow> (\<forall>s. rd_acks (snd (m s)) = rd_acks s)"

named_theorems quiet_calls \<open>calls that acknowledge nothing\<close>

lemma quiet_bind [quiet_calls]: "quiet m \<Longrightarrow> (\<And>a. quiet (f a)) \<Longrightarrow> quiet (act_bind m f)"
  by (auto simp: quiet_def act_bind_def split: prod.splits sum.splits) (metis snd_conv)+

lemma quiet_basic [quiet_calls]:
  "quiet (act_return a)" "quiet (act_lift r)" "(\<And>s. rd_acks (f s) = rd_acks s) \<Longrightarrow> quiet (act_set f)" "quiet (live env)"
  "quiet (next_spec env)" "quiet (spawn_thread env)" "quiet (not_expired env sg)"
  by (auto simp: quiet_def act_return_def act_lift_def act_set_def live_def next_spec_def spawn_thread_def not_expired_def
      Let_def split: prod.split option.split)

lemma quiet_state: "(\<And>s. quiet (m s)) \<Longrightarrow> quiet (\<lambda>s. m s s)"
  by (simp add: quiet_def)

lemma quiet_if [quiet_calls]: "quiet m \<Longrightarrow> quiet m' \<Longrightarrow> quiet (if b then m else m')"
  by simp

lemma quiet_join [quiet_calls]: "quiet (join_thread env i)"
  unfolding join_thread_def
  by (rule quiet_bind, rule quiet_basic) (auto simp: quiet_def Let_def split: join_result.split)

lemma quiet_job_start [quiet_calls]: "quiet (job_start env sg n)"
  unfolding job_start_def by (intro quiet_calls)

lemma quiet_polls [quiet_calls]: "quiet (poll_checks env n)"
  by (induction n) (auto intro: quiet_calls)

lemma quiet_receive [quiet_calls]: "quiet (receive_result env job)"
  unfolding receive_result_def by (intro quiet_calls)

lemma quiet_job_wait [quiet_calls]: "quiet (job_wait env left job)"
proof (induction left arbitrary: job)
  case 0
  show ?case by (subst job_wait.simps) (auto intro!: quiet_calls split: sum.split)
next
  case (Suc left)
  show ?case by (subst job_wait.simps) (auto intro!: quiet_calls Suc split: sum.split)
qed

lemma quiet_next_current [quiet_calls]: "quiet (next_current env)"
proof -
  have "quiet (act_bind (act_set (\<lambda>s. s\<lparr>rd_jobs := jobs\<rparr>)) (\<lambda>_. act_bind (job_wait env n job) (\<lambda>c.
      act_bind (act_set (\<lambda>s. s\<lparr>rd_current := Some c\<rparr>)) (\<lambda>_. act_return (Some c)))))" for jobs n job
    by (intro quiet_calls) simp_all
  then show ?thesis by (auto simp: quiet_def next_current_def split: option.split list.split)
qed

lemma quiet_next_row [quiet_calls]: "quiet (next_row env width c)"
  unfolding next_row_def by (auto intro!: quiet_calls split: option.split prod.split)

lemma quiet_fetch_loop [quiet_calls]: "quiet (fetch_loop env width n rows bytes c)"
proof (induction n arbitrary: rows bytes c)
  case (Suc n)
  show ?case unfolding fetch_loop.simps Let_def
    by (rule quiet_if, rule quiet_basic, rule quiet_bind, rule quiet_basic, rule quiet_bind, rule quiet_next_row,
        rule quiet_state, rule quiet_bind, rule quiet_basic, rule quiet_if, rule quiet_basic, rule Suc)
qed (simp add: quiet_calls)

lemma quiet_no_more_rows [quiet_calls]: "quiet (no_more_rows env width c)"
  unfolding no_more_rows_def by (auto intro!: quiet_calls split: prod.split)

lemma quiet_ready [quiet_calls]: "quiet (ready_to_fetch env)"
  unfolding ready_to_fetch_def by (rule quiet_bind, rule quiet_basic, rule quiet_state, rule quiet_basic)

lemma quiet_fetch: "quiet (reader_fetch env wanted width)"
proof -
  have end_check: "quiet (if b then no_more_rows env width c else act_return ())" for b c by (intro quiet_calls)
  have rows: "quiet (act_bind (fetch_loop env width n [] bytes c) (\<lambda>(rows, c).
      act_bind (act_set (\<lambda>s. s\<lparr>rd_current := Some c\<rparr>)) (\<lambda>_.
      act_bind (if cu_emitted c = sg_rows (cu_spec c) then no_more_rows env width c else act_return ()) (\<lambda>_.
      act_bind (act_set (\<lambda>s. s\<lparr>rd_awaiting := Some \<lparr>cm_rows = length rows, cm_boundary = (cu_emitted c = sg_rows (cu_spec c))\<rparr>\<rparr>)) (\<lambda>_.
        act_return rows)))))" for n bytes c
    unfolding case_prod_beta by (intro quiet_bind quiet_fetch_loop end_check quiet_basic) simp_all
  show ?thesis
    unfolding reader_fetch_def Let_def
    by (rule quiet_bind, rule quiet_ready, rule quiet_bind, rule quiet_next_current)
      (auto intro: rows quiet_basic split: option.split)
qed

lemma quiet_admit: "quiet (admit env)"
proof -
  have "quiet (act_bind (act_set (\<lambda>s. s\<lparr>rd_offset := offset\<rparr>)) (\<lambda>_. act_bind (job_start env sg 1) (\<lambda>job.
      act_bind (act_set (\<lambda>s. s\<lparr>rd_jobs := rd_jobs s @ [job]\<rparr>)) (\<lambda>_. act_return True))))" for offset sg
    by (intro quiet_calls) simp_all
  then have add: "quiet (\<lambda>s. if sg_offset sg \<noteq> rd_offset s then (Inl Offset_Mismatch, s) else
      (case checked_add (rd_offset s) (sg_rows sg) of
         None \<Rightarrow> (Inl Row_Overflow, s)
       | Some offset \<Rightarrow> act_bind (act_set (\<lambda>s. s\<lparr>rd_offset := offset\<rparr>)) (\<lambda>_. act_bind (job_start env sg 1) (\<lambda>job.
           act_bind (act_set (\<lambda>s. s\<lparr>rd_jobs := rd_jobs s @ [job]\<rparr>)) (\<lambda>_. act_return True))) s))" for sg
    by (auto simp: quiet_def split: option.split)
  have "quiet (act_bind (next_spec env) (\<lambda>m. case m of
      None \<Rightarrow> act_bind (act_set (\<lambda>s. s\<lparr>rd_page := None\<rparr>)) (\<lambda>_. act_return False)
    | Some sg \<Rightarrow> (\<lambda>s. if sg_offset sg \<noteq> rd_offset s then (Inl Offset_Mismatch, s) else
      (case checked_add (rd_offset s) (sg_rows sg) of
         None \<Rightarrow> (Inl Row_Overflow, s)
       | Some offset \<Rightarrow> act_bind (act_set (\<lambda>s. s\<lparr>rd_offset := offset\<rparr>)) (\<lambda>_. act_bind (job_start env sg 1) (\<lambda>job.
           act_bind (act_set (\<lambda>s. s\<lparr>rd_jobs := rd_jobs s @ [job]\<rparr>)) (\<lambda>_. act_return True))) s))))"
    using add by (auto intro!: quiet_calls split: option.split)
  then show ?thesis by (simp add: quiet_def admit_def)
qed

text \<open>A commit acknowledges at most the current segment, when all its rows are committed.\<close>

lemma call_ack_acks: "\<exists>sent. rd_acks (snd (call_ack env sg s)) = rd_acks s @ [(sg, sent)]"
  by (auto simp: call_ack_def split: prod.split)

lemma end_segment_acks:
  "rd_acks (snd (end_segment env c s)) = rd_acks s
   \<or> (cu_committed c = sg_rows (cu_spec c) \<and> (\<exists>sent. rd_acks (snd (end_segment env c s)) = rd_acks s @ [(cu_spec c, sent)]))"
  using call_ack_acks [of env "cu_spec c" s]
  by (cases "call_ack env (cu_spec c) s"; cases "fst (call_ack env (cu_spec c) s)")
    (auto simp: end_segment_def act_bind_def act_lift_def act_set_def ensure_def)

lemma commit_acks:
  "rd_acks (snd (reader_commit env n s)) = rd_acks s
   \<or> (\<exists>c sent. rd_current s = Some c \<and> cu_committed c + n = sg_rows (cu_spec c)
        \<and> rd_acks (snd (reader_commit env n s)) = rd_acks s @ [(cu_spec c, sent)])"
proof (cases "\<exists>m c k. \<not> rn_stopped env (rd_tick s) \<and> rd_awaiting s = Some m \<and> n = cm_rows m \<and> rd_current s = Some c
    \<and> checked_add (cu_committed c) n = Some k")
  case True
  then obtain m c k where 1: "\<not> rn_stopped env (rd_tick s)" "rd_awaiting s = Some m" "n = cm_rows m" "rd_current s = Some c"
    "checked_add (cu_committed c) n = Some k" by blast
  let ?c = "c\<lparr>cu_committed := k\<rparr>"
  let ?s = "s\<lparr>rd_tick := rd_tick s + 1, rd_awaiting := None, rd_current := Some ?c\<rparr>"
  have step: "rd_acks (snd (act_bind f (\<lambda>_. act_return True) s1)) = rd_acks (snd (f s1))" for f :: "('a, unit) reader_act" and s1
    by (auto simp: act_bind_def act_return_def split: prod.split sum.split)
  have "rd_acks (snd (reader_commit env n s))
      = rd_acks (snd (act_bind (if cm_boundary m then end_segment env ?c else act_return ()) (\<lambda>_. act_return True) ?s))"
    using 1 by (simp add: reader_commit_def live_def ensure_def act_lift_def act_set_def act_bind_def ok_or_def Let_def)
  also have "\<dots> = rd_acks (snd ((if cm_boundary m then end_segment env ?c else act_return ()) ?s))" by (rule step)
  finally have "rd_acks (snd (reader_commit env n s)) = rd_acks s
      \<or> rd_acks (snd (reader_commit env n s)) = rd_acks (snd (end_segment env ?c ?s))"
    by (auto simp: act_return_def)
  with end_segment_acks [of env ?c ?s] 1 show ?thesis by (auto simp: checked_add_Some_iff)
next
  case False
  then have "rd_acks (snd (reader_commit env n s)) = rd_acks s"
    by (auto simp: reader_commit_def live_def ensure_def act_lift_def act_set_def act_bind_def act_return_def ok_or_def Let_def
        split: option.split)
  then show ?thesis by blast
qed

text \<open>
  C10. Whatever pages arrive, rows are asked for and commits are made in, as long as no step has
  failed: the calls of \<open>ack\<close> that were made are exactly one for each finished segment, in the order of
  the server, and each finished segment had exactly the rows that its downloaded body holds, as many
  as it declared. The next call, also one that fails, sends no acknowledgement unless it is a commit
  with which all rows of the current segment are committed, and then one, for that segment. The
  committed rows are
  theirs in order, followed by a first part of the rows of the next segment. Each segment starts at
  the row where the ones before it end, so that with no segment open exactly the announced rows are
  committed. At most two segments (one without parallel downloads) are open, and each waiting one has
  one thread, so that the thread limit never stops a segment that has a slot.
\<close>

theorem committed_rows_follow_the_segments:
  assumes "reader_run env width ops (segment_reader_new two_slots, history_new) = Some (s, h)"
  shows "(\<exists>waiting. hy_admitted h = map fst (hy_done h) @ waiting \<and> length waiting \<le> (if two_slots then 2 else 1))
    \<and> map fst (rd_acks s) = map fst (hy_done h)
    \<and> (\<forall>(sg, sent) \<in> set (rd_acks s). \<exists>stopped activity round acked.
         ack (rn_library env) stopped activity round sg = (Inr acked, sent))
    \<and> (\<forall>n. rd_acks (snd (reader_commit env n s)) = rd_acks s
         \<or> (\<exists>c sent. rd_current s = Some c \<and> cu_committed c + n = sg_rows (cu_spec c)
              \<and> rd_acks (snd (reader_commit env n s)) = rd_acks s @ [(cu_spec c, sent)]))
    \<and> (\<forall>wanted. rd_acks (snd (reader_fetch env wanted width s)) = rd_acks s)
    \<and> rd_acks (snd (admit env s)) = rd_acks s
    \<and> (\<forall>(sg, rows) \<in> set (hy_done h). length rows = sg_rows sg
         \<and> (\<exists>i raw. rn_result env sg i = Some (Inr raw) \<and> whole_rows (rn_json env) width raw rows))
    \<and> (\<exists>part. hy_committed h = concat (map snd (hy_done h)) @ part
         \<and> (part \<noteq> [] \<longrightarrow> length (hy_done h) < length (hy_admitted h)
              \<and> (\<exists>i raw. rn_result env (hy_admitted h ! length (hy_done h)) i = Some (Inr raw)
                   \<and> gives (rn_json env) width raw part \<noteq> None)))
    \<and> offsets_ok (hy_admitted h)
    \<and> (\<not> has_slots s \<longrightarrow> length (hy_committed h) = sum_list (map sg_rows (hy_admitted h)))
    \<and> length (ts_handles (rd_threads s)) = length (rd_jobs s)
    \<and> (has_space s \<longrightarrow> length (ts_handles (rd_threads s)) < MAX_SEGMENT_THREADS)"
proof -
  have ok: "reader_ok env width s h" and mode: "rd_parallel s = two_slots"
    using reader_ok_run [OF reader_ok_new assms] by (simp_all add: segment_reader_new_def)
  then have order: "order_part s h" and slots: "slots_part s" and finished: "list_all (segment_done_ok env width) (hy_done h)"
    by (simp_all add: reader_ok_def)
  have admitted: "hy_admitted h = map fst (hy_done h) @ slot_specs s" using order unfolding order_part_def by blast
  have offsets: "offsets_ok (hy_admitted h)" using order unfolding order_part_def by blast
  have few: "length (slot_specs s) \<le> (if two_slots then 2 else 1)"
    using slots mode by (simp add: slot_specs_length slots_part_def)
  have threads: "length (ts_handles (rd_threads s)) = length (rd_jobs s)"
    using slots unfolding slots_part_def by (metis size_mset length_map)
  have whole: "\<forall>(sg, rows) \<in> set (hy_done h). length rows = sg_rows sg
      \<and> (\<exists>i raw. rn_result env sg i = Some (Inr raw) \<and> whole_rows (rn_json env) width raw rows)"
    using finished by (fastforce simp: list_all_iff segment_done_ok_def)
  have part: "\<exists>part. hy_committed h = concat (map snd (hy_done h)) @ part
      \<and> (part \<noteq> [] \<longrightarrow> length (hy_done h) < length (hy_admitted h)
           \<and> (\<exists>i raw. rn_result env (hy_admitted h ! length (hy_done h)) i = Some (Inr raw)
                \<and> gives (rn_json env) width raw part \<noteq> None))"
  proof (cases "rd_current s")
    case None
    with ok show ?thesis by (simp add: reader_ok_def)
  next
    case (Some c)
    then have "hy_admitted h ! length (hy_done h) = cu_spec c" "length (hy_done h) < length (hy_admitted h)"
      using admitted by (simp_all add: slot_specs_def nth_append)
    with ok Some current_rows [of env width c "rd_awaiting s" h] show ?thesis
      by (intro exI [of _ "take (cu_committed c) (hy_rows h)"]) (simp add: reader_ok_def)
  qed
  have complete: "length (hy_committed h) = sum_list (map sg_rows (hy_admitted h))" if "\<not> has_slots s"
  proof -
    from that have "slot_specs s = []" "rd_current s = None" by (simp_all add: has_slots_def slot_specs_def)
    moreover have "sum_list (map (length \<circ> snd) (hy_done h)) = sum_list (map (sg_rows \<circ> fst) (hy_done h))"
      using whole by (intro arg_cong [where f = sum_list] map_cong) auto
    ultimately show ?thesis using ok admitted by (simp add: reader_ok_def length_concat)
  qed
  have limit: "has_space s \<longrightarrow> length (ts_handles (rd_threads s)) < MAX_SEGMENT_THREADS"
    by (auto simp: threads has_space_def MAX_SEGMENT_THREADS_def split: if_splits)
  have waiting: "\<exists>waiting. hy_admitted h = map fst (hy_done h) @ waiting \<and> length waiting \<le> (if two_slots then 2 else 1)"
    using admitted few by blast
  have acks: "map fst (rd_acks s) = map fst (hy_done h)"
    "\<forall>(sg, sent) \<in> set (rd_acks s). \<exists>stopped activity round acked.
       ack (rn_library env) stopped activity round sg = (Inr acked, sent)"
    using ok unfolding reader_ok_def acks_ok_def by blast+
  have silent: "\<forall>wanted. rd_acks (snd (reader_fetch env wanted width s)) = rd_acks s" "rd_acks (snd (admit env s)) = rd_acks s"
    using quiet_fetch quiet_admit unfolding quiet_def by blast+
  show ?thesis
    by (intro conjI waiting acks allI commit_acks silent [rule_format] whole part offsets threads limit impI) (rule complete)
qed

text \<open>One segment with one row: the first attempt fails, the second one gives the row.\<close>

definition sample_reader_env :: "string reader_env" where
  "sample_reader_env =
     \<lparr>rn_library = sample_library\<lparr>sl_page := \<lambda>_. Some (''json'', [(0, 0)], True)\<rparr>,
      rn_json = \<lparr>rv_value = (\<lambda>_. Some (Some 3)), rv_items = (\<lambda>_. ([''1''], True)), rv_string = (\<lambda>_. None), rv_capacity = length\<rparr>,
      rn_capacities = \<lparr>cap_rows = length, cap_cells = length, cap_text = length\<rparr>, rn_row_capacity = (\<lambda>n. n),
      rn_stopped = (\<lambda>_. False), rn_now = (\<lambda>_. 0), rn_activity = (\<lambda>_. True), rn_spawns = (\<lambda>_. True),
      rn_polls = (\<lambda>_. 1),
      rn_result = (\<lambda>_ i. Some (if i = 0 then Inl (Request_Failed, True) else Inr \<lparr>rr_text = ''[[1]]'', rr_offset = 1\<rparr>)),
      rn_join = (\<lambda>_. Joined), rn_ack = (\<lambda>_. (False, None, sample_round))\<rparr>"

definition sample_reader_ops :: "reader_op list" where
  "sample_reader_ops = [Page [], Admit, Fetch 10, Commit 1, Admit]"

definition reader_view :: "('u reader \<times> 'u history) option \<Rightarrow> (bool \<times> row list \<times> nat list \<times> nat \<times> nat) option" where
  "reader_view x =
     map_option (\<lambda>(s, h). (has_slots s, hy_committed h, map sg_rows (hy_admitted h), ts_next (rd_threads s), length (rd_acks s))) x"

lemma sample_reader_view:
  "reader_view (reader_run sample_reader_env 1 sample_reader_ops (segment_reader_new True, history_new))
     = Some (False, [[Some ''1'']], [1], 2, 1)"
  by code_simp

theorem committed_rows_follow_the_segments_witness:
  "\<exists>s h. reader_run sample_reader_env 1 sample_reader_ops (segment_reader_new True, history_new) = Some (s, h)
     \<and> hy_committed h = [[Some ''1'']] \<and> length (hy_committed h) = sum_list (map sg_rows (hy_admitted h))
     \<and> offsets_ok (hy_admitted h) \<and> length (rd_acks s) = 1 \<and> map fst (rd_acks s) = map fst (hy_done h)"
proof -
  obtain s h where run: "reader_run sample_reader_env 1 sample_reader_ops (segment_reader_new True, history_new) = Some (s, h)"
    and view: "\<not> has_slots s" "hy_committed h = [[Some ''1'']]" "length (rd_acks s) = 1"
    using sample_reader_view by (auto simp: reader_view_def)
  from committed_rows_follow_the_segments [OF run] view show ?thesis using run by blast
qed

end
