(* ===== verification/Spec2Isabelle.thy ===== *)
theory Spec2Isabelle
  imports Sql_Format Logs_Props Activity Budget_Props Jobs Decimal Names Catalog_Settings Schema_Rules
    Export_Stream Download Oidc_Jwt Inbox Thrift_Limits Disk Dbt_Matching Refresh_Queue Transcripts
    Trino_Session Workspace External_Auth Broker Segment_Reader
begin

text \<open>
  A verification of the core of Qrow, a desktop client for SQL servers (Kyuubi and other servers of
  the HiveServer2 protocol, Postgres, Trino). The crate is \<open>src/src/\<close>; paths below are relative to
  it. The program is a window (\<open>ui\<close>) over worker threads: one worker per connection runs statements
  and downloads results, one catalog worker keeps the schema tree of each connection, one worker
  reads dbt projects, and one worker runs the assistant. They share the workspace, the logs, the
  memory budget and the registry of exports. The development models the parts with logic of their
  own, each as the code has it, and proves what makes them correct.

  \<^bold>\<open>How the code is translated.\<close> A Rust \<open>str\<close> is a HOL \<open>string\<close> of UTF-8 bytes, and every index is a
  byte offset; \<open>Rust_Str\<close> has the characters. A struct is a record, an enum is a datatype with the
  variants of the code, and \<open>Result\<close> is a sum whose left side is an error datatype with one
  constructor per message. A panic is \<open>None\<close>. Unsigned integers are naturals; where the code
  checks or wraps (\<open>checked_add\<close>, \<open>saturating_sub\<close>, a maximum of \<open>u64\<close>) the model has the check.
  A lock is a step: what runs under one lock is one function of the state, and threads are sequences
  of such steps in any order (\<open>run_from\<close>). Loops are recursion over their variables.

  \<^bold>\<open>The shared library.\<close> \<open>Rust_Prelude\<close> (results, slices, positions, digits, the locale
  \<open>kept_invariant\<close>: an invariant that every operation keeps holds after any run), \<open>Rust_Str\<close>
  (UTF-8, Unicode classes, trimming, splitting), \<open>Btree\<close> (ordered maps) and \<open>Assoc_Sums\<close> (maps with a
  sum over their values).

  \<^bold>\<open>SQL.\<close> \<open>Database_Type\<close> (\<open>model.rs\<close>, \<open>DatabaseType\<close>), \<open>Sql_Lexer\<close>, \<open>Sql_Statements\<close> and
  \<open>Sql_Format\<close> (\<open>sql.rs\<close>): the tokens cover the text (C1), a quoted identifier is one token (C2),
  statement ranges are ordered and hold every significant token (C3, C4), the single-statement
  check counts them (C5), and the checked formatter keeps all tokens (C7) whatever the layout crate
  answers. The statement index works over any lexer that tiles the text; the locale \<open>lexer\<close> states
  that contract and \<open>tokenizer\<close> interprets it with \<open>tokens_for\<close>.

  \<^bold>\<open>Connections.\<close> \<open>Sasl_Frames\<close> (\<open>connector/sasl.rs\<close>) is the negotiation and the frames over any
  socket (C8); \<open>Thrift_Limits\<close> (\<open>connector/protocol.rs\<close>) charges every string and container
  of a response before it is allocated; a run records the buffers and element counts that were really
  given out, and a potential argument bounds them by the charge (C30); \<open>Trino_Session\<close> (\<open>connector/trino/protocol.rs\<close>) is the session that the headers of a Trino
  server change (C12); \<open>Oidc_Jwt\<close> (\<open>oidc/jwt.rs\<close>) validates ID tokens (C38); \<open>External_Auth\<close>
  (\<open>external_auth.rs\<close>) shares one browser sign-in among the queries of a connection (C33).

  \<^bold>\<open>Trino results.\<close> \<open>Trino_Raw\<close> (\<open>connector/trino/raw.rs\<close>, \<open>preview.rs\<close>) reads the rows of a page and
  keeps the prefix of a preview in a file, which refines a queue of rows (C27). \<open>Segments\<close>
  (\<open>spooling.rs\<close>, \<open>segment_download.rs\<close>) are the descriptors of spooled segments, their download with
  redirects and their acknowledgement, with the requests that each sends (C34). \<open>Segment_Reader\<close> (\<open>segment_reader.rs\<close>,
  \<open>segment_threads.rs\<close>) puts them in order: slots, attempts, batches and commits, with every call
  of \<open>ack\<close> recorded where the code makes it (C10).

  \<^bold>\<open>The workspace.\<close> \<open>Names\<close>, \<open>Catalog_Settings\<close>, \<open>Schema_Rules\<close>, \<open>Profiles\<close> and \<open>Workspace\<close>
  (\<open>model.rs\<close>, \<open>model/transfer.rs\<close>): unique names (C25, with the locale \<open>fresh_search\<close>, interpreted for
  names of copies, titles of tabs and column suffixes), glob patterns, the text of schema rules,
  connections and sign-ins with their checks and their shared text (C36), and the normalization that
  every load runs (C26).

  \<^bold>\<open>The schema tree and dbt.\<close> \<open>Catalog_Cache\<close> (\<open>catalog.rs\<close>) is the tree and its updates from
  metadata rows (C9), \<open>Refresh_Queue\<close> (\<open>catalog/worker.rs\<close>) the queue of refreshes (C16),
  \<open>Dbt_Index\<close> and \<open>Dbt_Matching\<close> (\<open>dbt.rs\<close>, \<open>dbt/matching.rs\<close>) the index of a project and its
  relations (C13).

  \<^bold>\<open>Logs.\<close> \<open>Logs\<close> and \<open>Logs_Props\<close> (\<open>logs.rs\<close>) are the history of a tab (C11), \<open>Activity\<close>
  (\<open>activity.rs\<close>) the log of each connection (C14).

  \<^bold>\<open>Results and exports.\<close> \<open>Rows\<close> (\<open>export/rows.rs\<close>, \<open>pagination.rs\<close>) is the store of preview rows
  (C17), \<open>Budget\<close> and \<open>Budget_Props\<close> the memory budget (C19), \<open>Disk\<close> the disk reservations (C15),
  \<open>Jobs\<close> the registry (C21, C22), \<open>Download\<close> (\<open>worker/download.rs\<close>) the download and its cancellation
  (C31), \<open>Spool\<close> (\<open>export/spool.rs\<close>) the file between the download and its readers (C32). \<open>Export_Io\<close>,
  \<open>Column_Values\<close>, \<open>Decimal\<close>, \<open>Temporal\<close>, \<open>Csv\<close>, \<open>Json\<close>, \<open>Markdown\<close>, \<open>Export\<close> and \<open>Export_Stream\<close> are the
  formats: exact decimals (C23), texts that are read back (C28), formulas that are not
  (C29), JSON lines, copies that are complete or refused (C37), and streams that equal the
  export of the whole table (C18).

  \<^bold>\<open>The assistant.\<close> \<open>Inbox\<close> (\<open>assistant/inbox.rs\<close>) is the bounded channel of its worker, with
  the messages that the worker of \<open>assistant/claude.rs\<close> holds, also a result that it has taken (C39, C40),
  \<open>Transcripts\<close> (\<open>assistant/transcripts.rs\<close>) the saved conversations and the writer
  thread, step by step through its batches (C20, C35), \<open>Broker\<close>
  (\<open>assistant/broker.rs\<close>) the boundary between the tools of the assistant and the editor: edits change
  only the ranges they name, up to the layout of the statements that they supply completely (C6), and answers page through the rows of a result (C24).

  \<^bold>\<open>Locales.\<close> \<open>kept_invariant\<close> is the contract of every state machine; it is interpreted for the
  activity logs, the budget, the registry, the inbox, the disk reservations, the catalog, the catalog
  worker, the spool, the download, the store of transcripts, the Trino session and the shared sign-ins, and their
  properties rest on the facts of these interpretations. \<open>lexer\<close> and \<open>fresh_search\<close> are above.

  \<^bold>\<open>Parameters.\<close> What is not in the repository is an argument: Unicode tables and case folding,
  display widths and grapheme clusters, \<open>sqlformat\<close>, \<open>serde_json\<close>, base64 and number texts, the
  signature schemes, the binary protocol of \<open>thrift\<close>, \<open>postcard\<close>, \<open>chrono\<close>, \<open>url\<close>,
  \<open>form_urlencoded\<close> and the checks of HTTP header values, sockets (a script of deliveries), the disk,
  clocks and capacities of collections. Hypotheses about them are the documented behaviour (a codec
  reads what it wrote, a capacity holds its text) and each property with one has a witness on a
  concrete instance.

  \<^bold>\<open>Termination and bounds.\<close> Loops that shorten a text or a list end by a measure on its length.
  The attempts of a segment and its redirects count down from the limits of the code. Two searches
  have no such measure and are \<open>partial_function (option)\<close>: the glob matcher
  \<open>glob_loop\<close> and \<open>find_free\<close>. Both are proved to return (\<open>glob_loop\<close> by a measure on the two
  positions in \<open>Catalog_Settings\<close>; \<open>find_free\<close> after at most one more candidate than there are taken
  names, C25). No definition takes fuel. The limits of the code are its constants.

  \<^bold>\<open>Not modelled.\<close> The window (\<open>ui.rs\<close>, \<open>ui/\<close>) draws with a graphics library and keeps widgets. The
  generated Thrift types (\<open>connector/t_c_l_i_service.rs\<close>) have no logic of their own. The connectors
  (\<open>connector/hive.rs\<close>, \<open>postgres\<close>, and of \<open>trino\<close> the HTTP requests of a query), \<open>oidc/http.rs\<close>, \<open>tls.rs\<close>, \<open>worker.rs\<close>,
  \<open>storage.rs\<close> and the processes of the assistant are calls of client libraries, sockets, files,
  Keychain and child processes around the models above. The Parquet writer is a crate behind a thin
  layer. Themes, assets and build information are data.
\<close>

end
